(* ===== verification/Prelude.thy ===== *)
theory Prelude
  imports Main "HOL-Library.Word" "HOL-Library.Multiset"
begin

text \<open>
  Shared vocabulary of the development: the machine types the code uses, the
  two collections its proofs are driven by, and the generic lemmas on lists and
  words that several components need.

  A \<open>std::expected<T, E>\<close> is the sum \<open>'e + 'a\<close>, the error on the left. A
  \<open>std::span\<close> or \<open>std::vector\<close> is a list, its element type kept at its width.
  \<open>std::size_t\<close> is \<open>nat\<close>: no buffer of the program reaches \<open>2 ^ 64\<close> elements,
  so the only wrap-around that can matter is the one of the narrower integers,
  which stay words.
\<close>

unbundle bit_operations_syntax

type_synonym byte = "8 word"
type_synonym u8 = "8 word"
type_synonym u16 = "16 word"
type_synonym u32 = "32 word"
type_synonym u64 = "64 word"

named_theorems invariant_intros \<open>operations keep the invariant of their state\<close>
named_theorems refines \<open>the abstract effect of an operation\<close>

subsection \<open>Lists written through an index\<close>

lemma take_Suc_update [simp]:
  "w < length xs \<Longrightarrow> take (Suc w) (xs[w := x]) = take w xs @ [x]"
  by (simp add: take_Suc_conv_app_nth)

lemma drop_Suc_update [simp]: "drop (Suc w) (xs[w := x]) = drop (Suc w) xs"
  by simp

lemma nth_drop_Cons: "i < length xs \<Longrightarrow> drop i xs = xs ! i # drop (Suc i) xs"
  by (simp add: Cons_nth_drop_Suc)

lemma concat_blocks: "concat (map (\<lambda>k. map (\<lambda>i. g (w * k + i)) [0..<w]) [0..<n]) = map g [0..<w * n]"
proof (induction n)
  case (Suc n)
  have "map (\<lambda>i. g (w * n + i)) [0..<w] = map g [w * n..<w * n + w]"
    by (rule nth_equalityI) auto
  moreover have "[0..<w * Suc n] = [0..<w * n] @ [w * n..<w * n + w]"
    using upt_add_eq_append [of 0 "w * n" w] by (simp add: add.commute)
  ultimately show ?case using Suc by simp
qed simp

subsection \<open>Removal by moving the last element into the hole\<close>

definition swap_remove :: "nat \<Rightarrow> 'a list \<Rightarrow> 'a list" where
  "swap_remove i xs = butlast (xs[i := last xs])"

lemma last_update_last: "i < length xs \<Longrightarrow> last (xs[i := last xs]) = last xs"
  by (cases "xs = []") (auto simp: last_conv_nth nth_list_update)

lemma mset_swap_remove:
  assumes "i < length xs"
  shows "add_mset (xs ! i) (mset (swap_remove i xs)) = mset xs"
proof -
  let ?ys = "xs[i := last xs]"
  have "?ys = butlast ?ys @ [last xs]"
    using assms by (metis append_butlast_last_id last_update_last length_0_conv length_list_update not_less_zero)
  then have "mset ?ys = add_mset (last xs) (mset (swap_remove i xs))"
    by (metis swap_remove_def mset_append mset.simps union_mset_add_mset_right add.right_neutral)
  moreover have "mset ?ys = add_mset (last xs) (mset xs - {#xs ! i#})"
    using assms by (rule mset_update)
  ultimately have "mset (swap_remove i xs) = mset xs - {#xs ! i#}" by simp
  with assms show ?thesis by (metis insert_DiffM nth_mem_mset)
qed

lemma length_swap_remove [simp]: "i < length xs \<Longrightarrow> length (swap_remove i xs) = length xs - 1"
  by (simp add: swap_remove_def)

lemma set_swap_remove:
  assumes "i < length xs" and "distinct (map f xs)"
  shows "set (swap_remove i xs) = {x \<in> set xs. f x \<noteq> f (xs ! i)}"
    and "distinct (map f (swap_remove i xs))"
proof -
  have m: "add_mset (xs ! i) (mset (swap_remove i xs)) = mset xs"
    using assms(1) by (rule mset_swap_remove)
  then have perm: "mset (xs ! i # swap_remove i xs) = mset xs" by simp
  then have "mset (map f (xs ! i # swap_remove i xs)) = mset (map f xs)"
    by (metis mset_map)
  with assms(2) have d: "distinct (map f (xs ! i # swap_remove i xs))"
    using mset_eq_imp_distinct_iff by blast
  then show "distinct (map f (swap_remove i xs))" by simp
  have "set xs = insert (xs ! i) (set (swap_remove i xs))"
    using perm by (metis list.simps(15) set_mset_mset)
  with d show "set (swap_remove i xs) = {x \<in> set xs. f x \<noteq> f (xs ! i)}"
    by auto (metis imageI)
qed

subsection \<open>\<open>std::vector::resize\<close> and \<open>std::string::resize\<close>\<close>

definition resize_list :: "nat \<Rightarrow> 'a \<Rightarrow> 'a list \<Rightarrow> 'a list" where
  "resize_list k x xs = take k xs @ replicate (k - length xs) x"

lemma length_resize_list [simp]: "length (resize_list k x xs) = k"
  by (simp add: resize_list_def)

subsection \<open>\<open>std::bit_width\<close> and \<open>std::bit_ceil\<close>\<close>

fun bit_width :: "nat \<Rightarrow> nat" where
  "bit_width n = (if n = 0 then 0 else Suc (bit_width (n div 2)))"

declare bit_width.simps [simp del]

lemma bit_width_powers:
  "bit_width 2 = 2" "bit_width 4 = 3" "bit_width 8 = 4" "bit_width 16 = 5" "bit_width 32 = 6" "bit_width 64 = 7"
  by code_simp+

lemma bit_width_less: "n < 2 ^ bit_width n"
proof (induction n rule: bit_width.induct)
  case (1 n)
  then show ?case by (cases "n = 0") (simp_all add: bit_width.simps [of n])
qed

lemma bit_width_power: "n < 2 ^ k \<Longrightarrow> 2 ^ k \<le> 2 * n \<Longrightarrow> bit_width n = k"
proof (induction k arbitrary: n)
  case (Suc k)
  show ?case
  proof (cases k)
    case 0
    with Suc.prems have "n = 1" by simp
    with 0 show ?thesis by (simp add: bit_width.simps [of "Suc 0"] bit_width.simps [of 0])
  next
    case (Suc j)
    have "2 ^ Suc k \<le> 2 * n" by fact
    then have "n \<noteq> 0" "2 ^ k \<le> 2 * (n div 2)" using Suc by (cases "n = 0", simp_all)
    moreover have "n div 2 < 2 ^ k" using Suc.prems(1) by simp
    ultimately show ?thesis using Suc.IH [of "n div 2"] by (simp add: bit_width.simps [of n])
  qed
qed (simp add: bit_width.simps [of 0])

definition bit_ceil :: "nat \<Rightarrow> nat" where
  "bit_ceil n = (if n \<le> 1 then 1 else 2 ^ bit_width (n - 1))"

lemma bit_ceil_ge: "n \<le> bit_ceil n"
  using bit_width_less [of "n - 1"] by (auto simp: bit_ceil_def)

lemma bit_ceil_power [simp]: "bit_ceil (2 ^ p) = 2 ^ p"
proof (cases "p = 0")
  case False
  have "(2 :: nat) \<le> 2 ^ p" using False by (cases p) simp_all
  then have "(2 :: nat) ^ p \<le> 2 * (2 ^ p - 1)" by linarith
  then have "bit_width (2 ^ p - 1) = p" by (intro bit_width_power) simp_all
  moreover have "\<not> (2 :: nat) ^ p \<le> 1" using \<open>2 \<le> 2 ^ p\<close> by linarith
  ultimately show ?thesis by (simp add: bit_ceil_def)
qed (simp add: bit_ceil_def)

lemma bit_ceil_is_power: "\<exists>p. bit_ceil n = 2 ^ p"
  by (auto simp: bit_ceil_def intro: exI [of _ 0])

subsection \<open>Words\<close>

lemma unat_pred: "w \<noteq> 0 \<Longrightarrow> unat w - 1 = unat (w - 1)" for w :: "'a::len word"
  by (simp add: unat_minus_one)

lemma unat_gt_0_iff [simp]: "0 < unat w \<longleftrightarrow> w \<noteq> 0" for w :: "'a::len word"
  by (simp add: unat_gt_0)

lemma unat_byte_less [simp]: "unat w < 256" for w :: byte
  using unsigned_less [of w, where ?'a = nat] by simp

lemma word_bits_eq: "v = w \<longleftrightarrow> (\<forall>n. bit v n = bit w n)" for v w :: "'a::len word"
  by (metis bit_eqI)

lemma ucast_u8_less: "(ucast x :: u32) < ucast y \<longleftrightarrow> x < y" for x y :: u8
  by (simp add: word_less_nat_alt unsigned_ucast_eq take_bit_nat_eq_self
      order_less_le_trans [OF unat_byte_less])

lemma unat_ucast_u8 [simp]:
  "unat (ucast x :: u16) = unat x" "unat (ucast x :: u32) = unat x" for x :: u8
  by (simp_all add: unsigned_ucast_eq take_bit_nat_eq_self order_less_le_trans [OF unat_byte_less])

lemma unat_of_nat_byte: "n < 256 \<Longrightarrow> unat (of_nat n :: byte) = n"
  by (simp add: unat_of_nat)

lemma unat_of_nat_less: "n < 2 ^ LENGTH('a) \<Longrightarrow> unat (of_nat n :: 'a::len word) = n"
  by (simp add: unat_of_nat)

lemma words_below: "n \<le> 2 ^ LENGTH('i) \<Longrightarrow> {w :: 'i::len word. unat w < n} = of_nat ` {..<n}"
  by (auto simp: image_iff unat_of_nat_less) (metis lessThan_iff of_nat_unat ucast_id)

lemma card_words_below: "n \<le> 2 ^ LENGTH('i) \<Longrightarrow> card {w :: 'i::len word. unat w < n} = n"
proof -
  assume n: "n \<le> 2 ^ LENGTH('i)"
  have "inj_on (of_nat :: nat \<Rightarrow> 'i word) {..<n}"
    using n by (intro inj_onI) (metis lessThan_iff less_le_trans unat_of_nat_less)
  then show ?thesis by (simp add: words_below [OF n] card_image)
qed

lemma nth_list_update_word:
  "p[unat c := x] ! unat w = (if w = c \<and> unat c < length p then x else p ! unat w)"
  for w c :: "'i::len word"
  by (auto simp: nth_list_update list_update_beyond dest: unsigned_word_eqI
      intro: nth_list_update_neq)

lemma unat_max: "unat (- 1 :: 'i::len word) = 2 ^ LENGTH('i) - 1"
  by (simp add: unsigned_minus_1_eq_mask mask_eq_exp_minus_1)

end
