(* ===== verification/Cobs.thy ===== *)
theory Cobs
  imports Prelude
begin

text \<open>
  Consistent Overhead Byte Stuffing: \<open>utility/cobs.hpp\<close>.

  The code writes through a span of fixed size; the model threads the buffer,
  the write index, the slot of the pending code byte and the code, and returns
  the buffer beside the result, so that the bytes written before an error are
  there too. \<open>cobs_frame\<close> is the specification: the frame as a function of the
  payload, with no buffer.
\<close>

subsection \<open>The code\<close>

datatype cobs_error = Invalid_input | Truncated_input | Output_too_small

fun cobs_error_to_string :: "cobs_error \<Rightarrow> string" where
  "cobs_error_to_string Invalid_input = ''invalid_input''"
| "cobs_error_to_string Truncated_input = ''truncated_input''"
| "cobs_error_to_string Output_too_small = ''output_too_small''"

definition max_encoded_size :: "nat \<Rightarrow> nat" where
  "max_encoded_size payload_len = payload_len + payload_len div 254 + 1"

record enc_state =
  enc_out :: "byte list"
  enc_write :: nat
  enc_code_idx :: nat
  enc_code :: u8

definition enc_init :: "byte list \<Rightarrow> enc_state" where
  "enc_init out = \<lparr>enc_out = out, enc_write = 1, enc_code_idx = 0, enc_code = 1\<rparr>"

definition enc_close :: "enc_state \<Rightarrow> enc_state" where
  "enc_close s = s\<lparr>enc_out := (enc_out s)[enc_code_idx s := enc_code s]\<rparr>"

definition enc_open :: "enc_state \<Rightarrow> enc_state" where
  "enc_open s = s\<lparr>enc_code_idx := enc_write s, enc_write := Suc (enc_write s), enc_code := 1\<rparr>"

definition enc_flush :: "enc_state \<Rightarrow> enc_state + enc_state" where
  "enc_flush s =
     (let s' = enc_close s
      in if length (enc_out s') \<le> enc_write s' then Inl s' else Inr (enc_open s'))"

definition enc_step :: "enc_state \<Rightarrow> byte \<Rightarrow> enc_state + enc_state" where
  "enc_step s b =
     (if b \<noteq> 0 then
        if length (enc_out s) \<le> enc_write s then Inl s
        else
          let s' = s\<lparr>enc_out := (enc_out s)[enc_write s := b],
                     enc_write := Suc (enc_write s), enc_code := enc_code s + 1\<rparr>
          in if enc_code s' = 0xFF then enc_flush s' else Inr s'
      else enc_flush s)"

fun enc_loop :: "enc_state \<Rightarrow> byte list \<Rightarrow> enc_state + enc_state" where
  "enc_loop s [] = Inr s"
| "enc_loop s (b # bs) =
     (case enc_step s b of Inl s' \<Rightarrow> Inl s' | Inr s' \<Rightarrow> enc_loop s' bs)"

definition cobs_encode :: "byte list \<Rightarrow> byte list \<Rightarrow> (cobs_error + nat) \<times> byte list" where
  "cobs_encode inp out =
     (if length out < 1 then (Inl Output_too_small, out)
      else
        case enc_loop (enc_init out) inp of
          Inl s \<Rightarrow> (Inl Output_too_small, enc_out s)
        | Inr s \<Rightarrow> (Inr (enc_write s), enc_out (enc_close s)))"

record dec_state =
  dec_read :: nat
  dec_write :: nat
  dec_out :: "byte list"

definition dec_put :: "byte \<Rightarrow> dec_state \<Rightarrow> (cobs_error \<times> dec_state) + dec_state" where
  "dec_put b s =
     (if length (dec_out s) \<le> dec_write s then Inl (Output_too_small, s)
      else Inr (s\<lparr>dec_out := (dec_out s)[dec_write s := b], dec_write := Suc (dec_write s)\<rparr>))"

text \<open>The inner loop: \<open>code - 1\<close> data bytes of one block.\<close>

fun dec_run :: "byte list \<Rightarrow> nat \<Rightarrow> dec_state \<Rightarrow> (cobs_error \<times> dec_state) + dec_state" where
  "dec_run inp 0 s = Inr s"
| "dec_run inp (Suc k) s =
     (if length inp \<le> dec_read s then Inl (Truncated_input, s)
      else
        let b = inp ! dec_read s; s' = s\<lparr>dec_read := Suc (dec_read s)\<rparr>
        in if b = 0 then Inl (Invalid_input, s')
           else case dec_put b s' of Inl e \<Rightarrow> Inl e | Inr s'' \<Rightarrow> dec_run inp k s'')"

text \<open>One block: its code byte, its data and the zero it may imply.\<close>

definition dec_block :: "byte list \<Rightarrow> dec_state \<Rightarrow> (cobs_error \<times> dec_state) + dec_state" where
  "dec_block inp s =
     (let code = inp ! dec_read s; s' = s\<lparr>dec_read := Suc (dec_read s)\<rparr>
      in if code = 0 then Inl (Invalid_input, s')
         else
           case dec_run inp (unat code - 1) s' of
             Inl e \<Rightarrow> Inl e
           | Inr s'' \<Rightarrow>
               if code \<noteq> 0xFF \<and> dec_read s'' < length inp then dec_put 0 s'' else Inr s'')"

lemma dec_put_read: "dec_put b s = Inr t \<Longrightarrow> dec_read t = dec_read s"
  by (auto simp: dec_put_def split: if_splits)

lemma dec_run_read: "dec_run inp k s = Inr t \<Longrightarrow> dec_read s \<le> dec_read t"
proof (induction inp k s rule: dec_run.induct)
  case (2 inp k s)
  then show ?case
    by (fastforce simp: Let_def dest: dec_put_read split: if_splits sum.splits)
qed simp

lemma dec_block_read: "dec_block inp s = Inr t \<Longrightarrow> dec_read s < dec_read t"
  by (fastforce simp: dec_block_def Let_def dest: dec_run_read dec_put_read
      split: if_splits sum.splits)

function dec_loop :: "byte list \<Rightarrow> dec_state \<Rightarrow> (cobs_error \<times> dec_state) + dec_state" where
  "dec_loop inp s =
     (if dec_read s < length inp then
        case dec_block inp s of Inl e \<Rightarrow> Inl e | Inr s' \<Rightarrow> dec_loop inp s'
      else Inr s)"
  by pat_completeness auto
termination
  by (relation "measure (\<lambda>(inp, s). length inp - dec_read s)") (auto dest: dec_block_read)

declare dec_loop.simps [simp del]

definition cobs_decode :: "byte list \<Rightarrow> byte list \<Rightarrow> (cobs_error + nat) \<times> byte list" where
  "cobs_decode inp out =
     (case dec_loop inp \<lparr>dec_read = 0, dec_write = 0, dec_out = out\<rparr> of
        Inl (e, s) \<Rightarrow> (Inl e, dec_out s)
      | Inr s \<Rightarrow> (Inr (dec_write s), dec_out s))"

subsection \<open>The frame as a function of the payload\<close>

text \<open>\<open>pre\<close> is the run of non-zero bytes since the last code byte.\<close>

fun cobs_body :: "byte list \<Rightarrow> byte list \<Rightarrow> byte list" where
  "cobs_body pre [] = of_nat (Suc (length pre)) # pre"
| "cobs_body pre (b # bs) =
     (if b \<noteq> 0 then
        if length pre = 253 then 0xFF # pre @ b # cobs_body [] bs
        else cobs_body (pre @ [b]) bs
      else of_nat (Suc (length pre)) # pre @ cobs_body [] bs)"

definition cobs_frame :: "byte list \<Rightarrow> byte list" where
  "cobs_frame payload = cobs_body [] payload"

lemma code_byte: "n < 255 \<Longrightarrow> (of_nat n :: byte) \<noteq> 0xFF"
  and code_byte_pos: "n < 255 \<Longrightarrow> (of_nat (Suc n) :: byte) \<noteq> 0"
proof -
  have "(of_nat n :: byte) = 0xFF \<Longrightarrow> n < 255 \<Longrightarrow> False"
    using unat_of_nat_byte [of n] by simp
  then show "n < 255 \<Longrightarrow> (of_nat n :: byte) \<noteq> 0xFF" by blast
  have "(of_nat (Suc n) :: byte) = 0 \<Longrightarrow> n < 255 \<Longrightarrow> False"
    using unat_of_nat_byte [of "Suc n"] by simp
  then show "n < 255 \<Longrightarrow> (of_nat (Suc n) :: byte) \<noteq> 0" by blast
qed

lemma cobs_body_nonempty [simp]: "cobs_body pre bs \<noteq> []"
  by (induction pre bs rule: cobs_body.induct) auto

lemma cobs_body_longer: "length pre + length bs < length (cobs_body pre bs)"
  by (induction pre bs rule: cobs_body.induct) auto

lemma cobs_body_bound:
  "length pre < 254 \<Longrightarrow>
   length (cobs_body pre bs) \<le> length pre + length bs + (length pre + length bs) div 254 + 1"
proof (induction pre bs rule: cobs_body.induct)
  case (2 pre b bs)
  consider (full) "b \<noteq> 0" "length pre = 253" | (run) "b \<noteq> 0" "length pre < 253" | (zero) "b = 0"
    using "2.prems" by linarith
  then show ?case
  proof cases
    case full
    then show ?thesis using "2.IH"(1) by simp
  next
    case run
    then show ?thesis using "2.IH"(2) by simp
  next
    case zero
    have "length bs div 254 \<le> (length pre + Suc (length bs)) div 254"
      by (rule div_le_mono) simp
    with zero "2.IH"(3) show ?thesis by simp
  qed
qed simp

lemma cobs_body_no_zero:
  "0 \<notin> set pre \<Longrightarrow> length pre < 254 \<Longrightarrow> 0 \<notin> set (cobs_body pre bs)"
proof (induction pre bs rule: cobs_body.induct)
  case (1 pre)
  then show ?case using code_byte_pos [of "length pre"] by auto
next
  case (2 pre b bs)
  then show ?case using code_byte_pos [of "length pre"] by auto
qed

lemma cobs_frame_no_zero: "0 \<notin> set (cobs_frame bs)"
  by (simp add: cobs_frame_def cobs_body_no_zero)

lemma length_cobs_frame: "length (cobs_frame bs) \<le> max_encoded_size (length bs)"
  using cobs_body_bound [of "[]" bs] by (simp add: cobs_frame_def max_encoded_size_def)

subsection \<open>The encoder writes the frame\<close>

text \<open>
  The encoder's state in the middle of a run: the finished blocks \<open>blk\<close>, the slot kept
  for the code byte (its content \<open>z\<close> is stale), the run \<open>pre\<close> and the untouched rest.
\<close>

definition enc_at :: "byte list \<Rightarrow> byte \<Rightarrow> byte list \<Rightarrow> byte list \<Rightarrow> enc_state" where
  "enc_at blk z pre rest =
     \<lparr>enc_out = blk @ z # pre @ rest, enc_write = length blk + 1 + length pre,
      enc_code_idx = length blk, enc_code = of_nat (Suc (length pre))\<rparr>"

lemma enc_init_at: "enc_init (z # rest) = enc_at [] z [] rest"
  by (simp add: enc_init_def enc_at_def)

lemma enc_close_at:
  "enc_out (enc_close (enc_at blk z pre rest)) = blk @ of_nat (Suc (length pre)) # pre @ rest"
  by (simp add: enc_close_def enc_at_def)

lemma enc_flush_at:
  "enc_flush (enc_at blk z pre []) = Inl (enc_close (enc_at blk z pre []))"
  "enc_flush (enc_at blk z pre (r # rest)) =
     Inr (enc_at (blk @ of_nat (Suc (length pre)) # pre) r [] rest)"
  by (simp_all add: enc_flush_def enc_close_def enc_open_def enc_at_def)

lemma enc_step_at:
  assumes "length pre < 254"
  shows "enc_step (enc_at blk z pre rest) b =
    (if b = 0 then enc_flush (enc_at blk z pre rest)
     else case rest of
       [] \<Rightarrow> Inl (enc_at blk z pre rest)
     | r # rs \<Rightarrow>
         (if length pre = 253 then enc_flush (enc_at blk z (pre @ [b]) rs)
          else Inr (enc_at blk z (pre @ [b]) rs)))"
proof (cases rest)
  case Nil
  then show ?thesis by (simp add: enc_step_def enc_at_def)
next
  case (Cons r rs)
  have code: "(of_nat (Suc (Suc (length pre))) :: byte) = 0xFF \<longleftrightarrow> length pre = 253"
  proof
    assume *: "(of_nat (Suc (Suc (length pre))) :: byte) = 0xFF"
    have "unat (of_nat (Suc (Suc (length pre))) :: byte) = Suc (Suc (length pre))"
      using assms by (intro unat_of_nat_byte) simp
    then have "unat (0xFF :: byte) = Suc (Suc (length pre))" by (simp only: *)
    then show "length pre = 253" by simp
  qed simp
  have "(blk @ z # pre @ r # rs)[length blk + 1 + length pre := b]
        = blk @ z # (pre @ [b]) @ rs"
    by (simp add: list_update_append)
  with Cons code show ?thesis
    by (simp add: enc_step_def enc_at_def Let_def add_ac)
qed

lemma enc_loop_zero:
  "length pre < 254 \<Longrightarrow> enc_loop (enc_at blk z pre rest) (0 # bs) =
     (case rest of
        [] \<Rightarrow> Inl (enc_close (enc_at blk z pre rest))
      | r # rs \<Rightarrow> enc_loop (enc_at (blk @ of_nat (Suc (length pre)) # pre) r [] rs) bs)"
  by (cases rest) (simp_all add: enc_step_at enc_flush_at)

lemma enc_loop_full:
  "b \<noteq> 0 \<Longrightarrow> length pre = 253 \<Longrightarrow> enc_loop (enc_at blk z pre rest) (b # bs) =
     (case rest of
        [] \<Rightarrow> Inl (enc_at blk z pre rest)
      | [r] \<Rightarrow> Inl (enc_close (enc_at blk z (pre @ [b]) []))
      | r # r' # rs \<Rightarrow> enc_loop (enc_at (blk @ 0xFF # pre @ [b]) r' [] rs) bs)"
  by (auto simp: enc_step_at enc_flush_at split: list.split)

lemma enc_loop_run:
  "b \<noteq> 0 \<Longrightarrow> length pre < 253 \<Longrightarrow> enc_loop (enc_at blk z pre rest) (b # bs) =
     (case rest of
        [] \<Rightarrow> Inl (enc_at blk z pre rest)
      | r # rs \<Rightarrow> enc_loop (enc_at blk z (pre @ [b]) rs) bs)"
  by (cases rest) (simp_all add: enc_step_at)

declare enc_loop.simps(2) [simp del]

lemma enc_at_length:
  "length (enc_out (enc_at blk z pre rest)) = length blk + Suc (length pre + length rest)"
  "length (enc_out (enc_close s)) = length (enc_out s)"
  by (simp_all add: enc_at_def enc_close_def)

lemma enc_loop_fits:
  assumes "length pre < 254" and "length (cobs_body pre bs) \<le> Suc (length pre + length rest)"
  shows "\<exists>t. enc_loop (enc_at blk z pre rest) bs = Inr t
    \<and> enc_write t = length blk + length (cobs_body pre bs)
    \<and> enc_out (enc_close t) =
        blk @ cobs_body pre bs @ drop (length (cobs_body pre bs) - Suc (length pre)) rest"
  using assms
proof (induction pre bs arbitrary: blk z rest rule: cobs_body.induct)
  case (1 pre)
  then show ?case by (simp add: enc_close_at) (simp add: enc_at_def)
next
  case (2 pre b bs)
  consider (full) "b \<noteq> 0" "length pre = 253" | (run) "b \<noteq> 0" "length pre < 253" | (zero) "b = 0"
    using "2.prems" by linarith
  then show ?case
  proof cases
    case full
    with "2.prems" cobs_body_longer [of "[]" bs] obtain r r' rs where "rest = r # r' # rs"
      by (cases rest; cases "tl rest") auto
    with full "2.prems" "2.IH"(1) [of rs "blk @ 0xFF # pre @ [b]" r'] show ?thesis
      by (auto simp: enc_loop_full drop_Cons')
  next
    case run
    with "2.prems" cobs_body_longer [of "pre @ [b]" bs] obtain r rs where "rest = r # rs"
      by (cases rest) auto
    with run "2.prems" cobs_body_longer [of "pre @ [b]" bs] "2.IH"(2) [of rs blk z] show ?thesis
      by (auto simp: enc_loop_run drop_Cons')
  next
    case zero
    with "2.prems" cobs_body_longer [of "[]" bs] obtain r rs where "rest = r # rs"
      by (cases rest) auto
    with zero "2.prems" cobs_body_longer [of "[]" bs]
      "2.IH"(3) [of rs "blk @ of_nat (Suc (length pre)) # pre" r] show ?thesis
      by (auto simp: enc_loop_zero drop_Cons')
  qed
qed

lemma enc_loop_too_small:
  assumes "length pre < 254" and "Suc (length pre + length rest) < length (cobs_body pre bs)"
  shows "\<exists>t. enc_loop (enc_at blk z pre rest) bs = Inl t
    \<and> length (enc_out t) = length blk + Suc (length pre + length rest)"
  using assms
proof (induction pre bs arbitrary: blk z rest rule: cobs_body.induct)
  case (2 pre b bs)
  consider (full) "b \<noteq> 0" "length pre = 253" | (run) "b \<noteq> 0" "length pre < 253" | (zero) "b = 0"
    using "2.prems" by linarith
  then show ?case
  proof cases
    case full
    with "2.prems" "2.IH"(1) [where blk = "blk @ 0xFF # pre @ [b]"] show ?thesis
      by (fastforce simp: enc_loop_full enc_at_length add_ac split: list.split)
  next
    case run
    with "2.prems" "2.IH"(2) show ?thesis
      by (auto simp: enc_loop_run enc_at_length split: list.split)
  next
    case zero
    with "2.prems" "2.IH"(3) [where blk = "blk @ of_nat (Suc (length pre)) # pre"] show ?thesis
      by (fastforce simp: enc_loop_zero enc_at_length add_ac split: list.split)
  qed
qed simp

lemma cobs_encode_frame:
  assumes "length (cobs_frame inp) \<le> length out"
  shows "cobs_encode inp out =
    (Inr (length (cobs_frame inp)), cobs_frame inp @ drop (length (cobs_frame inp)) out)"
proof (cases out)
  case Nil
  with assms show ?thesis by (simp add: cobs_frame_def)
next
  case (Cons z rest)
  with assms enc_loop_fits [of "[]" inp rest "[]" z] show ?thesis
    by (auto simp: cobs_encode_def cobs_frame_def enc_init_at drop_Cons' split: if_splits)
qed

lemma cobs_encode_too_small:
  assumes "length out < length (cobs_frame inp)"
  shows "\<exists>out'. cobs_encode inp out = (Inl Output_too_small, out') \<and> length out' = length out"
proof (cases out)
  case Nil
  with assms show ?thesis by (simp add: cobs_encode_def)
next
  case (Cons z rest)
  with assms enc_loop_too_small [of "[]" rest inp "[]" z] show ?thesis
    by (auto simp: cobs_encode_def cobs_frame_def enc_init_at enc_at_def split: if_splits)
qed

subsection \<open>The decoder inverts the frame\<close>

definition dec_at :: "byte list \<Rightarrow> byte list \<Rightarrow> byte list \<Rightarrow> dec_state" where
  "dec_at pref d rest = \<lparr>dec_read = length pref, dec_write = length d, dec_out = d @ rest\<rparr>"

lemma dec_put_at: "dec_put b (dec_at pref d (r # rest)) = Inr (dec_at pref (d @ [b]) rest)"
  by (simp add: dec_put_def dec_at_def)

lemma dec_run_at:
  "inp = pref @ pre @ suf \<Longrightarrow> 0 \<notin> set pre \<Longrightarrow> length pre \<le> length rest \<Longrightarrow>
   dec_run inp (length pre) (dec_at pref d rest) =
     Inr (dec_at (pref @ pre) (d @ pre) (drop (length pre) rest))"
proof (induction pre arbitrary: pref d rest)
  case (Cons b pre)
  then obtain r rest' where rest: "rest = r # rest'" by (cases rest) auto
  have next_byte: "dec_at pref d rest\<lparr>dec_read := Suc (dec_read (dec_at pref d rest))\<rparr>
      = dec_at (pref @ [b]) d rest"
    by (simp add: dec_at_def)
  have "inp ! dec_read (dec_at pref d rest) = b" "dec_read (dec_at pref d rest) < length inp"
    using Cons.prems by (simp_all add: dec_at_def nth_append)
  with next_byte Cons.prems rest Cons.IH [of "pref @ [b]" rest' "d @ [b]"] show ?case
    by (simp add: Let_def dec_put_at)
qed simp

lemma dec_block_at:
  assumes "inp = pref @ code # pre @ suf" and "0 \<notin> set pre" and "code \<noteq> 0"
    and "unat code = Suc (length pre)" and "length pre \<le> length rest"
  shows "dec_block inp (dec_at pref d rest) =
    (if code \<noteq> 0xFF \<and> suf \<noteq> [] then
       dec_put 0 (dec_at (pref @ code # pre) (d @ pre) (drop (length pre) rest))
     else Inr (dec_at (pref @ code # pre) (d @ pre) (drop (length pre) rest)))"
proof -
  have next_byte: "dec_at pref d rest\<lparr>dec_read := Suc (dec_read (dec_at pref d rest))\<rparr>
      = dec_at (pref @ [code]) d rest"
    by (simp add: dec_at_def)
  have read: "inp ! dec_read (dec_at pref d rest) = code"
    using assms(1) by (simp add: dec_at_def nth_append)
  have "dec_run inp (unat code - 1) (dec_at (pref @ [code]) d rest) =
      Inr (dec_at (pref @ code # pre) (d @ pre) (drop (length pre) rest))"
    using dec_run_at [of inp "pref @ [code]" pre suf rest d] assms by simp
  moreover have "dec_read (dec_at (pref @ code # pre) (d @ pre) (drop (length pre) rest)) < length inp
      \<longleftrightarrow> suf \<noteq> []"
    using assms(1) by (simp add: dec_at_def)
  ultimately show ?thesis
    using assms(3) by (simp add: dec_block_def Let_def read next_byte)
qed

lemma dec_loop_step:
  "inp = pref @ code # suf \<Longrightarrow>
   dec_loop inp (dec_at pref d rest) =
     (case dec_block inp (dec_at pref d rest) of Inl e \<Rightarrow> Inl e | Inr s \<Rightarrow> dec_loop inp s)"
  by (subst dec_loop.simps) (simp add: dec_at_def)

lemma dec_loop_end: "dec_loop inp (dec_at inp d rest) = Inr (dec_at inp d rest)"
  by (subst dec_loop.simps) (simp add: dec_at_def)

lemma dec_loop_at:
  assumes "inp = pref @ cobs_body pre bs" and "0 \<notin> set pre" and "length pre < 254"
    and "length pre + length bs \<le> length rest"
  shows "dec_loop inp (dec_at pref d rest) =
    Inr (dec_at inp (d @ pre @ bs) (drop (length pre + length bs) rest))"
  using assms
proof (induction pre bs arbitrary: pref d rest rule: cobs_body.induct)
  case (1 pre)
  let ?code = "of_nat (Suc (length pre)) :: byte"
  have code: "unat ?code = Suc (length pre)" "?code \<noteq> 0" "?code \<noteq> 0xFF"
    using "1.prems" code_byte [of "Suc (length pre)"] code_byte_pos [of "length pre"]
    by (auto intro!: unat_of_nat_byte simp del: of_nat_Suc)
  have inp: "inp = pref @ ?code # pre" using "1.prems" by simp
  with "1.prems" code dec_block_at [of inp pref ?code pre "[]" rest d] show ?case
    by (simp add: dec_loop_step dec_loop_end del: of_nat_Suc)
next
  case (2 pre b bs)
  let ?code = "of_nat (Suc (length pre)) :: byte"
  have code: "unat ?code = Suc (length pre)" "?code \<noteq> 0" "?code \<noteq> 0xFF"
    using "2.prems" code_byte [of "Suc (length pre)"] code_byte_pos [of "length pre"]
    by (auto intro!: unat_of_nat_byte simp del: of_nat_Suc)
  consider (full) "b \<noteq> 0" "length pre = 253" | (run) "b \<noteq> 0" "length pre \<noteq> 253" | (zero) "b = 0"
    by blast
  then show ?case
  proof cases
    case full
    with "2.prems" have inp: "inp = pref @ 0xFF # (pre @ [b]) @ cobs_body [] bs" by simp
    have "dec_loop inp (dec_at (pref @ 0xFF # pre @ [b]) (d @ pre @ [b]) (drop 254 rest)) =
        Inr (dec_at inp ((d @ pre @ [b]) @ bs) (drop (length bs) (drop 254 rest)))"
      using "2.IH"(1) [of "pref @ 0xFF # pre @ [b]" "drop 254 rest" "d @ pre @ [b]"]
        full "2.prems" inp by simp
    moreover have "dec_block inp (dec_at pref d rest) =
        Inr (dec_at (pref @ 0xFF # pre @ [b]) (d @ pre @ [b]) (drop 254 rest))"
      using full "2.prems" by (subst dec_block_at [OF inp]) simp_all
    ultimately show ?thesis
      using full inp by (simp add: dec_loop_step add.commute)
  next
    case run
    with "2.prems" "2.IH"(2) [of pref rest d] show ?thesis by simp
  next
    case zero
    with "2.prems" have inp: "inp = pref @ ?code # pre @ cobs_body [] bs" by simp
    obtain r rest' where rest': "drop (length pre) rest = r # rest'"
      using "2.prems"(4) by (cases "drop (length pre) rest") auto
    then have rest'': "rest' = drop (Suc (length pre)) rest"
      by (metis drop_Suc list.sel(3) drop_Suc tl_drop)
    have "dec_loop inp (dec_at (pref @ ?code # pre) (d @ pre @ [0]) rest') =
        Inr (dec_at inp ((d @ pre @ [0]) @ bs) (drop (length bs) rest'))"
      using "2.IH"(3) [of "pref @ ?code # pre" rest' "d @ pre @ [0]"] zero "2.prems" inp rest''
      by simp
    with zero "2.prems" inp code rest' rest''
      dec_block_at [of inp pref ?code pre "cobs_body [] bs" rest d]
    show ?thesis
      by (simp add: dec_loop_step dec_put_at add.commute del: of_nat_Suc)
  qed
qed

lemma cobs_decode_frame:
  assumes "length payload \<le> length buf"
  shows "cobs_decode (cobs_frame payload) buf =
    (Inr (length payload), payload @ drop (length payload) buf)"
  using dec_loop_at [of "cobs_frame payload" "[]" "[]" payload buf "[]"] assms
  by (simp add: cobs_decode_def cobs_frame_def dec_at_def)

subsection \<open>What the decoder accepts\<close>

text \<open>
  On every input, malformed or not: the decoder stays inside both buffers, leaves the
  tail of its output alone, and accepts no frame with a zero byte in it.
\<close>

definition dec_inv :: "byte list \<Rightarrow> byte list \<Rightarrow> dec_state \<Rightarrow> bool" where
  "dec_inv inp out s \<longleftrightarrow>
     dec_read s \<le> length inp \<and> dec_write s \<le> dec_read s \<and> dec_write s \<le> length out \<and>
     length (dec_out s) = length out \<and> drop (dec_write s) (dec_out s) = drop (dec_write s) out \<and>
     0 \<notin> set (take (dec_read s) inp)"

lemma dec_put_Inr:
  "dec_put b s = Inr t \<longleftrightarrow>
   dec_write s < length (dec_out s) \<and>
   t = s\<lparr>dec_out := (dec_out s)[dec_write s := b], dec_write := Suc (dec_write s)\<rparr>"
  by (auto simp: dec_put_def)

lemma drop_Suc_eq: "drop n xs = drop n ys \<Longrightarrow> drop (Suc n) xs = drop (Suc n) ys"
  by (metis drop_Suc tl_drop)

lemma dec_run_inv:
  "dec_run inp k s = Inr t \<Longrightarrow> dec_inv inp out s \<Longrightarrow>
   dec_inv inp out t \<and> dec_read t = dec_read s + k \<and> dec_write t = dec_write s + k"
proof (induction inp k s rule: dec_run.induct)
  case (2 inp k s)
  let ?b = "inp ! dec_read s"
  let ?s' = "s\<lparr>dec_read := Suc (dec_read s)\<rparr>"
  from "2.prems"(1) obtain s'' where *: "dec_read s < length inp" "?b \<noteq> 0"
      "dec_put ?b ?s' = Inr s''" "dec_run inp k s'' = Inr t"
    by (auto simp: Let_def split: if_splits sum.splits)
  from *(1-3) "2.prems"(2) have "dec_inv inp out s''"
    by (auto simp: dec_inv_def dec_put_Inr take_Suc_conv_app_nth intro: drop_Suc_eq)
  with "2.IH" * show ?case
    by (auto simp: dec_put_Inr)
qed simp

lemma dec_block_inv:
  assumes "dec_block inp s = Inr t" and "dec_inv inp out s" and "dec_read s < length inp"
  shows "dec_inv inp out t \<and> (dec_read t = length inp \<longrightarrow> dec_write t < dec_read t)"
proof -
  let ?code = "inp ! dec_read s"
  let ?s' = "s\<lparr>dec_read := Suc (dec_read s)\<rparr>"
  from assms(1) obtain s'' where code: "?code \<noteq> 0"
    and run: "dec_run inp (unat ?code - 1) ?s' = Inr s''"
    and put: "t = s'' \<and> (?code = 0xFF \<or> length inp \<le> dec_read s'')
      \<or> dec_read s'' < length inp \<and> dec_put 0 s'' = Inr t"
    by (auto simp: dec_block_def Let_def split: if_splits sum.splits)
  from assms(2,3) code have "dec_inv inp out ?s'"
    by (auto simp: dec_inv_def take_Suc_conv_app_nth)
  with run have s'': "dec_inv inp out s''" "dec_read s'' = dec_read s + unat ?code"
      "dec_write s'' = dec_write s + (unat ?code - 1)"
    using code by (auto dest!: dec_run_inv simp: Suc_diff_le)
  have pos: "0 < unat ?code" using code by simp
  from assms(2) have "dec_write s \<le> dec_read s" by (simp add: dec_inv_def)
  with s''(2,3) pos have "dec_write s'' < dec_read s''" by linarith
  with put s'' show ?thesis
    by (auto simp: dec_inv_def dec_put_Inr intro: drop_Suc_eq)
qed

lemma dec_loop_inv:
  "dec_loop inp s = Inr t \<Longrightarrow> dec_inv inp out s \<Longrightarrow>
   dec_inv inp out t \<and> dec_read t = length inp \<and> (dec_read s < length inp \<longrightarrow> dec_write t < length inp)"
proof (induction inp s rule: dec_loop.induct)
  case (1 inp s)
  show ?case
  proof (cases "dec_read s < length inp")
    case True
    with "1.prems" obtain s' where s': "dec_block inp s = Inr s'" "dec_loop inp s' = Inr t"
      by (subst (asm) dec_loop.simps) (auto split: sum.splits)
    with dec_block_inv [OF s'(1) "1.prems"(2) True] have inv': "dec_inv inp out s'"
      and last: "dec_read s' = length inp \<longrightarrow> dec_write s' < dec_read s'"
      by auto
    from inv' have "dec_read s' \<le> length inp" by (simp add: dec_inv_def)
    moreover have "dec_read s' = length inp \<Longrightarrow> t = s'"
      using s'(2) by (subst (asm) dec_loop.simps) simp
    ultimately show ?thesis
      using "1.IH" [OF True s'] inv' last by fastforce
  next
    case False
    with "1.prems" show ?thesis
      by (subst (asm) dec_loop.simps) (auto simp: dec_inv_def)
  qed
qed

lemma dec_inv_init: "dec_inv inp out \<lparr>dec_read = 0, dec_write = 0, dec_out = out\<rparr>"
  by (simp add: dec_inv_def)

lemma cobs_decode_bounds:
  assumes "cobs_decode inp out = (Inr n, out')"
  shows "n \<le> length out \<and> length out' = length out \<and> drop n out' = drop n out \<and>
    0 \<notin> set inp \<and> (inp \<noteq> [] \<longrightarrow> n < length inp)"
proof -
  from assms obtain t where "dec_loop inp \<lparr>dec_read = 0, dec_write = 0, dec_out = out\<rparr> = Inr t"
    and t: "n = dec_write t" "out' = dec_out t"
    by (auto simp: cobs_decode_def split: sum.splits)
  from dec_loop_inv [OF this(1) dec_inv_init] t show ?thesis
    by (auto simp: dec_inv_def)
qed

subsection \<open>Properties\<close>

text \<open>The encoder writes exactly the specified frame when it fits, leaves the rest of the
buffer alone, and reports \<open>output_too_small\<close> precisely when it does not fit.\<close>

lemma cobs_encode_writes_frame:
  "if length (cobs_frame inp) \<le> length out
   then cobs_encode inp out =
     (Inr (length (cobs_frame inp)), cobs_frame inp @ drop (length (cobs_frame inp)) out)
   else \<exists>out'. cobs_encode inp out = (Inl Output_too_small, out') \<and> length out' = length out"
  using cobs_encode_frame cobs_encode_too_small by (simp add: not_le)

text \<open>C1: decoding what the encoder wrote yields the payload again, into any buffer that can
hold it, and leaves the rest of that buffer alone.\<close>

theorem cobs_round_trip:
  assumes "cobs_encode payload out = (Inr n, out')" and "length payload \<le> length buf"
  shows "cobs_decode (take n out') buf = (Inr (length payload), payload @ drop (length payload) buf)"
proof (cases "length (cobs_frame payload) \<le> length out")
  case True
  with assms show ?thesis by (auto simp: cobs_encode_frame cobs_decode_frame)
next
  case False
  with assms(1) cobs_encode_too_small [of out payload] show ?thesis by (auto simp: not_le)
qed

lemma cobs_round_trip_witness:
  "cobs_decode (take 4 [2, 1, 2, 2, 7, 7]) [9, 9, 9, 9] = (Inr 3, [1, 0, 2, 9])"
proof -
  have "cobs_encode [1, 0, 2] (replicate 6 7) = (Inr 4, [2, 1, 2, 2, 7, 7])" by code_simp
  from cobs_round_trip [OF this, of "[9, 9, 9, 9]"] show ?thesis by simp
qed

text \<open>A frame contains no zero byte and is never longer than \<open>max_encoded_size\<close>.\<close>

lemma cobs_output_zero_free:
  assumes "cobs_encode payload out = (Inr n, out')"
  shows "0 \<notin> set (take n out') \<and> n \<le> max_encoded_size (length payload) \<and> length out' = length out"
proof (cases "length (cobs_frame payload) \<le> length out")
  case True
  with assms cobs_frame_no_zero [of payload] length_cobs_frame [of payload] show ?thesis
    by (auto simp: cobs_encode_frame)
next
  case False
  with assms cobs_encode_too_small [of out payload] show ?thesis by (auto simp: not_le)
qed

text \<open>Whatever the input, a successful decode stays inside the destination, leaves the bytes
behind the payload alone, and only happens on an input without zero bytes, whose payload
is strictly shorter.\<close>

lemma cobs_decode_safe:
  assumes "cobs_decode inp out = (Inr n, out')"
  shows "n \<le> length out \<and> length out' = length out \<and> drop n out' = drop n out \<and>
    0 \<notin> set inp \<and> (inp \<noteq> [] \<longrightarrow> n < length inp)"
  using assms by (rule cobs_decode_bounds)

end
