(* ===== verification/Serialization_Error.thy ===== *)
theory Serialization_Error
  imports Prelude
begin

text \<open>The error every codec and parser of the serialization module reports:
  \<open>serialization/error.hpp\<close>.\<close>

datatype serialization_error =
  Ser_invalid_input | Ser_unexpected_character | Ser_unexpected_end | Ser_invalid_number
| Ser_invalid_string | Ser_invalid_escape | Ser_duplicate_key | Ser_depth_limit_exceeded
| Ser_type_mismatch | Ser_path_not_found | Ser_buffer_full | Ser_buffer_underrun
| Ser_string_too_long

fun serialization_error_to_string :: "serialization_error \<Rightarrow> string" where
  "serialization_error_to_string Ser_invalid_input = ''invalid_input''"
| "serialization_error_to_string Ser_unexpected_character = ''unexpected_character''"
| "serialization_error_to_string Ser_unexpected_end = ''unexpected_end''"
| "serialization_error_to_string Ser_invalid_number = ''invalid_number''"
| "serialization_error_to_string Ser_invalid_string = ''invalid_string''"
| "serialization_error_to_string Ser_invalid_escape = ''invalid_escape''"
| "serialization_error_to_string Ser_duplicate_key = ''duplicate_key''"
| "serialization_error_to_string Ser_depth_limit_exceeded = ''depth_limit_exceeded''"
| "serialization_error_to_string Ser_type_mismatch = ''type_mismatch''"
| "serialization_error_to_string Ser_path_not_found = ''path_not_found''"
| "serialization_error_to_string Ser_buffer_full = ''buffer_full''"
| "serialization_error_to_string Ser_buffer_underrun = ''buffer_underrun''"
| "serialization_error_to_string Ser_string_too_long = ''string_too_long''"

end
