(* ===== verification/Frame_Codec.thy ===== *)
theory Frame_Codec
  imports Cobs Serialization_Error
begin

text \<open>
  The interface the two framing layers offer over the one COBS codec, and the two
  adapters: \<open>algorithm/encoding/cobs.hpp\<close> and \<open>serialization/cobs.hpp\<close> call the codec
  of \<open>utility/cobs.hpp\<close> and translate its error with \<open>std::expected::transform_error\<close>.
\<close>

subsection \<open>The contract of a zero-free codec\<close>

locale zero_free_codec =
  fixes enc :: "byte list \<Rightarrow> byte list \<Rightarrow> ('e + nat) \<times> byte list"
    and dec :: "byte list \<Rightarrow> byte list \<Rightarrow> ('e + nat) \<times> byte list"
    and bound :: "nat \<Rightarrow> nat"
  assumes enc_fits: "bound (length p) \<le> length out \<Longrightarrow>
      \<exists>n out'. enc p out = (Inr n, out') \<and> n \<le> bound (length p) \<and> n \<le> length out'"
    and enc_no_zero: "enc p out = (Inr n, out') \<Longrightarrow> 0 \<notin> set (take n out')"
    and dec_enc: "enc p out = (Inr n, out') \<Longrightarrow> length p \<le> length buf \<Longrightarrow>
      dec (take n out') buf = (Inr (length p), p @ drop (length p) buf)"
begin

lemma enc_inj:
  assumes "enc p out1 = (Inr n, o1)" and "enc q out2 = (Inr m, o2)" and "take n o1 = take m o2"
  shows "p = q"
proof -
  let ?buf = "replicate (max (length p) (length q)) 0"
  from dec_enc [OF assms(1), of ?buf] dec_enc [OF assms(2), of ?buf] assms(3)
  have "length p = length q" and "p @ drop (length p) ?buf = q @ drop (length q) ?buf"
    by auto
  then show ?thesis by simp
qed

text \<open>A receiver that reads up to the first zero of the stream gets the frame back.\<close>

lemma dec_first_frame:
  assumes "enc p out = (Inr n, out')" and "length p \<le> length buf"
  shows "dec (takeWhile (\<lambda>b. b \<noteq> 0) (take n out' @ 0 # rest)) buf =
    (Inr (length p), p @ drop (length p) buf)"
proof -
  have "\<forall>b \<in> set (take n out'). b \<noteq> 0" using enc_no_zero [OF assms(1)] by metis
  then have "takeWhile (\<lambda>b. b \<noteq> 0) (take n out' @ 0 # rest) = take n out'"
    by (simp add: takeWhile_append2)
  with dec_enc [OF assms] show ?thesis by simp
qed

end

lemma cobs_encode_Inr:
  "cobs_encode p out = (Inr n, out') \<Longrightarrow>
   n = length (cobs_frame p) \<and> n \<le> length out \<and> out' = cobs_frame p @ drop n out"
  using cobs_encode_frame [of p out] cobs_encode_too_small [of out p]
  by (cases "length (cobs_frame p) \<le> length out") auto

interpretation cobs: zero_free_codec cobs_encode cobs_decode max_encoded_size
proof unfold_locales
  fix p out :: "byte list"
  assume "max_encoded_size (length p) \<le> length out"
  with length_cobs_frame [of p] show
    "\<exists>n out'. cobs_encode p out = (Inr n, out') \<and> n \<le> max_encoded_size (length p) \<and> n \<le> length out'"
    by (simp add: cobs_encode_frame)
next
  fix p out n out' assume "cobs_encode p out = (Inr n, out')"
  then show "0 \<notin> set (take n out')"
    using cobs_frame_no_zero [of p] by (auto dest!: cobs_encode_Inr)
next
  fix p out out' buf :: "byte list" and n
  assume "cobs_encode p out = (Inr n, out')" "length p \<le> length buf"
  then show "cobs_decode (take n out') buf = (Inr (length p), p @ drop (length p) buf)"
    by (auto dest!: cobs_encode_Inr simp: cobs_decode_frame)
qed

subsection \<open>Translating the error\<close>

definition transform_error :: "('e \<Rightarrow> 'f) \<Rightarrow> ('e + nat) \<times> byte list \<Rightarrow> ('f + nat) \<times> byte list" where
  "transform_error f r = (case r of (Inl e, out) \<Rightarrow> (Inl (f e), out) | (Inr n, out) \<Rightarrow> (Inr n, out))"

lemma transform_error_Inr [simp]:
  "transform_error f r = (Inr n, out) \<longleftrightarrow> r = (Inr n, out)"
  by (auto simp: transform_error_def split: prod.splits sum.splits)

text \<open>An adapter that only renames errors keeps the contract.\<close>

lemma zero_free_codec_transform:
  assumes "zero_free_codec enc dec bound"
  shows "zero_free_codec (\<lambda>p out. transform_error f (enc p out))
    (\<lambda>p out. transform_error f (dec p out)) bound"
  using assms by (auto simp: zero_free_codec_def)

datatype codec_error = Codec_invalid_input | Codec_buffer_too_small | Codec_incomplete_input

fun codec_error_to_string :: "codec_error \<Rightarrow> string" where
  "codec_error_to_string Codec_invalid_input = ''invalid_input''"
| "codec_error_to_string Codec_buffer_too_small = ''buffer_too_small''"
| "codec_error_to_string Codec_incomplete_input = ''incomplete_input''"

fun cobs_to_codec_error :: "cobs_error \<Rightarrow> codec_error" where
  "cobs_to_codec_error Invalid_input = Codec_invalid_input"
| "cobs_to_codec_error Truncated_input = Codec_incomplete_input"
| "cobs_to_codec_error Output_too_small = Codec_buffer_too_small"

definition cobs_encoded_max_size :: "nat \<Rightarrow> nat" where
  "cobs_encoded_max_size n_bytes = max_encoded_size n_bytes"

definition algorithm_cobs_encode :: "byte list \<Rightarrow> byte list \<Rightarrow> (codec_error + nat) \<times> byte list" where
  "algorithm_cobs_encode inp out = transform_error cobs_to_codec_error (cobs_encode inp out)"

definition algorithm_cobs_decode :: "byte list \<Rightarrow> byte list \<Rightarrow> (codec_error + nat) \<times> byte list" where
  "algorithm_cobs_decode inp out = transform_error cobs_to_codec_error (cobs_decode inp out)"

interpretation algorithm_cobs:
  zero_free_codec algorithm_cobs_encode algorithm_cobs_decode cobs_encoded_max_size
  using zero_free_codec_transform [OF cobs.zero_free_codec_axioms, of cobs_to_codec_error]
  by (simp add: algorithm_cobs_encode_def [abs_def] algorithm_cobs_decode_def [abs_def]
      cobs_encoded_max_size_def [abs_def])

fun cobs_to_error :: "cobs_error \<Rightarrow> serialization_error" where
  "cobs_to_error Invalid_input = Ser_invalid_input"
| "cobs_to_error Truncated_input = Ser_buffer_underrun"
| "cobs_to_error Output_too_small = Ser_buffer_full"

definition serialization_max_encoded_size :: "nat \<Rightarrow> nat" where
  "serialization_max_encoded_size payload_len = max_encoded_size payload_len"

definition serialization_cobs_max_encoded_size :: "nat \<Rightarrow> nat" where
  "serialization_cobs_max_encoded_size payload_len = serialization_max_encoded_size payload_len"

definition serialization_encode :: "byte list \<Rightarrow> byte list \<Rightarrow> (serialization_error + nat) \<times> byte list" where
  "serialization_encode inp out = transform_error cobs_to_error (cobs_encode inp out)"

definition serialization_decode :: "byte list \<Rightarrow> byte list \<Rightarrow> (serialization_error + nat) \<times> byte list" where
  "serialization_decode inp out = transform_error cobs_to_error (cobs_decode inp out)"

interpretation serialization_cobs:
  zero_free_codec serialization_encode serialization_decode serialization_max_encoded_size
  using zero_free_codec_transform [OF cobs.zero_free_codec_axioms, of cobs_to_error]
  by (simp add: serialization_encode_def [abs_def] serialization_decode_def [abs_def]
      serialization_max_encoded_size_def [abs_def])

subsection \<open>Properties\<close>

text \<open>C2: on a byte stream, the serialization layer's frame ends at the first zero byte: a receiver
that reads up to it and decodes gets the payload back, whatever follows.\<close>

theorem serialization_stream_frame:
  assumes "serialization_encode p out = (Inr n, out')" and "length p \<le> length buf"
  shows "serialization_decode (takeWhile (\<lambda>b. b \<noteq> 0) (take n out' @ 0 # rest)) buf =
    (Inr (length p), p @ drop (length p) buf)"
  using assms by (rule serialization_cobs.dec_first_frame)

lemma serialization_stream_frame_witness:
  "serialization_decode (takeWhile (\<lambda>b. b \<noteq> 0) (take 3 [1, 2, 5, 9] @ 0 # [2, 0])) [7, 7, 7] =
    (Inr 2, [0, 5, 7])"
proof -
  have "serialization_encode [0, 5] [9, 9, 9, 9] = (Inr 3, [1, 2, 5, 9])" by code_simp
  from serialization_stream_frame [OF this, of "[7, 7, 7]" "[2, 0]"] show ?thesis by simp
qed

text \<open>The algorithm layer's encoder is injective: equal frames come from equal payloads.\<close>

lemma algorithm_cobs_encode_inj:
  assumes "algorithm_cobs_encode p out1 = (Inr n, o1)"
    and "algorithm_cobs_encode q out2 = (Inr m, o2)" and "take n o1 = take m o2"
  shows "p = q"
  using assms by (rule algorithm_cobs.enc_inj)

end
