(* ===== verification/Can_Id.thy ===== *)
theory Can_Id
  imports Prelude
begin

text \<open>
  CAN identifiers: \<open>can/error.hpp\<close>, \<open>can/id.hpp\<close>, \<open>can/filter.hpp\<close> and
  \<open>can/j1939_id.hpp\<close>. An identifier is one 32-bit word: 11 or 29 identifier bits and
  three flag bits. The constructors' asserts are debug-only; the model is what a release
  build computes, masks included.
\<close>

datatype can_error =
  Invalid_id | Invalid_dlc | Payload_too_large | Signal_out_of_range | Value_out_of_range
| Unsupported | Io_error | Bus_off | Buffer_full | Parse_error

fun can_error_to_string :: "can_error \<Rightarrow> string" where
  "can_error_to_string Invalid_id = ''invalid_id''"
| "can_error_to_string Invalid_dlc = ''invalid_dlc''"
| "can_error_to_string Payload_too_large = ''payload_too_large''"
| "can_error_to_string Signal_out_of_range = ''signal_out_of_range''"
| "can_error_to_string Value_out_of_range = ''value_out_of_range''"
| "can_error_to_string Unsupported = ''unsupported''"
| "can_error_to_string Io_error = ''io_error''"
| "can_error_to_string Bus_off = ''bus_off''"
| "can_error_to_string Buffer_full = ''buffer_full''"
| "can_error_to_string Parse_error = ''parse_error''"

subsection \<open>Identifiers\<close>

definition standard_id_mask :: u32 where "standard_id_mask = 0x7FF"
definition extended_id_mask :: u32 where "extended_id_mask = 0x1FFFFFFF"
definition extended_flag :: u32 where "extended_flag = 0x80000000"
definition remote_flag :: u32 where "remote_flag = 0x40000000"
definition error_flag :: u32 where "error_flag = 0x20000000"

record can_id =
  id_raw :: u32

definition flag_get :: "u32 \<Rightarrow> u32 \<Rightarrow> bool" where
  "flag_get word m = (word AND m \<noteq> 0)"

definition flag_set :: "u32 \<Rightarrow> u32 \<Rightarrow> bool \<Rightarrow> u32" where
  "flag_set word m on = (if on then word OR m else word AND NOT m)"

definition can_id_standard :: "u16 \<Rightarrow> can_id" where
  "can_id_standard i = \<lparr>id_raw = ucast i AND standard_id_mask\<rparr>"

definition can_id_extended :: "u32 \<Rightarrow> can_id" where
  "can_id_extended i = \<lparr>id_raw = (i AND extended_id_mask) OR extended_flag\<rparr>"

definition can_id_from_raw :: "u32 \<Rightarrow> can_id" where
  "can_id_from_raw r = \<lparr>id_raw = r\<rparr>"

definition is_extended :: "can_id \<Rightarrow> bool" where
  "is_extended i = (id_raw i AND extended_flag \<noteq> 0)"

definition is_remote :: "can_id \<Rightarrow> bool" where
  "is_remote i = (id_raw i AND remote_flag \<noteq> 0)"

definition is_error_frame :: "can_id \<Rightarrow> bool" where
  "is_error_frame i = (id_raw i AND error_flag \<noteq> 0)"

definition can_identifier :: "can_id \<Rightarrow> u32" where
  "can_identifier i =
     (if is_extended i then id_raw i AND extended_id_mask else id_raw i AND standard_id_mask)"

definition set_extended :: "can_id \<Rightarrow> bool \<Rightarrow> can_id" where
  "set_extended i on = i\<lparr>id_raw := flag_set (id_raw i) extended_flag on\<rparr>"

definition set_remote :: "can_id \<Rightarrow> bool \<Rightarrow> can_id" where
  "set_remote i on = i\<lparr>id_raw := flag_set (id_raw i) remote_flag on\<rparr>"

definition set_error_frame :: "can_id \<Rightarrow> bool \<Rightarrow> can_id" where
  "set_error_frame i on = i\<lparr>id_raw := flag_set (id_raw i) error_flag on\<rparr>"

subsection \<open>The masks bit by bit\<close>

lemma bit_standard_id_mask [bit_simps]: "bit standard_id_mask n \<longleftrightarrow> n < 11"
proof -
  have *: "standard_id_mask = mask 11" by (simp add: standard_id_mask_def mask_eq_exp_minus_1)
  show ?thesis unfolding * by (auto simp: bit_simps)
qed

lemma bit_extended_id_mask [bit_simps]: "bit extended_id_mask n \<longleftrightarrow> n < 29"
proof -
  have *: "extended_id_mask = mask 29" by (simp add: extended_id_mask_def mask_eq_exp_minus_1)
  show ?thesis unfolding * by (auto simp: bit_simps)
qed

lemma bit_flags [bit_simps]:
  "bit extended_flag n \<longleftrightarrow> n = 31" "bit remote_flag n \<longleftrightarrow> n = 30" "bit error_flag n \<longleftrightarrow> n = 29"
proof -
  have *: "extended_flag = push_bit 31 1" "remote_flag = push_bit 30 1" "error_flag = push_bit 29 1"
    by (simp_all add: extended_flag_def remote_flag_def error_flag_def push_bit_eq_mult)
  show "bit extended_flag n \<longleftrightarrow> n = 31" "bit remote_flag n \<longleftrightarrow> n = 30" "bit error_flag n \<longleftrightarrow> n = 29"
    unfolding * bit_push_bit_iff by (auto simp: bit_1_iff)
qed

lemma and_single_bit: "(\<And>n. bit m n \<longleftrightarrow> n = k) \<Longrightarrow> (w AND m \<noteq> 0) = bit w k"
  for w :: "'a::len word"
  by (metis bit_and_iff bit_eqI bit_0_eq bot_apply bot_bool_def)

lemma flag_bits:
  "is_extended i = bit (id_raw i) 31" "is_remote i = bit (id_raw i) 30"
  "is_error_frame i = bit (id_raw i) 29"
  by (simp_all add: is_extended_def is_remote_def is_error_frame_def and_single_bit bit_flags)

lemma bit_identifier [bit_simps]:
  "bit (can_identifier i) n \<longleftrightarrow> bit (id_raw i) n \<and> n < (if is_extended i then 29 else 11)"
  by (auto simp: can_identifier_def bit_simps)

lemma bit_flag_set [bit_simps]:
  "bit (flag_set w m on) n \<longleftrightarrow> (if bit m n then on else bit w n)" for w :: u32
  using bit_imp_le_length [of w n] bit_imp_le_length [of m n]
  by (auto simp: flag_set_def bit_simps)

lemma standard_identifier:
  "is_extended (can_id_standard i) = False" "can_identifier (can_id_standard i) = ucast i AND standard_id_mask"
  by (simp_all add: flag_bits can_id_standard_def bit_simps can_identifier_def and.assoc)

lemma extended_identifier:
  "is_extended (can_id_extended i)" "can_identifier (can_id_extended i) = i AND extended_id_mask"
proof -
  show "is_extended (can_id_extended i)"
    by (simp add: flag_bits can_id_extended_def bit_simps)
  then show "can_identifier (can_id_extended i) = i AND extended_id_mask"
    by (intro bit_word_eqI) (auto simp: can_id_extended_def bit_simps)
qed

lemma bit_below: "unat w < 2 ^ n \<Longrightarrow> bit w k \<Longrightarrow> k < n" for w :: "'a::len word"
proof -
  assume "unat w < 2 ^ n" and "bit w k"
  then have "bit (unat w) k" by (simp add: bit_unsigned_iff bit_imp_le_length)
  with \<open>unat w < 2 ^ n\<close> show "k < n"
    by (metis bit_take_bit_iff take_bit_nat_eq_self_iff)
qed

lemma and_mask_id: "unat w < 2 ^ n \<Longrightarrow> (\<And>k. bit m k \<longleftrightarrow> k < n) \<Longrightarrow> w AND m = w"
  for w :: "'a::len word"
  by (rule bit_word_eqI) (auto simp: bit_and_iff dest: bit_below)

subsection \<open>Acceptance filters\<close>

record filter_t =
  flt_id :: u32
  flt_mask :: u32

definition filter_equals :: "can_id \<Rightarrow> filter_t" where
  "filter_equals i =
     (let width = if is_extended i then extended_id_mask else standard_id_mask
      in \<lparr>flt_id = id_raw i, flt_mask = extended_flag OR width\<rparr>)"

definition filter_standard :: "u16 \<Rightarrow> u16 \<Rightarrow> filter_t" where
  "filter_standard i m = \<lparr>flt_id = ucast i, flt_mask = ucast m OR extended_flag\<rparr>"

definition filter_extended :: "u32 \<Rightarrow> u32 \<Rightarrow> filter_t" where
  "filter_extended i m = \<lparr>flt_id = i OR extended_flag, flt_mask = m OR extended_flag\<rparr>"

definition filter_matches :: "filter_t \<Rightarrow> can_id \<Rightarrow> bool" where
  "filter_matches f candidate = (id_raw candidate AND flt_mask f = flt_id f AND flt_mask f)"

lemma filter_matches_bits:
  "filter_matches f c \<longleftrightarrow> (\<forall>n. bit (flt_mask f) n \<longrightarrow> bit (id_raw c) n = bit (flt_id f) n)"
  unfolding filter_matches_def word_bits_eq by (auto simp: bit_and_iff)

subsection \<open>J1939 identifiers\<close>

definition j1939_pdu2_threshold :: u8 where "j1939_pdu2_threshold = 240"
definition j1939_global_address :: u8 where "j1939_global_address = 0xFF"

record j1939_id =
  j_id :: can_id

definition j1939_decode :: "can_id \<Rightarrow> j1939_id option" where
  "j1939_decode i = (if \<not> is_extended i then None else Some \<lparr>j_id = i\<rparr>)"

definition j1939_make :: "u8 \<Rightarrow> u32 \<Rightarrow> u8 \<Rightarrow> u8 \<Rightarrow> j1939_id" where
  "j1939_make prio pgn source destination =
     (let edp = drop_bit 17 pgn AND 1;
          dp = drop_bit 16 pgn AND 1;
          pf = drop_bit 8 pgn AND 0xFF;
          ps = (if pf < ucast j1939_pdu2_threshold then ucast destination else pgn AND 0xFF);
          raw = push_bit 26 (ucast prio AND 7) OR push_bit 25 edp OR push_bit 24 dp OR
                push_bit 16 pf OR push_bit 8 ps OR ucast source
      in \<lparr>j_id = can_id_extended raw\<rparr>)"

definition j_raw :: "j1939_id \<Rightarrow> u32" where
  "j_raw j = can_identifier (j_id j)"

definition j_priority :: "j1939_id \<Rightarrow> u8" where
  "j_priority j = ucast (drop_bit 26 (j_raw j) AND 7)"

definition j_extended_data_page :: "j1939_id \<Rightarrow> u8" where
  "j_extended_data_page j = ucast (drop_bit 25 (j_raw j) AND 1)"

definition j_data_page :: "j1939_id \<Rightarrow> u8" where
  "j_data_page j = ucast (drop_bit 24 (j_raw j) AND 1)"

definition j_pdu_format :: "j1939_id \<Rightarrow> u8" where
  "j_pdu_format j = ucast (drop_bit 16 (j_raw j) AND 0xFF)"

definition j_pdu_specific :: "j1939_id \<Rightarrow> u8" where
  "j_pdu_specific j = ucast (drop_bit 8 (j_raw j) AND 0xFF)"

definition j_source_address :: "j1939_id \<Rightarrow> u8" where
  "j_source_address j = ucast (j_raw j AND 0xFF)"

definition j_is_pdu1 :: "j1939_id \<Rightarrow> bool" where
  "j_is_pdu1 j = (j_pdu_format j < j1939_pdu2_threshold)"

definition j_is_pdu2 :: "j1939_id \<Rightarrow> bool" where
  "j_is_pdu2 j = (\<not> j_is_pdu1 j)"

definition j_pgn :: "j1939_id \<Rightarrow> u32" where
  "j_pgn j =
     (let high = push_bit 17 (ucast (j_extended_data_page j)) OR
                 push_bit 16 (ucast (j_data_page j)) OR
                 push_bit 8 (ucast (j_pdu_format j))
      in if j_is_pdu1 j then high else high OR ucast (j_pdu_specific j))"

definition j_destination_address :: "j1939_id \<Rightarrow> u8" where
  "j_destination_address j = (if j_is_pdu1 j then j_pdu_specific j else j1939_global_address)"

definition j_is_broadcast :: "j1939_id \<Rightarrow> bool" where
  "j_is_broadcast j = (j_is_pdu2 j \<or> j_destination_address j = j1939_global_address)"

subsection \<open>The fields of a composed J1939 identifier\<close>

lemma bit_field_masks [bit_simps]:
  "bit (7 :: u32) n \<longleftrightarrow> n < 3" "bit (0xFF :: u32) n \<longleftrightarrow> n < 8"
  "bit (7 :: int) n \<longleftrightarrow> n < 3" "bit (0xFF :: int) n \<longleftrightarrow> n < 8"
proof -
  have *: "(7 :: u32) = mask 3" "(0xFF :: u32) = mask 8" "(7 :: int) = mask 3" "(0xFF :: int) = mask 8"
    by (simp_all add: mask_eq_exp_minus_1)
  show "bit (7 :: u32) n \<longleftrightarrow> n < 3" "bit (0xFF :: u32) n \<longleftrightarrow> n < 8"
    "bit (7 :: int) n \<longleftrightarrow> n < 3" "bit (0xFF :: int) n \<longleftrightarrow> n < 8"
    unfolding * by (auto simp: bit_simps)
qed

definition pgn_is_pdu1 :: "u32 \<Rightarrow> bool" where
  "pgn_is_pdu1 pgn = (drop_bit 8 pgn AND 0xFF < ucast j1939_pdu2_threshold)"

lemma bit_j_raw_make:
  "bit (j_raw (j1939_make prio pgn source destination)) n \<longleftrightarrow>
     n < 8 \<and> bit source n
   \<or> 8 \<le> n \<and> n < 16 \<and> (if pgn_is_pdu1 pgn then bit destination (n - 8) else bit pgn (n - 8))
   \<or> 16 \<le> n \<and> n < 26 \<and> bit pgn (n - 8)
   \<or> 26 \<le> n \<and> n < 29 \<and> bit prio (n - 26)"
proof -
  consider "n < 8" | "8 \<le> n" "n < 16" | "16 \<le> n" "n < 24" | "n = 24" | "n = 25"
    | "26 \<le> n" "n < 29" | "29 \<le> n"
    by linarith
  then show ?thesis
    unfolding j_raw_def j1939_make_def Let_def pgn_is_pdu1_def [symmetric] j1939_id.select_convs
      extended_identifier bit_and_iff bit_or_iff bit_push_bit_iff bit_drop_bit_eq o_def bit_field_masks
      bit_extended_id_mask bit_1_iff
    by cases (auto simp: bit_ucast_iff bit_and_iff bit_field_masks dest: bit_imp_le_length)
qed

lemma bit_j_priority_make:
  "j_priority (j1939_make prio pgn source destination) = prio AND 7"
  by (rule bit_word_eqI) (auto simp: j_priority_def bit_simps bit_j_raw_make)

lemma j_source_make: "j_source_address (j1939_make prio pgn source destination) = source"
  by (rule bit_word_eqI) (auto simp: j_source_address_def bit_simps bit_j_raw_make)

lemma bit_j_pdu_format_make [bit_simps]:
  "bit (j_pdu_format (j1939_make prio pgn source destination)) n \<longleftrightarrow> n < 8 \<and> bit pgn (n + 8)"
  by (auto simp: j_pdu_format_def bit_simps bit_j_raw_make add.commute)

lemma j_is_pdu1_make: "j_is_pdu1 (j1939_make prio pgn source destination) = pgn_is_pdu1 pgn"
proof -
  have "j_pdu_format (j1939_make prio pgn source destination) = ucast (drop_bit 8 pgn AND 0xFF)"
    by (rule bit_word_eqI) (auto simp: bit_simps add.commute)
  moreover have "ucast (ucast (drop_bit 8 pgn AND 0xFF :: u32) :: u8) = drop_bit 8 pgn AND (0xFF :: u32)"
    by (rule bit_word_eqI) (auto simp: bit_simps)
  ultimately show ?thesis
    unfolding j_is_pdu1_def pgn_is_pdu1_def
    by (simp flip: ucast_u8_less add: \<open>ucast (ucast _) = _\<close>)
qed

lemma j_pgn_make:
  assumes "unat pgn < 2 ^ 18"
  shows "j_pgn (j1939_make prio pgn source destination) =
    (if pgn_is_pdu1 pgn then pgn AND 0x3FF00 else pgn)"
proof (rule bit_word_eqI)
  have *: "(0x3FF00 :: u32) = push_bit 8 (mask 10)" by (simp add: mask_eq_exp_minus_1 push_bit_eq_mult)
  have high: "bit pgn n \<Longrightarrow> n < 18" for n
    using assms bit_unsigned_iff [of pgn n, where ?'a = nat] bit_imp_le_length [of pgn n]
    by (metis bit_take_bit_iff take_bit_nat_eq_self_iff possible_bit_nat)
  fix n :: nat
  consider "n < 8" | "8 \<le> n" "n < 16" | "n = 16" | "n = 17" | "18 \<le> n" by linarith
  then show "bit (j_pgn (j1939_make prio pgn source destination)) n =
      bit (if pgn_is_pdu1 pgn then pgn AND 0x3FF00 else pgn) n"
    unfolding j_pgn_def Let_def j_is_pdu1_make j_extended_data_page_def j_data_page_def
      j_pdu_specific_def * if_distrib [where f = "\<lambda>w. bit w n"] bit_and_iff bit_or_iff
      bit_push_bit_iff bit_mask_iff bit_ucast_iff bit_drop_bit_eq o_def bit_field_masks bit_1_iff
      bit_j_raw_make bit_j_pdu_format_make
    by cases (auto dest: high)
qed

lemma j_destination_make:
  "j_destination_address (j1939_make prio pgn source destination) =
    (if pgn_is_pdu1 pgn then destination else j1939_global_address)"
proof -
  have "j_pdu_specific (j1939_make prio pgn source destination) = destination" if "pgn_is_pdu1 pgn"
    using that by (intro bit_word_eqI) (auto simp: j_pdu_specific_def bit_simps bit_j_raw_make add.commute)
  then show ?thesis by (simp add: j_destination_address_def j_is_pdu1_make)
qed

lemma j1939_decode_make:
  "j1939_decode (j_id (j1939_make prio pgn source destination)) =
    Some (j1939_make prio pgn source destination)"
  by (simp add: j1939_decode_def j1939_make_def Let_def extended_identifier)

lemma j_priority_make:
  "unat prio < 8 \<Longrightarrow> j_priority (j1939_make prio pgn source destination) = prio"
proof -
  assume "unat prio < 8"
  moreover have "bit (mask 3 :: u8) k \<longleftrightarrow> k < 3" for k by (auto simp: bit_mask_iff)
  ultimately have "prio AND mask 3 = prio" by (intro and_mask_id [of prio 3]) simp_all
  then show ?thesis by (simp add: bit_j_priority_make mask_eq_exp_minus_1)
qed

subsection \<open>Properties\<close>

text \<open>The three flags of an identifier are independent of one another, and setting the remote
or the error flag leaves the identifier alone.\<close>

lemma can_id_flags_independent:
  "is_extended (set_extended i on) = on \<and> is_remote (set_extended i on) = is_remote i \<and>
   is_error_frame (set_extended i on) = is_error_frame i \<and>
   is_remote (set_remote i on) = on \<and> is_extended (set_remote i on) = is_extended i \<and>
   is_error_frame (set_remote i on) = is_error_frame i \<and>
   can_identifier (set_remote i on) = can_identifier i \<and>
   is_error_frame (set_error_frame i on) = on \<and> is_extended (set_error_frame i on) = is_extended i \<and>
   is_remote (set_error_frame i on) = is_remote i \<and>
   can_identifier (set_error_frame i on) = can_identifier i"
proof -
  have flags: "is_extended (set_remote i on) = is_extended i"
    "is_extended (set_error_frame i on) = is_extended i"
    by (simp_all add: flag_bits set_remote_def set_error_frame_def bit_simps)
  have "can_identifier (set_remote i on) = can_identifier i"
    "can_identifier (set_error_frame i on) = can_identifier i"
    by (rule bit_word_eqI; auto simp: bit_identifier flags;
        simp add: set_remote_def set_error_frame_def bit_flag_set bit_flags split: if_splits)+
  with flags show ?thesis
    by (simp add: flag_bits set_extended_def set_remote_def set_error_frame_def bit_simps)
qed

text \<open>The filter \<open>equals(i)\<close> accepts exactly the identifiers with the kind and the number of
\<open>i\<close>, whatever their other flags.\<close>

lemma filter_equals_exact:
  "filter_matches (filter_equals i) c \<longleftrightarrow>
     is_extended c = is_extended i \<and> can_identifier c = can_identifier i"
proof -
  let ?w = "if is_extended i then 29 else 11 :: nat"
  have "bit (flt_mask (filter_equals i)) n \<longleftrightarrow> n = 31 \<or> n < ?w" for n
    by (auto simp: filter_equals_def Let_def bit_or_iff bit_flags bit_extended_id_mask bit_standard_id_mask)
  then have "filter_matches (filter_equals i) c \<longleftrightarrow>
      bit (id_raw c) 31 = bit (id_raw i) 31 \<and> (\<forall>n < ?w. bit (id_raw c) n = bit (id_raw i) n)"
    by (auto simp: filter_matches_bits filter_equals_def Let_def)
  also have "\<dots> \<longleftrightarrow> is_extended c = is_extended i \<and> can_identifier c = can_identifier i"
    unfolding word_bits_eq bit_identifier by (auto simp: flag_bits)
  finally show ?thesis .
qed

text \<open>A J1939 identifier built from its fields decodes to the same fields: priority, parameter
group (with a PDU1 group's low byte dropped), source, and destination (the global address for
a PDU2 group).\<close>

lemma j1939_fields_round_trip:
  assumes "unat prio < 8" and "unat pgn < 2 ^ 18"
  shows "\<exists>j. j1939_decode (j_id (j1939_make prio pgn source destination)) = Some j \<and>
    j_priority j = prio \<and> j_source_address j = source \<and>
    j_pgn j = (if pgn_is_pdu1 pgn then pgn AND 0x3FF00 else pgn) \<and>
    j_destination_address j = (if pgn_is_pdu1 pgn then destination else j1939_global_address)"
  using assms by (simp add: j1939_decode_make j_priority_make j_source_make j_pgn_make j_destination_make)

end
