(* ===== verification/Flags.thy ===== *)
theory Flags
  imports Prelude
begin

text \<open>
  Sets of enumerators packed into one machine word: \<open>utility/flags.hpp\<close>. The class is
  generic in the enumeration; here the word stands for the underlying integer and an
  enumerator is its word. The contract of the class is the one of a set: \<open>bit_flag\<close>
  is the condition under which its operations are set operations.
\<close>

subsection \<open>The code\<close>

definition flags_of :: "'a::len word \<Rightarrow> 'a word" where
  "flags_of e = e"

definition flags_set :: "'a::len word \<Rightarrow> 'a word \<Rightarrow> 'a word" where
  "flags_set bits e = bits OR e"

definition flags_clear :: "'a::len word \<Rightarrow> 'a word \<Rightarrow> 'a word" where
  "flags_clear bits e = bits AND NOT e"

definition flags_toggle :: "'a::len word \<Rightarrow> 'a word \<Rightarrow> 'a word" where
  "flags_toggle bits e = bits XOR e"

definition flags_has :: "'a::len word \<Rightarrow> 'a word \<Rightarrow> bool" where
  "flags_has bits e = (bits AND e = e)"

definition flags_has_any :: "'a::len word \<Rightarrow> 'a word \<Rightarrow> bool" where
  "flags_has_any bits e = (bits AND e \<noteq> 0)"

definition flags_any :: "'a::len word \<Rightarrow> bool" where
  "flags_any bits = (bits \<noteq> 0)"

definition flags_none :: "'a::len word \<Rightarrow> bool" where
  "flags_none bits = (bits = 0)"

definition flags_count :: "'a::len word \<Rightarrow> nat" where
  "flags_count bits = length (filter (bit bits) [0..<LENGTH('a)])"

definition flags_clear_all :: "'a::len word \<Rightarrow> 'a word" where
  "flags_clear_all bits = 0"

definition flags_or :: "'a::len word \<Rightarrow> 'a word \<Rightarrow> 'a word" where
  "flags_or a b = a OR b"

definition flags_and :: "'a::len word \<Rightarrow> 'a word \<Rightarrow> 'a word" where
  "flags_and a b = a AND b"

definition flags_xor :: "'a::len word \<Rightarrow> 'a word \<Rightarrow> 'a word" where
  "flags_xor a b = a XOR b"

definition flags_not :: "'a::len word \<Rightarrow> 'a word" where
  "flags_not a = NOT a"

subsection \<open>Words as sets of bits\<close>

definition bit_flag :: "'a::len word \<Rightarrow> nat \<Rightarrow> bool" where
  "bit_flag e k \<longleftrightarrow> k < LENGTH('a) \<and> e = push_bit k 1"

definition bit_set :: "'a::len word \<Rightarrow> nat set" where
  "bit_set w = {n. bit w n}"

lemma bit_set_inj: "bit_set v = bit_set w \<longleftrightarrow> v = w"
  by (simp add: bit_set_def word_bits_eq set_eq_iff)

lemma bit_set_flag: "bit_flag e k \<Longrightarrow> bit_set e = {k}"
  unfolding bit_flag_def bit_set_def
  by (auto simp only: bit_push_bit_iff bit_1_iff mem_Collect_eq possible_bit_word)

lemma bit_set_ops:
  "bit_set (v OR w) = bit_set v \<union> bit_set w" "bit_set (v AND w) = bit_set v \<inter> bit_set w"
  "bit_set (v XOR w) = sym_diff (bit_set v) (bit_set w)"
  "bit_set (NOT w) = {n. n < LENGTH('a)} - bit_set w" "bit_set (0 :: 'a::len word) = {}"
  "bit_set w \<subseteq> {n. n < LENGTH('a)}" for v w :: "'a::len word"
  by (auto simp: bit_set_def bit_simps dest: bit_imp_le_length)

lemma flags_has_bit: "bit_flag e k \<Longrightarrow> flags_has b e \<longleftrightarrow> k \<in> bit_set b"
  by (simp add: flags_has_def bit_set_inj [symmetric] bit_set_ops bit_set_flag) blast

lemma flags_has_or:
  "bit_flag e k \<Longrightarrow> bit_flag e' k' \<Longrightarrow> flags_has (flags_or b e) e' \<longleftrightarrow> k = k' \<or> flags_has b e'"
  by (auto simp: flags_has_bit flags_or_def bit_set_ops bit_set_flag)

subsection \<open>Properties\<close>

text \<open>On single-bit enumerators a flags word is a set: the operators are union, intersection,
symmetric difference and complement, setting, clearing and toggling change one element,
\<open>has\<close> is membership and \<open>count\<close> the number of elements.\<close>

lemma flags_are_sets:
  assumes "bit_flag e k"
  shows "bit_set (flags_or a b) = bit_set a \<union> bit_set b \<and>
    bit_set (flags_and a b) = bit_set a \<inter> bit_set b \<and>
    bit_set (flags_xor a b) = sym_diff (bit_set a) (bit_set b) \<and>
    bit_set (flags_not a) = {n. n < LENGTH('a)} - bit_set a \<and>
    bit_set (flags_set a e) = insert k (bit_set a) \<and>
    bit_set (flags_clear a e) = bit_set a - {k} \<and>
    bit_set (flags_toggle a e) = (if k \<in> bit_set a then bit_set a - {k} else insert k (bit_set a)) \<and>
    flags_has a e = (k \<in> bit_set a) \<and> flags_has_any a e = (k \<in> bit_set a) \<and>
    flags_none a = (bit_set a = {}) \<and> flags_count a = card (bit_set (a :: 'a::len word))"
proof -
  have k: "k < LENGTH('a)" using assms by (simp add: bit_flag_def)
  have "bit_set a = set (filter (bit a) [0..<LENGTH('a)])"
    by (auto simp: bit_set_def dest: bit_imp_le_length)
  then have "flags_count a = card (bit_set a)"
    by (simp add: flags_count_def distinct_card del: set_filter)
  moreover have "flags_has_any a e = (k \<in> bit_set a)"
    by (simp add: flags_has_any_def bit_set_inj [symmetric] bit_set_ops bit_set_flag [OF assms])
  moreover have "flags_none a = (bit_set a = {})"
    by (simp add: flags_none_def bit_set_inj [symmetric] bit_set_ops)
  moreover have "bit_set (flags_clear a e) = bit_set a - {k}"
    by (auto simp: flags_clear_def bit_set_ops bit_set_flag [OF assms] dest: bit_imp_le_length
        intro: bit_imp_le_length) (simp add: bit_set_def bit_imp_le_length)
  ultimately show ?thesis
    by (auto simp: flags_or_def flags_and_def flags_xor_def flags_not_def flags_set_def
        flags_toggle_def flags_has_bit [OF assms] bit_set_ops bit_set_flag [OF assms])
qed

end
