(* ===== verification/Can_Frame.thy ===== *)
theory Can_Frame
  imports Can_Id Flags
begin

text \<open>
  CAN frames: the data length code of \<open>can/dlc.hpp\<close>, the frame of \<open>can/frame.hpp\<close> and the
  byte runs of \<open>can/byte_field.hpp\<close>.
\<close>

subsection \<open>Data length codes\<close>

definition fd_dlc_length_table :: "u8 list" where
  "fd_dlc_length_table = [0, 1, 2, 3, 4, 5, 6, 7, 8, 12, 16, 20, 24, 32, 48, 64]"

definition max_fd_length :: u8 where "max_fd_length = 64"
definition max_classic_length :: u8 where "max_classic_length = 8"

text \<open>
  The inverse table is computed at compile time by two nested loops. \<open>while_below\<close> is the
  inner one; reading past the table would be a compile error, so the model stops there.
\<close>

function while_below :: "nat \<Rightarrow> nat \<Rightarrow> nat" where
  "while_below dlc len =
     (if dlc < length fd_dlc_length_table \<and> unat (fd_dlc_length_table ! dlc) < len
      then while_below (Suc dlc) len else dlc)"
  by pat_completeness auto
termination
  by (relation "measure (\<lambda>(dlc, _). length fd_dlc_length_table - dlc)") auto

declare while_below.simps [simp del]

fun fill_dlc_table :: "nat \<Rightarrow> nat list \<Rightarrow> u8 list \<Rightarrow> u8 list" where
  "fill_dlc_table dlc [] table = table"
| "fill_dlc_table dlc (len # lens) table =
     (let dlc' = while_below dlc len
      in fill_dlc_table dlc' lens (table[len := of_nat dlc']))"

definition fd_length_dlc_table :: "u8 list" where
  "fd_length_dlc_table =
     fill_dlc_table 0 [0..<unat max_fd_length + 1] (replicate (unat max_fd_length + 1) 0)"

definition classic_dlc_to_length :: "u8 \<Rightarrow> u8" where
  "classic_dlc_to_length dlc = (if dlc < max_classic_length then dlc else max_classic_length)"

definition fd_dlc_to_length :: "u8 \<Rightarrow> u8" where
  "fd_dlc_to_length dlc = fd_dlc_length_table ! unat (dlc AND 0x0F)"

definition classic_length_to_dlc :: "u8 \<Rightarrow> u8" where
  "classic_length_to_dlc len = (if len < max_classic_length then len else max_classic_length)"

definition fd_length_to_dlc :: "u8 \<Rightarrow> u8" where
  "fd_length_to_dlc len = (if max_fd_length < len then 15 else fd_length_dlc_table ! unat len)"

definition fd_padded_length :: "u8 \<Rightarrow> u8" where
  "fd_padded_length len = fd_dlc_to_length (fd_length_to_dlc len)"

definition is_valid_classic_length :: "u8 \<Rightarrow> bool" where
  "is_valid_classic_length len = (len \<le> max_classic_length)"

definition is_valid_fd_length :: "u8 \<Rightarrow> bool" where
  "is_valid_fd_length len = (len \<le> max_fd_length \<and> fd_padded_length len = len)"

lemma fd_length_dlc_table_eq:
  "fd_length_dlc_table =
     [0, 1, 2, 3, 4, 5, 6, 7, 8, 9, 9, 9, 9, 10, 10, 10, 10, 11, 11, 11, 11, 12, 12, 12, 12]
     @ replicate 8 13 @ replicate 16 14 @ replicate 16 15"
  by code_simp

text \<open>A statement about the small values of a byte is checked value by value.\<close>

lemma all_u8_uptoI:
  assumes "n < 256" and "list_all (\<lambda>k. P (of_nat k)) [0..<Suc n]"
  shows "\<forall>x :: u8. x \<le> of_nat n \<longrightarrow> P x"
proof (intro allI impI)
  fix x :: u8 assume "x \<le> of_nat n"
  then have "unat x \<le> n"
    using assms(1) by (simp add: word_le_nat_alt unat_of_nat_byte)
  then have "P (of_nat (unat x))"
    using assms(2) by (auto simp: list_all_iff le_less simp del: of_nat_unat)
  then show "P x" by simp
qed

lemma fd_padded_length_least:
  "\<forall>len. len \<le> of_nat 64 \<longrightarrow>
     len \<le> fd_padded_length len \<and> is_valid_fd_length (fd_padded_length len) \<and>
     list_all (\<lambda>m. len \<le> m \<longrightarrow> fd_padded_length len \<le> m) fd_dlc_length_table"
  unfolding is_valid_fd_length_def fd_padded_length_def fd_length_to_dlc_def fd_length_dlc_table_eq
  by (rule all_u8_uptoI, simp, code_simp)

lemma fd_valid_iff_table:
  "\<forall>len. len \<le> of_nat 64 \<longrightarrow> is_valid_fd_length len = (len \<in> set fd_dlc_length_table)"
  unfolding is_valid_fd_length_def fd_padded_length_def fd_length_to_dlc_def fd_length_dlc_table_eq
  by (rule all_u8_uptoI, simp, code_simp)

lemma fd_dlc_round_trip:
  "\<forall>dlc. dlc \<le> of_nat 15 \<longrightarrow> fd_length_to_dlc (fd_dlc_to_length dlc) = dlc"
  unfolding is_valid_fd_length_def fd_padded_length_def fd_length_to_dlc_def fd_length_dlc_table_eq
  by (rule all_u8_uptoI, simp, code_simp)

subsection \<open>Flag sets\<close>

datatype fd_flag = Fdf | Brs | Esi

fun fd_flag_bits :: "fd_flag \<Rightarrow> u8" where
  "fd_flag_bits Fdf = push_bit 0 1"
| "fd_flag_bits Brs = push_bit 1 1"
| "fd_flag_bits Esi = push_bit 2 1"

definition fd_flag_index :: "fd_flag \<Rightarrow> nat" where
  "fd_flag_index e = (case e of Fdf \<Rightarrow> 0 | Brs \<Rightarrow> 1 | Esi \<Rightarrow> 2)"

lemma bit_flag_fd_flag: "bit_flag (fd_flag_bits e) (fd_flag_index e)"
  by (cases e) (simp_all add: bit_flag_def fd_flag_index_def)

lemma fd_flags_has_or:
  "flags_has (flags_or b (fd_flag_bits e)) (fd_flag_bits e') \<longleftrightarrow> e = e' \<or> flags_has b (fd_flag_bits e')"
  by (subst flags_has_or [OF bit_flag_fd_flag bit_flag_fd_flag], cases e; cases e')
    (simp_all add: fd_flag_index_def)

subsection \<open>Frames\<close>

record frame =
  fr_id :: can_id
  fr_length :: u8
  fr_flags :: u8
  fr_timestamp_ns :: u64
  fr_data :: "byte list"

definition frame_default :: frame where
  "frame_default = \<lparr>fr_id = \<lparr>id_raw = 0\<rparr>, fr_length = 0, fr_flags = 0, fr_timestamp_ns = 0,
     fr_data = replicate (unat max_fd_length) 0\<rparr>"

text \<open>\<open>std::ranges::copy\<close> to the start of an array at least as long.\<close>

definition copy_to :: "'a list \<Rightarrow> 'a list \<Rightarrow> 'a list" where
  "copy_to src dst = src @ drop (length src) dst"

definition frame_classic :: "can_id \<Rightarrow> byte list \<Rightarrow> can_error + frame" where
  "frame_classic i payload =
     (if unat max_classic_length < length payload then Inl Payload_too_large
      else
        let f = frame_default
        in Inr (f\<lparr>fr_id := i, fr_length := of_nat (length payload),
                   fr_data := copy_to payload (fr_data f)\<rparr>))"

definition frame_fd :: "can_id \<Rightarrow> byte list \<Rightarrow> u8 \<Rightarrow> can_error + frame" where
  "frame_fd i payload flags =
     (if unat max_fd_length < length payload then Inl Payload_too_large
      else
        let f = frame_default
        in Inr (f\<lparr>fr_id := i, fr_length := of_nat (length payload),
                   fr_flags := flags_or flags (fd_flag_bits Fdf),
                   fr_data := copy_to payload (fr_data f)\<rparr>))"

definition frame_filled :: "can_id \<Rightarrow> u8 \<Rightarrow> byte \<Rightarrow> can_error + frame" where
  "frame_filled i len fill =
     (if max_classic_length < len then Inl Payload_too_large
      else
        let f = frame_default
        in Inr (f\<lparr>fr_id := i, fr_length := len,
                   fr_data := copy_to (replicate (unat len) fill) (fr_data f)\<rparr>))"

definition frame_fd_filled :: "can_id \<Rightarrow> u8 \<Rightarrow> byte \<Rightarrow> u8 \<Rightarrow> can_error + frame" where
  "frame_fd_filled i len fill flags =
     (if max_fd_length < len then Inl Payload_too_large
      else
        let f = frame_default
        in Inr (f\<lparr>fr_id := i, fr_length := len, fr_flags := flags_or flags (fd_flag_bits Fdf),
                   fr_data := copy_to (replicate (unat len) fill) (fr_data f)\<rparr>))"

definition frame_is_fd :: "frame \<Rightarrow> bool" where
  "frame_is_fd f = flags_has (fr_flags f) (fd_flag_bits Fdf)"

definition frame_payload :: "frame \<Rightarrow> byte list" where
  "frame_payload f = take (unat (fr_length f)) (fr_data f)"

text \<open>A write through the mutable span \<open>data()\<close> of the same length.\<close>

definition frame_store :: "frame \<Rightarrow> byte list \<Rightarrow> frame" where
  "frame_store f payload = f\<lparr>fr_data := copy_to payload (fr_data f)\<rparr>"

definition frame_eq :: "frame \<Rightarrow> frame \<Rightarrow> bool" where
  "frame_eq f g =
     (if fr_id f \<noteq> fr_id g \<or> fr_flags f \<noteq> fr_flags g \<or> fr_length f \<noteq> fr_length g then False
      else frame_payload f = frame_payload g)"

definition frame_wf :: "frame \<Rightarrow> bool" where
  "frame_wf f \<longleftrightarrow> length (fr_data f) = 64 \<and> unat (fr_length f) \<le> 64"

lemma frame_payload_length [simp]: "frame_wf f \<Longrightarrow> length (frame_payload f) = unat (fr_length f)"
  by (simp add: frame_wf_def frame_payload_def)

lemma frame_store_simps [simp]:
  "frame_wf f \<Longrightarrow> length p = unat (fr_length f) \<Longrightarrow> frame_payload (frame_store f p) = p"
  "frame_wf f \<Longrightarrow> length p = unat (fr_length f) \<Longrightarrow> frame_wf (frame_store f p)"
  "fr_length (frame_store f p) = fr_length f"
  "fr_id (frame_store f p) = fr_id f"
  "fr_flags (frame_store f p) = fr_flags f"
  by (auto simp: frame_store_def frame_wf_def frame_payload_def copy_to_def)

lemma frame_default_wf: "frame_wf frame_default"
  by (simp add: frame_wf_def frame_default_def max_fd_length_def)

lemma frame_classic_Inr:
  "length payload \<le> 8 \<Longrightarrow>
   \<exists>f. frame_classic i payload = Inr f \<and> frame_wf f \<and> fr_id f = i \<and> frame_payload f = payload
     \<and> \<not> frame_is_fd f"
  by (auto simp: frame_classic_def max_classic_length_def Let_def frame_wf_def frame_payload_def
      frame_default_def max_fd_length_def copy_to_def unat_of_nat_byte frame_is_fd_def flags_has_def)

lemma frame_fd_Inr:
  "length payload \<le> 64 \<Longrightarrow>
   \<exists>f. frame_fd i payload flags = Inr f \<and> frame_wf f \<and> fr_id f = i \<and> frame_payload f = payload
     \<and> frame_is_fd f"
  using fd_flags_has_or [of flags Fdf Fdf]
  by (auto simp: frame_fd_def Let_def frame_wf_def frame_payload_def fd_flags_has_or
      frame_default_def max_fd_length_def copy_to_def unat_of_nat_byte frame_is_fd_def)

lemma frame_constructors_wf:
  "frame_classic i payload = Inr f \<Longrightarrow> frame_wf f"
  "frame_fd i payload flags = Inr f \<Longrightarrow> frame_wf f"
  "frame_filled i len fill = Inr f \<Longrightarrow> frame_wf f"
  "frame_fd_filled i len fill flags = Inr f \<Longrightarrow> frame_wf f"
  by (auto simp: frame_classic_def frame_fd_def frame_filled_def frame_fd_filled_def Let_def
      frame_wf_def frame_default_def max_classic_length_def max_fd_length_def copy_to_def
      unat_of_nat_byte word_less_nat_alt split: if_splits)

subsection \<open>Byte fields\<close>

record byte_field =
  bf_start_byte :: u16
  bf_length :: u16
  bf_name :: string

definition bf_required_length :: "byte_field \<Rightarrow> u32" where
  "bf_required_length fld = ucast (bf_start_byte fld) + ucast (bf_length fld)"

text \<open>\<open>subspan\<close> for reading, and writing a run of bytes back at an offset.\<close>

definition subspan :: "nat \<Rightarrow> nat \<Rightarrow> 'a list \<Rightarrow> 'a list" where
  "subspan off n xs = take n (drop off xs)"

definition overwrite :: "nat \<Rightarrow> 'a list \<Rightarrow> 'a list \<Rightarrow> 'a list" where
  "overwrite off ys xs = take off xs @ ys @ drop (off + length ys) xs"

definition read_bytes :: "byte_field \<Rightarrow> frame \<Rightarrow> can_error + byte list" where
  "read_bytes fld f =
     (if ucast (fr_length f) < bf_required_length fld then Inl Signal_out_of_range
      else Inr (subspan (unat (bf_start_byte fld)) (unat (bf_length fld)) (frame_payload f)))"

definition write_bytes :: "byte_field \<Rightarrow> frame \<Rightarrow> byte list \<Rightarrow> can_error + frame" where
  "write_bytes fld f bytes =
     (if ucast (fr_length f) < bf_required_length fld then Inl Signal_out_of_range
      else
        let count = (if length bytes < unat (bf_length fld) then length bytes
                     else unat (bf_length fld))
        in Inr (frame_store f
             (overwrite (unat (bf_start_byte fld)) (take count bytes) (frame_payload f))))"

fun trimmed_size :: "byte list \<Rightarrow> nat \<Rightarrow> nat" where
  "trimmed_size bytes 0 = 0"
| "trimmed_size bytes (Suc n) = (if bytes ! n = 0 then trimmed_size bytes n else Suc n)"

definition read_text :: "byte_field \<Rightarrow> frame \<Rightarrow> can_error + byte list" where
  "read_text fld f =
     (case read_bytes fld f of
        Inl e \<Rightarrow> Inl e
      | Inr bytes \<Rightarrow> Inr (take (trimmed_size bytes (length bytes)) bytes))"

definition write_text :: "byte_field \<Rightarrow> frame \<Rightarrow> byte list \<Rightarrow> can_error + frame" where
  "write_text fld f txt =
     (if ucast (fr_length f) < bf_required_length fld then Inl Signal_out_of_range
      else Inr (frame_store f
        (overwrite (unat (bf_start_byte fld))
          (map (\<lambda>i. if i < length txt then txt ! i else 0) [0..<unat (bf_length fld)])
          (frame_payload f))))"

lemma unat_u16_less [simp]: "unat w < 65536" for w :: u16
  using unsigned_less [of w, where ?'a = nat] by simp

lemma bf_required_length_unat:
  "unat (bf_required_length fld) = unat (bf_start_byte fld) + unat (bf_length fld)"
proof -
  have "unat (bf_start_byte fld) + unat (bf_length fld) < 2 ^ 32"
    using unat_u16_less [of "bf_start_byte fld"] unat_u16_less [of "bf_length fld"]
    by (simp del: unat_u16_less)
  then show ?thesis
    by (simp add: bf_required_length_def unat_word_ariths unsigned_ucast_eq take_bit_nat_eq_self
        order_less_le_trans [OF unat_u16_less])
qed

lemma bf_fits:
  "ucast (fr_length f) < bf_required_length fld \<longleftrightarrow>
   unat (fr_length f) < unat (bf_start_byte fld) + unat (bf_length fld)"
  by (simp add: word_less_nat_alt bf_required_length_unat unsigned_ucast_eq take_bit_nat_eq_self
      order_less_le_trans [OF unat_byte_less])

lemma length_overwrite: "off + length ys \<le> length xs \<Longrightarrow> length (overwrite off ys xs) = length xs"
  by (simp add: overwrite_def)

lemma nth_overwrite:
  "off + length ys \<le> length xs \<Longrightarrow> i < length xs \<Longrightarrow>
   overwrite off ys xs ! i = (if off \<le> i \<and> i < off + length ys then ys ! (i - off) else xs ! i)"
  by (auto simp: overwrite_def nth_append)

lemma subspan_overwrite:
  "off + length ys \<le> length xs \<Longrightarrow> length ys = n \<Longrightarrow> subspan off n (overwrite off ys xs) = ys"
  by (simp add: overwrite_def subspan_def)

lemma trimmed_size_le: "trimmed_size bytes n \<le> n"
  by (induction bytes n rule: trimmed_size.induct) auto

lemma trimmed_size_zeros:
  "m \<le> n \<Longrightarrow> (\<And>i. m \<le> i \<Longrightarrow> i < n \<Longrightarrow> bytes ! i = 0) \<Longrightarrow> trimmed_size bytes n = trimmed_size bytes m"
  by (induction bytes n rule: trimmed_size.induct) (auto simp: le_Suc_eq)

lemma trimmed_size_full: "n = 0 \<or> bytes ! (n - 1) \<noteq> 0 \<Longrightarrow> trimmed_size bytes n = n"
  by (cases n) auto

lemma write_bytes_ok:
  assumes "frame_wf f" and "unat (bf_start_byte fld) + unat (bf_length fld) \<le> unat (fr_length f)"
  shows "write_bytes fld f bytes = Inr (frame_store f
      (overwrite (unat (bf_start_byte fld)) (take (unat (bf_length fld)) bytes) (frame_payload f)))"
  using assms by (simp add: write_bytes_def bf_fits Let_def)

lemma read_bytes_ok:
  assumes "unat (bf_start_byte fld) + unat (bf_length fld) \<le> unat (fr_length f)"
  shows "read_bytes fld f =
    Inr (subspan (unat (bf_start_byte fld)) (unat (bf_length fld)) (frame_payload f))"
  using assms by (simp add: read_bytes_def bf_fits)

text \<open>The bytes a text is stored as: cut to the field, or filled up with zeros.\<close>

definition fixed_text :: "nat \<Rightarrow> byte list \<Rightarrow> byte list" where
  "fixed_text n txt = take n txt @ replicate (n - length txt) 0"

lemma fixed_text_map: "map (\<lambda>i. if i < length txt then txt ! i else 0) [0..<n] = fixed_text n txt"
  by (rule nth_equalityI) (auto simp: fixed_text_def nth_append)

lemma write_text_ok:
  assumes "frame_wf f" and "unat (bf_start_byte fld) + unat (bf_length fld) \<le> unat (fr_length f)"
  shows "write_text fld f txt = Inr (frame_store f
      (overwrite (unat (bf_start_byte fld)) (fixed_text (unat (bf_length fld)) txt) (frame_payload f)))"
  using assms by (simp add: write_text_def bf_fits fixed_text_map)

lemma trimmed_fixed_text:
  assumes "txt = [] \<or> last txt \<noteq> 0" and "length txt \<le> n"
  shows "take (trimmed_size (fixed_text n txt) n) (fixed_text n txt) = txt"
proof -
  have "trimmed_size (fixed_text n txt) n = trimmed_size (fixed_text n txt) (length txt)"
    using assms(2) by (intro trimmed_size_zeros) (auto simp: fixed_text_def nth_append)
  also have "\<dots> = length txt"
    using assms by (intro trimmed_size_full) (auto simp: fixed_text_def nth_append last_conv_nth)
  finally show ?thesis using assms(2) by (simp add: fixed_text_def)
qed

lemma write_read_text:
  assumes "frame_wf f" and "unat (bf_start_byte fld) + unat (bf_length fld) \<le> unat (fr_length f)"
    and "txt = [] \<or> last txt \<noteq> 0" and "length txt \<le> unat (bf_length fld)"
  shows "\<exists>g. write_text fld f txt = Inr g \<and> read_text fld g = Inr txt"
proof -
  let ?p = "overwrite (unat (bf_start_byte fld)) (fixed_text (unat (bf_length fld)) txt) (frame_payload f)"
  have len: "length (fixed_text (unat (bf_length fld)) txt) = unat (bf_length fld)"
    using assms(4) by (simp add: fixed_text_def)
  have p: "length ?p = unat (fr_length f)"
    using assms(1,2) len by (simp add: length_overwrite)
  have "read_bytes fld (frame_store f ?p) = Inr (fixed_text (unat (bf_length fld)) txt)"
    using assms(1,2) p len by (simp add: read_bytes_ok subspan_overwrite)
  then have "read_text fld (frame_store f ?p) = Inr txt"
    using trimmed_fixed_text [OF assms(3,4)] len by (simp add: read_text_def)
  then show ?thesis using write_text_ok [OF assms(1,2)] by blast
qed

lemma write_read_bytes:
  assumes "frame_wf f" and "unat (bf_start_byte fld) + unat (bf_length fld) \<le> unat (fr_length f)"
    and "length bytes = unat (bf_length fld)"
  shows "\<exists>g. write_bytes fld f bytes = Inr g \<and> read_bytes fld g = Inr bytes \<and> frame_wf g \<and>
    (\<forall>i < unat (fr_length f). \<not> (unat (bf_start_byte fld) \<le> i \<and>
       i < unat (bf_start_byte fld) + unat (bf_length fld)) \<longrightarrow>
       frame_payload g ! i = frame_payload f ! i)"
proof -
  let ?p = "overwrite (unat (bf_start_byte fld)) bytes (frame_payload f)"
  have p: "length ?p = unat (fr_length f)"
    using assms by (simp add: length_overwrite)
  have "write_bytes fld f bytes = Inr (frame_store f ?p)"
    using assms by (simp add: write_bytes_ok)
  moreover have "read_bytes fld (frame_store f ?p) = Inr bytes"
    using assms p by (simp add: read_bytes_ok subspan_overwrite)
  ultimately show ?thesis
    using assms p by (auto simp: nth_overwrite)
qed

subsection \<open>Properties\<close>

text \<open>Padding a CAN FD payload length picks the smallest length a data length code can express,
and the valid lengths are exactly the sixteen of the table.\<close>

lemma fd_padded_length_smallest:
  assumes "len \<le> 64"
  shows "len \<le> fd_padded_length len \<and> fd_padded_length len \<in> set fd_dlc_length_table \<and>
    (\<forall>m \<in> set fd_dlc_length_table. len \<le> m \<longrightarrow> fd_padded_length len \<le> m) \<and>
    is_valid_fd_length len = (len \<in> set fd_dlc_length_table)"
proof -
  have len: "len \<le> of_nat 64" using assms by simp
  have l: "len \<le> fd_padded_length len" "is_valid_fd_length (fd_padded_length len)"
    "list_all (\<lambda>m. len \<le> m \<longrightarrow> fd_padded_length len \<le> m) fd_dlc_length_table"
    using fd_padded_length_least len by blast+
  moreover have "fd_padded_length len \<le> of_nat 64"
    using l(2) by (simp add: is_valid_fd_length_def max_fd_length_def)
  ultimately show ?thesis using fd_valid_iff_table len unfolding list_all_iff by blast
qed

text \<open>Bytes written to a field that lies inside the frame are read back, the other bytes of
the payload stay, and a field that does not fit is refused by both directions.\<close>

lemma byte_field_write_read:
  assumes "frame_wf f" and "length bytes = unat (bf_length fld)"
  shows "if unat (bf_start_byte fld) + unat (bf_length fld) \<le> unat (fr_length f)
    then \<exists>g. write_bytes fld f bytes = Inr g \<and> read_bytes fld g = Inr bytes \<and> frame_wf g \<and>
      (\<forall>i < unat (fr_length f). \<not> (unat (bf_start_byte fld) \<le> i \<and>
         i < unat (bf_start_byte fld) + unat (bf_length fld)) \<longrightarrow>
         frame_payload g ! i = frame_payload f ! i)
    else write_bytes fld f bytes = Inl Signal_out_of_range \<and> read_bytes fld f = Inl Signal_out_of_range"
  using write_read_bytes [OF assms(1) _ assms(2)]
  by (simp add: write_bytes_def read_bytes_def bf_fits)

text \<open>A text written to a field is read back without its zero padding, when it fits and does
not itself end in a zero byte.\<close>

lemma text_field_write_read:
  assumes "frame_wf f" and "unat (bf_start_byte fld) + unat (bf_length fld) \<le> unat (fr_length f)"
    and "txt = [] \<or> last txt \<noteq> 0" and "length txt \<le> unat (bf_length fld)"
  shows "\<exists>g. write_text fld f txt = Inr g \<and> read_text fld g = Inr txt"
  using assms by (rule write_read_text)

end
