(* ===== verification/J1939_Transport.thy ===== *)
theory J1939_Transport
  imports Can_Frame
begin

text \<open>
  The J1939 transport protocol, \<open>can/j1939_transport.hpp\<close>: the reassembler that turns
  TP.CM and TP.DT frames into messages, one session per pair of endpoints and at most
  eight of them, and \<open>segment_bam\<close>, which cuts a payload into such frames.

  \<open>ep_accept\<close> is the specification: what one endpoint pair would see if it had the
  reassembler to itself.
\<close>

subsection \<open>The code\<close>

definition j1939_pgn_tp_cm :: u32 where "j1939_pgn_tp_cm = 0x00EC00"
definition j1939_pgn_tp_dt :: u32 where "j1939_pgn_tp_dt = 0x00EB00"
definition j1939_tp_bam :: u8 where "j1939_tp_bam = 32"
definition j1939_tp_rts :: u8 where "j1939_tp_rts = 16"
definition j1939_max_transport :: u16 where "j1939_max_transport = 1785"
definition j1939_tp_dt_payload :: u8 where "j1939_tp_dt_payload = 7"

record transport_message =
  tm_pgn :: u32
  tm_source :: u8
  tm_destination :: u8
  tm_data :: "byte list"

record tp_session =
  ts_source :: u8
  ts_destination :: u8
  ts_pgn :: u32
  ts_size :: u16
  ts_packets :: u8
  ts_received :: u8
  ts_opened_at :: u32
  ts_buffer :: "byte list"

record reassembler =
  sessions :: "tp_session list"
  next_order :: u32

definition max_sessions :: nat where "max_sessions = 8"

definition reassembler_init :: reassembler where
  "reassembler_init = \<lparr>sessions = [], next_order = 0\<rparr>"

text \<open>\<open>find\<close> yields a pointer into the session vector: the model yields its index.\<close>

fun session_index :: "u8 \<Rightarrow> u8 \<Rightarrow> tp_session list \<Rightarrow> nat option" where
  "session_index source destination [] = None"
| "session_index source destination (s # ss) =
     (if ts_source s = source \<and> ts_destination s = destination then Some 0
      else map_option Suc (session_index source destination ss))"

definition erase_session :: "u8 \<Rightarrow> u8 \<Rightarrow> tp_session list \<Rightarrow> tp_session list" where
  "erase_session source destination ss =
     (case session_index source destination ss of
        None \<Rightarrow> ss
      | Some i \<Rightarrow> swap_remove i ss)"

fun oldest_from :: "tp_session \<Rightarrow> tp_session list \<Rightarrow> tp_session" where
  "oldest_from oldest [] = oldest"
| "oldest_from oldest (s # ss) =
     oldest_from (if ts_opened_at s < ts_opened_at oldest then s else oldest) ss"

definition evict_oldest :: "tp_session list \<Rightarrow> tp_session list" where
  "evict_oldest ss =
     (case ss of
        [] \<Rightarrow> ss
      | first # _ \<Rightarrow>
          let oldest = oldest_from first ss
          in erase_session (ts_source oldest) (ts_destination oldest) ss)"

text \<open>The session a valid BAM or RTS opens; \<open>None\<close> when its sizes do not agree.\<close>

definition tp_opened :: "u8 \<Rightarrow> u8 \<Rightarrow> byte list \<Rightarrow> u32 \<Rightarrow> tp_session option" where
  "tp_opened source destination payload order =
     (let sz = (ucast (payload ! 1) OR push_bit 8 (ucast (payload ! 2)) :: u16);
          packets = payload ! 3;
          expected = (ucast ((ucast sz + ucast j1939_tp_dt_payload - 1 :: u32)
                             div ucast j1939_tp_dt_payload) :: u16)
      in if sz = 0 \<or> j1939_max_transport < sz \<or> packets = 0 \<or> ucast packets \<noteq> expected
         then None
         else Some \<lparr>ts_source = source, ts_destination = destination,
                ts_pgn = ucast (payload ! 5) OR push_bit 8 (ucast (payload ! 6))
                         OR push_bit 16 (ucast (payload ! 7)),
                ts_size = sz, ts_packets = packets, ts_received = 0,
                ts_opened_at = order, ts_buffer = []\<rparr>)"

text \<open>The session after a data packet in sequence, and the message of a complete one.\<close>

definition tp_fed :: "byte list \<Rightarrow> tp_session \<Rightarrow> tp_session" where
  "tp_fed payload s =
     s\<lparr>ts_buffer := ts_buffer s @ map (\<lambda>i. payload ! (i + 1)) [0..<unat j1939_tp_dt_payload],
       ts_received := ts_received s + 1\<rparr>"

definition tp_message :: "u8 \<Rightarrow> u8 \<Rightarrow> tp_session \<Rightarrow> transport_message" where
  "tp_message source destination s =
     (let total = (if unat (ts_size s) \<le> length (ts_buffer s) then unat (ts_size s)
                   else length (ts_buffer s))
      in \<lparr>tm_pgn = ts_pgn s, tm_source = source, tm_destination = destination,
          tm_data = take total (ts_buffer s)\<rparr>)"

definition accept_cm :: "reassembler \<Rightarrow> u8 \<Rightarrow> u8 \<Rightarrow> byte list \<Rightarrow> reassembler" where
  "accept_cm r source destination payload =
     (if length payload < unat max_classic_length then r
      else if payload ! 0 = j1939_tp_bam \<or> payload ! 0 = j1939_tp_rts then
        let ss = erase_session source destination (sessions r)
        in case tp_opened source destination payload (next_order r) of
             None \<Rightarrow> r\<lparr>sessions := ss\<rparr>
           | Some s \<Rightarrow>
               let ss' = (if max_sessions \<le> length ss then evict_oldest ss else ss)
               in r\<lparr>sessions := ss' @ [s], next_order := next_order r + 1\<rparr>
      else r)"

definition accept_dt ::
    "reassembler \<Rightarrow> u8 \<Rightarrow> u8 \<Rightarrow> byte list \<Rightarrow> transport_message option \<times> reassembler" where
  "accept_dt r source destination payload =
     (case session_index source destination (sessions r) of
        None \<Rightarrow> (None, r)
      | Some i \<Rightarrow>
          let active = sessions r ! i
          in if length payload < unat max_classic_length then
               (None, r\<lparr>sessions := erase_session source destination (sessions r)\<rparr>)
             else if payload ! 0 \<noteq> ts_received active + 1 then
               (None, r\<lparr>sessions := erase_session source destination (sessions r)\<rparr>)
             else
               let active' = tp_fed payload active;
                   ss = (sessions r)[i := active']
               in if ts_packets active' \<le> ts_received active' then
                    (Some (tp_message source destination active'),
                     r\<lparr>sessions := erase_session source destination ss\<rparr>)
                  else (None, r\<lparr>sessions := ss\<rparr>))"

definition accept ::
    "reassembler \<Rightarrow> frame \<Rightarrow> (can_error + transport_message option) \<times> reassembler" where
  "accept r f =
     (if \<not> is_extended (fr_id f) then (Inr None, r)
      else
        case j1939_decode (fr_id f) of
          None \<Rightarrow> (Inr None, r)
        | Some decoded \<Rightarrow>
            let pgn = j_pgn decoded; source = j_source_address decoded;
                payload = frame_payload f; destination = j_destination_address decoded
            in if pgn = j1939_pgn_tp_cm then
                 (Inr None, accept_cm r source destination payload)
               else if pgn = j1939_pgn_tp_dt then
                 (case accept_dt r source destination payload of (m, r') \<Rightarrow> (Inr m, r'))
               else (Inr None, r))"

definition dt_payload :: "byte list \<Rightarrow> nat \<Rightarrow> byte list" where
  "dt_payload data packet =
     of_nat (packet + 1) #
       map (\<lambda>i. let index = packet * unat j1939_tp_dt_payload + i
                in if index < length data then data ! index else 0xFF)
         [0..<unat j1939_tp_dt_payload]"

fun segment_dt :: "can_id \<Rightarrow> byte list \<Rightarrow> nat list \<Rightarrow> can_error + frame list" where
  "segment_dt dt_id data [] = Inr []"
| "segment_dt dt_id data (packet # ps) =
     (case frame_classic dt_id (dt_payload data packet) of
        Inl e \<Rightarrow> Inl e
      | Inr dt_frame \<Rightarrow>
          (case segment_dt dt_id data ps of Inl e \<Rightarrow> Inl e | Inr fs \<Rightarrow> Inr (dt_frame # fs)))"

definition bam_payload :: "u32 \<Rightarrow> nat \<Rightarrow> u8 \<Rightarrow> byte list" where
  "bam_payload pgn len packets =
     [j1939_tp_bam, of_nat (len AND 0xFF), of_nat (drop_bit 8 len AND 0xFF), packets, 0xFF,
      ucast (pgn AND 0xFF), ucast (drop_bit 8 pgn AND 0xFF), ucast (drop_bit 16 pgn AND 0xFF)]"

definition segment_bam :: "u8 \<Rightarrow> u32 \<Rightarrow> u8 \<Rightarrow> byte list \<Rightarrow> can_error + frame list" where
  "segment_bam prio pgn source data =
     (if unat j1939_max_transport < length data then Inl Payload_too_large
      else
        let packets = (of_nat ((length data + unat j1939_tp_dt_payload - 1)
                               div unat j1939_tp_dt_payload) :: u8);
            cm_id = j_id (j1939_make prio j1939_pgn_tp_cm source j1939_global_address)
        in case frame_classic cm_id (bam_payload pgn (length data) packets) of
             Inl e \<Rightarrow> Inl e
           | Inr cm_frame \<Rightarrow>
               let dt_id = j_id (j1939_make prio j1939_pgn_tp_dt source j1939_global_address)
               in case segment_dt dt_id data [0..<unat packets] of
                    Inl e \<Rightarrow> Inl e
                  | Inr fs \<Rightarrow> Inr (cm_frame # fs))"

subsection \<open>The session vector as a map from endpoints\<close>

definition endpoint :: "tp_session \<Rightarrow> u8 \<times> u8" where
  "endpoint s = (ts_source s, ts_destination s)"

definition find_in :: "tp_session list \<Rightarrow> u8 \<times> u8 \<Rightarrow> tp_session option" where
  "find_in ss = map_of (map (\<lambda>s. (endpoint s, s)) ss)"

definition session_ok :: "tp_session \<Rightarrow> bool" where
  "session_ok s \<longleftrightarrow>
     0 < unat (ts_size s) \<and> unat (ts_size s) \<le> 1785 \<and>
     unat (ts_packets s) = (unat (ts_size s) + 6) div 7 \<and>
     unat (ts_received s) < unat (ts_packets s) \<and>
     length (ts_buffer s) = 7 * unat (ts_received s)"

definition sessions_ok :: "tp_session list \<Rightarrow> bool" where
  "sessions_ok ss \<longleftrightarrow> distinct (map endpoint ss) \<and> (\<forall>s \<in> set ss. session_ok s)"

definition reassembler_inv :: "reassembler \<Rightarrow> bool" where
  "reassembler_inv r \<longleftrightarrow> sessions_ok (sessions r) \<and> length (sessions r) \<le> max_sessions"

lemma session_index_Some:
  "session_index source destination ss = Some i \<Longrightarrow>
   i < length ss \<and> endpoint (ss ! i) = (source, destination)
   \<and> find_in ss (source, destination) = Some (ss ! i)"
  by (induction ss arbitrary: i) (auto simp: find_in_def endpoint_def split: if_splits)

lemma session_index_None:
  "session_index source destination ss = None \<longleftrightarrow> (source, destination) \<notin> endpoint ` set ss"
  by (induction ss) (auto simp: endpoint_def)

lemma find_in_None: "find_in ss e = None \<longleftrightarrow> e \<notin> endpoint ` set ss"
  by (auto simp: find_in_def map_of_eq_None_iff image_image)

lemma find_in_Some:
  "distinct (map endpoint ss) \<Longrightarrow> find_in ss e = Some s \<longleftrightarrow> s \<in> set ss \<and> endpoint s = e"
  unfolding find_in_def by (subst map_of_eq_Some_iff) (auto simp: o_def)

lemma find_in_cong:
  assumes "distinct (map endpoint ss)" and "distinct (map endpoint ts)"
    and "\<And>s. endpoint s = e \<Longrightarrow> s \<in> set ss \<longleftrightarrow> s \<in> set ts"
  shows "find_in ss e = find_in ts e"
  using assms by (metis find_in_Some not_None_eq)

lemma erase_set:
  assumes "distinct (map endpoint ss)"
  shows "set (erase_session source destination ss) = {s \<in> set ss. endpoint s \<noteq> (source, destination)}"
    and "distinct (map endpoint (erase_session source destination ss))"
proof -
  have "set (erase_session source destination ss) = {s \<in> set ss. endpoint s \<noteq> (source, destination)}
    \<and> distinct (map endpoint (erase_session source destination ss))"
  proof (cases "session_index source destination ss")
    case None
    then have "erase_session source destination ss = ss" by (simp add: erase_session_def)
    moreover from None have "\<forall>s \<in> set ss. endpoint s \<noteq> (source, destination)"
      unfolding session_index_None by force
    ultimately show ?thesis using assms by auto
  next
    case (Some i)
    with assms session_index_Some [OF Some] set_swap_remove [of i ss endpoint] show ?thesis
      by (simp add: erase_session_def)
  qed
  then show "set (erase_session source destination ss) =
      {s \<in> set ss. endpoint s \<noteq> (source, destination)}"
    and "distinct (map endpoint (erase_session source destination ss))"
    by auto
qed

lemma sessions_ok_distinct: "sessions_ok ss \<Longrightarrow> distinct (map endpoint ss)"
  by (simp add: sessions_ok_def)

lemmas sessions_ok_erase_set = erase_set [OF sessions_ok_distinct]

lemma sessions_ok_erase: "sessions_ok ss \<Longrightarrow> sessions_ok (erase_session source destination ss)"
  by (simp add: sessions_ok_def erase_set)

lemma find_in_erase:
  assumes "distinct (map endpoint ss)"
  shows "find_in (erase_session source destination ss) e =
    (if e = (source, destination) then None else find_in ss e)"
proof (cases "e = (source, destination)")
  case True
  with erase_set [OF assms] show ?thesis by (auto simp: find_in_None)
next
  case False
  with assms erase_set [OF assms] show ?thesis
    by (auto intro!: find_in_cong)
qed

lemma length_erase:
  "length (erase_session source destination ss) =
     (if (source, destination) \<in> endpoint ` set ss then length ss - 1 else length ss)"
  using session_index_None [of source destination ss]
  by (auto simp: erase_session_def dest: session_index_Some split: option.split)

lemma find_in_snoc:
  "endpoint s \<notin> endpoint ` set ss \<Longrightarrow> find_in (ss @ [s]) e = (if e = endpoint s then Some s else find_in ss e)"
  using find_in_None [of ss "endpoint s"]
  by (auto simp: find_in_def map_add_def split: option.split)

lemma update_set:
  assumes "distinct (map endpoint ss)" and "i < length ss" and "endpoint s = endpoint (ss ! i)"
  shows "distinct (map endpoint (ss[i := s]))"
    and "x \<in> set (ss[i := s]) \<longleftrightarrow> x = s \<or> x \<in> set ss \<and> endpoint x \<noteq> endpoint s"
    and "find_in (ss[i := s]) e = (if e = endpoint s then Some s else find_in ss e)"
proof -
  have keys: "map endpoint (ss[i := s]) = map endpoint ss"
    using assms(2,3) by (simp add: map_update) (metis list_update_id nth_map)
  with assms show ok: "distinct (map endpoint (ss[i := s]))" by simp
  have mem: "x \<in> set (ss[i := s]) \<longleftrightarrow> x = s \<or> x \<in> set ss \<and> endpoint x \<noteq> endpoint s" for x
  proof -
    have "x \<in> set ss \<and> endpoint x \<noteq> endpoint s \<longleftrightarrow> (\<exists>k < length ss. k \<noteq> i \<and> ss ! k = x)"
      using assms(1-3) unfolding in_set_conv_nth
      by (metis distinct_conv_nth length_map nth_map)
    then show ?thesis
      using assms(2) by (auto simp: in_set_conv_nth nth_list_update split: if_splits)
  qed
  then show "x \<in> set (ss[i := s]) \<longleftrightarrow> x = s \<or> x \<in> set ss \<and> endpoint x \<noteq> endpoint s" .
  show "find_in (ss[i := s]) e = (if e = endpoint s then Some s else find_in ss e)"
  proof (cases "e = endpoint s")
    case True
    then show ?thesis using ok mem by (simp add: find_in_Some)
  next
    case False
    then show ?thesis using ok assms(1) mem by (auto intro!: find_in_cong)
  qed
qed

subsection \<open>Eviction\<close>

lemma oldest_from_mem: "oldest_from oldest ss \<in> insert oldest (set ss)"
  by (induction oldest ss rule: oldest_from.induct) auto

lemma oldest_from_least:
  "s \<in> insert oldest (set ss) \<Longrightarrow> ts_opened_at (oldest_from oldest ss) \<le> ts_opened_at s"
proof (induction oldest ss arbitrary: s rule: oldest_from.induct)
  case (2 oldest t ss)
  let ?o = "if ts_opened_at t < ts_opened_at oldest then t else oldest"
  have "ts_opened_at (oldest_from ?o ss) \<le> ts_opened_at ?o" by (rule "2.IH") simp
  moreover have "ts_opened_at ?o \<le> ts_opened_at t" "ts_opened_at ?o \<le> ts_opened_at oldest"
    by auto
  ultimately show ?case using "2.IH" [of s] "2.prems" by (auto intro: order_trans)
qed simp

lemma evict_oldest_ok:
  assumes "sessions_ok ss" and "ss \<noteq> []"
  shows "\<exists>v \<in> set ss. (\<forall>s \<in> set ss. ts_opened_at v \<le> ts_opened_at s)
    \<and> set (evict_oldest ss) = {s \<in> set ss. endpoint s \<noteq> endpoint v}
    \<and> sessions_ok (evict_oldest ss) \<and> length (evict_oldest ss) = length ss - 1"
proof -
  obtain s ss' where ss: "ss = s # ss'" using assms(2) by (cases ss) auto
  let ?o = "oldest_from s ss"
  have o: "?o \<in> set ss" "\<forall>t \<in> set ss. ts_opened_at ?o \<le> ts_opened_at t"
    using oldest_from_mem [of s ss] oldest_from_least [of _ s ss] ss by auto
  have "evict_oldest ss = erase_session (ts_source ?o) (ts_destination ?o) ss"
    by (simp add: evict_oldest_def ss Let_def)
  with o assms(1) show ?thesis
    by (intro bexI [of _ ?o])
      (auto simp: length_erase endpoint_def sessions_ok_erase sessions_ok_erase_set)
qed

subsection \<open>The frames as events of one endpoint pair\<close>

datatype tp_event =
  Tp_cm "u8 \<times> u8" "byte list" | Tp_dt "u8 \<times> u8" "byte list" | Tp_other

definition tp_classify :: "frame \<Rightarrow> tp_event" where
  "tp_classify f =
     (case j1939_decode (fr_id f) of
        None \<Rightarrow> Tp_other
      | Some d \<Rightarrow>
          let e = (j_source_address d, j_destination_address d)
          in if j_pgn d = j1939_pgn_tp_cm then Tp_cm e (frame_payload f)
             else if j_pgn d = j1939_pgn_tp_dt then Tp_dt e (frame_payload f)
             else Tp_other)"

fun event_endpoint :: "tp_event \<Rightarrow> (u8 \<times> u8) option" where
  "event_endpoint (Tp_cm e p) = Some e"
| "event_endpoint (Tp_dt e p) = Some e"
| "event_endpoint Tp_other = None"

definition frame_endpoint :: "frame \<Rightarrow> (u8 \<times> u8) option" where
  "frame_endpoint f = event_endpoint (tp_classify f)"

lemma accept_classify:
  "accept r f =
     (case tp_classify f of
        Tp_cm (source, destination) p \<Rightarrow> (Inr None, accept_cm r source destination p)
      | Tp_dt (source, destination) p \<Rightarrow>
          (case accept_dt r source destination p of (m, r') \<Rightarrow> (Inr m, r'))
      | Tp_other \<Rightarrow> (Inr None, r))"
  by (auto simp: accept_def tp_classify_def j1939_decode_def Let_def)

text \<open>
  The specification: one endpoint pair, one optional session, no capacity. The order
  stamp, which only eviction reads, is erased.
\<close>

definition stripped :: "tp_session \<Rightarrow> tp_session" where
  "stripped s = s\<lparr>ts_opened_at := 0\<rparr>"

fun ep_step :: "tp_session option \<Rightarrow> tp_event \<Rightarrow> transport_message option \<times> tp_session option" where
  "ep_step st (Tp_cm (source, destination) p) =
     (None,
      if length p < 8 then st
      else if p ! 0 = j1939_tp_bam \<or> p ! 0 = j1939_tp_rts then tp_opened source destination p 0
      else st)"
| "ep_step None (Tp_dt e p) = (None, None)"
| "ep_step (Some s) (Tp_dt (source, destination) p) =
     (if length p < 8 \<or> p ! 0 \<noteq> ts_received s + 1 then (None, None)
      else if ts_packets s \<le> ts_received s + 1
      then (Some (tp_message source destination (tp_fed p s)), None)
      else (None, Some (tp_fed p s)))"
| "ep_step st Tp_other = (None, st)"

lemma stripped_simps [simp]:
  "endpoint (stripped s) = endpoint s" "ts_received (stripped s) = ts_received s"
  "ts_packets (stripped s) = ts_packets s" "tp_fed p (stripped s) = stripped (tp_fed p s)"
  "tp_message a b (stripped s) = tp_message a b s"
  "ts_received (tp_fed p s) = ts_received s + 1" "ts_packets (tp_fed p s) = ts_packets s"
  "endpoint (tp_fed p s) = endpoint s"
  "tm_source (tp_message a b s) = a" "tm_destination (tp_message a b s) = b"
  by (simp_all add: stripped_def endpoint_def tp_fed_def tp_message_def Let_def)

lemma tp_opened_stripped:
  "map_option stripped (tp_opened source destination p n) = tp_opened source destination p 0"
  by (simp add: tp_opened_def stripped_def Let_def)

lemma tp_opened_Some:
  assumes "tp_opened source destination p n = Some s"
  shows "endpoint s = (source, destination)" and "session_ok s" and "ts_opened_at s = n"
proof -
  define sz :: u16 where "sz = ucast (p ! 1) OR push_bit 8 (ucast (p ! 2))"
  from assms have s: "sz \<noteq> 0" "sz \<le> 1785" "p ! 3 \<noteq> 0"
      "ucast (p ! 3) = (ucast ((ucast sz + 7 - 1 :: u32) div 7) :: u16)"
    and fields: "ts_source s = source" "ts_destination s = destination" "ts_size s = sz"
      "ts_packets s = p ! 3" "ts_received s = 0" "ts_buffer s = []" "ts_opened_at s = n"
    by (auto simp: tp_opened_def Let_def sz_def j1939_tp_dt_payload_def j1939_max_transport_def
        split: if_splits)
  have bound: "unat sz \<le> 1785" using s(2) by (simp add: word_le_nat_alt)
  have "unat (of_nat (unat sz + 6) :: u32) = unat sz + 6"
    using bound by (simp only: unat_of_nat) simp
  moreover have "(ucast sz + 7 - 1 :: u32) = of_nat (unat sz + 6)" by simp
  ultimately have "unat (ucast sz + 7 - 1 :: u32) = unat sz + 6" by (simp only:)
  then have "unat ((ucast sz + 7 - 1 :: u32) div 7) = (unat sz + 6) div 7"
    by (simp add: unat_div)
  then have "unat (ucast ((ucast sz + 7 - 1 :: u32) div 7) :: u16) = (unat sz + 6) div 7"
    using bound by (simp add: unsigned_ucast_eq take_bit_nat_eq_self)
  then have "unat (p ! 3) = (unat sz + 6) div 7"
    using s(4) by (metis unat_ucast_u8(1))
  moreover have pos: "0 < unat sz" using s(1) by simp
  moreover have "0 < (unat sz + 6) div 7" using pos by linarith
  ultimately show "session_ok s"
    using bound fields by (simp add: session_ok_def)
  show "endpoint s = (source, destination)" "ts_opened_at s = n"
    using fields by (simp_all add: endpoint_def)
qed

subsection \<open>Each step of the code is a step of the specification\<close>

lemma sessions_ok_card: "sessions_ok ss \<Longrightarrow> length ss = card (endpoint ` set ss)"
  by (metis distinct_card image_set length_map sessions_ok_def)

lemma sessions_ok_snoc:
  "sessions_ok ss \<Longrightarrow> endpoint s \<notin> endpoint ` set ss \<Longrightarrow> session_ok s \<Longrightarrow> sessions_ok (ss @ [s])"
  by (auto simp: sessions_ok_def)

lemma erase_room:
  assumes "sessions_ok ss" and "card (insert (source, destination) (endpoint ` set ss)) \<le> max_sessions"
  shows "length (erase_session source destination ss) < max_sessions"
proof -
  have "endpoint ` set (erase_session source destination ss) = endpoint ` set ss - {(source, destination)}"
    using sessions_ok_erase_set [OF assms(1)] by auto
  then have "length (erase_session source destination ss) = card (endpoint ` set ss - {(source, destination)})"
    using sessions_ok_card [OF sessions_ok_erase [OF assms(1)]] by simp
  then show ?thesis
    using assms(2) by (simp add: card_insert_if card_Diff_singleton_if max_sessions_def split: if_splits)
qed

lemma accept_cm_cases:
  obtains (same) "accept_cm r source destination p = r"
      "\<And>st. snd (ep_step st (Tp_cm (source, destination) p)) = st"
  | (closed) "accept_cm r source destination p =
        r\<lparr>sessions := erase_session source destination (sessions r)\<rparr>"
      "\<And>st. snd (ep_step st (Tp_cm (source, destination) p)) = None"
  | (opened) s where "accept_cm r source destination p =
        (let ss = erase_session source destination (sessions r)
         in r\<lparr>sessions := (if max_sessions \<le> length ss then evict_oldest ss else ss) @ [s],
              next_order := next_order r + 1\<rparr>)"
      "\<And>st. snd (ep_step st (Tp_cm (source, destination) p)) = Some (stripped s)"
      "endpoint s = (source, destination)" "session_ok s"
proof (cases "length p < 8 \<or> p ! 0 \<noteq> j1939_tp_bam \<and> p ! 0 \<noteq> j1939_tp_rts")
  case True
  then show thesis by (intro same) (auto simp: accept_cm_def max_classic_length_def)
next
  case run: False
  show thesis
  proof (cases "tp_opened source destination p (next_order r)")
    case None
    then have "tp_opened source destination p 0 = None"
      using tp_opened_stripped [of source destination p "next_order r"] by simp
    with None run show thesis
      by (intro closed) (auto simp: accept_cm_def max_classic_length_def Let_def)
  next
    case (Some s)
    then have "tp_opened source destination p 0 = Some (stripped s)"
      using tp_opened_stripped [of source destination p "next_order r"] by simp
    with Some run tp_opened_Some [OF Some] show thesis
      by (intro opened [of s]) (auto simp: accept_cm_def max_classic_length_def Let_def)
  qed
qed

lemma accept_cm_inv:
  assumes "reassembler_inv r"
  shows "reassembler_inv (accept_cm r source destination p)"
proof (cases rule: accept_cm_cases [of r source destination p])
  case same
  with assms show ?thesis by simp
next
  case closed
  with assms sessions_ok_erase show ?thesis
    by (auto simp: reassembler_inv_def length_erase)
next
  case (opened s)
  define ss where "ss = erase_session source destination (sessions r)"
  have ss: "sessions_ok ss" "length ss \<le> max_sessions" "(source, destination) \<notin> endpoint ` set ss"
    using assms sessions_ok_erase [of "sessions r"] sessions_ok_erase_set [of "sessions r"]
    by (auto simp: ss_def reassembler_inv_def length_erase)
  show ?thesis
  proof (cases "max_sessions \<le> length ss")
    case True
    then have "ss \<noteq> []" by (auto simp: max_sessions_def)
    from evict_oldest_ok [OF ss(1) this]
    have "sessions_ok (evict_oldest ss)" "endpoint ` set (evict_oldest ss) \<subseteq> endpoint ` set ss"
      "length (evict_oldest ss) = length ss - 1"
      by auto
    moreover from this ss(3) opened(3) have "endpoint s \<notin> endpoint ` set (evict_oldest ss)" by auto
    ultimately have "sessions_ok (evict_oldest ss @ [s])" "length (evict_oldest ss @ [s]) \<le> max_sessions"
      using ss(2) sessions_ok_snoc [of "evict_oldest ss" s] opened(4)
      by (simp_all add: max_sessions_def)
    with opened True show ?thesis
      by (simp add: ss_def [symmetric] reassembler_inv_def Let_def)
  next
    case False
    from ss(3) opened(3) have "endpoint s \<notin> endpoint ` set ss" by simp
    with False ss(1) opened(4) have "sessions_ok (ss @ [s])" "length (ss @ [s]) \<le> max_sessions"
      by (simp_all add: sessions_ok_snoc)
    with opened(1) False show ?thesis
      by (simp add: ss_def [symmetric] reassembler_inv_def Let_def)
  qed
qed

lemma accept_cm_find:
  assumes "reassembler_inv r"
    and "card (insert (source, destination) (endpoint ` set (sessions r))) \<le> max_sessions"
  shows "map_option stripped (find_in (sessions (accept_cm r source destination p)) e) =
    (if e = (source, destination)
     then snd (ep_step (map_option stripped (find_in (sessions r) e)) (Tp_cm e p))
     else map_option stripped (find_in (sessions r) e))"
proof (cases rule: accept_cm_cases [of r source destination p])
  case same
  then show ?thesis by (cases e) simp
next
  case closed
  with assms(1) show ?thesis
    by (cases e) (auto simp: find_in_erase reassembler_inv_def sessions_ok_distinct)
next
  case (opened s)
  define ss where "ss = erase_session source destination (sessions r)"
  have ok: "sessions_ok (sessions r)" using assms(1) by (simp add: reassembler_inv_def)
  have room: "\<not> max_sessions \<le> length ss"
    using erase_room [OF ok assms(2)] by (simp add: ss_def)
  have "(source, destination) \<notin> endpoint ` set ss"
    using sessions_ok_erase_set [OF ok] by (auto simp: ss_def)
  with opened room show ?thesis
    by (auto simp: ss_def [symmetric] find_in_snoc)
      (simp_all add: ss_def find_in_erase [OF sessions_ok_distinct [OF ok]])
qed

lemma unat_word_inc: "w < v \<Longrightarrow> unat (w + 1) = Suc (unat w)" for w v :: "'a::len word"
proof -
  assume "w < v"
  then have "w \<noteq> - 1" by (metis word_n1_ge not_le)
  then have "1 + w \<noteq> 0" by (metis add.commute eq_neg_iff_add_eq_0)
  then show ?thesis by (simp add: unatSuc add.commute)
qed

lemma tp_fed_ok:
  "session_ok s \<Longrightarrow> \<not> ts_packets s \<le> ts_received s + 1 \<Longrightarrow> session_ok (tp_fed p s)"
  using unat_word_inc [of "ts_received s" "ts_packets s"]
  by (auto simp: session_ok_def tp_fed_def j1939_tp_dt_payload_def word_less_nat_alt word_le_nat_alt)

lemma accept_dt_step:
  assumes "reassembler_inv r" and "accept_dt r source destination p = (m, r')"
  shows "reassembler_inv r'"
    and "find_in (sessions r') e = (if e = (source, destination)
        then find_in (sessions r') (source, destination) else find_in (sessions r) e)"
    and "(m, map_option stripped (find_in (sessions r') (source, destination))) =
      ep_step (map_option stripped (find_in (sessions r) (source, destination))) (Tp_dt (source, destination) p)"
    and "m = Some msg \<Longrightarrow> (tm_source msg, tm_destination msg) = (source, destination)"
proof -
  let ?e = "(source, destination)"
  have ok: "sessions_ok (sessions r)" and len: "length (sessions r) \<le> max_sessions"
    using assms(1) by (simp_all add: reassembler_inv_def)
  have d: "distinct (map endpoint (sessions r))" using ok by (rule sessions_ok_distinct)
  have dropped: "reassembler_inv (r\<lparr>sessions := erase_session source destination (sessions r)\<rparr>)"
    using ok len sessions_ok_erase [OF ok] by (auto simp: reassembler_inv_def length_erase)
  have all: "reassembler_inv r' \<and> (\<forall>e. e \<noteq> ?e \<longrightarrow> find_in (sessions r') e = find_in (sessions r) e) \<and>
    (m, map_option stripped (find_in (sessions r') ?e)) =
      ep_step (map_option stripped (find_in (sessions r) ?e)) (Tp_dt ?e p) \<and>
    (\<forall>msg. m = Some msg \<longrightarrow> (tm_source msg, tm_destination msg) = ?e)"
  proof (cases "session_index source destination (sessions r)")
    case None
    then have "find_in (sessions r) ?e = None"
      by (simp add: session_index_None find_in_None)
    with None assms show ?thesis by (auto simp: accept_dt_def)
  next
    case (Some i)
    let ?s = "sessions r ! i"
    have i: "i < length (sessions r)" "endpoint ?s = ?e" "find_in (sessions r) ?e = Some ?s" "session_ok ?s"
      using session_index_Some [OF Some] ok by (auto simp: sessions_ok_def)
    show ?thesis
    proof (cases "length p < 8 \<or> p ! 0 \<noteq> ts_received ?s + 1")
      case True
      with Some assms(2) i dropped show ?thesis
        by (auto simp: accept_dt_def max_classic_length_def Let_def find_in_erase [OF d] split: if_splits)
    next
      case run: False
      let ?ss = "(sessions r)[i := tp_fed p ?s]"
      have upd: "distinct (map endpoint ?ss)" "find_in ?ss e = (if e = ?e then Some (tp_fed p ?s) else find_in (sessions r) e)"
        "x \<in> set ?ss \<longleftrightarrow> x = tp_fed p ?s \<or> x \<in> set (sessions r) \<and> endpoint x \<noteq> ?e" for e x
        using update_set [OF d i(1), of "tp_fed p ?s"] i(2) by simp_all
      show ?thesis
      proof (cases "ts_packets ?s \<le> ts_received ?s + 1")
        case True
        have "sessions_ok (erase_session source destination ?ss)"
          using ok erase_set [OF upd(1)] upd(3) i(2) by (auto simp: sessions_ok_def)
        with run True Some assms(2) i(3) len show ?thesis
          by (auto simp: accept_dt_def max_classic_length_def Let_def reassembler_inv_def
              find_in_erase [OF upd(1)] upd(2) length_erase)
      next
        case False
        then have "sessions_ok ?ss"
          using ok upd tp_fed_ok [OF i(4)] by (auto simp: sessions_ok_def)
        with run False Some assms(2) i(3) len show ?thesis
          by (auto simp: accept_dt_def max_classic_length_def Let_def reassembler_inv_def upd(2))
      qed
    qed
  qed
  from all show "reassembler_inv r'" by (elim conjE)
  from all show "find_in (sessions r') e = (if e = ?e then find_in (sessions r') ?e
      else find_in (sessions r) e)"
    by (metis (no_types))
  from all show "(m, map_option stripped (find_in (sessions r') ?e)) =
      ep_step (map_option stripped (find_in (sessions r) ?e)) (Tp_dt ?e p)"
    by (elim conjE)
  from all show "m = Some msg \<Longrightarrow> (tm_source msg, tm_destination msg) = ?e" by simp
qed

subsection \<open>Whole runs\<close>

text \<open>A caller feeds frames one by one and collects the messages.\<close>

fun accept_all :: "reassembler \<Rightarrow> frame list \<Rightarrow> transport_message list \<times> reassembler" where
  "accept_all r [] = ([], r)"
| "accept_all r (f # fs) =
     (case accept r f of
        (Inr (Some m), r') \<Rightarrow> (case accept_all r' fs of (ms, r'') \<Rightarrow> (m # ms, r''))
      | (_, r') \<Rightarrow> accept_all r' fs)"

fun ep_run :: "tp_session option \<Rightarrow> tp_event list \<Rightarrow> transport_message list" where
  "ep_run st [] = []"
| "ep_run st (ev # evs) =
     (case ep_step st ev of
        (Some m, st') \<Rightarrow> m # ep_run st' evs
      | (None, st') \<Rightarrow> ep_run st' evs)"

definition msg_endpoint :: "transport_message \<Rightarrow> u8 \<times> u8" where
  "msg_endpoint m = (tm_source m, tm_destination m)"

definition of_endpoint :: "u8 \<times> u8 \<Rightarrow> frame list \<Rightarrow> tp_event list" where
  "of_endpoint e fs = map tp_classify (filter (\<lambda>f. frame_endpoint f = Some e) fs)"

definition view :: "reassembler \<Rightarrow> u8 \<times> u8 \<Rightarrow> tp_session option" where
  "view r e = map_option stripped (find_in (sessions r) e)"

lemma endpoints_view: "e \<in> endpoint ` set (sessions r) \<longleftrightarrow> view r e \<noteq> None"
  using find_in_None [of "sessions r" e] by (auto simp: view_def)

lemma ep_step_cm: "fst (ep_step st (Tp_cm e p)) = None"
  by (cases e) simp

lemma local_change:
  assumes "(m, g a) = S (f a)" and "\<And>e. e \<noteq> a \<Longrightarrow> g e = f e"
  shows "\<forall>e. if Some a = Some e then (m, g e) = S (f e) else g e = f e"
  using assms by auto

lemma accept_step:
  assumes "reassembler_inv r" and "endpoint ` set (sessions r) \<subseteq> E" and "set_option (frame_endpoint f) \<subseteq> E"
    and "finite E" and "card E \<le> max_sessions"
  shows "\<exists>m r'. accept r f = (Inr m, r') \<and> reassembler_inv r' \<and> endpoint ` set (sessions r') \<subseteq> E
    \<and> (\<forall>e. if frame_endpoint f = Some e then (m, view r' e) = ep_step (view r e) (tp_classify f)
          else view r' e = view r e)
    \<and> (\<forall>msg. m = Some msg \<longrightarrow> frame_endpoint f = Some (msg_endpoint msg))"
proof -
  have grown: "endpoint ` set (sessions r') \<subseteq> E"
    if "\<And>e. frame_endpoint f \<noteq> Some e \<Longrightarrow> view r' e = view r e" for r'
    using that assms(2,3) endpoints_view by (auto simp: subset_iff) (metis endpoints_view option.set_intros)
  show ?thesis
  proof (cases "tp_classify f")
    case (Tp_cm e p)
    obtain a b where e: "e = (a, b)" by (cases e)
    have fe: "frame_endpoint f = Some (a, b)" using Tp_cm e by (simp add: frame_endpoint_def)
    have "card (insert (a, b) (endpoint ` set (sessions r))) \<le> max_sessions"
      using assms fe card_mono [of E "insert (a, b) (endpoint ` set (sessions r))"] by simp
    from accept_cm_find [OF assms(1) this]
    have seen: "view (accept_cm r a b p) e' =
        (if e' = (a, b) then snd (ep_step (view r e') (Tp_cm e' p)) else view r e')" for e'
      by (simp only: view_def)
    have "endpoint ` set (sessions (accept_cm r a b p)) \<subseteq> E"
      using grown [of "accept_cm r a b p"] seen fe by simp
    moreover have "(None, view (accept_cm r a b p) (a, b)) = ep_step (view r (a, b)) (tp_classify f)"
      using seen [of "(a, b)"] ep_step_cm [of "view r (a, b)" "(a, b)" p]
      by (simp only: Tp_cm e prod_eq_iff) simp
    moreover have "accept r f = (Inr None, accept_cm r a b p)"
      by (simp add: accept_classify Tp_cm e)
    moreover have "view (accept_cm r a b p) e' = view r e'" if "e' \<noteq> (a, b)" for e'
      using seen that by simp
    ultimately show ?thesis
      using accept_cm_inv [OF assms(1)] unfolding fe
      by (intro exI [of _ None] exI [of _ "accept_cm r a b p"] conjI local_change) simp_all
  next
    case (Tp_dt e p)
    obtain a b where e: "e = (a, b)" by (cases e)
    obtain m r' where run: "accept_dt r a b p = (m, r')" by (cases "accept_dt r a b p")
    have fe: "frame_endpoint f = Some (a, b)" using Tp_dt e by (simp add: frame_endpoint_def)
    have seen: "(m, view r' (a, b)) = ep_step (view r (a, b)) (tp_classify f)"
      using accept_dt_step(3) [OF assms(1) run] by (simp only: view_def Tp_dt e)
    have rest: "e' \<noteq> (a, b) \<Longrightarrow> view r' e' = view r e'" for e'
      using accept_dt_step(2) [OF assms(1) run, of e'] by (simp only: view_def if_False)
    have "endpoint ` set (sessions r') \<subseteq> E"
      using grown [of r'] rest fe by simp
    moreover have "accept r f = (Inr m, r')"
      by (simp add: accept_classify Tp_dt e run)
    ultimately show ?thesis
      using accept_dt_step(1,4) [OF assms(1) run] seen rest unfolding fe
      by (intro exI [of _ m] exI [of _ r'] conjI local_change) (simp_all add: msg_endpoint_def)
  next
    case Tp_other
    with assms show ?thesis by (simp add: accept_classify frame_endpoint_def)
  qed
qed

lemma accept_all_refines:
  assumes "reassembler_inv r" and "endpoint ` set (sessions r) \<subseteq> E"
    and "\<And>f. f \<in> set fs \<Longrightarrow> set_option (frame_endpoint f) \<subseteq> E"
    and "finite E" and "card E \<le> max_sessions"
  shows "filter (\<lambda>m. msg_endpoint m = e) (fst (accept_all r fs)) = ep_run (view r e) (of_endpoint e fs)"
  using assms
proof (induction fs arbitrary: r)
  case Nil
  then show ?case by (simp add: of_endpoint_def)
next
  case (Cons f fs)
  obtain m r' where run: "accept r f = (Inr m, r')" "reassembler_inv r'"
      "endpoint ` set (sessions r') \<subseteq> E"
      "\<And>e. if frame_endpoint f = Some e then (m, view r' e) = ep_step (view r e) (tp_classify f)
          else view r' e = view r e"
      "\<And>msg. m = Some msg \<Longrightarrow> frame_endpoint f = Some (msg_endpoint msg)"
    using accept_step [OF Cons.prems(1,2) Cons.prems(3) [of f] Cons.prems(4,5)] by auto
  have IH: "filter (\<lambda>m. msg_endpoint m = e) (fst (accept_all r' fs)) = ep_run (view r' e) (of_endpoint e fs)"
    using Cons.IH [OF run(2,3)] Cons.prems by simp
  show ?case
  proof (cases "frame_endpoint f = Some e")
    case True
    then have "(m, view r' e) = ep_step (view r e) (tp_classify f)" using run(4) [of e] by simp
    with True IH run(1,5) show ?thesis
      by (cases m) (auto simp: of_endpoint_def split: prod.split)
  next
    case False
    with IH run(1,5) run(4) [of e] show ?thesis
      by (cases m) (auto simp: of_endpoint_def split: prod.split)
  qed
qed

subsection \<open>A broadcast, segmented and reassembled\<close>

lemma segment_dt_frames:
  "\<exists>fs. segment_dt dt_id data ps = Inr fs \<and>
     map (\<lambda>f. (fr_id f, frame_payload f)) fs = map (\<lambda>k. (dt_id, dt_payload data k)) ps"
proof (induction ps)
  case (Cons k ps)
  obtain f where "frame_classic dt_id (dt_payload data k) = Inr f" "fr_id f = dt_id"
      "frame_payload f = dt_payload data k"
    using frame_classic_Inr [of "dt_payload data k" dt_id]
    by (auto simp: dt_payload_def j1939_tp_dt_payload_def)
  with Cons show ?case by auto
qed simp

lemma tp_pgns:
  "j_pgn (j1939_make prio j1939_pgn_tp_cm source destination) = j1939_pgn_tp_cm"
  "j_pgn (j1939_make prio j1939_pgn_tp_dt source destination) = j1939_pgn_tp_dt"
  "j_destination_address (j1939_make prio j1939_pgn_tp_cm source destination) = destination"
  "j_destination_address (j1939_make prio j1939_pgn_tp_dt source destination) = destination"
  "j1939_pgn_tp_dt \<noteq> j1939_pgn_tp_cm"
  by (simp_all add: j_pgn_make j_destination_make j1939_pgn_tp_cm_def j1939_pgn_tp_dt_def
      pgn_is_pdu1_def j1939_pdu2_threshold_def)

lemma classify_id:
  "fr_id f = j_id (j1939_make prio j1939_pgn_tp_cm source destination) \<Longrightarrow>
   tp_classify f = Tp_cm (source, destination) (frame_payload f)"
  "fr_id f = j_id (j1939_make prio j1939_pgn_tp_dt source destination) \<Longrightarrow>
   tp_classify f = Tp_dt (source, destination) (frame_payload f)"
  by (simp_all add: tp_classify_def j1939_decode_make tp_pgns j_source_make)

definition bam_packets :: "byte list \<Rightarrow> nat" where
  "bam_packets data = (length data + 6) div 7"

lemma segment_bam_events:
  assumes "length data \<le> 1785"
  shows "\<exists>fs. segment_bam prio pgn source data = Inr fs \<and>
    map tp_classify fs =
      Tp_cm (source, j1939_global_address) (bam_payload pgn (length data) (of_nat (bam_packets data))) #
      map (\<lambda>k. Tp_dt (source, j1939_global_address) (dt_payload data k)) [0..<bam_packets data]"
proof -
  let ?g = j1939_global_address
  let ?cm = "j_id (j1939_make prio j1939_pgn_tp_cm source ?g)"
  let ?dt = "j_id (j1939_make prio j1939_pgn_tp_dt source ?g)"
  let ?bam = "bam_payload pgn (length data) (of_nat (bam_packets data))"
  have n: "unat (of_nat (bam_packets data) :: u8) = bam_packets data"
    using assms by (simp add: bam_packets_def unat_of_nat_byte)
  have "length data + unat j1939_tp_dt_payload - 1 = length data + 6"
    by (simp add: j1939_tp_dt_payload_def)
  then have packets: "(length data + unat j1939_tp_dt_payload - 1) div unat j1939_tp_dt_payload
      = bam_packets data"
    by (simp add: bam_packets_def j1939_tp_dt_payload_def)
  obtain c where c: "frame_classic ?cm ?bam = Inr c" "fr_id c = ?cm" "frame_payload c = ?bam"
    using frame_classic_Inr [of ?bam ?cm] by (auto simp: bam_payload_def)
  obtain fs where fs: "segment_dt ?dt data [0..<bam_packets data] = Inr fs"
      "map (\<lambda>f. (fr_id f, frame_payload f)) fs = map (\<lambda>k. (?dt, dt_payload data k)) [0..<bam_packets data]"
    using segment_dt_frames by blast
  have "map tp_classify fs = map (\<lambda>k. Tp_dt (source, ?g) (dt_payload data k)) [0..<bam_packets data]"
  proof (rule nth_equalityI)
    show "length (map tp_classify fs) = length (map (\<lambda>k. Tp_dt (source, ?g) (dt_payload data k)) [0..<bam_packets data])"
      using arg_cong [OF fs(2), of length] by simp
  next
    fix i assume "i < length (map tp_classify fs)"
    then have i: "i < length fs" "i < bam_packets data" using arg_cong [OF fs(2), of length] by simp_all
    have "(fr_id (fs ! i), frame_payload (fs ! i)) = (?dt, dt_payload data i)"
      using arg_cong [OF fs(2), of "\<lambda>xs. xs ! i"] i by simp
    then show "map tp_classify fs ! i = map (\<lambda>k. Tp_dt (source, ?g) (dt_payload data k)) [0..<bam_packets data] ! i"
      using i classify_id(2) [of "fs ! i" prio source ?g] by simp
  qed
  moreover have "segment_bam prio pgn source data = Inr (c # fs)"
    using assms c(1) fs(1) n unfolding segment_bam_def Let_def packets
    by (simp add: j1939_max_transport_def)
  moreover have "tp_classify c = Tp_cm (source, ?g) ?bam"
    using classify_id(1) [OF c(2)] c(3) by simp
  ultimately show ?thesis by (intro exI [of _ "c # fs"]) simp
qed

lemma ep_run_dt:
  assumes "k < n" and "n < 256" and "ts_received s = of_nat k" and "ts_packets s = of_nat n"
  shows "ep_run (Some s) (map (\<lambda>k. Tp_dt (source, destination) (dt_payload data k)) [k..<n]) =
    [tp_message source destination
      (s\<lparr>ts_received := of_nat n,
         ts_buffer := ts_buffer s @ concat (map (\<lambda>k. tl (dt_payload data k)) [k..<n])\<rparr>)]"
  using assms
proof (induction "n - k" arbitrary: k s)
  case (Suc m)
  have fed: "tp_fed (dt_payload data k) s =
      s\<lparr>ts_received := of_nat (Suc k), ts_buffer := ts_buffer s @ tl (dt_payload data k)\<rparr>"
    using Suc.prems by (simp add: tp_fed_def dt_payload_def j1939_tp_dt_payload_def o_def)
  have len: "length (dt_payload data k) = 8"
    by (simp add: dt_payload_def j1939_tp_dt_payload_def)
  have in_order: "dt_payload data k ! 0 = ts_received s + 1"
    using Suc.prems by (simp add: dt_payload_def)
  have packets: "ts_packets s \<le> ts_received s + 1 \<longleftrightarrow> Suc k = n"
  proof -
    have "ts_received s + 1 = of_nat (Suc k)" using Suc.prems by simp
    then have "ts_packets s \<le> ts_received s + 1 \<longleftrightarrow> unat (of_nat n :: u8) \<le> unat (of_nat (Suc k) :: u8)"
      using Suc.prems by (simp only: word_le_nat_alt)
    then show ?thesis using Suc.prems by (simp add: unat_of_nat_byte del: of_nat_Suc) linarith
  qed
  have split: "[k..<n] = k # [Suc k..<n]" using Suc.prems by (simp add: upt_conv_Cons)
  show ?case
  proof (cases "Suc k = n")
    case True
    then show ?thesis
      using split packets len in_order fed by simp
  next
    case False
    with Suc.prems have "Suc k < n" by simp
    from Suc.hyps(1) [OF _ this, of "tp_fed (dt_payload data k) s"] Suc.hyps(2) Suc.prems
    have "ep_run (Some (tp_fed (dt_payload data k) s))
        (map (\<lambda>k. Tp_dt (source, destination) (dt_payload data k)) [Suc k..<n]) =
      [tp_message source destination (s\<lparr>ts_received := of_nat n, ts_buffer := ts_buffer s @
         concat (map (\<lambda>k. tl (dt_payload data k)) [k..<n])\<rparr>)]"
      by (simp add: fed split)
    with False split packets len in_order show ?thesis by simp
  qed
qed simp

lemma dt_payloads_data:
  "take (length data) (concat (map (\<lambda>k. tl (dt_payload data k)) [0..<bam_packets data])) = data"
proof -
  let ?g = "\<lambda>i. if i < length data then data ! i else 0xFF"
  have "concat (map (\<lambda>k. tl (dt_payload data k)) [0..<bam_packets data]) = map ?g [0..<7 * bam_packets data]"
    using concat_blocks [of ?g 7 "bam_packets data"]
    by (simp add: dt_payload_def j1939_tp_dt_payload_def Let_def mult.commute [of _ 7])
  moreover have "length data \<le> 7 * bam_packets data" by (simp add: bam_packets_def)
  ultimately show ?thesis
    by (intro nth_equalityI) simp_all
qed

lemma bam_pgn_bytes:
  "(ucast (ucast (pgn AND 0xFF) :: u8) OR push_bit 8 (ucast (ucast (drop_bit 8 pgn AND 0xFF) :: u8))
     OR push_bit 16 (ucast (ucast (drop_bit 16 pgn AND 0xFF) :: u8)) :: u32) = pgn AND 0xFFFFFF"
proof (rule bit_word_eqI)
  fix n assume "n < LENGTH(32)"
  have m: "(0xFF :: u32) = mask 8" "(0xFFFFFF :: u32) = mask 24"
    by (simp_all add: mask_eq_exp_minus_1)
  show "bit (ucast (ucast (pgn AND 0xFF) :: u8) OR push_bit 8 (ucast (ucast (drop_bit 8 pgn AND 0xFF) :: u8))
     OR push_bit 16 (ucast (ucast (drop_bit 16 pgn AND 0xFF) :: u8)) :: u32) n = bit (pgn AND 0xFFFFFF) n"
    unfolding m bit_or_iff bit_and_iff bit_push_bit_iff bit_unsigned_iff bit_drop_bit_eq bit_mask_iff
    by (cases "n < 8"; cases "n < 16") (auto simp: not_less dest: bit_imp_le_length)
qed

lemma bam_size_bytes:
  assumes "len < 65536"
  shows "(ucast (of_nat (len AND 0xFF) :: u8) OR push_bit 8 (ucast (of_nat (drop_bit 8 len AND 0xFF) :: u8)) :: u16)
    = of_nat len"
proof (rule bit_word_eqI)
  fix n assume n: "n < LENGTH(16)"
  have m: "(0xFF :: nat) = mask 8" by (simp add: mask_eq_exp_minus_1)
  show "bit (ucast (of_nat (len AND 0xFF) :: u8) OR push_bit 8 (ucast (of_nat (drop_bit 8 len AND 0xFF) :: u8)) :: u16) n
    = bit (of_nat len :: u16) n"
    using n unfolding m bit_or_iff bit_push_bit_iff bit_unsigned_iff bit_of_nat_iff bit_and_iff
      bit_drop_bit_eq bit_mask_iff
    by auto
qed

lemma tp_opened_bam:
  assumes "data \<noteq> []" and "length data \<le> 1785"
  shows "tp_opened source destination (bam_payload pgn (length data) (of_nat (bam_packets data))) 0 =
    Some \<lparr>ts_source = source, ts_destination = destination, ts_pgn = pgn AND 0xFFFFFF,
      ts_size = of_nat (length data), ts_packets = of_nat (bam_packets data), ts_received = 0,
      ts_opened_at = 0, ts_buffer = []\<rparr>"
proof -
  let ?p = "bam_payload pgn (length data) (of_nat (bam_packets data))"
  let ?sz = "of_nat (length data) :: u16"
  have sz: "(ucast (?p ! 1) OR push_bit 8 (ucast (?p ! 2)) :: u16) = ?sz"
    using bam_size_bytes [of "length data"] assms(2) by (simp add: bam_payload_def)
  have pgn: "(ucast (?p ! 5) OR push_bit 8 (ucast (?p ! 6)) OR push_bit 16 (ucast (?p ! 7)) :: u32)
      = pgn AND 0xFFFFFF"
    using bam_pgn_bytes [of pgn] by (simp add: bam_payload_def)
  have usz: "unat ?sz = length data" using assms(2) by (simp add: unat_of_nat)
  have "unat (of_nat (length data + 6) :: u32) = length data + 6"
    using assms(2) by (simp only: unat_of_nat) simp
  moreover have "(ucast ?sz + ucast j1939_tp_dt_payload - 1 :: u32) = of_nat (length data + 6)"
    using usz by (simp add: j1939_tp_dt_payload_def) (metis of_nat_unat)
  ultimately have "unat ((ucast ?sz + ucast j1939_tp_dt_payload - 1 :: u32) div ucast j1939_tp_dt_payload)
      = bam_packets data"
    by (simp only: unat_div) (simp add: j1939_tp_dt_payload_def bam_packets_def)
  then have expected: "(ucast ((ucast ?sz + ucast j1939_tp_dt_payload - 1 :: u32) div ucast j1939_tp_dt_payload) :: u16)
      = of_nat (bam_packets data)"
    by (metis of_nat_unat unsigned_def)
  have small: "0 < bam_packets data" "bam_packets data < 256"
    using assms by (cases data; simp add: bam_packets_def)+
  then have packets: "unat (of_nat (bam_packets data) :: u8) = bam_packets data"
    by (simp add: unat_of_nat_byte)
  have "(of_nat (bam_packets data) :: u8) \<noteq> 0"
    using packets small by auto
  moreover have "(ucast (of_nat (bam_packets data) :: u8) :: u16) = of_nat (bam_packets data)"
    using packets by (metis of_nat_unat unsigned_def)
  moreover have "?sz \<noteq> 0" using usz assms(1) by auto
  moreover have "\<not> j1939_max_transport < ?sz"
    using usz assms(2) by (simp add: word_less_nat_alt j1939_max_transport_def)
  moreover have "?p ! 3 = of_nat (bam_packets data)" by (simp add: bam_payload_def)
  ultimately show ?thesis
    unfolding tp_opened_def Let_def sz pgn expected by simp
qed

lemma ep_run_bam:
  assumes "data \<noteq> []" and "length data \<le> 1785"
    and "segment_bam prio pgn source data = Inr fs"
  shows "ep_run st (map tp_classify fs) =
    [\<lparr>tm_pgn = pgn AND 0xFFFFFF, tm_source = source, tm_destination = j1939_global_address,
      tm_data = data\<rparr>]"
proof -
  let ?p = "bam_payload pgn (length data) (of_nat (bam_packets data))"
  let ?s = "\<lparr>ts_source = source, ts_destination = j1939_global_address, ts_pgn = pgn AND 0xFFFFFF,
      ts_size = of_nat (length data), ts_packets = of_nat (bam_packets data), ts_received = 0,
      ts_opened_at = 0, ts_buffer = []\<rparr> :: tp_session"
  have small: "0 < bam_packets data" "bam_packets data < 256"
    using assms by (cases data; simp add: bam_packets_def)+
  have "ep_step st (Tp_cm (source, j1939_global_address) ?p) = (None, Some ?s)"
    using tp_opened_bam [OF assms(1,2)] by (simp add: bam_payload_def)
  then have "ep_run st (map tp_classify fs) =
      ep_run (Some ?s) (map (\<lambda>k. Tp_dt (source, j1939_global_address) (dt_payload data k)) [0..<bam_packets data])"
    using segment_bam_events [OF assms(2), of prio pgn source] assms(3) by auto
  also have "\<dots> = [tp_message source j1939_global_address
      (?s\<lparr>ts_received := of_nat (bam_packets data),
         ts_buffer := concat (map (\<lambda>k. tl (dt_payload data k)) [0..<bam_packets data])\<rparr>)]"
    using ep_run_dt [OF small, of ?s source j1939_global_address data] by simp
  also have "\<dots> = [\<lparr>tm_pgn = pgn AND 0xFFFFFF, tm_source = source,
      tm_destination = j1939_global_address, tm_data = data\<rparr>]"
  proof -
    have "unat (of_nat (length data) :: u16) = length data" using assms(2) by (simp add: unat_of_nat)
    moreover have "length data \<le> length (concat (map (\<lambda>k. tl (dt_payload data k)) [0..<bam_packets data]))"
      using arg_cong [OF dt_payloads_data [of data], of length] by simp
    ultimately show ?thesis
      using dt_payloads_data [of data] by (simp add: tp_message_def Let_def)
  qed
  finally show ?thesis .
qed

lemma segment_bam_endpoint:
  assumes "length data \<le> 1785" and "segment_bam prio pgn source data = Inr bam" and "f \<in> set bam"
  shows "frame_endpoint f = Some (source, j1939_global_address)"
proof -
  let ?g = j1939_global_address
  let ?cm = "Tp_cm (source, ?g) (bam_payload pgn (length data) (of_nat (bam_packets data)))"
  have "map tp_classify bam =
      ?cm # map (\<lambda>k. Tp_dt (source, ?g) (dt_payload data k)) [0..<bam_packets data]"
    using segment_bam_events [OF assms(1), of prio pgn source] assms(2) by auto
  moreover have "tp_classify f \<in> set (map tp_classify bam)" using assms(3) by simp
  ultimately have "tp_classify f = ?cm \<or>
      tp_classify f \<in> (\<lambda>k. Tp_dt (source, ?g) (dt_payload data k)) ` {0..<bam_packets data}"
    by (simp only: list.set set_map set_upt insert_iff)
  then show ?thesis
    by (auto simp: frame_endpoint_def)
qed

lemma segment_bam_too_large:
  "1785 < length data \<Longrightarrow> segment_bam prio pgn source data = Inl Payload_too_large"
  by (simp add: segment_bam_def j1939_max_transport_def)

inductive reassembler_reachable :: "reassembler \<Rightarrow> bool" where
  init: "reassembler_reachable reassembler_init"
| step: "reassembler_reachable r \<Longrightarrow> accept r f = (result, r') \<Longrightarrow> reassembler_reachable r'"

lemma accept_inv: "accept r f = (result, r') \<Longrightarrow> reassembler_inv r \<Longrightarrow> reassembler_inv r'"
  using accept_cm_inv accept_dt_step(1)
  by (force simp: accept_classify split: tp_event.splits prod.splits)

subsection \<open>Properties\<close>

lemma reassembler_init_inv: "reassembler_inv reassembler_init" "view reassembler_init e = None"
  by (simp_all add: reassembler_inv_def reassembler_init_def sessions_ok_def view_def find_in_def)

text \<open>The endpoints a run of frames talks about.\<close>

definition frames_endpoints :: "frame list \<Rightarrow> (u8 \<times> u8) set" where
  "frames_endpoints fs = \<Union> (set (map (\<lambda>f. set_option (frame_endpoint f)) fs))"

lemma run_from_init:
  assumes "card (frames_endpoints fs) \<le> max_sessions"
  shows "filter (\<lambda>m. msg_endpoint m = e) (fst (accept_all reassembler_init fs)) = ep_run None (of_endpoint e fs)"
proof -
  have "finite (frames_endpoints fs)" by (auto simp: frames_endpoints_def)
  then show ?thesis
    using accept_all_refines [of reassembler_init "frames_endpoints fs" fs e] assms
      reassembler_init_inv
    by (auto simp: frames_endpoints_def reassembler_init_def)
qed

text \<open>C3: as long as at most eight endpoint pairs talk, the reassembler gives each of them the
messages it would get alone: interleaving, however fine, changes nothing.\<close>

theorem reassembler_isolates_endpoints:
  assumes "card (frames_endpoints fs) \<le> max_sessions"
  shows "filter (\<lambda>m. msg_endpoint m = e) (fst (accept_all reassembler_init fs)) =
    ep_run None (of_endpoint e fs)"
  using assms by (rule run_from_init)

lemma reassembler_isolates_endpoints_witness:
  "filter (\<lambda>m. msg_endpoint m = (1, 2)) (fst (accept_all reassembler_init [frame_default])) = []"
  using reassembler_isolates_endpoints [of "[frame_default]" "(1, 2)"]
  by (simp add: frames_endpoints_def frame_endpoint_def tp_classify_def j1939_decode_def
      is_extended_def frame_default_def of_endpoint_def max_sessions_def)

text \<open>C4: the frames of a segmented broadcast, interleaved with any traffic of up to seven other
endpoint pairs, give exactly one message of that source, with the payload sent.\<close>

theorem bam_segmented_reassembled:
  assumes "data \<noteq> []" and "length data \<le> 1785"
    and "segment_bam prio pgn source data = Inr bam"
    and "filter (\<lambda>f. frame_endpoint f = Some (source, j1939_global_address)) fs = bam"
    and "card (frames_endpoints fs) \<le> max_sessions"
  shows "filter (\<lambda>m. msg_endpoint m = (source, j1939_global_address)) (fst (accept_all reassembler_init fs)) =
    [\<lparr>tm_pgn = pgn AND 0xFFFFFF, tm_source = source, tm_destination = j1939_global_address,
      tm_data = data\<rparr>]"
  using run_from_init [OF assms(5), of "(source, j1939_global_address)"] ep_run_bam [OF assms(1-3), of None]
  by (simp add: of_endpoint_def assms(4))

lemma bam_segmented_reassembled_witness:
  "\<exists>bam. segment_bam 6 0xFECA 0x21 [1, 2, 3, 4, 5, 6, 7, 8, 9] = Inr bam \<and>
    filter (\<lambda>m. msg_endpoint m = (0x21, j1939_global_address))
      (fst (accept_all reassembler_init (frame_default # bam))) =
    [\<lparr>tm_pgn = 0xFECA AND 0xFFFFFF, tm_source = 0x21, tm_destination = j1939_global_address,
      tm_data = [1, 2, 3, 4, 5, 6, 7, 8, 9]\<rparr>]"
proof -
  let ?data = "[1, 2, 3, 4, 5, 6, 7, 8, 9] :: byte list"
  obtain bam where bam: "segment_bam 6 0xFECA 0x21 ?data = Inr bam"
    using segment_bam_events [of ?data 6 "0xFECA" "0x21"] by auto
  have other: "frame_endpoint frame_default = None"
    by (simp add: frame_endpoint_def tp_classify_def j1939_decode_def is_extended_def frame_default_def)
  have same: "\<And>f. f \<in> set bam \<Longrightarrow> frame_endpoint f = Some (0x21, j1939_global_address)"
    using segment_bam_endpoint [OF _ bam] by simp
  then have "filter (\<lambda>f. frame_endpoint f = Some (0x21, j1939_global_address)) (frame_default # bam) = bam"
    using other by (simp add: filter_id_conv)
  moreover have "frames_endpoints (frame_default # bam) \<subseteq> {(0x21, j1939_global_address)}"
    using same other by (auto simp: frames_endpoints_def)
  then have "card (frames_endpoints (frame_default # bam)) \<le> max_sessions"
    using card_mono [of "{(0x21 :: u8, j1939_global_address)}" "frames_endpoints (frame_default # bam)"]
    by (simp add: max_sessions_def)
  ultimately show ?thesis
    using bam
    by (intro exI [of _ bam] conjI bam_segmented_reassembled [where fs = "frame_default # bam"]) simp_all
qed

text \<open>C5: after any frames at all, the reassembler's sessions belong to different endpoint pairs,
are at most eight, and each one's buffer holds seven bytes for every packet received.\<close>

theorem reassembler_reachable_inv:
  assumes "reassembler_reachable r"
  shows "reassembler_inv r"
  using assms by induction (auto simp: reassembler_init_inv dest: accept_inv)

lemma reassembler_reachable_inv_witness: "reassembler_inv (snd (accept reassembler_init frame_default))"
  by (rule reassembler_reachable_inv)
    (rule reassembler_reachable.step [OF reassembler_reachable.init], rule prod.collapse [symmetric])

text \<open>When a ninth endpoint pair announces a message, exactly the oldest session makes room:
the new one is opened and every other one is kept.\<close>

lemma full_reassembler_evicts_oldest:
  assumes "reassembler_inv r" and "length (sessions r) = max_sessions"
    and "(source, destination) \<notin> endpoint ` set (sessions r)" and "8 \<le> length p"
    and "p ! 0 = j1939_tp_bam \<or> p ! 0 = j1939_tp_rts"
    and "tp_opened source destination p (next_order r) = Some s"
  shows "\<exists>v \<in> set (sessions r). (\<forall>t \<in> set (sessions r). ts_opened_at v \<le> ts_opened_at t) \<and>
    set (sessions (accept_cm r source destination p)) = insert s (set (sessions r) - {v})"
proof -
  have "session_index source destination (sessions r) = None"
    using assms(3) by (simp add: session_index_None)
  then have "sessions (accept_cm r source destination p) = evict_oldest (sessions r) @ [s]"
    using assms(2,4-6) by (auto simp: accept_cm_def erase_session_def max_classic_length_def Let_def)
  moreover have ok: "sessions_ok (sessions r)" using assms(1) by (simp add: reassembler_inv_def)
  moreover have "sessions r \<noteq> []" using assms(2) by (auto simp: max_sessions_def)
  ultimately obtain v where v: "v \<in> set (sessions r)" "\<forall>t \<in> set (sessions r). ts_opened_at v \<le> ts_opened_at t"
      "set (sessions (accept_cm r source destination p)) =
        insert s {t \<in> set (sessions r). endpoint t \<noteq> endpoint v}"
    using evict_oldest_ok [of "sessions r"] by auto
  have "{t \<in> set (sessions r). endpoint t \<noteq> endpoint v} = set (sessions r) - {v}"
    using v(1) sessions_ok_distinct [OF ok] by (auto simp: distinct_map inj_on_def)
  with v show ?thesis by auto
qed

end
