(* ===== verification/Container_Error.thy ===== *)
theory Container_Error
  imports Prelude
begin

text \<open>The error of every container operation: \<open>container/error.hpp\<close>.\<close>

datatype container_error = Full | Empty | Out_of_range | Not_found

fun container_error_to_string :: "container_error \<Rightarrow> string" where
  "container_error_to_string Full = ''full''"
| "container_error_to_string Empty = ''empty''"
| "container_error_to_string Out_of_range = ''out_of_range''"
| "container_error_to_string Not_found = ''not_found''"

end
