(* ===== verification/Partition.thy ===== *)
theory Partition
  imports Container_Error
begin

text \<open>
  What the users of a disjoint-set structure rely on: \<open>unite\<close> always answers, joins the
  classes of two nodes, and says whether they were apart. The algorithms on graphs that
  call \<open>unite\<close> edge by edge are verified against this interface alone.
\<close>

subsection \<open>Connectivity\<close>

definition conn :: "('n \<times> 'n) set \<Rightarrow> ('n \<times> 'n) set" where
  "conn E = (E \<union> E\<inverse>)\<^sup>*"

definition join :: "('n \<times> 'n) set \<Rightarrow> 'n \<Rightarrow> 'n \<Rightarrow> ('n \<times> 'n) set" where
  "join same u v =
     {(c, d). (c, d) \<in> same \<or> (c, u) \<in> same \<and> (v, d) \<in> same \<or> (c, v) \<in> same \<and> (u, d) \<in> same}"

lemma conn_refl [simp]: "(x, x) \<in> conn E"
  by (simp add: conn_def)

lemma conn_sym: "(x, y) \<in> conn E \<Longrightarrow> (y, x) \<in> conn E"
  unfolding conn_def by (metis converse_Un converse_converse rtrancl_converseD sup_commute)

lemma conn_trans [trans]: "(x, y) \<in> conn E \<Longrightarrow> (y, z) \<in> conn E \<Longrightarrow> (x, z) \<in> conn E"
  unfolding conn_def by (rule rtrancl_trans)

lemma conn_mono: "E \<subseteq> F \<Longrightarrow> conn E \<subseteq> conn F"
  unfolding conn_def by (intro rtrancl_mono) auto

lemma conn_edge: "(x, y) \<in> E \<Longrightarrow> (x, y) \<in> conn E"
  unfolding conn_def by auto

lemma conn_least:
  assumes "(x, y) \<in> conn E" and "\<And>a b. (a, b) \<in> E \<Longrightarrow> (a, b) \<in> conn F"
  shows "(x, y) \<in> conn F"
  using assms(1) unfolding conn_def [of E]
proof (induction rule: rtrancl_induct)
  case (step y z)
  from step.hyps(2) have "(y, z) \<in> conn F"
    using assms(2) conn_sym [OF assms(2) [of z y]] by auto
  with step.IH show ?case by (rule conn_trans)
qed simp

lemma conn_insert: "conn (insert (a, b) E) = join (conn E) a b"
proof
  show "conn (insert (a, b) E) \<subseteq> join (conn E) a b"
  proof
    fix p assume "p \<in> conn (insert (a, b) E)"
    then obtain x y where p: "p = (x, y)" "(x, y) \<in> (insert (a, b) E \<union> (insert (a, b) E)\<inverse>)\<^sup>*"
      by (cases p) (simp add: conn_def)
    from p(2) have "(x, y) \<in> join (conn E) a b"
    proof (induction rule: rtrancl_induct)
      case base
      then show ?case by (simp add: join_def)
    next
      case (step y z)
      from step.hyps(2) consider "(y, z) \<in> conn E" | "y = a" "z = b" | "y = b" "z = a"
        by (auto simp: conn_def)
      then show ?case
      proof cases
        case 1
        with step.IH show ?thesis unfolding join_def by (blast intro: conn_trans)
      next
        case 2
        with step.IH show ?thesis unfolding join_def by (blast intro: conn_trans conn_sym conn_refl)
      next
        case 3
        with step.IH show ?thesis unfolding join_def by (blast intro: conn_trans conn_sym conn_refl)
      qed
    qed
    with p show "p \<in> join (conn E) a b" by simp
  qed
next
  have m: "(x, y) \<in> conn E \<Longrightarrow> (x, y) \<in> conn (insert (a, b) E)" for x y
    using conn_mono [of E "insert (a, b) E"] by auto
  have ab: "(a, b) \<in> conn (insert (a, b) E)" by (simp add: conn_edge)
  show "join (conn E) a b \<subseteq> conn (insert (a, b) E)"
    unfolding join_def using m ab conn_sym [OF ab] by (auto; meson conn_trans)
qed

definition on :: "'n set \<Rightarrow> ('n \<times> 'n) set \<Rightarrow> ('n \<times> 'n) set" where
  "on A R = R \<inter> A \<times> A"

text \<open>The number of connected components.\<close>

definition comps :: "'n set \<Rightarrow> ('n \<times> 'n) set \<Rightarrow> nat" where
  "comps A E = card (A // on A (conn E))"

lemma join_on: "a \<in> A \<Longrightarrow> b \<in> A \<Longrightarrow> join (on A R) a b = on A (join R a b)"
  by (auto simp: join_def on_def)

lemma equiv_on_conn: "equiv A (on A (conn E))"
  by (intro equivI refl_onI symI transI) (auto simp: on_def intro: conn_sym conn_trans)

subsection \<open>The interface\<close>

locale partition =
  fixes inv :: "'s \<Rightarrow> bool"
    and nodes :: "'s \<Rightarrow> 'n set"
    and same :: "'s \<Rightarrow> ('n \<times> 'n) set"
    and classes :: "'s \<Rightarrow> nat"
    and unite :: "'s \<Rightarrow> 'n \<Rightarrow> 'n \<Rightarrow> ((container_error + bool) \<times> 's) option"
    and root :: "'s \<Rightarrow> 'n \<Rightarrow> 'n option"
  assumes finite_nodes: "inv s \<Longrightarrow> finite (nodes s)"
    and same_equiv: "inv s \<Longrightarrow> equiv (nodes s) (same s)"
    and classes_card: "inv s \<Longrightarrow> classes s = card (nodes s // same s)"
    and unite_ok: "inv s \<Longrightarrow> a \<in> nodes s \<Longrightarrow> b \<in> nodes s \<Longrightarrow>
      \<exists>s'. unite s a b = Some (Inr ((a, b) \<notin> same s), s') \<and> inv s' \<and> nodes s' = nodes s \<and>
        same s' = join (same s) a b \<and> classes s = classes s' + (if (a, b) \<in> same s then 0 else 1)"
    and root_ok: "inv s \<Longrightarrow> a \<in> nodes s \<Longrightarrow> \<exists>r \<in> nodes s. root s a = Some r"
    and root_same: "inv s \<Longrightarrow> a \<in> nodes s \<Longrightarrow> b \<in> nodes s \<Longrightarrow>
      root s a = root s b \<longleftrightarrow> (a, b) \<in> same s"

text \<open>A loop that unites the endpoints of every edge and ignores the answers.\<close>

fun unite_list ::
    "('s \<Rightarrow> 'n \<Rightarrow> 'n \<Rightarrow> ((container_error + bool) \<times> 's) option) \<Rightarrow> 's \<Rightarrow> ('n \<times> 'n) list \<Rightarrow> 's option" where
  "unite_list unite s [] = Some s"
| "unite_list unite s ((a, b) # es) =
     (case unite s a b of None \<Rightarrow> None | Some (_, s') \<Rightarrow> unite_list unite s' es)"

context partition begin

lemma unite_list_conn:
  assumes "inv s" and "same s = on (nodes s) (conn E)" and "set es \<subseteq> nodes s \<times> nodes s"
  shows "\<exists>s'. unite_list unite s es = Some s' \<and> inv s' \<and> nodes s' = nodes s \<and>
    same s' = on (nodes s) (conn (E \<union> set es))"
  using assms
proof (induction es arbitrary: s E)
  case (Cons e es)
  obtain a b where e: "e = (a, b)" by (cases e)
  with Cons.prems(3) have ab: "a \<in> nodes s" "b \<in> nodes s" by auto
  obtain s' where s': "unite s a b = Some (Inr ((a, b) \<notin> same s), s')" "inv s'" "nodes s' = nodes s"
      "same s' = join (same s) a b"
    using unite_ok [OF Cons.prems(1) ab] by auto
  have "same s' = on (nodes s') (conn (insert (a, b) E))"
    using s' ab Cons.prems(2) by (simp add: join_on conn_insert)
  from Cons.IH [OF s'(2) this] Cons.prems(3) s' e show ?case by auto
qed simp

lemma unite_list_from_scratch:
  assumes "inv s" and "same s = Id_on (nodes s)" and "set es \<subseteq> nodes s \<times> nodes s"
  shows "\<exists>s'. unite_list unite s es = Some s' \<and> inv s' \<and> nodes s' = nodes s \<and>
    same s' = on (nodes s) (conn (set es))"
proof -
  have "same s = on (nodes s) (conn {})"
    using assms(2) by (auto simp: on_def conn_def)
  from unite_list_conn [OF assms(1) this assms(3)] show ?thesis by simp
qed

lemma unite_list_classes:
  assumes "inv s" and "set es \<subseteq> nodes s \<times> nodes s" and "unite_list unite s es = Some s'"
  shows "classes s' \<le> classes s \<and> classes s \<le> classes s' + length es"
  using assms
proof (induction es arbitrary: s)
  case (Cons e es)
  obtain a b where e: "e = (a, b)" by (cases e)
  with Cons.prems(2) have ab: "a \<in> nodes s" "b \<in> nodes s" by auto
  obtain t where t: "unite s a b = Some (Inr ((a, b) \<notin> same s), t)" "inv t" "nodes t = nodes s"
      "classes s = classes t + (if (a, b) \<in> same s then 0 else 1)"
    using unite_ok [OF Cons.prems(1) ab] by auto
  from Cons.IH [OF t(2)] Cons.prems(2,3) t e have "classes s' \<le> classes t \<and> classes t \<le> classes s' + length es"
    by simp
  with t(4) show ?case by (auto split: if_splits)
qed simp

text \<open>An edge joins at most two components, and never splits one.\<close>

lemma comps_bounds:
  assumes "inv s" and "same s = Id_on (nodes s)" and "set es \<subseteq> nodes s \<times> nodes s"
    and "set fs \<subseteq> nodes s \<times> nodes s"
  shows "comps (nodes s) (set es \<union> set fs) \<le> comps (nodes s) (set es)"
    and "comps (nodes s) (set es) \<le> comps (nodes s) (set es \<union> set fs) + length fs"
proof -
  obtain t where t: "inv t" "nodes t = nodes s" "same t = on (nodes t) (conn (set es))"
    using unite_list_from_scratch [OF assms(1-3)] by auto
  obtain u where u: "unite_list unite t fs = Some u" "inv u" "nodes u = nodes s"
      "same u = on (nodes u) (conn (set es \<union> set fs))"
    using unite_list_conn [OF t(1,3), of fs] assms(4) t(2) by auto
  have "classes t = comps (nodes s) (set es)" "classes u = comps (nodes s) (set es \<union> set fs)"
    using classes_card [OF t(1)] classes_card [OF u(2)] t u by (simp_all add: comps_def)
  with unite_list_classes [OF t(1) _ u(1)] assms(4) t(2)
  show "comps (nodes s) (set es \<union> set fs) \<le> comps (nodes s) (set es)"
    and "comps (nodes s) (set es) \<le> comps (nodes s) (set es \<union> set fs) + length fs"
    by simp_all
qed

end

end
