(* ===== verification/Union_Find.thy ===== *)
theory Union_Find
  imports Partition
begin

text \<open>
  Disjoint sets with path halving and union by size: \<open>container/union_find.hpp\<close>. Node
  ids are words of the class's index type, so the id space is bounded as it is there;
  the sizes are \<open>size_t\<close> values bounded by the number of nodes, and are naturals.
  \<open>find\<close> and \<open>root_of\<close> follow parent links and would not return on a cyclic parent
  array: they are partial, and that they return is part of what is proved.
\<close>

subsection \<open>The code\<close>

record (overloaded) ('i::len) union_find =
  uf_parent :: "'i word list"
  uf_set_size :: "nat list"
  uf_set_count :: nat

definition uf_empty :: "'i::len union_find" where
  "uf_empty = \<lparr>uf_parent = [], uf_set_size = [], uf_set_count = 0\<rparr>"

definition uf_reset :: "nat \<Rightarrow> 'i::len union_find" where
  "uf_reset n = \<lparr>uf_parent = map of_nat [0..<n], uf_set_size = replicate n 1, uf_set_count = n\<rparr>"

definition uf_make_set :: "'i::len union_find \<Rightarrow> 'i word \<times> 'i union_find" where
  "uf_make_set s =
     (let node = of_nat (length (uf_parent s))
      in (node, \<lparr>uf_parent = uf_parent s @ [node], uf_set_size = uf_set_size s @ [1],
                 uf_set_count = uf_set_count s + 1\<rparr>))"

partial_function (option) find_loop :: "'i::len word list \<Rightarrow> 'i word \<Rightarrow> ('i word \<times> 'i word list) option" where
  "find_loop parent current =
     (if parent ! unat current \<noteq> current then
        let parent' = parent[unat current := parent ! unat (parent ! unat current)]
        in find_loop parent' (parent' ! unat current)
      else Some (current, parent))"

declare find_loop.simps [code]

definition uf_find ::
    "'i::len union_find \<Rightarrow> 'i word \<Rightarrow> ((container_error + 'i word) \<times> 'i union_find) option" where
  "uf_find s i =
     (if length (uf_parent s) \<le> unat i then Some (Inl Out_of_range, s)
      else
        case find_loop (uf_parent s) i of
          None \<Rightarrow> None
        | Some (root, parent) \<Rightarrow> Some (Inr root, s\<lparr>uf_parent := parent\<rparr>))"

partial_function (option) root_loop :: "'i::len word list \<Rightarrow> 'i word \<Rightarrow> 'i word option" where
  "root_loop parent i = (if parent ! unat i \<noteq> i then root_loop parent (parent ! unat i) else Some i)"

declare root_loop.simps [code]

definition uf_root_of :: "'i::len union_find \<Rightarrow> 'i word \<Rightarrow> 'i word option" where
  "uf_root_of s i = root_loop (uf_parent s) i"

definition uf_connected ::
    "'i::len union_find \<Rightarrow> 'i word \<Rightarrow> 'i word \<Rightarrow> ((container_error + bool) \<times> 'i union_find) option" where
  "uf_connected s a b =
     (case uf_find s a of
        None \<Rightarrow> None
      | Some (Inl e, s') \<Rightarrow> Some (Inl e, s')
      | Some (Inr root_a, s') \<Rightarrow>
          (case uf_find s' b of
             None \<Rightarrow> None
           | Some (Inl e, s'') \<Rightarrow> Some (Inl e, s'')
           | Some (Inr root_b, s'') \<Rightarrow> Some (Inr (root_a = root_b), s'')))"

definition uf_size_of ::
    "'i::len union_find \<Rightarrow> 'i word \<Rightarrow> ((container_error + nat) \<times> 'i union_find) option" where
  "uf_size_of s i =
     (case uf_find s i of
        None \<Rightarrow> None
      | Some (Inl e, s') \<Rightarrow> Some (Inl e, s')
      | Some (Inr root, s') \<Rightarrow> Some (Inr (uf_set_size s' ! unat root), s'))"

definition uf_link :: "'i::len union_find \<Rightarrow> 'i word \<Rightarrow> 'i word \<Rightarrow> 'i union_find" where
  "uf_link s small_root big_root =
     (let sizes = uf_set_size s;
          grown = sizes[unat big_root := sizes ! unat big_root + sizes ! unat small_root]
      in \<lparr>uf_parent = (uf_parent s)[unat small_root := big_root],
          uf_set_size = grown[unat small_root := 0],
          uf_set_count = uf_set_count s - 1\<rparr>)"

definition uf_unite ::
    "'i::len union_find \<Rightarrow> 'i word \<Rightarrow> 'i word \<Rightarrow> ((container_error + bool) \<times> 'i union_find) option" where
  "uf_unite s a b =
     (case uf_find s a of
        None \<Rightarrow> None
      | Some (Inl e, s') \<Rightarrow> Some (Inl e, s')
      | Some (Inr root_a, s') \<Rightarrow>
          (case uf_find s' b of
             None \<Rightarrow> None
           | Some (Inl e, s'') \<Rightarrow> Some (Inl e, s'')
           | Some (Inr root_b, s'') \<Rightarrow>
               if root_a = root_b then Some (Inr False, s'')
               else if uf_set_size s'' ! unat root_b < uf_set_size s'' ! unat root_a
               then Some (Inr True, uf_link s'' root_b root_a)
               else Some (Inr True, uf_link s'' root_a root_b)))"

text \<open>\<open>same_partition\<close>: the two maps hold the largest id as a sentinel for "not yet seen".\<close>

fun same_loop ::
    "'i::len union_find \<Rightarrow> 'i union_find \<Rightarrow> 'i word list \<Rightarrow> 'i word list \<Rightarrow> nat list \<Rightarrow> bool option" where
  "same_loop s t map_a map_b [] = Some True"
| "same_loop s t map_a map_b (i # is) =
     (case (uf_root_of s (of_nat i), uf_root_of t (of_nat i)) of
        (Some root_a, Some root_b) \<Rightarrow>
          if map_a ! unat root_a \<noteq> - 1 \<and> map_a ! unat root_a \<noteq> root_b then Some False
          else
            let map_a' = (if map_a ! unat root_a = - 1 then map_a[unat root_a := root_b] else map_a)
            in if map_b ! unat root_b \<noteq> - 1 \<and> map_b ! unat root_b \<noteq> root_a then Some False
               else
                 let map_b' = (if map_b ! unat root_b = - 1 then map_b[unat root_b := root_a] else map_b)
                 in same_loop s t map_a' map_b' is
      | _ \<Rightarrow> None)"

definition uf_same_partition :: "'i::len union_find \<Rightarrow> 'i union_find \<Rightarrow> bool option" where
  "uf_same_partition s t =
     (if length (uf_parent s) \<noteq> length (uf_parent t) then Some False
      else same_loop s t (replicate (length (uf_parent s)) (- 1)) (replicate (length (uf_parent t)) (- 1))
             [0..<length (uf_parent s)])"

subsection \<open>The representative function\<close>

definition uf_nodes :: "'i::len union_find \<Rightarrow> 'i word set" where
  "uf_nodes s = {w. unat w < length (uf_parent s)}"

abbreviation par :: "'i::len union_find \<Rightarrow> 'i word \<Rightarrow> 'i word" where
  "par s w \<equiv> uf_parent s ! unat w"

text \<open>
  \<open>f\<close> gives every node its root; \<open>d\<close> decreases along parent links, so that following
  them ends. \<open>links\<close> is the part that concerns the parent array alone.
\<close>

definition links :: "'i::len word list \<Rightarrow> ('i word \<Rightarrow> 'i word) \<Rightarrow> ('i word \<Rightarrow> nat) \<Rightarrow> bool" where
  "links p f d \<longleftrightarrow> (\<forall>w. unat w < length p \<longrightarrow>
     unat (p ! unat w) < length p \<and> unat (f w) < length p \<and>
     f (p ! unat w) = f w \<and> p ! unat (f w) = f w \<and>
     (p ! unat w = w \<longrightarrow> f w = w) \<and> (p ! unat w \<noteq> w \<longrightarrow> d (p ! unat w) < d w))"

definition uf_rep :: "'i::len union_find \<Rightarrow> ('i word \<Rightarrow> 'i word) \<Rightarrow> bool" where
  "uf_rep s f \<longleftrightarrow>
     (\<exists>d. links (uf_parent s) f d) \<and>
     length (uf_parent s) \<le> 2 ^ LENGTH('i) \<and>
     length (uf_set_size s) = length (uf_parent s) \<and>
     (\<forall>w \<in> uf_nodes s. uf_set_size s ! unat w = card {v \<in> uf_nodes s. f v = w}) \<and>
     uf_set_count s = card (f ` uf_nodes s)"

definition uf_inv :: "'i::len union_find \<Rightarrow> bool" where
  "uf_inv s \<longleftrightarrow> (\<exists>f. uf_rep s f)"

definition uf_same :: "'i::len union_find \<Rightarrow> ('i word \<times> 'i word) set" where
  "uf_same s = {(a, b). a \<in> uf_nodes s \<and> b \<in> uf_nodes s \<and> uf_root_of s a = uf_root_of s b}"

lemma linksD:
  fixes w :: "'i::len word" and p :: "'i word list"
  assumes "links p f d" and "unat w < length p"
  shows "unat (p ! unat w) < length p" and "unat (f w) < length p" and "f (p ! unat w) = f w"
    and "p ! unat (f w) = f w" and "p ! unat w = w \<Longrightarrow> f w = w"
    and "p ! unat w \<noteq> w \<Longrightarrow> d (p ! unat w) < d w"
  using assms by (auto simp: links_def)

lemma links_halve:
  fixes c :: "'i::len word" and p :: "'i word list"
  assumes "links p f d" and "unat c < length p"
  shows "links (p[unat c := p ! unat (p ! unat c)]) f d"
proof -
  note c = linksD [OF assms]
  note pc = linksD [OF assms(1) c(1)]
  show ?thesis
    unfolding links_def
  proof (intro allI impI)
    fix w :: "'i word" assume "unat w < length (p[unat c := p ! unat (p ! unat c)])"
    then have w: "unat w < length p" by simp
    note w' = linksD [OF assms(1) w]
    show "unat (p[unat c := p ! unat (p ! unat c)] ! unat w) < length (p[unat c := p ! unat (p ! unat c)]) \<and>
        unat (f w) < length (p[unat c := p ! unat (p ! unat c)]) \<and>
        f (p[unat c := p ! unat (p ! unat c)] ! unat w) = f w \<and>
        p[unat c := p ! unat (p ! unat c)] ! unat (f w) = f w \<and>
        (p[unat c := p ! unat (p ! unat c)] ! unat w = w \<longrightarrow> f w = w) \<and>
        (p[unat c := p ! unat (p ! unat c)] ! unat w \<noteq> w \<longrightarrow>
         d (p[unat c := p ! unat (p ! unat c)] ! unat w) < d w)"
      using c pc w' by (auto simp: nth_list_update_word) (metis less_asym' less_trans)+
  qed
qed

lemma find_loop_links:
  "links p f d \<Longrightarrow> unat c < length p \<Longrightarrow>
   \<exists>p'. find_loop p c = Some (f c, p') \<and> links p' f d \<and> length p' = length p"
proof (induction "d c" arbitrary: p c rule: less_induct)
  case less
  note c = linksD [OF less.prems]
  show ?case
  proof (cases "p ! unat c = c")
    case True
    with less.prems c show ?thesis by (subst find_loop.simps) simp
  next
    case False
    let ?p = "p[unat c := p ! unat (p ! unat c)]"
    have halved: "?p ! unat c = p ! unat (p ! unat c)" using less.prems(2) by simp
    have "d (p ! unat (p ! unat c)) < d c"
      using c(6) [OF False] linksD(6) [OF less.prems(1) c(1)]
      by (cases "p ! unat (p ! unat c) = p ! unat c") auto
    moreover have "links ?p f d" using less.prems by (rule links_halve)
    moreover have "unat (p ! unat (p ! unat c)) < length ?p"
      using linksD(1) [OF less.prems(1) c(1)] by simp
    moreover have "f (p ! unat (p ! unat c)) = f c"
      using c(3) linksD(3) [OF less.prems(1) c(1)] by simp
    ultimately show ?thesis
      using less.hyps [of "p ! unat (p ! unat c)" ?p] False halved
      by (subst find_loop.simps) (auto simp: Let_def)
  qed
qed

lemma root_loop_links:
  "links p f d \<Longrightarrow> unat c < length p \<Longrightarrow> root_loop p c = Some (f c)"
proof (induction "d c" arbitrary: c rule: less_induct)
  case less
  note c = linksD [OF less.prems]
  show ?case
  proof (cases "p ! unat c = c")
    case True
    with c show ?thesis by (subst root_loop.simps) simp
  next
    case False
    with less.hyps [OF c(6) [OF False] less.prems(1) c(1)] c(3) show ?thesis
      by (subst root_loop.simps) simp
  qed
qed

lemma uf_rep_root: "uf_rep s f \<Longrightarrow> i \<in> uf_nodes s \<Longrightarrow> uf_root_of s i = Some (f i)"
  using root_loop_links by (auto simp: uf_rep_def uf_root_of_def uf_nodes_def)

lemma uf_rep_same:
  "uf_rep s f \<Longrightarrow> uf_same s = {(a, b). a \<in> uf_nodes s \<and> b \<in> uf_nodes s \<and> f a = f b}"
  by (auto simp: uf_same_def uf_rep_root)

lemma uf_rep_closed:
  assumes "uf_rep s f" and "w \<in> uf_nodes s"
  shows "f w \<in> uf_nodes s" and "f (f w) = f w"
proof -
  obtain d where d: "links (uf_parent s) f d" using assms(1) by (auto simp: uf_rep_def)
  have w: "unat w < length (uf_parent s)" using assms(2) by (simp add: uf_nodes_def)
  note l = linksD [OF d w]
  show "f w \<in> uf_nodes s" using l(2) by (simp add: uf_nodes_def)
  show "f (f w) = f w" using linksD(5) [OF d l(2) l(4)] .
qed

lemma finite_uf_nodes [simp]: "finite (uf_nodes s)"
  by (rule finite)

lemma uf_rep_size:
  "uf_rep s f \<Longrightarrow> w \<in> uf_nodes s \<Longrightarrow> uf_set_size s ! unat w = card {v \<in> uf_nodes s. f v = w}"
  by (simp add: uf_rep_def)

lemma uf_nodes_cong: "length (uf_parent s) = length (uf_parent t) \<Longrightarrow> uf_nodes s = uf_nodes t"
  by (simp add: uf_nodes_def)

lemma uf_find_rep:
  assumes "uf_rep s f" and "i \<in> uf_nodes s"
  shows "\<exists>s'. uf_find s i = Some (Inr (f i), s') \<and> uf_rep s' f \<and> uf_nodes s' = uf_nodes s
    \<and> uf_set_size s' = uf_set_size s \<and> uf_set_count s' = uf_set_count s"
proof -
  obtain d where d: "links (uf_parent s) f d" using assms(1) by (auto simp: uf_rep_def)
  have i: "unat i < length (uf_parent s)" using assms(2) by (simp add: uf_nodes_def)
  obtain p' where p': "find_loop (uf_parent s) i = Some (f i, p')" "links p' f d"
      "length p' = length (uf_parent s)"
    using find_loop_links [OF d i] by auto
  have nodes: "uf_nodes (s\<lparr>uf_parent := p'\<rparr>) = uf_nodes s" by (simp add: uf_nodes_def p'(3))
  have "uf_rep (s\<lparr>uf_parent := p'\<rparr>) f"
    using assms(1) p' nodes unfolding uf_rep_def by auto
  with p' i nodes show ?thesis by (simp add: uf_find_def)
qed

lemma uf_find_out:
  "i \<notin> uf_nodes s \<Longrightarrow> uf_find s i = Some (Inl Out_of_range, s)"
  by (simp add: uf_find_def uf_nodes_def not_less)

lemma links_link:
  fixes a b :: "'i::len word"
  assumes "links p f d" and "unat a < length p" and "unat b < length p"
    and "f a = a" and "f b = b" and "a \<noteq> b"
  shows "links (p[unat a := b]) (\<lambda>w. if f w = a then b else f w)
    (\<lambda>w. if f w = a then d w + d b + 1 else d w)"
  unfolding links_def
proof (intro allI impI)
  fix w :: "'i word" assume "unat w < length (p[unat a := b])"
  then have w: "unat w < length p" by simp
  note w' = linksD [OF assms(1) w]
  have roots: "p ! unat a = a" "p ! unat b = b"
    using linksD(4) [OF assms(1,2)] linksD(4) [OF assms(1,3)] assms(4,5) by simp_all
  show "unat (p[unat a := b] ! unat w) < length (p[unat a := b]) \<and>
      unat (if f w = a then b else f w) < length (p[unat a := b]) \<and>
      (if f (p[unat a := b] ! unat w) = a then b else f (p[unat a := b] ! unat w)) =
        (if f w = a then b else f w) \<and>
      p[unat a := b] ! unat (if f w = a then b else f w) = (if f w = a then b else f w) \<and>
      (p[unat a := b] ! unat w = w \<longrightarrow> (if f w = a then b else f w) = w) \<and>
      (p[unat a := b] ! unat w \<noteq> w \<longrightarrow>
       (if f (p[unat a := b] ! unat w) = a then d (p[unat a := b] ! unat w) + d b + 1
        else d (p[unat a := b] ! unat w)) < (if f w = a then d w + d b + 1 else d w))"
    using assms w' roots by (auto simp: nth_list_update_word)
qed

lemma uf_rep_link:
  assumes "uf_rep s f" and "a \<in> uf_nodes s" and "b \<in> uf_nodes s"
    and "f a = a" and "f b = b" and "a \<noteq> b"
  shows "uf_rep (uf_link s a b) (\<lambda>w. if f w = a then b else f w)"
    and "uf_nodes (uf_link s a b) = uf_nodes s"
    and "uf_set_count s = Suc (uf_set_count (uf_link s a b))"
proof -
  let ?g = "\<lambda>w. if f w = a then b else f w"
  show nodes: "uf_nodes (uf_link s a b) = uf_nodes s"
    by (simp add: uf_nodes_def uf_link_def Let_def)
  have ia: "unat a < length (uf_parent s)" "unat b < length (uf_parent s)"
    using assms(2,3) by (simp_all add: uf_nodes_def)
  have neq: "unat a \<noteq> unat b" using assms(6) unsigned_word_eqI by blast
  have img: "f ` uf_nodes s = insert a (?g ` uf_nodes s)" "a \<notin> ?g ` uf_nodes s"
    using assms(2-6) by (auto simp: image_iff) metis+
  then have card: "card (f ` uf_nodes s) = Suc (card (?g ` uf_nodes s))" by simp
  then show "uf_set_count s = Suc (uf_set_count (uf_link s a b))"
    using assms(1) by (simp add: uf_rep_def uf_link_def Let_def)
  have sizes: "uf_set_size (uf_link s a b) ! unat w = card {v \<in> uf_nodes s. ?g v = w}"
    if w: "w \<in> uf_nodes s" for w
  proof -
    have len: "length (uf_set_size s) = length (uf_parent s)" using assms(1) by (simp add: uf_rep_def)
    have cb: "{v \<in> uf_nodes s. ?g v = b} = {v \<in> uf_nodes s. f v = b} \<union> {v \<in> uf_nodes s. f v = a}"
      and ca: "{v \<in> uf_nodes s. ?g v = a} = {}"
      and cw: "w \<noteq> a \<Longrightarrow> w \<noteq> b \<Longrightarrow> {v \<in> uf_nodes s. ?g v = w} = {v \<in> uf_nodes s. f v = w}"
      using assms(6) by auto
    have "card {v \<in> uf_nodes s. ?g v = b} = uf_set_size s ! unat b + uf_set_size s ! unat a"
      unfolding cb using assms(6) uf_rep_size [OF assms(1,2)] uf_rep_size [OF assms(1,3)]
      by (subst card_Un_disjoint) auto
    with ca cw ia len neq show ?thesis
      using uf_rep_size [OF assms(1) w]
      by (cases "w = a"; cases "w = b")
        (auto simp: uf_link_def Let_def nth_list_update_word nth_list_update)
  qed
  show "uf_rep (uf_link s a b) ?g"
    unfolding uf_rep_def nodes
  proof (intro conjI ballI)
    show "\<exists>d. links (uf_parent (uf_link s a b)) ?g d"
      using assms(1) links_link [OF _ ia assms(4-6)]
      by (auto simp: uf_rep_def uf_link_def Let_def)
    show "uf_set_count (uf_link s a b) = card (?g ` uf_nodes s)"
      using assms(1) card by (simp add: uf_rep_def uf_link_def Let_def)
  qed (use assms(1) sizes in \<open>auto simp: uf_rep_def uf_link_def Let_def\<close>)
qed

lemma uf_rep_reset:
  assumes "n \<le> 2 ^ LENGTH('i)"
  shows "uf_rep (uf_reset n :: 'i::len union_find) id" and "uf_nodes (uf_reset n :: 'i union_find) = {w. unat w < n}"
proof -
  show nodes: "uf_nodes (uf_reset n :: 'i union_find) = {w. unat w < n}"
    by (simp add: uf_nodes_def uf_reset_def)
  have "{v. unat v < n \<and> v = w} = {w}" if "unat w < n" for w :: "'i word"
    using that by auto
  then show "uf_rep (uf_reset n :: 'i union_find) id"
    using assms card_words_below [OF assms] unfolding uf_rep_def nodes
    by (auto simp: uf_reset_def links_def)
qed

lemma uf_rep_make_set:
  fixes s :: "'i::len union_find"
  assumes "uf_rep s f" and "length (uf_parent s) < 2 ^ LENGTH('i)"
  shows "\<exists>s'. uf_make_set s = (of_nat (length (uf_parent s)), s') \<and>
      uf_rep s' (f(of_nat (length (uf_parent s)) := of_nat (length (uf_parent s)))) \<and>
      uf_nodes s' = insert (of_nat (length (uf_parent s))) (uf_nodes s)"
    and "of_nat (length (uf_parent s)) \<notin> uf_nodes s"
proof -
  let ?n = "of_nat (length (uf_parent s)) :: 'i word"
  let ?g = "f(?n := ?n)"
  have n: "unat ?n = length (uf_parent s)" using assms(2) by (simp add: unat_of_nat_less)
  obtain s' where s': "uf_make_set s = (?n, s')" by (simp add: uf_make_set_def Let_def)
  have parts: "uf_parent s' = uf_parent s @ [?n]" "uf_set_size s' = uf_set_size s @ [1]"
      "uf_set_count s' = uf_set_count s + 1"
    using s' by (auto simp: uf_make_set_def Let_def)
  have less: "unat w < Suc (length (uf_parent s)) \<longleftrightarrow> w = ?n \<or> unat w < length (uf_parent s)" for w :: "'i word"
    using n unsigned_word_eqI [of w ?n, where ?'a = nat] by (auto simp: less_Suc_eq)
  have nodes: "uf_nodes s' = insert ?n (uf_nodes s)"
    by (auto simp: uf_nodes_def parts less)
  show fresh: "?n \<notin> uf_nodes s" by (simp add: uf_nodes_def n)
  have closed: "f w \<in> uf_nodes s" "f w \<noteq> ?n" "w \<noteq> ?n" if "w \<in> uf_nodes s" for w
    using uf_rep_closed(1) [OF assms(1) that] that fresh by auto
  obtain d where d: "links (uf_parent s) f d" using assms(1) by (auto simp: uf_rep_def)
  have "links (uf_parent s') ?g d"
    unfolding links_def
  proof (intro allI impI)
    fix w :: "'i word" assume w: "unat w < length (uf_parent s')"
    show "unat (uf_parent s' ! unat w) < length (uf_parent s') \<and> unat (?g w) < length (uf_parent s') \<and>
        ?g (uf_parent s' ! unat w) = ?g w \<and> uf_parent s' ! unat (?g w) = ?g w \<and>
        (uf_parent s' ! unat w = w \<longrightarrow> ?g w = w) \<and>
        (uf_parent s' ! unat w \<noteq> w \<longrightarrow> d (uf_parent s' ! unat w) < d w)"
    proof (cases "w = ?n")
      case True
      with n show ?thesis by (simp add: parts)
    next
      case False
      with w less have wp: "unat w < length (uf_parent s)" by (simp add: parts)
      note l = linksD [OF d wp]
      have "w \<in> uf_nodes s" "uf_parent s ! unat w \<in> uf_nodes s" using wp l(1) by (simp_all add: uf_nodes_def)
      then have "uf_parent s ! unat w \<noteq> ?n" "f w \<noteq> ?n" using closed fresh by auto
      with False wp l show ?thesis by (auto simp: parts nth_append)
    qed
  qed
  moreover have "card {v \<in> uf_nodes s'. ?g v = w} = uf_set_size s' ! unat w" if "w \<in> uf_nodes s'" for w
  proof (cases "w = ?n")
    case True
    have "{v \<in> uf_nodes s'. ?g v = w} = {?n}" using closed True by (auto simp: nodes)
    then show ?thesis using True n assms(1) by (simp add: parts uf_rep_def nth_append)
  next
    case False
    then have w: "w \<in> uf_nodes s" using that nodes by simp
    then have "{v \<in> uf_nodes s'. ?g v = w} = {v \<in> uf_nodes s. f v = w}"
      using False fresh by (auto simp: nodes)
    with uf_rep_size [OF assms(1) w] w assms(1) show ?thesis
      by (simp add: parts uf_rep_def nth_append uf_nodes_def)
  qed
  moreover have "card (?g ` uf_nodes s') = Suc (card (f ` uf_nodes s))"
  proof -
    have "?g ` uf_nodes s' = insert ?n (f ` uf_nodes s)"
      using closed(3) by (auto simp: nodes image_iff)
    moreover have "?n \<notin> f ` uf_nodes s" using closed(2) by force
    then have "card (insert ?n (f ` uf_nodes s)) = Suc (card (f ` uf_nodes s))"
      by (intro card_insert_disjoint finite_imageI finite_uf_nodes)
    ultimately show ?thesis by (simp only:)
  qed
  ultimately have "uf_rep s' ?g"
    using assms unfolding uf_rep_def by (auto simp: parts)
  with s' nodes show "\<exists>s'. uf_make_set s = (?n, s') \<and> uf_rep s' ?g \<and> uf_nodes s' = insert ?n (uf_nodes s)"
    by blast
qed

lemma uf_unite_rep:
  assumes "uf_rep s f" and "a \<in> uf_nodes s" and "b \<in> uf_nodes s"
  shows "\<exists>s' g. uf_unite s a b = Some (Inr (f a \<noteq> f b), s') \<and> uf_rep s' g \<and> uf_nodes s' = uf_nodes s \<and>
    uf_set_count s = uf_set_count s' + (if f a \<noteq> f b then 1 else 0) \<and>
    (\<forall>x y. g x = g y \<longleftrightarrow> f x = f y \<or> f x = f a \<and> f y = f b \<or> f x = f b \<and> f y = f a)"
proof -
  obtain s1 where s1: "uf_find s a = Some (Inr (f a), s1)" "uf_rep s1 f" "uf_nodes s1 = uf_nodes s"
      "uf_set_count s1 = uf_set_count s"
    using uf_find_rep [OF assms(1,2)] by blast
  obtain s2 where s2: "uf_find s1 b = Some (Inr (f b), s2)" "uf_rep s2 f" "uf_nodes s2 = uf_nodes s"
      "uf_set_count s2 = uf_set_count s"
    using uf_find_rep [OF s1(2), of b] assms(3) s1(3,4) by auto
  have fa: "f a \<in> uf_nodes s2" "f (f a) = f a" and fb: "f b \<in> uf_nodes s2" "f (f b) = f b"
    using uf_rep_closed [OF assms(1,2)] uf_rep_closed [OF assms(1,3)] s2(3) by auto
  show ?thesis
  proof (cases "f a = f b")
    case True
    with s1 s2 show ?thesis by (auto simp: uf_unite_def)
  next
    case False
    note ab = uf_rep_link [OF s2(2) fa(1) fb(1) fa(2) fb(2) False]
    note ba = uf_rep_link [OF s2(2) fb(1) fa(1) fb(2) fa(2) False [symmetric]]
    show ?thesis
    proof (cases "uf_set_size s2 ! unat (f b) < uf_set_size s2 ! unat (f a)")
      case True
      with s1 s2 False ba show ?thesis
        by (intro exI [of _ "uf_link s2 (f b) (f a)"] exI [of _ "\<lambda>w. if f w = f b then f a else f w"])
          (auto simp: uf_unite_def)
    next
      case size: False
      with s1 s2 False ab show ?thesis
        by (intro exI [of _ "uf_link s2 (f a) (f b)"] exI [of _ "\<lambda>w. if f w = f a then f b else f w"])
          (auto simp: uf_unite_def)
    qed
  qed
qed

lemma uf_connected_rep:
  assumes "uf_rep s f" and "a \<in> uf_nodes s" and "b \<in> uf_nodes s"
  shows "\<exists>s'. uf_connected s a b = Some (Inr (f a = f b), s') \<and> uf_rep s' f \<and> uf_nodes s' = uf_nodes s"
proof -
  obtain s1 where s1: "uf_find s a = Some (Inr (f a), s1)" "uf_rep s1 f" "uf_nodes s1 = uf_nodes s"
    using uf_find_rep [OF assms(1,2)] by blast
  then show ?thesis
    using uf_find_rep [OF s1(2), of b] assms(3) by (auto simp: uf_connected_def)
qed

lemma uf_size_of_rep:
  assumes "uf_rep s f" and "a \<in> uf_nodes s"
  shows "\<exists>s'. uf_size_of s a = Some (Inr (card {b \<in> uf_nodes s. f b = f a}), s') \<and> uf_rep s' f \<and>
    uf_nodes s' = uf_nodes s"
proof -
  obtain s' where s': "uf_find s a = Some (Inr (f a), s')" "uf_rep s' f" "uf_nodes s' = uf_nodes s"
    using uf_find_rep [OF assms] by blast
  moreover have "f a \<in> uf_nodes s'" using uf_rep_closed(1) [OF assms] s'(3) by simp
  ultimately show ?thesis
    using uf_rep_size [OF s'(2), of "f a"] by (auto simp: uf_size_of_def)
qed

lemma uf_same_equiv: "uf_inv s \<Longrightarrow> equiv (uf_nodes s) (uf_same s)"
  by (auto simp: uf_inv_def uf_rep_same intro!: equivI refl_onI symI transI)

lemma uf_rep_classes:
  assumes "uf_rep s f"
  shows "uf_set_count s = card (uf_nodes s // uf_same s)"
proof -
  have "bij_betw (\<lambda>r. {b \<in> uf_nodes s. f b = r}) (f ` uf_nodes s) (uf_nodes s // uf_same s)"
  proof (rule bij_betw_imageI)
    show "inj_on (\<lambda>r. {b \<in> uf_nodes s. f b = r}) (f ` uf_nodes s)"
      by (auto simp: inj_on_def)
    have "uf_same s `` {x} = {b \<in> uf_nodes s. f b = f x}" if "x \<in> uf_nodes s" for x
      using that by (auto simp: uf_rep_same [OF assms])
    moreover have "uf_nodes s // uf_same s = (\<lambda>x. uf_same s `` {x}) ` uf_nodes s"
      by (auto simp: quotient_def)
    ultimately show "(\<lambda>r. {b \<in> uf_nodes s. f b = r}) ` f ` uf_nodes s = uf_nodes s // uf_same s"
      by (simp add: image_image)
  qed
  with assms show ?thesis by (simp add: bij_betw_same_card uf_rep_def)
qed

subsection \<open>Comparing two partitions\<close>

text \<open>
  The sentinel is itself a node id when all \<open>2 ^ w\<close> ids are in use. A root that is this id
  leaves its map entry looking unseen, so an entry may be overwritten; \<open>maps_ok\<close> says what
  survives, and that the largest id, which comes last, still settles the matter.
\<close>

definition maps_ok ::
    "('i::len word \<Rightarrow> 'i word) \<Rightarrow> ('i word \<Rightarrow> 'i word) \<Rightarrow> nat \<Rightarrow> nat \<Rightarrow> 'i word list \<Rightarrow> 'i word list \<Rightarrow> bool" where
  "maps_ok f g n i ma mb \<longleftrightarrow> length ma = n \<and> length mb = n \<and>
     (\<forall>w. unat w < i \<longrightarrow>
        (ma ! unat (f w) = g w \<or> g w = - 1) \<and> (mb ! unat (g w) = f w \<or> f w = - 1)) \<and>
     (2 ^ LENGTH('i) \<le> i \<longrightarrow>
        ma ! unat (f (- 1)) = g (- 1) \<and> mb ! unat (g (- 1)) = f (- 1))"

lemma maps_ok_agree:
  fixes f g :: "'i::len word \<Rightarrow> 'i word"
  assumes "maps_ok f g n n ma mb" and "n \<le> 2 ^ LENGTH('i)"
    and "unat w < n" and "unat w' < n" and "f w = f w'"
    and closed: "\<And>w. unat w < n \<Longrightarrow> unat (f w) < n \<and> f (f w) = f w \<and> unat (g w) < n \<and> g (g w) = g w"
  shows "g w = g w'"
proof (rule ccontr)
  assume neq: "g w \<noteq> g w'"
  have J: "(ma ! unat (f w) = g w \<or> g w = - 1) \<and> (mb ! unat (g w) = f w \<or> f w = - 1)" if "unat w < n" for w
    using assms(1) that by (simp add: maps_ok_def)
  have core: False if "unat u < n" "unat v < n" "f u = f v" "g u \<noteq> - 1" "g v = - 1" for u v
  proof -
    have x: "unat (- 1 :: 'i word) < n" "g (- 1) = - 1" using closed [OF that(2)] that(5) by auto
    then have full: "2 ^ LENGTH('i) \<le> n" by (simp add: unat_max)
    then have K: "ma ! unat (f (- 1)) = g (- 1)" "mb ! unat (g (- 1)) = f (- 1)"
      using assms(1) by (simp_all add: maps_ok_def)
    from J [OF that(2)] that(5) K(2) x(2) have "f v = f (- 1) \<or> f v = - 1" by auto
    moreover have "f v = - 1 \<Longrightarrow> f (- 1) = - 1" using closed [OF that(2)] by auto
    ultimately have "f u = f (- 1)" using that(3) by auto
    then show False using J [OF that(1)] that(4) K(1) x(2) by auto
  qed
  from neq J [OF assms(3)] J [OF assms(4)] assms(5) consider "g w \<noteq> - 1" "g w' = - 1" | "g w = - 1" "g w' \<noteq> - 1"
    by auto
  then show False using core assms(3-5) by cases metis+
qed

lemma maps_ok_swap: "maps_ok f g n i ma mb = maps_ok g f n i mb ma"
  by (auto simp: maps_ok_def)

lemma upt_word_step:
  fixes w :: "'i::len word"
  assumes "i < 2 ^ LENGTH('i)"
  shows "unat w < Suc i \<longleftrightarrow> w = of_nat i \<or> unat w < i"
  using unat_of_nat_less [OF assms] unsigned_word_eqI [of w "of_nat i", where ?'a = nat]
  by (auto simp: less_Suc_eq)

lemma same_loop_sound:
  fixes s t :: "'i::len union_find"
  assumes "uf_rep s f" and "uf_rep t g" and "uf_nodes s = {w. unat w < n}" and "uf_nodes t = {w. unat w < n}"
    and "n \<le> 2 ^ LENGTH('i)" and "i \<le> n" and "maps_ok f g n i ma mb"
    and "same_loop s t ma mb [i..<n] = Some True"
  shows "\<exists>ma mb. maps_ok f g n n ma mb"
  using assms(6-8)
proof (induction "n - i" arbitrary: i ma mb)
  case 0
  then have "i = n" by simp
  with 0 show ?case by blast
next
  case (Suc k)
  then have i: "i < n" "i < 2 ^ LENGTH('i)" using assms(5) by auto
  let ?i = "of_nat i :: 'i word"
  have ni: "unat ?i < n" using i by (simp add: unat_of_nat_less)
  then have roots: "uf_root_of s ?i = Some (f ?i)" "uf_root_of t ?i = Some (g ?i)"
    using assms(1-4) by (auto intro!: uf_rep_root)
  have fg: "unat (f w) < n" "unat (g w) < n" if "unat w < n" for w
    using uf_rep_closed(1) [OF assms(1), of w] uf_rep_closed(1) [OF assms(2), of w] assms(3,4) that by auto
  let ?ma = "if ma ! unat (f ?i) = - 1 then ma[unat (f ?i) := g ?i] else ma"
  let ?mb = "if mb ! unat (g ?i) = - 1 then mb[unat (g ?i) := f ?i] else mb"
  have step: "same_loop s t ?ma ?mb [Suc i..<n] = Some True"
    and ok: "ma ! unat (f ?i) = - 1 \<or> ma ! unat (f ?i) = g ?i" "mb ! unat (g ?i) = - 1 \<or> mb ! unat (g ?i) = f ?i"
    using Suc.prems(3) i(1) roots by (auto simp: upt_conv_Cons Let_def split: if_splits)
  have len: "length ma = n" "length mb = n" using Suc.prems(2) by (simp_all add: maps_ok_def)
  have J: "(ma ! unat (f w) = g w \<or> g w = - 1) \<and> (mb ! unat (g w) = f w \<or> f w = - 1)" if "unat w < i" for w
    using Suc.prems(2) that by (simp add: maps_ok_def)
  have "maps_ok f g n (Suc i) ?ma ?mb"
    unfolding maps_ok_def
  proof (intro conjI allI impI)
    fix w :: "'i word" assume "unat w < Suc i"
    then have w: "w = ?i \<or> unat w < i" using upt_word_step [OF i(2)] by blast
    then show "?ma ! unat (f w) = g w \<or> g w = - 1" "?mb ! unat (g w) = f w \<or> f w = - 1"
      using J [of w] ok len fg [OF ni] by (auto simp: nth_list_update_word)
  next
    assume "2 ^ LENGTH('i) \<le> Suc i"
    then have "unat (- 1 :: 'i word) = unat ?i" using i(2) by (simp add: unat_max unat_of_nat_less)
    then have "?i = - 1" using unsigned_word_eqI by metis
    then show "?ma ! unat (f (- 1)) = g (- 1)" "?mb ! unat (g (- 1)) = f (- 1)"
      using ok len fg [OF ni] by (auto simp: nth_list_update_word)
  qed (use len in auto)
  with Suc step i show ?case by (intro Suc.hyps(1) [of "Suc i" ?ma ?mb]) auto
qed

lemma same_loop_complete:
  fixes s t :: "'i::len union_find"
  assumes "uf_rep s f" and "uf_rep t g" and "uf_nodes s = {w. unat w < n}" and "uf_nodes t = {w. unat w < n}"
    and "n \<le> 2 ^ LENGTH('i)"
    and same: "\<And>v w. unat v < n \<Longrightarrow> unat w < n \<Longrightarrow> f v = f w \<longleftrightarrow> g v = g w"
    and "i \<le> n" and "length ma = n" and "length mb = n"
    and "\<And>w. unat w < i \<Longrightarrow> ma ! unat (f w) = g w \<and> mb ! unat (g w) = f w"
    and "\<And>r. unat r < n \<Longrightarrow> r \<notin> f ` {w. unat w < i} \<Longrightarrow> ma ! unat r = - 1"
    and "\<And>r. unat r < n \<Longrightarrow> r \<notin> g ` {w. unat w < i} \<Longrightarrow> mb ! unat r = - 1"
  shows "same_loop s t ma mb [i..<n] = Some True"
  using assms(7-)
proof (induction "n - i" arbitrary: i ma mb)
  case (Suc k)
  then have i: "i < n" "i < 2 ^ LENGTH('i)" using assms(5) by auto
  let ?i = "of_nat i :: 'i word"
  have ni: "unat ?i < n" using i by (simp add: unat_of_nat_less)
  then have roots: "uf_root_of s ?i = Some (f ?i)" "uf_root_of t ?i = Some (g ?i)"
    using assms(1-4) by (auto intro!: uf_rep_root)
  have fg: "unat (f w) < n" "unat (g w) < n" if "unat w < n" for w
    using uf_rep_closed(1) [OF assms(1), of w] uf_rep_closed(1) [OF assms(2), of w] assms(3,4) that by auto
  have below: "unat w < n" if "unat w < i" for w :: "'i word" using that i by simp
  have a: "ma ! unat (f ?i) = - 1 \<or> ma ! unat (f ?i) = g ?i"
  proof (cases "f ?i \<in> f ` {w. unat w < i}")
    case True
    then obtain w where "unat w < i" "f ?i = f w" by auto
    with same [OF ni below, of w] Suc.prems(4) [of w] show ?thesis by auto
  qed (use Suc.prems(5) fg ni in auto)
  have b: "mb ! unat (g ?i) = - 1 \<or> mb ! unat (g ?i) = f ?i"
  proof (cases "g ?i \<in> g ` {w. unat w < i}")
    case True
    then obtain w where "unat w < i" "g ?i = g w" by auto
    with same [OF ni below, of w] Suc.prems(4) [of w] show ?thesis by auto
  qed (use Suc.prems(6) fg ni in auto)
  let ?ma = "if ma ! unat (f ?i) = - 1 then ma[unat (f ?i) := g ?i] else ma"
  let ?mb = "if mb ! unat (g ?i) = - 1 then mb[unat (g ?i) := f ?i] else mb"
  have set: "{w :: 'i word. unat w < Suc i} = insert ?i {w. unat w < i}"
    using upt_word_step [OF i(2)] by auto
  have "same_loop s t ?ma ?mb [Suc i..<n] = Some True"
  proof (rule Suc.hyps(1))
    fix w :: "'i word" assume "unat w < Suc i"
    then have w: "w = ?i \<or> unat w < i" using upt_word_step [OF i(2)] by blast
    show "?ma ! unat (f w) = g w \<and> ?mb ! unat (g w) = f w"
      using w Suc.prems(4) [of w] a b fg [OF ni] Suc.prems(2,3) same [OF ni below, of w]
      by (auto simp: nth_list_update_word)
  next
    fix r :: "'i word" assume "unat r < n" "r \<notin> f ` {w. unat w < Suc i}"
    then show "?ma ! unat r = - 1" using Suc.prems(5) [of r] by (auto simp: set nth_list_update_word)
  next
    fix r :: "'i word" assume "unat r < n" "r \<notin> g ` {w. unat w < Suc i}"
    then show "?mb ! unat r = - 1" using Suc.prems(6) [of r] by (auto simp: set nth_list_update_word)
  qed (use Suc in auto)
  with a b i(1) roots show ?case by (auto simp: upt_conv_Cons Let_def)
qed simp

lemma same_loop_total:
  fixes s t :: "'i::len union_find"
  assumes "uf_rep s f" and "uf_rep t g" and "\<forall>i \<in> set is. of_nat i \<in> uf_nodes s \<and> of_nat i \<in> uf_nodes t"
  shows "same_loop s t ma mb is \<noteq> None"
  using assms(3)
  by (induction "is" arbitrary: ma mb)
    (auto simp: uf_rep_root [OF assms(1)] uf_rep_root [OF assms(2)] Let_def)

lemma uf_same_partition_rep:
  fixes s t :: "'i::len union_find"
  assumes "uf_rep s f" and "uf_rep t g"
  shows "uf_same_partition s t = Some (uf_nodes s = uf_nodes t \<and> uf_same s = uf_same t)"
proof -
  define n where "n = length (uf_parent s)"
  have bounds: "n \<le> 2 ^ LENGTH('i)" "length (uf_parent t) \<le> 2 ^ LENGTH('i)"
    using assms by (simp_all add: uf_rep_def n_def)
  have ns: "uf_nodes s = {w. unat w < n}" by (simp add: uf_nodes_def n_def)
  show ?thesis
  proof (cases "length (uf_parent t) = n")
    case False
    have "card (uf_nodes s) = n" "card (uf_nodes t) = length (uf_parent t)"
      using card_words_below [OF bounds(1)] card_words_below [OF bounds(2)]
      by (simp_all add: ns uf_nodes_def [of t])
    with False have "uf_nodes s \<noteq> uf_nodes t" by auto
    with False show ?thesis by (simp add: uf_same_partition_def n_def)
  next
    case True
    then have nt: "uf_nodes t = {w. unat w < n}" by (simp add: uf_nodes_def)
    let ?none = "replicate n (- 1) :: 'i word list"
    have run: "uf_same_partition s t = same_loop s t ?none ?none [0..<n]"
      using True by (simp add: uf_same_partition_def n_def)
    have closed: "unat (f w) < n \<and> f (f w) = f w \<and> unat (g w) < n \<and> g (g w) = g w" if "unat w < n" for w
      using uf_rep_closed [OF assms(1), of w] uf_rep_closed [OF assms(2), of w] that ns nt by auto
    have same: "uf_same s = uf_same t \<longleftrightarrow> (\<forall>v w. unat v < n \<longrightarrow> unat w < n \<longrightarrow> (f v = f w) = (g v = g w))"
      unfolding uf_rep_same [OF assms(1)] uf_rep_same [OF assms(2)] ns nt by auto
    show ?thesis
    proof (cases "uf_same s = uf_same t")
      case True
      then have "same_loop s t ?none ?none [0..<n] = Some True"
        using same by (intro same_loop_complete [OF assms ns nt bounds(1)]) auto
      with run True ns nt show ?thesis by simp
    next
      case False
      have "same_loop s t ?none ?none [0..<n] \<noteq> Some True"
      proof
        assume "same_loop s t ?none ?none [0..<n] = Some True"
        moreover have "maps_ok f g n 0 ?none ?none" by (simp add: maps_ok_def)
        ultimately obtain ma mb where ok: "maps_ok f g n n ma mb"
          using same_loop_sound [OF assms ns nt bounds(1), of 0 ?none ?none] by auto
        have "(f v = f w) = (g v = g w)" if "unat v < n" "unat w < n" for v w
          using maps_ok_agree [OF ok bounds(1) that _ closed]
            maps_ok_agree [OF ok [unfolded maps_ok_swap [of f]] bounds(1) that] closed by metis
        with False same show False by blast
      qed
      moreover have "same_loop s t ?none ?none [0..<n] \<noteq> None"
        using bounds(1) by (intro same_loop_total [OF assms]) (auto simp: ns nt unat_of_nat_less)
      ultimately show ?thesis using run False by (cases "same_loop s t ?none ?none [0..<n]") auto
    qed
  qed
qed

subsection \<open>The structure provides the partition interface\<close>

lemma uf_unite_join:
  assumes "uf_inv s" and "a \<in> uf_nodes s" and "b \<in> uf_nodes s"
  shows "\<exists>s'. uf_unite s a b = Some (Inr ((a, b) \<notin> uf_same s), s') \<and> uf_inv s' \<and>
    uf_nodes s' = uf_nodes s \<and> uf_same s' = join (uf_same s) a b \<and>
    uf_set_count s = uf_set_count s' + (if (a, b) \<in> uf_same s then 0 else 1)"
proof -
  obtain f where f: "uf_rep s f" using assms(1) by (auto simp: uf_inv_def)
  obtain s' g where s': "uf_unite s a b = Some (Inr (f a \<noteq> f b), s')" "uf_rep s' g" "uf_nodes s' = uf_nodes s"
      "uf_set_count s = uf_set_count s' + (if f a \<noteq> f b then 1 else 0)"
      "\<And>x y. g x = g y \<longleftrightarrow> f x = f y \<or> f x = f a \<and> f y = f b \<or> f x = f b \<and> f y = f a"
    using uf_unite_rep [OF f assms(2,3)] by blast
  have ab: "(a, b) \<in> uf_same s \<longleftrightarrow> f a = f b" using assms(2,3) by (simp add: uf_rep_same [OF f])
  have "uf_same s' = join (uf_same s) a b"
    using assms(2,3) unfolding join_def uf_rep_same [OF f] uf_rep_same [OF s'(2)] s'(3,5) by auto
  with s' ab show ?thesis by (auto simp: uf_inv_def)
qed

interpretation uf: partition uf_inv uf_nodes uf_same uf_set_count uf_unite uf_root_of
proof unfold_locales
  fix s :: "'a::len union_find" and a assume "uf_inv s" "a \<in> uf_nodes s"
  then show "\<exists>r \<in> uf_nodes s. uf_root_of s a = Some r"
    using uf_rep_root uf_rep_closed(1) by (fastforce simp: uf_inv_def)
next
  fix s :: "'a::len union_find" assume "uf_inv s"
  then show "uf_set_count s = card (uf_nodes s // uf_same s)"
    using uf_rep_classes by (auto simp: uf_inv_def)
next
  fix s :: "'a::len union_find" and a b assume "a \<in> uf_nodes s" "b \<in> uf_nodes s"
  then show "uf_root_of s a = uf_root_of s b \<longleftrightarrow> (a, b) \<in> uf_same s" by (simp add: uf_same_def)
qed (simp_all add: uf_same_equiv uf_unite_join)

lemma uf_reset_fresh:
  assumes "n \<le> 2 ^ LENGTH('i)"
  shows "uf_inv (uf_reset n :: 'i::len union_find)"
    and "uf_nodes (uf_reset n :: 'i union_find) = {w. unat w < n}"
    and "uf_same (uf_reset n :: 'i union_find) = Id_on {w. unat w < n}"
  using uf_rep_reset [OF assms] uf_rep_same [OF uf_rep_reset(1) [OF assms]]
  by (auto simp: uf_inv_def)

subsection \<open>Properties\<close>

text \<open>C6: on a well-formed structure \<open>unite\<close> always returns, tells whether the two nodes were
apart, joins exactly their two classes, and keeps the count equal to the number of classes.\<close>

theorem uf_unite_merges:
  assumes "uf_inv s" and "a \<in> uf_nodes s" and "b \<in> uf_nodes s"
  shows "\<exists>s'. uf_unite s a b = Some (Inr ((a, b) \<notin> uf_same s), s') \<and> uf_inv s' \<and>
    uf_nodes s' = uf_nodes s \<and> uf_same s' = join (uf_same s) a b \<and>
    uf_set_count s' = card (uf_nodes s' // uf_same s')"
  using uf_unite_join [OF assms] uf.classes_card by blast

lemma uf_unite_merges_witness:
  "\<exists>s'. uf_unite (uf_reset 3 :: 8 union_find) 0 2 = Some (Inr ((0, 2) \<notin> uf_same (uf_reset 3 :: 8 union_find)), s') \<and>
    uf_inv s'"
  using uf_unite_merges [of "uf_reset 3 :: 8 union_find" 0 2] by (auto simp: uf_reset_fresh)

text \<open>Path halving changes parents but not the partition: \<open>find\<close> returns the same root the
read-only walk returns, and \<open>size_of\<close> the size of the node's class.\<close>

lemma uf_find_keeps_partition:
  assumes "uf_inv s" and "i \<in> uf_nodes s"
  shows "\<exists>r s' s''. uf_root_of s i = Some r \<and> uf_find s i = Some (Inr r, s') \<and> uf_inv s' \<and>
    uf_same s' = uf_same s \<and> uf_size_of s i = Some (Inr (card (uf_same s `` {i})), s'')"
proof -
  obtain f where f: "uf_rep s f" using assms(1) by (auto simp: uf_inv_def)
  obtain s' where s': "uf_find s i = Some (Inr (f i), s')" "uf_rep s' f" "uf_nodes s' = uf_nodes s"
    using uf_find_rep [OF f assms(2)] by blast
  have "uf_same s `` {i} = {b \<in> uf_nodes s. f b = f i}"
    using assms(2) by (auto simp: uf_rep_same [OF f])
  with uf_size_of_rep [OF f assms(2)] s' uf_rep_root [OF f assms(2)] show ?thesis
    by (auto simp: uf_inv_def uf_rep_same [OF f] uf_rep_same [OF s'(2)])
qed

text \<open>\<open>same_partition\<close> answers whether the two structures partition the same nodes in the same
way, even when all ids of the index type are in use and the sentinel of its tables is one
of them.\<close>

lemma uf_same_partition_correct:
  assumes "uf_inv s" and "uf_inv t"
  shows "uf_same_partition s t = Some (uf_nodes s = uf_nodes t \<and> uf_same s = uf_same t)"
  using assms uf_same_partition_rep by (auto simp: uf_inv_def)

end
