(* ===== verification/Graph.thy ===== *)
theory Graph
  imports Container_Error
begin

text \<open>
  The adjacency-list graph of \<open>container/graph.hpp\<close>. Vertices are words of the class's
  vertex type; a graph without edge data takes \<open>unit\<close> for it. \<open>graph_edges\<close> is the
  abstract view, the multiset of edges.
\<close>

subsection \<open>The code\<close>

record (overloaded) ('e, 'v::len) graph_edge =
  ge_target :: "'v word"
  ge_data :: 'e

record (overloaded) ('e, 'v::len) graph =
  g_adjacency :: "('e, 'v) graph_edge list list"
  g_edge_count :: nat

definition graph_empty :: "nat \<Rightarrow> ('e, 'v::len) graph" where
  "graph_empty n = \<lparr>g_adjacency = replicate n [], g_edge_count = 0\<rparr>"

definition vertex_count :: "('e, 'v::len) graph \<Rightarrow> nat" where
  "vertex_count g = length (g_adjacency g)"

definition edge_count :: "('e, 'v::len) graph \<Rightarrow> nat" where
  "edge_count g = g_edge_count g"

definition graph_clear :: "('e, 'v::len) graph \<Rightarrow> ('e, 'v) graph" where
  "graph_clear g = g\<lparr>g_adjacency := [], g_edge_count := 0\<rparr>"

definition add_vertex :: "('e, 'v::len) graph \<Rightarrow> 'v word \<times> ('e, 'v) graph" where
  "add_vertex g =
     (of_nat (length (g_adjacency g)), g\<lparr>g_adjacency := g_adjacency g @ [[]]\<rparr>)"

definition graph_contains :: "('e, 'v::len) graph \<Rightarrow> 'v word \<Rightarrow> bool" where
  "graph_contains g v = (unat v < length (g_adjacency g))"

definition add_edge ::
    "('e, 'v::len) graph \<Rightarrow> 'v word \<Rightarrow> 'v word \<Rightarrow> 'e \<Rightarrow> (container_error + unit) \<times> ('e, 'v) graph" where
  "add_edge g src dst d =
     (if \<not> graph_contains g src \<or> \<not> graph_contains g dst then (Inl Out_of_range, g)
      else
        let lst = g_adjacency g ! unat src
        in (Inr (), g\<lparr>g_adjacency := (g_adjacency g)[unat src := lst @ [\<lparr>ge_target = dst, ge_data = d\<rparr>]],
                      g_edge_count := g_edge_count g + 1\<rparr>))"

text \<open>\<open>find_if\<close> and \<open>erase\<close> on one adjacency list; \<open>None\<close> when there is no such edge.\<close>

fun erase_edge :: "'v::len word \<Rightarrow> ('e, 'v) graph_edge list \<Rightarrow> ('e, 'v) graph_edge list option" where
  "erase_edge dst [] = None"
| "erase_edge dst (e # es) =
     (if ge_target e = dst then Some es else map_option ((#) e) (erase_edge dst es))"

definition remove_edge ::
    "('e, 'v::len) graph \<Rightarrow> 'v word \<Rightarrow> 'v word \<Rightarrow> (container_error + bool) \<times> ('e, 'v) graph" where
  "remove_edge g src dst =
     (if \<not> graph_contains g src then (Inl Out_of_range, g)
      else
        case erase_edge dst (g_adjacency g ! unat src) of
          None \<Rightarrow> (Inr False, g)
        | Some lst \<Rightarrow>
            (Inr True, g\<lparr>g_adjacency := (g_adjacency g)[unat src := lst],
                         g_edge_count := g_edge_count g - 1\<rparr>))"

definition has_edge :: "('e, 'v::len) graph \<Rightarrow> 'v word \<Rightarrow> 'v word \<Rightarrow> bool" where
  "has_edge g src dst =
     (if \<not> graph_contains g src then False
      else list_ex (\<lambda>e. ge_target e = dst) (g_adjacency g ! unat src))"

definition edges_of :: "('e, 'v::len) graph \<Rightarrow> 'v word \<Rightarrow> ('e, 'v) graph_edge list" where
  "edges_of g v = (if \<not> graph_contains g v then [] else g_adjacency g ! unat v)"

definition neighbors :: "('e, 'v::len) graph \<Rightarrow> 'v word \<Rightarrow> 'v word list" where
  "neighbors g v = map ge_target (edges_of g v)"

definition out_degree :: "('e, 'v::len) graph \<Rightarrow> 'v word \<Rightarrow> container_error + nat" where
  "out_degree g v =
     (if \<not> graph_contains g v then Inl Out_of_range else Inr (length (g_adjacency g ! unat v)))"

text \<open>The range \<open>0 ..< size\<close> is built in the vertex type: its end is the truncated size.\<close>

definition vertices :: "('e, 'v::len) graph \<Rightarrow> 'v word list" where
  "vertices g = map of_nat [0..<unat (of_nat (length (g_adjacency g)) :: 'v word)]"

definition graph_eq :: "('e, 'v::len) graph \<Rightarrow> ('e, 'v) graph \<Rightarrow> bool" where
  "graph_eq a b =
     (if length (g_adjacency a) \<noteq> length (g_adjacency b) then False
      else if g_edge_count a \<noteq> g_edge_count b then False
      else list_all2 (\<lambda>la lb. length la = length lb \<and>
             list_all2 (\<lambda>x y. ge_target x = ge_target y \<and> ge_data x = ge_data y) la lb)
           (g_adjacency a) (g_adjacency b))"

subsection \<open>The graph as a multiset of edges\<close>

definition vertex_set :: "('e, 'v::len) graph \<Rightarrow> 'v word set" where
  "vertex_set g = {v. unat v < vertex_count g}"

definition list_edges :: "'v::len word \<Rightarrow> ('e, 'v) graph_edge list \<Rightarrow> ('v word \<times> 'v word \<times> 'e) multiset" where
  "list_edges v es = image_mset (\<lambda>e. (v, ge_target e, ge_data e)) (mset es)"

definition graph_edges :: "('e, 'v::len) graph \<Rightarrow> ('v word \<times> 'v word \<times> 'e) multiset" where
  "graph_edges g = (\<Sum>v \<in> vertex_set g. list_edges v (edges_of g v))"

definition graph_wf :: "('e, 'v::len) graph \<Rightarrow> bool" where
  "graph_wf g \<longleftrightarrow>
     vertex_count g < 2 ^ LENGTH('v) \<and>
     g_edge_count g = sum_list (map length (g_adjacency g)) \<and>
     (\<forall>v e. e \<in> set (edges_of g v) \<longrightarrow> ge_target e \<in> vertex_set g)"

lemma graph_contains_iff [simp]: "graph_contains g v \<longleftrightarrow> v \<in> vertex_set g"
  by (simp add: graph_contains_def vertex_set_def vertex_count_def)

lemma finite_vertex_set [simp]: "finite (vertex_set g)"
  by (rule finite)

lemma set_vertices: "graph_wf g \<Longrightarrow> set (vertices g) = vertex_set g"
proof -
  assume "graph_wf g"
  then have n: "length (g_adjacency g) < 2 ^ LENGTH('b)" by (simp add: graph_wf_def vertex_count_def)
  then have "unat (of_nat (length (g_adjacency g)) :: 'b word) = length (g_adjacency g)"
    by (rule unat_of_nat_less)
  with n show "set (vertices g) = vertex_set g"
    by (auto simp: vertices_def vertex_set_def vertex_count_def unat_of_nat_less image_iff)
      (metis atLeastLessThan_iff le0 of_nat_unat ucast_id)
qed

lemma vertices_nat: "graph_wf g \<Longrightarrow> vertices g = map of_nat [0..<vertex_count g]"
  by (simp add: vertices_def vertex_count_def graph_wf_def unat_of_nat_less)

lemma edges_of_update:
  assumes "src \<in> vertex_set g"
  shows "edges_of (g\<lparr>g_adjacency := (g_adjacency g)[unat src := es], g_edge_count := k\<rparr>) v =
    (if v = src then es else edges_of g v)"
    and "vertex_set (g\<lparr>g_adjacency := (g_adjacency g)[unat src := es], g_edge_count := k\<rparr>) = vertex_set g"
  using assms unsigned_word_eqI [of v src, where ?'a = nat]
  by (auto simp: edges_of_def vertex_set_def vertex_count_def nth_list_update)

lemma graph_edges_update:
  assumes "src \<in> vertex_set g"
  shows "graph_edges (g\<lparr>g_adjacency := (g_adjacency g)[unat src := es], g_edge_count := k\<rparr>) + list_edges src (edges_of g src) =
    graph_edges g + list_edges src es"
proof -
  have split: "(\<Sum>v \<in> vertex_set g. list_edges v (h v)) =
      list_edges src (h src) + (\<Sum>v \<in> vertex_set g - {src}. list_edges v (h v))" for h
    using assms by (simp add: sum.remove)
  show ?thesis
    unfolding graph_edges_def edges_of_update [OF assms] by (simp add: split)
qed

lemma mem_graph_edges: "(v, w, d) \<in># graph_edges g \<longleftrightarrow>
    v \<in> vertex_set g \<and> \<lparr>ge_target = w, ge_data = d\<rparr> \<in> set (edges_of g v)"
  by (auto simp: graph_edges_def list_edges_def set_mset_sum image_iff)
    (metis (full_types) graph_edge.surjective old.unit.exhaust graph_edge.select_convs)+

lemma erase_edge_None: "erase_edge dst es = None \<longleftrightarrow> (\<forall>e \<in> set es. ge_target e \<noteq> dst)"
  by (induction es) auto

lemma erase_edge_Some:
  "erase_edge dst es = Some es' \<Longrightarrow> \<exists>e. ge_target e = dst \<and> mset es = add_mset e (mset es')"
  by (induction es arbitrary: es') (fastforce split: if_splits)+

lemma length_le_sum_list: "xs \<in> set xss \<Longrightarrow> length xs \<le> sum_list (map length xss)"
  by (induction xss) auto

lemma sum_list_length_update:
  "i < length xss \<Longrightarrow> sum_list (map length (xss[i := ys])) + length (xss ! i) = sum_list (map length xss) + length ys"
  by (induction xss arbitrary: i) (auto simp: nth_Cons split: nat.split)

lemma edges_of_nth: "v \<in> vertex_set g \<Longrightarrow> edges_of g v = g_adjacency g ! unat v"
  by (simp add: edges_of_def)

lemma graph_wf_update:
  fixes g :: "('e, 'v::len) graph"
  assumes "graph_wf g" and "src \<in> vertex_set g"
    and "g_edge_count g + length es = k + length (edges_of g src)"
    and "\<forall>e \<in> set es. ge_target e \<in> vertex_set g"
  shows "graph_wf (g\<lparr>g_adjacency := (g_adjacency g)[unat src := es], g_edge_count := k\<rparr>)"
proof -
  have i: "unat src < length (g_adjacency g)"
    using assms(2) by (simp add: vertex_set_def vertex_count_def)
  have "k = sum_list (map length ((g_adjacency g)[unat src := es]))"
    using sum_list_length_update [OF i, of es] assms(1,3) edges_of_nth [OF assms(2)]
    by (simp add: graph_wf_def)
  with assms show ?thesis
    unfolding graph_wf_def edges_of_update [OF assms(2)] by (auto simp: vertex_count_def)
qed

lemma list_edges_snoc: "list_edges v (es @ [e]) = add_mset (v, ge_target e, ge_data e) (list_edges v es)"
  by (simp add: list_edges_def)

lemma edges_of_empty [simp]: "edges_of (graph_empty n) v = []"
  by (auto simp: edges_of_def graph_empty_def graph_contains_def simp del: graph_contains_iff)

lemma graph_empty_wf:
  "n < 2 ^ LENGTH('v) \<Longrightarrow> graph_wf (graph_empty n :: ('e, 'v::len) graph)"
  "n < 2 ^ LENGTH('v) \<Longrightarrow> graph_edges (graph_empty n :: ('e, 'v) graph) = {#}"
  by (simp_all add: graph_wf_def graph_edges_def list_edges_def)
    (simp_all add: graph_empty_def vertex_count_def sum_list_replicate)

lemma graph_two:
  fixes d :: 'e
  defines "g2 \<equiv> \<lparr>g_adjacency = [[\<lparr>ge_target = 1, ge_data = d\<rparr>], [], []], g_edge_count = 1\<rparr> :: ('e, 8) graph"
  shows "graph_wf g2" and "vertex_count g2 = 3" and "vertices g2 = [0, 1, 2]"
    and "edges_of g2 0 = [\<lparr>ge_target = 1, ge_data = d\<rparr>]" and "edges_of g2 1 = []" and "edges_of g2 2 = []"
proof -
  have small: "unat v < 3 \<Longrightarrow> v = 0 \<or> v = 1 \<or> v = 2" for v :: "8 word"
    using unsigned_word_eqI [of v 0, where ?'a = nat] unsigned_word_eqI [of v 1, where ?'a = nat]
      unsigned_word_eqI [of v 2, where ?'a = nat]
    by (auto simp: numeral_3_eq_3 less_Suc_eq)
  show "vertex_count g2 = 3" by (simp add: g2_def vertex_count_def)
  show "graph_wf g2"
    unfolding graph_wf_def
  proof (intro conjI allI impI)
    fix v :: "8 word" and e assume e: "e \<in> set (edges_of g2 v)"
    then have "v \<in> vertex_set g2" by (cases "v \<in> vertex_set g2") (simp_all add: edges_of_def)
    then have "v = 0 \<or> v = 1 \<or> v = 2" using small by (simp add: g2_def vertex_set_def vertex_count_def)
    with e show "ge_target e \<in> vertex_set g2"
      by (auto simp: edges_of_def g2_def vertex_set_def vertex_count_def split: if_splits)
  qed (simp_all add: g2_def vertex_count_def)
  show "vertices g2 = [0, 1, 2]"
    by (simp add: g2_def vertices_def upt_conv_Cons)
  show "edges_of g2 0 = [\<lparr>ge_target = 1, ge_data = d\<rparr>]" "edges_of g2 1 = []" "edges_of g2 2 = []"
    by (simp_all add: edges_of_def) (simp_all add: g2_def vertex_set_def vertex_count_def)
qed

subsection \<open>Properties\<close>

text \<open>Adding an edge between existing vertices adds exactly that edge; adding one to a missing
vertex is refused and changes nothing.\<close>

lemma add_edge_adds:
  assumes "graph_wf g"
  shows "if src \<in> vertex_set g \<and> dst \<in> vertex_set g
    then \<exists>g'. add_edge g src dst d = (Inr (), g') \<and> graph_wf g' \<and> vertex_set g' = vertex_set g \<and>
      graph_edges g' = add_mset (src, dst, d) (graph_edges g)
    else add_edge g src dst d = (Inl Out_of_range, g)"
proof (cases "src \<in> vertex_set g \<and> dst \<in> vertex_set g")
  case True
  let ?es = "edges_of g src @ [\<lparr>ge_target = dst, ge_data = d\<rparr>]"
  let ?g = "g\<lparr>g_adjacency := (g_adjacency g)[unat src := ?es], g_edge_count := g_edge_count g + 1\<rparr>"
  have "graph_wf ?g"
    using assms True by (intro graph_wf_update) (auto simp: graph_wf_def)
  moreover have "graph_edges ?g = add_mset (src, dst, d) (graph_edges g)"
    using graph_edges_update [where src = src and g = g and es = ?es and k = "g_edge_count g + 1"] True
    by (simp add: list_edges_snoc)
  ultimately show ?thesis
    using True edges_of_update(2) [where src = src and g = g and es = ?es]
    by (simp add: add_edge_def edges_of_nth Let_def)
next
  case False
  then show ?thesis by (auto simp: add_edge_def)
qed

text \<open>Removing an edge removes exactly one edge between the two vertices, and reports \<open>false\<close>
and changes nothing when there is none.\<close>

lemma remove_edge_removes:
  assumes "graph_wf g" and "src \<in> vertex_set g"
  shows "if has_edge g src dst
    then \<exists>g' d. remove_edge g src dst = (Inr True, g') \<and> graph_wf g' \<and> vertex_set g' = vertex_set g \<and>
      graph_edges g = add_mset (src, dst, d) (graph_edges g')
    else remove_edge g src dst = (Inr False, g)"
proof (cases "erase_edge dst (edges_of g src)")
  case None
  then have "\<forall>e \<in> set (edges_of g src). ge_target e \<noteq> dst" by (simp add: erase_edge_None)
  with None show ?thesis
    using assms(2) by (auto simp: remove_edge_def has_edge_def edges_of_nth list_ex_iff)
next
  case (Some es)
  let ?g = "g\<lparr>g_adjacency := (g_adjacency g)[unat src := es], g_edge_count := g_edge_count g - 1\<rparr>"
  obtain e where e: "ge_target e = dst" "mset (edges_of g src) = add_mset e (mset es)"
    using erase_edge_Some [OF Some] by blast
  have len: "length (edges_of g src) = Suc (length es)"
    using arg_cong [OF e(2), of size] by simp
  have sub: "set (edges_of g src) = insert e (set es)"
    using arg_cong [OF e(2), of set_mset] by simp
  have "g_adjacency g ! unat src \<in> set (g_adjacency g)"
    using assms(2) by (simp add: vertex_set_def vertex_count_def)
  then have "Suc (length es) \<le> g_edge_count g"
    using assms len length_le_sum_list by (fastforce simp: graph_wf_def edges_of_nth)
  then have "graph_wf ?g"
    using assms len sub by (intro graph_wf_update) (auto simp: graph_wf_def)
  moreover have "list_edges src (edges_of g src) = add_mset (src, dst, ge_data e) (list_edges src es)"
    using e by (simp add: list_edges_def)
  then have "graph_edges g = add_mset (src, dst, ge_data e) (graph_edges ?g)"
    using graph_edges_update [OF assms(2), where es = es and k = "g_edge_count g - 1"] by simp
  moreover have "has_edge g src dst"
    using assms(2) sub e(1) by (auto simp: has_edge_def edges_of_nth list_ex_iff)
  ultimately show ?thesis
    using Some assms(2) edges_of_update(2) [OF assms(2)]
    by (auto simp: remove_edge_def edges_of_nth)
qed

end
