(* ===== verification/Components.thy ===== *)
theory Components
  imports Union_Find Graph
begin

text \<open>
  Two users of the union-find structure: \<open>algorithm/graph/connected_components.hpp\<close> and
  \<open>algorithm/graph/kruskal_mst.hpp\<close>. Both are verified through the facts of the
  partition interface.
\<close>

subsection \<open>Connected components: the code\<close>

record (overloaded) ('v::len) components_result =
  cr_labels :: "'v word list"
  cr_num_components :: nat

record (overloaded) ('v::len) label_state =
  ls_labels :: "'v word list"
  ls_remap :: "'v word list"
  ls_seen :: "u8 list"
  ls_next :: nat

definition edge_pairs :: "('e, 'v::len) graph \<Rightarrow> ('v word \<times> 'v word) list" where
  "edge_pairs g = concat (map (\<lambda>u. map (\<lambda>e. (u, ge_target e)) (edges_of g u)) (vertices g))"

definition label_step :: "'v::len word \<Rightarrow> nat \<Rightarrow> 'v label_state \<Rightarrow> 'v label_state" where
  "label_step root v st =
     (let st' = (if ls_seen st ! unat root = 0
                 then st\<lparr>ls_seen := (ls_seen st)[unat root := 1],
                         ls_remap := (ls_remap st)[unat root := of_nat (ls_next st)],
                         ls_next := ls_next st + 1\<rparr>
                 else st)
      in st'\<lparr>ls_labels := (ls_labels st')[v := ls_remap st' ! unat root]\<rparr>)"

fun label_loop :: "'v::len union_find \<Rightarrow> nat list \<Rightarrow> 'v label_state \<Rightarrow> 'v label_state option" where
  "label_loop uf [] st = Some st"
| "label_loop uf (v # vs) st =
     (case uf_root_of uf (of_nat v) of
        None \<Rightarrow> None
      | Some root \<Rightarrow> label_loop uf vs (label_step root v st))"

definition connected_components :: "('e, 'v::len) graph \<Rightarrow> 'v components_result option" where
  "connected_components g =
     (let n = vertex_count g
      in case unite_list uf_unite (uf_reset n) (edge_pairs g) of
           None \<Rightarrow> None
         | Some uf \<Rightarrow>
             (case label_loop uf [0..<n]
                     \<lparr>ls_labels = replicate n 0, ls_remap = replicate n 0,
                      ls_seen = replicate n 0, ls_next = 0\<rparr> of
                None \<Rightarrow> None
              | Some st \<Rightarrow> Some \<lparr>cr_labels = ls_labels st, cr_num_components = ls_next st\<rparr>))"

subsection \<open>Dense labels\<close>

text \<open>
  After the vertices below \<open>k\<close>: \<open>rt\<close> gives their roots, and \<open>ix\<close> numbers the roots seen
  in the order of their first vertex.
\<close>

definition labelled :: "(nat \<Rightarrow> 'v::len word) \<Rightarrow> nat \<Rightarrow> nat \<Rightarrow> 'v label_state \<Rightarrow> bool" where
  "labelled rt n k st \<longleftrightarrow>
     length (ls_labels st) = n \<and> length (ls_remap st) = n \<and> length (ls_seen st) = n \<and>
     (\<forall>r. unat r < n \<longrightarrow> (ls_seen st ! unat r \<noteq> 0) = (r \<in> rt ` {..<k})) \<and>
     (\<forall>v < k. ls_labels st ! v = ls_remap st ! unat (rt v)) \<and>
     (\<exists>ix. bij_betw ix (rt ` {..<k}) {..<ls_next st} \<and>
        (\<forall>r \<in> rt ` {..<k}. ls_remap st ! unat r = of_nat (ix r)))"

lemma labelled_step:
  assumes "labelled rt n k st" and "k < n" and "\<And>v. v < n \<Longrightarrow> unat (rt v) < n"
  shows "labelled rt n (Suc k) (label_step (rt k) k st)"
proof -
  obtain ix where ix: "bij_betw ix (rt ` {..<k}) {..<ls_next st}"
      "\<And>r. r \<in> rt ` {..<k} \<Longrightarrow> ls_remap st ! unat r = of_nat (ix r)"
    using assms(1) by (auto simp: labelled_def)
  have len: "length (ls_labels st) = n" "length (ls_remap st) = n" "length (ls_seen st) = n"
    and seen: "\<And>r. unat r < n \<Longrightarrow> (ls_seen st ! unat r \<noteq> 0) = (r \<in> rt ` {..<k})"
    and labels: "\<And>v. v < k \<Longrightarrow> ls_labels st ! v = ls_remap st ! unat (rt v)"
    using assms(1) by (auto simp: labelled_def)
  have img: "rt ` {..<Suc k} = insert (rt k) (rt ` {..<k})" by (auto simp: lessThan_Suc)
  show ?thesis
  proof (cases "rt k \<in> rt ` {..<k}")
    case True
    then have "ls_seen st ! unat (rt k) \<noteq> 0" using seen assms(2,3) by simp
    then have step: "label_step (rt k) k st = st\<lparr>ls_labels := (ls_labels st)[k := ls_remap st ! unat (rt k)]\<rparr>"
      by (simp add: label_step_def Let_def)
    show ?thesis
      unfolding labelled_def step img insert_absorb [OF True]
      using len seen labels ix assms(2) by (auto simp: nth_list_update less_Suc_eq)
  next
    case False
    then have "ls_seen st ! unat (rt k) = 0" using seen assms(2,3) by auto
    then have step: "label_step (rt k) k st =
        \<lparr>ls_labels = (ls_labels st)[k := of_nat (ls_next st)],
         ls_remap = (ls_remap st)[unat (rt k) := of_nat (ls_next st)],
         ls_seen = (ls_seen st)[unat (rt k) := 1], ls_next = Suc (ls_next st)\<rparr>"
      using len assms(2,3) by (simp add: label_step_def Let_def)
    have other: "rt v \<noteq> rt k" if "v < k" for v
      using False that by (metis image_eqI lessThan_iff)
    let ?ix = "ix(rt k := ls_next st)"
    have "bij_betw ?ix (insert (rt k) (rt ` {..<k})) (insert (ls_next st) {..<ls_next st})"
    proof (rule bij_betw_combine [of ?ix "{rt k}" "{ls_next st}" "rt ` {..<k}" "{..<ls_next st}", simplified])
      show "bij_betw ?ix (rt ` {..<k}) {..<ls_next st}"
        using ix(1) by (subst bij_betw_cong [of _ ?ix ix]) (auto simp: other)
    qed
    then have bij: "bij_betw ?ix (rt ` {..<Suc k}) {..<Suc (ls_next st)}"
      by (simp add: img lessThan_Suc)
    show ?thesis
      unfolding labelled_def step
    proof (intro conjI exI [of _ ?ix])
      show "\<forall>r. unat r < n \<longrightarrow> (ls_seen \<lparr>ls_labels = (ls_labels st)[k := of_nat (ls_next st)],
         ls_remap = (ls_remap st)[unat (rt k) := of_nat (ls_next st)],
         ls_seen = (ls_seen st)[unat (rt k) := 1], ls_next = Suc (ls_next st)\<rparr> ! unat r \<noteq> 0) = (r \<in> rt ` {..<Suc k})"
        using len assms(2,3) seen by (auto simp: nth_list_update_word img)
    qed (use bij len assms(2,3) labels ix(2) other False in \<open>auto simp: nth_list_update nth_list_update_word less_Suc_eq\<close>)
  qed
qed

lemma label_loop_labelled:
  assumes "\<And>v. v < n \<Longrightarrow> uf_root_of uf (of_nat v) = Some (rt v) \<and> unat (rt v) < n"
    and "labelled rt n k st" and "k \<le> n"
  shows "\<exists>st'. label_loop uf [k..<n] st = Some st' \<and> labelled rt n n st'"
  using assms(2,3)
proof (induction "n - k" arbitrary: k st)
  case (Suc m)
  then have k: "k < n" by simp
  have "labelled rt n (Suc k) (label_step (rt k) k st)"
    using labelled_step [OF Suc.prems(1) k] assms(1) by blast
  from Suc.hyps(1) [OF _ this] Suc.hyps(2) k assms(1) [OF k] show ?case
    by (simp add: upt_conv_Cons)
qed simp

definition edge_rel :: "('e, 'v::len) graph \<Rightarrow> ('v word \<times> 'v word) set" where
  "edge_rel g = {(u, v). \<exists>e \<in> set (edges_of g u). ge_target e = v}"

lemma edges_of_outside: "u \<notin> vertex_set g \<Longrightarrow> edges_of g u = []"
  by (simp add: edges_of_def)

lemma edge_rel_sub: "graph_wf g \<Longrightarrow> edge_rel g \<subseteq> vertex_set g \<times> vertex_set g"
  using edges_of_outside by (fastforce simp: edge_rel_def graph_wf_def)

lemma set_edge_pairs: "graph_wf g \<Longrightarrow> set (edge_pairs g) = edge_rel g"
  using edges_of_outside by (fastforce simp: edge_pairs_def edge_rel_def set_vertices)

lemma connected_components_ok:
  fixes g :: "('e, 'v::len) graph"
  assumes "graph_wf g"
  shows "\<exists>r. connected_components g = Some r \<and> length (cr_labels r) = vertex_count g \<and>
    cr_num_components r = comps (vertex_set g) (edge_rel g) \<and>
    set (cr_labels r) = of_nat ` {..<cr_num_components r} \<and>
    (\<forall>u \<in> vertex_set g. \<forall>v \<in> vertex_set g.
       cr_labels r ! unat u = cr_labels r ! unat v \<longleftrightarrow> (u, v) \<in> conn (edge_rel g))"
proof -
  let ?n = "vertex_count g" and ?E = "edge_rel g"
  have n: "?n < 2 ^ LENGTH('v)" using assms by (simp add: graph_wf_def)
  have V: "vertex_set g = {w. unat w < ?n}" by (simp add: vertex_set_def)
  obtain uf where uf: "unite_list uf_unite (uf_reset ?n) (edge_pairs g) = Some uf" "uf_inv uf"
      "uf_nodes uf = vertex_set g" "uf_same uf = on (vertex_set g) (conn ?E)"
    using uf.unite_list_from_scratch [of "uf_reset ?n :: 'v union_find" "edge_pairs g"]
      uf_reset_fresh [OF less_imp_le [OF n]] edge_rel_sub [OF assms]
    by (auto simp: set_edge_pairs [OF assms] V)
  define rt where "rt v = the (uf_root_of uf (of_nat v))" for v
  have rt: "uf_root_of uf (of_nat v) = Some (rt v) \<and> unat (rt v) < ?n" if "v < ?n" for v
    using uf.root_ok [OF uf(2), of "of_nat v"] that n by (auto simp: uf(3) V rt_def unat_of_nat_less)
  have rt_eq: "rt u = rt v \<longleftrightarrow> (of_nat u, of_nat v) \<in> conn ?E" if "u < ?n" "v < ?n" for u v
  proof -
    have "of_nat u \<in> vertex_set g" "of_nat v \<in> vertex_set g"
      using that n by (simp_all add: V unat_of_nat_less)
    with uf.root_same [OF uf(2), of "of_nat u" "of_nat v"] rt [OF that(1)] rt [OF that(2)]
    show ?thesis by (simp add: uf(3,4) on_def)
  qed
  let ?init = "\<lparr>ls_labels = replicate ?n 0, ls_remap = replicate ?n 0,
    ls_seen = replicate ?n 0, ls_next = 0\<rparr> :: 'v label_state"
  have "labelled rt ?n 0 ?init" by (simp add: labelled_def bij_betw_def)
  then obtain st where st: "label_loop uf [0..<?n] ?init = Some st" "labelled rt ?n ?n st"
    using label_loop_labelled [OF rt, of 0 ?init] by auto
  obtain ix where ix: "bij_betw ix (rt ` {..<?n}) {..<ls_next st}"
      "\<And>v. v < ?n \<Longrightarrow> ls_labels st ! v = of_nat (ix (rt v))" "length (ls_labels st) = ?n"
    using st(2) by (auto simp: labelled_def)
  have num: "ls_next st = card (rt ` {..<?n})" using bij_betw_same_card [OF ix(1)] by simp
  also have "\<dots> = uf_set_count uf"
  proof -
    obtain f where f: "uf_rep uf f" using uf(2) by (auto simp: uf_inv_def)
    have "rt v = f (of_nat v)" if "v < ?n" for v
      using uf_rep_root [OF f, of "of_nat v"] rt [OF that] that n by (simp add: uf(3) V unat_of_nat_less)
    then have "rt ` {..<?n} = f ` uf_nodes uf"
      unfolding uf(3) V words_below [OF less_imp_le [OF n]] by (auto simp: image_iff)
    with f show ?thesis by (simp add: uf_rep_def)
  qed
  also have "\<dots> = comps (vertex_set g) ?E"
    using uf.classes_card [OF uf(2)] by (simp add: comps_def uf(3,4))
  finally have count: "ls_next st = comps (vertex_set g) ?E" .
  have small: "ls_next st \<le> ?n" using num card_image_le [of "{..<?n}" rt] by simp
  have inj: "of_nat i = (of_nat j :: 'v word) \<longleftrightarrow> i = j" if "i < ls_next st" "j < ls_next st" for i j
    using that small n unat_of_nat_less [where ?'a = 'v, of i] unat_of_nat_less [where ?'a = 'v, of j]
    by (metis less_le_trans order_less_trans)
  have ixr: "ix (rt v) < ls_next st" if "v < ?n" for v
    using bij_betw_apply [OF ix(1)] that by auto
  have label: "ls_labels st ! u = ls_labels st ! v \<longleftrightarrow> rt u = rt v" if "u < ?n" "v < ?n" for u v
    using ix(2) that inj [OF ixr ixr] bij_betw_imp_inj_on [OF ix(1)]
    by (auto simp: inj_on_def)
  have "set (ls_labels st) = of_nat ` (ix ` rt ` {..<?n})"
    using ix(2,3) by (auto simp: set_conv_nth image_iff) metis+
  then have labels: "set (ls_labels st) = of_nat ` {..<ls_next st}"
    using bij_betw_imp_surj_on [OF ix(1)] by simp
  have "connected_components g = Some \<lparr>cr_labels = ls_labels st, cr_num_components = ls_next st\<rparr>"
    using uf(1) st(1) by (simp add: connected_components_def Let_def)
  moreover have "ls_labels st ! unat u = ls_labels st ! unat v \<longleftrightarrow> (u, v) \<in> conn ?E"
    if "u \<in> vertex_set g" "v \<in> vertex_set g" for u v
    using that label rt_eq by (simp add: V)
  ultimately show ?thesis using ix(3) count labels by simp
qed

subsection \<open>Kruskal's algorithm: the code\<close>

record (overloaded) ('e, 'v::len) mst_edge =
  me_from :: "'v word"
  me_to :: "'v word"
  me_weight :: 'e

definition collect_edges :: "('e, 'v::len) graph \<Rightarrow> ('e, 'v) mst_edge list" where
  "collect_edges g =
     concat (map (\<lambda>u. map (\<lambda>e. \<lparr>me_from = u, me_to = ge_target e, me_weight = ge_data e\<rparr>)
                        (edges_of g u)) (vertices g))"

fun kruskal_loop ::
    "nat \<Rightarrow> 'v::len union_find \<Rightarrow> ('e, 'v) mst_edge list \<Rightarrow> ('e, 'v) mst_edge list
     \<Rightarrow> ('e, 'v) mst_edge list option" where
  "kruskal_loop n uf result [] = Some result"
| "kruskal_loop n uf result (e # es) =
     (case uf_unite uf (me_from e) (me_to e) of
        None \<Rightarrow> None
      | Some (Inr True, uf') \<Rightarrow>
          let result' = result @ [e]
          in if length result' = n - 1 then Some result' else kruskal_loop n uf' result' es
      | Some (_, uf') \<Rightarrow> kruskal_loop n uf' result es)"

text \<open>
  \<open>std::ranges::sort\<close> is not stable: which of several sorted arrangements it produces is
  its own choice. \<open>srt\<close> stands for that choice.
\<close>

definition kruskal_mst ::
    "(('e, 'v::len) mst_edge list \<Rightarrow> ('e, 'v) mst_edge list) \<Rightarrow> ('e, 'v) graph
     \<Rightarrow> ('e, 'v) mst_edge list option" where
  "kruskal_mst srt g = kruskal_loop (vertex_count g) (uf_reset (vertex_count g)) [] (srt (collect_edges g))"

definition sorts_edges :: "(('e::linorder, 'v::len) mst_edge list \<Rightarrow> ('e, 'v) mst_edge list) \<Rightarrow> bool" where
  "sorts_edges srt \<longleftrightarrow> (\<forall>es. mset (srt es) = mset es \<and> sorted (map me_weight (srt es)))"

subsection \<open>Kruskal's algorithm: what it keeps\<close>

definition ends :: "('e, 'v::len) mst_edge list \<Rightarrow> ('v word \<times> 'v word) list" where
  "ends es = map (\<lambda>e. (me_from e, me_to e)) es"

definition below :: "'e::linorder \<Rightarrow> ('e, 'v::len) mst_edge list \<Rightarrow> ('e, 'v) mst_edge list" where
  "below w es = filter (\<lambda>e. me_weight e \<le> w) es"

text \<open>At every threshold the accepted edges connect what all edges seen connect.\<close>

definition keeps :: "('e::linorder, 'v::len) mst_edge list \<Rightarrow> ('e, 'v) mst_edge list \<Rightarrow> bool" where
  "keeps all acc \<longleftrightarrow> mset acc \<subseteq># mset all \<and>
     (\<forall>w. conn (set (ends (below w acc))) = conn (set (ends (below w all))))"

lemma ends_snoc [simp]: "ends (es @ [e]) = ends es @ [(me_from e, me_to e)]"
  by (simp add: ends_def)

lemma below_snoc [simp]: "below w (es @ [e]) = (if me_weight e \<le> w then below w es @ [e] else below w es)"
  by (simp add: below_def)

lemma below_all: "(\<And>e. e \<in> set es \<Longrightarrow> me_weight e \<le> w) \<Longrightarrow> below w es = es"
  by (simp add: below_def filter_id_conv)

lemma keeps_all: "keeps all acc \<Longrightarrow> conn (set (ends acc)) = conn (set (ends all))"
proof -
  assume k: "keeps all acc"
  show ?thesis
  proof (cases "all = []")
    case True
    with k show ?thesis by (simp add: keeps_def)
  next
    case False
    let ?w = "Max (me_weight ` set all)"
    have "me_weight e \<le> ?w" if "e \<in> set all" for e using that by simp
    moreover have "set acc \<subseteq> set all" using k set_mset_mono [of "mset acc" "mset all"] by (simp add: keeps_def)
    ultimately have "below ?w all = all" "below ?w acc = acc" by (auto intro!: below_all)
    with k show ?thesis unfolding keeps_def by metis
  qed
qed

lemma keeps_accept: "keeps all acc \<Longrightarrow> keeps (all @ [e]) (acc @ [e])"
  by (auto simp: keeps_def conn_insert)

lemma conn_absorb: "(a, b) \<in> conn E \<Longrightarrow> conn (insert (a, b) E) = conn E"
  using conn_sym [of a b E] by (auto simp: conn_insert join_def intro: conn_trans)

lemma keeps_reject:
  assumes "keeps all acc" and "(me_from e, me_to e) \<in> conn (set (ends acc))"
    and "\<And>x. x \<in> set all \<Longrightarrow> me_weight x \<le> me_weight e"
  shows "keeps (all @ [e]) acc"
proof -
  have "conn (insert (me_from e, me_to e) (set (ends (below w all)))) = conn (set (ends (below w all)))"
    if "me_weight e \<le> w" for w
  proof -
    have "below w all = all" using assms(3) that by (intro below_all) (blast intro: order_trans)
    with assms(2) keeps_all [OF assms(1)] show ?thesis by (simp add: conn_absorb)
  qed
  with assms(1) show ?thesis
    by (auto simp: keeps_def intro: subset_mset.order_trans)
qed

lemma keeps_rest:
  assumes "keeps all acc" and "set (ends rest) \<subseteq> conn (set (ends acc))"
    and "sorted (map me_weight (all @ rest))"
  shows "keeps (all @ rest) acc"
  using assms
proof (induction rest arbitrary: all)
  case (Cons e rest)
  have "keeps (all @ [e]) acc"
    using Cons.prems by (intro keeps_reject) (auto simp: ends_def sorted_append)
  from Cons.IH [OF this] Cons.prems show ?case by (simp add: ends_def)
qed simp

lemma one_class:
  assumes "comps V E = 1"
  shows "V \<times> V \<subseteq> conn E"
proof -
  obtain X where X: "V // on V (conn E) = {X}"
    using assms by (auto simp: comps_def card_1_singleton_iff)
  have "(a, b) \<in> conn E" if "a \<in> V" "b \<in> V" for a b
  proof -
    have "on V (conn E) `` {a} = X" "on V (conn E) `` {b} = X"
      using X that quotientI [of _ V "on V (conn E)"] by auto
    then have "(a, b) \<in> on V (conn E)"
      using that equiv_on_conn [of V E] eq_equiv_class_iff by metis
    then show ?thesis by (simp add: on_def)
  qed
  then show ?thesis by auto
qed

lemma uf_comps: "uf_inv s \<Longrightarrow> uf_same s = on (uf_nodes s) (conn E) \<Longrightarrow> uf_set_count s = comps (uf_nodes s) E"
  by (simp add: uf.classes_card comps_def)

lemma kruskal_loop_keeps:
  fixes uf :: "'v::len union_find"
  assumes "uf_inv uf" and "uf_same uf = on (uf_nodes uf) (conn (set (ends acc)))"
    and "set (ends es) \<subseteq> uf_nodes uf \<times> uf_nodes uf" and "keeps all acc"
    and "sorted (map me_weight (all @ es))" and "uf_set_count uf + length acc = n"
  shows "\<exists>acc'. kruskal_loop n uf acc es = Some acc' \<and> keeps (all @ es) acc' \<and>
    comps (uf_nodes uf) (set (ends acc')) + length acc' = n"
  using assms
proof (induction es arbitrary: uf acc all)
  case Nil
  then show ?case using uf_comps [OF Nil(1,2)] by simp
next
  case (Cons e es)
  let ?a = "me_from e" and ?b = "me_to e"
  have ab: "?a \<in> uf_nodes uf" "?b \<in> uf_nodes uf" using Cons.prems(3) by (simp_all add: ends_def)
  obtain t where t: "uf_unite uf ?a ?b = Some (Inr ((?a, ?b) \<notin> uf_same uf), t)" "uf_inv t"
      "uf_nodes t = uf_nodes uf" "uf_same t = join (uf_same uf) ?a ?b"
      "uf_set_count uf = uf_set_count t + (if (?a, ?b) \<in> uf_same uf then 0 else 1)"
    using uf.unite_ok [OF Cons.prems(1) ab] by auto
  have same: "uf_same t = on (uf_nodes t) (conn (insert (?a, ?b) (set (ends acc))))"
    using t(3,4) Cons.prems(2) ab by (simp add: join_on conn_insert)
  have es: "set (ends es) \<subseteq> uf_nodes t \<times> uf_nodes t" using Cons.prems(3) t(3) by (simp add: ends_def)
  show ?case
  proof (cases "(?a, ?b) \<in> uf_same uf")
    case True
    then have c: "(?a, ?b) \<in> conn (set (ends acc))" using Cons.prems(2) by (simp add: on_def)
    have "keeps (all @ [e]) acc"
      using Cons.prems(4,5) c by (intro keeps_reject) (auto simp: sorted_append)
    from Cons.IH [OF t(2) _ es this] same c Cons.prems(5,6) t True show ?thesis
      by (simp add: conn_absorb)
  next
    case False
    have k: "keeps (all @ [e]) (acc @ [e])" using Cons.prems(4) by (rule keeps_accept)
    have count: "uf_set_count t + length (acc @ [e]) = n" using t(5) False Cons.prems(6) by simp
    show ?thesis
    proof (cases "length (acc @ [e]) = n - 1")
      case True
      have c: "comps (uf_nodes t) (set (ends (acc @ [e]))) = uf_set_count t"
        using uf_comps [OF t(2) same] by simp
      with True count have "comps (uf_nodes t) (set (ends (acc @ [e]))) = 1" by simp
      then have "set (ends es) \<subseteq> conn (set (ends (acc @ [e])))" using one_class es by blast
      then have "keeps ((all @ [e]) @ es) (acc @ [e])"
        using Cons.prems(5) by (intro keeps_rest [OF k]) simp_all
      with t False True c count show ?thesis by simp
    next
      case more: False
      from Cons.IH [OF t(2) _ es k _ count] same t(1,3) False more Cons.prems(5) show ?thesis
        by simp
    qed
  qed
qed

lemma ends_collect: "ends (collect_edges g) = edge_pairs g"
  by (simp add: ends_def collect_edges_def edge_pairs_def map_concat o_def)

lemma kruskal_keeps:
  fixes g :: "('e::linorder, 'v::len) graph"
  assumes "graph_wf g" and "sorts_edges srt"
  shows "\<exists>acc. kruskal_mst srt g = Some acc \<and> keeps (srt (collect_edges g)) acc \<and>
    comps (vertex_set g) (set (ends acc)) + length acc = vertex_count g"
proof -
  let ?n = "vertex_count g" and ?es = "srt (collect_edges g)"
  have n: "?n \<le> 2 ^ LENGTH('v)" using assms(1) by (simp add: graph_wf_def)
  note fresh = uf_reset_fresh [OF n]
  have V: "uf_nodes (uf_reset ?n :: 'v union_find) = vertex_set g" by (simp add: fresh(2) vertex_set_def)
  have "set ?es = set (collect_edges g)"
    using assms(2) mset_eq_setD by (auto simp: sorts_edges_def)
  then have "set (ends ?es) = edge_rel g"
    using set_edge_pairs [OF assms(1)] arg_cong [OF ends_collect [of g], of set] by (simp add: ends_def)
  then have es: "set (ends ?es) \<subseteq> uf_nodes (uf_reset ?n :: 'v union_find) \<times> uf_nodes (uf_reset ?n)"
    using edge_rel_sub [OF assms(1)] V by simp
  have none: "uf_same (uf_reset ?n :: 'v union_find) = on (uf_nodes (uf_reset ?n)) (conn (set (ends [])))"
    by (auto simp: fresh ends_def on_def conn_def)
  have "keeps [] []" by (simp add: keeps_def)
  from kruskal_loop_keeps [OF fresh(1) none es this, of ?n] assms(2) V show ?thesis
    by (simp add: sorts_edges_def kruskal_mst_def uf_reset_def)
qed


subsection \<open>Properties\<close>

text \<open>C7: two vertices get the same label exactly when they are connected, the labels are
\<open>0 .. num_components - 1\<close>, and that number is the number of components.\<close>

theorem connected_components_correct:
  fixes g :: "('e, 'v::len) graph"
  assumes "graph_wf g"
  shows "\<exists>r. connected_components g = Some r \<and> length (cr_labels r) = vertex_count g \<and>
    cr_num_components r = comps (vertex_set g) (edge_rel g) \<and>
    set (cr_labels r) = of_nat ` {..<cr_num_components r} \<and>
    (\<forall>u \<in> vertex_set g. \<forall>v \<in> vertex_set g.
       cr_labels r ! unat u = cr_labels r ! unat v \<longleftrightarrow> (u, v) \<in> conn (edge_rel g))"
  using assms by (rule connected_components_ok)

lemma connected_components_correct_witness:
  "\<exists>r. connected_components (\<lparr>g_adjacency = [[\<lparr>ge_target = 1, ge_data = ()\<rparr>], [], []], g_edge_count = 1\<rparr>
      :: (unit, 8) graph) = Some r \<and> length (cr_labels r) = 3"
  using connected_components_correct [OF graph_two(1) [of "()"]] graph_two(2) [of "()"] by auto

text \<open>Kruskal's algorithm returns, whatever order the sort gives equal weights: its edges are
edges of the graph, at every weight threshold they connect what the graph's edges connect, and
there is one edge fewer than vertices for every component, so that they form a forest.\<close>

lemma kruskal_spanning_forest:
  assumes "graph_wf g" and "sorts_edges srt"
  shows "\<exists>tree. kruskal_mst srt g = Some tree \<and> mset tree \<subseteq># mset (collect_edges g) \<and>
    (\<forall>w. conn (set (ends (below w tree))) = conn (set (ends (below w (collect_edges g))))) \<and>
    conn (set (ends tree)) = conn (edge_rel g) \<and>
    length tree + comps (vertex_set g) (edge_rel g) = vertex_count g"
proof -
  obtain tree where t: "kruskal_mst srt g = Some tree" "keeps (srt (collect_edges g)) tree"
      "comps (vertex_set g) (set (ends tree)) + length tree = vertex_count g"
    using kruskal_keeps [OF assms] by blast
  have m: "mset (srt (collect_edges g)) = mset (collect_edges g)"
    using assms(2) by (simp add: sorts_edges_def)
  have s: "set (ends (below w (srt (collect_edges g)))) = set (ends (below w (collect_edges g)))" for w
    using mset_eq_setD [OF m] by (simp add: ends_def below_def)
  have all: "set (ends (srt (collect_edges g))) = edge_rel g"
    using mset_eq_setD [OF m] set_edge_pairs [OF assms(1)] arg_cong [OF ends_collect [of g], of set]
    by (simp add: ends_def)
  then have c: "conn (set (ends tree)) = conn (edge_rel g)" using keeps_all [OF t(2)] by simp
  then have "comps (vertex_set g) (set (ends tree)) = comps (vertex_set g) (edge_rel g)"
    by (simp add: comps_def)
  with t c m s show ?thesis by (simp add: keeps_def)
qed




end
