(* ===== verification/Handle_Queue.thy ===== *)
theory Handle_Queue
  imports Container_Error
begin

text \<open>
  What the users of a priority queue with handles rely on. The queue is a finite map
  from handles to values; \<open>pop\<close> yields a value that \<open>cmp\<close> puts before no other one. The
  client facts at the end are about the usual discipline: one entry per key at most,
  its handle kept in an array, \<open>invalid\<close> for none.
\<close>

definition put_key ::
    "('a \<Rightarrow> 'q \<Rightarrow> u32 \<times> 'q) \<Rightarrow> (u32 \<Rightarrow> 'a \<Rightarrow> 'q \<Rightarrow> (container_error + unit) \<times> 'q) \<Rightarrow> u32
     \<Rightarrow> nat \<Rightarrow> 'a \<Rightarrow> u32 list \<times> 'q \<Rightarrow> u32 list \<times> 'q" where
  "put_key push update invalid k x s =
     (case s of
        (hs, q) \<Rightarrow>
          if hs ! k \<noteq> invalid then (hs, snd (update (hs ! k) x q))
          else case push x q of (h, q') \<Rightarrow> (hs[k := h], q'))"

locale handle_queue =
  fixes inv :: "'q \<Rightarrow> bool"
    and amap :: "'q \<Rightarrow> u32 \<rightharpoonup> 'a"
    and cmp :: "'a \<Rightarrow> 'a \<Rightarrow> bool"
    and init :: 'q
    and is_empty :: "'q \<Rightarrow> bool"
    and push :: "'a \<Rightarrow> 'q \<Rightarrow> u32 \<times> 'q"
    and pop :: "'q \<Rightarrow> (container_error + 'a) \<times> 'q"
    and update :: "u32 \<Rightarrow> 'a \<Rightarrow> 'q \<Rightarrow> (container_error + unit) \<times> 'q"
    and invalid :: u32
    and limit :: nat
  assumes init_ok: "inv init" "amap init = Map.empty"
    and empty_iff: "inv q \<Longrightarrow> is_empty q \<longleftrightarrow> amap q = Map.empty"
    and invalid_fresh: "inv q \<Longrightarrow> amap q invalid = None"
    and push_ok: "inv q \<Longrightarrow> card (dom (amap q)) < limit \<Longrightarrow>
      \<exists>h q'. push x q = (h, q') \<and> inv q' \<and> amap q h = None \<and> amap q' = (amap q)(h \<mapsto> x)"
    and pop_ok: "inv q \<Longrightarrow> amap q \<noteq> Map.empty \<Longrightarrow>
      \<exists>h x q'. pop q = (Inr x, q') \<and> inv q' \<and> amap q h = Some x \<and>
        amap q' = (amap q)(h := None) \<and> (\<forall>y \<in> ran (amap q). \<not> cmp x y)"
    and update_ok: "inv q \<Longrightarrow> amap q h \<noteq> None \<Longrightarrow>
      \<exists>q'. update h x q = (Inr (), q') \<and> inv q' \<and> amap q' = (amap q)(h \<mapsto> x)"

text \<open>\<open>m\<close> gives the entry of every key; the array holds the handles of exactly these.\<close>

definition keyed ::
    "('q \<Rightarrow> u32 \<rightharpoonup> 'a) \<Rightarrow> u32 \<Rightarrow> u32 list \<Rightarrow> 'q \<Rightarrow> (nat \<rightharpoonup> 'a) \<Rightarrow> bool" where
  "keyed amap invalid hs q m \<longleftrightarrow>
     dom m \<subseteq> {..<length hs} \<and>
     (\<forall>k < length hs. (m k = None) = (hs ! k = invalid)) \<and>
     (\<forall>k \<in> dom m. amap q (hs ! k) = m k) \<and>
     inj_on (\<lambda>k. hs ! k) (dom m) \<and>
     dom (amap q) = (\<lambda>k. hs ! k) ` dom m"

lemma keyedD:
  assumes "keyed amap invalid hs q m"
  shows "dom m \<subseteq> {..<length hs}" and "k < length hs \<Longrightarrow> (m k = None) = (hs ! k = invalid)"
    and "k \<in> dom m \<Longrightarrow> amap q (hs ! k) = m k" and "inj_on (\<lambda>k. hs ! k) (dom m)"
    and "dom (amap q) = (\<lambda>k. hs ! k) ` dom m"
  using assms by (auto simp: keyed_def)

lemma keyed_ran: "keyed amap invalid hs q m \<Longrightarrow> ran (amap q) = ran m"
proof -
  assume k: "keyed amap invalid hs q m"
  note K = keyedD [OF k]
  have "y \<in> ran (amap q) \<longleftrightarrow> y \<in> ran m" for y
  proof
    assume "y \<in> ran (amap q)"
    then obtain h where h: "amap q h = Some y" by (auto simp: ran_def)
    then obtain i where "i \<in> dom m" "h = hs ! i" using K(5) by blast
    then show "y \<in> ran m" using K(3) h by (metis ranI)
  next
    assume "y \<in> ran m"
    then obtain i where "m i = Some y" by (auto simp: ran_def)
    then show "y \<in> ran (amap q)" using K(3) [of i] by (metis domI ranI)
  qed
  then show ?thesis by blast
qed

context handle_queue begin

lemma keyed_init: "keyed amap invalid (replicate n invalid) init Map.empty"
  by (simp add: keyed_def init_ok)

lemma keyed_empty: "inv q \<Longrightarrow> keyed amap invalid hs q m \<Longrightarrow> is_empty q \<longleftrightarrow> m = Map.empty"
  using keyedD(5) [of amap invalid hs q m] by (simp add: empty_iff) (metis dom_eq_empty_conv image_is_empty)

lemma put_key_ok:
  assumes "inv q" and "keyed amap invalid hs q m" and "k < length hs" and "length hs \<le> limit"
  shows "\<exists>hs' q'. put_key push update invalid k x (hs, q) = (hs', q') \<and> inv q' \<and>
    length hs' = length hs \<and> keyed amap invalid hs' q' (m(k \<mapsto> x))"
proof -
  note K = keyedD [OF assms(2)]
  show ?thesis
  proof (cases "hs ! k = invalid")
    case False
    then have km: "k \<in> dom m" using K(2) [OF assms(3)] by auto
    then have "amap q (hs ! k) \<noteq> None" using K(3) by auto
    from update_ok [OF assms(1) this] obtain q' where
      q': "update (hs ! k) x q = (Inr (), q')" "inv q'" "amap q' = (amap q)(hs ! k \<mapsto> x)" by blast
    have "keyed amap invalid hs q' (m(k \<mapsto> x))"
      unfolding keyed_def
    proof (intro conjI ballI allI impI)
      show "dom (m(k \<mapsto> x)) \<subseteq> {..<length hs}" using K(1) assms(3) by auto
      show "inj_on ((!) hs) (dom (m(k \<mapsto> x)))" using K(4) km by (simp add: insert_absorb)
      show "dom (amap q') = (!) hs ` dom (m(k \<mapsto> x))" using K(5) q'(3) by simp
      fix i assume "i < length hs"
      then show "((m(k \<mapsto> x)) i = None) = (hs ! i = invalid)" using K(2) False by auto
    next
      fix i assume "i \<in> dom (m(k \<mapsto> x))"
      then have i: "i \<in> dom m" using km by auto
      show "amap q' (hs ! i) = (m(k \<mapsto> x)) i"
        using K(3) [OF i] q'(3) inj_onD [OF K(4) _ i km] by auto
    qed
    with q' False show ?thesis by (simp add: put_key_def)
  next
    case True
    then have km: "k \<notin> dom m" using K(2) [OF assms(3)] by auto
    have "card (dom (amap q)) = card (dom m)" using K(4,5) by (simp add: card_image)
    also have "\<dots> < length hs"
    proof -
      have "dom m \<subset> {..<length hs}" using K(1) km assms(3) by auto
      then show ?thesis using psubset_card_mono [of "{..<length hs}" "dom m"] by simp
    qed
    finally have "card (dom (amap q)) < limit" using assms(4) by simp
    from push_ok [OF assms(1) this] obtain h q' where
      q': "push x q = (h, q')" "inv q'" "amap q h = None" "amap q' = (amap q)(h \<mapsto> x)" by blast
    have hv: "h \<noteq> invalid" using invalid_fresh [OF q'(2)] q'(4) by auto
    have old: "i \<in> dom m \<Longrightarrow> hs[k := h] ! i = hs ! i \<and> hs ! i \<noteq> h \<and> i \<noteq> k" for i
      using km K(3) [of i] q'(3) by (cases "i = k") auto
    have "keyed amap invalid (hs[k := h]) q' (m(k \<mapsto> x))"
      unfolding keyed_def
    proof (intro conjI ballI allI impI)
      show "dom (m(k \<mapsto> x)) \<subseteq> {..<length (hs[k := h])}" using K(1) assms(3) by auto
      show "inj_on ((!) (hs[k := h])) (dom (m(k \<mapsto> x)))"
        using K(4) old assms(3) by (auto simp: inj_on_def)
      show "dom (amap q') = (!) (hs[k := h]) ` dom (m(k \<mapsto> x))"
      proof -
        have "(!) (hs[k := h]) ` dom m = (!) hs ` dom m" using old by (intro image_cong) auto
        with K(5) q'(4) assms(3) show ?thesis by simp
      qed
      fix i assume "i < length (hs[k := h])"
      then show "((m(k \<mapsto> x)) i = None) = (hs[k := h] ! i = invalid)"
        using K(2) hv by (auto simp: nth_list_update)
    next
      fix i assume i: "i \<in> dom (m(k \<mapsto> x))"
      show "amap q' (hs[k := h] ! i) = (m(k \<mapsto> x)) i"
      proof (cases "i = k")
        case True
        with q'(4) assms(3) show ?thesis by simp
      next
        case False
        with i have "i \<in> dom m" by simp
        with old [of i] K(3) [of i] q'(4) show ?thesis by simp
      qed
    qed
    with q' True show ?thesis by (simp add: put_key_def)
  qed
qed

lemma pop_key_ok:
  assumes "inv q" and "keyed amap invalid hs q m" and "m \<noteq> Map.empty"
  shows "\<exists>k x q'. pop q = (Inr x, q') \<and> inv q' \<and> m k = Some x \<and> (\<forall>y \<in> ran m. \<not> cmp x y) \<and>
    keyed amap invalid (hs[k := invalid]) q' (m(k := None))"
proof -
  note K = keyedD [OF assms(2)]
  have "amap q \<noteq> Map.empty" using assms(3) K(5) by (metis dom_eq_empty_conv image_is_empty)
  from pop_ok [OF assms(1) this] obtain h x q' where
    q': "pop q = (Inr x, q')" "inv q'" "amap q h = Some x" "amap q' = (amap q)(h := None)"
      "\<forall>y \<in> ran (amap q). \<not> cmp x y" by blast
  obtain k where k: "k \<in> dom m" "h = hs ! k" using q'(3) K(5) by blast
  have old: "i \<in> dom m \<Longrightarrow> i \<noteq> k \<Longrightarrow> hs ! i \<noteq> h" for i
    using inj_onD [OF K(4)] k by blast
  have "keyed amap invalid (hs[k := invalid]) q' (m(k := None))"
    unfolding keyed_def
  proof (intro conjI ballI allI impI)
    show "dom (m(k := None)) \<subseteq> {..<length (hs[k := invalid])}" using K(1) by auto
    show "inj_on ((!) (hs[k := invalid])) (dom (m(k := None)))"
      using K(4) by (auto simp: inj_on_def)
    show "dom (amap q') = (!) (hs[k := invalid]) ` dom (m(k := None))"
    proof -
      have "(!) (hs[k := invalid]) ` dom (m(k := None)) = (!) hs ` (dom m - {k})"
        by (intro image_cong) auto
      also have "\<dots> = (!) hs ` dom m - {h}" using old k by auto
      finally show ?thesis using K(5) q'(4) by auto
    qed
    fix i assume "i < length (hs[k := invalid])"
    then show "((m(k := None)) i = None) = (hs[k := invalid] ! i = invalid)"
      using K(2) by (auto simp: nth_list_update)
  next
    fix i assume "i \<in> dom (m(k := None))"
    then have "i \<in> dom m" "i \<noteq> k" by auto
    with old K(3) q'(4) show "amap q' (hs[k := invalid] ! i) = (m(k := None)) i" by simp
  qed
  moreover have "m k = Some x" using K(3) [OF k(1)] k(2) q'(3) by simp
  ultimately show ?thesis using q' keyed_ran [OF assms(2)] by auto
qed

end

end
