(* ===== verification/Indexed_Priority_Queue.thy ===== *)
theory Indexed_Priority_Queue
  imports Handle_Queue
begin

text \<open>
  The binary heap with stable handles of \<open>container/indexed_priority_queue.hpp\<close>: a vector
  of entries in heap order, the position of every handle in it, and a list of handles to
  reuse. The comparison is an argument, as it is a template argument of the class; the
  top of the queue is an element that is not less than any other. The abstract view is
  the map from live handles to values.
\<close>

subsection \<open>The code\<close>

record 'a pq_entry =
  pe_value :: 'a
  pe_handle :: u32

record 'a ipq =
  pq_heap :: "'a pq_entry list"
  pq_position :: "nat list"
  pq_free_list :: "u32 list"

definition invalid_handle :: u32 where "invalid_handle = 0 - 1"

definition tombstone :: nat where "tombstone = 2 ^ 64 - 1"

definition ipq_init :: "'a ipq" where
  "ipq_init = \<lparr>pq_heap = [], pq_position = [], pq_free_list = []\<rparr>"

definition ipq_clear :: "'a ipq \<Rightarrow> 'a ipq" where
  "ipq_clear q = \<lparr>pq_heap = [], pq_position = [], pq_free_list = []\<rparr>"

definition allocate_handle :: "'a ipq \<Rightarrow> u32 \<times> 'a ipq" where
  "allocate_handle q =
     (if pq_free_list q \<noteq> [] then
        (last (pq_free_list q), q\<lparr>pq_free_list := butlast (pq_free_list q)\<rparr>)
      else (of_nat (length (pq_position q)), q\<lparr>pq_position := pq_position q @ [0]\<rparr>))"

definition release_handle :: "u32 \<Rightarrow> 'a ipq \<Rightarrow> 'a ipq" where
  "release_handle h q =
     q\<lparr>pq_position := (pq_position q)[unat h := tombstone], pq_free_list := pq_free_list q @ [h]\<rparr>"

definition cmp_heap :: "('a \<Rightarrow> 'a \<Rightarrow> bool) \<Rightarrow> 'a ipq \<Rightarrow> nat \<Rightarrow> nat \<Rightarrow> bool" where
  "cmp_heap cmp q i j = cmp (pe_value (pq_heap q ! i)) (pe_value (pq_heap q ! j))"

definition swap_nodes :: "nat \<Rightarrow> nat \<Rightarrow> 'a ipq \<Rightarrow> 'a ipq" where
  "swap_nodes i j q =
     (let heap = (pq_heap q)[i := pq_heap q ! j, j := pq_heap q ! i]
      in q\<lparr>pq_heap := heap,
           pq_position := (pq_position q)[unat (pe_handle (heap ! i)) := i, unat (pe_handle (heap ! j)) := j]\<rparr>)"

function sift_up :: "('a \<Rightarrow> 'a \<Rightarrow> bool) \<Rightarrow> nat \<Rightarrow> 'a ipq \<Rightarrow> 'a ipq" where
  "sift_up cmp i q =
     (if 0 < i then
        let parent = (i - 1) div 2
        in if cmp_heap cmp q parent i then sift_up cmp parent (swap_nodes parent i q) else q
      else q)"
  by pat_completeness auto
termination
  by (relation "measure (\<lambda>(_, i, _). i)") auto

definition best_child :: "('a \<Rightarrow> 'a \<Rightarrow> bool) \<Rightarrow> nat \<Rightarrow> 'a ipq \<Rightarrow> nat" where
  "best_child cmp i q =
     (let n = length (pq_heap q);
          left = 2 * i + 1;
          right = 2 * i + 2;
          best = (if left < n \<and> cmp_heap cmp q i left then left else i)
      in if right < n \<and> cmp_heap cmp q best right then right else best)"

lemma length_swap_nodes [simp]: "length (pq_heap (swap_nodes i j q)) = length (pq_heap q)"
  by (simp add: swap_nodes_def Let_def)

lemma best_child_cases:
  "best_child cmp i q = i \<or> i < best_child cmp i q \<and> best_child cmp i q < length (pq_heap q)"
  by (auto simp: best_child_def Let_def)

function sift_down :: "('a \<Rightarrow> 'a \<Rightarrow> bool) \<Rightarrow> nat \<Rightarrow> 'a ipq \<Rightarrow> 'a ipq" where
  "sift_down cmp i q =
     (let best = best_child cmp i q
      in if best = i then q else sift_down cmp best (swap_nodes i best q))"
  by pat_completeness auto
termination
  by (relation "measure (\<lambda>(_, i, q). length (pq_heap q) - i)")
    (use best_child_cases in \<open>fastforce+\<close>)

declare sift_up.simps [simp del] sift_down.simps [simp del]

definition valid_handle :: "'a ipq \<Rightarrow> u32 \<Rightarrow> bool" where
  "valid_handle q h = (unat h < length (pq_position q) \<and> pq_position q ! unat h \<noteq> tombstone)"

definition ipq_size :: "'a ipq \<Rightarrow> nat" where
  "ipq_size q = length (pq_heap q)"

definition ipq_empty :: "'a ipq \<Rightarrow> bool" where
  "ipq_empty q = (pq_heap q = [])"

definition ipq_push :: "('a \<Rightarrow> 'a \<Rightarrow> bool) \<Rightarrow> 'a \<Rightarrow> 'a ipq \<Rightarrow> u32 \<times> 'a ipq" where
  "ipq_push cmp v q =
     (case allocate_handle q of
        (h, q') \<Rightarrow>
          let pos = length (pq_heap q');
              q'' = q'\<lparr>pq_heap := pq_heap q' @ [\<lparr>pe_value = v, pe_handle = h\<rparr>],
                       pq_position := (pq_position q')[unat h := pos]\<rparr>
          in (h, sift_up cmp pos q''))"

definition ipq_pop :: "('a \<Rightarrow> 'a \<Rightarrow> bool) \<Rightarrow> 'a ipq \<Rightarrow> (container_error + 'a) \<times> 'a ipq" where
  "ipq_pop cmp q =
     (if pq_heap q = [] then (Inl Empty, q)
      else
        let v = pe_value (pq_heap q ! 0);
            old_handle = pe_handle (pq_heap q ! 0);
            last_index = length (pq_heap q) - 1;
            q' = (if last_index \<noteq> 0
                  then q\<lparr>pq_heap := (pq_heap q)[0 := pq_heap q ! last_index],
                         pq_position := (pq_position q)[unat (pe_handle (pq_heap q ! last_index)) := 0]\<rparr>
                  else q);
            q'' = release_handle old_handle (q'\<lparr>pq_heap := butlast (pq_heap q')\<rparr>)
        in (Inr v, if pq_heap q'' \<noteq> [] then sift_down cmp 0 q'' else q''))"

definition ipq_update ::
    "('a \<Rightarrow> 'a \<Rightarrow> bool) \<Rightarrow> u32 \<Rightarrow> 'a \<Rightarrow> 'a ipq \<Rightarrow> (container_error + unit) \<times> 'a ipq" where
  "ipq_update cmp h v q =
     (if \<not> valid_handle q h then (Inl Not_found, q)
      else
        let pos = pq_position q ! unat h;
            q' = q\<lparr>pq_heap := (pq_heap q)[pos := (pq_heap q ! pos)\<lparr>pe_value := v\<rparr>]\<rparr>
        in (Inr (), sift_down cmp pos (sift_up cmp pos q')))"

definition ipq_erase ::
    "('a \<Rightarrow> 'a \<Rightarrow> bool) \<Rightarrow> u32 \<Rightarrow> 'a ipq \<Rightarrow> (container_error + unit) \<times> 'a ipq" where
  "ipq_erase cmp h q =
     (if \<not> valid_handle q h then (Inl Not_found, q)
      else
        let pos = pq_position q ! unat h;
            last_index = length (pq_heap q) - 1;
            q' = (if pos \<noteq> last_index
                  then q\<lparr>pq_heap := (pq_heap q)[pos := pq_heap q ! last_index],
                         pq_position := (pq_position q)[unat (pe_handle (pq_heap q ! last_index)) := pos]\<rparr>
                  else q);
            q'' = release_handle h (q'\<lparr>pq_heap := butlast (pq_heap q')\<rparr>)
        in (Inr (), if pos < length (pq_heap q'') then sift_down cmp pos (sift_up cmp pos q'') else q''))"

definition ipq_top :: "'a ipq \<Rightarrow> 'a option" where
  "ipq_top q = (if pq_heap q = [] then None else Some (pe_value (pq_heap q ! 0)))"

definition ipq_top_handle :: "'a ipq \<Rightarrow> container_error + u32" where
  "ipq_top_handle q = (if pq_heap q = [] then Inl Empty else Inr (pe_handle (pq_heap q ! 0)))"

definition ipq_value_at :: "'a ipq \<Rightarrow> u32 \<Rightarrow> container_error + 'a" where
  "ipq_value_at q h =
     (if \<not> valid_handle q h then Inl Not_found
      else Inr (pe_value (pq_heap q ! (pq_position q ! unat h))))"

subsection \<open>Heap order, on lists of values\<close>

text \<open>\<open>ge p c\<close> is "the parent \<open>p\<close> is not less than the child \<open>c\<close>".\<close>

definition ok_at :: "('a \<Rightarrow> 'a \<Rightarrow> bool) \<Rightarrow> 'a list \<Rightarrow> nat \<Rightarrow> bool" where
  "ok_at ge xs i \<longleftrightarrow> (0 < i \<longrightarrow> i < length xs \<longrightarrow> ge (xs ! ((i - 1) div 2)) (xs ! i))"

definition heap_ok :: "('a \<Rightarrow> 'a \<Rightarrow> bool) \<Rightarrow> 'a list \<Rightarrow> bool" where
  "heap_ok ge xs \<longleftrightarrow> (\<forall>i. ok_at ge xs i)"

text \<open>Everything but the links of \<open>k\<close> is in order, and \<open>k\<close>'s children are below its parent.\<close>

definition hole_ok :: "('a \<Rightarrow> 'a \<Rightarrow> bool) \<Rightarrow> nat \<Rightarrow> 'a list \<Rightarrow> bool" where
  "hole_ok ge k xs \<longleftrightarrow>
     (\<forall>i. i \<noteq> k \<longrightarrow> (i - 1) div 2 \<noteq> k \<longrightarrow> ok_at ge xs i) \<and>
     (\<forall>c. 0 < c \<longrightarrow> c < length xs \<longrightarrow> (c - 1) div 2 = k \<longrightarrow> 0 < k \<longrightarrow> ge (xs ! ((k - 1) div 2)) (xs ! c))"

definition up_ok :: "('a \<Rightarrow> 'a \<Rightarrow> bool) \<Rightarrow> nat \<Rightarrow> 'a list \<Rightarrow> bool" where
  "up_ok ge k xs \<longleftrightarrow> hole_ok ge k xs \<and> (\<forall>i. i \<noteq> k \<longrightarrow> ok_at ge xs i)"

definition down_ok :: "('a \<Rightarrow> 'a \<Rightarrow> bool) \<Rightarrow> nat \<Rightarrow> 'a list \<Rightarrow> bool" where
  "down_ok ge k xs \<longleftrightarrow> hole_ok ge k xs \<and> ok_at ge xs k"

definition swapped :: "nat \<Rightarrow> nat \<Rightarrow> 'a list \<Rightarrow> 'a list" where
  "swapped i j xs = xs[i := xs ! j, j := xs ! i]"

definition total_preorder :: "('a \<Rightarrow> 'a \<Rightarrow> bool) \<Rightarrow> bool" where
  "total_preorder ge \<longleftrightarrow> (\<forall>x y. ge x y \<or> ge y x) \<and> (\<forall>x y z. ge x y \<longrightarrow> ge y z \<longrightarrow> ge x z)"

lemma total_preorderD:
  assumes "total_preorder ge"
  shows "\<not> ge x y \<Longrightarrow> ge y x" and "ge x y \<Longrightarrow> ge y z \<Longrightarrow> ge x z" and "ge x x"
  using assms by (auto simp: total_preorder_def)

lemma nth_swapped:
  "i < length xs \<Longrightarrow> j < length xs \<Longrightarrow>
   swapped i j xs ! k = (if k = j then xs ! i else if k = i then xs ! j else xs ! k)"
  by (auto simp: swapped_def nth_list_update)

lemma length_swapped [simp]: "length (swapped i j xs) = length xs"
  by (simp add: swapped_def)

lemma mset_swapped: "i < length xs \<Longrightarrow> j < length xs \<Longrightarrow> mset (swapped i j xs) = mset xs"
  by (simp add: swapped_def mset_swap)

lemma hole_ok_up:
  assumes "total_preorder ge" and "hole_ok ge k xs" and "0 < k" and "k < length xs"
    and "\<not> ge (xs ! ((k - 1) div 2)) (xs ! k)"
  shows "up_ok ge ((k - 1) div 2) (swapped ((k - 1) div 2) k xs)"
proof -
  let ?p = "(k - 1) div 2" and ?ys = "swapped ((k - 1) div 2) k xs"
  note tp = total_preorderD [OF assms(1)]
  have p: "?p < k" "?p < length xs" using assms(3,4) by auto
  note nth = nth_swapped [OF p(2) assms(4)]
  have ok: "0 < i \<Longrightarrow> i < length xs \<Longrightarrow> i \<noteq> k \<Longrightarrow> (i - 1) div 2 \<noteq> k \<Longrightarrow> ge (xs ! ((i - 1) div 2)) (xs ! i)" for i
    using assms(2) by (simp add: hole_ok_def ok_at_def)
  have grand: "0 < c \<Longrightarrow> c < length xs \<Longrightarrow> (c - 1) div 2 = k \<Longrightarrow> ge (xs ! ?p) (xs ! c)" for c
    using assms(2,3) by (simp add: hole_ok_def)
  have kp: "ge (xs ! k) (xs ! ?p)" using assms(5) tp(1) by blast
  have below: "ge (xs ! k) (xs ! c)" if "0 < c" "c < length xs" "(c - 1) div 2 = k" for c
    using kp grand [OF that] tp(2) by blast
  have parent_of: "(i - 1) div 2 = k \<Longrightarrow> i \<noteq> k" for i using assms(3) by auto
  have "ok_at ge ?ys i" if "i \<noteq> ?p" for i
    unfolding ok_at_def
  proof (intro impI)
    assume i: "0 < i" "i < length ?ys"
    consider "i = k" | "i \<noteq> k" "(i - 1) div 2 = k" | "i \<noteq> k" "(i - 1) div 2 \<noteq> k" by blast
    then show "ge (?ys ! ((i - 1) div 2)) (?ys ! i)"
    proof cases
      case 1
      with kp p show ?thesis unfolding nth by simp
    next
      case 2
      with grand [of i] i that p show ?thesis unfolding nth by simp
    next
      case 3
      then have "ge (xs ! ((i - 1) div 2)) (xs ! i)" using ok i by simp
      with 3 that tp(2) [OF kp] show ?thesis unfolding nth by auto
    qed
  qed
  moreover have "ge (?ys ! ((?p - 1) div 2)) (?ys ! c)"
    if c: "0 < c" "c < length ?ys" "(c - 1) div 2 = ?p" "0 < ?p" for c
  proof -
    have "(?p - 1) div 2 < ?p" using c(4) by simp
    then have pp: "?ys ! ((?p - 1) div 2) = xs ! ((?p - 1) div 2)" using p unfolding nth by simp
    have "(?p - 1) div 2 \<noteq> k" using p(1) by simp
    then have top: "ge (xs ! ((?p - 1) div 2)) (xs ! ?p)" using ok [of ?p] c(4) p by simp
    have "c \<noteq> ?p" "(c - 1) div 2 \<noteq> k" using c p(1) \<open>(?p - 1) div 2 < ?p\<close> by auto
    with top c ok [of c] tp(2) [OF top] show ?thesis
      unfolding pp unfolding nth by auto
  qed
  ultimately show ?thesis by (simp add: up_ok_def hole_ok_def)
qed

lemma up_ok_stop:
  "up_ok ge k xs \<Longrightarrow> \<not> (0 < k \<and> k < length xs) \<or> ge (xs ! ((k - 1) div 2)) (xs ! k) \<Longrightarrow> heap_ok ge xs"
  unfolding up_ok_def heap_ok_def ok_at_def by (metis)

lemma heap_ok_down:
  "total_preorder ge \<Longrightarrow> heap_ok ge xs \<Longrightarrow> down_ok ge k xs"
proof -
  assume tp: "total_preorder ge" and h: "heap_ok ge xs"
  have "ge (xs ! ((k - 1) div 2)) (xs ! c)" if "0 < c" "c < length xs" "(c - 1) div 2 = k" "0 < k" for c
  proof -
    have "k < length xs" using that by auto
    then have "ge (xs ! ((k - 1) div 2)) (xs ! k)" "ge (xs ! k) (xs ! c)"
      using h that by (auto simp: heap_ok_def ok_at_def)
    then show ?thesis using total_preorderD(2) [OF tp] by blast
  qed
  with h show ?thesis by (simp add: down_ok_def hole_ok_def heap_ok_def)
qed

lemma child_iff: "0 < c \<and> (c - 1) div 2 = k \<longleftrightarrow> c = 2 * k + 1 \<or> c = 2 * k + 2" for c :: nat
  by auto

lemma down_ok_step:
  assumes "total_preorder ge" and "down_ok ge k xs" and "0 < b" and "(b - 1) div 2 = k" and "b < length xs"
    and "\<not> ge (xs ! k) (xs ! b)"
    and "\<And>c. 0 < c \<Longrightarrow> c < length xs \<Longrightarrow> (c - 1) div 2 = k \<Longrightarrow> ge (xs ! b) (xs ! c)"
  shows "down_ok ge b (swapped k b xs)"
proof -
  let ?ys = "swapped k b xs"
  note tp = total_preorderD [OF assms(1)]
  have k: "k < b" "k < length xs" using assms(3-5) by auto
  note nth = nth_swapped [OF k(2) assms(5)]
  have ok: "0 < i \<Longrightarrow> i < length xs \<Longrightarrow> (i - 1) div 2 \<noteq> k \<Longrightarrow> ge (xs ! ((i - 1) div 2)) (xs ! i)" for i
    using assms(2) by (cases "i = k") (simp_all add: down_ok_def hole_ok_def ok_at_def)
  have grand: "0 < c \<Longrightarrow> c < length xs \<Longrightarrow> (c - 1) div 2 = k \<Longrightarrow> 0 < k \<Longrightarrow> ge (xs ! ((k - 1) div 2)) (xs ! c)" for c
    using assms(2) by (simp add: down_ok_def hole_ok_def)
  have bk: "ge (xs ! b) (xs ! k)" using assms(6) tp(1) by blast
  have ok': "ge (?ys ! ((i - 1) div 2)) (?ys ! i)"
    if i: "0 < i" "i < length xs" "(i - 1) div 2 \<noteq> b" for i
  proof -
    consider "i = b" | "i \<noteq> b" "(i - 1) div 2 = k" | "i = k" | "i \<noteq> b" "i \<noteq> k" "(i - 1) div 2 \<noteq> k" by blast
    then show ?thesis
    proof cases
      case 1
      with assms(4) bk k show ?thesis unfolding nth by simp
    next
      case 2
      then have "i \<noteq> k" using i(1) by auto
      with 2 i assms(7) [of i] show ?thesis unfolding nth by simp
    next
      case 3
      then have "(i - 1) div 2 \<noteq> k" using i(1) by auto
      with 3 i grand [of b] assms(3-5) k show ?thesis unfolding nth by auto
    next
      case 4
      with i ok [of i] show ?thesis unfolding nth by simp
    qed
  qed
  have "ge (?ys ! ((b - 1) div 2)) (?ys ! c)"
    if c: "0 < c" "c < length xs" "(c - 1) div 2 = b" for c
  proof -
    have "c \<noteq> b" "c \<noteq> k" "(c - 1) div 2 \<noteq> k" using c k by auto
    with c ok [of c] assms(4) k show ?thesis unfolding nth by simp
  qed
  with ok' show ?thesis
    using assms(3-5) k by (auto simp: down_ok_def hole_ok_def ok_at_def)
qed

lemma down_ok_stop:
  assumes "down_ok ge k xs"
    and "\<And>c. 0 < c \<Longrightarrow> c < length xs \<Longrightarrow> (c - 1) div 2 = k \<Longrightarrow> ge (xs ! k) (xs ! c)"
  shows "heap_ok ge xs"
  unfolding heap_ok_def
proof
  fix i show "ok_at ge xs i"
    using assms by (cases "(i - 1) div 2 = k"; cases "i = k") (auto simp: down_ok_def hole_ok_def ok_at_def)
qed

lemma heap_ok_top:
  assumes "total_preorder ge" and "heap_ok ge xs" and "i < length xs"
  shows "ge (xs ! 0) (xs ! i)"
  using assms(3)
proof (induction i rule: less_induct)
  case (less i)
  show ?case
  proof (cases "i = 0")
    case True
    then show ?thesis using total_preorderD(3) [OF assms(1)] by simp
  next
    case False
    then have "(i - 1) div 2 < i" by auto
    with less have "ge (xs ! 0) (xs ! ((i - 1) div 2))" by simp
    moreover have "ge (xs ! ((i - 1) div 2)) (xs ! i)"
      using assms(2) False less.prems by (simp add: heap_ok_def ok_at_def)
    ultimately show ?thesis using total_preorderD(2) [OF assms(1)] by blast
  qed
qed

lemma heap_ok_butlast: "heap_ok ge xs \<Longrightarrow> heap_ok ge (butlast xs)"
  unfolding heap_ok_def ok_at_def
  by (auto simp: nth_butlast)

text \<open>Replacing one value leaves a hole there.\<close>

lemma hole_ok_update:
  assumes "total_preorder ge" and "heap_ok ge xs"
  shows "hole_ok ge k (xs[k := x])"
proof (cases "k < length xs")
  case True
  note d = heap_ok_down [OF assms, of k]
  show ?thesis
    unfolding hole_ok_def
  proof (intro conjI allI impI)
    fix i assume "i \<noteq> k" "(i - 1) div 2 \<noteq> k"
    then show "ok_at ge (xs[k := x]) i"
      using assms(2) by (simp add: heap_ok_def ok_at_def)
  next
    fix c assume c: "0 < c" "c < length (xs[k := x])" "(c - 1) div 2 = k" "0 < k"
    then have "c \<noteq> k" "(k - 1) div 2 \<noteq> k" by auto
    then show "ge (xs[k := x] ! ((k - 1) div 2)) (xs[k := x] ! c)"
      using d c by (simp add: down_ok_def hole_ok_def)
  qed
next
  case False
  then show ?thesis using heap_ok_down [OF assms, of k] by (simp add: down_ok_def list_update_beyond)
qed

subsection \<open>The two sifts\<close>

definition vals :: "'a ipq \<Rightarrow> 'a list" where
  "vals q = map pe_value (pq_heap q)"

definition handles :: "'a ipq \<Rightarrow> u32 list" where
  "handles q = map pe_handle (pq_heap q)"

text \<open>Handles and positions are inverse to each other.\<close>

definition linked :: "'a ipq \<Rightarrow> bool" where
  "linked q \<longleftrightarrow> (\<forall>i < length (pq_heap q).
     unat (pe_handle (pq_heap q ! i)) < length (pq_position q) \<and>
     pq_position q ! unat (pe_handle (pq_heap q ! i)) = i)"

text \<open>What a sift keeps: the entries as a multiset, and everything about other handles.\<close>

definition same_entries :: "'a ipq \<Rightarrow> 'a ipq \<Rightarrow> bool" where
  "same_entries q q' \<longleftrightarrow> mset (pq_heap q') = mset (pq_heap q) \<and> linked q' \<and>
     length (pq_position q') = length (pq_position q) \<and> pq_free_list q' = pq_free_list q \<and>
     (\<forall>h. h \<notin> set (handles q) \<longrightarrow> pq_position q' ! unat h = pq_position q ! unat h)"

lemma same_entries_refl: "linked q \<Longrightarrow> same_entries q q"
  by (simp add: same_entries_def)

lemma same_entries_handles: "same_entries q q' \<Longrightarrow> set (handles q') = set (handles q)"
  unfolding same_entries_def handles_def by (metis mset_map set_mset_mset)

lemma same_entries_trans:
  "same_entries q q' \<Longrightarrow> same_entries q' q'' \<Longrightarrow> same_entries q q''"
  using same_entries_handles [of q q'] by (simp add: same_entries_def)

lemma linked_distinct:
  assumes "linked q" and "i < length (pq_heap q)" and "j < length (pq_heap q)"
    and "unat (pe_handle (pq_heap q ! i)) = unat (pe_handle (pq_heap q ! j))"
  shows "i = j"
  using assms by (metis linked_def)

lemma swap_nodes_entries:
  assumes "linked q" and "i < length (pq_heap q)" and "j < length (pq_heap q)" and "i \<noteq> j"
  shows "same_entries q (swap_nodes i j q)" and "vals (swap_nodes i j q) = swapped i j (vals q)"
proof -
  let ?e = "pq_heap q"
  have heap: "pq_heap (swap_nodes i j q) = swapped i j ?e"
    by (simp add: swap_nodes_def swapped_def Let_def)
  note nth = nth_swapped [OF assms(2,3)]
  have pos: "pq_position (swap_nodes i j q) =
      (pq_position q)[unat (pe_handle (?e ! j)) := i, unat (pe_handle (?e ! i)) := j]"
    using assms nth [of i] nth [of j] by (simp add: swap_nodes_def swapped_def Let_def)
  have ij: "unat (pe_handle (?e ! i)) < length (pq_position q)" "unat (pe_handle (?e ! j)) < length (pq_position q)"
    using assms(1-3) by (simp_all add: linked_def)
  have inj: "a < length ?e \<Longrightarrow> b < length ?e \<Longrightarrow> unat (pe_handle (?e ! a)) = unat (pe_handle (?e ! b)) \<longleftrightarrow> a = b" for a b
    using linked_distinct [OF assms(1)] by blast
  have "linked (swap_nodes i j q)"
    unfolding linked_def heap pos
  proof (intro allI impI)
    fix k assume "k < length (swapped i j ?e)"
    then have k: "k < length ?e" by simp
    show "unat (pe_handle (swapped i j ?e ! k)) < length ((pq_position q)[unat (pe_handle (?e ! j)) := i, unat (pe_handle (?e ! i)) := j]) \<and>
        (pq_position q)[unat (pe_handle (?e ! j)) := i, unat (pe_handle (?e ! i)) := j] ! unat (pe_handle (swapped i j ?e ! k)) = k"
      using k assms ij inj [OF assms(2,3)] inj [OF k assms(2)] inj [OF k assms(3)]
      by (auto simp: nth nth_list_update linked_def)
  qed
  moreover have "pq_position (swap_nodes i j q) ! unat h = pq_position q ! unat h" if "h \<notin> set (handles q)" for h
  proof -
    have "pe_handle (?e ! i) \<in> set (handles q)" "pe_handle (?e ! j) \<in> set (handles q)"
      using assms(2,3) by (simp_all add: handles_def)
    with that have "unat h \<noteq> unat (pe_handle (?e ! i))" "unat h \<noteq> unat (pe_handle (?e ! j))"
      using unsigned_word_eqI by metis+
    then show ?thesis by (simp add: pos)
  qed
  ultimately show "same_entries q (swap_nodes i j q)"
    using assms by (simp add: same_entries_def heap mset_swapped) (simp add: swap_nodes_def Let_def)
  show "vals (swap_nodes i j q) = swapped i j (vals q)"
    using assms by (simp add: vals_def heap swapped_def map_update)
qed

text \<open>The comparison is a strict weak order; \<open>ge_of\<close> is the order the heap keeps.\<close>

definition ge_of :: "('a \<Rightarrow> 'a \<Rightarrow> bool) \<Rightarrow> 'a \<Rightarrow> 'a \<Rightarrow> bool" where
  "ge_of cmp p c \<longleftrightarrow> \<not> cmp p c"

definition strict_weak :: "('a \<Rightarrow> 'a \<Rightarrow> bool) \<Rightarrow> bool" where
  "strict_weak cmp \<longleftrightarrow> total_preorder (ge_of cmp)"

lemma cmp_heap_vals:
  "i < length (pq_heap q) \<Longrightarrow> j < length (pq_heap q) \<Longrightarrow>
   cmp_heap cmp q i j \<longleftrightarrow> \<not> ge_of cmp (vals q ! i) (vals q ! j)"
  by (simp add: cmp_heap_def vals_def ge_of_def)

lemma length_vals [simp]: "length (vals q) = length (pq_heap q)"
  by (simp add: vals_def)


lemma sift_up_ok:
  assumes "strict_weak cmp" and "linked q" and "up_ok (ge_of cmp) i (vals q)" and "i < length (pq_heap q)"
  shows "same_entries q (sift_up cmp i q) \<and> heap_ok (ge_of cmp) (vals (sift_up cmp i q))"
  using assms(2-4)
proof (induction i arbitrary: q rule: less_induct)
  case (less i)
  let ?p = "(i - 1) div 2"
  have tp: "total_preorder (ge_of cmp)" using assms(1) by (simp add: strict_weak_def)
  show ?case
  proof (cases "0 < i \<and> cmp_heap cmp q ?p i")
    case False
    then have "sift_up cmp i q = q" by (subst sift_up.simps) (auto simp: Let_def)
    moreover have "\<not> (0 < i \<and> i < length (vals q)) \<or> ge_of cmp (vals q ! ?p) (vals q ! i)"
      using False cmp_heap_vals [of ?p q i cmp] less.prems(3) by auto
    then have "heap_ok (ge_of cmp) (vals q)" by (rule up_ok_stop [OF less.prems(2)])
    ultimately show ?thesis using less.prems(1) by (simp add: same_entries_refl)
  next
    case True
    then have p: "?p < i" "?p < length (pq_heap q)" "?p \<noteq> i" using less.prems(3) by auto
    note sw = swap_nodes_entries [OF less.prems(1) p(2) less.prems(3) p(3)]
    have "up_ok (ge_of cmp) ?p (vals (swap_nodes ?p i q))"
      unfolding sw(2) using True less.prems p cmp_heap_vals [of ?p q i cmp]
      by (intro hole_ok_up [OF tp]) (simp_all add: up_ok_def)
    moreover have "linked (swap_nodes ?p i q)" using sw(1) by (simp add: same_entries_def)
    ultimately have "same_entries (swap_nodes ?p i q) (sift_up cmp ?p (swap_nodes ?p i q)) \<and>
        heap_ok (ge_of cmp) (vals (sift_up cmp ?p (swap_nodes ?p i q)))"
      using less.IH [OF p(1)] p(2) by simp
    moreover have "sift_up cmp i q = sift_up cmp ?p (swap_nodes ?p i q)"
      using True by (subst sift_up.simps) (simp add: Let_def)
    ultimately show ?thesis using same_entries_trans [OF sw(1)] by simp
  qed
qed

lemma sift_up_hole:
  assumes "strict_weak cmp" and "linked q" and "hole_ok (ge_of cmp) i (vals q)" and "i < length (pq_heap q)"
  shows "same_entries q (sift_up cmp i q) \<and> down_ok (ge_of cmp) i (vals (sift_up cmp i q))"
proof -
  let ?p = "(i - 1) div 2"
  have tp: "total_preorder (ge_of cmp)" using assms(1) by (simp add: strict_weak_def)
  show ?thesis
  proof (cases "0 < i \<and> cmp_heap cmp q ?p i")
    case False
    then have "sift_up cmp i q = q" by (subst sift_up.simps) (auto simp: Let_def)
    moreover have "ok_at (ge_of cmp) (vals q) i"
      using False cmp_heap_vals [of ?p q i cmp] assms(4) by (auto simp: ok_at_def)
    ultimately show ?thesis using assms(2,3) by (simp add: same_entries_refl down_ok_def)
  next
    case True
    then have p: "?p < i" "?p < length (pq_heap q)" "?p \<noteq> i" using assms(4) by auto
    note sw = swap_nodes_entries [OF assms(2) p(2) assms(4) p(3)]
    have "up_ok (ge_of cmp) ?p (vals (swap_nodes ?p i q))"
      unfolding sw(2) using True assms p cmp_heap_vals [of ?p q i cmp]
      by (intro hole_ok_up [OF tp]) simp_all
    moreover have "linked (swap_nodes ?p i q)" using sw(1) by (simp add: same_entries_def)
    ultimately have s: "same_entries (swap_nodes ?p i q) (sift_up cmp ?p (swap_nodes ?p i q))"
        "heap_ok (ge_of cmp) (vals (sift_up cmp ?p (swap_nodes ?p i q)))"
      using sift_up_ok [OF assms(1), of "swap_nodes ?p i q" ?p] p(2) by simp_all
    moreover have "sift_up cmp i q = sift_up cmp ?p (swap_nodes ?p i q)"
      using True by (subst sift_up.simps) (simp add: Let_def)
    ultimately show ?thesis using same_entries_trans [OF sw(1)] heap_ok_down [OF tp] by simp
  qed
qed

lemma best_child_spec:
  assumes "strict_weak cmp" and "k < length (pq_heap q)"
  defines "b \<equiv> best_child cmp k q" and "xs \<equiv> vals q"
  shows "b \<noteq> k \<Longrightarrow> 0 < b \<and> (b - 1) div 2 = k \<and> b < length xs \<and> \<not> ge_of cmp (xs ! k) (xs ! b)"
    and "0 < c \<Longrightarrow> c < length xs \<Longrightarrow> (c - 1) div 2 = k \<Longrightarrow> ge_of cmp (xs ! b) (xs ! c)"
proof -
  let ?n = "length xs" and ?l = "2 * k + 1" and ?r = "2 * k + 2"
  note tp = total_preorderD [OF assms(1) [unfolded strict_weak_def]]
  let ?ge = "ge_of cmp"
  define bl where "bl = (if ?l < ?n \<and> \<not> ?ge (xs ! k) (xs ! ?l) then ?l else k)"
  have b: "b = (if ?r < ?n \<and> \<not> ?ge (xs ! bl) (xs ! ?r) then ?r else bl)"
    using assms(2) cmp_heap_vals [of k q ?l cmp] cmp_heap_vals [of k q ?r cmp] cmp_heap_vals [of ?l q ?r cmp]
    by (cases "?l < ?n"; cases "?r < ?n") (auto simp: b_def best_child_def Let_def xs_def bl_def)
  have l: "?l < ?n \<Longrightarrow> ?ge (xs ! bl) (xs ! ?l)"
    using tp(3) by (auto simp: bl_def)
  have lk: "?ge (xs ! bl) (xs ! k)"
    using tp(1,3) by (auto simp: bl_def)
  show "b \<noteq> k \<Longrightarrow> 0 < b \<and> (b - 1) div 2 = k \<and> b < length xs \<and> \<not> ?ge (xs ! k) (xs ! b)"
  proof -
    assume neq: "b \<noteq> k"
    show ?thesis
    proof (cases "?r < ?n \<and> \<not> ?ge (xs ! bl) (xs ! ?r)")
      case True
      then have "\<not> ?ge (xs ! k) (xs ! ?r)" using lk tp(2) by blast
      with True b show ?thesis by simp
    next
      case False
      then have "b = bl" using b by auto
      with neq show ?thesis by (auto simp: bl_def split: if_splits)
    qed
  qed
  show "?ge (xs ! b) (xs ! c)" if c: "0 < c" "c < length xs" "(c - 1) div 2 = k"
  proof -
    have "c = ?l \<or> c = ?r" using child_iff [of c k] c by blast
    then show ?thesis
    proof
      assume "c = ?l"
      with c l have "?ge (xs ! bl) (xs ! c)" by auto
      moreover have "?ge (xs ! b) (xs ! bl)"
        using b tp(1) [of "xs ! bl" "xs ! ?r"] tp(3) by (cases "?r < ?n \<and> \<not> ?ge (xs ! bl) (xs ! ?r)") auto
      ultimately show ?thesis using tp(2) by blast
    next
      assume "c = ?r"
      with c b show ?thesis using tp(3) by auto
    qed
  qed
qed

lemma sift_down_ok:
  assumes "strict_weak cmp" and "linked q" and "down_ok (ge_of cmp) k (vals q)" and "k < length (pq_heap q)"
  shows "same_entries q (sift_down cmp k q) \<and> heap_ok (ge_of cmp) (vals (sift_down cmp k q))"
  using assms(2-4)
proof (induction "length (pq_heap q) - k" arbitrary: k q rule: less_induct)
  case less
  have tp: "total_preorder (ge_of cmp)" using assms(1) by (simp add: strict_weak_def)
  let ?b = "best_child cmp k q"
  note best = best_child_spec [OF assms(1) less.prems(3)]
  show ?case
  proof (cases "?b = k")
    case True
    then have "sift_down cmp k q = q" by (subst sift_down.simps) simp
    moreover have "heap_ok (ge_of cmp) (vals q)"
      using down_ok_stop [OF less.prems(2)] best(2) True by simp
    ultimately show ?thesis using less.prems(1) by (simp add: same_entries_refl)
  next
    case False
    note b = best(1) [OF False]
    then have lt: "k < ?b" "?b < length (pq_heap q)" by auto
    note sw = swap_nodes_entries [OF less.prems(1,3) lt(2), OF less_imp_neq [OF lt(1)]]
    have "down_ok (ge_of cmp) ?b (vals (swap_nodes k ?b q))"
      unfolding sw(2) using b best(2) by (intro down_ok_step [OF tp less.prems(2)]) auto
    moreover have "linked (swap_nodes k ?b q)" using sw(1) by (simp add: same_entries_def)
    ultimately have "same_entries (swap_nodes k ?b q) (sift_down cmp ?b (swap_nodes k ?b q)) \<and>
        heap_ok (ge_of cmp) (vals (sift_down cmp ?b (swap_nodes k ?b q)))"
      using less.hyps [of "swap_nodes k ?b q" ?b] lt by simp
    moreover have "sift_down cmp k q = sift_down cmp ?b (swap_nodes k ?b q)"
      using False by (subst sift_down.simps) (simp add: Let_def)
    ultimately show ?thesis using same_entries_trans [OF sw(1)] by simp
  qed
qed

subsection \<open>The queue as a map from handles to values\<close>

definition amap :: "'a ipq \<Rightarrow> u32 \<rightharpoonup> 'a" where
  "amap q = map_of (map (\<lambda>e. (pe_handle e, pe_value e)) (pq_heap q))"

definition ipq_base :: "'a ipq \<Rightarrow> bool" where
  "ipq_base q \<longleftrightarrow> linked q \<and> length (pq_position q) < 2 ^ 32 \<and>
     (\<forall>h. unat h < length (pq_position q) \<longrightarrow>
        (pq_position q ! unat h \<noteq> tombstone) = (h \<in> set (handles q))) \<and>
     distinct (pq_free_list q) \<and>
     set (pq_free_list q) = {h. unat h < length (pq_position q) \<and> h \<notin> set (handles q)}"

definition ipq_inv :: "('a \<Rightarrow> 'a \<Rightarrow> bool) \<Rightarrow> 'a ipq \<Rightarrow> bool" where
  "ipq_inv cmp q \<longleftrightarrow> ipq_base q \<and> heap_ok (ge_of cmp) (vals q)"

lemma linked_distinct_handles: "linked q \<Longrightarrow> distinct (handles q)"
  using linked_distinct by (fastforce simp: handles_def distinct_conv_nth)

lemma handles_below: "linked q \<Longrightarrow> h \<in> set (handles q) \<Longrightarrow> unat h < length (pq_position q)"
  by (auto simp: handles_def linked_def in_set_conv_nth)

lemma entry_eta: "\<lparr>pe_value = pe_value e, pe_handle = pe_handle e\<rparr> = e"
  by (cases e) simp

lemma amap_Some:
  assumes "linked q"
  shows "amap q h = Some v \<longleftrightarrow> \<lparr>pe_value = v, pe_handle = h\<rparr> \<in> set (pq_heap q)"
proof -
  have "distinct (map fst (map (\<lambda>e. (pe_handle e, pe_value e)) (pq_heap q)))"
    using linked_distinct_handles [OF assms] by (simp add: handles_def o_def)
  then have "amap q h = Some v \<longleftrightarrow> (\<exists>e \<in> set (pq_heap q). pe_handle e = h \<and> pe_value e = v)"
    unfolding amap_def by (subst map_of_eq_Some_iff) auto
  also have "\<dots> \<longleftrightarrow> \<lparr>pe_value = v, pe_handle = h\<rparr> \<in> set (pq_heap q)"
    by (metis entry_eta pq_entry.select_convs(1,2))
  finally show ?thesis .
qed

lemma handles_small: "linked q \<Longrightarrow> length (pq_heap q) < tombstone"
proof -
  assume "linked q"
  then have "length (pq_heap q) = card (set (handles q))"
    using linked_distinct_handles by (metis distinct_card handles_def length_map)
  also have "\<dots> \<le> card (UNIV :: u32 set)" by (rule card_mono) auto
  also have "\<dots> < tombstone" by (simp add: tombstone_def card_word)
  finally show ?thesis .
qed

lemma dom_amap: "dom (amap q) = set (handles q)"
  by (auto simp: amap_def dom_map_of_conv_image_fst handles_def image_image)

lemma base_same:
  assumes "ipq_base q" and "same_entries q q'"
  shows "ipq_base q'" and "amap q' = amap q" and "length (pq_heap q') = length (pq_heap q)"
proof -
  have m: "mset (pq_heap q') = mset (pq_heap q)" "linked q'" "linked q"
    using assms by (simp_all add: same_entries_def ipq_base_def)
  show "length (pq_heap q') = length (pq_heap q)" using m(1) by (rule mset_eq_length)
  show "amap q' = amap q"
  proof
    fix h show "amap q' h = amap q h"
      using amap_Some [OF m(2), of h] amap_Some [OF m(3), of h] mset_eq_setD [OF m(1)]
      by (metis not_None_eq)
  qed
  have hs: "set (handles q') = set (handles q)" using same_entries_handles [OF assms(2)] .
  have eq: "length (pq_position q') = length (pq_position q)" "pq_free_list q' = pq_free_list q"
      "\<And>h. h \<notin> set (handles q) \<Longrightarrow> pq_position q' ! unat h = pq_position q ! unat h"
    using assms(2) by (simp_all add: same_entries_def)
  have small: "length (pq_heap q') < tombstone" using m(2) by (rule handles_small)
  have "(pq_position q' ! unat h \<noteq> tombstone) = (h \<in> set (handles q'))"
    if "unat h < length (pq_position q')" for h
  proof (cases "h \<in> set (handles q')")
    case True
    then obtain i where "i < length (pq_heap q')" "h = pe_handle (pq_heap q' ! i)"
      by (auto simp: handles_def in_set_conv_nth)
    with m(2) small True show ?thesis by (auto simp: linked_def)
  next
    case False
    with assms(1) that eq hs show ?thesis by (auto simp: ipq_base_def)
  qed
  with assms(1) m(2) eq hs show "ipq_base q'" by (auto simp: ipq_base_def)
qed

lemma ipq_init_inv: "ipq_inv cmp ipq_init" "amap ipq_init = Map.empty"
  by (simp_all add: ipq_inv_def ipq_base_def ipq_init_def linked_def handles_def vals_def heap_ok_def
      ok_at_def amap_def)

lemma valid_handle_iff: "ipq_base q \<Longrightarrow> valid_handle q h \<longleftrightarrow> h \<in> dom (amap q)"
  using handles_below [of q h] by (auto simp: valid_handle_def dom_amap ipq_base_def)

lemma position_entry:
  assumes "ipq_base q" and "h \<in> set (handles q)"
  shows "pq_position q ! unat h < length (pq_heap q)"
    and "pe_handle (pq_heap q ! (pq_position q ! unat h)) = h"
proof -
  obtain i where "i < length (pq_heap q)" "h = pe_handle (pq_heap q ! i)"
    using assms(2) by (auto simp: handles_def in_set_conv_nth)
  with assms(1) show "pq_position q ! unat h < length (pq_heap q)"
    and "pe_handle (pq_heap q ! (pq_position q ! unat h)) = h"
    by (auto simp: ipq_base_def linked_def)
qed

subsection \<open>Push\<close>

definition append_entry :: "u32 \<Rightarrow> 'a \<Rightarrow> 'a ipq \<Rightarrow> 'a ipq" where
  "append_entry h v q =
     q\<lparr>pq_heap := pq_heap q @ [\<lparr>pe_value = v, pe_handle = h\<rparr>],
       pq_position := (pq_position q)[unat h := length (pq_heap q)]\<rparr>"

lemma allocate_ok:
  assumes "ipq_base q" and "card (dom (amap q)) < 2 ^ 32 - 1" and "allocate_handle q = (h, q')"
  shows "h \<notin> set (handles q)" and "unat h < length (pq_position q')" and "ipq_base (append_entry h v q')"
    and "pq_heap q' = pq_heap q"
proof -
  note b = assms(1) [unfolded ipq_base_def]
  have alloc: "h \<notin> set (handles q) \<and> unat h < length (pq_position q') \<and> length (pq_position q') < 2 ^ 32 \<and>
      pq_heap q' = pq_heap q \<and> distinct (pq_free_list q') \<and>
      set (pq_free_list q') = {x. unat x < length (pq_position q') \<and> x \<notin> set (handles q) \<and> x \<noteq> h} \<and>
      length (pq_position q) \<le> length (pq_position q') \<and>
      (\<forall>x. x \<noteq> h \<longrightarrow> unat x < length (pq_position q') \<longrightarrow>
         unat x < length (pq_position q) \<and> pq_position q' ! unat x = pq_position q ! unat x)"
  proof (cases "pq_free_list q = []")
    case False
    then obtain fl where fl: "pq_free_list q = fl @ [last (pq_free_list q)]"
      by (metis append_butlast_last_id)
    have hq: "h = last (pq_free_list q)" "q' = q\<lparr>pq_free_list := butlast (pq_free_list q)\<rparr>"
      using assms(3) False by (simp_all add: allocate_handle_def)
    have fl': "butlast (pq_free_list q) = fl" using fl by (metis butlast_snoc)
    have fl2: "pq_free_list q = fl @ [h]" using fl hq(1) by simp
    then have "distinct fl" "h \<notin> set fl" "set (pq_free_list q) = insert h (set fl)"
      using b by auto
    with b hq fl' show ?thesis by auto
  next
    case True
    have hq: "h = of_nat (length (pq_position q))" "q' = q\<lparr>pq_position := pq_position q @ [0]\<rparr>"
      using assms(3) True by (simp_all add: allocate_handle_def)
    have "{x. unat x < length (pq_position q)} \<subseteq> set (handles q)"
      using b True by auto
    then have "{x. unat x < length (pq_position q)} = dom (amap q)"
      using b handles_below [of q] by (auto simp: dom_amap)
    then have len: "length (pq_position q) < 2 ^ 32 - 1"
      using assms(2) b card_words_below [of "length (pq_position q)", where ?'i = 32] by simp
    then have uh: "unat h = length (pq_position q)" by (simp add: hq(1) unat_of_nat_less)
    have less: "unat x < length (pq_position q) + 1 \<longleftrightarrow> x = h \<or> unat x < length (pq_position q)" for x :: u32
      using uh unsigned_word_eqI [of x h, where ?'a = nat] by (auto simp: less_Suc_eq)
    have "h \<notin> set (handles q)" using handles_below [of q h] b uh by auto
    with b hq(2) len uh less True show ?thesis by (auto simp: nth_append)
  qed
  then show "h \<notin> set (handles q)" "unat h < length (pq_position q')" "pq_heap q' = pq_heap q" by auto
  from alloc have A: "h \<notin> set (handles q)" "unat h < length (pq_position q')" "length (pq_position q') < 2 ^ 32"
      "pq_heap q' = pq_heap q" "distinct (pq_free_list q')"
      "set (pq_free_list q') = {x. unat x < length (pq_position q') \<and> x \<notin> set (handles q) \<and> x \<noteq> h}"
      "length (pq_position q) \<le> length (pq_position q')"
      "\<And>x. x \<noteq> h \<Longrightarrow> unat x < length (pq_position q') \<Longrightarrow>
         unat x < length (pq_position q) \<and> pq_position q' ! unat x = pq_position q ! unat x"
    by blast+
  let ?a = "append_entry h v q'"
  have hs: "handles ?a = handles q @ [h]"
    using A(4) by (simp add: handles_def append_entry_def)
  have pos: "pq_position ?a ! unat x = (if x = h then length (pq_heap q) else pq_position q ! unat x)"
    if "unat x < length (pq_position q')" for x
    using A(2,4,8) that by (simp add: append_entry_def nth_list_update_word)
  have len: "length (pq_position ?a) = length (pq_position q')" by (simp add: append_entry_def)
  have "linked ?a"
    unfolding linked_def
  proof (intro allI impI)
    fix i assume i: "i < length (pq_heap ?a)"
    let ?x = "pe_handle (pq_heap ?a ! i)"
    show "unat ?x < length (pq_position ?a) \<and> pq_position ?a ! unat ?x = i"
    proof (cases "i = length (pq_heap q)")
      case True
      with A(2,4) show ?thesis by (simp add: append_entry_def)
    next
      case False
      then have j: "i < length (pq_heap q)" using i A(4) by (simp add: append_entry_def)
      then have x: "?x = pe_handle (pq_heap q ! i)" using A(4) by (simp add: append_entry_def nth_append)
      then have "?x \<in> set (handles q)" using j by (simp add: handles_def)
      then have "?x \<noteq> h" "unat ?x < length (pq_position q')"
        using A(1,7) handles_below [of q ?x] b by auto
      with b j x show ?thesis by (auto simp: pos len linked_def)
    qed
  qed
  moreover have "(pq_position ?a ! unat x \<noteq> tombstone) = (x \<in> set (handles ?a))"
    if "unat x < length (pq_position ?a)" for x
    using that A(8) [of x] b handles_small [of q] by (auto simp: pos len hs)
  ultimately show "ipq_base ?a"
    using A hs by (auto simp: ipq_base_def append_entry_def)
qed

lemma append_entry_amap:
  assumes "h \<notin> set (handles q)" and "pq_heap q' = pq_heap q" and "linked q" and "linked (append_entry h v q')"
  shows "amap (append_entry h v q') = (amap q)(h \<mapsto> v)"
proof
  fix x show "amap (append_entry h v q') x = ((amap q)(h \<mapsto> v)) x"
  proof (cases "x = h")
    case True
    have "amap (append_entry h v q') h = Some v"
      unfolding amap_Some [OF assms(4)] by (simp add: append_entry_def)
    with True show ?thesis by simp
  next
    case False
    have "amap (append_entry h v q') x = Some w \<longleftrightarrow> amap q x = Some w" for w
      unfolding amap_Some [OF assms(4)] amap_Some [OF assms(3)]
      using False assms(2) by (auto simp: append_entry_def)
    with False show ?thesis by (metis fun_upd_other not_None_eq)
  qed
qed

lemma up_ok_append:
  "heap_ok ge xs \<Longrightarrow> up_ok ge (length xs) (xs @ [x])"
  unfolding up_ok_def hole_ok_def heap_ok_def ok_at_def by (auto simp: nth_append)

lemma ipq_push_ok:
  assumes "strict_weak cmp" and "ipq_inv cmp q" and "card (dom (amap q)) < 2 ^ 32 - 1"
  shows "\<exists>h q'. ipq_push cmp v q = (h, q') \<and> ipq_inv cmp q' \<and> h \<notin> dom (amap q) \<and>
    amap q' = (amap q)(h \<mapsto> v) \<and> ipq_size q' = Suc (ipq_size q)"
proof -
  obtain h q1 where al: "allocate_handle q = (h, q1)" by (cases "allocate_handle q")
  have b: "ipq_base q" "linked q" using assms(2) by (simp_all add: ipq_inv_def ipq_base_def)
  note ok = allocate_ok [OF b(1) assms(3) al]
  let ?a = "append_entry h v q1"
  have la: "linked ?a" using ok(3) [of v] by (simp add: ipq_base_def)
  have "vals ?a = vals q @ [v]" using ok(4) by (simp add: vals_def append_entry_def)
  then have "up_ok (ge_of cmp) (length (pq_heap q)) (vals ?a)"
    using up_ok_append [of "ge_of cmp" "vals q"] assms(2) by (simp add: ipq_inv_def)
  then have s: "same_entries ?a (sift_up cmp (length (pq_heap q)) ?a)"
      "heap_ok (ge_of cmp) (vals (sift_up cmp (length (pq_heap q)) ?a))"
    using sift_up_ok [OF assms(1) la] ok(4) by (simp_all add: append_entry_def)
  note bs = base_same [OF ok(3) s(1)]
  have "ipq_push cmp v q = (h, sift_up cmp (length (pq_heap q)) ?a)"
    using al ok(4) by (simp add: ipq_push_def append_entry_def Let_def)
  moreover have "amap ?a = (amap q)(h \<mapsto> v)"
    using ok(1,4) b(2) la by (rule append_entry_amap)
  ultimately show ?thesis
    using bs s(2) ok(1,4) by (auto simp: ipq_inv_def dom_amap ipq_size_def append_entry_def)
qed

subsection \<open>Removing an entry\<close>

definition remove_at :: "nat \<Rightarrow> 'a ipq \<Rightarrow> 'a ipq" where
  "remove_at pos q =
     (let last_index = length (pq_heap q) - 1;
          q' = (if pos \<noteq> last_index
                then q\<lparr>pq_heap := (pq_heap q)[pos := pq_heap q ! last_index],
                       pq_position := (pq_position q)[unat (pe_handle (pq_heap q ! last_index)) := pos]\<rparr>
                else q)
      in release_handle (pe_handle (pq_heap q ! pos)) (q'\<lparr>pq_heap := butlast (pq_heap q')\<rparr>))"

lemma remove_at_heap:
  assumes "pos < length (pq_heap q)"
  shows "pq_heap (remove_at pos q) = swap_remove pos (pq_heap q)"
proof (cases "pos = length (pq_heap q) - 1")
  case True
  then have "(pq_heap q)[pos := last (pq_heap q)] = pq_heap q"
    using assms by (metis last_conv_nth length_0_conv list_update_id not_less_zero)
  with True show ?thesis by (simp add: remove_at_def swap_remove_def release_handle_def Let_def)
next
  case False
  then show ?thesis
    using assms
    by (cases "pq_heap q = []") (simp_all add: remove_at_def swap_remove_def release_handle_def last_conv_nth Let_def)
qed

lemma remove_at_fields:
  assumes "pos < length (pq_heap q)" and "linked q"
  shows "pq_free_list (remove_at pos q) = pq_free_list q @ [pe_handle (pq_heap q ! pos)]"
    and "length (pq_position (remove_at pos q)) = length (pq_position q)"
    and "unat x < length (pq_position q) \<Longrightarrow> pq_position (remove_at pos q) ! unat x =
      (if x = pe_handle (pq_heap q ! pos) then tombstone
       else if x = pe_handle (last (pq_heap q)) then pos else pq_position q ! unat x)"
proof -
  let ?last = "length (pq_heap q) - 1"
  have last: "last (pq_heap q) = pq_heap q ! ?last" using assms(1) by (cases "pq_heap q = []") (simp_all add: last_conv_nth)
  show "pq_free_list (remove_at pos q) = pq_free_list q @ [pe_handle (pq_heap q ! pos)]"
    and "length (pq_position (remove_at pos q)) = length (pq_position q)"
    by (simp_all add: remove_at_def release_handle_def Let_def)
  have pos: "unat (pe_handle (pq_heap q ! ?last)) < length (pq_position q)"
      "pq_position q ! unat (pe_handle (pq_heap q ! ?last)) = ?last"
    using assms by (auto simp: linked_def)
  show "pq_position (remove_at pos q) ! unat x =
      (if x = pe_handle (pq_heap q ! pos) then tombstone
       else if x = pe_handle (last (pq_heap q)) then pos else pq_position q ! unat x)"
    if "unat x < length (pq_position q)"
    using that pos by (auto simp: remove_at_def release_handle_def Let_def last nth_list_update_word)
qed

lemma remove_at_ok:
  assumes "ipq_base q" and "pos < length (pq_heap q)"
  shows "ipq_base (remove_at pos q)" and "amap (remove_at pos q) = (amap q)(pe_handle (pq_heap q ! pos) := None)"
    and "vals (remove_at pos q) = butlast ((vals q)[pos := last (vals q)])"
proof -
  let ?h = "pe_handle (pq_heap q ! pos)" and ?r = "remove_at pos q"
  have l: "linked q" using assms(1) by (simp add: ipq_base_def)
  note heap = remove_at_heap [OF assms(2)] and flds = remove_at_fields [OF assms(2) l]
  have d: "distinct (map pe_handle (pq_heap q))" using linked_distinct_handles [OF l] by (simp add: handles_def)
  note sr = set_swap_remove [OF assms(2) d]
  have ne: "pq_heap q \<noteq> []" using assms(2) by auto
  have hs: "set (handles ?r) = set (handles q) - {?h}"
    using sr(1) by (auto simp: handles_def heap)
  have h: "?h \<in> set (handles q)" using assms(2) by (simp add: handles_def)
  have lr: "linked ?r"
    unfolding linked_def
  proof (intro allI impI)
    fix i assume "i < length (pq_heap ?r)"
    then have i: "i < length (pq_heap q) - 1" using assms(2) by (simp add: heap)
    let ?x = "pe_handle (pq_heap ?r ! i)"
    have x: "pq_heap ?r ! i = (if i = pos then last (pq_heap q) else pq_heap q ! i)"
      using i assms(2) by (simp add: heap swap_remove_def nth_butlast)
    have "?x \<in> set (handles ?r)" using i assms(2) by (simp add: handles_def heap)
    then have xh: "?x \<in> set (handles q)" "?x \<noteq> ?h" using hs by auto
    have ux: "unat ?x < length (pq_position q)" using handles_below [OF l xh(1)] .
    have "i \<noteq> pos \<Longrightarrow> ?x \<noteq> pe_handle (last (pq_heap q))"
      using x i d ne by (auto simp: last_conv_nth distinct_conv_nth)
    moreover have "pq_position q ! unat (pe_handle (pq_heap q ! i)) = i"
      using l i by (simp add: linked_def)
    ultimately show "unat ?x < length (pq_position ?r) \<and> pq_position ?r ! unat ?x = i"
      using ux xh(2) x by (auto simp: flds)
  qed
  have small: "length (pq_heap q) < tombstone" using handles_small [OF l] .
  show "ipq_base ?r"
    unfolding ipq_base_def
  proof (intro conjI allI impI lr)
    show "length (pq_position ?r) < 2 ^ 32" using assms(1) by (simp add: flds ipq_base_def)
    fix x :: u32 assume "unat x < length (pq_position ?r)"
    then have ux: "unat x < length (pq_position q)" by (simp add: flds)
    have "last (pq_heap q) \<in> set (pq_heap q)" using ne by simp
    then have "pe_handle (last (pq_heap q)) \<in> set (handles q)" by (simp add: handles_def)
    with assms(1,2) small ux show "(pq_position ?r ! unat x \<noteq> tombstone) = (x \<in> set (handles ?r))"
      by (auto simp: hs flds(3) ipq_base_def)
  next
    show "distinct (pq_free_list ?r)" using assms(1) h by (auto simp: flds ipq_base_def)
    show "set (pq_free_list ?r) = {h. unat h < length (pq_position ?r) \<and> h \<notin> set (handles ?r)}"
      using assms(1) h handles_below [OF l h] by (auto simp: flds hs ipq_base_def)
  qed
  show "amap ?r = (amap q)(?h := None)"
  proof
    fix x
    have "amap ?r x = Some v \<longleftrightarrow> x \<noteq> ?h \<and> amap q x = Some v" for v
      unfolding amap_Some [OF lr] amap_Some [OF l] heap sr(1) by auto
    then show "amap ?r x = ((amap q)(?h := None)) x"
      by (metis fun_upd_apply not_None_eq)
  qed
  show "vals ?r = butlast ((vals q)[pos := last (vals q)])"
    using ne by (simp add: vals_def heap swap_remove_def map_butlast map_update last_map)
qed

lemma hole_ok_butlast: "hole_ok ge k xs \<Longrightarrow> hole_ok ge k (butlast xs)"
  unfolding hole_ok_def ok_at_def
  by (auto simp: nth_butlast)

lemma amap_nth: "linked q \<Longrightarrow> i < length (pq_heap q) \<Longrightarrow>
   amap q (pe_handle (pq_heap q ! i)) = Some (vals q ! i)"
  by (simp add: amap_Some entry_eta vals_def)

lemma ipq_top_max:
  assumes "strict_weak cmp" and "ipq_inv cmp q" and "amap q h = Some v"
  shows "\<not> cmp (vals q ! 0) v"
proof -
  have "linked q" using assms(2) by (simp add: ipq_inv_def ipq_base_def)
  then have "v \<in> set (vals q)" using assms(3) amap_Some [of q h v] by (force simp: vals_def)
  then obtain i where "i < length (vals q)" "v = vals q ! i" by (auto simp: in_set_conv_nth)
  with heap_ok_top [of "ge_of cmp" "vals q" i] assms(1,2) show ?thesis
    by (simp add: strict_weak_def ipq_inv_def ge_of_def)
qed

lemma ipq_pop_ok:
  assumes "strict_weak cmp" and "ipq_inv cmp q" and "pq_heap q \<noteq> []"
  shows "\<exists>h v q'. ipq_pop cmp q = (Inr v, q') \<and> ipq_inv cmp q' \<and> amap q h = Some v \<and>
    amap q' = (amap q)(h := None) \<and> (\<forall>w \<in> ran (amap q). \<not> cmp v w)"
proof -
  let ?h = "pe_handle (pq_heap q ! 0)" and ?v = "vals q ! 0" and ?r = "remove_at 0 q"
  have len: "0 < length (pq_heap q)" using assms(3) by simp
  have b: "ipq_base q" "linked q" "heap_ok (ge_of cmp) (vals q)"
    using assms(2) by (simp_all add: ipq_inv_def ipq_base_def)
  note rm = remove_at_ok [OF b(1) len]
  have lr: "linked ?r" using rm(1) by (simp add: ipq_base_def)
  have tp: "total_preorder (ge_of cmp)" using assms(1) by (simp add: strict_weak_def)
  have pop: "ipq_pop cmp q = (Inr ?v, if pq_heap ?r \<noteq> [] then sift_down cmp 0 ?r else ?r)"
    using assms(3) by (simp add: ipq_pop_def remove_at_def Let_def vals_def eq_commute [of "0::nat"])
  have "hole_ok (ge_of cmp) 0 (vals ?r)"
    unfolding rm(3) using hole_ok_update [OF tp b(3)] by (rule hole_ok_butlast)
  then have down: "down_ok (ge_of cmp) 0 (vals ?r)" by (simp add: down_ok_def ok_at_def)
  have "ipq_inv cmp (if pq_heap ?r \<noteq> [] then sift_down cmp 0 ?r else ?r) \<and>
      amap (if pq_heap ?r \<noteq> [] then sift_down cmp 0 ?r else ?r) = amap ?r"
  proof (cases "pq_heap ?r = []")
    case True
    with rm(1) show ?thesis by (simp add: ipq_inv_def heap_ok_def ok_at_def vals_def)
  next
    case False
    with sift_down_ok [OF assms(1) lr down] base_same [OF rm(1)] show ?thesis
      by (simp add: ipq_inv_def)
  qed
  with pop rm(2) amap_nth [OF b(2) len] ipq_top_max [OF assms(1,2)] show ?thesis
    by (intro exI [of _ ?h] exI [of _ ?v]) (auto simp: ran_def)
qed

lemma ipq_erase_ok:
  assumes "strict_weak cmp" and "ipq_inv cmp q" and "h \<in> dom (amap q)"
  shows "\<exists>q'. ipq_erase cmp h q = (Inr (), q') \<and> ipq_inv cmp q' \<and> amap q' = (amap q)(h := None)"
proof -
  let ?p = "pq_position q ! unat h" and ?r = "remove_at (pq_position q ! unat h) q"
  have b: "ipq_base q" "linked q" "heap_ok (ge_of cmp) (vals q)"
    using assms(2) by (simp_all add: ipq_inv_def ipq_base_def)
  have p: "?p < length (pq_heap q)" "pe_handle (pq_heap q ! ?p) = h"
    using position_entry [OF b(1)] assms(3) by (simp_all add: dom_amap)
  note rm = remove_at_ok [OF b(1) p(1), unfolded p(2)]
  have lr: "linked ?r" using rm(1) by (simp add: ipq_base_def)
  have tp: "total_preorder (ge_of cmp)" using assms(1) by (simp add: strict_weak_def)
  have er: "ipq_erase cmp h q =
      (Inr (), if ?p < length (pq_heap ?r) then sift_down cmp ?p (sift_up cmp ?p ?r) else ?r)"
    using valid_handle_iff [OF b(1), of h] assms(3) by (simp add: ipq_erase_def remove_at_def Let_def p(2))
  have hole: "hole_ok (ge_of cmp) ?p (vals ?r)"
    unfolding rm(3) using hole_ok_update [OF tp b(3)] by (rule hole_ok_butlast)
  have "ipq_inv cmp (if ?p < length (pq_heap ?r) then sift_down cmp ?p (sift_up cmp ?p ?r) else ?r) \<and>
      amap (if ?p < length (pq_heap ?r) then sift_down cmp ?p (sift_up cmp ?p ?r) else ?r) = amap ?r"
  proof (cases "?p < length (pq_heap ?r)")
    case False
    have "length (pq_heap ?r) = length (pq_heap q) - 1" using p(1) by (simp add: remove_at_heap)
    with False p(1) have "?p = length (vals q) - 1" by simp
    then have "vals ?r = butlast (vals q)" unfolding rm(3) by (simp add: butlast_list_update)
    with heap_ok_butlast [OF b(3)] rm(1) False show ?thesis by (simp add: ipq_inv_def)
  next
    case True
    note up = sift_up_hole [OF assms(1) lr hole True]
    note bu = base_same [OF rm(1) conjunct1 [OF up]]
    have "linked (sift_up cmp ?p ?r)" using up by (simp add: same_entries_def)
    note dn = sift_down_ok [OF assms(1) this conjunct2 [OF up]]
    from True dn base_same [OF bu(1)] bu show ?thesis by (simp add: ipq_inv_def)
  qed
  with er rm(2) show ?thesis by auto
qed

lemma ipq_update_ok:
  assumes "strict_weak cmp" and "ipq_inv cmp q" and "h \<in> dom (amap q)"
  shows "\<exists>q'. ipq_update cmp h v q = (Inr (), q') \<and> ipq_inv cmp q' \<and> amap q' = (amap q)(h \<mapsto> v)"
proof -
  let ?p = "pq_position q ! unat h"
  let ?u = "q\<lparr>pq_heap := (pq_heap q)[?p := (pq_heap q ! ?p)\<lparr>pe_value := v\<rparr>]\<rparr>"
  have b: "ipq_base q" "linked q" "heap_ok (ge_of cmp) (vals q)"
    using assms(2) by (simp_all add: ipq_inv_def ipq_base_def)
  have p: "?p < length (pq_heap q)" "pe_handle (pq_heap q ! ?p) = h"
    using position_entry [OF b(1)] assms(3) by (simp_all add: dom_amap)
  have tp: "total_preorder (ge_of cmp)" using assms(1) by (simp add: strict_weak_def)
  have nth: "pe_handle (pq_heap ?u ! i) = pe_handle (pq_heap q ! i)" for i
    by (cases "i = ?p"; cases "?p < length (pq_heap q)") (simp_all add: list_update_beyond)
  have hs: "handles ?u = handles q"
    by (rule nth_equalityI) (simp_all add: handles_def nth [simplified])
  have lu: "linked ?u" using b(2) nth by (simp add: linked_def)
  have bu: "ipq_base ?u" using b(1) lu hs by (simp add: ipq_base_def)
  have "vals ?u = (vals q)[?p := v]" by (simp add: vals_def map_update)
  then have hole: "hole_ok (ge_of cmp) ?p (vals ?u)" using hole_ok_update [OF tp b(3)] by simp
  have m: "amap ?u = (amap q)(h \<mapsto> v)"
  proof
    fix x show "amap ?u x = ((amap q)(h \<mapsto> v)) x"
    proof (cases "x \<in> set (handles q)")
      case False
      then have "x \<noteq> h" "amap q x = None" "amap ?u x = None"
        using assms(3) dom_amap [of q] dom_amap [of ?u] hs by (auto simp: domIff)
      then show ?thesis by simp
    next
      case True
      then obtain i where i: "i < length (pq_heap q)" "x = pe_handle (pq_heap q ! i)"
        by (auto simp: handles_def in_set_conv_nth)
      have "x = h \<longleftrightarrow> i = ?p" using linked_distinct [OF b(2) i(1) p(1)] i(2) p(2) by auto
      with amap_nth [OF lu, of i] amap_nth [OF b(2) i(1)] i p(1) nth [of i] show ?thesis
        by (simp add: vals_def nth_list_update)
    qed
  qed
  note up = sift_up_hole [OF assms(1) lu hole]
  have pu: "?p < length (pq_heap ?u)" using p(1) by simp
  note bup = base_same [OF bu conjunct1 [OF up [OF pu]]]
  have "linked (sift_up cmp ?p ?u)" using up [OF pu] by (simp add: same_entries_def)
  note dn = sift_down_ok [OF assms(1) this conjunct2 [OF up [OF pu]]]
  have "ipq_update cmp h v q = (Inr (), sift_down cmp ?p (sift_up cmp ?p ?u))"
    using valid_handle_iff [OF b(1), of h] assms(3) by (simp add: ipq_update_def Let_def)
  with dn base_same [OF bup(1)] bup m pu show ?thesis by (simp add: ipq_inv_def)
qed

subsection \<open>The queue provides the interface\<close>

lemma amap_empty: "pq_heap q = [] \<longleftrightarrow> amap q = Map.empty"
  by (auto simp: amap_def)

lemma handle_queue_ipq:
  assumes "strict_weak cmp"
  shows "handle_queue (ipq_inv cmp) amap cmp ipq_init ipq_empty (ipq_push cmp) (ipq_pop cmp)
    (ipq_update cmp) invalid_handle (2 ^ 32 - 1)"
proof
  fix q :: "'a ipq" assume inv: "ipq_inv cmp q"
  then show "ipq_empty q \<longleftrightarrow> amap q = Map.empty" by (simp add: ipq_empty_def amap_empty)
  have "invalid_handle \<notin> dom (amap q)"
  proof
    assume "invalid_handle \<in> dom (amap q)"
    with inv have "unat invalid_handle < length (pq_position q)" "length (pq_position q) < 2 ^ 32"
      using handles_below [of q invalid_handle] by (auto simp: ipq_inv_def ipq_base_def dom_amap)
    then show False by (simp add: invalid_handle_def unat_max)
  qed
  then show "amap q invalid_handle = None" by auto
  fix x h
  show "card (dom (amap q)) < 2 ^ 32 - 1 \<Longrightarrow>
      \<exists>h q'. ipq_push cmp x q = (h, q') \<and> ipq_inv cmp q' \<and> amap q h = None \<and> amap q' = (amap q)(h \<mapsto> x)"
    using ipq_push_ok [OF assms inv, of x] unfolding domIff not_not by blast
  show "amap q \<noteq> Map.empty \<Longrightarrow> \<exists>h x q'. ipq_pop cmp q = (Inr x, q') \<and> ipq_inv cmp q' \<and> amap q h = Some x \<and>
      amap q' = (amap q)(h := None) \<and> (\<forall>y \<in> ran (amap q). \<not> cmp x y)"
    using ipq_pop_ok [OF assms inv] by (auto simp: amap_empty)
  show "amap q h \<noteq> None \<Longrightarrow>
      \<exists>q'. ipq_update cmp h x q = (Inr (), q') \<and> ipq_inv cmp q' \<and> amap q' = (amap q)(h \<mapsto> x)"
    using ipq_update_ok [OF assms inv] by (simp add: domIff)
qed (simp_all add: ipq_init_inv)

interpretation max_queue: handle_queue "ipq_inv (<)" amap "(<) :: 'a::linorder \<Rightarrow> 'a \<Rightarrow> bool" ipq_init
  ipq_empty "ipq_push (<)" "ipq_pop (<)" "ipq_update (<)" invalid_handle "2 ^ 32 - 1"
  by (rule handle_queue_ipq) (auto simp: strict_weak_def total_preorder_def ge_of_def)

subsection \<open>Properties\<close>

text \<open>Pushing a value gives it a handle no live entry has and changes nothing else; there is room
as long as fewer than \<open>2 ^ 32 - 1\<close> entries are live.\<close>

lemma ipq_push_adds:
  assumes "strict_weak cmp" and "ipq_inv cmp q" and "card (dom (amap q)) < 2 ^ 32 - 1"
  shows "\<exists>h q'. ipq_push cmp v q = (h, q') \<and> ipq_inv cmp q' \<and> h \<notin> dom (amap q) \<and>
    amap q' = (amap q)(h \<mapsto> v) \<and> ipq_size q' = Suc (ipq_size q)"
  using assms by (rule ipq_push_ok)

lemma strict_weak_less: "strict_weak ((<) :: 'a::linorder \<Rightarrow> 'a \<Rightarrow> bool)"
  by (auto simp: strict_weak_def total_preorder_def ge_of_def)

text \<open>C9: \<open>pop\<close> removes one entry, and its value is one that no live value exceeds; on an empty
queue it reports the error.\<close>

theorem ipq_pop_takes_top:
  assumes "strict_weak cmp" and "ipq_inv cmp q"
  shows "if amap q = Map.empty then ipq_pop cmp q = (Inl Empty, q)
    else \<exists>h v q'. ipq_pop cmp q = (Inr v, q') \<and> ipq_inv cmp q' \<and> amap q h = Some v \<and>
      amap q' = (amap q)(h := None) \<and> (\<forall>w \<in> ran (amap q). \<not> cmp v w)"
  using ipq_pop_ok [OF assms] by (auto simp: amap_empty [symmetric] ipq_pop_def)

lemma ipq_pop_takes_top_witness: "ipq_pop (<) (ipq_init :: nat ipq) = (Inl Empty, ipq_init)"
  using ipq_pop_takes_top [OF strict_weak_less, of "ipq_init :: nat ipq"] by (simp add: ipq_init_inv)

text \<open>Changing the value of a live handle, up or down, and erasing it change that entry only; a
dead handle is refused.\<close>

lemma ipq_update_erase:
  assumes "strict_weak cmp" and "ipq_inv cmp q"
  shows "if h \<in> dom (amap q)
    then (\<exists>q'. ipq_update cmp h v q = (Inr (), q') \<and> ipq_inv cmp q' \<and> amap q' = (amap q)(h \<mapsto> v)) \<and>
      (\<exists>q'. ipq_erase cmp h q = (Inr (), q') \<and> ipq_inv cmp q' \<and> amap q' = (amap q)(h := None))
    else ipq_update cmp h v q = (Inl Not_found, q) \<and> ipq_erase cmp h q = (Inl Not_found, q)"
proof -
  have "ipq_base q" using assms(2) by (simp add: ipq_inv_def)
  note valid = valid_handle_iff [OF this, of h]
  show ?thesis
  proof (cases "h \<in> dom (amap q)")
    case True
    with ipq_update_ok [OF assms True] ipq_erase_ok [OF assms True] show ?thesis by simp
  next
    case False
    with valid show ?thesis by (simp add: ipq_update_def ipq_erase_def)
  qed
qed

end
