(* ===== verification/Dijkstra.thy ===== *)
theory Dijkstra
  imports Indexed_Priority_Queue Graph
begin

text \<open>
  Single-source shortest paths: \<open>algorithm/graph/dijkstra.hpp\<close>, for an unsigned weight
  type, whose largest value stands for "unreachable". The queue is used through the
  handle interface. The loop would not end if a popped vertex could come back: that it
  returns is part of what is proved.
\<close>

subsection \<open>Walks\<close>

inductive walk :: "('e, 'v::len) graph \<Rightarrow> (('e, 'v) graph_edge \<Rightarrow> 'n::comm_monoid_add) \<Rightarrow> 'v word \<Rightarrow> 'v word \<Rightarrow> 'n \<Rightarrow> bool"
  for g :: "('e, 'v) graph" and wt :: "('e, 'v) graph_edge \<Rightarrow> 'n" and source :: "'v word" where
  nil: "source \<in> vertex_set g \<Longrightarrow> walk g wt source source 0"
| snoc: "walk g wt source u len \<Longrightarrow> e \<in> set (edges_of g u) \<Longrightarrow> walk g wt source (ge_target e) (len + wt e)"

inductive_cases walkE: "walk g wt source v len"

lemma edge_target: "graph_wf g \<Longrightarrow> e \<in> set (edges_of g u) \<Longrightarrow> ge_target e \<in> vertex_set g"
  by (simp add: graph_wf_def)

lemma walk_vertex: "graph_wf g \<Longrightarrow> walk g wt source v len \<Longrightarrow> v \<in> vertex_set g"
  by (erule walk.cases) (auto intro: edge_target)

subsection \<open>The code\<close>

record (overloaded) ('w::len, 'v::len) dijkstra_entry =
  de_vertex :: "'v word"
  de_distance :: "'w word"

text \<open>\<open>std::greater\<close> on entries, which compare by distance.\<close>

definition entry_greater :: "('w::len, 'v::len) dijkstra_entry \<Rightarrow> ('w, 'v) dijkstra_entry \<Rightarrow> bool" where
  "entry_greater a b = (de_distance b < de_distance a)"

definition unreachable_weight :: "'w::len word" where
  "unreachable_weight = - 1"

record (overloaded) ('w::len, 'v::len) dijkstra_state =
  ds_distances :: "'w word list"
  ds_handles :: "u32 list"
  ds_pq :: "('w, 'v) dijkstra_entry ipq"

definition relax_edge ::
    "(('e, 'v::len) graph_edge \<Rightarrow> 'w::len word) \<Rightarrow> 'w word \<Rightarrow> ('e, 'v) graph_edge
     \<Rightarrow> ('w, 'v) dijkstra_state \<Rightarrow> ('w, 'v) dijkstra_state" where
  "relax_edge weight_of d_u e st =
     (let w = weight_of e
      in if unreachable_weight - d_u < w then st
         else
           let candidate = d_u + w; target = unat (ge_target e)
           in if candidate < ds_distances st ! target then
                let (hs, pq) = put_key (ipq_push entry_greater) (ipq_update entry_greater) invalid_handle
                      target \<lparr>de_vertex = ge_target e, de_distance = candidate\<rparr> (ds_handles st, ds_pq st)
                in \<lparr>ds_distances = (ds_distances st)[target := candidate], ds_handles = hs, ds_pq = pq\<rparr>
              else st)"

fun relax_edges ::
    "(('e, 'v::len) graph_edge \<Rightarrow> 'w::len word) \<Rightarrow> 'w word \<Rightarrow> ('e, 'v) graph_edge list
     \<Rightarrow> ('w, 'v) dijkstra_state \<Rightarrow> ('w, 'v) dijkstra_state" where
  "relax_edges weight_of d_u [] st = st"
| "relax_edges weight_of d_u (e # es) st = relax_edges weight_of d_u es (relax_edge weight_of d_u e st)"

partial_function (option) dijkstra_loop ::
    "('e, 'v::len) graph \<Rightarrow> (('e, 'v) graph_edge \<Rightarrow> 'w::len word) \<Rightarrow> ('w, 'v) dijkstra_state
     \<Rightarrow> ('w, 'v) dijkstra_state option" where
  "dijkstra_loop g weight_of st =
     (if \<not> ipq_empty (ds_pq st) then
        (case ipq_pop entry_greater (ds_pq st) of
           (Inl e, pq) \<Rightarrow> Some (st\<lparr>ds_pq := pq\<rparr>)
         | (Inr popped, pq) \<Rightarrow>
             let u = de_vertex popped; d_u = de_distance popped;
                 st' = st\<lparr>ds_handles := (ds_handles st)[unat u := invalid_handle], ds_pq := pq\<rparr>
             in if ds_distances st' ! unat u < d_u then dijkstra_loop g weight_of st'
                else dijkstra_loop g weight_of (relax_edges weight_of d_u (edges_of g u) st'))
      else Some st)"

declare dijkstra_loop.simps [code]

definition dijkstra ::
    "('e, 'v::len) graph \<Rightarrow> 'v word \<Rightarrow> (('e, 'v) graph_edge \<Rightarrow> 'w::len word)
     \<Rightarrow> (container_error + 'w word list) option" where
  "dijkstra g source weight_of =
     (if \<not> graph_contains g source then Some (Inl Out_of_range)
      else
        let n = vertex_count g;
            distances = (replicate n unreachable_weight)[unat source := 0];
            (h, pq) = ipq_push entry_greater \<lparr>de_vertex = source, de_distance = 0\<rparr> ipq_init;
            handles = (replicate n invalid_handle)[unat source := h]
        in case dijkstra_loop g weight_of \<lparr>ds_distances = distances, ds_handles = handles, ds_pq = pq\<rparr> of
             None \<Rightarrow> None
           | Some st \<Rightarrow> Some (Inr (ds_distances st)))"

subsection \<open>The queue of entries\<close>

lemma strict_weak_entry: "strict_weak entry_greater"
  by (auto simp: strict_weak_def total_preorder_def ge_of_def entry_greater_def)

interpretation pq: handle_queue "ipq_inv entry_greater" amap entry_greater ipq_init ipq_empty
  "ipq_push entry_greater" "ipq_pop entry_greater" "ipq_update entry_greater" invalid_handle "2 ^ 32 - 1"
  by (rule handle_queue_ipq [OF strict_weak_entry])

text \<open>
  The invariant of the loop. \<open>settled\<close> are the vertices popped; the queue holds exactly
  the tentative distances of the others that have one.
\<close>

definition dist :: "('w::len, 'v::len) dijkstra_state \<Rightarrow> 'v word \<Rightarrow> nat" where
  "dist st v = unat (ds_distances st ! unat v)"

definition queued :: "('w::len, 'v::len) dijkstra_state \<Rightarrow> 'v word set \<Rightarrow> nat \<Rightarrow> ('w, 'v) dijkstra_entry option" where
  "queued st frontier k =
     (if k < length (ds_distances st) \<and> of_nat k \<in> frontier
      then Some \<lparr>de_vertex = of_nat k, de_distance = ds_distances st ! k\<rparr> else None)"

definition dj_base ::
    "('e, 'v::len) graph \<Rightarrow> (('e, 'v) graph_edge \<Rightarrow> 'w::len word) \<Rightarrow> 'v word \<Rightarrow> 'v word set \<Rightarrow> 'v word set
     \<Rightarrow> ('w, 'v) dijkstra_state \<Rightarrow> bool" where
  "dj_base g weight_of source settled frontier st \<longleftrightarrow>
     length (ds_distances st) = vertex_count g \<and> length (ds_handles st) = vertex_count g \<and>
     ipq_inv entry_greater (ds_pq st) \<and>
     keyed amap invalid_handle (ds_handles st) (ds_pq st) (queued st frontier) \<and>
     frontier \<subseteq> vertex_set g \<and> settled \<subseteq> vertex_set g \<and> settled \<inter> frontier = {} \<and>
     dist st source = 0 \<and>
     (\<forall>v \<in> vertex_set g. dist st v < 2 ^ LENGTH('w) - 1 \<longrightarrow>
        v \<in> settled \<union> frontier \<and> walk g (\<lambda>e. unat (weight_of e)) source v (dist st v))"

definition relaxed ::
    "(('e, 'v::len) graph_edge \<Rightarrow> 'w::len word) \<Rightarrow> ('w, 'v) dijkstra_state \<Rightarrow> nat \<Rightarrow> ('e, 'v) graph_edge \<Rightarrow> bool" where
  "relaxed weight_of st d e \<longleftrightarrow> dist st (ge_target e) \<le> d + unat (weight_of e)"

definition dj_inv ::
    "('e, 'v::len) graph \<Rightarrow> (('e, 'v) graph_edge \<Rightarrow> 'w::len word) \<Rightarrow> 'v word \<Rightarrow> 'v word set \<Rightarrow> 'v word set
     \<Rightarrow> ('w, 'v) dijkstra_state \<Rightarrow> bool" where
  "dj_inv g weight_of source settled frontier st \<longleftrightarrow>
     dj_base g weight_of source settled frontier st \<and>
     (\<forall>u \<in> settled. \<forall>e \<in> set (edges_of g u). relaxed weight_of st (dist st u) e) \<and>
     (\<forall>u \<in> settled. \<forall>v \<in> frontier. dist st u \<le> dist st v)"

lemma dist_max: "dist st v \<le> 2 ^ LENGTH('w) - 1" for st :: "('w::len, 'v::len) dijkstra_state"
  using unsigned_less [of "ds_distances st ! unat v", where ?'a = nat] unfolding dist_def by linarith

text \<open>One edge out of the vertex just settled, at distance \<open>d\<close>.\<close>

lemma relax_edge_base:
  fixes st :: "('w::len, 'v::len) dijkstra_state"
  assumes "graph_wf g" and "vertex_count g \<le> 2 ^ 32 - 1"
    and "dj_base g weight_of source settled frontier st" and "e \<in> set (edges_of g u)" and "u \<in> settled"
    and "unat d_u = dist st u" and "\<And>v. v \<in> settled \<Longrightarrow> dist st v \<le> dist st u"
    and "\<And>v. v \<in> frontier \<Longrightarrow> dist st u \<le> dist st v"
  shows "\<exists>frontier'. dj_base g weight_of source settled frontier' (relax_edge weight_of d_u e st) \<and>
    (\<forall>v \<in> settled. dist (relax_edge weight_of d_u e st) v = dist st v) \<and>
    (\<forall>v. dist (relax_edge weight_of d_u e st) v \<le> dist st v) \<and>
    (\<forall>v \<in> frontier'. dist st u \<le> dist (relax_edge weight_of d_u e st) v) \<and>
    relaxed weight_of (relax_edge weight_of d_u e st) (dist st u) e"
proof -
  let ?w = "weight_of e" and ?t = "ge_target e" and ?max = "2 ^ LENGTH('w) - 1 :: nat"
  note B = assms(3) [unfolded dj_base_def]
  have n: "vertex_count g < 2 ^ LENGTH('v)" using assms(1) by (simp add: graph_wf_def)
  have max: "unat (unreachable_weight :: 'w word) = ?max" by (simp add: unreachable_weight_def unat_max)
  have d_le: "unat d_u \<le> ?max" using dist_max [of st u] assms(6) by simp
  have diff: "unat (unreachable_weight - d_u) = ?max - unat d_u"
    using d_le max by (simp add: unat_sub_if')
  show ?thesis
  proof (cases "unreachable_weight - d_u < ?w")
    case True
    then have st: "relax_edge weight_of d_u e st = st" by (simp add: relax_edge_def Let_def)
    have "?max - unat d_u < unat ?w" using True diff by (simp add: word_less_nat_alt)
    then have "relaxed weight_of st (dist st u) e"
      using dist_max [of st ?t] assms(6) by (simp add: relaxed_def)
    with assms(3,8) show ?thesis unfolding st by auto
  next
    case fits: False
    then have sum: "unat d_u + unat ?w \<le> ?max" using diff d_le by (simp add: word_less_nat_alt)
    then have "unat d_u + unat ?w < 2 ^ LENGTH('w)"
      using zero_less_power [of "2 :: nat" "LENGTH('w)"] by linarith
    then have cand: "unat (d_u + ?w) = dist st u + unat ?w"
      using assms(6) by (simp add: unat_plus_if')
    show ?thesis
    proof (cases "d_u + ?w < ds_distances st ! unat ?t")
      case False
      then have st: "relax_edge weight_of d_u e st = st" using fits by (simp add: relax_edge_def Let_def)
      have "relaxed weight_of st (dist st u) e"
        using False cand by (simp add: relaxed_def dist_def word_less_nat_alt)
      with assms(3,8) show ?thesis unfolding st by auto
    next
      case True
      then have lt: "dist st u + unat ?w < dist st ?t" using cand by (simp add: dist_def word_less_nat_alt)
      have t: "?t \<in> vertex_set g" using edge_target [OF assms(1,4)] .
      then have ti: "unat ?t < vertex_count g" by (simp add: vertex_set_def)
      have ts: "?t \<notin> settled" using assms(7) [of ?t] lt by auto
      have key: "unat ?t < length (ds_handles st)" "length (ds_handles st) \<le> 2 ^ 32 - 1"
        using B ti assms(2) by simp_all
      let ?x = "\<lparr>de_vertex = ?t, de_distance = d_u + ?w\<rparr>"
      obtain hs pq where put: "put_key (ipq_push entry_greater) (ipq_update entry_greater) invalid_handle
            (unat ?t) ?x (ds_handles st, ds_pq st) = (hs, pq)"
          "ipq_inv entry_greater pq" "length hs = length (ds_handles st)"
          "keyed amap invalid_handle hs pq ((queued st frontier)(unat ?t \<mapsto> ?x))"
        using pq.put_key_ok [of "ds_pq st" "ds_handles st" "queued st frontier" "unat ?t" ?x] B key by blast
      let ?st = "\<lparr>ds_distances = (ds_distances st)[unat ?t := d_u + ?w], ds_handles = hs, ds_pq = pq\<rparr>"
      have st: "relax_edge weight_of d_u e st = ?st"
        using fits True put(1) by (simp add: relax_edge_def Let_def)
      have dist': "dist ?st v = (if v = ?t then dist st u + unat ?w else dist st v)" for v
        using B ti cand by (simp add: dist_def nth_list_update_word)
      have "queued ?st (insert ?t frontier) k = ((queued st frontier)(unat ?t \<mapsto> ?x)) k" for k
      proof (cases "k = unat ?t")
        case True
        then show ?thesis using B ti by (simp add: queued_def)
      next
        case False
        then have "of_nat k \<noteq> ?t" if "k < vertex_count g"
          using that n by (metis order_less_trans unat_of_nat_less)
        with False B show ?thesis by (auto simp: queued_def)
      qed
      then have q: "queued ?st (insert ?t frontier) = (queued st frontier)(unat ?t \<mapsto> ?x)" by blast
      have "walk g (\<lambda>e. unat (weight_of e)) source ?t (dist st u + unat ?w)"
      proof -
        have "u \<in> vertex_set g" using B assms(5) by auto
        moreover have "dist st u < ?max" using lt dist_max [of st ?t] by simp
        ultimately have "walk g (\<lambda>e. unat (weight_of e)) source u (dist st u)" using B by blast
        from walk.snoc [OF this assms(4)] show ?thesis by simp
      qed
      moreover have "?t = source \<Longrightarrow> False" using lt B by simp
      ultimately have "dj_base g weight_of source settled (insert ?t frontier) ?st"
        using B put(2-4) t ts unfolding dj_base_def q dist' by (auto simp: B)
      moreover have "\<forall>v \<in> settled. dist ?st v = dist st v" using ts by (auto simp: dist')
      moreover have "dist ?st v \<le> dist st v" for v using lt by (simp add: dist')
      moreover have "\<forall>v \<in> insert ?t frontier. dist st u \<le> dist ?st v" using assms(8) by (auto simp: dist')
      moreover have "relaxed weight_of ?st (dist st u) e" by (simp add: relaxed_def dist')
      ultimately show ?thesis unfolding st by blast
    qed
  qed
qed

lemma relax_edges_base:
  fixes st :: "('w::len, 'v::len) dijkstra_state"
  assumes "graph_wf g" and "vertex_count g \<le> 2 ^ 32 - 1"
    and "dj_base g weight_of source settled frontier st" and "set es \<subseteq> set (edges_of g u)" and "u \<in> settled"
    and "unat d_u = dist st u" and "\<And>v. v \<in> settled \<Longrightarrow> dist st v \<le> dist st u"
    and "\<And>v. v \<in> frontier \<Longrightarrow> dist st u \<le> dist st v"
  shows "\<exists>frontier'. dj_base g weight_of source settled frontier' (relax_edges weight_of d_u es st) \<and>
    (\<forall>v \<in> settled. dist (relax_edges weight_of d_u es st) v = dist st v) \<and>
    (\<forall>v. dist (relax_edges weight_of d_u es st) v \<le> dist st v) \<and>
    (\<forall>v \<in> frontier'. dist st u \<le> dist (relax_edges weight_of d_u es st) v) \<and>
    (\<forall>e \<in> set es. relaxed weight_of (relax_edges weight_of d_u es st) (dist st u) e)"
  using assms(3,4,6-8)
proof (induction es arbitrary: st frontier)
  case Nil
  then show ?case by auto
next
  case (Cons e es)
  let ?s = "relax_edge weight_of d_u e st"
  have e: "e \<in> set (edges_of g u)" "set es \<subseteq> set (edges_of g u)" using Cons.prems(2) by auto
  obtain f where f: "dj_base g weight_of source settled f ?s" "\<forall>v \<in> settled. dist ?s v = dist st v"
      "\<forall>v. dist ?s v \<le> dist st v" "\<forall>v \<in> f. dist st u \<le> dist ?s v" "relaxed weight_of ?s (dist st u) e"
    using relax_edge_base [OF assms(1,2) Cons.prems(1) e(1) assms(5) Cons.prems(3-5)] by blast
  have u: "dist ?s u = dist st u" using f(2) assms(5) by blast
  obtain f' where f': "dj_base g weight_of source settled f' (relax_edges weight_of d_u es ?s)"
      "\<forall>v \<in> settled. dist (relax_edges weight_of d_u es ?s) v = dist ?s v"
      "\<forall>v. dist (relax_edges weight_of d_u es ?s) v \<le> dist ?s v"
      "\<forall>v \<in> f'. dist ?s u \<le> dist (relax_edges weight_of d_u es ?s) v"
      "\<forall>e \<in> set es. relaxed weight_of (relax_edges weight_of d_u es ?s) (dist ?s u) e"
    using Cons.IH [OF f(1) e(2)] Cons.prems(3,4) f(2,4) u by auto
  have "relaxed weight_of (relax_edges weight_of d_u es ?s) (dist st u) e"
    using f(5) f'(3) le_trans by (fastforce simp: relaxed_def)
  moreover have "dist (relax_edges weight_of d_u es ?s) v \<le> dist st v" for v
    using f(3) f'(3) le_trans by blast
  ultimately show ?case using f' f(2) u by (intro exI [of _ f']) auto
qed

lemma settle_step:
  fixes st :: "('w::len, 'v::len) dijkstra_state"
  assumes "graph_wf g" and "vertex_count g \<le> 2 ^ 32 - 1"
    and "dj_inv g weight_of source settled frontier st" and "\<not> ipq_empty (ds_pq st)"
  shows "\<exists>u pq frontier'. u \<in> frontier \<and>
    ipq_pop entry_greater (ds_pq st) = (Inr \<lparr>de_vertex = u, de_distance = ds_distances st ! unat u\<rparr>, pq) \<and>
    dj_inv g weight_of source (insert u settled) frontier'
      (relax_edges weight_of (ds_distances st ! unat u) (edges_of g u)
        (st\<lparr>ds_handles := (ds_handles st)[unat u := invalid_handle], ds_pq := pq\<rparr>))"
proof -
  note I = assms(3) [unfolded dj_inv_def]
  note B = conjunct1 [OF I, unfolded dj_base_def]
  have n: "vertex_count g < 2 ^ LENGTH('v)" using assms(1) by (simp add: graph_wf_def)
  let ?m = "queued st frontier"
  have "?m \<noteq> Map.empty" using pq.keyed_empty [of "ds_pq st" "ds_handles st" ?m] B assms(4) by blast
  then obtain k x pq where pop: "ipq_pop entry_greater (ds_pq st) = (Inr x, pq)" "ipq_inv entry_greater pq"
      "?m k = Some x" "\<forall>y \<in> ran ?m. \<not> entry_greater x y"
      "keyed amap invalid_handle ((ds_handles st)[k := invalid_handle]) pq (?m(k := None))"
    using pq.pop_key_ok [of "ds_pq st" "ds_handles st" ?m] B by blast
  define u where "u = (of_nat k :: 'v word)"
  have k: "k < vertex_count g" "u \<in> frontier" "x = \<lparr>de_vertex = u, de_distance = ds_distances st ! k\<rparr>"
    using pop(3) B by (auto simp: queued_def u_def split: if_splits)
  have uk: "unat u = k" using k(1) n by (simp add: u_def unat_of_nat_less)
  let ?st = "st\<lparr>ds_handles := (ds_handles st)[unat u := invalid_handle], ds_pq := pq\<rparr>"
  have dist': "dist ?st v = dist st v" for v by (simp add: dist_def)
  have "queued ?st (frontier - {u}) = ?m(k := None)"
  proof
    fix i show "queued ?st (frontier - {u}) i = (?m(k := None)) i"
      using uk n B by (cases "i = k") (auto simp: queued_def u_def unat_of_nat_less order_less_trans [OF _ n]
          dest: arg_cong [where f = unat])
  qed
  then have base: "dj_base g weight_of source (insert u settled) (frontier - {u}) ?st"
    using B pop(2,5) k(2) uk unfolding dj_base_def dist' by auto
  have min: "dist st u \<le> dist st v" if "v \<in> frontier" for v
  proof -
    have "unat v < vertex_count g" using that B by (auto simp: vertex_set_def)
    then have "?m (unat v) = Some \<lparr>de_vertex = v, de_distance = ds_distances st ! unat v\<rparr>"
      using that B by (simp add: queued_def)
    then have "\<not> entry_greater x \<lparr>de_vertex = v, de_distance = ds_distances st ! unat v\<rparr>"
      using pop(4) by (auto simp: ran_def)
    then show ?thesis using k(3) uk by (simp add: entry_greater_def dist_def word_less_nat_alt not_less)
  qed
  have below: "dist st v \<le> dist st u" if "v \<in> insert u settled" for v
    using that I k(2) by auto
  let ?s = "relax_edges weight_of (ds_distances st ! unat u) (edges_of g u) ?st"
  obtain f where f: "dj_base g weight_of source (insert u settled) f ?s"
      "\<forall>v \<in> insert u settled. dist ?s v = dist st v" "\<forall>v. dist ?s v \<le> dist st v"
      "\<forall>v \<in> f. dist st u \<le> dist ?s v"
      "\<forall>e \<in> set (edges_of g u). relaxed weight_of ?s (dist st u) e"
    using relax_edges_base [OF assms(1,2) base, of "edges_of g u" u "ds_distances st ! unat u"] min below
    by (auto simp: dist') (auto simp: dist_def)
  have "relaxed weight_of ?s (dist ?s v) e" if "v \<in> insert u settled" "e \<in> set (edges_of g v)" for v e
  proof (cases "v = u")
    case True
    with that f(2,5) show ?thesis by simp
  next
    case False
    with that have "relaxed weight_of st (dist st v) e" using I by simp
    then have "relaxed weight_of ?s (dist st v) e"
      using f(3) le_trans unfolding relaxed_def by blast
    moreover have "dist ?s v = dist st v" using f(2) that(1) by blast
    ultimately show ?thesis by (simp only:)
  qed
  moreover have "dist ?s v \<le> dist ?s w" if "v \<in> insert u settled" "w \<in> f" for v w
    using that f(2,4) below [OF that(1)] le_trans by fastforce
  ultimately have "dj_inv g weight_of source (insert u settled) f ?s"
    using f(1) by (simp add: dj_inv_def)
  with pop(1) k(2,3) uk show ?thesis by auto
qed

lemma dijkstra_loop_ok:
  assumes "graph_wf g" and "vertex_count g \<le> 2 ^ 32 - 1"
    and "dj_inv g weight_of source settled frontier st"
  shows "\<exists>st' settled'. dijkstra_loop g weight_of st = Some st' \<and> dj_inv g weight_of source settled' {} st'"
  using assms(3)
proof (induction "card (vertex_set g) - card settled" arbitrary: settled frontier st rule: less_induct)
  case less
  note I = less.prems [unfolded dj_inv_def dj_base_def]
  show ?case
  proof (cases "ipq_empty (ds_pq st)")
    case True
    then have m: "queued st frontier = Map.empty"
      using pq.keyed_empty [of "ds_pq st" "ds_handles st" "queued st frontier"] I by blast
    have "frontier = {}"
    proof (rule ccontr)
      assume "frontier \<noteq> {}"
      then obtain v where "v \<in> frontier" by blast
      moreover from this have "unat v < vertex_count g" using I by (auto simp: vertex_set_def)
      ultimately have "queued st frontier (unat v) \<noteq> None" using I by (simp add: queued_def)
      with m show False by simp
    qed
    moreover have "dijkstra_loop g weight_of st = Some st" using True by (subst dijkstra_loop.simps) simp
    ultimately show ?thesis using less.prems by blast
  next
    case False
    obtain u pq f where s: "u \<in> frontier"
        "ipq_pop entry_greater (ds_pq st) = (Inr \<lparr>de_vertex = u, de_distance = ds_distances st ! unat u\<rparr>, pq)"
        "dj_inv g weight_of source (insert u settled) f
          (relax_edges weight_of (ds_distances st ! unat u) (edges_of g u)
            (st\<lparr>ds_handles := (ds_handles st)[unat u := invalid_handle], ds_pq := pq\<rparr>))"
      using settle_step [OF assms(1,2) less.prems False] by blast
    have "settled \<subset> insert u settled" "insert u settled \<subseteq> vertex_set g"
      using I s(1) by auto
    then have "card settled < card (insert u settled)" "card (insert u settled) \<le> card (vertex_set g)"
      by (auto intro: psubset_card_mono card_mono)
    then have "card (vertex_set g) - card (insert u settled) < card (vertex_set g) - card settled" by simp
    from less.hyps [OF this s(3)] s(2) False show ?thesis
      by (subst dijkstra_loop.simps) (simp add: Let_def)
  qed
qed

lemma dijkstra_ok:
  fixes weight_of :: "('e, 'v::len) graph_edge \<Rightarrow> 'w::len word"
  assumes "graph_wf g" and "vertex_count g \<le> 2 ^ 32 - 1" and "source \<in> vertex_set g"
  shows "\<exists>ds. dijkstra g source weight_of = Some (Inr ds) \<and> length ds = vertex_count g \<and>
    (\<forall>v \<in> vertex_set g.
      (\<forall>len. walk g (\<lambda>e. unat (weight_of e)) source v len \<longrightarrow> unat (ds ! unat v) \<le> len) \<and>
      (ds ! unat v \<noteq> unreachable_weight \<longrightarrow> walk g (\<lambda>e. unat (weight_of e)) source v (unat (ds ! unat v))))"
proof -
  let ?n = "vertex_count g" and ?W = "\<lambda>e. unat (weight_of e)" and ?max = "2 ^ LENGTH('w) - 1 :: nat"
  have si: "unat source < ?n" using assms(3) by (simp add: vertex_set_def)
  let ?e = "\<lparr>de_vertex = source, de_distance = 0 :: 'w word\<rparr>"
  obtain h q where push: "ipq_push entry_greater ?e ipq_init = (h, q)"
    by (cases "ipq_push entry_greater ?e ipq_init")
  let ?hs = "(replicate ?n invalid_handle)[unat source := h]"
  let ?st = "\<lparr>ds_distances = (replicate ?n unreachable_weight)[unat source := 0], ds_handles = ?hs, ds_pq = q\<rparr>
    :: ('w, 'v) dijkstra_state"
  have max: "unat (unreachable_weight :: 'w word) = ?max" by (simp add: unreachable_weight_def unat_max)
  have put: "put_key (ipq_push entry_greater) (ipq_update entry_greater) invalid_handle (unat source) ?e
      (replicate ?n invalid_handle, ipq_init) = (?hs, q)"
    using push si by (simp add: put_key_def)
  have q: "ipq_inv entry_greater q" "keyed amap invalid_handle ?hs q [unat source \<mapsto> ?e]"
    using pq.put_key_ok [OF pq.init_ok(1) pq.keyed_init, of "unat source" ?n ?e] put si assms(2) by auto
  have dist: "dist ?st v = (if v = source then 0 else ?max)" if "v \<in> vertex_set g" for v
    using that si max by (auto simp: dist_def nth_list_update_word vertex_set_def)
  have dsrc: "dist ?st source = 0" using dist [OF assms(3)] by simp
  have "queued ?st {source} = [unat source \<mapsto> ?e]"
  proof
    fix i show "queued ?st {source} i = [unat source \<mapsto> ?e] i"
    proof (cases "i = unat source")
      case True
      then show ?thesis using si by (simp add: queued_def)
    next
      case False
      moreover have "of_nat i \<noteq> source" if "i < ?n"
        using that False assms(1) unat_of_nat_less [where ?'a = 'v, of i] by (auto simp: graph_wf_def)
      ultimately show ?thesis by (auto simp: queued_def)
    qed
  qed
  then have "dj_base g weight_of source {} {source} ?st"
    using q assms(3) dist dsrc by (auto simp: dj_base_def split: if_splits intro: walk.nil)
  then have "dj_inv g weight_of source {} {source} ?st" by (simp add: dj_inv_def)
  from dijkstra_loop_ok [OF assms(1,2) this] obtain st settled where
    st: "dijkstra_loop g weight_of ?st = Some st" "dj_inv g weight_of source settled {} st" by blast
  note I = st(2) [unfolded dj_inv_def dj_base_def]
  have run: "dijkstra g source weight_of = Some (Inr (ds_distances st))"
    using st(1) push assms(3) by (simp add: dijkstra_def Let_def)
  have lower: "dist st v \<le> len" if "walk g ?W source v len" for v len
    using that
  proof (induction rule: walk.induct)
    case nil
    then show ?case using I by simp
  next
    case (snoc u len e)
    have uv: "u \<in> vertex_set g" using walk_vertex [OF assms(1) snoc.hyps(1)] .
    show ?case
    proof (cases "dist st u < ?max")
      case True
      then have "u \<in> settled" using I uv by auto
      then have "relaxed weight_of st (dist st u) e" using I snoc.hyps(2) by blast
      with snoc.IH show ?thesis by (simp add: relaxed_def)
    next
      case False
      with dist_max [of st "ge_target e"] snoc.IH show ?thesis by linarith
    qed
  qed
  have "walk g ?W source v (dist st v)" if "v \<in> vertex_set g" "ds_distances st ! unat v \<noteq> unreachable_weight" for v
  proof -
    have "dist st v \<noteq> ?max" using that(2) max unsigned_word_eqI [of "ds_distances st ! unat v" unreachable_weight, where ?'a = nat]
      by (auto simp: dist_def)
    then have "dist st v < ?max" using dist_max [of st v] by linarith
    with I that(1) show ?thesis by blast
  qed
  with run lower I show ?thesis by (auto simp: dist_def)
qed

subsection \<open>Properties\<close>

text \<open>C10: Dijkstra's algorithm returns; every distance is a lower bound of the lengths of all walks
from the source, and a distance other than the unreachable mark is the length of one. No sum
ever wraps around.\<close>

theorem dijkstra_shortest:
  fixes weight_of :: "('e, 'v::len) graph_edge \<Rightarrow> 'w::len word"
  assumes "graph_wf g" and "vertex_count g \<le> 2 ^ 32 - 1" and "source \<in> vertex_set g"
  shows "\<exists>ds. dijkstra g source weight_of = Some (Inr ds) \<and> length ds = vertex_count g \<and>
    (\<forall>v \<in> vertex_set g.
      (\<forall>len. walk g (\<lambda>e. unat (weight_of e)) source v len \<longrightarrow> unat (ds ! unat v) \<le> len) \<and>
      (ds ! unat v \<noteq> unreachable_weight \<longrightarrow> walk g (\<lambda>e. unat (weight_of e)) source v (unat (ds ! unat v))))"
  using assms by (rule dijkstra_ok)

lemma dijkstra_shortest_witness:
  "\<exists>ds. dijkstra (\<lparr>g_adjacency = [[\<lparr>ge_target = 1, ge_data = 7\<rparr>], [], []], g_edge_count = 1\<rparr> :: (8 word, 8) graph)
    0 ge_data = Some (Inr ds) \<and> length ds = 3"
proof -
  have "(0 :: 8 word) \<in> vertex_set (\<lparr>g_adjacency = [[\<lparr>ge_target = 1, ge_data = 7\<rparr>], [], []], g_edge_count = 1\<rparr>
      :: (8 word, 8) graph)"
    by (simp add: vertex_set_def vertex_count_def)
  with dijkstra_shortest [OF graph_two(1) [of "7 :: 8 word"], of 0 ge_data] graph_two(2) [of "7 :: 8 word"]
  show ?thesis by auto
qed

end
