(* ===== verification/Bitset.thy ===== *)
theory Bitset
  imports Container_Error
begin

text \<open>
  The bit set of run-time size: \<open>container/bitset_dynamic.hpp\<close>. Bits are packed into
  64-bit words; bits of the last word beyond the size are kept zero. The abstract view is
  the size and the set of indices whose bit is set. \<open>None\<close> is \<open>std::terminate\<close>: a size
  whose word count would wrap around ends the program.
\<close>

subsection \<open>The code\<close>

record bitset =
  bs_words :: "u64 list"
  bs_size :: nat

definition bits_per_word :: nat where "bits_per_word = 64"

definition bs_max_size :: nat where "bs_max_size = 2 ^ 64 - 1 - (bits_per_word - 1)"

definition word_index :: "nat \<Rightarrow> nat" where "word_index i = i div bits_per_word"

definition bit_index :: "nat \<Rightarrow> nat" where "bit_index i = i mod bits_per_word"

definition word_count :: "nat \<Rightarrow> nat option" where
  "word_count n =
     (if bs_max_size < n then None else Some ((n + bits_per_word - 1) div bits_per_word))"

definition clear_tail_bits :: "bitset \<Rightarrow> bitset" where
  "clear_tail_bits b =
     (let tail = bs_size b mod bits_per_word
      in if tail \<noteq> 0 \<and> bs_words b \<noteq> [] then
           let m = push_bit tail 1 - 1
           in b\<lparr>bs_words := (bs_words b)[length (bs_words b) - 1 := last (bs_words b) AND m]\<rparr>
         else b)"

definition bs_default :: bitset where
  "bs_default = \<lparr>bs_words = [], bs_size = 0\<rparr>"

definition bs_make :: "nat \<Rightarrow> bool \<Rightarrow> bitset option" where
  "bs_make n v =
     (case word_count n of
        None \<Rightarrow> None
      | Some k \<Rightarrow> Some (clear_tail_bits \<lparr>bs_words = replicate k (if v then NOT 0 else 0), bs_size = n\<rparr>))"

definition or_bit :: "nat \<Rightarrow> u64 list \<Rightarrow> u64 list" where
  "or_bit i ws = ws[word_index i := ws ! word_index i OR push_bit (bit_index i) 1]"

fun or_bits :: "nat list \<Rightarrow> u64 list \<Rightarrow> u64 list" where
  "or_bits [] ws = ws"
| "or_bits (i # is) ws = or_bits is (or_bit i ws)"

fun init_bits :: "nat \<Rightarrow> bool list \<Rightarrow> u64 list \<Rightarrow> u64 list" where
  "init_bits i [] ws = ws"
| "init_bits i (x # xs) ws = init_bits (Suc i) xs (if x then or_bit i ws else ws)"

definition bs_from_list :: "bool list \<Rightarrow> bitset option" where
  "bs_from_list xs =
     (case word_count (length xs) of
        None \<Rightarrow> None
      | Some k \<Rightarrow> Some \<lparr>bs_words = init_bits 0 xs (replicate k 0), bs_size = length xs\<rparr>)"

definition bs_resize :: "nat \<Rightarrow> bool \<Rightarrow> bitset \<Rightarrow> bitset option" where
  "bs_resize n v b =
     (let old_size = bs_size b; old_words = length (bs_words b)
      in case word_count n of
           None \<Rightarrow> None
         | Some k \<Rightarrow>
             let ws = resize_list k (if v then NOT 0 else 0) (bs_words b);
                 boundary = old_words * bits_per_word;
                 fill_to = (if n < boundary then n else boundary);
                 ws' = (if v \<and> old_size < n \<and> 0 < old_words then or_bits [old_size..<fill_to] ws else ws)
             in Some (clear_tail_bits \<lparr>bs_words = ws', bs_size = n\<rparr>))"

definition bs_push_back :: "bool \<Rightarrow> bitset \<Rightarrow> bitset option" where
  "bs_push_back v b =
     (let new_size = bs_size b + 1
      in case word_count new_size of
           None \<Rightarrow> None
         | Some k \<Rightarrow>
             let ws = (if length (bs_words b) < k then bs_words b @ [0] else bs_words b);
                 ws' = (if v then or_bit (bs_size b) ws else ws)
             in Some \<lparr>bs_words = ws', bs_size = new_size\<rparr>)"

definition bs_clear :: "bitset \<Rightarrow> bitset" where
  "bs_clear b = b\<lparr>bs_words := [], bs_size := 0\<rparr>"

definition bs_set :: "nat \<Rightarrow> bitset \<Rightarrow> (container_error + unit) \<times> bitset" where
  "bs_set i b =
     (if bs_size b \<le> i then (Inl Out_of_range, b)
      else (Inr (), b\<lparr>bs_words := or_bit i (bs_words b)\<rparr>))"

definition bs_reset :: "nat \<Rightarrow> bitset \<Rightarrow> (container_error + unit) \<times> bitset" where
  "bs_reset i b =
     (if bs_size b \<le> i then (Inl Out_of_range, b)
      else (Inr (), b\<lparr>bs_words := (bs_words b)[word_index i :=
              bs_words b ! word_index i AND NOT (push_bit (bit_index i) 1)]\<rparr>))"

definition bs_flip :: "nat \<Rightarrow> bitset \<Rightarrow> (container_error + unit) \<times> bitset" where
  "bs_flip i b =
     (if bs_size b \<le> i then (Inl Out_of_range, b)
      else (Inr (), b\<lparr>bs_words := (bs_words b)[word_index i :=
              bs_words b ! word_index i XOR push_bit (bit_index i) 1]\<rparr>))"

definition bs_nth :: "bitset \<Rightarrow> nat \<Rightarrow> bool" where
  "bs_nth b i = (drop_bit (bit_index i) (bs_words b ! word_index i) AND 1 \<noteq> 0)"

definition bs_test :: "nat \<Rightarrow> bitset \<Rightarrow> container_error + bool" where
  "bs_test i b =
     (if bs_size b \<le> i then Inl Out_of_range
      else Inr (drop_bit (bit_index i) (bs_words b ! word_index i) AND 1 \<noteq> 0))"

definition bs_set_all :: "bitset \<Rightarrow> bitset" where
  "bs_set_all b = clear_tail_bits (b\<lparr>bs_words := map (\<lambda>w. NOT 0) (bs_words b)\<rparr>)"

definition bs_reset_all :: "bitset \<Rightarrow> bitset" where
  "bs_reset_all b = b\<lparr>bs_words := map (\<lambda>w. 0) (bs_words b)\<rparr>"

definition bs_flip_all :: "bitset \<Rightarrow> bitset" where
  "bs_flip_all b = clear_tail_bits (b\<lparr>bs_words := map (\<lambda>w. NOT w) (bs_words b)\<rparr>)"

text \<open>\<open>std::popcount\<close> and \<open>std::countr_zero\<close>.\<close>

definition popcount64 :: "u64 \<Rightarrow> nat" where
  "popcount64 w = length (filter (bit w) [0..<64])"

definition countr_zero64 :: "u64 \<Rightarrow> nat" where
  "countr_zero64 w = length (takeWhile (\<lambda>i. \<not> bit w i) [0..<64])"

definition bs_count :: "bitset \<Rightarrow> nat" where
  "bs_count b = sum_list (map popcount64 (bs_words b))"

definition bs_any :: "bitset \<Rightarrow> bool" where
  "bs_any b = list_ex (\<lambda>w. w \<noteq> 0) (bs_words b)"

definition bs_none :: "bitset \<Rightarrow> bool" where
  "bs_none b = (\<not> bs_any b)"

definition bs_all :: "bitset \<Rightarrow> bool" where
  "bs_all b = (bs_count b = bs_size b)"

text \<open>The scan of \<open>find_first_set\<close>: \<open>w\<close> is the current word, \<open>ws\<close> the words behind it.\<close>

fun first_set_loop :: "nat \<Rightarrow> nat \<Rightarrow> u64 \<Rightarrow> u64 list \<Rightarrow> nat" where
  "first_set_loop n index w ws =
     (if w \<noteq> 0 then
        let b = index * bits_per_word + countr_zero64 w in (if b < n then b else n)
      else case ws of [] \<Rightarrow> n | w' # ws' \<Rightarrow> first_set_loop n (Suc index) w' ws')"

definition bs_find_first_set :: "nat \<Rightarrow> bitset \<Rightarrow> nat" where
  "bs_find_first_set start b =
     (if bs_size b \<le> start then bs_size b
      else
        let index = word_index start
        in first_set_loop (bs_size b) index
             (bs_words b ! index AND push_bit (bit_index start) (NOT 0))
             (drop (Suc index) (bs_words b)))"

definition bs_and :: "bitset \<Rightarrow> bitset \<Rightarrow> bitset" where
  "bs_and a b =
     (let shared = (if length (bs_words a) < length (bs_words b) then length (bs_words a) else length (bs_words b))
      in clear_tail_bits (a\<lparr>bs_words :=
           map2 (\<lambda>v w. v AND w) (take shared (bs_words a)) (take shared (bs_words b))
           @ map (\<lambda>w. 0) (drop shared (bs_words a))\<rparr>))"

definition bs_or :: "bitset \<Rightarrow> bitset \<Rightarrow> bitset" where
  "bs_or a b =
     (let shared = (if length (bs_words a) < length (bs_words b) then length (bs_words a) else length (bs_words b))
      in clear_tail_bits (a\<lparr>bs_words :=
           map2 (\<lambda>v w. v OR w) (take shared (bs_words a)) (take shared (bs_words b))
           @ drop shared (bs_words a)\<rparr>))"

definition bs_xor :: "bitset \<Rightarrow> bitset \<Rightarrow> bitset" where
  "bs_xor a b =
     (let shared = (if length (bs_words a) < length (bs_words b) then length (bs_words a) else length (bs_words b))
      in clear_tail_bits (a\<lparr>bs_words :=
           map2 (\<lambda>v w. v XOR w) (take shared (bs_words a)) (take shared (bs_words b))
           @ drop shared (bs_words a)\<rparr>))"

definition bs_eq :: "bitset \<Rightarrow> bitset \<Rightarrow> bool" where
  "bs_eq a b = (bs_size a = bs_size b \<and> bs_words a = bs_words b)"

text \<open>\<open>operator<=>\<close>: the words in lexicographic order, then the sizes.\<close>

datatype strong_ordering = Less | Equal | Greater

definition cmp_of :: "'a::linorder \<Rightarrow> 'a \<Rightarrow> strong_ordering" where
  "cmp_of x y = (if x < y then Less else if x = y then Equal else Greater)"

fun vector_cmp :: "'a::linorder list \<Rightarrow> 'a list \<Rightarrow> strong_ordering" where
  "vector_cmp [] [] = Equal"
| "vector_cmp [] (y # ys) = Less"
| "vector_cmp (x # xs) [] = Greater"
| "vector_cmp (x # xs) (y # ys) = (if cmp_of x y \<noteq> Equal then cmp_of x y else vector_cmp xs ys)"

definition bs_cmp :: "bitset \<Rightarrow> bitset \<Rightarrow> strong_ordering" where
  "bs_cmp a b =
     (let c = vector_cmp (bs_words a) (bs_words b)
      in if c \<noteq> Equal then c else cmp_of (bs_size a) (bs_size b))"

text \<open>Iterating the set bits: the current word with the bits already visited dropped.\<close>

record bit_iter =
  it_words :: "u64 list"
  it_word_idx :: nat
  it_remaining :: u64

function it_advance :: "bit_iter \<Rightarrow> bit_iter" where
  "it_advance t =
     (if it_remaining t = 0 then
        let idx = it_word_idx t + 1
        in if length (it_words t) \<le> idx then t\<lparr>it_word_idx := length (it_words t)\<rparr>
           else it_advance (t\<lparr>it_word_idx := idx, it_remaining := it_words t ! idx\<rparr>)
      else t)"
  by pat_completeness auto
termination
  by (relation "measure (\<lambda>t. length (it_words t) - it_word_idx t)") auto

declare it_advance.simps [simp del] first_set_loop.simps [simp del]

definition it_begin :: "u64 list \<Rightarrow> bit_iter" where
  "it_begin ws =
     (if 0 < length ws then it_advance \<lparr>it_words = ws, it_word_idx = 0, it_remaining = ws ! 0\<rparr>
      else \<lparr>it_words = ws, it_word_idx = 0, it_remaining = 0\<rparr>)"

definition it_end :: "u64 list \<Rightarrow> bit_iter" where
  "it_end ws = \<lparr>it_words = ws, it_word_idx = length ws, it_remaining = 0\<rparr>"

definition it_deref :: "bit_iter \<Rightarrow> nat" where
  "it_deref t = it_word_idx t * bits_per_word + countr_zero64 (it_remaining t)"

definition it_next :: "bit_iter \<Rightarrow> bit_iter" where
  "it_next t = it_advance (t\<lparr>it_remaining := it_remaining t AND (it_remaining t - 1)\<rparr>)"

subsection \<open>Words as one row of bits\<close>

definition wbit :: "u64 list \<Rightarrow> nat \<Rightarrow> bool" where
  "wbit ws i \<longleftrightarrow> i div 64 < length ws \<and> bit (ws ! (i div 64)) (i mod 64)"

definition bset :: "bitset \<Rightarrow> nat set" where
  "bset b = {i. wbit (bs_words b) i}"

definition bs_wf :: "bitset \<Rightarrow> bool" where
  "bs_wf b \<longleftrightarrow> bs_size b \<le> bs_max_size \<and> length (bs_words b) = (bs_size b + 63) div 64 \<and>
     bset b \<subseteq> {..<bs_size b}"

lemma wbit_bound: "wbit ws i \<Longrightarrow> i < 64 * length ws"
  by (auto simp: wbit_def)

lemma wbit_ext: "length vs = length ws \<Longrightarrow> (\<And>i. wbit vs i = wbit ws i) \<Longrightarrow> vs = ws"
proof (rule nth_equalityI)
  fix k assume len: "length vs = length ws" and eq: "\<And>i. wbit vs i = wbit ws i" and k: "k < length vs"
  show "vs ! k = ws ! k"
  proof (rule bit_word_eqI)
    fix n assume "n < LENGTH(64)"
    then have "(64 * k + n) div 64 = k" "(64 * k + n) mod 64 = n" by auto
    with eq [of "64 * k + n"] len k show "bit (vs ! k) n = bit (ws ! k) n" by (simp add: wbit_def)
  qed
qed simp

lemma wbit_update:
  assumes "k < length ws"
  shows "wbit (ws[k := w]) i \<longleftrightarrow> (if i div 64 = k then bit w (i mod 64) else wbit ws i)"
  using assms by (auto simp: wbit_def nth_list_update)

lemma wbit_replicate: "wbit (replicate k 0) i \<longleftrightarrow> False"
  by (simp add: wbit_def)

lemma bit_one_at: "bit (push_bit k (1 :: u64)) n \<longleftrightarrow> n = k \<and> k < 64"
  unfolding bit_push_bit_iff by (auto simp: bit_1_iff)

lemma div_mod_eq: "i = j \<longleftrightarrow> i div 64 = j div 64 \<and> i mod 64 = j mod 64" for i j :: nat
  by (metis div_mult_mod_eq)

lemma index_defs: "word_index i = i div 64" "bit_index i = i mod 64" "bits_per_word = 64"
  by (simp_all add: word_index_def bit_index_def bits_per_word_def)

lemma wbit_or_bit: "i div 64 < length ws \<Longrightarrow> wbit (or_bit i ws) j \<longleftrightarrow> j = i \<or> wbit ws j"
proof -
  assume i: "i div 64 < length ws"
  have "wbit (or_bit i ws) j \<longleftrightarrow>
      (if j div 64 = i div 64 then bit (ws ! (i div 64) OR push_bit (i mod 64) 1) (j mod 64) else wbit ws j)"
    by (simp only: or_bit_def index_defs wbit_update [OF i])
  with i show ?thesis
    unfolding bit_or_iff bit_one_at div_mod_eq [of j i] by (auto simp: wbit_def)
qed

lemma length_or_bit [simp]: "length (or_bit i ws) = length ws"
  by (simp add: or_bit_def)

lemma wbit_or_bits:
  "\<forall>i \<in> set is. i div 64 < length ws \<Longrightarrow>
   wbit (or_bits is ws) j \<longleftrightarrow> j \<in> set is \<or> wbit ws j"
  by (induction "is" arbitrary: ws) (auto simp: wbit_or_bit)

lemma length_or_bits [simp]: "length (or_bits is ws) = length ws"
  by (induction "is" arbitrary: ws) auto

lemma mask_bits: "tail < 64 \<Longrightarrow> bit (2 ^ tail - 1 :: u64) n \<longleftrightarrow> n < tail"
  by (auto simp: bit_mask_iff simp flip: mask_eq_exp_minus_1)

lemma words_round_up: "n mod 64 \<noteq> 0 \<Longrightarrow> (n + 63) div 64 = Suc (n div 64)" for n :: nat
proof -
  assume "n mod 64 \<noteq> 0"
  then obtain q r where "n = 64 * q + Suc r" "Suc r < 64"
    by (metis mult_div_mod_eq mod_less_divisor not0_implies_Suc zero_less_numeral)
  then have "n + 63 = 64 * Suc q + r" "r < 64" "n = 64 * q + Suc r" by simp_all
  with \<open>Suc r < 64\<close> show ?thesis by (metis add.commute div_mult_self2 div_less add_0 zero_neq_numeral)
qed

text \<open>Clearing the tail keeps exactly the bits below the size.\<close>

lemma clear_tail_bits_ok:
  assumes "length (bs_words b) = (bs_size b + 63) div 64"
  shows "bset (clear_tail_bits b) = bset b \<inter> {..<bs_size b}"
    and "bs_size (clear_tail_bits b) = bs_size b"
    and "length (bs_words (clear_tail_bits b)) = length (bs_words b)"
proof -
  let ?n = "bs_size b" and ?ws = "bs_words b"
  show "bs_size (clear_tail_bits b) = ?n" "length (bs_words (clear_tail_bits b)) = length ?ws"
    by (simp_all add: clear_tail_bits_def Let_def)
  show "bset (clear_tail_bits b) = bset b \<inter> {..<?n}"
  proof (cases "?n mod 64 = 0 \<or> ?ws = []")
    case True
    then have "64 * length ?ws \<le> ?n" using assms by auto
    then have "bset b \<subseteq> {..<?n}" using wbit_bound by (fastforce simp: bset_def)
    with True show ?thesis by (auto simp: clear_tail_bits_def Let_def index_defs)
  next
    case False
    let ?k = "length ?ws - 1"
    have m: "?n mod 64 \<noteq> 0" and ne: "?ws \<noteq> []" using False by auto
    have "?n div 64 = ?k" using words_round_up [OF m] assms by simp
    with ne have k: "?k < length ?ws" "last ?ws = ?ws ! ?k" "?n div 64 = ?k"
      by (simp_all add: last_conv_nth)
    have cl: "bs_words (clear_tail_bits b) = ?ws[?k := ?ws ! ?k AND (push_bit (?n mod 64) 1 - 1)]"
      using False k by (simp add: clear_tail_bits_def Let_def index_defs)
    have "wbit (bs_words (clear_tail_bits b)) i \<longleftrightarrow> wbit ?ws i \<and> i < ?n" for i
    proof (cases "i div 64 = ?k")
      case True
      then have "i < ?n \<longleftrightarrow> i mod 64 < ?n mod 64" using k(3)
        by (metis div_mult_mod_eq add_less_cancel_left)
      with True k show ?thesis
        unfolding cl wbit_update [OF k(1)] by (simp add: bit_and_iff mask_bits) (auto simp: wbit_def)
    next
      case False
      have "i div 64 < length ?ws \<Longrightarrow> i < ?n"
      proof -
        assume "i div 64 < length ?ws"
        with False have "i div 64 < ?n div 64" using k(3) by simp
        then show "i < ?n" by (meson div_le_mono not_less)
      qed
      with False show ?thesis
        unfolding cl wbit_update [OF k(1)] by (auto simp: wbit_def)
    qed
    then show ?thesis by (auto simp: bset_def)
  qed
qed

lemma in_bset: "i \<in> bset b \<longleftrightarrow> wbit (bs_words b) i"
  by (simp add: bset_def)

lemma bs_wf_index: "bs_wf b \<Longrightarrow> i < bs_size b \<Longrightarrow> i div 64 < length (bs_words b)"
  by (auto simp: bs_wf_def)

lemma clear_tail_wf:
  assumes "length (bs_words b) = (bs_size b + 63) div 64" and "bs_size b \<le> bs_max_size"
  shows "bs_wf (clear_tail_bits b)"
  using clear_tail_bits_ok [OF assms(1)] assms by (auto simp: bs_wf_def)

lemma word_count_Some: "n \<le> bs_max_size \<Longrightarrow> word_count n = Some ((n + 63) div 64)"
  by (simp add: word_count_def bits_per_word_def)

lemma word_count_None: "bs_max_size < n \<Longrightarrow> word_count n = None"
  by (simp add: word_count_def)

text \<open>A mask of all ones and of zeros, seen as bits.\<close>

lemma wbit_fill: "wbit (replicate k (- 1)) i \<longleftrightarrow> i < 64 * k"
  by (auto simp: wbit_def)

lemma words_cover: "i < n \<Longrightarrow> i < 64 * ((n + 63) div 64)" for i n :: nat
  by auto

lemma bs_make_ok:
  assumes "n \<le> bs_max_size"
  obtains b where "bs_make n v = Some b" and "bs_wf b" and "bs_size b = n"
    and "bset b = (if v then {..<n} else {})"
proof
  let ?b = "\<lparr>bs_words = replicate ((n + 63) div 64) (if v then NOT 0 else 0), bs_size = n\<rparr>"
  have len: "length (bs_words ?b) = (bs_size ?b + 63) div 64" by simp
  show "bs_make n v = Some (clear_tail_bits ?b)"
    using assms by (simp add: bs_make_def word_count_Some)
  show "bs_wf (clear_tail_bits ?b)" using clear_tail_wf [OF len] assms by simp
  show "bs_size (clear_tail_bits ?b) = n" using clear_tail_bits_ok(2) [OF len] by simp
  show "bset (clear_tail_bits ?b) = (if v then {..<n} else {})"
    unfolding clear_tail_bits_ok(1) [OF len]
    by (auto simp: in_bset wbit_fill wbit_replicate words_cover)
qed

subsection \<open>The operations on one bit\<close>

lemma word_update_wf:
  assumes "bs_wf b" and "i < bs_size b" and "bset (b\<lparr>bs_words := ws\<rparr>) \<subseteq> insert i (bset b)"
    and "length ws = length (bs_words b)"
  shows "bs_wf (b\<lparr>bs_words := ws\<rparr>)"
  using assms by (auto simp: bs_wf_def)

lemma bset_update:
  assumes "i div 64 < length (bs_words b)"
    and "\<And>n. bit w n \<longleftrightarrow> (if n = i mod 64 then v else bit (bs_words b ! (i div 64)) n)"
  shows "bset (b\<lparr>bs_words := (bs_words b)[i div 64 := w]\<rparr>) = (if v then insert i (bset b) else bset b - {i})"
proof (rule set_eqI)
  fix j
  have "j = i \<longleftrightarrow> j div 64 = i div 64 \<and> j mod 64 = i mod 64" by (rule div_mod_eq)
  then show "j \<in> bset (b\<lparr>bs_words := (bs_words b)[i div 64 := w]\<rparr>) \<longleftrightarrow>
      j \<in> (if v then insert i (bset b) else bset b - {i})"
    using assms(1) by (cases v; cases "j div 64 = i div 64")
      (simp_all add: in_bset wbit_update assms(2), auto simp: wbit_def)
qed

lemma bs_set_ok:
  assumes "bs_wf b" and "i < bs_size b"
  shows "fst (bs_set i b) = Inr ()" and "bs_size (snd (bs_set i b)) = bs_size b"
    and "bset (snd (bs_set i b)) = insert i (bset b)" and "bs_wf (snd (bs_set i b))"
proof -
  have k: "i div 64 < length (bs_words b)" using assms by (rule bs_wf_index)
  have b: "bset (b\<lparr>bs_words := or_bit i (bs_words b)\<rparr>) = insert i (bset b)"
    using wbit_or_bit [OF k] by (auto simp: in_bset)
  show "fst (bs_set i b) = Inr ()" "bs_size (snd (bs_set i b)) = bs_size b"
    "bset (snd (bs_set i b)) = insert i (bset b)"
    using assms b by (simp_all add: bs_set_def)
  show "bs_wf (snd (bs_set i b))"
    using word_update_wf [OF assms, of "or_bit i (bs_words b)"] b assms by (simp add: bs_set_def)
qed

lemma bs_reset_ok:
  assumes "bs_wf b" and "i < bs_size b"
  shows "fst (bs_reset i b) = Inr ()" and "bs_size (snd (bs_reset i b)) = bs_size b"
    and "bset (snd (bs_reset i b)) = bset b - {i}" and "bs_wf (snd (bs_reset i b))"
proof -
  let ?w = "bs_words b ! (i div 64) AND NOT (push_bit (i mod 64) 1)"
  have k: "i div 64 < length (bs_words b)" using assms by (rule bs_wf_index)
  have "bit ?w n \<longleftrightarrow> (if n = i mod 64 then False else bit (bs_words b ! (i div 64)) n)" for n
    unfolding bit_and_iff bit_not_iff bit_one_at by (auto dest: bit_imp_le_length)
  from bset_update [OF k this] 
  have b: "bset (b\<lparr>bs_words := (bs_words b)[i div 64 := ?w]\<rparr>) = bset b - {i}" by simp
  have e: "snd (bs_reset i b) = b\<lparr>bs_words := (bs_words b)[i div 64 := ?w]\<rparr>"
    and "fst (bs_reset i b) = Inr ()"
    using assms by (simp_all add: bs_reset_def index_defs)
  then show "fst (bs_reset i b) = Inr ()" "bs_size (snd (bs_reset i b)) = bs_size b"
    "bset (snd (bs_reset i b)) = bset b - {i}"
    using b by simp_all
  have "bset (b\<lparr>bs_words := (bs_words b)[i div 64 := ?w]\<rparr>) \<subseteq> insert i (bset b)"
    unfolding b by auto
  then show "bs_wf (snd (bs_reset i b))"
    unfolding e by (rule word_update_wf [OF assms]) simp
qed

lemma bs_flip_ok:
  assumes "bs_wf b" and "i < bs_size b"
  shows "fst (bs_flip i b) = Inr ()" and "bs_size (snd (bs_flip i b)) = bs_size b"
    and "bset (snd (bs_flip i b)) = (if i \<in> bset b then bset b - {i} else insert i (bset b))"
    and "bs_wf (snd (bs_flip i b))"
proof -
  let ?w = "bs_words b ! (i div 64) XOR push_bit (i mod 64) 1"
  have k: "i div 64 < length (bs_words b)" using assms by (rule bs_wf_index)
  have "bit ?w n \<longleftrightarrow> (if n = i mod 64 then i \<notin> bset b else bit (bs_words b ! (i div 64)) n)" for n
    unfolding bit_xor_iff bit_one_at using k by (auto simp: in_bset wbit_def)
  from bset_update [OF k this] 
  have b: "bset (b\<lparr>bs_words := (bs_words b)[i div 64 := ?w]\<rparr>) =
      (if i \<in> bset b then bset b - {i} else insert i (bset b))" by auto
  have e: "snd (bs_flip i b) = b\<lparr>bs_words := (bs_words b)[i div 64 := ?w]\<rparr>"
    and "fst (bs_flip i b) = Inr ()"
    using assms by (simp_all add: bs_flip_def index_defs)
  then show "fst (bs_flip i b) = Inr ()" "bs_size (snd (bs_flip i b)) = bs_size b"
    "bset (snd (bs_flip i b)) = (if i \<in> bset b then bset b - {i} else insert i (bset b))"
    using b by simp_all
  have "bset (b\<lparr>bs_words := (bs_words b)[i div 64 := ?w]\<rparr>) \<subseteq> insert i (bset b)"
    unfolding b by auto
  then show "bs_wf (snd (bs_flip i b))"
    unfolding e by (rule word_update_wf [OF assms]) simp
qed

lemma and_one_neq_0: "w AND 1 \<noteq> 0 \<longleftrightarrow> bit w 0" for w :: u64
  by (simp add: and_one_eq odd_iff_mod_2_eq_one bit_0)

lemma bs_nth_ok: "bs_wf b \<Longrightarrow> i < bs_size b \<Longrightarrow> bs_nth b i \<longleftrightarrow> i \<in> bset b"
  using bs_wf_index [of b i]
  unfolding bs_nth_def and_one_neq_0 bit_drop_bit_eq by (simp add: index_defs in_bset wbit_def)

lemma bs_test_ok: "bs_wf b \<Longrightarrow> bs_test i b = (if i < bs_size b then Inr (i \<in> bset b) else Inl Out_of_range)"
  using bs_nth_ok [of b i] by (simp add: bs_test_def bs_nth_def)

lemma bs_out_of_range:
  assumes "bs_size b \<le> i"
  shows "bs_set i b = (Inl Out_of_range, b)" and "bs_reset i b = (Inl Out_of_range, b)"
    and "bs_flip i b = (Inl Out_of_range, b)" and "bs_test i b = Inl Out_of_range"
  using assms by (simp_all add: bs_set_def bs_reset_def bs_flip_def bs_test_def)

subsection \<open>Growing, shrinking and the bulk operations\<close>

lemma wbit_append: "wbit (vs @ ws) i \<longleftrightarrow> (if i < 64 * length vs then wbit vs i else wbit ws (i - 64 * length vs))"
proof (cases "i < 64 * length vs")
  case True
  then have "i div 64 < length vs" by auto
  with True show ?thesis by (simp add: wbit_def nth_append)
next
  case False
  then obtain j where "i = 64 * length vs + j" by (metis le_Suc_ex not_less)
  then show ?thesis by (simp add: wbit_def nth_append)
qed

lemma wbit_take: "wbit (take k ws) i \<longleftrightarrow> i < 64 * k \<and> wbit ws i"
  by (auto simp: wbit_def)

lemma bs_push_back_ok:
  assumes wf: "bs_wf b" and n: "bs_size b < bs_max_size"
  obtains b' where "bs_push_back v b = Some b'" and "bs_wf b'" and "bs_size b' = Suc (bs_size b)"
    and "bset b' = (if v then insert (bs_size b) (bset b) else bset b)"
proof
  let ?n = "bs_size b" and ?k = "(bs_size b + 64) div 64"
  define ws where "ws = (if length (bs_words b) < ?k then bs_words b @ [0] else bs_words b)"
  let ?b = "\<lparr>bs_words = if v then or_bit ?n ws else ws, bs_size = ?n + 1\<rparr>"
  have len: "length ws = ?k" using wf by (auto simp: ws_def bs_wf_def)
  have same: "wbit ws i = wbit (bs_words b) i" for i
    by (auto simp: ws_def wbit_append dest: wbit_bound) (auto simp: wbit_def)
  have "?n div 64 < length ws" unfolding len by simp
  from wbit_or_bit [OF this] same
  show bs: "bset ?b = (if v then insert ?n (bset b) else bset b)" by (auto simp: in_bset)
  have "word_count (?n + 1) = Some ?k"
    using word_count_Some [of "?n + 1"] n by simp
  then show "bs_push_back v b = Some ?b" by (simp add: bs_push_back_def ws_def)
  have "bset ?b \<subseteq> {..<Suc ?n}" unfolding bs using wf by (auto simp: bs_wf_def)
  then show "bs_wf ?b" using len n by (auto simp: bs_wf_def)
  show "bs_size ?b = Suc ?n" by simp
qed

lemma wbit_resize: "wbit (resize_list k 0 ws) i \<longleftrightarrow> i < 64 * k \<and> wbit ws i"
  "wbit (resize_list k (- 1) ws) i \<longleftrightarrow> i < 64 * k \<and> (64 * length ws \<le> i \<or> wbit ws i)"
  by (auto simp: resize_list_def wbit_append wbit_take wbit_fill wbit_replicate dest: wbit_bound)

lemma bs_resize_ok:
  assumes wf: "bs_wf b" and n: "n \<le> bs_max_size"
  obtains b' where "bs_resize n v b = Some b'" and "bs_wf b'" and "bs_size b' = n"
    and "bset b' = bset b \<inter> {..<n} \<union> (if v then {bs_size b..<n} else {})"
proof
  let ?o = "bs_size b" and ?L = "length (bs_words b)" and ?k = "(n + 63) div 64"
  define ws where "ws = resize_list ?k (if v then - 1 else 0) (bs_words b)"
  define ws' where "ws' = (if v \<and> ?o < n \<and> 0 < ?L
      then or_bits [?o..<(if n < ?L * 64 then n else ?L * 64)] ws else ws)"
  let ?b = "\<lparr>bs_words = ws', bs_size = n\<rparr>"
  have len: "length (bs_words ?b) = (bs_size ?b + 63) div 64" by (simp add: ws'_def ws_def)
  have L: "?L = (?o + 63) div 64" using wf by (simp add: bs_wf_def)
  have lo: "i < ?o" if "wbit (bs_words b) i" for i using that wf by (auto simp: bs_wf_def bset_def)
  show "bs_resize n v b = Some (clear_tail_bits ?b)"
    using n by (simp add: bs_resize_def word_count_Some ws'_def ws_def bits_per_word_def Let_def)
  show "bs_wf (clear_tail_bits ?b)" using clear_tail_wf [OF len] n by simp
  show "bs_size (clear_tail_bits ?b) = n" using clear_tail_bits_ok(2) [OF len] by simp
  have "i < n \<Longrightarrow> wbit ws' i \<longleftrightarrow> wbit (bs_words b) i \<or> v \<and> ?o \<le> i" for i
  proof -
    assume i: "i < n"
    then have k: "i < 64 * ?k" by (rule words_cover)
    have oL: "?o \<le> 64 * ?L" unfolding L using words_cover [of "?o - 1" ?o] by auto
    have fill: "\<forall>j \<in> set [?o..<(if n < ?L * 64 then n else ?L * 64)]. j div 64 < length ws"
      using words_cover [of _ n] by (auto simp: ws_def)
    show ?thesis
    proof (cases "v \<and> ?o < n \<and> 0 < ?L")
      case True
      then have "wbit ws' i \<longleftrightarrow> i \<in> {?o..<(if n < ?L * 64 then n else ?L * 64)} \<or> wbit ws i"
        unfolding ws'_def using wbit_or_bits [OF fill, of i] by simp
      moreover have "wbit ws i \<longleftrightarrow> 64 * ?L \<le> i \<or> wbit (bs_words b) i"
        using True k by (simp add: ws_def wbit_resize)
      ultimately show ?thesis using True i oL lo [of i] by auto
    next
      case False
      with i k oL lo show ?thesis by (auto simp: ws'_def ws_def wbit_resize)
    qed
  qed
  then show "bset (clear_tail_bits ?b) = bset b \<inter> {..<n} \<union> (if v then {?o..<n} else {})"
    unfolding clear_tail_bits_ok(1) [OF len] by (auto simp: in_bset)
qed

lemma init_bits_ok:
  "(i + length xs) \<le> 64 * length ws \<Longrightarrow>
   length (init_bits i xs ws) = length ws \<and>
   (wbit (init_bits i xs ws) j \<longleftrightarrow> wbit ws j \<or> (i \<le> j \<and> j < i + length xs \<and> xs ! (j - i)))"
proof (induction xs arbitrary: i ws)
  case (Cons x xs)
  have "i div 64 < length ws" using Cons.prems by simp
  note o = wbit_or_bit [OF this]
  have "j < i + length (x # xs) \<and> i \<le> j \<longleftrightarrow> j = i \<or> (Suc i \<le> j \<and> j < Suc i + length xs)" by auto
  then show ?case
    using Cons.IH [of "Suc i" "if x then or_bit i ws else ws"] Cons.prems
    by (auto simp: o nth_Cons' Suc_diff_Suc)
qed auto

lemma bs_from_list_ok:
  assumes n: "length xs \<le> bs_max_size"
  obtains b where "bs_from_list xs = Some b" and "bs_wf b" and "bs_size b = length xs"
    and "bset b = {i. i < length xs \<and> xs ! i}"
proof
  let ?k = "(length xs + 63) div 64"
  let ?b = "\<lparr>bs_words = init_bits 0 xs (replicate ?k 0), bs_size = length xs\<rparr>"
  have "0 + length xs \<le> 64 * length (replicate ?k (0 :: u64))"
    using words_cover [of "length xs - 1" "length xs"] by (cases xs) auto
  note ok = init_bits_ok [OF this]
  show "bs_from_list xs = Some ?b" using n by (simp add: bs_from_list_def word_count_Some)
  have w: "wbit (bs_words ?b) j = (j < length xs \<and> xs ! j)" for j
    using ok [of j] by (simp add: wbit_replicate)
  show bs: "bset ?b = {i. i < length xs \<and> xs ! i}" unfolding bset_def w by (rule refl)
  have "bset ?b \<subseteq> {..<length xs}" unfolding bs by auto
  then show "bs_wf ?b" using ok n by (simp add: bs_wf_def)
  show "bs_size ?b = length xs" by simp
qed

lemma bs_set_all_ok:
  assumes "bs_wf b"
  shows "bset (bs_set_all b) = {..<bs_size b}" and "bs_wf (bs_set_all b)"
    and "bs_size (bs_set_all b) = bs_size b"
proof -
  let ?b = "b\<lparr>bs_words := map (\<lambda>w. NOT 0) (bs_words b)\<rparr>"
  have len: "length (bs_words ?b) = (bs_size ?b + 63) div 64" and n: "bs_size ?b \<le> bs_max_size"
    using assms by (simp_all add: bs_wf_def)
  have "i < bs_size b \<Longrightarrow> wbit (bs_words ?b) i" for i
    using bs_wf_index [OF assms] by (simp add: wbit_def)
  then show "bset (bs_set_all b) = {..<bs_size b}" "bs_wf (bs_set_all b)"
    "bs_size (bs_set_all b) = bs_size b"
    using clear_tail_bits_ok [OF len] clear_tail_wf [OF len n]
    by (auto simp: bs_set_all_def in_bset)
qed

lemma bs_reset_all_ok:
  assumes "bs_wf b"
  shows "bset (bs_reset_all b) = {}" and "bs_wf (bs_reset_all b)"
    and "bs_size (bs_reset_all b) = bs_size b"
  using assms by (auto simp: bs_reset_all_def bs_wf_def in_bset) (auto simp: wbit_def)

lemma bs_flip_all_ok:
  assumes "bs_wf b"
  shows "bset (bs_flip_all b) = {..<bs_size b} - bset b" and "bs_wf (bs_flip_all b)"
    and "bs_size (bs_flip_all b) = bs_size b"
proof -
  let ?b = "b\<lparr>bs_words := map (\<lambda>w. NOT w) (bs_words b)\<rparr>"
  have len: "length (bs_words ?b) = (bs_size ?b + 63) div 64" and n: "bs_size ?b \<le> bs_max_size"
    using assms by (simp_all add: bs_wf_def)
  have "i < bs_size b \<Longrightarrow> wbit (bs_words ?b) i \<longleftrightarrow> \<not> wbit (bs_words b) i" for i
    using bs_wf_index [OF assms] by (simp add: wbit_def bit_not_iff)
  then show "bset (bs_flip_all b) = {..<bs_size b} - bset b" "bs_wf (bs_flip_all b)"
    "bs_size (bs_flip_all b) = bs_size b"
    using clear_tail_bits_ok [OF len] clear_tail_wf [OF len n]
    by (auto simp: bs_flip_all_def in_bset)
qed

subsection \<open>Counting\<close>

lemma wbit_Cons: "wbit (w # ws) i \<longleftrightarrow> (if i < 64 then bit w i else wbit ws (i - 64))"
  using wbit_append [of "[w]" ws i] by (auto simp: wbit_def)

lemma finite_wbit [simp]: "finite {i. wbit ws i}"
  by (rule finite_subset [of _ "{..<64 * length ws}"]) (auto dest: wbit_bound)

lemma popcount64_card: "popcount64 w = card {i. bit w i}"
proof -
  have "set (filter (bit w) [0..<64]) = {i. bit w i}"
    using bit_imp_le_length [of w] by auto
  then show ?thesis unfolding popcount64_def by (metis distinct_card distinct_filter distinct_upt)
qed

lemma count_words: "sum_list (map popcount64 ws) = card {i. wbit ws i}"
proof (induction ws)
  case (Cons w ws)
  have split: "{i. wbit (w # ws) i} = {i. bit w i} \<union> (+) 64 ` {i. wbit ws i}"
    by (auto simp: wbit_Cons image_iff dest: bit_imp_le_length)
      (metis le_add_diff_inverse not_less)
  have "card {i. wbit (w # ws) i} = card {i. bit w i} + card ((+) 64 ` {i. wbit ws i})"
    unfolding split by (rule card_Un_disjoint) (auto dest: bit_imp_le_length)
  with Cons show ?case by (simp add: popcount64_card card_image)
qed (simp add: wbit_def)

lemma bs_count_ok: "bs_count b = card (bset b)"
  by (simp add: bs_count_def count_words bset_def)

lemma finite_bset [simp]: "finite (bset b)"
  by (simp add: bset_def)

lemma word_eq_0_bits: "w = 0 \<longleftrightarrow> (\<forall>n. \<not> bit w n)" for w :: u64
  by (simp add: word_bits_eq)

lemma bs_any_ok: "bs_any b \<longleftrightarrow> bset b \<noteq> {}"
proof -
  have "list_ex (\<lambda>w. w \<noteq> 0) ws \<longleftrightarrow> (\<exists>i. wbit ws i)" for ws
  proof (induction ws)
    case (Cons w ws)
    have "(\<exists>i. wbit (w # ws) i) \<longleftrightarrow> (\<exists>i. bit w i) \<or> (\<exists>i. wbit ws i)"
    proof
      assume "(\<exists>i. bit w i) \<or> (\<exists>i. wbit ws i)"
      moreover have "bit w i \<Longrightarrow> wbit (w # ws) i" for i
        using bit_imp_le_length [of w i] by (simp add: wbit_Cons)
      moreover have "wbit ws i \<Longrightarrow> wbit (w # ws) (64 + i)" for i by (simp add: wbit_Cons)
      ultimately show "\<exists>i. wbit (w # ws) i" by blast
    qed (auto simp: wbit_Cons split: if_splits)
    with Cons show ?case by (simp add: word_eq_0_bits)
  qed (simp add: wbit_def)
  then show ?thesis by (simp add: bs_any_def bset_def)
qed

lemma bs_all_ok: "bs_wf b \<Longrightarrow> bs_all b \<longleftrightarrow> bset b = {..<bs_size b}"
  unfolding bs_all_def bs_count_ok bs_wf_def
  by (metis card_lessThan card_subset_eq finite_lessThan)

subsection \<open>Finding the first set bit\<close>

lemma countr_zero64_ok:
  assumes "w \<noteq> 0"
  shows "bit w (countr_zero64 w)" and "countr_zero64 w < 64" and "j < countr_zero64 w \<Longrightarrow> \<not> bit w j"
proof -
  from assms obtain n where n: "bit w n" by (auto simp: word_eq_0_bits)
  then have "n < 64" by (auto dest: bit_imp_le_length)
  let ?t = "takeWhile (\<lambda>i. \<not> bit w i) [0..<64]"
  have "length ?t < 64"
  proof (rule ccontr)
    assume "\<not> length ?t < 64"
    then have "?t = [0..<64]"
      by (metis diff_zero length_upt length_takeWhile_le nle_le not_less takeWhile_eq_take take_all)
    then have "set ?t = {0..<64}" by (simp only: set_upt)
    with \<open>n < 64\<close> have "n \<in> set ?t" by (simp only: atLeastLessThan_iff) simp
    with n show False by (blast dest: set_takeWhileD)
  qed
  then show less: "countr_zero64 w < 64" by (simp add: countr_zero64_def)
  from nth_length_takeWhile [of "\<lambda>i. \<not> bit w i" "[0..<64]"] \<open>length ?t < 64\<close>
  show "bit w (countr_zero64 w)" by (simp add: countr_zero64_def)
  assume j: "j < countr_zero64 w"
  then have "?t ! j = j" using less by (simp add: countr_zero64_def takeWhile_nth)
  with j show "\<not> bit w j" unfolding countr_zero64_def by (metis (mono_tags, lifting) nth_mem set_takeWhileD)
qed

lemma first_set_loop_ok:
  fixes n index w ws
  defines "r \<equiv> first_set_loop n index w ws"
  shows "r \<le> n \<and> (r < n \<longrightarrow> (\<exists>j. r = 64 * index + j \<and> wbit (w # ws) j)) \<and>
    (\<forall>j. wbit (w # ws) j \<and> 64 * index + j < n \<longrightarrow> r \<le> 64 * index + j)"
  unfolding r_def
proof (induction n index w ws rule: first_set_loop.induct)
  case (1 n index w ws)
  show ?case
  proof (cases "w = 0")
    case False
    note z = countr_zero64_ok [OF False]
    then have "wbit (w # ws) j \<Longrightarrow> countr_zero64 w \<le> j" for j
      by (metis linorder_not_less order_less_trans wbit_Cons)
    with False z show ?thesis
      by (auto simp: first_set_loop.simps [of n index w ws] bits_per_word_def Let_def wbit_Cons mult.commute)
  next
    case True
    have shift: "wbit (0 # ws) j \<longleftrightarrow> (\<exists>k. j = 64 + k \<and> wbit ws k)" for j
      by (auto simp: wbit_Cons) (metis le_add_diff_inverse not_less)
    show ?thesis
    proof (cases ws)
      case Nil
      with True show ?thesis
        by (auto simp: first_set_loop.simps [of n index 0 "[]"] wbit_Cons) (auto simp: wbit_def)
    next
      case (Cons w' ws')
      from True have "\<not> w \<noteq> 0" by simp
      note ih = 1 [OF this Cons]
      have step: "first_set_loop n index w ws = first_set_loop n (Suc index) w' ws'"
        unfolding True Cons by (simp add: first_set_loop.simps [of n index 0 "w' # ws'"])
      show ?thesis unfolding step using ih
        unfolding True Cons shift [unfolded Cons] by (auto simp: algebra_simps)
    qed
  qed
qed

text \<open>The word the scan starts with keeps the bits from \<open>start\<close> on.\<close>

lemma wbit_drop: "wbit (drop k ws) i \<longleftrightarrow> wbit ws (64 * k + i)"
  by (auto simp: wbit_def less_diff_conv add.commute)

lemma bit_from: "bit (w AND push_bit k (NOT 0)) n \<longleftrightarrow> k \<le> n \<and> bit w n" for w :: u64
  unfolding bit_and_iff bit_push_bit_iff by (auto dest: bit_imp_le_length)

lemma bs_find_first_set_ok:
  fixes start b i
  assumes wf: "bs_wf b"
  defines "r \<equiv> bs_find_first_set start b"
  shows "r \<le> bs_size b" and "r < bs_size b \<Longrightarrow> r \<in> bset b \<and> start \<le> r"
    and "i \<in> bset b \<Longrightarrow> start \<le> i \<Longrightarrow> r \<le> i"
proof -
  let ?n = "bs_size b" and ?k = "start div 64" and ?m = "start mod 64"
  let ?w = "bs_words b ! ?k AND push_bit ?m (NOT 0)" and ?ws = "drop (Suc ?k) (bs_words b)"
  have "r \<le> ?n \<and> (r < ?n \<longrightarrow> r \<in> bset b \<and> start \<le> r) \<and>
      (i \<in> bset b \<longrightarrow> start \<le> i \<longrightarrow> r \<le> i)"
  proof (cases "?n \<le> start")
    case True
    have "i \<in> bset b \<Longrightarrow> i < ?n" using wf by (auto simp: bs_wf_def)
    with True show ?thesis by (auto simp: r_def bs_find_first_set_def)
  next
    case False
    then have k: "?k < length (bs_words b)" using bs_wf_index [OF wf] by simp
    have r: "r = first_set_loop ?n ?k ?w ?ws"
      using False by (simp add: r_def bs_find_first_set_def index_defs Let_def)
    have at: "64 * ?k + j \<in> bset b \<longleftrightarrow> wbit (bs_words b ! ?k # ?ws) j" for j
      using wbit_drop [of ?k "bs_words b" j] k by (simp add: in_bset Cons_nth_drop_Suc)
    have from_start: "wbit (?w # ?ws) j \<longleftrightarrow> 64 * ?k + j \<in> bset b \<and> start \<le> 64 * ?k + j" for j
    proof -
      have "start = 64 * ?k + ?m" "?m < 64" by simp_all
      then have "start \<le> 64 * ?k + j \<longleftrightarrow> ?m \<le> j" by linarith
      with \<open>?m < 64\<close> show ?thesis unfolding at wbit_Cons bit_from by auto
    qed
    note ok = first_set_loop_ok [of ?n ?k ?w ?ws, folded r, unfolded from_start]
    have up: "\<exists>j. i = 64 * ?k + j" if "start \<le> i"
      using that by (metis add.commute le_Suc_ex mult_div_mod_eq add.assoc)
    show ?thesis
    proof (intro conjI impI)
      assume i: "i \<in> bset b" "start \<le> i"
      then have "i < ?n" using wf by (auto simp: bs_wf_def)
      with i up ok show "r \<le> i" by blast
    qed (use ok in blast)+
  qed
  then show "r \<le> ?n" "r < ?n \<Longrightarrow> r \<in> bset b \<and> start \<le> r"
    "i \<in> bset b \<Longrightarrow> start \<le> i \<Longrightarrow> r \<le> i" by blast+
qed

subsection \<open>Combining two sets\<close>

lemma wbit_combine:
  assumes n: "n = min (length vs) (length ws)"
    and f: "\<And>v w i. bit (f v w) i \<longleftrightarrow> g (bit v i) (bit w i)"
    and r: "length rest = length vs - n" "\<And>i. wbit rest i = g' (wbit (drop n vs) i)"
    and g: "\<And>x. g x False = g' x" "\<not> g' False"
    and i: "i < 64 * length vs"
  shows "wbit (map2 f (take n vs) (take n ws) @ rest) i \<longleftrightarrow> g (wbit vs i) (wbit ws i)"
proof (cases "i div 64 < n")
  case True
  then have "i < 64 * n" by auto
  with True n show ?thesis by (simp add: wbit_append) (simp add: wbit_def f)
next
  case False
  then have ge: "64 * n \<le> i" by auto
  then have "wbit rest (i - 64 * n) = g' (wbit vs i)" by (simp add: r wbit_drop)
  moreover have "\<not> wbit ws i"
    using False n i by (auto simp: wbit_def)
  ultimately show ?thesis using ge n g by (simp add: wbit_append)
qed

lemma wbit_zeros: "wbit (map (\<lambda>w. 0) ws) i \<longleftrightarrow> False"
  by (auto simp: wbit_def)

lemma shared_min: "(if m < n then m else n) = min m n" for m n :: nat
  by simp

lemma bs_combine_ok:
  assumes wf: "bs_wf a"
    and ws: "length ws = length (bs_words a)"
    and bits: "\<And>i. i < 64 * length (bs_words a) \<Longrightarrow> wbit ws i \<longleftrightarrow> g (i \<in> bset a) (i \<in> bset b)"
  shows "bset (clear_tail_bits (a\<lparr>bs_words := ws\<rparr>)) = {i. i < bs_size a \<and> g (i \<in> bset a) (i \<in> bset b)}"
    and "bs_size (clear_tail_bits (a\<lparr>bs_words := ws\<rparr>)) = bs_size a"
    and "bs_wf (clear_tail_bits (a\<lparr>bs_words := ws\<rparr>))"
proof -
  let ?b = "a\<lparr>bs_words := ws\<rparr>"
  have len: "length (bs_words ?b) = (bs_size ?b + 63) div 64" and n: "bs_size ?b \<le> bs_max_size"
    using wf ws by (simp_all add: bs_wf_def)
  have "i < bs_size a \<Longrightarrow> i < 64 * length (bs_words a)" for i
    using words_cover wf by (simp add: bs_wf_def)
  with bits show "bset (clear_tail_bits ?b) = {i. i < bs_size a \<and> g (i \<in> bset a) (i \<in> bset b)}"
    unfolding clear_tail_bits_ok(1) [OF len] by (auto simp: in_bset)
  show "bs_size (clear_tail_bits ?b) = bs_size a" using clear_tail_bits_ok(2) [OF len] by simp
  show "bs_wf (clear_tail_bits ?b)" by (rule clear_tail_wf [OF len n])
qed

lemma bs_and_ok:
  assumes "bs_wf a" and "bs_wf b"
  shows "bset (bs_and a b) = bset a \<inter> bset b" and "bs_size (bs_and a b) = bs_size a"
    and "bs_wf (bs_and a b)"
proof -
  let ?n = "min (length (bs_words a)) (length (bs_words b))"
  let ?ws = "map2 (\<lambda>v w. v AND w) (take ?n (bs_words a)) (take ?n (bs_words b)) @ map (\<lambda>w. 0) (drop ?n (bs_words a))"
  have e: "bs_and a b = clear_tail_bits (a\<lparr>bs_words := ?ws\<rparr>)"
    unfolding bs_and_def shared_min Let_def by (rule refl)
  have "wbit ?ws i \<longleftrightarrow> i \<in> bset a \<and> i \<in> bset b" if "i < 64 * length (bs_words a)" for i
    unfolding in_bset
    by (rule wbit_combine [where g' = "\<lambda>_. False"]) (use that in \<open>auto simp: bit_and_iff wbit_zeros\<close>)
  note c = bs_combine_ok [OF assms(1) _ this, folded e, simplified]
  show "bset (bs_and a b) = bset a \<inter> bset b" "bs_size (bs_and a b) = bs_size a" "bs_wf (bs_and a b)"
    using c assms by (auto simp: bs_wf_def)
qed

lemma bs_or_ok:
  assumes "bs_wf a" and "bs_wf b"
  shows "bset (bs_or a b) = (bset a \<union> bset b) \<inter> {..<bs_size a}" and "bs_size (bs_or a b) = bs_size a"
    and "bs_wf (bs_or a b)"
proof -
  let ?n = "min (length (bs_words a)) (length (bs_words b))"
  let ?ws = "map2 (\<lambda>v w. v OR w) (take ?n (bs_words a)) (take ?n (bs_words b)) @ drop ?n (bs_words a)"
  have e: "bs_or a b = clear_tail_bits (a\<lparr>bs_words := ?ws\<rparr>)"
    unfolding bs_or_def shared_min Let_def by (rule refl)
  have "wbit ?ws i \<longleftrightarrow> (i \<in> bset a) \<or> (i \<in> bset b)" if "i < 64 * length (bs_words a)" for i
    unfolding in_bset
    by (rule wbit_combine [where g' = "\<lambda>x. x"]) (use that in \<open>auto simp: bit_or_iff\<close>)
  note c = bs_combine_ok [OF assms(1) _ this, folded e, simplified]
  show "bset (bs_or a b) = (bset a \<union> bset b) \<inter> {..<bs_size a}" "bs_size (bs_or a b) = bs_size a" "bs_wf (bs_or a b)"
    using c by auto
qed

lemma bs_xor_ok:
  assumes "bs_wf a" and "bs_wf b"
  shows "bset (bs_xor a b) = (bset a - bset b \<union> (bset b - bset a)) \<inter> {..<bs_size a}" and "bs_size (bs_xor a b) = bs_size a"
    and "bs_wf (bs_xor a b)"
proof -
  let ?n = "min (length (bs_words a)) (length (bs_words b))"
  let ?ws = "map2 (\<lambda>v w. v XOR w) (take ?n (bs_words a)) (take ?n (bs_words b)) @ drop ?n (bs_words a)"
  have e: "bs_xor a b = clear_tail_bits (a\<lparr>bs_words := ?ws\<rparr>)"
    unfolding bs_xor_def shared_min Let_def by (rule refl)
  have "wbit ?ws i \<longleftrightarrow> (i \<in> bset a) \<noteq> (i \<in> bset b)" if "i < 64 * length (bs_words a)" for i
    unfolding in_bset
    by (rule wbit_combine [where g' = "\<lambda>x. x"]) (use that in \<open>auto simp: bit_xor_iff\<close>)
  note c = bs_combine_ok [OF assms(1) _ this, folded e, simplified]
  show "bset (bs_xor a b) = (bset a - bset b \<union> (bset b - bset a)) \<inter> {..<bs_size a}" "bs_size (bs_xor a b) = bs_size a" "bs_wf (bs_xor a b)"
    using c by auto
qed

text \<open>Equality of the packed words is equality of the sets.\<close>

lemma bs_eq_ok:
  assumes "bs_wf a" and "bs_wf b"
  shows "bs_eq a b \<longleftrightarrow> bs_size a = bs_size b \<and> bset a = bset b"
proof
  assume "bs_size a = bs_size b \<and> bset a = bset b"
  moreover from this have "bs_words a = bs_words b"
    using assms wbit_ext [of "bs_words a" "bs_words b"] by (auto simp: bs_wf_def bset_def)
  ultimately show "bs_eq a b" by (simp add: bs_eq_def)
qed (simp add: bs_eq_def bset_def)

lemma vector_cmp_Equal: "vector_cmp xs ys = Equal \<longleftrightarrow> xs = ys"
  by (induction xs ys rule: vector_cmp.induct) (auto simp: cmp_of_def)

lemma vector_cmp_flip: "vector_cmp xs ys = Less \<longleftrightarrow> vector_cmp ys xs = Greater"
  by (induction xs ys rule: vector_cmp.induct) (auto simp: cmp_of_def)

lemma vector_cmp_trans:
  "vector_cmp xs ys = Less \<Longrightarrow> vector_cmp ys zs = Less \<Longrightarrow> vector_cmp xs zs = Less"
proof (induction xs ys arbitrary: zs rule: vector_cmp.induct)
  case (2 y ys)
  then show ?case by (cases zs) auto
next
  case (4 x xs y ys)
  then show ?case by (cases zs) (auto simp: cmp_of_def split: if_splits)
qed auto

lemma bs_cmp_ok:
  shows "bs_cmp a b = Equal \<longleftrightarrow> bs_eq a b"
    and "bs_cmp a b = Less \<longleftrightarrow> bs_cmp b a = Greater"
    and "bs_cmp a b = Less \<Longrightarrow> bs_cmp b c = Less \<Longrightarrow> bs_cmp a c = Less"
proof -
  let ?v = "\<lambda>x y. vector_cmp (bs_words x) (bs_words y)"
  note eq = vector_cmp_Equal [of "bs_words a" "bs_words b"]
    vector_cmp_Equal [of "bs_words b" "bs_words a"] vector_cmp_Equal [of "bs_words b" "bs_words c"]
    vector_cmp_Equal [of "bs_words a" "bs_words c"]
  show "bs_cmp a b = Equal \<longleftrightarrow> bs_eq a b"
    using eq by (auto simp: bs_cmp_def bs_eq_def cmp_of_def Let_def)
  show "bs_cmp a b = Less \<longleftrightarrow> bs_cmp b a = Greater"
    using eq(1,2) vector_cmp_flip [of "bs_words a" "bs_words b"]
    by (auto simp: bs_cmp_def cmp_of_def Let_def)
  show "bs_cmp a b = Less \<Longrightarrow> bs_cmp b c = Less \<Longrightarrow> bs_cmp a c = Less"
    using eq vector_cmp_trans [of "bs_words a" "bs_words b" "bs_words c"]
    by (auto simp: bs_cmp_def cmp_of_def Let_def split: if_splits)
qed

subsection \<open>Iterating the set bits\<close>

text \<open>The indices an iterator has still to visit.\<close>

definition it_set :: "bit_iter \<Rightarrow> nat set" where
  "it_set t = (if it_word_idx t < length (it_words t)
     then {64 * it_word_idx t + j |j. wbit (it_remaining t # drop (Suc (it_word_idx t)) (it_words t)) j}
     else {})"

definition it_ok :: "bit_iter \<Rightarrow> bool" where
  "it_ok t \<longleftrightarrow> (if it_word_idx t < length (it_words t) then it_remaining t \<noteq> 0 else t = it_end (it_words t))"

lemma it_set_skip:
  assumes "k < length ws"
  shows "it_set \<lparr>it_words = ws, it_word_idx = k, it_remaining = 0\<rparr> =
    {64 * Suc k + j |j. wbit (drop (Suc k) ws) j}"
proof -
  have "wbit (0 # drop (Suc k) ws) j \<longleftrightarrow> (\<exists>i. j = 64 + i \<and> wbit (drop (Suc k) ws) i)" for j
    by (auto simp: wbit_Cons) (metis le_add_diff_inverse not_less)
  with assms show ?thesis by (auto simp: it_set_def add.assoc)
qed

lemma it_advance_ok:
  "it_words (it_advance t) = it_words t \<and> it_set (it_advance t) = it_set t \<and>
   (it_word_idx t \<le> length (it_words t) \<longrightarrow>
     (it_word_idx t = length (it_words t) \<longrightarrow> it_remaining t = 0) \<longrightarrow> it_ok (it_advance t))"
proof (induction t rule: it_advance.induct)
  case (1 t)
  obtain ws k w where t: "t = \<lparr>it_words = ws, it_word_idx = k, it_remaining = w\<rparr>" by (cases t)
  show ?case
  proof (cases "w = 0")
    case False
    then have "it_advance t = t" by (subst it_advance.simps) (use t in auto)
    then show ?thesis using t False by (auto simp: it_ok_def it_end_def)
  next
    case True
    show ?thesis
    proof (cases "length ws \<le> k + 1")
      case True': True
      have "it_advance t = \<lparr>it_words = ws, it_word_idx = length ws, it_remaining = 0\<rparr>"
        by (subst it_advance.simps) (use t True True' in simp)
      moreover have "it_set t = {}"
        unfolding t using True True' it_set_skip [of k ws]
        by (cases "k < length ws") (simp add: wbit_def, simp add: it_set_def)
      ultimately show ?thesis using t by (simp add: it_ok_def it_end_def it_set_def)
    next
      case False
      let ?t = "\<lparr>it_words = ws, it_word_idx = k + 1, it_remaining = ws ! (k + 1)\<rparr>"
      have a: "it_advance t = it_advance ?t"
        by (subst it_advance.simps) (use t True False in simp)
      have "it_set ?t = it_set t"
        unfolding t using True False it_set_skip [of k ws]
        by (simp add: it_set_def Cons_nth_drop_Suc)
      moreover have "it_words (it_advance ?t) = ws \<and> it_set (it_advance ?t) = it_set ?t \<and> it_ok (it_advance ?t)"
        using 1 [of "k + 1"] t True False by simp
      ultimately show ?thesis unfolding a using t by simp
    qed
  qed
qed

lemma word_pred_clears:
  assumes "w \<noteq> (0 :: u64)"
  shows "bit (w AND (w - 1)) n \<longleftrightarrow> bit w n \<and> n \<noteq> countr_zero64 w"
proof -
  let ?k = "countr_zero64 w"
  note z = countr_zero64_ok [OF assms]
  define v where "v = w AND NOT (push_bit ?k 1)"
  have v: "bit v i \<longleftrightarrow> bit w i \<and> i \<noteq> ?k" for i
    unfolding v_def bit_and_iff bit_not_iff bit_one_at by (auto dest: bit_imp_le_length)
  have "v AND push_bit ?k 1 = 0"
    by (rule bit_eqI) (simp only: bit_and_iff bit_one_at v bit_0_eq bot_apply, auto)
  moreover have "w = v OR push_bit ?k 1"
    by (rule bit_eqI) (simp only: bit_or_iff bit_one_at v, use z in auto)
  ultimately have "w = v + push_bit ?k 1" by (simp add: disjunctive_add_eq_or)
  then have "w - 1 = v + mask ?k" by (simp add: mask_eq_exp_minus_1)
  moreover have "v AND mask ?k = 0"
    by (rule bit_eqI) (simp only: bit_and_iff bit_mask_iff v bit_0_eq bot_apply, use z in auto)
  ultimately have "w - 1 = v OR mask ?k" by (simp add: disjunctive_add_eq_or)
  then show ?thesis
    using z by (simp only: bit_and_iff bit_or_iff bit_mask_iff v) auto
qed

lemma it_deref_ok:
  assumes "it_ok t" and "it_word_idx t < length (it_words t)"
  shows "it_deref t \<in> it_set t" and "i \<in> it_set t \<Longrightarrow> it_deref t \<le> i"
    and "it_set (it_next t) = it_set t - {it_deref t}"
    and "it_words (it_next t) = it_words t" and "it_ok (it_next t)"
proof -
  let ?w = "it_remaining t" and ?k = "it_word_idx t"
  let ?t = "t\<lparr>it_remaining := ?w AND (?w - 1)\<rparr>"
  have "?w \<noteq> 0" using assms by (simp add: it_ok_def)
  note z = countr_zero64_ok [OF this] and p = word_pred_clears [OF this]
  have d: "it_deref t = 64 * ?k + countr_zero64 ?w" by (simp add: it_deref_def bits_per_word_def)
  show "it_deref t \<in> it_set t" using z assms(2) unfolding d by (auto simp: it_set_def wbit_Cons)
  show "i \<in> it_set t \<Longrightarrow> it_deref t \<le> i"
    using z assms(2) unfolding d
    by (auto simp: it_set_def wbit_Cons split: if_splits) (meson linorder_not_less order_less_imp_le)+
  note a = it_advance_ok [of ?t, folded it_next_def]
  have "it_set ?t = it_set t - {it_deref t}"
    using z assms(2) unfolding d by (auto simp: it_set_def wbit_Cons p split: if_splits)
  with a show "it_set (it_next t) = it_set t - {it_deref t}" by simp
  show "it_words (it_next t) = it_words t" "it_ok (it_next t)" using a assms(2) by simp_all
qed

lemma it_begin_ok:
  "it_words (it_begin ws) = ws" "it_set (it_begin ws) = {i. wbit ws i}" "it_ok (it_begin ws)"
proof -
  let ?t = "\<lparr>it_words = ws, it_word_idx = 0, it_remaining = ws ! 0\<rparr>"
  have "it_words (it_begin ws) = ws \<and> it_set (it_begin ws) = {i. wbit ws i} \<and> it_ok (it_begin ws)"
  proof (cases ws)
    case Nil
    then show ?thesis by (simp add: it_begin_def it_set_def it_ok_def it_end_def wbit_def)
  next
    case (Cons w ws')
    have "it_begin ws = it_advance ?t" using Cons by (simp add: it_begin_def)
    moreover have "it_set ?t = {i. wbit ws i}" using Cons by (simp add: it_set_def)
    ultimately show ?thesis using it_advance_ok [of ?t] Cons by simp
  qed
  then show "it_words (it_begin ws) = ws" "it_set (it_begin ws) = {i. wbit ws i}" "it_ok (it_begin ws)"
    by simp_all
qed

lemma it_set_empty: "it_ok t \<Longrightarrow> it_set t = {} \<longleftrightarrow> t = it_end (it_words t)"
proof
  assume "it_ok t" and e: "it_set t = {}"
  then have "\<not> it_word_idx t < length (it_words t)" using it_deref_ok(1) by blast
  with \<open>it_ok t\<close> show "t = it_end (it_words t)" by (simp add: it_ok_def)
next
  assume "t = it_end (it_words t)"
  then have "it_word_idx t = length (it_words t)" by (metis bit_iter.select_convs(2) it_end_def)
  then show "it_set t = {}" by (simp add: it_set_def)
qed

lemma it_ok_deref: "it_ok t \<Longrightarrow> it_set t \<noteq> {} \<Longrightarrow> it_word_idx t < length (it_words t)"
  by (auto simp: it_set_def split: if_splits)

lemma sorted_list_drop:
  fixes x :: nat
  assumes "set (drop k xs) = S" and "sorted xs" and "distinct xs" and "k < length xs"
    and "x \<in> S" and "\<And>i. i \<in> S \<Longrightarrow> x \<le> i"
  shows "xs ! k = x" and "set (drop (Suc k) xs) = S - {x}"
proof -
  have d: "drop k xs = xs ! k # drop (Suc k) xs" using assms(4) by (simp add: Cons_nth_drop_Suc)
  have "sorted (drop k xs)" using assms(2) by (simp add: sorted_wrt_drop)
  then have "y \<in> set (drop k xs) \<Longrightarrow> xs ! k \<le> y" for y unfolding d by auto
  moreover have "xs ! k \<in> S" unfolding assms(1) [symmetric] d by simp
  ultimately show "xs ! k = x" using assms(1,5,6) by (simp add: order_antisym)
  moreover have "distinct (drop k xs)" using assms(3) by simp
  ultimately show "set (drop (Suc k) xs) = S - {x}" unfolding assms(1) [symmetric] d by auto
qed

lemma it_steps:
  defines "xs \<equiv> \<lambda>ws. sorted_list_of_set {i. wbit ws i}"
  assumes "k \<le> length (xs ws)"
  shows "it_words ((it_next ^^ k) (it_begin ws)) = ws \<and> it_ok ((it_next ^^ k) (it_begin ws)) \<and>
    it_set ((it_next ^^ k) (it_begin ws)) = set (drop k (xs ws))"
  using assms(2)
proof (induction k)
  case 0
  then show ?case by (simp add: it_begin_ok xs_def)
next
  case (Suc k)
  let ?t = "(it_next ^^ k) (it_begin ws)"
  have ih: "it_words ?t = ws" "it_ok ?t" "it_set ?t = set (drop k (xs ws))" using Suc by auto
  have "it_set ?t \<noteq> {}" using Suc.prems by (simp add: ih(3))
  from it_ok_deref [OF ih(2) this] have "it_word_idx ?t < length (it_words ?t)" .
  note d = it_deref_ok [OF ih(2) this]
  have "set (drop (Suc k) (xs ws)) = it_set ?t - {it_deref ?t}"
    by (rule sorted_list_drop(2) [OF ih(3) [symmetric]])
      (use Suc.prems d in \<open>auto simp: xs_def\<close>)
  with d ih show ?case by simp
qed

text \<open>C14: Iterating a bit set visits exactly its set bits in increasing order, and
  reaches the end iterator after as many steps as there are set bits: the \<open>k\<close>-th
  dereferenced value is the \<open>k\<close>-th smallest set index.\<close>

theorem set_bits_iteration:
  "map (\<lambda>k. it_deref ((it_next ^^ k) (it_begin (bs_words b)))) [0..<bs_count b] = sorted_list_of_set (bset b)
   \<and> (it_next ^^ bs_count b) (it_begin (bs_words b)) = it_end (bs_words b)
   \<and> it_end (bs_words b) \<notin> set (map (\<lambda>k. (it_next ^^ k) (it_begin (bs_words b))) [0..<bs_count b])"
proof -
  let ?t = "\<lambda>k. (it_next ^^ k) (it_begin (bs_words b))"
  let ?xs = "sorted_list_of_set (bset b)"
  have n: "length ?xs = bs_count b" by (simp add: bs_count_ok)
  have s: "it_words (?t k) = bs_words b \<and> it_ok (?t k) \<and> it_set (?t k) = set (drop k ?xs)"
    if "k \<le> bs_count b" for k
    using it_steps [of k "bs_words b"] that n by (simp add: bset_def)
  have step: "it_deref (?t k) = ?xs ! k \<and> ?t k \<noteq> it_end (bs_words b)" if k: "k < bs_count b" for k
  proof -
    have w: "it_words (?t k) = bs_words b" "it_ok (?t k)" "it_set (?t k) = set (drop k ?xs)"
      using s [of k] k by auto
    have ne: "it_set (?t k) \<noteq> {}" unfolding w(3) using k n by simp
    note d = it_deref_ok [OF w(2) it_ok_deref [OF w(2) ne]]
    have "?xs ! k = it_deref (?t k)"
      by (rule sorted_list_drop(1) [OF w(3) [symmetric]]) (use k n d in auto)
    moreover have "?t k \<noteq> it_end (bs_words b)" using it_set_empty [OF w(2)] ne w(1) by simp
    ultimately show ?thesis by simp
  qed
  have "map (\<lambda>k. it_deref (?t k)) [0..<bs_count b] = ?xs"
    by (rule nth_equalityI) (use n step in auto)
  moreover have "?t (bs_count b) = it_end (bs_words b)"
    using s [of "bs_count b"] it_set_empty [of "?t (bs_count b)"] n by simp
  moreover have "it_end (bs_words b) \<notin> set (map ?t [0..<bs_count b])"
  proof
    assume "it_end (bs_words b) \<in> set (map ?t [0..<bs_count b])"
    then obtain k where "k < bs_count b" "it_end (bs_words b) = ?t k" by auto
    with step [of k] show False by simp
  qed
  ultimately show ?thesis by blast
qed

subsection \<open>Every bit set the program can build\<close>

inductive bs_reachable :: "bitset \<Rightarrow> bool" where
  default: "bs_reachable bs_default"
| make: "bs_make n v = Some b \<Longrightarrow> bs_reachable b"
| from_list: "bs_from_list xs = Some b \<Longrightarrow> bs_reachable b"
| resize: "bs_reachable b \<Longrightarrow> bs_resize n v b = Some b' \<Longrightarrow> bs_reachable b'"
| push_back: "bs_reachable b \<Longrightarrow> bs_push_back v b = Some b' \<Longrightarrow> bs_reachable b'"
| clear: "bs_reachable b \<Longrightarrow> bs_reachable (bs_clear b)"
| set: "bs_reachable b \<Longrightarrow> bs_reachable (snd (bs_set i b))"
| reset: "bs_reachable b \<Longrightarrow> bs_reachable (snd (bs_reset i b))"
| flip: "bs_reachable b \<Longrightarrow> bs_reachable (snd (bs_flip i b))"
| set_all: "bs_reachable b \<Longrightarrow> bs_reachable (bs_set_all b)"
| reset_all: "bs_reachable b \<Longrightarrow> bs_reachable (bs_reset_all b)"
| flip_all: "bs_reachable b \<Longrightarrow> bs_reachable (bs_flip_all b)"
| bs_and: "bs_reachable a \<Longrightarrow> bs_reachable b \<Longrightarrow> bs_reachable (bs_and a b)"
| bs_or: "bs_reachable a \<Longrightarrow> bs_reachable b \<Longrightarrow> bs_reachable (bs_or a b)"
| bs_xor: "bs_reachable a \<Longrightarrow> bs_reachable b \<Longrightarrow> bs_reachable (bs_xor a b)"

lemma bs_make_wf: "bs_make n v = Some b' \<Longrightarrow> bs_wf b'"
proof (cases "n \<le> bs_max_size")
  case True
  assume "bs_make n v = Some b'"
  then show ?thesis by (metis bs_make_ok True option.inject)
qed (auto simp: bs_make_def word_count_None Let_def)

lemma bs_from_list_wf: "bs_from_list xs = Some b' \<Longrightarrow> bs_wf b'"
proof (cases "length xs \<le> bs_max_size")
  case True
  assume "bs_from_list xs = Some b'"
  then show ?thesis by (metis bs_from_list_ok True option.inject)
qed (auto simp: bs_from_list_def word_count_None Let_def)

lemma bs_resize_wf: "bs_wf b \<Longrightarrow> bs_resize n v b = Some b' \<Longrightarrow> bs_wf b'"
proof (cases "n \<le> bs_max_size")
  case True
  assume "bs_wf b" and "bs_resize n v b = Some b'"
  then show ?thesis by (metis bs_resize_ok True option.inject)
qed (auto simp: bs_resize_def word_count_None Let_def)

lemma bs_push_back_wf: "bs_wf b \<Longrightarrow> bs_push_back v b = Some b' \<Longrightarrow> bs_wf b'"
proof (cases "bs_size b < bs_max_size")
  case True
  assume "bs_wf b" and "bs_push_back v b = Some b'"
  then show ?thesis by (metis bs_push_back_ok True option.inject)
qed (auto simp: bs_push_back_def word_count_None Let_def)

lemma bs_bit_ops_wf:
  assumes "bs_wf b"
  shows "bs_wf (snd (bs_set i b))" "bs_wf (snd (bs_reset i b))" "bs_wf (snd (bs_flip i b))"
  using assms bs_set_ok [of b i] bs_reset_ok [of b i] bs_flip_ok [of b i] bs_out_of_range [of b i]
  by (metis linorder_not_less snd_conv)+

lemmas bs_bulk_wf = bs_set_all_ok(2) bs_reset_all_ok(2) bs_flip_all_ok(2) bs_and_ok(3) bs_or_ok(3) bs_xor_ok(3)

lemma bs_empty_wf: "bs_wf bs_default" "bs_wf (bs_clear b)"
  by (auto simp: bs_wf_def bs_default_def bs_clear_def bset_def wbit_def)

text \<open>C15: Whatever sequence of constructions and operations built it, a bit set has as many words as
  its size needs, and no bit at or past its size is set.\<close>

theorem bitset_reachable_wf: "bs_reachable b \<Longrightarrow> bs_wf b"
  by (induction rule: bs_reachable.induct)
    (rule bs_empty_wf bs_make_wf bs_from_list_wf bs_resize_wf bs_push_back_wf
      bs_bit_ops_wf bs_bulk_wf; assumption)+

lemma bitset_reachable_wf_witness:
  "bs_wf (bs_flip_all (bs_clear bs_default))"
  by (rule bitset_reachable_wf) (rule bs_reachable.flip_all, rule bs_reachable.clear, rule bs_reachable.default)

text \<open>The scan for the next set bit returns the smallest set index that is at least \<open>start\<close>,
  or the size when there is none.\<close>

lemma find_first_set_least:
  assumes "bs_wf b"
  shows "bs_find_first_set start b =
    (if \<exists>i \<in> bset b. start \<le> i then LEAST i. i \<in> bset b \<and> start \<le> i else bs_size b)"
proof -
  let ?r = "bs_find_first_set start b"
  note ok = bs_find_first_set_ok [OF assms, where start = start]
  show ?thesis
  proof (cases "\<exists>i \<in> bset b. start \<le> i")
    case True
    then obtain i where i: "i \<in> bset b" "start \<le> i" by blast
    then have "i < bs_size b" using assms by (auto simp: bs_wf_def)
    with ok(3) [OF i] have "?r < bs_size b" by simp
    with ok have "(LEAST i. i \<in> bset b \<and> start \<le> i) = ?r" by (intro Least_equality) auto
    with True show ?thesis by simp
  next
    case False
    with ok(1,2) show ?thesis by (metis le_neq_implies_less)
  qed
qed

end
