(* ===== verification/Graph_Search.thy ===== *)
theory Graph_Search
  imports Graph Bitset
begin

text \<open>
  Breadth-first and depth-first traversal: \<open>algorithm/graph/bfs.hpp\<close> and \<open>dfs.hpp\<close>. The
  visitor is a function of the vertex and of its own state; its answer says whether to go on
  (a visitor returning \<open>void\<close> always does). \<open>None\<close> is a run that does not return.
\<close>

subsection \<open>The code\<close>

fun bfs_edges :: "('e, 'v::len) graph_edge list \<Rightarrow> bitset \<times> 'v word list \<Rightarrow> bitset \<times> 'v word list" where
  "bfs_edges [] st = st"
| "bfs_edges (e # es) (visited, queue) =
     (let target_idx = unat (ge_target e)
      in if \<not> bs_nth visited target_idx
         then bfs_edges es (snd (bs_set target_idx visited), queue @ [ge_target e])
         else bfs_edges es (visited, queue))"

partial_function (option) bfs_loop ::
    "('e, 'v::len) graph \<Rightarrow> ('v word \<Rightarrow> 's \<Rightarrow> bool \<times> 's) \<Rightarrow> bitset \<times> 'v word list \<Rightarrow> nat \<Rightarrow> 's \<Rightarrow> 's option" where
  "bfs_loop g visit st head s =
     (if head < length (snd st) then
        let u = snd st ! head
        in case visit u s of
             (go, s') \<Rightarrow>
               if \<not> go then Some s'
               else bfs_loop g visit (bfs_edges (edges_of g u) st) (head + 1) s'
      else Some s)"

definition bfs ::
    "('e, 'v::len) graph \<Rightarrow> 'v word \<Rightarrow> ('v word \<Rightarrow> 's \<Rightarrow> bool \<times> 's) \<Rightarrow> 's \<Rightarrow> (container_error + 's) option" where
  "bfs g source visit s =
     (if \<not> graph_contains g source then Some (Inl Out_of_range)
      else
        case bs_make (vertex_count g) False of
          None \<Rightarrow> None
        | Some visited \<Rightarrow>
            map_option Inr (bfs_loop g visit (snd (bs_set (unat source) visited), [source]) 0 s))"

text \<open>The neighbours are pushed last first, so that the first is popped first; the stack's top is
  the end of the list.\<close>

fun dfs_push :: "bitset \<Rightarrow> ('e, 'v::len) graph_edge list \<Rightarrow> nat \<Rightarrow> 'v word list \<Rightarrow> 'v word list" where
  "dfs_push visited adj 0 stack = stack"
| "dfs_push visited adj (Suc i) stack =
     (let target = ge_target (adj ! i)
      in dfs_push visited adj i
           (if \<not> bs_nth visited (unat target) then stack @ [target] else stack))"

partial_function (option) dfs_loop ::
    "('e, 'v::len) graph \<Rightarrow> ('v word \<Rightarrow> 's \<Rightarrow> bool \<times> 's) \<Rightarrow> bitset \<Rightarrow> 'v word list \<Rightarrow> 's \<Rightarrow> 's option" where
  "dfs_loop g visit visited stack s =
     (if stack = [] then Some s
      else
        let u = last stack; stack' = butlast stack
        in if bs_nth visited (unat u) then dfs_loop g visit visited stack' s
           else
             let visited' = snd (bs_set (unat u) visited)
             in case visit u s of
                  (go, s') \<Rightarrow>
                    if \<not> go then Some s'
                    else
                      let adj = edges_of g u
                      in dfs_loop g visit visited' (dfs_push visited' adj (length adj) stack') s')"

definition dfs ::
    "('e, 'v::len) graph \<Rightarrow> 'v word \<Rightarrow> ('v word \<Rightarrow> 's \<Rightarrow> bool \<times> 's) \<Rightarrow> 's \<Rightarrow> (container_error + 's) option" where
  "dfs g source visit s =
     (if \<not> graph_contains g source then Some (Inl Out_of_range)
      else
        case bs_make (vertex_count g) False of
          None \<Rightarrow> None
        | Some visited \<Rightarrow> map_option Inr (dfs_loop g visit visited [source] s))"

declare bfs_loop.simps [code] dfs_loop.simps [code]

subsection \<open>What a traversal is to do\<close>

definition succs :: "('e, 'v::len) graph \<Rightarrow> ('v word \<times> 'v word) set" where
  "succs g = {(u, v). \<exists>e \<in> set (edges_of g u). ge_target e = v}"

definition hops :: "('e, 'v::len) graph \<Rightarrow> 'v word \<Rightarrow> 'v word \<Rightarrow> nat" where
  "hops g s v = (LEAST k. (s, v) \<in> succs g ^^ k)"

text \<open>The visitor is called on the vertices in order until it says stop.\<close>

fun run_visitor :: "('v \<Rightarrow> 's \<Rightarrow> bool \<times> 's) \<Rightarrow> 'v list \<Rightarrow> 's \<Rightarrow> 's" where
  "run_visitor visit [] s = s"
| "run_visitor visit (v # vs) s =
     (case visit v s of (go, s') \<Rightarrow> if go then run_visitor visit vs s' else s')"

lemma hops_path: "(s, v) \<in> (succs g)\<^sup>* \<Longrightarrow> (s, v) \<in> succs g ^^ hops g s v"
  unfolding hops_def by (rule LeastI_ex) (simp add: rtrancl_power)

lemma hops_le: "(s, v) \<in> succs g ^^ k \<Longrightarrow> hops g s v \<le> k"
  unfolding hops_def by (rule Least_le)

lemma hops_self [simp]: "hops g s s = 0"
  using hops_le [where k = 0 and s = s and v = s and g = g] by simp

lemma hops_step: "(s, u) \<in> (succs g)\<^sup>* \<Longrightarrow> (u, v) \<in> succs g \<Longrightarrow> hops g s v \<le> Suc (hops g s u)"
  using hops_path [of s u g] by (intro hops_le) auto

text \<open>A shortest path to a vertex outside a set that holds the source leaves the set somewhere.\<close>

lemma shortest_exit:
  assumes "(s, v) \<in> (succs g)\<^sup>*" and "v \<notin> Q" and "s \<in> Q"
  shows "\<exists>p w. p \<in> Q \<and> w \<notin> Q \<and> (s, p) \<in> (succs g)\<^sup>* \<and> (p, w) \<in> succs g \<and>
    hops g s w = Suc (hops g s p) \<and> hops g s w \<le> hops g s v"
  using assms(1,2)
proof (induction "hops g s v" arbitrary: v rule: less_induct)
  case less
  have path: "(s, v) \<in> succs g ^^ hops g s v" using less.prems(1) by (rule hops_path)
  have "hops g s v \<noteq> 0" using path less.prems(2) assms(3) by (cases "hops g s v") auto
  then obtain k where k: "hops g s v = Suc k" by (cases "hops g s v") auto
  with path obtain y where y: "(s, y) \<in> succs g ^^ k" "(y, v) \<in> succs g" by auto
  then have ry: "(s, y) \<in> (succs g)\<^sup>*" by (metis relpow_imp_rtrancl)
  have "hops g s y = k" using hops_le [OF y(1)] hops_step [OF ry y(2)] k by simp
  show ?case
  proof (cases "y \<in> Q")
    case True
    with y ry k \<open>hops g s y = k\<close> less.prems(2) show ?thesis
      by (intro exI [of _ y] exI [of _ v]) simp
  next
    case False
    have "hops g s y < hops g s v" using k \<open>hops g s y = k\<close> by simp
    from less.hyps [OF this ry False] obtain p w where
      "p \<in> Q \<and> w \<notin> Q \<and> (s, p) \<in> (succs g)\<^sup>* \<and> (p, w) \<in> succs g \<and>
        hops g s w = Suc (hops g s p)" and "hops g s w \<le> hops g s y"
      by blast
    with \<open>hops g s y < hops g s v\<close> show ?thesis by (intro exI [of _ p] exI [of _ w]) simp
  qed
qed

text \<open>A bit set that marks the vertices of a set.\<close>

definition marks :: "('e, 'v::len) graph \<Rightarrow> bitset \<Rightarrow> 'v word set \<Rightarrow> bool" where
  "marks g b V \<longleftrightarrow> bs_wf b \<and> bs_size b = vertex_count g \<and> V \<subseteq> vertex_set g \<and> bset b = unat ` V"

lemma marks_nth:
  assumes "marks g b V" and "v \<in> vertex_set g"
  shows "bs_nth b (unat v) \<longleftrightarrow> v \<in> V"
proof -
  have "bs_nth b (unat v) \<longleftrightarrow> unat v \<in> bset b"
    using assms by (intro bs_nth_ok) (auto simp: marks_def vertex_set_def)
  also have "\<dots> \<longleftrightarrow> v \<in> V"
    using assms(1) unsigned_word_eqI [of v, where ?'a = nat] by (auto simp: marks_def)
  finally show ?thesis .
qed

lemma marks_set:
  assumes "marks g b V" and "v \<in> vertex_set g"
  shows "marks g (snd (bs_set (unat v) b)) (insert v V)"
proof -
  have wf: "bs_wf b" and i: "unat v < bs_size b" using assms by (auto simp: marks_def vertex_set_def)
  show ?thesis using bs_set_ok [OF wf i] assms by (simp add: marks_def)
qed

lemma marks_make:
  assumes "vertex_count g \<le> bs_max_size"
  obtains b where "bs_make (vertex_count g) False = Some b" and "marks g b {}"
proof -
  obtain b where "bs_make (vertex_count g) False = Some b" "bs_wf b" "bs_size b = vertex_count g" "bset b = {}"
    using bs_make_ok [OF assms, of False] by auto
  then show ?thesis by (intro that) (auto simp: marks_def)
qed

lemma succs_in_graph: "graph_wf g \<Longrightarrow> (u, v) \<in> succs g \<Longrightarrow> v \<in> vertex_set g"
  by (auto simp: succs_def graph_wf_def)

lemma reachable_in_graph:
  assumes "graph_wf g" and "s \<in> vertex_set g" and "(s, v) \<in> (succs g)\<^sup>*"
  shows "v \<in> vertex_set g"
  using assms(3,2) by (cases rule: rtrancl.cases) (use succs_in_graph [OF assms(1)] in auto)

lemma closed_reachable:
  assumes "s \<in> Q" and "\<And>u v. u \<in> Q \<Longrightarrow> (u, v) \<in> succs g \<Longrightarrow> v \<in> Q"
  shows "(succs g)\<^sup>* `` {s} \<subseteq> Q"
proof
  fix v assume "v \<in> (succs g)\<^sup>* `` {s}"
  then have "(s, v) \<in> (succs g)\<^sup>*" by simp
  then show "v \<in> Q" using assms by (induction rule: rtrancl_induct) auto
qed

subsection \<open>Breadth-first search\<close>

lemma bfs_edges_ok:
  assumes "marks g b (set q)" and "distinct q" and "\<forall>e \<in> set es. ge_target e \<in> vertex_set g"
  shows "\<exists>b' ws. bfs_edges es (b, q) = (b', q @ ws) \<and> marks g b' (set (q @ ws)) \<and> distinct (q @ ws) \<and>
    set (q @ ws) = set q \<union> ge_target ` set es"
  using assms
proof (induction es arbitrary: b q)
  case Nil
  then show ?case by (intro exI [of _ b] exI [of _ "[]"]) simp
next
  case (Cons e es)
  let ?v = "ge_target e"
  have v: "?v \<in> vertex_set g" and rest: "\<forall>e \<in> set es. ge_target e \<in> vertex_set g" using Cons.prems(3) by auto
  show ?case
  proof (cases "?v \<in> set q")
    case True
    then show ?thesis
      using Cons.IH [OF Cons.prems(1,2) rest] marks_nth [OF Cons.prems(1) v] by (auto simp: Let_def insert_absorb)
  next
    case False
    have m: "marks g (snd (bs_set (unat ?v) b)) (set (q @ [?v]))"
      using marks_set [OF Cons.prems(1) v] by simp
    have "distinct (q @ [?v])" using False Cons.prems(2) by simp
    from Cons.IH [OF m this rest] obtain b' ws where
      r: "bfs_edges es (snd (bs_set (unat ?v) b), q @ [?v]) = (b', (q @ [?v]) @ ws)"
      "marks g b' (set ((q @ [?v]) @ ws))" "distinct ((q @ [?v]) @ ws)"
      "set ((q @ [?v]) @ ws) = set (q @ [?v]) \<union> ge_target ` set es"
      by blast
    then show ?thesis
      using False marks_nth [OF Cons.prems(1) v] by (intro exI [of _ b'] exI [of _ "?v # ws"]) (auto simp: Let_def)
  qed
qed

lemma nth_subset: "head < length q \<Longrightarrow> set q \<subseteq> R `` {s} \<Longrightarrow> (s, q ! head) \<in> R"
  using nth_mem by fastforce

definition bfs_inv :: "('e, 'v::len) graph \<Rightarrow> 'v word \<Rightarrow> bitset \<Rightarrow> 'v word list \<Rightarrow> nat \<Rightarrow> bool" where
  "bfs_inv g s b q head \<longleftrightarrow>
     marks g b (set q) \<and> distinct q \<and> s \<in> set q \<and> head \<le> length q \<and>
     set q \<subseteq> (succs g)\<^sup>* `` {s} \<and>
     (\<forall>i < head. \<forall>v. (q ! i, v) \<in> succs g \<longrightarrow> v \<in> set q) \<and>
     sorted (map (hops g s) q) \<and>
     (head < length q \<longrightarrow> (\<forall>x \<in> set q. hops g s x \<le> Suc (hops g s (q ! head))))"

lemma sorted_map_nth: "sorted (map f q) \<Longrightarrow> i \<le> j \<Longrightarrow> j < length q \<Longrightarrow> f (q ! i) \<le> f (q ! j)"
  using sorted_nth_mono [of "map f q" i j] by simp

lemma bfs_new_hops:
  assumes "bfs_inv g s b q head" and "head < length q" and "(q ! head, w) \<in> succs g" and "w \<notin> set q"
  shows "hops g s w = Suc (hops g s (q ! head))"
proof (rule antisym)
  have r: "(s, q ! head) \<in> (succs g)\<^sup>*" using assms(1,2) by (intro nth_subset) (auto simp: bfs_inv_def)
  then show "hops g s w \<le> Suc (hops g s (q ! head))" using assms(3) by (rule hops_step)
  have "(s, w) \<in> (succs g)\<^sup>*" using r assms(3) by simp
  moreover have "s \<in> set q" using assms(1) by (simp add: bfs_inv_def)
  ultimately obtain p x where p: "p \<in> set q" "x \<notin> set q" "(p, x) \<in> succs g"
    "hops g s x = Suc (hops g s p)" "hops g s x \<le> hops g s w"
    using shortest_exit [of s w g "set q"] assms(4) by blast
  from p(1) obtain i where i: "i < length q" "q ! i = p" by (auto simp: in_set_conv_nth)
  have "head \<le> i" using assms(1) p(2,3) i unfolding bfs_inv_def by (metis not_le)
  then have "hops g s (q ! head) \<le> hops g s p"
    using sorted_map_nth [of "hops g s" q head i] assms(1) i by (simp add: bfs_inv_def)
  with p(4,5) show "Suc (hops g s (q ! head)) \<le> hops g s w" by simp
qed

lemma bfs_inv_step:
  assumes wf: "graph_wf g" and inv: "bfs_inv g s b q head" and h: "head < length q"
  obtains b' ws where "bfs_edges (edges_of g (q ! head)) (b, q) = (b', q @ ws)" and "bfs_inv g s b' (q @ ws) (Suc head)"
proof -
  let ?u = "q ! head"
  have m: "marks g b (set q)" and d: "distinct q" using inv by (simp_all add: bfs_inv_def)
  have t: "\<forall>e \<in> set (edges_of g ?u). ge_target e \<in> vertex_set g" using wf by (auto simp: graph_wf_def)
  obtain b' ws where r: "bfs_edges (edges_of g ?u) (b, q) = (b', q @ ws)" "marks g b' (set (q @ ws))"
    "distinct (q @ ws)" "set (q @ ws) = set q \<union> ge_target ` set (edges_of g ?u)"
    using bfs_edges_ok [OF m d t] by blast
  have succ: "(?u, w) \<in> succs g" "w \<notin> set q" if "w \<in> set ws" for w
    using that r(3,4) by (auto simp: succs_def)
  have hw: "hops g s w = Suc (hops g s ?u)" if "w \<in> set ws" for w
    using bfs_new_hops [OF inv h succ [OF that]] .
  have ru: "(s, ?u) \<in> (succs g)\<^sup>*" using inv h by (intro nth_subset) (auto simp: bfs_inv_def)
  have le: "hops g s x \<le> Suc (hops g s ?u)" if "x \<in> set (q @ ws)" for x
    using that hw inv h by (auto simp: bfs_inv_def)
  have "set (q @ ws) \<subseteq> (succs g)\<^sup>* `` {s}"
    using inv succ(1) ru by (auto simp: bfs_inv_def intro: rtrancl_into_rtrancl)
  moreover have "v \<in> set (q @ ws)" if "i < Suc head" "((q @ ws) ! i, v) \<in> succs g" for i v
  proof (cases "i = head")
    case True
    with that h have "(?u, v) \<in> succs g" by (simp add: nth_append)
    then show ?thesis unfolding r(4) by (auto simp: succs_def)
  next
    case False
    with that(1) have i: "i < head" by simp
    with that(2) h have "(q ! i, v) \<in> succs g" by (simp add: nth_append)
    with i inv have "v \<in> set q" unfolding bfs_inv_def by blast
    then show ?thesis by simp
  qed
  moreover have so: "sorted (map (hops g s) (q @ ws))"
  proof -
    have "map (hops g s) ws = map (\<lambda>_. Suc (hops g s ?u)) ws" using hw by simp
    then have "sorted (map (hops g s) ws)" by (simp add: map_replicate_const)
    with inv le hw show ?thesis by (simp add: bfs_inv_def sorted_append)
  qed
  moreover have "\<forall>x \<in> set (q @ ws). hops g s x \<le> Suc (hops g s ((q @ ws) ! Suc head))" if "Suc head < length (q @ ws)"
    using sorted_map_nth [OF so, of head "Suc head"] that h le by (fastforce simp: nth_append)
  ultimately have "bfs_inv g s b' (q @ ws) (Suc head)"
    unfolding bfs_inv_def using r(2,3) inv h by (auto simp: bfs_inv_def)
  with r(1) show ?thesis by (rule that)
qed

lemma bfs_inv_end:
  assumes "bfs_inv g s b q (length q)"
  shows "set q = (succs g)\<^sup>* `` {s}"
proof
  show "set q \<subseteq> (succs g)\<^sup>* `` {s}" using assms by (simp add: bfs_inv_def)
  show "(succs g)\<^sup>* `` {s} \<subseteq> set q"
    using assms by (intro closed_reachable) (auto simp: bfs_inv_def in_set_conv_nth)
qed

lemma bfs_loop_step:
  assumes "head < length q"
  shows "bfs_loop g visit (b, q) head t =
    (case visit (q ! head) t of (go, t') \<Rightarrow>
       if go then bfs_loop g visit (bfs_edges (edges_of g (q ! head)) (b, q)) (Suc head) t' else Some t')"
  using assms by (subst bfs_loop.simps) (simp add: Let_def split: prod.split)

lemma bfs_loop_end: "bfs_loop g visit (b, q) (length q) t = Some t"
  by (subst bfs_loop.simps) simp

lemma bfs_loop_ok:
  fixes g :: "('e, 'v::len) graph"
  assumes wf: "graph_wf g"
  shows "bfs_inv g s b q head \<Longrightarrow>
    \<exists>order. distinct order \<and> set order = (succs g)\<^sup>* `` {s} \<and> sorted (map (hops g s) order) \<and>
      take head q = take head order \<and>
      (\<forall>visit (t :: 's). bfs_loop g visit (b, q) head t = Some (run_visitor visit (drop head order) t))"
proof (induction "card (vertex_set g) - head" arbitrary: b q head rule: less_induct)
  case less
  show ?case
  proof (cases "head < length q")
    case True
    obtain b' ws where e: "bfs_edges (edges_of g (q ! head)) (b, q) = (b', q @ ws)"
      and inv: "bfs_inv g s b' (q @ ws) (Suc head)"
      using bfs_inv_step [OF wf less.prems True] .
    have "length q \<le> card (vertex_set g)"
      using less.prems card_mono [of "vertex_set g" "set q"] by (simp add: bfs_inv_def marks_def distinct_card)
    with True have "card (vertex_set g) - Suc head < card (vertex_set g) - head" by simp
    from less.hyps [OF this inv] obtain order where o:
      "distinct order" "set order = (succs g)\<^sup>* `` {s}" "sorted (map (hops g s) order)"
      "take (Suc head) (q @ ws) = take (Suc head) order"
      "\<And>visit (t :: 's). bfs_loop g visit (b', q @ ws) (Suc head) t = Some (run_visitor visit (drop (Suc head) order) t)"
      by blast
    have len: "head < length order" using arg_cong [OF o(4), of length] True by simp
    have th: "take head q = take head order"
      using arg_cong [OF o(4), of "take head"] True by (simp add: min_def)
    have "q ! head = order ! head"
      using arg_cong [OF o(4), of "\<lambda>l. l ! head"] True by (simp add: nth_append)
    then have "drop head order = q ! head # drop (Suc head) order" using len by (simp add: Cons_nth_drop_Suc)
    then have "bfs_loop g visit (b, q) head t = Some (run_visitor visit (drop head order) t)" for visit and t :: 's
      unfolding bfs_loop_step [OF True] e o(5) by (simp split: prod.split)
    with o(1-3) th show ?thesis by blast
  next
    case False
    then have h: "head = length q" using less.prems by (simp add: bfs_inv_def)
    have "set q = (succs g)\<^sup>* `` {s}" using bfs_inv_end less.prems unfolding h by blast
    moreover have "distinct q" "sorted (map (hops g s) q)" using less.prems by (simp_all add: bfs_inv_def)
    moreover have "\<forall>visit (t :: 's). bfs_loop g visit (b, q) head t = Some (run_visitor visit (drop head q) t)"
      unfolding h by (simp add: bfs_loop_end)
    ultimately show ?thesis by blast
  qed
qed


text \<open>C12: a breadth-first search from a missing vertex is refused; from a vertex of the graph it
returns, and calls the visitor exactly once on each vertex that can be reached, in the order of the
distance in edges from the source, until the visitor stops it.\<close>

theorem bfs_visits_by_distance:
  fixes g :: "('e, 'v::len) graph"
  assumes "graph_wf g" and "vertex_count g \<le> bs_max_size"
  shows "if source \<in> vertex_set g
    then \<exists>order. distinct order \<and> set order = (succs g)\<^sup>* `` {source} \<and> sorted (map (hops g source) order) \<and>
      (\<forall>visit (s :: 's). bfs g source visit s = Some (Inr (run_visitor visit order s)))
    else \<forall>visit (s :: 's). bfs g source visit s = Some (Inl Out_of_range)"
proof (cases "source \<in> vertex_set g")
  case True
  obtain b where b: "bs_make (vertex_count g) False = Some b" "marks g b {}"
    using marks_make [OF assms(2)] .
  have "bfs_inv g source (snd (bs_set (unat source) b)) [source] 0"
    using marks_set [OF b(2) True] by (simp add: bfs_inv_def)
  from bfs_loop_ok [OF assms(1) this] obtain order where
    "distinct order" "set order = (succs g)\<^sup>* `` {source}" "sorted (map (hops g source) order)"
    "\<forall>visit (t :: 's). bfs_loop g visit (snd (bs_set (unat source) b), [source]) 0 t =
       Some (run_visitor visit order t)"
    by auto
  with True b(1) show ?thesis by (auto simp: bfs_def)
qed (simp add: bfs_def)

lemma bfs_visits_by_distance_witness:
  "let g = \<lparr>g_adjacency = [[\<lparr>ge_target = 1, ge_data = ()\<rparr>], [], []], g_edge_count = 1\<rparr> :: (unit, 8) graph
   in \<exists>order. distinct order \<and> set order = (succs g)\<^sup>* `` {0} \<and>
     bfs g 0 (\<lambda>v s. (True, s @ [v])) [] = Some (Inr (run_visitor (\<lambda>v s. (True, s @ [v])) order []))"
proof -
  let ?g = "\<lparr>g_adjacency = [[\<lparr>ge_target = 1, ge_data = ()\<rparr>], [], []], g_edge_count = 1\<rparr> :: (unit, 8) graph"
  have "graph_wf ?g" "vertex_count ?g \<le> bs_max_size" "0 \<in> vertex_set ?g"
    using graph_two(1,2) [of "()"] by (simp_all add: bs_max_size_def bits_per_word_def vertex_set_def)
  with bfs_visits_by_distance [of ?g 0, where ?'s = "8 word list"] show ?thesis by (auto simp: Let_def)
qed

subsection \<open>Depth-first search\<close>

text \<open>
  The reference is the recursive search: \<open>dfs_tree g V us W order\<close> says that a search from the
  vertices \<open>us\<close>, one after the other and with those of \<open>V\<close> already visited, visits \<open>order\<close>
  and ends with \<open>W\<close> visited.
\<close>

inductive dfs_tree ::
    "('e, 'v::len) graph \<Rightarrow> 'v word set \<Rightarrow> 'v word list \<Rightarrow> 'v word set \<Rightarrow> 'v word list \<Rightarrow> bool"
  for g where
  empty: "dfs_tree g V [] V []"
| seen: "u \<in> V \<Longrightarrow> dfs_tree g V us W xs \<Longrightarrow> dfs_tree g V (u # us) W xs"
| fresh: "u \<notin> V \<Longrightarrow> dfs_tree g (insert u V) (neighbors g u) V' xs \<Longrightarrow> dfs_tree g V' us W ys \<Longrightarrow>
    dfs_tree g V (u # us) W (u # xs @ ys)"

inductive_cases dfs_tree_NilE: "dfs_tree g V [] W xs"
inductive_cases dfs_tree_ConsE: "dfs_tree g V (u # us) W xs"

lemma neighbors_succs: "v \<in> set (neighbors g u) \<longleftrightarrow> (u, v) \<in> succs g"
  by (auto simp: neighbors_def succs_def)

lemma dfs_tree_deterministic:
  "dfs_tree g V us W xs \<Longrightarrow> dfs_tree g V us W' xs' \<Longrightarrow> W' = W \<and> xs' = xs"
proof (induction arbitrary: W' xs' rule: dfs_tree.induct)
  case (empty V)
  then show ?case by (auto elim: dfs_tree_NilE)
next
  case (seen u V us W xs)
  from seen.prems show ?case
    by (rule dfs_tree_ConsE) (erule seen.IH, simp add: seen.hyps(1))
next
  case (fresh u V V1 xs us W ys)
  from fresh.prems show ?case
  proof (rule dfs_tree_ConsE)
    fix V2 xs2 ys2
    assume r: "dfs_tree g (insert u V) (neighbors g u) V2 xs2" "dfs_tree g V2 us W' ys2" "xs' = u # xs2 @ ys2"
    from fresh.IH(1) [OF r(1)] have "V2 = V1" "xs2 = xs" by simp_all
    with fresh.IH(2) r(2,3) show ?thesis by simp
  qed (use fresh.hyps(1) in simp)
qed

lemma dfs_tree_visited:
  "dfs_tree g V us W xs \<Longrightarrow> distinct xs \<and> set xs = W - V \<and> V \<subseteq> W \<and> set us \<subseteq> W"
  by (induction rule: dfs_tree.induct) auto

lemma dfs_tree_reached:
  "dfs_tree g V us W xs \<Longrightarrow> set xs \<subseteq> (succs g)\<^sup>* `` set us"
proof (induction rule: dfs_tree.induct)
  case (fresh u V V1 xs us W ys)
  have "set xs \<subseteq> (succs g)\<^sup>* `` {u}"
    using fresh.IH(1) by (auto simp: neighbors_succs intro: converse_rtrancl_into_rtrancl)
  with fresh.IH(2) show ?case by auto
qed auto

lemma dfs_tree_closed:
  "dfs_tree g V us W xs \<Longrightarrow> x \<in> W - V \<Longrightarrow> (x, y) \<in> succs g \<Longrightarrow> y \<in> W"
proof (induction rule: dfs_tree.induct)
  case (fresh u V V1 xs us W ys)
  have sub: "insert u V \<subseteq> V1" "V1 \<subseteq> W" "set (neighbors g u) \<subseteq> V1"
    using dfs_tree_visited [OF fresh.hyps(2)] dfs_tree_visited [OF fresh.hyps(3)] by auto
  consider "x = u" | "x \<in> V1 - insert u V" | "x \<in> W - V1" using fresh.prems by blast
  then show ?case
  proof cases
    case 1
    with fresh.prems(2) have "y \<in> set (neighbors g u)" by (simp add: neighbors_succs)
    with sub show ?thesis by blast
  qed (use fresh sub in blast)+
qed auto

lemma dfs_tree_exists:
  assumes wf: "graph_wf g"
  shows "card (vertex_set g - V) \<le> n \<Longrightarrow> V \<subseteq> vertex_set g \<Longrightarrow> set us \<subseteq> vertex_set g \<Longrightarrow>
    \<exists>W xs. dfs_tree g V us W xs \<and> W \<subseteq> vertex_set g"
proof (induction n arbitrary: V us rule: less_induct)
  case (less n)
  note smaller = less.IH
  from less.prems show ?case
  proof (induction us arbitrary: V)
    case Nil
    then show ?case by (blast intro: dfs_tree.empty)
  next
    case (Cons u us)
    have us: "set us \<subseteq> vertex_set g" and u: "u \<in> vertex_set g" using Cons.prems(3) by auto
    show ?case
    proof (cases "u \<in> V")
      case True
      with Cons.IH [OF Cons.prems(1,2) us] show ?thesis by (blast intro: dfs_tree.seen)
    next
      case False
      have small: "card (vertex_set g - insert u V) < card (vertex_set g - V)"
        using u False by (intro psubset_card_mono) auto
      have nb: "set (neighbors g u) \<subseteq> vertex_set g"
        using succs_in_graph [OF wf] by (auto simp: neighbors_succs)
      have "card (vertex_set g - insert u V) < n" using small Cons.prems(1) by simp
      from smaller [OF this order_refl _ nb] u Cons.prems(2) obtain V1 xs where
        t: "dfs_tree g (insert u V) (neighbors g u) V1 xs" "V1 \<subseteq> vertex_set g" by auto
      have "insert u V \<subseteq> V1" using dfs_tree_visited [OF t(1)] by simp
      then have "card (vertex_set g - V1) \<le> card (vertex_set g - V)" by (intro card_mono) auto
      with Cons.prems(1) have "card (vertex_set g - V1) \<le> n" by simp
      from Cons.IH [OF this t(2) us] t(1) False show ?thesis by (blast intro: dfs_tree.fresh)
    qed
  qed
qed

text \<open>The visitor, run on a segment of the order: whether it goes on, and its state.\<close>

fun visit_all :: "('v \<Rightarrow> 's \<Rightarrow> bool \<times> 's) \<Rightarrow> 'v list \<Rightarrow> 's \<Rightarrow> bool \<times> 's" where
  "visit_all visit [] s = (True, s)"
| "visit_all visit (v # vs) s =
     (case visit v s of (go, s') \<Rightarrow> if go then visit_all visit vs s' else (False, s'))"

lemma visit_all_run: "snd (visit_all visit xs s) = run_visitor visit xs s"
  by (induction xs arbitrary: s) (auto split: prod.split)

lemma visit_all_append:
  "visit_all visit (xs @ ys) s =
     (case visit_all visit xs s of (go, s') \<Rightarrow> if go then visit_all visit ys s' else (False, s'))"
  by (induction xs arbitrary: s) (auto split: prod.split)

text \<open>Pushing the neighbours from the last to the first.\<close>

lemma dfs_push_ok:
  assumes "marks g b V" and "\<forall>e \<in> set adj. ge_target e \<in> vertex_set g"
  shows "n \<le> length adj \<Longrightarrow>
    dfs_push b adj n st = st @ rev (filter (\<lambda>v. v \<notin> V) (map ge_target (take n adj)))"
proof (induction n arbitrary: st)
  case (Suc n)
  then have "ge_target (adj ! n) \<in> vertex_set g" using assms(2) by simp
  with Suc show ?case
    by (simp add: marks_nth [OF assms(1)] take_Suc_conv_app_nth Let_def)
qed simp

lemma dfs_loop_empty: "dfs_loop g visit b [] s = Some s"
  by (subst dfs_loop.simps) simp

lemma dfs_loop_snoc:
  "dfs_loop g visit b (st @ [u]) s =
     (if bs_nth b (unat u) then dfs_loop g visit b st s
      else
        let b' = snd (bs_set (unat u) b)
        in case visit u s of
             (go, s') \<Rightarrow>
               if \<not> go then Some s'
               else dfs_loop g visit b' (dfs_push b' (edges_of g u) (length (edges_of g u)) st) s')"
  by (subst dfs_loop.simps) (simp add: Let_def split: prod.split)

text \<open>The stack holds what is left of \<open>us\<close>, less some of the vertices visited meanwhile.\<close>

lemma dfs_loop_tree:
  assumes wf: "graph_wf g"
  shows "dfs_tree g V us W xs \<Longrightarrow> marks g b V \<Longrightarrow> set us \<subseteq> vertex_set g \<Longrightarrow> V0 \<subseteq> V \<Longrightarrow>
    \<exists>b'. marks g b' W \<and>
      (\<forall>st s. dfs_loop g visit b (st @ rev (filter (\<lambda>v. v \<notin> V0) us)) s =
         (case visit_all visit xs s of (go, s') \<Rightarrow> if go then dfs_loop g visit b' st s' else Some s'))"
proof (induction arbitrary: b V0 rule: dfs_tree.induct)
  case (empty V)
  then show ?case by (intro exI [of _ b]) simp
next
  case (seen u V us W xs)
  then have "bs_nth b (unat u)" by (auto simp: marks_nth)
  with seen.IH [OF seen.prems(1) _ seen.prems(3)] seen.prems(2) show ?case
    by (cases "u \<in> V0") (simp_all add: dfs_loop_snoc flip: append_assoc)
next
  case (fresh u V V1 xs us W ys)
  have u: "u \<in> vertex_set g" and us: "set us \<subseteq> vertex_set g" using fresh.prems(2) by auto
  have nb: "set (neighbors g u) \<subseteq> vertex_set g" using succs_in_graph [OF wf] by (auto simp: neighbors_succs)
  let ?b = "snd (bs_set (unat u) b)"
  have m: "marks g ?b (insert u V)" using marks_set [OF fresh.prems(1) u] .
  define nbs where "nbs = filter (\<lambda>v. v \<notin> insert u V) (neighbors g u)"
  have V1: "V0 \<subseteq> V1" using dfs_tree_visited [OF fresh.hyps(2)] fresh.prems(3) by auto
  from fresh.IH(1) [OF m nb order_refl] obtain b1 where b1: "marks g b1 V1"
    "\<And>st s. dfs_loop g visit ?b (st @ rev nbs) s =
       (case visit_all visit xs s of (go, s') \<Rightarrow> if go then dfs_loop g visit b1 st s' else Some s')"
    unfolding nbs_def by blast
  from fresh.IH(2) [OF b1(1) us V1] obtain b2 where b2: "marks g b2 W"
    "\<And>st s. dfs_loop g visit b1 (st @ rev (filter (\<lambda>v. v \<notin> V0) us)) s =
       (case visit_all visit ys s of (go, s') \<Rightarrow> if go then dfs_loop g visit b2 st s' else Some s')"
    by blast
  have "\<forall>e \<in> set (edges_of g u). ge_target e \<in> vertex_set g" using wf by (auto simp: graph_wf_def)
  from dfs_push_ok [OF m this order_refl]
  have push: "dfs_push ?b (edges_of g u) (length (edges_of g u)) st =
      st @ rev nbs" for st
    by (simp add: neighbors_def nbs_def)
  have "u \<notin> V0" "\<not> bs_nth b (unat u)"
    using fresh.hyps(1) fresh.prems(1,3) marks_nth [OF fresh.prems(1) u] by auto
  then have "dfs_loop g visit b (st @ rev (filter (\<lambda>v. v \<notin> V0) (u # us))) s =
      (case visit_all visit (u # xs @ ys) s of (go, s') \<Rightarrow> if go then dfs_loop g visit b2 st s' else Some s')" for st s
    using b1(2) [of "st @ rev (filter (\<lambda>v. v \<notin> V0) us)"] b2(2) [of st]
    by (auto simp: dfs_loop_snoc [of _ _ _ "st @ rev (filter (\<lambda>v. v \<notin> V0) us)", simplified] push visit_all_append
      Let_def split: prod.split)
  with b2(1) show ?case by blast
qed

text \<open>C13: a depth-first search from a missing vertex is refused; from a vertex of the graph it
returns, and the explicit stack calls the visitor on the vertices in the order of the recursive
depth-first search, which visits exactly the vertices that can be reached, each of them once.\<close>

theorem dfs_is_recursive_search:
  fixes g :: "('e, 'v::len) graph"
  assumes "graph_wf g" and "vertex_count g \<le> bs_max_size"
  shows "if source \<in> vertex_set g
    then \<exists>order W. dfs_tree g {} [source] W order \<and> distinct order \<and> set order = (succs g)\<^sup>* `` {source} \<and>
      (\<forall>visit (s :: 's). dfs g source visit s = Some (Inr (run_visitor visit order s)))
    else \<forall>visit (s :: 's). dfs g source visit s = Some (Inl Out_of_range)"
proof (cases "source \<in> vertex_set g")
  case True
  obtain b where b: "bs_make (vertex_count g) False = Some b" "marks g b {}"
    using marks_make [OF assms(2)] .
  obtain W order where t: "dfs_tree g {} [source] W order"
    using dfs_tree_exists [OF assms(1) order_refl, of "{}" "[source]"] True by auto
  have v: "distinct order" "set order = W" "source \<in> W" using dfs_tree_visited [OF t] by auto
  have "(succs g)\<^sup>* `` {source} \<subseteq> W"
    using v(3) dfs_tree_closed [OF t] by (intro closed_reachable) auto
  with dfs_tree_reached [OF t] v have "set order = (succs g)\<^sup>* `` {source}" by auto
  moreover have "dfs g source visit s = Some (Inr (run_visitor visit order s))" for visit and s :: 's
  proof -
    obtain b' where "\<forall>st s. dfs_loop g visit b (st @ rev (filter (\<lambda>v. v \<notin> {}) [source])) s =
         (case visit_all visit order s of (go, s') \<Rightarrow> if go then dfs_loop g visit b' st s' else Some s')"
      using dfs_loop_tree [OF assms(1) t b(2) _ order_refl, of visit] True by auto
    from this [rule_format, of "[]" s] show ?thesis
      using True b(1) by (simp add: dfs_def dfs_loop_empty flip: visit_all_run split: prod.split)
  qed
  ultimately show ?thesis using True t v(1) by auto
qed (simp add: dfs_def)

lemma dfs_is_recursive_search_witness:
  "let g = \<lparr>g_adjacency = [[\<lparr>ge_target = 1, ge_data = ()\<rparr>], [], []], g_edge_count = 1\<rparr> :: (unit, 8) graph
   in \<exists>order W. dfs_tree g {} [0] W order \<and>
     dfs g 0 (\<lambda>v s. (True, s @ [v])) [] = Some (Inr (run_visitor (\<lambda>v s. (True, s @ [v])) order []))"
proof -
  let ?g = "\<lparr>g_adjacency = [[\<lparr>ge_target = 1, ge_data = ()\<rparr>], [], []], g_edge_count = 1\<rparr> :: (unit, 8) graph"
  have "graph_wf ?g" "vertex_count ?g \<le> bs_max_size" "0 \<in> vertex_set ?g"
    using graph_two(1,2) [of "()"] by (simp_all add: bs_max_size_def bits_per_word_def vertex_set_def)
  with dfs_is_recursive_search [of ?g 0, where ?'s = "8 word list"] show ?thesis by (auto simp: Let_def)
qed

end
