(* ===== verification/Topological_Sort.thy ===== *)
theory Topological_Sort
  imports Graph_Search
begin

text \<open>
  Kahn's topological sort and the cycle test: \<open>algorithm/graph/topological_sort.hpp\<close>. The
  property is about the edge relation \<open>succs\<close> of the graph; the in-degree counters never
  fall below zero, so natural numbers stand for \<open>std::size_t\<close>.
\<close>

subsection \<open>The code\<close>

fun count_targets :: "('e, 'v::len) graph_edge list \<Rightarrow> nat list \<Rightarrow> nat list" where
  "count_targets [] in_degree = in_degree"
| "count_targets (e # es) in_degree =
     (let t = unat (ge_target e) in count_targets es (in_degree[t := in_degree ! t + 1]))"

fun count_in_degrees :: "('e, 'v::len) graph \<Rightarrow> 'v word list \<Rightarrow> nat list \<Rightarrow> nat list" where
  "count_in_degrees g [] in_degree = in_degree"
| "count_in_degrees g (u # us) in_degree = count_in_degrees g us (count_targets (edges_of g u) in_degree)"

fun topo_edges :: "('e, 'v::len) graph_edge list \<Rightarrow> nat list \<times> 'v word list \<Rightarrow> nat list \<times> 'v word list" where
  "topo_edges [] st = st"
| "topo_edges (e # es) (in_degree, queue) =
     (let t = unat (ge_target e); in_degree' = in_degree[t := in_degree ! t - 1]
      in topo_edges es (in_degree', if in_degree' ! t = 0 then queue @ [ge_target e] else queue))"

partial_function (option) topo_loop ::
    "('e, 'v::len) graph \<Rightarrow> nat list \<times> 'v word list \<Rightarrow> nat \<Rightarrow> 'v word list \<Rightarrow> 'v word list option" where
  "topo_loop g st head order =
     (if head < length (snd st) then
        let u = snd st ! head
        in topo_loop g (topo_edges (edges_of g u) st) (head + 1) (order @ [u])
      else Some order)"

declare topo_loop.simps [code]

definition topological_sort :: "('e, 'v::len) graph \<Rightarrow> (container_error + 'v word list) option" where
  "topological_sort g =
     (let n = vertex_count g;
          in_degree = count_in_degrees g (vertices g) (replicate n 0);
          queue = filter (\<lambda>u. in_degree ! unat u = 0) (vertices g)
      in case topo_loop g (in_degree, queue) 0 [] of
           None \<Rightarrow> None
         | Some order \<Rightarrow> Some (if length order \<noteq> n then Inl Not_found else Inr order))"

definition is_acyclic :: "('e, 'v::len) graph \<Rightarrow> bool option" where
  "is_acyclic g = map_option (\<lambda>r. case r of Inl _ \<Rightarrow> False | Inr _ \<Rightarrow> True) (topological_sort g)"

subsection \<open>Counting edges\<close>

text \<open>How many of the edges end in \<open>v\<close>.\<close>

definition into :: "'v::len word \<Rightarrow> ('e, 'v) graph_edge list \<Rightarrow> nat" where
  "into v es = length (filter (\<lambda>e. ge_target e = v) es)"

lemma into_simps [simp]:
  "into v [] = 0"
  "into v (e # es) = (if ge_target e = v then Suc (into v es) else into v es)"
  by (simp_all add: into_def)

lemma into_pos: "0 < into v (edges_of g u) \<longleftrightarrow> (u, v) \<in> succs g"
  by (auto simp: into_def succs_def filter_empty_conv)

text \<open>The counters of the vertices: a list indexed by vertex.\<close>

definition counts :: "('e, 'v::len) graph \<Rightarrow> nat list \<Rightarrow> ('v word \<Rightarrow> nat) \<Rightarrow> bool" where
  "counts g ds f \<longleftrightarrow> length ds = vertex_count g \<and> (\<forall>v \<in> vertex_set g. ds ! unat v = f v)"

lemma counts_update:
  assumes "counts g ds f" and "t \<in> vertex_set g"
  shows "counts g (ds[unat t := k]) (f(t := k))"
proof -
  have "v = t" if "unat v = unat t" for v :: "'b word"
    using that unsigned_word_eqI [of v t, where ?'a = nat] by blast
  with assms show ?thesis by (auto simp: counts_def vertex_set_def nth_list_update)
qed

lemma count_targets_ok:
  "counts g ds f \<Longrightarrow> \<forall>e \<in> set es. ge_target e \<in> vertex_set g \<Longrightarrow>
    counts g (count_targets es ds) (\<lambda>v. f v + into v es)"
proof (induction es arbitrary: ds f)
  case (Cons e es)
  let ?t = "ge_target e"
  have t: "?t \<in> vertex_set g" using Cons.prems(2) by simp
  have "counts g (ds[unat ?t := ds ! unat ?t + 1]) (f(?t := f ?t + 1))"
    using counts_update [OF Cons.prems(1) t] Cons.prems(1) t by (simp add: counts_def)
  from Cons.IH [OF this] Cons.prems(2)
  have "counts g (count_targets (e # es) ds) (\<lambda>v. (f(?t := f ?t + 1)) v + into v es)" by (simp add: Let_def)
  then show ?case by (rule back_subst [of "counts g _"]) auto
qed simp

lemma count_in_degrees_ok:
  assumes wf: "graph_wf g"
  shows "counts g ds f \<Longrightarrow> counts g (count_in_degrees g us ds) (\<lambda>v. f v + (\<Sum>u \<leftarrow> us. into v (edges_of g u)))"
proof (induction us arbitrary: ds f)
  case (Cons u us)
  have "counts g (count_targets (edges_of g u) ds) (\<lambda>v. f v + into v (edges_of g u))"
    using wf by (intro count_targets_ok [OF Cons.prems]) (auto simp: graph_wf_def)
  from Cons.IH [OF this] show ?case by (simp add: add.assoc)
qed simp

text \<open>One vertex's edges taken away: the counters fall, and the vertices whose counter reaches
  zero are queued.\<close>

lemma topo_edges_ok:
  assumes "\<forall>e \<in> set es. ge_target e \<in> vertex_set g" and "counts g ds f" and "\<forall>v. into v es \<le> f v"
  shows "\<exists>ds' ws. topo_edges es (ds, q) = (ds', q @ ws) \<and> counts g ds' (\<lambda>v. f v - into v es) \<and>
    distinct ws \<and> set ws = {v. 0 < f v \<and> f v = into v es}"
  using assms
proof (induction es arbitrary: ds f q)
  case Nil
  then show ?case by (intro exI [of _ ds] exI [of _ "[]"]) auto
next
  case (Cons e es)
  let ?t = "ge_target e"
  have t: "?t \<in> vertex_set g" and rest: "\<forall>e \<in> set es. ge_target e \<in> vertex_set g" using Cons.prems(1) by auto
  let ?f = "f(?t := f ?t - 1)"
  let ?ds = "ds[unat ?t := ds ! unat ?t - 1]"
  have dt: "ds ! unat ?t = f ?t" "unat ?t < length ds"
    using Cons.prems(2) t by (auto simp: counts_def vertex_set_def)
  have c: "counts g ?ds ?f" using counts_update [OF Cons.prems(2) t] dt by simp
  have le: "\<forall>v. into v es \<le> ?f v" using Cons.prems(3) by (auto dest: spec [of _ ?t] split: if_splits)
  have pos: "0 < f ?t" using Cons.prems(3) by (metis into_simps(2) le_zero_eq nat.distinct(1) neq0_conv)
  from Cons.IH [OF rest c le] obtain ds' ws where r:
    "topo_edges es (?ds, if f ?t - 1 = 0 then q @ [?t] else q) =
       (ds', (if f ?t - 1 = 0 then q @ [?t] else q) @ ws)"
    "counts g ds' (\<lambda>v. ?f v - into v es)" "distinct ws" "set ws = {v. 0 < ?f v \<and> ?f v = into v es}"
    by blast
  let ?ws = "(if f ?t - 1 = 0 then [?t] else []) @ ws"
  have "topo_edges (e # es) (ds, q) = (ds', q @ ?ws)" using r(1) dt by (simp add: Let_def)
  moreover have "counts g ds' (\<lambda>v. f v - into v (e # es))"
    using r(2) by (rule back_subst [of "counts g _"]) auto
  moreover have "distinct ?ws" using r(3,4) by auto
  moreover have "set ?ws = {v. 0 < f v \<and> f v = into v (e # es)}"
  proof (intro set_eqI)
    fix v
    have "into v (e # es) \<le> f v" using Cons.prems(3) by blast
    then show "v \<in> set ?ws \<longleftrightarrow> v \<in> {v. 0 < f v \<and> f v = into v (e # es)}"
      using r(4) pos by (cases "v = ?t") auto
  qed
  ultimately show ?case by blast
qed

subsection \<open>The main loop\<close>

definition topo_inv :: "('e, 'v::len) graph \<Rightarrow> nat list \<Rightarrow> 'v word list \<Rightarrow> nat \<Rightarrow> bool" where
  "topo_inv g ds q head \<longleftrightarrow>
     head \<le> length q \<and> distinct q \<and> set q \<subseteq> vertex_set g \<and>
     counts g ds (\<lambda>v. \<Sum>u \<in> vertex_set g - set (take head q). into v (edges_of g u)) \<and>
     (\<forall>v \<in> vertex_set g. v \<in> set q \<longleftrightarrow> (\<Sum>u \<in> vertex_set g - set (take head q). into v (edges_of g u)) = 0) \<and>
     (\<forall>j < length q. \<forall>u. (u, q ! j) \<in> succs g \<longrightarrow> u \<in> set (take j q))"

lemma succs_source: "(u, v) \<in> succs g \<Longrightarrow> u \<in> vertex_set g"
  by (auto simp: succs_def edges_of_def split: if_splits)

text \<open>No counted edge into \<open>v\<close> from the vertices of \<open>S\<close>.\<close>

lemma no_preds:
  assumes "(\<Sum>u \<in> vertex_set g - S. into v (edges_of g u)) = 0" and "(u, v) \<in> succs g"
  shows "u \<in> S"
proof (rule ccontr)
  assume "u \<notin> S"
  with succs_source [OF assms(2)] have "into v (edges_of g u) = 0" using assms(1) by (simp add: sum_eq_0_iff)
  with assms(2) show False unfolding into_pos [symmetric] by simp
qed

lemma topo_inv_step:
  assumes wf: "graph_wf g" and inv: "topo_inv g ds q head" and h: "head < length q"
  obtains ds' ws where "topo_edges (edges_of g (q ! head)) (ds, q) = (ds', q @ ws)" and "topo_inv g ds' (q @ ws) (Suc head)"
proof -
  let ?u = "q ! head"
  let ?P = "set (take head q)"
  let ?old = "\<lambda>v. \<Sum>u \<in> vertex_set g - ?P. into v (edges_of g u)"
  let ?new = "\<lambda>v. \<Sum>u \<in> vertex_set g - insert ?u ?P. into v (edges_of g u)"
  have "?u \<in> set q" using h by simp
  then have u: "?u \<in> vertex_set g"
    using inv unfolding topo_inv_def by blast
  have u2: "?u \<notin> ?P"
    using inv h nth_eq_iff_index_eq [of q] by (auto simp: topo_inv_def in_set_conv_nth)
  have split: "?old v = into v (edges_of g ?u) + ?new v" for v
  proof -
    have "vertex_set g - ?P = insert ?u (vertex_set g - insert ?u ?P)" using u u2 by auto
    then show ?thesis by (simp add: sum.insert_remove)
  qed
  have t: "\<forall>e \<in> set (edges_of g ?u). ge_target e \<in> vertex_set g" using wf by (auto simp: graph_wf_def)
  have c: "counts g ds ?old" using inv by (simp add: topo_inv_def)
  have "\<forall>v. into v (edges_of g ?u) \<le> ?old v" using split by simp
  from topo_edges_ok [OF t c this, of q] obtain ds' ws where r:
    "topo_edges (edges_of g ?u) (ds, q) = (ds', q @ ws)" "counts g ds' (\<lambda>v. ?old v - into v (edges_of g ?u))"
    "distinct ws" "set ws = {v. 0 < ?old v \<and> ?old v = into v (edges_of g ?u)}"
    by blast
  have ws: "w \<in> set ws \<longleftrightarrow> (?u, w) \<in> succs g \<and> ?new w = 0" for w
    unfolding r(4) into_pos [symmetric] using split [of w] by auto
  have in_g: "w \<in> vertex_set g" if "w \<in> set ws" for w
    using that succs_in_graph [OF wf, of ?u w] by (simp add: ws)
  have mono: "?old v = 0 \<Longrightarrow> ?new v = 0" for v using split [of v] by simp
  have mem: "v \<in> set (q @ ws) \<longleftrightarrow> ?new v = 0" if "v \<in> vertex_set g" for v
  proof -
    have "v \<in> set q \<longleftrightarrow> ?old v = 0" using inv that by (simp add: topo_inv_def)
    moreover have "?new v = 0 \<Longrightarrow> ?old v \<noteq> 0 \<Longrightarrow> (?u, v) \<in> succs g"
      unfolding into_pos [symmetric] using split [of v] by simp
    ultimately show ?thesis using mono [of v] ws [of v] by auto
  qed
  have "set q \<inter> set ws = {}"
  proof -
    have "?old w = 0" if "w \<in> set q" for w using that inv by (auto simp: topo_inv_def)
    then show ?thesis unfolding r(4) by fastforce
  qed
  then have d: "distinct (q @ ws)" using inv r(3) by (simp add: topo_inv_def)
  have take: "set (take (Suc head) (q @ ws)) = insert ?u ?P"
    using h by (simp add: take_Suc_conv_app_nth)
  have "u \<in> set (take j (q @ ws))" if "j < length (q @ ws)" "(u, (q @ ws) ! j) \<in> succs g" for j u
  proof (cases "j < length q")
    case True
    with that inv have "u \<in> set (take j q)" by (simp add: topo_inv_def nth_append)
    with True show ?thesis by simp
  next
    case False
    with that(1) have "(q @ ws) ! j \<in> set ws" by (simp add: nth_append)
    then have "?new ((q @ ws) ! j) = 0" by (simp only: ws)
    from no_preds [OF this that(2)] have "u \<in> set (take (Suc head) q)"
      using h by (simp add: take_Suc_conv_app_nth)
    moreover have "set (take (Suc head) q) \<subseteq> set (take j q)" using False h by (intro set_take_subset_set_take) simp
    ultimately show ?thesis using False by auto
  qed
  then have "topo_inv g ds' (q @ ws) (Suc head)"
    unfolding topo_inv_def take using h d inv in_g mem r(2) split by (auto simp: topo_inv_def)
  with r(1) show ?thesis by (rule that)
qed

lemma topo_loop_ok:
  assumes wf: "graph_wf g"
  shows "topo_inv g ds q head \<Longrightarrow>
    \<exists>ds' q'. topo_inv g ds' q' (length q') \<and> topo_loop g (ds, q) head (take head q) = Some q'"
proof (induction "card (vertex_set g) - head" arbitrary: ds q head rule: less_induct)
  case less
  show ?case
  proof (cases "head < length q")
    case True
    obtain ds' ws where e: "topo_edges (edges_of g (q ! head)) (ds, q) = (ds', q @ ws)"
      and inv: "topo_inv g ds' (q @ ws) (Suc head)"
      using topo_inv_step [OF wf less.prems True] .
    have "length q \<le> card (vertex_set g)"
      using less.prems card_mono [of "vertex_set g" "set q"] by (simp add: topo_inv_def distinct_card)
    with True have "card (vertex_set g) - Suc head < card (vertex_set g) - head" by simp
    from less.hyps [OF this inv] obtain ds2 q2 where
      "topo_inv g ds2 q2 (length q2)" "topo_loop g (ds', q @ ws) (Suc head) (take (Suc head) (q @ ws)) = Some q2"
      by blast
    moreover have "topo_loop g (ds, q) head (take head q) =
        topo_loop g (ds', q @ ws) (Suc head) (take (Suc head) (q @ ws))"
      using True by (subst topo_loop.simps) (simp add: Let_def e take_Suc_conv_app_nth)
    ultimately show ?thesis by metis
  next
    case False
    then have h: "head = length q" using less.prems by (simp add: topo_inv_def)
    have "topo_loop g (ds, q) head (take head q) = Some q" unfolding h by (subst topo_loop.simps) simp
    with less.prems show ?thesis unfolding h by blast
  qed
qed

definition topological :: "('e, 'v::len) graph \<Rightarrow> 'v word list \<Rightarrow> bool" where
  "topological g order \<longleftrightarrow> distinct order \<and> set order = vertex_set g \<and>
     (\<forall>i < length order. \<forall>j < length order. (order ! i, order ! j) \<in> succs g \<longrightarrow> i < j)"

lemma topological_acyclic:
  assumes "topological g order" and "graph_wf g"
  shows "acyclic (succs g)"
proof -
  let ?idx = "\<lambda>v. SOME i. i < length order \<and> order ! i = v"
  have idx: "?idx v < length order \<and> order ! (?idx v) = v" if "v \<in> vertex_set g" for v
  proof (rule someI_ex)
    have "v \<in> set order" using that assms(1) by (simp add: topological_def)
    then show "\<exists>i. i < length order \<and> order ! i = v" by (simp add: in_set_conv_nth)
  qed
  have "succs g \<subseteq> measure ?idx"
  proof (intro subrelI)
    fix u v assume e: "(u, v) \<in> succs g"
    have i: "?idx u < length order" "order ! ?idx u = u" "?idx v < length order" "order ! ?idx v = v"
      using idx [OF succs_source [OF e]] idx [OF succs_in_graph [OF assms(2) e]] by simp_all
    have "order ! ?idx u = u \<and> order ! ?idx v = v" using i by blast
    with e have "(order ! ?idx u, order ! ?idx v) \<in> succs g" by simp
    with assms(1) i(1,3) have "?idx u < ?idx v" unfolding topological_def by blast
    then show "(u, v) \<in> measure ?idx" by simp
  qed
  then show ?thesis using wf_acyclic wf_subset wf_measure by metis
qed

lemma topo_inv_topological:
  assumes "topo_inv g ds q (length q)" and "set q = vertex_set g"
  shows "topological g q"
proof -
  have "i < j" if ij: "i < length q" "j < length q" "(q ! i, q ! j) \<in> succs g" for i j
  proof -
    have "q ! i \<in> set (take j q)" using assms(1) ij by (simp add: topo_inv_def)
    then obtain k where "k < j" "q ! k = q ! i" using ij(2) by (auto simp: in_set_conv_nth)
    with ij assms(1) show ?thesis using nth_eq_iff_index_eq [of q k i] by (simp add: topo_inv_def)
  qed
  with assms show ?thesis by (simp add: topological_def topo_inv_def)
qed

text \<open>In an acyclic graph the queue has taken every vertex.\<close>

lemma topo_inv_complete:
  assumes "topo_inv g ds q (length q)" and "acyclic (succs g)"
  shows "set q = vertex_set g"
proof (rule ccontr)
  assume "set q \<noteq> vertex_set g"
  then obtain x where x: "x \<in> vertex_set g - set q" using assms(1) by (auto simp: topo_inv_def)
  have "finite (succs g)" by (rule finite)
  then have "wf (succs g)" using assms(2) by (simp add: finite_acyclic_wf)
  then obtain z where z: "z \<in> vertex_set g - set q" "\<And>u. (u, z) \<in> succs g \<Longrightarrow> u \<notin> vertex_set g - set q"
    using x by (metis wfE_min)
  have "into z (edges_of g u) = 0" if "u \<in> vertex_set g - set q" for u
    using z(2) [of u] that into_pos [of z g u] by auto
  then have "(\<Sum>u \<in> vertex_set g - set q. into z (edges_of g u)) = 0" by simp
  moreover have "z \<in> set q \<longleftrightarrow> (\<Sum>u \<in> vertex_set g - set q. into z (edges_of g u)) = 0"
    using assms(1) z(1) unfolding topo_inv_def by (metis DiffD1 take_all order_refl)
  ultimately show False using z(1) by blast
qed

lemma distinct_vertices: "graph_wf g \<Longrightarrow> distinct (vertices g)"
  unfolding vertices_nat by (auto simp: distinct_map graph_wf_def intro!: inj_onI dest!: arg_cong [where f = unat]
      simp: unat_of_nat_less)

lemma card_vertex_set: "graph_wf g \<Longrightarrow> card (vertex_set g) = vertex_count g"
  using distinct_card [OF distinct_vertices, of g] by (simp add: set_vertices) (simp add: vertices_nat)

lemma topo_start:
  assumes wf: "graph_wf g"
  defines "ds \<equiv> count_in_degrees g (vertices g) (replicate (vertex_count g) 0)"
  shows "topo_inv g ds (filter (\<lambda>u. ds ! unat u = 0) (vertices g)) 0"
proof -
  have d: "distinct (vertices g)" using wf by (rule distinct_vertices)
  have "counts g (replicate (vertex_count g) 0) (\<lambda>_. 0)" by (simp add: counts_def vertex_set_def)
  from count_in_degrees_ok [OF wf this, of "vertices g"]
  have c: "counts g ds (\<lambda>v. \<Sum>u \<in> vertex_set g. into v (edges_of g u))"
    using d by (simp add: ds_def sum_list_distinct_conv_sum_set set_vertices [OF wf])
  let ?q = "filter (\<lambda>u. ds ! unat u = 0) (vertices g)"
  have "False" if "j < length ?q" "(u, ?q ! j) \<in> succs g" for j u
  proof -
    have "?q ! j \<in> set ?q" using that(1) by (rule nth_mem)
    then have "?q ! j \<in> vertex_set g" "ds ! unat (?q ! j) = 0" by (simp_all add: set_vertices [OF wf])
    then show False
      using no_preds [where g = g and S = "{}" and v = "?q ! j" and u = u] that(2) c by (simp add: counts_def)
  qed
  with c d show ?thesis
    unfolding topo_inv_def by (auto simp: counts_def set_vertices [OF wf])
qed

text \<open>C11: the sort returns for every graph. On an acyclic graph it lists every vertex once, and every edge
leads forward in the list; on a graph with a cycle it reports \<open>not_found\<close>.\<close>

theorem topological_sort_correct:
  assumes "graph_wf g"
  shows "if acyclic (succs g) then \<exists>order. topological_sort g = Some (Inr order) \<and> topological g order
    else topological_sort g = Some (Inl Not_found)"
proof -
  let ?ds = "count_in_degrees g (vertices g) (replicate (vertex_count g) 0)"
  let ?q = "filter (\<lambda>u. ?ds ! unat u = 0) (vertices g)"
  obtain ds q where r: "topo_inv g ds q (length q)" "topo_loop g (?ds, ?q) 0 [] = Some q"
    using topo_loop_ok [OF assms topo_start [OF assms]] by auto
  have sort: "topological_sort g = Some (if length q \<noteq> vertex_count g then Inl Not_found else Inr q)"
    using r(2) by (simp add: topological_sort_def Let_def)
  have sub: "distinct q" "set q \<subseteq> vertex_set g" using r(1) by (simp_all add: topo_inv_def)
  then have full: "length q = vertex_count g \<longleftrightarrow> set q = vertex_set g"
    using card_vertex_set [OF assms] card_subset_eq [of "vertex_set g" "set q"] distinct_card [OF sub(1)]
    by auto
  show ?thesis
  proof (cases "acyclic (succs g)")
    case True
    have "set q = vertex_set g" using topo_inv_complete [OF r(1) True] .
    then show ?thesis using True sort full topo_inv_topological [OF r(1)] by simp
  next
    case False
    have "set q \<noteq> vertex_set g" using topo_inv_topological [OF r(1)] topological_acyclic [OF _ assms] False by blast
    then show ?thesis using False sort full by simp
  qed
qed

lemma topological_sort_correct_witness:
  "let g = \<lparr>g_adjacency = [[\<lparr>ge_target = 1, ge_data = ()\<rparr>], [], []], g_edge_count = 1\<rparr> :: (unit, 8) graph
   in \<exists>order. topological_sort g = Some (Inr order) \<and> topological g order"
proof -
  let ?g = "\<lparr>g_adjacency = [[\<lparr>ge_target = 1, ge_data = ()\<rparr>], [], []], g_edge_count = 1\<rparr> :: (unit, 8) graph"
  have "succs ?g \<subseteq> measure unat"
  proof (intro subrelI)
    fix u v assume e: "(u, v) \<in> succs ?g"
    have "unat u < 3" using succs_source [OF e] by (simp add: vertex_set_def vertex_count_def)
    with e show "(u, v) \<in> measure unat"
      by (auto simp: succs_def edges_of_def vertex_set_def vertex_count_def numeral_3_eq_3 less_Suc_eq
          split: if_splits)
  qed
  then have "acyclic (succs ?g)" using wf_acyclic wf_subset wf_measure by metis
  with topological_sort_correct [OF graph_two(1) [of "()"]] show ?thesis by (simp add: Let_def)
qed

end
