(* ===== verification/Slot_Map.thy ===== *)
theory Slot_Map
  imports Prelude
begin

text \<open>
  The generational slot map: \<open>container/slot_map.hpp\<close>. A key is a slot's index with the
  generation the slot had; erasing bumps the generation, so an old key stops matching. The
  abstract view is the partial map \<open>sm_find\<close> from keys to values.
\<close>

subsection \<open>Keys\<close>

datatype slot_key = Slot_key (sk_index: u32) (sk_generation: u32)

instantiation slot_key :: linorder
begin

definition less_eq_slot_key :: "slot_key \<Rightarrow> slot_key \<Rightarrow> bool" where
  "less_eq_slot_key a b =
     (sk_index a < sk_index b \<or> sk_index a = sk_index b \<and> sk_generation a \<le> sk_generation b)"

definition less_slot_key :: "slot_key \<Rightarrow> slot_key \<Rightarrow> bool" where
  "less_slot_key a b =
     (sk_index a < sk_index b \<or> sk_index a = sk_index b \<and> sk_generation a < sk_generation b)"

instance
  by standard (auto simp: less_eq_slot_key_def less_slot_key_def slot_key.expand)

end

subsection \<open>The code\<close>

record 'a slot_map =
  sm_values :: "'a option list"
  sm_generations :: "u32 list"
  sm_free_list :: "u32 list"
  sm_size :: nat

definition sm_default :: "'a slot_map" where
  "sm_default = \<lparr>sm_values = [], sm_generations = [], sm_free_list = [], sm_size = 0\<rparr>"

definition is_live :: "'a slot_map \<Rightarrow> slot_key \<Rightarrow> bool" where
  "is_live m k =
     (unat (sk_index k) < length (sm_values m) \<and>
      sm_generations m ! unat (sk_index k) = sk_generation k \<and>
      sm_values m ! unat (sk_index k) \<noteq> None)"

definition bump_generation :: "nat \<Rightarrow> 'a slot_map \<Rightarrow> 'a slot_map" where
  "bump_generation i m =
     (let g = sm_generations m ! i + 1
      in m\<lparr>sm_generations := (sm_generations m)[i := if g = 0 then 1 else g]\<rparr>)"

fun clear_slots :: "nat list \<Rightarrow> 'a slot_map \<Rightarrow> 'a slot_map" where
  "clear_slots [] m = m"
| "clear_slots (i # is) m =
     clear_slots is
       (if sm_values m ! i \<noteq> None then bump_generation i (m\<lparr>sm_values := (sm_values m)[i := None]\<rparr>) else m)"

definition sm_clear :: "'a slot_map \<Rightarrow> 'a slot_map" where
  "sm_clear m =
     (let n = length (sm_values m)
      in (clear_slots [0..<n] m)\<lparr>sm_free_list := map of_nat (rev [0..<n]), sm_size := 0\<rparr>)"

text \<open>The back of the free list is the end of the list. The index is the slot count in 32 bits; that
  it does not wrap is a debug assertion of the code.\<close>

definition sm_emplace :: "'a \<Rightarrow> 'a slot_map \<Rightarrow> slot_key \<times> 'a slot_map" where
  "sm_emplace v m =
     (if sm_free_list m = [] then
        let index = of_nat (length (sm_values m))
        in (Slot_key index 1,
            m\<lparr>sm_values := sm_values m @ [Some v], sm_generations := sm_generations m @ [1],
              sm_size := sm_size m + 1\<rparr>)
      else
        let index = last (sm_free_list m)
        in (Slot_key index (sm_generations m ! unat index),
            m\<lparr>sm_values := (sm_values m)[unat index := Some v],
              sm_free_list := butlast (sm_free_list m), sm_size := sm_size m + 1\<rparr>))"

definition sm_erase :: "slot_key \<Rightarrow> 'a slot_map \<Rightarrow> bool \<times> 'a slot_map" where
  "sm_erase k m =
     (if \<not> is_live m k then (False, m)
      else
        let i = unat (sk_index k);
            m' = bump_generation i (m\<lparr>sm_values := (sm_values m)[i := None]\<rparr>)
        in (True, m'\<lparr>sm_free_list := sm_free_list m' @ [sk_index k], sm_size := sm_size m' - 1\<rparr>))"

definition sm_find :: "'a slot_map \<Rightarrow> slot_key \<Rightarrow> 'a option" where
  "sm_find m k = (if is_live m k then sm_values m ! unat (sk_index k) else None)"

text \<open>Writing through the pointer of the other \<open>find\<close>.\<close>

definition sm_assign :: "slot_key \<Rightarrow> 'a \<Rightarrow> 'a slot_map \<Rightarrow> 'a slot_map" where
  "sm_assign k v m =
     (if is_live m k then m\<lparr>sm_values := (sm_values m)[unat (sk_index k) := Some v]\<rparr> else m)"

definition sm_contains :: "'a slot_map \<Rightarrow> slot_key \<Rightarrow> bool" where
  "sm_contains m k = is_live m k"

definition sm_count :: "'a slot_map \<Rightarrow> nat" where
  "sm_count m = sm_size m"

definition sm_is_empty :: "'a slot_map \<Rightarrow> bool" where
  "sm_is_empty m = (sm_size m = 0)"

text \<open>An iterator is a position and the end of the slots.\<close>

function skip_vacant :: "'a slot_map \<Rightarrow> nat \<Rightarrow> nat" where
  "skip_vacant m pos =
     (if pos < length (sm_values m) \<and> sm_values m ! pos = None then skip_vacant m (pos + 1) else pos)"
  by pat_completeness auto

termination by (relation "measure (\<lambda>(m, pos). length (sm_values m) - pos)") auto

declare skip_vacant.simps [simp del]

definition sm_begin :: "'a slot_map \<Rightarrow> nat" where
  "sm_begin m = skip_vacant m 0"

definition sm_next :: "'a slot_map \<Rightarrow> nat \<Rightarrow> nat" where
  "sm_next m pos = skip_vacant m (pos + 1)"

definition sm_end :: "'a slot_map \<Rightarrow> nat" where
  "sm_end m = length (sm_values m)"

definition sm_deref :: "'a slot_map \<Rightarrow> nat \<Rightarrow> 'a" where
  "sm_deref m pos = the (sm_values m ! pos)"

subsection \<open>Well-formed maps\<close>

definition live_slots :: "'a slot_map \<Rightarrow> nat set" where
  "live_slots m = {i. i < length (sm_values m) \<and> sm_values m ! i \<noteq> None}"

definition sm_wf :: "'a slot_map \<Rightarrow> bool" where
  "sm_wf m \<longleftrightarrow>
     length (sm_generations m) = length (sm_values m) \<and> length (sm_values m) < 2 ^ 32 \<and>
     distinct (sm_free_list m) \<and>
     (\<forall>i. i \<in> set (map unat (sm_free_list m)) \<longleftrightarrow> i < length (sm_values m) \<and> sm_values m ! i = None) \<and>
     sm_size m = card (live_slots m)"

lemma finite_live_slots [simp]: "finite (live_slots m)"
  by (rule finite_subset [of _ "{..<length (sm_values m)}"]) (auto simp: live_slots_def)

lemma sm_default_ok: "sm_wf (sm_default :: 'a slot_map)" "sm_find (sm_default :: 'a slot_map) = Map.empty"
  by (auto simp: sm_wf_def sm_default_def live_slots_def sm_find_def is_live_def)

lemma live_find: "is_live m k \<longleftrightarrow> sm_find m k \<noteq> None"
  by (auto simp: sm_find_def is_live_def)

lemma find_Some: "sm_find m k = Some v \<longleftrightarrow>
    unat (sk_index k) < length (sm_values m) \<and> sm_generations m ! unat (sk_index k) = sk_generation k \<and>
    sm_values m ! unat (sk_index k) = Some v"
  by (auto simp: sm_find_def is_live_def)

lemma unat_eq_key: "unat (sk_index j) = unat (sk_index k) \<longleftrightarrow> sk_index j = sk_index k"
  by (simp add: word_unat_eq_iff)

text \<open>Storing into a slot: the map changes at the keys of that slot only.\<close>

lemma find_store:
  assumes "length (sm_generations m) = length (sm_values m)" and "i < length (sm_values m)"
  shows "sm_find (m\<lparr>sm_values := (sm_values m)[i := x], sm_generations := (sm_generations m)[i := g],
      sm_free_list := fl, sm_size := n\<rparr>) j =
    (if unat (sk_index j) = i then if sk_generation j = g then x else None else sm_find m j)"
  using assms by (auto simp: sm_find_def is_live_def)

lemma live_store:
  assumes "i < length (sm_values m)"
  shows "live_slots (m\<lparr>sm_values := (sm_values m)[i := x], sm_generations := gs, sm_free_list := fl, sm_size := n\<rparr>) =
    (if x = None then live_slots m - {i} else insert i (live_slots m))"
  using assms by (auto simp: live_slots_def nth_list_update split: if_splits)

text \<open>The two branches of an insertion as updates of the record.\<close>

lemma emplace_new:
  assumes "sm_wf m" and "sm_free_list m = []" and "Suc (length (sm_values m)) < 2 ^ 32"
  obtains k m' where "sm_emplace v m = (k, m')" and "sm_wf m'" and "unat (sk_index k) = length (sm_values m)"
    and "sk_generation k = 1" and "sm_find m' = (sm_find m)(k \<mapsto> v)"
    and "sm_generations m' = sm_generations m @ [1]"
proof -
  let ?n = "length (sm_values m)"
  let ?k = "Slot_key (of_nat ?n) 1"
  let ?m = "m\<lparr>sm_values := sm_values m @ [Some v], sm_generations := sm_generations m @ [1],
    sm_size := sm_size m + 1\<rparr>"
  have n: "unat (of_nat ?n :: u32) = ?n" using assms(3) by (intro unat_of_nat_less) simp
  have key: "unat (sk_index j) = ?n \<longleftrightarrow> sk_index j = of_nat ?n" for j
    using unat_eq_key [of j ?k] n by simp
  have "live_slots ?m = insert ?n (live_slots m)"
    by (auto simp: live_slots_def nth_append less_Suc_eq)
  moreover have "?n \<notin> live_slots m" by (simp add: live_slots_def)
  moreover have "sm_values m ! i \<noteq> None" if "i < ?n" for i using assms(1,2) that by (auto simp: sm_wf_def)
  ultimately have "sm_wf ?m"
    using assms by (auto simp: sm_wf_def nth_append less_Suc_eq)
  moreover have "sm_find ?m j = ((sm_find m)(?k \<mapsto> v)) j" for j
    using assms(1) key [of j] n
    by (cases j) (auto simp: sm_find_def is_live_def nth_append sm_wf_def less_Suc_eq)
  ultimately show ?thesis
    using n assms(2) by (intro that [of ?k ?m]) (auto simp: sm_emplace_def Let_def)
qed

lemma emplace_reuse:
  assumes "sm_wf m" and "sm_free_list m \<noteq> []"
  obtains k m' where "sm_emplace v m = (k, m')" and "sm_wf m'" and "unat (sk_index k) < length (sm_values m)"
    and "sm_values m ! unat (sk_index k) = None" and "sk_generation k = sm_generations m ! unat (sk_index k)"
    and "sm_find m' = (sm_find m)(k \<mapsto> v)" and "sm_generations m' = sm_generations m"
    and "length (sm_values m') = length (sm_values m)"
proof -
  let ?i = "last (sm_free_list m)"
  let ?k = "Slot_key ?i (sm_generations m ! unat ?i)"
  let ?m = "m\<lparr>sm_values := (sm_values m)[unat ?i := Some v],
    sm_generations := (sm_generations m)[unat ?i := sm_generations m ! unat ?i],
    sm_free_list := butlast (sm_free_list m), sm_size := sm_size m + 1\<rparr>"
  have fl: "sm_free_list m = butlast (sm_free_list m) @ [?i]" using assms(2) by simp
  have free: "x \<in> unat ` set (sm_free_list m) \<longleftrightarrow> x < length (sm_values m) \<and> sm_values m ! x = None" for x
    using assms(1) by (simp add: sm_wf_def)
  have len: "length (sm_generations m) = length (sm_values m)" using assms(1) by (simp add: sm_wf_def)
  have i: "unat ?i < length (sm_values m)" "sm_values m ! unat ?i = None"
    using free [of "unat ?i"] last_in_set [OF assms(2)] by auto
  have d: "distinct (sm_free_list m)" using assms(1) by (simp add: sm_wf_def)
  then have last: "?i \<notin> set (butlast (sm_free_list m))" by (subst (asm) fl) simp
  have rest: "x \<in> unat ` set (butlast (sm_free_list m)) \<longleftrightarrow> x \<in> unat ` set (sm_free_list m) \<and> x \<noteq> unat ?i" for x
  proof -
    have "unat ` set (sm_free_list m) = insert (unat ?i) (unat ` set (butlast (sm_free_list m)))"
      by (subst fl) auto
    moreover have "unat ?i \<notin> unat ` set (butlast (sm_free_list m))"
      using last unsigned_word_eqI [of ?i, where ?'a = nat] by auto
    ultimately show ?thesis by blast
  qed
  have live: "live_slots ?m = insert (unat ?i) (live_slots m)"
    using live_store [OF i(1), where x = "Some v" and n = "sm_size m + 1" and fl = "butlast (sm_free_list m)"
      and gs = "(sm_generations m)[unat ?i := sm_generations m ! unat ?i]"] by simp
  have "unat ?i \<notin> live_slots m" using i by (simp add: live_slots_def)
  then have size: "card (live_slots ?m) = sm_size ?m" using assms(1) live by (simp add: sm_wf_def)
  have "x \<in> unat ` set (sm_free_list ?m) \<longleftrightarrow> x < length (sm_values ?m) \<and> sm_values ?m ! x = None" for x
    using rest [of x] free [of x] i(1) by (cases "x = unat ?i") auto
  with size assms(1) d have "sm_wf ?m" by (simp add: sm_wf_def distinct_butlast)
  moreover have "sm_find ?m = (sm_find m)(?k \<mapsto> v)"
  proof
    fix j
    have vacant: "sm_find m j = None" if "sk_index j = ?i" using i(2) that by (simp add: sm_find_def)
    have "sm_find ?m j = (if unat (sk_index j) = unat ?i then
        if sk_generation j = sm_generations m ! unat ?i then Some v else None else sm_find m j)"
      by (rule find_store [OF len i(1)])
    with vacant show "sm_find ?m j = ((sm_find m)(?k \<mapsto> v)) j"
      using unat_eq_key [of j ?k] by (cases j) auto
  qed
  ultimately show ?thesis
    using assms(2) i by (intro that [of ?k ?m]) (auto simp: sm_emplace_def Let_def)
qed

lemma emplace_ok:
  assumes "sm_wf m" and "sm_free_list m \<noteq> [] \<or> Suc (length (sm_values m)) < 2 ^ 32"
  obtains k m' where "sm_emplace v m = (k, m')" and "sm_wf m'" and "sm_find m k = None"
    and "sm_find m' = (sm_find m)(k \<mapsto> v)"
proof (cases "sm_free_list m = []")
  case True
  with assms(2) have "Suc (length (sm_values m)) < 2 ^ 32" by simp
  from emplace_new [OF assms(1) True this, of v] obtain k m' where
    r: "sm_emplace v m = (k, m')" "sm_wf m'" "unat (sk_index k) = length (sm_values m)"
      "sm_find m' = (sm_find m)(k \<mapsto> v)" by metis
  then have "sm_find m k = None" by (simp add: sm_find_def is_live_def)
  with r show ?thesis by (intro that)
next
  case False
  from emplace_reuse [OF assms(1) False, of v] obtain k m' where
    r: "sm_emplace v m = (k, m')" "sm_wf m'" "sm_values m ! unat (sk_index k) = None"
      "sm_find m' = (sm_find m)(k \<mapsto> v)" by metis
  then have "sm_find m k = None" by (simp add: sm_find_def)
  with r show ?thesis by (intro that)
qed

text \<open>Vacating a slot and bumping its generation, as \<open>erase\<close> and \<open>clear\<close> do.\<close>

definition vacate :: "nat \<Rightarrow> 'a slot_map \<Rightarrow> 'a slot_map" where
  "vacate i m = bump_generation i (m\<lparr>sm_values := (sm_values m)[i := None]\<rparr>)"

definition next_generation :: "u32 \<Rightarrow> u32" where
  "next_generation g = (if g + 1 = 0 then 1 else g + 1)"

lemma vacate_eq:
  "vacate i m = m\<lparr>sm_values := (sm_values m)[i := None],
     sm_generations := (sm_generations m)[i := next_generation (sm_generations m ! i)],
     sm_free_list := sm_free_list m, sm_size := sm_size m\<rparr>"
  by (simp add: vacate_def bump_generation_def next_generation_def Let_def)

lemma erase_ok:
  assumes wf: "sm_wf m" and live: "is_live m k"
  obtains m' where "sm_erase k m = (True, m')" and "sm_wf m'" and "sm_find m' = (sm_find m)(k := None)"
    and "sm_size m' = sm_size m - 1" and "length (sm_values m') = length (sm_values m)"
    and "sm_generations m' = (sm_generations m)[unat (sk_index k) := next_generation (sk_generation k)]"
proof -
  let ?i = "unat (sk_index k)"
  let ?m = "(vacate ?i m)\<lparr>sm_free_list := sm_free_list m @ [sk_index k], sm_size := sm_size m - 1\<rparr>"
  have i: "?i < length (sm_values m)" "sm_generations m ! ?i = sk_generation k" "sm_values m ! ?i \<noteq> None"
    using live by (auto simp: is_live_def)
  have len: "length (sm_generations m) = length (sm_values m)" using wf by (simp add: sm_wf_def)
  have free: "x \<in> unat ` set (sm_free_list m) \<longleftrightarrow> x < length (sm_values m) \<and> sm_values m ! x = None" for x
    using wf by (simp add: sm_wf_def)
  have fresh: "sk_index k \<notin> set (sm_free_list m)" using free [of ?i] i(3) by auto
  have mem: "?i \<in> live_slots m" using i by (auto simp: live_slots_def)
  have "live_slots ?m = live_slots m - {?i}" unfolding vacate_eq using live_store [OF i(1)] by simp
  then have size: "card (live_slots ?m) = sm_size ?m" using mem wf by (simp add: sm_wf_def)
  have "x \<in> unat ` set (sm_free_list ?m) \<longleftrightarrow> x < length (sm_values ?m) \<and> sm_values ?m ! x = None" for x
    using free [of x] i(1) by (auto simp: vacate_eq nth_list_update)
  with size wf fresh have "sm_wf ?m" by (simp add: sm_wf_def) (simp add: vacate_eq)
  moreover have "sm_find ?m = (sm_find m)(k := None)"
  proof
    fix j
    have other: "sm_find m j = None" if "sk_index j = sk_index k" "j \<noteq> k"
      using that i(2) by (auto simp: slot_key.expand sm_find_def is_live_def)
    have "?m = m\<lparr>sm_values := (sm_values m)[?i := None],
        sm_generations := (sm_generations m)[?i := next_generation (sm_generations m ! ?i)],
        sm_free_list := sm_free_list m @ [sk_index k], sm_size := sm_size m - 1\<rparr>"
      by (simp add: vacate_eq)
    then have "sm_find ?m j = (if unat (sk_index j) = ?i then
        if sk_generation j = next_generation (sm_generations m ! ?i) then None else None else sm_find m j)"
      by (simp only: find_store [OF len i(1)])
    with other show "sm_find ?m j = ((sm_find m)(k := None)) j"
      using unat_eq_key [of j k] by auto
  qed
  ultimately show ?thesis
    using live i by (intro that [of ?m]) (auto simp: sm_erase_def Let_def vacate_eq simp flip: vacate_def)
qed

lemma sm_erase_dead: "\<not> is_live m k \<Longrightarrow> sm_erase k m = (False, m)"
  by (simp add: sm_erase_def)

lemma clear_slots_ok:
  "distinct is \<Longrightarrow> \<forall>i \<in> set is. i < length (sm_values m) \<Longrightarrow>
   length (sm_generations m) = length (sm_values m) \<Longrightarrow>
   let m' = clear_slots is m
   in length (sm_values m') = length (sm_values m) \<and> length (sm_generations m') = length (sm_values m) \<and>
     (\<forall>i < length (sm_values m). sm_values m' ! i = (if i \<in> set is then None else sm_values m ! i) \<and>
        sm_generations m' ! i =
          (if i \<in> set is \<and> sm_values m ! i \<noteq> None then next_generation (sm_generations m ! i)
           else sm_generations m ! i))"
proof (induction "is" arbitrary: m)
  case (Cons j js)
  define m1 where "m1 = (if sm_values m ! j \<noteq> None then vacate j m else m)"
  have m1: "length (sm_values m1) = length (sm_values m)" "length (sm_generations m1) = length (sm_values m)"
    using Cons.prems by (auto simp: m1_def vacate_eq)
  have "clear_slots (j # js) m = clear_slots js m1" by (simp add: m1_def vacate_def)
  moreover have "sm_values m1 ! i = (if i = j then None else sm_values m ! i)"
    "sm_generations m1 ! i = (if i = j \<and> sm_values m ! i \<noteq> None then next_generation (sm_generations m ! i)
       else sm_generations m ! i)" if "i < length (sm_values m)" for i
    using that Cons.prems by (auto simp: m1_def vacate_eq)
  ultimately show ?case
    using Cons.IH [of m1] Cons.prems m1 by (auto simp: Let_def)
qed (simp add: Let_def)

lemma clear_ok:
  assumes wf: "sm_wf m"
  shows "sm_wf (sm_clear m)" and "sm_find (sm_clear m) = Map.empty" and "length (sm_values (sm_clear m)) = length (sm_values m)"
    and "i < length (sm_values m) \<Longrightarrow> sm_generations (sm_clear m) ! i =
      (if sm_values m ! i \<noteq> None then next_generation (sm_generations m ! i) else sm_generations m ! i)"
    and "length (sm_generations (sm_clear m)) = length (sm_values m)"
proof -
  let ?n = "length (sm_values m)"
  have r: "length (sm_values (sm_clear m)) = ?n" "length (sm_generations (sm_clear m)) = ?n"
    "\<And>i. i < ?n \<Longrightarrow> sm_values (sm_clear m) ! i = None"
    "\<And>i. i < ?n \<Longrightarrow> sm_generations (sm_clear m) ! i =
      (if sm_values m ! i \<noteq> None then next_generation (sm_generations m ! i) else sm_generations m ! i)"
    using clear_slots_ok [of "[0..<?n]" m] wf by (auto simp: sm_clear_def Let_def sm_wf_def)
  have n: "?n < 2 ^ 32" using wf by (simp add: sm_wf_def)
  then have u: "unat (of_nat i :: u32) = i" if "i < ?n" for i
    using that by (intro unat_of_nat_less) simp
  have fl: "sm_free_list (sm_clear m) = map of_nat (rev [0..<?n])" "sm_size (sm_clear m) = 0"
    by (simp_all add: sm_clear_def Let_def)
  have "inj_on (of_nat :: nat \<Rightarrow> u32) {0..<?n}" using u by (intro inj_onI) (metis atLeastLessThan_iff)
  then have d: "distinct (sm_free_list (sm_clear m))" by (simp add: fl distinct_map)
  have "live_slots (sm_clear m) = {}" using r by (simp add: live_slots_def)
  moreover have "x \<in> unat ` set (sm_free_list (sm_clear m)) \<longleftrightarrow> x < ?n" for x
    using u by (force simp: fl image_image)
  then have "x \<in> set (map unat (sm_free_list (sm_clear m))) \<longleftrightarrow> x < ?n" for x by simp
  ultimately show "sm_wf (sm_clear m)" unfolding sm_wf_def using d r(1-3) n fl(2) by (auto simp del: set_map)
  show "sm_find (sm_clear m) = Map.empty" using r by (auto simp: sm_find_def is_live_def)
qed (use clear_slots_ok [of "[0..<length (sm_values m)]" m] wf in \<open>auto simp: sm_clear_def Let_def sm_wf_def\<close>)

subsection \<open>Iteration\<close>

text \<open>A range-based for loop over the map: the values from a position on.\<close>

partial_function (option) sm_walk :: "'a slot_map \<Rightarrow> nat \<Rightarrow> 'a list option" where
  "sm_walk m pos =
     (if pos = sm_end m then Some []
      else Option.bind (sm_walk m (sm_next m pos)) (\<lambda>vs. Some (sm_deref m pos # vs)))"

declare sm_walk.simps [code]

lemma sm_walk_skip:
  "pos \<le> length (sm_values m) \<Longrightarrow>
    sm_walk m (skip_vacant m pos) = Some (map the (filter (\<lambda>x. x \<noteq> None) (drop pos (sm_values m))))"
proof (induction "length (sm_values m) - pos" arbitrary: pos)
  case 0
  then have "pos = length (sm_values m)" by simp
  then show ?case by (subst skip_vacant.simps, subst sm_walk.simps) (simp add: sm_end_def)
next
  case (Suc d)
  then have pos: "pos < length (sm_values m)" by simp
  have IH: "sm_walk m (skip_vacant m (Suc pos)) = Some (map the (filter (\<lambda>x. x \<noteq> None) (drop (Suc pos) (sm_values m))))"
    using Suc.hyps(1) [of "Suc pos"] Suc.hyps(2) pos by simp
  have drop: "drop pos (sm_values m) = sm_values m ! pos # drop (Suc pos) (sm_values m)"
    using pos by (simp add: Cons_nth_drop_Suc)
  show ?case
  proof (cases "sm_values m ! pos")
    case None
    then show ?thesis using pos IH drop by (subst skip_vacant.simps) simp
  next
    case (Some v)
    then have "skip_vacant m pos = pos" by (subst skip_vacant.simps) simp
    then show ?thesis
      using pos IH drop Some by (simp add: sm_walk.simps [of m pos] sm_end_def sm_next_def sm_deref_def)
  qed
qed

lemma sm_walk_values: "sm_walk m (sm_begin m) = Some (map the (filter (\<lambda>x. x \<noteq> None) (sm_values m)))"
  using sm_walk_skip [of 0 m] by (simp add: sm_begin_def)

subsection \<open>Runs of operations\<close>

datatype 'a slot_op = Op_insert 'a | Op_assign slot_key 'a | Op_erase slot_key | Op_clear

text \<open>The keys the insertions of a run return, and the map after it.\<close>

fun sm_run :: "'a slot_op list \<Rightarrow> 'a slot_map \<Rightarrow> slot_key list \<times> 'a slot_map" where
  "sm_run [] m = ([], m)"
| "sm_run (Op_insert v # ops) m =
     (case sm_emplace v m of (k, m') \<Rightarrow> case sm_run ops m' of (ks, m'') \<Rightarrow> (k # ks, m''))"
| "sm_run (Op_assign k v # ops) m = sm_run ops (sm_assign k v m)"
| "sm_run (Op_erase k # ops) m = sm_run ops (snd (sm_erase k m))"
| "sm_run (Op_clear # ops) m = sm_run ops (sm_clear m)"

text \<open>The same run on a partial map, with the keys given.\<close>

fun sm_spec :: "'a slot_op list \<Rightarrow> slot_key list \<Rightarrow> (slot_key \<rightharpoonup> 'a) \<Rightarrow> (slot_key \<rightharpoonup> 'a)" where
  "sm_spec [] ks A = A"
| "sm_spec (Op_insert v # ops) ks A = sm_spec ops (tl ks) (A(hd ks \<mapsto> v))"
| "sm_spec (Op_assign k v # ops) ks A = sm_spec ops ks (if A k = None then A else A(k \<mapsto> v))"
| "sm_spec (Op_erase k # ops) ks A = sm_spec ops ks (A(k := None))"
| "sm_spec (Op_clear # ops) ks A = sm_spec ops ks Map.empty"

text \<open>After \<open>n\<close> operations no generation exceeds \<open>n + 1\<close>; a key of \<open>used\<close> is either live or behind its
  slot's generation.\<close>

definition sm_history :: "'a slot_map \<Rightarrow> nat \<Rightarrow> slot_key set \<Rightarrow> bool" where
  "sm_history m n used \<longleftrightarrow>
     sm_wf m \<and> length (sm_values m) \<le> n \<and>
     (\<forall>i < length (sm_values m). unat (sm_generations m ! i) \<le> n + 1) \<and>
     (\<forall>k \<in> used. unat (sk_index k) < length (sm_values m) \<and>
        (sk_generation k < sm_generations m ! unat (sk_index k) \<or> is_live m k))"

lemma next_generation_nat: "unat g + 1 < 2 ^ 32 \<Longrightarrow> unat (next_generation g) = unat g + 1 \<and> g < next_generation g"
proof -
  assume "unat g + 1 < 2 ^ 32"
  then have "unat (g + 1) = unat g + 1" by (simp add: unat_word_ariths)
  moreover from this have "g + 1 \<noteq> 0" by (metis add_is_0 one_neq_zero unat_eq_zero)
  ultimately show ?thesis by (simp add: next_generation_def word_less_nat_alt)
qed

lemma history_fresh:
  assumes "sm_history m n used" and "unat (sk_index k) < length (sm_values m)"
    and "sm_values m ! unat (sk_index k) = None" and "sk_generation k = sm_generations m ! unat (sk_index k)"
  shows "k \<notin> used"
  using assms by (auto simp: sm_history_def is_live_def)

text \<open>A slot that is vacated: its keys fall behind.\<close>

lemma history_step:
  assumes hist: "sm_history m n used" and wf: "sm_wf m'" and n: "n + 2 < 2 ^ 32"
    and len: "length (sm_values m') = length (sm_values m)"
    and slots: "\<And>i. i < length (sm_values m) \<Longrightarrow>
      sm_generations m' ! i = sm_generations m ! i \<and> (sm_values m ! i \<noteq> None \<longrightarrow> sm_values m' ! i \<noteq> None) \<or>
      sm_generations m' ! i = next_generation (sm_generations m ! i)"
  shows "sm_history m' (Suc n) used"
proof -
  have le: "unat (sm_generations m ! i) \<le> n + 1" if "i < length (sm_values m)" for i
    using that hist by (simp add: sm_history_def)
  have up: "unat (next_generation (sm_generations m ! i)) = unat (sm_generations m ! i) + 1 \<and>
      sm_generations m ! i < next_generation (sm_generations m ! i)" if "i < length (sm_values m)" for i
    using le [OF that] n by (intro next_generation_nat) simp
  have "unat (sm_generations m' ! i) \<le> Suc n + 1" if "i < length (sm_values m)" for i
    using slots [OF that] up [OF that] le [OF that] by auto
  moreover have "sk_generation k < sm_generations m' ! unat (sk_index k) \<or> is_live m' k"
    if "k \<in> used" for k
  proof -
    have i: "unat (sk_index k) < length (sm_values m)" using that hist by (simp add: sm_history_def)
    have "sk_generation k < sm_generations m ! unat (sk_index k) \<or> is_live m k"
      using that hist by (simp add: sm_history_def)
    then show ?thesis
      using slots [OF i] up [OF i] len i by (auto simp: is_live_def)
  qed
  ultimately show ?thesis using hist wf len by (auto simp: sm_history_def)
qed

lemma history_emplace:
  assumes hist: "sm_history m n used" and n: "n + 2 < 2 ^ 32"
  obtains k m' where "sm_emplace v m = (k, m')" and "sm_find m' = (sm_find m)(k \<mapsto> v)" and "k \<notin> used"
    and "sm_history m' (Suc n) (insert k used)"
proof (cases "sm_free_list m = []")
  case True
  have wf: "sm_wf m" and "Suc (length (sm_values m)) < 2 ^ 32" using hist n by (simp_all add: sm_history_def)
  from emplace_new [OF wf True this(2), of v] obtain k m' where
    r: "sm_emplace v m = (k, m')" "sm_wf m'" "unat (sk_index k) = length (sm_values m)" "sk_generation k = 1"
      "sm_find m' = (sm_find m)(k \<mapsto> v)" "sm_generations m' = sm_generations m @ [1]" by metis
  have len: "length (sm_values m') = Suc (length (sm_values m))" "length (sm_generations m) = length (sm_values m)"
    using r(2,6) wf by (simp_all add: sm_wf_def)
  have gens: "i < length (sm_values m) \<Longrightarrow> sm_generations m' ! i = sm_generations m ! i"
    "sm_generations m' ! length (sm_values m) = 1" for i
    using r(6) len(2) by (simp_all add: nth_append)
  have live: "is_live m' k" "\<And>j. is_live m j \<Longrightarrow> is_live m' j" by (auto simp: live_find r(5))
  have used: "unat (sk_index j) < length (sm_values m)" "sk_generation j < sm_generations m ! unat (sk_index j) \<or> is_live m j"
    if "j \<in> used" for j using that hist by (auto simp: sm_history_def)
  have "k \<notin> used" using used(1) r(3) by fastforce
  moreover have "sm_history m' (Suc n) (insert k used)"
    unfolding sm_history_def
  proof (intro conjI ballI allI impI)
    show "length (sm_values m') \<le> Suc n" using hist len by (simp add: sm_history_def)
    show "unat (sm_generations m' ! i) \<le> Suc n + 1" if "i < length (sm_values m')" for i
      using that hist gens(1) [of i] gens(2) len(1) by (cases "i = length (sm_values m)") (auto simp: sm_history_def le_Suc_eq)
    show "unat (sk_index j) < length (sm_values m')" "sk_generation j < sm_generations m' ! unat (sk_index j) \<or> is_live m' j"
      if "j \<in> insert k used" for j
      using that used [of j] gens live r(3) len(1) by (auto simp: less_Suc_eq)
  qed (rule r(2))
  ultimately show ?thesis using r by (intro that)
next
  case False
  have wf: "sm_wf m" using hist by (simp add: sm_history_def)
  from emplace_reuse [OF wf False, of v] obtain k m' where
    r: "sm_emplace v m = (k, m')" "sm_wf m'" "unat (sk_index k) < length (sm_values m)"
      "sm_values m ! unat (sk_index k) = None" "sk_generation k = sm_generations m ! unat (sk_index k)"
      "sm_find m' = (sm_find m)(k \<mapsto> v)" "sm_generations m' = sm_generations m"
      "length (sm_values m') = length (sm_values m)" by metis
  have live: "is_live m' k" "\<And>j. is_live m j \<Longrightarrow> is_live m' j" by (auto simp: live_find r(6))
  have "k \<notin> used" using history_fresh [OF hist r(3-5)] .
  moreover have "sm_history m' (Suc n) (insert k used)"
    using hist r(2,3,7,8) live by (auto simp: sm_history_def le_Suc_eq)
  ultimately show ?thesis using r by (intro that)
qed

lemma assign_ok:
  assumes "sm_wf m" and "is_live m k"
  shows "sm_wf (sm_assign k v m)" and "sm_find (sm_assign k v m) = (sm_find m)(k \<mapsto> v)"
proof -
  have i: "unat (sk_index k) < length (sm_values m)" "sm_values m ! unat (sk_index k) \<noteq> None"
    using assms(2) by (auto simp: is_live_def)
  have "live_slots (sm_assign k v m) = live_slots m"
    using i assms(2) by (auto simp: sm_assign_def live_slots_def nth_list_update split: if_splits)
  then show "sm_wf (sm_assign k v m)"
    using assms i by (auto simp: sm_wf_def sm_assign_def nth_list_update)
  show "sm_find (sm_assign k v m) = (sm_find m)(k \<mapsto> v)"
  proof
    fix j
    show "sm_find (sm_assign k v m) j = ((sm_find m)(k \<mapsto> v)) j"
      using assms(2) i unat_eq_key [of j k]
      by (cases "sk_index j = sk_index k") (auto simp: sm_assign_def sm_find_def is_live_def slot_key.expand)
  qed
qed

lemma sm_run_ok:
  "sm_history m n used \<Longrightarrow> n + length ops + 1 < 2 ^ 32 \<Longrightarrow>
    \<exists>ks m'. sm_run ops m = (ks, m') \<and> distinct ks \<and> set ks \<inter> used = {} \<and> sm_wf m' \<and>
      dom (sm_find m') \<subseteq> dom (sm_find m) \<union> set ks \<and> sm_find m' = sm_spec ops ks (sm_find m)"
proof (induction ops arbitrary: m n used)
  case Nil
  then show ?case by (auto simp: sm_history_def)
next
  case (Cons op ops)
  have wf: "sm_wf m" using Cons.prems(1) by (simp add: sm_history_def)
  have n: "n + 2 < 2 ^ 32" and n': "Suc n + length ops + 1 < 2 ^ 32" using Cons.prems(2) by simp_all
  show ?case
  proof (cases op)
    case (Op_insert v)
    obtain k m1 where e: "sm_emplace v m = (k, m1)" "sm_find m1 = (sm_find m)(k \<mapsto> v)" "k \<notin> used"
      "sm_history m1 (Suc n) (insert k used)"
      using history_emplace [OF Cons.prems(1) n] .
    from Cons.IH [OF e(4) n'] obtain ks m2 where
      "sm_run ops m1 = (ks, m2)" "distinct ks" "set ks \<inter> insert k used = {}" "sm_wf m2"
      "dom (sm_find m2) \<subseteq> dom (sm_find m1) \<union> set ks" "sm_find m2 = sm_spec ops ks (sm_find m1)"
      by blast
    then show ?thesis
      using Op_insert e by (intro exI [of _ "k # ks"] exI [of _ m2]) auto
  next
    case (Op_assign k v)
    show ?thesis
    proof (cases "is_live m k")
      case True
      note r = assign_ok [OF wf True, of v]
      have "sm_history (sm_assign k v m) (Suc n) used"
        by (rule history_step [OF Cons.prems(1) r(1) n])
          (use True in \<open>auto simp: sm_assign_def nth_list_update is_live_def\<close>)
      from Cons.IH [OF this n'] obtain ks m2 where
        "sm_run ops (sm_assign k v m) = (ks, m2)" "distinct ks" "set ks \<inter> used = {}" "sm_wf m2"
        "dom (sm_find m2) \<subseteq> dom ((sm_find m)(k \<mapsto> v)) \<union> set ks"
        "sm_find m2 = sm_spec ops ks ((sm_find m)(k \<mapsto> v))"
        unfolding r(2) by blast
      moreover have "dom ((sm_find m)(k \<mapsto> v)) = dom (sm_find m)" "sm_find m k \<noteq> None"
        using True by (auto simp: live_find)
      ultimately show ?thesis
        using Op_assign by (intro exI [of _ ks] exI [of _ m2]) auto
    next
      case False
      have "sm_history m (Suc n) used" using Cons.prems(1) by (auto simp: sm_history_def le_Suc_eq)
      from Cons.IH [OF this n'] show ?thesis
        using Op_assign False by (auto simp: sm_assign_def live_find)
    qed
  next
    case (Op_erase k)
    show ?thesis
    proof (cases "is_live m k")
      case True
      obtain m1 where e: "sm_erase k m = (True, m1)" "sm_wf m1" "sm_find m1 = (sm_find m)(k := None)"
        "length (sm_values m1) = length (sm_values m)"
        "sm_generations m1 = (sm_generations m)[unat (sk_index k) := next_generation (sk_generation k)]"
        using erase_ok [OF wf True] by metis
      have vals: "sm_values m1 = (sm_values m)[unat (sk_index k) := None]"
        using e(1) True by (auto simp: sm_erase_def Let_def bump_generation_def)
      have "sm_history m1 (Suc n) used"
        by (rule history_step [OF Cons.prems(1) e(2) n e(4)])
          (use True wf in \<open>auto simp: e(5) vals nth_list_update is_live_def sm_wf_def\<close>)
      from Cons.IH [OF this n'] obtain ks m2 where
        "sm_run ops m1 = (ks, m2)" "distinct ks" "set ks \<inter> used = {}" "sm_wf m2"
        "dom (sm_find m2) \<subseteq> dom ((sm_find m)(k := None)) \<union> set ks"
        "sm_find m2 = sm_spec ops ks ((sm_find m)(k := None))"
        unfolding e(3) by blast
      moreover have "dom ((sm_find m)(k := None)) \<subseteq> dom (sm_find m)" by auto
      ultimately show ?thesis
        using Op_erase e(1) by (intro exI [of _ ks] exI [of _ m2]) (simp, blast)
    next
      case False
      have "sm_history m (Suc n) used" using Cons.prems(1) by (auto simp: sm_history_def le_Suc_eq)
      moreover have "(sm_find m)(k := None) = sm_find m" using False by (auto simp: live_find)
      ultimately show ?thesis
        using Cons.IH [of m "Suc n" used] n' Op_erase False by (simp add: sm_erase_dead)
    qed
  next
    case Op_clear
    have "sm_history (sm_clear m) (Suc n) used"
      by (rule history_step [OF Cons.prems(1) clear_ok(1) [OF wf] n clear_ok(3) [OF wf]])
        (use clear_ok(4) [OF wf] in auto)
    from Cons.IH [OF this n'] show ?thesis
      using Op_clear unfolding clear_ok(2) [OF wf] dom_empty by fastforce
  qed
qed

subsection \<open>Properties\<close>

text \<open>C20: over any run of fewer than \<open>2 ^ 32 - 1\<close> insertions, assignments, erasures and clears of a new map,
no key is handed out twice, and the map is the one the same run makes of a partial map from keys to
values: a key whose element was erased never finds another element.\<close>

theorem slot_map_keys_never_reused:
  assumes "length ops < 2 ^ 32 - 1"
  shows "\<exists>ks m. sm_run ops sm_default = (ks, m) \<and> distinct ks \<and> dom (sm_find m) \<subseteq> set ks \<and>
    sm_find m = sm_spec ops ks Map.empty"
proof -
  have "sm_history (sm_default :: 'a slot_map) 0 {}"
    using sm_default_ok(1) by (simp add: sm_history_def) (simp add: sm_default_def)
  from sm_run_ok [OF this, of ops] assms show ?thesis by (auto simp: sm_default_ok(2))
qed

lemma slot_map_keys_never_reused_witness:
  "\<exists>ks m. sm_run [Op_insert 7, Op_erase (Slot_key 0 1), Op_insert (8 :: nat)] sm_default = (ks, m) \<and> distinct ks"
  using slot_map_keys_never_reused [of "[Op_insert 7, Op_erase (Slot_key 0 1), Op_insert (8 :: nat)]"] by auto

end
