(* ===== verification/Bounded_Fifo.thy ===== *)
theory Bounded_Fifo
  imports Container_Error
begin

text \<open>
  The contract of a bounded queue: a push appends unless the queue is full, a pop takes the
  oldest element unless it is empty, and an operation that fails changes nothing. The ring
  buffer and the single-producer single-consumer queue both provide it.
\<close>

datatype 'a fifo_op = Fifo_push 'a | Fifo_pop

text \<open>What a caller sees of one operation.\<close>

datatype 'a fifo_answer = Pushed "container_error + unit" | Popped "container_error + 'a"

fun fifo_step ::
    "('a \<Rightarrow> 'q \<Rightarrow> (container_error + unit) \<times> 'q) \<Rightarrow> ('q \<Rightarrow> (container_error + 'a) \<times> 'q) \<Rightarrow>
      'a fifo_op \<Rightarrow> 'q \<Rightarrow> 'a fifo_answer \<times> 'q" where
  "fifo_step push pop (Fifo_push x) q = (case push x q of (r, q') \<Rightarrow> (Pushed r, q'))"
| "fifo_step push pop Fifo_pop q = (case pop q of (r, q') \<Rightarrow> (Popped r, q'))"

fun fifo_run ::
    "('a \<Rightarrow> 'q \<Rightarrow> (container_error + unit) \<times> 'q) \<Rightarrow> ('q \<Rightarrow> (container_error + 'a) \<times> 'q) \<Rightarrow>
      'a fifo_op list \<Rightarrow> 'q \<Rightarrow> 'a fifo_answer list \<times> 'q" where
  "fifo_run push pop [] q = ([], q)"
| "fifo_run push pop (c # cs) q =
     (case fifo_step push pop c q of (a, q') \<Rightarrow> case fifo_run push pop cs q' of (as, q'') \<Rightarrow> (a # as, q''))"

text \<open>The reference queue: a list of at most \<open>cap\<close> elements, the oldest first.\<close>

definition list_push :: "nat \<Rightarrow> 'a \<Rightarrow> 'a list \<Rightarrow> (container_error + unit) \<times> 'a list" where
  "list_push cap x xs = (if length xs < cap then (Inr (), xs @ [x]) else (Inl Full, xs))"

definition list_pop :: "'a list \<Rightarrow> (container_error + 'a) \<times> 'a list" where
  "list_pop xs = (case xs of [] \<Rightarrow> (Inl Empty, []) | x # xs' \<Rightarrow> (Inr x, xs'))"

locale bounded_fifo =
  fixes ok :: "'q \<Rightarrow> bool"
    and content :: "'q \<Rightarrow> 'a list"
    and cap :: nat
    and push :: "'a \<Rightarrow> 'q \<Rightarrow> (container_error + unit) \<times> 'q"
    and pop :: "'q \<Rightarrow> (container_error + 'a) \<times> 'q"
  assumes bound: "ok q \<Longrightarrow> length (content q) \<le> cap"
    and push_ok: "ok q \<Longrightarrow> ok (snd (push x q)) \<and>
      (fst (push x q), content (snd (push x q))) = list_push cap x (content q)"
    and pop_ok: "ok q \<Longrightarrow> ok (snd (pop q)) \<and> (fst (pop q), content (snd (pop q))) = list_pop (content q)"
begin

lemma step_refines:
  assumes "ok q"
  shows "ok (snd (fifo_step push pop c q)) \<and>
    (fst (fifo_step push pop c q), content (snd (fifo_step push pop c q))) =
      fifo_step (list_push cap) list_pop c (content q)"
proof (cases c)
  case (Fifo_push x)
  with push_ok [OF assms, of x] show ?thesis
    by (cases "push x q"; cases "list_push cap x (content q)") auto
next
  case Fifo_pop
  with pop_ok [OF assms] show ?thesis by (cases "pop q"; cases "list_pop (content q)") auto
qed

lemma run_refines:
  "ok q \<Longrightarrow> ok (snd (fifo_run push pop cs q)) \<and>
    (fst (fifo_run push pop cs q), content (snd (fifo_run push pop cs q))) =
      fifo_run (list_push cap) list_pop cs (content q)"
proof (induction cs arbitrary: q)
  case (Cons c cs)
  obtain a q' where s: "fifo_step push pop c q = (a, q')" by (cases "fifo_step push pop c q")
  with step_refines [OF Cons.prems, of c]
  have "ok q'" and r: "fifo_step (list_push cap) list_pop c (content q) = (a, content q')" by auto
  from Cons.IH [OF this(1)] show ?case
    by (cases "fifo_run push pop cs q'"; cases "fifo_run (list_push cap) list_pop cs (content q')") (auto simp: s r)
qed simp

lemma pop_empty: "ok q \<Longrightarrow> content q = [] \<Longrightarrow> fst (pop q) = Inl Empty"
  using pop_ok [of q] by (simp add: list_pop_def)

lemma pop_oldest:
  "ok q \<Longrightarrow> content q = x # xs \<Longrightarrow> fst (pop q) = Inr x \<and> ok (snd (pop q)) \<and> content (snd (pop q)) = xs"
  using pop_ok [of q] by (simp add: list_pop_def)

end

text \<open>First in, first out: what a run of the reference queue pops, followed by what is left in it, is
  what was in it followed by what was accepted.\<close>

fun accepted :: "'a fifo_op list \<Rightarrow> 'a fifo_answer list \<Rightarrow> 'a list" where
  "accepted (Fifo_push x # cs) (Pushed (Inr u) # as) = x # accepted cs as"
| "accepted (c # cs) (a # as) = accepted cs as"
| "accepted cs as = []"

fun popped :: "'a fifo_answer list \<Rightarrow> 'a list" where
  "popped (Popped (Inr x) # as) = x # popped as"
| "popped (a # as) = popped as"
| "popped [] = []"

lemma list_fifo_order:
  "fifo_run (list_push cap) list_pop cs xs = (as, ys) \<Longrightarrow> popped as @ ys = xs @ accepted cs as"
proof (induction cs arbitrary: xs as)
  case (Cons c cs)
  obtain a zs where s: "fifo_step (list_push cap) list_pop c xs = (a, zs)"
    by (cases "fifo_step (list_push cap) list_pop c xs")
  obtain bs where r: "fifo_run (list_push cap) list_pop cs zs = (bs, ys)" "as = a # bs"
    using Cons.prems by (auto simp: s split: prod.splits)
  from Cons.IH [OF r(1)] s show ?case
    by (cases c; cases xs) (auto simp: r(2) list_push_def list_pop_def split: if_splits)
qed simp

text \<open>Indices that wrap by masking, when the capacity is a power of two.\<close>

lemma and_pred_zero: "0 < n \<Longrightarrow> n AND (n - 1) = 0 \<Longrightarrow> \<exists>k. n = 2 ^ k" for n :: nat
proof (induction n rule: less_induct)
  case (less n)
  show ?case
  proof (cases "even n")
    case True
    then obtain m where m: "n = 2 * m" by (rule evenE)
    have "0 < m" "m < n" using less.prems(1) m by auto
    have "n - 1 = 2 * (m - 1) + 1" using \<open>0 < m\<close> m by simp
    then have "(n AND (n - 1)) div 2 = m AND (m - 1)" by (simp add: m and_nat_rec [of "2 * m"] del: mult_2)
    with less.prems(2) have "m AND (m - 1) = 0" by simp
    from less.IH [OF \<open>m < n\<close> \<open>0 < m\<close> this] m show ?thesis by (metis power_Suc)
  next
    case False
    then obtain m where m: "n = 2 * m + 1" by (rule oddE)
    have "(n AND (n - 1)) div 2 = m AND m" by (simp add: m and_nat_rec [of "Suc (2 * m)"])
    with less.prems(2) m have "n = 2 ^ 0" by simp
    then show ?thesis by blast
  qed
qed

lemma and_pred_mod: "0 < n \<Longrightarrow> n AND (n - 1) = 0 \<Longrightarrow> i AND (n - 1) = i mod n" for n i :: nat
proof -
  assume "0 < n" "n AND (n - 1) = 0"
  then obtain k where k: "n = 2 ^ k" using and_pred_zero by blast
  show "i AND (n - 1) = i mod n"
    unfolding k by (simp add: take_bit_eq_mask mask_eq_exp_minus_1 flip: take_bit_eq_mod)
qed

end
