(* ===== verification/Ring_Buffer.thy ===== *)
theory Ring_Buffer
  imports Bounded_Fifo
begin

text \<open>
  The fixed-capacity ring buffer: \<open>container/ring_buffer.hpp\<close>. A slot is \<open>Some\<close> exactly
  while an object lives in it, so that the invariant also says that nothing is read before
  it is constructed, constructed twice or destroyed twice. \<open>n\<close> is the template's \<open>N\<close>.
\<close>

subsection \<open>The code\<close>

record 'a ring_buffer =
  rb_slots :: "'a option list"
  rb_head :: nat
  rb_tail :: nat
  rb_size :: nat

definition rb_default :: "nat \<Rightarrow> 'a ring_buffer" where
  "rb_default n = \<lparr>rb_slots = replicate n None, rb_head = 0, rb_tail = 0, rb_size = 0\<rparr>"

definition rb_wrap :: "nat \<Rightarrow> nat \<Rightarrow> nat" where
  "rb_wrap n index =
     (if n AND (n - 1) = 0 then index AND (n - 1) else if n \<le> index then index - n else index)"

definition rb_advance :: "nat \<Rightarrow> nat \<Rightarrow> nat" where
  "rb_advance n index = rb_wrap n (index + 1)"

definition rb_emplace :: "nat \<Rightarrow> 'a \<Rightarrow> 'a ring_buffer \<Rightarrow> (container_error + unit) \<times> 'a ring_buffer" where
  "rb_emplace n x b =
     (if rb_size b = n then (Inl Full, b)
      else
        (Inr (), b\<lparr>rb_slots := (rb_slots b)[rb_tail b := Some x],
                   rb_tail := rb_advance n (rb_tail b), rb_size := rb_size b + 1\<rparr>))"

definition rb_emplace_overwrite :: "nat \<Rightarrow> 'a \<Rightarrow> 'a ring_buffer \<Rightarrow> 'a ring_buffer" where
  "rb_emplace_overwrite n x b =
     (if rb_size b = n then
        let slots = (rb_slots b)[rb_tail b := None]
        in b\<lparr>rb_slots := slots[rb_tail b := Some x],
             rb_head := rb_advance n (rb_head b), rb_tail := rb_advance n (rb_tail b)\<rparr>
      else
        b\<lparr>rb_slots := (rb_slots b)[rb_tail b := Some x],
          rb_tail := rb_advance n (rb_tail b), rb_size := rb_size b + 1\<rparr>)"

definition rb_pop :: "nat \<Rightarrow> 'a ring_buffer \<Rightarrow> (container_error + 'a) \<times> 'a ring_buffer" where
  "rb_pop n b =
     (if rb_size b = 0 then (Inl Empty, b)
      else
        (Inr (the (rb_slots b ! rb_head b)),
         b\<lparr>rb_slots := (rb_slots b)[rb_head b := None],
           rb_head := rb_advance n (rb_head b), rb_size := rb_size b - 1\<rparr>))"

text \<open>\<open>front\<close>, \<open>back\<close> and \<open>at\<close> return a pointer; here what it points to.\<close>

definition rb_front :: "'a ring_buffer \<Rightarrow> 'a option" where
  "rb_front b = (if rb_size b = 0 then None else rb_slots b ! rb_head b)"

definition rb_back :: "nat \<Rightarrow> 'a ring_buffer \<Rightarrow> 'a option" where
  "rb_back n b = (if rb_size b = 0 then None else rb_slots b ! rb_wrap n (rb_tail b + n - 1))"

definition rb_nth :: "nat \<Rightarrow> 'a ring_buffer \<Rightarrow> nat \<Rightarrow> 'a" where
  "rb_nth n b i = the (rb_slots b ! rb_wrap n (rb_head b + i))"

definition rb_at :: "nat \<Rightarrow> 'a ring_buffer \<Rightarrow> nat \<Rightarrow> 'a option" where
  "rb_at n b i = (if i < rb_size b then rb_slots b ! rb_wrap n (rb_head b + i) else None)"

fun clear_loop :: "nat \<Rightarrow> nat \<Rightarrow> nat \<Rightarrow> 'a option list \<Rightarrow> 'a option list" where
  "clear_loop n 0 index slots = slots"
| "clear_loop n (Suc k) index slots = clear_loop n k (rb_advance n index) (slots[index := None])"

definition rb_clear :: "nat \<Rightarrow> 'a ring_buffer \<Rightarrow> 'a ring_buffer" where
  "rb_clear n b =
     b\<lparr>rb_slots := clear_loop n (rb_size b) (rb_head b) (rb_slots b), rb_head := 0, rb_tail := 0, rb_size := 0\<rparr>"

text \<open>The moves of \<open>move_from\<close>: slot \<open>i\<close> of this buffer from slot \<open>src\<close> of the other.\<close>

fun move_loop ::
    "nat \<Rightarrow> nat \<Rightarrow> nat \<Rightarrow> nat \<Rightarrow> 'a option list \<Rightarrow> 'a option list \<Rightarrow> 'a option list \<times> 'a option list" where
  "move_loop n 0 i src this other = (this, other)"
| "move_loop n (Suc k) i src this other =
     move_loop n k (i + 1) (rb_advance n src) (this[i := other ! src]) (other[src := None])"

definition rb_move_from :: "nat \<Rightarrow> 'a ring_buffer \<Rightarrow> 'a ring_buffer \<Rightarrow> 'a ring_buffer \<times> 'a ring_buffer" where
  "rb_move_from n this other =
     (case move_loop n (rb_size other) 0 (rb_head other) (rb_slots this) (rb_slots other) of
        (ts, os) \<Rightarrow>
          (\<lparr>rb_slots = ts, rb_head = 0, rb_tail = rb_wrap n (rb_size other), rb_size = rb_size other\<rparr>,
           \<lparr>rb_slots = os, rb_head = 0, rb_tail = 0, rb_size = 0\<rparr>))"

definition rb_move_assign :: "nat \<Rightarrow> 'a ring_buffer \<Rightarrow> 'a ring_buffer \<Rightarrow> 'a ring_buffer \<times> 'a ring_buffer" where
  "rb_move_assign n this other = rb_move_from n (rb_clear n this) other"

text \<open>An iterator is the head it started from and an offset.\<close>

definition rb_iter_deref :: "nat \<Rightarrow> 'a ring_buffer \<Rightarrow> nat \<times> nat \<Rightarrow> 'a" where
  "rb_iter_deref n b it = the (rb_slots b ! rb_wrap n (fst it + snd it))"

definition rb_iter_next :: "nat \<times> nat \<Rightarrow> nat \<times> nat" where
  "rb_iter_next it = (fst it, snd it + 1)"

definition rb_begin :: "'a ring_buffer \<Rightarrow> nat \<times> nat" where
  "rb_begin b = (rb_head b, 0)"

definition rb_end :: "'a ring_buffer \<Rightarrow> nat \<times> nat" where
  "rb_end b = (rb_head b, rb_size b)"

text \<open>\<open>for (auto const& value : other) discard(push(value));\<close>\<close>

partial_function (option) copy_loop ::
    "nat \<Rightarrow> 'a ring_buffer \<Rightarrow> nat \<times> nat \<Rightarrow> 'a ring_buffer \<Rightarrow> 'a ring_buffer option" where
  "copy_loop n other it this =
     (if it = rb_end other then Some this
      else copy_loop n other (rb_iter_next it) (snd (rb_emplace n (rb_iter_deref n other it) this)))"

declare copy_loop.simps [code]

definition rb_copy :: "nat \<Rightarrow> 'a ring_buffer \<Rightarrow> 'a ring_buffer option" where
  "rb_copy n other = copy_loop n other (rb_begin other) (rb_default n)"

definition rb_copy_assign :: "nat \<Rightarrow> 'a ring_buffer \<Rightarrow> 'a ring_buffer \<Rightarrow> 'a ring_buffer option" where
  "rb_copy_assign n this other = copy_loop n other (rb_begin other) (rb_clear n this)"

definition rb_swap :: "nat \<Rightarrow> 'a ring_buffer \<Rightarrow> 'a ring_buffer \<Rightarrow> 'a ring_buffer \<times> 'a ring_buffer" where
  "rb_swap n a b =
     (let (temp, a1) = rb_move_from n (rb_default n) a;
          (a2, b1) = rb_move_assign n a1 b;
          (b2, temp1) = rb_move_assign n b1 temp
      in (a2, b2))"

subsection \<open>Wrapping\<close>

lemma rb_wrap_eq: "0 < n \<Longrightarrow> i < 2 * n \<Longrightarrow> rb_wrap n i = (if i < n then i else i - n)"
proof (cases "n AND (n - 1) = 0")
  case True
  assume n: "0 < n" "i < 2 * n"
  have "i AND (n - 1) = i mod n" using n(1) True by (rule and_pred_mod)
  with True n show ?thesis by (simp add: rb_wrap_def mod_if [of i n])
qed (simp add: rb_wrap_def)

lemmas wrap_simps = rb_wrap_eq rb_advance_def

subsection \<open>The live elements\<close>

text \<open>The slot of offset \<open>i\<close> from the head.\<close>

definition rb_slot :: "nat \<Rightarrow> 'a ring_buffer \<Rightarrow> nat \<Rightarrow> 'a option" where
  "rb_slot n b i = rb_slots b ! rb_wrap n (rb_head b + i)"

definition rb_wf :: "nat \<Rightarrow> 'a ring_buffer \<Rightarrow> bool" where
  "rb_wf n b \<longleftrightarrow>
     0 < n \<and> length (rb_slots b) = n \<and> rb_head b < n \<and> rb_size b \<le> n \<and>
     rb_tail b = rb_wrap n (rb_head b + rb_size b) \<and>
     (\<forall>i < n. rb_slot n b i = None \<longleftrightarrow> rb_size b \<le> i)"

definition rb_list :: "nat \<Rightarrow> 'a ring_buffer \<Rightarrow> 'a list" where
  "rb_list n b = map (\<lambda>i. the (rb_slot n b i)) [0..<rb_size b]"

lemma length_rb_list [simp]: "length (rb_list n b) = rb_size b"
  by (simp add: rb_list_def)

lemma nth_rb_list: "i < rb_size b \<Longrightarrow> rb_list n b ! i = the (rb_slot n b i)"
  by (simp add: rb_list_def)

lemma rb_wfD:
  assumes "rb_wf n b"
  shows "0 < n" and "length (rb_slots b) = n" and "rb_head b < n" and "rb_size b \<le> n"
    and "rb_tail b = rb_wrap n (rb_head b + rb_size b)"
    and "i < n \<Longrightarrow> rb_slot n b i = None \<longleftrightarrow> rb_size b \<le> i"
  using assms by (auto simp: rb_wf_def)

lemma rb_default_ok: "0 < n \<Longrightarrow> rb_wf n (rb_default n :: 'a ring_buffer) \<and> rb_list n (rb_default n :: 'a ring_buffer) = []"
  by (auto simp: rb_wf_def rb_list_def rb_default_def rb_slot_def wrap_simps)

text \<open>Storing into the slot of offset \<open>i\<close>, and moving the head on.\<close>

lemma rb_slot_store:
  assumes "rb_wf n b" and "i < n" and "j < n"
  shows "rb_slot n (b\<lparr>rb_slots := (rb_slots b)[rb_wrap n (rb_head b + i) := x], rb_tail := t, rb_size := k\<rparr>) j =
    (if j = i then x else rb_slot n b j)"
  using assms rb_wfD(1-3) [OF assms(1)] by (auto simp: rb_slot_def wrap_simps nth_list_update split: if_splits)

lemma rb_slot_advance:
  assumes "length slots = n" and "h < n" and "j < n"
  shows "rb_slot n \<lparr>rb_slots = slots, rb_head = rb_advance n h, rb_tail = t, rb_size = k\<rparr> j =
    slots ! (if Suc j = n then h else rb_wrap n (h + Suc j))"
proof -
  have "rb_wrap n (rb_advance n h + j) = (if Suc j = n then h else rb_wrap n (h + Suc j))"
    using assms(2,3) by (auto simp: wrap_simps split: if_splits)
  then show ?thesis by (simp add: rb_slot_def)
qed

lemma rb_tail_advance:
  "0 < n \<Longrightarrow> h < n \<Longrightarrow> k < n \<Longrightarrow> rb_advance n (rb_wrap n (h + k)) = rb_wrap n (h + Suc k)"
  by (auto simp: wrap_simps)

lemma rb_push_at_tail:
  fixes x :: 'a
  assumes wf: "rb_wf n b" and room: "rb_size b < n"
  defines "b' \<equiv> b\<lparr>rb_slots := (rb_slots b)[rb_tail b := Some x], rb_tail := rb_advance n (rb_tail b),
    rb_size := rb_size b + 1\<rparr>"
  shows "rb_wf n b'" and "rb_list n b' = rb_list n b @ [x]"
proof -
  note w = rb_wfD [OF wf]
  have slot: "rb_slot n b' j = (if j = rb_size b then Some x else rb_slot n b j)" if "j < n" for j
    unfolding b'_def w(5) using rb_slot_store [OF wf room that] by simp
  have "rb_tail b' = rb_wrap n (rb_head b' + rb_size b')"
    using rb_tail_advance [OF w(1,3) room] w(5) by (simp add: b'_def)
  moreover have "rb_slot n b' j = None \<longleftrightarrow> rb_size b' \<le> j" if "j < n" for j
    using slot [OF that] w(6) [OF that] by (auto simp: b'_def)
  ultimately show "rb_wf n b'" using w(1-3) room by (simp add: rb_wf_def b'_def)
  show "rb_list n b' = rb_list n b @ [x]"
  proof (rule nth_equalityI)
    show "length (rb_list n b') = length (rb_list n b @ [x])" by (simp add: b'_def)
    fix i assume "i < length (rb_list n b')"
    then have i: "i \<le> rb_size b" "i < n" "i < rb_size b'" using room by (simp_all add: b'_def)
    then show "rb_list n b' ! i = (rb_list n b @ [x]) ! i"
      using slot [OF i(2)] by (auto simp: nth_rb_list nth_append)
  qed
qed

lemma rb_emplace_ok:
  assumes "rb_wf n b"
  shows "rb_wf n (snd (rb_emplace n x b)) \<and>
    (fst (rb_emplace n x b), rb_list n (snd (rb_emplace n x b))) = list_push n x (rb_list n b)"
  using rb_push_at_tail [OF assms, of x] rb_wfD(4) [OF assms] assms
  by (auto simp: rb_emplace_def list_push_def)

lemma rb_pop_ok:
  assumes wf: "rb_wf n b"
  shows "rb_wf n (snd (rb_pop n b)) \<and>
    (fst (rb_pop n b), rb_list n (snd (rb_pop n b))) = list_pop (rb_list n b)"
proof (cases "rb_size b = 0")
  case True
  with wf show ?thesis by (simp add: rb_pop_def list_pop_def rb_list_def)
next
  case False
  note w = rb_wfD [OF wf]
  let ?b = "b\<lparr>rb_slots := (rb_slots b)[rb_head b := None], rb_head := rb_advance n (rb_head b),
    rb_size := rb_size b - 1\<rparr>"
  have head: "rb_wrap n (rb_head b + 0) = rb_head b" using w(1,3) by (simp add: wrap_simps)
  have slot: "rb_slot n ?b j = (if Suc j = n then None else rb_slot n b (Suc j))" if "j < n" for j
  proof -
    have "rb_slot n ?b j = (rb_slots b)[rb_head b := None] ! (if Suc j = n then rb_head b else rb_wrap n (rb_head b + Suc j))"
      using rb_slot_advance [of "(rb_slots b)[rb_head b := None]" n "rb_head b" j "rb_tail b" "rb_size b - 1"] w(2,3) that
      by (simp add: rb_slot_def)
    also have "\<dots> = (if Suc j = n then None else rb_slot n b (Suc j))"
      using w(1-3) that by (auto simp: rb_slot_def wrap_simps nth_list_update split: if_splits)
    finally show ?thesis .
  qed
  have "rb_advance n (rb_head b) < n" using w(1,3) by (auto simp: wrap_simps)
  moreover have "rb_tail ?b = rb_wrap n (rb_head ?b + rb_size ?b)"
    using w(1,3,4,5) False by (auto simp: wrap_simps)
  moreover have "rb_slot n ?b j = None \<longleftrightarrow> rb_size ?b \<le> j" if "j < n" for j
    using slot [OF that] w(4) w(6) [of "Suc j"] that False by (cases "Suc j = n") auto
  ultimately have "rb_wf n ?b" using w(1,2,4) by (simp add: rb_wf_def)
  moreover have "rb_list n b = the (rb_slots b ! rb_head b) # rb_list n ?b"
  proof (rule nth_equalityI)
    fix i assume "i < length (rb_list n b)"
    then show "rb_list n b ! i = (the (rb_slots b ! rb_head b) # rb_list n ?b) ! i"
      using slot [of "i - 1"] head w(4) by (cases i) (auto simp: nth_rb_list rb_slot_def [of n b 0])
  qed (use False in simp)
  ultimately show ?thesis using False by (simp add: rb_pop_def list_pop_def)
qed

text \<open>The ring buffer keeps the contract of a bounded queue.\<close>

interpretation rb: bounded_fifo "rb_wf n" "rb_list n" n "rb_emplace n" "rb_pop n" for n
  by unfold_locales (simp_all add: rb_wfD(4) rb_emplace_ok rb_pop_ok)

lemma rb_emplace_overwrite_ok:
  assumes wf: "rb_wf n b"
  shows "rb_wf n (rb_emplace_overwrite n x b)"
    and "rb_list n (rb_emplace_overwrite n x b) =
      (if rb_size b = n then tl (rb_list n b) else rb_list n b) @ [x]"
proof -
  have "rb_wf n (rb_emplace_overwrite n x b) \<and> rb_list n (rb_emplace_overwrite n x b) =
      (if rb_size b = n then tl (rb_list n b) else rb_list n b) @ [x]"
  proof (cases "rb_size b = n")
    case False
    with rb_push_at_tail [OF wf, of x] rb_wfD(4) [OF wf] show ?thesis by (simp add: rb_emplace_overwrite_def)
  next
    case True
    note w = rb_wfD [OF wf]
    let ?p = "snd (rb_pop n b)"
    have p: "rb_wf n ?p" "rb_list n ?p = tl (rb_list n b)" "rb_size ?p < n"
      using rb_pop_ok [OF wf] w(1) True by (auto simp: list_pop_def rb_pop_def split: list.splits)
    have tail: "rb_tail b = rb_head b" using w(1,3,5) True by (auto simp: wrap_simps)
    have "rb_emplace_overwrite n x b =
        ?p\<lparr>rb_slots := (rb_slots ?p)[rb_tail ?p := Some x], rb_tail := rb_advance n (rb_tail ?p), rb_size := rb_size ?p + 1\<rparr>"
      using True w(1) tail by (simp add: rb_emplace_overwrite_def rb_pop_def Let_def)
    with rb_push_at_tail [OF p(1,3), of x] p(2) True show ?thesis by simp
  qed
  then show "rb_wf n (rb_emplace_overwrite n x b)" "rb_list n (rb_emplace_overwrite n x b) =
      (if rb_size b = n then tl (rb_list n b) else rb_list n b) @ [x]" by simp_all
qed

subsection \<open>Reading\<close>

lemma rb_reads:
  assumes wf: "rb_wf n b"
  shows "rb_front b = (if rb_list n b = [] then None else Some (hd (rb_list n b)))"
    and "rb_back n b = (if rb_list n b = [] then None else Some (last (rb_list n b)))"
    and "rb_at n b i = (if i < length (rb_list n b) then Some (rb_list n b ! i) else None)"
    and "i < length (rb_list n b) \<Longrightarrow> rb_nth n b i = rb_list n b ! i"
proof -
  note w = rb_wfD [OF wf]
  have empty: "rb_list n b = [] \<longleftrightarrow> rb_size b = 0" by (simp add: rb_list_def)
  have slot: "rb_slot n b i = Some (rb_list n b ! i)" if "i < rb_size b" for i
    using that w(4) w(6) [of i] by (auto simp: nth_rb_list)
  have head: "rb_wrap n (rb_head b + 0) = rb_head b" using w(1,3) by (simp add: wrap_simps)
  show "rb_front b = (if rb_list n b = [] then None else Some (hd (rb_list n b)))"
    using slot [of 0] head by (simp add: rb_front_def empty hd_conv_nth rb_slot_def)
  have "rb_wrap n (rb_tail b + n - 1) = rb_wrap n (rb_head b + (rb_size b - 1))" if "rb_size b \<noteq> 0"
    using that w(1,3,4,5) by (auto simp: wrap_simps split: if_splits)
  then show "rb_back n b = (if rb_list n b = [] then None else Some (last (rb_list n b)))"
    using slot [of "rb_size b - 1"] by (simp add: rb_back_def empty last_conv_nth rb_slot_def)
  show "rb_at n b i = (if i < length (rb_list n b) then Some (rb_list n b ! i) else None)"
    using slot [of i] by (simp add: rb_at_def rb_slot_def)
  show "i < length (rb_list n b) \<Longrightarrow> rb_nth n b i = rb_list n b ! i"
    using slot [of i] by (simp add: rb_nth_def rb_slot_def)
qed

subsection \<open>Clearing, copying and moving whole buffers\<close>

lemma clear_loop_ok:
  "k \<le> n \<Longrightarrow> index < n \<Longrightarrow> length slots = n \<Longrightarrow>
    length (clear_loop n k index slots) = n \<and>
    (\<forall>j < n. clear_loop n k index slots ! rb_wrap n (index + j) =
      (if j < k then None else slots ! rb_wrap n (index + j)))"
proof (induction k arbitrary: index slots)
  case (Suc k)
  have adv: "rb_advance n index < n" using Suc.prems by (auto simp: wrap_simps)
  have IH: "length (clear_loop n k (rb_advance n index) (slots[index := None])) = n"
    "\<And>j. j < n \<Longrightarrow> clear_loop n k (rb_advance n index) (slots[index := None]) ! rb_wrap n (rb_advance n index + j) =
      (if j < k then None else slots[index := None] ! rb_wrap n (rb_advance n index + j))"
    using Suc.IH [OF _ adv, of "slots[index := None]"] Suc.prems by simp_all
  have "clear_loop n (Suc k) index slots ! rb_wrap n (index + j) =
      (if j < Suc k then None else slots ! rb_wrap n (index + j))" if "j < n" for j
  proof (cases j)
    case 0
    have "rb_wrap n (rb_advance n index + (n - 1)) = rb_wrap n (index + 0)" "rb_wrap n (index + 0) = index"
      using Suc.prems by (auto simp: wrap_simps)
    then show ?thesis using IH(2) [of "n - 1"] Suc.prems 0 by auto
  next
    case (Suc i)
    have "rb_wrap n (rb_advance n index + i) = rb_wrap n (index + j)" "rb_wrap n (index + j) \<noteq> index"
      using Suc.prems that Suc by (auto simp: wrap_simps)
    then show ?thesis using IH(2) [of i] that Suc by simp
  qed
  with IH(1) show ?case by simp
qed simp

lemma wrap_onto: "h < n \<Longrightarrow> p < n \<Longrightarrow> \<exists>j < n. p = rb_wrap n (h + j)"
  by (intro exI [of _ "if h \<le> p then p - h else p + n - h"]) (auto simp: wrap_simps)

lemma clear_loop_all:
  assumes wf: "rb_wf n b"
  shows "clear_loop n (rb_size b) (rb_head b) (rb_slots b) = replicate n None"
proof (rule nth_equalityI)
  note w = rb_wfD [OF wf]
  note c = clear_loop_ok [OF w(4,3,2)]
  show "length (clear_loop n (rb_size b) (rb_head b) (rb_slots b)) = length (replicate n (None :: 'a option))"
    using c by simp
  fix p assume "p < length (clear_loop n (rb_size b) (rb_head b) (rb_slots b))"
  then have p: "p < n" using c by simp
  then obtain j where "j < n" "p = rb_wrap n (rb_head b + j)" using wrap_onto [OF w(3)] by blast
  then show "clear_loop n (rb_size b) (rb_head b) (rb_slots b) ! p = replicate n None ! p"
    using c w(6) [of j] p by (auto simp: rb_slot_def)
qed

lemma rb_clear_ok: "rb_wf n b \<Longrightarrow> rb_clear n b = rb_default n"
  by (simp add: rb_clear_def rb_default_def clear_loop_all)

text \<open>The buffer that a move leaves: its elements from slot 0 on.\<close>

definition rb_norm :: "nat \<Rightarrow> 'a list \<Rightarrow> 'a ring_buffer" where
  "rb_norm n xs = \<lparr>rb_slots = map Some xs @ replicate (n - length xs) None, rb_head = 0,
     rb_tail = rb_wrap n (length xs), rb_size = length xs\<rparr>"

lemma rb_norm_ok: "0 < n \<Longrightarrow> length xs \<le> n \<Longrightarrow> rb_wf n (rb_norm n xs) \<and> rb_list n (rb_norm n xs) = xs"
  by (auto simp: rb_wf_def rb_norm_def rb_slot_def rb_list_def wrap_simps nth_append intro!: nth_equalityI)

lemma move_loop_ok:
  "i + k \<le> n \<Longrightarrow> src < n \<Longrightarrow> length this = n \<Longrightarrow> length other = n \<Longrightarrow>
    move_loop n k i src this other =
      (take i this @ map (\<lambda>j. other ! rb_wrap n (src + j)) [0..<k] @ drop (i + k) this, clear_loop n k src other)"
proof (induction k arbitrary: i src this other)
  case (Suc k)
  have adv: "rb_advance n src < n" using Suc.prems by (auto simp: wrap_simps)
  have src: "rb_wrap n (src + 0) = src" using Suc.prems by (simp add: wrap_simps)
  have shift: "other[src := None] ! rb_wrap n (rb_advance n src + j) = other ! rb_wrap n (src + Suc j)" if "j < k" for j
  proof -
    have "rb_wrap n (rb_advance n src + j) = rb_wrap n (src + Suc j)" "rb_wrap n (src + Suc j) \<noteq> src"
      using Suc.prems that by (auto simp: wrap_simps split: if_splits)
    then show ?thesis by simp
  qed
  have "move_loop n (Suc k) i src this other =
      (take (i + 1) (this[i := other ! src]) @
         map (\<lambda>j. other[src := None] ! rb_wrap n (rb_advance n src + j)) [0..<k] @
         drop (i + 1 + k) (this[i := other ! src]),
       clear_loop n k (rb_advance n src) (other[src := None]))"
    using Suc.IH [of "i + 1" "rb_advance n src"] Suc.prems adv by simp
  also have "map (\<lambda>j. other[src := None] ! rb_wrap n (rb_advance n src + j)) [0..<k] =
      map (\<lambda>j. other ! rb_wrap n (src + Suc j)) [0..<k]"
    using shift by simp
  also have "take (i + 1) (this[i := other ! src]) = take i this @ [other ! src]"
    using Suc.prems by simp
  also have "drop (i + 1 + k) (this[i := other ! src]) = drop (i + Suc k) this" by simp
  also have "(take i this @ [other ! src]) @ map (\<lambda>j. other ! rb_wrap n (src + Suc j)) [0..<k] @ drop (i + Suc k) this =
      take i this @ map (\<lambda>j. other ! rb_wrap n (src + j)) [0..<Suc k] @ drop (i + Suc k) this"
    using src by (simp add: upt_conv_Cons map_Suc_upt [symmetric] comp_def del: upt_Suc)
  finally show ?case by simp
qed simp

lemma rb_move_from_ok:
  assumes "rb_wf n other"
  shows "rb_move_from n (rb_default n) other = (rb_norm n (rb_list n other), rb_default n)"
proof -
  note w = rb_wfD [OF assms]
  have "rb_slot n other j = Some (rb_list n other ! j)" if "j < rb_size other" for j
    using that w(4) w(6) [of j] by (auto simp: nth_rb_list)
  then have "map (\<lambda>j. rb_slots other ! rb_wrap n (rb_head other + j)) [0..<rb_size other] = map Some (rb_list n other)"
    by (intro nth_equalityI) (simp_all add: rb_slot_def)
  then show ?thesis
    using move_loop_ok [of 0 "rb_size other" n "rb_head other" "replicate n None" "rb_slots other"] w(2-4)
    by (simp add: rb_move_from_def rb_norm_def clear_loop_all [OF assms])
      (simp add: rb_default_def clear_loop_all [OF assms])
qed

lemma rb_move_assign_ok:
  "rb_wf n this \<Longrightarrow> rb_wf n other \<Longrightarrow>
    rb_move_assign n this other = (rb_norm n (rb_list n other), rb_default n)"
  by (simp add: rb_move_assign_def rb_clear_ok rb_move_from_ok)

lemma rb_swap_ok:
  assumes "rb_wf n a" and "rb_wf n b"
  shows "rb_swap n a b = (rb_norm n (rb_list n b), rb_norm n (rb_list n a))"
proof -
  have d: "rb_wf n (rb_default n)" "rb_wf n (rb_norm n (rb_list n a))" "rb_list n (rb_norm n (rb_list n a)) = rb_list n a"
    using rb_default_ok rb_norm_ok [of n "rb_list n a"] rb_wfD(1,4) [OF assms(1)] by auto
  show ?thesis
    by (simp add: rb_swap_def rb_move_from_ok [OF assms(1)] rb_move_assign_ok [OF d(1) assms(2)]
        rb_move_assign_ok [OF d(1,2)] d(3))
qed

lemma copy_loop_ok:
  assumes other: "rb_wf n other"
  shows "i \<le> rb_size other \<Longrightarrow> rb_wf n this \<Longrightarrow> rb_list n this = take i (rb_list n other) \<Longrightarrow>
    \<exists>b. copy_loop n other (rb_head other, i) this = Some b \<and> rb_wf n b \<and> rb_list n b = rb_list n other"
proof (induction "rb_size other - i" arbitrary: i this)
  case 0
  then have "i = rb_size other" by simp
  with 0 show ?case by (subst copy_loop.simps) (simp add: rb_end_def)
next
  case (Suc d)
  then have i: "i < rb_size other" by simp
  note w = rb_wfD [OF other]
  have x: "rb_iter_deref n other (rb_head other, i) = rb_list n other ! i"
    using rb_reads(4) [OF other, of i] i by (simp add: rb_iter_deref_def rb_nth_def)
  define this' where "this' = snd (rb_emplace n (rb_list n other ! i) this)"
  have "rb_size this = i" using arg_cong [OF Suc.prems(3), of length] i by simp
  then have "rb_wf n this'" "rb_list n this' = take (Suc i) (rb_list n other)"
    using rb_emplace_ok [OF Suc.prems(2), of "rb_list n other ! i"] i w(4) Suc.prems(3)
    by (simp_all add: list_push_def take_Suc_conv_app_nth this'_def)
  moreover have "d = rb_size other - Suc i" using Suc.hyps(2) by simp
  ultimately obtain b where
    "copy_loop n other (rb_head other, Suc i) this' = Some b \<and> rb_wf n b \<and> rb_list n b = rb_list n other" using Suc.hyps(1) [of "Suc i" this'] i by auto
  then show ?case
    using i x by (subst copy_loop.simps) (simp add: rb_end_def rb_iter_next_def this'_def)
qed

lemma rb_copy_ok:
  fixes other :: "'a ring_buffer"
  assumes "rb_wf n other"
  shows "\<exists>b. rb_copy n other = Some b \<and> rb_wf n b \<and> rb_list n b = rb_list n other"
  using copy_loop_ok [OF assms, of 0 "rb_default n"] rb_default_ok [OF rb_wfD(1) [OF assms], where ?'a = 'a]
  by (simp add: rb_copy_def rb_begin_def)

lemma rb_copy_assign_ok:
  assumes "rb_wf n this" and "rb_wf n other"
  shows "\<exists>b. rb_copy_assign n this other = Some b \<and> rb_wf n b \<and> rb_list n b = rb_list n other"
  using rb_copy_ok [OF assms(2)] by (simp add: rb_copy_assign_def rb_copy_def rb_clear_ok [OF assms(1)])

subsection \<open>Properties\<close>

text \<open>C21: a ring buffer answers every sequence of pushes and pops as a bounded list does, and what it hands
out followed by what is left in it is what was accepted, in order.\<close>

theorem ring_buffer_is_fifo:
  fixes ops :: "'a fifo_op list"
  assumes "0 < n"
  shows "case fifo_run (rb_emplace n) (rb_pop n) ops (rb_default n) of
    (answers, b) \<Rightarrow> fifo_run (list_push n) list_pop ops [] = (answers, rb_list n b) \<and>
      popped answers @ rb_list n b = accepted ops answers"
proof -
  obtain answers b where r: "fifo_run (rb_emplace n) (rb_pop n) ops (rb_default n) = (answers, b)"
    by (cases "fifo_run (rb_emplace n) (rb_pop n) ops (rb_default n)")
  have "fifo_run (list_push n) list_pop ops [] = (answers, rb_list n b)"
    using rb.run_refines [of n "rb_default n" ops] rb_default_ok [OF assms, where ?'a = 'a] r by auto
  with list_fifo_order [OF this] r show ?thesis by simp
qed

lemma ring_buffer_is_fifo_witness:
  "case fifo_run (rb_emplace 2) (rb_pop 2) [Fifo_push 1, Fifo_push 2, Fifo_push 3, Fifo_pop] (rb_default 2) of
    (answers, b) \<Rightarrow> popped answers @ rb_list 2 b = accepted [Fifo_push (1 :: nat), Fifo_push 2, Fifo_push 3, Fifo_pop] answers"
  using ring_buffer_is_fifo [of 2 "[Fifo_push (1 :: nat), Fifo_push 2, Fifo_push 3, Fifo_pop]"]
  by (auto split: prod.split)

text \<open>A push that overwrites always takes the new element, and drops the oldest one exactly when the
buffer is full; copying, moving and swapping keep the elements in order.\<close>

lemma ring_buffer_whole:
  fixes a b :: "'a ring_buffer"
  assumes "rb_wf n a" and "rb_wf n b"
  shows "rb_list n (rb_emplace_overwrite n x a) =
      (if length (rb_list n a) = n then tl (rb_list n a) else rb_list n a) @ [x] \<and>
    map_option (rb_list n) (rb_copy n a) = Some (rb_list n a) \<and>
    map_option (rb_list n) (rb_copy_assign n a b) = Some (rb_list n b) \<and>
    map_prod (rb_list n) (rb_list n) (rb_move_assign n a b) = (rb_list n b, []) \<and>
    map_prod (rb_list n) (rb_list n) (rb_swap n a b) = (rb_list n b, rb_list n a)"
proof -
  have n: "0 < n" "rb_size a \<le> n" "rb_size b \<le> n" by (rule rb_wfD [OF assms(1)] rb_wfD [OF assms(2)])+
  have "rb_list n (rb_norm n (rb_list n a)) = rb_list n a" "rb_list n (rb_norm n (rb_list n b)) = rb_list n b"
    using rb_norm_ok [OF n(1), of "rb_list n a"] rb_norm_ok [OF n(1), of "rb_list n b"] n by simp_all
  then show ?thesis
    using rb_emplace_overwrite_ok(2) [OF assms(1)] rb_copy_ok [OF assms(1)] rb_copy_assign_ok [OF assms]
      rb_default_ok [OF n(1), where ?'a = 'a]
    by (auto simp: rb_move_assign_ok [OF assms] rb_swap_ok [OF assms])
qed

end
