(* ===== verification/Spsc_Queue.thy ===== *)
theory Spsc_Queue
  imports Ring_Buffer
begin

text \<open>
  The single-producer single-consumer queue: \<open>container/spsc_queue.hpp\<close>. First the two
  operations as one thread sees them; then the two threads interleaved, one step for every
  atomic access and for every access to the storage. Each atomic is written by one thread
  only and published with release and read with acquire order, so that the interleavings
  of these steps are the behaviours of the code. \<open>n\<close> is the template's \<open>N\<close>, at least 2.
\<close>

subsection \<open>The code\<close>

record 'a spsc =
  sq_slots :: "'a option list"
  sq_head :: nat
  sq_tail :: nat

definition sq_default :: "nat \<Rightarrow> 'a spsc" where
  "sq_default n = \<lparr>sq_slots = replicate n None, sq_head = 0, sq_tail = 0\<rparr>"

definition sq_capacity :: "nat \<Rightarrow> nat" where
  "sq_capacity n = n - 1"

text \<open>\<open>std::has_single_bit(N)\<close> is \<open>N\<close> and \<open>N - 1\<close> having no bit in common.\<close>

definition sq_next :: "nat \<Rightarrow> nat \<Rightarrow> nat" where
  "sq_next n i = (if n AND (n - 1) = 0 then (i + 1) AND (n - 1) else (i + 1) mod n)"

definition sq_size_approx :: "nat \<Rightarrow> 'a spsc \<Rightarrow> nat" where
  "sq_size_approx n q = (sq_tail q + n - sq_head q) mod n"

definition sq_empty_approx :: "'a spsc \<Rightarrow> bool" where
  "sq_empty_approx q = (sq_head q = sq_tail q)"

definition sq_full_approx :: "nat \<Rightarrow> 'a spsc \<Rightarrow> bool" where
  "sq_full_approx n q = (sq_next n (sq_tail q) = sq_head q)"

definition sq_emplace :: "nat \<Rightarrow> 'a \<Rightarrow> 'a spsc \<Rightarrow> (container_error + unit) \<times> 'a spsc" where
  "sq_emplace n x q =
     (let t = sq_tail q; next_t = sq_next n t
      in if next_t = sq_head q then (Inl Full, q)
         else (Inr (), q\<lparr>sq_slots := (sq_slots q)[t := Some x], sq_tail := next_t\<rparr>))"

definition sq_pop :: "nat \<Rightarrow> 'a spsc \<Rightarrow> (container_error + 'a) \<times> 'a spsc" where
  "sq_pop n q =
     (let h = sq_head q
      in if h = sq_tail q then (Inl Empty, q)
         else (Inr (the (sq_slots q ! h)), q\<lparr>sq_slots := (sq_slots q)[h := None], sq_head := sq_next n h\<rparr>))"

definition sq_try_pop :: "nat \<Rightarrow> 'a spsc \<Rightarrow> 'a option \<times> 'a spsc" where
  "sq_try_pop n q =
     (let h = sq_head q
      in if h = sq_tail q then (None, q)
         else (Some (the (sq_slots q ! h)), q\<lparr>sq_slots := (sq_slots q)[h := None], sq_head := sq_next n h\<rparr>))"

text \<open>Where the producer is in \<open>emplace\<close> and the consumer in \<open>pop\<close>, with their local variables.\<close>

datatype 'a producer =
    Prod_idle
  | Prod_tail 'a nat
  | Prod_room 'a nat nat
  | Prod_built 'a nat nat

datatype 'a consumer =
    Cons_idle
  | Cons_head nat
  | Cons_some nat
  | Cons_moved nat 'a
  | Cons_destroyed nat 'a

text \<open>The last two fields record what has been handed over so far.\<close>

record 'a spsc_state =
  st_queue :: "'a spsc"
  st_prod :: "'a producer"
  st_cons :: "'a consumer"
  st_pushed :: "'a list"
  st_popped :: "'a list"

definition st_init :: "nat \<Rightarrow> 'a spsc_state" where
  "st_init n = \<lparr>st_queue = sq_default n, st_prod = Prod_idle, st_cons = Cons_idle, st_pushed = [], st_popped = []\<rparr>"

inductive producer_step :: "nat \<Rightarrow> 'a spsc_state \<Rightarrow> 'a spsc_state \<Rightarrow> bool" for n where
  load_tail: "st_prod s = Prod_idle \<Longrightarrow>
    producer_step n s (s\<lparr>st_prod := Prod_tail x (sq_tail (st_queue s))\<rparr>)"
| found_full: "st_prod s = Prod_tail x t \<Longrightarrow> sq_next n t = sq_head (st_queue s) \<Longrightarrow>
    producer_step n s (s\<lparr>st_prod := Prod_idle\<rparr>)"
| found_room: "st_prod s = Prod_tail x t \<Longrightarrow> sq_next n t \<noteq> sq_head (st_queue s) \<Longrightarrow>
    producer_step n s (s\<lparr>st_prod := Prod_room x t (sq_next n t)\<rparr>)"
| construct: "st_prod s = Prod_room x t next_t \<Longrightarrow>
    producer_step n s (s\<lparr>st_prod := Prod_built x t next_t,
      st_queue := (st_queue s)\<lparr>sq_slots := (sq_slots (st_queue s))[t := Some x]\<rparr>\<rparr>)"
| store_tail: "st_prod s = Prod_built x t next_t \<Longrightarrow>
    producer_step n s (s\<lparr>st_prod := Prod_idle, st_pushed := st_pushed s @ [x],
      st_queue := (st_queue s)\<lparr>sq_tail := next_t\<rparr>\<rparr>)"

inductive consumer_step :: "nat \<Rightarrow> 'a spsc_state \<Rightarrow> 'a spsc_state \<Rightarrow> bool" for n where
  load_head: "st_cons s = Cons_idle \<Longrightarrow>
    consumer_step n s (s\<lparr>st_cons := Cons_head (sq_head (st_queue s))\<rparr>)"
| found_empty: "st_cons s = Cons_head h \<Longrightarrow> h = sq_tail (st_queue s) \<Longrightarrow>
    consumer_step n s (s\<lparr>st_cons := Cons_idle\<rparr>)"
| found_some: "st_cons s = Cons_head h \<Longrightarrow> h \<noteq> sq_tail (st_queue s) \<Longrightarrow>
    consumer_step n s (s\<lparr>st_cons := Cons_some h\<rparr>)"
| move_out: "st_cons s = Cons_some h \<Longrightarrow> sq_slots (st_queue s) ! h = Some v \<Longrightarrow>
    consumer_step n s (s\<lparr>st_cons := Cons_moved h v\<rparr>)"
| destroy: "st_cons s = Cons_moved h v \<Longrightarrow>
    consumer_step n s (s\<lparr>st_cons := Cons_destroyed h v,
      st_queue := (st_queue s)\<lparr>sq_slots := (sq_slots (st_queue s))[h := None]\<rparr>\<rparr>)"
| store_head: "st_cons s = Cons_destroyed h v \<Longrightarrow>
    consumer_step n s (s\<lparr>st_cons := Cons_idle, st_popped := st_popped s @ [v],
      st_queue := (st_queue s)\<lparr>sq_head := sq_next n h\<rparr>\<rparr>)"

definition spsc_step :: "nat \<Rightarrow> 'a spsc_state \<Rightarrow> 'a spsc_state \<Rightarrow> bool" where
  "spsc_step n s s' \<longleftrightarrow> producer_step n s s' \<or> consumer_step n s s'"

inductive_cases producer_stepE: "producer_step n s s'"
inductive_cases consumer_stepE: "consumer_step n s s'"

subsection \<open>The invariant\<close>

lemma sq_next_wrap: "2 \<le> n \<Longrightarrow> i < n \<Longrightarrow> sq_next n i = rb_wrap n (i + 1)"
  by (simp add: sq_next_def rb_wrap_def mod_if)

text \<open>What the slot of offset \<open>i\<close> from the head holds, when the elements are \<open>xs\<close>: the consumer may
  have emptied the first, and the producer may have filled the one behind the last.\<close>

definition slot_holds :: "'a producer \<Rightarrow> 'a consumer \<Rightarrow> 'a list \<Rightarrow> nat \<Rightarrow> 'a option" where
  "slot_holds p c xs i =
     (if i < length xs then
        (case c of Cons_destroyed h v \<Rightarrow> if i = 0 then None else Some (xs ! i) | _ \<Rightarrow> Some (xs ! i))
      else (case p of Prod_built x t u \<Rightarrow> if i = length xs then Some x else None | _ \<Rightarrow> None))"

definition prod_ok :: "nat \<Rightarrow> 'a spsc \<Rightarrow> 'a list \<Rightarrow> 'a producer \<Rightarrow> bool" where
  "prod_ok n q xs p \<longleftrightarrow>
     (case p of
        Prod_idle \<Rightarrow> True
      | Prod_tail x t \<Rightarrow> t = sq_tail q
      | Prod_room x t u \<Rightarrow> t = sq_tail q \<and> u = sq_next n t \<and> Suc (length xs) < n
      | Prod_built x t u \<Rightarrow> t = sq_tail q \<and> u = sq_next n t \<and> Suc (length xs) < n)"

definition cons_ok :: "'a spsc \<Rightarrow> 'a list \<Rightarrow> 'a consumer \<Rightarrow> bool" where
  "cons_ok q xs c \<longleftrightarrow>
     (case c of
        Cons_idle \<Rightarrow> True
      | Cons_head h \<Rightarrow> h = sq_head q
      | Cons_some h \<Rightarrow> h = sq_head q \<and> xs \<noteq> []
      | Cons_moved h v \<Rightarrow> h = sq_head q \<and> xs \<noteq> [] \<and> v = hd xs
      | Cons_destroyed h v \<Rightarrow> h = sq_head q \<and> xs \<noteq> [] \<and> v = hd xs)"

definition spsc_holds :: "nat \<Rightarrow> 'a spsc \<Rightarrow> 'a producer \<Rightarrow> 'a consumer \<Rightarrow> 'a list \<Rightarrow> bool" where
  "spsc_holds n q p c xs \<longleftrightarrow>
     2 \<le> n \<and> length (sq_slots q) = n \<and> sq_head q < n \<and> length xs < n \<and>
     sq_tail q = rb_wrap n (sq_head q + length xs) \<and>
     (\<forall>i < n. sq_slots q ! rb_wrap n (sq_head q + i) = slot_holds p c xs i) \<and>
     prod_ok n q xs p \<and> cons_ok q xs c"

lemma spsc_holdsD:
  assumes "spsc_holds n q p c xs"
  shows "2 \<le> n" and "length (sq_slots q) = n" and "sq_head q < n" and "length xs < n"
    and "sq_tail q = rb_wrap n (sq_head q + length xs)"
    and "i < n \<Longrightarrow> sq_slots q ! rb_wrap n (sq_head q + i) = slot_holds p c xs i"
    and "prod_ok n q xs p" and "cons_ok q xs c"
  using assms by (auto simp: spsc_holds_def)

lemma pc_ok_update [simp]:
  "cons_ok (q\<lparr>sq_slots := slots\<rparr>) xs c = cons_ok q xs c"
  "cons_ok (q\<lparr>sq_tail := t\<rparr>) xs c = cons_ok q xs c"
  "prod_ok n (q\<lparr>sq_slots := slots\<rparr>) xs p = prod_ok n q xs p"
  "prod_ok n (q\<lparr>sq_head := k\<rparr>) xs p = prod_ok n q xs p"
  by (simp_all add: cons_ok_def prod_ok_def split: consumer.split producer.split)

lemma wrap_eq_iff: "h < n \<Longrightarrow> i < n \<Longrightarrow> j < n \<Longrightarrow> rb_wrap n (h + i) = rb_wrap n (h + j) \<longleftrightarrow> i = j"
  by (auto simp: rb_wrap_eq split: if_splits)

lemma wrap_less: "h < n \<Longrightarrow> i < n \<Longrightarrow> rb_wrap n (h + i) < n"
  by (auto simp: rb_wrap_eq)

text \<open>The tests of the two threads, read on the elements.\<close>

lemma spsc_tests:
  assumes "spsc_holds n q p c xs"
  shows "sq_head q = sq_tail q \<longleftrightarrow> xs = []"
    and "sq_next n (sq_tail q) = sq_head q \<longleftrightarrow> Suc (length xs) = n"
    and "sq_next n (sq_tail q) = rb_wrap n (rb_wrap n (sq_head q + length xs) + 1)"
    and "sq_tail q < n"
proof -
  note h = spsc_holdsD [OF assms]
  show t: "sq_tail q < n" using h(3,4,5) wrap_less by simp
  show "sq_head q = sq_tail q \<longleftrightarrow> xs = []" using h(1,3,4,5) by (auto simp: rb_wrap_eq split: if_splits)
  show "sq_next n (sq_tail q) = rb_wrap n (rb_wrap n (sq_head q + length xs) + 1)"
    using sq_next_wrap [OF h(1) t] h(5) by simp
  show "sq_next n (sq_tail q) = sq_head q \<longleftrightarrow> Suc (length xs) = n"
    unfolding sq_next_wrap [OF h(1) t] using h(1,3,4,5) by (auto simp: rb_wrap_eq split: if_splits)
qed

text \<open>The steps that touch shared state.\<close>

lemma holds_construct:
  assumes "spsc_holds n q (Prod_room x t u) c xs"
  shows "spsc_holds n (q\<lparr>sq_slots := (sq_slots q)[t := Some x]\<rparr>) (Prod_built x t u) c xs"
proof -
  note h = spsc_holdsD [OF assms]
  have t: "t = rb_wrap n (sq_head q + length xs)" "Suc (length xs) < n" "u = sq_next n t"
    using h(5,7) by (simp_all add: prod_ok_def)
  have "(sq_slots q)[t := Some x] ! rb_wrap n (sq_head q + i) = slot_holds (Prod_built x t u) c xs i" if "i < n" for i
    using h(2) h(6) [OF that] wrap_eq_iff [OF h(3) that h(4)] wrap_less [OF h(3) h(4)] t(1)
    by (auto simp: slot_holds_def nth_list_update)
  moreover have "prod_ok n q xs (Prod_built x t u)" using h(7) by (simp add: prod_ok_def)
  ultimately show ?thesis using assms by (simp add: spsc_holds_def)
qed

lemma holds_store_tail:
  assumes "spsc_holds n q (Prod_built x t u) c xs"
  shows "spsc_holds n (q\<lparr>sq_tail := u\<rparr>) Prod_idle c (xs @ [x])"
proof -
  note h = spsc_holdsD [OF assms]
  have u: "u = sq_next n (sq_tail q)" "Suc (length xs) < n" using h(7) by (simp_all add: prod_ok_def)
  have "u = rb_wrap n (sq_head q + length (xs @ [x]))"
    unfolding u(1) spsc_tests(3) [OF assms] using h(3) u(2) by (auto simp: rb_wrap_eq)
  moreover have "slot_holds (Prod_built x t u) c xs i = slot_holds Prod_idle c (xs @ [x]) i" for i
    using h(8) by (auto simp: slot_holds_def cons_ok_def nth_append split: consumer.splits)
  moreover have "cons_ok q (xs @ [x]) c"
    using h(8) by (auto simp: cons_ok_def split: consumer.splits)
  ultimately show ?thesis using assms u(2) by (simp add: spsc_holds_def prod_ok_def)
qed

lemma holds_destroy:
  assumes "spsc_holds n q p (Cons_moved k v) xs"
  shows "spsc_holds n (q\<lparr>sq_slots := (sq_slots q)[k := None]\<rparr>) p (Cons_destroyed k v) xs"
proof -
  note h = spsc_holdsD [OF assms]
  have k: "k = rb_wrap n (sq_head q + 0)" "xs \<noteq> []" "v = hd xs"
    using h(1,3,8) by (simp_all add: cons_ok_def rb_wrap_eq)
  have "(sq_slots q)[k := None] ! rb_wrap n (sq_head q + i) = slot_holds p (Cons_destroyed k v) xs i" if "i < n" for i
  proof (cases "i = 0")
    case True
    then show ?thesis using h(1,2) wrap_less [OF h(3), of 0] k by (simp add: slot_holds_def)
  next
    case False
    then have "rb_wrap n (sq_head q + i) \<noteq> k" using wrap_eq_iff [OF h(3) that, of 0] h(1) k(1) by simp
    then show ?thesis using h(6) [OF that] False by (simp add: slot_holds_def)
  qed
  moreover have "cons_ok q xs (Cons_destroyed k v)" using h(8) by (simp add: cons_ok_def)
  ultimately show ?thesis using assms by (simp add: spsc_holds_def)
qed

lemma holds_store_head:
  assumes "spsc_holds n q p (Cons_destroyed k v) xs"
  shows "spsc_holds n (q\<lparr>sq_head := sq_next n k\<rparr>) p Cons_idle (tl xs)" and "xs = v # tl xs"
proof -
  note h = spsc_holdsD [OF assms]
  have k: "k = sq_head q" "xs \<noteq> []" "v = hd xs" using h(8) by (simp_all add: cons_ok_def)
  then show "xs = v # tl xs" by simp
  have nxt: "sq_next n k = rb_wrap n (sq_head q + 1)" using sq_next_wrap [OF h(1,3)] k(1) by simp
  have pos: "rb_wrap n (sq_next n k + i) = (if Suc i = n then rb_wrap n (sq_head q + 0) else rb_wrap n (sq_head q + Suc i))"
    if "i < n" for i
    unfolding nxt using h(1,3) that by (auto simp: rb_wrap_eq split: if_splits)
  have len: "length (tl xs) = length xs - 1" "0 < length xs" using k(2) by simp_all
  have "sq_slots q ! rb_wrap n (sq_next n k + i) = slot_holds p Cons_idle (tl xs) i" if "i < n" for i
  proof (cases "Suc i = n")
    case True
    have "slot_holds p (Cons_destroyed k v) xs 0 = None" using k(2) by (simp add: slot_holds_def)
    moreover have "slot_holds p Cons_idle (tl xs) i = None"
      using True h(4) len by (auto simp: slot_holds_def split: producer.splits)
    ultimately show ?thesis using pos [OF that] True h(6) [of 0] by simp
  next
    case False
    have "slot_holds p (Cons_destroyed k v) xs (Suc i) = slot_holds p Cons_idle (tl xs) i"
      using k(2) by (cases xs) (auto simp: slot_holds_def split: producer.splits)
    then show ?thesis using pos [OF that] False h(6) [of "Suc i"] that by simp
  qed
  moreover have "sq_next n k < n" using nxt wrap_less [of "sq_head q" n 1] h(1,3) by simp
  moreover have "sq_tail q = rb_wrap n (sq_next n k + length (tl xs))"
  proof -
    have "Suc (length (tl xs)) = length xs" using len by simp
    then show ?thesis using pos [of "length (tl xs)"] h(4,5) by (simp del: length_tl)
  qed
  moreover have "prod_ok n q (tl xs) p"
    using h(7) len by (auto simp: prod_ok_def split: producer.splits)
  moreover have "length (tl xs) < n" using len h(4) by simp
  ultimately show "spsc_holds n (q\<lparr>sq_head := sq_next n k\<rparr>) p Cons_idle (tl xs)"
    using h(1,2) by (simp add: spsc_holds_def cons_ok_def del: length_tl)
qed

text \<open>A step that only moves a program counter.\<close>

lemma holds_pc:
  assumes "spsc_holds n q p c xs" and "prod_ok n q xs p'" and "cons_ok q xs c'"
    and "\<And>i. slot_holds p' c' xs i = slot_holds p c xs i"
  shows "spsc_holds n q p' c' xs"
  using assms by (simp add: spsc_holds_def)

definition st_inv :: "nat \<Rightarrow> 'a spsc_state \<Rightarrow> bool" where
  "st_inv n s \<longleftrightarrow>
     (\<exists>xs. st_pushed s = st_popped s @ xs \<and> spsc_holds n (st_queue s) (st_prod s) (st_cons s) xs)"

lemma st_inv_init: "2 \<le> n \<Longrightarrow> st_inv n (st_init n)"
  by (auto simp: st_inv_def st_init_def spsc_holds_def sq_default_def slot_holds_def prod_ok_def cons_ok_def rb_wrap_eq)

lemma producer_step_inv:
  assumes "producer_step n s s'" and "st_inv n s"
  shows "st_inv n s'"
proof -
  obtain xs where pushed: "st_pushed s = st_popped s @ xs"
    and holds: "spsc_holds n (st_queue s) (st_prod s) (st_cons s) xs"
    using assms(2) by (auto simp: st_inv_def)
  note h = spsc_holdsD [OF holds]
  from assms(1) show ?thesis
  proof cases
    case (load_tail x)
    have "spsc_holds n (st_queue s) (Prod_tail x (sq_tail (st_queue s))) (st_cons s) xs"
      using load_tail(2) h(8) by (intro holds_pc [OF holds]) (simp_all add: prod_ok_def slot_holds_def)
    with pushed show ?thesis unfolding load_tail(1) by (auto simp: st_inv_def)
  next
    case (found_full x t)
    have "spsc_holds n (st_queue s) Prod_idle (st_cons s) xs"
      using found_full(2) h(8) by (intro holds_pc [OF holds]) (simp_all add: prod_ok_def slot_holds_def)
    with pushed show ?thesis unfolding found_full(1) by (auto simp: st_inv_def)
  next
    case (found_room x t)
    have t: "t = sq_tail (st_queue s)" using h(7) found_room(2) by (simp add: prod_ok_def)
    then have "Suc (length xs) < n" using spsc_tests(2) [OF holds] h(4) found_room(3) by auto
    then have "spsc_holds n (st_queue s) (Prod_room x t (sq_next n t)) (st_cons s) xs"
      using found_room(2) h(8) t by (intro holds_pc [OF holds]) (simp_all add: prod_ok_def slot_holds_def)
    with pushed show ?thesis unfolding found_room(1) by (auto simp: st_inv_def)
  next
    case (construct x t u)
    then show ?thesis using holds_construct holds pushed by (fastforce simp: st_inv_def)
  next
    case (store_tail x t u)
    then show ?thesis using holds_store_tail holds pushed by (fastforce simp: st_inv_def)
  qed
qed

lemma consumer_step_inv:
  assumes "consumer_step n s s'" and "st_inv n s"
  shows "st_inv n s'"
proof -
  obtain xs where pushed: "st_pushed s = st_popped s @ xs"
    and holds: "spsc_holds n (st_queue s) (st_prod s) (st_cons s) xs"
    using assms(2) by (auto simp: st_inv_def)
  note h = spsc_holdsD [OF holds]
  from assms(1) show ?thesis
  proof cases
    case load_head
    have "spsc_holds n (st_queue s) (st_prod s) (Cons_head (sq_head (st_queue s))) xs"
      using load_head(2) h(7) by (intro holds_pc [OF holds]) (simp_all add: cons_ok_def slot_holds_def)
    with pushed show ?thesis unfolding load_head(1) by (auto simp: st_inv_def)
  next
    case (found_empty k)
    have "spsc_holds n (st_queue s) (st_prod s) Cons_idle xs"
      using found_empty(2) h(7) by (intro holds_pc [OF holds]) (simp_all add: cons_ok_def slot_holds_def)
    with pushed show ?thesis unfolding found_empty(1) by (auto simp: st_inv_def)
  next
    case (found_some k)
    have k: "k = sq_head (st_queue s)" using h(8) found_some(2) by (simp add: cons_ok_def)
    then have "xs \<noteq> []" using spsc_tests(1) [OF holds] found_some(3) by simp
    then have "spsc_holds n (st_queue s) (st_prod s) (Cons_some k) xs"
      using found_some(2) h(7) k by (intro holds_pc [OF holds]) (simp_all add: cons_ok_def slot_holds_def)
    with pushed show ?thesis unfolding found_some(1) by (auto simp: st_inv_def)
  next
    case (move_out k v)
    have k: "k = rb_wrap n (sq_head (st_queue s) + 0)" "xs \<noteq> []"
      using h(1,3,8) move_out(2) by (simp_all add: cons_ok_def rb_wrap_eq)
    then have "v = hd xs"
      using h(6) [of 0] h(1) move_out(2,3) by (simp add: slot_holds_def hd_conv_nth)
    then have "spsc_holds n (st_queue s) (st_prod s) (Cons_moved k v) xs"
      using move_out(2) h(7,8) k(2) by (intro holds_pc [OF holds]) (simp_all add: cons_ok_def slot_holds_def)
    with pushed show ?thesis unfolding move_out(1) by (auto simp: st_inv_def)
  next
    case (destroy k v)
    then show ?thesis using holds_destroy holds pushed by (fastforce simp: st_inv_def)
  next
    case (store_head k v)
    note r = holds_store_head [OF holds [unfolded store_head(2)]]
    have "st_pushed s = (st_popped s @ [v]) @ tl xs" using pushed r(2) by simp
    with r(1) show ?thesis unfolding store_head(1) by (auto simp: st_inv_def)
  qed
qed

definition spsc_reachable :: "nat \<Rightarrow> 'a spsc_state \<Rightarrow> bool" where
  "spsc_reachable n s \<longleftrightarrow> (spsc_step n)\<^sup>*\<^sup>* (st_init n) s"

lemma spsc_reachable_inv:
  assumes "2 \<le> n" and "spsc_reachable n s"
  shows "st_inv n s"
  using assms(2) unfolding spsc_reachable_def
  by (induction rule: rtranclp_induct)
    (use st_inv_init [OF assms(1)] producer_step_inv consumer_step_inv in \<open>auto simp: spsc_step_def\<close>)

subsection \<open>One thread alone\<close>

definition sq_ok :: "nat \<Rightarrow> 'a spsc \<Rightarrow> bool" where
  "sq_ok n q \<longleftrightarrow> (\<exists>xs. spsc_holds n q Prod_idle Cons_idle xs)"

definition sq_list :: "nat \<Rightarrow> 'a spsc \<Rightarrow> 'a list" where
  "sq_list n q = map (\<lambda>i. the (sq_slots q ! rb_wrap n (sq_head q + i))) [0..<sq_size_approx n q]"

lemma sq_size_ok:
  assumes "spsc_holds n q p c xs"
  shows "sq_size_approx n q = length xs"
proof -
  note h = spsc_holdsD [OF assms]
  have "sq_tail q + n - sq_head q = (if sq_head q + length xs < n then length xs + n else length xs)"
    using h(1,3,4,5) by (simp add: rb_wrap_eq)
  with h(4) show ?thesis by (simp add: sq_size_approx_def)
qed

lemma sq_list_ok:
  assumes "spsc_holds n q Prod_idle Cons_idle xs"
  shows "sq_list n q = xs"
  using spsc_holdsD(4,6) [OF assms]
  by (intro nth_equalityI) (simp_all add: sq_list_def sq_size_ok [OF assms] slot_holds_def)

lemma sq_emplace_ok:
  assumes "sq_ok n q"
  shows "sq_ok n (snd (sq_emplace n x q)) \<and>
    (fst (sq_emplace n x q), sq_list n (snd (sq_emplace n x q))) = list_push (n - 1) x (sq_list n q)"
proof -
  obtain xs where holds: "spsc_holds n q Prod_idle Cons_idle xs" using assms by (auto simp: sq_ok_def)
  note h = spsc_holdsD [OF holds]
  show ?thesis
  proof (cases "Suc (length xs) = n")
    case True
    with assms show ?thesis
      using spsc_tests(2) [OF holds] by (simp add: sq_emplace_def list_push_def sq_list_ok [OF holds] Let_def)
  next
    case False
    let ?t = "sq_tail q"
    have "spsc_holds n q (Prod_room x ?t (sq_next n ?t)) Cons_idle xs"
      using False h(4) by (intro holds_pc [OF holds]) (simp_all add: prod_ok_def cons_ok_def slot_holds_def)
    from holds_store_tail [OF holds_construct [OF this]]
    have "spsc_holds n (snd (sq_emplace n x q)) Prod_idle Cons_idle (xs @ [x])"
      using False spsc_tests(2) [OF holds] by (simp add: sq_emplace_def Let_def)
    with False h(1,4) spsc_tests(2) [OF holds] show ?thesis
      by (auto simp: sq_ok_def sq_list_ok [OF holds] sq_list_ok list_push_def)
        (simp_all add: sq_emplace_def Let_def)
  qed
qed

lemma sq_pop_ok:
  assumes "sq_ok n q"
  shows "sq_ok n (snd (sq_pop n q)) \<and>
    (fst (sq_pop n q), sq_list n (snd (sq_pop n q))) = list_pop (sq_list n q)"
proof -
  obtain xs where holds: "spsc_holds n q Prod_idle Cons_idle xs" using assms by (auto simp: sq_ok_def)
  note h = spsc_holdsD [OF holds]
  show ?thesis
  proof (cases "xs = []")
    case True
    with assms show ?thesis
      using spsc_tests(1) [OF holds] by (simp add: sq_pop_def list_pop_def sq_list_ok [OF holds] Let_def)
  next
    case False
    let ?k = "sq_head q"
    have v: "sq_slots q ! ?k = Some (hd xs)"
      using h(6) [of 0] h(1,3) False by (simp add: slot_holds_def rb_wrap_eq hd_conv_nth)
    have "spsc_holds n q Prod_idle (Cons_moved ?k (hd xs)) xs"
      using False by (intro holds_pc [OF holds]) (simp_all add: prod_ok_def cons_ok_def slot_holds_def)
    from holds_store_head(1) [OF holds_destroy [OF this]]
    have "spsc_holds n (snd (sq_pop n q)) Prod_idle Cons_idle (tl xs)"
      using False spsc_tests(1) [OF holds] by (simp add: sq_pop_def Let_def)
    with False v spsc_tests(1) [OF holds] show ?thesis
      by (cases xs) (auto simp: sq_ok_def sq_list_ok [OF holds] sq_list_ok list_pop_def, simp_all add: sq_pop_def Let_def)
  qed
qed

text \<open>With no interference the queue keeps the contract of a bounded queue, of one element less than
  its storage holds.\<close>

interpretation sq: bounded_fifo "sq_ok n" "sq_list n" "sq_capacity n" "sq_emplace n" "sq_pop n" for n
proof unfold_locales
  fix q :: "'a spsc" assume "sq_ok n q"
  then obtain xs where xs: "spsc_holds n q Prod_idle Cons_idle xs" by (auto simp: sq_ok_def)
  show "length (sq_list n q) \<le> sq_capacity n"
    using spsc_holdsD(4) [OF xs] by (simp add: sq_list_ok [OF xs] sq_capacity_def)
qed (simp_all add: sq_emplace_ok sq_pop_ok sq_capacity_def)

lemma sq_try_pop_pop:
  "sq_try_pop n q = (case sq_pop n q of (Inl e, q') \<Rightarrow> (None, q') | (Inr x, q') \<Rightarrow> (Some x, q'))"
  by (simp add: sq_try_pop_def sq_pop_def Let_def)

lemma sq_default_ok: "2 \<le> n \<Longrightarrow> sq_ok n (sq_default n :: 'a spsc) \<and> sq_list n (sq_default n :: 'a spsc) = []"
proof -
  assume "2 \<le> n"
  then have "spsc_holds n (sq_default n :: 'a spsc) Prod_idle Cons_idle []"
    by (simp add: spsc_holds_def sq_default_def slot_holds_def prod_ok_def cons_ok_def rb_wrap_eq)
  then show ?thesis using sq_list_ok by (auto simp: sq_ok_def)
qed

lemma sq_approx_ok:
  assumes "sq_ok n q"
  shows "sq_size_approx n q = length (sq_list n q)" and "sq_empty_approx q \<longleftrightarrow> sq_list n q = []"
    and "sq_full_approx n q \<longleftrightarrow> length (sq_list n q) = sq_capacity n"
proof -
  obtain xs where holds: "spsc_holds n q Prod_idle Cons_idle xs" using assms by (auto simp: sq_ok_def)
  note t = spsc_tests(1,2) [OF holds] sq_list_ok [OF holds] spsc_holdsD(4) [OF holds]
  show "sq_size_approx n q = length (sq_list n q)" by (simp add: sq_list_def)
  show "sq_empty_approx q \<longleftrightarrow> sq_list n q = []" using t by (simp add: sq_empty_approx_def)
  show "sq_full_approx n q \<longleftrightarrow> length (sq_list n q) = sq_capacity n"
    using t by (auto simp: sq_full_approx_def sq_capacity_def)
qed

subsection \<open>Properties\<close>

text \<open>C22: however the producer's and the consumer's steps interleave, what has been popped is a prefix of
what has been pushed, in order, and at most \<open>N - 1\<close> elements are under way; the slot the producer
constructs in is vacant, the slot the consumer reads holds an element, and the two are never the
same slot.\<close>

theorem spsc_interleavings_safe:
  assumes "2 \<le> n" and "spsc_reachable n s"
  shows "(\<exists>xs. st_pushed s = st_popped s @ xs \<and> length xs \<le> sq_capacity n) \<and>
    (\<forall>x t u. st_prod s = Prod_room x t u \<longrightarrow> t < n \<and> sq_slots (st_queue s) ! t = None) \<and>
    (\<forall>h. st_cons s = Cons_some h \<longrightarrow> h < n \<and> sq_slots (st_queue s) ! h \<noteq> None) \<and>
    (\<forall>x t u h. st_prod s = Prod_room x t u \<longrightarrow>
       (st_cons s = Cons_some h \<or> (\<exists>v. st_cons s = Cons_moved h v)) \<longrightarrow> t \<noteq> h)"
proof -
  obtain xs where pushed: "st_pushed s = st_popped s @ xs"
    and holds: "spsc_holds n (st_queue s) (st_prod s) (st_cons s) xs"
    using spsc_reachable_inv [OF assms] by (auto simp: st_inv_def)
  note h = spsc_holdsD [OF holds]
  have room: "t < n \<and> t = rb_wrap n (sq_head (st_queue s) + length xs) \<and> sq_slots (st_queue s) ! t = None"
    if "st_prod s = Prod_room x t u" for x t u
    using that h(5,7) h(6) [OF h(4)] spsc_tests(4) [OF holds] by (simp add: prod_ok_def slot_holds_def)
  have head: "k = rb_wrap n (sq_head (st_queue s) + 0) \<and> k < n \<and> xs \<noteq> []"
    if "st_cons s = Cons_some k \<or> (\<exists>v. st_cons s = Cons_moved k v)" for k
    using that h(1,3,8) by (auto simp: cons_ok_def rb_wrap_eq)
  have full: "sq_slots (st_queue s) ! k \<noteq> None" if "st_cons s = Cons_some k" for k
    using that head [of k] h(6) [of 0] h(1) by (simp add: slot_holds_def)
  have "t \<noteq> k" if "st_prod s = Prod_room x t u" "st_cons s = Cons_some k \<or> (\<exists>v. st_cons s = Cons_moved k v)" for x t u k
    using room [OF that(1)] head [OF that(2)] wrap_eq_iff [OF h(3,4), of 0] h(1) by simp
  moreover have "length xs \<le> sq_capacity n" using h(4) by (simp add: sq_capacity_def)
  ultimately show ?thesis using pushed room head full by blast
qed

lemma spsc_interleavings_safe_witness:
  "\<exists>s :: nat spsc_state. spsc_reachable 2 s \<and> st_prod s = Prod_tail 7 0 \<and> st_pushed s = st_popped s @ []"
proof -
  let ?s = "(st_init 2)\<lparr>st_prod := Prod_tail 7 0\<rparr> :: nat spsc_state"
  have "producer_step 2 (st_init 2) ?s"
    using load_tail [of "st_init 2" 2 7] by (simp add: st_init_def sq_default_def)
  then have r: "spsc_reachable 2 ?s" by (auto simp: spsc_reachable_def spsc_step_def)
  then have "\<exists>xs. st_pushed ?s = st_popped ?s @ xs \<and> length xs \<le> sq_capacity 2"
    using spsc_interleavings_safe [of 2 ?s] by simp
  with r show ?thesis by (intro exI [of _ ?s]) (simp add: st_init_def)
qed

text \<open>Neither thread ever blocks: from every reachable state, whatever step the other thread is at,
a thread can take its next step.\<close>

lemma spsc_wait_free:
  assumes "2 \<le> n" and "spsc_reachable n s"
  shows "(\<exists>s'. producer_step n s s') \<and> (\<exists>s'. consumer_step n s s')"
proof -
  obtain xs where holds: "spsc_holds n (st_queue s) (st_prod s) (st_cons s) xs"
    using spsc_reachable_inv [OF assms] by (auto simp: st_inv_def)
  note h = spsc_holdsD [OF holds]
  have "\<exists>s'. producer_step n s s'"
  proof (cases "st_prod s")
    case (Prod_tail x t)
    then show ?thesis
      using found_full [OF Prod_tail] found_room [OF Prod_tail] by (cases "sq_next n t = sq_head (st_queue s)") auto
  qed (auto intro: load_tail construct store_tail)
  moreover have "\<exists>s'. consumer_step n s s'"
  proof (cases "st_cons s")
    case (Cons_some k)
    then have "k = rb_wrap n (sq_head (st_queue s) + 0)" "xs \<noteq> []"
      using h(1,3,8) by (simp_all add: cons_ok_def rb_wrap_eq)
    then have "sq_slots (st_queue s) ! k = Some (hd xs)"
      using h(6) [of 0] h(1) Cons_some by (simp add: slot_holds_def hd_conv_nth)
    from move_out [OF Cons_some this] show ?thesis by blast
  next
    case (Cons_head k)
    then show ?thesis
      using found_empty [OF Cons_head] found_some [OF Cons_head] by (cases "k = sq_tail (st_queue s)") auto
  qed (auto intro: load_head destroy store_head)
  ultimately show ?thesis by blast
qed

end
