(* ===== verification/Loopback_Bus.thy ===== *)
theory Loopback_Bus
  imports Ring_Buffer Can_Frame
begin

text \<open>
  The in-process CAN bus: \<open>can/io/loopback_bus.hpp\<close>, on the ring buffer and the acceptance
  filters. The filter vector is a list; \<open>n\<close> is the template's \<open>Capacity\<close>.
\<close>

subsection \<open>The code\<close>

datatype bus_state = Error_active | Error_passive | Bus_is_off

record loopback_bus =
  lb_queue :: "frame ring_buffer"
  lb_filters :: "filter_t list"

definition lb_default :: "nat \<Rightarrow> loopback_bus" where
  "lb_default n = \<lparr>lb_queue = rb_default n, lb_filters = []\<rparr>"

definition lb_accepts :: "filter_t list \<Rightarrow> can_id \<Rightarrow> bool" where
  "lb_accepts filters i = (if filters = [] then True else list_ex (\<lambda>f. filter_matches f i) filters)"

definition lb_send :: "nat \<Rightarrow> frame \<Rightarrow> loopback_bus \<Rightarrow> (can_error + unit) \<times> loopback_bus" where
  "lb_send n f bus =
     (case rb_emplace n f (lb_queue bus) of
        (Inl e, q) \<Rightarrow> (Inl Buffer_full, bus\<lparr>lb_queue := q\<rparr>)
      | (Inr u, q) \<Rightarrow> (Inr (), bus\<lparr>lb_queue := q\<rparr>))"

function receive_loop :: "nat \<Rightarrow> filter_t list \<Rightarrow> frame ring_buffer \<Rightarrow> frame option \<times> frame ring_buffer" where
  "receive_loop n filters q =
     (if rb_size q = 0 then (None, q)
      else
        case rb_pop n q of
          (Inl e, q') \<Rightarrow> (None, q')
        | (Inr f, q') \<Rightarrow>
            if lb_accepts filters (fr_id f) then (Some f, q') else receive_loop n filters q')"
  by pat_completeness auto

termination
  by (relation "measure (\<lambda>(n, filters, q). rb_size q)") (auto simp: rb_pop_def split: if_splits)

declare receive_loop.simps [simp del]

definition lb_receive :: "nat \<Rightarrow> loopback_bus \<Rightarrow> (can_error + frame option) \<times> loopback_bus" where
  "lb_receive n bus =
     (case receive_loop n (lb_filters bus) (lb_queue bus) of (r, q) \<Rightarrow> (Inr r, bus\<lparr>lb_queue := q\<rparr>))"

definition lb_set_filters :: "filter_t list \<Rightarrow> loopback_bus \<Rightarrow> (can_error + unit) \<times> loopback_bus" where
  "lb_set_filters filters bus = (Inr (), bus\<lparr>lb_filters := filters\<rparr>)"

definition lb_state :: "loopback_bus \<Rightarrow> bus_state" where
  "lb_state bus = Error_active"

definition lb_pending :: "loopback_bus \<Rightarrow> nat" where
  "lb_pending bus = rb_size (lb_queue bus)"

definition lb_empty :: "loopback_bus \<Rightarrow> bool" where
  "lb_empty bus = (rb_size (lb_queue bus) = 0)"

definition lb_clear :: "nat \<Rightarrow> loopback_bus \<Rightarrow> loopback_bus" where
  "lb_clear n bus = bus\<lparr>lb_queue := rb_clear n (lb_queue bus)\<rparr>"

subsection \<open>What the bus does to the frames in transit\<close>

definition lb_ok :: "nat \<Rightarrow> loopback_bus \<Rightarrow> bool" where
  "lb_ok n bus \<longleftrightarrow> rb_wf n (lb_queue bus)"

definition lb_frames :: "nat \<Rightarrow> loopback_bus \<Rightarrow> frame list" where
  "lb_frames n bus = rb_list n (lb_queue bus)"

lemma lb_default_ok: "0 < n \<Longrightarrow> lb_ok n (lb_default n) \<and> lb_frames n (lb_default n) = []"
  by (simp add: lb_ok_def lb_frames_def lb_default_def rb_default_ok)

lemma lb_send_ok:
  assumes "lb_ok n bus"
  shows "lb_ok n (snd (lb_send n f bus))" and "lb_filters (snd (lb_send n f bus)) = lb_filters bus"
    and "length (lb_frames n bus) < n \<Longrightarrow>
      fst (lb_send n f bus) = Inr () \<and> lb_frames n (snd (lb_send n f bus)) = lb_frames n bus @ [f]"
    and "length (lb_frames n bus) = n \<Longrightarrow>
      fst (lb_send n f bus) = Inl Buffer_full \<and> lb_frames n (snd (lb_send n f bus)) = lb_frames n bus"
  using rb.push_ok [of n "lb_queue bus" f] assms
  by (auto simp: lb_send_def lb_ok_def lb_frames_def list_push_def split: prod.splits sum.splits)

lemma receive_loop_ok:
  "rb_wf n q \<Longrightarrow>
    rb_wf n (snd (receive_loop n filters q)) \<and>
    (fst (receive_loop n filters q), rb_list n (snd (receive_loop n filters q))) =
      (case dropWhile (\<lambda>f. \<not> lb_accepts filters (fr_id f)) (rb_list n q) of
         [] \<Rightarrow> (None, []) | f # fs \<Rightarrow> (Some f, fs))"
proof (induction n filters q rule: receive_loop.induct)
  case (1 n filters q)
  show ?case
  proof (cases "rb_list n q")
    case Nil
    then have "rb_size q = 0" by (metis length_rb_list list.size(3))
    with Nil 1(2) show ?thesis by (subst (1 2 3) receive_loop.simps) simp
  next
    case (Cons f fs)
    then have size: "rb_size q \<noteq> 0" by (metis length_rb_list list.size(3) list.distinct(1) length_0_conv)
    obtain q' where q': "rb_pop n q = (Inr f, q')" "rb_wf n q'" "rb_list n q' = fs"
      using rb.pop_oldest [OF 1(2) Cons] by (cases "rb_pop n q") auto
    show ?thesis
    proof (cases "lb_accepts filters (fr_id f)")
      case True
      then have "receive_loop n filters q = (Some f, q')"
        using size q'(1) by (subst receive_loop.simps) simp
      with True Cons q' show ?thesis by simp
    next
      case False
      then have "receive_loop n filters q = receive_loop n filters q'"
        using size q'(1) by (subst receive_loop.simps) simp
      with 1(1) [OF size q'(1) [symmetric] refl False] False Cons q' show ?thesis by simp
    qed
  qed
qed

lemma lb_receive_ok:
  assumes "lb_ok n bus"
  obtains bus' where "lb_ok n bus'" and "lb_filters bus' = lb_filters bus"
    and "lb_receive n bus = (Inr (fst (case dropWhile (\<lambda>f. \<not> lb_accepts (lb_filters bus) (fr_id f)) (lb_frames n bus) of
         [] \<Rightarrow> (None, []) | f # fs \<Rightarrow> (Some f, fs))), bus')"
    and "lb_frames n bus' = tl (dropWhile (\<lambda>f. \<not> lb_accepts (lb_filters bus) (fr_id f)) (lb_frames n bus))"
proof -
  obtain r q where e: "receive_loop n (lb_filters bus) (lb_queue bus) = (r, q)"
    by (cases "receive_loop n (lb_filters bus) (lb_queue bus)")
  define d where "d = dropWhile (\<lambda>f. \<not> lb_accepts (lb_filters bus) (fr_id f)) (lb_frames n bus)"
  have "rb_wf n q" "(r, rb_list n q) = (case d of [] \<Rightarrow> (None, []) | f # fs \<Rightarrow> (Some f, fs))"
    using receive_loop_ok [of n "lb_queue bus" "lb_filters bus"] assms e
    by (simp_all add: lb_ok_def lb_frames_def d_def)
  then have "lb_ok n (bus\<lparr>lb_queue := q\<rparr>)" "lb_frames n (bus\<lparr>lb_queue := q\<rparr>) = tl d"
    "r = fst (case d of [] \<Rightarrow> (None, []) | f # fs \<Rightarrow> (Some f, fs))"
    by (cases d; simp add: lb_ok_def lb_frames_def)+
  then show ?thesis
    unfolding d_def by (intro that [of "bus\<lparr>lb_queue := q\<rparr>"]) (simp_all add: lb_receive_def e)
qed

text \<open>Sending a list of frames, and receiving a number of times.\<close>

fun lb_send_all :: "nat \<Rightarrow> frame list \<Rightarrow> loopback_bus \<Rightarrow> (can_error + unit) list \<times> loopback_bus" where
  "lb_send_all n [] bus = ([], bus)"
| "lb_send_all n (f # fs) bus =
     (case lb_send n f bus of (r, bus') \<Rightarrow> case lb_send_all n fs bus' of (rs, bus'') \<Rightarrow> (r # rs, bus''))"

fun lb_receive_times :: "nat \<Rightarrow> nat \<Rightarrow> loopback_bus \<Rightarrow> (can_error + frame option) list \<times> loopback_bus" where
  "lb_receive_times n 0 bus = ([], bus)"
| "lb_receive_times n (Suc k) bus =
     (case lb_receive n bus of (r, bus') \<Rightarrow> case lb_receive_times n k bus' of (rs, bus'') \<Rightarrow> (r # rs, bus''))"

lemma lb_send_all_ok:
  "lb_ok n bus \<Longrightarrow> length (lb_frames n bus) + length fs \<le> n \<Longrightarrow>
    \<exists>bus'. lb_send_all n fs bus = (replicate (length fs) (Inr ()), bus') \<and> lb_ok n bus' \<and>
      lb_frames n bus' = lb_frames n bus @ fs \<and> lb_filters bus' = lb_filters bus"
proof (induction fs arbitrary: bus)
  case (Cons f fs)
  let ?bus = "snd (lb_send n f bus)"
  have room: "length (lb_frames n bus) < n" using Cons.prems(2) by simp
  note s = lb_send_ok(1,2) [OF Cons.prems(1), of f] lb_send_ok(3) [OF Cons.prems(1) room, of f]
  have "length (lb_frames n ?bus) + length fs \<le> n" using s(3) Cons.prems(2) by simp
  from Cons.IH [OF s(1) this] obtain bus' where
    "lb_send_all n fs ?bus = (replicate (length fs) (Inr ()), bus')" "lb_ok n bus'"
    "lb_frames n bus' = lb_frames n ?bus @ fs" "lb_filters bus' = lb_filters ?bus" by blast
  with s(2,3) show ?case by (cases "lb_send n f bus") auto
qed simp

lemma dropWhile_filter: "dropWhile (\<lambda>x. \<not> P x) xs = y # ys \<Longrightarrow> filter P xs = y # filter P ys"
  by (induction xs) (auto split: if_splits)

lemma dropWhile_Nil_filter: "dropWhile (\<lambda>x. \<not> P x) xs = [] \<Longrightarrow> filter P xs = []"
  by (induction xs) (auto split: if_splits)

lemma lb_receive_times_ok:
  assumes "lb_ok n bus"
  defines "acc \<equiv> \<lambda>bus. filter (\<lambda>f. lb_accepts (lb_filters bus) (fr_id f)) (lb_frames n bus)"
  shows "\<exists>bus'. lb_receive_times n k bus =
    (map (\<lambda>f. Inr (Some f)) (take k (acc bus)) @ replicate (k - length (acc bus)) (Inr None), bus')"
  using assms(1)
proof (induction k arbitrary: bus)
  case (Suc k)
  let ?d = "dropWhile (\<lambda>f. \<not> lb_accepts (lb_filters bus) (fr_id f)) (lb_frames n bus)"
  obtain bus1 where r: "lb_ok n bus1" "lb_filters bus1 = lb_filters bus"
    "lb_receive n bus = (Inr (fst (case ?d of [] \<Rightarrow> (None, []) | f # fs \<Rightarrow> (Some f, fs))), bus1)"
    "lb_frames n bus1 = tl ?d"
    using lb_receive_ok [OF Suc.prems] .
  from Suc.IH [OF r(1)] obtain bus2 where
    e: "lb_receive_times n k bus1 =
      (map (\<lambda>f. Inr (Some f)) (take k (acc bus1)) @ replicate (k - length (acc bus1)) (Inr None), bus2)" by blast
  show ?case
  proof (cases ?d)
    case Nil
    have "lb_frames n bus1 = []" using r(4) unfolding Nil by simp
    with Nil have "acc bus = []" "acc bus1 = []" using dropWhile_Nil_filter [OF Nil] by (simp_all add: acc_def)
    with e r(3) show ?thesis by (simp add: Nil)
  next
    case (Cons f fs)
    then have "acc bus = f # acc bus1" using dropWhile_filter [OF Cons] r(2,4) by (simp add: acc_def)
    with e r(3) show ?thesis by (simp add: Cons)
  qed
qed simp

subsection \<open>Properties\<close>

text \<open>C23: what is sent on a loopback bus with room is received in the order of sending, less the frames the
filters reject, and once these are exhausted a receive reports that nothing is ready; a send on a
full bus is refused with \<open>buffer_full\<close>.\<close>

theorem loopback_delivers_accepted:
  assumes "0 < n" and "length fs \<le> n"
  shows "case lb_set_filters filters (lb_default n) of (_, bus) \<Rightarrow>
    case lb_send_all n fs bus of (sent, bus') \<Rightarrow>
      sent = replicate (length fs) (Inr ()) \<and>
      (length fs = n \<longrightarrow> fst (lb_send n f bus') = Inl Buffer_full) \<and>
      fst (lb_receive_times n k bus') =
        (let out = filter (\<lambda>f. lb_accepts filters (fr_id f)) fs
         in map (\<lambda>f. Inr (Some f)) (take k out) @ replicate (k - length out) (Inr None))"
proof -
  let ?bus = "(lb_default n)\<lparr>lb_filters := filters\<rparr>"
  have d: "lb_ok n ?bus" "lb_frames n ?bus = []" "lb_filters ?bus = filters"
    using lb_default_ok [OF assms(1)] by (simp_all add: lb_ok_def lb_frames_def)
  obtain bus' where s: "lb_send_all n fs ?bus = (replicate (length fs) (Inr ()), bus')" "lb_ok n bus'"
    "lb_frames n bus' = fs" "lb_filters bus' = filters"
    using lb_send_all_ok [OF d(1), of fs] d assms(2) by auto
  have "fst (lb_send n f bus') = Inl Buffer_full" if "length fs = n"
    using lb_send_ok(4) [OF s(2), of f] that s(3) by simp
  with lb_receive_times_ok [OF s(2), of k] s show ?thesis by (auto simp: lb_set_filters_def Let_def)
qed

lemma loopback_delivers_accepted_witness:
  "fst (lb_receive_times 1 2 (snd (lb_send_all 1 [frame_default] (lb_default 1)))) =
     [Inr (Some frame_default), Inr None]"
  using loopback_delivers_accepted [where n = 1 and fs = "[frame_default]" and filters = "[]" and k = 2
      and f = frame_default]
  by (simp add: lb_set_filters_def lb_default_def lb_accepts_def case_prod_beta)

end
