(* ===== verification/Packing_Plan.thy ===== *)
theory Packing_Plan
  imports Can_Frame
begin

text \<open>
  The bit layout of a CAN signal in a frame's payload, in Intel or Motorola order, as runs of bits
  per byte, and the raw and sign-extended access through it: \<open>can/packing_plan.hpp\<close>,
  \<open>can/byte_order.hpp\<close> and the integer half of \<open>can/codec.hpp\<close>. The abstract view is
  \<open>signal_pos\<close>, the byte and bit of the payload that hold bit \<open>j\<close> of the value.
\<close>

subsection \<open>The code\<close>

datatype byte_order = Little_endian_order | Big_endian_order

record plan_chunk =
  pc_byte :: u16
  pc_lsb :: u8
  pc_num_bits :: u8
  pc_dest_shift :: u8
  pc_mask :: u8

record packing_plan =
  pp_chunks :: "plan_chunk list"
  pp_bit_length :: u8
  pp_is_signed :: bool
  pp_required_length :: u16

definition max_chunks :: nat where
  "max_chunks = 9"

definition push_chunk :: "plan_chunk \<Rightarrow> packing_plan \<Rightarrow> packing_plan" where
  "push_chunk c plan =
     (let c' = c\<lparr>pc_mask := ucast (push_bit (unat (pc_num_bits c)) (1 :: u32) - 1)\<rparr>;
          reach = ucast (ucast (pc_byte c') + 1 :: u32) :: u16
      in plan\<lparr>pp_chunks := pp_chunks plan @ [c'],
              pp_required_length := (if pp_required_length plan < reach then reach else pp_required_length plan)\<rparr>)"

function build_le :: "u8 \<Rightarrow> u32 \<Rightarrow> u8 \<Rightarrow> packing_plan \<Rightarrow> packing_plan" where
  "build_le remaining global dest plan =
     (if remaining = 0 then plan
      else
        let byte = ucast (global div 8) :: u16;
            lsb = ucast (global mod 8) :: u8;
            take = ucast (min (8 - ucast lsb) (ucast remaining :: u32)) :: u8
        in build_le (remaining - take) (global + ucast take) (dest + take)
             (push_chunk \<lparr>pc_byte = byte, pc_lsb = lsb, pc_num_bits = take, pc_dest_shift = dest, pc_mask = 0\<rparr> plan))"
  by pat_completeness auto

function build_be :: "u8 \<Rightarrow> u16 \<Rightarrow> u8 \<Rightarrow> packing_plan \<Rightarrow> packing_plan" where
  "build_be remaining byte msb plan =
     (if remaining = 0 then plan
      else
        let take = ucast (min (ucast (ucast msb + 1 :: u32)) (ucast remaining :: u16)) :: u8;
            lsb = ucast (ucast msb + 1 - ucast take :: u32) :: u8;
            dest = remaining - take
        in build_be (remaining - take) (byte + 1) 7
             (push_chunk \<lparr>pc_byte = byte, pc_lsb = lsb, pc_num_bits = take, pc_dest_shift = dest, pc_mask = 0\<rparr> plan))"
  by pat_completeness auto

lemma unat_cast_up [simp]:
  "unat (ucast (b :: u8) :: u16) = unat b" "unat (ucast (b :: u8) :: u32) = unat b"
  "unat (ucast (h :: u16) :: u32) = unat h" "unat (ucast (b :: u8) :: u64) = unat b"
  by (simp_all add: unsigned_ucast_eq take_bit_nat_eq_self
      order_less_le_trans [OF unsigned_less [of b, where ?'a = nat]]
      order_less_le_trans [OF unsigned_less [of h, where ?'a = nat]])

lemma unat_cast_u8: "unat w < 256 \<Longrightarrow> unat (ucast w :: u8) = unat w"
  by (simp add: unsigned_ucast_eq take_bit_nat_eq_self)

lemma unat_cast_u16: "unat w < 65536 \<Longrightarrow> unat (ucast w :: u16) = unat w"
  by (simp add: unsigned_ucast_eq take_bit_nat_eq_self)

lemma unat_min: "unat (min a b) = min (unat a) (unat b)"
  by (simp add: min_def word_le_nat_alt)

lemma unat_plus_1: "unat w + 1 < 2 ^ LENGTH('a) \<Longrightarrow> unat (w + 1) = unat w + 1" for w :: "'a::len word"
  by (simp add: unat_word_ariths)

lemma le_parts:
  fixes remaining :: u8 and global :: u32
  defines "lsb \<equiv> ucast (global mod 8) :: u8"
  shows "unat lsb = unat global mod 8"
    and "unat (ucast (min (8 - ucast lsb) (ucast remaining :: u32)) :: u8) =
      min (8 - unat global mod 8) (unat remaining)"
proof -
  have m: "unat (global mod 8) = unat global mod 8" by (simp add: unat_mod)
  then show l: "unat lsb = unat global mod 8" unfolding lsb_def by (simp add: unat_cast_u8)
  have "ucast lsb \<le> (8 :: u32)" using l by (simp add: word_le_nat_alt)
  then have "unat (8 - ucast lsb :: u32) = 8 - unat global mod 8" using l by (simp add: unat_sub)
  then have "unat (min (8 - ucast lsb) (ucast remaining :: u32)) = min (8 - unat global mod 8) (unat remaining)"
    by (simp only: unat_min unat_cast_up)
  then show "unat (ucast (min (8 - ucast lsb) (ucast remaining :: u32)) :: u8) =
      min (8 - unat global mod 8) (unat remaining)"
    by (subst unat_cast_u8) auto
qed

lemma be_take:
  "unat (ucast (min (ucast (ucast msb + 1 :: u32)) (ucast remaining :: u16)) :: u8) = min (unat msb + 1) (unat remaining)"
  for msb remaining :: u8
proof -
  have "unat (ucast msb + 1 :: u32) = unat msb + 1"
    by (subst unat_plus_1) (use unat_byte_less [of msb] in \<open>simp_all del: unat_byte_less\<close>)
  then have "unat (ucast (ucast msb + 1 :: u32) :: u16) = unat msb + 1"
    by (subst unat_cast_u16) (use unat_byte_less [of msb] in \<open>simp_all del: unat_byte_less\<close>)
  then have "unat (min (ucast (ucast msb + 1 :: u32)) (ucast remaining :: u16)) = min (unat msb + 1) (unat remaining)"
    by (simp only: unat_min unat_cast_up)
  then show ?thesis by (subst unat_cast_u8) (use unat_byte_less [of remaining] in \<open>simp_all del: unat_byte_less\<close>)
qed

lemma take_shrinks: "t \<noteq> 0 \<Longrightarrow> unat t \<le> unat remaining \<Longrightarrow> unat (remaining - t) < unat remaining" for t remaining :: u8
  by (cases "unat t") (simp_all add: unat_sub word_le_nat_alt unat_eq_zero)

termination build_le
proof (relation "measure (\<lambda>(remaining, global, dest, plan). unat remaining)")
  fix remaining :: u8 and global :: u32 and dest :: u8 and plan :: packing_plan and byte :: u16 and lsb take :: u8
  assume r: "remaining \<noteq> 0" and "lsb = ucast (global mod 8)" "take = ucast (min (8 - ucast lsb) (ucast remaining :: u32))"
  then have "unat take = min (8 - unat global mod 8) (unat remaining)" by (simp only: le_parts(2))
  moreover have "0 < unat remaining" using r by (simp add: unat_gt_0)
  ultimately have "unat take \<noteq> 0" "unat take \<le> unat remaining" by (simp_all add: min_def)
  then have "unat (remaining - take) < unat remaining" by (intro take_shrinks) auto
  then show "((remaining - take, global + ucast take, dest + take,
      push_chunk \<lparr>pc_byte = byte, pc_lsb = lsb, pc_num_bits = take, pc_dest_shift = dest, pc_mask = 0\<rparr> plan),
      remaining, global, dest, plan) \<in> measure (\<lambda>(remaining, global, dest, plan). unat remaining)" by simp
qed simp

termination build_be
proof (relation "measure (\<lambda>(remaining, byte, msb, plan). unat remaining)")
  fix remaining :: u8 and byte :: u16 and msb :: u8 and plan :: packing_plan and take lsb dest :: u8
  assume r: "remaining \<noteq> 0" and "take = ucast (min (ucast (ucast msb + 1 :: u32)) (ucast remaining :: u16))"
  then have "unat take = min (unat msb + 1) (unat remaining)" by (simp only: be_take)
  moreover have "0 < unat remaining" using r by (simp add: unat_gt_0)
  ultimately have "unat take \<noteq> 0" "unat take \<le> unat remaining" by (simp_all add: min_def)
  then have "unat (remaining - take) < unat remaining" by (intro take_shrinks) auto
  then show "((remaining - take, byte + 1, 7,
      push_chunk \<lparr>pc_byte = byte, pc_lsb = lsb, pc_num_bits = take, pc_dest_shift = dest, pc_mask = 0\<rparr> plan),
      remaining, byte, msb, plan) \<in> measure (\<lambda>(remaining, byte, msb, plan). unat remaining)" by simp
qed simp

declare build_le.simps [simp del] build_be.simps [simp del]

definition packing_plan_make :: "u16 \<Rightarrow> u16 \<Rightarrow> byte_order \<Rightarrow> bool \<Rightarrow> packing_plan" where
  "packing_plan_make start_bit bit_length order is_signed =
     (let plan = \<lparr>pp_chunks = [], pp_bit_length = ucast bit_length, pp_is_signed = is_signed,
                  pp_required_length = 0\<rparr>
      in case order of
           Little_endian_order \<Rightarrow> build_le (pp_bit_length plan) (ucast start_bit) 0 plan
         | Big_endian_order \<Rightarrow>
             build_be (pp_bit_length plan) (start_bit div 8) (ucast (start_bit mod 8)) plan)"

definition packing_plan_default :: packing_plan where
  "packing_plan_default = packing_plan_make 0 1 Little_endian_order False"

fun extract_chunks :: "plan_chunk list \<Rightarrow> byte list \<Rightarrow> u64 \<Rightarrow> u64" where
  "extract_chunks [] payload v = v"
| "extract_chunks (c # cs) payload v =
     (let source = ucast (payload ! unat (pc_byte c)) :: u64;
          bits = drop_bit (unat (pc_lsb c)) source AND ucast (pc_mask c)
      in extract_chunks cs payload (v OR push_bit (unat (pc_dest_shift c)) bits))"

definition plan_extract :: "packing_plan \<Rightarrow> byte list \<Rightarrow> u64" where
  "plan_extract plan payload = extract_chunks (pp_chunks plan) payload 0"

fun insert_chunks :: "plan_chunk list \<Rightarrow> u64 \<Rightarrow> byte list \<Rightarrow> byte list" where
  "insert_chunks [] raw payload = payload"
| "insert_chunks (c # cs) raw payload =
     (let piece = ucast (drop_bit (unat (pc_dest_shift c)) raw) AND ucast (pc_mask c) :: u32;
          clear = NOT (push_bit (unat (pc_lsb c)) (ucast (pc_mask c))) :: u32;
          byte = ucast (payload ! unat (pc_byte c)) AND clear;
          updated = byte OR push_bit (unat (pc_lsb c)) piece
      in insert_chunks cs raw (payload[unat (pc_byte c) := ucast updated]))"

definition plan_insert :: "packing_plan \<Rightarrow> u64 \<Rightarrow> byte list \<Rightarrow> byte list" where
  "plan_insert plan raw payload = insert_chunks (pp_chunks plan) raw payload"

text \<open>The width masks and the sign extension are templates; the codec uses them at 64 bits.\<close>

definition low_mask :: "nat \<Rightarrow> u64" where
  "low_mask bits = (if bits = 0 then 0 else if 64 \<le> bits then NOT 0 else push_bit bits 1 - 1)"

text \<open>The result is the value of the signed integer that the code returns.\<close>

definition sign_extend :: "u64 \<Rightarrow> nat \<Rightarrow> int" where
  "sign_extend v bits =
     (if 64 \<le> bits then sint v
      else let sign_bit = push_bit (bits - 1) 1 in sint ((v XOR sign_bit) - sign_bit))"

definition read_bits :: "packing_plan \<Rightarrow> frame \<Rightarrow> can_error + u64" where
  "read_bits plan f =
     (if ucast (fr_length f) < pp_required_length plan then Inl Signal_out_of_range
      else Inr (plan_extract plan (frame_payload f)))"

definition write_bits :: "packing_plan \<Rightarrow> frame \<Rightarrow> u64 \<Rightarrow> can_error + frame" where
  "write_bits plan f raw =
     (if ucast (fr_length f) < pp_required_length plan then Inl Signal_out_of_range
      else Inr (frame_store f (plan_insert plan (raw AND low_mask (unat (pp_bit_length plan))) (frame_payload f))))"

definition not_available_value :: "packing_plan \<Rightarrow> u64" where
  "not_available_value plan = low_mask (unat (pp_bit_length plan))"

definition write_not_available :: "packing_plan \<Rightarrow> frame \<Rightarrow> can_error + frame" where
  "write_not_available plan f = write_bits plan f (not_available_value plan)"

definition is_not_available :: "packing_plan \<Rightarrow> frame \<Rightarrow> can_error + bool" where
  "is_not_available plan f =
     (case read_bits plan f of Inl e \<Rightarrow> Inl e | Inr raw \<Rightarrow> Inr (raw = not_available_value plan))"

datatype invalid_value = Invalid_none | All_ones | All_zeros | All_ones_or_zeros

definition is_dont_care :: "invalid_value \<Rightarrow> u64 \<Rightarrow> nat \<Rightarrow> bool" where
  "is_dont_care policy raw bits =
     (let ones = low_mask bits
      in case policy of
           Invalid_none \<Rightarrow> False
         | All_ones \<Rightarrow> raw = ones
         | All_zeros \<Rightarrow> raw = 0
         | All_ones_or_zeros \<Rightarrow> raw = ones \<or> raw = 0)"

subsection \<open>Which bit of the payload is which bit of the value\<close>

definition le_pos :: "nat \<Rightarrow> nat \<Rightarrow> nat \<times> nat" where
  "le_pos start j = ((start + j) div 8, (start + j) mod 8)"

text \<open>In Motorola order bits are numbered from the top of each byte: \<open>start\<close> is the value's top bit.\<close>

definition be_pos :: "nat \<Rightarrow> nat \<Rightarrow> nat \<Rightarrow> nat \<times> nat" where
  "be_pos start len j =
     (let k = 8 * (start div 8) + (7 - start mod 8) + (len - 1 - j) in (k div 8, 7 - k mod 8))"

definition signal_pos :: "byte_order \<Rightarrow> nat \<Rightarrow> nat \<Rightarrow> nat \<Rightarrow> nat \<times> nat" where
  "signal_pos order start len j =
     (case order of Little_endian_order \<Rightarrow> le_pos start j | Big_endian_order \<Rightarrow> be_pos start len j)"

lemma div_mod_8: "r < 8 \<Longrightarrow> (8 * q + r) div 8 = q" "r < 8 \<Longrightarrow> (8 * q + r) mod 8 = r" for q r :: nat
  by simp_all

lemma round_up_8: "8 * q + r = g \<Longrightarrow> r < 8 \<Longrightarrow> g + (8 - r) = 8 * (q + 1)" for q r g :: nat
  by simp

lemma le_pos_inj: "le_pos start i = le_pos start j \<Longrightarrow> i = j"
proof -
  assume e: "le_pos start i = le_pos start j"
  have "start + i = 8 * ((start + i) div 8) + (start + i) mod 8" by simp
  also have "\<dots> = start + j" using e by (simp add: le_pos_def)
  finally show "i = j" by simp
qed

lemma be_pos_inj: "i < len \<Longrightarrow> j < len \<Longrightarrow> be_pos start len i = be_pos start len j \<Longrightarrow> i = j"
proof -
  assume i: "i < len" "j < len" and e: "be_pos start len i = be_pos start len j"
  let ?k = "\<lambda>j. 8 * (start div 8) + (7 - start mod 8) + (len - 1 - j)"
  have "?k i div 8 = ?k j div 8" "7 - ?k i mod 8 = 7 - ?k j mod 8" using e by (simp_all add: be_pos_def Let_def)
  moreover have "a < 8 \<Longrightarrow> b < 8 \<Longrightarrow> 7 - a = 7 - b \<Longrightarrow> a = b" for a b :: nat by simp
  ultimately have "?k i div 8 = ?k j div 8 \<and> ?k i mod 8 = ?k j mod 8"
    by (metis mod_less_divisor zero_less_numeral)
  then have "?k i = ?k j" by (metis mult_div_mod_eq)
  with i show "i = j" by linarith
qed

lemma signal_pos_simps:
  "signal_pos Little_endian_order start len = le_pos start"
  "signal_pos Big_endian_order start len = be_pos start len"
  by (simp_all add: signal_pos_def fun_eq_iff)

lemma signal_pos_inj:
  "i < len \<Longrightarrow> j < len \<Longrightarrow> signal_pos order start len i = signal_pos order start len j \<Longrightarrow> i = j"
  by (cases order) (auto simp: signal_pos_def dest: le_pos_inj be_pos_inj)

lemma signal_pos_bit: "snd (signal_pos order start len j) < 8"
  by (cases order) (simp_all add: signal_pos_def le_pos_def be_pos_def Let_def)

text \<open>A chunk that agrees with a layout, and a list of chunks that covers the value bits \<open>lo ..< hi\<close>.\<close>

definition chunk_ok :: "nat \<Rightarrow> (nat \<Rightarrow> nat \<times> nat) \<Rightarrow> plan_chunk \<Rightarrow> bool" where
  "chunk_ok len pos c \<longleftrightarrow>
     unat (pc_lsb c) + unat (pc_num_bits c) \<le> 8 \<and>
     unat (pc_dest_shift c) + unat (pc_num_bits c) \<le> len \<and>
     pc_mask c = ucast (push_bit (unat (pc_num_bits c)) (1 :: u32) - 1) \<and>
     (\<forall>k < unat (pc_num_bits c). pos (unat (pc_dest_shift c) + k) = (unat (pc_byte c), unat (pc_lsb c) + k))"

definition in_chunk :: "plan_chunk \<Rightarrow> nat \<Rightarrow> bool" where
  "in_chunk c j \<longleftrightarrow> unat (pc_dest_shift c) \<le> j \<and> j < unat (pc_dest_shift c) + unat (pc_num_bits c)"

definition covers :: "plan_chunk list \<Rightarrow> nat \<Rightarrow> nat \<Rightarrow> bool" where
  "covers cs lo hi \<longleftrightarrow> (\<forall>j. (\<exists>c \<in> set cs. in_chunk c j) \<longleftrightarrow> lo \<le> j \<and> j < hi)"

lemma covers_Nil [simp]: "covers [] n n"
  by (simp add: covers_def)

lemma covers_low:
  assumes "covers cs m hi" and "m \<le> hi" and "unat (pc_dest_shift c) = lo" and "lo + unat (pc_num_bits c) = m"
  shows "covers (c # cs) lo hi"
  unfolding covers_def
proof
  fix j
  have "(\<exists>c \<in> set cs. in_chunk c j) \<longleftrightarrow> m \<le> j \<and> j < hi" using assms(1) by (simp add: covers_def)
  moreover have "in_chunk c j \<longleftrightarrow> lo \<le> j \<and> j < m" using assms(3,4) by (simp add: in_chunk_def)
  ultimately show "(\<exists>c \<in> set (c # cs). in_chunk c j) \<longleftrightarrow> lo \<le> j \<and> j < hi" using assms(2,4) by auto
qed

lemma covers_high:
  assumes "covers cs 0 m" and "unat (pc_dest_shift c) = m"
  shows "covers (c # cs) 0 (m + unat (pc_num_bits c))"
  unfolding covers_def
proof
  fix j
  have "(\<exists>c \<in> set cs. in_chunk c j) \<longleftrightarrow> j < m" using assms(1) by (simp add: covers_def)
  moreover have "in_chunk c j \<longleftrightarrow> m \<le> j \<and> j < m + unat (pc_num_bits c)" using assms(2) by (simp add: in_chunk_def)
  ultimately show "(\<exists>c \<in> set (c # cs). in_chunk c j) \<longleftrightarrow> 0 \<le> j \<and> j < m + unat (pc_num_bits c)" by auto
qed

text \<open>What one loop appends to the plan.\<close>

definition extends :: "nat \<Rightarrow> (nat \<Rightarrow> nat \<times> nat) \<Rightarrow> packing_plan \<Rightarrow> plan_chunk list \<Rightarrow> packing_plan \<Rightarrow> bool" where
  "extends len pos plan cs plan' \<longleftrightarrow>
     pp_chunks plan' = pp_chunks plan @ cs \<and> pp_bit_length plan' = pp_bit_length plan \<and>
     pp_is_signed plan' = pp_is_signed plan \<and> (\<forall>c \<in> set cs. chunk_ok len pos c) \<and>
     unat (pp_required_length plan') =
       fold (\<lambda>c n. max n (unat (pc_byte c) + 1)) cs (unat (pp_required_length plan))"

lemma extends_Nil [simp]: "extends len pos plan [] plan"
  by (simp add: extends_def)

lemma extends_push:
  fixes c :: plan_chunk
  defines "c' \<equiv> c\<lparr>pc_mask := ucast (push_bit (unat (pc_num_bits c)) (1 :: u32) - 1)\<rparr>"
  assumes "extends len pos (push_chunk c plan) cs plan'" and "chunk_ok len pos c'" and "unat (pc_byte c) < 65535"
  shows "extends len pos plan (c' # cs) plan'"
proof -
  have "unat (ucast (pc_byte c) + 1 :: u32) = unat (pc_byte c) + 1"
    by (subst unat_plus_1) (use assms(4) in simp_all)
  then have "unat (ucast (ucast (pc_byte c) + 1 :: u32) :: u16) = unat (pc_byte c) + 1"
    by (subst unat_cast_u16) (use assms(4) in simp_all)
  with assms(2,3) show ?thesis
    by (auto simp: extends_def push_chunk_def Let_def c'_def word_less_nat_alt max_def)
qed

lemma le_first_chunk:
  assumes "lsb + t \<le> 8" and "lsb = (start + dest) mod 8" and "k < t"
  shows "le_pos start (dest + k) = ((start + dest) div 8, lsb + k)"
proof -
  have "start + (dest + k) = 8 * ((start + dest) div 8) + (lsb + k)" using assms(2) by simp
  moreover have "lsb + k < 8" using assms by simp
  ultimately show ?thesis unfolding le_pos_def by (simp only: div_mod_8)
qed

lemma build_le_ok:
  "unat dest + unat remaining \<le> 64 \<Longrightarrow> unat global = start + unat dest \<Longrightarrow> start < 65536 \<Longrightarrow>
    \<exists>cs. extends (unat dest + unat remaining) (le_pos start) plan cs (build_le remaining global dest plan) \<and>
      covers cs (unat dest) (unat dest + unat remaining) \<and>
      length cs = (if remaining = 0 then 0 else (unat remaining + unat global mod 8 + 7) div 8)"
proof (induction remaining global dest plan rule: build_le.induct)
  case (1 remaining global dest plan)
  show ?case
  proof (cases "remaining = 0")
    case True
    then show ?thesis by (subst build_le.simps) (auto intro!: exI [of _ "[]"])
  next
    case False
    define byte where "byte = (ucast (global div 8) :: u16)"
    define lsb where "lsb = (ucast (global mod 8) :: u8)"
    define t where "t = (ucast (min (8 - ucast lsb) (ucast remaining :: u32)) :: u8)"
    let ?c = "\<lparr>pc_byte = byte, pc_lsb = lsb, pc_num_bits = t, pc_dest_shift = dest, pc_mask = 0\<rparr>"
    let ?c' = "?c\<lparr>pc_mask := ucast (push_bit (unat t) (1 :: u32) - 1)\<rparr>"
    let ?r = "build_le (remaining - t) (global + ucast t) (dest + t) (push_chunk ?c plan)"
    have build: "build_le remaining global dest plan = ?r"
      using False by (subst build_le.simps) (simp add: byte_def lsb_def t_def Let_def)
    have l: "unat lsb = unat global mod 8" and t: "unat t = min (8 - unat global mod 8) (unat remaining)"
      unfolding lsb_def t_def by (rule le_parts)+
    have r0: "0 < unat remaining" using False by simp
    have t0: "0 < unat t" "unat t \<le> unat remaining" "unat lsb + unat t \<le> 8" using t l r0 by (auto simp: min_def)
    have rem: "unat (remaining - t) = unat remaining - unat t" using t0(2) by (simp add: unat_sub word_le_nat_alt)
    have dest: "unat (dest + t) = unat dest + unat t" using 1(2) t0 by (simp add: unat_word_ariths)
    have glob: "unat (global + ucast t) = start + unat (dest + t)"
      using 1(2-4) t0 dest by (simp add: unat_word_ariths)
    have "unat (global div 8) = unat global div 8" by (simp add: unat_div)
    moreover have "unat global div 8 < 65535" using 1(2-4) by (simp add: less_mult_imp_div_less)
    ultimately have byte: "unat byte = unat global div 8" "unat byte < 65535"
      unfolding byte_def by (subst unat_cast_u16; simp)+
    have len: "unat (dest + t) + unat (remaining - t) = unat dest + unat remaining"
      using dest rem t0(2) by simp
    have ok: "chunk_ok (unat dest + unat remaining) (le_pos start) ?c'"
      using t0 byte l le_first_chunk [OF t0(3), of start "unat dest"] 1(3) by (simp add: chunk_ok_def)
    obtain cs where cs: "extends (unat dest + unat remaining) (le_pos start) (push_chunk ?c plan) cs ?r"
      "covers cs (unat (dest + t)) (unat dest + unat remaining)"
      "length cs = (if remaining - t = 0 then 0 else (unat (remaining - t) + unat (global + ucast t) mod 8 + 7) div 8)"
      using 1(1) [OF False refl refl refl, folded lsb_def, folded t_def, folded byte_def, OF _ glob 1(4)] len 1(2)
      by auto
    have ext: "extends (unat dest + unat remaining) (le_pos start) plan (?c' # cs) ?r"
      using extends_push [OF cs(1)] ok byte(2) by simp
    have cov: "covers (?c' # cs) (unat dest) (unat dest + unat remaining)"
      using covers_low [OF cs(2), of ?c' "unat dest"] dest len by simp
    have "length (?c' # cs) = (unat remaining + unat global mod 8 + 7) div 8"
    proof (cases "remaining - t = 0")
      case True
      then have "unat remaining = unat t" using rem t0(2) by simp
      then have "(unat remaining + unat global mod 8 + 7) div 8 = 1" using t0 l
        by (intro div_nat_eqI) (simp_all del: unat_gt_0_iff)
      with True cs(3) show ?thesis by simp
    next
      case False
      then have "0 < unat (remaining - t)" by simp
      then have "0 < unat remaining - unat t" unfolding rem .
      then have e: "unat t = 8 - unat global mod 8" using t by simp
      have "unat (global + ucast t) = unat global + unat t" using glob dest 1(3) by simp
      moreover have "unat global + unat t = 8 * (unat global div 8 + 1)"
      proof -
        have "unat global mod 8 < 8" by simp
        then show ?thesis unfolding e using mult_div_mod_eq by (intro round_up_8)
      qed
      then have "(unat global + unat t) mod 8 = 0" by simp
      ultimately have "length cs = (unat remaining - unat t + 7) div 8" using False cs(3) rem by simp
      moreover have "Suc ((unat remaining - unat t + 7) div 8) = (unat remaining - unat t + 15) div 8" by simp
      moreover have "unat remaining - unat t + 15 = unat remaining + unat global mod 8 + 7" using e t0(2) l by simp
      ultimately show ?thesis by simp
    qed
    with ext cov False show ?thesis unfolding build by (intro exI [of _ "?c' # cs"]) auto
  qed
qed

lemma be_chunk:
  assumes "t \<le> msb + 1" and "t \<le> r" and "r \<le> len" and "msb < 8" and "k < t"
    and "8 * (start div 8) + (7 - start mod 8) + (len - r) = 8 * b + (7 - msb)"
  shows "be_pos start len (r - t + k) = (b, msb + 1 - t + k)"
proof -
  have "8 * (start div 8) + (7 - start mod 8) + (len - 1 - (r - t + k)) = 8 * b + (7 - msb + (t - 1 - k))"
    using assms by simp
  moreover have "7 - msb + (t - 1 - k) < 8" "7 - (7 - msb + (t - 1 - k)) = msb + 1 - t + k" using assms by auto
  ultimately show ?thesis unfolding be_pos_def Let_def by (simp only: div_mod_8)
qed

lemma build_be_ok:
  "unat remaining \<le> len \<Longrightarrow> len \<le> 64 \<Longrightarrow> unat msb < 8 \<Longrightarrow> start < 65536 \<Longrightarrow>
    8 * (start div 8) + (7 - start mod 8) + (len - unat remaining) = 8 * unat byte + (7 - unat msb) \<or> remaining = 0 \<Longrightarrow>
    \<exists>cs. extends len (be_pos start len) plan cs (build_be remaining byte msb plan) \<and>
      covers cs 0 (unat remaining) \<and>
      length cs = (if remaining = 0 then 0 else (unat remaining + (7 - unat msb) + 7) div 8)"
proof (induction remaining byte msb plan rule: build_be.induct)
  case (1 remaining byte msb plan)
  show ?case
  proof (cases "remaining = 0")
    case True
    then show ?thesis by (subst build_be.simps) (auto intro!: exI [of _ "[]"])
  next
    case False
    define t where "t = (ucast (min (ucast (ucast msb + 1 :: u32)) (ucast remaining :: u16)) :: u8)"
    define lsb where "lsb = (ucast (ucast msb + 1 - ucast t :: u32) :: u8)"
    let ?c = "\<lparr>pc_byte = byte, pc_lsb = lsb, pc_num_bits = t, pc_dest_shift = remaining - t, pc_mask = 0\<rparr>"
    let ?c' = "?c\<lparr>pc_mask := ucast (push_bit (unat t) (1 :: u32) - 1)\<rparr>"
    let ?r = "build_be (remaining - t) (byte + 1) 7 (push_chunk ?c plan)"
    have build: "build_be remaining byte msb plan = ?r"
      using False by (subst build_be.simps) (simp add: t_def lsb_def Let_def)
    have lin: "8 * (start div 8) + (7 - start mod 8) + (len - unat remaining) = 8 * unat byte + (7 - unat msb)"
      using 1(6) False by simp
    have t: "unat t = min (unat msb + 1) (unat remaining)" unfolding t_def by (rule be_take)
    have r0: "0 < unat remaining" using False by simp
    have t0: "0 < unat t" "unat t \<le> unat remaining" "unat t \<le> unat msb + 1" using t r0 by auto
    have "unat (ucast msb + 1 :: u32) = unat msb + 1" by (subst unat_plus_1) (use 1(4) in simp_all)
    then have "unat (ucast msb + 1 - ucast t :: u32) = unat msb + 1 - unat t"
      using t0(3) by (simp add: unat_sub word_le_nat_alt)
    then have lsb: "unat lsb = unat msb + 1 - unat t" unfolding lsb_def by (subst unat_cast_u8) (use 1(4) in simp_all)
    have rem: "unat (remaining - t) = unat remaining - unat t" using t0(2) by (simp add: unat_sub word_le_nat_alt)
    have "8 * unat byte \<le> 65536 + 7 + 64"
      using lin 1(3,5) mult_div_mod_eq [of 8 start] by linarith
    then have byte: "unat byte < 65535" "unat (byte + 1) = unat byte + 1"
      by (simp, subst unat_plus_1) simp_all
    have ok: "chunk_ok len (be_pos start len) ?c'"
      using t0 lsb rem 1(2,4) be_chunk [OF t0(3,2) 1(2,4) _ lin] by (simp add: chunk_ok_def)
    have next_lin: "8 * (start div 8) + (7 - start mod 8) + (len - unat (remaining - t)) =
        8 * unat (byte + 1) + (7 - unat (7 :: u8)) \<or> remaining - t = 0"
    proof (cases "remaining - t = 0")
      case False
      then have "0 < unat (remaining - t)" by simp
      then have "0 < unat remaining - unat t" unfolding rem .
      then have "unat t = unat msb + 1" using t by simp
      moreover have "8 * (start div 8) + (7 - start mod 8) + (len - (unat remaining - unat t)) =
          8 * unat byte + (7 - unat msb) + unat t" using lin t0(2) 1(2) by linarith
      ultimately show ?thesis using rem byte(2) 1(4) by simp
    qed simp
    have small: "unat (remaining - t) \<le> len" "unat (7 :: u8) < 8" using rem 1(2) by simp_all
    obtain cs where cs: "extends len (be_pos start len) (push_chunk ?c plan) cs ?r"
      "covers cs 0 (unat (remaining - t))"
      "length cs = (if remaining - t = 0 then 0 else (unat (remaining - t) + (7 - unat (7 :: u8)) + 7) div 8)"
      using 1(1) [OF False refl refl refl, folded t_def, folded lsb_def, OF small(1) 1(3) small(2) 1(5) next_lin]
      by blast
    have ext: "extends len (be_pos start len) plan (?c' # cs) ?r"
      using extends_push [OF cs(1)] ok byte(1) by simp
    have "covers (?c' # cs) 0 (unat (remaining - t) + unat t)"
      using covers_high [OF cs(2), of ?c'] by simp
    then have cov: "covers (?c' # cs) 0 (unat remaining)" using rem t0(2) by simp
    have "length (?c' # cs) = (unat remaining + (7 - unat msb) + 7) div 8"
    proof (cases "remaining - t = 0")
      case True
      then have "unat remaining = unat t" using rem t0(2) by simp
      then have "(unat remaining + (7 - unat msb) + 7) div 8 = 1" using t0 1(4)
        by (intro div_nat_eqI) (simp_all del: unat_gt_0_iff)
      with True cs(3) show ?thesis by simp
    next
      case False
      then have "0 < unat (remaining - t)" by simp
      then have "0 < unat remaining - unat t" unfolding rem .
      then have "unat t = unat msb + 1" using t by simp
      then have "unat remaining - unat t + 15 = unat remaining + (7 - unat msb) + 7" using t0(2) 1(4) by simp
      moreover have "length cs = (unat remaining - unat t + 7) div 8" using False cs(3) rem by simp
      moreover have "Suc ((unat remaining - unat t + 7) div 8) = (unat remaining - unat t + 15) div 8" by simp
      ultimately show ?thesis by (metis length_Cons)
    qed
    with ext cov False show ?thesis unfolding build by (intro exI [of _ "?c' # cs"]) auto
  qed
qed

text \<open>The plan of a signal: it covers every bit of the value, fits the nine slots of the chunk array
  and needs the payload up to the last byte it touches.\<close>

definition plan_for :: "nat \<Rightarrow> (nat \<Rightarrow> nat \<times> nat) \<Rightarrow> packing_plan \<Rightarrow> bool" where
  "plan_for len pos plan \<longleftrightarrow>
     unat (pp_bit_length plan) = len \<and> length (pp_chunks plan) \<le> max_chunks \<and>
     (\<forall>c \<in> set (pp_chunks plan). chunk_ok len pos c \<and> unat (pc_byte c) < unat (pp_required_length plan)) \<and>
     covers (pp_chunks plan) 0 len"

lemma fold_max_ge:
  fixes cs :: "plan_chunk list"
  shows "n \<le> fold (\<lambda>c n. max n (unat (pc_byte c) + 1)) cs n"
    and "c \<in> set cs \<Longrightarrow> unat (pc_byte c) + 1 \<le> fold (\<lambda>c n. max n (unat (pc_byte c) + 1)) cs n"
proof -
  have ge: "n \<le> fold (\<lambda>c n. max n (unat (pc_byte c) + 1)) cs n" for n and cs :: "plan_chunk list"
  proof (induction cs arbitrary: n)
    case (Cons c cs)
    show ?case using Cons.IH [of "max n (unat (pc_byte c) + 1)"] by simp
  qed simp
  show "n \<le> fold (\<lambda>c n. max n (unat (pc_byte c) + 1)) cs n" by (rule ge)
  show "c \<in> set cs \<Longrightarrow> unat (pc_byte c) + 1 \<le> fold (\<lambda>c n. max n (unat (pc_byte c) + 1)) cs n"
  proof (induction cs arbitrary: n)
    case (Cons d ds)
    have "max n (unat (pc_byte d) + 1) \<le> fold (\<lambda>c n. max n (unat (pc_byte c) + 1)) (d # ds) n"
      using ge [of "max n (unat (pc_byte d) + 1)" ds] by simp
    with Cons show ?case by (cases "c = d") auto
  qed simp
qed

lemma plan_for_make:
  assumes "1 \<le> unat bit_length" and "unat bit_length \<le> 64"
  shows "plan_for (unat bit_length) (signal_pos order (unat start_bit) (unat bit_length))
    (packing_plan_make start_bit bit_length order is_signed)"
proof -
  let ?len = "unat bit_length" and ?start = "unat start_bit"
  let ?plan = "\<lparr>pp_chunks = [], pp_bit_length = ucast bit_length, pp_is_signed = is_signed, pp_required_length = 0\<rparr>"
  have len: "unat (ucast bit_length :: u8) = ?len" using assms by (subst unat_cast_u8) simp_all
  have start: "?start < 65536" by simp
  have "\<exists>cs. extends ?len (signal_pos order ?start ?len) ?plan cs (packing_plan_make start_bit bit_length order is_signed) \<and>
      covers cs 0 ?len \<and> length cs \<le> 9"
  proof (cases order)
    case Little_endian_order
    obtain cs where cs: "extends ?len (le_pos ?start) ?plan cs (packing_plan_make start_bit bit_length order is_signed)"
      "covers cs 0 ?len" "length cs \<le> (?len + ?start mod 8 + 7) div 8"
      using build_le_ok [of 0 "ucast bit_length" "ucast start_bit" ?start ?plan] len start assms Little_endian_order
      by (auto simp: packing_plan_make_def split: if_splits)
    have "(?len + ?start mod 8 + 7) div 8 < 10"
      using assms by (intro less_mult_imp_div_less) simp
    with cs show ?thesis using Little_endian_order by (auto simp: signal_pos_simps)
  next
    case Big_endian_order
    have "unat (start_bit mod 8) = ?start mod 8" "unat (start_bit div 8) = ?start div 8" by (simp_all add: unat_mod unat_div)
    moreover from this have "unat (ucast (start_bit mod 8) :: u8) = ?start mod 8" by (subst unat_cast_u8) simp_all
    ultimately obtain cs where cs: "extends ?len (be_pos ?start ?len) ?plan cs (packing_plan_make start_bit bit_length order is_signed)"
      "covers cs 0 ?len" "length cs \<le> (?len + (7 - ?start mod 8) + 7) div 8"
      using build_be_ok [of "ucast bit_length" ?len "ucast (start_bit mod 8)" ?start "start_bit div 8" ?plan]
        len start assms Big_endian_order
      by (auto simp: packing_plan_make_def split: if_splits)
    have "(?len + (7 - ?start mod 8) + 7) div 8 < 10"
      using assms by (intro less_mult_imp_div_less) simp
    with cs show ?thesis using Big_endian_order by (auto simp: signal_pos_simps)
  qed
  then obtain cs where cs: "extends ?len (signal_pos order ?start ?len) ?plan cs (packing_plan_make start_bit bit_length order is_signed)"
    "covers cs 0 ?len" "length cs \<le> 9" by blast
  then show ?thesis
    using fold_max_ge(2) [of _ cs 0] len by (auto simp: plan_for_def extends_def max_chunks_def Suc_le_eq)
qed

subsection \<open>Reading and writing bits\<close>

definition pbit :: "byte list \<Rightarrow> nat \<times> nat \<Rightarrow> bool" where
  "pbit payload p = bit (payload ! fst p) (snd p)"

lemma bit_chunk_mask: "k \<le> 8 \<Longrightarrow> bit (ucast (push_bit k (1 :: u32) - 1) :: u8) n \<longleftrightarrow> n < k"
proof -
  assume "k \<le> 8"
  have "push_bit k (1 :: u32) - 1 = mask k" by (simp add: mask_eq_exp_minus_1 push_bit_eq_mult)
  then show ?thesis using \<open>k \<le> 8\<close> by (auto simp: bit_unsigned_iff bit_mask_iff)
qed

lemma chunk_read:
  assumes "chunk_ok len pos c" and "len \<le> 64"
  shows "bit (push_bit (unat (pc_dest_shift c))
      (drop_bit (unat (pc_lsb c)) (ucast (payload ! unat (pc_byte c)) :: u64) AND ucast (pc_mask c))) j
    \<longleftrightarrow> in_chunk c j \<and> pbit payload (pos j)"
proof -
  let ?d = "unat (pc_dest_shift c)" and ?l = "unat (pc_lsb c)" and ?n = "unat (pc_num_bits c)"
  have c: "?l + ?n \<le> 8" "?d + ?n \<le> 64" and pos: "\<And>k. k < ?n \<Longrightarrow> pos (?d + k) = (unat (pc_byte c), ?l + k)"
    using assms by (auto simp: chunk_ok_def)
  have m: "bit (pc_mask c) k \<longleftrightarrow> k < ?n" for k
    using assms(1) c(1) bit_chunk_mask [of ?n k] by (simp add: chunk_ok_def)
  have "bit (push_bit ?d (drop_bit ?l (ucast (payload ! unat (pc_byte c)) :: u64) AND ucast (pc_mask c))) j \<longleftrightarrow>
      ?d \<le> j \<and> j < 64 \<and> ?l + (j - ?d) < 64 \<and> bit (payload ! unat (pc_byte c)) (?l + (j - ?d)) \<and> j - ?d < ?n"
    by (auto simp: bit_push_bit_iff bit_and_iff bit_drop_bit_eq bit_unsigned_iff m)
  also have "\<dots> \<longleftrightarrow> in_chunk c j \<and> pbit payload (pos j)"
    using c pos [of "j - ?d"] by (auto simp: in_chunk_def pbit_def)
  finally show ?thesis .
qed

lemma extract_chunks_bit:
  assumes "len \<le> 64"
  shows "\<forall>c \<in> set cs. chunk_ok len pos c \<Longrightarrow>
    bit (extract_chunks cs payload v) j \<longleftrightarrow> bit v j \<or> (\<exists>c \<in> set cs. in_chunk c j) \<and> pbit payload (pos j)"
proof (induction cs arbitrary: v)
  case (Cons c cs)
  have "chunk_ok len pos c" using Cons.prems by simp
  note r = chunk_read [OF this assms, of payload j]
  have "\<forall>c \<in> set cs. chunk_ok len pos c" using Cons.prems by simp
  from Cons.IH [OF this] r show ?case by (auto simp: Let_def bit_or_iff)
qed simp

lemma plan_extract_bit:
  assumes "plan_for len pos plan" and "len \<le> 64"
  shows "bit (plan_extract plan payload) j \<longleftrightarrow> j < len \<and> pbit payload (pos j)"
proof -
  have "bit (plan_extract plan payload) j \<longleftrightarrow> (\<exists>c \<in> set (pp_chunks plan). in_chunk c j) \<and> pbit payload (pos j)"
    using assms(1) extract_chunks_bit [OF assms(2), of "pp_chunks plan" pos payload 0 j]
    by (simp add: plan_extract_def plan_for_def)
  also have "\<dots> \<longleftrightarrow> j < len \<and> pbit payload (pos j)" using assms(1) by (simp add: plan_for_def covers_def)
  finally show ?thesis .
qed

text \<open>One chunk written: the byte after it.\<close>

definition chunk_byte :: "plan_chunk \<Rightarrow> u64 \<Rightarrow> byte \<Rightarrow> byte" where
  "chunk_byte c raw old =
     ucast ((ucast old AND NOT (push_bit (unat (pc_lsb c)) (ucast (pc_mask c) :: u32))) OR
       push_bit (unat (pc_lsb c)) (ucast (drop_bit (unat (pc_dest_shift c)) raw) AND ucast (pc_mask c)))"

lemma insert_chunks_Cons:
  "insert_chunks (c # cs) raw payload =
     insert_chunks cs raw (payload[unat (pc_byte c) := chunk_byte c raw (payload ! unat (pc_byte c))])"
  by (simp add: chunk_byte_def Let_def)

lemma chunk_byte_bit:
  assumes "chunk_ok len pos c" and "i < 8"
  shows "bit (chunk_byte c raw old) i \<longleftrightarrow>
    (if unat (pc_lsb c) \<le> i \<and> i < unat (pc_lsb c) + unat (pc_num_bits c)
     then bit raw (unat (pc_dest_shift c) + (i - unat (pc_lsb c))) else bit old i)"
proof -
  let ?l = "unat (pc_lsb c)" and ?n = "unat (pc_num_bits c)"
  have c: "?l + ?n \<le> 8" using assms by (simp add: chunk_ok_def)
  have m: "bit (pc_mask c) k \<longleftrightarrow> k < ?n" for k
    using assms(1) c bit_chunk_mask [of ?n k] by (simp add: chunk_ok_def)
  show ?thesis
    unfolding chunk_byte_def using c assms(2)
    by (auto simp: bit_push_bit_iff bit_and_iff bit_or_iff bit_not_iff bit_drop_bit_eq bit_unsigned_iff m)
qed

lemma chunk_write:
  fixes raw :: u64
  assumes ok: "chunk_ok len pos c" and byte: "unat (pc_byte c) < length payload"
    and inj: "inj_on pos {..<len}"
  defines "payload' \<equiv> payload[unat (pc_byte c) := chunk_byte c raw (payload ! unat (pc_byte c))]"
  shows "in_chunk c j \<Longrightarrow> pbit payload' (pos j) \<longleftrightarrow> bit raw j"
    and "i < 8 \<Longrightarrow> \<forall>j. in_chunk c j \<longrightarrow> pos j \<noteq> (b, i) \<Longrightarrow> pbit payload' (b, i) = pbit payload (b, i)"
proof -
  let ?d = "unat (pc_dest_shift c)" and ?l = "unat (pc_lsb c)" and ?n = "unat (pc_num_bits c)"
  have c: "?l + ?n \<le> 8" and pos: "\<And>k. k < ?n \<Longrightarrow> pos (?d + k) = (unat (pc_byte c), ?l + k)"
    using ok by (auto simp: chunk_ok_def)
  show "pbit payload' (pos j) \<longleftrightarrow> bit raw j" if "in_chunk c j"
  proof -
    have "\<exists>k. j = ?d + k \<and> k < ?n" using that by (intro exI [of _ "j - ?d"]) (auto simp: in_chunk_def)
    then obtain k where k: "j = ?d + k" "k < ?n" by blast
    then have "pos j = (unat (pc_byte c), ?l + k)" using pos by simp
    then show ?thesis
      using byte c k chunk_byte_bit [OF ok, of "?l + k" raw] by (simp add: pbit_def payload'_def)
  qed
  show "pbit payload' (b, i) = pbit payload (b, i)" if i: "i < 8" and miss: "\<forall>j. in_chunk c j \<longrightarrow> pos j \<noteq> (b, i)"
  proof (cases "b = unat (pc_byte c)")
    case True
    have "\<not> (?l \<le> i \<and> i < ?l + ?n)"
    proof
      assume "?l \<le> i \<and> i < ?l + ?n"
      then have "in_chunk c (?d + (i - ?l))" "pos (?d + (i - ?l)) = (b, i)"
        using pos [of "i - ?l"] True by (auto simp: in_chunk_def)
      with miss show False by blast
    qed
    then show ?thesis using True byte chunk_byte_bit [OF ok i, of raw] by (auto simp: pbit_def payload'_def)
  qed (simp add: pbit_def payload'_def)
qed

lemma length_insert_chunks [simp]: "length (insert_chunks cs raw payload) = length payload"
  by (induction cs arbitrary: payload) (simp_all add: Let_def)

lemma insert_chunks_bit:
  assumes inj: "inj_on pos {..<len}"
  shows "\<forall>c \<in> set cs. chunk_ok len pos c \<and> unat (pc_byte c) < length payload \<Longrightarrow>
    (\<forall>j. (\<exists>c \<in> set cs. in_chunk c j) \<longrightarrow> pbit (insert_chunks cs raw payload) (pos j) = bit raw j) \<and>
    (\<forall>b i. i < 8 \<longrightarrow> (\<forall>j. (\<exists>c \<in> set cs. in_chunk c j) \<longrightarrow> pos j \<noteq> (b, i)) \<longrightarrow>
       pbit (insert_chunks cs raw payload) (b, i) = pbit payload (b, i))"
proof (induction cs arbitrary: payload)
  case (Cons c cs)
  let ?p = "payload[unat (pc_byte c) := chunk_byte c raw (payload ! unat (pc_byte c))]"
  have ok: "chunk_ok len pos c" and byte: "unat (pc_byte c) < length payload" using Cons.prems by auto
  have "\<forall>c \<in> set cs. chunk_ok len pos c \<and> unat (pc_byte c) < length ?p" using Cons.prems by simp
  from Cons.IH [OF this]
  have IH: "\<And>j. \<exists>c \<in> set cs. in_chunk c j \<Longrightarrow> pbit (insert_chunks cs raw ?p) (pos j) = bit raw j"
    "\<And>b i. i < 8 \<Longrightarrow> \<forall>j. (\<exists>c \<in> set cs. in_chunk c j) \<longrightarrow> pos j \<noteq> (b, i) \<Longrightarrow>
       pbit (insert_chunks cs raw ?p) (b, i) = pbit ?p (b, i)" by blast+
  note w = chunk_write [OF ok byte inj, where raw = raw]
  have "pbit (insert_chunks cs raw ?p) (pos j) = bit raw j" if j: "in_chunk c j" for j
  proof (cases "\<exists>c \<in> set cs. in_chunk c j")
    case True
    then show ?thesis by (rule IH(1))
  next
    case False
    have lt: "i < len" if "in_chunk c' i" "c' \<in> set (c # cs)" for c' i
      using that Cons.prems by (auto simp: in_chunk_def chunk_ok_def)
    have "pos i \<noteq> pos j" if "\<exists>c \<in> set cs. in_chunk c i" for i
      using that False j lt inj_onD [OF inj, of i j] by (metis lessThan_iff list.set_intros)
    moreover have "snd (pos j) < 8"
    proof -
      have "\<exists>k. j = unat (pc_dest_shift c) + k \<and> k < unat (pc_num_bits c)"
        using j by (intro exI [of _ "j - unat (pc_dest_shift c)"]) (auto simp: in_chunk_def)
      then obtain k where k: "j = unat (pc_dest_shift c) + k" "k < unat (pc_num_bits c)" by blast
      then show ?thesis using ok by (simp add: chunk_ok_def)
    qed
    ultimately have "pbit (insert_chunks cs raw ?p) (pos j) = pbit ?p (pos j)"
      using IH(2) [of "snd (pos j)" "fst (pos j)"] by simp
    with w(1) [OF j] show ?thesis by simp
  qed
  moreover have "pbit (insert_chunks cs raw ?p) (b, i) = pbit payload (b, i)"
    if "i < 8" "\<forall>j. (\<exists>c \<in> set (c # cs). in_chunk c j) \<longrightarrow> pos j \<noteq> (b, i)" for b i
  proof -
    have miss: "\<forall>j. in_chunk c j \<longrightarrow> pos j \<noteq> (b, i)"
      "\<forall>j. (\<exists>c \<in> set cs. in_chunk c j) \<longrightarrow> pos j \<noteq> (b, i)" using that(2) by auto
    show ?thesis using IH(2) [OF that(1) miss(2)] w(2) [OF that(1) miss(1)] by simp
  qed
  ultimately show ?case unfolding insert_chunks_Cons using IH(1) by auto
qed simp

subsection \<open>Signed values\<close>

lemma low_mask_eq: "n \<le> 64 \<Longrightarrow> low_mask n = mask n"
proof (cases "n = 64")
  case True
  then show ?thesis by (simp add: low_mask_def mask_eq_exp_minus_1)
next
  case False
  assume "n \<le> 64"
  with False show ?thesis by (simp add: low_mask_def mask_eq_exp_minus_1 push_bit_eq_mult)
qed

lemma low_mask_bit: "n \<le> 64 \<Longrightarrow> bit (low_mask n) j \<longleftrightarrow> j < n"
  by (auto simp: low_mask_eq bit_mask_iff)

text \<open>The low bits of a signed number, extended again.\<close>

lemma sint_small:
  "- (2 ^ 63) \<le> v \<Longrightarrow> v < 2 ^ 63 \<Longrightarrow> sint (of_int v :: u64) = v"
  by (simp add: signed_of_int signed_take_bit_int_eq_self)

lemma masked_int: "n \<le> 64 \<Longrightarrow> of_int v AND low_mask n = (of_int (take_bit n v) :: u64)"
  by (auto simp: bit_eq_iff bit_and_iff low_mask_bit bit_of_int_iff bit_take_bit_iff)

lemma sign_extend_ok:
  assumes "1 \<le> n" and "n \<le> 64" and "- (2 ^ (n - 1)) \<le> v" and "v < 2 ^ (n - 1)"
  shows "sign_extend (of_int v AND low_mask n) n = v"
proof (cases "n = 64")
  case True
  then show ?thesis using assms(3,4) sint_small [of v] by (simp add: sign_extend_def low_mask_def)
next
  case False
  define m where "m = n - 1"
  have n: "n = Suc m" "m < 63" using assms(1,2) False by (auto simp: m_def)
  have v: "- (2 ^ m) \<le> v" "v < 2 ^ m" using assms(3,4) by (simp_all add: m_def)
  let ?w = "of_int (take_bit n v) :: u64"
  define s where "s = (push_bit m 1 :: u64)"
  have s: "s = of_int (2 ^ m)" by (simp add: s_def push_bit_eq_mult)
  have bit_w: "bit ?w j \<longleftrightarrow> j < n \<and> bit v j" for j using n by (auto simp: bit_of_int_iff bit_take_bit_iff)
  have bit_s: "bit s j \<longleftrightarrow> j = m" for j using n by (auto simp: s_def bit_exp_iff)
  have "(?w XOR s) - s = of_int v"
  proof (cases "0 \<le> v")
    case True
    then have t: "take_bit n v = v" using v(2) n by (intro take_bit_int_eq_self) simp_all
    have "\<not> bit v m" using True v(2) by (metis bit_take_bit_iff less_irrefl take_bit_int_eq_self)
    then have "?w AND s = 0" by (intro bit_eqI) (auto simp: bit_and_iff bit_w bit_s)
    then have "?w XOR s = ?w + s" by (simp add: disjunctive_add_eq_xor)
    then show ?thesis by (simp add: t)
  next
    case False
    then have "0 \<le> v + 2 ^ n" "v + 2 ^ n < 2 ^ n" using v n by simp_all
    then have t: "take_bit n v = v + 2 ^ n" by (metis mod_add_self2 mod_pos_pos_trivial take_bit_eq_mod)
    have "take_bit n v = 2 ^ m + (v + 2 ^ m)" "0 \<le> v + 2 ^ m" "v + 2 ^ m < 2 ^ m" using t n v False by simp_all
    then have "bit (take_bit n v) m"
      by (metis bit_iff_odd_drop_bit div_add_self1 div_pos_pos_trivial drop_bit_eq_div even_plus_one_iff
          even_zero power_eq_0_iff zero_neq_numeral add_0 add.commute)
    then have "bit v m" by (simp add: bit_take_bit_iff)
    then have "bit ?w m" using bit_w [of m] n(1) by simp
    then have "NOT ?w AND s = 0" by (intro bit_eqI) (auto simp: bit_and_iff bit_not_iff bit_s)
    then have "?w XOR s = ?w - s" by (simp add: disjunctive_diff_eq_xor disjunctive_diff_eq_and_not)
    then have "(?w XOR s) - s = of_int (v + 2 ^ n - 2 ^ m - 2 ^ m)" by (simp only: t s of_int_diff)
    also have "v + 2 ^ n - 2 ^ m - 2 ^ m = v" unfolding n(1) by simp
    finally show ?thesis .
  qed
  moreover have "- (2 ^ 63) \<le> v \<and> v < 2 ^ 63"
    using v n(2) power_increasing [of m 63 "2 :: int"] by linarith
  moreover have "sign_extend (of_int v AND low_mask n) n = sint ((?w XOR s) - s)"
    using n assms(2) by (simp add: sign_extend_def masked_int Let_def s_def)
  ultimately show ?thesis using sint_small [of v] by simp
qed

subsection \<open>Properties\<close>

lemma signal_pos_inj_on: "inj_on (signal_pos order start len) {..<len}"
  by (rule inj_onI) (auto dest: signal_pos_inj)

lemma plan_fits:
  "ucast (fr_length f) < pp_required_length plan \<longleftrightarrow> unat (fr_length f) < unat (pp_required_length plan)"
  by (simp add: word_less_nat_alt)

lemma plan_insert_bit:
  assumes plan: "plan_for len (signal_pos order start len) plan"
    and room: "unat (pp_required_length plan) \<le> length payload"
  shows "j < len \<Longrightarrow> pbit (plan_insert plan raw payload) (signal_pos order start len j) = bit raw j"
    and "i < 8 \<Longrightarrow> \<forall>j < len. signal_pos order start len j \<noteq> (b, i) \<Longrightarrow>
      pbit (plan_insert plan raw payload) (b, i) = pbit payload (b, i)"
proof -
  have "\<forall>c \<in> set (pp_chunks plan). chunk_ok len (signal_pos order start len) c \<and> unat (pc_byte c) < length payload"
    using plan room by (fastforce simp: plan_for_def)
  note w = insert_chunks_bit [OF signal_pos_inj_on this, of raw]
  have cov: "(\<exists>c \<in> set (pp_chunks plan). in_chunk c j) \<longleftrightarrow> j < len" for j
    using plan by (simp add: plan_for_def covers_def)
  show "j < len \<Longrightarrow> pbit (plan_insert plan raw payload) (signal_pos order start len j) = bit raw j"
    using w cov by (simp add: plan_insert_def)
  show "i < 8 \<Longrightarrow> \<forall>j < len. signal_pos order start len j \<noteq> (b, i) \<Longrightarrow>
      pbit (plan_insert plan raw payload) (b, i) = pbit payload (b, i)"
    using w cov by (simp add: plan_insert_def)
qed



text \<open>A signed value that fits the signal's bits is what reading the bits and extending the sign gives.\<close>

lemma signed_signal_write_read:
  assumes "frame_wf f" and "1 \<le> unat bit_length" and "unat bit_length \<le> 64"
    and "unat (pp_required_length (packing_plan_make start_bit bit_length order True)) \<le> unat (fr_length f)"
    and "- (2 ^ (unat bit_length - 1)) \<le> v" and "v < 2 ^ (unat bit_length - 1)"
  shows "\<exists>f' raw. write_bits (packing_plan_make start_bit bit_length order True) f (of_int v) = Inr f' \<and>
    read_bits (packing_plan_make start_bit bit_length order True) f' = Inr raw \<and>
    sign_extend raw (unat bit_length) = v"
proof -
  let ?plan = "packing_plan_make start_bit bit_length order True"
  have plan: "plan_for (unat bit_length) (signal_pos order (unat start_bit) (unat bit_length)) ?plan"
    using plan_for_make assms(2,3) .
  let ?p = "plan_insert ?plan (of_int v AND mask (unat bit_length)) (frame_payload f)"
  have len: "length ?p = unat (fr_length f)" using assms(1) by (simp add: plan_insert_def)
  have "plan_extract ?plan ?p = of_int v AND mask (unat bit_length)"
    using plan_extract_bit [OF plan assms(3), of ?p]
      plan_insert_bit(1) [OF plan, of "frame_payload f", where raw = "of_int v AND mask (unat bit_length)"] assms(1,4)
    by (intro bit_eqI) (auto simp: bit_and_iff bit_mask_iff)
  moreover have "write_bits ?plan f (of_int v) = Inr (frame_store f ?p)"
    using assms(3,4) plan by (simp add: write_bits_def plan_fits plan_for_def low_mask_eq)
  ultimately show ?thesis
    using sign_extend_ok [OF assms(2,3,5,6)] assms(1,3,4) len
    by (intro exI [of _ "frame_store f ?p"]) (simp add: read_bits_def plan_fits low_mask_eq)
qed

end
