(* ===== verification/Base_N.thy ===== *)
theory Base_N
  imports Frame_Codec
begin

text \<open>
  Hexadecimal, Base32 and Base64 in the one engine of \<open>algorithm/encoding/base_n.hpp\<close>, over the
  symbol tables of \<open>algorithm/encoding/alphabet.hpp\<close>. A \<open>char\<close> is its byte; the template argument
  \<open>Spec\<close> is an argument of the functions. The inner loop of the encoder and its padding loop end
  only because a symbol holds at least one bit, so they are partial functions. The abstract view is
  the stream of bits of the bytes, most significant first.
\<close>

subsection \<open>The code: alphabets\<close>

definition chars_of :: "string \<Rightarrow> byte list" where
  "chars_of s = map of_char s"

record codec_alphabet =
  ca_chars :: "byte list"
  ca_reverse :: "int list"

fun alphabet_fill :: "nat \<Rightarrow> byte list \<Rightarrow> int list \<Rightarrow> int list" where
  "alphabet_fill i [] r = r"
| "alphabet_fill i (c # cs) r = alphabet_fill (Suc i) cs (r[unat c := sint (of_nat i :: 8 word)])"

definition codec_alphabet_make :: "byte list \<Rightarrow> codec_alphabet" where
  "codec_alphabet_make literal =
     \<lparr>ca_chars = literal, ca_reverse = alphabet_fill 0 literal (replicate 256 (- 1))\<rparr>"

definition alphabet_encode :: "codec_alphabet \<Rightarrow> nat \<Rightarrow> byte" where
  "alphabet_encode a idx = ca_chars a ! idx"

definition alphabet_decode :: "codec_alphabet \<Rightarrow> byte \<Rightarrow> int" where
  "alphabet_decode a c = ca_reverse a ! unat c"

fun distinct_from :: "byte list \<Rightarrow> bool list \<Rightarrow> bool" where
  "distinct_from [] seen = True"
| "distinct_from (c # cs) seen =
     (if seen ! unat c then False else distinct_from cs (seen[unat c := True]))"

definition alphabet_is_distinct :: "codec_alphabet \<Rightarrow> bool" where
  "alphabet_is_distinct a = distinct_from (ca_chars a) (replicate 256 False)"

subsection \<open>The code: the engine\<close>

record base_n_spec =
  bn_alphabet :: codec_alphabet
  bn_padded :: bool
  bn_pad :: byte
  bn_case_insensitive :: bool

definition bn_symbols :: "base_n_spec \<Rightarrow> nat" where
  "bn_symbols sp = length (ca_chars (bn_alphabet sp))"

definition bn_bits :: "base_n_spec \<Rightarrow> nat" where
  "bn_bits sp = bit_width (bn_symbols sp) - 1"

definition bn_group_in :: "base_n_spec \<Rightarrow> nat" where
  "bn_group_in sp = lcm 8 (bn_bits sp) div 8"

definition bn_group_out :: "base_n_spec \<Rightarrow> nat" where
  "bn_group_out sp = lcm 8 (bn_bits sp) div bn_bits sp"

definition base_n_encoded_size :: "base_n_spec \<Rightarrow> nat \<Rightarrow> nat" where
  "base_n_encoded_size sp n_bytes =
     (let gin = bn_group_in sp; gout = bn_group_out sp
      in if bn_padded sp then ((n_bytes + gin - 1) div gin) * gout
         else let full = n_bytes div gin;
                  tail_bytes = n_bytes mod gin;
                  tail_syms = (tail_bytes * 8 + bn_bits sp - 1) div bn_bits sp
              in full * gout + tail_syms)"

definition base_n_decoded_max_size :: "base_n_spec \<Rightarrow> nat \<Rightarrow> nat" where
  "base_n_decoded_max_size sp n_chars = (n_chars * bn_bits sp) div 8 + 1"

text \<open>The inner loop: symbols are written while the accumulator holds enough bits.\<close>

partial_function (option) emit_symbols ::
  "base_n_spec \<Rightarrow> u32 \<Rightarrow> nat \<Rightarrow> nat \<Rightarrow> byte list \<Rightarrow> (nat \<times> nat \<times> byte list) option" where
  "emit_symbols sp acc nbits n out =
     (if bn_bits sp \<le> nbits then
        let nbits = nbits - bn_bits sp;
            mask = push_bit (bn_bits sp) 1 - 1
        in emit_symbols sp acc nbits (n + 1)
             (out[n := alphabet_encode (bn_alphabet sp) (unat (drop_bit nbits acc AND mask))])
      else Some (nbits, n, out))"

fun encode_bytes ::
  "base_n_spec \<Rightarrow> byte list \<Rightarrow> u32 \<Rightarrow> nat \<Rightarrow> nat \<Rightarrow> byte list \<Rightarrow> (u32 \<times> nat \<times> nat \<times> byte list) option" where
  "encode_bytes sp [] acc nbits n out = Some (acc, nbits, n, out)"
| "encode_bytes sp (b # bs) acc nbits n out =
     (let acc = push_bit 8 acc OR ucast b
      in case emit_symbols sp acc (nbits + 8) n out of
           None \<Rightarrow> None
         | Some (nbits, n, out) \<Rightarrow> encode_bytes sp bs (acc AND (push_bit nbits 1 - 1)) nbits n out)"

partial_function (option) pad_group ::
  "base_n_spec \<Rightarrow> nat \<Rightarrow> byte list \<Rightarrow> (nat \<times> byte list) option" where
  "pad_group sp n out =
     (if n mod bn_group_out sp \<noteq> 0 then pad_group sp (n + 1) (out[n := bn_pad sp]) else Some (n, out))"

declare emit_symbols.simps [code] pad_group.simps [code]

definition base_n_encode ::
  "base_n_spec \<Rightarrow> byte list \<Rightarrow> byte list \<Rightarrow> ((codec_error + nat) \<times> byte list) option" where
  "base_n_encode sp inp out =
     (if length out < base_n_encoded_size sp (length inp) then Some (Inl Codec_buffer_too_small, out)
      else
        case encode_bytes sp inp 0 0 0 out of
          None \<Rightarrow> None
        | Some (acc, nbits, n, out) \<Rightarrow>
            let (n, out) =
                  (if nbits > 0 then
                     (n + 1, out[n := alphabet_encode (bn_alphabet sp)
                        (unat (push_bit (bn_bits sp - nbits) acc AND (push_bit (bn_bits sp) 1 - 1)))])
                   else (n, out))
            in if bn_padded sp then
                 case pad_group sp n out of None \<Rightarrow> None | Some (n, out) \<Rightarrow> Some (Inr n, out)
               else Some (Inr n, out))"

definition fold_case :: "base_n_spec \<Rightarrow> byte \<Rightarrow> byte" where
  "fold_case sp raw =
     (if bn_case_insensitive sp \<and> 0x61 \<le> raw \<and> raw \<le> 0x7A then raw - 0x61 + 0x41 else raw)"

definition is_space :: "byte \<Rightarrow> bool" where
  "is_space ch \<longleftrightarrow> ch = 0x20 \<or> ch = 0x09 \<or> ch = 0x0D \<or> ch = 0x0A"

text \<open>The loop over the characters and the two checks behind it.\<close>

primrec decode_chars ::
  "base_n_spec \<Rightarrow> byte list \<Rightarrow> u32 \<Rightarrow> nat \<Rightarrow> nat \<Rightarrow> bool \<Rightarrow> byte list \<Rightarrow> (codec_error + nat) \<times> byte list" where
  "decode_chars sp [] acc nbits n saw_pad out =
     (if bn_bits sp \<le> nbits then (Inl Codec_incomplete_input, out)
      else if nbits > 0 \<and> acc AND (push_bit nbits 1 - 1) \<noteq> 0 then (Inl Codec_invalid_input, out)
      else (Inr n, out))"
| "decode_chars sp (raw # rest) acc nbits n saw_pad out =
     (let ch = fold_case sp raw
      in if is_space ch then decode_chars sp rest acc nbits n saw_pad out
         else if bn_padded sp \<and> ch = bn_pad sp then decode_chars sp rest acc nbits n True out
         else if saw_pad then (Inl Codec_invalid_input, out)
         else
           let v = alphabet_decode (bn_alphabet sp) ch
           in if v < 0 then (Inl Codec_invalid_input, out)
              else
                let acc = push_bit (bn_bits sp) acc OR of_int v;
                    nbits = nbits + bn_bits sp
                in if 8 \<le> nbits then
                     let nbits = nbits - 8
                     in if length out \<le> n then (Inl Codec_buffer_too_small, out)
                        else decode_chars sp rest (acc AND (push_bit nbits 1 - 1)) nbits (n + 1) saw_pad
                               (out[n := ucast (drop_bit nbits acc AND 0xFF)])
                   else decode_chars sp rest acc nbits n saw_pad out)"

declare decode_chars.simps [simp del]

definition base_n_decode ::
  "base_n_spec \<Rightarrow> byte list \<Rightarrow> byte list \<Rightarrow> (codec_error + nat) \<times> byte list" where
  "base_n_decode sp inp out = decode_chars sp inp 0 0 0 False out"

subsection \<open>The code: the standard codecs\<close>

definition base16_lower_spec :: base_n_spec where
  "base16_lower_spec = \<lparr>bn_alphabet = codec_alphabet_make (chars_of ''0123456789abcdef''),
     bn_padded = False, bn_pad = of_char CHR ''='', bn_case_insensitive = True\<rparr>"

definition base16_upper_spec :: base_n_spec where
  "base16_upper_spec = \<lparr>bn_alphabet = codec_alphabet_make (chars_of ''0123456789ABCDEF''),
     bn_padded = False, bn_pad = of_char CHR ''='', bn_case_insensitive = True\<rparr>"

definition base32_std_spec :: base_n_spec where
  "base32_std_spec = \<lparr>bn_alphabet = codec_alphabet_make (chars_of ''ABCDEFGHIJKLMNOPQRSTUVWXYZ234567''),
     bn_padded = True, bn_pad = of_char CHR ''='', bn_case_insensitive = True\<rparr>"

definition base32_hex_spec :: base_n_spec where
  "base32_hex_spec = \<lparr>bn_alphabet = codec_alphabet_make (chars_of ''0123456789ABCDEFGHIJKLMNOPQRSTUV''),
     bn_padded = True, bn_pad = of_char CHR ''='', bn_case_insensitive = True\<rparr>"

definition base64_std_spec :: base_n_spec where
  "base64_std_spec = \<lparr>bn_alphabet = codec_alphabet_make
       (chars_of ''ABCDEFGHIJKLMNOPQRSTUVWXYZabcdefghijklmnopqrstuvwxyz0123456789+/''),
     bn_padded = True, bn_pad = of_char CHR ''='', bn_case_insensitive = False\<rparr>"

definition base64_url_spec :: base_n_spec where
  "base64_url_spec = \<lparr>bn_alphabet = codec_alphabet_make
       (chars_of ''ABCDEFGHIJKLMNOPQRSTUVWXYZabcdefghijklmnopqrstuvwxyz0123456789-_''),
     bn_padded = False, bn_pad = of_char CHR ''='', bn_case_insensitive = False\<rparr>"

definition base64_url_decode_spec :: base_n_spec where
  "base64_url_decode_spec = \<lparr>bn_alphabet = codec_alphabet_make
       (chars_of ''ABCDEFGHIJKLMNOPQRSTUVWXYZabcdefghijklmnopqrstuvwxyz0123456789-_''),
     bn_padded = True, bn_pad = of_char CHR ''='', bn_case_insensitive = False\<rparr>"

text \<open>The overloads that return a \<open>std::string\<close> or a \<open>std::vector\<close> size the buffer themselves.\<close>

definition owned_string :: "((codec_error + nat) \<times> byte list) option \<Rightarrow> byte list option" where
  "owned_string r =
     map_option (\<lambda>(r, out). resize_list (case r of Inl e \<Rightarrow> 0 | Inr n \<Rightarrow> n) 0 out) r"

definition owned_bytes :: "(codec_error + nat) \<times> byte list \<Rightarrow> codec_error + byte list" where
  "owned_bytes r = (case r of (Inl e, out) \<Rightarrow> Inl e | (Inr n, out) \<Rightarrow> Inr (resize_list n 0 out))"

definition hex_encoded_size :: "nat \<Rightarrow> nat" where
  "hex_encoded_size n_bytes = base_n_encoded_size base16_lower_spec n_bytes"

definition hex_encode ::
  "byte list \<Rightarrow> byte list \<Rightarrow> bool \<Rightarrow> ((codec_error + nat) \<times> byte list) option" where
  "hex_encode inp out uppercase =
     (if uppercase then base_n_encode base16_upper_spec inp out else base_n_encode base16_lower_spec inp out)"

definition hex_encode_string :: "byte list \<Rightarrow> bool \<Rightarrow> byte list option" where
  "hex_encode_string inp uppercase =
     owned_string (hex_encode inp (replicate (hex_encoded_size (length inp)) 0) uppercase)"

definition hex_decode :: "byte list \<Rightarrow> byte list \<Rightarrow> (codec_error + nat) \<times> byte list" where
  "hex_decode inp out = base_n_decode base16_upper_spec inp out"

definition hex_decode_bytes :: "byte list \<Rightarrow> codec_error + byte list" where
  "hex_decode_bytes inp =
     owned_bytes (hex_decode inp (replicate (base_n_decoded_max_size base16_upper_spec (length inp)) 0))"

definition base32_encoded_size :: "nat \<Rightarrow> nat" where
  "base32_encoded_size n_bytes = base_n_encoded_size base32_std_spec n_bytes"

definition base32_decoded_max_size :: "nat \<Rightarrow> nat" where
  "base32_decoded_max_size n_chars = base_n_decoded_max_size base32_std_spec n_chars"

definition base32_encode :: "byte list \<Rightarrow> byte list \<Rightarrow> ((codec_error + nat) \<times> byte list) option" where
  "base32_encode inp out = base_n_encode base32_std_spec inp out"

definition base32_encode_string :: "byte list \<Rightarrow> byte list option" where
  "base32_encode_string inp = owned_string (base32_encode inp (replicate (base32_encoded_size (length inp)) 0))"

definition base32_decode :: "byte list \<Rightarrow> byte list \<Rightarrow> (codec_error + nat) \<times> byte list" where
  "base32_decode inp out = base_n_decode base32_std_spec inp out"

definition base32_decode_bytes :: "byte list \<Rightarrow> codec_error + byte list" where
  "base32_decode_bytes inp = owned_bytes (base32_decode inp (replicate (base32_decoded_max_size (length inp)) 0))"

definition base32hex_encode :: "byte list \<Rightarrow> byte list \<Rightarrow> ((codec_error + nat) \<times> byte list) option" where
  "base32hex_encode inp out = base_n_encode base32_hex_spec inp out"

definition base32hex_encode_string :: "byte list \<Rightarrow> byte list option" where
  "base32hex_encode_string inp =
     owned_string (base32hex_encode inp (replicate (base32_encoded_size (length inp)) 0))"

definition base32hex_decode :: "byte list \<Rightarrow> byte list \<Rightarrow> (codec_error + nat) \<times> byte list" where
  "base32hex_decode inp out = base_n_decode base32_hex_spec inp out"

definition base32hex_decode_bytes :: "byte list \<Rightarrow> codec_error + byte list" where
  "base32hex_decode_bytes inp =
     owned_bytes (base32hex_decode inp (replicate (base32_decoded_max_size (length inp)) 0))"

definition base64_encoded_size :: "nat \<Rightarrow> nat" where
  "base64_encoded_size n_bytes = base_n_encoded_size base64_std_spec n_bytes"

definition base64url_encoded_size :: "nat \<Rightarrow> nat" where
  "base64url_encoded_size n_bytes = base_n_encoded_size base64_url_spec n_bytes"

definition base64_decoded_max_size :: "nat \<Rightarrow> nat" where
  "base64_decoded_max_size n_chars = base_n_decoded_max_size base64_std_spec n_chars"

definition base64_encode :: "byte list \<Rightarrow> byte list \<Rightarrow> ((codec_error + nat) \<times> byte list) option" where
  "base64_encode inp out = base_n_encode base64_std_spec inp out"

definition base64_encode_string :: "byte list \<Rightarrow> byte list option" where
  "base64_encode_string inp = owned_string (base64_encode inp (replicate (base64_encoded_size (length inp)) 0))"

definition base64url_encode :: "byte list \<Rightarrow> byte list \<Rightarrow> ((codec_error + nat) \<times> byte list) option" where
  "base64url_encode inp out = base_n_encode base64_url_spec inp out"

definition base64url_encode_string :: "byte list \<Rightarrow> byte list option" where
  "base64url_encode_string inp =
     owned_string (base64url_encode inp (replicate (base64url_encoded_size (length inp)) 0))"

definition base64_decode :: "byte list \<Rightarrow> byte list \<Rightarrow> (codec_error + nat) \<times> byte list" where
  "base64_decode inp out = base_n_decode base64_std_spec inp out"

definition base64_decode_bytes :: "byte list \<Rightarrow> codec_error + byte list" where
  "base64_decode_bytes inp = owned_bytes (base64_decode inp (replicate (base64_decoded_max_size (length inp)) 0))"

definition base64url_decode :: "byte list \<Rightarrow> byte list \<Rightarrow> (codec_error + nat) \<times> byte list" where
  "base64url_decode inp out = base_n_decode base64_url_decode_spec inp out"

definition base64url_decode_bytes :: "byte list \<Rightarrow> codec_error + byte list" where
  "base64url_decode_bytes inp =
     owned_bytes (base64url_decode inp (replicate (base64_decoded_max_size (length inp)) 0))"

subsection \<open>Streams of bits\<close>

definition low_bits :: "nat \<Rightarrow> 'a::len word \<Rightarrow> bool list" where
  "low_bits m w = map (bit w) (rev [0..<m])"

lemma length_low_bits [simp]: "length (low_bits m w) = m"
  by (simp add: low_bits_def)

lemma low_bits_0 [simp]: "low_bits 0 w = []"
  by (simp add: low_bits_def)

lemma low_bits_add: "low_bits (i + j) w = low_bits i (drop_bit j w) @ low_bits j w"
proof -
  have "map (bit w) [j..<i + j] = map (bit (drop_bit j w)) [0..<i]"
    by (rule nth_equalityI) (auto simp: bit_drop_bit_eq)
  moreover have "[0..<i + j] = [0..<j] @ [j..<i + j]"
    using upt_add_eq_append [of 0 j i] by (simp add: add.commute)
  ultimately show ?thesis by (simp add: low_bits_def flip: rev_map)
qed

lemma low_bits_eq_iff: "low_bits m v = low_bits m w \<longleftrightarrow> (\<forall>i < m. bit v i = bit w i)"
  by (auto simp: low_bits_def)

lemma low_bits_cong: "(\<And>i. i < m \<Longrightarrow> bit v i = bit w i) \<Longrightarrow> low_bits m v = low_bits m w"
  by (simp add: low_bits_eq_iff)

lemma low_bits_zero: "low_bits m 0 = replicate m False"
  by (intro nth_equalityI) (simp_all add: low_bits_def rev_nth)

lemma low_bits_low: "low_bits m (v :: 'a::len word) = replicate m False \<longleftrightarrow> (\<forall>i < m. \<not> bit v i)"
  unfolding low_bits_zero [symmetric, where ?'a = 'a] low_bits_eq_iff by simp

text \<open>One byte or symbol shifted into an accumulator.\<close>

lemma low_bits_push:
  fixes acc :: u32
  assumes "m + k \<le> 32" and "\<And>i. k \<le> i \<Longrightarrow> \<not> bit v i"
  shows "low_bits (m + k) (push_bit k acc OR v) = low_bits m acc @ low_bits k v"
proof -
  have "low_bits m (drop_bit k (push_bit k acc OR v)) = low_bits m acc"
    using assms by (intro low_bits_cong) (auto simp: bit_drop_bit_eq bit_or_iff bit_push_bit_iff)
  moreover have "low_bits k (push_bit k acc OR v) = low_bits k v"
    by (intro low_bits_cong) (auto simp: bit_or_iff bit_push_bit_iff)
  ultimately show ?thesis by (simp add: low_bits_add)
qed

lemma low_bits_byte: "low_bits 8 (ucast b :: u32) = low_bits 8 b" for b :: byte
  by (intro nth_equalityI) (auto simp: low_bits_def rev_nth bit_ucast_iff)

lemma byte_bit_high: "8 \<le> i \<Longrightarrow> \<not> bit (ucast b :: u32) i" for b :: byte
  using bit_imp_le_length [of b i] by (auto simp: bit_ucast_iff)

lemma low_bits_byte_inj: "low_bits 8 v = low_bits 8 w \<Longrightarrow> v = w" for v w :: byte
  by (intro bit_eqI) (simp add: low_bits_eq_iff)

text \<open>Values written one behind the other into a buffer.\<close>

definition put :: "nat \<Rightarrow> 'a list \<Rightarrow> 'a list \<Rightarrow> 'a list" where
  "put n xs out = take n out @ xs @ drop (n + length xs) out"

lemma put_Nil [simp]: "put n [] out = out"
  by (simp add: put_def)

lemma length_put [simp]: "n + length xs \<le> length out \<Longrightarrow> length (put n xs out) = length out"
  by (simp add: put_def)

lemma put_Cons: "n < length out \<Longrightarrow> put (Suc n) xs (out[n := x]) = put n (x # xs) out"
  by (simp add: put_def)

lemma put_1: "n < length out \<Longrightarrow> out[n := x] = put n [x] out"
  by (simp add: put_def upd_conv_take_nth_drop)

lemma put_put: "n + length xs + length ys \<le> length out \<Longrightarrow>
    put (n + length xs) ys (put n xs out) = put n (xs @ ys) out"
  by (simp add: put_def ac_simps)

lemma take_put: "n + length xs \<le> length out \<Longrightarrow> take (n + length xs) (put n xs out) = take n out @ xs"
  by (simp add: put_def)

subsection \<open>The encoder\<close>

abbreviation sym_mask :: "nat \<Rightarrow> u32" where
  "sym_mask k \<equiv> push_bit k 1 - 1"

lemma bit_sym_mask: "bit (sym_mask k) i \<longleftrightarrow> i < k \<and> i < 32"
  using bit_mask_iff [where ?'a = u32, of k i] by (auto simp: mask_eq_exp_minus_1 push_bit_of_1)

lemma byte_mask_bit: "i < 8 \<Longrightarrow> bit (0xFF :: u32) i"
  using bit_sym_mask [of 8 i] by simp

definition is_symbol :: "nat \<Rightarrow> u32 \<Rightarrow> bool" where
  "is_symbol k v \<longleftrightarrow> (\<forall>i \<ge> k. \<not> bit v i)"

definition char_of_symbol :: "base_n_spec \<Rightarrow> u32 \<Rightarrow> byte" where
  "char_of_symbol sp v = alphabet_encode (bn_alphabet sp) (unat v)"

lemma append_steps: "a @ b = s @ l \<Longrightarrow> l @ c = s' @ r \<Longrightarrow> a @ b @ c = (s @ s') @ r"
  by (metis append.assoc)

lemma room_left: "0 < k \<Longrightarrow> a + k * n \<le> k * m \<Longrightarrow> n \<le> m" for k a n m :: nat
  by (metis add_leD2 mult_le_cancel1)

lemma emit_symbols_ok:
  assumes "0 < bn_bits sp" and "bn_bits sp \<le> 8" and "nbits + bn_bits sp * n \<le> bn_bits sp * length out"
  shows "\<exists>nbits' syms. emit_symbols sp acc nbits n out = Some (nbits', n + length syms, put n (map (char_of_symbol sp) syms) out) \<and>
    nbits' < bn_bits sp \<and> n + length syms \<le> length out \<and> list_all (is_symbol (bn_bits sp)) syms \<and>
    low_bits nbits acc = concat (map (low_bits (bn_bits sp)) syms) @ low_bits nbits' acc"
  using assms
proof (induction nbits arbitrary: n out rule: less_induct)
  case (less nbits)
  let ?k = "bn_bits sp"
  show ?case
  proof (cases "?k \<le> nbits")
    case True
    define r where "r = nbits - ?k"
    define v where "v = drop_bit r acc AND sym_mask ?k"
    have nbits: "nbits = ?k + r" and r: "r < nbits" using True less.prems(1) by (simp_all add: r_def)
    have "?k * n < ?k * length out" using less.prems nbits by linarith
    then have n: "n < length out" by simp
    let ?out = "out[n := char_of_symbol sp v]"
    have "r + ?k * Suc n \<le> ?k * length ?out" using less.prems(3) nbits by simp
    from less.IH [OF r less.prems(1,2) this] obtain nbits' syms where
      IH: "emit_symbols sp acc r (Suc n) ?out = Some (nbits', Suc n + length syms, put (Suc n) (map (char_of_symbol sp) syms) ?out)"
        "nbits' < ?k" "Suc n + length syms \<le> length out" "list_all (is_symbol ?k) syms"
        "low_bits r acc = concat (map (low_bits ?k) syms) @ low_bits nbits' acc" by auto
    have "emit_symbols sp acc nbits n out = emit_symbols sp acc r (Suc n) ?out"
      using True by (subst emit_symbols.simps) (simp add: Let_def r_def v_def char_of_symbol_def)
    moreover have "is_symbol ?k v" by (simp add: is_symbol_def v_def bit_and_iff bit_sym_mask del: push_bit_of_1)
    moreover have "low_bits ?k v = low_bits ?k (drop_bit r acc)"
      using less.prems(2) by (intro low_bits_cong) (auto simp: v_def bit_and_iff bit_sym_mask simp del: push_bit_of_1)
    ultimately show ?thesis
      using IH n by (intro exI [of _ nbits'] exI [of _ "v # syms"]) (simp add: nbits low_bits_add put_Cons)
  next
    case False
    then show ?thesis
      using less.prems room_left [OF less.prems(1,3)]
      by (intro exI [of _ nbits] exI [of _ "[]"]) (simp add: emit_symbols.simps [of sp acc nbits])
  qed
qed

lemma encode_bytes_ok:
  assumes "0 < bn_bits sp" and "bn_bits sp \<le> 8" and "nbits < bn_bits sp"
    and "nbits + 8 * length bs + bn_bits sp * n \<le> bn_bits sp * length out"
  shows "\<exists>acc' nbits' syms. encode_bytes sp bs acc nbits n out =
      Some (acc', nbits', n + length syms, put n (map (char_of_symbol sp) syms) out) \<and>
    nbits' < bn_bits sp \<and> n + length syms \<le> length out \<and> list_all (is_symbol (bn_bits sp)) syms \<and>
    low_bits nbits acc @ concat (map (low_bits 8) bs) =
      concat (map (low_bits (bn_bits sp)) syms) @ low_bits nbits' acc'"
  using assms
proof (induction bs arbitrary: acc nbits n out)
  case Nil
  then have "n \<le> length out" using room_left [of "bn_bits sp" nbits n "length out"] by simp
  with Nil show ?case by (intro exI [of _ acc] exI [of _ nbits] exI [of _ "[]"]) simp
next
  case (Cons b bs)
  let ?k = "bn_bits sp" and ?acc = "push_bit 8 acc OR ucast b"
  have "nbits + 8 + ?k * n \<le> ?k * length out" using Cons.prems(4) by simp
  from emit_symbols_ok [OF Cons.prems(1,2) this, of ?acc] obtain nb syms where
    e: "emit_symbols sp ?acc (nbits + 8) n out = Some (nb, n + length syms, put n (map (char_of_symbol sp) syms) out)"
      "nb < ?k" "n + length syms \<le> length out" "list_all (is_symbol ?k) syms"
      "low_bits (nbits + 8) ?acc = concat (map (low_bits ?k) syms) @ low_bits nb ?acc" by blast
  let ?acc' = "?acc AND sym_mask nb" and ?out = "put n (map (char_of_symbol sp) syms) out"
  have in_acc: "low_bits (nbits + 8) ?acc = low_bits nbits acc @ low_bits 8 b"
    using low_bits_push [of nbits 8 "ucast b" acc] Cons.prems(2,3) by (simp add: low_bits_byte byte_bit_high)
  have "length (concat (map (low_bits ?k) syms)) = ?k * length syms" by (induction syms) simp_all
  with arg_cong [OF e(5), of length] have "nbits + 8 = ?k * length syms + nb" by simp
  with Cons.prems(4) e(3) have "nb + 8 * length bs + ?k * (n + length syms) \<le> ?k * length ?out"
    by (simp add: distrib_left)
  from Cons.IH [OF Cons.prems(1,2) e(2) this, of ?acc'] obtain acc' nbits' syms' where
    IH: "encode_bytes sp bs ?acc' nb (n + length syms) ?out =
        Some (acc', nbits', n + length syms + length syms', put (n + length syms) (map (char_of_symbol sp) syms') ?out)"
      "nbits' < ?k" "n + length syms + length syms' \<le> length ?out" "list_all (is_symbol ?k) syms'"
      "low_bits nb ?acc' @ concat (map (low_bits 8) bs) = concat (map (low_bits ?k) syms') @ low_bits nbits' acc'"
    by blast
  have "low_bits nb ?acc' = low_bits nb ?acc"
    using e(2) Cons.prems(2) by (intro low_bits_cong) (auto simp: bit_and_iff bit_sym_mask simp del: push_bit_of_1)
  with append_steps [OF e(5) [unfolded in_acc] IH(5) [unfolded this]]
  have "low_bits nbits acc @ concat (map (low_bits 8) (b # bs)) =
      concat (map (low_bits ?k) (syms @ syms')) @ low_bits nbits' acc'" by simp
  moreover have "put (n + length syms) (map (char_of_symbol sp) syms') ?out = put n (map (char_of_symbol sp) (syms @ syms')) out"
    using put_put [of n "map (char_of_symbol sp) syms" "map (char_of_symbol sp) syms'" out] IH(3) e(3) by simp
  ultimately show ?case
    using IH e by (intro exI [of _ acc'] exI [of _ nbits'] exI [of _ "syms @ syms'"]) (simp add: Let_def add.assoc del: push_bit_of_1)
qed

lemma pad_group_ok:
  assumes "j < bn_group_out sp" and "(n + j) mod bn_group_out sp = 0" and "n + j \<le> length out"
  shows "pad_group sp n out = Some (n + j, put n (replicate j (bn_pad sp)) out)"
  using assms
proof (induction j arbitrary: n out)
  case 0
  then show ?case by (subst pad_group.simps) simp
next
  case (Suc j)
  have "n mod bn_group_out sp \<noteq> 0"
  proof
    assume "n mod bn_group_out sp = 0"
    with Suc.prems(2) have "Suc j mod bn_group_out sp = 0" by (metis add.commute add_0 mod_add_cong mod_mod_trivial mod_0)
    with Suc.prems(1) show False by simp
  qed
  with Suc.IH [of "Suc n" "out[n := bn_pad sp]"] Suc.prems show ?case
    by (subst pad_group.simps) (simp add: put_Cons)
qed

subsubsection \<open>The size of the encoded text\<close>

lemma group_sizes:
  assumes "0 < bn_bits sp"
  shows "8 * bn_group_in sp = bn_bits sp * bn_group_out sp" and "0 < bn_group_in sp" and "0 < bn_group_out sp"
proof -
  show eq: "8 * bn_group_in sp = bn_bits sp * bn_group_out sp"
    by (simp add: bn_group_in_def bn_group_out_def)
  have "0 < lcm 8 (bn_bits sp)" using assms by (simp add: lcm_pos_nat)
  then have "0 < 8 * bn_group_in sp" by (simp add: bn_group_in_def)
  then show "0 < bn_group_in sp" by simp
  with eq assms show "0 < bn_group_out sp" by (metis gr0I mult_is_0 zero_neq_numeral less_irrefl)
qed

lemma unpadded_size:
  assumes "0 < bn_bits sp" and "\<not> bn_padded sp" and "bn_bits sp * m = 8 * N + z" and "z < bn_bits sp"
  shows "base_n_encoded_size sp N = m"
proof -
  let ?k = "bn_bits sp" and ?g = "bn_group_in sp"
  note g = group_sizes [OF assms(1)]
  have "8 * N = 8 * ?g * (N div ?g) + N mod ?g * 8"
    using mult_div_mod_eq [of ?g N] by (metis add_mult_distrib2 mult.assoc mult.commute)
  moreover have blocks: "8 * ?g * (N div ?g) = ?k * (N div ?g * bn_group_out sp)"
    using g(1) by (simp add: ac_simps)
  ultimately have "8 * N + (?k - 1) = (N mod ?g * 8 + (?k - 1)) + ?k * (N div ?g * bn_group_out sp)"
    using assms(1) blocks by linarith
  then have "(8 * N + (?k - 1)) div ?k = (N mod ?g * 8 + (?k - 1)) div ?k + N div ?g * bn_group_out sp"
    using div_mult_self2 [of ?k "N mod ?g * 8 + (?k - 1)" "N div ?g * bn_group_out sp"] assms(1) by simp
  moreover have "(8 * N + (?k - 1)) div ?k = m"
    using assms by (intro div_nat_eqI) (simp_all add: mult.commute)
  ultimately show ?thesis using assms(1,2) by (simp add: base_n_encoded_size_def Let_def)
qed

lemma round_up_to: "0 < h \<Longrightarrow> \<exists>q. m \<le> q * h \<and> q * h < m + h" for h m :: nat
proof (intro exI [of _ "(m + (h - 1)) div h"] conjI)
  assume h: "0 < h"
  have "m + (h - 1) = (m + (h - 1)) div h * h + (m + (h - 1)) mod h" by simp
  moreover have "(m + (h - 1)) mod h < h" using h by simp
  ultimately show "m \<le> (m + (h - 1)) div h * h" "(m + (h - 1)) div h * h < m + h" using h by linarith+
qed

lemma padded_size:
  assumes "0 < bn_bits sp" and "bn_padded sp" and "bn_bits sp * m = 8 * N + z" and "z < bn_bits sp"
  obtains j where "base_n_encoded_size sp N = m + j" and "j < bn_group_out sp" and "(m + j) mod bn_group_out sp = 0"
proof -
  let ?k = "bn_bits sp" and ?g = "bn_group_in sp" and ?h = "bn_group_out sp"
  note g = group_sizes [OF assms(1)]
  obtain q where q: "m \<le> q * ?h" "q * ?h < m + ?h" using round_up_to g(3) by blast
  have k: "8 * (?g * q) = ?k * (q * ?h)" using g(1) by (metis mult.assoc mult.commute)
  have "?k * m \<le> ?k * (q * ?h)" using q(1) by simp
  then have lo: "N \<le> ?g * q" using assms(3) k by linarith
  have "?k * (q * ?h) \<le> ?k * (m + ?h - 1)" using q(2) by (intro mult_le_mono2) linarith
  also have "\<dots> = ?k * m + ?k * ?h - ?k" using g(3) by (simp add: diff_mult_distrib2 distrib_left)
  also have "\<dots> < 8 * N + 8 * ?g" using assms g by simp
  finally have hi: "?g * q < N + ?g" using k by linarith
  have "(N + ?g - 1) div ?g = q"
    using lo hi g(2) by (intro div_nat_eqI) (simp_all add: mult.commute)
  then have "base_n_encoded_size sp N = q * ?h" using assms(2) by (simp add: base_n_encoded_size_def Let_def)
  with that [of "q * ?h - m"] q show ?thesis by auto
qed

lemma length_concat_low [simp]: "length (concat (map (low_bits k) xs)) = k * length xs"
  by (induction xs) simp_all

lemma concat_low_inj_on:
  assumes "inj_on (low_bits k) A" and "set vs \<subseteq> A" and "set ws \<subseteq> A"
    and "concat (map (low_bits k) vs) = concat (map (low_bits k) ws)" and "length vs = length ws"
  shows "vs = ws"
  using assms(5,2,3,4)
proof (induction vs ws rule: list_induct2)
  case (Cons v vs w ws)
  from Cons.prems have "low_bits k v = low_bits k w" by (simp add: append_eq_append_conv)
  moreover from Cons.prems have "v \<in> A" "w \<in> A" by simp_all
  ultimately have "v = w" using assms(1) by (blast dest: inj_onD)
  with Cons show ?case by simp
qed simp

lemma last_symbol:
  fixes acc :: u32
  assumes "0 < nbits" and "nbits < k" and "k \<le> 8"
  defines "v \<equiv> push_bit (k - nbits) acc AND sym_mask k"
  shows "low_bits k v = low_bits nbits acc @ replicate (k - nbits) False" and "is_symbol k v"
proof -
  have "low_bits k v = low_bits (nbits + (k - nbits)) (push_bit (k - nbits) acc OR 0)"
    using assms(2,3) unfolding v_def le_add_diff_inverse [OF less_imp_le [OF assms(2)]]
    by (intro low_bits_cong) (auto simp: bit_and_iff bit_sym_mask simp del: push_bit_of_1)
  also have "\<dots> = low_bits nbits acc @ low_bits (k - nbits) (0 :: u32)"
    using assms(2,3) by (intro low_bits_push) simp_all
  finally show "low_bits k v = low_bits nbits acc @ replicate (k - nbits) False"
    by (simp add: low_bits_zero)
  show "is_symbol k v" by (simp add: is_symbol_def v_def bit_and_iff bit_sym_mask del: push_bit_of_1)
qed

lemma encoded_size_room:
  assumes "0 < bn_bits sp"
  shows "8 * N \<le> bn_bits sp * base_n_encoded_size sp N"
proof -
  obtain q where q: "8 * N \<le> q * bn_bits sp" "q * bn_bits sp < 8 * N + bn_bits sp"
    using round_up_to [OF assms] by blast
  then have z: "bn_bits sp * q = 8 * N + (q * bn_bits sp - 8 * N)" "q * bn_bits sp - 8 * N < bn_bits sp"
    by (simp_all add: mult.commute)
  have "q \<le> base_n_encoded_size sp N"
  proof (cases "bn_padded sp")
    case True
    from padded_size [OF assms True z] show ?thesis by (metis le_add1)
  next
    case False
    from unpadded_size [OF assms False z] show ?thesis by simp
  qed
  then have "bn_bits sp * q \<le> bn_bits sp * base_n_encoded_size sp N" by simp
  with q(1) show ?thesis by (metis le_trans mult.commute)
qed

lemma base_n_encode_ok:
  assumes "0 < bn_bits sp" and "bn_bits sp \<le> 8" and "base_n_encoded_size sp (length bs) \<le> length out"
  obtains syms z j where
    "base_n_encode sp bs out = Some (Inr (length syms + j), put 0 (map (char_of_symbol sp) syms @ replicate j (bn_pad sp)) out)"
    and "base_n_encoded_size sp (length bs) = length syms + j" and "\<not> bn_padded sp \<Longrightarrow> j = 0"
    and "list_all (is_symbol (bn_bits sp)) syms" and "z < bn_bits sp"
    and "concat (map (low_bits (bn_bits sp)) syms) = concat (map (low_bits 8) bs) @ replicate z False"
proof -
  let ?k = "bn_bits sp" and ?N = "base_n_encoded_size sp (length bs)"
  have "?k * ?N \<le> ?k * length out" using assms(3) by simp
  with encoded_size_room [OF assms(1), of "length bs"]
  have "0 + 8 * length bs + ?k * 0 \<le> ?k * length out" by linarith
  from encode_bytes_ok [OF assms(1,2,1) this, of 0] obtain acc nb syms0 where
    e: "encode_bytes sp bs 0 0 0 out = Some (acc, nb, length syms0, put 0 (map (char_of_symbol sp) syms0) out)"
      "nb < ?k" "list_all (is_symbol ?k) syms0"
      "concat (map (low_bits 8) bs) = concat (map (low_bits ?k) syms0) @ low_bits nb acc" by auto
  define v where "v = push_bit (?k - nb) acc AND sym_mask ?k"
  define syms where "syms = syms0 @ (if nb > 0 then [v] else [])"
  define z where "z = (if nb > 0 then ?k - nb else 0)"
  have z: "z < ?k" using assms(1) e(2) by (simp add: z_def)
  have bits: "concat (map (low_bits ?k) syms) = concat (map (low_bits 8) bs) @ replicate z False"
    using last_symbol(1) [OF _ e(2) assms(2), of acc] e(4) by (simp add: syms_def z_def v_def)
  have ok: "list_all (is_symbol ?k) syms"
    using last_symbol(2) [OF _ e(2) assms(2), of acc] e(3) by (simp add: syms_def v_def)
  from arg_cong [OF bits, of length] have len: "?k * length syms = 8 * length bs + z" by simp
  obtain j where j: "?N = length syms + j" "bn_padded sp \<Longrightarrow> j < bn_group_out sp \<and> (length syms + j) mod bn_group_out sp = 0"
    "\<not> bn_padded sp \<Longrightarrow> j = 0"
  proof (cases "bn_padded sp")
    case True
    from padded_size [OF assms(1) this len z] that show ?thesis by (metis True)
  next
    case False
    from that [of 0] unpadded_size [OF assms(1) this len z] False show ?thesis by simp
  qed
  let ?syms = "map (char_of_symbol sp) syms"
  have room: "length syms + j \<le> length out" using j(1) assms(3) by simp
  then have s: "nb > 0 \<Longrightarrow> length syms = Suc (length syms0) \<and>
      (put 0 (map (char_of_symbol sp) syms0) out)[length syms0 := char_of_symbol sp v] = put 0 ?syms out"
      "nb = 0 \<Longrightarrow> syms = syms0"
    using put_put [of 0 "map (char_of_symbol sp) syms0" "[char_of_symbol sp v]" out]
    by (simp_all add: syms_def put_1 split: if_splits)
  have "base_n_encode sp bs out =
      (if bn_padded sp then case pad_group sp (length syms) (put 0 ?syms out) of None \<Rightarrow> None | Some (n, out) \<Rightarrow> Some (Inr n, out)
       else Some (Inr (length syms), put 0 ?syms out))"
    using assms(3) e(1) s
    by (cases "nb > 0") (simp_all add: base_n_encode_def Let_def v_def char_of_symbol_def [of sp "_ AND _"] not_less del: push_bit_of_1)
  also have "\<dots> = Some (Inr (length syms + j), put 0 (?syms @ replicate j (bn_pad sp)) out)"
    using j pad_group_ok [of j sp "length syms" "put 0 ?syms out"] put_put [of 0 ?syms "replicate j (bn_pad sp)" out] room
    by (cases "bn_padded sp") simp_all
  finally show ?thesis using that j(1,3) ok z bits by blast
qed

subsection \<open>The decoder\<close>

definition clean :: "base_n_spec \<Rightarrow> byte list \<Rightarrow> byte list" where
  "clean sp s = filter (\<lambda>c. \<not> is_space c) (map (fold_case sp) s)"

abbreviation no_pad :: "base_n_spec \<Rightarrow> byte list \<Rightarrow> byte list" where
  "no_pad sp cs \<equiv> filter (\<lambda>c. \<not> (bn_padded sp \<and> c = bn_pad sp)) cs"

text \<open>The symbols of a text: padding only at the end, every other character in the alphabet.\<close>

fun symbols_of :: "base_n_spec \<Rightarrow> bool \<Rightarrow> byte list \<Rightarrow> u32 list option" where
  "symbols_of sp saw_pad [] = Some []"
| "symbols_of sp saw_pad (c # cs) =
     (if bn_padded sp \<and> c = bn_pad sp then symbols_of sp True cs
      else if saw_pad \<or> alphabet_decode (bn_alphabet sp) c < 0 then None
      else map_option (\<lambda>vs. of_int (alphabet_decode (bn_alphabet sp) c) # vs) (symbols_of sp saw_pad cs))"

definition received :: "u32 \<Rightarrow> nat \<Rightarrow> nat \<Rightarrow> byte list \<Rightarrow> bool list \<Rightarrow> bool" where
  "received acc nbits n out bits \<longleftrightarrow> nbits < 8 \<and> n \<le> length out \<and>
     bits = concat (map (low_bits 8) (take n out)) @ low_bits nbits acc"

lemma received_length: "received acc nbits n out bits \<Longrightarrow> length bits = 8 * n + nbits"
  by (simp add: received_def)

definition decodable :: "base_n_spec \<Rightarrow> bool" where
  "decodable sp \<longleftrightarrow> 0 < bn_bits sp \<and> bn_bits sp \<le> 8 \<and>
     (\<forall>c. 0 \<le> alphabet_decode (bn_alphabet sp) c \<longrightarrow> is_symbol (bn_bits sp) (of_int (alphabet_decode (bn_alphabet sp) c)))"

lemma received_step:
  fixes acc :: u32
  assumes "received acc nbits n out bits" and "is_symbol k v" and "k \<le> 8"
  defines "acc' \<equiv> push_bit k acc OR v"
  shows "nbits + k < 8 \<Longrightarrow> received acc' (nbits + k) n out (bits @ low_bits k v)"
    and "8 \<le> nbits + k \<Longrightarrow> n < length out \<Longrightarrow>
      received (acc' AND sym_mask (nbits + k - 8)) (nbits + k - 8) (n + 1)
        (out[n := ucast (drop_bit (nbits + k - 8) acc' AND 0xFF)]) (bits @ low_bits k v)"
proof -
  have push: "low_bits (nbits + k) acc' = low_bits nbits acc @ low_bits k v"
    using assms by (simp add: acc'_def low_bits_push received_def is_symbol_def)
  then show "received acc' (nbits + k) n out (bits @ low_bits k v)" if "nbits + k < 8"
    using that assms(1) by (simp add: received_def)
  assume room: "8 \<le> nbits + k" "n < length out"
  define r where "r = nbits + k - 8"
  have "nbits < 8" using assms(1) by (simp add: received_def)
  then have r: "nbits + k = 8 + r" "r < 8" using room(1) assms(3) unfolding r_def by linarith+
  have "low_bits 8 (ucast (drop_bit r acc' AND 0xFF) :: byte) = low_bits 8 (drop_bit r acc')"
    using byte_mask_bit by (intro low_bits_cong) (simp add: bit_ucast_iff bit_and_iff)
  moreover have "low_bits r (acc' AND sym_mask r) = low_bits r acc'"
    using r(2) by (intro low_bits_cong) (auto simp: bit_and_iff bit_sym_mask simp del: push_bit_of_1)
  ultimately show "received (acc' AND sym_mask (nbits + k - 8)) (nbits + k - 8) (n + 1)
      (out[n := ucast (drop_bit (nbits + k - 8) acc' AND 0xFF)]) (bits @ low_bits k v)"
    using push room(2) assms(1) r unfolding r_def [symmetric]
    by (simp add: received_def low_bits_add del: push_bit_of_1)
qed

lemma received_end:
  assumes "received acc nbits n out bits"
  shows "decode_chars sp [] acc nbits n saw out =
    (let q = length bits div 8; r = length bits mod 8
     in if bn_bits sp \<le> r then (Inl Codec_incomplete_input, out)
        else if drop (8 * q) bits \<noteq> replicate r False then (Inl Codec_invalid_input, out)
        else (Inr q, out))"
proof -
  have nbits: "nbits < 8" using assms by (simp add: received_def)
  have len: "length bits = 8 * n + nbits" using assms by (rule received_length)
  have "drop (8 * n) bits = low_bits nbits acc" using assms by (simp add: received_def min_def)
  moreover have "acc AND sym_mask nbits = 0 \<longleftrightarrow> (\<forall>i < nbits. \<not> bit acc i)"
    using nbits by (auto simp: word_bits_eq bit_and_iff bit_sym_mask simp del: push_bit_of_1)
  ultimately show ?thesis
    using nbits len by (auto simp: decode_chars.simps Let_def low_bits_low simp del: push_bit_of_1)
qed

lemma symbols_of_length: "symbols_of sp saw cs = Some vs \<Longrightarrow> length (no_pad sp cs) = length vs"
  by (induction sp saw cs arbitrary: vs rule: symbols_of.induct) (auto split: if_splits)

text \<open>With room in the buffer, the loop reads the symbols of the text or refuses it.\<close>

lemma decode_chars_symbols:
  assumes "decodable sp" and "received acc nbits n out bits"
    and "length bits + bn_bits sp * length (no_pad sp (clean sp s)) < 8 * length out + 8"
  shows "case symbols_of sp saw (clean sp s) of
      None \<Rightarrow> fst (decode_chars sp s acc nbits n saw out) = Inl Codec_invalid_input
    | Some vs \<Rightarrow> \<exists>acc' nbits' n' out' saw'. decode_chars sp s acc nbits n saw out = decode_chars sp [] acc' nbits' n' saw' out' \<and>
        received acc' nbits' n' out' (bits @ concat (map (low_bits (bn_bits sp)) vs)) \<and>
        length out' = length out \<and> drop n' out' = drop n' out"
  using assms(2,3)
proof (induction s arbitrary: acc nbits n out bits saw)
  case Nil
  then show ?case by (simp add: clean_def) blast
next
  case (Cons raw s)
  let ?k = "bn_bits sp" and ?al = "bn_alphabet sp"
  define c where "c = fold_case sp raw"
  have k: "0 < ?k" "?k \<le> 8" using assms(1) by (simp_all add: decodable_def)
  consider "is_space c" | "\<not> is_space c" "bn_padded sp \<and> c = bn_pad sp"
    | "\<not> is_space c" "\<not> (bn_padded sp \<and> c = bn_pad sp)" "saw \<or> alphabet_decode ?al c < 0"
    | "\<not> is_space c" "\<not> (bn_padded sp \<and> c = bn_pad sp)" "\<not> (saw \<or> alphabet_decode ?al c < 0)" by blast
  then show ?case
  proof cases
    case 1
    then have "clean sp (raw # s) = clean sp s" by (simp add: clean_def c_def)
    moreover have "decode_chars sp (raw # s) acc nbits n saw out = decode_chars sp s acc nbits n saw out"
      using 1 by (simp add: decode_chars.simps c_def Let_def)
    ultimately show ?thesis using Cons.IH [of acc nbits n out bits saw] Cons.prems by (simp split: option.splits)
  next
    case 2
    then have "clean sp (raw # s) = c # clean sp s" by (simp add: clean_def c_def)
    moreover have "decode_chars sp (raw # s) acc nbits n saw out = decode_chars sp s acc nbits n True out"
      using 2 by (simp add: decode_chars.simps c_def Let_def)
    ultimately show ?thesis using Cons.IH [of acc nbits n out bits True] Cons.prems 2(2) by (simp split: option.splits)
  next
    case 3
    then have "clean sp (raw # s) = c # clean sp s" by (simp add: clean_def c_def)
    with 3 show ?thesis by (auto simp: decode_chars.simps c_def Let_def)
  next
    case 4
    define v :: u32 where "v = of_int (alphabet_decode ?al c)"
    have v: "is_symbol ?k v" using assms(1) 4(3) by (simp add: decodable_def v_def)
    have cl: "clean sp (raw # s) = c # clean sp s" using 4 by (simp add: clean_def c_def)
    let ?acc = "push_bit ?k acc OR v" and ?bits = "bits @ low_bits ?k v"
    have room: "length ?bits + ?k * length (no_pad sp (clean sp s)) < 8 * length out + 8"
      using Cons.prems(2) 4(2) by (simp add: cl)
    have step: "\<exists>acc1 nb1 n1 out1. decode_chars sp (raw # s) acc nbits n saw out = decode_chars sp s acc1 nb1 n1 saw out1 \<and>
        received acc1 nb1 n1 out1 ?bits \<and> length out1 = length out \<and> drop n1 out1 = drop n1 out"
    proof (cases "nbits + ?k < 8")
      case True
      have "decode_chars sp (raw # s) acc nbits n saw out = decode_chars sp s ?acc (nbits + ?k) n saw out"
        using True 4 by (auto simp: decode_chars.simps c_def v_def Let_def)
      with received_step(1) [OF Cons.prems(1) v k(2) True] show ?thesis by blast
    next
      case False
      with room received_length [OF Cons.prems(1)] have n: "n < length out" by simp
      let ?r = "nbits + ?k - 8"
      have "decode_chars sp (raw # s) acc nbits n saw out =
          decode_chars sp s (?acc AND sym_mask ?r) ?r (n + 1) saw (out[n := ucast (drop_bit ?r ?acc AND 0xFF)])"
        using False 4 n by (auto simp: decode_chars.simps c_def v_def Let_def simp del: push_bit_of_1)
      moreover have "8 \<le> nbits + ?k" using False by simp
      note received_step(2) [OF Cons.prems(1) v k(2) this n]
      ultimately show ?thesis using n by (metis drop_Suc_update Suc_eq_plus1 length_list_update)
    qed
    then obtain acc1 nb1 n1 out1 where s1: "decode_chars sp (raw # s) acc nbits n saw out = decode_chars sp s acc1 nb1 n1 saw out1"
      "received acc1 nb1 n1 out1 ?bits" "length out1 = length out" "drop n1 out1 = drop n1 out" by blast
    from Cons.IH [OF s1(2), of saw, unfolded s1(3)] room
    have IH: "case symbols_of sp saw (clean sp s) of None \<Rightarrow> fst (decode_chars sp s acc1 nb1 n1 saw out1) = Inl Codec_invalid_input
      | Some vs \<Rightarrow> \<exists>acc' nbits' n' out' saw'. decode_chars sp s acc1 nb1 n1 saw out1 = decode_chars sp [] acc' nbits' n' saw' out' \<and>
        received acc' nbits' n' out' (?bits @ concat (map (low_bits ?k) vs)) \<and>
        length out' = length out \<and> drop n' out' = drop n' out1" .
    have eq: "symbols_of sp saw (clean sp (raw # s)) = map_option ((#) v) (symbols_of sp saw (clean sp s))"
      using 4(2,3) by (auto simp: cl v_def)
    show ?thesis
    proof (cases "symbols_of sp saw (clean sp s)")
      case None
      with IH s1(1) eq show ?thesis by simp
    next
      case (Some vs)
      with IH obtain acc' nbits' n' out' saw' where
        f: "decode_chars sp s acc1 nb1 n1 saw out1 = decode_chars sp [] acc' nbits' n' saw' out'"
          "received acc' nbits' n' out' (?bits @ concat (map (low_bits ?k) vs))"
          "length out' = length out" "drop n' out' = drop n' out1" by auto
      have "8 * n1 + nb1 = length ?bits" "length ?bits \<le> 8 * n' + nbits'"
        using received_length [OF s1(2)] received_length [OF f(2)] by simp_all
      moreover have "nb1 < 8" "nbits' < 8" using s1(2) f(2) by (simp_all add: received_def)
      ultimately have "n1 \<le> n'" by linarith
      then have "drop n' out' = drop n' out" using f(4) s1(4) by (metis drop_drop le_add_diff_inverse2)
      with f(1,2,3) s1(1) eq Some show ?thesis by (simp) blast
    qed
  qed
qed

subsection \<open>Both together\<close>

text \<open>The texts of an encoder that a decoder reads: the same width, and every character means its
index after case folding.\<close>

definition decodes :: "base_n_spec \<Rightarrow> base_n_spec \<Rightarrow> bool" where
  "decodes E D \<longleftrightarrow> bn_bits D = bn_bits E \<and> 0 < bn_bits E \<and> bn_bits E \<le> 8 \<and>
     (bn_padded E \<longrightarrow> bn_padded D \<and> bn_pad D = bn_pad E \<and> fold_case D (bn_pad E) = bn_pad E \<and> \<not> is_space (bn_pad E)) \<and>
     list_all (\<lambda>v. let c = fold_case D (alphabet_encode (bn_alphabet E) v)
        in \<not> is_space c \<and> \<not> (bn_padded D \<and> c = bn_pad D) \<and> alphabet_decode (bn_alphabet D) c = int v) [0..<2 ^ bn_bits E] \<and>
     list_all (\<lambda>v. v < 2 ^ bn_bits E) (ca_reverse (bn_alphabet D)) \<and> length (ca_reverse (bn_alphabet D)) = 256"

lemma is_symbol_less: "k \<le> 8 \<Longrightarrow> is_symbol k v \<longleftrightarrow> unat v < 2 ^ k"
proof -
  assume k: "k \<le> 8"
  have "is_symbol k v \<longleftrightarrow> take_bit k v = v" unfolding is_symbol_def word_bits_eq bit_take_bit_iff by (metis not_le)
  also have "\<dots> \<longleftrightarrow> take_bit k (unat v) = unat v"
    by (simp only: word_unat_eq_iff unsigned_take_bit_eq)
  also have "\<dots> \<longleftrightarrow> unat v < 2 ^ k" by (rule take_bit_nat_eq_self_iff)
  finally show ?thesis .
qed

lemma is_symbol_of_int: "k \<le> 8 \<Longrightarrow> 0 \<le> i \<Longrightarrow> i < 2 ^ k \<Longrightarrow> is_symbol k (of_int i)"
  and unat_of_symbol: "k \<le> 8 \<Longrightarrow> 0 \<le> i \<Longrightarrow> i < 2 ^ k \<Longrightarrow> unat (of_int i :: u32) = nat i"
proof -
  assume k: "k \<le> 8" and i: "0 \<le> i" "i < 2 ^ k"
  have "(2 :: int) ^ k \<le> 2 ^ 8" using k by (rule power_increasing) simp
  with i have "i < 2 ^ 32" by simp
  with i(1) show u: "unat (of_int i :: u32) = nat i" by (simp add: unsigned_of_int take_bit_int_eq_self)
  with k i show "is_symbol k (of_int i)" by (simp add: is_symbol_less nat_less_iff)
qed

lemma decodes_decodable: "decodes E D \<Longrightarrow> decodable D"
  unfolding decodable_def
proof (intro conjI allI impI)
  fix c assume D: "decodes E D" and c: "0 \<le> alphabet_decode (bn_alphabet D) c"
  then have "alphabet_decode (bn_alphabet D) c < 2 ^ bn_bits D"
    by (simp add: decodes_def list_all_length alphabet_decode_def)
  with c D show "is_symbol (bn_bits D) (of_int (alphabet_decode (bn_alphabet D) c))"
    by (intro is_symbol_of_int) (simp_all add: decodes_def)
qed (auto simp: decodes_def)

lemma decodes_char:
  assumes "decodes E D" and "is_symbol (bn_bits E) v"
  shows "\<not> is_space (fold_case D (char_of_symbol E v))"
    and "\<not> (bn_padded D \<and> fold_case D (char_of_symbol E v) = bn_pad D)"
    and "alphabet_decode (bn_alphabet D) (fold_case D (char_of_symbol E v)) = int (unat v)"
proof -
  have "unat v \<in> set [0..<2 ^ bn_bits E]" using assms by (simp add: decodes_def is_symbol_less)
  with assms(1) show "\<not> is_space (fold_case D (char_of_symbol E v))"
    and "\<not> (bn_padded D \<and> fold_case D (char_of_symbol E v) = bn_pad D)"
    and "alphabet_decode (bn_alphabet D) (fold_case D (char_of_symbol E v)) = int (unat v)"
    unfolding decodes_def char_of_symbol_def Let_def list_all_iff by blast+
qed

lemma clean_append [simp]: "clean sp (s @ t) = clean sp s @ clean sp t"
  by (simp add: clean_def)

lemma encoded_symbols:
  assumes "decodes E D" and "list_all (is_symbol (bn_bits E)) syms" and "\<not> bn_padded E \<Longrightarrow> j = 0"
  defines "chars \<equiv> clean D (map (char_of_symbol E) syms @ replicate j (bn_pad E))"
  shows "symbols_of D False chars = Some syms" and "length (no_pad D chars) = length syms"
proof -
  have pads: "symbols_of D saw (clean D (replicate j (bn_pad E))) = Some []" for saw
  proof (cases "bn_padded E")
    case True
    then have "bn_padded D" "bn_pad D = bn_pad E" "fold_case D (bn_pad E) = bn_pad E" "\<not> is_space (bn_pad E)"
      using assms(1) by (simp_all add: decodes_def)
    then show ?thesis by (induction j arbitrary: saw) (simp_all add: clean_def)
  qed (use assms(3) in \<open>simp add: clean_def\<close>)
  show 1: "symbols_of D False chars = Some syms"
    using assms(2) unfolding chars_def
  proof (induction syms)
    case Nil
    with pads show ?case by (simp add: clean_def)
  next
    case (Cons v syms)
    note c = decodes_char [OF assms(1), of v]
    from Cons show ?case using c by (auto simp: clean_def)
  qed
  then show "length (no_pad D chars) = length syms" by (rule symbols_of_length)
qed

lemma whole_bytes: "8 * a + z = 8 * b + r \<Longrightarrow> z < 8 \<Longrightarrow> r < 8 \<Longrightarrow> b = a \<and> r = z" for a b z r :: nat
  by presburger

lemma base_n_decode_encode:
  assumes "decodes E D" and "base_n_encoded_size E (length bs) \<le> length out" and "length bs \<le> length buf"
  shows "\<exists>out'. base_n_encode E bs out = Some (Inr (base_n_encoded_size E (length bs)), out') \<and> length out' = length out \<and>
    base_n_decode D (take (base_n_encoded_size E (length bs)) out') buf = (Inr (length bs), bs @ drop (length bs) buf)"
proof -
  let ?k = "bn_bits E"
  have k: "0 < ?k" "?k \<le> 8" "bn_bits D = ?k" using assms(1) by (simp_all add: decodes_def)
  obtain syms z j where e: "base_n_encode E bs out =
      Some (Inr (length syms + j), put 0 (map (char_of_symbol E) syms @ replicate j (bn_pad E)) out)"
    "base_n_encoded_size E (length bs) = length syms + j" "\<not> bn_padded E \<Longrightarrow> j = 0"
    "list_all (is_symbol ?k) syms" "z < ?k"
    "concat (map (low_bits ?k) syms) = concat (map (low_bits 8) bs) @ replicate z False"
    using base_n_encode_ok [OF k(1,2) assms(2)] by blast
  define chars where "chars = map (char_of_symbol E) syms @ replicate j (bn_pad E)"
  have take_chars: "take (length syms + j) (put 0 chars out) = chars"
    using take_put [of 0 chars out] e(2) assms(2) by (simp add: chars_def)
  note syms = encoded_symbols [OF assms(1) e(4,3), folded chars_def]
  from arg_cong [OF e(6), of length] have len: "?k * length syms = 8 * length bs + z" by simp
  have "received 0 0 0 buf []" by (simp add: received_def)
  from decode_chars_symbols [OF decodes_decodable [OF assms(1)] this, of chars False] syms len assms(3) e(5) k
  obtain acc nbits n buf' saw where
    d: "base_n_decode D chars buf = decode_chars D [] acc nbits n saw buf'"
      "received acc nbits n buf' (concat (map (low_bits 8) bs) @ replicate z False)"
      "length buf' = length buf" "drop n buf' = drop n buf"
    by (auto simp: base_n_decode_def e(6))
  have z: "z < 8" using e(5) k by simp
  have "8 * length bs + z = 8 * n + nbits" "nbits < 8"
    using received_length [OF d(2)] d(2) by (simp_all add: received_def)
  with whole_bytes [OF _ z] have n: "n = length bs" "nbits = z" by blast+
  have "take n buf' = bs"
  proof -
    have "concat (map (low_bits 8) (take n buf')) = concat (map (low_bits 8) bs)"
      using d(2,3) n assms(3) by (simp add: received_def append_eq_append_conv)
    then show ?thesis using n d(3) assms(3) by (intro concat_low_inj_on [of 8 UNIV]) (auto intro: inj_onI low_bits_byte_inj)
  qed
  then have "buf' = bs @ drop (length bs) buf" using d(4) n by (metis append_take_drop_id)
  moreover have "base_n_decode D chars buf = (Inr (length bs), buf')"
    using d(1) received_end [OF d(2), of D saw] z e(5) k(3) by (simp add: Let_def)
  ultimately show ?thesis
    using e(1,2) take_chars assms(2) by (intro exI [of _ "put 0 chars out"]) (simp add: chars_def)
qed

subsubsection \<open>Canonical text\<close>

text \<open>What the template parameter and the static assertions of the code ask of a specification.\<close>

definition bn_spec_ok :: "base_n_spec \<Rightarrow> bool" where
  "bn_spec_ok sp \<longleftrightarrow> bn_alphabet sp = codec_alphabet_make (ca_chars (bn_alphabet sp)) \<and>
     bn_symbols sp \<in> {2, 4, 8, 16, 32, 64} \<and> alphabet_is_distinct (bn_alphabet sp) \<and>
     (bn_padded sp \<longrightarrow> alphabet_decode (bn_alphabet sp) (bn_pad sp) < 0)"

lemma length_alphabet_fill [simp]: "length (alphabet_fill i cs r) = length r"
  by (induction i cs r rule: alphabet_fill.induct) simp_all

lemma alphabet_fill_nth:
  assumes "i + length cs \<le> 128" and "length r = 256"
  shows "alphabet_fill i cs r ! unat c = r ! unat c \<or>
    (\<exists>j < length cs. cs ! j = c \<and> alphabet_fill i cs r ! unat c = int (i + j))"
  using assms
proof (induction i cs r rule: alphabet_fill.induct)
  case (2 i d cs r)
  let ?f = "alphabet_fill i (d # cs) r"
  have i: "sint (of_nat i :: 8 word) = int i" using 2(2) by (simp add: signed_of_nat signed_take_bit_int_eq_self)
  from 2 have IH: "?f ! unat c = (r[unat d := int i]) ! unat c \<or> (\<exists>j < length cs. cs ! j = c \<and> ?f ! unat c = int (Suc i + j))"
    by (simp add: i)
  have len: "unat d < length r" using 2(3) by simp
  have head: "\<exists>j < length (d # cs). (d # cs) ! j = c \<and> ?f ! unat c = int (i + j)"
    if "d = c" "?f ! unat c = (r[unat d := int i]) ! unat c"
    using that len by (intro exI [of _ 0]) simp
  have tail: "\<exists>j < length (d # cs). (d # cs) ! j = c \<and> ?f ! unat c = int (i + j)"
    if "j < length cs" "cs ! j = c" "?f ! unat c = int (Suc i + j)" for j
    using that by (intro exI [of _ "Suc j"]) simp
  from IH head tail show ?case by (cases "d = c") (auto simp: nth_list_update_word)
qed simp

lemma alphabet_decode_make:
  assumes "0 \<le> alphabet_decode (codec_alphabet_make cs) c" and "length cs \<le> 128"
  shows "nat (alphabet_decode (codec_alphabet_make cs) c) < length cs"
    and "cs ! nat (alphabet_decode (codec_alphabet_make cs) c) = c"
proof -
  have "alphabet_fill 0 cs (replicate 256 (- 1)) ! unat c = replicate 256 (- 1) ! unat c \<or>
      (\<exists>j < length cs. cs ! j = c \<and> alphabet_fill 0 cs (replicate 256 (- 1)) ! unat c = int (0 + j))"
    using assms(2) by (intro alphabet_fill_nth) simp_all
  with assms(1) obtain j where "j < length cs" "cs ! j = c" "alphabet_decode (codec_alphabet_make cs) c = int j"
    by (auto simp: alphabet_decode_def codec_alphabet_make_def)
  then show "nat (alphabet_decode (codec_alphabet_make cs) c) < length cs"
    and "cs ! nat (alphabet_decode (codec_alphabet_make cs) c) = c" by simp_all
qed

lemma bn_spec_ok_bits:
  assumes "bn_spec_ok sp"
  shows "0 < bn_bits sp" and "bn_bits sp \<le> 6" and "bn_symbols sp = 2 ^ bn_bits sp"
  using assms by (auto simp: bn_spec_ok_def bn_bits_def bit_width_powers)

lemma bn_spec_ok_decode:
  assumes "bn_spec_ok sp" and "0 \<le> alphabet_decode (bn_alphabet sp) c"
  shows "is_symbol (bn_bits sp) (of_int (alphabet_decode (bn_alphabet sp) c))"
    and "char_of_symbol sp (of_int (alphabet_decode (bn_alphabet sp) c)) = c"
proof -
  note k = bn_spec_ok_bits [OF assms(1)]
  have al: "bn_alphabet sp = codec_alphabet_make (ca_chars (bn_alphabet sp))" "length (ca_chars (bn_alphabet sp)) \<le> 128"
    using assms(1) by (auto simp: bn_spec_ok_def bn_symbols_def)
  let ?v = "alphabet_decode (bn_alphabet sp) c"
  have v: "nat ?v < bn_symbols sp" "ca_chars (bn_alphabet sp) ! nat ?v = c"
    using alphabet_decode_make [of "ca_chars (bn_alphabet sp)" c] assms(2) al by (simp_all add: bn_symbols_def)
  then have "?v < 2 ^ bn_bits sp" using k(3) by (simp add: nat_less_iff assms(2))
  with assms(2) k(2) show "is_symbol (bn_bits sp) (of_int ?v)" "char_of_symbol sp (of_int ?v) = c"
    using v(2) is_symbol_of_int [of "bn_bits sp" ?v] unat_of_symbol [of "bn_bits sp" ?v]
    by (simp_all add: char_of_symbol_def alphabet_encode_def)
qed

lemma symbols_of_chars:
  assumes "bn_spec_ok sp"
  shows "symbols_of sp saw cs = Some vs \<Longrightarrow>
    no_pad sp cs = map (char_of_symbol sp) vs \<and> list_all (is_symbol (bn_bits sp)) vs"
  using bn_spec_ok_decode [OF assms]
  by (induction sp saw cs arbitrary: vs rule: symbols_of.induct) (auto split: if_splits)

lemma symbol_inj: "inj_on (low_bits k) {v :: u32. is_symbol k v}"
  by (intro inj_onI bit_eqI) (simp add: low_bits_eq_iff is_symbol_def; metis not_less)

lemma enough_room:
  assumes "base_n_decoded_max_size sp (length s) \<le> length out"
  shows "length ([] :: bool list) + bn_bits sp * length (no_pad sp (clean sp s)) < 8 * length out + 8"
proof -
  have "length (no_pad sp (clean sp s)) \<le> length s"
    unfolding clean_def by (metis (no_types, lifting) length_filter_le length_map le_trans)
  then have "bn_bits sp * length (no_pad sp (clean sp s)) \<le> length s * bn_bits sp"
    by (metis mult.commute mult_le_mono2)
  moreover have "length s * bn_bits sp < 8 * length out" using assms by (simp add: base_n_decoded_max_size_def)
  ultimately show ?thesis unfolding list.size(3) by linarith
qed

lemma base_n_decode_canonical_chars:
  assumes "bn_spec_ok sp" and "base_n_decoded_max_size sp (length s) \<le> length out"
  shows "fst (base_n_decode sp s out) \<noteq> Inl Codec_buffer_too_small"
    and "base_n_decode sp s out = (Inr n, out') \<Longrightarrow>
      \<exists>vs z. no_pad sp (clean sp s) = map (char_of_symbol sp) vs \<and> list_all (is_symbol (bn_bits sp)) vs \<and> z < bn_bits sp \<and>
        concat (map (low_bits (bn_bits sp)) vs) = concat (map (low_bits 8) (take n out')) @ replicate z False \<and>
        n \<le> length out' \<and> length out' = length out"
proof -
  let ?k = "bn_bits sp"
  note k = bn_spec_ok_bits [OF assms(1)]
  have dec: "decodable sp" using k bn_spec_ok_decode(1) [OF assms(1)] by (simp add: decodable_def)
  have r0: "received 0 0 0 out []" by (simp add: received_def)
  note d = decode_chars_symbols [OF dec r0 enough_room [OF assms(2)], of False, folded base_n_decode_def]
  show "fst (base_n_decode sp s out) \<noteq> Inl Codec_buffer_too_small"
    using d by (auto simp: Let_def received_end split: option.splits if_splits)
  assume ok: "base_n_decode sp s out = (Inr n, out')"
  then obtain vs where vs: "symbols_of sp False (clean sp s) = Some vs"
    using d by (cases "symbols_of sp False (clean sp s)") simp_all
  with d obtain acc nbits m buf saw where
    f: "base_n_decode sp s out = decode_chars sp [] acc nbits m saw buf"
      "received acc nbits m buf (concat (map (low_bits ?k) vs))" "length buf = length out" by auto
  let ?bits = "concat (map (low_bits ?k) vs)"
  have "?k > length ?bits mod 8 \<and> drop (8 * (length ?bits div 8)) ?bits = replicate (length ?bits mod 8) False \<and>
      n = length ?bits div 8 \<and> out' = buf"
    using received_end [OF f(2), of sp saw] f(1) ok by (simp add: Let_def split: if_splits)
  moreover have "length ?bits = 8 * m + nbits" "nbits < 8"
    using received_length [OF f(2)] f(2) by (simp_all add: received_def)
  then have "length ?bits div 8 = m" "length ?bits mod 8 = nbits" by simp_all
  ultimately have e: "nbits < ?k" "drop (8 * m) ?bits = replicate nbits False" "n = m" "out' = buf" by simp_all
  have "drop (8 * m) ?bits = low_bits nbits acc" using f(2) by (simp add: received_def min_def)
  with e f(2) have "?bits = concat (map (low_bits 8) (take n out')) @ replicate nbits False"
    by (simp add: received_def)
  with e f symbols_of_chars [OF assms(1) vs]
  show "\<exists>vs z. no_pad sp (clean sp s) = map (char_of_symbol sp) vs \<and> list_all (is_symbol (bn_bits sp)) vs \<and> z < bn_bits sp \<and>
      concat (map (low_bits (bn_bits sp)) vs) = concat (map (low_bits 8) (take n out')) @ replicate z False \<and>
      n \<le> length out' \<and> length out' = length out"
    by (intro exI [of _ vs] exI [of _ nbits]) (auto simp: received_def)
qed

lemma symbol_count: "k * a = N + y \<Longrightarrow> k * b = N + z \<Longrightarrow> y < k \<Longrightarrow> z < k \<Longrightarrow> a = b" for k a b N y z :: nat
proof (rule ccontr)
  assume h: "k * a = N + y" "k * b = N + z" "y < k" "z < k" and "a \<noteq> b"
  then consider "Suc a \<le> b" | "Suc b \<le> a" by linarith
  then show False
  proof cases
    case 1
    then have "k * Suc a \<le> k * b" by (rule mult_le_mono2)
    with h show False by simp
  next
    case 2
    then have "k * Suc b \<le> k * a" by (rule mult_le_mono2)
    with h show False by simp
  qed
qed

text \<open>An encoder and a decoder that owns its output.\<close>

lemma owned_round_trip:
  assumes "decodes E D" and "sz = base_n_encoded_size E (length bs)"
    and "\<And>n. room n = base_n_decoded_max_size D n"
  shows "\<exists>chars. owned_string (base_n_encode E bs (replicate sz 0)) = Some chars \<and> length chars = sz \<and>
    owned_bytes (base_n_decode D chars (replicate (room (length chars)) 0)) = Inr bs"
proof -
  have "0 < bn_bits E" "bn_bits D = bn_bits E" using assms(1) by (simp_all add: decodes_def)
  with encoded_size_room [of E "length bs"]
  have room: "length bs \<le> length (replicate (room sz) (0 :: byte))"
    by (simp add: assms(2,3) base_n_decoded_max_size_def mult.commute) 
  have "base_n_encoded_size E (length bs) \<le> length (replicate sz (0 :: byte))" by (simp add: assms(2))
  from base_n_decode_encode [OF assms(1) this room] obtain chars where
    "base_n_encode E bs (replicate sz 0) = Some (Inr sz, chars)" "length chars = sz"
    "base_n_decode D chars (replicate (room sz) 0) = (Inr (length bs), bs @ drop (length bs) (replicate (room sz) 0))"
    by (auto simp flip: assms(2))
  then show ?thesis by (simp add: owned_string_def owned_bytes_def resize_list_def)
qed

lemma standard_decodes:
  "decodes base16_lower_spec base16_upper_spec" "decodes base16_upper_spec base16_upper_spec"
  "decodes base32_std_spec base32_std_spec" "decodes base32_hex_spec base32_hex_spec"
  "decodes base64_std_spec base64_std_spec" "decodes base64_url_spec base64_url_decode_spec"
  by code_simp+

lemma standard_bits:
  "bn_bits base16_lower_spec = 4" "bn_bits base16_upper_spec = 4" "bn_bits base32_std_spec = 5"
  "bn_bits base32_hex_spec = 5" "bn_bits base64_std_spec = 6" "bn_bits base64_url_spec = 6"
  "bn_bits base64_url_decode_spec = 6"
  by code_simp+

lemma standard_sizes:
  "base_n_encoded_size base16_upper_spec n = base_n_encoded_size base16_lower_spec n"
  "base_n_encoded_size base32_hex_spec n = base_n_encoded_size base32_std_spec n"
  "base_n_decoded_max_size base32_hex_spec n = base_n_decoded_max_size base32_std_spec n"
  "base_n_decoded_max_size base64_url_decode_spec n = base_n_decoded_max_size base64_std_spec n"
  unfolding base_n_encoded_size_def base_n_decoded_max_size_def bn_group_in_def bn_group_out_def standard_bits
  by (simp_all add: base16_upper_spec_def base16_lower_spec_def base32_std_spec_def base32_hex_spec_def)

subsection \<open>Properties\<close>

text \<open>Every standard codec reads back what it writes, with buffers of the sizes the code
computes: the encoders end, never run out of room and return exactly the advertised number of
characters, and hexadecimal text is accepted in either case.\<close>

lemma base_n_codecs_round_trip:
  "\<exists>hex b32 b32h b64 url.
     hex_encode_string bs uppercase = Some hex \<and> length hex = hex_encoded_size (length bs) \<and> hex_decode_bytes hex = Inr bs \<and>
     base32_encode_string bs = Some b32 \<and> length b32 = base32_encoded_size (length bs) \<and> base32_decode_bytes b32 = Inr bs \<and>
     base32hex_encode_string bs = Some b32h \<and> length b32h = base32_encoded_size (length bs) \<and> base32hex_decode_bytes b32h = Inr bs \<and>
     base64_encode_string bs = Some b64 \<and> length b64 = base64_encoded_size (length bs) \<and> base64_decode_bytes b64 = Inr bs \<and>
     base64url_encode_string bs = Some url \<and> length url = base64url_encoded_size (length bs) \<and> base64url_decode_bytes url = Inr bs"
proof -
  note owned = owned_round_trip [OF standard_decodes(1)] owned_round_trip [OF standard_decodes(2)]
    owned_round_trip [OF standard_decodes(3)] owned_round_trip [OF standard_decodes(4)]
    owned_round_trip [OF standard_decodes(5)] owned_round_trip [OF standard_decodes(6)]
  have "\<exists>hex. hex_encode_string bs uppercase = Some hex \<and> length hex = hex_encoded_size (length bs) \<and> hex_decode_bytes hex = Inr bs"
    unfolding hex_encode_string_def hex_encode_def hex_encoded_size_def hex_decode_bytes_def hex_decode_def
    by (cases uppercase) (simp_all only: if_True if_False, (rule owned; simp add: standard_sizes)+)
  moreover have "\<exists>b32. base32_encode_string bs = Some b32 \<and> length b32 = base32_encoded_size (length bs) \<and> base32_decode_bytes b32 = Inr bs"
    unfolding base32_encode_string_def base32_encode_def base32_encoded_size_def base32_decode_bytes_def base32_decode_def
      base32_decoded_max_size_def by (rule owned) simp_all
  moreover have "\<exists>b32h. base32hex_encode_string bs = Some b32h \<and> length b32h = base32_encoded_size (length bs) \<and> base32hex_decode_bytes b32h = Inr bs"
    unfolding base32hex_encode_string_def base32hex_encode_def base32_encoded_size_def base32hex_decode_bytes_def
      base32hex_decode_def base32_decoded_max_size_def by (rule owned) (simp_all add: standard_sizes)
  moreover have "\<exists>b64. base64_encode_string bs = Some b64 \<and> length b64 = base64_encoded_size (length bs) \<and> base64_decode_bytes b64 = Inr bs"
    unfolding base64_encode_string_def base64_encode_def base64_encoded_size_def base64_decode_bytes_def base64_decode_def
      base64_decoded_max_size_def by (rule owned) simp_all
  moreover have "\<exists>url. base64url_encode_string bs = Some url \<and> length url = base64url_encoded_size (length bs) \<and> base64url_decode_bytes url = Inr bs"
    unfolding base64url_encode_string_def base64url_encode_def base64url_encoded_size_def base64url_decode_bytes_def
      base64url_decode_def base64_decoded_max_size_def by (rule owned) (simp_all add: standard_sizes)
  ultimately show ?thesis by simp
qed

text \<open>C25: with the buffer \<open>base_n_decoded_max_size\<close> asks for, a decoder never runs out of room,
and a text it accepts is canonical: leaving out its blanks and padding and folding its case, it is
exactly the unpadded encoding of the bytes it decodes to.\<close>

theorem base_n_decode_canonical:
  assumes "bn_spec_ok sp" and "base_n_decoded_max_size sp (length s) \<le> length out"
  shows "case base_n_decode sp s out of
      (Inl e, out') \<Rightarrow> e \<noteq> Codec_buffer_too_small
    | (Inr n, out') \<Rightarrow>
        let bare = sp\<lparr>bn_padded := False\<rparr>; chars = no_pad sp (clean sp s)
        in n \<le> length out \<and>
           base_n_encode bare (take n out') (replicate (base_n_encoded_size bare n) 0) = Some (Inr (length chars), chars)"
proof (cases "base_n_decode sp s out")
  case (Pair r out')
  let ?bare = "sp\<lparr>bn_padded := False\<rparr>" and ?k = "bn_bits sp"
  show ?thesis
  proof (cases r)
    case (Inl e)
    then show ?thesis using base_n_decode_canonical_chars(1) [OF assms] Pair by simp
  next
    case (Inr n)
    from base_n_decode_canonical_chars(2) [OF assms, of n out'] Pair Inr obtain vs z where
      v: "no_pad sp (clean sp s) = map (char_of_symbol sp) vs" "list_all (is_symbol ?k) vs" "z < ?k"
        "concat (map (low_bits ?k) vs) = concat (map (low_bits 8) (take n out')) @ replicate z False"
        "n \<le> length out'" "length out' = length out" by auto
    have bare: "bn_bits ?bare = ?k" "char_of_symbol ?bare = char_of_symbol sp"
      by (simp_all add: bn_bits_def bn_symbols_def char_of_symbol_def [abs_def])
    have k: "0 < bn_bits ?bare" "bn_bits ?bare \<le> 8" using bn_spec_ok_bits [OF assms(1)] bare by simp_all
    have "base_n_encoded_size ?bare (length (take n out')) \<le> length (replicate (base_n_encoded_size ?bare n) (0 :: byte))"
      using v(5) by (simp add: min_def)
    from base_n_encode_ok [OF k this] obtain syms y j where
      e: "base_n_encode ?bare (take n out') (replicate (base_n_encoded_size ?bare n) 0) = Some (Inr (length syms + j),
          put 0 (map (char_of_symbol ?bare) syms @ replicate j (bn_pad ?bare)) (replicate (base_n_encoded_size ?bare n) 0))"
        "base_n_encoded_size ?bare (length (take n out')) = length syms + j" "\<not> bn_padded ?bare \<Longrightarrow> j = 0"
        "list_all (is_symbol (bn_bits ?bare)) syms" "y < bn_bits ?bare"
        "concat (map (low_bits (bn_bits ?bare)) syms) = concat (map (low_bits 8) (take n out')) @ replicate y False" by blast
    have l: "?k * length syms = 8 * n + y" "?k * length vs = 8 * n + z"
      using arg_cong [OF e(6), of length] arg_cong [OF v(4), of length] v(5) by (simp_all add: bare(1) min_def)
    have y: "y < ?k" using e(5) by (simp only: bare(1))
    have "length syms = length vs" by (rule symbol_count [OF l y v(3)])
    moreover from this l have "y = z" by simp
    ultimately have vs: "syms = vs"
      using e(4,6) v(2,4) bare by (intro concat_low_inj_on [OF symbol_inj, of _ ?k]) (auto simp: list_all_iff)
    have n: "length (take n out') = n" using v(5) by simp
    from vs e(1) e(2) [unfolded n] e(3) v(1,5,6) bare Pair Inr show ?thesis by (simp add: Let_def put_def min_def)
  qed
qed

lemma base_n_decode_canonical_witness:
  "base_n_encode (base64_std_spec\<lparr>bn_padded := False\<rparr>) [1, 2] (replicate 3 0) = Some (Inr 3, chars_of ''AQI'')"
proof -
  have ok: "bn_spec_ok base64_std_spec" by code_simp
  have room: "base_n_decoded_max_size base64_std_spec (length (chars_of ''AQI =='')) \<le> length (replicate 5 (0 :: byte))"
    by code_simp
  have d: "base_n_decode base64_std_spec (chars_of ''AQI =='') (replicate 5 0) = (Inr 2, [1, 2, 0, 0, 0])" by code_simp
  have "no_pad base64_std_spec (clean base64_std_spec (chars_of ''AQI =='')) = chars_of ''AQI''"
    and "base_n_encoded_size (base64_std_spec\<lparr>bn_padded := False\<rparr>) 2 = 3" by code_simp+
  with base_n_decode_canonical [OF ok room] d show ?thesis by (simp add: Let_def chars_of_def)
qed

text \<open>The lower-case specification folds its input to upper case and then looks it up among lower-case
letters, so it refuses every letter; hexadecimal text is decoded with the upper-case one.\<close>

lemma base16_lower_refuses_letters:
  assumes "c \<in> set (chars_of ''abcdefABCDEF'')"
  shows "base_n_decode base16_lower_spec (c # s) out = (Inl Codec_invalid_input, out)"
proof -
  have "list_all (\<lambda>c. let d = fold_case base16_lower_spec c
      in \<not> is_space d \<and> alphabet_decode (bn_alphabet base16_lower_spec) d < 0) (chars_of ''abcdefABCDEF'')"
    by code_simp
  with assms have "\<not> is_space (fold_case base16_lower_spec c)"
    and "alphabet_decode (bn_alphabet base16_lower_spec) (fold_case base16_lower_spec c) < 0"
    by (simp_all add: list_all_iff Let_def)
  moreover have "\<not> bn_padded base16_lower_spec" by (simp add: base16_lower_spec_def)
  ultimately show ?thesis by (simp add: base_n_decode_def decode_chars.simps Let_def)
qed

end
