(* ===== verification/Crc.thy ===== *)
theory Crc
  imports Prelude
begin

text \<open>
  The table-driven cyclic redundancy checks of \<open>algorithm/checksum/crc.hpp\<close>, of any width, in both bit
  orders, at once and in pieces. The value type is a type parameter, the template argument \<open>Spec\<close> an
  argument. The reference is the shift register that takes one bit of the message at a time: its
  cell 0 is the one that is shifted out next, whatever the bit order of the words.
\<close>

subsection \<open>The code\<close>

record 'v crc_spec =
  cs_width :: nat
  cs_poly :: 'v
  cs_init :: 'v
  cs_ref_in :: bool
  cs_ref_out :: bool
  cs_xor_out :: 'v

definition reflect_bits :: "'a::len word \<Rightarrow> nat \<Rightarrow> 'a word" where
  "reflect_bits v n_bits =
     fold (\<lambda>i out. if drop_bit i v AND 1 \<noteq> 0 then out OR push_bit (n_bits - 1 - i) 1 else out) [0..<n_bits] 0"

definition crc_mask :: "nat \<Rightarrow> 'a::len word" where
  "crc_mask width = (if width = LENGTH('a) then NOT 0 else push_bit width 1 - 1)"

definition table_step_low :: "'a::len word \<Rightarrow> 'a word \<Rightarrow> 'a word" where
  "table_step_low rev_poly reg = (if reg AND 1 \<noteq> 0 then drop_bit 1 reg XOR rev_poly else drop_bit 1 reg)"

definition table_step_high :: "nat \<Rightarrow> 'a::len word \<Rightarrow> 'a word \<Rightarrow> 'a word" where
  "table_step_high width poly reg =
     (if reg AND push_bit (width - 1) 1 \<noteq> 0 then push_bit 1 reg XOR poly else push_bit 1 reg)"

definition make_crc_table :: "'a::len word crc_spec \<Rightarrow> 'a word list" where
  "make_crc_table sp =
     (let width = cs_width sp; mask = crc_mask width
      in if cs_ref_in sp then
           let rev_poly = reflect_bits (cs_poly sp) width
           in map (\<lambda>i. (table_step_low rev_poly ^^ 8) (of_nat i) AND mask) [0..<256]
         else
           map (\<lambda>i. (table_step_high width (cs_poly sp) ^^ 8) (push_bit (width - 8) (of_nat i)) AND mask) [0..<256])"

definition fold_low :: "'a::len word list \<Rightarrow> byte list \<Rightarrow> 'a word \<Rightarrow> 'a word" where
  "fold_low table data reg =
     foldl (\<lambda>reg b. let idx = ucast ((reg XOR ucast b) AND 0xFF) :: u8
        in drop_bit 8 reg XOR table ! unat idx) reg data"

definition fold_high :: "nat \<Rightarrow> 'a::len word list \<Rightarrow> byte list \<Rightarrow> 'a word \<Rightarrow> 'a word" where
  "fold_high width table data reg =
     foldl (\<lambda>reg b. let idx = ucast ((drop_bit (width - 8) reg XOR ucast b) AND 0xFF) :: u8
        in (push_bit 8 reg XOR table ! unat idx) AND crc_mask width) reg data"

definition crc_fold :: "'a::len word crc_spec \<Rightarrow> byte list \<Rightarrow> 'a word" where
  "crc_fold sp data =
     (let width = cs_width sp; mask = crc_mask width; table = make_crc_table sp
      in if cs_ref_in sp then
           let reg = fold_low table data (reflect_bits (cs_init sp) width);
               reg = (if \<not> cs_ref_out sp then reflect_bits reg width else reg)
           in (reg XOR cs_xor_out sp) AND mask
         else
           let reg = fold_high width table data (cs_init sp);
               reg = (if cs_ref_out sp then reflect_bits reg width else reg)
           in (reg XOR cs_xor_out sp) AND mask)"

definition crc :: "'a::len word crc_spec \<Rightarrow> byte list \<Rightarrow> 'a word" where
  "crc sp data = crc_fold sp data"

definition crc_text :: "'a::len word crc_spec \<Rightarrow> byte list \<Rightarrow> 'a word" where
  "crc_text sp s = crc_fold sp s"

text \<open>The streaming form keeps the register between calls.\<close>

record 'v crc_ctx =
  cx_reg :: 'v

definition initial_reg :: "'a::len word crc_spec \<Rightarrow> 'a word" where
  "initial_reg sp = (if cs_ref_in sp then reflect_bits (cs_init sp) (cs_width sp) else cs_init sp)"

definition ctx_default :: "'a::len word crc_spec \<Rightarrow> 'a word crc_ctx" where
  "ctx_default sp = \<lparr>cx_reg = initial_reg sp\<rparr>"

definition ctx_fold :: "'a::len word crc_spec \<Rightarrow> byte list \<Rightarrow> 'a word crc_ctx \<Rightarrow> 'a word crc_ctx" where
  "ctx_fold sp data c =
     (let table = make_crc_table sp
      in c\<lparr>cx_reg := (if cs_ref_in sp then fold_low table data (cx_reg c)
                     else fold_high (cs_width sp) table data (cx_reg c))\<rparr>)"

definition ctx_reset :: "'a::len word crc_spec \<Rightarrow> 'a word crc_ctx \<Rightarrow> 'a word crc_ctx" where
  "ctx_reset sp c = c\<lparr>cx_reg := initial_reg sp\<rparr>"

definition ctx_update :: "'a::len word crc_spec \<Rightarrow> byte list \<Rightarrow> 'a word crc_ctx \<Rightarrow> 'a word crc_ctx" where
  "ctx_update sp data c = ctx_fold sp data c"

definition ctx_update_text :: "'a::len word crc_spec \<Rightarrow> byte list \<Rightarrow> 'a word crc_ctx \<Rightarrow> 'a word crc_ctx" where
  "ctx_update_text sp s c = ctx_fold sp s c"

definition ctx_value :: "'a::len word crc_spec \<Rightarrow> 'a word crc_ctx \<Rightarrow> 'a word" where
  "ctx_value sp c =
     (let r = cx_reg c;
          r = (if cs_ref_in sp \<noteq> cs_ref_out sp then reflect_bits r (cs_width sp) else r)
      in (r XOR cs_xor_out sp) AND crc_mask (cs_width sp))"

subsection \<open>The code: the standard checks\<close>

definition crc8_smbus_spec :: "u8 crc_spec" where
  "crc8_smbus_spec = \<lparr>cs_width = 8, cs_poly = 0x07, cs_init = 0x00,
     cs_ref_in = False, cs_ref_out = False, cs_xor_out = 0x00\<rparr>"

definition crc8_ccitt_spec :: "u8 crc_spec" where
  "crc8_ccitt_spec = crc8_smbus_spec"

definition crc8_rohc_spec :: "u8 crc_spec" where
  "crc8_rohc_spec = \<lparr>cs_width = 8, cs_poly = 0x07, cs_init = 0xFF,
     cs_ref_in = True, cs_ref_out = True, cs_xor_out = 0x00\<rparr>"

definition crc8_dallas_1wire_spec :: "u8 crc_spec" where
  "crc8_dallas_1wire_spec = \<lparr>cs_width = 8, cs_poly = 0x31, cs_init = 0x00,
     cs_ref_in = True, cs_ref_out = True, cs_xor_out = 0x00\<rparr>"

definition crc8_autosar_spec :: "u8 crc_spec" where
  "crc8_autosar_spec = \<lparr>cs_width = 8, cs_poly = 0x2F, cs_init = 0xFF,
     cs_ref_in = False, cs_ref_out = False, cs_xor_out = 0xFF\<rparr>"

definition crc8_j1850_spec :: "u8 crc_spec" where
  "crc8_j1850_spec = \<lparr>cs_width = 8, cs_poly = 0x1D, cs_init = 0xFF,
     cs_ref_in = False, cs_ref_out = False, cs_xor_out = 0xFF\<rparr>"

definition crc8_icode_spec :: "u8 crc_spec" where
  "crc8_icode_spec = \<lparr>cs_width = 8, cs_poly = 0x1D, cs_init = 0xFD,
     cs_ref_in = False, cs_ref_out = False, cs_xor_out = 0x00\<rparr>"

definition crc16_xmodem_spec :: "u16 crc_spec" where
  "crc16_xmodem_spec = \<lparr>cs_width = 16, cs_poly = 0x1021, cs_init = 0x0000,
     cs_ref_in = False, cs_ref_out = False, cs_xor_out = 0x0000\<rparr>"

definition crc16_kermit_spec :: "u16 crc_spec" where
  "crc16_kermit_spec = \<lparr>cs_width = 16, cs_poly = 0x1021, cs_init = 0x0000,
     cs_ref_in = True, cs_ref_out = True, cs_xor_out = 0x0000\<rparr>"


definition crc16_usb_spec :: "u16 crc_spec" where
  "crc16_usb_spec = \<lparr>cs_width = 16, cs_poly = 0x8005, cs_init = 0xFFFF,
     cs_ref_in = True, cs_ref_out = True, cs_xor_out = 0xFFFF\<rparr>"

definition crc16_x25_spec :: "u16 crc_spec" where
  "crc16_x25_spec = \<lparr>cs_width = 16, cs_poly = 0x1021, cs_init = 0xFFFF,
     cs_ref_in = True, cs_ref_out = True, cs_xor_out = 0xFFFF\<rparr>"

definition crc16_ibm3740_spec :: "u16 crc_spec" where
  "crc16_ibm3740_spec = \<lparr>cs_width = 16, cs_poly = 0x1021, cs_init = 0xFFFF,
     cs_ref_in = False, cs_ref_out = False, cs_xor_out = 0x0000\<rparr>"

definition crc32_ieee_spec :: "u32 crc_spec" where
  "crc32_ieee_spec = \<lparr>cs_width = 32, cs_poly = 0x04C11DB7, cs_init = 0xFFFFFFFF,
     cs_ref_in = True, cs_ref_out = True, cs_xor_out = 0xFFFFFFFF\<rparr>"

definition crc32c_spec :: "u32 crc_spec" where
  "crc32c_spec = \<lparr>cs_width = 32, cs_poly = 0x1EDC6F41, cs_init = 0xFFFFFFFF,
     cs_ref_in = True, cs_ref_out = True, cs_xor_out = 0xFFFFFFFF\<rparr>"

definition crc32_bzip2_spec :: "u32 crc_spec" where
  "crc32_bzip2_spec = \<lparr>cs_width = 32, cs_poly = 0x04C11DB7, cs_init = 0xFFFFFFFF,
     cs_ref_in = False, cs_ref_out = False, cs_xor_out = 0xFFFFFFFF\<rparr>"

definition crc32_mpeg2_spec :: "u32 crc_spec" where
  "crc32_mpeg2_spec = \<lparr>cs_width = 32, cs_poly = 0x04C11DB7, cs_init = 0xFFFFFFFF,
     cs_ref_in = False, cs_ref_out = False, cs_xor_out = 0x00000000\<rparr>"

definition crc8 :: "byte list \<Rightarrow> u8" where
  "crc8 d = crc crc8_smbus_spec d"

definition crc8_text :: "byte list \<Rightarrow> u8" where
  "crc8_text s = crc_text crc8_smbus_spec s"

definition crc8_1wire :: "byte list \<Rightarrow> u8" where
  "crc8_1wire d = crc crc8_dallas_1wire_spec d"

definition crc8_1wire_text :: "byte list \<Rightarrow> u8" where
  "crc8_1wire_text s = crc_text crc8_dallas_1wire_spec s"

definition crc32 :: "byte list \<Rightarrow> u32" where
  "crc32 d = crc crc32_ieee_spec d"

definition crc32_text :: "byte list \<Rightarrow> u32" where
  "crc32_text s = crc_text crc32_ieee_spec s"

definition crc32c :: "byte list \<Rightarrow> u32" where
  "crc32c d = crc crc32c_spec d"

definition crc32c_text :: "byte list \<Rightarrow> u32" where
  "crc32c_text s = crc_text crc32c_spec s"

subsection \<open>The reference: one bit of the message at a time\<close>

definition lfsr_step :: "bool list \<Rightarrow> bool list \<Rightarrow> bool \<Rightarrow> bool list" where
  "lfsr_step poly reg b =
     (let feedback = hd reg \<noteq> b in map2 (\<lambda>r p. r \<noteq> (feedback \<and> p)) (tl reg @ [False]) poly)"

definition word_bits :: "nat \<Rightarrow> 'a::len word \<Rightarrow> bool list" where
  "word_bits width w = map (\<lambda>i. bit w (width - 1 - i)) [0..<width]"

definition byte_bits :: "bool \<Rightarrow> byte \<Rightarrow> bool list" where
  "byte_bits ref_in b = map (\<lambda>i. bit b (if ref_in then i else 7 - i)) [0..<8]"

definition crc_register :: "'a::len word crc_spec \<Rightarrow> byte list \<Rightarrow> bool list" where
  "crc_register sp data =
     foldl (lfsr_step (word_bits (cs_width sp) (cs_poly sp))) (word_bits (cs_width sp) (cs_init sp))
       (concat (map (byte_bits (cs_ref_in sp)) data))"

definition crc_reference :: "'a::len word crc_spec \<Rightarrow> byte list \<Rightarrow> bool list" where
  "crc_reference sp data =
     (let reg = crc_register sp data
      in map2 (\<noteq>) (if cs_ref_out sp then rev reg else reg) (word_bits (cs_width sp) (cs_xor_out sp)))"

text \<open>What the code asks of a specification.\<close>

definition crc_ok :: "'a::len word crc_spec \<Rightarrow> bool" where
  "crc_ok sp \<longleftrightarrow> 8 \<le> LENGTH('a) \<and> 1 \<le> cs_width sp \<and> cs_width sp \<le> LENGTH('a) \<and>
     (cs_ref_in sp \<or> 8 \<le> cs_width sp)"

subsection \<open>The register as a sequence of cells\<close>

definition sstep :: "(nat \<Rightarrow> bool) \<Rightarrow> (nat \<Rightarrow> bool) \<Rightarrow> nat \<Rightarrow> bool" where
  "sstep P L = (\<lambda>i. L (Suc i) \<noteq> (L 0 \<and> P i))"

definition feed :: "(nat \<Rightarrow> bool) \<Rightarrow> (nat \<Rightarrow> bool) \<Rightarrow> bool \<Rightarrow> nat \<Rightarrow> bool" where
  "feed P L b = sstep P (\<lambda>i. L i \<noteq> (i = 0 \<and> b))"

lemma sstep_linear: "(sstep P ^^ n) (\<lambda>i. A i \<noteq> B i) = (\<lambda>i. (sstep P ^^ n) A i \<noteq> (sstep P ^^ n) B i)"
proof (induction n)
  case (Suc n)
  have "sstep P (\<lambda>i. A i \<noteq> B i) = (\<lambda>i. sstep P A i \<noteq> sstep P B i)" for A B
    by (auto simp: sstep_def)
  with Suc show ?case by simp
qed simp

lemma sstep_shift: "(\<And>i. i < n \<Longrightarrow> \<not> B i) \<Longrightarrow> (sstep P ^^ n) B = (\<lambda>i. B (i + n))"
proof (induction n arbitrary: B)
  case (Suc n)
  have "sstep P B = (\<lambda>i. B (Suc i))" using Suc.prems [of 0] by (simp add: sstep_def)
  moreover have "(sstep P ^^ n) (\<lambda>i. B (Suc i)) = (\<lambda>i. B (Suc (i + n)))"
    using Suc.IH [of "\<lambda>i. B (Suc i)"] Suc.prems by simp
  ultimately show ?case by (simp only: funpow_Suc_right o_apply add_Suc_right)
qed simp

lemma sstep_outside: "(\<And>i. w \<le> i \<Longrightarrow> \<not> P i) \<Longrightarrow> w \<le> i \<Longrightarrow> (sstep P ^^ n) L i = L (i + n)"
  by (induction n arbitrary: i) (simp_all add: sstep_def)

text \<open>Bits fed one at a time may as well be added to the register at once.\<close>

lemma feed_at_once:
  "foldl (feed P) L bs = (sstep P ^^ length bs) (\<lambda>i. L i \<noteq> (i < length bs \<and> bs ! i))"
proof (induction bs arbitrary: L)
  case (Cons b bs)
  have "(\<lambda>i. feed P L b i \<noteq> (i < length bs \<and> bs ! i)) = sstep P (\<lambda>i. L i \<noteq> (i < length (b # bs) \<and> (b # bs) ! i))"
    by (auto simp: feed_def sstep_def fun_eq_iff)
  with Cons [of "feed P L b"] show ?case by (simp add: funpow_swap1)
qed simp

text \<open>Eight steps: the low cells go through the table, the others are shifted.\<close>

lemma feed_byte:
  assumes "length bs = 8"
  shows "foldl (feed P) L bs i = (L (i + 8) \<noteq> (sstep P ^^ 8) (\<lambda>i. i < 8 \<and> (L i \<noteq> bs ! i)) i)"
proof -
  let ?A = "\<lambda>i. i < 8 \<and> (L i \<noteq> bs ! i)" and ?B = "\<lambda>i. 8 \<le> i \<and> L i"
  have "foldl (feed P) L bs = (sstep P ^^ 8) (\<lambda>i. L i \<noteq> (i < length bs \<and> bs ! i))"
    by (simp only: feed_at_once assms)
  also have "(\<lambda>i. L i \<noteq> (i < length bs \<and> bs ! i)) = (\<lambda>i. ?A i \<noteq> ?B i)"
    using assms by (auto simp: fun_eq_iff)
  also have "(sstep P ^^ 8) (\<lambda>i. ?A i \<noteq> ?B i) = (\<lambda>i. (sstep P ^^ 8) ?A i \<noteq> (sstep P ^^ 8) ?B i)"
    by (rule sstep_linear)
  also have "(sstep P ^^ 8) ?B = (\<lambda>i. ?B (i + 8))" by (rule sstep_shift) simp
  finally have "foldl (feed P) L bs i = ((sstep P ^^ 8) ?A i \<noteq> ?B (i + 8))" by (rule fun_cong)
  then show ?thesis by auto
qed

lemma foldl_bytes:
  assumes "\<And>reg b. R (g reg b) = foldl (feed P) (R reg) (bits b)"
  shows "R (foldl g reg data) = foldl (feed P) (R reg) (concat (map bits data))"
  using assms by (induction data arbitrary: reg) simp_all

subsection \<open>The words of the code\<close>

lemma low_bit_set: "x AND 1 \<noteq> 0 \<longleftrightarrow> bit x 0" for x :: "'a::len word"
  by (simp add: and_one_eq bit_0 odd_iff_mod_2_eq_one)

lemma nth_bit_set: "drop_bit i x AND 1 \<noteq> 0 \<longleftrightarrow> bit x i" for x :: "'a::len word"
  by (simp only: low_bit_set bit_drop_bit_eq o_apply add_0_right)

lemma bit_push_1: "bit (push_bit m (1 :: 'a::len word)) i \<longleftrightarrow> i = m \<and> m < LENGTH('a)"
  by (auto simp: push_bit_of_1 bit_exp_iff)

lemma bit_reflect:
  fixes v :: "'a::len word"
  assumes "n \<le> LENGTH('a)"
  shows "bit (reflect_bits v n) i \<longleftrightarrow> i < n \<and> bit v (n - 1 - i)"
proof -
  let ?f = "\<lambda>i out :: 'a word. if drop_bit i v AND 1 \<noteq> 0 then out OR push_bit (n - 1 - i) 1 else out"
  have "bit (fold ?f [0..<k] 0) i \<longleftrightarrow> (\<exists>j < k. bit v j \<and> i = n - 1 - j)" if "k \<le> n" for k i
    using that
  proof (induction k)
    case (Suc k)
    have "bit (push_bit (n - 1 - k) (1 :: 'a word)) i \<longleftrightarrow> i = n - 1 - k"
      using Suc.prems assms by (simp only: bit_push_1) auto
    with Suc show ?case by (auto simp: nth_bit_set bit_or_iff less_Suc_eq)
  qed simp
  from this [of n i] have "bit (reflect_bits v n) i \<longleftrightarrow> (\<exists>j < n. bit v j \<and> i = n - 1 - j)"
    by (simp add: reflect_bits_def)
  also have "\<dots> \<longleftrightarrow> i < n \<and> bit v (n - 1 - i)" by (auto intro: exI [of _ "n - 1 - i"])
  finally show ?thesis .
qed

lemma bit_crc_mask:
  assumes "w \<le> LENGTH('a)"
  shows "bit (crc_mask w :: 'a::len word) i \<longleftrightarrow> i < w"
  using assms bit_mask_iff [where ?'a = "'a word", of w i]
  by (auto simp: crc_mask_def mask_eq_exp_minus_1 push_bit_of_1 bit_not_iff dest: bit_imp_le_length)

definition cells :: "nat \<Rightarrow> 'a::len word \<Rightarrow> nat \<Rightarrow> bool" where
  "cells w x = (\<lambda>i. i < w \<and> bit x (w - 1 - i))"

lemma step_low: "bit ((table_step_low rp ^^ n) x) = (sstep (bit rp) ^^ n) (bit x)"
proof (induction n)
  case (Suc n)
  have "bit (table_step_low rp y) = sstep (bit rp) (bit y)" for y
    by (auto simp: table_step_low_def low_bit_set sstep_def bit_xor_iff bit_drop_bit_eq fun_eq_iff)
  with Suc show ?case by simp
qed simp

lemma step_high:
  fixes x :: "'a::len word"
  assumes "1 \<le> w" and "w \<le> LENGTH('a)"
  shows "cells w ((table_step_high w p ^^ n) x) = (sstep (cells w p) ^^ n) (cells w x)"
proof (induction n)
  case (Suc n)
  have "cells w (table_step_high w p y) i = sstep (cells w p) (cells w y) i" for y :: "'a word" and i
  proof -
    have "y AND push_bit (w - 1) 1 \<noteq> 0 \<longleftrightarrow> bit y (w - 1)"
      using assms by (auto simp: word_bits_eq bit_and_iff bit_push_1 simp del: push_bit_of_1)
    moreover have "cells w (push_bit 1 y) i = cells w y (Suc i)"
      using assms unfolding cells_def bit_push_bit_iff by auto
    moreover have "cells w (push_bit 1 y XOR p) i = (cells w (push_bit 1 y) i \<noteq> cells w p i)"
      by (auto simp: cells_def bit_xor_iff)
    moreover have "cells w y 0 = bit y (w - 1)" using assms by (simp add: cells_def)
    ultimately show ?thesis by (auto simp: table_step_high_def sstep_def)
  qed
  then have "cells w (table_step_high w p y) = sstep (cells w p) (cells w y)" for y by (rule ext)
  with Suc show ?case by simp
qed simp

text \<open>The index that a byte selects.\<close>

lemma bit_index:
  fixes x :: "'a::len word"
  assumes "8 \<le> LENGTH('a)"
  shows "bit (ucast ((x XOR ucast b) AND 0xFF) :: u8) i \<longleftrightarrow> i < 8 \<and> bit x i \<noteq> bit b i"
proof -
  have m: "(0xFF :: 'a word) = mask 8" by (simp add: mask_eq_exp_minus_1)
  show ?thesis
    using assms unfolding m by (auto simp: bit_ucast_iff bit_and_iff bit_xor_iff bit_mask_iff)
qed

lemma bit_of_index: "8 \<le> LENGTH('a) \<Longrightarrow> bit (ucast idx :: 'a::len word) i \<longleftrightarrow> bit idx i" for idx :: u8
  by (auto simp: bit_ucast_iff dest: bit_imp_le_length)

lemma byte_bits_nth: "i < 8 \<Longrightarrow> byte_bits ref_in b ! i = bit b (if ref_in then i else 7 - i)"
  by (simp add: byte_bits_def)

lemma length_byte_bits [simp]: "length (byte_bits ref_in b) = 8"
  by (simp add: byte_bits_def)

lemma bit_reflected: "w \<le> LENGTH('a) \<Longrightarrow> bit (reflect_bits v w) = cells w v" for v :: "'a::len word"
  by (auto simp: bit_reflect cells_def fun_eq_iff)

lemma fold_low_step:
  fixes sp :: "'a::len word crc_spec"
  assumes "crc_ok sp" and "cs_ref_in sp"
  shows "bit (drop_bit 8 reg XOR make_crc_table sp ! unat (ucast ((reg XOR ucast b) AND 0xFF) :: u8)) =
    foldl (feed (cells (cs_width sp) (cs_poly sp))) (bit reg) (byte_bits True b)"
proof
  fix i
  let ?w = "cs_width sp" and ?P = "cells (cs_width sp) (cs_poly sp)"
  have w: "8 \<le> LENGTH('a)" "?w \<le> LENGTH('a)" using assms by (simp_all add: crc_ok_def)
  define idx :: u8 where "idx = ucast ((reg XOR ucast b) AND 0xFF)"
  let ?A = "\<lambda>i. i < 8 \<and> (bit reg i \<noteq> byte_bits True b ! i)"
  have A: "bit (ucast idx :: 'a word) = ?A"
    unfolding fun_eq_iff bit_of_index [OF w(1)] idx_def bit_index [OF w(1)] by (auto simp: byte_bits_nth)
  have "make_crc_table sp ! unat idx =
      (table_step_low (reflect_bits (cs_poly sp) ?w) ^^ 8) (ucast idx) AND crc_mask ?w"
    using assms(2) by (simp add: make_crc_table_def Let_def)
  moreover have "(sstep ?P ^^ 8) ?A i \<longrightarrow> i < ?w"
    using sstep_outside [of ?w ?P i 8 ?A] by (auto simp: cells_def not_less [symmetric])
  ultimately have "bit (make_crc_table sp ! unat idx) i = (sstep ?P ^^ 8) ?A i"
    using w(2) by (auto simp: bit_and_iff bit_crc_mask step_low bit_reflected A)
  then show "bit (drop_bit 8 reg XOR make_crc_table sp ! unat (ucast ((reg XOR ucast b) AND 0xFF) :: u8)) i =
      foldl (feed ?P) (bit reg) (byte_bits True b) i"
    by (simp add: feed_byte bit_xor_iff bit_drop_bit_eq idx_def add.commute)
qed

lemma fold_high_step:
  fixes sp :: "'a::len word crc_spec"
  assumes "crc_ok sp" and "\<not> cs_ref_in sp"
  defines "w \<equiv> cs_width sp"
  shows "cells w ((push_bit 8 reg XOR make_crc_table sp ! unat (ucast ((drop_bit (w - 8) reg XOR ucast b) AND 0xFF) :: u8)) AND crc_mask w) =
    foldl (feed (cells w (cs_poly sp))) (cells w reg) (byte_bits False b)"
proof
  fix i
  let ?P = "cells w (cs_poly sp)"
  have w: "8 \<le> LENGTH('a)" "w \<le> LENGTH('a)" "8 \<le> w" using assms by (simp_all add: crc_ok_def)
  define idx :: u8 where "idx = ucast ((drop_bit (w - 8) reg XOR ucast b) AND 0xFF)"
  let ?A = "\<lambda>i. i < 8 \<and> (cells w reg i \<noteq> byte_bits False b ! i)"
  have A: "cells w (push_bit (w - 8) (ucast idx :: 'a word)) i = ?A i" for i
  proof -
    have "bit idx (7 - i) = (bit reg (w - 1 - i) \<noteq> bit b (7 - i))" if "i < 8"
      using that w(1,3) by (auto simp: idx_def bit_index bit_drop_bit_eq)
    then show ?thesis
      using w by (auto simp: cells_def bit_push_bit_iff bit_of_index byte_bits_nth)
  qed
  have "make_crc_table sp ! unat idx =
      (table_step_high w (cs_poly sp) ^^ 8) (push_bit (w - 8) (ucast idx)) AND crc_mask w"
    using assms(2) by (simp add: make_crc_table_def Let_def w_def)
  then have "cells w (make_crc_table sp ! unat idx) =
      cells w ((table_step_high w (cs_poly sp) ^^ 8) (push_bit (w - 8) (ucast idx)))"
    using w(2) by (auto simp: cells_def bit_and_iff bit_crc_mask fun_eq_iff)
  also have "\<dots> = (sstep ?P ^^ 8) ?A"
    using w by (simp only: step_high ext [of "cells w (push_bit (w - 8) (ucast idx :: 'a word))" ?A, OF A])
  finally have t: "cells w (make_crc_table sp ! unat idx) i = (sstep ?P ^^ 8) ?A i" by simp
  have "cells w (push_bit 8 reg) i = cells w reg (i + 8)"
    using w unfolding cells_def bit_push_bit_iff by auto
  with t show "cells w ((push_bit 8 reg XOR make_crc_table sp ! unat (ucast ((drop_bit (w - 8) reg XOR ucast b) AND 0xFF) :: u8)) AND crc_mask w) i =
      foldl (feed ?P) (cells w reg) (byte_bits False b) i"
    using w(2) unfolding idx_def [symmetric] by (auto simp: feed_byte cells_def bit_and_iff bit_xor_iff bit_crc_mask)
qed

lemma fold_low_feeds:
  assumes "crc_ok sp" and "cs_ref_in sp"
  shows "bit (fold_low (make_crc_table sp) data reg) =
    foldl (feed (cells (cs_width sp) (cs_poly sp))) (bit reg) (concat (map (byte_bits True) data))"
  unfolding fold_low_def Let_def by (rule foldl_bytes) (rule fold_low_step [OF assms])

lemma fold_high_feeds:
  assumes "crc_ok sp" and "\<not> cs_ref_in sp"
  shows "cells (cs_width sp) (fold_high (cs_width sp) (make_crc_table sp) data reg) =
    foldl (feed (cells (cs_width sp) (cs_poly sp))) (cells (cs_width sp) reg) (concat (map (byte_bits False) data))"
  unfolding fold_high_def Let_def by (rule foldl_bytes) (rule fold_high_step [OF assms])

subsection \<open>The reference register\<close>

definition as_cells :: "bool list \<Rightarrow> nat \<Rightarrow> bool" where
  "as_cells xs = (\<lambda>i. i < length xs \<and> xs ! i)"

lemma length_word_bits [simp]: "length (word_bits w x) = w"
  by (simp add: word_bits_def)

lemma as_cells_word_bits: "as_cells (word_bits w x) = cells w x"
  by (auto simp: as_cells_def word_bits_def cells_def)

lemma lfsr_step_cells:
  assumes "length reg = length poly" and "reg \<noteq> []"
  shows "as_cells (lfsr_step poly reg b) = feed (as_cells poly) (as_cells reg) b"
    and "length (lfsr_step poly reg b) = length poly"
proof -
  have shifted: "(tl reg @ [False]) ! i = as_cells reg (Suc i)" if "i < length reg" for i
    using that by (cases reg) (auto simp: as_cells_def nth_append less_Suc_eq)
  have first: "as_cells reg 0 = hd reg" using assms(2) by (simp add: as_cells_def hd_conv_nth)
  show len: "length (lfsr_step poly reg b) = length poly"
    using assms by (cases reg) (simp_all add: lfsr_step_def Let_def)
  have "as_cells (lfsr_step poly reg b) i = feed (as_cells poly) (as_cells reg) b i" for i
  proof (cases "i < length poly")
    case True
    then have "lfsr_step poly reg b ! i = (as_cells reg (Suc i) \<noteq> ((hd reg \<noteq> b) \<and> poly ! i))"
      using shifted [of i] assms by (cases "hd reg = b") (auto simp: lfsr_step_def Let_def)
    with True len show ?thesis by (simp add: as_cells_def [of poly] as_cells_def [of "lfsr_step poly reg b"] feed_def sstep_def first)
  next
    case False
    with len assms(1) show ?thesis by (simp add: as_cells_def feed_def sstep_def)
  qed
  then show "as_cells (lfsr_step poly reg b) = feed (as_cells poly) (as_cells reg) b" by (rule ext)
qed

lemma lfsr_run:
  assumes "length reg = length poly" and "reg \<noteq> []"
  shows "as_cells (foldl (lfsr_step poly) reg bs) = foldl (feed (as_cells poly)) (as_cells reg) bs \<and>
    length (foldl (lfsr_step poly) reg bs) = length poly"
  using assms
proof (induction bs arbitrary: reg)
  case (Cons b bs)
  from lfsr_step_cells [OF Cons.prems, of b] Cons.prems have "lfsr_step poly reg b \<noteq> []"
    by (metis length_0_conv)
  with Cons.IH [of "lfsr_step poly reg b"] lfsr_step_cells [OF Cons.prems, of b] show ?case by simp
qed simp

lemma crc_register_cells:
  assumes "crc_ok sp"
  shows "as_cells (crc_register sp data) = foldl (feed (cells (cs_width sp) (cs_poly sp))) (cells (cs_width sp) (cs_init sp))
      (concat (map (byte_bits (cs_ref_in sp)) data))"
    and "length (crc_register sp data) = cs_width sp"
proof -
  have "word_bits (cs_width sp) (cs_init sp) \<noteq> []"
    using assms by (metis crc_ok_def length_0_conv length_word_bits not_one_le_zero)
  from lfsr_run [OF _ this, of "word_bits (cs_width sp) (cs_poly sp)"]
  show "as_cells (crc_register sp data) = foldl (feed (cells (cs_width sp) (cs_poly sp))) (cells (cs_width sp) (cs_init sp))
      (concat (map (byte_bits (cs_ref_in sp)) data))"
    and "length (crc_register sp data) = cs_width sp"
    by (simp_all add: crc_register_def as_cells_word_bits)
qed

lemma crc_bit:
  fixes sp :: "'a::len word crc_spec"
  assumes "crc_ok sp"
  shows "bit (crc sp data) i \<longleftrightarrow> i < cs_width sp \<and>
    as_cells (crc_register sp data) (if cs_ref_out sp then i else cs_width sp - 1 - i) \<noteq> bit (cs_xor_out sp) i"
proof -
  let ?w = "cs_width sp" and ?L = "as_cells (crc_register sp data)"
  have w: "?w \<le> LENGTH('a)" using assms by (simp add: crc_ok_def)
  show ?thesis
  proof (cases "cs_ref_in sp")
    case True
    then have "bit (fold_low (make_crc_table sp) data (reflect_bits (cs_init sp) ?w)) = ?L"
      using assms w by (simp add: fold_low_feeds bit_reflected crc_register_cells)
    with True w show ?thesis
      by (auto simp: crc_def crc_fold_def Let_def bit_and_iff bit_xor_iff bit_crc_mask bit_reflect)
  next
    case False
    then have "cells ?w (fold_high ?w (make_crc_table sp) data (cs_init sp)) = ?L"
      using assms by (simp add: fold_high_feeds crc_register_cells)
    then have "i < ?w \<and> bit (fold_high ?w (make_crc_table sp) data (cs_init sp)) (?w - 1 - i) \<longleftrightarrow> ?L i" for i
      by (auto simp: cells_def fun_eq_iff)
    from this [of i] this [of "?w - 1 - i"] False w show ?thesis
      by (auto simp: crc_def crc_fold_def Let_def bit_and_iff bit_xor_iff bit_crc_mask bit_reflect)
  qed
qed

subsection \<open>Error detection\<close>













subsection \<open>Properties\<close>

text \<open>C26: for every specification the table-driven check, at once, is the shift register that takes the
message bit by bit in the order the specification asks for.\<close>

theorem crc_is_shift_register:
  assumes "crc_ok sp"
  shows "word_bits (cs_width sp) (crc sp data) = crc_reference sp data \<and>
    (\<forall>i. bit (crc sp data) i \<longrightarrow> i < cs_width sp)"
proof (intro conjI allI impI)
  let ?w = "cs_width sp" and ?r = "crc_register sp data"
  have len: "length ?r = ?w" using assms by (rule crc_register_cells)
  show "word_bits ?w (crc sp data) = crc_reference sp data"
  proof (rule nth_equalityI)
    fix i assume "i < length (word_bits ?w (crc sp data))"
    then have i: "i < ?w" by simp
    have "crc_reference sp data ! i = (?r ! (if cs_ref_out sp then ?w - 1 - i else i) \<noteq> bit (cs_xor_out sp) (?w - 1 - i))"
      using i len by (simp add: crc_reference_def Let_def word_bits_def rev_nth)
    moreover have "bit (crc sp data) (?w - 1 - i) = (?r ! (if cs_ref_out sp then ?w - 1 - i else i) \<noteq> bit (cs_xor_out sp) (?w - 1 - i))"
      using i len by (auto simp: crc_bit [OF assms] as_cells_def)
    ultimately show "word_bits ?w (crc sp data) ! i = crc_reference sp data ! i"
      using i by (simp add: word_bits_def)
  qed (simp add: crc_reference_def Let_def len)
qed (simp add: crc_bit [OF assms])

lemma crc_is_shift_register_witness:
  "word_bits 32 (crc crc32_ieee_spec [0x31, 0x32]) = crc_reference crc32_ieee_spec [0x31, 0x32]"
proof -
  have "crc_ok crc32_ieee_spec" by (simp add: crc_ok_def crc32_ieee_spec_def)
  from crc_is_shift_register [OF this, of "[0x31, 0x32]"] show ?thesis by (simp add: crc32_ieee_spec_def)
qed

text \<open>However a message is cut into pieces, the streaming check gives the value of the whole.\<close>

lemma crc_ctx_streams:
  "ctx_value sp (fold (ctx_update sp) pieces (ctx_reset sp c)) = crc sp (concat pieces)"
proof -
  have "cx_reg (fold (ctx_update sp) pieces c) =
      (if cs_ref_in sp then fold_low (make_crc_table sp) (concat pieces) (cx_reg c)
       else fold_high (cs_width sp) (make_crc_table sp) (concat pieces) (cx_reg c))" for c
    by (induction pieces arbitrary: c) (simp_all add: ctx_update_def ctx_fold_def Let_def fold_low_def fold_high_def)
  then show ?thesis
    by (auto simp: ctx_value_def ctx_reset_def initial_reg_def crc_def crc_fold_def Let_def)
qed



end
