(* ===== verification/Modular_Sum.thy ===== *)
theory Modular_Sum
  imports Prelude
begin

text \<open>
  The Adler and Fletcher checksums of \<open>algorithm/checksum/modular_sum.hpp\<close>: two running sums in 64 bits,
  reduced once per block of input units only. The reference keeps unbounded sums and reduces at the
  end. The result type is a type parameter, \<open>std::uint16_t\<close>, \<open>std::uint32_t\<close> or \<open>std::uint64_t\<close>
  by the width of a sum; the template argument \<open>Spec\<close> is an argument.
\<close>

subsection \<open>The code\<close>

definition modular_sum_block :: nat where
  "modular_sum_block = 5552"

record modular_sum_spec =
  ms_unit_bytes :: nat
  ms_sum_bits :: nat
  ms_modulus :: u64
  ms_init1 :: u64

definition input_unit :: "nat \<Rightarrow> byte list \<Rightarrow> nat \<Rightarrow> u64" where
  "input_unit unit bytes i =
     fold (\<lambda>j u. if i + j < length bytes then u OR push_bit (8 * j) (ucast (bytes ! (i + j))) else u) [0..<unit] 0"

text \<open>The loop ends because a unit has at least one byte.\<close>

partial_function (option) sum_loop ::
  "modular_sum_spec \<Rightarrow> byte list \<Rightarrow> nat \<Rightarrow> u64 \<Rightarrow> u64 \<Rightarrow> nat \<Rightarrow> (u64 \<times> u64) option" where
  "sum_loop sp bytes i sum1 sum2 since =
     (if i < length bytes then
        let u = input_unit (ms_unit_bytes sp) bytes i;
            i = i + ms_unit_bytes sp;
            sum1 = sum1 + u;
            sum2 = sum2 + sum1;
            since = since + 1
        in if since = modular_sum_block
           then sum_loop sp bytes i (sum1 mod ms_modulus sp) (sum2 mod ms_modulus sp) 0
           else sum_loop sp bytes i sum1 sum2 since
      else Some (sum1, sum2))"

declare sum_loop.simps [code]

definition modular_sum :: "modular_sum_spec \<Rightarrow> byte list \<Rightarrow> 'v::len word \<Rightarrow> 'v word option" where
  "modular_sum sp bytes seed =
     (let w = ms_sum_bits sp; m = ms_modulus sp;
          low_mask = push_bit w 1 - 1 :: u64;
          sum1 = (ucast seed AND low_mask) mod m;
          sum2 = (drop_bit w (ucast seed) AND low_mask) mod m
      in case sum_loop sp bytes 0 sum1 sum2 0 of
           None \<Rightarrow> None
         | Some (sum1, sum2) \<Rightarrow> Some (ucast (push_bit w (sum2 mod m) OR (sum1 mod m))))"

text \<open>The seed's default value, and the overload for text.\<close>

definition default_seed :: "modular_sum_spec \<Rightarrow> 'v::len word" where
  "default_seed sp = ucast (ms_init1 sp)"

definition modular_sum_text :: "modular_sum_spec \<Rightarrow> byte list \<Rightarrow> 'v::len word \<Rightarrow> 'v word option" where
  "modular_sum_text sp s seed = modular_sum sp s seed"

definition adler32_spec :: modular_sum_spec where
  "adler32_spec = \<lparr>ms_unit_bytes = 1, ms_sum_bits = 16, ms_modulus = 65521, ms_init1 = 1\<rparr>"

definition fletcher16_spec :: modular_sum_spec where
  "fletcher16_spec = \<lparr>ms_unit_bytes = 1, ms_sum_bits = 8, ms_modulus = 255, ms_init1 = 0\<rparr>"

definition fletcher32_spec :: modular_sum_spec where
  "fletcher32_spec = \<lparr>ms_unit_bytes = 2, ms_sum_bits = 16, ms_modulus = 65535, ms_init1 = 0\<rparr>"

definition fletcher64_spec :: modular_sum_spec where
  "fletcher64_spec = \<lparr>ms_unit_bytes = 4, ms_sum_bits = 32, ms_modulus = 4294967295, ms_init1 = 0\<rparr>"

definition adler32 :: "byte list \<Rightarrow> u32 \<Rightarrow> u32 option" where
  "adler32 bytes seed = modular_sum adler32_spec bytes seed"

definition adler32_text :: "byte list \<Rightarrow> u32 \<Rightarrow> u32 option" where
  "adler32_text s seed = modular_sum_text adler32_spec s seed"

definition fletcher16 :: "byte list \<Rightarrow> u16 option" where
  "fletcher16 bytes = modular_sum fletcher16_spec bytes (default_seed fletcher16_spec)"

definition fletcher16_text :: "byte list \<Rightarrow> u16 option" where
  "fletcher16_text s = modular_sum_text fletcher16_spec s (default_seed fletcher16_spec)"

definition fletcher32 :: "byte list \<Rightarrow> u32 option" where
  "fletcher32 bytes = modular_sum fletcher32_spec bytes (default_seed fletcher32_spec)"

definition fletcher32_text :: "byte list \<Rightarrow> u32 option" where
  "fletcher32_text s = modular_sum_text fletcher32_spec s (default_seed fletcher32_spec)"

definition fletcher64 :: "byte list \<Rightarrow> u64 option" where
  "fletcher64 bytes = modular_sum fletcher64_spec bytes (default_seed fletcher64_spec)"

definition fletcher64_text :: "byte list \<Rightarrow> u64 option" where
  "fletcher64_text s = modular_sum_text fletcher64_spec s (default_seed fletcher64_spec)"

subsection \<open>The reference\<close>

fun le_value :: "byte list \<Rightarrow> nat" where
  "le_value [] = 0"
| "le_value (b # bs) = unat b + 256 * le_value bs"

text \<open>The units of the input from byte \<open>i\<close> on, the last one filled up with zero bytes.\<close>

function units_from :: "nat \<Rightarrow> byte list \<Rightarrow> nat \<Rightarrow> nat list" where
  "units_from unit bytes i =
     (if 0 < unit \<and> i < length bytes
      then le_value (take unit (drop i bytes)) # units_from unit bytes (i + unit) else [])"
  by pat_completeness auto
termination by (relation "measure (\<lambda>(unit, bytes, i). length bytes - i)") auto

declare units_from.simps [simp del]

definition running_sums :: "nat \<Rightarrow> nat \<Rightarrow> nat list \<Rightarrow> nat \<times> nat" where
  "running_sums a b us = foldl (\<lambda>(a, b) u. (a + u, b + (a + u))) (a, b) us"

text \<open>What the static assertions of the code ask of a specification, and the width of the result.\<close>

definition ms_ok :: "modular_sum_spec \<Rightarrow> 'v::len itself \<Rightarrow> bool" where
  "ms_ok sp v \<longleftrightarrow> 1 \<le> ms_unit_bytes sp \<and> ms_unit_bytes sp \<le> 4 \<and>
     8 \<le> ms_sum_bits sp \<and> ms_sum_bits sp \<le> 32 \<and> 2 \<le> ms_modulus sp \<and>
     unat (ms_modulus sp) \<le> 2 ^ ms_sum_bits sp \<and> LENGTH('v) = (if ms_sum_bits sp \<le> 8 then 16 else if ms_sum_bits sp \<le> 16 then 32 else 64)"

subsection \<open>One unit\<close>

lemma le_value_less: "le_value bs < 256 ^ length bs"
proof (induction bs)
  case (Cons b bs)
  have "unat b < 256" by simp
  with Cons show ?case by (simp del: unat_byte_less)
qed simp

lemma le_value_append: "le_value (xs @ ys) = le_value xs + 256 ^ length xs * le_value ys"
  by (induction xs) (simp_all add: algebra_simps)

lemma or_high:
  fixes x y :: u64
  assumes "unat x < 2 ^ n" and "unat x + 2 ^ n * unat y < 2 ^ 64"
  shows "unat (x OR push_bit n y) = unat x + 2 ^ n * unat y"
proof -
  have "unat (push_bit n y) = take_bit 64 (push_bit n (unat y))"
    by (simp add: unsigned_push_bit_eq)
  then have y: "unat (push_bit n y) = 2 ^ n * unat y"
    using assms(2) by (simp add: push_bit_eq_mult take_bit_nat_eq_self mult.commute)
  have "x AND push_bit n y = 0"
  proof (rule bit_eqI)
    fix m
    have "\<not> bit x m" if "n \<le> m"
    proof -
      have "unat x < 2 ^ m" using assms(1) that by (meson less_le_trans power_increasing one_le_numeral)
      then have "\<not> bit (unat x) m" by (simp add: bit_iff_odd)
      then show ?thesis by (simp add: bit_unsigned_iff)
    qed
    then show "bit (x AND push_bit n y) m \<longleftrightarrow> bit 0 m"
      by (cases "n \<le> m") (simp_all add: bit_and_iff bit_push_bit_iff)
  qed
  then have "x OR push_bit n y = x + push_bit n y"
    using word_plus_and_or [of x "push_bit n y"] by simp
  then show ?thesis using y assms(2) by (simp add: unat_word_ariths)
qed

lemma or_high_byte:
  assumes "unat x < 2 ^ (8 * k)" and "k \<le> 3"
  shows "unat (x OR push_bit (8 * k) (ucast (c :: byte)) :: u64) = unat x + 256 ^ k * unat c"
proof -
  have c: "unat (ucast c :: u64) = unat c" "unat c < 256"
    by (simp_all add: unsigned_ucast_eq take_bit_nat_eq_self less_trans [OF unat_byte_less])
  have "k = 0 \<or> k = 1 \<or> k = 2 \<or> k = 3" using assms(2) by linarith
  then have "unat x + 2 ^ (8 * k) * unat (ucast c :: u64) < 2 ^ 64"
    using assms(1) c by (elim disjE) (simp_all del: unat_byte_less)
  from or_high [OF assms(1) this] c(1) show ?thesis by (simp add: power_mult)
qed

lemma input_unit_value:
  assumes "unit \<le> 4"
  shows "unat (input_unit unit bytes i) = le_value (take unit (drop i bytes))"
proof -
  let ?f = "\<lambda>j u :: u64. if i + j < length bytes then u OR push_bit (8 * j) (ucast (bytes ! (i + j))) else u"
  have "unat (fold ?f [0..<k] 0) = le_value (take k (drop i bytes))" if "k \<le> 4" for k
    using that
  proof (induction k)
    case (Suc k)
    show ?case
    proof (cases "i + k < length bytes")
      case True
      have "le_value (take k (drop i bytes)) < 2 ^ (8 * k)"
        using le_value_less [of "take k (drop i bytes)"] True by (simp add: power_mult)
      with Suc True show ?thesis
        by (simp add: take_Suc_conv_app_nth le_value_append or_high_byte)
    qed (use Suc in simp)
  qed simp
  with assms show ?thesis by (simp add: input_unit_def)
qed

subsection \<open>The loop\<close>

lemma running_sums_Nil [simp]: "running_sums a b [] = (a, b)"
  and running_sums_Cons [simp]: "running_sums a b (u # us) = running_sums (a + u) (b + (a + u)) us"
  by (simp_all add: running_sums_def)

definition same_mod :: "nat \<Rightarrow> nat \<times> nat \<Rightarrow> nat \<times> nat \<Rightarrow> bool" where
  "same_mod m p q \<longleftrightarrow> fst p mod m = fst q mod m \<and> snd p mod m = snd q mod m"

lemma same_mod_step:
  "same_mod m (a, b) (a', b') \<Longrightarrow> same_mod m (a + u, b + (a + u)) (a' + u, b' + (a' + u))"
  by (simp add: same_mod_def) (metis mod_add_cong)

lemma running_sums_mod:
  "same_mod m (a, b) (a', b') \<Longrightarrow> same_mod m (running_sums a b us) (running_sums a' b' us)"
proof (induction us arbitrary: a b a' b')
  case (Cons u us)
  from Cons.IH [OF same_mod_step [OF Cons.prems]] show ?case by simp
qed simp

text \<open>Between two reductions the sums stay far below \<open>2 ^ 64\<close>.\<close>

definition sums_bounded :: "u64 \<Rightarrow> u64 \<Rightarrow> nat \<Rightarrow> bool" where
  "sums_bounded s1 s2 since \<longleftrightarrow> since < modular_sum_block \<and>
     unat s1 \<le> 2 ^ 32 * (since + 1) \<and> unat s2 \<le> 2 ^ 32 * (since + 1)\<^sup>2"

lemma sums_bounded_step:
  assumes "sums_bounded s1 s2 since" and "unat u < 2 ^ 32"
  shows "unat (s1 + u) = unat s1 + unat u" and "unat (s2 + (s1 + u)) = unat s2 + (unat s1 + unat u)"
    and "since + 1 \<noteq> modular_sum_block \<Longrightarrow> sums_bounded (s1 + u) (s2 + (s1 + u)) (since + 1)"
proof -
  have c: "since \<le> 5551" "unat s1 \<le> 2 ^ 32 * (since + 1)" "unat s2 \<le> 2 ^ 32 * (since + 1)\<^sup>2"
    using assms(1) by (simp_all add: sums_bounded_def modular_sum_block_def)
  have a: "unat s1 + unat u \<le> 2 ^ 32 * (since + 1 + 1)" using c(2) assms(2) by simp
  have "(since + 1)\<^sup>2 + (since + 1 + 1) \<le> (since + 1 + 1)\<^sup>2" by (simp add: power2_eq_square)
  then have "2 ^ 32 * (since + 1)\<^sup>2 + 2 ^ 32 * (since + 1 + 1) \<le> 2 ^ 32 * (since + 1 + 1)\<^sup>2"
    by (metis distrib_left mult_le_mono2)
  with a c(3) have b: "unat s2 + (unat s1 + unat u) \<le> 2 ^ 32 * (since + 1 + 1)\<^sup>2" by linarith
  have "(since + 1 + 1)\<^sup>2 \<le> 5553\<^sup>2" using c(1) by (intro power_mono) simp_all
  with b have "unat s2 + (unat s1 + unat u) < 2 ^ 64" by simp
  then show u: "unat (s1 + u) = unat s1 + unat u" "unat (s2 + (s1 + u)) = unat s2 + (unat s1 + unat u)"
    by (simp_all add: unat_word_ariths)
  show "sums_bounded (s1 + u) (s2 + (s1 + u)) (since + 1)" if "since + 1 \<noteq> modular_sum_block"
    using that a b assms(1) unfolding sums_bounded_def u by simp
qed

lemma sum_loop_ok:
  assumes "1 \<le> ms_unit_bytes sp" and "ms_unit_bytes sp \<le> 4" and "2 \<le> unat (ms_modulus sp)" and "unat (ms_modulus sp) \<le> 2 ^ 32"
    and "sums_bounded s1 s2 since" and "same_mod (unat (ms_modulus sp)) (unat s1, unat s2) (a, b)"
  shows "\<exists>t1 t2. sum_loop sp bytes i s1 s2 since = Some (t1, t2) \<and>
    same_mod (unat (ms_modulus sp)) (unat t1, unat t2) (running_sums a b (units_from (ms_unit_bytes sp) bytes i))"
  using assms(5,6)
proof (induction "length bytes - i" arbitrary: i s1 s2 since a b rule: less_induct)
  case less
  let ?unit = "ms_unit_bytes sp" and ?m = "unat (ms_modulus sp)"
  show ?case
  proof (cases "i < length bytes")
    case True
    define u where "u = input_unit ?unit bytes i"
    have uv: "unat u = le_value (take ?unit (drop i bytes))" using assms(2) by (simp add: u_def input_unit_value)
    have "length (take ?unit (drop i bytes)) \<le> 4" using assms(2) by simp
    then have "(256 :: nat) ^ length (take ?unit (drop i bytes)) \<le> 256 ^ 4" by (intro power_increasing) simp_all
    with le_value_less [of "take ?unit (drop i bytes)"] uv have u32: "unat u < 2 ^ 32" by simp
    note step = sums_bounded_step [OF less.prems(1) u32]
    have cong: "same_mod ?m (unat (s1 + u), unat (s2 + (s1 + u))) (a + unat u, b + (a + unat u))"
      unfolding step(1,2) by (rule same_mod_step [OF less.prems(2)])
    have us: "units_from ?unit bytes i = unat u # units_from ?unit bytes (i + ?unit)"
      using True assms(1) by (subst units_from.simps) (simp add: uv)
    have shorter: "length bytes - (i + ?unit) < length bytes - i" using True assms(1) by linarith
    show ?thesis
    proof (cases "since + 1 = modular_sum_block")
      case block: True
      let ?r1 = "(s1 + u) mod ms_modulus sp" and ?r2 = "(s2 + (s1 + u)) mod ms_modulus sp"
      have "0 < ?m" using assms(3) by linarith
      then have "unat ?r1 < ?m" "unat ?r2 < ?m" unfolding unat_mod by (rule mod_less_divisor)+
      then have "sums_bounded ?r1 ?r2 0" using assms(4) by (simp add: sums_bounded_def modular_sum_block_def)
      moreover have "same_mod ?m (unat ?r1, unat ?r2) (a + unat u, b + (a + unat u))"
        using cong by (simp add: same_mod_def unat_mod)
      ultimately show ?thesis
        using less.hyps [OF shorter] True block us by (subst sum_loop.simps) (simp add: Let_def u_def)
    next
      case False
      with less.hyps [OF shorter step(3) [OF False] cong] True us show ?thesis
        by (subst sum_loop.simps) (simp add: Let_def u_def)
    qed
  next
    case False
    then have "units_from ?unit bytes i = []" by (subst units_from.simps) simp
    with False less.prems(2) show ?thesis by (subst sum_loop.simps) simp
  qed
qed

subsection \<open>The result\<close>

definition seed_sums :: "modular_sum_spec \<Rightarrow> 'v::len word \<Rightarrow> nat \<times> nat" where
  "seed_sums sp seed = (unat seed mod 2 ^ ms_sum_bits sp, unat seed div 2 ^ ms_sum_bits sp mod 2 ^ ms_sum_bits sp)"

definition packed_sums :: "modular_sum_spec \<Rightarrow> nat \<times> nat \<Rightarrow> nat" where
  "packed_sums sp p = snd p mod unat (ms_modulus sp) * 2 ^ ms_sum_bits sp + fst p mod unat (ms_modulus sp)"

lemma unat_low_bits:
  fixes x :: u64
  assumes "w \<le> 32"
  shows "unat (x AND (push_bit w 1 - 1)) = unat x mod 2 ^ w"
proof -
  have "x AND (push_bit w 1 - 1) = take_bit w x"
    by (simp add: take_bit_eq_mask mask_eq_exp_minus_1 push_bit_of_1)
  then show ?thesis by (simp only: unsigned_take_bit_eq take_bit_nat_def)
qed

text \<open>No sum wraps around between two reductions, so for every input, of any length, the result packs the
two sums that unbounded arithmetic gives, each reduced modulo the modulus.\<close>

lemma modular_sum_exact:
  fixes seed :: "'v::len word"
  assumes "ms_ok sp TYPE('v)"
  shows "\<exists>v. modular_sum sp bytes seed = Some v \<and>
    unat v = packed_sums sp (case seed_sums sp seed of (a, b) \<Rightarrow> running_sums a b (units_from (ms_unit_bytes sp) bytes 0))"
proof -
  let ?w = "ms_sum_bits sp" and ?m = "unat (ms_modulus sp)"
  have ok: "1 \<le> ms_unit_bytes sp" "ms_unit_bytes sp \<le> 4" "8 \<le> ?w" "?w \<le> 32" "2 \<le> ?m" "?m \<le> 2 ^ ?w" "?w + ?w \<le> LENGTH('v)" "LENGTH('v) \<le> 64"
    using assms by (auto simp: ms_ok_def word_le_nat_alt split: if_splits)
  have "(2 :: nat) ^ ?w \<le> 2 ^ 32" using ok(4) by (rule power_increasing) simp
  with ok(6) have m32: "?m \<le> 2 ^ 32" by linarith
  have seed: "unat (ucast seed :: u64) = unat seed"
  proof -
    have "(2 :: nat) ^ LENGTH('v) \<le> 2 ^ 64" using ok(8) by (rule power_increasing) simp
    with unsigned_less [of seed, where ?'a = nat] have "unat seed < 2 ^ 64" by linarith
    then show ?thesis by (simp add: unsigned_ucast_eq take_bit_nat_eq_self)
  qed
  define s1 where "s1 = (ucast seed AND (push_bit ?w 1 - 1)) mod ms_modulus sp"
  define s2 where "s2 = (drop_bit ?w (ucast seed) AND (push_bit ?w 1 - 1)) mod ms_modulus sp"
  obtain a b where ab: "seed_sums sp seed = (a, b)" by fastforce
  have high: "unat (drop_bit ?w (ucast seed :: u64)) = unat seed div 2 ^ ?w"
    by (simp only: unat_drop_bit_eq seed drop_bit_nat_def)
  have s: "unat s1 = a mod ?m" "unat s2 = b mod ?m"
    using ab ok(4) by (simp_all add: s1_def s2_def seed_sums_def unat_mod unat_low_bits seed high del: push_bit_of_1)
  moreover have m0: "0 < ?m" using ok(5) by linarith
  ultimately have "unat s1 < ?m" "unat s2 < ?m" by (simp_all only: mod_less_divisor)
  with m32 have "sums_bounded s1 s2 0" by (simp add: sums_bounded_def modular_sum_block_def)
  moreover have "same_mod ?m (unat s1, unat s2) (a, b)" using s by (simp add: same_mod_def)
  ultimately obtain t1 t2 where t: "sum_loop sp bytes 0 s1 s2 0 = Some (t1, t2)"
    "same_mod ?m (unat t1, unat t2) (running_sums a b (units_from (ms_unit_bytes sp) bytes 0))"
    using sum_loop_ok [OF ok(1,2,5) m32] by blast
  let ?p = "t2 mod ms_modulus sp" and ?q = "t1 mod ms_modulus sp"
  let ?r = "push_bit ?w ?p OR ?q"
  have q: "unat ?q < 2 ^ ?w" "unat ?p < 2 ^ ?w"
    unfolding unat_mod using mod_less_divisor [OF m0] ok(6) by (meson less_le_trans)+
  have "unat ?q + 2 ^ ?w * unat ?p < 2 ^ ?w * (unat ?p + 1)" using q(1) by simp
  also have "\<dots> \<le> 2 ^ ?w * 2 ^ ?w" using q(2) by (intro mult_le_mono2) simp
  also have "\<dots> = 2 ^ (?w + ?w)" by (simp add: power_add)
  also have "\<dots> \<le> 2 ^ LENGTH('v)" using ok(7) by (rule power_increasing) simp
  finally have fits: "unat ?q + 2 ^ ?w * unat ?p < 2 ^ LENGTH('v)" .
  also have "\<dots> \<le> 2 ^ 64" using ok(8) by (rule power_increasing) simp
  finally have r: "unat ?r = unat ?q + 2 ^ ?w * unat ?p"
    using or_high [OF q(1), of ?p] by (simp add: or.commute)
  have "modular_sum sp bytes seed = Some (ucast ?r)"
    using t(1) by (simp add: modular_sum_def Let_def s1_def s2_def del: push_bit_of_1)
  moreover have "unat (ucast ?r :: 'v word) = unat ?q + 2 ^ ?w * unat ?p"
    using fits r by (simp add: unsigned_ucast_eq take_bit_nat_eq_self)
  ultimately show ?thesis
    using t(2) ab by (simp add: packed_sums_def same_mod_def unat_mod mult.commute add.commute)
qed

text \<open>A checksum is continued by passing the previous one as the seed.\<close>

lemma units_from_shift: "units_from unit (xs @ ys) (length xs + i) = units_from unit ys i"
proof (induction "length ys - i" arbitrary: i rule: less_induct)
  case less
  show ?case
  proof (cases "0 < unit \<and> i < length ys")
    case True
    then have "length ys - (i + unit) < length ys - i" by linarith
    from less.hyps [OF this] True show ?thesis
      by (subst (1 2) units_from.simps) (simp add: add.assoc)
  qed (subst (1 2) units_from.simps, auto)
qed

lemma units_from_append:
  "unit dvd length xs - i \<Longrightarrow> i \<le> length xs \<Longrightarrow> 0 < unit \<Longrightarrow>
    units_from unit (xs @ ys) i = units_from unit xs i @ units_from unit ys 0"
proof (induction "length xs - i" arbitrary: i rule: less_induct)
  case less
  show ?case
  proof (cases "i < length xs")
    case True
    then have unit: "unit \<le> length xs - i" using less.prems(1) by (simp add: dvd_imp_le)
    have "length xs - (i + unit) < length xs - i" using True less.prems(3) by linarith
    moreover have "length xs - (i + unit) = (length xs - i) - unit" by simp
    then have "unit dvd length xs - (i + unit)" using less.prems(1) by (metis dvd_diff_nat dvd_refl)
    ultimately have "units_from unit (xs @ ys) (i + unit) = units_from unit xs (i + unit) @ units_from unit ys 0"
      using less.hyps [of "i + unit"] unit True less.prems(3) by simp
    with True unit less.prems(3) show ?thesis
      by (subst (1 2) units_from.simps) simp
  next
    case False
    with less.prems(2) have "i = length xs + 0" by simp
    moreover have "units_from unit xs (length xs + 0) = []" by (subst units_from.simps) simp
    ultimately show ?thesis using units_from_shift [of unit xs ys 0] by simp
  qed
qed

lemma running_sums_append: "running_sums a b (us @ vs) = (case running_sums a b us of (a, b) \<Rightarrow> running_sums a b vs)"
  by (simp add: running_sums_def split: prod.split)

lemma modular_sum_resumes:
  fixes seed :: "'v::len word"
  assumes "ms_ok sp TYPE('v)" and "ms_unit_bytes sp dvd length xs"
  shows "(case modular_sum sp xs seed of None \<Rightarrow> None | Some v \<Rightarrow> modular_sum sp ys v) = modular_sum sp (xs @ ys) seed"
proof -
  let ?m = "unat (ms_modulus sp)" and ?w = "ms_sum_bits sp" and ?us = "\<lambda>bs. units_from (ms_unit_bytes sp) bs 0"
  obtain a b where ab: "seed_sums sp seed = (a, b)" by fastforce
  obtain c d where cd: "running_sums a b (?us xs) = (c, d)" by fastforce
  obtain v where v: "modular_sum sp xs seed = Some v" "unat v = packed_sums sp (c, d)"
    using modular_sum_exact [OF assms(1), of xs seed] ab cd by auto
  have m: "0 < ?m" "?m \<le> 2 ^ ?w" using assms(1) by (auto simp: ms_ok_def word_le_nat_alt)
  have less: "c mod ?m < 2 ^ ?w" "d mod ?m < 2 ^ ?w" using m by (meson less_le_trans mod_less_divisor)+
  then have seed: "seed_sums sp v = (c mod ?m, d mod ?m)"
    by (simp add: seed_sums_def v(2) packed_sums_def)
  obtain r where r: "modular_sum sp ys v = Some r" "unat r = packed_sums sp (running_sums (c mod ?m) (d mod ?m) (?us ys))"
    using modular_sum_exact [OF assms(1), of ys v] seed by auto
  have "1 \<le> ms_unit_bytes sp" using assms(1) by (simp add: ms_ok_def)
  then have us: "?us (xs @ ys) = ?us xs @ ?us ys" using assms(2) by (simp add: units_from_append)
  obtain q where q: "modular_sum sp (xs @ ys) seed = Some q" "unat q = packed_sums sp (running_sums c d (?us ys))"
    using modular_sum_exact [OF assms(1), of "xs @ ys" seed] ab cd us by (auto simp: running_sums_append)
  have "same_mod ?m (running_sums (c mod ?m) (d mod ?m) (?us ys)) (running_sums c d (?us ys))"
    by (rule running_sums_mod) (simp add: same_mod_def)
  with r(2) q(2) have "unat r = unat q" by (simp add: packed_sums_def same_mod_def)
  then have "r = q" by (rule unsigned_word_eqI)
  with v(1) r(1) q(1) show ?thesis by simp
qed

end
