(* ===== verification/Keyed_Map.thy ===== *)
theory Keyed_Map
  imports Prelude
begin

text \<open>
  The interface of a map container: a lookup function, an insertion that refuses a key it has, and
  an erasure. \<open>None\<close> as a result would be a call that does not return, and the laws exclude it. A
  set container is a client that stores no values.
\<close>

locale keyed_map =
  fixes ok :: "'m \<Rightarrow> bool"
    and get :: "'m \<Rightarrow> 'k \<Rightarrow> 'v option"
    and ins :: "'k \<Rightarrow> 'v \<Rightarrow> 'm \<Rightarrow> (bool \<times> 'm) option"
    and del :: "'k \<Rightarrow> 'm \<Rightarrow> (bool \<times> 'm) option"
  assumes ins_law: "ok m \<Longrightarrow> \<exists>m'. ins k v m = Some (get m k = None, m') \<and> ok m' \<and>
      get m' = (if get m k = None then (get m)(k \<mapsto> v) else get m)"
    and del_law: "ok m \<Longrightarrow> \<exists>m'. del k m = Some (get m k \<noteq> None, m') \<and> ok m' \<and> get m' = (get m)(k := None)"
begin

lemma ins_dom:
  assumes "ok m"
  obtains m' where "ins k v m = Some (k \<notin> dom (get m), m')" and "ok m'" and "dom (get m') = insert k (dom (get m))"
proof -
  from ins_law [OF assms, of k v] obtain m' where m': "ins k v m = Some (get m k = None, m')" "ok m'"
    "get m' = (if get m k = None then (get m)(k \<mapsto> v) else get m)" by blast
  have "dom (get m') = insert k (dom (get m))" using m'(3) by (auto simp: dom_def)
  with that m'(1,2) show ?thesis by (simp add: domIff)
qed

lemma del_dom:
  assumes "ok m"
  obtains m' where "del k m = Some (k \<in> dom (get m), m')" and "ok m'" and "dom (get m') = dom (get m) - {k}"
proof -
  from del_law [OF assms, of k] obtain m' where m': "del k m = Some (get m k \<noteq> None, m')" "ok m'"
    "get m' = (get m)(k := None)" by blast
  with that show ?thesis by (simp add: domIff)
qed

text \<open>Inserting a list of keys, as a constructor from an initializer list does.\<close>

fun ins_all :: "'v \<Rightarrow> 'k list \<Rightarrow> 'm \<Rightarrow> 'm option" where
  "ins_all v [] m = Some m"
| "ins_all v (k # ks) m = (case ins k v m of None \<Rightarrow> None | Some (_, m) \<Rightarrow> ins_all v ks m)"

lemma ins_all_dom:
  "ok m \<Longrightarrow> \<exists>m'. ins_all v ks m = Some m' \<and> ok m' \<and> dom (get m') = dom (get m) \<union> set ks"
proof (induction ks arbitrary: m)
  case (Cons k ks)
  obtain m1 where m1: "ins k v m = Some (k \<notin> dom (get m), m1)" "ok m1" "dom (get m1) = insert k (dom (get m))"
    by (rule ins_dom [OF Cons.prems])
  from Cons.IH [OF m1(2)] m1 show ?case by auto
qed simp

end

end
