(* ===== verification/Flat_Hash_Map.thy ===== *)
theory Flat_Hash_Map
  imports Keyed_Map
begin

text \<open>
  The open-addressing hash map of \<open>container/flat_hash_map.hpp\<close>: linear probing over a power of two of
  slots, tombstones, and growth at seven eighths. The hash and the key comparison are arguments. The
  probing loops end only because some slot is empty, so they are partial functions. A pointer to a
  mapped value is the index of its slot; the abstract view is a finite map from keys to values, up to
  the key comparison.
\<close>

subsection \<open>The code: slots and probing\<close>

datatype slot_state = Slot_empty | Slot_occupied | Slot_tombstone

record ('k, 'v) hslot =
  hs_state :: slot_state
  hs_hash :: u64
  hs_entry :: "('k \<times> 'v) option"

record ('k, 'v) hmap =
  hm_slots :: "('k, 'v) hslot list"
  hm_size :: nat
  hm_tombstones :: nat

definition hm_default :: "('k, 'v) hmap" where
  "hm_default = \<lparr>hm_slots = [], hm_size = 0, hm_tombstones = 0\<rparr>"

definition empty_slot :: "('k, 'v) hslot" where
  "empty_slot = \<lparr>hs_state = Slot_empty, hs_hash = 0, hs_entry = None\<rparr>"

definition initial_capacity :: nat where
  "initial_capacity = 16"

definition next_pow2 :: "nat \<Rightarrow> nat" where
  "next_pow2 n = (if n < 2 then 1 else bit_ceil n)"

definition bucket_of :: "('k, 'v) hmap \<Rightarrow> u64 \<Rightarrow> nat" where
  "bucket_of m h = (if hm_slots m = [] then 0 else unat (h AND of_nat (length (hm_slots m) - 1)))"

definition load_threshold :: "('k, 'v) hmap \<Rightarrow> nat" where
  "load_threshold m = (length (hm_slots m) * 7) div 8"

definition probe_next :: "nat \<Rightarrow> ('k, 'v) hmap \<Rightarrow> nat" where
  "probe_next index m = (index + 1) AND (length (hm_slots m) - 1)"

partial_function (option) place_from ::
  "('k \<Rightarrow> 'k \<Rightarrow> bool) \<Rightarrow> u64 \<Rightarrow> 'k \<Rightarrow> 'v \<Rightarrow> bool \<Rightarrow> nat \<Rightarrow> nat \<Rightarrow> ('k, 'v) hmap \<Rightarrow> (bool \<times> ('k, 'v) hmap) option" where
  "place_from eq h key v overwrite index first_tombstone m =
     (let n = length (hm_slots m);
          current = hm_slots m ! index
      in case hs_state current of
           Slot_empty \<Rightarrow>
             let target = (if first_tombstone < n then first_tombstone else index);
                 tombstones = (if hs_state (hm_slots m ! target) = Slot_tombstone
                               then hm_tombstones m - 1 else hm_tombstones m)
             in Some (True, m\<lparr>hm_slots := (hm_slots m)[target :=
                    \<lparr>hs_state = Slot_occupied, hs_hash = h, hs_entry = Some (key, v)\<rparr>],
                  hm_tombstones := tombstones, hm_size := hm_size m + 1\<rparr>)
         | Slot_tombstone \<Rightarrow>
             place_from eq h key v overwrite (probe_next index m)
               (if first_tombstone = n then index else first_tombstone) m
         | Slot_occupied \<Rightarrow>
             if hs_hash current = h \<and> eq (fst (the (hs_entry current))) key then
               Some (False, if overwrite
                 then m\<lparr>hm_slots := (hm_slots m)[index := current\<lparr>hs_entry := Some (fst (the (hs_entry current)), v)\<rparr>]\<rparr>
                 else m)
             else place_from eq h key v overwrite (probe_next index m) first_tombstone m)"

definition place ::
  "('k \<Rightarrow> 'k \<Rightarrow> bool) \<Rightarrow> u64 \<Rightarrow> 'k \<Rightarrow> 'v \<Rightarrow> bool \<Rightarrow> ('k, 'v) hmap \<Rightarrow> (bool \<times> ('k, 'v) hmap) option" where
  "place eq h key v overwrite m = place_from eq h key v overwrite (bucket_of m h) (length (hm_slots m)) m"

fun rehash_slots ::
  "('k \<Rightarrow> 'k \<Rightarrow> bool) \<Rightarrow> ('k, 'v) hslot list \<Rightarrow> ('k, 'v) hmap \<Rightarrow> ('k, 'v) hmap option" where
  "rehash_slots eq [] m = Some m"
| "rehash_slots eq (old # olds) m =
     (if hs_state old = Slot_occupied then
        case place eq (hs_hash old) (fst (the (hs_entry old))) (snd (the (hs_entry old))) False m of
          None \<Rightarrow> None
        | Some (_, m) \<Rightarrow> rehash_slots eq olds m
      else rehash_slots eq olds m)"

definition rehash :: "('k \<Rightarrow> 'k \<Rightarrow> bool) \<Rightarrow> nat \<Rightarrow> ('k, 'v) hmap \<Rightarrow> ('k, 'v) hmap option" where
  "rehash eq new_bucket_count m =
     rehash_slots eq (hm_slots m)
       \<lparr>hm_slots = replicate (next_pow2 new_bucket_count) empty_slot, hm_size = 0, hm_tombstones = 0\<rparr>"

definition ensure_capacity_for ::
  "('k \<Rightarrow> 'k \<Rightarrow> bool) \<Rightarrow> nat \<Rightarrow> ('k, 'v) hmap \<Rightarrow> ('k, 'v) hmap option" where
  "ensure_capacity_for eq desired_entries m =
     (if hm_slots m = [] then rehash eq (max initial_capacity (next_pow2 (desired_entries * 8 div 7 + 1))) m
      else if load_threshold m < desired_entries + hm_tombstones m then
        if desired_entries < load_threshold m div 2 then rehash eq (length (hm_slots m)) m
        else rehash eq (length (hm_slots m) * 2) m
      else Some m)"

text \<open>A slot is found by its index; \<open>Some None\<close> is the null pointer.\<close>

partial_function (option) probe_from ::
  "('k \<Rightarrow> 'k \<Rightarrow> bool) \<Rightarrow> u64 \<Rightarrow> 'k \<Rightarrow> nat \<Rightarrow> ('k, 'v) hmap \<Rightarrow> nat option option" where
  "probe_from eq h key index m =
     (let current = hm_slots m ! index
      in if hs_state current = Slot_empty then Some None
         else if hs_state current = Slot_occupied \<and> hs_hash current = h \<and> eq (fst (the (hs_entry current))) key
         then Some (Some index)
         else probe_from eq h key (probe_next index m) m)"

declare place_from.simps [code] probe_from.simps [code]

definition probe_slot ::
  "('k \<Rightarrow> u64) \<Rightarrow> ('k \<Rightarrow> 'k \<Rightarrow> bool) \<Rightarrow> 'k \<Rightarrow> ('k, 'v) hmap \<Rightarrow> nat option option" where
  "probe_slot hash eq key m =
     (if hm_slots m = [] then Some None else probe_from eq (hash key) key (bucket_of m (hash key)) m)"

definition find_slot ::
  "('k \<Rightarrow> u64) \<Rightarrow> ('k \<Rightarrow> 'k \<Rightarrow> bool) \<Rightarrow> 'k \<Rightarrow> ('k, 'v) hmap \<Rightarrow> nat option option" where
  "find_slot hash eq key m = probe_slot hash eq key m"

definition erase_slot :: "nat option \<Rightarrow> ('k, 'v) hmap \<Rightarrow> bool \<times> ('k, 'v) hmap" where
  "erase_slot found m =
     (case found of
        None \<Rightarrow> (False, m)
      | Some i \<Rightarrow>
          (True, m\<lparr>hm_slots := (hm_slots m)[i := (hm_slots m ! i)\<lparr>hs_state := Slot_tombstone, hs_entry := None\<rparr>],
                   hm_size := hm_size m - 1, hm_tombstones := hm_tombstones m + 1\<rparr>))"

subsection \<open>The code: operations\<close>

definition hm_make :: "('k \<Rightarrow> 'k \<Rightarrow> bool) \<Rightarrow> nat \<Rightarrow> ('k, 'v) hmap option" where
  "hm_make eq expected_entries =
     (if expected_entries > 0 then rehash eq (next_pow2 (expected_entries * 8 div 7 + 1)) hm_default
      else Some hm_default)"

definition hm_reserve :: "('k \<Rightarrow> 'k \<Rightarrow> bool) \<Rightarrow> nat \<Rightarrow> ('k, 'v) hmap \<Rightarrow> ('k, 'v) hmap option" where
  "hm_reserve eq n m =
     (if n = 0 then Some m
      else let needed = next_pow2 (n * 8 div 7 + 1)
           in if length (hm_slots m) < needed then rehash eq needed m else Some m)"

definition hm_clear :: "('k, 'v) hmap \<Rightarrow> ('k, 'v) hmap" where
  "hm_clear m =
     m\<lparr>hm_slots := map (\<lambda>current. current\<lparr>hs_state := Slot_empty, hs_entry := None\<rparr>) (hm_slots m),
       hm_size := 0, hm_tombstones := 0\<rparr>"

definition hm_shrink_to_fit :: "('k \<Rightarrow> 'k \<Rightarrow> bool) \<Rightarrow> ('k, 'v) hmap \<Rightarrow> ('k, 'v) hmap option" where
  "hm_shrink_to_fit eq m =
     (if hm_size m = 0 then Some (m\<lparr>hm_slots := []\<rparr>)
      else let target = next_pow2 (hm_size m * 8 div 7 + 1)
           in if target < length (hm_slots m) \<or> 0 < hm_tombstones m then rehash eq target m else Some m)"

definition hm_swap :: "('k, 'v) hmap \<Rightarrow> ('k, 'v) hmap \<Rightarrow> ('k, 'v) hmap \<times> ('k, 'v) hmap" where
  "hm_swap a b = (b, a)"

definition hm_insert ::
  "('k \<Rightarrow> u64) \<Rightarrow> ('k \<Rightarrow> 'k \<Rightarrow> bool) \<Rightarrow> 'k \<Rightarrow> 'v \<Rightarrow> ('k, 'v) hmap \<Rightarrow> (bool \<times> ('k, 'v) hmap) option" where
  "hm_insert hash eq key v m =
     (case find_slot hash eq key m of
        None \<Rightarrow> None
      | Some (Some _) \<Rightarrow> Some (False, m)
      | Some None \<Rightarrow>
          case ensure_capacity_for eq (hm_size m + 1) m of
            None \<Rightarrow> None
          | Some m \<Rightarrow> place eq (hash key) key v False m)"

text \<open>A write through the pointer to a mapped value, and the lookup that returns one.\<close>

definition hm_store :: "nat \<Rightarrow> 'v \<Rightarrow> ('k, 'v) hmap \<Rightarrow> ('k, 'v) hmap" where
  "hm_store i v m =
     m\<lparr>hm_slots := (hm_slots m)[i := (hm_slots m ! i)\<lparr>hs_entry := Some (fst (the (hs_entry (hm_slots m ! i))), v)\<rparr>]\<rparr>"

definition hm_load :: "nat \<Rightarrow> ('k, 'v) hmap \<Rightarrow> 'v" where
  "hm_load i m = snd (the (hs_entry (hm_slots m ! i)))"

definition hm_find ::
  "('k \<Rightarrow> u64) \<Rightarrow> ('k \<Rightarrow> 'k \<Rightarrow> bool) \<Rightarrow> 'k \<Rightarrow> ('k, 'v) hmap \<Rightarrow> nat option option" where
  "hm_find hash eq key m = find_slot hash eq key m"

definition hm_insert_or_assign ::
  "('k \<Rightarrow> u64) \<Rightarrow> ('k \<Rightarrow> 'k \<Rightarrow> bool) \<Rightarrow> 'k \<Rightarrow> 'v \<Rightarrow> ('k, 'v) hmap \<Rightarrow> (bool \<times> ('k, 'v) hmap) option" where
  "hm_insert_or_assign hash eq key v m =
     (case hm_find hash eq key m of
        None \<Rightarrow> None
      | Some (Some existing) \<Rightarrow> Some (False, hm_store existing v m)
      | Some None \<Rightarrow>
          case ensure_capacity_for eq (hm_size m + 1) m of
            None \<Rightarrow> None
          | Some m \<Rightarrow> place eq (hash key) key v True m)"

text \<open>The value is constructed from the arguments of \<open>emplace\<close> by its own constructor.\<close>

definition hm_emplace ::
  "('k \<Rightarrow> u64) \<Rightarrow> ('k \<Rightarrow> 'k \<Rightarrow> bool) \<Rightarrow> ('a \<Rightarrow> 'v) \<Rightarrow> 'k \<Rightarrow> 'a \<Rightarrow> ('k, 'v) hmap \<Rightarrow> (bool \<times> ('k, 'v) hmap) option" where
  "hm_emplace hash eq construct key args m =
     (case find_slot hash eq key m of
        None \<Rightarrow> None
      | Some (Some _) \<Rightarrow> Some (False, m)
      | Some None \<Rightarrow>
          case ensure_capacity_for eq (hm_size m + 1) m of
            None \<Rightarrow> None
          | Some m \<Rightarrow> place eq (hash key) key (construct args) False m)"

definition hm_try_emplace ::
  "('k \<Rightarrow> u64) \<Rightarrow> ('k \<Rightarrow> 'k \<Rightarrow> bool) \<Rightarrow> ('a \<Rightarrow> 'v) \<Rightarrow> 'k \<Rightarrow> 'a \<Rightarrow> ('k, 'v) hmap \<Rightarrow> (bool \<times> ('k, 'v) hmap) option" where
  "hm_try_emplace hash eq construct key args m =
     (case find_slot hash eq key m of
        None \<Rightarrow> None
      | Some (Some _) \<Rightarrow> Some (False, m)
      | Some None \<Rightarrow>
          case ensure_capacity_for eq (hm_size m + 1) m of
            None \<Rightarrow> None
          | Some m \<Rightarrow> place eq (hash key) key (construct args) False m)"

definition hm_erase ::
  "('k \<Rightarrow> u64) \<Rightarrow> ('k \<Rightarrow> 'k \<Rightarrow> bool) \<Rightarrow> 'k \<Rightarrow> ('k, 'v) hmap \<Rightarrow> (bool \<times> ('k, 'v) hmap) option" where
  "hm_erase hash eq key m = map_option (\<lambda>found. erase_slot found m) (find_slot hash eq key m)"

definition hm_contains ::
  "('k \<Rightarrow> u64) \<Rightarrow> ('k \<Rightarrow> 'k \<Rightarrow> bool) \<Rightarrow> 'k \<Rightarrow> ('k, 'v) hmap \<Rightarrow> bool option" where
  "hm_contains hash eq key m = map_option (\<lambda>found. found \<noteq> None) (find_slot hash eq key m)"

definition hm_count ::
  "('k \<Rightarrow> u64) \<Rightarrow> ('k \<Rightarrow> 'k \<Rightarrow> bool) \<Rightarrow> 'k \<Rightarrow> ('k, 'v) hmap \<Rightarrow> nat option" where
  "hm_count hash eq key m = map_option (\<lambda>b. if b then 1 else 0) (hm_contains hash eq key m)"

definition hm_at ::
  "('k \<Rightarrow> u64) \<Rightarrow> ('k \<Rightarrow> 'k \<Rightarrow> bool) \<Rightarrow> 'k \<Rightarrow> ('k, 'v) hmap \<Rightarrow> nat option option" where
  "hm_at hash eq key m = hm_find hash eq key m"

text \<open>The reference that \<open>operator[]\<close> returns is the slot index; the null dereference is \<open>None\<close>.\<close>

definition hm_subscript ::
  "('k \<Rightarrow> u64) \<Rightarrow> ('k \<Rightarrow> 'k \<Rightarrow> bool) \<Rightarrow> 'v \<Rightarrow> 'k \<Rightarrow> ('k, 'v) hmap \<Rightarrow> (nat \<times> ('k, 'v) hmap) option" where
  "hm_subscript hash eq default_value key m =
     (case hm_find hash eq key m of
        None \<Rightarrow> None
      | Some (Some existing) \<Rightarrow> Some (existing, m)
      | Some None \<Rightarrow>
          case hm_insert hash eq key default_value m of
            None \<Rightarrow> None
          | Some (_, m) \<Rightarrow> (case hm_find hash eq key m of Some (Some i) \<Rightarrow> Some (i, m) | _ \<Rightarrow> None))"

subsection \<open>The code: iteration and comparison\<close>

function advance_to_occupied :: "('k, 'v) hslot list \<Rightarrow> nat \<Rightarrow> nat" where
  "advance_to_occupied slots i =
     (if i < length slots \<and> hs_state (slots ! i) \<noteq> Slot_occupied then advance_to_occupied slots (i + 1) else i)"
  by pat_completeness auto
termination by (relation "measure (\<lambda>(slots, i). length slots - i)") auto

declare advance_to_occupied.simps [simp del]

definition hm_begin :: "('k, 'v) hmap \<Rightarrow> nat" where
  "hm_begin m = advance_to_occupied (hm_slots m) 0"

definition hm_end :: "('k, 'v) hmap \<Rightarrow> nat" where
  "hm_end m = advance_to_occupied (hm_slots m) (length (hm_slots m))"

definition hm_deref :: "('k, 'v) hmap \<Rightarrow> nat \<Rightarrow> 'k \<times> 'v" where
  "hm_deref m i = the (hs_entry (hm_slots m ! i))"

definition hm_next :: "('k, 'v) hmap \<Rightarrow> nat \<Rightarrow> nat" where
  "hm_next m i = advance_to_occupied (hm_slots m) (i + 1)"

lemma advance_ge: "i \<le> advance_to_occupied slots i"
proof (induction slots i rule: advance_to_occupied.induct)
  case (1 slots i)
  then show ?case
    by (cases "i < length slots \<and> hs_state (slots ! i) \<noteq> Slot_occupied")
      (auto simp: advance_to_occupied.simps [of slots i])
qed

text \<open>The loop of \<open>operator==\<close> over the entries of the first map.\<close>

function equal_from ::
  "('k \<Rightarrow> u64) \<Rightarrow> ('k \<Rightarrow> 'k \<Rightarrow> bool) \<Rightarrow> ('k, 'v) hmap \<Rightarrow> ('k, 'v) hmap \<Rightarrow> nat \<Rightarrow> bool option" where
  "equal_from hash eq a b i =
     (if i < hm_end a then
        let (key, v) = hm_deref a i
        in case hm_find hash eq key b of
             None \<Rightarrow> None
           | Some None \<Rightarrow> Some False
           | Some (Some j) \<Rightarrow> if hm_load j b \<noteq> v then Some False else equal_from hash eq a b (hm_next a i)
      else Some True)"
  by pat_completeness auto
termination
proof (relation "measure (\<lambda>(hash, eq, a, b, i). hm_end a - i)")
  fix hash :: "'a \<Rightarrow> u64" and eq :: "'a \<Rightarrow> 'a \<Rightarrow> bool" and a b :: "('a, 'b) hmap" and i :: nat
  assume "i < hm_end a"
  moreover have "i < hm_next a i" using advance_ge [of "i + 1" "hm_slots a"] by (simp add: hm_next_def)
  ultimately show "((hash, eq, a, b, hm_next a i), hash, eq, a, b, i) \<in> measure (\<lambda>(hash, eq, a, b, i). hm_end a - i)"
    by simp
qed simp

declare equal_from.simps [simp del]

definition hm_equal :: "('k \<Rightarrow> u64) \<Rightarrow> ('k \<Rightarrow> 'k \<Rightarrow> bool) \<Rightarrow> ('k, 'v) hmap \<Rightarrow> ('k, 'v) hmap \<Rightarrow> bool option" where
  "hm_equal hash eq a b =
     (if hm_size a \<noteq> hm_size b then Some False else equal_from hash eq a b (hm_begin a))"

subsection \<open>The invariant and the abstract map\<close>

text \<open>The contract of \<open>std::hash\<close> and \<open>std::equal_to\<close> that the map relies on.\<close>

definition hash_ok :: "('k \<Rightarrow> u64) \<Rightarrow> ('k \<Rightarrow> 'k \<Rightarrow> bool) \<Rightarrow> bool" where
  "hash_ok hash eq \<longleftrightarrow> equivp eq \<and> (\<forall>a b. eq a b \<longrightarrow> hash a = hash b)"

lemma hash_okD:
  assumes "hash_ok hash eq"
  shows "eq a a" and "eq a b \<Longrightarrow> eq b a" and "eq a b \<Longrightarrow> eq b c \<Longrightarrow> eq a c" and "eq a b \<Longrightarrow> hash a = hash b"
  using assms by (auto simp: hash_ok_def intro: equivp_reflp equivp_symp equivp_transp)

definition st_count :: "slot_state \<Rightarrow> ('k, 'v) hslot list \<Rightarrow> nat" where
  "st_count st S = length (filter (\<lambda>s. hs_state s = st) S)"

definition bucket :: "('k, 'v) hslot list \<Rightarrow> u64 \<Rightarrow> nat" where
  "bucket S h = unat (h AND of_nat (length S - 1))"

text \<open>Slot \<open>i\<close> lies on the probe path from bucket \<open>b\<close>, with no empty slot before it.\<close>

definition on_path :: "('k, 'v) hslot list \<Rightarrow> nat \<Rightarrow> nat \<Rightarrow> bool" where
  "on_path S b i \<longleftrightarrow> (\<exists>j < length S. i = (b + j) mod length S \<and>
     (\<forall>j' < j. hs_state (S ! ((b + j') mod length S)) \<noteq> Slot_empty))"

definition slots_wf :: "('k \<Rightarrow> u64) \<Rightarrow> ('k \<Rightarrow> 'k \<Rightarrow> bool) \<Rightarrow> ('k, 'v) hslot list \<Rightarrow> bool" where
  "slots_wf hash eq S \<longleftrightarrow> (\<exists>p. length S = 2 ^ p) \<and>
     (\<forall>s \<in> set S. hs_state s = Slot_occupied \<longleftrightarrow> hs_entry s \<noteq> None) \<and>
     (\<forall>i < length S. \<forall>k v. hs_entry (S ! i) = Some (k, v) \<longrightarrow> hs_hash (S ! i) = hash k \<and> on_path S (bucket S (hash k)) i) \<and>
     (\<forall>i < length S. \<forall>j < length S. \<forall>k v k' v'.
        hs_entry (S ! i) = Some (k, v) \<longrightarrow> hs_entry (S ! j) = Some (k', v') \<longrightarrow> eq k k' \<longrightarrow> i = j)"

definition hm_wf :: "('k \<Rightarrow> u64) \<Rightarrow> ('k \<Rightarrow> 'k \<Rightarrow> bool) \<Rightarrow> ('k, 'v) hmap \<Rightarrow> bool" where
  "hm_wf hash eq m \<longleftrightarrow> (hm_slots m = [] \<and> hm_size m = 0) \<or>
     (slots_wf hash eq (hm_slots m) \<and> hm_size m = st_count Slot_occupied (hm_slots m) \<and>
      hm_tombstones m = st_count Slot_tombstone (hm_slots m) \<and>
      hm_size m + hm_tombstones m < length (hm_slots m))"

definition hm_set :: "('k, 'v) hmap \<Rightarrow> ('k \<times> 'v) set" where
  "hm_set m = {e. \<exists>i < length (hm_slots m). hs_entry (hm_slots m ! i) = Some e}"

definition hm_entries :: "('k, 'v) hmap \<Rightarrow> ('k \<times> 'v) list" where
  "hm_entries m = List.map_filter hs_entry (hm_slots m)"

definition hm_lookup :: "('k \<Rightarrow> 'k \<Rightarrow> bool) \<Rightarrow> ('k, 'v) hmap \<Rightarrow> 'k \<Rightarrow> 'v option" where
  "hm_lookup eq m k = map_option snd (List.find (\<lambda>(k', v). eq k' k) (hm_entries m))"

lemma set_hm_entries: "set (hm_entries m) = hm_set m"
proof -
  have "set (hm_entries m) = {e. \<exists>s \<in> set (hm_slots m). hs_entry s = Some e}"
    by (force simp: hm_entries_def List.map_filter_def image_iff)
  also have "\<dots> = hm_set m" unfolding hm_set_def
    by (rule set_eqI) (auto simp: in_set_conv_nth, metis nth_mem)
  finally show ?thesis .
qed

lemma st_count_update:
  "i < length S \<Longrightarrow> st_count st (S[i := s]) + of_bool (hs_state (S ! i) = st) = st_count st S + of_bool (hs_state s = st)"
proof (induction S arbitrary: i)
  case (Cons x S)
  then show ?case by (cases i) (auto simp: st_count_def)
qed simp

lemma st_count_all: "st_count Slot_empty S + st_count Slot_occupied S + st_count Slot_tombstone S = length S"
proof (induction S)
  case (Cons x S)
  then show ?case by (cases "hs_state x") (auto simp: st_count_def)
qed (simp add: st_count_def)

lemma some_empty:
  assumes "st_count Slot_occupied S + st_count Slot_tombstone S < length S"
  shows "\<exists>i < length S. hs_state (S ! i) = Slot_empty"
proof -
  have "0 < st_count Slot_empty S" using assms st_count_all [of S] by linarith
  then have "filter (\<lambda>s. hs_state s = Slot_empty) S \<noteq> []" by (simp add: st_count_def)
  then show ?thesis by (metis (mono_tags, lifting) filter_False in_set_conv_nth)
qed

lemma bucket_less: "0 < length S \<Longrightarrow> bucket S h < length S"
proof -
  assume S: "0 < length S"
  have "unat (h AND of_nat (length S - 1)) \<le> unat (of_nat (length S - 1) :: u64)"
    using word_and_le1 [of h "of_nat (length S - 1)"] by (simp add: word_le_nat_alt)
  also have "\<dots> \<le> length S - 1" by (simp add: unat_of_nat)
  finally show ?thesis using S unfolding bucket_def by linarith
qed

lemma bucket_of_slots: "hm_slots m \<noteq> [] \<Longrightarrow> bucket_of m h = bucket (hm_slots m) h"
  by (simp add: bucket_of_def bucket_def)

lemma probe_next_mod:
  assumes "length (hm_slots m) = 2 ^ p"
  shows "probe_next ((b + j) mod length (hm_slots m)) m = (b + Suc j) mod length (hm_slots m)"
proof -
  have "probe_next i m = (i + 1) mod 2 ^ p" for i
    using take_bit_eq_mask [of p "i + 1"] by (simp add: probe_next_def assms mask_eq_exp_minus_1 take_bit_eq_mod)
  then show ?thesis by (simp add: assms mod_Suc_eq)
qed

subsection \<open>Probing\<close>

definition slot_at :: "('k, 'v) hslot list \<Rightarrow> nat \<Rightarrow> nat \<Rightarrow> ('k, 'v) hslot" where
  "slot_at S b j = S ! ((b + j) mod length S)"

definition matches :: "('k \<Rightarrow> 'k \<Rightarrow> bool) \<Rightarrow> u64 \<Rightarrow> 'k \<Rightarrow> ('k, 'v) hslot \<Rightarrow> bool" where
  "matches eq h key s \<longleftrightarrow> hs_state s = Slot_occupied \<and> hs_hash s = h \<and> eq (fst (the (hs_entry s))) key"

text \<open>The number of steps to the first empty slot.\<close>

lemma first_empty:
  assumes "b < length S" and "\<exists>i < length S. hs_state (S ! i) = Slot_empty"
  obtains e where "e < length S" and "hs_state (slot_at S b e) = Slot_empty"
    and "\<And>j. j < e \<Longrightarrow> hs_state (slot_at S b j) \<noteq> Slot_empty"
proof -
  let ?n = "length S"
  obtain i where i: "i < ?n" "hs_state (S ! i) = Slot_empty" using assms(2) by blast
  have "(b + (?n + i - b) mod ?n) mod ?n = i"
    using i(1) assms(1) by (simp add: mod_add_right_eq)
  then have ex: "hs_state (slot_at S b ((?n + i - b) mod ?n)) = Slot_empty" using i(2) by (simp add: slot_at_def)
  define e where "e = (LEAST j. hs_state (slot_at S b j) = Slot_empty)"
  have "e \<le> (?n + i - b) mod ?n" unfolding e_def using ex by (rule Least_le)
  moreover have "(?n + i - b) mod ?n < ?n" using i(1) by (intro mod_less_divisor) linarith
  ultimately have "e < ?n" by linarith
  moreover have "hs_state (slot_at S b e) = Slot_empty" unfolding e_def using ex by (rule LeastI)
  moreover have "hs_state (slot_at S b j) \<noteq> Slot_empty" if "j < e" for j using that not_less_Least unfolding e_def by blast
  ultimately show ?thesis using that by blast
qed

lemma probe_from_ok:
  assumes "length (hm_slots m) = 2 ^ p" and "hs_state (slot_at (hm_slots m) b e) = Slot_empty"
    and "\<And>i. i < e \<Longrightarrow> hs_state (slot_at (hm_slots m) b i) \<noteq> Slot_empty"
    and "j \<le> e" and "\<And>i. i < j \<Longrightarrow> \<not> matches eq h key (slot_at (hm_slots m) b i)"
  shows "\<exists>r. probe_from eq h key ((b + j) mod length (hm_slots m)) m = Some r \<and>
    (case r of None \<Rightarrow> \<forall>i < e. \<not> matches eq h key (slot_at (hm_slots m) b i)
     | Some i \<Rightarrow> i < length (hm_slots m) \<and> matches eq h key (hm_slots m ! i))"
  using assms(4,5)
proof (induction "e - j" arbitrary: j)
  case 0
  then have "j = e" by simp
  with 0 assms(2) show ?case by (subst probe_from.simps) (simp add: slot_at_def)
next
  case (Suc d)
  then have "j < e" by simp
  have d: "d = e - Suc j" using Suc.hyps(2) by simp
  have n: "0 < length (hm_slots m)" by (simp add: assms(1))
  let ?i = "(b + j) mod length (hm_slots m)"
  show ?case
  proof (cases "matches eq h key (hm_slots m ! ?i)")
    case True
    then show ?thesis using n by (subst probe_from.simps) (simp add: matches_def)
  next
    case False
    have "\<not> matches eq h key (slot_at (hm_slots m) b i)" if "i < Suc j" for i
      using that Suc.prems(2) False by (cases "i = j") (auto simp: slot_at_def)
    then obtain r where r: "probe_from eq h key ((b + Suc j) mod length (hm_slots m)) m = Some r"
      "case r of None \<Rightarrow> \<forall>i < e. \<not> matches eq h key (slot_at (hm_slots m) b i)
       | Some i \<Rightarrow> i < length (hm_slots m) \<and> matches eq h key (hm_slots m ! i)"
      using Suc.hyps(1) [OF d Suc_leI [OF \<open>j < e\<close>]] by blast
    have "probe_from eq h key ?i m = probe_from eq h key (probe_next ?i m) m"
      using assms(3) [OF \<open>j < e\<close>] False by (subst probe_from.simps) (auto simp: slot_at_def matches_def Let_def)
    then show ?thesis using r probe_next_mod [OF assms(1), of b j] by auto
  qed
qed

lemma place_from_ok:
  assumes "length (hm_slots m) = 2 ^ p" and "hs_state (slot_at (hm_slots m) b e) = Slot_empty"
    and "\<And>i. i < e \<Longrightarrow> hs_state (slot_at (hm_slots m) b i) \<noteq> Slot_empty"
    and "\<And>i. i < e \<Longrightarrow> \<not> matches eq h key (slot_at (hm_slots m) b i)"
    and "j \<le> e"
    and "first = length (hm_slots m) \<or> (\<exists>i < j. first = (b + i) mod length (hm_slots m) \<and>
      hs_state (hm_slots m ! first) = Slot_tombstone)"
  shows "\<exists>t i. t = (b + i) mod length (hm_slots m) \<and> i \<le> e \<and> hs_state (hm_slots m ! t) \<noteq> Slot_occupied \<and>
    place_from eq h key v overwrite ((b + j) mod length (hm_slots m)) first m =
      Some (True, m\<lparr>hm_slots := (hm_slots m)[t := \<lparr>hs_state = Slot_occupied, hs_hash = h, hs_entry = Some (key, v)\<rparr>],
        hm_tombstones := (if hs_state (hm_slots m ! t) = Slot_tombstone then hm_tombstones m - 1 else hm_tombstones m),
        hm_size := hm_size m + 1\<rparr>)"
  using assms(5,6)
proof (induction "e - j" arbitrary: j first)
  case 0
  let ?n = "length (hm_slots m)"
  let ?t = "if first < ?n then first else (b + e) mod ?n"
  have j: "j = e" using 0 by simp
  have n: "0 < ?n" by (simp add: assms(1))
  have st: "hs_state (hm_slots m ! ((b + e) mod ?n)) = Slot_empty" using assms(2) by (simp add: slot_at_def)
  have "\<exists>i \<le> e. ?t = (b + i) mod ?n" using 0(3) j by (auto intro: less_imp_le)
  moreover have "hs_state (hm_slots m ! ?t) \<noteq> Slot_occupied" using 0(3) st by auto
  moreover have "place_from eq h key v overwrite ((b + j) mod ?n) first m =
      Some (True, m\<lparr>hm_slots := (hm_slots m)[?t := \<lparr>hs_state = Slot_occupied, hs_hash = h, hs_entry = Some (key, v)\<rparr>],
        hm_tombstones := (if hs_state (hm_slots m ! ?t) = Slot_tombstone then hm_tombstones m - 1 else hm_tombstones m),
        hm_size := hm_size m + 1\<rparr>)"
    using st j by (subst place_from.simps) (simp add: Let_def)
  ultimately show ?case by blast
next
  case (Suc d)
  let ?n = "length (hm_slots m)"
  let ?i = "(b + j) mod ?n"
  have j: "j < e" and d: "d = e - Suc j" using Suc.hyps(2) by simp_all
  define first' where "first' = (if hs_state (hm_slots m ! ?i) = Slot_tombstone \<and> first = ?n then ?i else first)"
  have "hs_state (hm_slots m ! ?i) \<noteq> Slot_empty" "\<not> matches eq h key (hm_slots m ! ?i)"
    using assms(3,4) [OF j] by (simp_all add: slot_at_def)
  then have "place_from eq h key v overwrite ?i first m = place_from eq h key v overwrite (probe_next ?i m) first' m"
    by (subst place_from.simps) (cases "hs_state (hm_slots m ! ?i)", auto simp: Let_def first'_def matches_def)
  moreover have "first' = ?n \<or> (\<exists>i < Suc j. first' = (b + i) mod ?n \<and> hs_state (hm_slots m ! first') = Slot_tombstone)"
    using Suc.prems(2) unfolding first'_def by (auto intro: less_SucI)
  note Suc.hyps(1) [OF d Suc_leI [OF j] this]
  ultimately show ?case by (simp only: probe_next_mod [OF assms(1)])
qed

subsection \<open>Lookup\<close>

lemma slots_wf_power: "slots_wf hash eq S \<Longrightarrow> \<exists>p. length S = 2 ^ p"
  by (simp add: slots_wf_def)

lemma slots_wf_entry:
  "slots_wf hash eq S \<Longrightarrow> i < length S \<Longrightarrow> hs_state (S ! i) = Slot_occupied \<longleftrightarrow> hs_entry (S ! i) \<noteq> None"
  by (simp add: slots_wf_def)

lemma slots_wf_key:
  assumes "slots_wf hash eq S" and "i < length S" and "hs_entry (S ! i) = Some (k, v)"
  shows "hs_hash (S ! i) = hash k" and "on_path S (bucket S (hash k)) i"
  using assms by (simp_all add: slots_wf_def)

lemma slots_wf_distinct:
  assumes "slots_wf hash eq S" and "i < length S" and "j < length S"
    and "hs_entry (S ! i) = Some (k, v)" and "hs_entry (S ! j) = Some (k', v')" and "eq k k'"
  shows "i = j"
  using assms unfolding slots_wf_def by blast

lemma find_slot_ok:
  assumes "hash_ok hash eq" and "hm_wf hash eq m"
  obtains r where "find_slot hash eq key m = Some r"
    and "\<And>i. r = Some i \<Longrightarrow> i < length (hm_slots m) \<and> (\<exists>k v. hs_entry (hm_slots m ! i) = Some (k, v) \<and> eq k key)"
    and "r = None \<Longrightarrow> \<forall>(k, v) \<in> hm_set m. \<not> eq k key"
proof (cases "hm_slots m = []")
  case True
  then have "find_slot hash eq key m = Some None" "hm_set m = {}"
    by (simp_all add: find_slot_def probe_slot_def hm_set_def)
  with that [of None] show ?thesis by simp
next
  case False
  let ?S = "hm_slots m" and ?b = "bucket (hm_slots m) (hash key)"
  have wf: "slots_wf hash eq ?S" and cnt: "st_count Slot_occupied ?S + st_count Slot_tombstone ?S < length ?S"
    using assms(2) False by (auto simp: hm_wf_def)
  obtain p where p: "length ?S = 2 ^ p" using slots_wf_power [OF wf] by blast
  have b: "?b < length ?S" using False by (simp add: bucket_less)
  obtain e where e: "e < length ?S" "hs_state (slot_at ?S ?b e) = Slot_empty"
    "\<And>j. j < e \<Longrightarrow> hs_state (slot_at ?S ?b j) \<noteq> Slot_empty"
    using first_empty [OF b some_empty [OF cnt]] by blast
  from probe_from_ok [OF p e(2,3), of 0 eq "hash key" key] b obtain r where
    r: "probe_from eq (hash key) key ?b m = Some r"
      "case r of None \<Rightarrow> \<forall>i < e. \<not> matches eq (hash key) key (slot_at ?S ?b i)
       | Some i \<Rightarrow> i < length ?S \<and> matches eq (hash key) key (?S ! i)" by auto
  have find: "find_slot hash eq key m = Some r"
    using False r(1) by (simp add: find_slot_def probe_slot_def bucket_of_slots)
  have "\<not> eq k key" if rn: "r = None" and mem: "(k, v) \<in> hm_set m" for k v
  proof
    assume "eq k key"
    then have h: "hash k = hash key" using hash_okD(4) [OF assms(1)] by blast
    obtain i where i: "i < length ?S" "hs_entry (?S ! i) = Some (k, v)" using mem by (auto simp: hm_set_def)
    have occ: "hs_state (?S ! i) = Slot_occupied" using slots_wf_entry [OF wf i(1)] i(2) by simp
    obtain j where j: "i = (?b + j) mod length ?S" "\<And>j'. j' < j \<Longrightarrow> hs_state (slot_at ?S ?b j') \<noteq> Slot_empty"
      using slots_wf_key(2) [OF wf i] h by (auto simp: on_path_def slot_at_def)
    have "slot_at ?S ?b j = ?S ! i" using j(1) by (simp add: slot_at_def)
    with occ e(2) have "j \<noteq> e" by auto
    with j(2) e(2) have "j < e" using linorder_neqE_nat by blast
    with r(2) rn have "\<not> matches eq (hash key) key (?S ! i)" using \<open>slot_at ?S ?b j = ?S ! i\<close> by auto
    moreover have "matches eq (hash key) key (?S ! i)"
      using occ i slots_wf_key(1) [OF wf i] h \<open>eq k key\<close> by (simp add: matches_def)
    ultimately show False by simp
  qed
  moreover have "i < length ?S \<and> (\<exists>k v. hs_entry (?S ! i) = Some (k, v) \<and> eq k key)" if ri: "r = Some i" for i
    using r(2) ri slots_wf_entry [OF wf, of i] by (auto simp: matches_def)
  ultimately show ?thesis using that [OF find] by blast
qed

lemma hm_set_distinct:
  assumes "hm_wf hash eq m" and "(k, v) \<in> hm_set m" and "(k', v') \<in> hm_set m" and "eq k k'"
  shows "k = k' \<and> v = v'"
proof (cases "hm_slots m = []")
  case False
  then have wf: "slots_wf hash eq (hm_slots m)" using assms(1) by (auto simp: hm_wf_def)
  obtain i j where ij: "i < length (hm_slots m)" "hs_entry (hm_slots m ! i) = Some (k, v)"
    "j < length (hm_slots m)" "hs_entry (hm_slots m ! j) = Some (k', v')"
    using assms(2,3) by (auto simp: hm_set_def)
  from slots_wf_distinct [OF wf ij(1,3,2,4) assms(4)] ij show ?thesis by simp
qed (use assms in \<open>simp add: hm_set_def\<close>)

lemma find_in_set: "List.find P xs = Some x \<Longrightarrow> x \<in> set xs \<and> P x"
  by (metis find_Some_iff nth_mem)

lemma hm_lookup_iff:
  assumes "hash_ok hash eq" and "hm_wf hash eq m"
  shows "hm_lookup eq m k = Some v \<longleftrightarrow> (\<exists>k'. (k', v) \<in> hm_set m \<and> eq k' k)"
proof
  assume "hm_lookup eq m k = Some v"
  then show "\<exists>k'. (k', v) \<in> hm_set m \<and> eq k' k"
    unfolding hm_lookup_def set_hm_entries [symmetric] by (auto dest!: find_in_set)
next
  assume "\<exists>k'. (k', v) \<in> hm_set m \<and> eq k' k"
  then obtain k' where k': "(k', v) \<in> hm_set m" "eq k' k" by blast
  then obtain e where e: "List.find (\<lambda>(k', v). eq k' k) (hm_entries m) = Some e"
    unfolding set_hm_entries [symmetric] by (cases "List.find (\<lambda>(k', v). eq k' k) (hm_entries m)") (auto simp: find_None_iff)
  then have "e \<in> hm_set m" "eq (fst e) k"
    unfolding set_hm_entries [symmetric] by (auto dest!: find_in_set)
  moreover have "eq (fst e) k'" using \<open>eq (fst e) k\<close> k'(2) hash_okD(2,3) [OF assms(1)] by blast
  ultimately have "e = (k', v)" using hm_set_distinct [OF assms(2), of "fst e" "snd e" k' v] k'(1) by (cases e) auto
  with e show "hm_lookup eq m k = Some v" by (simp add: hm_lookup_def)
qed

subsection \<open>Writing one slot\<close>

lemma on_path_mono:
  assumes "on_path S b i" and "length S' = length S"
    and "\<And>j. j < length S \<Longrightarrow> hs_state (S ! j) \<noteq> Slot_empty \<Longrightarrow> hs_state (S' ! j) \<noteq> Slot_empty"
  shows "on_path S' b i"
proof -
  obtain j where j: "j < length S" "i = (b + j) mod length S"
    "\<And>j'. j' < j \<Longrightarrow> hs_state (S ! ((b + j') mod length S)) \<noteq> Slot_empty"
    using assms(1) by (auto simp: on_path_def)
  then have "0 < length S" by linarith
  then have "(b + j') mod length S < length S" for j' by simp
  with j assms(2,3) show ?thesis unfolding on_path_def by auto
qed

lemma slots_wf_update:
  assumes "hash_ok hash eq" and "slots_wf hash eq S" and "i < length S" and "hs_state s \<noteq> Slot_empty"
    and "hs_state s = Slot_occupied \<longleftrightarrow> hs_entry s \<noteq> None"
    and "\<And>k v. hs_entry s = Some (k, v) \<Longrightarrow> hs_hash s = hash k \<and> on_path S (bucket S (hash k)) i \<and>
      (\<forall>j < length S. \<forall>k' v'. j \<noteq> i \<longrightarrow> hs_entry (S ! j) = Some (k', v') \<longrightarrow> \<not> eq k' k)"
  shows "slots_wf hash eq (S[i := s])"
proof -
  have path: "on_path (S[i := s]) b j" if "on_path S b j" for b j
    using on_path_mono [OF that, of "S[i := s]"] assms(3,4) by (auto simp: nth_list_update)
  have bucket: "bucket (S[i := s]) h = bucket S h" for h by (simp add: bucket_def)
  have sym: "\<not> eq k' k \<Longrightarrow> \<not> eq k k'" for k k' using hash_okD(2) [OF assms(1)] by blast
  show ?thesis
    unfolding slots_wf_def length_list_update bucket
  proof (intro conjI allI impI ballI)
    show "\<exists>p. length S = 2 ^ p" using assms(2) by (rule slots_wf_power)
  next
    fix x assume "x \<in> set (S[i := s])"
    then show "(hs_state x = Slot_occupied) = (hs_entry x \<noteq> None)"
      using assms(2,5) set_update_subset_insert [of S i s] by (auto simp: slots_wf_def)
  next
    fix j k v assume "j < length S" "hs_entry (S[i := s] ! j) = Some (k, v)"
    then show "hs_hash (S[i := s] ! j) = hash k" "on_path (S[i := s]) (bucket S (hash k)) j"
      using assms(3,6) slots_wf_key [OF assms(2), of j k v] path by (auto simp: nth_list_update split: if_splits)
  next
    fix j j' k v k' v'
    assume h: "j < length S" "j' < length S" "hs_entry (S[i := s] ! j) = Some (k, v)" "hs_entry (S[i := s] ! j') = Some (k', v')"
      and eq: "eq k k'"
    consider "j = i" "j' = i" | "j = i" "j' \<noteq> i" | "j \<noteq> i" "j' = i" | "j \<noteq> i" "j' \<noteq> i" by blast
    then show "j = j'"
    proof cases
      case 2
      with h have "hs_entry s = Some (k, v)" "hs_entry (S ! j') = Some (k', v')" by (simp_all add: nth_list_update)
      with assms(6) h(2) 2(2) sym eq show ?thesis by blast
    next
      case 3
      with h have "hs_entry s = Some (k', v')" "hs_entry (S ! j) = Some (k, v)" by (simp_all add: nth_list_update)
      with assms(6) h(1) 3(1) eq show ?thesis by blast
    next
      case 4
      with h have "hs_entry (S ! j) = Some (k, v)" "hs_entry (S ! j') = Some (k', v')" by (simp_all add: nth_list_update)
      with slots_wf_distinct [OF assms(2) h(1,2)] eq show ?thesis by blast
    qed simp
  qed
qed

lemma hm_set_update:
  assumes "i < length S" and "hm_slots m = S" and "hm_slots m' = S[i := s]"
  shows "hm_set m' = {e. hs_entry s = Some e} \<union> {e. \<exists>j < length S. j \<noteq> i \<and> hs_entry (S ! j) = Some e}"
  using assms by (auto simp: hm_set_def nth_list_update split: if_splits)

lemma place_ok:
  assumes "hash_ok hash eq" and "hm_wf hash eq m" and "hm_slots m \<noteq> []"
    and "\<And>k v. (k, v) \<in> hm_set m \<Longrightarrow> \<not> eq k key" and "hm_size m + hm_tombstones m + 1 < length (hm_slots m)"
  obtains m' where "place eq (hash key) key v overwrite m = Some (True, m')" and "hm_wf hash eq m'"
    and "hm_set m' = insert (key, v) (hm_set m)" and "hm_size m' = hm_size m + 1"
    and "hm_tombstones m' \<le> hm_tombstones m" and "length (hm_slots m') = length (hm_slots m)"
proof -
  let ?S = "hm_slots m" and ?h = "hash key"
  let ?b = "bucket ?S ?h" and ?new = "\<lparr>hs_state = Slot_occupied, hs_hash = hash key, hs_entry = Some (key, v)\<rparr>"
  have wf: "slots_wf hash eq ?S" and size: "hm_size m = st_count Slot_occupied ?S"
    and tombs: "hm_tombstones m = st_count Slot_tombstone ?S"
    and cnt: "st_count Slot_occupied ?S + st_count Slot_tombstone ?S < length ?S"
    using assms(2,3) by (auto simp: hm_wf_def)
  obtain p where p: "length ?S = 2 ^ p" using slots_wf_power [OF wf] by blast
  have b: "?b < length ?S" using assms(3) by (simp add: bucket_less)
  obtain e where e: "e < length ?S" "hs_state (slot_at ?S ?b e) = Slot_empty"
    "\<And>j. j < e \<Longrightarrow> hs_state (slot_at ?S ?b j) \<noteq> Slot_empty"
    using first_empty [OF b some_empty [OF cnt]] by blast
  have no_match: "\<not> matches eq ?h key (slot_at ?S ?b j)" for j
  proof
    let ?i = "(?b + j) mod length ?S"
    assume m: "matches eq ?h key (slot_at ?S ?b j)"
    have i: "?i < length ?S" using assms(3) by simp
    obtain k w where "hs_entry (?S ! ?i) = Some (k, w)" "eq k key"
      using m slots_wf_entry [OF wf i] by (auto simp: matches_def slot_at_def)
    moreover have "(k, w) \<in> hm_set m" using calculation(1) i by (auto simp: hm_set_def)
    ultimately show False using assms(4) by blast
  qed
  obtain t i where t: "t = (?b + i) mod length ?S" "i \<le> e" "hs_state (?S ! t) \<noteq> Slot_occupied"
    "place_from eq ?h key v overwrite ((?b + 0) mod length ?S) (length ?S) m =
      Some (True, m\<lparr>hm_slots := ?S[t := ?new],
        hm_tombstones := (if hs_state (?S ! t) = Slot_tombstone then hm_tombstones m - 1 else hm_tombstones m),
        hm_size := hm_size m + 1\<rparr>)" (is "_ = Some (True, ?m')")
    using place_from_ok [OF p e(2,3) no_match, of 0 "length ?S" v overwrite] by auto
  have tn: "t < length ?S" using t(1) assms(3) by simp
  have path: "on_path ?S ?b t"
    using t(1,2) e(1,3) unfolding on_path_def slot_at_def by (auto intro!: exI [of _ i])
  have none: "hs_entry (?S ! t) = None" using slots_wf_entry [OF wf tn] t(3) by blast
  have wf': "slots_wf hash eq (?S[t := ?new])"
    using path assms(4) by (intro slots_wf_update [OF assms(1) wf tn]) (auto simp: hm_set_def)
  have occ: "st_count Slot_occupied (?S[t := ?new]) = hm_size m + 1"
    using st_count_update [OF tn, of Slot_occupied ?new] t(3) size by simp
  have tmb: "st_count Slot_tombstone (?S[t := ?new]) = hm_tombstones ?m'"
    using st_count_update [OF tn, of Slot_tombstone ?new] tombs by (auto split: if_splits)
  have "hm_wf hash eq ?m'"
    unfolding hm_wf_def using wf' occ tmb assms(5) by (simp split: if_splits)
  moreover have "hm_set ?m' = insert (key, v) (hm_set m)"
    using hm_set_update [OF tn refl, of ?m' ?new] none by (auto simp: hm_set_def)
  moreover have "place eq ?h key v overwrite m = Some (True, ?m')"
    using t(4) b assms(3) by (simp add: place_def bucket_of_slots)
  ultimately show ?thesis using that by simp
qed

subsection \<open>Rehashing\<close>

definition distinct_slots :: "('k \<Rightarrow> 'k \<Rightarrow> bool) \<Rightarrow> ('k, 'v) hslot list \<Rightarrow> bool" where
  "distinct_slots eq = sorted_wrt (\<lambda>s s'. \<forall>k v k' v'. hs_entry s = Some (k, v) \<longrightarrow> hs_entry s' = Some (k', v') \<longrightarrow> \<not> eq k k')"

lemma rehash_slots_ok:
  assumes "hash_ok hash eq" and "hm_wf hash eq m" and "hm_slots m \<noteq> []" and "hm_tombstones m = 0"
    and "\<And>s. s \<in> set olds \<Longrightarrow> hs_state s = Slot_occupied \<longleftrightarrow> hs_entry s \<noteq> None"
    and "\<And>s k v. s \<in> set olds \<Longrightarrow> hs_entry s = Some (k, v) \<Longrightarrow>
      hs_hash s = hash k \<and> (\<forall>(k', v') \<in> hm_set m. \<not> eq k' k)"
    and "distinct_slots eq olds" and "hm_size m + st_count Slot_occupied olds < length (hm_slots m)"
  shows "\<exists>m'. rehash_slots eq olds m = Some m' \<and> hm_wf hash eq m' \<and> hm_tombstones m' = 0 \<and>
    hm_size m' = hm_size m + st_count Slot_occupied olds \<and> length (hm_slots m') = length (hm_slots m) \<and>
    hm_set m' = hm_set m \<union> {e. \<exists>s \<in> set olds. hs_entry s = Some e}"
  using assms(2-8)
proof (induction olds arbitrary: m)
  case Nil
  then show ?case by (simp add: st_count_def)
next
  case (Cons old olds)
  have distinct: "distinct_slots eq olds" using Cons.prems(6) by (simp add: distinct_slots_def)
  have rest1: "hs_state s = Slot_occupied \<longleftrightarrow> hs_entry s \<noteq> None" if "s \<in> set olds" for s
    using Cons.prems(4) [of s] that by simp
  have rest2: "hs_hash s = hash k \<and> (\<forall>(k', v') \<in> hm_set m. \<not> eq k' k)"
    if "s \<in> set olds" "hs_entry s = Some (k, v)" for s k v
    using Cons.prems(5) [of s k v] that by simp
  show ?case
  proof (cases "hs_entry old")
    case None
    then have "hs_state old \<noteq> Slot_occupied" using Cons.prems(4) by simp
    moreover have "st_count Slot_occupied (old # olds) = st_count Slot_occupied olds"
      using calculation by (simp add: st_count_def)
    ultimately show ?thesis
      using Cons.IH [OF Cons.prems(1-3) rest1 rest2 distinct] Cons.prems(7) None by simp
  next
    case (Some e)
    obtain k v where e: "e = (k, v)" by fastforce
    have occ: "hs_state old = Slot_occupied" using Some Cons.prems(4) by simp
    have count: "st_count Slot_occupied (old # olds) = Suc (st_count Slot_occupied olds)"
      using occ by (simp add: st_count_def)
    have h: "hs_hash old = hash k" "\<And>k' v'. (k', v') \<in> hm_set m \<Longrightarrow> \<not> eq k' k"
      using Cons.prems(5) [of old k v] Some e by auto
    have room: "hm_size m + hm_tombstones m + 1 < length (hm_slots m)"
      using Cons.prems(3,7) count by simp
    obtain m1 where m1: "place eq (hash k) k v False m = Some (True, m1)" "hm_wf hash eq m1"
      "hm_set m1 = insert (k, v) (hm_set m)" "hm_size m1 = hm_size m + 1"
      "hm_tombstones m1 \<le> hm_tombstones m" "length (hm_slots m1) = length (hm_slots m)"
      by (rule place_ok [OF assms(1) Cons.prems(1,2) h(2) room]) blast+
    have rest: "hs_hash s = hash k1 \<and> (\<forall>(k', v') \<in> hm_set m1. \<not> eq k' k1)" if "s \<in> set olds" "hs_entry s = Some (k1, v1)" for s k1 v1
      using Cons.prems(5) [of s k1 v1] Cons.prems(6) that Some e by (auto simp: m1(3) distinct_slots_def)
    have ne: "hm_slots m1 \<noteq> []" using m1(6) Cons.prems(2) by auto
    have t0: "hm_tombstones m1 = 0" using m1(5) Cons.prems(3) by simp
    have "hm_size m1 + st_count Slot_occupied olds < length (hm_slots m1)" using Cons.prems(7) count m1(4,6) by simp
    note IH = Cons.IH [OF m1(2) ne t0 rest1 _ distinct this]
    obtain m' where
      m': "rehash_slots eq olds m1 = Some m'" "hm_wf hash eq m'" "hm_tombstones m' = 0"
        "hm_size m' = hm_size m1 + st_count Slot_occupied olds" "length (hm_slots m') = length (hm_slots m1)"
        "hm_set m' = hm_set m1 \<union> {e. \<exists>s \<in> set olds. hs_entry s = Some e}" using IH rest by blast
    have "rehash_slots eq (old # olds) m = Some m'" using occ Some e h(1) m1(1) m'(1) by simp
    with m' m1(3,4,6) count Some e show ?thesis by auto
  qed
qed

lemma next_pow2_power: "\<exists>p. next_pow2 n = 2 ^ p"
  using bit_ceil_is_power [of n] by (auto simp: next_pow2_def intro: exI [of _ 0])

lemma next_pow2_ge: "n \<le> next_pow2 n" and next_pow2_pos: "0 < next_pow2 n"
  using bit_ceil_ge [of n] by (auto simp: next_pow2_def)

lemma next_pow2_of_power: "next_pow2 (2 ^ p) = 2 ^ p"
proof (cases p)
  case (Suc q)
  then have "\<not> (2 :: nat) ^ p < 2" by simp
  then show ?thesis by (simp add: next_pow2_def)
qed (simp add: next_pow2_def)

lemma rehash_ok:
  assumes "hash_ok hash eq" and "hm_wf hash eq m" and "hm_size m < next_pow2 n"
  obtains m' where "rehash eq n m = Some m'" and "hm_wf hash eq m'" and "hm_tombstones m' = 0"
    and "hm_size m' = hm_size m" and "length (hm_slots m') = next_pow2 n" and "hm_set m' = hm_set m"
proof -
  let ?fresh = "\<lparr>hm_slots = replicate (next_pow2 n) empty_slot, hm_size = 0, hm_tombstones = 0\<rparr> :: ('a, 'b) hmap"
  let ?S = "hm_slots m"
  obtain p where p: "next_pow2 n = 2 ^ p" using next_pow2_power by blast
  have empty: "hm_set ?fresh = {}" by (auto simp: hm_set_def empty_slot_def)
  have counts: "st_count st (hm_slots ?fresh) = (if st = Slot_empty then next_pow2 n else 0)" for st
    by (simp add: st_count_def empty_slot_def)
  have "slots_wf hash eq (hm_slots ?fresh)"
    unfolding slots_wf_def using p by (auto simp: empty_slot_def)
  then have wf: "hm_wf hash eq ?fresh" unfolding hm_wf_def using counts next_pow2_pos by simp
  have ne: "hm_slots ?fresh \<noteq> []" using next_pow2_pos [of n] by simp
  have olds: "(\<forall>s \<in> set ?S. (hs_state s = Slot_occupied \<longleftrightarrow> hs_entry s \<noteq> None) \<and>
      (\<forall>k v. hs_entry s = Some (k, v) \<longrightarrow> hs_hash s = hash k)) \<and> distinct_slots eq ?S \<and>
      st_count Slot_occupied ?S = hm_size m"
  proof (cases "?S = []")
    case True
    then show ?thesis using assms(2) by (auto simp: hm_wf_def distinct_slots_def st_count_def)
  next
    case False
    then have S: "slots_wf hash eq ?S" "hm_size m = st_count Slot_occupied ?S" using assms(2) by (auto simp: hm_wf_def)
    have "distinct_slots eq ?S"
      unfolding distinct_slots_def sorted_wrt_iff_nth_less
    proof (intro allI impI notI)
      fix i j k v k' v'
      assume "i < j" "j < length ?S" "hs_entry (?S ! i) = Some (k, v)" "hs_entry (?S ! j) = Some (k', v')" "eq k k'"
      then show False using slots_wf_distinct [OF S(1), of i j k v k' v'] by simp
    qed
    moreover have "hs_hash s = hash k" if "s \<in> set ?S" "hs_entry s = Some (k, v)" for s k v
      using that slots_wf_key(1) [OF S(1)] by (auto simp: in_set_conv_nth)
    ultimately show ?thesis using S by (simp add: slots_wf_def)
  qed
  have "hm_size ?fresh + st_count Slot_occupied ?S < length (hm_slots ?fresh)" using olds assms(3) by simp
  from rehash_slots_ok [OF assms(1) wf ne _ _ _ _ this] olds obtain m' where
    m': "rehash_slots eq ?S ?fresh = Some m'" "hm_wf hash eq m'" "hm_tombstones m' = 0" "hm_size m' = hm_size m"
      "length (hm_slots m') = next_pow2 n" "hm_set m' = {e. \<exists>s \<in> set ?S. hs_entry s = Some e}"
    by (auto simp: empty)
  moreover have "{e. \<exists>s \<in> set ?S. hs_entry s = Some e} = hm_set m"
    by (auto simp: hm_set_def in_set_conv_nth) (metis nth_mem)
  ultimately show ?thesis using that by (simp add: rehash_def)
qed

subsection \<open>Operations on the abstract map\<close>

lemma hm_wf_power:
  assumes "hm_wf hash eq m" and "hm_slots m \<noteq> []"
  shows "next_pow2 (length (hm_slots m)) = length (hm_slots m)"
    and "next_pow2 (length (hm_slots m) * 2) = length (hm_slots m) * 2"
proof -
  obtain p where p: "length (hm_slots m) = 2 ^ p" using assms by (auto simp: hm_wf_def dest: slots_wf_power)
  show "next_pow2 (length (hm_slots m)) = length (hm_slots m)" by (simp only: p next_pow2_of_power)
  have "length (hm_slots m) * 2 = 2 ^ Suc p" by (simp add: p)
  then show "next_pow2 (length (hm_slots m) * 2) = length (hm_slots m) * 2" by (simp only: next_pow2_of_power)
qed

lemma hm_wf_load:
  assumes "hm_wf hash eq m" and "hm_slots m \<noteq> []"
  shows "hm_size m + hm_tombstones m < length (hm_slots m)"
  using assms by (auto simp: hm_wf_def)

lemma ensure_capacity_ok:
  assumes "hash_ok hash eq" and "hm_wf hash eq m"
  obtains m' where "ensure_capacity_for eq (hm_size m + 1) m = Some m'" and "hm_wf hash eq m'"
    and "hm_set m' = hm_set m" and "hm_size m' = hm_size m" and "hm_slots m' \<noteq> []"
    and "hm_size m' + hm_tombstones m' + 1 < length (hm_slots m')"
proof -
  let ?n = "length (hm_slots m)" and ?d = "hm_size m + 1"
  have grown: thesis if "rehash eq c m = ensure_capacity_for eq ?d m" "hm_size m + 1 < next_pow2 c" for c
  proof -
    have "hm_size m < next_pow2 c" using that(2) by simp
    from rehash_ok [OF assms this] obtain m' where
      m': "rehash eq c m = Some m'" "hm_wf hash eq m'" "hm_tombstones m' = 0" "hm_size m' = hm_size m"
        "length (hm_slots m') = next_pow2 c" "hm_set m' = hm_set m" by blast
    then show thesis using \<open>\<And>m'. \<lbrakk>ensure_capacity_for eq ?d m = Some m'; hm_wf hash eq m'; hm_set m' = hm_set m;
        hm_size m' = hm_size m; hm_slots m' \<noteq> []; hm_size m' + hm_tombstones m' + 1 < length (hm_slots m')\<rbrakk> \<Longrightarrow> thesis\<close>
        that next_pow2_pos [of c] by force
  qed
  consider "hm_slots m = []"
    | "hm_slots m \<noteq> []" "?d + hm_tombstones m \<le> load_threshold m"
    | "hm_slots m \<noteq> []" "load_threshold m < ?d + hm_tombstones m" "?d < load_threshold m div 2"
    | "hm_slots m \<noteq> []" "load_threshold m < ?d + hm_tombstones m" "\<not> ?d < load_threshold m div 2" by linarith
  then show thesis
  proof cases
    case 1
    then have "hm_size m = 0" using assms(2) by (auto simp: hm_wf_def slots_wf_def)
    moreover have "16 \<le> next_pow2 (max initial_capacity (next_pow2 (?d * 8 div 7 + 1)))"
      using next_pow2_ge [of "max initial_capacity (next_pow2 (?d * 8 div 7 + 1))"] by (simp add: initial_capacity_def)
    ultimately show ?thesis
      using 1 by (intro grown [of "max initial_capacity (next_pow2 (?d * 8 div 7 + 1))"]) (simp_all add: ensure_capacity_for_def)
  next
    case 2
    have "?d + hm_tombstones m < ?n" using 2 by (cases "hm_slots m") (auto simp: load_threshold_def)
    with 2 show ?thesis using that [of m] assms(2) by (simp add: ensure_capacity_for_def)
  next
    case 3
    have "?d < ?n" using 3(3) unfolding load_threshold_def by linarith
    with 3 show ?thesis
      using hm_wf_power(1) [OF assms(2) 3(1)] by (intro grown [of ?n]) (simp_all add: ensure_capacity_for_def)
  next
    case 4
    have "?d < ?n * 2" using hm_wf_load [OF assms(2) 4(1)] by linarith
    with 4 show ?thesis
      using hm_wf_power(2) [OF assms(2) 4(1)] by (intro grown [of "?n * 2"]) (simp_all add: ensure_capacity_for_def)
  qed
qed

lemma lookup_None_iff:
  assumes "hash_ok hash eq" and "hm_wf hash eq m"
  shows "hm_lookup eq m k = None \<longleftrightarrow> (\<forall>(k', v) \<in> hm_set m. \<not> eq k' k)"
proof -
  have "hm_lookup eq m k = None \<longleftrightarrow> (\<forall>v. hm_lookup eq m k \<noteq> Some v)" by (cases "hm_lookup eq m k") auto
  then show ?thesis unfolding hm_lookup_iff [OF assms] by auto
qed

lemma option_eqI: "(\<And>w. x = Some w \<longleftrightarrow> y = Some w) \<Longrightarrow> x = y"
  by (cases x; cases y) auto

lemma lookup_add:
  assumes "hash_ok hash eq" and "hm_wf hash eq m" and "hm_wf hash eq m'"
    and "hm_set m' = insert (key, v) (hm_set m)" and "\<And>k v. (k, v) \<in> hm_set m \<Longrightarrow> \<not> eq k key"
  shows "hm_lookup eq m' = (\<lambda>k. if eq key k then Some v else hm_lookup eq m k)"
proof
  fix k
  show "hm_lookup eq m' k = (if eq key k then Some v else hm_lookup eq m k)"
  proof (cases "eq key k")
    case True
    then show ?thesis using hm_lookup_iff [OF assms(1,3), of k v] assms(4) by auto
  next
    case False
    then show ?thesis
      using hm_lookup_iff [OF assms(1,3), of k] hm_lookup_iff [OF assms(1,2), of k] assms(4)
      by (intro option_eqI) auto
  qed
qed

lemma lookup_drop:
  assumes "hash_ok hash eq" and "hm_wf hash eq m" and "hm_wf hash eq m'"
    and "hm_set m' = hm_set m - {(k0, v0)}" and "(k0, v0) \<in> hm_set m"
  shows "hm_lookup eq m' = (\<lambda>k. if eq k0 k then None else hm_lookup eq m k)"
proof
  fix k
  note eqD = hash_okD(2,3) [OF assms(1)]
  have other: "k' = k0 \<and> v' = v0" if "(k', v') \<in> hm_set m" "eq k' k" "eq k0 k" for k' v'
    using hm_set_distinct [OF assms(2) that(1) assms(5)] that(2,3) eqD by blast
  show "hm_lookup eq m' k = (if eq k0 k then None else hm_lookup eq m k)"
  proof (cases "eq k0 k")
    case True
    then have "hm_lookup eq m' k = None"
      using lookup_None_iff [OF assms(1,3), of k] assms(4) other by auto
    with True show ?thesis by simp
  next
    case False
    then show ?thesis
      using hm_lookup_iff [OF assms(1,3), of k] hm_lookup_iff [OF assms(1,2), of k] assms(4)
      by (intro option_eqI) auto
  qed
qed

lemma lookup_eq_key: "hash_ok hash eq \<Longrightarrow> eq a b \<Longrightarrow> eq a k = eq b k"
  using hash_okD(2,3) by metis

lemma lookup_cong:
  assumes "hash_ok hash eq" and "hm_wf hash eq m" and "eq a b"
  shows "hm_lookup eq m a = hm_lookup eq m b"
proof -
  have "eq k a = eq k b" for k using hash_okD(2,3) [OF assms(1)] assms(3) by metis
  then show ?thesis by (intro option_eqI) (simp add: hm_lookup_iff [OF assms(1,2)])
qed

subsubsection \<open>Insertion, assignment, erasure\<close>

lemma hm_set_nth: "i < length (hm_slots m) \<Longrightarrow> hs_entry (hm_slots m ! i) = Some e \<Longrightarrow> e \<in> hm_set m"
  by (auto simp: hm_set_def)

lemma hm_wf_nonempty: "hm_wf hash eq m \<Longrightarrow> i < length (hm_slots m) \<Longrightarrow> slots_wf hash eq (hm_slots m)"
  by (auto simp: hm_wf_def)

text \<open>The common tail of the inserting operations.\<close>

lemma grow_and_place_ok:
  assumes "hash_ok hash eq" and "hm_wf hash eq m" and "\<forall>(k, v) \<in> hm_set m. \<not> eq k key"
  shows "\<exists>m'. (case ensure_capacity_for eq (hm_size m + 1) m of None \<Rightarrow> None
      | Some m \<Rightarrow> place eq (hash key) key v overwrite m) = Some (True, m') \<and> hm_wf hash eq m' \<and>
    hm_size m' = hm_size m + 1 \<and> hm_set m' = insert (key, v) (hm_set m) \<and>
    hm_lookup eq m' = (\<lambda>k. if eq key k then Some v else hm_lookup eq m k)"
proof -
  obtain m1 where m1: "ensure_capacity_for eq (hm_size m + 1) m = Some m1" "hm_wf hash eq m1"
    "hm_set m1 = hm_set m" "hm_size m1 = hm_size m" "hm_slots m1 \<noteq> []"
    "hm_size m1 + hm_tombstones m1 + 1 < length (hm_slots m1)"
    by (rule ensure_capacity_ok [OF assms(1,2)]) blast
  have absent: "\<And>k v. (k, v) \<in> hm_set m \<Longrightarrow> \<not> eq k key" using assms(3) by auto
  then have absent1: "\<And>k v. (k, v) \<in> hm_set m1 \<Longrightarrow> \<not> eq k key" by (simp add: m1(3))
  obtain m' where m': "place eq (hash key) key v overwrite m1 = Some (True, m')" "hm_wf hash eq m'"
    "hm_set m' = insert (key, v) (hm_set m1)" "hm_size m' = hm_size m1 + 1"
    by (rule place_ok [OF assms(1) m1(2,5) absent1 m1(6), where v = v and overwrite = overwrite]) blast+
  have "hm_lookup eq m' = (\<lambda>k. if eq key k then Some v else hm_lookup eq m k)"
    using lookup_add [OF assms(1,2) m'(2) _ absent] m'(3) m1(3) by simp
  with m1 m' show ?thesis by simp
qed

lemma hm_insert_ok:
  assumes "hash_ok hash eq" and "hm_wf hash eq m"
  shows "\<exists>m'. hm_insert hash eq key v m = Some (hm_lookup eq m key = None, m') \<and> hm_wf hash eq m' \<and>
    hm_lookup eq m' = (if hm_lookup eq m key = None then (\<lambda>k. if eq key k then Some v else hm_lookup eq m k)
                       else hm_lookup eq m)"
proof -
  obtain r where r: "find_slot hash eq key m = Some r"
    "\<And>i. r = Some i \<Longrightarrow> i < length (hm_slots m) \<and> (\<exists>k v. hs_entry (hm_slots m ! i) = Some (k, v) \<and> eq k key)"
    "r = None \<Longrightarrow> \<forall>(k, v) \<in> hm_set m. \<not> eq k key"
    using find_slot_ok [OF assms, of key] by blast
  show ?thesis
  proof (cases r)
    case None
    then have "hm_lookup eq m key = None" using r(3) lookup_None_iff [OF assms] by blast
    with grow_and_place_ok [OF assms r(3) [OF None], of v False] r(1) None show ?thesis
      by (auto simp: hm_insert_def)
  next
    case (Some i)
    with r(2) obtain k w where "(k, w) \<in> hm_set m" "eq k key" using hm_set_nth by blast
    then have "hm_lookup eq m key \<noteq> None" using lookup_None_iff [OF assms, of key] by blast
    with r(1) Some assms(2) show ?thesis by (auto simp: hm_insert_def)
  qed
qed

lemma hm_store_ok:
  assumes "hash_ok hash eq" and "hm_wf hash eq m" and "i < length (hm_slots m)" and "hs_entry (hm_slots m ! i) = Some (k0, v0)"
  shows "hm_wf hash eq (hm_store i v m)" and "hm_size (hm_store i v m) = hm_size m"
    and "hm_lookup eq (hm_store i v m) = (\<lambda>k. if eq k0 k then Some v else hm_lookup eq m k)"
proof -
  let ?S = "hm_slots m" and ?m = "hm_store i v m"
  let ?s = "(?S ! i)\<lparr>hs_entry := Some (k0, v)\<rparr>"
  have wf: "slots_wf hash eq ?S" using assms(2,3) by (rule hm_wf_nonempty)
  have slots: "hm_slots ?m = ?S[i := ?s]" and rest: "hm_size ?m = hm_size m" "hm_tombstones ?m = hm_tombstones m"
    using assms(4) by (simp_all add: hm_store_def)
  then show "hm_size ?m = hm_size m" by simp
  have occ: "hs_state (?S ! i) = Slot_occupied" using slots_wf_entry [OF wf assms(3)] assms(4) by simp
  have distinct: "\<not> eq k' k0" if "j < length ?S" "j \<noteq> i" "hs_entry (?S ! j) = Some (k', v')" for j k' v'
    using slots_wf_distinct [OF wf that(1) assms(3) that(3) assms(4)] that(2) by blast
  have "slots_wf hash eq (?S[i := ?s])"
    using occ slots_wf_key [OF wf assms(3,4)] distinct by (intro slots_wf_update [OF assms(1) wf assms(3)]) auto
  moreover have "st_count st (?S[i := ?s]) = st_count st ?S" for st
    using st_count_update [OF assms(3), of st ?s] by simp
  ultimately show wf': "hm_wf hash eq ?m" using assms(2,3) by (auto simp: hm_wf_def slots rest)
  define m1 where "m1 = m\<lparr>hm_slots := ?S[i := (?S ! i)\<lparr>hs_entry := None, hs_state := Slot_tombstone\<rparr>],
    hm_size := hm_size m - 1, hm_tombstones := hm_tombstones m + 1\<rparr>"
  have "hm_set ?m = insert (k0, v) (hm_set m - {(k0, v0)})"
  proof -
    have "hm_set ?m = {(k0, v)} \<union> {e. \<exists>j < length ?S. j \<noteq> i \<and> hs_entry (?S ! j) = Some e}"
      using hm_set_update [OF assms(3) refl slots] by auto
    moreover have "{e. \<exists>j < length ?S. j \<noteq> i \<and> hs_entry (?S ! j) = Some e} = hm_set m - {(k0, v0)}"
      using assms(3,4) distinct hash_okD(1) [OF assms(1)] by (auto simp: hm_set_def) 
    ultimately show ?thesis by simp
  qed
  then have set': "(k', w) \<in> hm_set ?m \<longleftrightarrow> (k', w) = (k0, v) \<or> ((k', w) \<in> hm_set m \<and> (k', w) \<noteq> (k0, v0))" for k' w by auto
  note eqD = hash_okD(2,3) [OF assms(1)]
  have m0: "(k0, v0) \<in> hm_set m" using assms(3,4) by (rule hm_set_nth)
  show "hm_lookup eq ?m = (\<lambda>k. if eq k0 k then Some v else hm_lookup eq m k)"
  proof
    fix k
    show "hm_lookup eq ?m k = (if eq k0 k then Some v else hm_lookup eq m k)"
    proof (cases "eq k0 k")
      case True
      then show ?thesis using hm_lookup_iff [OF assms(1) wf', of k v] set' by auto
    next
      case False
      then show ?thesis
        using hm_lookup_iff [OF assms(1) wf', of k] hm_lookup_iff [OF assms(1,2), of k] set'
        by (intro option_eqI) auto
    qed
  qed
qed

lemma hm_insert_or_assign_ok:
  assumes "hash_ok hash eq" and "hm_wf hash eq m"
  shows "\<exists>m'. hm_insert_or_assign hash eq key v m = Some (hm_lookup eq m key = None, m') \<and> hm_wf hash eq m' \<and>
    hm_lookup eq m' = (\<lambda>k. if eq key k then Some v else hm_lookup eq m k)"
proof -
  obtain r where r: "find_slot hash eq key m = Some r"
    "\<And>i. r = Some i \<Longrightarrow> i < length (hm_slots m) \<and> (\<exists>k v. hs_entry (hm_slots m ! i) = Some (k, v) \<and> eq k key)"
    "r = None \<Longrightarrow> \<forall>(k, v) \<in> hm_set m. \<not> eq k key"
    using find_slot_ok [OF assms, of key] by blast
  show ?thesis
  proof (cases r)
    case None
    then have "hm_lookup eq m key = None" using r(3) lookup_None_iff [OF assms] by blast
    with grow_and_place_ok [OF assms r(3) [OF None], of v True] r(1) None show ?thesis
      by (auto simp: hm_insert_or_assign_def hm_find_def)
  next
    case (Some i)
    with r(2) obtain k w where i: "i < length (hm_slots m)" "hs_entry (hm_slots m ! i) = Some (k, w)" "eq k key" by blast
    then have "hm_lookup eq m key \<noteq> None" using lookup_None_iff [OF assms, of key] hm_set_nth by blast
    with r(1) Some hm_store_ok [OF assms i(1,2), of v] lookup_eq_key [OF assms(1) i(3)] show ?thesis
      by (simp add: hm_insert_or_assign_def hm_find_def)
  qed
qed

lemma other_entries:
  assumes "i < length S" and "hs_entry (S ! i) = Some e0"
    and "\<And>j. j < length S \<Longrightarrow> hs_entry (S ! j) = Some e0 \<Longrightarrow> j = i"
  shows "{e. \<exists>j < length S. j \<noteq> i \<and> hs_entry (S ! j) = Some e} = {e. \<exists>j < length S. hs_entry (S ! j) = Some e} - {e0}"
proof (rule set_eqI, unfold mem_Collect_eq Diff_iff singleton_iff, intro iffI)
  fix e assume "\<exists>j < length S. j \<noteq> i \<and> hs_entry (S ! j) = Some e"
  then obtain j where j: "j < length S" "j \<noteq> i" "hs_entry (S ! j) = Some e" by blast
  then have "e \<noteq> e0" using assms(3) [of j] by blast
  with j show "(\<exists>j < length S. hs_entry (S ! j) = Some e) \<and> e \<noteq> e0" by blast
next
  fix e assume "(\<exists>j < length S. hs_entry (S ! j) = Some e) \<and> e \<noteq> e0"
  then obtain j where j: "j < length S" "hs_entry (S ! j) = Some e" "e \<noteq> e0" by blast
  then have "j \<noteq> i" using assms(2) by auto
  with j show "\<exists>j < length S. j \<noteq> i \<and> hs_entry (S ! j) = Some e" by blast
qed

lemma hm_insert_new:
  assumes "hash_ok hash eq" and "hm_wf hash eq m" and "\<forall>(k, v) \<in> hm_set m. \<not> eq k key"
  obtains m' where "hm_insert hash eq key v m = Some (True, m')" and "hm_wf hash eq m'" and "hm_set m' = insert (key, v) (hm_set m)"
proof -
  obtain r where r: "find_slot hash eq key m = Some r"
    "\<And>i. r = Some i \<Longrightarrow> i < length (hm_slots m) \<and> (\<exists>k v. hs_entry (hm_slots m ! i) = Some (k, v) \<and> eq k key)"
    using find_slot_ok [OF assms(1,2), of key] by blast
  have "r = None" using r(2) assms(3) hm_set_nth by (cases r) blast+
  with r(1) grow_and_place_ok [OF assms, of v False] that show thesis by (auto simp: hm_insert_def)
qed

lemma hm_erase_absent:
  assumes "hash_ok hash eq" and "hm_wf hash eq m" and "\<forall>(k, v) \<in> hm_set m. \<not> eq k key"
  shows "hm_erase hash eq key m = Some (False, m)"
proof -
  obtain r where r: "find_slot hash eq key m = Some r"
    "\<And>i. r = Some i \<Longrightarrow> i < length (hm_slots m) \<and> (\<exists>k v. hs_entry (hm_slots m ! i) = Some (k, v) \<and> eq k key)"
    using find_slot_ok [OF assms(1,2), of key] by blast
  have "r = None" using r(2) assms(3) hm_set_nth by (cases r) blast+
  with r(1) show ?thesis by (simp add: hm_erase_def erase_slot_def)
qed

lemma erase_slot_ok:
  assumes "hash_ok hash eq" and "hm_wf hash eq m" and "i < length (hm_slots m)" and "hs_entry (hm_slots m ! i) = Some (k, w)"
  shows "hm_wf hash eq (snd (erase_slot (Some i) m))" and "hm_set (snd (erase_slot (Some i) m)) = hm_set m - {(k, w)}"
proof -
  let ?S = "hm_slots m"
  let ?s = "(?S ! i)\<lparr>hs_state := Slot_tombstone, hs_entry := None\<rparr>"
  define m' where "m' = snd (erase_slot (Some i) m)"
  have m': "hm_slots m' = ?S[i := ?s]" "hm_size m' = hm_size m - 1" "hm_tombstones m' = hm_tombstones m + 1"
    by (simp_all add: m'_def erase_slot_def)
  have wf: "slots_wf hash eq ?S" using assms(2,3) by (rule hm_wf_nonempty)
  have occ: "hs_state (?S ! i) = Slot_occupied" using slots_wf_entry [OF wf assms(3)] assms(4) by simp
  have "slots_wf hash eq (?S[i := ?s])" by (intro slots_wf_update [OF assms(1) wf assms(3)]) simp_all
  moreover have "Suc (st_count Slot_occupied (?S[i := ?s])) = st_count Slot_occupied ?S"
    "st_count Slot_tombstone (?S[i := ?s]) = Suc (st_count Slot_tombstone ?S)"
    using st_count_update [OF assms(3), of Slot_occupied ?s] st_count_update [OF assms(3), of Slot_tombstone ?s] occ by simp_all
  ultimately show "hm_wf hash eq (snd (erase_slot (Some i) m))"
    using assms(2,3) unfolding m'_def [symmetric] by (auto simp: hm_wf_def m')
  have distinct: "\<not> eq k' k" if "j < length ?S" "j \<noteq> i" "hs_entry (?S ! j) = Some (k', v')" for j k' v'
    using slots_wf_distinct [OF wf that(1) assms(3) that(3) assms(4)] that(2) by blast
  have only: "j = i" if "j < length ?S" "hs_entry (?S ! j) = Some (k, w)" for j
    using distinct that hash_okD(1) [OF assms(1)] by blast
  have "hm_set m' = {e. \<exists>j < length ?S. j \<noteq> i \<and> hs_entry (?S ! j) = Some e}"
    using hm_set_update [OF assms(3) refl m'(1)] by simp
  also have "\<dots> = hm_set m - {(k, w)}"
    unfolding hm_set_def by (rule other_entries [OF assms(3,4) only])
  finally show "hm_set (snd (erase_slot (Some i) m)) = hm_set m - {(k, w)}" by (simp only: m'_def)
qed

lemma hm_set_unique:
  assumes "hash_ok hash eq" and "hm_wf hash eq m" and "(k, w) \<in> hm_set m" and "(k', w') \<in> hm_set m" and "eq k k'"
  shows "(k, w) = (k', w')"
proof -
  obtain i j where ij: "i < length (hm_slots m)" "hs_entry (hm_slots m ! i) = Some (k, w)"
    "j < length (hm_slots m)" "hs_entry (hm_slots m ! j) = Some (k', w')" using assms(3,4) by (auto simp: hm_set_def)
  have "i = j" by (rule slots_wf_distinct [OF hm_wf_nonempty [OF assms(2) ij(1)] ij(1,3,2,4) assms(5)])
  with ij show ?thesis by simp
qed

lemma hm_erase_entry:
  assumes "hash_ok hash eq" and "hm_wf hash eq m" and "(k, w) \<in> hm_set m" and "eq k key"
  obtains m' where "hm_erase hash eq key m = Some (True, m')" and "hm_wf hash eq m'" and "hm_set m' = hm_set m - {(k, w)}"
proof -
  obtain r where r: "find_slot hash eq key m = Some r"
    "\<And>i. r = Some i \<Longrightarrow> i < length (hm_slots m) \<and> (\<exists>k v. hs_entry (hm_slots m ! i) = Some (k, v) \<and> eq k key)"
    "r = None \<Longrightarrow> \<forall>(k, v) \<in> hm_set m. \<not> eq k key"
    using find_slot_ok [OF assms(1,2), of key] by blast
  obtain i k0 w0 where i: "r = Some i" "i < length (hm_slots m)" "hs_entry (hm_slots m ! i) = Some (k0, w0)" "eq k0 key"
    using r(2,3) assms(3,4) by (cases r) blast+
  have "eq k0 k" using i(4) assms(4) hash_okD(2,3) [OF assms(1)] by blast
  then have "(k0, w0) = (k, w)" using hm_set_unique [OF assms(1,2) hm_set_nth [OF i(2,3)] assms(3)] by blast
  with erase_slot_ok [OF assms(1,2) i(2,3)] r(1) i(1) that show thesis by (simp add: hm_erase_def erase_slot_def)
qed

lemma hm_erase_ok:
  assumes "hash_ok hash eq" and "hm_wf hash eq m"
  shows "\<exists>m'. hm_erase hash eq key m = Some (hm_lookup eq m key \<noteq> None, m') \<and> hm_wf hash eq m' \<and>
    hm_lookup eq m' = (\<lambda>k. if eq key k then None else hm_lookup eq m k)"
proof (cases "\<forall>(k, v) \<in> hm_set m. \<not> eq k key")
  case True
  then have none: "hm_lookup eq m key = None" using lookup_None_iff [OF assms] by blast
  have "hm_lookup eq m k = None" if "eq key k" for k
    using none lookup_cong [OF assms that] by simp
  with hm_erase_absent [OF assms True] none assms(2) show ?thesis by auto
next
  case False
  then obtain k w where kw: "(k, w) \<in> hm_set m" "eq k key" by blast
  obtain m' where m': "hm_erase hash eq key m = Some (True, m')" "hm_wf hash eq m'" "hm_set m' = hm_set m - {(k, w)}"
    by (rule hm_erase_entry [OF assms kw])
  have "hm_lookup eq m key \<noteq> None" using False lookup_None_iff [OF assms] by blast
  with m' lookup_drop [OF assms m'(2,3) kw(1)] lookup_eq_key [OF assms(1) kw(2)] show ?thesis by simp
qed

lemma hm_find_ok:
  assumes "hash_ok hash eq" and "hm_wf hash eq m"
  shows "\<exists>r. hm_find hash eq key m = Some r \<and> map_option (\<lambda>i. hm_load i m) r = hm_lookup eq m key \<and>
    (\<forall>i. r = Some i \<longrightarrow> i < length (hm_slots m) \<and> (\<exists>k v. hs_entry (hm_slots m ! i) = Some (k, v) \<and> eq k key))"
proof -
  obtain r where r: "find_slot hash eq key m = Some r"
    "\<And>i. r = Some i \<Longrightarrow> i < length (hm_slots m) \<and> (\<exists>k v. hs_entry (hm_slots m ! i) = Some (k, v) \<and> eq k key)"
    "r = None \<Longrightarrow> \<forall>(k, v) \<in> hm_set m. \<not> eq k key"
    using find_slot_ok [OF assms, of key] by blast
  have "map_option (\<lambda>i. hm_load i m) r = hm_lookup eq m key"
  proof (cases r)
    case None
    then have "hm_lookup eq m key = None" using r(3) lookup_None_iff [OF assms] by blast
    with None show ?thesis by simp
  next
    case (Some i)
    then obtain k w where i: "i < length (hm_slots m)" "hs_entry (hm_slots m ! i) = Some (k, w)" "eq k key" using r(2) by blast
    then have "hm_lookup eq m key = Some w" using hm_lookup_iff [OF assms, of key w] hm_set_nth by blast
    with i Some show ?thesis by (simp add: hm_load_def)
  qed
  with r show ?thesis by (simp add: hm_find_def)
qed

lemma hm_subscript_ok:
  assumes "hash_ok hash eq" and "hm_wf hash eq m"
  shows "\<exists>i m'. hm_subscript hash eq d key m = Some (i, m') \<and> hm_wf hash eq m' \<and>
    hm_load i m' = (case hm_lookup eq m key of None \<Rightarrow> d | Some v \<Rightarrow> v) \<and>
    hm_lookup eq m' = (if hm_lookup eq m key = None then (\<lambda>k. if eq key k then Some d else hm_lookup eq m k)
                       else hm_lookup eq m)"
proof -
  obtain r where r: "hm_find hash eq key m = Some r" "map_option (\<lambda>i. hm_load i m) r = hm_lookup eq m key"
    using hm_find_ok [OF assms, of key] by blast
  show ?thesis
  proof (cases r)
    case None
    obtain m' where m': "hm_insert hash eq key d m = Some (True, m')" "hm_wf hash eq m'"
      "hm_lookup eq m' = (\<lambda>k. if eq key k then Some d else hm_lookup eq m k)"
      using hm_insert_ok [OF assms, of key d] r(2) None by auto
    obtain r' where r': "hm_find hash eq key m' = Some r'" "map_option (\<lambda>i. hm_load i m') r' = hm_lookup eq m' key"
      using hm_find_ok [OF assms(1) m'(2), of key] by blast
    have "hm_lookup eq m' key = Some d" using m'(3) hash_okD(1) [OF assms(1)] by simp
    with r' obtain i where "r' = Some i" "hm_load i m' = d" by (cases r') auto
    with None r m' r'(1) show ?thesis by (auto simp: hm_subscript_def)
  next
    case (Some i)
    with r assms(2) show ?thesis by (auto simp: hm_subscript_def)
  qed
qed

lemma hm_clear_ok:
  assumes "hm_wf hash eq m"
  shows "hm_wf hash eq (hm_clear m)" and "hm_lookup eq (hm_clear m) = (\<lambda>k. None)"
proof -
  have entries: "hs_entry (hm_slots (hm_clear m) ! i) = None" if "i < length (hm_slots m)" for i
    using that by (simp add: hm_clear_def)
  then have "hm_set (hm_clear m) = {}" by (auto simp: hm_set_def hm_clear_def)
  then have "hm_entries (hm_clear m) = []" using set_hm_entries [of "hm_clear m"] by simp
  then show "hm_lookup eq (hm_clear m) = (\<lambda>k. None)" by (simp add: hm_lookup_def fun_eq_iff)
  have "st_count st (hm_slots (hm_clear m)) = (if st = Slot_empty then length (hm_slots m) else 0)" for st
    by (auto simp: st_count_def hm_clear_def filter_map o_def)
  moreover have "slots_wf hash eq (hm_slots (hm_clear m))" if "hm_slots m \<noteq> []"
    using that assms by (auto simp: slots_wf_def hm_wf_def hm_clear_def)
  ultimately show "hm_wf hash eq (hm_clear m)" by (cases "hm_slots m = []") (simp_all add: hm_wf_def, simp_all add: hm_clear_def)
qed

lemma same_set_lookup:
  assumes "hash_ok hash eq" and "hm_wf hash eq m" and "hm_wf hash eq m'" and "hm_set m' = hm_set m"
  shows "hm_lookup eq m' = hm_lookup eq m"
  by (intro ext option_eqI) (simp add: hm_lookup_iff [OF assms(1,2)] hm_lookup_iff [OF assms(1,3)] assms(4))

lemma rehash_lookup:
  assumes "hash_ok hash eq" and "hm_wf hash eq m" and "hm_size m < next_pow2 n"
  shows "\<exists>m'. rehash eq n m = Some m' \<and> hm_wf hash eq m' \<and> hm_lookup eq m' = hm_lookup eq m \<and> length (hm_slots m') = next_pow2 n"
  using rehash_ok [OF assms] same_set_lookup [OF assms(1,2)] by metis

lemma wanted_capacity: "n < next_pow2 (n * 8 div 7 + 1)"
  using next_pow2_ge [of "n * 8 div 7 + 1"] by linarith

lemma next_pow2_idem: "next_pow2 (next_pow2 n) = next_pow2 n"
  using next_pow2_power [of n] next_pow2_of_power by metis

lemma hm_reserve_ok:
  assumes "hash_ok hash eq" and "hm_wf hash eq m"
  shows "\<exists>m'. hm_reserve eq n m = Some m' \<and> hm_wf hash eq m' \<and> hm_lookup eq m' = hm_lookup eq m \<and> n \<le> length (hm_slots m')"
proof (cases "n = 0 \<or> next_pow2 (n * 8 div 7 + 1) \<le> length (hm_slots m)")
  case True
  with assms(2) wanted_capacity [of n] show ?thesis by (auto simp: hm_reserve_def not_less)
next
  case False
  let ?c = "next_pow2 (n * 8 div 7 + 1)"
  have "hm_size m < next_pow2 ?c"
    using False hm_wf_load [OF assms(2)] assms(2) by (cases "hm_slots m = []") (auto simp: hm_wf_def next_pow2_idem next_pow2_pos)
  from rehash_lookup [OF assms this] False wanted_capacity [of n] show ?thesis
    by (auto simp: hm_reserve_def next_pow2_idem intro: less_imp_le)
qed

lemma hm_shrink_ok:
  assumes "hash_ok hash eq" and "hm_wf hash eq m"
  shows "\<exists>m'. hm_shrink_to_fit eq m = Some m' \<and> hm_wf hash eq m' \<and> hm_lookup eq m' = hm_lookup eq m"
proof (cases "hm_size m = 0")
  case True
  have "hm_set m = {}"
  proof (cases "hm_slots m = []")
    case False
    then have wf: "slots_wf hash eq (hm_slots m)" "st_count Slot_occupied (hm_slots m) = 0"
      using assms(2) True by (auto simp: hm_wf_def)
    then have "hs_state s \<noteq> Slot_occupied" if "s \<in> set (hm_slots m)" for s
      using that by (auto simp: st_count_def filter_empty_conv)
    then show ?thesis using slots_wf_entry [OF wf(1)] by (auto simp: hm_set_def)
  qed (simp add: hm_set_def)
  then have "hm_set (m\<lparr>hm_slots := []\<rparr>) = hm_set m" by (simp add: hm_set_def)
  moreover have wf': "hm_wf hash eq (m\<lparr>hm_slots := []\<rparr>)" using True by (simp add: hm_wf_def)
  ultimately show ?thesis using True same_set_lookup [OF assms wf'] by (simp add: hm_shrink_to_fit_def)
next
  case False
  show ?thesis
    using rehash_lookup [OF assms, of "next_pow2 (hm_size m * 8 div 7 + 1)"] wanted_capacity [of "hm_size m"] assms(2) False
    by (auto simp: hm_shrink_to_fit_def next_pow2_idem Let_def)
qed

lemma hm_default_wf: "hm_wf hash eq hm_default" and hm_default_lookup: "hm_lookup eq hm_default = (\<lambda>k. None)"
  by (simp_all add: hm_wf_def hm_default_def hm_lookup_def hm_entries_def List.map_filter_simps fun_eq_iff)

lemma hm_make_ok:
  assumes "hash_ok hash eq"
  shows "\<exists>m. hm_make eq n = Some m \<and> hm_wf hash eq m \<and> hm_lookup eq m = (\<lambda>k. None) \<and> n \<le> length (hm_slots m)"
proof (cases "n = 0")
  case True
  then show ?thesis using hm_default_wf [of hash eq] hm_default_lookup [of eq] by (simp add: hm_make_def)
next
  case False
  have "hm_size hm_default < next_pow2 (next_pow2 (n * 8 div 7 + 1))" by (simp add: hm_default_def next_pow2_pos)
  from rehash_lookup [OF assms hm_default_wf this] False wanted_capacity [of n] hm_default_lookup [of eq] show ?thesis
    by (auto simp: hm_make_def next_pow2_idem intro: less_imp_le)
qed

subsection \<open>Reachable maps\<close>

inductive hm_reachable :: "('k \<Rightarrow> u64) \<Rightarrow> ('k \<Rightarrow> 'k \<Rightarrow> bool) \<Rightarrow> ('k, 'v) hmap \<Rightarrow> bool" for hash eq where
  default: "hm_reachable hash eq hm_default"
| construct: "hm_make eq n = Some m \<Longrightarrow> hm_reachable hash eq m"
| insert: "hm_reachable hash eq m \<Longrightarrow> hm_insert hash eq key v m = Some (b, m') \<Longrightarrow> hm_reachable hash eq m'"
| assign: "hm_reachable hash eq m \<Longrightarrow> hm_insert_or_assign hash eq key v m = Some (b, m') \<Longrightarrow> hm_reachable hash eq m'"
| subscript: "hm_reachable hash eq m \<Longrightarrow> hm_subscript hash eq d key m = Some (i, m') \<Longrightarrow> hm_reachable hash eq m'"
| store: "hm_reachable hash eq m \<Longrightarrow> hm_find hash eq key m = Some (Some i) \<Longrightarrow> hm_reachable hash eq (hm_store i v m)"
| erase: "hm_reachable hash eq m \<Longrightarrow> hm_erase hash eq key m = Some (b, m') \<Longrightarrow> hm_reachable hash eq m'"
| reserve: "hm_reachable hash eq m \<Longrightarrow> hm_reserve eq n m = Some m' \<Longrightarrow> hm_reachable hash eq m'"
| shrink: "hm_reachable hash eq m \<Longrightarrow> hm_shrink_to_fit eq m = Some m' \<Longrightarrow> hm_reachable hash eq m'"
| clear: "hm_reachable hash eq m \<Longrightarrow> hm_reachable hash eq (hm_clear m)"

lemma hm_emplace_insert: "hm_emplace hash eq construct key args m = hm_insert hash eq key (construct args) m"
  and hm_try_emplace_insert: "hm_try_emplace hash eq construct key args m = hm_insert hash eq key (construct args) m"
  by (simp_all add: hm_emplace_def hm_try_emplace_def hm_insert_def)

lemma hm_reachable_wf:
  assumes "hash_ok hash eq"
  shows "hm_reachable hash eq m \<Longrightarrow> hm_wf hash eq m"
proof (induction rule: hm_reachable.induct)
  case default
  show ?case by (rule hm_default_wf)
next
  case (construct n m)
  then show ?case by (metis hm_make_ok [OF assms] option.inject)
next
  case (insert m key v b m')
  then show ?case using hm_insert_ok [OF assms, of m key v] by auto
next
  case (assign m key v b m')
  then show ?case using hm_insert_or_assign_ok [OF assms, of m key v] by auto
next
  case (subscript m d key i m')
  then show ?case using hm_subscript_ok [OF assms, of m d key] by auto
next
  case (store m key i v)
  then show ?case using hm_find_ok [OF assms, of m key] hm_store_ok(1) [OF assms, of m i] by auto
next
  case (erase m key b m')
  then show ?case using hm_erase_ok [OF assms, of m key] by auto
next
  case (reserve m n m')
  then show ?case using hm_reserve_ok [OF assms, of m n] by auto
next
  case (shrink m m')
  then show ?case using hm_shrink_ok [OF assms, of m] by auto
next
  case (clear m)
  then show ?case by (simp add: hm_clear_ok)
qed

subsection \<open>Iteration and comparison\<close>

lemma advance_ok:
  "i \<le> length S \<Longrightarrow> i \<le> advance_to_occupied S i \<and> advance_to_occupied S i \<le> length S \<and>
    (advance_to_occupied S i < length S \<longrightarrow> hs_state (S ! advance_to_occupied S i) = Slot_occupied) \<and>
    (\<forall>j. i \<le> j \<longrightarrow> j < advance_to_occupied S i \<longrightarrow> hs_state (S ! j) \<noteq> Slot_occupied)"
proof (induction S i rule: advance_to_occupied.induct)
  case (1 S i)
  show ?case
  proof (cases "i < length S \<and> hs_state (S ! i) \<noteq> Slot_occupied")
    case True
    then have eq: "advance_to_occupied S i = advance_to_occupied S (i + 1)" by (simp add: advance_to_occupied.simps [of S i])
    have IH: "i + 1 \<le> advance_to_occupied S (i + 1) \<and> advance_to_occupied S (i + 1) \<le> length S \<and>
        (advance_to_occupied S (i + 1) < length S \<longrightarrow> hs_state (S ! advance_to_occupied S (i + 1)) = Slot_occupied) \<and>
        (\<forall>j. i + 1 \<le> j \<longrightarrow> j < advance_to_occupied S (i + 1) \<longrightarrow> hs_state (S ! j) \<noteq> Slot_occupied)"
      using "1.IH" [OF True] True by simp
    then show ?thesis unfolding eq using True by (metis Suc_eq_plus1 Suc_leD le_antisym not_less_eq_eq)
  next
    case False
    then have eq: "advance_to_occupied S i = i" by (subst advance_to_occupied.simps) auto
    show ?thesis unfolding eq using False "1.prems" by auto
  qed
qed

lemma hm_end_length: "hm_end m = length (hm_slots m)"
  by (simp add: hm_end_def advance_to_occupied.simps)

definition agrees_at :: "('k \<Rightarrow> 'k \<Rightarrow> bool) \<Rightarrow> ('k, 'v) hmap \<Rightarrow> ('k, 'v) hmap \<Rightarrow> nat \<Rightarrow> bool" where
  "agrees_at eq a b j \<longleftrightarrow> (case hm_deref a j of (k, v) \<Rightarrow> hm_lookup eq b k = Some v)"

lemma equal_from_ok:
  assumes "hash_ok hash eq" and "hm_wf hash eq b"
    and "i \<le> length (hm_slots a)" and "i < length (hm_slots a) \<Longrightarrow> hs_state (hm_slots a ! i) = Slot_occupied"
  shows "equal_from hash eq a b i =
    Some (\<forall>j. i \<le> j \<longrightarrow> j < length (hm_slots a) \<longrightarrow> hs_state (hm_slots a ! j) = Slot_occupied \<longrightarrow> agrees_at eq a b j)"
  using assms(3,4)
proof (induction "length (hm_slots a) - i" arbitrary: i rule: less_induct)
  case less
  let ?n = "length (hm_slots a)" and ?S = "hm_slots a"
  show ?case
  proof (cases "i < ?n")
    case True
    obtain k v where kv: "hm_deref a i = (k, v)" by fastforce
    obtain r where r: "hm_find hash eq k b = Some r" "map_option (\<lambda>i. hm_load i b) r = hm_lookup eq b k"
      using hm_find_ok [OF assms(1,2), of k] by blast
    let ?next = "hm_next a i"
    have adv: "i + 1 \<le> ?next" "?next \<le> ?n" "?next < ?n \<Longrightarrow> hs_state (?S ! ?next) = Slot_occupied"
      "\<And>j. i + 1 \<le> j \<Longrightarrow> j < ?next \<Longrightarrow> hs_state (?S ! j) \<noteq> Slot_occupied"
      using advance_ok [of "i + 1" ?S] True by (simp_all add: hm_next_def)
    have "?n - ?next < ?n - i" using adv(1) True by linarith
    from less.hyps [OF this adv(2,3)]
    have IH: "equal_from hash eq a b ?next =
      Some (\<forall>j. ?next \<le> j \<longrightarrow> j < ?n \<longrightarrow> hs_state (?S ! j) = Slot_occupied \<longrightarrow> agrees_at eq a b j)" .
    have split: "(\<forall>j. i \<le> j \<longrightarrow> j < ?n \<longrightarrow> hs_state (?S ! j) = Slot_occupied \<longrightarrow> agrees_at eq a b j) \<longleftrightarrow>
        agrees_at eq a b i \<and> (\<forall>j. ?next \<le> j \<longrightarrow> j < ?n \<longrightarrow> hs_state (?S ! j) = Slot_occupied \<longrightarrow> agrees_at eq a b j)"
      (is "?L \<longleftrightarrow> ?R")
    proof
      assume ?L
      with True less.prems(2) adv(1) show ?R by auto
    next
      assume R: ?R
      show ?L
      proof (intro allI impI)
        fix j assume j: "i \<le> j" "j < ?n" "hs_state (?S ! j) = Slot_occupied"
        show "agrees_at eq a b j"
        proof (cases "j = i")
          case False
          then have "?next \<le> j" using j(1,3) adv(4) [of j] by (cases "j < ?next") auto
          with R j show ?thesis by blast
        qed (use R in simp)
      qed
    qed
    have agree: "agrees_at eq a b i \<longleftrightarrow> (\<exists>j. r = Some j \<and> hm_load j b = v)"
      using r(2) kv by (cases r) (auto simp: agrees_at_def)
    show ?thesis
      unfolding split using True kv r(1) agree IH by (subst equal_from.simps) (auto simp: hm_end_length split: option.splits)
  next
    case False
    then have "equal_from hash eq a b i = Some True" by (subst equal_from.simps) (simp add: hm_end_length)
    with False show ?thesis by simp
  qed
qed

lemma hm_equal_ok:
  assumes "hash_ok hash eq" and "hm_wf hash eq a" and "hm_wf hash eq b"
  shows "hm_equal hash eq a b = Some (hm_size a = hm_size b \<and> (\<forall>(k, v) \<in> hm_set a. hm_lookup eq b k = Some v))"
proof -
  let ?S = "hm_slots a"
  have adv: "hm_begin a \<le> length ?S" "hm_begin a < length ?S \<Longrightarrow> hs_state (?S ! hm_begin a) = Slot_occupied"
    "\<And>j. j < hm_begin a \<Longrightarrow> hs_state (?S ! j) \<noteq> Slot_occupied"
    using advance_ok [of 0 ?S] by (simp_all add: hm_begin_def)
  have "(\<forall>j. hm_begin a \<le> j \<longrightarrow> j < length ?S \<longrightarrow> hs_state (?S ! j) = Slot_occupied \<longrightarrow> agrees_at eq a b j) \<longleftrightarrow>
      (\<forall>j < length ?S. hs_state (?S ! j) = Slot_occupied \<longrightarrow> agrees_at eq a b j)"
    using adv(3) not_less by blast
  also have "\<dots> \<longleftrightarrow> (\<forall>(k, v) \<in> hm_set a. hm_lookup eq b k = Some v)"
  proof (cases "?S = []")
    case False
    then have wf: "slots_wf hash eq ?S" using assms(2) by (auto simp: hm_wf_def)
    show ?thesis
    proof (intro iffI ballI allI impI)
      fix e assume all: "\<forall>j < length ?S. hs_state (?S ! j) = Slot_occupied \<longrightarrow> agrees_at eq a b j" and "e \<in> hm_set a"
      then obtain j where j: "j < length ?S" "hs_entry (?S ! j) = Some e" by (auto simp: hm_set_def)
      with all slots_wf_entry [OF wf j(1)] have "agrees_at eq a b j" by simp
      with j show "case e of (k, v) \<Rightarrow> hm_lookup eq b k = Some v" by (simp add: agrees_at_def hm_deref_def)
    next
      fix j assume all: "\<forall>(k, v) \<in> hm_set a. hm_lookup eq b k = Some v" and j: "j < length ?S" "hs_state (?S ! j) = Slot_occupied"
      then obtain e where e: "hs_entry (?S ! j) = Some e" using slots_wf_entry [OF wf j(1)] by auto
      then have "e \<in> hm_set a" using j(1) by (intro hm_set_nth)
      with all e show "agrees_at eq a b j" by (auto simp: agrees_at_def hm_deref_def)
    qed
  qed (simp add: hm_set_def)
  finally show ?thesis using equal_from_ok [OF assms(1,3) adv(1,2)] by (simp add: hm_equal_def)
qed

text \<open>The classes of keys that a map holds.\<close>

definition key_classes :: "('k \<Rightarrow> 'k \<Rightarrow> bool) \<Rightarrow> ('k, 'v) hmap \<Rightarrow> 'k set set" where
  "key_classes eq m = (\<lambda>(k, v). {k'. eq k k'}) ` hm_set m"

lemma class_eq: "hash_ok hash eq \<Longrightarrow> {k'. eq a k'} = {k'. eq b k'} \<longleftrightarrow> eq a b"
  using hash_okD(1,2,3) [of hash eq] by (metis (no_types, lifting) mem_Collect_eq Collect_cong)

lemma card_key_classes:
  assumes "hash_ok hash eq" and "hm_wf hash eq m"
  shows "card (key_classes eq m) = hm_size m" and "finite (key_classes eq m)"
proof -
  let ?S = "hm_slots m" and ?I = "{i. i < length (hm_slots m) \<and> hs_state (hm_slots m ! i) = Slot_occupied}"
  have "inj_on (\<lambda>(k, v). {k'. eq k k'}) (hm_set m)"
    using hm_set_distinct [OF assms(2)] class_eq [OF assms(1)] by (auto intro!: inj_onI)
  then have c: "card (key_classes eq m) = card (hm_set m)" by (simp add: key_classes_def card_image)
  have set: "hm_set m = (\<lambda>i. the (hs_entry (?S ! i))) ` ?I \<and> card ?I = hm_size m \<and> inj_on (\<lambda>i. the (hs_entry (?S ! i))) ?I"
  proof (cases "?S = []")
    case True
    then show ?thesis using assms(2) by (auto simp: hm_set_def hm_wf_def slots_wf_def)
  next
    case False
    then have wf: "slots_wf hash eq ?S" "hm_size m = st_count Slot_occupied ?S" using assms(2) by (auto simp: hm_wf_def)
    have "hm_set m = (\<lambda>i. the (hs_entry (?S ! i))) ` ?I"
      using slots_wf_entry [OF wf(1)] by (force simp: hm_set_def)
    moreover have "card ?I = hm_size m" by (simp add: wf(2) st_count_def length_filter_conv_card)
    moreover have "inj_on (\<lambda>i. the (hs_entry (?S ! i))) ?I"
    proof (rule inj_onI)
      fix i j assume ij: "i \<in> ?I" "j \<in> ?I" "the (hs_entry (?S ! i)) = the (hs_entry (?S ! j))"
      then obtain k v where "hs_entry (?S ! i) = Some (k, v)" "hs_entry (?S ! j) = Some (k, v)"
        using slots_wf_entry [OF wf(1)] by fastforce
      then show "i = j" using slots_wf_distinct [OF wf(1)] ij hash_okD(1) [OF assms(1)] by blast
    qed
    ultimately show ?thesis by blast
  qed
  then show "card (key_classes eq m) = hm_size m" using c by (simp add: card_image)
  have "finite (hm_set m)" using set by simp
  then show "finite (key_classes eq m)" by (simp add: key_classes_def)
qed

lemma key_classes_lookup:
  assumes "hash_ok hash eq" and "hm_wf hash eq m"
  shows "key_classes eq m = {{k'. eq k k'} | k. hm_lookup eq m k \<noteq> None}"
proof (intro set_eqI iffI)
  fix C assume "C \<in> key_classes eq m"
  then obtain k v where "(k, v) \<in> hm_set m" "C = {k'. eq k k'}" by (auto simp: key_classes_def)
  moreover have "hm_lookup eq m k = Some v" using calculation(1) hm_lookup_iff [OF assms, of k v] hash_okD(1) [OF assms(1)] by blast
  ultimately show "C \<in> {{k'. eq k k'} | k. hm_lookup eq m k \<noteq> None}" by blast
next
  fix C assume "C \<in> {{k'. eq k k'} | k. hm_lookup eq m k \<noteq> None}"
  then obtain k v where k: "C = {k'. eq k k'}" "hm_lookup eq m k = Some v" by blast
  then obtain k0 where k0: "(k0, v) \<in> hm_set m" "eq k0 k" using hm_lookup_iff [OF assms] by blast
  then have "C = {k'. eq k0 k'}" using k(1) class_eq [OF assms(1)] hash_okD(2) [OF assms(1)] by blast
  with k0(1) show "C \<in> key_classes eq m" unfolding key_classes_def by force
qed

lemma hm_equal_lookup:
  assumes "hash_ok hash eq" and "hm_wf hash eq a" and "hm_wf hash eq b"
  shows "hm_size a = hm_size b \<and> (\<forall>(k, v) \<in> hm_set a. hm_lookup eq b k = Some v) \<longleftrightarrow> hm_lookup eq a = hm_lookup eq b"
proof
  assume "hm_lookup eq a = hm_lookup eq b"
  moreover from this have "key_classes eq a = key_classes eq b"
    by (simp add: key_classes_lookup [OF assms(1,2)] key_classes_lookup [OF assms(1,3)])
  moreover have "hm_lookup eq a k = Some v" if "(k, v) \<in> hm_set a" for k v
    using that hm_lookup_iff [OF assms(1,2), of k v] hash_okD(1) [OF assms(1)] by blast
  ultimately show "hm_size a = hm_size b \<and> (\<forall>(k, v) \<in> hm_set a. hm_lookup eq b k = Some v)"
    using card_key_classes(1) [OF assms(1,2)] card_key_classes(1) [OF assms(1,3)] by force
next
  assume h: "hm_size a = hm_size b \<and> (\<forall>(k, v) \<in> hm_set a. hm_lookup eq b k = Some v)"
  have sub: "hm_lookup eq b k = Some v" if ak: "hm_lookup eq a k = Some v" for k v
  proof -
    obtain k0 where "(k0, v) \<in> hm_set a" "eq k0 k" using ak hm_lookup_iff [OF assms(1,2)] by blast
    with h lookup_cong [OF assms(1,3)] show ?thesis by fastforce
  qed
  have "key_classes eq a \<subseteq> key_classes eq b"
    unfolding key_classes_lookup [OF assms(1,2)] key_classes_lookup [OF assms(1,3)] using sub by blast
  then have same: "key_classes eq a = key_classes eq b"
    using h card_key_classes [OF assms(1,2)] card_key_classes [OF assms(1,3)] by (intro card_subset_eq) simp_all
  show "hm_lookup eq a = hm_lookup eq b"
  proof (rule ext, rule option_eqI, rule iffI)
    fix k v assume bk: "hm_lookup eq b k = Some v"
    then have "{k'. eq k k'} \<in> key_classes eq a"
      unfolding same unfolding key_classes_lookup [OF assms(1,3)] by blast
    then obtain k0 where k0: "{k'. eq k k'} = {k'. eq k0 k'}" "hm_lookup eq a k0 \<noteq> None"
      unfolding key_classes_lookup [OF assms(1,2)] by blast
    then have "hm_lookup eq a k \<noteq> None" using class_eq [OF assms(1)] lookup_cong [OF assms(1,2), of k k0] by simp
    then obtain w where "hm_lookup eq a k = Some w" by blast
    with sub bk show "hm_lookup eq a k = Some v" by fastforce
  qed (rule sub)
qed

subsection \<open>The map as a keyed map\<close>

lemma hash_ok_equality: "hash_ok hash (=)"
  by (simp add: hash_ok_def identity_equivp)

interpretation flat_hash: keyed_map "hm_wf hash (=)" "hm_lookup (=)" "hm_insert hash (=)" "hm_erase hash (=)"
  for hash :: "'k \<Rightarrow> u64"
proof unfold_locales
  fix m :: "('k, 'v) hmap" and k v assume m: "hm_wf hash (=) m"
  have upd: "(\<lambda>k'. if k = k' then Some v else hm_lookup (=) m k') = (hm_lookup (=) m)(k \<mapsto> v)" by auto
  show "\<exists>m'. hm_insert hash (=) k v m = Some (hm_lookup (=) m k = None, m') \<and> hm_wf hash (=) m' \<and>
    hm_lookup (=) m' = (if hm_lookup (=) m k = None then (hm_lookup (=) m)(k \<mapsto> v) else hm_lookup (=) m)"
    by (rule hm_insert_ok [OF hash_ok_equality m, of k v, unfolded upd])
next
  fix m :: "('k, 'v) hmap" and k assume m: "hm_wf hash (=) m"
  have upd: "(\<lambda>k'. if k = k' then None else hm_lookup (=) m k') = (hm_lookup (=) m)(k := None)" by auto
  show "\<exists>m'. hm_erase hash (=) k m = Some (hm_lookup (=) m k \<noteq> None, m') \<and> hm_wf hash (=) m' \<and>
    hm_lookup (=) m' = (hm_lookup (=) m)(k := None)"
    by (rule hm_erase_ok [OF hash_ok_equality m, of k, unfolded upd])
qed

subsection \<open>Properties\<close>

text \<open>C28: on every map the program can build, with a hash and a comparison that keep their contract, each
operation returns (no probe runs around a table without an empty slot) and acts on the table as on
the finite map it stands for: insertion refuses a key that is there, assignment overwrites it,
erasure removes it, and lookup points at its value.\<close>

theorem hash_map_is_map:
  assumes "hash_ok hash eq" and "hm_reachable hash eq m"
  shows "\<exists>m1 m2 m3 i m4 r.
    hm_insert hash eq key v m = Some (hm_lookup eq m key = None, m1) \<and>
    hm_lookup eq m1 = (if hm_lookup eq m key = None then (\<lambda>k. if eq key k then Some v else hm_lookup eq m k) else hm_lookup eq m) \<and>
    hm_insert_or_assign hash eq key v m = Some (hm_lookup eq m key = None, m2) \<and>
    hm_lookup eq m2 = (\<lambda>k. if eq key k then Some v else hm_lookup eq m k) \<and>
    hm_erase hash eq key m = Some (hm_lookup eq m key \<noteq> None, m3) \<and>
    hm_lookup eq m3 = (\<lambda>k. if eq key k then None else hm_lookup eq m k) \<and>
    hm_subscript hash eq v key m = Some (i, m4) \<and> hm_lookup eq m4 = hm_lookup eq m1 \<and> Some (hm_load i m4) = hm_lookup eq m1 key \<and>
    hm_find hash eq key m = Some r \<and> map_option (\<lambda>i. hm_load i m) r = hm_lookup eq m key"
proof -
  have wf: "hm_wf hash eq m" using assms by (rule hm_reachable_wf)
  note ok = assms(1) wf
  obtain m1 where m1: "hm_insert hash eq key v m = Some (hm_lookup eq m key = None, m1)"
    "hm_lookup eq m1 = (if hm_lookup eq m key = None then (\<lambda>k. if eq key k then Some v else hm_lookup eq m k) else hm_lookup eq m)"
    using hm_insert_ok [OF ok] by blast
  moreover obtain i m4 where m4: "hm_subscript hash eq v key m = Some (i, m4)" "hm_lookup eq m4 = hm_lookup eq m1"
    "hm_load i m4 = (case hm_lookup eq m key of None \<Rightarrow> v | Some v \<Rightarrow> v)"
    using hm_subscript_ok [OF ok, of v key] m1(2) by metis
  moreover have "Some (hm_load i m4) = hm_lookup eq m1 key"
    using m1(2) m4(3) hash_okD(1) [OF assms(1)] by (auto split: option.splits)
  moreover obtain m2 where "hm_insert_or_assign hash eq key v m = Some (hm_lookup eq m key = None, m2)"
    "hm_lookup eq m2 = (\<lambda>k. if eq key k then Some v else hm_lookup eq m k)"
    using hm_insert_or_assign_ok [OF ok, of key v] by blast
  moreover obtain m3 where "hm_erase hash eq key m = Some (hm_lookup eq m key \<noteq> None, m3)"
    "hm_lookup eq m3 = (\<lambda>k. if eq key k then None else hm_lookup eq m k)"
    using hm_erase_ok [OF ok, of key] by blast
  moreover obtain r where "hm_find hash eq key m = Some r" "map_option (\<lambda>i. hm_load i m) r = hm_lookup eq m key"
    using hm_find_ok [OF ok, of key] by blast
  ultimately show ?thesis by blast
qed

lemma hash_map_is_map_witness:
  "\<exists>m :: (nat, nat) hmap. hm_insert of_nat (=) 5 7 hm_default = Some (True, m) \<and> hm_lookup (=) m 5 = Some 7"
  using hash_map_is_map [OF hash_ok_equality hm_reachable.default, of "of_nat :: nat \<Rightarrow> u64" 5 "7 :: nat"]
  by (auto simp: hm_default_lookup)

text \<open>The table of a reachable map always has an empty slot unless it has no slot at all, and its size is a
power of two; reserving, shrinking and clearing return and keep, or empty, the map.\<close>

lemma hash_map_capacity:
  assumes "hash_ok hash eq" and "hm_reachable hash eq m"
  shows "(hm_slots m = [] \<or> hm_size m + hm_tombstones m < length (hm_slots m) \<and> (\<exists>p. length (hm_slots m) = 2 ^ p)) \<and>
    (\<exists>m1 m2. hm_reserve eq n m = Some m1 \<and> hm_lookup eq m1 = hm_lookup eq m \<and> n \<le> length (hm_slots m1) \<and>
      hm_shrink_to_fit eq m = Some m2 \<and> hm_lookup eq m2 = hm_lookup eq m \<and>
      hm_lookup eq (hm_clear m) = (\<lambda>k. None) \<and> length (hm_slots (hm_clear m)) = length (hm_slots m))"
proof -
  have wf: "hm_wf hash eq m" using assms by (rule hm_reachable_wf)
  have "hm_slots m = [] \<or> hm_size m + hm_tombstones m < length (hm_slots m) \<and> (\<exists>p. length (hm_slots m) = 2 ^ p)"
    using wf by (auto simp: hm_wf_def dest: slots_wf_power)
  moreover have "length (hm_slots (hm_clear m)) = length (hm_slots m)" by (simp add: hm_clear_def)
  ultimately show ?thesis
    using hm_reserve_ok [OF assms(1) wf, of n] hm_shrink_ok [OF assms(1) wf] hm_clear_ok(2) [OF wf] by metis
qed

text \<open>Two reachable maps compare equal exactly when they are the same finite map, whatever their capacity
and the order their entries lie in.\<close>

lemma hash_map_equality:
  assumes "hash_ok hash eq" and "hm_reachable hash eq a" and "hm_reachable hash eq b"
  shows "hm_equal hash eq a b = Some (hm_lookup eq a = hm_lookup eq b)"
  using hm_equal_ok [OF assms(1) hm_reachable_wf [OF assms(1,2)] hm_reachable_wf [OF assms(1,3)]]
    hm_equal_lookup [OF assms(1) hm_reachable_wf [OF assms(1,2)] hm_reachable_wf [OF assms(1,3)]] by simp

end
