(* ===== verification/Flat_Hash_Set.thy ===== *)
theory Flat_Hash_Set
  imports Flat_Hash_Map
begin

text \<open>
  The hash set of \<open>container/flat_hash_set.hpp\<close>: the hash map with an empty value type, which is
  \<open>unit\<close>. Every member forwards to the map, so the set is a client of \<open>keyed_map\<close>; its elements are
  the domain of the map. The iterator is the map's, seen through the key.
\<close>

subsection \<open>The code\<close>

record 'k hset =
  fs_map :: "('k, unit) hmap"

definition fs_default :: "'k hset" where
  "fs_default = \<lparr>fs_map = hm_default\<rparr>"

definition fs_lift :: "('k, unit) hmap option \<Rightarrow> 'k hset option" where
  "fs_lift r = map_option (\<lambda>m. \<lparr>fs_map = m\<rparr>) r"

definition fs_make :: "('k \<Rightarrow> 'k \<Rightarrow> bool) \<Rightarrow> nat \<Rightarrow> 'k hset option" where
  "fs_make eq expected_entries = fs_lift (hm_make eq expected_entries)"

fun fs_insert_all :: "('k \<Rightarrow> u64) \<Rightarrow> ('k \<Rightarrow> 'k \<Rightarrow> bool) \<Rightarrow> 'k list \<Rightarrow> ('k, unit) hmap \<Rightarrow> ('k, unit) hmap option" where
  "fs_insert_all hash eq [] m = Some m"
| "fs_insert_all hash eq (value # init) m =
     (case hm_insert hash eq value () m of None \<Rightarrow> None | Some (_, m) \<Rightarrow> fs_insert_all hash eq init m)"

definition fs_from_list :: "('k \<Rightarrow> u64) \<Rightarrow> ('k \<Rightarrow> 'k \<Rightarrow> bool) \<Rightarrow> 'k list \<Rightarrow> 'k hset option" where
  "fs_from_list hash eq init =
     (case hm_make eq (length init) of None \<Rightarrow> None | Some m \<Rightarrow> fs_lift (fs_insert_all hash eq init m))"

definition fs_size :: "'k hset \<Rightarrow> nat" where
  "fs_size s = hm_size (fs_map s)"

definition fs_empty :: "'k hset \<Rightarrow> bool" where
  "fs_empty s \<longleftrightarrow> hm_size (fs_map s) = 0"

definition fs_capacity :: "'k hset \<Rightarrow> nat" where
  "fs_capacity s = length (hm_slots (fs_map s))"

definition fs_reserve :: "('k \<Rightarrow> 'k \<Rightarrow> bool) \<Rightarrow> nat \<Rightarrow> 'k hset \<Rightarrow> 'k hset option" where
  "fs_reserve eq n s = fs_lift (hm_reserve eq n (fs_map s))"

definition fs_clear :: "'k hset \<Rightarrow> 'k hset" where
  "fs_clear s = s\<lparr>fs_map := hm_clear (fs_map s)\<rparr>"

definition fs_shrink_to_fit :: "('k \<Rightarrow> 'k \<Rightarrow> bool) \<Rightarrow> 'k hset \<Rightarrow> 'k hset option" where
  "fs_shrink_to_fit eq s = fs_lift (hm_shrink_to_fit eq (fs_map s))"

definition fs_swap :: "'k hset \<Rightarrow> 'k hset \<Rightarrow> 'k hset \<times> 'k hset" where
  "fs_swap a b = (let (ma, mb) = hm_swap (fs_map a) (fs_map b) in (a\<lparr>fs_map := ma\<rparr>, b\<lparr>fs_map := mb\<rparr>))"

definition fs_insert :: "('k \<Rightarrow> u64) \<Rightarrow> ('k \<Rightarrow> 'k \<Rightarrow> bool) \<Rightarrow> 'k \<Rightarrow> 'k hset \<Rightarrow> (bool \<times> 'k hset) option" where
  "fs_insert hash eq value s =
     map_option (\<lambda>(b, m). (b, s\<lparr>fs_map := m\<rparr>)) (hm_insert hash eq value () (fs_map s))"

definition fs_erase :: "('k \<Rightarrow> u64) \<Rightarrow> ('k \<Rightarrow> 'k \<Rightarrow> bool) \<Rightarrow> 'k \<Rightarrow> 'k hset \<Rightarrow> (bool \<times> 'k hset) option" where
  "fs_erase hash eq value s = map_option (\<lambda>(b, m). (b, s\<lparr>fs_map := m\<rparr>)) (hm_erase hash eq value (fs_map s))"

definition fs_contains :: "('k \<Rightarrow> u64) \<Rightarrow> ('k \<Rightarrow> 'k \<Rightarrow> bool) \<Rightarrow> 'k \<Rightarrow> 'k hset \<Rightarrow> bool option" where
  "fs_contains hash eq value s = hm_contains hash eq value (fs_map s)"

definition fs_count :: "('k \<Rightarrow> u64) \<Rightarrow> ('k \<Rightarrow> 'k \<Rightarrow> bool) \<Rightarrow> 'k \<Rightarrow> 'k hset \<Rightarrow> nat option" where
  "fs_count hash eq value s = hm_count hash eq value (fs_map s)"

definition fs_begin :: "'k hset \<Rightarrow> nat" where
  "fs_begin s = hm_begin (fs_map s)"

definition fs_end :: "'k hset \<Rightarrow> nat" where
  "fs_end s = hm_end (fs_map s)"

definition fs_deref :: "'k hset \<Rightarrow> nat \<Rightarrow> 'k" where
  "fs_deref s i = fst (hm_deref (fs_map s) i)"

definition fs_next :: "'k hset \<Rightarrow> nat \<Rightarrow> nat" where
  "fs_next s i = hm_next (fs_map s) i"

definition fs_equal :: "('k \<Rightarrow> u64) \<Rightarrow> ('k \<Rightarrow> 'k \<Rightarrow> bool) \<Rightarrow> 'k hset \<Rightarrow> 'k hset \<Rightarrow> bool option" where
  "fs_equal hash eq a b = hm_equal hash eq (fs_map a) (fs_map b)"

subsection \<open>The elements\<close>

definition fs_elems :: "'k hset \<Rightarrow> 'k set" where
  "fs_elems s = dom (hm_lookup (=) (fs_map s))"

inductive fs_reachable :: "('k \<Rightarrow> u64) \<Rightarrow> 'k hset \<Rightarrow> bool" for hash where
  default: "fs_reachable hash fs_default"
| construct: "fs_make (=) n = Some s \<Longrightarrow> fs_reachable hash s"
| from_list: "fs_from_list hash (=) init = Some s \<Longrightarrow> fs_reachable hash s"
| insert: "fs_reachable hash s \<Longrightarrow> fs_insert hash (=) v s = Some (b, s') \<Longrightarrow> fs_reachable hash s'"
| erase: "fs_reachable hash s \<Longrightarrow> fs_erase hash (=) v s = Some (b, s') \<Longrightarrow> fs_reachable hash s'"
| reserve: "fs_reachable hash s \<Longrightarrow> fs_reserve (=) n s = Some s' \<Longrightarrow> fs_reachable hash s'"
| shrink: "fs_reachable hash s \<Longrightarrow> fs_shrink_to_fit (=) s = Some s' \<Longrightarrow> fs_reachable hash s'"
| clear: "fs_reachable hash s \<Longrightarrow> fs_reachable hash (fs_clear s)"

abbreviation fs_wf :: "('k \<Rightarrow> u64) \<Rightarrow> 'k hset \<Rightarrow> bool" where
  "fs_wf hash s \<equiv> hm_wf hash (=) (fs_map s)"

lemma fs_insert_ok:
  assumes "fs_wf hash s"
  shows "\<exists>s'. fs_insert hash (=) v s = Some (v \<notin> fs_elems s, s') \<and> fs_wf hash s' \<and> fs_elems s' = insert v (fs_elems s)"
  by (rule flat_hash.ins_dom [OF assms, of v "()"]) (auto simp: fs_insert_def fs_elems_def)

lemma fs_erase_ok:
  assumes "fs_wf hash s"
  shows "\<exists>s'. fs_erase hash (=) v s = Some (v \<in> fs_elems s, s') \<and> fs_wf hash s' \<and> fs_elems s' = fs_elems s - {v}"
  by (rule flat_hash.del_dom [OF assms, of v]) (auto simp: fs_erase_def fs_elems_def)

lemma fs_insert_all_fold: "fs_insert_all hash (=) init m = flat_hash.ins_all hash () init m"
  by (induction init arbitrary: m) (auto split: option.splits)

lemma fs_from_list_ok:
  fixes hash :: "'k \<Rightarrow> u64"
  shows "\<exists>s. fs_from_list hash (=) init = Some s \<and> fs_wf hash s \<and> fs_elems s = set init"
proof -
  obtain m :: "('k, unit) hmap" where m: "hm_make (=) (length init) = Some m" "hm_wf hash (=) m" "hm_lookup (=) m = (\<lambda>k. None)"
    using hm_make_ok [OF hash_ok_equality [of hash], of "length init"] by blast
  from flat_hash.ins_all_dom [OF m(2), of "()" init] m(1,3) show ?thesis
    by (auto simp: fs_from_list_def fs_lift_def fs_insert_all_fold fs_elems_def)
qed

lemma fs_make_ok: "\<exists>s. fs_make (=) n = Some s \<and> fs_wf hash s \<and> fs_elems s = {} \<and> n \<le> fs_capacity s"
  using hm_make_ok [OF hash_ok_equality [of hash], of n] by (auto simp: fs_make_def fs_lift_def fs_elems_def fs_capacity_def)

lemma fs_reserve_ok:
  "fs_wf hash s \<Longrightarrow> \<exists>s'. fs_reserve (=) n s = Some s' \<and> fs_wf hash s' \<and> fs_elems s' = fs_elems s \<and> n \<le> fs_capacity s'"
  using hm_reserve_ok [OF hash_ok_equality [of hash], of "fs_map s" n]
  by (auto simp: fs_reserve_def fs_lift_def fs_elems_def fs_capacity_def)

lemma fs_shrink_ok:
  "fs_wf hash s \<Longrightarrow> \<exists>s'. fs_shrink_to_fit (=) s = Some s' \<and> fs_wf hash s' \<and> fs_elems s' = fs_elems s"
  using hm_shrink_ok [OF hash_ok_equality [of hash], of "fs_map s"]
  by (auto simp: fs_shrink_to_fit_def fs_lift_def fs_elems_def)

lemma fs_clear_ok: "fs_wf hash s \<Longrightarrow> fs_wf hash (fs_clear s) \<and> fs_elems (fs_clear s) = {}"
  by (simp add: fs_clear_def fs_elems_def hm_clear_ok)

lemma fs_contains_ok: "fs_wf hash s \<Longrightarrow> fs_contains hash (=) v s = Some (v \<in> fs_elems s)"
  using hm_find_ok [OF hash_ok_equality [of hash], of "fs_map s" v]
  by (auto simp: fs_contains_def hm_contains_def hm_find_def fs_elems_def)

lemma fs_reachable_wf: "fs_reachable hash s \<Longrightarrow> fs_wf hash s"
proof (induction rule: fs_reachable.induct)
  case default
  show ?case by (simp add: fs_default_def hm_default_wf)
next
  case (construct n s)
  then show ?case using fs_make_ok [of n hash] by auto
next
  case (from_list init s)
  then show ?case using fs_from_list_ok [of hash init] by auto
next
  case (insert s v b s')
  then show ?case using fs_insert_ok [of hash s v] by auto
next
  case (erase s v b s')
  then show ?case using fs_erase_ok [of hash s v] by auto
next
  case (reserve s n s')
  then show ?case using fs_reserve_ok [of hash s n] by auto
next
  case (shrink s s')
  then show ?case using fs_shrink_ok [of hash s] by auto
next
  case (clear s)
  then show ?case by (simp add: fs_clear_ok)
qed

lemma fs_equal_ok:
  assumes "fs_wf hash a" and "fs_wf hash b"
  shows "fs_equal hash (=) a b = Some (fs_elems a = fs_elems b)"
proof -
  have "hm_lookup (=) (fs_map a) = hm_lookup (=) (fs_map b) \<longleftrightarrow> fs_elems a = fs_elems b"
  proof
    assume "fs_elems a = fs_elems b"
    then show "hm_lookup (=) (fs_map a) = hm_lookup (=) (fs_map b)"
      by (intro ext option_eqI) (auto simp: fs_elems_def dom_def set_eq_iff)
  qed (simp add: fs_elems_def)
  then show ?thesis
    using hm_equal_ok [OF hash_ok_equality assms] hm_equal_lookup [OF hash_ok_equality assms] by (simp add: fs_equal_def)
qed

subsection \<open>Iteration\<close>

text \<open>The elements a loop from \<open>begin\<close> to \<open>end\<close> sees.\<close>

function fs_walk :: "'k hset \<Rightarrow> nat \<Rightarrow> 'k list" where
  "fs_walk s i = (if i < fs_end s then fs_deref s i # fs_walk s (fs_next s i) else [])"
  by pat_completeness auto
termination
proof (relation "measure (\<lambda>(s, i). fs_end s - i)")
  fix s :: "'k hset" and i assume "i < fs_end s"
  moreover have "i < fs_next s i" using advance_ge [of "i + 1" "hm_slots (fs_map s)"] by (simp add: fs_next_def hm_next_def)
  ultimately show "((s, fs_next s i), s, i) \<in> measure (\<lambda>(s, i). fs_end s - i)" by simp
qed simp

declare fs_walk.simps [simp del]

lemma advance_keys:
  "\<forall>s \<in> set S. hs_state s = Slot_occupied \<longleftrightarrow> hs_entry s \<noteq> None \<Longrightarrow> i \<le> length S \<Longrightarrow>
    List.map_filter hs_entry (drop (advance_to_occupied S i) S) = List.map_filter hs_entry (drop i S)"
proof (induction S i rule: advance_to_occupied.induct)
  case (1 S i)
  show ?case
  proof (cases "i < length S \<and> hs_state (S ! i) \<noteq> Slot_occupied")
    case True
    then have "hs_entry (S ! i) = None" using "1.prems"(1) by (metis nth_mem)
    then have "List.map_filter hs_entry (drop i S) = List.map_filter hs_entry (drop (i + 1) S)"
      using True by (simp add: List.map_filter_simps flip: Cons_nth_drop_Suc [of i S])
    moreover have "advance_to_occupied S i = advance_to_occupied S (i + 1)"
      using True by (simp add: advance_to_occupied.simps [of S i])
    ultimately show ?thesis using "1.IH" [OF True] "1.prems" True by simp
  next
    case False
    then show ?thesis by (subst advance_to_occupied.simps) auto
  qed
qed

lemma fs_walk_entries:
  assumes "\<forall>x \<in> set (hm_slots (fs_map s)). hs_state x = Slot_occupied \<longleftrightarrow> hs_entry x \<noteq> None"
    and "i < length (hm_slots (fs_map s)) \<Longrightarrow> hs_state (hm_slots (fs_map s) ! i) = Slot_occupied"
  shows "fs_walk s i = map fst (List.map_filter hs_entry (drop i (hm_slots (fs_map s))))"
  using assms(2)
proof (induction "length (hm_slots (fs_map s)) - i" arbitrary: i rule: less_induct)
  case less
  let ?S = "hm_slots (fs_map s)"
  show ?case
  proof (cases "i < length ?S")
    case True
    let ?next = "fs_next s i"
    have adv: "i < ?next" "?next < length ?S \<Longrightarrow> hs_state (?S ! ?next) = Slot_occupied"
      and keys: "List.map_filter hs_entry (drop ?next ?S) = List.map_filter hs_entry (drop (i + 1) ?S)"
      using advance_ok [of "i + 1" ?S] advance_keys [OF assms(1), of "i + 1"] True by (simp_all add: fs_next_def hm_next_def)
    have IH: "fs_walk s ?next = map fst (List.map_filter hs_entry (drop ?next ?S))"
      using less.hyps [OF _ adv(2)] adv(1) True by simp
    obtain e where e: "hs_entry (?S ! i) = Some e" using assms(1) less.prems True by auto
    have "drop i ?S = ?S ! i # drop (i + 1) ?S" using True by (simp add: Cons_nth_drop_Suc)
    then have "List.map_filter hs_entry (drop i ?S) = e # List.map_filter hs_entry (drop ?next ?S)"
      using e keys by (simp add: List.map_filter_simps)
    moreover have "fs_walk s i = fst e # fs_walk s ?next"
      using True e by (subst fs_walk.simps) (simp add: fs_end_def hm_end_length fs_deref_def hm_deref_def)
    ultimately show ?thesis by (simp add: IH)
  next
    case False
    then show ?thesis by (subst fs_walk.simps) (simp add: fs_end_def hm_end_length List.map_filter_simps)
  qed
qed

lemma distinct_entry_keys:
  "distinct_slots (=) S \<Longrightarrow> distinct (map fst (List.map_filter hs_entry S))"
proof (induction S)
  case (Cons x S)
  show ?case
  proof (cases "hs_entry x")
    case (Some e)
    have "fst e \<noteq> fst e'" if "s \<in> set S" "hs_entry s = Some e'" for s e'
      using Cons.prems Some that by (cases e; cases e') (auto simp: distinct_slots_def)
    then have "fst e \<notin> fst ` set (List.map_filter hs_entry S)" by (force simp: List.map_filter_def)
    with Some Cons show ?thesis by (simp add: List.map_filter_simps distinct_slots_def)
  next
    case None
    with Cons show ?thesis by (simp add: List.map_filter_simps distinct_slots_def)
  qed
qed (simp add: List.map_filter_simps)

lemma fs_walk_ok:
  assumes "fs_wf hash s"
  shows "distinct (fs_walk s (fs_begin s))" and "set (fs_walk s (fs_begin s)) = fs_elems s"
proof -
  let ?S = "hm_slots (fs_map s)"
  have wf: "?S = [] \<or> slots_wf hash (=) ?S" using assms by (auto simp: hm_wf_def)
  then have states: "\<forall>x \<in> set ?S. hs_state x = Slot_occupied \<longleftrightarrow> hs_entry x \<noteq> None" by (auto simp: slots_wf_def)
  have "distinct_slots (=) ?S"
    unfolding distinct_slots_def sorted_wrt_iff_nth_less
  proof (intro allI impI notI)
    fix i j k v k' v'
    assume ij: "i < j" "j < length ?S" and e: "hs_entry (?S ! i) = Some (k, v)" "hs_entry (?S ! j) = Some (k', v')" "k = k'"
    moreover from ij have "slots_wf hash (=) ?S" using wf by auto
    ultimately show False using slots_wf_distinct [of hash "(=)" ?S i j] by auto
  qed
  have "hs_state (?S ! fs_begin s) = Slot_occupied" if "fs_begin s < length ?S"
    using advance_ok [of 0 ?S] that by (simp add: fs_begin_def hm_begin_def)
  from fs_walk_entries [OF states this]
  have walk: "fs_walk s (fs_begin s) = map fst (hm_entries (fs_map s))"
    using advance_keys [OF states, of 0] by (simp add: fs_begin_def hm_begin_def hm_entries_def)
  show "distinct (fs_walk s (fs_begin s))"
    unfolding walk hm_entries_def by (rule distinct_entry_keys) fact
  show "set (fs_walk s (fs_begin s)) = fs_elems s"
    unfolding walk by (force simp: set_hm_entries fs_elems_def dom_def hm_lookup_iff [OF hash_ok_equality assms])
qed

subsection \<open>Properties\<close>

text \<open>A hash set built by any sequence of calls is a set: the constructor from a list holds exactly the listed
values, insertion and erasure return whether they changed the set, membership and equality are those
of the sets, a walk from \<open>begin\<close> to \<open>end\<close> visits each element once, and every call returns.\<close>

lemma hash_set_is_set:
  assumes "fs_reachable hash s" and "fs_reachable hash t"
  shows "(\<exists>s1 s2 u. fs_insert hash (=) v s = Some (v \<notin> fs_elems s, s1) \<and> fs_elems s1 = insert v (fs_elems s) \<and>
      fs_erase hash (=) v s = Some (v \<in> fs_elems s, s2) \<and> fs_elems s2 = fs_elems s - {v} \<and>
      fs_from_list hash (=) init = Some u \<and> fs_elems u = set init) \<and>
    fs_contains hash (=) v s = Some (v \<in> fs_elems s) \<and>
    fs_equal hash (=) s t = Some (fs_elems s = fs_elems t) \<and>
    distinct (fs_walk s (fs_begin s)) \<and> set (fs_walk s (fs_begin s)) = fs_elems s"
proof -
  have wf: "fs_wf hash s" "fs_wf hash t" using assms by (simp_all add: fs_reachable_wf)
  show ?thesis
    using fs_insert_ok [OF wf(1), of v] fs_erase_ok [OF wf(1), of v] fs_from_list_ok [of hash init] fs_contains_ok [OF wf(1), of v]
      fs_equal_ok [OF wf] fs_walk_ok [OF wf(1)] by blast
qed

end
