(* ===== verification/Intrusive_List.thy ===== *)
theory Intrusive_List
  imports Prelude
begin

text \<open>
  The intrusive doubly linked list of \<open>container/intrusive_list.hpp\<close>. The hooks lie in the elements, so the
  links are a store from addresses to pointers (\<open>None\<close> is null), shared by all lists; a list object is the
  address of its sentinel and its size. The abstract view of a list is the sequence of the addresses
  of its elements. Following a null pointer is \<open>the None\<close>, of which nothing can be proved.
\<close>

subsection \<open>The code: hooks\<close>

record 'p hooks =
  hk_prev :: "'p \<Rightarrow> 'p option"
  hk_next :: "'p \<Rightarrow> 'p option"

record 'p ilist =
  il_sentinel :: 'p
  il_size :: nat

definition is_linked :: "'p hooks \<Rightarrow> 'p \<Rightarrow> bool" where
  "is_linked h p \<longleftrightarrow> hk_prev h p \<noteq> None \<or> hk_next h p \<noteq> None"

definition hook_link :: "'p \<Rightarrow> 'p \<Rightarrow> 'p hooks \<Rightarrow> 'p hooks" where
  "hook_link a b h = h\<lparr>hk_next := (hk_next h)(a := Some b), hk_prev := (hk_prev h)(b := Some a)\<rparr>"

definition hook_unlink :: "'p \<Rightarrow> 'p hooks \<Rightarrow> 'p hooks" where
  "hook_unlink p h = h\<lparr>hk_prev := (hk_prev h)(p := None), hk_next := (hk_next h)(p := None)\<rparr>"

subsection \<open>The code: the list\<close>

definition il_init :: "'p ilist \<Rightarrow> 'p hooks \<Rightarrow> 'p ilist \<times> 'p hooks" where
  "il_init l h =
     (l\<lparr>il_size := 0\<rparr>, h\<lparr>hk_prev := (hk_prev h)(il_sentinel l := Some (il_sentinel l)),
                         hk_next := (hk_next h)(il_sentinel l := Some (il_sentinel l))\<rparr>)"

definition il_empty :: "'p ilist \<Rightarrow> bool" where
  "il_empty l \<longleftrightarrow> il_size l = 0"

definition il_steal_from :: "'p ilist \<Rightarrow> 'p ilist \<Rightarrow> 'p hooks \<Rightarrow> 'p ilist \<times> 'p ilist \<times> 'p hooks" where
  "il_steal_from l other h =
     (if il_empty other then (l, other, h)
      else let first = the (hk_next h (il_sentinel other));
               last = the (hk_prev h (il_sentinel other));
               h = hook_link (il_sentinel l) first h;
               h = hook_link last (il_sentinel l) h;
               (other', h) = il_init other h
           in (l\<lparr>il_size := il_size other\<rparr>, other', h))"

definition il_begin :: "'p ilist \<Rightarrow> 'p hooks \<Rightarrow> 'p" where
  "il_begin l h = the (hk_next h (il_sentinel l))"

definition il_end :: "'p ilist \<Rightarrow> 'p" where
  "il_end l = il_sentinel l"

definition il_next :: "'p hooks \<Rightarrow> 'p \<Rightarrow> 'p" where
  "il_next h it = the (hk_next h it)"

definition il_prev :: "'p hooks \<Rightarrow> 'p \<Rightarrow> 'p" where
  "il_prev h it = the (hk_prev h it)"

partial_function (option) il_clear_from :: "'p \<Rightarrow> 'p \<Rightarrow> 'p hooks \<Rightarrow> 'p hooks option" where
  "il_clear_from s node h =
     (if node \<noteq> s then
        let nxt = the (hk_next h node)
        in il_clear_from s nxt (hook_unlink node h)
      else Some h)"

declare il_clear_from.simps [code]

definition il_clear :: "'p ilist \<Rightarrow> 'p hooks \<Rightarrow> ('p ilist \<times> 'p hooks) option" where
  "il_clear l h = map_option (il_init l) (il_clear_from (il_sentinel l) (the (hk_next h (il_sentinel l))) h)"

definition il_insert :: "'p \<Rightarrow> 'p \<Rightarrow> 'p ilist \<Rightarrow> 'p hooks \<Rightarrow> 'p \<times> 'p ilist \<times> 'p hooks" where
  "il_insert it fresh l h =
     (let nxt = it;
          prv = the (hk_prev h nxt);
          h = hook_link prv fresh h;
          h = hook_link fresh nxt h
      in (fresh, l\<lparr>il_size := il_size l + 1\<rparr>, h))"

definition il_push_back :: "'p \<Rightarrow> 'p ilist \<Rightarrow> 'p hooks \<Rightarrow> 'p ilist \<times> 'p hooks" where
  "il_push_back value l h = snd (il_insert (il_end l) value l h)"

definition il_push_front :: "'p \<Rightarrow> 'p ilist \<Rightarrow> 'p hooks \<Rightarrow> 'p ilist \<times> 'p hooks" where
  "il_push_front value l h = snd (il_insert (il_begin l h) value l h)"

definition il_erase :: "'p \<Rightarrow> 'p ilist \<Rightarrow> 'p hooks \<Rightarrow> 'p ilist \<times> 'p hooks" where
  "il_erase node l h =
     (l\<lparr>il_size := il_size l - 1\<rparr>,
      hook_unlink node (hook_link (the (hk_prev h node)) (the (hk_next h node)) h))"

definition il_erase_at :: "'p \<Rightarrow> 'p ilist \<Rightarrow> 'p hooks \<Rightarrow> 'p \<times> 'p ilist \<times> 'p hooks" where
  "il_erase_at it l h = (let nxt = the (hk_next h it) in (nxt, il_erase it l h))"

definition il_pop_front :: "'p ilist \<Rightarrow> 'p hooks \<Rightarrow> 'p option \<times> 'p ilist \<times> 'p hooks" where
  "il_pop_front l h =
     (if il_empty l then (None, l, h)
      else let node = the (hk_next h (il_sentinel l)) in (Some node, il_erase node l h))"

definition il_pop_back :: "'p ilist \<Rightarrow> 'p hooks \<Rightarrow> 'p option \<times> 'p ilist \<times> 'p hooks" where
  "il_pop_back l h =
     (if il_empty l then (None, l, h)
      else let node = the (hk_prev h (il_sentinel l)) in (Some node, il_erase node l h))"

definition il_front :: "'p ilist \<Rightarrow> 'p hooks \<Rightarrow> 'p option" where
  "il_front l h = (if il_empty l then None else hk_next h (il_sentinel l))"

definition il_back :: "'p ilist \<Rightarrow> 'p hooks \<Rightarrow> 'p option" where
  "il_back l h = (if il_empty l then None else hk_prev h (il_sentinel l))"

text \<open>The temporary of \<open>swap\<close> is a list on the stack, at an address of its own.\<close>

definition il_swap :: "'p \<Rightarrow> 'p ilist \<Rightarrow> 'p ilist \<Rightarrow> 'p hooks \<Rightarrow> 'p ilist \<times> 'p ilist \<times> 'p hooks" where
  "il_swap temp_address l other h =
     (let (temp, h) = il_init \<lparr>il_sentinel = temp_address, il_size = 0\<rparr> h;
          (temp, other, h) = il_steal_from temp other h;
          (other, l, h) = il_steal_from other l h;
          (l, temp, h) = il_steal_from l temp h
      in (l, other, h))"

definition il_move :: "'p \<Rightarrow> 'p ilist \<Rightarrow> 'p hooks \<Rightarrow> 'p ilist \<times> 'p ilist \<times> 'p hooks" where
  "il_move sentinel other h =
     (let (l, h) = il_init \<lparr>il_sentinel = sentinel, il_size = 0\<rparr> h in il_steal_from l other h)"

definition il_move_assign :: "'p ilist \<Rightarrow> 'p ilist \<Rightarrow> 'p hooks \<Rightarrow> ('p ilist \<times> 'p ilist \<times> 'p hooks) option" where
  "il_move_assign l other h =
     map_option (\<lambda>(l, h). il_steal_from l other h) (il_clear l h)"

partial_function (option) il_walk :: "'p hooks \<Rightarrow> 'p \<Rightarrow> 'p \<Rightarrow> 'p list option" where
  "il_walk h it e = (if it = e then Some [] else Option.bind (il_walk h (il_next h it) e) (\<lambda>ps. Some (it # ps)))"

declare il_walk.simps [code]

subsection \<open>Chains\<close>

fun chain :: "'p hooks \<Rightarrow> 'p list \<Rightarrow> bool" where
  "chain h (x # y # zs) \<longleftrightarrow> hk_next h x = Some y \<and> hk_prev h y = Some x \<and> chain h (y # zs)"
| "chain h _ \<longleftrightarrow> True"

text \<open>The list object at \<open>l\<close> holds the elements \<open>ns\<close>, in order.\<close>

definition il_rep :: "'p hooks \<Rightarrow> 'p ilist \<Rightarrow> 'p list \<Rightarrow> bool" where
  "il_rep h l ns \<longleftrightarrow> distinct (il_sentinel l # ns) \<and> chain h (il_sentinel l # ns @ [il_sentinel l]) \<and> il_size l = length ns"

lemma chain_append: "chain h (xs @ x # ys) \<longleftrightarrow> chain h (xs @ [x]) \<and> chain h (x # ys)"
proof (induction xs)
  case (Cons a xs)
  then show ?case by (cases xs) auto
qed simp

lemma chain_append2:
  "xs \<noteq> [] \<Longrightarrow> ys \<noteq> [] \<Longrightarrow> chain h (xs @ ys) \<longleftrightarrow>
    chain h xs \<and> hk_next h (last xs) = Some (hd ys) \<and> hk_prev h (hd ys) = Some (last xs) \<and> chain h ys"
proof (induction xs)
  case (Cons a xs)
  then show ?case by (cases xs; cases ys) auto
qed simp

lemma set_tlD: "p \<in> set (tl xs) \<Longrightarrow> p \<in> set xs"
  by (cases xs) auto

lemma chain_cong:
  "(\<And>p. p \<in> set (butlast xs) \<Longrightarrow> hk_next h' p = hk_next h p) \<Longrightarrow>
   (\<And>p. p \<in> set (tl xs) \<Longrightarrow> hk_prev h' p = hk_prev h p) \<Longrightarrow> chain h xs \<Longrightarrow> chain h' xs"
  by (induction h xs rule: chain.induct) auto

lemma il_rep_cong:
  assumes "il_rep h l ns" and "\<And>p. p \<in> insert (il_sentinel l) (set ns) \<Longrightarrow> hk_next h' p = hk_next h p \<and> hk_prev h' p = hk_prev h p"
  shows "il_rep h' l ns"
proof -
  have "chain h' (il_sentinel l # ns @ [il_sentinel l])"
    using assms by (intro chain_cong [of _ h']) (auto simp: il_rep_def butlast_append)
  with assms(1) show ?thesis by (simp add: il_rep_def)
qed

lemma il_rep_split:
  assumes "il_rep h l (xs @ ys)"
  defines "s \<equiv> il_sentinel l"
  shows "chain h (s # xs)" and "chain h (ys @ [s])" and "hk_next h (last (s # xs)) = Some (hd (ys @ [s]))"
    and "hk_prev h (hd (ys @ [s])) = Some (last (s # xs))" and "distinct (s # xs)" and "distinct (ys @ [s])"
    and "set (s # xs) \<inter> set ys = {}" and "set xs \<inter> set (ys @ [s]) = {}" and "il_size l = length xs + length ys"
  using assms chain_append2 [of "s # xs" "ys @ [s]" h] by (auto simp: il_rep_def)

lemma il_rep_join:
  assumes "chain h (s # xs)" and "chain h (ys @ [s])" and "hk_next h (last (s # xs)) = Some (hd (ys @ [s]))"
    and "hk_prev h (hd (ys @ [s])) = Some (last (s # xs))" and "distinct (s # xs @ ys)" and "il_size l = length (xs @ ys)"
    and "il_sentinel l = s"
  shows "il_rep h l (xs @ ys)"
  using assms chain_append2 [of "s # xs" "ys @ [s]" h] by (simp add: il_rep_def)

lemma last_not_butlast: "distinct xs \<Longrightarrow> xs \<noteq> [] \<Longrightarrow> last xs \<notin> set (butlast xs)"
  by (induction xs rule: rev_induct) auto

lemma il_init_ok: "il_rep (snd (il_init l h)) (fst (il_init l h)) []"
  by (simp add: il_init_def il_rep_def)

text \<open>What an operation leaves alone.\<close>

definition same_outside :: "'p set \<Rightarrow> 'p hooks \<Rightarrow> 'p hooks \<Rightarrow> bool" where
  "same_outside A h h' \<longleftrightarrow> (\<forall>p. p \<notin> A \<longrightarrow> hk_next h' p = hk_next h p \<and> hk_prev h' p = hk_prev h p)"

lemma il_rep_outside:
  "same_outside A h h' \<Longrightarrow> il_rep h l ns \<Longrightarrow> insert (il_sentinel l) (set ns) \<inter> A = {} \<Longrightarrow> il_rep h' l ns"
  by (rule il_rep_cong [of h]) (auto simp: same_outside_def)

lemma il_insert_ok:
  assumes "il_rep h l (xs @ ys)" and "v \<notin> insert (il_sentinel l) (set (xs @ ys))" and "it = hd (ys @ [il_sentinel l])"
    and "il_insert it v l h = (r, l', h')"
  shows "il_rep h' l' (xs @ v # ys)" and "same_outside (insert v (insert (il_sentinel l) (set (xs @ ys)))) h h'" and "r = v"
    and "il_sentinel l' = il_sentinel l"
proof -
  let ?s = "il_sentinel l"
  note sp = il_rep_split [OF assms(1)]
  let ?a = "last (?s # xs)"
  have a: "?a \<in> set (?s # xs)" by (rule last_in_set) simp
  have it: "it \<in> set (ys @ [?s])" using assms(3) by (cases ys) auto
  have v: "v \<noteq> ?a" "v \<noteq> it" "v \<noteq> ?s" "v \<notin> set xs" "v \<notin> set ys" using assms(2) a it by auto
  have h': "h' = hook_link v it (hook_link ?a v h)" and l': "l' = l\<lparr>il_size := il_size l + 1\<rparr>" and "r = v"
    using assms(4) sp(4) by (auto simp: il_insert_def Let_def assms(3))
  then show "r = v" "il_sentinel l' = ?s" by simp_all
  have nxt: "hk_next h' p = (if p = v then Some it else if p = ?a then Some v else hk_next h p)" for p
    using v by (simp add: h' hook_link_def)
  have prv: "hk_prev h' p = (if p = it then Some v else if p = v then Some ?a else hk_prev h p)" for p
    using v by (simp add: h' hook_link_def)
  show "same_outside (insert v (insert ?s (set (xs @ ys)))) h h'"
    using a it by (auto simp: same_outside_def nxt prv)
  have "p \<noteq> ?a" if "p \<in> set (butlast (?s # xs))" for p
    using that last_not_butlast [OF sp(5)] by auto
  moreover have "p \<notin> {it, v}" if "p \<in> set xs" for p using that sp(8) it v(4) by auto
  moreover have "p \<noteq> v" if "p \<in> set (butlast (?s # xs))" for p using that v by (auto dest: in_set_butlastD split: if_splits)
  ultimately have c1: "chain h' (?s # xs)"
    by (intro chain_cong [OF _ _ sp(1)]) (auto simp: nxt prv)
  have "p \<noteq> it" if "p \<in> set (tl (ys @ [?s]))" for p
    using that sp(6) assms(3) by (cases ys) auto
  moreover have "p \<noteq> ?a" if "p \<in> set ys" for p using that sp(7) a by auto
  ultimately have c2: "chain h' (ys @ [?s])"
    using v by (intro chain_cong [OF _ _ sp(2)]) (auto simp: nxt prv dest!: set_tlD)
  have c3: "chain h' (v # ys @ [?s])"
    using c2 assms(3) by (cases ys) (auto simp: nxt prv)
  show "il_rep h' l' (xs @ v # ys)"
  proof (rule il_rep_join)
    show "distinct (?s # xs @ v # ys)" using assms(1,2) by (auto simp: il_rep_def)
    show "il_size l' = length (xs @ v # ys)" using sp(9) l' by simp
    show "hk_next h' (last (?s # xs)) = Some (hd ((v # ys) @ [?s]))" using v(1) by (simp add: nxt)
    show "hk_prev h' (hd ((v # ys) @ [?s])) = Some (last (?s # xs))" using v(2) by (simp add: prv)
  qed (use c1 c3 l' in simp_all)
qed


lemma il_erase_ok:
  assumes "il_rep h l (xs @ v # ys)" and "il_erase v l h = (l', h')"
  shows "il_rep h' l' (xs @ ys)" and "same_outside (insert (il_sentinel l) (set (xs @ v # ys))) h h'" and "\<not> is_linked h' v"
    and "il_sentinel l' = il_sentinel l"
proof -
  let ?s = "il_sentinel l"
  note sp = il_rep_split [OF assms(1)]
  let ?a = "last (?s # xs)" and ?c = "hd (ys @ [?s])"
  have a: "?a \<in> set (?s # xs)" by (rule last_in_set) simp
  have c: "?c \<in> set (ys @ [?s])" by (rule hd_in_set) simp
  have ds: "distinct (?s # xs @ v # ys)" using assms(1) by (simp add: il_rep_def)
  then have v: "v \<noteq> ?a" "v \<noteq> ?c" "v \<noteq> ?s" "v \<notin> set xs" "v \<notin> set ys" using a c by auto
  have "hk_next h v = Some ?c" using sp(2) by (cases ys) auto
  then have h': "h' = hook_unlink v (hook_link ?a ?c h)" and l': "l' = l\<lparr>il_size := il_size l - 1\<rparr>"
    using assms(2) sp(4) by (auto simp: il_erase_def)
  then show "il_sentinel l' = ?s" by simp
  have nxt: "hk_next h' p = (if p = v then None else if p = ?a then Some ?c else hk_next h p)" for p
    using v by (simp add: h' hook_link_def hook_unlink_def)
  have prv: "hk_prev h' p = (if p = v then None else if p = ?c then Some ?a else hk_prev h p)" for p
    using v by (simp add: h' hook_link_def hook_unlink_def)
  show "\<not> is_linked h' v" by (simp add: is_linked_def nxt prv)
  show "same_outside (insert ?s (set (xs @ v # ys))) h h'"
    using a c by (auto simp: same_outside_def nxt prv)
  have "p \<noteq> ?a" if "p \<in> set (butlast (?s # xs))" for p
    using that last_not_butlast [of "?s # xs"] ds by auto
  moreover have "p \<noteq> ?c" if "p \<in> set xs" for p using that c ds by auto
  ultimately have c1: "chain h' (?s # xs)"
    using v by (intro chain_cong [OF _ _ sp(1)]) (auto simp: nxt prv dest: in_set_butlastD split: if_splits)
  have "p \<noteq> ?c" if "p \<in> set (tl (ys @ [?s]))" for p
    using that ds by (cases ys) auto
  moreover have "p \<noteq> ?a" if "p \<in> set ys" for p using that ds a by auto
  moreover have "chain h (ys @ [?s])" using sp(2) by (cases ys) auto
  ultimately have c2: "chain h' (ys @ [?s])"
    using v by (intro chain_cong [of _ h' h]) (auto simp: nxt prv dest: set_tlD)
  show "il_rep h' l' (xs @ ys)"
  proof (rule il_rep_join)
    show "hk_next h' ?a = Some ?c" "hk_prev h' ?c = Some ?a" using v(1,2) by (simp_all add: nxt prv)
  qed (use c1 c2 ds sp(9) l' in simp_all)
qed

lemma il_begin_ok: "il_rep h l ns \<Longrightarrow> il_begin l h = hd (ns @ [il_sentinel l])"
  by (cases ns) (auto simp: il_rep_def il_begin_def)

lemma il_front_ok: "il_rep h l ns \<Longrightarrow> il_front l h = (if ns = [] then None else Some (hd ns))"
  by (cases ns) (auto simp: il_rep_def il_front_def il_empty_def)

lemma il_back_ok: "il_rep h l ns \<Longrightarrow> il_back l h = (if ns = [] then None else Some (last ns))"
proof (cases ns rule: rev_cases)
  case (snoc xs x)
  assume "il_rep h l ns"
  with snoc il_rep_split(4) [of h l ns "[]"] show ?thesis by (simp add: il_back_def il_empty_def il_rep_def)
qed (simp add: il_back_def il_empty_def il_rep_def)

lemma il_empty_ok: "il_rep h l ns \<Longrightarrow> il_empty l \<longleftrightarrow> ns = []"
  by (simp add: il_rep_def il_empty_def)

lemma il_push_back_ok:
  assumes "il_rep h l ns" and "v \<notin> insert (il_sentinel l) (set ns)" and "il_push_back v l h = (l', h')"
  shows "il_rep h' l' (ns @ [v])" and "same_outside (insert v (insert (il_sentinel l) (set ns))) h h'" and "il_sentinel l' = il_sentinel l"
proof -
  obtain r where r: "il_insert (il_end l) v l h = (r, l', h')" using assms(3) by (cases "il_insert (il_end l) v l h") (auto simp: il_push_back_def)
  show "il_rep h' l' (ns @ [v])" "same_outside (insert v (insert (il_sentinel l) (set ns))) h h'" "il_sentinel l' = il_sentinel l"
    using il_insert_ok [of h l ns "[]" v "il_end l", OF _ _ _ r] assms(1,2) unfolding il_end_def append_Nil2 by simp_all
qed

lemma il_push_front_ok:
  assumes "il_rep h l ns" and "v \<notin> insert (il_sentinel l) (set ns)" and "il_push_front v l h = (l', h')"
  shows "il_rep h' l' (v # ns)" and "same_outside (insert v (insert (il_sentinel l) (set ns))) h h'" and "il_sentinel l' = il_sentinel l"
proof -
  obtain r where r: "il_insert (il_begin l h) v l h = (r, l', h')"
    using assms(3) by (cases "il_insert (il_begin l h) v l h") (auto simp: il_push_front_def)
  show "il_rep h' l' (v # ns)" "same_outside (insert v (insert (il_sentinel l) (set ns))) h h'" "il_sentinel l' = il_sentinel l"
    using il_insert_ok [of h l "[]" ns v "il_begin l h", OF _ _ _ r] assms(1,2) by (simp_all add: il_begin_ok)
qed

lemma il_pop_ok:
  assumes "il_rep h l ns"
  shows "il_pop_front l h = (r, l', h') \<Longrightarrow>
      r = (if ns = [] then None else Some (hd ns)) \<and> il_rep h' l' (tl ns) \<and> same_outside (insert (il_sentinel l) (set ns)) h h'"
    and "il_pop_back l h = (r, l', h') \<Longrightarrow>
      r = (if ns = [] then None else Some (last ns)) \<and> il_rep h' l' (butlast ns) \<and> same_outside (insert (il_sentinel l) (set ns)) h h'"
proof -
  assume pop: "il_pop_front l h = (r, l', h')"
  show "r = (if ns = [] then None else Some (hd ns)) \<and> il_rep h' l' (tl ns) \<and> same_outside (insert (il_sentinel l) (set ns)) h h'"
  proof (cases ns)
    case Nil
    with pop assms show ?thesis by (auto simp: il_pop_front_def il_empty_ok [OF assms] same_outside_def)
  next
    case (Cons v ys)
    have "il_begin l h = v" using il_begin_ok [OF assms] Cons by simp
    then have "il_pop_front l h = (Some v, il_erase v l h)" using Cons il_empty_ok [OF assms] by (simp add: il_pop_front_def il_begin_def)
    then have r: "r = Some v" and e: "il_erase v l h = (l', h')" using pop by simp_all
    have rep: "il_rep h l ([] @ v # ys)" using assms Cons by simp
    show ?thesis using il_erase_ok(1,2) [OF rep e] r Cons by simp
  qed
next
  assume pop: "il_pop_back l h = (r, l', h')"
  show "r = (if ns = [] then None else Some (last ns)) \<and> il_rep h' l' (butlast ns) \<and> same_outside (insert (il_sentinel l) (set ns)) h h'"
  proof (cases ns rule: rev_cases)
    case Nil
    with pop assms show ?thesis by (auto simp: il_pop_back_def il_empty_ok [OF assms] same_outside_def)
  next
    case (snoc xs v)
    have "hk_prev h (il_sentinel l) = Some v" using il_rep_split(4) [of h l ns "[]"] assms snoc by simp
    then have "il_pop_back l h = (Some v, il_erase v l h)" using snoc il_empty_ok [OF assms] by (simp add: il_pop_back_def)
    then have r: "r = Some v" and e: "il_erase v l h = (l', h')" using pop by simp_all
    have rep: "il_rep h l (xs @ v # [])" using assms snoc by simp
    show ?thesis using il_erase_ok(1,2) [OF rep e] r snoc by simp
  qed
qed

lemma il_clear_from_ok:
  "chain h (ns @ [s]) \<Longrightarrow> distinct (s # ns) \<Longrightarrow>
    \<exists>h'. il_clear_from s (hd (ns @ [s])) h = Some h' \<and> same_outside (set ns) h h' \<and> (\<forall>p \<in> set ns. \<not> is_linked h' p)"
proof (induction ns arbitrary: h)
  case Nil
  show ?case by (subst il_clear_from.simps) (simp add: same_outside_def)
next
  case (Cons x ns)
  let ?h = "hook_unlink x h"
  have nxt: "hk_next h x = Some (hd (ns @ [s]))" using Cons.prems(1) by (cases ns) auto
  have "chain h (ns @ [s])" using Cons.prems(1) by (cases ns) auto
  then have "chain ?h (ns @ [s])"
    using Cons.prems(2) by (intro chain_cong [of _ ?h h]) (auto simp: hook_unlink_def butlast_append dest!: in_set_butlastD set_tlD)
  with Cons.IH [of ?h] Cons.prems(2) obtain h' where h': "il_clear_from s (hd (ns @ [s])) ?h = Some h'"
    "same_outside (set ns) ?h h'" "\<forall>p \<in> set ns. \<not> is_linked h' p" by auto
  have "il_clear_from s (hd ((x # ns) @ [s])) h = Some h'"
    using h'(1) nxt Cons.prems(2) by (subst il_clear_from.simps) (auto simp: Let_def)
  moreover have "same_outside (set (x # ns)) h h'" using h'(2) by (auto simp: same_outside_def hook_unlink_def)
  moreover have "\<not> is_linked h' x" using h'(2) Cons.prems(2) by (auto simp: same_outside_def hook_unlink_def is_linked_def)
  ultimately show ?case using h'(3) by auto
qed

lemma il_clear_ok:
  assumes "il_rep h l ns"
  shows "\<exists>l' h'. il_clear l h = Some (l', h') \<and> il_rep h' l' [] \<and> same_outside (insert (il_sentinel l) (set ns)) h h' \<and>
    (\<forall>p \<in> set ns. \<not> is_linked h' p) \<and> il_sentinel l' = il_sentinel l"
proof -
  let ?s = "il_sentinel l"
  have "chain h (ns @ [?s])" using assms by (cases ns) (auto simp: il_rep_def)
  moreover have "distinct (?s # ns)" using assms by (simp add: il_rep_def)
  ultimately obtain h1 where h1: "il_clear_from ?s (hd (ns @ [?s])) h = Some h1" "same_outside (set ns) h h1" "\<forall>p \<in> set ns. \<not> is_linked h1 p"
    using il_clear_from_ok by metis
  have "il_clear l h = Some (il_init l h1)" using h1(1) il_begin_ok [OF assms] by (simp add: il_clear_def il_begin_def)
  moreover have "il_rep (snd (il_init l h1)) (fst (il_init l h1)) []" by (rule il_init_ok)
  ultimately show ?thesis using h1(2,3) \<open>distinct (?s # ns)\<close>
    by (auto simp: il_init_def same_outside_def is_linked_def)
qed

lemma il_steal_ok:
  assumes "il_rep h l []" and "il_rep h other ns" and "il_sentinel l \<notin> insert (il_sentinel other) (set ns)"
    and "il_steal_from l other h = (l', other', h')"
  shows "il_rep h' l' ns" and "il_rep h' other' []" and "il_sentinel l' = il_sentinel l" and "il_sentinel other' = il_sentinel other"
    and "same_outside (insert (il_sentinel l) (insert (il_sentinel other) (set ns))) h h'"
proof -
  let ?s = "il_sentinel l" and ?o = "il_sentinel other"
  have "il_rep h' l' ns \<and> il_rep h' other' [] \<and> il_sentinel l' = ?s \<and> il_sentinel other' = ?o \<and>
    same_outside (insert ?s (insert ?o (set ns))) h h'"
  proof (cases "ns = []")
    case True
    then have "l' = l" "other' = other" "h' = h" using assms(2,4) by (auto simp: il_steal_from_def il_empty_ok)
    then show ?thesis using assms(1,2) True by (simp add: same_outside_def)
  next
    case False
    let ?f = "hd ns" and ?t = "last ns"
    have ft: "?f \<in> set ns" "?t \<in> set ns" using False by simp_all
    have ds: "distinct (?o # ns)" "?s \<noteq> ?o" "?s \<notin> set ns" using assms(2,3) by (auto simp: il_rep_def)
    have chains: "chain h ns" "hk_next h ?o = Some ?f" "hk_prev h ?o = Some ?t"
      using assms(2) False chain_append2 [of "[?o]" "ns @ [?o]" h] chain_append2 [of ns "[?o]" h] by (auto simp: il_rep_def)
    let ?h = "hook_link ?t ?s (hook_link ?s ?f h)"
    have eq: "il_steal_from l other h = (l\<lparr>il_size := il_size other\<rparr>, il_init other ?h)"
      using False chains(2,3) assms(2) by (simp add: il_steal_from_def il_empty_ok Let_def split_def)
    then have l': "l' = l\<lparr>il_size := il_size other\<rparr>" "(other', h') = il_init other ?h" using assms(4) by simp_all
    have o': "other' = other\<lparr>il_size := 0\<rparr>"
      and nxt: "hk_next h' p = (if p = ?o then Some ?o else if p = ?t then Some ?s else if p = ?s then Some ?f else hk_next h p)"
      and prv: "hk_prev h' p = (if p = ?o then Some ?o else if p = ?s then Some ?t else if p = ?f then Some ?s else hk_prev h p)" for p
      using l'(2) by (auto simp: il_init_def hook_link_def)
    have "p \<noteq> ?t" if "p \<in> set (butlast ns)" for p using that last_not_butlast [of ns] ds(1) False by auto
    moreover have "p \<noteq> ?f" if "p \<in> set (tl ns)" for p using that ds(1) False by (cases ns) auto
    ultimately have "chain h' ns"
      using ds by (intro chain_cong [OF _ _ chains(1)]) (auto simp: nxt prv dest: in_set_butlastD set_tlD)
    moreover have "hk_next h' ?t = Some ?s" "hk_prev h' ?s = Some ?t" "hk_next h' ?s = Some ?f" "hk_prev h' ?f = Some ?s"
      using ft ds by (auto simp: nxt prv)
    ultimately have "chain h' (?s # ns @ [?s])"
      using False chain_append2 [of "[?s]" "ns @ [?s]" h'] chain_append2 [of ns "[?s]" h'] by simp
    then have "il_rep h' l' ns" using ds assms(2) l'(1) by (simp add: il_rep_def)
    moreover have "il_rep h' other' []" by (simp add: il_rep_def o' nxt prv)
    moreover have "same_outside (insert ?s (insert ?o (set ns))) h h'" using ft by (auto simp: same_outside_def nxt prv)
    ultimately show ?thesis using l'(1) o' by simp
  qed
  then show "il_rep h' l' ns" and "il_rep h' other' []" and "il_sentinel l' = ?s" and "il_sentinel other' = ?o"
    and "same_outside (insert ?s (insert ?o (set ns))) h h'" by blast+
qed

lemma il_walk_ok: "il_rep h l (xs @ ys) \<Longrightarrow> il_walk h (hd (ys @ [il_sentinel l])) (il_sentinel l) = Some ys"
proof (induction ys arbitrary: xs)
  case Nil
  show ?case by (subst il_walk.simps) simp
next
  case (Cons y ys)
  have "hk_next h y = Some (hd (ys @ [il_sentinel l]))" using il_rep_split(2) [OF Cons.prems] by (cases ys) auto
  moreover have "y \<noteq> il_sentinel l" using Cons.prems by (auto simp: il_rep_def)
  ultimately show ?case using Cons.IH [of "xs @ [y]"] Cons.prems by (subst il_walk.simps) (simp add: il_next_def)
qed


lemma il_move_ok:
  assumes "il_rep h other ns" and "s \<notin> insert (il_sentinel other) (set ns)" and "il_move s other h = (l', other', h')"
  shows "il_rep h' l' ns" and "il_rep h' other' []"
proof -
  let ?l = "\<lparr>il_sentinel = s, il_size = 0\<rparr>"
  obtain l h1 where i: "il_init ?l h = (l, h1)" by fastforce
  have l: "il_rep h1 l []" "il_sentinel l = s" "same_outside {s} h h1"
    using il_init_ok [of ?l h] i by (auto simp: il_init_def same_outside_def)
  have other: "il_rep h1 other ns" by (rule il_rep_outside [OF l(3) assms(1)]) (use assms(2) in auto)
  have steal: "il_steal_from l other h1 = (l', other', h')" using assms(3) by (simp add: il_move_def i)
  have s: "il_sentinel l \<notin> insert (il_sentinel other) (set ns)" using assms(2) l(2) by simp
  show "il_rep h' l' ns" "il_rep h' other' []" using il_steal_ok(1,2) [OF l(1) other s steal] by simp_all
qed

lemma il_move_assign_ok:
  assumes "il_rep h l xs" and "il_rep h other ys" and "insert (il_sentinel l) (set xs) \<inter> insert (il_sentinel other) (set ys) = {}"
  shows "\<exists>l' other' h'. il_move_assign l other h = Some (l', other', h') \<and> il_rep h' l' ys \<and> il_rep h' other' []"
proof -
  obtain l1 h1 where c: "il_clear l h = Some (l1, h1)" "il_rep h1 l1 []" "same_outside (insert (il_sentinel l) (set xs)) h h1"
    "il_sentinel l1 = il_sentinel l" using il_clear_ok [OF assms(1)] by blast
  have other: "il_rep h1 other ys" by (rule il_rep_outside [OF c(3) assms(2)]) (use assms(3) in auto)
  obtain l' other' h' where steal: "il_steal_from l1 other h1 = (l', other', h')" by (metis prod_cases3)
  have s: "il_sentinel l1 \<notin> insert (il_sentinel other) (set ys)" using assms(3) c(4) by auto
  show ?thesis using il_steal_ok(1,2) [OF c(2) other s steal] c(1) steal by (simp add: il_move_assign_def)
qed

lemma il_swap_ok:
  assumes "il_rep h a xs" and "il_rep h b ys" and "insert (il_sentinel a) (set xs) \<inter> insert (il_sentinel b) (set ys) = {}"
    and "t \<notin> insert (il_sentinel a) (insert (il_sentinel b) (set xs \<union> set ys))" and "il_swap t a b h = (a', b', h')"
  shows "il_rep h' a' ys" and "il_rep h' b' xs" and "il_sentinel a' = il_sentinel a" and "il_sentinel b' = il_sentinel b"
proof -
  let ?temp = "\<lparr>il_sentinel = t, il_size = 0\<rparr>"
  obtain t0 h0 where i: "il_init ?temp h = (t0, h0)" by fastforce
  have t0: "il_rep h0 t0 []" "il_sentinel t0 = t" using il_init_ok [of ?temp h] i by (auto simp: il_init_def)
  have "same_outside {t} h h0" using i by (auto simp: il_init_def same_outside_def)
  then have ab0: "il_rep h0 a xs" "il_rep h0 b ys"
    using il_rep_outside [OF _ assms(1)] il_rep_outside [OF _ assms(2)] assms(4) by auto
  obtain t1 b1 h1 where s1: "il_steal_from t0 b h0 = (t1, b1, h1)" by (metis prod_cases3)
  have n1: "il_sentinel t0 \<notin> insert (il_sentinel b) (set ys)" using assms(4) t0(2) by simp
  note k1 = il_steal_ok [OF t0(1) ab0(2) n1 s1]
  have d: "il_sentinel a \<notin> set xs" "il_sentinel b \<notin> set ys" using assms(1,2) by (simp_all add: il_rep_def)
  have a1: "il_rep h1 a xs" by (rule il_rep_outside [OF k1(5) ab0(1)]) (use assms(3,4) t0(2) in auto)
  obtain b2 a2 h2 where s2: "il_steal_from b1 a h1 = (b2, a2, h2)" by (metis prod_cases3)
  have n2: "il_sentinel b1 \<notin> insert (il_sentinel a) (set xs)" using assms(3) k1(4) by auto
  note k2 = il_steal_ok [OF k1(2) a1 n2 s2]
  have t2: "il_rep h2 t1 ys" by (rule il_rep_outside [OF k2(5) k1(1)]) (use assms(3,4) k1(3,4) t0(2) d in auto)
  obtain a3 t3 h3 where s3: "il_steal_from a2 t1 h2 = (a3, t3, h3)" by (metis prod_cases3)
  have n3: "il_sentinel a2 \<notin> insert (il_sentinel t1) (set ys)" using assms(3,4) k2(4) k1(3) t0(2) by auto
  note k3 = il_steal_ok [OF k2(2) t2 n3 s3]
  have b3: "il_rep h3 b2 xs"
    by (rule il_rep_outside [OF k3(5) k2(1)]) (use assms(3,4) k1(3,4) k2(3,4) t0(2) d in auto)
  have "(a', b', h') = (a3, b2, h3)" using assms(5) by (simp add: il_swap_def i s1 s2 s3)
  then show "il_rep h' a' ys" "il_rep h' b' xs" "il_sentinel a' = il_sentinel a" "il_sentinel b' = il_sentinel b"
    using k3(1,3) b3 k2(3,4) k1(4) by simp_all
qed

subsection \<open>Sessions on a list\<close>

datatype 'p list_edit =
  Push_back 'p | Push_front 'p | Insert_before 'p 'p | Erase_node 'p | Pop_front | Pop_back | Clear_list

fun il_edit :: "'p list_edit \<Rightarrow> 'p ilist \<Rightarrow> 'p hooks \<Rightarrow> ('p option \<times> 'p ilist \<times> 'p hooks) option" where
  "il_edit (Push_back v) l h = Some (None, il_push_back v l h)"
| "il_edit (Push_front v) l h = Some (None, il_push_front v l h)"
| "il_edit (Insert_before it v) l h = (let (r, l, h) = il_insert it v l h in Some (Some r, l, h))"
| "il_edit (Erase_node v) l h = Some (None, il_erase v l h)"
| "il_edit Pop_front l h = Some (il_pop_front l h)"
| "il_edit Pop_back l h = Some (il_pop_back l h)"
| "il_edit Clear_list l h = map_option (\<lambda>lh. (None, lh)) (il_clear l h)"

fun il_edits :: "'p list_edit list \<Rightarrow> 'p ilist \<Rightarrow> 'p hooks \<Rightarrow> ('p option list \<times> 'p ilist \<times> 'p hooks) option" where
  "il_edits [] l h = Some ([], l, h)"
| "il_edits (e # es) l h =
     (case il_edit e l h of
        None \<Rightarrow> None
      | Some (r, l, h) \<Rightarrow> map_option (\<lambda>(rs, lh). (r # rs, lh)) (il_edits es l h))"

text \<open>The same on a sequence. \<open>None\<close> marks a call the asserts forbid: linking an element that is in the list (or is
its sentinel), or erasing one that is not.\<close>

fun seq_edit :: "'p \<Rightarrow> 'p list_edit \<Rightarrow> 'p list \<Rightarrow> ('p option \<times> 'p list) option" where
  "seq_edit s (Push_back v) ns = (if v = s \<or> v \<in> set ns then None else Some (None, ns @ [v]))"
| "seq_edit s (Push_front v) ns = (if v = s \<or> v \<in> set ns then None else Some (None, v # ns))"
| "seq_edit s (Insert_before it v) ns =
     (if v = s \<or> v \<in> set ns \<or> it \<noteq> s \<and> it \<notin> set ns then None
      else Some (Some v, takeWhile (\<lambda>p. p \<noteq> it) ns @ v # dropWhile (\<lambda>p. p \<noteq> it) ns))"
| "seq_edit s (Erase_node v) ns = (if v \<in> set ns then Some (None, remove1 v ns) else None)"
| "seq_edit s Pop_front ns = Some (if ns = [] then None else Some (hd ns), tl ns)"
| "seq_edit s Pop_back ns = Some (if ns = [] then None else Some (last ns), butlast ns)"
| "seq_edit s Clear_list ns = Some (None, [])"

fun seq_edits :: "'p \<Rightarrow> 'p list_edit list \<Rightarrow> 'p list \<Rightarrow> ('p option list \<times> 'p list) option" where
  "seq_edits s [] ns = Some ([], ns)"
| "seq_edits s (e # es) ns =
     (case seq_edit s e ns of
        None \<Rightarrow> None
      | Some (r, ns) \<Rightarrow> map_option (\<lambda>(rs, ns). (r # rs, ns)) (seq_edits s es ns))"

fun linked_by :: "'p list_edit \<Rightarrow> 'p set" where
  "linked_by (Push_back v) = {v}"
| "linked_by (Push_front v) = {v}"
| "linked_by (Insert_before it v) = {v}"
| "linked_by _ = {}"

lemma same_outside_mono: "same_outside A h h' \<Longrightarrow> A \<subseteq> B \<Longrightarrow> same_outside B h h'"
  by (auto simp: same_outside_def)

lemma same_outside_trans: "same_outside A h h' \<Longrightarrow> same_outside A h' h'' \<Longrightarrow> same_outside A h h''"
  by (simp add: same_outside_def)

lemma il_edit_ok:
  assumes "il_rep h l ns" and "seq_edit (il_sentinel l) e ns = Some (r, ns')"
  shows "\<exists>l' h'. il_edit e l h = Some (r, l', h') \<and> il_rep h' l' ns' \<and> il_sentinel l' = il_sentinel l \<and>
    same_outside (insert (il_sentinel l) (set ns \<union> linked_by e)) h h' \<and> set ns' \<subseteq> set ns \<union> linked_by e"
proof (cases e)
  case (Push_back v)
  obtain l' h' where p: "il_push_back v l h = (l', h')" by fastforce
  have v: "v \<notin> insert (il_sentinel l) (set ns)" "r = None" "ns' = ns @ [v]"
    using assms(2) by (auto simp: Push_back split: if_splits)
  note ok = il_push_back_ok [OF assms(1) v(1) p]
  have "same_outside (insert (il_sentinel l) (set ns \<union> {v})) h h'" using ok(2) by (rule same_outside_mono) auto
  with ok v(2,3) p show ?thesis by (simp add: Push_back)
next
  case (Push_front v)
  obtain l' h' where p: "il_push_front v l h = (l', h')" by fastforce
  have v: "v \<notin> insert (il_sentinel l) (set ns)" "r = None" "ns' = v # ns"
    using assms(2) by (auto simp: Push_front split: if_splits)
  note ok = il_push_front_ok [OF assms(1) v(1) p]
  have "same_outside (insert (il_sentinel l) (set ns \<union> {v})) h h'" using ok(2) by (rule same_outside_mono) auto
  with ok v(2,3) p show ?thesis by (simp add: Push_front)
next
  case (Insert_before it v)
  obtain l' h' where p: "il_insert it v l h = (v, l', h')" by (metis il_insert_def)
  let ?xs = "takeWhile (\<lambda>p. p \<noteq> it) ns" and ?ys = "dropWhile (\<lambda>p. p \<noteq> it) ns"
  have v: "v \<notin> insert (il_sentinel l) (set ns)" "it = il_sentinel l \<or> it \<in> set ns" "r = Some v" "ns' = ?xs @ v # ?ys"
    using assms(2) by (auto simp: Insert_before split: if_splits)
  have rep: "il_rep h l (?xs @ ?ys)" using assms(1) by simp
  have d: "il_sentinel l \<notin> set ns" using assms(1) by (simp add: il_rep_def)
  have it: "it = hd (?ys @ [il_sentinel l])"
  proof (cases "it \<in> set ns")
    case True
    then have ne: "?ys \<noteq> []" by (simp add: dropWhile_eq_Nil_conv)
    then show ?thesis using hd_dropWhile [OF ne] by simp
  next
    case False
    then have ys: "?ys = []" by (auto simp: dropWhile_eq_Nil_conv)
    show ?thesis unfolding ys using v(2) False by simp
  qed
  have vn: "v \<notin> insert (il_sentinel l) (set (?xs @ ?ys))" using v(1) by simp
  note ok = il_insert_ok [OF rep vn it p]
  have "same_outside (insert (il_sentinel l) (set ns \<union> {v})) h h'" using ok(2) by (rule same_outside_mono) auto
  moreover have "set ns' \<subseteq> set ns \<union> {v}" using v(4) by (auto dest: set_takeWhileD set_dropWhileD)
  ultimately show ?thesis using ok v(3,4) p by (simp add: Insert_before)
next
  case (Erase_node v)
  have v: "v \<in> set ns" "r = None" "ns' = remove1 v ns" using assms(2) by (auto simp: Erase_node split: if_splits)
  then obtain xs ys where ns: "ns = xs @ v # ys" by (meson split_list)
  obtain l' h' where p: "il_erase v l h = (l', h')" by fastforce
  have "v \<notin> set xs" using assms(1) by (simp add: il_rep_def ns)
  then have r1: "remove1 v ns = xs @ ys" by (simp add: ns remove1_append)
  note ok = il_erase_ok [OF assms(1) [unfolded ns] p]
  have "same_outside (insert (il_sentinel l) (set ns)) h h'" using ok(2) by (simp add: ns)
  with ok(1,4) v(2,3) r1 p show ?thesis by (auto simp: Erase_node ns)
next
  case Pop_front
  obtain r' l' h' where p: "il_pop_front l h = (r', l', h')" by (metis prod_cases3)
  have "il_sentinel l' = il_sentinel l" using p by (auto simp: il_pop_front_def il_erase_def Let_def split: if_splits)
  moreover have "set (tl ns) \<subseteq> set ns" by (auto dest: set_tlD)
  ultimately show ?thesis using il_pop_ok(1) [OF assms(1) p] assms(2) p by (auto simp: Pop_front)
next
  case Pop_back
  obtain r' l' h' where p: "il_pop_back l h = (r', l', h')" by (metis prod_cases3)
  have "il_sentinel l' = il_sentinel l" using p by (auto simp: il_pop_back_def il_erase_def Let_def split: if_splits)
  moreover have "set (butlast ns) \<subseteq> set ns" by (auto dest: in_set_butlastD)
  ultimately show ?thesis using il_pop_ok(2) [OF assms(1) p] assms(2) p by (auto simp: Pop_back)
next
  case Clear_list
  then show ?thesis using il_clear_ok [OF assms(1)] assms(2) by auto
qed

lemma il_edits_ok:
  assumes "il_rep h l ns" and "seq_edits (il_sentinel l) es ns = Some (rs, ns')"
  shows "\<exists>l' h'. il_edits es l h = Some (rs, l', h') \<and> il_rep h' l' ns' \<and> il_sentinel l' = il_sentinel l \<and>
    same_outside (insert (il_sentinel l) (set ns \<union> (\<Union>e \<in> set es. linked_by e))) h h'"
  using assms
proof (induction es arbitrary: h l ns rs)
  case Nil
  then show ?case by (simp add: same_outside_def)
next
  case (Cons e es)
  let ?A = "insert (il_sentinel l) (set ns \<union> (\<Union>e \<in> set (e # es). linked_by e))"
  obtain r ns1 rs1 where s: "seq_edit (il_sentinel l) e ns = Some (r, ns1)" "seq_edits (il_sentinel l) es ns1 = Some (rs1, ns')" "rs = r # rs1"
    using Cons.prems(2) by (auto split: option.splits)
  obtain l1 h1 where 1: "il_edit e l h = Some (r, l1, h1)" "il_rep h1 l1 ns1" "il_sentinel l1 = il_sentinel l"
    "same_outside (insert (il_sentinel l) (set ns \<union> linked_by e)) h h1" "set ns1 \<subseteq> set ns \<union> linked_by e"
    using il_edit_ok [OF Cons.prems(1) s(1)] by blast
  obtain l2 h2 where 2: "il_edits es l1 h1 = Some (rs1, l2, h2)" "il_rep h2 l2 ns'" "il_sentinel l2 = il_sentinel l1"
    "same_outside (insert (il_sentinel l1) (set ns1 \<union> (\<Union>e \<in> set es. linked_by e))) h1 h2"
    using Cons.IH [OF 1(2), of rs1] s(2) 1(3) by auto
  have "same_outside ?A h h1" using 1(4) by (rule same_outside_mono) auto
  moreover have "same_outside ?A h1 h2" using 2(4) 1(3,5) by (elim same_outside_mono) auto
  ultimately have "same_outside ?A h h2" by (rule same_outside_trans)
  with 1 2 s(3) show ?case by auto
qed


subsection \<open>Properties\<close>

text \<open>C34: a session of calls that keeps to the asserted preconditions acts on the linked list as on a sequence: the
results agree, iteration from \<open>begin\<close> to \<open>end\<close> visits the sequence, a list that shares no element with
the session stays intact, and every call returns.\<close>

theorem intrusive_list_is_sequence:
  assumes "il_rep h l ns" and "seq_edits (il_sentinel l) es ns = Some (rs, ns')"
  shows "\<exists>l' h'. il_edits es l h = Some (rs, l', h') \<and> il_rep h' l' ns' \<and>
    il_walk h' (il_begin l' h') (il_end l') = Some ns' \<and>
    il_front l' h' = (if ns' = [] then None else Some (hd ns')) \<and> il_back l' h' = (if ns' = [] then None else Some (last ns')) \<and>
    (\<forall>m ms. il_rep h m ms \<longrightarrow> insert (il_sentinel m) (set ms) \<inter>
        insert (il_sentinel l) (set ns \<union> (\<Union>e \<in> set es. linked_by e)) = {} \<longrightarrow> il_rep h' m ms)"
proof -
  obtain l' h' where 1: "il_edits es l h = Some (rs, l', h')" "il_rep h' l' ns'"
    "same_outside (insert (il_sentinel l) (set ns \<union> (\<Union>e \<in> set es. linked_by e))) h h'"
    using il_edits_ok [OF assms] by blast
  have "il_walk h' (il_begin l' h') (il_end l') = Some ns'"
    using il_walk_ok [of h' l' "[]" ns'] 1(2) il_begin_ok [OF 1(2)] by (simp add: il_end_def)
  then show ?thesis using 1 il_front_ok [OF 1(2)] il_back_ok [OF 1(2)] il_rep_outside [OF 1(3)] by blast
qed

lemma intrusive_list_is_sequence_witness:
  "\<exists>l h. il_edits [Push_back 1, Push_front 2, Push_back 3, Erase_node 1, Pop_back]
      \<lparr>il_sentinel = 0 :: nat, il_size = 0\<rparr> (snd (il_init \<lparr>il_sentinel = 0, il_size = 0\<rparr> \<lparr>hk_prev = \<lambda>_. None, hk_next = \<lambda>_. None\<rparr>)) =
      Some ([None, None, None, None, Some 3], l, h) \<and> il_walk h (il_begin l h) (il_end l) = Some [2]"
proof -
  let ?l = "\<lparr>il_sentinel = 0 :: nat, il_size = 0\<rparr>" and ?h = "\<lparr>hk_prev = \<lambda>_ :: nat. None, hk_next = \<lambda>_. None\<rparr>"
  have "il_rep (snd (il_init ?l ?h)) ?l []" using il_init_ok [of ?l ?h] by (simp add: il_init_def)
  from intrusive_list_is_sequence [OF this, of "[Push_back 1, Push_front 2, Push_back 3, Erase_node 1, Pop_back]"]
  show ?thesis by auto
qed

end
