(* ===== verification/Lru_Cache.thy ===== *)
theory Lru_Cache
  imports Flat_Hash_Map Intrusive_List
begin

text \<open>
  The cache of \<open>container/lru_cache.hpp\<close>: a pool of nodes, a stack of the free ones, the intrusive list of
  the others in order of use, and a hash map from keys to nodes. The map stores pointers to the keys in
  the pool, and hashes and compares through them; a lookup passes the address of its own argument. So
  the hash of a pointer depends on the pool, and writing a key could break the map: the invariant says
  that only keys of nodes outside the map are written. The abstract view is the list of entries, the
  most recently used first. A \<open>Value*\<close> into the cache is the index of its node.
\<close>

subsection \<open>The code\<close>

datatype lru_address = Node nat | Sentinel

datatype key_pointer = Pool_key nat | Argument_key

record ('k, 'v) lru_cache =
  lru_keys :: "'k list"
  lru_values :: "'v list"
  lru_free :: "nat list"
  lru_list :: "lru_address ilist"
  lru_hooks :: "lru_address hooks"
  lru_index :: "(key_pointer, nat) hmap"

definition deref_key :: "'k list \<Rightarrow> 'k \<Rightarrow> key_pointer \<Rightarrow> 'k" where
  "deref_key keys argument p = (case p of Pool_key i \<Rightarrow> keys ! i | Argument_key \<Rightarrow> argument)"

definition key_ptr_hash :: "('k \<Rightarrow> u64) \<Rightarrow> 'k list \<Rightarrow> 'k \<Rightarrow> key_pointer \<Rightarrow> u64" where
  "key_ptr_hash hash keys argument p = hash (deref_key keys argument p)"

definition key_ptr_eq :: "('k \<Rightarrow> 'k \<Rightarrow> bool) \<Rightarrow> 'k list \<Rightarrow> 'k \<Rightarrow> key_pointer \<Rightarrow> key_pointer \<Rightarrow> bool" where
  "key_ptr_eq eq keys argument a b = eq (deref_key keys argument a) (deref_key keys argument b)"

fun node_index :: "lru_address \<Rightarrow> nat" where
  "node_index (Node i) = i"
| "node_index Sentinel = undefined"

definition lru_find :: "('k \<Rightarrow> u64) \<Rightarrow> ('k \<Rightarrow> 'k \<Rightarrow> bool) \<Rightarrow> 'k \<Rightarrow> ('k, 'v) lru_cache \<Rightarrow> nat option option" where
  "lru_find hash eq key c =
     map_option (map_option (\<lambda>slot. hm_load slot (lru_index c)))
       (hm_find (key_ptr_hash hash (lru_keys c) key) (key_ptr_eq eq (lru_keys c) key) Argument_key (lru_index c))"

definition index_erase :: "('k \<Rightarrow> u64) \<Rightarrow> ('k \<Rightarrow> 'k \<Rightarrow> bool) \<Rightarrow> 'k \<Rightarrow> key_pointer \<Rightarrow> ('k, 'v) lru_cache \<Rightarrow> ('k, 'v) lru_cache option" where
  "index_erase hash eq argument p c =
     map_option (\<lambda>(b, m). c\<lparr>lru_index := m\<rparr>)
       (hm_erase (key_ptr_hash hash (lru_keys c) argument) (key_ptr_eq eq (lru_keys c) argument) p (lru_index c))"

definition list_erase :: "nat \<Rightarrow> ('k, 'v) lru_cache \<Rightarrow> ('k, 'v) lru_cache" where
  "list_erase entry c =
     (let (l, h) = il_erase (Node entry) (lru_list c) (lru_hooks c) in c\<lparr>lru_list := l, lru_hooks := h\<rparr>)"

definition list_push_front :: "nat \<Rightarrow> ('k, 'v) lru_cache \<Rightarrow> ('k, 'v) lru_cache" where
  "list_push_front entry c =
     (let (l, h) = il_push_front (Node entry) (lru_list c) (lru_hooks c) in c\<lparr>lru_list := l, lru_hooks := h\<rparr>)"

definition acquire_node :: "('k \<Rightarrow> u64) \<Rightarrow> ('k \<Rightarrow> 'k \<Rightarrow> bool) \<Rightarrow> 'k \<Rightarrow> ('k, 'v) lru_cache \<Rightarrow> (nat \<times> ('k, 'v) lru_cache) option" where
  "acquire_node hash eq argument c =
     (if lru_free c \<noteq> [] then Some (last (lru_free c), c\<lparr>lru_free := butlast (lru_free c)\<rparr>)
      else let evicted = node_index (the (il_back (lru_list c) (lru_hooks c)));
               c = list_erase evicted c
           in map_option (Pair evicted) (index_erase hash eq argument (Pool_key evicted) c))"

definition lru_make :: "('k \<Rightarrow> 'k \<Rightarrow> bool) \<Rightarrow> 'k \<Rightarrow> 'v \<Rightarrow> nat \<Rightarrow> ('k, 'v) lru_cache option" where
  "lru_make eq default_key default_value capacity =
     (let keys = replicate capacity default_key;
          (l, h) = il_init \<lparr>il_sentinel = Sentinel, il_size = 0\<rparr> \<lparr>hk_prev = \<lambda>_. None, hk_next = \<lambda>_. None\<rparr>
      in map_option (\<lambda>m. \<lparr>lru_keys = keys, lru_values = replicate capacity default_value, lru_free = [0..<capacity],
           lru_list = l, lru_hooks = h, lru_index = m\<rparr>)
         (hm_reserve (key_ptr_eq eq keys default_key) capacity hm_default))"

definition lru_size :: "('k, 'v) lru_cache \<Rightarrow> nat" where
  "lru_size c = il_size (lru_list c)"

definition lru_empty :: "('k, 'v) lru_cache \<Rightarrow> bool" where
  "lru_empty c \<longleftrightarrow> il_empty (lru_list c)"

definition lru_full :: "nat \<Rightarrow> ('k, 'v) lru_cache \<Rightarrow> bool" where
  "lru_full capacity c \<longleftrightarrow> il_size (lru_list c) = capacity"

definition lru_clear :: "'k \<Rightarrow> 'v \<Rightarrow> ('k, 'v) lru_cache \<Rightarrow> ('k, 'v) lru_cache option" where
  "lru_clear default_key default_value c =
     (case il_clear (lru_list c) (lru_hooks c) of
        None \<Rightarrow> None
      | Some (l, h) \<Rightarrow>
          Some (c\<lparr>lru_list := l, lru_hooks := h, lru_index := hm_clear (lru_index c),
                  lru_free := [0..<length (lru_keys c)],
                  lru_keys := map (\<lambda>_. default_key) (lru_keys c),
                  lru_values := map (\<lambda>_. default_value) (lru_values c)\<rparr>))"

definition lru_put :: "('k \<Rightarrow> u64) \<Rightarrow> ('k \<Rightarrow> 'k \<Rightarrow> bool) \<Rightarrow> 'k \<Rightarrow> 'v \<Rightarrow> ('k, 'v) lru_cache \<Rightarrow> ('k, 'v) lru_cache option" where
  "lru_put hash eq key value c =
     (case lru_find hash eq key c of
        None \<Rightarrow> None
      | Some (Some entry) \<Rightarrow>
          let c = c\<lparr>lru_values := (lru_values c)[entry := value]\<rparr>;
              c = list_erase entry c
          in Some (list_push_front entry c)
      | Some None \<Rightarrow>
          case acquire_node hash eq key c of
            None \<Rightarrow> None
          | Some (entry, c) \<Rightarrow>
              let c = c\<lparr>lru_keys := (lru_keys c)[entry := key], lru_values := (lru_values c)[entry := value]\<rparr>;
                  c = list_push_front entry c
              in map_option (\<lambda>(b, m). c\<lparr>lru_index := m\<rparr>)
                   (hm_insert (key_ptr_hash hash (lru_keys c) key) (key_ptr_eq eq (lru_keys c) key)
                      (Pool_key entry) entry (lru_index c)))"

definition lru_get :: "('k \<Rightarrow> u64) \<Rightarrow> ('k \<Rightarrow> 'k \<Rightarrow> bool) \<Rightarrow> 'k \<Rightarrow> ('k, 'v) lru_cache \<Rightarrow> (nat option \<times> ('k, 'v) lru_cache) option" where
  "lru_get hash eq key c =
     (case lru_find hash eq key c of
        None \<Rightarrow> None
      | Some None \<Rightarrow> Some (None, c)
      | Some (Some entry) \<Rightarrow> Some (Some entry, list_push_front entry (list_erase entry c)))"

definition lru_peek :: "('k \<Rightarrow> u64) \<Rightarrow> ('k \<Rightarrow> 'k \<Rightarrow> bool) \<Rightarrow> 'k \<Rightarrow> ('k, 'v) lru_cache \<Rightarrow> nat option option" where
  "lru_peek hash eq key c = lru_find hash eq key c"

definition lru_contains :: "('k \<Rightarrow> u64) \<Rightarrow> ('k \<Rightarrow> 'k \<Rightarrow> bool) \<Rightarrow> 'k \<Rightarrow> ('k, 'v) lru_cache \<Rightarrow> bool option" where
  "lru_contains hash eq key c =
     hm_contains (key_ptr_hash hash (lru_keys c) key) (key_ptr_eq eq (lru_keys c) key) Argument_key (lru_index c)"

definition lru_erase ::
  "('k \<Rightarrow> u64) \<Rightarrow> ('k \<Rightarrow> 'k \<Rightarrow> bool) \<Rightarrow> 'k \<Rightarrow> 'v \<Rightarrow> 'k \<Rightarrow> ('k, 'v) lru_cache \<Rightarrow> (bool \<times> ('k, 'v) lru_cache) option" where
  "lru_erase hash eq default_key default_value key c =
     (case lru_find hash eq key c of
        None \<Rightarrow> None
      | Some None \<Rightarrow> Some (False, c)
      | Some (Some entry) \<Rightarrow>
          map_option (\<lambda>c. (True, c\<lparr>lru_keys := (lru_keys c)[entry := default_key],
              lru_values := (lru_values c)[entry := default_value], lru_free := lru_free c @ [entry]\<rparr>))
            (index_erase hash eq key Argument_key (list_erase entry c)))"

definition lru_mru_key :: "('k, 'v) lru_cache \<Rightarrow> 'k option" where
  "lru_mru_key c =
     (if il_empty (lru_list c) then None
      else Some (lru_keys c ! node_index (the (il_front (lru_list c) (lru_hooks c)))))"

definition lru_lru_key :: "('k, 'v) lru_cache \<Rightarrow> 'k option" where
  "lru_lru_key c =
     (if il_empty (lru_list c) then None
      else Some (lru_keys c ! node_index (the (il_back (lru_list c) (lru_hooks c)))))"

subsection \<open>The invariant\<close>

text \<open>\<open>ns\<close> are the nodes in use, the most recent first; \<open>X\<close> are nodes an operation has in its hands, neither free
nor in use.\<close>

definition lru_inv :: "('k \<Rightarrow> u64) \<Rightarrow> ('k \<Rightarrow> 'k \<Rightarrow> bool) \<Rightarrow> nat \<Rightarrow> nat set \<Rightarrow> ('k, 'v) lru_cache \<Rightarrow> nat list \<Rightarrow> bool" where
  "lru_inv hash eq capacity X c ns \<longleftrightarrow>
     length (lru_keys c) = capacity \<and> length (lru_values c) = capacity \<and>
     il_rep (lru_hooks c) (lru_list c) (map Node ns) \<and> il_sentinel (lru_list c) = Sentinel \<and>
     distinct (lru_free c @ ns) \<and> X \<inter> set (lru_free c @ ns) = {} \<and> X \<union> set (lru_free c @ ns) = {..<capacity} \<and>
     hm_wf (key_ptr_hash hash (lru_keys c) undefined) (key_ptr_eq eq (lru_keys c) undefined) (lru_index c) \<and>
     hm_set (lru_index c) = (\<lambda>i. (Pool_key i, i)) ` set ns"

definition lru_entries :: "('k, 'v) lru_cache \<Rightarrow> nat list \<Rightarrow> ('k \<times> 'v) list" where
  "lru_entries c ns = map (\<lambda>i. (lru_keys c ! i, lru_values c ! i)) ns"

text \<open>A map stays well formed under another hash and comparison that agree on the keys it holds.\<close>

lemma slots_wf_cong:
  assumes "\<And>s k v. s \<in> set S \<Longrightarrow> hs_entry s = Some (k, v) \<Longrightarrow> hash k = hash' k"
    and "\<And>s s' k v k' v'. s \<in> set S \<Longrightarrow> s' \<in> set S \<Longrightarrow> hs_entry s = Some (k, v) \<Longrightarrow> hs_entry s' = Some (k', v') \<Longrightarrow> eq k k' = eq' k k'"
    and "slots_wf hash eq S"
  shows "slots_wf hash' eq' S"
  unfolding slots_wf_def
proof (intro conjI allI impI)
  show "\<exists>p. length S = 2 ^ p" "\<forall>s \<in> set S. hs_state s = Slot_occupied \<longleftrightarrow> hs_entry s \<noteq> None"
    using assms(3) by (simp_all add: slots_wf_def)
  fix i k v assume i: "i < length S" "hs_entry (S ! i) = Some (k, v)"
  have "hash k = hash' k" by (rule assms(1) [OF nth_mem [OF i(1)] i(2)])
  with slots_wf_key [OF assms(3) i] show "hs_hash (S ! i) = hash' k" "on_path S (bucket S (hash' k)) i" by simp_all
  fix j k' v' assume j: "j < length S" "hs_entry (S ! j) = Some (k', v')" "eq' k k'"
  have "eq k k'" using assms(2) [OF nth_mem [OF i(1)] nth_mem [OF j(1)] i(2) j(2)] j(3) by simp
  then show "i = j" by (rule slots_wf_distinct [OF assms(3) i(1) j(1) i(2) j(2)])
qed

lemma hm_wf_cong:
  assumes "\<And>k v. (k, v) \<in> hm_set m \<Longrightarrow> hash k = hash' k"
    and "\<And>k v k' v'. (k, v) \<in> hm_set m \<Longrightarrow> (k', v') \<in> hm_set m \<Longrightarrow> eq k k' = eq' k k'"
    and "hm_wf hash eq m"
  shows "hm_wf hash' eq' m"
proof -
  have mem: "e \<in> hm_set m" if "s \<in> set (hm_slots m)" "hs_entry s = Some e" for s e
    using that by (auto simp: hm_set_def in_set_conv_nth)
  have "slots_wf hash' eq' (hm_slots m)" if "slots_wf hash eq (hm_slots m)"
    by (rule slots_wf_cong [OF _ _ that]) (use assms(1,2) mem in blast)+
  with assms(3) show ?thesis by (auto simp: hm_wf_def)
qed


lemma hash_ok_pointers: "hash_ok hash eq \<Longrightarrow> hash_ok (key_ptr_hash hash keys a) (key_ptr_eq eq keys a)"
  unfolding hash_ok_def key_ptr_hash_def key_ptr_eq_def
  by (intro conjI equivpI reflpI sympI transpI allI impI) (auto simp: hash_ok_def intro: equivp_reflp equivp_symp equivp_transp)

lemma pool_wf:
  assumes "hm_wf (key_ptr_hash hash keys a) (key_ptr_eq eq keys a) m" and "hm_set m = (\<lambda>i. (Pool_key i, i)) ` N"
    and "\<And>i. i \<in> N \<Longrightarrow> keys' ! i = keys ! i"
  shows "hm_wf (key_ptr_hash hash keys' b) (key_ptr_eq eq keys' b) m"
  by (rule hm_wf_cong [OF _ _ assms(1)]) (auto simp: assms(2,3) key_ptr_hash_def key_ptr_eq_def deref_key_def)

lemma lru_index_wf:
  "lru_inv hash eq n X c ns \<Longrightarrow> hm_wf (key_ptr_hash hash (lru_keys c) a) (key_ptr_eq eq (lru_keys c) a) (lru_index c)"
  by (rule pool_wf [where a = undefined and keys = "lru_keys c" and N = "set ns"]) (simp_all add: lru_inv_def)

lemma lru_keys_distinct:
  assumes "hash_ok hash eq" and "lru_inv hash eq n X c ns" and "i \<in> set ns" and "j \<in> set ns" and "eq (lru_keys c ! i) (lru_keys c ! j)"
  shows "i = j"
proof -
  have "(Pool_key i, i) \<in> hm_set (lru_index c)" "(Pool_key j, j) \<in> hm_set (lru_index c)" using assms(2-4) by (simp_all add: lru_inv_def)
  from hm_set_unique [OF hash_ok_pointers [OF assms(1)] lru_index_wf [OF assms(2)] this] assms(5)
  show ?thesis by (simp add: key_ptr_eq_def deref_key_def)
qed

lemma lru_find_ok:
  assumes "hash_ok hash eq" and "lru_inv hash eq n X c ns"
  obtains r where "lru_find hash eq key c = Some r" and "\<And>i. r = Some i \<Longrightarrow> i \<in> set ns \<and> eq (lru_keys c ! i) key"
    and "r = None \<Longrightarrow> \<forall>i \<in> set ns. \<not> eq (lru_keys c ! i) key"
proof -
  let ?h = "key_ptr_hash hash (lru_keys c) key" and ?e = "key_ptr_eq eq (lru_keys c) key"
  note ok = hash_ok_pointers [OF assms(1), of "lru_keys c" key] lru_index_wf [OF assms(2), of key]
  obtain r where r: "hm_find ?h ?e Argument_key (lru_index c) = Some r"
    "map_option (\<lambda>i. hm_load i (lru_index c)) r = hm_lookup ?e (lru_index c) Argument_key"
    using hm_find_ok [OF ok] by blast
  have iff: "hm_lookup ?e (lru_index c) Argument_key = Some i \<longleftrightarrow> i \<in> set ns \<and> eq (lru_keys c ! i) key" for i
    unfolding hm_lookup_iff [OF ok] using assms(2) by (auto simp: lru_inv_def key_ptr_eq_def deref_key_def)
  have found: "lru_find hash eq key c = Some (hm_lookup ?e (lru_index c) Argument_key)" by (simp add: lru_find_def r(1) r(2) [symmetric])
  show thesis by (rule that [OF found]) (use iff in auto)
qed

subsection \<open>Moving a node\<close>

lemma list_erase_fields [simp]:
  "lru_keys (list_erase e c) = lru_keys c" "lru_values (list_erase e c) = lru_values c"
  "lru_free (list_erase e c) = lru_free c" "lru_index (list_erase e c) = lru_index c"
  by (simp_all add: list_erase_def split_def Let_def)

lemma list_push_fields [simp]:
  "lru_keys (list_push_front e c) = lru_keys c" "lru_values (list_push_front e c) = lru_values c"
  "lru_free (list_push_front e c) = lru_free c" "lru_index (list_push_front e c) = lru_index c"
  by (simp_all add: list_push_front_def split_def Let_def)

lemma list_erase_rep:
  assumes "il_rep (lru_hooks c) (lru_list c) (map Node (xs @ e # ys))" and "il_sentinel (lru_list c) = Sentinel"
  shows "il_rep (lru_hooks (list_erase e c)) (lru_list (list_erase e c)) (map Node (xs @ ys)) \<and>
    il_sentinel (lru_list (list_erase e c)) = Sentinel"
proof -
  obtain l h where lh: "il_erase (Node e) (lru_list c) (lru_hooks c) = (l, h)" by fastforce
  from assms(1) have rep: "il_rep (lru_hooks c) (lru_list c) (map Node xs @ Node e # map Node ys)" by simp
  show ?thesis using il_erase_ok(1,4) [OF rep lh] assms(2) by (simp add: list_erase_def lh)
qed

lemma list_push_rep:
  assumes "il_rep (lru_hooks c) (lru_list c) (map Node ns)" and "il_sentinel (lru_list c) = Sentinel" and "e \<notin> set ns"
  shows "il_rep (lru_hooks (list_push_front e c)) (lru_list (list_push_front e c)) (map Node (e # ns)) \<and>
    il_sentinel (lru_list (list_push_front e c)) = Sentinel"
proof -
  obtain l h where lh: "il_push_front (Node e) (lru_list c) (lru_hooks c) = (l, h)" by fastforce
  have fresh: "Node e \<notin> insert (il_sentinel (lru_list c)) (set (map Node ns))" using assms(2,3) by auto
  show ?thesis using il_push_front_ok(1,3) [OF assms(1) fresh lh] assms(2) by (simp add: list_push_front_def lh)
qed

lemma touch_ok:
  assumes "lru_inv hash eq n {} c (xs @ e # ys)"
  shows "lru_inv hash eq n {} (list_push_front e (list_erase e c)) (e # xs @ ys)"
proof -
  have "il_rep (lru_hooks c) (lru_list c) (map Node (xs @ e # ys))" "il_sentinel (lru_list c) = Sentinel" "e \<notin> set (xs @ ys)"
    using assms by (simp_all add: lru_inv_def)
  from list_erase_rep [OF this(1,2)] this(3) show ?thesis
    using list_push_rep [of "list_erase e c" "xs @ ys" e] assms by (auto simp: lru_inv_def)
qed

lemma drop_node_ok:
  assumes "hash_ok hash eq" and "lru_inv hash eq n X c (xs @ e # ys)" and "eq (lru_keys c ! e) (deref_key (lru_keys c) a p)"
  obtains m where "index_erase hash eq a p (list_erase e c) = Some ((list_erase e c)\<lparr>lru_index := m\<rparr>)"
    and "lru_inv hash eq n (insert e X) ((list_erase e c)\<lparr>lru_index := m\<rparr>) (xs @ ys)"
proof -
  let ?h = "key_ptr_hash hash (lru_keys c) a" and ?e = "key_ptr_eq eq (lru_keys c) a"
  have mem: "(Pool_key e, e) \<in> hm_set (lru_index c)" using assms(2) by (simp add: lru_inv_def)
  have eq: "?e (Pool_key e) p" using assms(3) by (simp add: key_ptr_eq_def) (simp add: deref_key_def)
  obtain m where m: "hm_erase ?h ?e p (lru_index c) = Some (True, m)" "hm_wf ?h ?e m" "hm_set m = hm_set (lru_index c) - {(Pool_key e, e)}"
    by (rule hm_erase_entry [OF hash_ok_pointers [OF assms(1)] lru_index_wf [OF assms(2)] mem eq])
  have e: "e \<notin> set (xs @ ys)" using assms(2) by (simp add: lru_inv_def)
  have set: "hm_set m = (\<lambda>i. (Pool_key i, i)) ` set (xs @ ys)" using m(3) assms(2) e by (auto simp: lru_inv_def)
  have "il_rep (lru_hooks (list_erase e c)) (lru_list (list_erase e c)) (map Node (xs @ ys)) \<and>
    il_sentinel (lru_list (list_erase e c)) = Sentinel" using assms(2) by (intro list_erase_rep) (simp_all add: lru_inv_def)
  then have "lru_inv hash eq n (insert e X) ((list_erase e c)\<lparr>lru_index := m\<rparr>) (xs @ ys)"
    using assms(2) pool_wf [OF m(2) set, of "lru_keys c" undefined] set by (auto simp: lru_inv_def)
  with that m(1) show thesis by (simp add: index_erase_def)
qed

lemma write_node_ok:
  assumes "lru_inv hash eq n X c ns" and "e \<in> X"
  shows "lru_inv hash eq n X (c\<lparr>lru_keys := (lru_keys c)[e := k], lru_values := (lru_values c)[e := v]\<rparr>) ns"
proof -
  have e: "e \<notin> set ns" using assms by (auto simp: lru_inv_def)
  have "hm_wf (key_ptr_hash hash ((lru_keys c)[e := k]) undefined) (key_ptr_eq eq ((lru_keys c)[e := k]) undefined) (lru_index c)"
  proof (rule pool_wf [where a = undefined and keys = "lru_keys c" and N = "set ns"])
    fix i assume "i \<in> set ns"
    with e show "(lru_keys c)[e := k] ! i = lru_keys c ! i" by (metis nth_list_update_neq)
  qed (use assms(1) in \<open>simp_all add: lru_inv_def\<close>)
  with assms(1) show ?thesis by (simp add: lru_inv_def)
qed

lemma link_node_ok:
  assumes "hash_ok hash eq" and "lru_inv hash eq n (insert e X) c ns" and "e \<notin> X" and "\<forall>i \<in> set ns. \<not> eq (lru_keys c ! i) (lru_keys c ! e)"
  obtains m where "hm_insert (key_ptr_hash hash (lru_keys c) a) (key_ptr_eq eq (lru_keys c) a) (Pool_key e) e (lru_index c) = Some (True, m)"
    and "lru_inv hash eq n X ((list_push_front e c)\<lparr>lru_index := m\<rparr>) (e # ns)"
proof -
  let ?h = "key_ptr_hash hash (lru_keys c) a" and ?e = "key_ptr_eq eq (lru_keys c) a"
  have set: "hm_set (lru_index c) = (\<lambda>i. (Pool_key i, i)) ` set ns" using assms(2) by (simp add: lru_inv_def)
  have absent: "\<forall>(k, v) \<in> hm_set (lru_index c). \<not> ?e k (Pool_key e)"
    using assms(4) by (auto simp: set key_ptr_eq_def deref_key_def)
  obtain m where m: "hm_insert ?h ?e (Pool_key e) e (lru_index c) = Some (True, m)" "hm_wf ?h ?e m"
    "hm_set m = insert (Pool_key e, e) (hm_set (lru_index c))"
    by (rule hm_insert_new [OF hash_ok_pointers [OF assms(1)] lru_index_wf [OF assms(2)] absent])
  have e: "e \<notin> set ns" "e \<notin> set (lru_free c)" using assms(2) by (auto simp: lru_inv_def)
  have set': "hm_set m = (\<lambda>i. (Pool_key i, i)) ` set (e # ns)" using m(3) set by simp
  have "il_rep (lru_hooks (list_push_front e c)) (lru_list (list_push_front e c)) (map Node (e # ns)) \<and>
    il_sentinel (lru_list (list_push_front e c)) = Sentinel" using assms(2) e by (intro list_push_rep) (simp_all add: lru_inv_def)
  then have "lru_inv hash eq n X ((list_push_front e c)\<lparr>lru_index := m\<rparr>) (e # ns)"
    using assms(2,3) e pool_wf [OF m(2) set', of "lru_keys c" undefined] set' by (auto simp: lru_inv_def)
  with that m(1) show thesis by blast
qed


subsection \<open>The operations on the entries\<close>

definition lookup_entry :: "('k \<Rightarrow> 'k \<Rightarrow> bool) \<Rightarrow> 'k \<Rightarrow> ('k \<times> 'v) list \<Rightarrow> ('k \<times> 'v) option" where
  "lookup_entry eq key es = List.find (\<lambda>(k, v). eq k key) es"

definition other_keys :: "('k \<Rightarrow> 'k \<Rightarrow> bool) \<Rightarrow> 'k \<Rightarrow> ('k \<times> 'v) list \<Rightarrow> ('k \<times> 'v) list" where
  "other_keys eq key es = filter (\<lambda>(k, v). \<not> eq k key) es"

definition cache_put :: "('k \<Rightarrow> 'k \<Rightarrow> bool) \<Rightarrow> nat \<Rightarrow> 'k \<Rightarrow> 'v \<Rightarrow> ('k \<times> 'v) list \<Rightarrow> ('k \<times> 'v) list" where
  "cache_put eq capacity key v es =
     (case lookup_entry eq key es of
        Some (k, _) \<Rightarrow> (k, v) # other_keys eq key es
      | None \<Rightarrow> (key, v) # (if length es = capacity then butlast es else es))"

definition cache_get :: "('k \<Rightarrow> 'k \<Rightarrow> bool) \<Rightarrow> 'k \<Rightarrow> ('k \<times> 'v) list \<Rightarrow> ('k \<times> 'v) list" where
  "cache_get eq key es =
     (case lookup_entry eq key es of Some e \<Rightarrow> e # other_keys eq key es | None \<Rightarrow> es)"

lemma find_unique:
  assumes "x \<in> set xs" and "P x" and "\<And>y. y \<in> set xs \<Longrightarrow> P y \<Longrightarrow> y = x"
  shows "List.find P xs = Some x"
proof (cases "List.find P xs")
  case None
  with assms(1,2) show ?thesis by (simp add: find_None_iff)
next
  case (Some y)
  then have "y \<in> set xs" "P y" by (auto simp: find_Some_iff)
  with Some assms(3) show ?thesis by simp
qed

lemma entries_found:
  assumes "hash_ok hash eq" and "lru_inv hash eq n X c ns" and "e \<in> set ns" and "eq (lru_keys c ! e) key"
  shows "lookup_entry eq key (lru_entries c ns) = Some (lru_keys c ! e, lru_values c ! e)"
    and "other_keys eq key (lru_entries c ns) = lru_entries c (remove1 e ns)"
proof -
  have same: "eq (lru_keys c ! i) key \<longleftrightarrow> i = e" if "i \<in> set ns" for i
  proof
    assume "eq (lru_keys c ! i) key"
    then have "eq (lru_keys c ! i) (lru_keys c ! e)" using assms(4) hash_okD(2,3) [OF assms(1)] by blast
    then show "i = e" by (rule lru_keys_distinct [OF assms(1,2) that assms(3)])
  qed (use assms(4) in simp)
  show "lookup_entry eq key (lru_entries c ns) = Some (lru_keys c ! e, lru_values c ! e)"
    unfolding lookup_entry_def by (rule find_unique) (use assms(3,4) same in \<open>auto simp: lru_entries_def\<close>)
  have "distinct ns" using assms(2) by (simp add: lru_inv_def)
  then have "remove1 e ns = filter (\<lambda>i. i \<noteq> e) ns" by (simp add: distinct_remove1_removeAll removeAll_filter_not_eq) (metis (mono_tags, lifting) filter_cong)
  also have "\<dots> = filter (\<lambda>i. \<not> eq (lru_keys c ! i) key) ns" using same by (intro filter_cong) auto
  finally show "other_keys eq key (lru_entries c ns) = lru_entries c (remove1 e ns)"
    by (simp add: other_keys_def lru_entries_def filter_map comp_def)
qed

lemma entries_absent:
  assumes "\<forall>i \<in> set ns. \<not> eq (lru_keys c ! i) key"
  shows "lookup_entry eq key (lru_entries c ns) = None" and "other_keys eq key (lru_entries c ns) = lru_entries c ns"
  using assms by (auto simp: lookup_entry_def other_keys_def lru_entries_def find_None_iff intro!: filter_True)

lemma lru_touch_ok:
  assumes "lru_inv hash eq n {} c ns" and "e \<in> set ns"
  shows "lru_inv hash eq n {} (list_push_front e (list_erase e c)) (e # remove1 e ns)"
proof -
  obtain xs ys where ns: "ns = xs @ e # ys" using assms(2) by (meson split_list)
  have "e \<notin> set xs" using assms(1) by (simp add: lru_inv_def ns)
  then show ?thesis using touch_ok [OF assms(1) [unfolded ns]] by (simp add: ns remove1_append)
qed

lemma lru_get_ok:
  assumes "hash_ok hash eq" and "lru_inv hash eq n {} c ns"
  shows "\<exists>r c' ns'. lru_get hash eq key c = Some (r, c') \<and> lru_inv hash eq n {} c' ns' \<and>
    lru_entries c' ns' = cache_get eq key (lru_entries c ns) \<and>
    map_option (\<lambda>i. lru_values c' ! i) r = map_option snd (lookup_entry eq key (lru_entries c ns))"
proof -
  obtain r where r: "lru_find hash eq key c = Some r" "\<And>i. r = Some i \<Longrightarrow> i \<in> set ns \<and> eq (lru_keys c ! i) key"
    "r = None \<Longrightarrow> \<forall>i \<in> set ns. \<not> eq (lru_keys c ! i) key" using lru_find_ok [OF assms] by blast
  show ?thesis
  proof (cases r)
    case None
    then show ?thesis using r(1) entries_absent [where eq = eq and c = c, OF r(3) [OF None]] assms(2) by (auto simp: lru_get_def cache_get_def)
  next
    case (Some e)
    then have e: "e \<in> set ns" "eq (lru_keys c ! e) key" using r(2) by blast+
    let ?c = "list_push_front e (list_erase e c)"
    have "lru_entries ?c (e # remove1 e ns) = cache_get eq key (lru_entries c ns)"
      using entries_found [OF assms e] by (simp add: cache_get_def) (simp add: lru_entries_def)
    then show ?thesis using lru_touch_ok [OF assms(2) e(1)] entries_found(1) [OF assms e] r(1) Some
      by (intro exI [of _ "Some e"] exI [of _ ?c] exI [of _ "e # remove1 e ns"]) (simp add: lru_get_def)
  qed
qed

lemma lru_erase_ok:
  assumes "hash_ok hash eq" and "lru_inv hash eq n {} c ns"
  shows "\<exists>c' ns'. lru_erase hash eq dk dv key c = Some (lookup_entry eq key (lru_entries c ns) \<noteq> None, c') \<and> lru_inv hash eq n {} c' ns' \<and>
    lru_entries c' ns' = other_keys eq key (lru_entries c ns)"
proof -
  obtain r where r: "lru_find hash eq key c = Some r" "\<And>i. r = Some i \<Longrightarrow> i \<in> set ns \<and> eq (lru_keys c ! i) key"
    "r = None \<Longrightarrow> \<forall>i \<in> set ns. \<not> eq (lru_keys c ! i) key" using lru_find_ok [OF assms] by blast
  show ?thesis
  proof (cases r)
    case None
    then show ?thesis using r(1) entries_absent [where eq = eq and c = c, OF r(3) [OF None]] assms(2) by (auto simp: lru_erase_def)
  next
    case (Some e)
    then have e: "e \<in> set ns" "eq (lru_keys c ! e) key" using r(2) by blast+
    obtain xs ys where ns: "ns = xs @ e # ys" using e(1) by (meson split_list)
    have d: "e \<notin> set xs" "e \<notin> set ys" using assms(2) by (simp_all add: lru_inv_def ns)
    have "eq (lru_keys c ! e) (deref_key (lru_keys c) key Argument_key)" using e(2) by (simp add: deref_key_def)
    then obtain m where m: "index_erase hash eq key Argument_key (list_erase e c) = Some ((list_erase e c)\<lparr>lru_index := m\<rparr>)"
      "lru_inv hash eq n (insert e {}) ((list_erase e c)\<lparr>lru_index := m\<rparr>) (xs @ ys)"
      by (rule drop_node_ok [OF assms(1) assms(2) [unfolded ns]])
    define c1 where "c1 = (list_erase e c)\<lparr>lru_index := m\<rparr>"
    define c2 where "c2 = c1\<lparr>lru_keys := (lru_keys c1)[e := dk], lru_values := (lru_values c1)[e := dv]\<rparr>"
    have "lru_inv hash eq n {e} c2 (xs @ ys)" unfolding c2_def c1_def by (rule write_node_ok [OF m(2)]) simp
    then have inv: "lru_inv hash eq n {} (c2\<lparr>lru_free := lru_free c2 @ [e]\<rparr>) (xs @ ys)" by (auto simp: lru_inv_def)
    have "lru_erase hash eq dk dv key c = Some (True, c2\<lparr>lru_free := lru_free c2 @ [e]\<rparr>)"
      using r(1) Some m(1) by (simp add: lru_erase_def c2_def c1_def)
    moreover have "lru_entries (c2\<lparr>lru_free := lru_free c2 @ [e]\<rparr>) (xs @ ys) = other_keys eq key (lru_entries c ns)"
      unfolding entries_found(2) [OF assms e] using d
      by (auto simp: ns remove1_append lru_entries_def c2_def c1_def intro!: nth_list_update_neq)
    ultimately show ?thesis using inv entries_found(1) [OF assms e] by auto
  qed
qed


lemma lru_free_length: "lru_inv hash eq n {} c ns \<Longrightarrow> length (lru_free c) + length ns = n"
proof -
  assume "lru_inv hash eq n {} c ns"
  then have "distinct (lru_free c @ ns)" "set (lru_free c @ ns) = {..<n}" by (simp_all add: lru_inv_def)
  then have "card {..<n} = length (lru_free c @ ns)" using distinct_card by metis
  then show ?thesis by simp
qed

lemma acquire_node_ok:
  assumes "hash_ok hash eq" and "lru_inv hash eq n {} c ns" and "0 < n"
  obtains e c1 ns1 where "acquire_node hash eq a c = Some (e, c1)" and "lru_inv hash eq n {e} c1 ns1" and "set ns1 \<subseteq> set ns"
    and "lru_keys c1 = lru_keys c" and "lru_values c1 = lru_values c" and "ns1 = (if length ns = n then butlast ns else ns)"
proof (cases "lru_free c = []")
  case False
  then obtain f e where f: "lru_free c = f @ [e]" by (metis rev_exhaust)
  let ?c = "c\<lparr>lru_free := f\<rparr>"
  have "lru_inv hash eq n {e} ?c ns" using assms(2) by (auto simp: lru_inv_def f)
  moreover have "length ns \<noteq> n" using lru_free_length [OF assms(2)] f by simp
  ultimately show thesis using that [of e ?c ns] by (simp add: acquire_node_def f)
next
  case True
  then have full: "length ns = n" using lru_free_length [OF assms(2)] by simp
  then have ne: "ns \<noteq> []" using assms(3) by auto
  let ?e = "last ns"
  have ns: "ns = butlast ns @ ?e # []" using ne by simp
  have "il_back (lru_list c) (lru_hooks c) = Some (Node ?e)"
    using il_back_ok [of "lru_hooks c" "lru_list c" "map Node ns"] assms(2) ne by (simp add: lru_inv_def last_map)
  then have acq: "acquire_node hash eq a c = map_option (Pair ?e) (index_erase hash eq a (Pool_key ?e) (list_erase ?e c))"
    using True by (simp add: acquire_node_def Let_def)
  have inv: "lru_inv hash eq n {} c (butlast ns @ ?e # [])" using assms(2) ne by simp
  have "eq (lru_keys c ! ?e) (deref_key (lru_keys c) a (Pool_key ?e))" using hash_okD(1) [OF assms(1)] by (simp add: deref_key_def)
  then obtain m where m: "index_erase hash eq a (Pool_key ?e) (list_erase ?e c) = Some ((list_erase ?e c)\<lparr>lru_index := m\<rparr>)"
    "lru_inv hash eq n (insert ?e {}) ((list_erase ?e c)\<lparr>lru_index := m\<rparr>) (butlast ns @ [])"
    by (rule drop_node_ok [OF assms(1) inv])
  show thesis
    by (rule that [of ?e "(list_erase ?e c)\<lparr>lru_index := m\<rparr>" "butlast ns"])
      (use m acq full in \<open>auto dest: in_set_butlastD\<close>)
qed

lemma lru_put_ok:
  assumes "hash_ok hash eq" and "lru_inv hash eq n {} c ns" and "0 < n"
  shows "\<exists>c' ns'. lru_put hash eq key v c = Some c' \<and> lru_inv hash eq n {} c' ns' \<and>
    lru_entries c' ns' = cache_put eq n key v (lru_entries c ns)"
proof -
  obtain r where r: "lru_find hash eq key c = Some r" "\<And>i. r = Some i \<Longrightarrow> i \<in> set ns \<and> eq (lru_keys c ! i) key"
    "r = None \<Longrightarrow> \<forall>i \<in> set ns. \<not> eq (lru_keys c ! i) key" using lru_find_ok [OF assms(1,2)] by blast
  show ?thesis
  proof (cases r)
    case None
    obtain e c1 ns1 where a: "acquire_node hash eq key c = Some (e, c1)" "lru_inv hash eq n {e} c1 ns1" "set ns1 \<subseteq> set ns"
      "lru_keys c1 = lru_keys c" "lru_values c1 = lru_values c" "ns1 = (if length ns = n then butlast ns else ns)"
      by (rule acquire_node_ok [OF assms])
    define c2 where "c2 = c1\<lparr>lru_keys := (lru_keys c1)[e := key], lru_values := (lru_values c1)[e := v]\<rparr>"
    have c2: "lru_inv hash eq n (insert e {}) c2 ns1" unfolding c2_def by (rule write_node_ok [OF a(2)]) simp
    have e: "e \<notin> set ns1" "e < length (lru_keys c1)" "e < length (lru_values c1)" using a(2) by (auto simp: lru_inv_def)
    have other: "lru_keys c2 ! i = lru_keys c ! i" "lru_values c2 ! i = lru_values c ! i" if "i \<in> set ns1" for i
      using that e(1) by (auto simp: c2_def a(4,5) intro!: nth_list_update_neq)
    have self: "lru_keys c2 ! e = key" "lru_values c2 ! e = v" using e(2,3) by (simp_all add: c2_def)
    have fresh: "\<forall>i \<in> set ns1. \<not> eq (lru_keys c2 ! i) (lru_keys c2 ! e)" using r(3) [OF None] a(3) other(1) self(1) by auto
    obtain m where m: "hm_insert (key_ptr_hash hash (lru_keys c2) key) (key_ptr_eq eq (lru_keys c2) key) (Pool_key e) e (lru_index c2) = Some (True, m)"
      "lru_inv hash eq n {} ((list_push_front e c2)\<lparr>lru_index := m\<rparr>) (e # ns1)"
      by (rule link_node_ok [OF assms(1) c2 _ fresh]) simp_all
    have "lru_put hash eq key v c = Some ((list_push_front e c2)\<lparr>lru_index := m\<rparr>)"
      using r(1) None a(1) m(1) by (simp add: lru_put_def c2_def Let_def)
    moreover have "lru_entries ((list_push_front e c2)\<lparr>lru_index := m\<rparr>) (e # ns1) = (key, v) # map (\<lambda>i. (lru_keys c ! i, lru_values c ! i)) ns1"
      using other self by (simp add: lru_entries_def)
    moreover have "\<dots> = cache_put eq n key v (lru_entries c ns)"
      using entries_absent(1) [where eq = eq and c = c, OF r(3) [OF None]] by (simp add: cache_put_def a(6)) (simp add: lru_entries_def map_butlast)
    ultimately show ?thesis using m(2) by auto
  next
    case (Some e)
    then have e: "e \<in> set ns" "eq (lru_keys c ! e) key" using r(2) by blast+
    let ?c = "c\<lparr>lru_values := (lru_values c)[e := v]\<rparr>"
    have inv: "lru_inv hash eq n {} ?c ns" using assms(2) by (simp add: lru_inv_def)
    have "e < length (lru_values c)" "distinct ns" using assms(2) e(1) by (auto simp: lru_inv_def)
    then have "lru_entries (list_push_front e (list_erase e ?c)) (e # remove1 e ns) = cache_put eq n key v (lru_entries c ns)"
      using entries_found [OF assms(1,2) e] by (simp add: cache_put_def) (auto simp: lru_entries_def intro!: nth_list_update_neq)
    then show ?thesis using lru_touch_ok [OF inv e(1)] r(1) Some by (auto simp: lru_put_def Let_def)
  qed
qed

lemma lru_clear_ok:
  assumes "lru_inv hash eq n {} c ns"
  shows "\<exists>c'. lru_clear dk dv c = Some c' \<and> lru_inv hash eq n {} c' []"
proof -
  have rep: "il_rep (lru_hooks c) (lru_list c) (map Node ns)" using assms by (simp add: lru_inv_def)
  obtain l h where lh: "il_clear (lru_list c) (lru_hooks c) = Some (l, h)" "il_rep h l []" "il_sentinel l = il_sentinel (lru_list c)"
    using il_clear_ok [OF rep] by blast
  have wf: "hm_wf hash' eq' (lru_index c) \<Longrightarrow> hm_wf hash' eq' (hm_clear (lru_index c))" for hash' eq' by (rule hm_clear_ok)
  have none: "hm_set (hm_clear (lru_index c)) = {}"
    by (auto simp: hm_set_def hm_clear_def)
  have "hm_wf (key_ptr_hash hash keys' undefined) (key_ptr_eq eq keys' undefined) (hm_clear (lru_index c))" for keys'
    by (rule pool_wf [where N = "{}", OF wf [OF lru_index_wf [OF assms, of undefined]]]) (simp_all add: none)
  with assms lh show ?thesis by (auto simp: lru_clear_def lru_inv_def none)
qed

lemma lru_make_ok:
  assumes "hash_ok hash eq"
  shows "\<exists>c. lru_make eq dk dv n = Some c \<and> lru_inv hash eq n {} c []"
proof -
  let ?keys = "replicate n dk"
  note ok = hash_ok_pointers [OF assms, of ?keys dk] hm_default_wf [of "key_ptr_hash hash ?keys dk" "key_ptr_eq eq ?keys dk"]
  obtain m :: "(key_pointer, nat) hmap" where m: "hm_reserve (key_ptr_eq eq ?keys dk) n hm_default = Some m"
    "hm_wf (key_ptr_hash hash ?keys dk) (key_ptr_eq eq ?keys dk) m" "hm_lookup (key_ptr_eq eq ?keys dk) m = hm_lookup (key_ptr_eq eq ?keys dk) hm_default"
    using hm_reserve_ok [OF ok, of n] by blast
  have "hm_set m = {}"
  proof (rule ccontr)
    assume "hm_set m \<noteq> {}"
    then obtain k v where "(k, v) \<in> hm_set m" by auto
    then have "hm_lookup (key_ptr_eq eq ?keys dk) m k = Some v"
      using hm_lookup_iff [OF ok(1) m(2)] hash_okD(1) [OF ok(1)] by blast
    with m(3) show False by (simp add: hm_default_lookup)
  qed
  moreover from this have "hm_wf (key_ptr_hash hash ?keys undefined) (key_ptr_eq eq ?keys undefined) m"
    by (intro pool_wf [where N = "{}", OF m(2)]) simp_all
  moreover obtain l h where lh: "il_init \<lparr>il_sentinel = Sentinel, il_size = 0\<rparr> \<lparr>hk_prev = \<lambda>_. None, hk_next = \<lambda>_. None\<rparr> = (l, h)" by fastforce
  moreover have "il_rep h l []" "il_sentinel l = Sentinel"
    using il_init_ok [of "\<lparr>il_sentinel = Sentinel, il_size = 0\<rparr>" "\<lparr>hk_prev = \<lambda>_. None, hk_next = \<lambda>_. None\<rparr>"] lh by (auto simp: il_init_def)
  ultimately show ?thesis using m(1) by (auto simp: lru_make_def lru_inv_def)
qed


subsection \<open>Sessions on a cache\<close>

datatype ('k, 'v) cache_request = Put 'k 'v | Get 'k | Peek 'k | Contains 'k | Erase_key 'k | Clear_cache

datatype 'v cache_result = Done | Value "'v option" | Answer bool

fun lru_call ::
  "('k \<Rightarrow> u64) \<Rightarrow> ('k \<Rightarrow> 'k \<Rightarrow> bool) \<Rightarrow> 'k \<Rightarrow> 'v \<Rightarrow> ('k, 'v) cache_request \<Rightarrow> ('k, 'v) lru_cache \<Rightarrow> ('v cache_result \<times> ('k, 'v) lru_cache) option" where
  "lru_call hash eq dk dv (Put k v) c = map_option (Pair Done) (lru_put hash eq k v c)"
| "lru_call hash eq dk dv (Get k) c =
     map_option (\<lambda>(r, c). (Value (map_option (\<lambda>i. lru_values c ! i) r), c)) (lru_get hash eq k c)"
| "lru_call hash eq dk dv (Peek k) c =
     map_option (\<lambda>r. (Value (map_option (\<lambda>i. lru_values c ! i) r), c)) (lru_peek hash eq k c)"
| "lru_call hash eq dk dv (Contains k) c = map_option (\<lambda>b. (Answer b, c)) (lru_contains hash eq k c)"
| "lru_call hash eq dk dv (Erase_key k) c = map_option (\<lambda>(b, c). (Answer b, c)) (lru_erase hash eq dk dv k c)"
| "lru_call hash eq dk dv Clear_cache c = map_option (Pair Done) (lru_clear dk dv c)"

fun lru_calls ::
  "('k \<Rightarrow> u64) \<Rightarrow> ('k \<Rightarrow> 'k \<Rightarrow> bool) \<Rightarrow> 'k \<Rightarrow> 'v \<Rightarrow> ('k, 'v) cache_request list \<Rightarrow> ('k, 'v) lru_cache \<Rightarrow>
    ('v cache_result list \<times> ('k, 'v) lru_cache) option" where
  "lru_calls hash eq dk dv [] c = Some ([], c)"
| "lru_calls hash eq dk dv (x # xs) c =
     (case lru_call hash eq dk dv x c of
        None \<Rightarrow> None
      | Some (r, c) \<Rightarrow> map_option (\<lambda>(rs, c). (r # rs, c)) (lru_calls hash eq dk dv xs c))"

text \<open>The same on a list of entries, the most recent first.\<close>

fun cache_call :: "('k \<Rightarrow> 'k \<Rightarrow> bool) \<Rightarrow> nat \<Rightarrow> ('k, 'v) cache_request \<Rightarrow> ('k \<times> 'v) list \<Rightarrow> 'v cache_result \<times> ('k \<times> 'v) list" where
  "cache_call eq n (Put k v) es = (Done, cache_put eq n k v es)"
| "cache_call eq n (Get k) es = (Value (map_option snd (lookup_entry eq k es)), cache_get eq k es)"
| "cache_call eq n (Peek k) es = (Value (map_option snd (lookup_entry eq k es)), es)"
| "cache_call eq n (Contains k) es = (Answer (lookup_entry eq k es \<noteq> None), es)"
| "cache_call eq n (Erase_key k) es = (Answer (lookup_entry eq k es \<noteq> None), other_keys eq k es)"
| "cache_call eq n Clear_cache es = (Done, [])"

fun cache_calls :: "('k \<Rightarrow> 'k \<Rightarrow> bool) \<Rightarrow> nat \<Rightarrow> ('k, 'v) cache_request list \<Rightarrow> ('k \<times> 'v) list \<Rightarrow> 'v cache_result list \<times> ('k \<times> 'v) list" where
  "cache_calls eq n [] es = ([], es)"
| "cache_calls eq n (x # xs) es = (let (r, es) = cache_call eq n x es; (rs, es) = cache_calls eq n xs es in (r # rs, es))"

lemma lru_peek_ok:
  assumes "hash_ok hash eq" and "lru_inv hash eq n {} c ns"
  shows "map_option (map_option (\<lambda>i. lru_values c ! i)) (lru_peek hash eq k c) = Some (map_option snd (lookup_entry eq k (lru_entries c ns)))"
    and "lru_contains hash eq k c = Some (lookup_entry eq k (lru_entries c ns) \<noteq> None)"
proof -
  obtain r where r: "lru_find hash eq k c = Some r" "\<And>i. r = Some i \<Longrightarrow> i \<in> set ns \<and> eq (lru_keys c ! i) k"
    "r = None \<Longrightarrow> \<forall>i \<in> set ns. \<not> eq (lru_keys c ! i) k" using lru_find_ok [OF assms] by blast
  have v: "map_option (\<lambda>i. lru_values c ! i) r = map_option snd (lookup_entry eq k (lru_entries c ns))"
    using r(2,3) entries_found(1) [OF assms] entries_absent(1) [where eq = eq and c = c and key = k and ns = ns] by (cases r) auto
  show "map_option (map_option (\<lambda>i. lru_values c ! i)) (lru_peek hash eq k c) = Some (map_option snd (lookup_entry eq k (lru_entries c ns)))"
    by (simp add: lru_peek_def r(1) v)
  have "lru_contains hash eq k c = map_option (\<lambda>x. x \<noteq> None) (lru_find hash eq k c)"
    by (simp add: lru_contains_def lru_find_def hm_contains_def hm_find_def option.map_comp comp_def)
  also have "\<dots> = Some (lookup_entry eq k (lru_entries c ns) \<noteq> None)" using r(1) arg_cong [OF v, of "\<lambda>x. x \<noteq> None"] by simp
  finally show "lru_contains hash eq k c = Some (lookup_entry eq k (lru_entries c ns) \<noteq> None)" .
qed

lemma lru_call_ok:
  assumes "hash_ok hash eq" and "lru_inv hash eq n {} c ns" and "0 < n"
  shows "\<exists>c' ns'. lru_call hash eq dk dv x c = Some (fst (cache_call eq n x (lru_entries c ns)), c') \<and> lru_inv hash eq n {} c' ns' \<and>
    lru_entries c' ns' = snd (cache_call eq n x (lru_entries c ns))"
proof (cases x)
  case (Put k v)
  then show ?thesis using lru_put_ok [OF assms, of k v] by auto
next
  case (Get k)
  then show ?thesis using lru_get_ok [OF assms(1,2), of k] by auto
next
  case (Peek k)
  then show ?thesis using lru_peek_ok(1) [OF assms(1,2), of k] assms(2) by auto
next
  case (Contains k)
  then show ?thesis using lru_peek_ok(2) [OF assms(1,2), of k] assms(2) by auto
next
  case (Erase_key k)
  then show ?thesis using lru_erase_ok [OF assms(1,2), of dk dv k] by auto
next
  case Clear_cache
  then show ?thesis using lru_clear_ok [OF assms(2), of dk dv] by (auto simp: lru_entries_def)
qed

lemma lru_calls_ok:
  assumes "hash_ok hash eq" and "0 < n" and "lru_inv hash eq n {} c ns"
  shows "\<exists>c' ns'. lru_calls hash eq dk dv xs c = Some (fst (cache_calls eq n xs (lru_entries c ns)), c') \<and> lru_inv hash eq n {} c' ns' \<and>
    lru_entries c' ns' = snd (cache_calls eq n xs (lru_entries c ns))"
  using assms(3)
proof (induction xs arbitrary: c ns)
  case Nil
  then show ?case by auto
next
  case (Cons x xs)
  obtain r es where s: "cache_call eq n x (lru_entries c ns) = (r, es)" by fastforce
  obtain c1 ns1 where 1: "lru_call hash eq dk dv x c = Some (r, c1)" "lru_inv hash eq n {} c1 ns1" "lru_entries c1 ns1 = es"
    using lru_call_ok [OF assms(1) Cons.prems assms(2), of dk dv x] s by auto
  from Cons.IH [OF 1(2)] 1 s show ?case by (auto simp: split_def Let_def)
qed

lemma lru_ends:
  assumes "lru_inv hash eq n X c ns"
  shows "lru_size c = length (lru_entries c ns)"
    and "lru_mru_key c = (if lru_entries c ns = [] then None else Some (fst (hd (lru_entries c ns))))"
    and "lru_lru_key c = (if lru_entries c ns = [] then None else Some (fst (last (lru_entries c ns))))"
proof -
  have rep: "il_rep (lru_hooks c) (lru_list c) (map Node ns)" using assms by (simp add: lru_inv_def)
  then show "lru_size c = length (lru_entries c ns)" by (simp add: il_rep_def lru_size_def lru_entries_def)
  show "lru_mru_key c = (if lru_entries c ns = [] then None else Some (fst (hd (lru_entries c ns))))"
    using il_front_ok [OF rep] il_empty_ok [OF rep] by (auto simp: lru_mru_key_def lru_entries_def hd_map)
  show "lru_lru_key c = (if lru_entries c ns = [] then None else Some (fst (last (lru_entries c ns))))"
    using il_back_ok [OF rep] il_empty_ok [OF rep] by (auto simp: lru_lru_key_def lru_entries_def last_map)
qed

subsection \<open>Properties\<close>

text \<open>C35: every session of calls on a cache of at least one entry returns what a list of entries in order of use returns,
where an insertion beyond the capacity drops the last entry; the size, the most and the least recently
used key are those of the list. The composition of pool, free stack, linked list and hash map of
pointers never loses, duplicates or mixes up an entry, and every call returns.\<close>

theorem lru_cache_is_recency_list:
  assumes "hash_ok hash eq" and "0 < capacity"
  shows "\<exists>c0 c. lru_make eq dk dv capacity = Some c0 \<and>
    lru_calls hash eq dk dv xs c0 = Some (fst (cache_calls eq capacity xs []), c) \<and>
    (let es = snd (cache_calls eq capacity xs [])
     in lru_size c = length es \<and> length es \<le> capacity \<and>
        lru_mru_key c = (if es = [] then None else Some (fst (hd es))) \<and>
        lru_lru_key c = (if es = [] then None else Some (fst (last es))))"
proof -
  obtain c0 where c0: "lru_make eq dk dv capacity = Some c0" "lru_inv hash eq capacity {} c0 []"
    using lru_make_ok [OF assms(1), where dk = dk and dv = dv and n = capacity] by blast
  have "lru_entries c0 [] = []" by (simp add: lru_entries_def)
  then obtain c ns where c: "lru_calls hash eq dk dv xs c0 = Some (fst (cache_calls eq capacity xs []), c)"
    "lru_inv hash eq capacity {} c ns" "lru_entries c ns = snd (cache_calls eq capacity xs [])"
    using lru_calls_ok [OF assms c0(2), of dk dv xs] by auto
  have "length (lru_entries c ns) \<le> capacity" using lru_free_length [OF c(2)] by (simp add: lru_entries_def)
  with c0(1) c lru_ends [OF c(2)] show ?thesis by (simp add: Let_def)
qed

lemma lru_cache_is_recency_list_witness:
  "\<exists>c0 c. lru_make (=) (0 :: nat) (0 :: nat) 2 = Some c0 \<and>
    lru_calls of_nat (=) 0 0 [Put 1 10, Put 2 20, Get 1, Put 3 30, Contains 2, Peek 1] c0 =
      Some ([Done, Done, Value (Some 10), Done, Answer False, Value (Some 10)], c) \<and> lru_mru_key c = Some 3 \<and> lru_lru_key c = Some 1"
proof -
  let ?xs = "[Put 1 10, Put 2 20, Get 1, Put 3 30, Contains 2, Peek 1] :: (nat, nat) cache_request list"
  have spec: "cache_calls (=) 2 ?xs [] = ([Done, Done, Value (Some 10), Done, Answer False, Value (Some 10)], [(3, 30), (1, 10)])"
    by (simp add: cache_put_def cache_get_def lookup_entry_def other_keys_def)
  show ?thesis
    using lru_cache_is_recency_list [OF hash_ok_equality [of "of_nat :: nat \<Rightarrow> u64"], of 2 0 0 ?xs]
    unfolding spec by (simp del: lru_calls.simps) blast
qed

end
