(* ===== verification/String_Search.thy ===== *)
theory String_Search
  imports Prelude "HOL-Library.Sublist"
begin

text \<open>
  Exact string search: \<open>algorithm/string/kmp.hpp\<close>, \<open>boyer_moore.hpp\<close> and \<open>z_function.hpp\<close>. A
  \<open>std::string_view\<close> is a list of bytes. \<open>npos\<close> is \<open>None\<close> of the result; an outer \<open>None\<close> is a call that
  does not return, and the loops that fall back through a table are partial functions because only
  the contents of the table make them end. The visitor of \<open>kmp_find_all\<close> is a function on a state that
  answers whether to go on. \<open>i - k + 1\<close> is \<open>i + 1 - k\<close>: the unsigned subtraction of the code may wrap below
  zero before the increment takes it back.
\<close>

subsection \<open>The code: Knuth-Morris-Pratt\<close>

partial_function (option) kmp_back :: "byte list \<Rightarrow> nat list \<Rightarrow> byte \<Rightarrow> nat \<Rightarrow> nat option" where
  "kmp_back needle table c k =
     (if 0 < k \<and> needle ! k \<noteq> c then kmp_back needle table c (table ! (k - 1)) else Some k)"

declare kmp_back.simps [code]

definition kmp_step :: "byte list \<Rightarrow> nat list \<Rightarrow> byte \<Rightarrow> nat \<Rightarrow> nat option" where
  "kmp_step needle table c k =
     map_option (\<lambda>k. if needle ! k = c then k + 1 else k) (kmp_back needle table c k)"

function kmp_failure_from :: "byte list \<Rightarrow> nat \<Rightarrow> nat \<Rightarrow> nat list \<Rightarrow> nat list option" where
  "kmp_failure_from needle i k table =
     (if i < length needle then
        case kmp_step needle table (needle ! i) k of
          None \<Rightarrow> None
        | Some k \<Rightarrow> kmp_failure_from needle (i + 1) k (table[i := k])
      else Some table)"
  by pat_completeness auto
termination by (relation "measure (\<lambda>(needle, i, k, table). length needle - i)") auto

declare kmp_failure_from.simps [simp del]

definition kmp_failure :: "byte list \<Rightarrow> nat list option" where
  "kmp_failure needle = kmp_failure_from needle 1 0 (replicate (length needle) 0)"

function kmp_find_from :: "byte list \<Rightarrow> byte list \<Rightarrow> nat list \<Rightarrow> nat \<Rightarrow> nat \<Rightarrow> nat option option" where
  "kmp_find_from haystack needle fail i k =
     (if i < length haystack then
        case kmp_step needle fail (haystack ! i) k of
          None \<Rightarrow> None
        | Some k \<Rightarrow>
            if k = length needle then Some (Some (i + 1 - k))
            else kmp_find_from haystack needle fail (i + 1) k
      else Some None)"
  by pat_completeness auto
termination by (relation "measure (\<lambda>(haystack, needle, fail, i, k). length haystack - i)") auto

declare kmp_find_from.simps [simp del]

definition kmp_find :: "byte list \<Rightarrow> byte list \<Rightarrow> nat option option" where
  "kmp_find haystack needle =
     (if needle = [] then Some (Some 0)
      else if length haystack < length needle then Some None
      else case kmp_failure needle of
             None \<Rightarrow> None
           | Some fail \<Rightarrow> kmp_find_from haystack needle fail 0 0)"

function kmp_find_all_from ::
  "(nat \<Rightarrow> 's \<Rightarrow> bool \<times> 's) \<Rightarrow> byte list \<Rightarrow> byte list \<Rightarrow> nat list \<Rightarrow> nat \<Rightarrow> nat \<Rightarrow> 's \<Rightarrow> 's option" where
  "kmp_find_all_from visit haystack needle fail i k s =
     (if i < length haystack then
        case kmp_step needle fail (haystack ! i) k of
          None \<Rightarrow> None
        | Some k \<Rightarrow>
            if k = length needle then
              let (go_on, s) = visit (i + 1 - k) s
              in if \<not> go_on then Some s
                 else kmp_find_all_from visit haystack needle fail (i + 1) (fail ! (k - 1)) s
            else kmp_find_all_from visit haystack needle fail (i + 1) k s
      else Some s)"
  by pat_completeness auto
termination by (relation "measure (\<lambda>(visit, haystack, needle, fail, i, k, s). length haystack - i)") auto

declare kmp_find_all_from.simps [simp del]

definition kmp_find_all :: "(nat \<Rightarrow> 's \<Rightarrow> bool \<times> 's) \<Rightarrow> byte list \<Rightarrow> byte list \<Rightarrow> 's \<Rightarrow> 's option" where
  "kmp_find_all visit haystack needle s =
     (if needle = [] \<or> length haystack < length needle then Some s
      else case kmp_failure needle of
             None \<Rightarrow> None
           | Some fail \<Rightarrow> kmp_find_all_from visit haystack needle fail 0 0 s)"

subsection \<open>The code: Boyer-Moore-Horspool\<close>

fun fill_skip :: "byte list \<Rightarrow> nat \<Rightarrow> nat \<Rightarrow> nat list \<Rightarrow> nat list" where
  "fill_skip [] m i skip = skip"
| "fill_skip (c # cs) m i skip = fill_skip cs m (i + 1) (skip[unat c := m - 1 - i])"

definition skip_table :: "byte list \<Rightarrow> nat list" where
  "skip_table needle = fill_skip (butlast needle) (length needle) 0 (replicate 256 (length needle))"

primrec compare_back :: "byte list \<Rightarrow> byte list \<Rightarrow> nat \<Rightarrow> nat \<Rightarrow> nat" where
  "compare_back haystack needle i 0 = 0"
| "compare_back haystack needle i (Suc j) =
     (if needle ! j = haystack ! (i + j) then compare_back haystack needle i j else Suc j)"

partial_function (option) boyer_moore_from :: "byte list \<Rightarrow> byte list \<Rightarrow> nat list \<Rightarrow> nat \<Rightarrow> nat option option" where
  "boyer_moore_from haystack needle skip i =
     (if i \<le> length haystack - length needle then
        if compare_back haystack needle i (length needle) = 0 then Some (Some i)
        else boyer_moore_from haystack needle skip (i + skip ! unat (haystack ! (i + length needle - 1)))
      else Some None)"

declare boyer_moore_from.simps [code]

definition boyer_moore_find :: "byte list \<Rightarrow> byte list \<Rightarrow> nat option option" where
  "boyer_moore_find haystack needle =
     (if length needle = 0 then Some (Some 0)
      else if length haystack < length needle then Some None
      else boyer_moore_from haystack needle (skip_table needle) 0)"

subsection \<open>The code: the Z-function\<close>

function z_extend :: "byte list \<Rightarrow> nat \<Rightarrow> nat \<Rightarrow> nat" where
  "z_extend s i zi = (if i + zi < length s \<and> s ! zi = s ! (i + zi) then z_extend s i (zi + 1) else zi)"
  by pat_completeness auto
termination by (relation "measure (\<lambda>(s, i, zi). length s - (i + zi))") auto

declare z_extend.simps [simp del]

function z_from :: "byte list \<Rightarrow> nat \<Rightarrow> nat \<Rightarrow> nat \<Rightarrow> nat list \<Rightarrow> nat list" where
  "z_from s i l r z =
     (if i < length s then
        let zi = z_extend s i (if i < r then min (r - i) (z ! (i - l)) else z ! i);
            z = z[i := zi]
        in if r < i + zi then z_from s (i + 1) i (i + zi) z else z_from s (i + 1) l r z
      else z)"
  by pat_completeness auto
termination by (relation "measure (\<lambda>(s, i, l, r, z). length s - i)") (auto simp: Let_def)

declare z_from.simps [simp del]

definition z_function :: "byte list \<Rightarrow> nat list" where
  "z_function s = (if s = [] then [] else z_from s 1 0 0 ((replicate (length s) 0)[0 := length s]))"

definition z_find_all :: "byte list \<Rightarrow> byte list \<Rightarrow> nat list" where
  "z_find_all haystack needle =
     (if needle = [] \<or> length haystack < length needle then []
      else let z = z_function (needle @ [0] @ haystack);
               offset = length needle + 1
           in filter (\<lambda>i. length needle \<le> z ! (offset + i)) [0..<length haystack])"

subsection \<open>The specification\<close>

definition match_at :: "byte list \<Rightarrow> byte list \<Rightarrow> nat \<Rightarrow> bool" where
  "match_at haystack needle p \<longleftrightarrow> p + length needle \<le> length haystack \<and> take (length needle) (drop p haystack) = needle"

definition first_match :: "byte list \<Rightarrow> byte list \<Rightarrow> nat option" where
  "first_match haystack needle = List.find (match_at haystack needle) [0..<Suc (length haystack)]"

definition all_matches :: "byte list \<Rightarrow> byte list \<Rightarrow> nat list" where
  "all_matches haystack needle = filter (match_at haystack needle) [0..<length haystack]"

fun show_all :: "(nat \<Rightarrow> 's \<Rightarrow> bool \<times> 's) \<Rightarrow> nat list \<Rightarrow> 's \<Rightarrow> 's" where
  "show_all visit [] s = s"
| "show_all visit (p # ps) s = (let (go_on, s) = visit p s in if go_on then show_all visit ps s else s)"

lemma match_at_nth:
  "match_at h w p \<longleftrightarrow> p + length w \<le> length h \<and> (\<forall>j < length w. h ! (p + j) = w ! j)"
proof (cases "p + length w \<le> length h")
  case True
  then have "take (length w) (drop p h) = w \<longleftrightarrow> (\<forall>j < length w. h ! (p + j) = w ! j)"
    by (subst list_eq_iff_nth_eq) auto
  with True show ?thesis by (simp add: match_at_def)
qed (simp add: match_at_def)

lemma first_matchI:
  assumes "match_at h w p" and "\<And>q. q < p \<Longrightarrow> \<not> match_at h w q"
  shows "first_match h w = Some p"
proof -
  have "p \<le> length h" using assms(1) by (simp add: match_at_def)
  then show ?thesis unfolding first_match_def find_Some_iff using assms by (intro exI [of _ p]) (auto simp: nth_append)
qed

lemma first_match_None: "(\<And>q. \<not> match_at h w q) \<Longrightarrow> first_match h w = None"
  by (simp add: first_match_def find_None_iff)

lemma first_match_Nil [simp]: "first_match h [] = Some 0"
  by (rule first_matchI) (simp_all add: match_at_def)

lemma no_match_short: "length h < length w \<Longrightarrow> \<not> match_at h w p"
  by (simp add: match_at_def)

subsection \<open>Borders\<close>

text \<open>The first \<open>k\<close> bytes of \<open>w\<close> end \<open>t\<close>; \<open>longest w t B k\<close> says \<open>k\<close> is the largest such number below \<open>B\<close>.\<close>

definition border :: "byte list \<Rightarrow> byte list \<Rightarrow> nat \<Rightarrow> bool" where
  "border w t k \<longleftrightarrow> k \<le> length w \<and> suffix (take k w) t"

definition longest :: "byte list \<Rightarrow> byte list \<Rightarrow> nat \<Rightarrow> nat \<Rightarrow> bool" where
  "longest w t B k \<longleftrightarrow> k < B \<and> border w t k \<and> (\<forall>j < B. border w t j \<longrightarrow> j \<le> k)"

definition fail_ok :: "byte list \<Rightarrow> nat list \<Rightarrow> nat \<Rightarrow> bool" where
  "fail_ok w table n \<longleftrightarrow> (\<forall>q. 0 < q \<longrightarrow> q \<le> n \<longrightarrow> longest w (take q w) q (table ! (q - 1)))"

lemma border_0 [simp]: "border w t 0"
  by (simp add: border_def)

lemma border_length: "border w t k \<Longrightarrow> k \<le> length t"
  using suffix_length_le by (fastforce simp: border_def)

lemma border_snoc: "border w (t @ [c]) (Suc j) \<longleftrightarrow> j < length w \<and> border w t j \<and> w ! j = c"
  by (cases "j < length w") (auto simp: border_def take_Suc_conv_app_nth suffix_snoc)

lemma border_inner:
  assumes "border w t k" and "j \<le> k"
  shows "border w t j \<longleftrightarrow> border w (take k w) j"
proof
  assume "border w t j"
  with assms show "border w (take k w) j"
    by (auto simp: border_def intro: suffix_length_suffix)
next
  assume "border w (take k w) j"
  with assms show "border w t j" unfolding border_def by (meson suffix_order.trans)
qed

lemma longest_inner:
  assumes "border w t k" and "0 < k" and "longest w (take k w) k j"
  shows "longest w t k j"
  using assms border_inner [OF assms(1)] unfolding longest_def by (meson less_imp_le)

lemma kmp_back_ok:
  assumes "border w t k" and "fail_ok w table k"
  shows "\<exists>k'. kmp_back w table c k = Some k' \<and> k' \<le> k \<and> border w t k' \<and> (k' = 0 \<or> w ! k' = c) \<and>
    (\<forall>j \<le> k. border w t j \<longrightarrow> w ! j = c \<longrightarrow> j \<le> k')"
  using assms
proof (induction k rule: less_induct)
  case (less k)
  show ?case
  proof (cases "0 < k \<and> w ! k \<noteq> c")
    case True
    let ?j = "table ! (k - 1)"
    have j: "longest w t k ?j"
      using True less.prems longest_inner by (simp add: fail_ok_def)
    have "fail_ok w table ?j" using less.prems(2) j by (auto simp: fail_ok_def longest_def)
    moreover have "?j < k" "border w t ?j" using j by (simp_all add: longest_def)
    ultimately obtain k' where k': "kmp_back w table c ?j = Some k'" "k' \<le> ?j" "border w t k'" "k' = 0 \<or> w ! k' = c"
      "\<forall>i \<le> ?j. border w t i \<longrightarrow> w ! i = c \<longrightarrow> i \<le> k'" using less.IH by blast
    have "i \<le> k'" if "i \<le> k" "border w t i" "w ! i = c" for i
    proof -
      have "i < k" using that True by (metis le_neq_implies_less)
      then have "i \<le> ?j" using j that by (simp add: longest_def)
      with k'(5) that show ?thesis by blast
    qed
    moreover have "kmp_back w table c k = Some k'" using True k'(1) by (subst kmp_back.simps) simp
    ultimately show ?thesis using k' \<open>?j < k\<close> by (intro exI [of _ k']) auto
  next
    case False
    then have "kmp_back w table c k = Some k" by (subst kmp_back.simps) auto
    with False less.prems show ?thesis by auto
  qed
qed

lemma kmp_step_ok:
  assumes "longest w t B k" and "fail_ok w table k" and "B \<le> length w"
  shows "\<exists>k'. kmp_step w table c k = Some k' \<and> longest w (t @ [c]) (Suc B) k'"
proof -
  from assms(1) have k: "k < B" "border w t k" "\<And>j. j < B \<Longrightarrow> border w t j \<Longrightarrow> j \<le> k" by (auto simp: longest_def)
  obtain k' where k': "kmp_back w table c k = Some k'" "k' \<le> k" "border w t k'" "k' = 0 \<or> w ! k' = c"
    "\<forall>j \<le> k. border w t j \<longrightarrow> w ! j = c \<longrightarrow> j \<le> k'"
    using kmp_back_ok [OF k(2) assms(2)] by blast
  let ?r = "if w ! k' = c then k' + 1 else k'"
  have "border w (t @ [c]) ?r" using k'(2,3,4) k(1) assms(3) by (auto simp: border_snoc)
  moreover have "j \<le> ?r" if "j < Suc B" "border w (t @ [c]) j" for j
  proof (cases j)
    case (Suc i)
    then have "i < B" "border w t i" "w ! i = c" using that by (auto simp: border_snoc)
    then have "i \<le> k'" using k(3) k'(5) by blast
    with k'(4) Suc \<open>w ! i = c\<close> show ?thesis by (cases "i = 0") auto
  qed simp
  moreover have "?r < Suc B" using k(1) k'(2) by simp
  ultimately show ?thesis using k'(1) by (simp add: kmp_step_def longest_def)
qed

lemma kmp_failure_from_ok:
  assumes "0 < i" and "i \<le> length w" and "length table = length w" and "fail_ok w table i" and "longest w (take i w) i k"
  shows "\<exists>fail. kmp_failure_from w i k table = Some fail \<and> length fail = length w \<and> fail_ok w fail (length w)"
  using assms
proof (induction w i k table rule: kmp_failure_from.induct)
  case (1 w i k table)
  show ?case
  proof (cases "i < length w")
    case True
    have "fail_ok w table k" using "1.prems"(4,5) by (auto simp: fail_ok_def longest_def)
    with "1.prems" True obtain k' where k': "kmp_step w table (w ! i) k = Some k'" "longest w (take i w @ [w ! i]) (Suc i) k'"
      using kmp_step_ok [of w "take i w" i k table "w ! i"] by auto
    have l: "longest w (take (Suc i) w) (Suc i) k'" using k'(2) True by (simp add: take_Suc_conv_app_nth)
    have "fail_ok w (table[i := k']) (Suc i)" unfolding fail_ok_def
    proof (intro allI impI)
      fix q assume "0 < q" "q \<le> Suc i"
      then show "longest w (take q w) q (table[i := k'] ! (q - 1))"
        using "1.prems"(3,4) l True by (cases "q = Suc i") (auto simp: fail_ok_def)
    qed
    then show ?thesis using "1.IH" [OF True k'(1)] "1.prems" True l k'(1)
      by (subst kmp_failure_from.simps) simp
  next
    case False
    with "1.prems" show ?thesis by (subst kmp_failure_from.simps) simp
  qed
qed

lemma kmp_failure_ok:
  assumes "w \<noteq> []"
  obtains fail where "kmp_failure w = Some fail" and "length fail = length w" and "fail_ok w fail (length w)"
proof -
  have l: "longest w (take 1 w) 1 0" by (simp add: longest_def)
  then have "fail_ok w (replicate (length w) 0) 1" using assms by (auto simp: fail_ok_def le_Suc_eq)
  with l assms that show ?thesis
    using kmp_failure_from_ok [of 1 w "replicate (length w) 0" 0] by (auto simp: kmp_failure_def Suc_le_eq)
qed

lemma match_border: "match_at h w p \<longleftrightarrow> p + length w \<le> length h \<and> border w (take (p + length w) h) (length w)"
proof (cases "p + length w \<le> length h")
  case True
  let ?t = "take (p + length w) h"
  have "suffix w ?t \<longleftrightarrow> drop p ?t = w"
  proof
    assume "suffix w ?t"
    then obtain ps where ps: "?t = ps @ w" by (auto simp: suffix_def)
    have "length ?t = p + length w" using True by simp
    then have "length ps = p" unfolding ps by simp
    then show "drop p ?t = w" unfolding ps by simp
  next
    assume "drop p ?t = w"
    then show "suffix w ?t" by (metis suffix_drop)
  qed
  then have "suffix w ?t \<longleftrightarrow> take (length w) (drop p h) = w" by (simp add: drop_take)
  with True show ?thesis by (simp add: match_at_def border_def)
qed (simp add: match_at_def)

text \<open>A scan that holds the longest border below the pattern's length sees a match at its end as a full one.\<close>

lemma scan_step:
  assumes "longest w (take i h) (length w) k" and "fail_ok w fail (length w)" and "i < length h"
  obtains k' where "kmp_step w fail (h ! i) k = Some k'" and "longest w (take (Suc i) h) (Suc (length w)) k'"
    and "k' = length w \<longleftrightarrow> match_at h w (Suc i - length w) \<and> length w \<le> Suc i"
proof -
  have "fail_ok w fail k" using assms(1,2) by (auto simp: fail_ok_def longest_def)
  with kmp_step_ok [OF assms(1), of fail "h ! i"] assms(3) obtain k' where
    k': "kmp_step w fail (h ! i) k = Some k'" "longest w (take (Suc i) h) (Suc (length w)) k'"
    by (auto simp: take_Suc_conv_app_nth)
  have "k' = length w \<longleftrightarrow> border w (take (Suc i) h) (length w)"
    using k'(2) by (auto simp: longest_def dest: spec [of _ "length w"])
  also have "\<dots> \<longleftrightarrow> match_at h w (Suc i - length w) \<and> length w \<le> Suc i"
    using assms(3) border_length [of w "take (Suc i) h" "length w"] by (auto simp: match_border)
  finally show ?thesis using that k' by blast
qed

lemma longest_below:
  assumes "longest w t (Suc m) k" and "k \<noteq> m"
  shows "longest w t m k"
  using assms by (auto simp: longest_def)

lemma kmp_find_from_ok:
  assumes "w \<noteq> []" and "fail_ok w fail (length w)" and "longest w (take i h) (length w) k"
    and "\<And>p. match_at h w p \<Longrightarrow> i < p + length w"
  shows "kmp_find_from h w fail i k = Some (first_match h w)"
  using assms(3,4)
proof (induction "length h - i" arbitrary: i k)
  case 0
  then have "\<not> match_at h w p" for p by (auto simp: match_at_def)
  then have "first_match h w = None" by (rule first_match_None)
  with 0 show ?case by (subst kmp_find_from.simps) simp
next
  case (Suc n)
  then have i: "i < length h" by simp
  obtain k' where k': "kmp_step w fail (h ! i) k = Some k'" "longest w (take (Suc i) h) (Suc (length w)) k'"
    "k' = length w \<longleftrightarrow> match_at h w (Suc i - length w) \<and> length w \<le> Suc i"
    using scan_step [OF Suc.prems(1) assms(2) i] by blast
  show ?case
  proof (cases "k' = length w")
    case True
    have "first_match h w = Some (Suc i - length w)"
      using True k'(3) Suc.prems(2) by (intro first_matchI) fastforce+
    with True k'(1) i show ?thesis by (subst kmp_find_from.simps) simp
  next
    case False
    have "Suc i < p + length w" if "match_at h w p" for p
    proof -
      have "i < p + length w" using Suc.prems(2) that .
      moreover have "p + length w \<noteq> Suc i"
      proof
        assume "p + length w = Suc i"
        then have "p = Suc i - length w" "length w \<le> Suc i" by simp_all
        with that False k'(3) show False by simp
      qed
      ultimately show ?thesis by simp
    qed
    moreover have "n = length h - Suc i" using Suc.hyps(2) by simp
    ultimately have "kmp_find_from h w fail (Suc i) k' = Some (first_match h w)"
      using Suc.hyps(1) longest_below [OF k'(2) False] by blast
    with False k'(1) i show ?thesis by (subst kmp_find_from.simps) simp
  qed
qed

lemma longest_start: "w \<noteq> [] \<Longrightarrow> longest w [] (length w) 0"
  by (auto simp: longest_def dest: border_length)

lemma kmp_find_ok: "kmp_find h w = Some (first_match h w)"
proof (cases "w = []")
  case False
  obtain fail where fail: "kmp_failure w = Some fail" "fail_ok w fail (length w)"
    using kmp_failure_ok [OF False] by blast
  have "kmp_find_from h w fail 0 0 = Some (first_match h w)"
    using False longest_start [OF False] by (intro kmp_find_from_ok [OF False fail(2)]) auto
  with False fail(1) show ?thesis
    using first_match_None [OF no_match_short, of h w] by (simp add: kmp_find_def)
qed (simp add: kmp_find_def)

lemma filter_upt_first:
  assumes "p < n" and "P p" and "\<And>q. q < p \<Longrightarrow> \<not> P q" and "\<And>q. Q q \<longleftrightarrow> P q \<and> q \<noteq> p"
  shows "filter P [0..<n] = p # filter Q [0..<n]"
proof -
  have upt: "[0..<n] = [0..<p] @ p # [Suc p..<n]"
    using assms(1) by (metis less_imp_le_nat upt_add_eq_append upt_conv_Cons le_add_diff_inverse zero_le)
  have "filter P [0..<p] = []" "filter Q [0..<p] = []" "filter P [Suc p..<n] = filter Q [Suc p..<n]"
    using assms(3,4) by (auto simp: filter_empty_conv intro: filter_cong)
  then show ?thesis using assms(2,4) unfolding upt by simp
qed

lemma kmp_find_all_from_ok:
  assumes "w \<noteq> []" and "length fail = length w" and "fail_ok w fail (length w)" and "longest w (take i h) (length w) k"
  shows "kmp_find_all_from visit h w fail i k s =
    Some (show_all visit (filter (\<lambda>p. match_at h w p \<and> i < p + length w) [0..<length h]) s)"
  using assms(4)
proof (induction "length h - i" arbitrary: i k s)
  case 0
  then have "filter (\<lambda>p. match_at h w p \<and> i < p + length w) [0..<length h] = []" by (auto simp: match_at_def filter_empty_conv)
  with 0 show ?case by (subst kmp_find_all_from.simps) simp
next
  case (Suc n)
  then have i: "i < length h" by simp
  obtain k' where k': "kmp_step w fail (h ! i) k = Some k'" "longest w (take (Suc i) h) (Suc (length w)) k'"
    "k' = length w \<longleftrightarrow> match_at h w (Suc i - length w) \<and> length w \<le> Suc i"
    using scan_step [OF Suc.prems(1) assms(3) i] by blast
  let ?rest = "filter (\<lambda>p. match_at h w p \<and> Suc i < p + length w) [0..<length h]"
  have IH: "kmp_find_all_from visit h w fail (Suc i) k'' s' = Some (show_all visit ?rest s')"
    if "longest w (take (Suc i) h) (length w) k''" for k'' s'
    using Suc.hyps(1) [of "Suc i"] Suc.hyps(2) that by simp
  show ?case
  proof (cases "k' = length w")
    case True
    let ?p = "Suc i - length w"
    have p: "match_at h w ?p" "length w \<le> Suc i" using True k'(3) by auto
    then have "?p < length h" using i assms(1) by (cases w) auto
    with p have split: "filter (\<lambda>p. match_at h w p \<and> i < p + length w) [0..<length h] = ?p # ?rest"
      by (intro filter_upt_first) auto
    have "longest w (take (Suc i) h) (length w) (fail ! (k' - 1))"
    proof (rule longest_inner)
      show "border w (take (Suc i) h) (length w)" using k'(2) True by (simp add: longest_def)
      show "longest w (take (length w) w) (length w) (fail ! (k' - 1))"
        using assms(1) True assms(3) [unfolded fail_ok_def, rule_format, of "length w"] by simp
    qed (use assms(1) in simp)
    from IH [OF this] True k'(1) i show ?thesis
      unfolding split by (subst kmp_find_all_from.simps) (auto simp: Let_def split: prod.splits)
  next
    case False
    have "filter (\<lambda>p. match_at h w p \<and> i < p + length w) [0..<length h] = ?rest"
    proof (rule filter_cong)
      fix p
      have "p + length w = Suc i \<Longrightarrow> \<not> match_at h w p" using False k'(3) by (metis add_diff_cancel_right' le_add2)
      then show "match_at h w p \<and> i < p + length w \<longleftrightarrow> match_at h w p \<and> Suc i < p + length w"
        using Suc_lessI [of i "p + length w"] Suc_lessD [of i "p + length w"] by metis
    qed simp
    with IH [OF longest_below [OF k'(2) False]] False k'(1) i show ?thesis
      by (subst kmp_find_all_from.simps) simp
  qed
qed

lemma kmp_find_all_ok:
  "kmp_find_all visit h w s = Some (show_all visit (if w = [] then [] else all_matches h w) s)"
proof (cases "w = [] \<or> length h < length w")
  case True
  then show ?thesis by (auto simp: kmp_find_all_def all_matches_def no_match_short)
next
  case False
  then have w: "w \<noteq> []" by simp
  obtain fail where fail: "kmp_failure w = Some fail" "length fail = length w" "fail_ok w fail (length w)"
    using kmp_failure_ok [OF w] by blast
  have "kmp_find_all_from visit h w fail 0 0 s = Some (show_all visit (all_matches h w) s)"
    using kmp_find_all_from_ok [OF w fail(2,3), of 0 h 0 visit s] longest_start [OF w] w by (simp add: all_matches_def)
  with False fail(1) show ?thesis by (simp add: kmp_find_all_def)
qed


subsection \<open>Boyer-Moore-Horspool\<close>

lemma compare_back_0: "compare_back h w i m = 0 \<longleftrightarrow> (\<forall>j < m. w ! j = h ! (i + j))"
  by (induction m) (auto simp: less_Suc_eq)

lemma length_fill_skip [simp]: "length (fill_skip cs m i skip) = length skip"
  by (induction cs m i skip rule: fill_skip.induct) auto

lemma byte_less: "unat (c :: byte) < 256"
  by simp

lemma fill_skip_le:
  "c < length skip \<Longrightarrow> skip ! c \<le> v \<Longrightarrow> m - 1 - i \<le> v \<Longrightarrow> fill_skip cs m i skip ! c \<le> v"
proof (induction cs m i skip rule: fill_skip.induct)
  case (2 d cs m i skip)
  have "skip[unat d := m - 1 - i] ! c \<le> v"
    using "2.prems" by (cases "c = unat d") auto
  with "2.IH" "2.prems" show ?case by simp
qed simp

lemma fill_skip_last:
  "length skip = 256 \<Longrightarrow> j < length cs \<Longrightarrow> fill_skip cs m i skip ! unat (cs ! j) \<le> m - 1 - (i + j)"
proof (induction cs m i skip arbitrary: j rule: fill_skip.induct)
  case (2 d cs m i skip)
  show ?case
  proof (cases j)
    case 0
    with "2.prems" show ?thesis using byte_less [of d] by (auto intro!: fill_skip_le)
  next
    case (Suc j')
    with "2.IH" [of j'] "2.prems" show ?thesis by simp
  qed
qed simp

lemma fill_skip_pos:
  "\<forall>c < length skip. 0 < skip ! c \<Longrightarrow> i + length cs < m \<Longrightarrow> c < length skip \<Longrightarrow> 0 < fill_skip cs m i skip ! c"
proof (induction cs m i skip rule: fill_skip.induct)
  case (2 d cs m i skip)
  have "\<forall>c < length (skip[unat d := m - 1 - i]). 0 < skip[unat d := m - 1 - i] ! c"
  proof (intro allI impI)
    fix e assume "e < length (skip[unat d := m - 1 - i])"
    then show "0 < skip[unat d := m - 1 - i] ! e" using "2.prems" by (cases "e = unat d") auto
  qed
  with "2.IH" "2.prems" show ?case by simp
qed simp

lemma skip_table_ok:
  assumes "w \<noteq> []"
  shows "0 < skip_table w ! unat (c :: byte)" and "skip_table w ! unat c \<le> length w"
    and "q < length w - 1 \<Longrightarrow> w ! q = c \<Longrightarrow> skip_table w ! unat c \<le> length w - 1 - q"
proof -
  show "0 < skip_table w ! unat c"
    unfolding skip_table_def using assms byte_less [of c] by (intro fill_skip_pos) auto
  show "skip_table w ! unat c \<le> length w"
    unfolding skip_table_def using byte_less [of c] by (intro fill_skip_le) auto
  show "skip_table w ! unat c \<le> length w - 1 - q" if "q < length w - 1" "w ! q = c"
    using fill_skip_last [of "replicate 256 (length w)" q "butlast w" "length w" 0] that
    by (simp add: skip_table_def nth_butlast)
qed

text \<open>A shift by the table entry of the last byte of the window passes over no match.\<close>

lemma skip_safe:
  assumes "w \<noteq> []" and "i + length w \<le> length h" and "i < p" and "p < i + skip_table w ! unat (h ! (i + length w - 1))"
  shows "\<not> match_at h w p"
proof
  assume m: "match_at h w p"
  let ?q = "i + length w - 1 - p"
  have p: "p < i + length w" using assms(4) skip_table_ok(2) [OF assms(1), of "h ! (i + length w - 1)"] by linarith
  have q: "?q < length w - 1" using assms(1,3) p by (cases w) auto
  have "h ! (p + ?q) = w ! ?q" using m q by (simp add: match_at_nth)
  moreover have "p + ?q = i + length w - 1" using p by simp
  ultimately have "w ! ?q = h ! (i + length w - 1)" by simp
  from skip_table_ok(3) [OF assms(1) q this] assms(3,4) p show False by linarith
qed

lemma boyer_moore_from_ok:
  assumes "w \<noteq> []" and "length w \<le> length h" and "\<And>p. match_at h w p \<Longrightarrow> i \<le> p"
  shows "boyer_moore_from h w (skip_table w) i = Some (first_match h w)"
  using assms(3)
proof (induction "length h - i" arbitrary: i rule: less_induct)
  case less
  show ?case
  proof (cases "i \<le> length h - length w")
    case False
    then have "\<not> match_at h w p" for p using less.prems [of p] assms(2) by (auto simp: match_at_def)
    then have "first_match h w = None" by (rule first_match_None)
    with False show ?thesis by (subst boyer_moore_from.simps) simp
  next
    case True
    then have window: "i + length w \<le> length h" using assms(2) by simp
    have cmp: "compare_back h w i (length w) = 0 \<longleftrightarrow> match_at h w i"
      unfolding compare_back_0 match_at_nth using window by auto
    show ?thesis
    proof (cases "match_at h w i")
      case match: True
      then have "first_match h w = Some i" using less.prems not_less by (intro first_matchI) auto
      with True match cmp show ?thesis by (subst boyer_moore_from.simps) simp
    next
      case False
      let ?d = "skip_table w ! unat (h ! (i + length w - 1))"
      have d: "0 < ?d" using skip_table_ok(1) [OF assms(1)] .
      have later: "i + ?d \<le> p" if "match_at h w p" for p
      proof (rule ccontr)
        assume "\<not> i + ?d \<le> p"
        moreover have "i < p" using less.prems [OF that] False that by (cases "p = i") auto
        ultimately show False using skip_safe [OF assms(1) window, of p] that by simp
      qed
      have "i < length h" using window assms(1) by (cases w) auto
      then have "boyer_moore_from h w (skip_table w) (i + ?d) = Some (first_match h w)"
        using less.hyps [of "i + ?d"] d later by simp
      with True False cmp show ?thesis by (subst boyer_moore_from.simps) simp
    qed
  qed
qed

lemma boyer_moore_find_ok: "boyer_moore_find h w = Some (first_match h w)"
proof (cases "w = [] \<or> length h < length w")
  case True
  then show ?thesis using first_match_None [OF no_match_short, of h w] by (auto simp: boyer_moore_find_def)
next
  case False
  then show ?thesis using boyer_moore_from_ok [of w h 0] by (simp add: boyer_moore_find_def)
qed

subsection \<open>The Z-function\<close>

text \<open>The length of the longest common prefix of \<open>s\<close> and its suffix from \<open>i\<close>.\<close>

definition zlen :: "byte list \<Rightarrow> nat \<Rightarrow> nat" where
  "zlen s i = length (longest_common_prefix s (drop i s))"

definition agree :: "byte list \<Rightarrow> nat \<Rightarrow> nat \<Rightarrow> bool" where
  "agree s i k \<longleftrightarrow> i + k \<le> length s \<and> (\<forall>j < k. s ! j = s ! (i + j))"

lemma zlen_iff: "i \<le> length s \<Longrightarrow> k \<le> zlen s i \<longleftrightarrow> agree s i k"
proof
  let ?p = "longest_common_prefix s (drop i s)"
  assume i: "i \<le> length s" and k: "k \<le> zlen s i"
  have p: "prefix ?p s" "prefix ?p (drop i s)" by (rule longest_common_prefix_prefix1 longest_common_prefix_prefix2)+
  have "length ?p \<le> length (drop i s)" using p(2) by (rule prefix_length_le)
  then have "i + k \<le> length s" using i k by (simp add: zlen_def)
  moreover have "s ! j = s ! (i + j)" if "j < k" for j
  proof -
    have "j < length ?p" using that k by (simp add: zlen_def)
    then have "?p ! j = s ! j" "?p ! j = drop i s ! j" using p by (metis nth_append prefixE)+
    then show ?thesis using i by simp
  qed
  ultimately show "agree s i k" by (simp add: agree_def)
next
  assume i: "i \<le> length s" and a: "agree s i k"
  have "take k s = take k (drop i s)"
    using a by (intro nth_equalityI) (auto simp: agree_def)
  then have "prefix (take k s) s" "prefix (take k s) (drop i s)" by (metis take_is_prefix)+
  then have "prefix (take k s) (longest_common_prefix s (drop i s))" by (rule longest_common_prefix_max_prefix)
  then show "k \<le> zlen s i" using prefix_length_le a by (fastforce simp: zlen_def agree_def)
qed

lemma z_extend_ok: "i \<le> length s \<Longrightarrow> k \<le> zlen s i \<Longrightarrow> z_extend s i k = zlen s i"
proof (induction s i k rule: z_extend.induct)
  case (1 s i k)
  have a: "agree s i k" using "1.prems" zlen_iff by blast
  show ?case
  proof (cases "i + k < length s \<and> s ! k = s ! (i + k)")
    case True
    then have "agree s i (k + 1)" using a by (auto simp: agree_def less_Suc_eq)
    then have "k + 1 \<le> zlen s i" using "1.prems"(1) zlen_iff by blast
    with "1.IH" [OF True "1.prems"(1)] True show ?thesis by (subst z_extend.simps) simp
  next
    case False
    then have "\<not> agree s i (k + 1)" by (auto simp: agree_def)
    then have "\<not> k + 1 \<le> zlen s i" using "1.prems"(1) zlen_iff by blast
    with False "1.prems" show ?thesis by (subst z_extend.simps) auto
  qed
qed

lemma z_from_ok:
  assumes "0 < i" and "i \<le> length s" and "length z = length s" and "\<And>q. q < i \<Longrightarrow> z ! q = zlen s q"
    and "\<And>q. i \<le> q \<Longrightarrow> q < length s \<Longrightarrow> z ! q = 0" and "l < i" and "i < r \<Longrightarrow> 0 < l \<and> agree s l (r - l)"
  shows "z_from s i l r z = map (zlen s) [0..<length s]"
  using assms
proof (induction s i l r z rule: z_from.induct)
  case (1 s i l r z)
  show ?case
  proof (cases "i < length s")
    case False
    then have "z = map (zlen s) [0..<length s]" using "1.prems"(2,3,4) by (intro nth_equalityI) auto
    with False show ?thesis by (subst z_from.simps) simp
  next
    case True
    let ?k = "if i < r then min (r - i) (z ! (i - l)) else z ! i"
    have "?k \<le> zlen s i"
    proof (cases "i < r")
      case box: True
      then have l: "0 < l" "agree s l (r - l)" using "1.prems"(7) by blast+
      have zi: "z ! (i - l) = zlen s (i - l)" using "1.prems"(4) l(1) True by (simp add: "1.prems"(1))
      have inner: "agree s (i - l) (zlen s (i - l))" using zlen_iff [of "i - l" s "zlen s (i - l)"] True by simp
      have "agree s i ?k" unfolding agree_def
      proof (intro conjI allI impI)
        show "i + ?k \<le> length s" using l(2) box "1.prems"(6) by (auto simp: agree_def)
        fix j assume j: "j < ?k"
        have "s ! j = s ! (i - l + j)" using inner j box by (auto simp: agree_def zi)
        also have "i - l + j < r - l" using j box "1.prems"(6) by auto
        then have "s ! (i - l + j) = s ! (l + (i - l + j))" using l(2) by (simp add: agree_def)
        also have "l + (i - l + j) = i + j" using "1.prems"(6) by simp
        finally show "s ! j = s ! (i + j)" .
      qed
      then show ?thesis using zlen_iff True by (meson less_imp_le)
    next
      case False
      then show ?thesis using "1.prems"(5) [of i] True by simp
    qed
    then have zi: "z_extend s i ?k = zlen s i" using True by (intro z_extend_ok) auto
    let ?z = "z[i := zlen s i]"
    have len: "length ?z = length s" using "1.prems"(3) by simp
    have known: "?z ! q = zlen s q" if "q < i + 1" for q using "1.prems"(3,4) that True by (cases "q = i") auto
    have zero: "?z ! q = 0" if "i + 1 \<le> q" "q < length s" for q using "1.prems"(5) that by simp
    show ?thesis
    proof (cases "r < i + zlen s i")
      case box: True
      have "agree s i (zlen s i)" using zlen_iff [of i s "zlen s i"] True by simp
      then have "z_from s (i + 1) i (i + zlen s i) ?z = map (zlen s) [0..<length s]"
        using "1.IH"(1) [OF True refl refl] True len known zero "1.prems"(1) box unfolding zi by simp
      with True box zi show ?thesis by (subst z_from.simps) (simp add: Let_def)
    next
      case False
      have "z_from s (i + 1) l r ?z = map (zlen s) [0..<length s]"
        using "1.IH"(2) [OF True refl refl] True len known zero "1.prems"(6,7) False unfolding zi by simp
      with True False zi show ?thesis by (subst z_from.simps) (simp add: Let_def)
    qed
  qed
qed


lemma z_function_ok: "z_function s = map (zlen s) [0..<length s]"
proof (cases "s = []")
  case False
  let ?z = "(replicate (length s) 0)[0 := length s]"
  have "agree s 0 (length s)" by (simp add: agree_def)
  moreover have "\<not> agree s 0 (Suc (length s))" by (simp add: agree_def)
  ultimately have "zlen s 0 = length s"
    using zlen_iff [of 0 s "length s"] zlen_iff [of 0 s "Suc (length s)"] by simp
  then have "z_from s 1 0 0 ?z = map (zlen s) [0..<length s]"
    using False by (intro z_from_ok) (auto simp: Suc_le_eq)
  with False show ?thesis by (simp add: z_function_def)
qed (simp add: z_function_def)

lemma z_find_all_ok: "z_find_all h w = (if w = [] then [] else all_matches h w)"
proof (cases "w = [] \<or> length h < length w")
  case True
  then show ?thesis by (auto simp: z_find_all_def all_matches_def no_match_short)
next
  case False
  let ?s = "w @ [0] @ h" and ?o = "length w + 1"
  have "length w \<le> z_function ?s ! (?o + i) \<longleftrightarrow> match_at h w i" if "i < length h" for i
  proof -
    have "z_function ?s ! (?o + i) = zlen ?s (?o + i)" using that by (simp add: z_function_ok del: upt_Suc)
    moreover have "agree ?s (?o + i) (length w) \<longleftrightarrow> match_at h w i"
      using that by (auto simp: agree_def match_at_nth nth_append)
    ultimately show ?thesis using zlen_iff [of "?o + i" ?s "length w"] that by simp
  qed
  with False show ?thesis
    by (auto simp: z_find_all_def all_matches_def Let_def intro!: filter_cong)
qed

subsection \<open>Properties\<close>

text \<open>C29: the two single searches return the first position at which the pattern occurs, and \<open>npos\<close> exactly when
it occurs nowhere; they return on every input, and agree.\<close>

theorem string_find_first_match:
  "kmp_find haystack needle = Some (first_match haystack needle) \<and>
   boyer_moore_find haystack needle = kmp_find haystack needle"
  by (simp add: kmp_find_ok boyer_moore_find_ok)

text \<open>C30: the two searches for all positions find every occurrence, overlapping ones included, in increasing order:
\<open>kmp_find_all\<close> shows them to the visitor until it says stop, \<open>z_find_all\<close> collects them, whatever bytes the
texts hold (the separator byte may occur in them).\<close>

theorem string_find_all_matches:
  assumes "needle \<noteq> []"
  shows "kmp_find_all visit haystack needle s = Some (show_all visit (all_matches haystack needle) s) \<and>
    z_find_all haystack needle = all_matches haystack needle \<and>
    set (all_matches haystack needle) = {p. match_at haystack needle p} \<and> sorted (all_matches haystack needle)"
proof -
  have "p < length haystack" if "match_at haystack needle p" for p using that assms by (cases needle) (auto simp: match_at_def)
  then show ?thesis using assms by (auto simp: kmp_find_all_ok z_find_all_ok all_matches_def sorted_wrt_filter)
qed

lemma string_find_all_matches_witness:
  "z_find_all [0, 0, 0, 1] [0, 0] = [0, 1] \<and>
   kmp_find_all (\<lambda>p ps. (True, ps @ [p])) [0, 0, 0, 1] [0, 0] [] = Some [0, 1]"
proof -
  have "all_matches [0, 0, 0, 1] [0, 0] = [0, 1]" by code_simp
  with string_find_all_matches [of "[0, 0]" "\<lambda>p ps. (True, ps @ [p])" "[0, 0, 0, 1]" "[]"] show ?thesis by simp
qed

text \<open>The Z-function gives at each position the length of the longest common prefix of the text and of its suffix
there.\<close>

lemma z_function_longest_prefix:
  "z_function s = map (\<lambda>i. length (longest_common_prefix s (drop i s))) [0..<length s]"
  by (simp add: z_function_ok zlen_def)

end
