(* ===== verification/Edit_Distance.thy ===== *)
theory Edit_Distance
  imports Prelude
begin

text \<open>
  The Levenshtein distance of \<open>algorithm/string/levenshtein.hpp\<close>: two rolling rows over the shorter text. The
  specification is independent of the table: the least number of single-byte insertions, deletions
  and substitutions that turn one text into the other.
\<close>

subsection \<open>The code\<close>

function lev_row :: "byte list \<Rightarrow> byte \<Rightarrow> nat list \<Rightarrow> nat \<Rightarrow> nat list \<Rightarrow> nat list" where
  "lev_row a bj prev i cur =
     (if i \<le> length a then
        let cost = (if a ! (i - 1) = bj then 0 else 1);
            best = min (cur ! (i - 1) + 1) (min (prev ! i + 1) (prev ! (i - 1) + cost))
        in lev_row a bj prev (i + 1) (cur[i := best])
      else cur)"
  by pat_completeness auto
termination by (relation "measure (\<lambda>(a, bj, prev, i, cur). Suc (length a) - i)") auto

declare lev_row.simps [simp del]

function lev_rows :: "byte list \<Rightarrow> byte list \<Rightarrow> nat \<Rightarrow> nat list \<Rightarrow> nat list \<Rightarrow> nat list" where
  "lev_rows a b j prev cur =
     (if j \<le> length b then lev_rows a b (j + 1) (lev_row a (b ! (j - 1)) prev 1 (cur[0 := j])) prev
      else prev)"
  by pat_completeness auto
termination by (relation "measure (\<lambda>(a, b, j, prev, cur). Suc (length b) - j)") auto

declare lev_rows.simps [simp del]

definition levenshtein :: "byte list \<Rightarrow> byte list \<Rightarrow> nat" where
  "levenshtein a b =
     (let (a, b) = (if length b < length a then (b, a) else (a, b));
          m = length a
      in if m = 0 then length b
         else lev_rows a b 1 [0..<m + 1] (replicate (m + 1) 0) ! m)"

subsection \<open>The specification\<close>

inductive edit1 :: "byte list \<Rightarrow> byte list \<Rightarrow> bool" where
  ins: "edit1 (p @ s) (p @ x # s)"
| del: "edit1 (p @ x # s) (p @ s)"
| sub: "edit1 (p @ x # s) (p @ y # s)"

text \<open>The recursion behind the table.\<close>

fun ed :: "byte list \<Rightarrow> byte list \<Rightarrow> nat" where
  "ed [] v = length v"
| "ed u [] = length u"
| "ed (x # u) (y # v) = min (ed u (y # v) + 1) (min (ed (x # u) v + 1) (ed u v + (if x = y then 0 else 1)))"

lemma ed_Nil2 [simp]: "ed u [] = length u"
  by (cases u) auto

lemma ed_sym: "ed u v = ed v u"
  by (induction u v rule: ed.induct) (auto simp: min_def)

lemma ed_refl [simp]: "ed u u = 0"
  by (induction u) auto

lemma ed_Cons_le: "ed (x # u) w \<le> ed u w + 1"
  by (cases w) auto

lemma ed_Cons_le2: "ed u (x # w) \<le> ed u w + 1"
  using ed_Cons_le [of x w u] by (simp add: ed_sym)

lemma ed_tl_le: "ed u w \<le> ed (x # u) w + 1"
proof (induction w)
  case (Cons y w)
  then show ?case using ed_Cons_le2 [of u y w] by (auto simp: min_def)
qed simp

lemma ed_hd_le: "ed (x # u) w \<le> ed (z # u) w + 1"
proof (induction w)
  case (Cons y w)
  then show ?case by (auto simp: min_def)
qed simp

lemma ed_cong_Cons:
  assumes "\<And>w. ed u w \<le> ed u' w + 1"
  shows "ed (q # u) w \<le> ed (q # u') w + 1"
proof (induction w)
  case Nil
  then show ?case using assms [of "[]"] by simp
next
  case (Cons y w)
  then show ?case using assms [of w] assms [of "y # w"] by (auto simp: min_def)
qed

lemma ed_cong_append:
  assumes "\<And>w. ed u w \<le> ed u' w + 1"
  shows "ed (p @ u) w \<le> ed (p @ u') w + 1"
proof (induction p arbitrary: w)
  case (Cons q p)
  then show ?case using ed_cong_Cons [of "p @ u" "p @ u'"] by simp
qed (use assms in simp)

lemma ed_edit1: "edit1 u v \<Longrightarrow> ed u w \<le> ed v w + 1"
  by (induction rule: edit1.induct) (intro ed_cong_append ed_tl_le ed_Cons_le ed_hd_le)+

lemma ed_lower: "(edit1 ^^ n) u v \<Longrightarrow> ed u v \<le> n"
proof (induction n arbitrary: u)
  case (Suc n)
  from Suc.prems obtain w where "edit1 u w" "(edit1 ^^ n) w v" by (rule relpowp_Suc_E2)
  with Suc.IH [of w] ed_edit1 [of u w v] show ?case by simp
qed simp

lemma edit1_Cons: "edit1 u v \<Longrightarrow> edit1 (x # u) (x # v)"
  by (induction rule: edit1.induct) (metis edit1.intros append_Cons)+

lemma edits_Cons: "(edit1 ^^ n) u v \<Longrightarrow> (edit1 ^^ n) (x # u) (x # v)"
proof (induction n arbitrary: v)
  case (Suc n)
  from Suc.prems obtain w where "(edit1 ^^ n) u w" "edit1 w v" by (rule relpowp_Suc_E)
  then show ?case using Suc.IH edit1_Cons by (blast intro: relpowp_Suc_I)
qed simp

lemma edits_from_Nil: "(edit1 ^^ length v) [] v"
proof (induction v)
  case (Cons y v)
  have "edit1 v (y # v)" using edit1.ins [of "[]" v y] by simp
  with Cons have "(edit1 ^^ Suc (length v)) [] (y # v)" by (rule relpowp_Suc_I)
  then show ?case unfolding length_Cons .
qed simp

lemma edits_to_Nil: "(edit1 ^^ length u) u []"
proof (induction u)
  case (Cons y u)
  have "edit1 (y # u) u" using edit1.del [of "[]" y u] by simp
  then have "(edit1 ^^ Suc (length u)) (y # u) []" using Cons by (rule relpowp_Suc_I2)
  then show ?case unfolding length_Cons .
qed simp

lemma ed_upper: "(edit1 ^^ ed u v) u v"
proof (induction u v rule: ed.induct)
  case (1 v)
  show ?case unfolding ed.simps by (rule edits_from_Nil)
next
  case (2 x u)
  show ?case unfolding ed.simps by (rule edits_to_Nil)
next
  case (3 x u y v)
  have "edit1 (x # u) u" using edit1.del [of "[]" x u] by simp
  from relpowp_Suc_I2 [OF this "3.IH"(1)] have a: "(edit1 ^^ (ed u (y # v) + 1)) (x # u) (y # v)" by (simp only: Suc_eq_plus1)
  have "edit1 v (y # v)" using edit1.ins [of "[]" v y] by simp
  from relpowp_Suc_I [OF "3.IH"(2) this] have b: "(edit1 ^^ (ed (x # u) v + 1)) (x # u) (y # v)" by (simp only: Suc_eq_plus1)
  have c: "(edit1 ^^ (ed u v + (if x = y then 0 else 1))) (x # u) (y # v)"
  proof (cases "x = y")
    case True
    then show ?thesis using edits_Cons [OF "3.IH"(3), of x] by simp
  next
    case False
    have "edit1 (x # v) (y # v)" using edit1.sub [of "[]" x v y] by simp
    from relpowp_Suc_I [OF edits_Cons [OF "3.IH"(3)] this] False show ?thesis by (simp only: if_False Suc_eq_plus1)
  qed
  show ?case unfolding ed.simps using a b c by (simp only: min_def split: if_split) simp
qed

lemma edit1_rev: "edit1 u v \<Longrightarrow> edit1 (rev u) (rev v)"
proof (induction rule: edit1.induct)
  case (ins p s x)
  then show ?case using edit1.ins [of "rev s" "rev p" x] by simp
next
  case (del p x s)
  then show ?case using edit1.del [of "rev s" x "rev p"] by simp
next
  case (sub p x s y)
  then show ?case using edit1.sub [of "rev s" x "rev p" y] by simp
qed

lemma edits_rev: "(edit1 ^^ n) u v \<Longrightarrow> (edit1 ^^ n) (rev u) (rev v)"
proof (induction n arbitrary: v)
  case (Suc n)
  from Suc.prems obtain w where "(edit1 ^^ n) u w" "edit1 w v" by (rule relpowp_Suc_E)
  then show ?case using Suc.IH edit1_rev by (blast intro: relpowp_Suc_I)
qed simp

lemma ed_rev: "ed (rev u) (rev v) = ed u v"
  using ed_lower [OF edits_rev [OF ed_upper [of u v]]] ed_lower [OF edits_rev [OF ed_upper [of "rev u" "rev v"]]] by simp

subsection \<open>The table\<close>

definition cell :: "byte list \<Rightarrow> byte list \<Rightarrow> nat \<Rightarrow> nat \<Rightarrow> nat" where
  "cell a b j i = ed (take i a) (take j b)"

lemma ed_snoc:
  "ed (u @ [x]) (v @ [y]) = min (ed u (v @ [y]) + 1) (min (ed (u @ [x]) v + 1) (ed u v + (if x = y then 0 else 1)))"
proof -
  have "ed (u @ [x]) (v @ [y]) = ed (x # rev u) (y # rev v)" using ed_rev [of "u @ [x]" "v @ [y]"] by simp
  then show ?thesis
    using ed_rev [of u "v @ [y]"] ed_rev [of "u @ [x]" v] ed_rev [of u v] by simp
qed

lemma cell_step:
  assumes "0 < i" and "i \<le> length a" and "0 < j" and "j \<le> length b"
  shows "cell a b j i = min (cell a b j (i - 1) + 1) (min (cell a b (j - 1) i + 1)
    (cell a b (j - 1) (i - 1) + (if a ! (i - 1) = b ! (j - 1) then 0 else 1)))"
proof -
  obtain i' j' where ij: "i = Suc i'" "j = Suc j'" using assms(1,3) by (metis gr0_implies_Suc)
  with assms show ?thesis by (simp add: cell_def take_Suc_conv_app_nth ed_snoc)
qed

lemma lev_row_ok:
  assumes "0 < j" and "j \<le> length b" and "prev = map (cell a b (j - 1)) [0..<length a + 1]"
    and "0 < i" and "i \<le> length a + 1" and "length cur = length a + 1" and "\<And>q. q < i \<Longrightarrow> cur ! q = cell a b j q"
  shows "lev_row a (b ! (j - 1)) prev i cur = map (cell a b j) [0..<length a + 1]"
  using assms(4-)
proof (induction "length a + 1 - i" arbitrary: i cur)
  case 0
  then have "cur = map (cell a b j) [0..<length a + 1]" by (intro nth_equalityI) (auto simp del: upt_Suc)
  moreover have "\<not> i \<le> length a" using 0 by simp
  ultimately show ?case by (subst lev_row.simps) (simp only: if_False)
next
  case (Suc n)
  let ?best = "min (cur ! (i - 1) + 1) (min (prev ! i + 1) (prev ! (i - 1) + (if a ! (i - 1) = b ! (j - 1) then 0 else 1)))"
  have i: "i \<le> length a" using Suc.hyps(2) by simp
  have "prev ! i = cell a b (j - 1) i" "prev ! (i - 1) = cell a b (j - 1) (i - 1)"
    using i by (simp_all add: assms(3) del: upt_Suc)
  moreover have "cur ! (i - 1) = cell a b j (i - 1)" using Suc.prems(1,4) by simp
  ultimately have best: "?best = cell a b j i"
    unfolding cell_step [OF Suc.prems(1) i assms(1,2)] by (simp only:)
  have "lev_row a (b ! (j - 1)) prev (i + 1) (cur[i := ?best]) = map (cell a b j) [0..<length a + 1]"
  proof (rule Suc.hyps(1))
    fix q assume "q < i + 1"
    then show "cur[i := ?best] ! q = cell a b j q" using best Suc.prems(3,4) i by (cases "q = i") auto
  qed (use Suc.hyps(2) Suc.prems i in auto)
  with i show ?case by (subst lev_row.simps) (simp only: Let_def if_True)
qed

lemma lev_rows_ok:
  assumes "0 < j" and "j \<le> length b + 1" and "prev = map (cell a b (j - 1)) [0..<length a + 1]" and "length cur = length a + 1"
  shows "lev_rows a b j prev cur = map (cell a b (length b)) [0..<length a + 1]"
  using assms
proof (induction "length b + 1 - j" arbitrary: j prev cur)
  case 0
  then have "j - 1 = length b" "\<not> j \<le> length b" by simp_all
  with 0(4) show ?case by (subst lev_rows.simps) (simp only: if_False)
next
  case (Suc n)
  have j: "j \<le> length b" using Suc.hyps(2) by simp
  have "lev_row a (b ! (j - 1)) prev 1 (cur[0 := j]) = map (cell a b j) [0..<length a + 1]"
    using Suc.prems j by (intro lev_row_ok) (auto simp: cell_def)
  moreover have "lev_rows a b (j + 1) (map (cell a b j) [0..<length a + 1]) prev = map (cell a b (length b)) [0..<length a + 1]"
    using Suc.hyps j Suc.prems(3) by (intro Suc.hyps(1)) auto
  ultimately show ?case using j by (subst lev_rows.simps) simp
qed

lemma levenshtein_ed: "levenshtein a b = ed a b"
proof -
  have *: "(if length a = 0 then length b else lev_rows a b 1 [0..<length a + 1] (replicate (length a + 1) 0) ! length a) = ed a b" for a b
  proof (cases "a = []")
    case False
    have "[0..<length a + 1] = map (cell a b 0) [0..<length a + 1]" by (intro nth_equalityI) (auto simp: cell_def simp del: upt_Suc)
    then have "lev_rows a b 1 [0..<length a + 1] (replicate (length a + 1) 0) = map (cell a b (length b)) [0..<length a + 1]"
      by (intro lev_rows_ok) auto
    with False show ?thesis by (simp add: cell_def del: upt_Suc)
  qed simp
  show ?thesis using * [of a b] * [of b a] ed_sym [of a b] by (simp add: levenshtein_def Let_def)
qed

subsection \<open>Properties\<close>

text \<open>C31: the distance is the least number of insertions, deletions and substitutions of one byte that turn the
first text into the second: that many edits suffice and fewer do not.\<close>

theorem levenshtein_least_edits:
  "levenshtein a b = (LEAST n. (edit1 ^^ n) a b)"
  by (rule sym, rule Least_equality) (simp_all add: levenshtein_ed ed_upper ed_lower)

end
