(* ===== verification/Integer_Sort.thy ===== *)
theory Integer_Sort
  imports Prelude
begin

text \<open>
  The sorts for unsigned integers, \<open>algorithm/sort/counting_sort.hpp\<close> and \<open>radix_sort.hpp\<close>. The element
  type is \<open>'w word\<close> for any width; \<open>sizeof(T)\<close> is its width over eight. A span that is written is
  returned; \<open>range\<close> (\<open>xs\<close> here) and \<open>scratch\<close> do not overlap (the code asserts it), so they are two lists.
\<close>

subsection \<open>The code: counting sort\<close>

primrec count_values :: "'w::len word list \<Rightarrow> nat list \<Rightarrow> nat list" where
  "count_values [] counts = counts"
| "count_values (v # vs) counts = count_values vs (counts[unat v := counts ! unat v + 1])"

primrec write_run :: "nat \<Rightarrow> nat \<Rightarrow> 'w::len word list \<times> nat \<Rightarrow> 'w word list \<times> nat" where
  "write_run 0 v ro = ro"
| "write_run (Suc i) v ro = write_run i v ((fst ro)[snd ro := of_nat v], snd ro + 1)"

function write_counts :: "nat list \<Rightarrow> nat \<Rightarrow> 'w::len word list \<times> nat \<Rightarrow> 'w word list \<times> nat" where
  "write_counts counts v ro =
     (if v < length counts then write_counts counts (v + 1) (write_run (counts ! v) v ro) else ro)"
  by pat_completeness auto
termination by (relation "measure (\<lambda>(counts, v, ro). length counts - v)") auto

declare write_counts.simps [simp del]

text \<open>A table for the whole of \<open>std::size_t\<close> has no size, so the code calls the library's sort for it.\<close>

definition counting_sort :: "'w::len word list \<Rightarrow> 'w word \<Rightarrow> 'w word list" where
  "counting_sort xs max_value =
     (if length xs \<le> 1 then xs
      else if unat max_value = 2 ^ 64 - 1 then sort xs
      else let buckets = unat max_value + 1;
               counts = count_values xs (replicate buckets 0)
           in fst (write_counts counts 0 (xs, 0)))"

subsection \<open>The code: radix sort\<close>

definition radix_byte :: "nat \<Rightarrow> 'w::len word \<Rightarrow> byte" where
  "radix_byte byte_index v = ucast (drop_bit (byte_index * 8) v)"

primrec count_bytes :: "nat \<Rightarrow> 'w::len word list \<Rightarrow> nat list \<Rightarrow> nat list" where
  "count_bytes byte_index [] counts = counts"
| "count_bytes byte_index (v # vs) counts =
     (let b = unat (radix_byte byte_index v) in count_bytes byte_index vs (counts[b := counts ! b + 1]))"

primrec exclusive_sums :: "nat list \<Rightarrow> nat \<Rightarrow> nat list" where
  "exclusive_sums [] running = []"
| "exclusive_sums (c # cs) running = running # exclusive_sums cs (running + c)"

primrec distribute :: "nat \<Rightarrow> 'w::len word list \<Rightarrow> nat list \<Rightarrow> 'w word list \<Rightarrow> 'w word list" where
  "distribute byte_index [] counts out = out"
| "distribute byte_index (v # vs) counts out =
     (let b = unat (radix_byte byte_index v)
      in distribute byte_index vs (counts[b := counts ! b + 1]) (out[counts ! b := v]))"

definition radix_sort_pass :: "'w::len word list \<Rightarrow> 'w word list \<Rightarrow> nat \<Rightarrow> 'w word list" where
  "radix_sort_pass input out byte_index =
     distribute byte_index input (exclusive_sums (count_bytes byte_index input (replicate 256 0)) 0) out"

definition radix_bytes :: "'w::len itself \<Rightarrow> nat" where
  "radix_bytes TYPE('w) = LENGTH('w) div 8"

function radix_passes :: "nat \<Rightarrow> 'w::len word list \<Rightarrow> 'w word list \<Rightarrow> 'w word list \<times> 'w word list" where
  "radix_passes i a b =
     (if i < radix_bytes TYPE('w) then radix_passes (i + 1) (radix_sort_pass a b i) a else (a, b))"
  by pat_completeness auto
termination by (relation "measure (\<lambda>(i, a :: 'w::len word list, b :: 'w word list). radix_bytes TYPE('w) - i)") auto

declare radix_passes.simps [simp del]

definition radix_sort_into :: "'w::len word list \<Rightarrow> 'w word list \<Rightarrow> 'w word list \<times> 'w word list" where
  "radix_sort_into xs scratch =
     (let n = length xs;
          (a, b) = radix_passes 0 xs (take n scratch)
      in if radix_bytes TYPE('w) mod 2 = 1
         then (take n (a @ drop n scratch), a @ drop n scratch)
         else (a, b @ drop n scratch))"

definition radix_sort :: "'w::len word list \<Rightarrow> 'w word list \<Rightarrow> 'w word list \<times> 'w word list" where
  "radix_sort xs scratch =
     (if length xs \<le> 1 then (xs, scratch) else radix_sort_into xs scratch)"

definition radix_sort_alloc :: "'w::len word list \<Rightarrow> 'w word list" where
  "radix_sort_alloc xs =
     (if length xs \<le> 1 then xs else fst (radix_sort_into xs (replicate (length xs) 0)))"

subsection \<open>Counting\<close>

lemma length_count_values [simp]: "length (count_values vs counts) = length counts"
  by (induction vs arbitrary: counts) simp_all

lemma count_values_ok:
  "\<forall>v \<in> set vs. unat v < length counts \<Longrightarrow> b < length counts \<Longrightarrow>
    count_values vs counts ! b = counts ! b + length (filter (\<lambda>v. unat v = b) vs)"
  by (induction vs arbitrary: counts) (auto simp: nth_list_update)

lemma write_run_ok:
  "out + k \<le> length xs \<Longrightarrow>
    write_run k v (xs, out) = (take out xs @ replicate k (of_nat v) @ drop (out + k) xs, out + k)"
proof (induction k arbitrary: xs out)
  case (Suc k)
  then have "out < length xs" by simp
  with Suc show ?case by (simp add: replicate_app_Cons_same)
qed simp

lemma write_counts_ok:
  "out + sum_list (drop v counts) \<le> length xs \<Longrightarrow>
    fst (write_counts counts v (xs, out)) =
    take out xs @ concat (map (\<lambda>v. replicate (counts ! v) (of_nat v)) [v..<length counts]) @
    drop (out + sum_list (drop v counts)) xs"
proof (induction "length counts - v" arbitrary: v xs out)
  case 0
  then show ?case by (subst write_counts.simps) simp
next
  case (Suc n)
  then have v: "v < length counts" by simp
  have drop: "drop v counts = counts ! v # drop (Suc v) counts" using v by (rule nth_drop_Cons)
  let ?r = "take out xs @ replicate (counts ! v) (of_nat v) @ drop (out + counts ! v) xs"
  have run: "write_run (counts ! v) v (xs, out) = (?r, out + counts ! v)"
    using Suc.prems drop by (intro write_run_ok) simp
  have "n = length counts - Suc v" using Suc.hyps(2) by simp
  moreover have "out + counts ! v + sum_list (drop (Suc v) counts) \<le> length ?r" using Suc.prems drop by simp
  ultimately have "fst (write_counts counts (Suc v) (?r, out + counts ! v)) =
    take (out + counts ! v) ?r @ concat (map (\<lambda>v. replicate (counts ! v) (of_nat v)) [Suc v..<length counts]) @
    drop (out + counts ! v + sum_list (drop (Suc v) counts)) ?r" by (rule Suc.hyps(1))
  moreover have "fst (write_counts counts v (xs, out)) = fst (write_counts counts (Suc v) (?r, out + counts ! v))"
    using v run by (subst write_counts.simps) simp
  ultimately show ?case using Suc.prems drop by (simp add: upt_conv_Cons [OF v] ac_simps)
qed

text \<open>The buckets of a list by a key, in the order of the keys.\<close>

definition buckets_upto :: "('a \<Rightarrow> nat) \<Rightarrow> nat \<Rightarrow> 'a list \<Rightarrow> 'a list" where
  "buckets_upto key n xs = concat (map (\<lambda>k. filter (\<lambda>x. key x = k) xs) [0..<n])"

lemma buckets_Suc: "buckets_upto key (Suc n) xs = buckets_upto key n xs @ filter (\<lambda>x. key x = n) xs"
  by (simp add: buckets_upto_def)

lemma mset_buckets: "mset (buckets_upto key n xs) = filter_mset (\<lambda>x. key x < n) (mset xs)"
proof (induction n)
  case (Suc n)
  have "filter_mset (\<lambda>x. key x < Suc n) M = filter_mset (\<lambda>x. key x < n) M + filter_mset (\<lambda>x. key x = n) M" for M
    by (induction M) auto
  with Suc show ?case by (simp add: buckets_Suc mset_filter)
qed (simp add: buckets_upto_def)

lemma set_buckets: "set (buckets_upto key n xs) = {x \<in> set xs. key x < n}"
  by (auto simp: buckets_upto_def)

lemma sorted_buckets:
  assumes "sorted (map f xs)" and "\<And>x y. key x < key y \<Longrightarrow> g x \<le> g y"
    and "\<And>x y. key x = key y \<Longrightarrow> f x \<le> f y \<Longrightarrow> g x \<le> g y"
  shows "sorted (map g (buckets_upto key n xs))"
proof (induction n)
  case (Suc n)
  have "sorted_wrt (\<lambda>x y. f x \<le> f y) (filter (\<lambda>x. key x = n) xs)"
    using assms(1) by (simp add: sorted_map sorted_wrt_filter)
  then have "sorted_wrt (\<lambda>x y. g x \<le> g y) (filter (\<lambda>x. key x = n) xs)"
    by (rule sorted_wrt_mono_rel [rotated]) (auto intro: assms(3))
  moreover have "g x \<le> g y" if "x \<in> set (buckets_upto key n xs)" "y \<in> set (filter (\<lambda>x. key x = n) xs)" for x y
    using that by (auto simp: set_buckets intro: assms(2))
  ultimately show ?case using Suc by (simp add: buckets_Suc sorted_map sorted_wrt_append)
qed (simp add: buckets_upto_def)

lemma sum_list_runs: "sum_list c = length (concat (map (\<lambda>b. replicate (c ! b) (x b)) [0..<length c]))"
  by (simp add: length_concat comp_def map_nth)

lemma sorted_unat: "sorted (map unat xs) \<longleftrightarrow> sorted (xs :: 'w::len word list)"
proof -
  have "(\<lambda>x y :: 'w word. unat x \<le> unat y) = (\<le>)" by (simp add: fun_eq_iff word_le_nat_alt)
  then show ?thesis by (simp add: sorted_map)
qed

lemma counting_sort_ok:
  assumes "\<forall>v \<in> set xs. v \<le> max_value"
  shows "counting_sort xs max_value = sort xs"
proof (cases "length xs \<le> 1 \<or> unat max_value = 2 ^ 64 - 1")
  case True
  have "sort xs = xs" if "length xs \<le> 1" using that by (cases xs) auto
  with True show ?thesis by (auto simp: counting_sort_def)
next
  case False
  let ?n = "unat max_value + 1"
  let ?c = "count_values xs (replicate ?n 0)"
  have less: "unat v < ?n" if "v \<in> set xs" for v using assms that by (auto simp: word_le_nat_alt less_Suc_eq_le)
  have c: "?c ! b = length (filter (\<lambda>v. unat v = b) xs)" if "b < ?n" for b
    using less that by (subst count_values_ok) (auto simp del: replicate_Suc)
  have run: "replicate (?c ! b) (of_nat b) = filter (\<lambda>v. unat v = b) xs" if "b < ?n" for b
    unfolding c [OF that] by (rule sym, rule replicate_eqI) auto
  have cat: "concat (map (\<lambda>b. replicate (?c ! b) (of_nat b)) [0..<?n]) = buckets_upto unat ?n xs"
    unfolding buckets_upto_def by (intro arg_cong [where f = concat] map_cong run) auto
  have perm: "mset (buckets_upto unat ?n xs) = mset xs"
    using less by (auto simp: mset_buckets filter_mset_eq_conv)
  have len: "sum_list ?c = length xs"
  proof -
    have n: "length ?c = ?n" by (simp del: replicate_Suc)
    have "sum_list ?c = length (buckets_upto unat ?n xs)"
      using sum_list_runs [of ?c "of_nat :: nat \<Rightarrow> 'a word"] unfolding n cat .
    also have "\<dots> = length xs" using perm by (metis size_mset)
    finally show ?thesis .
  qed
  have "fst (write_counts ?c 0 (xs, 0)) = concat (map (\<lambda>v. replicate (?c ! v) (of_nat v)) [0..<length ?c])"
    using write_counts_ok [of 0 0 ?c xs] len by (simp del: upt_Suc replicate_Suc)
  also have "\<dots> = buckets_upto unat ?n xs" using cat by (simp del: upt_Suc replicate_Suc)
  finally have "counting_sort xs max_value = buckets_upto unat ?n xs"
    using False unfolding counting_sort_def Let_def by (simp only: if_False de_Morgan_disj)
  moreover have "sorted (map unat (buckets_upto unat ?n xs))"
    by (rule sorted_buckets [where f = "\<lambda>_. 0 :: nat"]) (auto simp: sorted_map)
  then have "sorted (buckets_upto unat ?n xs)" by (simp only: sorted_unat)
  ultimately show ?thesis using perm by (metis properties_for_sort)
qed


subsection \<open>Distribution\<close>

abbreviation bkey :: "nat \<Rightarrow> 'w::len word \<Rightarrow> nat" where
  "bkey i v \<equiv> unat (radix_byte i v)"

lemma buckets_split: "m \<le> n \<Longrightarrow> \<exists>r. buckets_upto key n xs = buckets_upto key m xs @ r"
  by (induction n rule: nat_induct_at_least) (auto simp: buckets_Suc)

lemma nth_buckets:
  assumes "b < n" and "j < length (filter (\<lambda>x. key x = b) xs)"
  shows "buckets_upto key n xs ! (length (buckets_upto key b xs) + j) = filter (\<lambda>x. key x = b) xs ! j"
    and "length (buckets_upto key b xs) + j < length (buckets_upto key n xs)"
proof -
  obtain r where "buckets_upto key n xs = buckets_upto key (Suc b) xs @ r" using buckets_split [of "Suc b" n] assms(1) by auto
  then show "buckets_upto key n xs ! (length (buckets_upto key b xs) + j) = filter (\<lambda>x. key x = b) xs ! j"
    and "length (buckets_upto key b xs) + j < length (buckets_upto key n xs)"
    using assms(2) by (simp_all add: buckets_Suc nth_append)
qed

lemma bucket_cover:
  assumes "i < length (buckets_upto key n xs)"
  obtains b j where "b < n" and "j < length (filter (\<lambda>x. key x = b) xs)" and "i = length (buckets_upto key b xs) + j"
  using assms
proof (induction n arbitrary: thesis)
  case (Suc n)
  show ?case
  proof (cases "i < length (buckets_upto key n xs)")
    case True
    with Suc.IH Suc.prems(1) show ?thesis by (metis less_Suc_eq)
  next
    case False
    with Suc.prems(2) have "i - length (buckets_upto key n xs) < length (filter (\<lambda>x. key x = n) xs)" by (simp add: buckets_Suc)
    with False Suc.prems(1) [of n] show ?thesis by simp
  qed
qed (simp add: buckets_upto_def)

lemma length_buckets: "(\<And>x. x \<in> set xs \<Longrightarrow> key x < n) \<Longrightarrow> length (buckets_upto key n xs) = length xs"
proof -
  assume "\<And>x. x \<in> set xs \<Longrightarrow> key x < n"
  then have "mset (buckets_upto key n xs) = mset xs" by (simp add: mset_buckets filter_mset_eq_conv)
  then show ?thesis by (metis size_mset)
qed

text \<open>Each step puts the next element of its bucket behind those already there.\<close>

lemma distribute_ok:
  fixes input :: "'w::len word list" and i :: nat
  defines "start \<equiv> \<lambda>b. length (buckets_upto (bkey i) b input)" and "T \<equiv> buckets_upto (bkey i) 256 input"
  assumes "input = pre @ rest" and "length counts = 256" and "length input \<le> length out"
    and "\<And>b. b < 256 \<Longrightarrow> counts ! b = start b + length (filter (\<lambda>v. bkey i v = b) pre)"
    and "\<And>b j. b < 256 \<Longrightarrow> j < length (filter (\<lambda>v. bkey i v = b) pre) \<Longrightarrow> out ! (start b + j) = T ! (start b + j)"
  shows "length (distribute i rest counts out) = length out \<and>
    drop (length input) (distribute i rest counts out) = drop (length input) out \<and>
    (\<forall>b < 256. \<forall>j < length (filter (\<lambda>v. bkey i v = b) input). distribute i rest counts out ! (start b + j) = T ! (start b + j))"
  using assms(3-)
proof (induction rest arbitrary: pre counts out)
  case (Cons v rest)
  let ?b = "bkey i v" and ?in = "\<lambda>b ys. filter (\<lambda>v. bkey i v = b) ys"
  have b: "?b < 256" by simp
  let ?p = "start ?b + length (?in ?b pre)"
  have pos: "counts ! ?b = ?p" using Cons.prems(4) [OF b] .
  have in_b: "?in ?b input = ?in ?b pre @ v # ?in ?b rest" using Cons.prems(1) by simp
  then have j: "length (?in ?b pre) < length (?in ?b input)" by simp
  have "length T = length input" unfolding T_def by (rule length_buckets) simp
  then have p: "?p < length input" using nth_buckets(2) [OF b j] by (simp add: start_def T_def)
  have Tp: "T ! ?p = v" using nth_buckets(1) [OF b j] in_b by (simp add: start_def T_def)
  let ?counts = "counts[?b := counts ! ?b + 1]" and ?out = "out[?p := v]"
  have step: "length (distribute i rest ?counts ?out) = length ?out \<and>
    drop (length input) (distribute i rest ?counts ?out) = drop (length input) ?out \<and>
    (\<forall>b < 256. \<forall>j < length (?in b input). distribute i rest ?counts ?out ! (start b + j) = T ! (start b + j))"
  proof (rule Cons.IH [of "pre @ [v]"])
    show "?counts ! c = start c + length (?in c (pre @ [v]))" if "c < 256" for c
      using Cons.prems(2) Cons.prems(4) [OF that] that by (cases "c = ?b") auto
    show "?out ! (start c + k) = T ! (start c + k)" if "c < 256" "k < length (?in c (pre @ [v]))" for c k
    proof (cases "start c + k = ?p")
      case True
      then show ?thesis using Tp p Cons.prems(3) by simp
    next
      case False
      then have "k < length (?in c pre)" using that(2) by (cases "c = ?b") auto
      with False Cons.prems(5) [OF that(1)] show ?thesis by simp
    qed
  qed (use Cons.prems in simp_all)
  moreover have "drop (length input) ?out = drop (length input) out" using p by simp
  moreover have "distribute i (v # rest) counts out = distribute i rest ?counts ?out" by (simp add: Let_def pos)
  ultimately show ?case by simp
qed simp

lemma length_count_bytes [simp]: "length (count_bytes i vs counts) = length counts"
  by (induction vs arbitrary: counts) (simp_all add: Let_def)

lemma count_bytes_ok:
  "length counts = 256 \<Longrightarrow> b < 256 \<Longrightarrow> count_bytes i vs counts ! b = counts ! b + length (filter (\<lambda>v. bkey i v = b) vs)"
  by (induction vs arbitrary: counts) (auto simp: Let_def nth_list_update)

lemma length_exclusive_sums [simp]: "length (exclusive_sums cs r) = length cs"
  by (induction cs arbitrary: r) simp_all

lemma exclusive_sums_ok: "b < length cs \<Longrightarrow> exclusive_sums cs r ! b = r + sum_list (take b cs)"
proof (induction cs arbitrary: r b)
  case (Cons c cs)
  then show ?case by (cases b) auto
qed simp

lemma length_buckets_sum: "length (buckets_upto key b xs) = sum_list (map (\<lambda>k. length (filter (\<lambda>x. key x = k) xs)) [0..<b])"
  by (simp add: buckets_upto_def length_concat comp_def)

lemma radix_sort_pass_ok:
  assumes "length input \<le> length out"
  shows "radix_sort_pass input out i = buckets_upto (bkey i) 256 input @ drop (length input) out"
proof -
  let ?T = "buckets_upto (bkey i) 256 input" and ?c = "count_bytes i input (replicate 256 0)"
  let ?r = "radix_sort_pass input out i"
  have sums: "exclusive_sums ?c 0 ! b = length (buckets_upto (bkey i) b input)" if "b < 256" for b
  proof -
    have "take b ?c = map (\<lambda>k. length (filter (\<lambda>x. bkey i x = k) input)) [0..<b]"
      using that by (intro nth_equalityI) (simp_all add: count_bytes_ok)
    then show ?thesis using that by (simp add: exclusive_sums_ok length_buckets_sum)
  qed
  have r: "length ?r = length out" "drop (length input) ?r = drop (length input) out"
    "\<And>b j. b < 256 \<Longrightarrow> j < length (filter (\<lambda>v. bkey i v = b) input) \<Longrightarrow>
      ?r ! (length (buckets_upto (bkey i) b input) + j) = ?T ! (length (buckets_upto (bkey i) b input) + j)"
    using distribute_ok [of input "[]" input "exclusive_sums ?c 0" out i] assms sums by (simp_all add: radix_sort_pass_def)
  have len: "length ?T = length input" by (rule length_buckets) simp
  have "take (length input) ?r = ?T"
  proof (rule nth_equalityI)
    fix q assume "q < length (take (length input) ?r)"
    then have "q < length ?T" using assms len by simp
    then obtain b j where "b < 256" "j < length (filter (\<lambda>x. bkey i x = b) input)" "q = length (buckets_upto (bkey i) b input) + j"
      by (rule bucket_cover)
    then show "take (length input) ?r ! q = ?T ! q" using r(3) \<open>q < length ?T\<close> len by simp
  qed (use r(1) assms len in simp)
  then show ?thesis using r(2) by (metis append_take_drop_id)
qed


subsection \<open>The passes\<close>

lemma bkey_div: "bkey i v = unat v div 256 ^ i mod 256"
proof -
  have "bkey i v = unat (drop_bit (i * 8) v) mod 2 ^ 8"
    by (simp add: radix_byte_def unsigned_ucast_eq take_bit_eq_mod)
  also have "unat (drop_bit (i * 8) v) = unat v div 2 ^ (i * 8)"
    unfolding unat_drop_bit_eq by (rule drop_bit_eq_div)
  also have "(2 :: nat) ^ (i * 8) = 256 ^ i" by (simp add: mult.commute [of i] power_mult)
  finally show ?thesis by simp
qed

lemma bkey_step: "unat v mod 256 ^ Suc i = unat v mod 256 ^ i + 256 ^ i * bkey i v"
  unfolding bkey_div power_Suc2 by (rule mod_mult2_eq [THEN trans]) simp

lemma radix_pass_sorted:
  assumes "sorted (map (\<lambda>v. unat v mod 256 ^ i) xs)"
  shows "sorted (map (\<lambda>v. unat v mod 256 ^ Suc i) (buckets_upto (bkey i) 256 xs))"
proof (rule sorted_buckets [OF assms])
  fix x y :: "'a word" assume xy: "bkey i x < bkey i y"
  have "unat x mod 256 ^ Suc i < 256 ^ i * (bkey i x + 1)" unfolding bkey_step by simp
  also have "\<dots> \<le> 256 ^ i * bkey i y" using xy by (intro mult_le_mono2) simp
  also have "\<dots> \<le> unat y mod 256 ^ Suc i" unfolding bkey_step by simp
  finally show "unat x mod 256 ^ Suc i \<le> unat y mod 256 ^ Suc i" by simp
next
  fix x y :: "'a word" assume "bkey i x = bkey i y" "unat x mod 256 ^ i \<le> unat y mod 256 ^ i"
  then show "unat x mod 256 ^ Suc i \<le> unat y mod 256 ^ Suc i" unfolding bkey_step by simp
qed

lemma radix_passes_ok:
  fixes a :: "'w::len word list"
  assumes "length b = length a" and "i \<le> radix_bytes TYPE('w)" and "sorted (map (\<lambda>v. unat v mod 256 ^ i) a)"
  shows "case radix_passes i a b of (a', b') \<Rightarrow> mset a' = mset a \<and> length b' = length a \<and>
    sorted (map (\<lambda>v. unat v mod 256 ^ radix_bytes TYPE('w)) a')"
  using assms
proof (induction i a b rule: radix_passes.induct)
  case (1 i a b)
  show ?case
  proof (cases "i < radix_bytes TYPE('w)")
    case True
    let ?p = "buckets_upto (bkey i) 256 a"
    have pass: "radix_sort_pass a b i = ?p" using "1.prems"(1) by (simp add: radix_sort_pass_ok)
    have "mset ?p = mset a" by (simp add: mset_buckets filter_mset_eq_conv)
    moreover from this have "length ?p = length a" by (metis size_mset)
    moreover have "radix_passes i a b = radix_passes (i + 1) ?p a" using True pass by (subst radix_passes.simps) simp
    ultimately show ?thesis using "1.IH" [OF True] True radix_pass_sorted [OF "1.prems"(3)] unfolding pass by simp
  next
    case False
    then have "radix_passes i a b = (a, b)" by (subst radix_passes.simps) simp
    moreover have "i = radix_bytes TYPE('w)" using False "1.prems"(2) by simp
    ultimately show ?thesis using "1.prems"(1,3) by simp
  qed
qed

lemma radix_sort_into_ok:
  fixes xs :: "'w::len word list"
  assumes "8 dvd LENGTH('w)" and "length xs \<le> length scratch"
  shows "fst (radix_sort_into xs scratch) = sort xs" and "length (snd (radix_sort_into xs scratch)) = length scratch"
proof -
  obtain a b where ab: "radix_passes 0 xs (take (length xs) scratch) = (a, b)" by fastforce
  have ok: "mset a = mset xs" "length b = length xs" "sorted (map (\<lambda>v. unat v mod 256 ^ radix_bytes TYPE('w)) a)"
    using radix_passes_ok [of "take (length xs) scratch" xs 0] assms(2) by (auto simp: ab sorted_map)
  have "(256 :: nat) ^ radix_bytes TYPE('w) = 2 ^ (8 * radix_bytes TYPE('w))" by (simp add: power_mult)
  also have "8 * radix_bytes TYPE('w) = LENGTH('w)" using assms(1) by (simp add: radix_bytes_def)
  finally have "sorted (map unat a)" using ok(3) by simp
  then have a: "a = sort xs" using ok(1) by (metis properties_for_sort sorted_unat)
  have len: "length a = length xs" using ok(1) by (metis size_mset)
  show "fst (radix_sort_into xs scratch) = sort xs" and "length (snd (radix_sort_into xs scratch)) = length scratch"
    using a len ok(2) assms(2) by (simp_all add: radix_sort_into_def ab Let_def)
qed

lemma sort_short: "length xs \<le> 1 \<Longrightarrow> sort xs = xs"
  by (cases xs) auto

subsection \<open>Properties\<close>

text \<open>C32: on integers of any whole number of bytes, the radix sort leaves the range sorted and a permutation of what it
was, with a scratch buffer of at least its size (whose size it keeps) or with its own; and counting
sort does the same for values up to the maximum it is given.\<close>

theorem integer_sorts_sort:
  fixes xs :: "'w::len word list"
  assumes "8 dvd LENGTH('w)" and "length xs \<le> length scratch" and "\<forall>v \<in> set xs. v \<le> max_value"
  shows "fst (radix_sort xs scratch) = sort xs \<and> length (snd (radix_sort xs scratch)) = length scratch \<and>
    radix_sort_alloc xs = sort xs \<and> counting_sort xs max_value = sort xs"
  using radix_sort_into_ok [OF assms(1,2)] radix_sort_into_ok [OF assms(1), of xs "replicate (length xs) 0"]
    counting_sort_ok [OF assms(3)] sort_short [of xs] by (simp add: radix_sort_def radix_sort_alloc_def)

lemma integer_sorts_sort_witness:
  "radix_sort_alloc [300, 5, 258 :: u16] = [5, 258, 300] \<and> counting_sort [300, 5, 258 :: u16] 300 = [5, 258, 300]"
  using integer_sorts_sort [of "[300, 5, 258 :: u16]" "[0, 0, 0]" 300] by simp

end
