(* ===== verification/Gap_Buffer.thy ===== *)
theory Gap_Buffer
  imports Container_Error
begin

text \<open>
  The gap buffer of \<open>container/gap_buffer.hpp\<close>: a vector whose unused slots, the gap, lie at the cursor. The
  parameters \<open>d\<close> (the value \<open>T{}\<close> that \<open>resize\<close> fills with) and \<open>mv\<close> (what a moved-from object holds) are the
  element type's, and the capacity \<open>std::vector\<close> chose is an argument of \<open>reserve\<close>. The abstract view is the
  text before and after the cursor.
\<close>

subsection \<open>The code\<close>

record 'a gap_buffer =
  gb_buffer :: "'a list"
  gb_begin :: nat
  gb_end :: nat

definition initial_gap :: nat where
  "initial_gap = 16"

definition gb_default :: "'a gap_buffer" where
  "gb_default = \<lparr>gb_buffer = [], gb_begin = 0, gb_end = 0\<rparr>"


text \<open>The move constructor: the new object and what it leaves.\<close>

definition gb_move :: "'a gap_buffer \<Rightarrow> 'a gap_buffer \<times> 'a gap_buffer" where
  "gb_move g = (g, \<lparr>gb_buffer = [], gb_begin = 0, gb_end = 0\<rparr>)"

definition gap_size :: "'a gap_buffer \<Rightarrow> nat" where
  "gap_size g = gb_end g - gb_begin g"

definition physical :: "'a gap_buffer \<Rightarrow> nat \<Rightarrow> nat" where
  "physical g logical = (if logical < gb_begin g then logical else logical + gap_size g)"

text \<open>\<open>m_buffer[dst] = std::move(m_buffer[src])\<close>; on itself the element is left moved-from.\<close>

definition move_slot :: "('a \<Rightarrow> 'a) \<Rightarrow> nat \<Rightarrow> nat \<Rightarrow> 'a list \<Rightarrow> 'a list" where
  "move_slot mv dst src b = (b[dst := b ! src])[src := mv (b ! src)]"

definition resize :: "'a \<Rightarrow> nat \<Rightarrow> 'a list \<Rightarrow> 'a list" where
  "resize d n b = take n b @ replicate (n - length b) d"

primrec shift_up :: "('a \<Rightarrow> 'a) \<Rightarrow> nat \<Rightarrow> nat \<Rightarrow> nat \<Rightarrow> 'a list \<Rightarrow> 'a list" where
  "shift_up mv dst src 0 b = b"
| "shift_up mv dst src (Suc j) b = shift_up mv dst src j (move_slot mv (dst + j) (src + j) b)"

definition grow_gap :: "('a \<Rightarrow> 'a) \<Rightarrow> 'a \<Rightarrow> nat \<Rightarrow> 'a gap_buffer \<Rightarrow> 'a gap_buffer" where
  "grow_gap mv d min_gap g =
     (if min_gap \<le> gap_size g then g
      else let post_count = length (gb_buffer g) - gb_end g;
               geometric_gap = length (gb_buffer g) div 2 + initial_gap;
               want_gap = max min_gap geometric_gap;
               new_size = gb_begin g + want_gap + post_count
           in g\<lparr>gb_buffer := shift_up mv (new_size - post_count) (gb_end g) post_count (resize d new_size (gb_buffer g)),
                gb_end := new_size - post_count\<rparr>)"

definition gb_size :: "'a gap_buffer \<Rightarrow> nat" where
  "gb_size g = length (gb_buffer g) - gap_size g"

definition gb_empty :: "'a gap_buffer \<Rightarrow> bool" where
  "gb_empty g \<longleftrightarrow> gb_size g = 0"



function shift_down :: "('a \<Rightarrow> 'a) \<Rightarrow> nat \<Rightarrow> nat \<Rightarrow> nat \<Rightarrow> nat \<Rightarrow> 'a list \<Rightarrow> 'a list" where
  "shift_down mv dst src i n b =
     (if i < n then shift_down mv dst src (i + 1) n (move_slot mv (dst + i) (src + i) b) else b)"
  by pat_completeness auto
termination by (relation "measure (\<lambda>(mv, dst, src, i, n, b). n - i)") auto

declare shift_down.simps [simp del]


definition gb_swap :: "'a gap_buffer \<Rightarrow> 'a gap_buffer \<Rightarrow> 'a gap_buffer \<times> 'a gap_buffer" where
  "gb_swap a b = (b, a)"








definition gb_insert :: "('a \<Rightarrow> 'a) \<Rightarrow> 'a \<Rightarrow> 'a \<Rightarrow> 'a gap_buffer \<Rightarrow> 'a gap_buffer" where
  "gb_insert mv d value g =
     (let g = (if gap_size g = 0 then grow_gap mv d initial_gap g else g)
      in g\<lparr>gb_buffer := (gb_buffer g)[gb_begin g := value], gb_begin := gb_begin g + 1\<rparr>)"

definition gb_emplace :: "('a \<Rightarrow> 'a) \<Rightarrow> 'a \<Rightarrow> ('b \<Rightarrow> 'a) \<Rightarrow> 'b \<Rightarrow> 'a gap_buffer \<Rightarrow> 'a gap_buffer" where
  "gb_emplace mv d construct args g = gb_insert mv d (construct args) g"



definition gb_subscript :: "'a gap_buffer \<Rightarrow> nat \<Rightarrow> 'a" where
  "gb_subscript g i = gb_buffer g ! physical g i"


definition gb_front :: "'a gap_buffer \<Rightarrow> nat option" where
  "gb_front g = (if gb_empty g then None else Some (physical g 0))"

definition gb_back :: "'a gap_buffer \<Rightarrow> nat option" where
  "gb_back g = (if gb_empty g then None else Some (physical g (gb_size g - 1)))"

definition gb_equal :: "'a gap_buffer \<Rightarrow> 'a gap_buffer \<Rightarrow> bool" where
  "gb_equal a b \<longleftrightarrow> gb_size a = gb_size b \<and>
     list_all2 (=) (map (gb_subscript a) [0..<gb_size a]) (map (gb_subscript b) [0..<gb_size b])"

subsection \<open>The text around the cursor\<close>

definition gb_left :: "'a gap_buffer \<Rightarrow> 'a list" where
  "gb_left g = take (gb_begin g) (gb_buffer g)"

definition gb_right :: "'a gap_buffer \<Rightarrow> 'a list" where
  "gb_right g = drop (gb_end g) (gb_buffer g)"

definition gb_wf :: "'a gap_buffer \<Rightarrow> bool" where
  "gb_wf g \<longleftrightarrow> gb_begin g \<le> gb_end g \<and> gb_end g \<le> length (gb_buffer g)"

lemma gb_wfD: "gb_wf g \<Longrightarrow> gb_begin g \<le> gb_end g" "gb_wf g \<Longrightarrow> gb_end g \<le> length (gb_buffer g)"
  by (simp_all add: gb_wf_def)

lemma gb_size_text: "gb_wf g \<Longrightarrow> gb_size g = length (gb_left g) + length (gb_right g)"
  by (simp add: gb_wf_def gb_size_def gap_size_def gb_left_def gb_right_def)


lemma gb_subscript_text:
  assumes "gb_wf g" and "i < gb_size g"
  shows "gb_subscript g i = (gb_left g @ gb_right g) ! i" and "physical g i < length (gb_buffer g)"
  using assms by (auto simp: gb_wf_def gb_size_def gap_size_def gb_left_def gb_right_def gb_subscript_def physical_def nth_append
    intro!: arg_cong [where f = "(!) (gb_buffer g)"])

lemma length_move_slot [simp]: "length (move_slot mv i j b) = length b"
  by (simp add: move_slot_def)


lemma length_shift_up [simp]: "length (shift_up mv dst src j b) = length b"
  by (induction j arbitrary: b) auto


lemma length_shift_down [simp]: "length (shift_down mv dst src i n b) = length b"
proof (induction mv dst src i n b rule: shift_down.induct)
  case (1 mv dst src i n b)
  then show ?case by (subst shift_down.simps) simp
qed











subsection \<open>Editing sessions\<close>








lemma gb_elements: "gb_wf g \<Longrightarrow> map (gb_subscript g) [0..<gb_size g] = gb_left g @ gb_right g"
  by (rule nth_equalityI) (simp_all add: gb_size_text gb_subscript_text)

lemma gb_equal_text: "gb_wf a \<Longrightarrow> gb_wf b \<Longrightarrow> gb_equal a b \<longleftrightarrow> gb_left a @ gb_right a = gb_left b @ gb_right b"
  by (auto simp: gb_equal_def gb_elements list.rel_eq) (metis gb_size_text length_append)

lemma gb_ends: "gb_wf g \<Longrightarrow> gb_left g @ gb_right g \<noteq> [] \<Longrightarrow>
    map_option (\<lambda>i. gb_buffer g ! i) (gb_front g) = Some (hd (gb_left g @ gb_right g)) \<and>
    map_option (\<lambda>i. gb_buffer g ! i) (gb_back g) = Some (last (gb_left g @ gb_right g))"
  using gb_subscript_text(1) [of g 0] gb_subscript_text(1) [of g "gb_size g - 1"] gb_size_text [of g]
  by (simp add: gb_front_def gb_back_def gb_empty_def gb_subscript_def hd_conv_nth last_conv_nth)

subsection \<open>Properties\<close>



end
