(* ===== verification/Sparse_Set.thy ===== *)
theory Sparse_Set
  imports Prelude
begin

text \<open>
  The set of unsigned keys of \<open>container/sparse_set.hpp\<close>: a dense array of the keys and a sparse
  array that maps a key to its position in it. The key type is a word of any width; \<open>invalid_index\<close>
  is the largest \<open>size_t\<close>. The abstract view is the set of the dense keys.
\<close>

subsection \<open>The code\<close>

record 'k sparse_set =
  ss_sparse :: "nat list"
  ss_dense :: "'k list"

definition invalid_index :: nat where
  "invalid_index = 2 ^ 64 - 1"

definition ss_default :: "'k sparse_set" where
  "ss_default = \<lparr>ss_sparse = [], ss_dense = []\<rparr>"

definition ensure_sparse_capacity :: "'k::len word \<Rightarrow> 'k word sparse_set \<Rightarrow> 'k word sparse_set" where
  "ensure_sparse_capacity k s =
     (let needed = unat k + 1
      in if length (ss_sparse s) < needed then s\<lparr>ss_sparse := resize_list needed invalid_index (ss_sparse s)\<rparr> else s)"

definition ss_reserve :: "nat \<Rightarrow> nat \<Rightarrow> 'k sparse_set \<Rightarrow> 'k sparse_set" where
  "ss_reserve key_count dense_count s =
     (if length (ss_sparse s) < key_count then s\<lparr>ss_sparse := resize_list key_count invalid_index (ss_sparse s)\<rparr> else s)"

definition ss_contains :: "'k::len word sparse_set \<Rightarrow> 'k word \<Rightarrow> bool" where
  "ss_contains s k =
     (if length (ss_sparse s) \<le> unat k then False
      else let pos = ss_sparse s ! unat k in pos < length (ss_dense s) \<and> ss_dense s ! pos = k)"

definition ss_insert :: "'k::len word \<Rightarrow> 'k word sparse_set \<Rightarrow> bool \<times> 'k word sparse_set" where
  "ss_insert k s =
     (if ss_contains s k then (False, s)
      else if unat k = 2 ^ 64 - 1 then (False, s)
      else let s1 = ensure_sparse_capacity k s
        in (True, s1\<lparr>ss_sparse := (ss_sparse s1)[unat k := length (ss_dense s1)], ss_dense := ss_dense s1 @ [k]\<rparr>))"

definition ss_erase :: "'k::len word \<Rightarrow> 'k word sparse_set \<Rightarrow> bool \<times> 'k word sparse_set" where
  "ss_erase k s =
     (if \<not> ss_contains s k then (False, s)
      else
        let pos = ss_sparse s ! unat k;
            last_pos = length (ss_dense s) - 1;
            s1 = (if pos \<noteq> last_pos then
                let moved_key = ss_dense s ! last_pos
                in s\<lparr>ss_dense := (ss_dense s)[pos := moved_key], ss_sparse := (ss_sparse s)[unat moved_key := pos]\<rparr>
              else s)
        in (True, s1\<lparr>ss_dense := butlast (ss_dense s1), ss_sparse := (ss_sparse s1)[unat k := invalid_index]\<rparr>))"

definition ss_index_of :: "'k::len word sparse_set \<Rightarrow> 'k word \<Rightarrow> nat option" where
  "ss_index_of s k = (if \<not> ss_contains s k then None else Some (ss_sparse s ! unat k))"

text \<open>An iterator is a position of the dense array.\<close>

definition ss_end :: "'k sparse_set \<Rightarrow> nat" where
  "ss_end s = length (ss_dense s)"

definition ss_find :: "'k::len word sparse_set \<Rightarrow> 'k word \<Rightarrow> nat" where
  "ss_find s k = (case ss_index_of s k of Some pos \<Rightarrow> pos | None \<Rightarrow> ss_end s)"

definition ss_count :: "'k::len word sparse_set \<Rightarrow> 'k word \<Rightarrow> nat" where
  "ss_count s k = (if ss_contains s k then 1 else 0)"

fun clear_sparse :: "'k::len word list \<Rightarrow> nat list \<Rightarrow> nat list" where
  "clear_sparse [] sparse = sparse"
| "clear_sparse (k # ks) sparse = clear_sparse ks (sparse[unat k := invalid_index])"

definition ss_clear :: "'k::len word sparse_set \<Rightarrow> 'k word sparse_set" where
  "ss_clear s = s\<lparr>ss_sparse := clear_sparse (ss_dense s) (ss_sparse s), ss_dense := []\<rparr>"

definition ss_size :: "'k sparse_set \<Rightarrow> nat" where
  "ss_size s = length (ss_dense s)"

definition ss_empty :: "'k sparse_set \<Rightarrow> bool" where
  "ss_empty s \<longleftrightarrow> ss_dense s = []"

definition ss_key_capacity :: "'k sparse_set \<Rightarrow> nat" where
  "ss_key_capacity s = length (ss_sparse s)"

definition ss_swap :: "'k sparse_set \<Rightarrow> 'k sparse_set \<Rightarrow> 'k sparse_set \<times> 'k sparse_set" where
  "ss_swap a b =
     (a\<lparr>ss_sparse := ss_sparse b, ss_dense := ss_dense b\<rparr>, b\<lparr>ss_sparse := ss_sparse a, ss_dense := ss_dense a\<rparr>)"

definition ss_keys :: "'k sparse_set \<Rightarrow> 'k list" where
  "ss_keys s = ss_dense s"

subsection \<open>Well-formed sets\<close>

text \<open>Every dense key finds its own position through the sparse array. What the sparse array holds
  for other keys does not matter.\<close>

definition ss_wf :: "'k::len word sparse_set \<Rightarrow> bool" where
  "ss_wf s \<longleftrightarrow> (\<forall>i < length (ss_dense s). unat (ss_dense s ! i) < length (ss_sparse s) \<and> ss_sparse s ! unat (ss_dense s ! i) = i)"

lemma ss_default_wf [simp]: "ss_wf ss_default" "ss_dense ss_default = []"
  by (simp_all add: ss_wf_def ss_default_def)

lemma ss_distinct: "ss_wf s \<Longrightarrow> distinct (ss_dense s)"
  by (auto simp: distinct_conv_nth ss_wf_def) metis

lemma ss_contains_iff: "ss_wf s \<Longrightarrow> ss_contains s k \<longleftrightarrow> k \<in> set (ss_dense s)"
  by (auto simp: ss_contains_def ss_wf_def in_set_conv_nth Let_def)

lemma ss_index_of_iff:
  "ss_wf s \<Longrightarrow> ss_index_of s k = Some i \<longleftrightarrow> i < length (ss_dense s) \<and> ss_dense s ! i = k"
  by (auto simp: ss_index_of_def ss_contains_def ss_wf_def Let_def)

lemma ss_index_of_None: "ss_wf s \<Longrightarrow> ss_index_of s k = None \<longleftrightarrow> k \<notin> set (ss_dense s)"
  by (simp add: ss_index_of_def ss_contains_iff)

lemma resize_list_grown: "length xs \<le> n \<Longrightarrow> resize_list n x xs = xs @ replicate (n - length xs) x"
  by (simp add: resize_list_def)

lemma ss_wf_grown: "ss_wf s \<Longrightarrow> ss_wf (s\<lparr>ss_sparse := ss_sparse s @ xs\<rparr>)"
  by (auto simp: ss_wf_def nth_append)

lemma ss_reserve_wf: "ss_wf s \<Longrightarrow> ss_wf (ss_reserve m n s) \<and> ss_dense (ss_reserve m n s) = ss_dense s"
  by (simp add: ss_reserve_def resize_list_grown ss_wf_grown)

lemma ensure_sparse_capacity_wf:
  assumes "ss_wf s"
  shows "ss_wf (ensure_sparse_capacity k s)" and "ss_dense (ensure_sparse_capacity k s) = ss_dense s"
    and "unat k < length (ss_sparse (ensure_sparse_capacity k s))"
  using assms by (auto simp: ensure_sparse_capacity_def Let_def resize_list_grown ss_wf_grown)

lemma ss_insert_ok:
  assumes wf: "ss_wf s" and k: "unat k \<noteq> 2 ^ 64 - 1"
  shows "fst (ss_insert k s) \<longleftrightarrow> k \<notin> set (ss_dense s)" and "ss_wf (snd (ss_insert k s))"
    and "ss_dense (snd (ss_insert k s)) = (if k \<in> set (ss_dense s) then ss_dense s else ss_dense s @ [k])"
proof -
  show "fst (ss_insert k s) \<longleftrightarrow> k \<notin> set (ss_dense s)"
    and "ss_dense (snd (ss_insert k s)) = (if k \<in> set (ss_dense s) then ss_dense s else ss_dense s @ [k])"
    using wf k by (simp_all add: ss_insert_def ss_contains_iff Let_def ensure_sparse_capacity_wf)
  have "ss_wf (s1\<lparr>ss_sparse := (ss_sparse s1)[unat k := length (ss_dense s1)], ss_dense := ss_dense s1 @ [k]\<rparr>)"
    if "ss_wf s1" "unat k < length (ss_sparse s1)" "k \<notin> set (ss_dense s1)" for s1
    using that by (auto simp: ss_wf_def nth_append nth_list_update less_Suc_eq word_unat_eq_iff [symmetric])
  from this [OF ensure_sparse_capacity_wf(1,3) [OF wf, of k]] wf show "ss_wf (snd (ss_insert k s))"
    by (auto simp: ss_insert_def ss_contains_iff Let_def ensure_sparse_capacity_wf(2) [OF wf])
qed

lemma ss_insert_max: "ss_wf s \<Longrightarrow> unat k = 2 ^ 64 - 1 \<Longrightarrow> ss_insert k s = (False, s)"
  by (simp add: ss_insert_def)

lemma ss_erase_absent: "ss_wf s \<Longrightarrow> k \<notin> set (ss_dense s) \<Longrightarrow> ss_erase k s = (False, s)"
  by (simp add: ss_erase_def ss_contains_iff)

lemma ss_erase_at:
  assumes wf: "ss_wf s" and i: "i < length (ss_dense s)" and k: "ss_dense s ! i = k"
  shows "fst (ss_erase k s)" and "ss_wf (snd (ss_erase k s))" and "ss_dense (snd (ss_erase k s)) = swap_remove i (ss_dense s)"
proof -
  let ?d = "ss_dense s" and ?l = "ss_dense s ! (length (ss_dense s) - 1)"
  have c: "ss_contains s k" "ss_sparse s ! unat k = i" using wf i k by (auto simp: ss_contains_iff ss_wf_def)
  have ne: "?d \<noteq> []" using i by auto
  then have l: "last ?d = ?l" by (simp add: last_conv_nth)
  have s1: "snd (ss_erase k s) = s\<lparr>ss_dense := swap_remove i ?d,
      ss_sparse := ((ss_sparse s)[unat ?l := i])[unat k := invalid_index]\<rparr>"
  proof (cases "i = length ?d - 1")
    case True
    then have "?l = k" using k by simp
    with True c k l show ?thesis by (simp add: ss_erase_def Let_def swap_remove_def butlast_list_update)
  next
    case False
    with c l show ?thesis by (simp add: ss_erase_def Let_def swap_remove_def)
  qed
  show "fst (ss_erase k s)" using c by (simp add: ss_erase_def Let_def)
  show d: "ss_dense (snd (ss_erase k s)) = swap_remove i ?d" by (simp add: s1)
  have dist: "distinct ?d" using wf by (rule ss_distinct)
  show "ss_wf (snd (ss_erase k s))"
    unfolding ss_wf_def s1
  proof (intro allI impI)
    fix j assume "j < length (ss_dense (s\<lparr>ss_dense := swap_remove i ?d,
      ss_sparse := ((ss_sparse s)[unat ?l := i])[unat k := invalid_index]\<rparr>))"
    then have j: "j < length ?d - 1" using i by simp
    have dj: "swap_remove i ?d ! j = (if j = i then ?l else ?d ! j)"
      using j i l by (simp add: swap_remove_def nth_butlast)
    have jk: "swap_remove i ?d ! j \<noteq> k"
      using dj j i k dist by (auto simp: nth_eq_iff_index_eq)
    have jl: "j \<noteq> i \<Longrightarrow> ?d ! j \<noteq> ?l" using j i dist by (auto simp: nth_eq_iff_index_eq)
    show "unat (ss_dense (s\<lparr>ss_dense := swap_remove i ?d, ss_sparse := ((ss_sparse s)[unat ?l := i])[unat k := invalid_index]\<rparr>) ! j)
        < length (ss_sparse (s\<lparr>ss_dense := swap_remove i ?d, ss_sparse := ((ss_sparse s)[unat ?l := i])[unat k := invalid_index]\<rparr>)) \<and>
      ss_sparse (s\<lparr>ss_dense := swap_remove i ?d, ss_sparse := ((ss_sparse s)[unat ?l := i])[unat k := invalid_index]\<rparr>) !
        unat (ss_dense (s\<lparr>ss_dense := swap_remove i ?d, ss_sparse := ((ss_sparse s)[unat ?l := i])[unat k := invalid_index]\<rparr>) ! j) = j"
      using wf j i jk jl dj by (auto simp: ss_wf_def word_unat_eq_iff [symmetric] nth_list_update)
  qed
qed

lemma ss_erase_ok:
  assumes "ss_wf s"
  shows "fst (ss_erase k s) \<longleftrightarrow> k \<in> set (ss_dense s)" and "ss_wf (snd (ss_erase k s))"
    and "set (ss_dense (snd (ss_erase k s))) = set (ss_dense s) - {k}"
proof -
  have *: "(fst (ss_erase k s) \<longleftrightarrow> k \<in> set (ss_dense s)) \<and> ss_wf (snd (ss_erase k s)) \<and>
    set (ss_dense (snd (ss_erase k s))) = set (ss_dense s) - {k}"
  proof (cases "k \<in> set (ss_dense s)")
    case True
    then obtain i where i: "i < length (ss_dense s)" "ss_dense s ! i = k" by (auto simp: in_set_conv_nth)
    have "set (swap_remove i (ss_dense s)) = set (ss_dense s) - {k}"
      using set_swap_remove(1) [OF i(1), of id] ss_distinct [OF assms] i(2) by auto
    with ss_erase_at [OF assms i] True show ?thesis by simp
  qed (simp add: ss_erase_absent assms)
  then show "fst (ss_erase k s) \<longleftrightarrow> k \<in> set (ss_dense s)" and "ss_wf (snd (ss_erase k s))"
    and "set (ss_dense (snd (ss_erase k s))) = set (ss_dense s) - {k}" by auto
qed

lemma ss_clear_wf [simp]: "ss_wf (ss_clear s)" "ss_dense (ss_clear s) = []"
  by (simp_all add: ss_wf_def ss_clear_def)

lemma ss_find_iff:
  assumes "ss_wf s"
  shows "ss_find s k = ss_end s \<longleftrightarrow> k \<notin> set (ss_dense s)" and "k \<in> set (ss_dense s) \<Longrightarrow> ss_dense s ! ss_find s k = k"
proof -
  show "ss_find s k = ss_end s \<longleftrightarrow> k \<notin> set (ss_dense s)"
    using ss_index_of_iff [OF assms] ss_index_of_None [OF assms]
    by (auto simp: ss_find_def ss_end_def split: option.splits)
  show "ss_dense s ! ss_find s k = k" if k: "k \<in> set (ss_dense s)"
  proof -
    obtain i where i: "ss_index_of s k = Some i" using ss_index_of_None [OF assms, of k] k by auto
    with iffD1 [OF ss_index_of_iff [OF assms] i] show ?thesis by (simp add: ss_find_def)
  qed
qed

end
