(* ===== verification/Dense_Map.thy ===== *)
theory Dense_Map
  imports Sparse_Set Keyed_Map
begin

text \<open>
  The map from unsigned keys to values of \<open>container/dense_map.hpp\<close>: a sparse set of the keys and,
  parallel to its dense array, an array of the values. The abstract view is the partial map
  \<open>dm_get\<close>; for the keys a 32-bit word can hold it obeys \<open>keyed_map\<close>. The class ignores the result of
  \<open>sparse_set::insert\<close>, so the largest 64-bit key, which the set refuses, puts the two arrays out of
  step: \<open>dense_map_max_key\<close>.
\<close>

subsection \<open>The code\<close>

record ('k, 'v) dense_map =
  dm_set :: "'k sparse_set"
  dm_values :: "'v list"

definition dm_default :: "('k, 'v) dense_map" where
  "dm_default = \<lparr>dm_set = ss_default, dm_values = []\<rparr>"

definition dm_reserve :: "nat \<Rightarrow> nat \<Rightarrow> ('k, 'v) dense_map \<Rightarrow> ('k, 'v) dense_map" where
  "dm_reserve key_count dense_count m = m\<lparr>dm_set := ss_reserve key_count dense_count (dm_set m)\<rparr>"

definition dm_insert :: "'k::len word \<Rightarrow> 'v \<Rightarrow> ('k word, 'v) dense_map \<Rightarrow> bool \<times> ('k word, 'v) dense_map" where
  "dm_insert k v m =
     (if ss_contains (dm_set m) k then (False, m)
      else (True, m\<lparr>dm_set := snd (ss_insert k (dm_set m)), dm_values := dm_values m @ [v]\<rparr>))"

definition dm_insert_or_assign :: "'k::len word \<Rightarrow> 'v \<Rightarrow> ('k word, 'v) dense_map \<Rightarrow> bool \<times> ('k word, 'v) dense_map" where
  "dm_insert_or_assign k v m =
     (case ss_index_of (dm_set m) k of
        Some pos \<Rightarrow> (False, m\<lparr>dm_values := (dm_values m)[pos := v]\<rparr>)
      | None \<Rightarrow> (True, m\<lparr>dm_set := snd (ss_insert k (dm_set m)), dm_values := dm_values m @ [v]\<rparr>))"

definition dm_emplace :: "'k::len word \<Rightarrow> 'v \<Rightarrow> ('k word, 'v) dense_map \<Rightarrow> bool \<times> ('k word, 'v) dense_map" where
  "dm_emplace k v m =
     (if ss_contains (dm_set m) k then (False, m)
      else (True, m\<lparr>dm_set := snd (ss_insert k (dm_set m)), dm_values := dm_values m @ [v]\<rparr>))"

definition dm_erase :: "'k::len word \<Rightarrow> ('k word, 'v) dense_map \<Rightarrow> bool \<times> ('k word, 'v) dense_map" where
  "dm_erase k m =
     (case ss_index_of (dm_set m) k of
        None \<Rightarrow> (False, m)
      | Some pos \<Rightarrow>
          let last_pos = length (dm_values m) - 1;
              vs = (if pos \<noteq> last_pos then (dm_values m)[pos := dm_values m ! last_pos] else dm_values m)
          in (True, m\<lparr>dm_values := butlast vs, dm_set := snd (ss_erase k (dm_set m))\<rparr>))"

definition dm_contains :: "('k::len word, 'v) dense_map \<Rightarrow> 'k word \<Rightarrow> bool" where
  "dm_contains m k = ss_contains (dm_set m) k"

definition dm_count :: "('k::len word, 'v) dense_map \<Rightarrow> 'k word \<Rightarrow> nat" where
  "dm_count m k = (if dm_contains m k then 1 else 0)"

text \<open>What the pointer returned by \<open>at\<close> points to, \<open>None\<close> for a null pointer.\<close>

definition dm_at :: "('k::len word, 'v) dense_map \<Rightarrow> 'k word \<Rightarrow> 'v option" where
  "dm_at m k = (case ss_index_of (dm_set m) k of Some pos \<Rightarrow> Some (dm_values m ! pos) | None \<Rightarrow> None)"

definition dm_index_of :: "('k::len word, 'v) dense_map \<Rightarrow> 'k word \<Rightarrow> nat option" where
  "dm_index_of m k = ss_index_of (dm_set m) k"

definition dm_clear :: "('k::len word, 'v) dense_map \<Rightarrow> ('k word, 'v) dense_map" where
  "dm_clear m = m\<lparr>dm_set := ss_clear (dm_set m), dm_values := []\<rparr>"

definition dm_size :: "('k, 'v) dense_map \<Rightarrow> nat" where
  "dm_size m = length (dm_values m)"

definition dm_empty :: "('k, 'v) dense_map \<Rightarrow> bool" where
  "dm_empty m \<longleftrightarrow> dm_values m = []"

definition dm_swap :: "('k, 'v) dense_map \<Rightarrow> ('k, 'v) dense_map \<Rightarrow> ('k, 'v) dense_map \<times> ('k, 'v) dense_map" where
  "dm_swap a b = (let (sa, sb) = ss_swap (dm_set a) (dm_set b) in
     (a\<lparr>dm_set := sa, dm_values := dm_values b\<rparr>, b\<lparr>dm_set := sb, dm_values := dm_values a\<rparr>))"

text \<open>An iterator is a position; it yields the key and the value there.\<close>

definition dm_end :: "('k, 'v) dense_map \<Rightarrow> nat" where
  "dm_end m = length (dm_values m)"

definition dm_find :: "('k::len word, 'v) dense_map \<Rightarrow> 'k word \<Rightarrow> nat" where
  "dm_find m k = (case ss_index_of (dm_set m) k of Some pos \<Rightarrow> pos | None \<Rightarrow> dm_end m)"

definition dm_deref :: "('k, 'v) dense_map \<Rightarrow> nat \<Rightarrow> 'k \<times> 'v" where
  "dm_deref m pos = (ss_keys (dm_set m) ! pos, dm_values m ! pos)"

subsection \<open>Well-formed maps\<close>

definition dm_wf :: "('k::len word, 'v) dense_map \<Rightarrow> bool" where
  "dm_wf m \<longleftrightarrow> ss_wf (dm_set m) \<and> length (dm_values m) = length (ss_dense (dm_set m))"

lemma dm_default_wf [simp]: "dm_wf dm_default" "dm_at dm_default = Map.empty"
  by (auto simp: dm_wf_def dm_default_def dm_at_def ss_index_of_def ss_contains_iff)

lemma dm_at_Some:
  assumes "dm_wf m"
  shows "dm_at m k = Some v \<longleftrightarrow> (k, v) \<in> set (zip (ss_dense (dm_set m)) (dm_values m))"
proof -
  have "dm_at m k = Some v \<longleftrightarrow> (\<exists>i. ss_index_of (dm_set m) k = Some i \<and> dm_values m ! i = v)"
    by (auto simp: dm_at_def split: option.splits)
  with assms show ?thesis by (auto simp: dm_wf_def ss_index_of_iff in_set_zip)
qed

lemma dm_at_None: "dm_wf m \<Longrightarrow> dm_at m k = None \<longleftrightarrow> k \<notin> set (ss_dense (dm_set m))"
  using ss_index_of_None [of "dm_set m" k] by (cases "ss_index_of (dm_set m) k") (simp_all add: dm_at_def dm_wf_def)

lemma dm_contains_iff: "dm_wf m \<Longrightarrow> dm_contains m k \<longleftrightarrow> dm_at m k \<noteq> None"
  by (simp add: dm_at_None dm_contains_def dm_wf_def ss_contains_iff)

text \<open>The map as an association list: the operations on the two arrays are one operation on it.\<close>

abbreviation dm_items :: "('k, 'v) dense_map \<Rightarrow> ('k \<times> 'v) list" where
  "dm_items m \<equiv> zip (ss_dense (dm_set m)) (dm_values m)"

lemma dm_at_eqI:
  assumes "dm_wf m'" and "\<And>j v. (j, v) \<in> set (dm_items m') \<longleftrightarrow> f j = Some v"
  shows "dm_at m' = f"
proof
  fix j
  have "dm_at m' j = Some v \<longleftrightarrow> f j = Some v" for v
    by (simp only: dm_at_Some [OF assms(1)] assms(2))
  then show "dm_at m' j = f j" by (metis not_Some_eq)
qed

lemma dm_push_ok:
  fixes v :: 'v
  assumes wf: "dm_wf m" and k: "unat k \<noteq> 2 ^ 64 - 1" and new: "k \<notin> set (ss_dense (dm_set m))"
  defines "m' \<equiv> m\<lparr>dm_set := snd (ss_insert k (dm_set m)), dm_values := dm_values m @ [v]\<rparr>"
  shows "dm_wf m'" and "dm_at m' = (dm_at m)(k \<mapsto> v)"
proof -
  have sw: "ss_wf (dm_set m)" using wf by (simp add: dm_wf_def)
  note ins = ss_insert_ok [OF sw k]
  show wf': "dm_wf m'" using wf ins new by (simp add: m'_def dm_wf_def)
  have items: "dm_items m' = dm_items m @ [(k, v)]" using ins(3) new wf by (simp add: m'_def dm_wf_def)
  have "(k, w) \<notin> set (dm_items m)" for w using new by (auto dest: set_zip_leftD)
  then show "dm_at m' = (dm_at m)(k \<mapsto> v)"
    by (intro dm_at_eqI [OF wf']) (auto simp: items dm_at_Some [OF wf])
qed

lemma dm_insert_ok:
  assumes wf: "dm_wf m" and k: "unat k \<noteq> 2 ^ 64 - 1"
  shows "fst (dm_insert k v m) \<longleftrightarrow> dm_at m k = None" and "dm_wf (snd (dm_insert k v m))"
    and "dm_at (snd (dm_insert k v m)) = (if dm_at m k = None then (dm_at m)(k \<mapsto> v) else dm_at m)"
  using dm_push_ok [OF wf k] dm_at_None [OF wf, of k] wf
  by (auto simp: dm_insert_def ss_contains_iff dm_wf_def [of m])

lemma zip_swap_remove:
  "i < length xs \<Longrightarrow> length xs = length ys \<Longrightarrow> zip (swap_remove i xs) (swap_remove i ys) = swap_remove i (zip xs ys)"
  by (cases "xs = []"; cases "ys = []"; cases "zip xs ys = []")
    (auto intro!: nth_equalityI simp: swap_remove_def nth_butlast last_conv_nth nth_list_update)

lemma dm_erase_ok:
  assumes wf: "dm_wf m"
  shows "fst (dm_erase k m) \<longleftrightarrow> dm_at m k \<noteq> None" and "dm_wf (snd (dm_erase k m))"
    and "dm_at (snd (dm_erase k m)) = (dm_at m)(k := None)"
proof -
  have sw: "ss_wf (dm_set m)" and len: "length (dm_values m) = length (ss_dense (dm_set m))"
    using wf by (auto simp: dm_wf_def)
  show "fst (dm_erase k m) \<longleftrightarrow> dm_at m k \<noteq> None"
    by (simp add: dm_erase_def dm_at_def Let_def split: option.splits)
  have "dm_wf (snd (dm_erase k m)) \<and> dm_at (snd (dm_erase k m)) = (dm_at m)(k := None)"
  proof (cases "ss_index_of (dm_set m) k")
    case None
    then show ?thesis using wf by (auto simp: dm_erase_def dm_at_def)
  next
    case (Some i)
    then have i: "i < length (ss_dense (dm_set m))" "ss_dense (dm_set m) ! i = k" using sw by (auto simp: ss_index_of_iff)
    note er = ss_erase_at [OF sw i]
    let ?m = "m\<lparr>dm_values := swap_remove i (dm_values m), dm_set := snd (ss_erase k (dm_set m))\<rparr>"
    have "dm_values m \<noteq> []" using i len by auto
    then have m': "snd (dm_erase k m) = ?m"
      using Some by (simp add: dm_erase_def Let_def swap_remove_def last_conv_nth butlast_list_update)
    have wf': "dm_wf ?m" using er i len by (simp add: dm_wf_def)
    have items: "dm_items ?m = swap_remove i (dm_items m)" using er(3) i len by (simp add: zip_swap_remove)
    have "distinct (map fst (dm_items m))" using ss_distinct [OF sw] len by simp
    from set_swap_remove(1) [OF _ this, of i] i len
    have "set (dm_items ?m) = {x \<in> set (dm_items m). fst x \<noteq> k}" unfolding items by simp
    then have "dm_at ?m = (dm_at m)(k := None)"
      by (intro dm_at_eqI [OF wf']) (auto simp: dm_at_Some [OF wf])
    with wf' m' show ?thesis by simp
  qed
  then show "dm_wf (snd (dm_erase k m))" and "dm_at (snd (dm_erase k m)) = (dm_at m)(k := None)" by auto
qed

lemma dm_insert_or_assign_ok:
  assumes wf: "dm_wf m" and k: "unat k \<noteq> 2 ^ 64 - 1"
  shows "fst (dm_insert_or_assign k v m) \<longleftrightarrow> dm_at m k = None" and "dm_wf (snd (dm_insert_or_assign k v m))"
    and "dm_at (snd (dm_insert_or_assign k v m)) = (dm_at m)(k \<mapsto> v)"
proof -
  have sw: "ss_wf (dm_set m)" and len: "length (dm_values m) = length (ss_dense (dm_set m))"
    using wf by (auto simp: dm_wf_def)
  show "fst (dm_insert_or_assign k v m) \<longleftrightarrow> dm_at m k = None"
    by (simp add: dm_insert_or_assign_def dm_at_def split: option.splits)
  have "dm_wf (snd (dm_insert_or_assign k v m)) \<and> dm_at (snd (dm_insert_or_assign k v m)) = (dm_at m)(k \<mapsto> v)"
  proof (cases "ss_index_of (dm_set m) k")
    case None
    with dm_push_ok [OF wf k, of v] iffD1 [OF ss_index_of_None [OF sw] None]
    show ?thesis by (simp add: dm_insert_or_assign_def)
  next
    case (Some i)
    let ?m = "m\<lparr>dm_values := (dm_values m)[i := v]\<rparr>"
    from Some have i: "i < length (dm_values m)" "ss_dense (dm_set m) ! i = k" using sw len by (auto simp: ss_index_of_iff)
    have "dm_at ?m = (dm_at m)(k \<mapsto> v)"
    proof
      fix j
      show "dm_at ?m j = ((dm_at m)(k \<mapsto> v)) j"
      proof (cases "ss_index_of (dm_set m) j")
        case None
        with Some show ?thesis by (auto simp: dm_at_def)
      next
        case (Some l)
        from iffD1 [OF ss_index_of_iff [OF sw] Some] \<open>ss_index_of (dm_set m) k = Some i\<close> i Some
        show ?thesis by (cases "j = k") (auto simp: dm_at_def nth_list_update)
      qed
    qed
    then show ?thesis using wf Some by (simp add: dm_insert_or_assign_def dm_wf_def)
  qed
  then show "dm_wf (snd (dm_insert_or_assign k v m))" and "dm_at (snd (dm_insert_or_assign k v m)) = (dm_at m)(k \<mapsto> v)"
    by auto
qed

lemma dm_clear_ok [simp]: "dm_wf (dm_clear m)" "dm_at (dm_clear m) = Map.empty"
  by (auto simp: dm_wf_def dm_clear_def dm_at_def ss_index_of_def ss_contains_iff)

text \<open>Iterating from the first position to the end visits every entry once.\<close>

lemma dm_entries:
  assumes "dm_wf m"
  shows "map (dm_deref m) [0..<dm_end m] = dm_items m" and "map_of (dm_items m) = dm_at m"
proof -
  show "map (dm_deref m) [0..<dm_end m] = dm_items m"
    using assms by (intro nth_equalityI) (auto simp: dm_end_def dm_deref_def ss_keys_def dm_wf_def)
  have "distinct (map fst (dm_items m))" using assms by (simp add: dm_wf_def ss_distinct)
  from map_of_eq_Some_iff [OF this] show "map_of (dm_items m) = dm_at m"
    by (intro dm_at_eqI [OF assms, symmetric]) simp
qed

text \<open>With 32-bit keys the map obeys the interface of a map container.\<close>

lemma unat_u32_small: "unat (k :: u32) \<noteq> 2 ^ 64 - 1"
  using unsigned_less [of k, where ?'a = nat] by simp

interpretation dense: keyed_map dm_wf dm_at "\<lambda>(k :: u32) v m. Some (dm_insert k v m)" "\<lambda>k m. Some (dm_erase k m)"
  by unfold_locales (simp_all add: prod_eq_iff dm_insert_ok [OF _ unat_u32_small] dm_erase_ok)

text \<open>The largest 64-bit key: the insertion reports success and stores the value, but the key stays
  absent, and the next key inserted is given the value of the refused one.\<close>

lemma dense_map_max_key:
  fixes max_key :: u64
  defines "max_key \<equiv> 2 ^ 64 - 1"
  shows "let (b, m) = dm_insert max_key CHR ''a'' dm_default; (c, m') = dm_insert 5 CHR ''b'' m
    in b \<and> c \<and> \<not> dm_contains m max_key \<and> dm_size m = 1 \<and> dm_at m' 5 = Some CHR ''a''"
  by (simp add: max_key_def dm_insert_def dm_default_def ss_default_def ss_insert_def ss_contains_def dm_contains_def
      dm_size_def dm_at_def ss_index_of_def ensure_sparse_capacity_def resize_list_def Let_def)

end
