(* ===== verification/Component_Pool.thy ===== *)
theory Component_Pool
  imports Keyed_Map
begin

text \<open>
  The storage of one component type, \<open>ecs/component_pool.hpp\<close>: a sparse array maps an entity index to
  one plus the number of its slot, the slots never move, and a free stack holds the vacated ones. The
  abstract view is the partial map \<open>cp_try_get\<close>. \<open>component_table\<close> is the interface the registry uses
  through the function pointers of \<open>erased_storage\<close> and the typed storages.
\<close>

subsection \<open>The code\<close>

record 'c pool =
  cp_sparse :: "u32 list"
  cp_slots :: "(u32 \<times> 'c) option list"
  cp_free :: "nat list"
  cp_size :: nat

definition cp_default :: "'c pool" where
  "cp_default = \<lparr>cp_sparse = [], cp_slots = [], cp_free = [], cp_size = 0\<rparr>"

definition cp_slot_of :: "'c pool \<Rightarrow> u32 \<Rightarrow> nat" where
  "cp_slot_of p key =
     (if length (cp_sparse p) \<le> unat key \<or> cp_sparse p ! unat key = 0 then length (cp_slots p)
      else unat (cp_sparse p ! unat key - 1))"

text \<open>Writing through a pointer to the component in a slot.\<close>

definition cp_write :: "nat \<Rightarrow> ('c \<Rightarrow> 'c) \<Rightarrow> 'c pool \<Rightarrow> 'c pool" where
  "cp_write slot f p = p\<lparr>cp_slots := (cp_slots p)[slot := map_option (map_prod id f) (cp_slots p ! slot)]\<rparr>"

text \<open>That a new slot number fits the key type is a debug assertion of the code: \<open>cp_slot_fits\<close>.\<close>

definition cp_insert_or_assign :: "u32 \<Rightarrow> 'c \<Rightarrow> 'c pool \<Rightarrow> bool \<times> 'c pool" where
  "cp_insert_or_assign key v p =
     (let slot = cp_slot_of p key
      in if slot \<noteq> length (cp_slots p) then (False, cp_write slot (\<lambda>_. v) p)
      else
        let p1 = (if length (cp_sparse p) \<le> unat key then p\<lparr>cp_sparse := resize_list (unat key + 1) 0 (cp_sparse p)\<rparr> else p)
        in if cp_free p1 \<noteq> [] then
             let slot = last (cp_free p1)
             in (True, p1\<lparr>cp_sparse := (cp_sparse p1)[unat key := of_nat slot + 1],
                  cp_slots := (cp_slots p1)[slot := Some (key, v)],
                  cp_free := butlast (cp_free p1), cp_size := cp_size p1 + 1\<rparr>)
           else
             let slot = length (cp_slots p1)
             in (True, p1\<lparr>cp_sparse := (cp_sparse p1)[unat key := of_nat slot + 1],
                  cp_slots := cp_slots p1 @ [Some (key, v)], cp_size := cp_size p1 + 1\<rparr>))"

definition cp_erase :: "u32 \<Rightarrow> 'c pool \<Rightarrow> bool \<times> 'c pool" where
  "cp_erase key p =
     (let slot = cp_slot_of p key
      in if slot = length (cp_slots p) then (False, p)
      else (True, p\<lparr>cp_sparse := (cp_sparse p)[unat key := 0], cp_slots := (cp_slots p)[slot := None],
             cp_free := cp_free p @ [slot], cp_size := cp_size p - 1\<rparr>))"

definition cp_try_get :: "'c pool \<Rightarrow> u32 \<Rightarrow> 'c option" where
  "cp_try_get p key =
     (let slot = cp_slot_of p key in if slot = length (cp_slots p) then None else map_option snd (cp_slots p ! slot))"

definition cp_contains :: "'c pool \<Rightarrow> u32 \<Rightarrow> bool" where
  "cp_contains p key \<longleftrightarrow> unat key < length (cp_sparse p) \<and> cp_sparse p ! unat key \<noteq> 0"

definition cp_empty :: "'c pool \<Rightarrow> bool" where
  "cp_empty p \<longleftrightarrow> cp_size p = 0"

definition cp_clear :: "'c pool \<Rightarrow> 'c pool" where
  "cp_clear p = p\<lparr>cp_sparse := map (\<lambda>_. 0) (cp_sparse p), cp_slots := [], cp_free := [], cp_size := 0\<rparr>"

definition cp_slot_count :: "'c pool \<Rightarrow> nat" where
  "cp_slot_count p = length (cp_slots p)"

definition cp_is_live :: "'c pool \<Rightarrow> nat \<Rightarrow> bool" where
  "cp_is_live p slot \<longleftrightarrow> cp_slots p ! slot \<noteq> None"

definition cp_key_at :: "'c pool \<Rightarrow> nat \<Rightarrow> u32" where
  "cp_key_at p slot = fst (the (cp_slots p ! slot))"

definition cp_value_at :: "'c pool \<Rightarrow> nat \<Rightarrow> 'c" where
  "cp_value_at p slot = snd (the (cp_slots p ! slot))"

text \<open>The advance loop of the iterators: to the next position that passes, or to the end.\<close>

function advance_to :: "(nat \<Rightarrow> bool) \<Rightarrow> nat \<Rightarrow> nat \<Rightarrow> nat" where
  "advance_to p n pos = (if pos < n \<and> \<not> p pos then advance_to p n (pos + 1) else pos)"
  by pat_completeness auto

termination by (relation "measure (\<lambda>(p, n, pos). n - pos)") auto

declare advance_to.simps [simp del]

definition values_begin :: "'c pool \<Rightarrow> nat" where
  "values_begin p = advance_to (cp_is_live p) (cp_slot_count p) 0"

definition values_next :: "'c pool \<Rightarrow> nat \<Rightarrow> nat" where
  "values_next p pos = advance_to (cp_is_live p) (cp_slot_count p) (pos + 1)"

definition values_end :: "'c pool \<Rightarrow> nat" where
  "values_end p = cp_slot_count p"

subsection \<open>Iteration\<close>

text \<open>A range-based for loop with such an iterator: the positions it stops at.\<close>

partial_function (option) walk_to :: "(nat \<Rightarrow> bool) \<Rightarrow> nat \<Rightarrow> nat \<Rightarrow> nat list option" where
  "walk_to p n pos =
     (if pos = n then Some []
      else Option.bind (walk_to p n (advance_to p n (pos + 1))) (\<lambda>ps. Some (pos # ps)))"

declare walk_to.simps [code]

lemma walk_to_filter: "pos \<le> n \<Longrightarrow> walk_to p n (advance_to p n pos) = Some (filter p [pos..<n])"
proof (induction "n - pos" arbitrary: pos)
  case 0
  then have "pos = n" by simp
  then show ?case by (subst advance_to.simps, subst walk_to.simps) simp
next
  case (Suc d)
  then have pos: "pos < n" by simp
  have IH: "walk_to p n (advance_to p n (Suc pos)) = Some (filter p [Suc pos..<n])"
    using Suc.hyps(1) [of "Suc pos"] Suc.hyps(2) pos by simp
  have up: "[pos..<n] = pos # [Suc pos..<n]" using pos by (rule upt_conv_Cons)
  show ?case
  proof (cases "p pos")
    case True
    then have "advance_to p n pos = pos" by (subst advance_to.simps) simp
    with True pos IH up show ?thesis by (simp add: walk_to.simps [of p n pos])
  next
    case False
    then have "advance_to p n pos = advance_to p n (Suc pos)" using pos by (subst advance_to.simps) simp
    with False IH up show ?thesis by simp
  qed
qed

subsection \<open>Well-formed pools\<close>

abbreviation cp_live :: "'c pool \<Rightarrow> nat set" where
  "cp_live p \<equiv> {s. s < length (cp_slots p) \<and> cp_slots p ! s \<noteq> None}"

text \<open>The sparse array and the live slots are inverse to each other, the free stack holds the vacant
  slots, and no slot belongs to the largest index, which the registry never hands out.\<close>

definition cp_wf :: "'c pool \<Rightarrow> bool" where
  "cp_wf p \<longleftrightarrow>
     (\<forall>k. cp_contains p k \<longrightarrow> cp_slot_of p k < length (cp_slots p) \<and> k \<noteq> - 1 \<and>
        (\<exists>v. cp_slots p ! cp_slot_of p k = Some (k, v))) \<and>
     (\<forall>s < length (cp_slots p). \<forall>k v. cp_slots p ! s = Some (k, v) \<longrightarrow> cp_contains p k \<and> cp_slot_of p k = s) \<and>
     distinct (cp_free p) \<and> set (cp_free p) = {s. s < length (cp_slots p) \<and> cp_slots p ! s = None} \<and>
     cp_size p = card (cp_live p) \<and> length (cp_slots p) < 2 ^ 32"

lemma cp_wfD:
  assumes "cp_wf p"
  shows "cp_contains p k \<Longrightarrow> cp_slot_of p k < length (cp_slots p)" and "cp_contains p k \<Longrightarrow> k \<noteq> - 1"
    and "cp_contains p k \<Longrightarrow> \<exists>v. cp_slots p ! cp_slot_of p k = Some (k, v)"
    and "s < length (cp_slots p) \<Longrightarrow> cp_slots p ! s = Some (k, v) \<Longrightarrow> cp_contains p k \<and> cp_slot_of p k = s"
    and "distinct (cp_free p)" and "s \<in> set (cp_free p) \<longleftrightarrow> s < length (cp_slots p) \<and> cp_slots p ! s = None"
    and "cp_size p = card (cp_live p)" and "length (cp_slots p) < 2 ^ 32"
  using assms by (auto simp: cp_wf_def)

lemma cp_slot_absent: "\<not> cp_contains p k \<Longrightarrow> cp_slot_of p k = length (cp_slots p)"
  by (auto simp: cp_contains_def cp_slot_of_def)

lemma cp_slot_absent_iff: "cp_wf p \<Longrightarrow> cp_slot_of p k = length (cp_slots p) \<longleftrightarrow> \<not> cp_contains p k"
  using cp_slot_absent [of p k] cp_wfD(1) [of p k] by auto

lemma cp_default_wf [simp]: "cp_wf cp_default" "cp_try_get cp_default = Map.empty"
  by (auto simp: cp_wf_def cp_default_def cp_contains_def cp_try_get_def cp_slot_of_def)

lemma cp_try_get_Some:
  assumes wf: "cp_wf p"
  shows "cp_try_get p k = Some v \<longleftrightarrow> cp_contains p k \<and> cp_slots p ! cp_slot_of p k = Some (k, v)"
proof (cases "cp_contains p k")
  case True
  with cp_wfD(1,3) [OF wf] show ?thesis by (fastforce simp: cp_try_get_def Let_def)
qed (simp add: cp_try_get_def cp_slot_absent)

lemma cp_try_get_None: "cp_wf p \<Longrightarrow> cp_try_get p k = None \<longleftrightarrow> \<not> cp_contains p k"
  using cp_wfD(3) [of p k] cp_try_get_Some [of p k] by (cases "cp_try_get p k") auto

lemma cp_try_get_eq:
  assumes "cp_wf p"
  shows "cp_try_get p j = (if cp_contains p j then map_option snd (cp_slots p ! cp_slot_of p j) else None)"
  using cp_wfD(1) [OF assms, of j] cp_slot_absent [of p j] by (cases "cp_contains p j") (simp_all add: cp_try_get_def)

lemma cp_entries:
  assumes wf: "cp_wf p"
  shows "cp_try_get p k = Some v \<longleftrightarrow> Some (k, v) \<in> set (cp_slots p)"
proof
  assume "cp_try_get p k = Some v"
  then show "Some (k, v) \<in> set (cp_slots p)"
    using cp_wfD(1) [OF wf, of k] by (metis cp_try_get_Some [OF wf] nth_mem)
next
  assume "Some (k, v) \<in> set (cp_slots p)"
  then obtain s where s: "s < length (cp_slots p)" "cp_slots p ! s = Some (k, v)" by (auto simp: in_set_conv_nth)
  with cp_wfD(4) [OF wf s] show "cp_try_get p k = Some v" by (simp add: cp_try_get_Some [OF wf])
qed

text \<open>A full pool has one slot per key, so while a key is missing the next slot number fits.\<close>

lemma cp_slot_fits:
  assumes wf: "cp_wf p" and k: "\<not> cp_contains p k" "k \<noteq> - 1" and full: "cp_free p = []"
  shows "Suc (length (cp_slots p)) < 2 ^ 32"
proof -
  let ?n = "length (cp_slots p)"
  have live: "cp_slots p ! s \<noteq> None" if "s < ?n" for s using cp_wfD(6) [OF wf, of s] full that by simp
  have entry: "cp_slots p ! s = Some (cp_key_at p s, cp_value_at p s)" if "s < ?n" for s
    using live [OF that] by (auto simp: cp_key_at_def cp_value_at_def)
  have own: "cp_contains p (cp_key_at p s) \<and> cp_slot_of p (cp_key_at p s) = s" if "s < ?n" for s
    using that entry [OF that] by (rule cp_wfD(4) [OF wf])
  have "inj_on (cp_key_at p) {..<?n}"
    by (rule inj_onI) (metis own lessThan_iff)
  moreover have "cp_key_at p s \<notin> {k, - 1}" if "s < ?n" for s
    using own [OF that] k(1) cp_wfD(2) [OF wf, of "cp_key_at p s"] by auto
  then have "cp_key_at p ` {..<?n} \<subseteq> UNIV - {k, - 1}" by auto
  ultimately have "card {..<?n} \<le> card (UNIV - {k, - 1} :: u32 set)"
    by (rule card_inj_on_le) (rule finite)
  then have "?n \<le> card (UNIV - {k, - 1} :: u32 set)" by (simp only: card_lessThan)
  also have "\<dots> = card (UNIV :: u32 set) - card {k, - 1}" by (rule card_Diff_subset) auto
  also have "\<dots> = 2 ^ 32 - 2" using k(2) by (simp add: card_word)
  finally show ?thesis by simp
qed

subsection \<open>The operations\<close>

lemma cp_slots_update:
  "length sl = length (cp_slots p) \<Longrightarrow> cp_contains (p\<lparr>cp_slots := sl\<rparr>) j = cp_contains p j"
  "length sl = length (cp_slots p) \<Longrightarrow> cp_slot_of (p\<lparr>cp_slots := sl\<rparr>) j = cp_slot_of p j"
  by (simp_all add: cp_contains_def cp_slot_of_def)

lemma cp_write_ok:
  assumes wf: "cp_wf p" and k: "cp_contains p k"
  shows "cp_wf (cp_write (cp_slot_of p k) f p)"
    and "cp_try_get (cp_write (cp_slot_of p k) f p) = (cp_try_get p)(k := map_option f (cp_try_get p k))"
    and "cp_contains (cp_write (cp_slot_of p k) f p) = cp_contains p"
proof -
  let ?s = "cp_slot_of p k" and ?p = "cp_write (cp_slot_of p k) f p"
  obtain v where v: "?s < length (cp_slots p)" "cp_slots p ! ?s = Some (k, v)" using cp_wfD(1,3) [OF wf k] by blast
  have p: "?p = p\<lparr>cp_slots := (cp_slots p)[?s := Some (k, f v)]\<rparr>" using v by (simp add: cp_write_def)
  have same: "cp_contains ?p j = cp_contains p j" "cp_slot_of ?p j = cp_slot_of p j" for j
    by (simp_all add: p cp_slots_update)
  have slots: "cp_slots ?p ! s = (if s = ?s then Some (k, f v) else cp_slots p ! s)" if "s < length (cp_slots p)" for s
    using that by (simp add: p)
  have len: "length (cp_slots ?p) = length (cp_slots p)" by (simp add: p)
  have vacant: "s < length (cp_slots p) \<Longrightarrow> cp_slots ?p ! s = None \<longleftrightarrow> cp_slots p ! s = None" for s
    using slots v by simp
  then have "cp_live ?p = cp_live p" by (simp add: len cong: conj_cong)
  then have size: "cp_size ?p = card (cp_live ?p)" using cp_wfD(7) [OF wf] by (simp only: p) simp
  have free: "cp_free ?p = cp_free p" by (simp add: p)
  have only: "j = k" if "cp_slot_of p j = ?s" "cp_contains p j" for j
    using cp_wfD(3) [OF wf that(2)] that(1) v(2) by simp
  show wf': "cp_wf ?p"
    unfolding cp_wf_def same
  proof (intro conjI allI impI)
    fix j assume j: "cp_contains p j"
    show "j \<noteq> - 1" and r: "cp_slot_of p j < length (cp_slots ?p)" unfolding len using cp_wfD(1,2) [OF wf j] by auto
    show "\<exists>w. cp_slots ?p ! cp_slot_of p j = Some (j, w)"
      using slots [OF r [unfolded len]] cp_wfD(3) [OF wf j] only [OF _ j] by (cases "cp_slot_of p j = ?s") simp_all
  next
    fix s j w assume s: "s < length (cp_slots ?p)" "cp_slots ?p ! s = Some (j, w)"
    note s = s [unfolded len]
    have "cp_contains p j \<and> cp_slot_of p j = s"
    proof (cases "s = ?s")
      case True
      with s slots k show ?thesis by simp
    next
      case False
      with s slots have "cp_slots p ! s = Some (j, w)" by simp
      with s(1) show ?thesis by (rule cp_wfD(4) [OF wf])
    qed
    then show "cp_contains p j" "cp_slot_of p j = s" by auto
  next
    show "distinct (cp_free ?p)" "length (cp_slots ?p) < 2 ^ 32" using cp_wfD(5,8) [OF wf] by (simp_all add: free len)
    show "set (cp_free ?p) = {s. s < length (cp_slots ?p) \<and> cp_slots ?p ! s = None}"
      using cp_wfD(6) [OF wf] vacant by (auto simp: free len)
  qed (rule size)
  show "cp_try_get ?p = (cp_try_get p)(k := map_option f (cp_try_get p k))"
  proof
    fix j
    show "cp_try_get ?p j = ((cp_try_get p)(k := map_option f (cp_try_get p k))) j"
    proof (cases "j = k")
      case True
      with k v slots show ?thesis by (simp add: cp_try_get_eq [OF wf] cp_try_get_eq [OF wf'] same)
    next
      case False
      then have "cp_slots ?p ! cp_slot_of p j = cp_slots p ! cp_slot_of p j" if "cp_contains p j"
      proof -
        have "cp_slot_of p j \<noteq> ?s" using only [OF _ that] False by blast
        with slots [OF cp_wfD(1) [OF wf that]] show ?thesis by (simp only: if_False)
      qed
      with False show ?thesis
        by (cases "cp_contains p j") (simp_all add: cp_try_get_eq [OF wf] cp_try_get_eq [OF wf'] same)
    qed
  qed
  show "cp_contains ?p = cp_contains p" by (rule ext) (rule same)
qed

lemma nth_update_unat: "unat k < length xs \<Longrightarrow> xs[unat k := x] ! unat j = (if j = k then x else xs ! unat j)"
  by (auto simp: nth_list_update dest: unsigned_word_eqI)

text \<open>Placing a new key into a slot that is vacant or one past the last.\<close>

lemma cp_place:
  assumes wf: "cp_wf p" and k: "\<not> cp_contains p k" "k \<noteq> - 1" "unat k < length (cp_sparse p)"
    and slot: "s < length sl" "sl ! s = Some (k, v)" "length sl < 2 ^ 32" "s \<notin> cp_live p"
      "length sl = max (Suc s) (length (cp_slots p))" "s \<le> length (cp_slots p)"
    and rest: "\<And>j. j < length (cp_slots p) \<Longrightarrow> j \<noteq> s \<Longrightarrow> sl ! j = cp_slots p ! j"
    and free: "distinct fl" "set fl = set (cp_free p) - {s}"
  defines "p' \<equiv> p\<lparr>cp_sparse := (cp_sparse p)[unat k := of_nat s + 1], cp_slots := sl, cp_free := fl, cp_size := cp_size p + 1\<rparr>"
  shows "cp_wf p'" and "cp_try_get p' = (cp_try_get p)(k \<mapsto> v)"
proof -
  have "Suc s < 2 ^ 32" using slot(1,3) by simp
  then have "unat (of_nat (Suc s) :: u32) = Suc s" by (intro unat_of_nat_less) simp
  then have code: "(of_nat s + 1 :: u32) \<noteq> 0" by (metis nat.distinct(1) of_nat_Suc add.commute unat_0)
  have un: "unat (of_nat s :: u32) = s" using slot(1,3) by (intro unat_of_nat_less) simp
  let ?sp = "(cp_sparse p)[unat k := of_nat s + 1]"
  have sparse: "?sp ! unat j = (if j = k then of_nat s + 1 else cp_sparse p ! unat j)" for j
    using k(3) by (rule nth_update_unat)
  have contains: "cp_contains p' j \<longleftrightarrow> j = k \<or> cp_contains p j" for j
    using code k(3) by (auto simp: p'_def cp_contains_def sparse)
  have slot_of: "cp_slot_of p' j = (if j = k then s else cp_slot_of p j)" if "cp_contains p' j" for j
    using that code k(3) un by (auto simp: contains) (auto simp: p'_def cp_slot_of_def cp_contains_def sparse)
  have slots: "cp_slots p' = sl" by (simp add: p'_def)
  have len: "length sl = max (Suc s) (length (cp_slots p))" by fact
  have above: "s = length (cp_slots p) \<or> s < length (cp_slots p) \<and> cp_slots p ! s = None"
    using slot(4,6) by (cases "cp_slots p ! s") auto
  have old: "cp_slot_of p j < length (cp_slots p) \<and> cp_slot_of p j \<noteq> s" if "cp_contains p j" for j
    using cp_wfD(1,3) [OF wf that] above by auto
  have live: "cp_live p' = insert s (cp_live p)"
    using rest slot(1,2) above len by (auto simp: slots less_max_iff_disj split: if_splits) force+
  show wf': "cp_wf p'"
    unfolding cp_wf_def
  proof (intro conjI allI impI)
    fix j assume j: "cp_contains p' j"
    have "cp_slot_of p' j < length (cp_slots p') \<and> j \<noteq> - 1 \<and> (\<exists>w. cp_slots p' ! cp_slot_of p' j = Some (j, w))"
    proof (cases "j = k")
      case True
      with slot_of [OF j] slot(1,2) k(2) show ?thesis by (simp add: slots)
    next
      case False
      with j contains have c: "cp_contains p j" by simp
      from old [OF c] rest have "sl ! cp_slot_of p j = cp_slots p ! cp_slot_of p j" by simp
      with False old [OF c] slot_of [OF j] cp_wfD(2,3) [OF wf c] len show ?thesis
        by (simp add: slots less_max_iff_disj)
    qed
    then show "cp_slot_of p' j < length (cp_slots p')" "j \<noteq> - 1" "\<exists>w. cp_slots p' ! cp_slot_of p' j = Some (j, w)" by auto
  next
    fix i j w assume i: "i < length (cp_slots p')" "cp_slots p' ! i = Some (j, w)"
    have "cp_contains p' j \<and> cp_slot_of p' j = i"
    proof (cases "i = s")
      case True
      with i slot(2) contains slot_of show ?thesis by (simp add: slots)
    next
      case False
      with i len above have "i < length (cp_slots p)" by (auto simp: slots)
      moreover from this False i rest have "cp_slots p ! i = Some (j, w)" by (simp add: slots)
      ultimately have "cp_contains p j \<and> cp_slot_of p j = i" by (rule cp_wfD(4) [OF wf])
      with k(1) contains slot_of show ?thesis by auto
    qed
    then show "cp_contains p' j" "cp_slot_of p' j = i" by auto
  next
    show "distinct (cp_free p')" "length (cp_slots p') < 2 ^ 32" using free(1) slot(3) by (simp_all add: p'_def)
    have "i \<in> set fl \<longleftrightarrow> i < length sl \<and> sl ! i = None" for i
    proof (cases "i = s")
      case True
      with free(2) slot(2) show ?thesis by simp
    next
      case False
      with len above have "i < length sl \<longleftrightarrow> i < length (cp_slots p)" by auto
      moreover have "i \<in> set fl \<longleftrightarrow> i < length (cp_slots p) \<and> cp_slots p ! i = None"
        using False free(2) cp_wfD(6) [OF wf, of i] by simp
      ultimately show ?thesis using rest [OF _ False] by (simp cong: conj_cong)
    qed
    then show "set (cp_free p') = {i. i < length (cp_slots p') \<and> cp_slots p' ! i = None}"
      by (auto simp: p'_def)
    show "cp_size p' = card (cp_live p')" using live slot(4) cp_wfD(7) [OF wf] by (simp add: p'_def)
  qed
  show "cp_try_get p' = (cp_try_get p)(k \<mapsto> v)"
  proof
    fix j
    show "cp_try_get p' j = ((cp_try_get p)(k \<mapsto> v)) j"
    proof (cases "j = k \<or> \<not> cp_contains p j")
      case True
      with contains [of j] slot_of [of j] slot(2) show ?thesis
        by (auto simp: cp_try_get_eq [OF wf] cp_try_get_eq [OF wf'] slots)
    next
      case False
      with contains [of j] slot_of [of j] old [of j] rest [of "cp_slot_of p j"] show ?thesis
        by (simp add: cp_try_get_eq [OF wf] cp_try_get_eq [OF wf'] slots)
    qed
  qed
qed

lemma cp_grow:
  fixes p :: "'c pool" and n :: nat
  defines "p1 \<equiv> p\<lparr>cp_sparse := cp_sparse p @ replicate n 0\<rparr>"
  shows "cp_contains p1 = cp_contains p" and "cp_slot_of p1 = cp_slot_of p" and "cp_wf p1 = cp_wf p"
    and "cp_try_get p1 = cp_try_get p"
proof -
  show c: "cp_contains p1 = cp_contains p" by (rule ext) (auto simp: p1_def cp_contains_def nth_append split: if_splits)
  show s: "cp_slot_of p1 = cp_slot_of p" by (rule ext) (auto simp: p1_def cp_slot_of_def nth_append split: if_splits)
  have slots: "cp_slots p1 = cp_slots p" by (simp add: p1_def)
  show "cp_wf p1 = cp_wf p" unfolding cp_wf_def c s by (simp add: p1_def)
  show "cp_try_get p1 = cp_try_get p" by (rule ext) (simp only: cp_try_get_def s slots)
qed

lemma cp_insert_new:
  assumes wf: "cp_wf p" and k: "\<not> cp_contains p k" "k \<noteq> - 1"
  shows "fst (cp_insert_or_assign k v p)" and "cp_wf (snd (cp_insert_or_assign k v p))"
    and "cp_try_get (snd (cp_insert_or_assign k v p)) = (cp_try_get p)(k \<mapsto> v)"
proof -
  define p1 where "p1 = (if length (cp_sparse p) \<le> unat k then p\<lparr>cp_sparse := resize_list (unat k + 1) 0 (cp_sparse p)\<rparr> else p)"
  have grown: "p1 = p\<lparr>cp_sparse := cp_sparse p @ replicate (Suc (unat k) - length (cp_sparse p)) 0\<rparr>"
    by (simp add: p1_def resize_list_def)
  note same = cp_grow [of p "Suc (unat k) - length (cp_sparse p)", folded grown]
  have wf1: "cp_wf p1" and k1: "\<not> cp_contains p1 k" "unat k < length (cp_sparse p1)"
    using same(1,3) wf k by (simp_all add: grown)
  note place = cp_place [OF wf1 k1(1) k(2) k1(2), where v = v]
  have ins: "cp_insert_or_assign k v p =
      (if cp_free p1 \<noteq> [] then
         (True, p1\<lparr>cp_sparse := (cp_sparse p1)[unat k := of_nat (last (cp_free p1)) + 1],
            cp_slots := (cp_slots p1)[last (cp_free p1) := Some (k, v)],
            cp_free := butlast (cp_free p1), cp_size := cp_size p1 + 1\<rparr>)
       else (True, p1\<lparr>cp_sparse := (cp_sparse p1)[unat k := of_nat (length (cp_slots p1)) + 1],
            cp_slots := cp_slots p1 @ [Some (k, v)], cp_free := cp_free p1, cp_size := cp_size p1 + 1\<rparr>))"
    using cp_slot_absent [OF k(1)] by (simp add: cp_insert_or_assign_def Let_def p1_def [symmetric])
  show "fst (cp_insert_or_assign k v p)" by (simp add: ins)
  have "cp_wf (snd (cp_insert_or_assign k v p)) \<and> cp_try_get (snd (cp_insert_or_assign k v p)) = (cp_try_get p1)(k \<mapsto> v)"
  proof (cases "cp_free p1 = []")
    case True
    with cp_slot_fits [OF wf1 k1(1) k(2)] have "Suc (length (cp_slots p1)) < 2 ^ 32" by simp
    with place [of "length (cp_slots p1)" "cp_slots p1 @ [Some (k, v)]" "cp_free p1"] True ins
    show ?thesis by (simp add: nth_append)
  next
    case False
    let ?s = "last (cp_free p1)"
    have s: "?s < length (cp_slots p1)" "cp_slots p1 ! ?s = None"
      using cp_wfD(6) [OF wf1, of ?s] False by simp_all
    have fl: "cp_free p1 = butlast (cp_free p1) @ [?s]" using False by simp
    have "distinct (butlast (cp_free p1) @ [?s])" using cp_wfD(5) [OF wf1] fl by simp
    moreover have "set (cp_free p1) = insert ?s (set (butlast (cp_free p1)))" by (subst fl) simp
    ultimately have "distinct (butlast (cp_free p1))" "set (butlast (cp_free p1)) = set (cp_free p1) - {?s}" by auto
    with place [of ?s "(cp_slots p1)[?s := Some (k, v)]" "butlast (cp_free p1)"] False ins s cp_wfD(8) [OF wf1]
    show ?thesis by simp
  qed
  then show "cp_wf (snd (cp_insert_or_assign k v p))"
    and "cp_try_get (snd (cp_insert_or_assign k v p)) = (cp_try_get p)(k \<mapsto> v)" using same(4) by auto
qed

lemma cp_insert_or_assign_ok:
  assumes wf: "cp_wf p" and k: "k \<noteq> - 1"
  shows "fst (cp_insert_or_assign k v p) \<longleftrightarrow> cp_try_get p k = None" and "cp_wf (snd (cp_insert_or_assign k v p))"
    and "cp_try_get (snd (cp_insert_or_assign k v p)) = (cp_try_get p)(k \<mapsto> v)"
proof -
  have "(fst (cp_insert_or_assign k v p) \<longleftrightarrow> cp_try_get p k = None) \<and> cp_wf (snd (cp_insert_or_assign k v p)) \<and>
    cp_try_get (snd (cp_insert_or_assign k v p)) = (cp_try_get p)(k \<mapsto> v)"
  proof (cases "cp_contains p k")
    case True
    then have "cp_insert_or_assign k v p = (False, cp_write (cp_slot_of p k) (\<lambda>_. v) p)"
      using cp_wfD(1) [OF wf True] by (simp add: cp_insert_or_assign_def Let_def)
    moreover obtain w where "cp_try_get p k = Some w" using True cp_try_get_None [OF wf, of k] by (cases "cp_try_get p k") auto
    ultimately show ?thesis using cp_write_ok [OF wf True, of "\<lambda>_. v"] by simp
  next
    case False
    with cp_insert_new [OF wf False k] show ?thesis by (simp add: cp_try_get_None [OF wf])
  qed
  then show "fst (cp_insert_or_assign k v p) \<longleftrightarrow> cp_try_get p k = None" and "cp_wf (snd (cp_insert_or_assign k v p))"
    and "cp_try_get (snd (cp_insert_or_assign k v p)) = (cp_try_get p)(k \<mapsto> v)" by auto
qed

lemma cp_erase_present:
  assumes wf: "cp_wf p" and k: "cp_contains p k"
  defines "p' \<equiv> p\<lparr>cp_sparse := (cp_sparse p)[unat k := 0], cp_slots := (cp_slots p)[cp_slot_of p k := None],
      cp_free := cp_free p @ [cp_slot_of p k], cp_size := cp_size p - 1\<rparr>"
  shows "cp_wf p'" and "cp_try_get p' = (cp_try_get p)(k := None)"
proof -
  let ?s = "cp_slot_of p k"
  obtain v where v: "?s < length (cp_slots p)" "cp_slots p ! ?s = Some (k, v)" using cp_wfD(1,3) [OF wf k] by blast
  have sparse: "(cp_sparse p)[unat k := 0] ! unat j = (if j = k then 0 else cp_sparse p ! unat j)" for j
    using k by (intro nth_update_unat) (simp add: cp_contains_def)
  have contains: "cp_contains p' j \<longleftrightarrow> j \<noteq> k \<and> cp_contains p j" for j
    by (auto simp: p'_def cp_contains_def sparse)
  have slot_of: "cp_slot_of p' j = cp_slot_of p j" if "j \<noteq> k" for j
    using that by (simp add: p'_def cp_slot_of_def sparse)
  have len: "length (cp_slots p') = length (cp_slots p)" by (simp add: p'_def)
  have slots: "cp_slots p' ! s = (if s = ?s then None else cp_slots p ! s)" if "s < length (cp_slots p)" for s
    using that by (simp add: p'_def)
  have only: "j = k" if "cp_slot_of p j = ?s" "cp_contains p j" for j
    using cp_wfD(3) [OF wf that(2)] that(1) v(2) by simp
  have kept: "cp_slots p' ! cp_slot_of p j = cp_slots p ! cp_slot_of p j" if "cp_contains p j" "j \<noteq> k" for j
    using only [OF _ that(1)] that(2) slots [OF cp_wfD(1) [OF wf that(1)]] by (metis (full_types))
  have vacant: "s < length (cp_slots p) \<Longrightarrow> cp_slots p' ! s = None \<longleftrightarrow> s = ?s \<or> cp_slots p ! s = None" for s
    using slots by simp
  have "i \<in> cp_live p' \<longleftrightarrow> i \<in> cp_live p - {?s}" for i
    using vacant [of i] len by (cases "i < length (cp_slots p)") (simp_all del: not_None_eq, blast)
  then have "cp_live p' = cp_live p - {?s}" by blast
  then have size: "card (cp_live p') = cp_size p - 1" using v cp_wfD(7) [OF wf] by simp
  show wf': "cp_wf p'"
    unfolding cp_wf_def
  proof (intro conjI allI impI)
    fix j assume "cp_contains p' j"
    then have j: "cp_contains p j" "j \<noteq> k" by (simp_all add: contains)
    show "cp_slot_of p' j < length (cp_slots p')" "j \<noteq> - 1" "\<exists>w. cp_slots p' ! cp_slot_of p' j = Some (j, w)"
      using cp_wfD(1-3) [OF wf j(1)] kept [OF j] by (simp_all add: slot_of j len)
  next
    fix i j w assume i: "i < length (cp_slots p')" "cp_slots p' ! i = Some (j, w)"
    then have "cp_slots p ! i = Some (j, w)" "i \<noteq> ?s" using slots [of i] by (auto simp: len split: if_splits)
    with cp_wfD(4) [OF wf, of i j w] i(1) have "cp_contains p j" "cp_slot_of p j = i" "j \<noteq> k" by (auto simp: len)
    then show "cp_contains p' j" "cp_slot_of p' j = i" by (simp_all add: contains slot_of)
  next
    have fresh: "?s \<notin> set (cp_free p)" using cp_wfD(6) [OF wf, of ?s] v by simp
    show "distinct (cp_free p')" "length (cp_slots p') < 2 ^ 32"
      using cp_wfD(5,8) [OF wf] fresh by (simp_all add: p'_def)
    have "i \<in> set (cp_free p') \<longleftrightarrow> i < length (cp_slots p) \<and> cp_slots p' ! i = None" for i
      using cp_wfD(6) [OF wf, of i] vacant [of i] v(1) by (auto simp: p'_def)
    then show "set (cp_free p') = {i. i < length (cp_slots p') \<and> cp_slots p' ! i = None}" by (auto simp: len)
    show "cp_size p' = card (cp_live p')" unfolding size by (simp add: p'_def)
  qed
  show "cp_try_get p' = (cp_try_get p)(k := None)"
    using contains slot_of kept by (auto simp: cp_try_get_eq [OF wf] cp_try_get_eq [OF wf'] fun_eq_iff)
qed

lemma cp_erase_ok:
  assumes wf: "cp_wf p"
  shows "fst (cp_erase k p) \<longleftrightarrow> cp_contains p k" and "cp_wf (snd (cp_erase k p))"
    and "cp_try_get (snd (cp_erase k p)) = (cp_try_get p)(k := None)"
proof -
  show "fst (cp_erase k p) \<longleftrightarrow> cp_contains p k" using cp_slot_absent_iff [OF wf, of k] by (simp add: cp_erase_def Let_def)
  have "cp_wf (snd (cp_erase k p)) \<and> cp_try_get (snd (cp_erase k p)) = (cp_try_get p)(k := None)"
  proof (cases "cp_contains p k")
    case True
    with cp_erase_present [OF wf True] cp_slot_absent_iff [OF wf, of k] show ?thesis by (simp add: cp_erase_def Let_def)
  next
    case False
    with wf cp_try_get_None [OF wf, of k] show ?thesis by (auto simp: cp_erase_def cp_slot_absent)
  qed
  then show "cp_wf (snd (cp_erase k p))" and "cp_try_get (snd (cp_erase k p)) = (cp_try_get p)(k := None)" by auto
qed

lemma cp_clear_ok: "cp_wf (cp_clear p)" "cp_try_get (cp_clear p) = Map.empty"
  by (auto simp: cp_wf_def cp_clear_def cp_contains_def cp_try_get_def cp_slot_of_def fun_eq_iff)

subsection \<open>The interface the registry uses\<close>

text \<open>A table of storages holds a storage or nothing for each component type. \<open>has\<close>, \<open>del\<close> and \<open>wipe\<close>
  are the function pointers of an erased storage; the slots are what a view walks.\<close>

locale component_table =
  fixes ok :: "'d \<Rightarrow> bool"
    and get :: "'d \<Rightarrow> 'k \<Rightarrow> 'c option"
    and has :: "'d \<Rightarrow> 'k \<Rightarrow> bool"
    and del :: "'k \<Rightarrow> 'd \<Rightarrow> bool \<times> 'd"
    and wipe :: "'d \<Rightarrow> 'd"
    and slots :: "'d \<Rightarrow> nat"
    and live :: "'d \<Rightarrow> nat \<Rightarrow> bool"
    and key :: "'d \<Rightarrow> nat \<Rightarrow> 'k"
  assumes has_law: "ok d \<Longrightarrow> has d k \<longleftrightarrow> get d k \<noteq> None"
    and del_law: "ok d \<Longrightarrow> fst (del k d) = has d k \<and> ok (snd (del k d)) \<and> get (snd (del k d)) = (get d)(k := None)"
    and wipe_law: "ok d \<Longrightarrow> ok (wipe d) \<and> get (wipe d) = Map.empty"
    and slots_law: "ok d \<Longrightarrow> get d k \<noteq> None \<longleftrightarrow> (\<exists>s < slots d. live d s \<and> key d s = k)"
    and slots_inj: "ok d \<Longrightarrow> s < slots d \<Longrightarrow> s' < slots d \<Longrightarrow> live d s \<Longrightarrow> live d s' \<Longrightarrow> key d s = key d s' \<Longrightarrow> s = s'"
begin

text \<open>Detaching a key from every storage of a table.\<close>

lemma sweep_at:
  assumes "i < length tab" and "tab ! i = Some d" and "ok d"
  obtains d' where "map (map_option (\<lambda>d. if has d k then snd (del k d) else d)) tab ! i = Some d'" and "ok d'"
    and "get d' = (get d)(k := None)"
proof -
  have "ok (if has d k then snd (del k d) else d)" using assms(3) del_law by simp
  moreover have "get (if has d k then snd (del k d) else d) = (get d)(k := None)"
    using del_law [OF assms(3), of k] has_law [OF assms(3), of k] by (simp add: fun_upd_idem)
  ultimately show ?thesis using assms(1,2) by (intro that) auto
qed

text \<open>The live slots list the keys, each once.\<close>

lemma slot_keys:
  assumes "ok d"
  shows "distinct (map (key d) (filter (live d) [0..<slots d]))"
    and "set (map (key d) (filter (live d) [0..<slots d])) = dom (get d)"
proof -
  show "distinct (map (key d) (filter (live d) [0..<slots d]))"
    using slots_inj [OF assms] by (auto simp: distinct_map inj_on_def)
  show "set (map (key d) (filter (live d) [0..<slots d])) = dom (get d)"
    using slots_law [OF assms] by (auto simp: dom_def)
qed

end

lemma cp_slot_entry: "s < cp_slot_count p \<Longrightarrow> cp_is_live p s \<Longrightarrow> cp_slots p ! s = Some (cp_key_at p s, cp_value_at p s)"
  by (auto simp: cp_is_live_def cp_key_at_def cp_value_at_def)

lemma cp_slot_at: "cp_wf p \<Longrightarrow> s < cp_slot_count p \<Longrightarrow> cp_is_live p s \<Longrightarrow> cp_contains p (cp_key_at p s) \<and> cp_slot_of p (cp_key_at p s) = s"
  using cp_wfD(4) [OF _ _ cp_slot_entry] by (simp add: cp_slot_count_def)

interpretation pool: component_table cp_wf cp_try_get cp_contains cp_erase cp_clear cp_slot_count cp_is_live cp_key_at
proof unfold_locales
  fix p :: "'c pool" and k
  assume wf: "cp_wf p"
  show "cp_try_get p k \<noteq> None \<longleftrightarrow> (\<exists>s < cp_slot_count p. cp_is_live p s \<and> cp_key_at p s = k)"
  proof
    assume "cp_try_get p k \<noteq> None"
    then have c: "cp_contains p k" by (simp add: cp_try_get_None [OF wf] del: not_None_eq)
    from cp_wfD(1,3) [OF wf c] show "\<exists>s < cp_slot_count p. cp_is_live p s \<and> cp_key_at p s = k"
      by (intro exI [of _ "cp_slot_of p k"]) (auto simp: cp_slot_count_def cp_is_live_def cp_key_at_def)
  next
    assume "\<exists>s < cp_slot_count p. cp_is_live p s \<and> cp_key_at p s = k"
    with cp_slot_at [OF wf] show "cp_try_get p k \<noteq> None" by (auto simp: cp_try_get_None [OF wf] simp del: not_None_eq)
  qed
next
  fix p :: "'c pool" and s s'
  assume "cp_wf p" "s < cp_slot_count p" "s' < cp_slot_count p" "cp_is_live p s" "cp_is_live p s'" "cp_key_at p s = cp_key_at p s'"
  then show "s = s'" using cp_slot_at by metis
qed (simp_all add: cp_try_get_None cp_erase_ok cp_clear_ok del: not_None_eq)

text \<open>A range-based for loop over the values of a pool visits the component of every key once.\<close>

lemma pool_values_walk:
  assumes "cp_wf p"
  obtains ss where "walk_to (cp_is_live p) (values_end p) (values_begin p) = Some ss"
    and "distinct (map (cp_key_at p) ss)" and "set (map (\<lambda>s. (cp_key_at p s, cp_value_at p s)) ss) = {(k, v). cp_try_get p k = Some v}"
proof -
  let ?ss = "filter (cp_is_live p) [0..<cp_slot_count p]"
  have "walk_to (cp_is_live p) (values_end p) (values_begin p) = Some ?ss"
    using walk_to_filter [of 0 "cp_slot_count p" "cp_is_live p"] by (simp add: values_end_def values_begin_def)
  moreover have "(k, v) \<in> set (map (\<lambda>s. (cp_key_at p s, cp_value_at p s)) ?ss) \<longleftrightarrow> Some (k, v) \<in> set (cp_slots p)" for k v
    using cp_slot_entry [of _ p]
    by (auto simp: in_set_conv_nth cp_slot_count_def cp_is_live_def cp_key_at_def cp_value_at_def image_iff)
  ultimately show ?thesis using that pool.slot_keys(1) [OF assms] cp_entries [OF assms] by auto
qed

end
