(* ===== verification/Entity_Registry.thy ===== *)
theory Entity_Registry
  imports Sparse_Set Component_Pool Container_Error
begin

text \<open>
  The registry of the entity-component system, \<open>ecs/registry.hpp\<close>, and its views, \<open>ecs/view.hpp\<close>.
  A component type is its \<open>type_id\<close>, a number, and the storages of all types hold values of one type
  \<open>'c\<close>, the union of the component types. The listeners connected to the lifecycle signals are user
  code that may call the registry again: they are a parameter, a function from the signal, the
  component type, the entity and the registry to the registry they leave. What state the listeners
  have of their own is the \<open>more\<close> part of the registry's record.
\<close>

subsection \<open>Entities\<close>

datatype entity_id = Entity (ent_index: u32) (ent_generation: u32)

instantiation entity_id :: linorder
begin

definition less_eq_entity_id :: "entity_id \<Rightarrow> entity_id \<Rightarrow> bool" where
  "less_eq_entity_id a b =
     (ent_index a < ent_index b \<or> ent_index a = ent_index b \<and> ent_generation a \<le> ent_generation b)"

definition less_entity_id :: "entity_id \<Rightarrow> entity_id \<Rightarrow> bool" where
  "less_entity_id a b =
     (ent_index a < ent_index b \<or> ent_index a = ent_index b \<and> ent_generation a < ent_generation b)"

instance
  by standard (auto simp: less_eq_entity_id_def less_entity_id_def entity_id.expand)

end

subsection \<open>The registry\<close>

record 'c registry =
  rg_generations :: "u32 list"
  rg_free :: "u32 list"
  rg_alive :: "u32 sparse_set"
  rg_storages :: "'c pool option list"

datatype lifecycle = On_construct | On_update | On_destroy

type_synonym ('c, 's) listeners =
  "lifecycle \<Rightarrow> nat \<Rightarrow> entity_id \<Rightarrow> ('c, 's) registry_scheme \<Rightarrow> ('c, 's) registry_scheme"

definition rg_default :: "'c registry" where
  "rg_default = \<lparr>rg_generations = [], rg_free = [], rg_alive = ss_default, rg_storages = []\<rparr>"

definition find_storage :: "nat \<Rightarrow> ('c, 's) registry_scheme \<Rightarrow> 'c pool option" where
  "find_storage t r = (if length (rg_storages r) \<le> t then None else rg_storages r ! t)"

definition ensure_storage :: "nat \<Rightarrow> ('c, 's) registry_scheme \<Rightarrow> ('c, 's) registry_scheme" where
  "ensure_storage t r =
     (let r1 = (if length (rg_storages r) \<le> t then r\<lparr>rg_storages := resize_list (t + 1) None (rg_storages r)\<rparr> else r)
      in if rg_storages r1 ! t = None then r1\<lparr>rg_storages := (rg_storages r1)[t := Some cp_default]\<rparr> else r1)"

text \<open>A storage is reached through a pointer; the pointer of a registered type stays valid.\<close>

definition set_storage :: "nat \<Rightarrow> 'c pool \<Rightarrow> ('c, 's) registry_scheme \<Rightarrow> ('c, 's) registry_scheme" where
  "set_storage t p r = r\<lparr>rg_storages := (rg_storages r)[t := Some p]\<rparr>"

definition erase_component :: "nat \<Rightarrow> u32 \<Rightarrow> ('c, 's) registry_scheme \<Rightarrow> bool \<times> ('c, 's) registry_scheme" where
  "erase_component t idx r =
     (case find_storage t r of None \<Rightarrow> (False, r)
      | Some p \<Rightarrow> let (b, p') = cp_erase idx p in (b, set_storage t p' r))"

definition fire_on_destroy :: "('c, 's) listeners \<Rightarrow> nat \<Rightarrow> entity_id \<Rightarrow> ('c, 's) registry_scheme \<Rightarrow> ('c, 's) registry_scheme" where
  "fire_on_destroy lis t e r =
     (case find_storage t r of None \<Rightarrow> r
      | Some p \<Rightarrow> if cp_try_get p (ent_index e) = None then r else lis On_destroy t e r)"

definition rg_move :: "'c registry \<Rightarrow> 'c registry \<times> 'c registry" where
  "rg_move other = (other, rg_default)"

definition rg_valid :: "('c, 's) registry_scheme \<Rightarrow> entity_id \<Rightarrow> bool" where
  "rg_valid r e \<longleftrightarrow>
     unat (ent_index e) < length (rg_generations r) \<and> ent_generation e \<noteq> 0 \<and>
     rg_generations r ! unat (ent_index e) = ent_generation e \<and> ss_contains (rg_alive r) (ent_index e)"

text \<open>That a new index fits in 32 bits is a debug assertion of the code.\<close>

definition rg_create :: "('c, 's) registry_scheme \<Rightarrow> entity_id \<times> ('c, 's) registry_scheme" where
  "rg_create r =
     (if rg_free r \<noteq> [] then
        let idx = last (rg_free r)
        in (Entity idx (rg_generations r ! unat idx),
            r\<lparr>rg_free := butlast (rg_free r), rg_alive := snd (ss_insert idx (rg_alive r))\<rparr>)
      else
        let idx = of_nat (length (rg_generations r))
        in (Entity idx 1,
            r\<lparr>rg_generations := rg_generations r @ [1], rg_alive := snd (ss_insert idx (rg_alive r))\<rparr>))"

fun detach_loop :: "('c, 's) listeners \<Rightarrow> entity_id \<Rightarrow> nat list \<Rightarrow> ('c, 's) registry_scheme \<Rightarrow> ('c, 's) registry_scheme" where
  "detach_loop lis e [] r = r"
| "detach_loop lis e (i # is) r =
     (case rg_storages r ! i of None \<Rightarrow> detach_loop lis e is r
      | Some data \<Rightarrow>
          if \<not> cp_contains data (ent_index e) then detach_loop lis e is r
          else detach_loop lis e is (snd (erase_component i (ent_index e) (fire_on_destroy lis i e r))))"

definition detach_sweep :: "u32 \<Rightarrow> 'c pool option list \<Rightarrow> 'c pool option list" where
  "detach_sweep idx storages =
     map (map_option (\<lambda>data. if cp_contains data idx then snd (cp_erase idx data) else data)) storages"

definition rg_destroy :: "('c, 's) listeners \<Rightarrow> entity_id \<Rightarrow> ('c, 's) registry_scheme \<Rightarrow> bool \<times> ('c, 's) registry_scheme" where
  "rg_destroy lis e r =
     (if \<not> rg_valid r e then (False, r)
      else
        let r1 = r\<lparr>rg_alive := snd (ss_erase (ent_index e) (rg_alive r))\<rparr>;
            r2 = detach_loop lis e [0..<length (rg_storages r1)] r1;
            r3 = r2\<lparr>rg_storages := detach_sweep (ent_index e) (rg_storages r2)\<rparr>;
            i = unat (ent_index e);
            g = rg_generations r3 ! i + 1
        in (True, r3\<lparr>rg_generations := (rg_generations r3)[i := if g = 0 then 1 else g],
                     rg_free := rg_free r3 @ [ent_index e]\<rparr>))"

definition rg_generation_at :: "('c, 's) registry_scheme \<Rightarrow> u32 \<Rightarrow> u32" where
  "rg_generation_at r index = (if length (rg_generations r) \<le> unat index then 0 else rg_generations r ! unat index)"

definition rg_alive_count :: "('c, 's) registry_scheme \<Rightarrow> nat" where
  "rg_alive_count r = ss_size (rg_alive r)"

definition rg_add :: "('c, 's) listeners \<Rightarrow> nat \<Rightarrow> entity_id \<Rightarrow> 'c \<Rightarrow> ('c, 's) registry_scheme \<Rightarrow> bool \<times> ('c, 's) registry_scheme" where
  "rg_add lis t e v r =
     (if \<not> rg_valid r e then (False, r)
      else
        let r1 = ensure_storage t r;
            (inserted, p) = cp_insert_or_assign (ent_index e) v (the (rg_storages r1 ! t));
            r2 = set_storage t p r1
        in (inserted, lis (if inserted then On_construct else On_update) t e r2))"

definition rg_remove :: "('c, 's) listeners \<Rightarrow> nat \<Rightarrow> entity_id \<Rightarrow> ('c, 's) registry_scheme \<Rightarrow> bool \<times> ('c, 's) registry_scheme" where
  "rg_remove lis t e r =
     (if \<not> rg_valid r e then (False, r)
      else case find_storage t r of None \<Rightarrow> (False, r)
        | Some p \<Rightarrow>
            if cp_try_get p (ent_index e) = None then (False, r)
            else erase_component t (ent_index e) (lis On_destroy t e r))"

text \<open>The mutator is a function on the component's value.\<close>

definition rg_patch :: "('c, 's) listeners \<Rightarrow> nat \<Rightarrow> entity_id \<Rightarrow> ('c \<Rightarrow> 'c) \<Rightarrow> ('c, 's) registry_scheme \<Rightarrow> bool \<times> ('c, 's) registry_scheme" where
  "rg_patch lis t e mutator r =
     (if \<not> rg_valid r e then (False, r)
      else case find_storage t r of None \<Rightarrow> (False, r)
        | Some p \<Rightarrow>
            if cp_try_get p (ent_index e) = None then (False, r)
            else (True, lis On_update t e (set_storage t (cp_write (cp_slot_of p (ent_index e)) mutator p) r)))"

definition storage_at :: "'c pool \<Rightarrow> u32 \<Rightarrow> container_error + 'c" where
  "storage_at p index = (case cp_try_get p index of Some v \<Rightarrow> Inr v | None \<Rightarrow> Inl Not_found)"

definition rg_get :: "nat \<Rightarrow> entity_id \<Rightarrow> ('c, 's) registry_scheme \<Rightarrow> container_error + 'c" where
  "rg_get t e r =
     (if \<not> rg_valid r e then Inl Not_found
      else case find_storage t r of None \<Rightarrow> Inl Not_found | Some p \<Rightarrow> storage_at p (ent_index e))"

definition rg_has :: "nat \<Rightarrow> entity_id \<Rightarrow> ('c, 's) registry_scheme \<Rightarrow> bool" where
  "rg_has t e r =
     (if \<not> rg_valid r e then False
      else case find_storage t r of None \<Rightarrow> False | Some p \<Rightarrow> cp_contains p (ent_index e))"

definition rg_all_of :: "nat list \<Rightarrow> entity_id \<Rightarrow> ('c, 's) registry_scheme \<Rightarrow> bool" where
  "rg_all_of ts e r = list_all (\<lambda>t. rg_has t e r) ts"

definition rg_any_of :: "nat list \<Rightarrow> entity_id \<Rightarrow> ('c, 's) registry_scheme \<Rightarrow> bool" where
  "rg_any_of ts e r = list_ex (\<lambda>t. rg_has t e r) ts"

fun fire_storages :: "('c, 's) listeners \<Rightarrow> u32 \<Rightarrow> nat list \<Rightarrow> ('c, 's) registry_scheme \<Rightarrow> ('c, 's) registry_scheme" where
  "fire_storages lis idx [] r = r"
| "fire_storages lis idx (i # is) r =
     (case rg_storages r ! i of None \<Rightarrow> fire_storages lis idx is r
      | Some data \<Rightarrow>
          if \<not> cp_contains data idx then fire_storages lis idx is r
          else fire_storages lis idx is (fire_on_destroy lis i (Entity idx (rg_generations r ! unat idx)) r))"

fun fire_all :: "('c, 's) listeners \<Rightarrow> u32 list \<Rightarrow> ('c, 's) registry_scheme \<Rightarrow> ('c, 's) registry_scheme" where
  "fire_all lis [] r = r"
| "fire_all lis (idx # live) r = fire_all lis live (fire_storages lis idx [0..<length (rg_storages r)] r)"

definition rg_clear :: "('c, 's) listeners \<Rightarrow> ('c, 's) registry_scheme \<Rightarrow> ('c, 's) registry_scheme" where
  "rg_clear lis r =
     (let r1 = fire_all lis (ss_keys (rg_alive r)) r
      in r1\<lparr>rg_storages := map (map_option cp_clear) (rg_storages r1),
            rg_generations := map (\<lambda>g. if g \<noteq> 0 then (if g + 1 = 0 then 1 else g + 1) else g) (rg_generations r1),
            rg_free := map of_nat [0..<length (rg_generations r1)],
            rg_alive := ss_clear (rg_alive r1)\<rparr>)"

text \<open>An iterator over the entities is a position of the alive set; \<open>each\<close> folds the callback's own
  state.\<close>

definition rg_deref :: "('c, 's) registry_scheme \<Rightarrow> nat \<Rightarrow> entity_id" where
  "rg_deref r pos = (let idx = ss_keys (rg_alive r) ! pos in Entity idx (rg_generations r ! unat idx))"

definition rg_end :: "('c, 's) registry_scheme \<Rightarrow> nat" where
  "rg_end r = ss_size (rg_alive r)"

definition rg_each :: "(entity_id \<Rightarrow> 'a \<Rightarrow> 'a) \<Rightarrow> ('c, 's) registry_scheme \<Rightarrow> 'a \<Rightarrow> 'a" where
  "rg_each f r a = fold (\<lambda>pos. f (rg_deref r pos)) [0..<rg_end r] a"

subsection \<open>Views\<close>

record view =
  vw_includes :: "nat list"
  vw_excludes :: "nat list"
  vw_driver :: nat

fun min_element :: "nat list \<Rightarrow> nat \<Rightarrow> nat \<Rightarrow> nat \<Rightarrow> nat" where
  "min_element [] pos best least = best"
| "min_element (n # ns) pos best least =
     (if n < least then min_element ns (pos + 1) pos n else min_element ns (pos + 1) best least)"

definition select_driver :: "nat list \<Rightarrow> nat" where
  "select_driver sizes = (if length sizes = 1 then 0 else min_element (tl sizes) 1 0 (hd sizes))"

definition the_storage :: "nat \<Rightarrow> ('c, 's) registry_scheme \<Rightarrow> 'c pool" where
  "the_storage t r = the (rg_storages r ! t)"

text \<open>Taking a view registers its component types. Its driver is the smallest included storage.\<close>

definition view_make :: "nat list \<Rightarrow> nat list \<Rightarrow> ('c, 's) registry_scheme \<Rightarrow> view \<times> ('c, 's) registry_scheme" where
  "view_make incs excs r =
     (let r1 = fold ensure_storage excs (fold ensure_storage incs r);
          d = select_driver (map (\<lambda>t. cp_size (the_storage t r1)) incs)
      in (\<lparr>vw_includes = incs, vw_excludes = excs, vw_driver = incs ! d\<rparr>, r1))"

definition view_exclude :: "nat list \<Rightarrow> view \<Rightarrow> ('c, 's) registry_scheme \<Rightarrow> view \<times> ('c, 's) registry_scheme" where
  "view_exclude new v r = view_make (vw_includes v) (vw_excludes v @ new) r"

definition passes_filter :: "view \<Rightarrow> ('c, 's) registry_scheme \<Rightarrow> u32 \<Rightarrow> bool" where
  "passes_filter v r idx \<longleftrightarrow>
     list_all (\<lambda>t. cp_contains (the_storage t r) idx) (vw_includes v) \<and>
     list_all (\<lambda>t. \<not> cp_contains (the_storage t r) idx) (vw_excludes v)"

definition view_row :: "view \<Rightarrow> ('c, 's) registry_scheme \<Rightarrow> u32 \<Rightarrow> entity_id \<times> 'c list" where
  "view_row v r idx =
     (Entity idx (rg_generation_at r idx), map (\<lambda>t. the (cp_try_get (the_storage t r) idx)) (vw_includes v))"

text \<open>The callback of \<open>each\<close> may change the registry and a state of its own.\<close>

fun view_each_from ::
    "(entity_id \<times> 'c list \<Rightarrow> 'a \<times> ('c, 's) registry_scheme \<Rightarrow> 'a \<times> ('c, 's) registry_scheme) \<Rightarrow> view \<Rightarrow> nat list
     \<Rightarrow> 'a \<times> ('c, 's) registry_scheme \<Rightarrow> 'a \<times> ('c, 's) registry_scheme" where
  "view_each_from f v [] (a, r) = (a, r)"
| "view_each_from f v (slot # slots) (a, r) =
     (if \<not> cp_is_live (the_storage (vw_driver v) r) slot then view_each_from f v slots (a, r)
      else
        let idx = cp_key_at (the_storage (vw_driver v) r) slot
        in if \<not> passes_filter v r idx then view_each_from f v slots (a, r)
           else view_each_from f v slots (f (view_row v r idx) (a, r)))"

definition view_each ::
    "(entity_id \<times> 'c list \<Rightarrow> 'a \<times> ('c, 's) registry_scheme \<Rightarrow> 'a \<times> ('c, 's) registry_scheme) \<Rightarrow> view
     \<Rightarrow> 'a \<times> ('c, 's) registry_scheme \<Rightarrow> 'a \<times> ('c, 's) registry_scheme" where
  "view_each f v ar = view_each_from f v [0..<cp_slot_count (the_storage (vw_driver v) (snd ar))] ar"

definition view_valid_slot :: "view \<Rightarrow> ('c, 's) registry_scheme \<Rightarrow> nat \<Rightarrow> bool" where
  "view_valid_slot v r pos \<longleftrightarrow>
     cp_is_live (the_storage (vw_driver v) r) pos \<and> passes_filter v r (cp_key_at (the_storage (vw_driver v) r) pos)"

definition view_end :: "view \<Rightarrow> ('c, 's) registry_scheme \<Rightarrow> nat" where
  "view_end v r = cp_slot_count (the_storage (vw_driver v) r)"

definition view_begin :: "view \<Rightarrow> ('c, 's) registry_scheme \<Rightarrow> nat" where
  "view_begin v r = advance_to (view_valid_slot v r) (view_end v r) 0"

definition view_next :: "view \<Rightarrow> ('c, 's) registry_scheme \<Rightarrow> nat \<Rightarrow> nat" where
  "view_next v r pos = advance_to (view_valid_slot v r) (view_end v r) (pos + 1)"

definition view_deref :: "view \<Rightarrow> ('c, 's) registry_scheme \<Rightarrow> nat \<Rightarrow> entity_id \<times> 'c list" where
  "view_deref v r pos = view_row v r (cp_key_at (the_storage (vw_driver v) r) pos)"

text \<open>The query builder collects the two lists of component types.\<close>

type_synonym query = "nat list \<times> nat list"

definition query_with :: "nat \<Rightarrow> query \<Rightarrow> query" where
  "query_with t q = (fst q @ [t], snd q)"

definition query_without :: "nat \<Rightarrow> query \<Rightarrow> query" where
  "query_without t q = (fst q, snd q @ [t])"

definition query_build :: "query \<Rightarrow> ('c, 's) registry_scheme \<Rightarrow> view \<times> ('c, 's) registry_scheme" where
  "query_build q r = view_make (fst q) (snd q) r"

subsection \<open>Well-formed registries\<close>

definition storages_ok :: "u32 set \<Rightarrow> 'c pool option list \<Rightarrow> bool" where
  "storages_ok K st \<longleftrightarrow> (\<forall>p. Some p \<in> set st \<longrightarrow> cp_wf p \<and> (\<forall>k. cp_contains p k \<longrightarrow> k \<in> K))"

abbreviation rg_indices :: "('c, 's) registry_scheme \<Rightarrow> u32 set" where
  "rg_indices r \<equiv> set (ss_dense (rg_alive r))"

text \<open>\<open>P\<close> holds the indices whose destruction is under way: neither alive nor free, but still with
  components. Between calls it is empty.\<close>

definition rg_wf :: "u32 set \<Rightarrow> ('c, 's) registry_scheme \<Rightarrow> bool" where
  "rg_wf P r \<longleftrightarrow>
     length (rg_generations r) < 2 ^ 32 \<and> 0 \<notin> set (rg_generations r) \<and> ss_wf (rg_alive r) \<and> distinct (rg_free r) \<and>
     set (rg_free r) \<inter> rg_indices r = {} \<and> P \<inter> (set (rg_free r) \<union> rg_indices r) = {} \<and>
     set (rg_free r) \<union> rg_indices r \<union> P = {k. unat k < length (rg_generations r)} \<and>
     storages_ok (rg_indices r \<union> P) (rg_storages r)"

text \<open>What a call may do to the registry while the entities of \<open>P\<close> are being destroyed.\<close>

definition rg_step :: "u32 set \<Rightarrow> ('c, 's) registry_scheme \<Rightarrow> ('c, 's) registry_scheme \<Rightarrow> bool" where
  "rg_step P r r' \<longleftrightarrow>
     rg_wf P r' \<and> length (rg_generations r) \<le> length (rg_generations r') \<and>
     (\<forall>k \<in> P. rg_generations r' ! unat k = rg_generations r ! unat k) \<and>
     length (rg_storages r) \<le> length (rg_storages r') \<and>
     (\<forall>t. find_storage t r \<noteq> None \<longrightarrow> find_storage t r' \<noteq> None)"

definition listeners_ok :: "('c, 's) listeners \<Rightarrow> bool" where
  "listeners_ok lis \<longleftrightarrow> (\<forall>P ev t e r. rg_wf P r \<longrightarrow> rg_step P r (lis ev t e r))"

lemma listeners_okD: "listeners_ok lis \<Longrightarrow> rg_wf P r \<Longrightarrow> rg_step P r (lis ev t e r)"
  by (simp add: listeners_ok_def)

lemma rg_step_refl: "rg_wf P r \<Longrightarrow> rg_step P r r"
  by (simp add: rg_step_def)

lemma rg_step_trans: "rg_step P r r1 \<Longrightarrow> rg_step P r1 r2 \<Longrightarrow> rg_step P r r2"
  by (auto simp: rg_step_def simp del: not_None_eq)

lemma rg_stepD:
  assumes "rg_step P r r'"
  shows "rg_wf P r'" and "length (rg_generations r) \<le> length (rg_generations r')"
    and "k \<in> P \<Longrightarrow> rg_generations r' ! unat k = rg_generations r ! unat k"
    and "length (rg_storages r) \<le> length (rg_storages r')" and "find_storage t r \<noteq> None \<Longrightarrow> find_storage t r' \<noteq> None"
  using assms by (auto simp: rg_step_def simp del: not_None_eq)

lemma rg_wfD:
  assumes "rg_wf P r"
  shows "length (rg_generations r) < 2 ^ 32" and "0 \<notin> set (rg_generations r)" and "ss_wf (rg_alive r)"
    and "distinct (rg_free r)" and "set (rg_free r) \<inter> rg_indices r = {}" and "P \<inter> (set (rg_free r) \<union> rg_indices r) = {}"
    and "set (rg_free r) \<union> rg_indices r \<union> P = {k. unat k < length (rg_generations r)}"
    and "storages_ok (rg_indices r \<union> P) (rg_storages r)"
  using assms by (auto simp: rg_wf_def)

lemma rg_default_wf [simp]: "rg_wf {} rg_default"
  by (simp add: rg_wf_def rg_default_def storages_ok_def)

lemma rg_index_max: "rg_wf P r \<Longrightarrow> unat (k :: u32) < length (rg_generations r) \<Longrightarrow> k \<noteq> - 1"
  using rg_wfD(1) [of P r] by (auto simp: unsigned_minus_1_eq_mask mask_eq_exp_minus_1)

lemma find_storage_Some: "find_storage t r = Some p \<longleftrightarrow> t < length (rg_storages r) \<and> rg_storages r ! t = Some p"
  by (auto simp: find_storage_def)

lemma find_storage_ok:
  assumes "rg_wf P r" and "find_storage t r = Some p"
  shows "cp_wf p" and "cp_contains p k \<Longrightarrow> k \<in> rg_indices r \<union> P"
proof -
  have "Some p \<in> set (rg_storages r)" using assms(2) by (metis find_storage_Some nth_mem)
  then show "cp_wf p" and "cp_contains p k \<Longrightarrow> k \<in> rg_indices r \<union> P"
    using rg_wfD(8) [OF assms(1)] by (auto simp: storages_ok_def)
qed

lemma rg_wf_storages:
  "rg_wf P r \<Longrightarrow> storages_ok (rg_indices r \<union> P) st \<Longrightarrow> rg_wf P (r\<lparr>rg_storages := st\<rparr>)"
  by (simp add: rg_wf_def)

lemma storages_ok_update: "storages_ok K st \<Longrightarrow> cp_wf p \<Longrightarrow> (\<And>k. cp_contains p k \<Longrightarrow> k \<in> K) \<Longrightarrow> storages_ok K (st[t := Some p])"
  by (auto simp: storages_ok_def dest: subsetD [OF set_update_subset_insert])

subsection \<open>Storages\<close>

lemma cp_default_empty [simp]: "\<not> cp_contains cp_default k"
  by (simp add: cp_default_def cp_contains_def)

lemma ensure_storage_finds:
  "find_storage i (ensure_storage t r) =
     (if i = t then Some (case find_storage t r of None \<Rightarrow> cp_default | Some p \<Rightarrow> p) else find_storage i r)"
  by (auto simp: ensure_storage_def find_storage_def Let_def resize_list_def nth_append nth_list_update split: option.splits)

lemma ensure_storage_same [simp]:
  "rg_generations (ensure_storage t r) = rg_generations r" "rg_free (ensure_storage t r) = rg_free r"
  "rg_alive (ensure_storage t r) = rg_alive r" "registry.more (ensure_storage t r) = registry.more r"
  by (simp_all add: ensure_storage_def Let_def)

lemma storages_ok_find:
  "storages_ok K (rg_storages r) \<longleftrightarrow> (\<forall>t p. find_storage t r = Some p \<longrightarrow> cp_wf p \<and> (\<forall>k. cp_contains p k \<longrightarrow> k \<in> K))"
  by (auto simp: storages_ok_def find_storage_Some in_set_conv_nth)

lemma ensure_storage_length: "length (rg_storages r) \<le> length (rg_storages (ensure_storage t r))"
  by (simp add: ensure_storage_def Let_def)

lemma ensure_storage_step:
  assumes "rg_wf P r"
  shows "rg_step P r (ensure_storage t r)"
proof -
  have "storages_ok (rg_indices r \<union> P) (rg_storages (ensure_storage t r))"
    using rg_wfD(8) [OF assms] unfolding storages_ok_find by (auto simp: ensure_storage_finds split: option.splits if_splits)
  with assms have "rg_wf P (ensure_storage t r)" by (simp add: rg_wf_def)
  then show ?thesis
    using ensure_storage_length [of r t] by (simp add: rg_step_def ensure_storage_finds)
qed

lemma set_storage_same [simp]:
  "rg_generations (set_storage t p r) = rg_generations r" "rg_free (set_storage t p r) = rg_free r"
  "rg_alive (set_storage t p r) = rg_alive r" "registry.more (set_storage t p r) = registry.more r"
  by (simp_all add: set_storage_def)

lemma set_storage_finds:
  "find_storage t r \<noteq> None \<Longrightarrow> find_storage i (set_storage t p r) = (if i = t then Some p else find_storage i r)"
  by (auto simp: find_storage_def set_storage_def split: if_splits)

lemma set_storage_step:
  assumes "rg_wf P r" and "find_storage t r \<noteq> None" and "cp_wf p" and "\<And>k. cp_contains p k \<Longrightarrow> k \<in> rg_indices r \<union> P"
  shows "rg_step P r (set_storage t p r)"
proof -
  have "rg_wf P (set_storage t p r)"
    unfolding set_storage_def using assms rg_wfD(8) [OF assms(1)] by (intro rg_wf_storages storages_ok_update) auto
  then show ?thesis
    using set_storage_finds [OF assms(2)] by (simp add: rg_step_def) (simp add: set_storage_def)
qed

lemma erase_component_step:
  assumes wf: "rg_wf P r"
  shows "rg_step P r (snd (erase_component t idx r))"
proof (cases "find_storage t r")
  case (Some p)
  note p = find_storage_ok [OF wf Some]
  have "cp_contains (snd (cp_erase idx p)) k \<Longrightarrow> cp_contains p k" for k
    using cp_erase_ok [OF p(1), of idx] pool.has_law p(1) by (metis fun_upd_apply)
  with p Some show ?thesis
    using set_storage_step [OF wf, of t "snd (cp_erase idx p)"] cp_erase_ok(2) [OF p(1)]
    by (simp add: erase_component_def case_prod_beta)
qed (simp add: erase_component_def rg_step_refl wf)

lemma fire_on_destroy_step:
  "listeners_ok lis \<Longrightarrow> rg_wf P r \<Longrightarrow> rg_step P r (fire_on_destroy lis t e r)"
  by (auto simp: fire_on_destroy_def rg_step_refl listeners_okD split: option.splits)

lemma detach_loop_step:
  assumes lis: "listeners_ok lis"
  shows "rg_wf P r \<Longrightarrow> rg_step P r (detach_loop lis e is r)"
proof (induction "is" arbitrary: r)
  case (Cons i js)
  have "rg_step P r (snd (erase_component i (ent_index e) (fire_on_destroy lis i e r)))" (is "rg_step P r ?r1")
    using fire_on_destroy_step [OF lis Cons.prems] by (meson rg_step_trans erase_component_step rg_stepD(1))
  then have "rg_step P r (detach_loop lis e js ?r1)" using Cons.IH rg_stepD(1) rg_step_trans by blast
  with Cons show ?case by (auto split: option.splits)
qed (simp add: rg_step_refl)

lemma fire_storages_step:
  assumes lis: "listeners_ok lis"
  shows "rg_wf P r \<Longrightarrow> rg_step P r (fire_storages lis idx is r)"
proof (induction "is" arbitrary: r)
  case (Cons i js)
  have "rg_step P r (fire_on_destroy lis i (Entity idx (rg_generations r ! unat idx)) r)" (is "rg_step P r ?r1")
    using fire_on_destroy_step [OF lis Cons.prems] .
  then have "rg_step P r (fire_storages lis idx js ?r1)" using Cons.IH rg_stepD(1) rg_step_trans by blast
  with Cons show ?case by (auto split: option.splits)
qed (simp add: rg_step_refl)

lemma fire_all_step:
  assumes lis: "listeners_ok lis"
  shows "rg_wf P r \<Longrightarrow> rg_step P r (fire_all lis live r)"
proof (induction live arbitrary: r)
  case (Cons idx live)
  from Cons.IH fire_storages_step [OF lis Cons.prems] show ?case by (simp, meson rg_stepD(1) rg_step_trans)
qed (simp add: rg_step_refl)

subsection \<open>The operations keep the registry well-formed\<close>

lemma rg_valid_iff:
  assumes "rg_wf P r"
  shows "rg_valid r e \<longleftrightarrow> ent_index e \<in> rg_indices r \<and> rg_generations r ! unat (ent_index e) = ent_generation e"
proof -
  have "k \<in> rg_indices r \<Longrightarrow> unat k < length (rg_generations r)" for k using rg_wfD(7) [OF assms] by blast
  moreover have "ent_generation e \<noteq> 0" if "unat (ent_index e) < length (rg_generations r)"
    "rg_generations r ! unat (ent_index e) = ent_generation e"
    using rg_wfD(2) [OF assms] that by (metis nth_mem)
  ultimately show ?thesis using rg_wfD(3) [OF assms] by (auto simp: rg_valid_def ss_contains_iff)
qed

lemma unattached:
  assumes "rg_wf P r" and "find_storage t r = Some p" and "k \<notin> rg_indices r \<union> P"
  shows "\<not> cp_contains p k"
  using find_storage_ok(2) [OF assms(1,2), of k] assms(3) by blast

text \<open>A new alive index, taken from the free list or one past the last.\<close>

lemma rg_create_new:
  assumes wf: "rg_wf P r" and full: "rg_free r = []" and room: "Suc (length (rg_generations r)) < 2 ^ 32"
  defines "k \<equiv> of_nat (length (rg_generations r)) :: u32"
  defines "r' \<equiv> r\<lparr>rg_generations := rg_generations r @ [1], rg_alive := snd (ss_insert k (rg_alive r))\<rparr>"
  shows "rg_wf P r'" and "rg_indices r' = insert k (rg_indices r)" and "k \<notin> rg_indices r \<union> P"
    and "unat k = length (rg_generations r)"
proof -
  show k: "unat k = length (rg_generations r)" unfolding k_def using room by (intro unat_of_nat_less) simp
  have max: "unat k \<noteq> 2 ^ 64 - 1" using unsigned_less [of k, where ?'a = nat] by simp
  have range: "rg_indices r \<union> P = {j. unat j < length (rg_generations r)}" using rg_wfD(7) [OF wf] full by simp
  then show new: "k \<notin> rg_indices r \<union> P" by (simp add: k)
  note ins = ss_insert_ok [OF rg_wfD(3) [OF wf] max]
  show ind: "rg_indices r' = insert k (rg_indices r)" using ins(3) new by (simp add: r'_def)
  have "insert k {j. unat j < length (rg_generations r)} = {j. unat j < Suc (length (rg_generations r))}"
    using k by (auto simp: less_Suc_eq word_unat_eq_iff)
  then have "rg_indices r' \<union> P = {j. unat j < length (rg_generations r')}" using ind range by (simp add: r'_def)
  moreover have "storages_ok (rg_indices r' \<union> P) (rg_storages r')"
    using rg_wfD(8) [OF wf] ind by (auto simp: r'_def storages_ok_def)
  moreover have "P \<inter> rg_indices r' = {}" using ind new rg_wfD(6) [OF wf] by auto
  ultimately show "rg_wf P r'"
    using room full rg_wfD(2) [OF wf] ins(2) by (simp add: rg_wf_def r'_def)
qed

lemma rg_create_reuse:
  assumes wf: "rg_wf P r" and ne: "rg_free r \<noteq> []"
  defines "k \<equiv> last (rg_free r)"
  defines "r' \<equiv> r\<lparr>rg_free := butlast (rg_free r), rg_alive := snd (ss_insert k (rg_alive r))\<rparr>"
  shows "rg_wf P r'" and "rg_indices r' = insert k (rg_indices r)" and "k \<notin> rg_indices r \<union> P"
    and "unat k < length (rg_generations r)"
proof -
  have k: "k \<in> set (rg_free r)" using ne by (simp add: k_def)
  show new: "k \<notin> rg_indices r \<union> P" using k rg_wfD(5,6) [OF wf] by blast
  show "unat k < length (rg_generations r)" using k rg_wfD(7) [OF wf] by blast
  have max: "unat k \<noteq> 2 ^ 64 - 1" using unsigned_less [of k, where ?'a = nat] by simp
  note ins = ss_insert_ok [OF rg_wfD(3) [OF wf] max]
  show ind: "rg_indices r' = insert k (rg_indices r)" using ins(3) new by (simp add: r'_def)
  have fl: "rg_free r = butlast (rg_free r) @ [k]" using ne by (simp add: k_def)
  have d: "distinct (butlast (rg_free r) @ [k])" using rg_wfD(4) [OF wf] fl by simp
  have free: "set (rg_free r) = insert k (set (rg_free r'))" by (subst fl) (simp add: r'_def)
  moreover have "k \<notin> set (rg_free r')" using d by (simp add: r'_def)
  ultimately have "set (rg_free r') \<inter> rg_indices r' = {}" "P \<inter> (set (rg_free r') \<union> rg_indices r') = {}"
    "set (rg_free r') \<union> rg_indices r' \<union> P = {j. unat j < length (rg_generations r)}"
    using ind new rg_wfD(5-7) [OF wf] by auto
  moreover have "storages_ok (rg_indices r' \<union> P) (rg_storages r')"
    using rg_wfD(8) [OF wf] ind by (auto simp: r'_def storages_ok_def)
  ultimately show "rg_wf P r'"
    using rg_wfD(1,2) [OF wf] ins(2) d by (simp add: rg_wf_def r'_def)
qed

lemma rg_create_ok:
  assumes wf: "rg_wf P r" and room: "rg_free r \<noteq> [] \<or> Suc (length (rg_generations r)) < 2 ^ 32"
  obtains e r' where "rg_create r = (e, r')" and "rg_step P r r'" and "rg_valid r' = (rg_valid r)(e := True)"
    and "\<not> rg_valid r e" and "ent_index e \<notin> rg_indices r \<union> P" and "rg_storages r' = rg_storages r"
    and "registry.more r' = registry.more r"
proof -
  define e r' where "e = fst (rg_create r)" and "r' = snd (rg_create r)"
  have e: "rg_create r = (e, r')" by (simp add: e_def r'_def)
  have "rg_wf P r' \<and> rg_indices r' = insert (ent_index e) (rg_indices r) \<and> ent_index e \<notin> rg_indices r \<union> P \<and>
    rg_generations r' ! unat (ent_index e) = ent_generation e \<and> length (rg_generations r) \<le> length (rg_generations r') \<and>
    (\<forall>k. unat k < length (rg_generations r) \<longrightarrow> rg_generations r' ! unat (k :: u32) = rg_generations r ! unat k)"
  proof (cases "rg_free r = []")
    case True
    with room rg_create_new [OF wf True] show ?thesis
      by (simp add: e_def r'_def rg_create_def Let_def nth_append)
  next
    case False
    with rg_create_reuse [OF wf False] show ?thesis by (simp add: e_def r'_def rg_create_def Let_def)
  qed
  then have c: "rg_wf P r'" "rg_indices r' = insert (ent_index e) (rg_indices r)" "ent_index e \<notin> rg_indices r \<union> P"
    "rg_generations r' ! unat (ent_index e) = ent_generation e" "length (rg_generations r) \<le> length (rg_generations r')"
    and old: "\<And>k :: u32. unat k < length (rg_generations r) \<Longrightarrow> rg_generations r' ! unat k = rg_generations r ! unat k"
    by auto
  have st: "rg_storages r' = rg_storages r" "registry.more r' = registry.more r"
    by (simp_all add: r'_def rg_create_def Let_def)
  have ind: "k \<in> rg_indices r \<union> P \<Longrightarrow> unat k < length (rg_generations r)" for k
    using rg_wfD(7) [OF wf] by blast
  have step: "rg_step P r r'" using c(1,5) st old ind by (simp add: rg_step_def find_storage_def)
  have valid: "rg_valid r' = (rg_valid r)(e := True)"
  proof
    fix x
    show "rg_valid r' x = ((rg_valid r)(e := True)) x"
      using c old ind by (auto simp: rg_valid_iff [OF wf] rg_valid_iff [OF c(1)] entity_id.expand)
  qed
  have "\<not> rg_valid r e" using c(3) by (simp add: rg_valid_iff [OF wf])
  from that [OF e step valid this c(3) st] show ?thesis .
qed

lemma ensured: "\<exists>p. find_storage t (ensure_storage t r) = Some p \<and> rg_storages (ensure_storage t r) ! t = Some p"
proof -
  obtain p where "find_storage t (ensure_storage t r) = Some p" by (simp add: ensure_storage_finds)
  with find_storage_Some [of t "ensure_storage t r" p] show ?thesis by blast
qed

lemma rg_add_unfold:
  assumes "rg_wf P r" and v: "rg_valid r e"
  obtains p where "find_storage t (ensure_storage t r) = Some p"
    and "rg_add lis t e c r = (fst (cp_insert_or_assign (ent_index e) c p),
      lis (if fst (cp_insert_or_assign (ent_index e) c p) then On_construct else On_update) t e
        (set_storage t (snd (cp_insert_or_assign (ent_index e) c p)) (ensure_storage t r)))"
proof -
  from ensured [of t r] obtain p where p: "find_storage t (ensure_storage t r) = Some p"
    "rg_storages (ensure_storage t r) ! t = Some p" by blast
  then show ?thesis using v by (intro that [OF p(1)]) (simp add: rg_add_def Let_def case_prod_beta)
qed

lemma rg_valid_ensure [simp]: "rg_valid (ensure_storage t r) = rg_valid r"
  by (rule ext) (simp add: rg_valid_def)

lemma rg_valid_set_storage [simp]: "rg_valid (set_storage t p r) = rg_valid r"
  by (rule ext) (simp add: rg_valid_def)

text \<open>Storing a component for a valid entity, before the listeners run.\<close>

lemma store_step:
  assumes wf: "rg_wf P r" and v: "rg_valid r e" and p: "find_storage t r = Some p"
  shows "rg_step P r (set_storage t (snd (cp_insert_or_assign (ent_index e) c p)) r)"
proof -
  have i: "ent_index e \<in> rg_indices r" using v by (simp add: rg_valid_iff [OF wf])
  then have "unat (ent_index e) < length (rg_generations r)" using rg_wfD(7) [OF wf] by blast
  then have max: "ent_index e \<noteq> - 1" by (rule rg_index_max [OF wf])
  note ok = find_storage_ok [OF wf p] and ins = cp_insert_or_assign_ok [OF find_storage_ok(1) [OF wf p] max, of c]
  have "k \<in> rg_indices r \<union> P" if "cp_contains (snd (cp_insert_or_assign (ent_index e) c p)) k" for k
    using that ok i ins pool.has_law [OF ins(2), of k] pool.has_law [OF ok(1), of k] by (auto split: if_splits)
  then show ?thesis using p ins(2) by (intro set_storage_step [OF wf]) auto
qed

lemma rg_add_step:
  assumes lis: "listeners_ok lis" and wf: "rg_wf P r"
  shows "rg_step P r (snd (rg_add lis t e c r))"
proof (cases "rg_valid r e")
  case True
  let ?r1 = "ensure_storage t r"
  obtain p where p: "find_storage t ?r1 = Some p" and add: "rg_add lis t e c r = (fst (cp_insert_or_assign (ent_index e) c p),
      lis (if fst (cp_insert_or_assign (ent_index e) c p) then On_construct else On_update) t e
        (set_storage t (snd (cp_insert_or_assign (ent_index e) c p)) ?r1))"
    by (rule rg_add_unfold [OF wf True])
  have s1: "rg_step P r ?r1" by (rule ensure_storage_step [OF wf])
  have s2: "rg_step P ?r1 (set_storage t (snd (cp_insert_or_assign (ent_index e) c p)) ?r1)"
    using True by (intro store_step [OF rg_stepD(1) [OF s1]] p) simp
  from rg_step_trans [OF rg_step_trans [OF s1 s2] listeners_okD [OF lis rg_stepD(1) [OF s2]]] show ?thesis
    by (simp add: add)
qed (simp add: rg_add_def rg_step_refl wf)

lemma rg_remove_step:
  assumes lis: "listeners_ok lis" and wf: "rg_wf P r"
  shows "rg_step P r (snd (rg_remove lis t e r))"
proof -
  have "rg_step P r (lis On_destroy t e r)" by (rule listeners_okD [OF lis wf])
  with erase_component_step have "rg_step P r (snd (erase_component t (ent_index e) (lis On_destroy t e r)))"
    by (meson rg_stepD(1) rg_step_trans)
  then show ?thesis by (auto simp: rg_remove_def rg_step_refl wf split: option.splits)
qed

lemma rg_patch_step:
  assumes lis: "listeners_ok lis" and wf: "rg_wf P r"
  shows "rg_step P r (snd (rg_patch lis t e f r))"
proof -
  have "rg_step P r (lis On_update t e (set_storage t (cp_write (cp_slot_of p (ent_index e)) f p) r))"
    if p: "find_storage t r = Some p" and v: "cp_try_get p (ent_index e) \<noteq> None" for p
  proof -
    note ok = find_storage_ok [OF wf p]
    have c: "cp_contains p (ent_index e)" using v pool.has_law [OF ok(1)] by blast
    note w = cp_write_ok [OF ok(1) c, of f]
    have "rg_step P r (set_storage t (cp_write (cp_slot_of p (ent_index e)) f p) r)"
      using w(1,3) ok(2) p by (intro set_storage_step [OF wf]) auto
    with listeners_okD [OF lis] show ?thesis by (meson rg_stepD(1) rg_step_trans)
  qed
  then show ?thesis by (auto simp: rg_patch_def rg_step_refl wf split: option.splits)
qed

subsection \<open>Destruction\<close>

lemma rg_pending:
  assumes wf: "rg_wf P r" and v: "rg_valid r e"
  shows "rg_wf (insert (ent_index e) P) (r\<lparr>rg_alive := snd (ss_erase (ent_index e) (rg_alive r))\<rparr>)"
proof -
  let ?k = "ent_index e"
  note er = ss_erase_ok [OF rg_wfD(3) [OF wf], of ?k]
  have i: "?k \<in> rg_indices r" using v by (simp add: rg_valid_iff [OF wf])
  moreover have "rg_indices r - {?k} \<union> insert ?k P = rg_indices r \<union> P" using i by auto
  ultimately show ?thesis
    using rg_wfD [OF wf] er by (auto simp: rg_wf_def)
qed

lemma swept:
  fixes p :: "'c pool" and k :: u32
  assumes "cp_wf p"
  defines "p' \<equiv> if cp_contains p k then snd (cp_erase k p) else p"
  shows "cp_wf p'" and "cp_try_get p' = (cp_try_get p)(k := None)" and "cp_contains p' j \<longleftrightarrow> cp_contains p j \<and> j \<noteq> k"
proof -
  obtain d where d: "map (map_option (\<lambda>d. if cp_contains d k then snd (cp_erase k d) else d)) [Some p] ! 0 = Some d"
    "cp_wf d" "cp_try_get d = (cp_try_get p)(k := None)"
    by (rule pool.sweep_at [of 0 "[Some p]" p k]) (use assms(1) in simp_all)
  then have "d = p'" by (simp add: p'_def)
  with d show "cp_wf p'" and g: "cp_try_get p' = (cp_try_get p)(k := None)" by simp_all
  then show "cp_contains p' j \<longleftrightarrow> cp_contains p j \<and> j \<noteq> k" using pool.has_law assms(1) by (auto simp: pool.has_law)
qed

lemma rg_finish:
  assumes wf: "rg_wf (insert k P) r" and k: "k \<notin> P"
  defines "r' \<equiv> r\<lparr>rg_storages := detach_sweep k (rg_storages r),
    rg_generations := (rg_generations r)[unat k := (let g = rg_generations r ! unat k + 1 in if g = 0 then 1 else g)],
    rg_free := rg_free r @ [k]\<rparr>"
  shows "rg_wf P r'" and "find_storage t r' = Some p \<Longrightarrow> \<not> cp_contains p k"
proof -
  have finds: "find_storage t r' = map_option (\<lambda>p. if cp_contains p k then snd (cp_erase k p) else p) (find_storage t r)" for t
    by (simp add: r'_def find_storage_def detach_sweep_def)
  have clean: "cp_wf p \<and> (\<forall>j. cp_contains p j \<longrightarrow> j \<in> rg_indices r \<union> P \<and> j \<noteq> k)" if "find_storage t r' = Some p" for t p
  proof -
    from that finds [of t] obtain q where q: "find_storage t r = Some q"
      "p = (if cp_contains q k then snd (cp_erase k q) else q)" by (auto simp: map_option_case split: option.splits)
    from find_storage_ok [OF wf q(1)] swept [of q k] show ?thesis unfolding q(2) by blast
  qed
  then show "find_storage t r' = Some p \<Longrightarrow> \<not> cp_contains p k" by blast
  have "storages_ok (rg_indices r' \<union> P) (rg_storages r')"
    unfolding storages_ok_find using clean by (fastforce simp: r'_def)
  moreover have "k \<notin> set (rg_free r)" "k \<notin> rg_indices r" "P \<inter> (set (rg_free r) \<union> rg_indices r) = {}"
    using rg_wfD(6) [OF wf] by auto
  moreover have "0 \<notin> set ((rg_generations r)[unat k := (let g = rg_generations r ! unat k + 1 in if g = 0 then 1 else g)])"
    using rg_wfD(2) [OF wf] set_update_subset_insert by (fastforce simp: Let_def split: if_splits)
  moreover have "insert k (set (rg_free r)) \<union> rg_indices r \<union> P = {j. unat j < length (rg_generations r)}"
    using rg_wfD(7) [OF wf] by auto
  ultimately show "rg_wf P r'" using rg_wfD(1,3-5) [OF wf] k unfolding rg_wf_def by (simp add: r'_def Let_def)
qed

lemma rg_destroy_ok:
  assumes lis: "listeners_ok lis" and wf: "rg_wf P r" and v: "rg_valid r e"
  obtains r' where "rg_destroy lis e r = (True, r')" and "rg_step P r r'" and "\<not> rg_valid r' e"
    and "\<And>t p. find_storage t r' = Some p \<Longrightarrow> \<not> cp_contains p (ent_index e)"
proof -
  let ?k = "ent_index e"
  define r1 where "r1 = r\<lparr>rg_alive := snd (ss_erase ?k (rg_alive r))\<rparr>"
  define r2 where "r2 = detach_loop lis e [0..<length (rg_storages r1)] r1"
  define r' where "r' = r2\<lparr>rg_storages := detach_sweep ?k (rg_storages r2),
    rg_generations := (rg_generations r2)[unat ?k := (let g = rg_generations r2 ! unat ?k + 1 in if g = 0 then 1 else g)],
    rg_free := rg_free r2 @ [?k]\<rparr>"
  have k: "?k \<notin> P" using v rg_wfD(6) [OF wf] by (auto simp: rg_valid_iff [OF wf])
  have wf1: "rg_wf (insert ?k P) r1" unfolding r1_def by (rule rg_pending [OF wf v])
  have s2: "rg_step (insert ?k P) r1 r2" unfolding r2_def by (rule detach_loop_step [OF lis wf1])
  note fin = rg_finish [OF rg_stepD(1) [OF s2] k, folded r'_def]
  note s2 = rg_stepD [OF s2]
  have "rg_destroy lis e r = (True, r')"
    using v by (simp add: rg_destroy_def Let_def r1_def [symmetric] r2_def [symmetric] r'_def)
  moreover have "rg_step P r r'"
    unfolding rg_step_def
  proof (intro conjI allI ballI impI)
    show "rg_wf P r'" by (rule fin(1))
    show "length (rg_generations r) \<le> length (rg_generations r')" "length (rg_storages r) \<le> length (rg_storages r')"
      using s2(2,4) by (simp_all add: r'_def r1_def detach_sweep_def)
    show "rg_generations r' ! unat j = rg_generations r ! unat j" if "j \<in> P" for j
    proof -
      have "unat ?k \<noteq> unat j" using k that by (auto dest: unsigned_word_eqI)
      with s2(3) [of j] that show ?thesis by (simp add: r'_def r1_def)
    qed
    show "find_storage t r' \<noteq> None" if "find_storage t r \<noteq> None" for t
      using s2(5) [of t] that by (simp add: r'_def r1_def find_storage_def detach_sweep_def split: if_splits)
  qed
  moreover have "?k \<in> set (rg_free r')" by (simp add: r'_def)
  then have "\<not> rg_valid r' e" using rg_wfD(5) [OF fin(1)] by (auto simp: rg_valid_iff [OF fin(1)])
  ultimately show ?thesis using fin(2) by (rule that)
qed

lemma rg_destroy_step:
  assumes "listeners_ok lis" and "rg_wf P r"
  shows "rg_step P r (snd (rg_destroy lis e r))"
proof (cases "rg_valid r e")
  case True
  show ?thesis by (rule rg_destroy_ok [OF assms True]) simp
qed (simp add: rg_destroy_def rg_step_refl assms(2))

lemma cp_clear_empty [simp]: "\<not> cp_contains (cp_clear p) k"
  by (auto simp: cp_clear_def cp_contains_def)

lemma rg_clear_ok:
  assumes lis: "listeners_ok lis" and wf: "rg_wf {} r"
  shows "rg_step {} r (rg_clear lis r)" and "\<not> rg_valid (rg_clear lis r) e"
    and "find_storage t (rg_clear lis r) = Some p \<Longrightarrow> \<not> cp_contains p k"
proof -
  define r1 where "r1 = fire_all lis (ss_keys (rg_alive r)) r"
  let ?r = "rg_clear lis r" and ?n = "length (rg_generations r1)"
  have s1: "rg_step {} r r1" unfolding r1_def by (rule fire_all_step [OF lis wf])
  note wf1 = rg_stepD(1) [OF s1]
  have r: "rg_storages ?r = map (map_option cp_clear) (rg_storages r1)" "rg_free ?r = map of_nat [0..<?n]"
    "rg_generations ?r = map (\<lambda>g. if g \<noteq> 0 then (if g + 1 = 0 then 1 else g + 1) else g) (rg_generations r1)"
    "rg_alive ?r = ss_clear (rg_alive r1)"
    by (simp_all add: rg_clear_def Let_def r1_def)
  have finds: "find_storage t ?r = map_option cp_clear (find_storage t r1)" for t by (simp add: find_storage_def r)
  show "find_storage t ?r = Some p \<Longrightarrow> \<not> cp_contains p k" by (auto simp: finds)
  have small: "unat (of_nat i :: u32) = i" if "i < ?n" for i
    using that rg_wfD(1) [OF wf1] by (intro unat_of_nat_less) simp
  have "inj_on (of_nat :: nat \<Rightarrow> u32) (set [0..<?n])" by (rule inj_onI) (metis small atLeastLessThan_iff set_upt)
  then have d: "distinct (rg_free ?r)" by (simp add: r distinct_map)
  have "k \<in> of_nat ` {0..<?n}" if "unat k < ?n" for k :: u32
    using that by (intro image_eqI [of _ _ "unat k"]) simp_all
  then have "set (rg_free ?r) = {k. unat k < ?n}" using small by (auto simp: r)
  moreover have "storages_ok {} (rg_storages ?r)"
    unfolding storages_ok_find using find_storage_ok(1) [OF wf1] by (auto simp: finds cp_clear_ok)
  moreover have "0 \<notin> set (rg_generations ?r)" using rg_wfD(2) [OF wf1] by (auto simp: r)
  ultimately have wf': "rg_wf {} ?r" using rg_wfD(1) [OF wf1] d by (simp add: rg_wf_def r)
  then show "\<not> rg_valid ?r e" by (simp add: rg_valid_iff r)
  show "rg_step {} r ?r" using s1 wf' by (simp add: rg_step_def finds) (simp add: r)
qed

subsection \<open>The components of an entity\<close>

definition component_of :: "('c, 's) registry_scheme \<Rightarrow> entity_id \<Rightarrow> nat \<Rightarrow> 'c option" where
  "component_of r e t =
     (if rg_valid r e then case find_storage t r of None \<Rightarrow> None | Some p \<Rightarrow> cp_try_get p (ent_index e) else None)"

lemma component_of_finds:
  assumes "rg_valid r' = rg_valid r"
    and "\<And>e t. rg_valid r e \<Longrightarrow> (case find_storage t r' of None \<Rightarrow> None | Some p \<Rightarrow> cp_try_get p (ent_index e)) = f e t"
    and "\<And>e t. \<not> rg_valid r e \<Longrightarrow> f e t = None"
  shows "component_of r' = f"
  using assms by (auto simp: component_of_def fun_eq_iff)

lemma valid_index_eq:
  assumes "rg_wf P r" and "rg_valid r e" and "rg_valid r e'" and "ent_index e = ent_index e'"
  shows "e = e'"
  using assms by (auto simp: rg_valid_iff entity_id.expand)

lemma rg_get_component: "rg_get t e r = (case component_of r e t of Some v \<Rightarrow> Inr v | None \<Rightarrow> Inl Not_found)"
  by (auto simp: rg_get_def storage_at_def component_of_def split: option.splits)

lemma rg_has_component:
  assumes wf: "rg_wf P r"
  shows "rg_has t e r \<longleftrightarrow> component_of r e t \<noteq> None"
proof (cases "find_storage t r")
  case (Some p)
  with pool.has_law [OF find_storage_ok(1) [OF wf Some]] show ?thesis by (simp add: rg_has_def component_of_def)
qed (simp add: rg_has_def component_of_def)

lemma component_of_ensure [simp]: "component_of (ensure_storage t r) = component_of r"
  by (rule component_of_finds) (auto simp: ensure_storage_finds component_of_def split: option.splits)

lemma component_of_create:
  assumes "rg_wf P r" and "rg_free r \<noteq> [] \<or> Suc (length (rg_generations r)) < 2 ^ 32"
  shows "component_of (snd (rg_create r)) = component_of r"
proof -
  obtain e r' where c: "rg_create r = (e, r')" "rg_valid r' = (rg_valid r)(e := True)" "\<not> rg_valid r e"
    "ent_index e \<notin> rg_indices r \<union> P" "rg_storages r' = rg_storages r" using rg_create_ok [OF assms] by metis
  have "find_storage t r = Some p \<Longrightarrow> cp_try_get p (ent_index e) = None" for t p
    using unattached [OF assms(1) _ c(4)] find_storage_ok(1) [OF assms(1)] pool.has_law by blast
  moreover have "find_storage t r' = find_storage t r" for t by (simp add: find_storage_def c(5))
  ultimately show ?thesis using c(1-3) by (auto simp: component_of_def fun_eq_iff split: option.splits)
qed

lemma component_of_set_storage:
  assumes "find_storage t r = Some p"
  shows "component_of (set_storage t p' r) e t' =
    (if rg_valid r e \<and> t' = t then cp_try_get p' (ent_index e) else component_of r e t')"
  using set_storage_finds [of t r t' p'] assms by (auto simp: component_of_def)

lemma component_of_store:
  assumes wf: "rg_wf P r" and v: "rg_valid r e" and p: "find_storage t r = Some p"
  shows "component_of (set_storage t (snd (cp_insert_or_assign (ent_index e) c p)) r) =
      (component_of r)(e := (component_of r e)(t \<mapsto> c))"
    and "fst (cp_insert_or_assign (ent_index e) c p) \<longleftrightarrow> component_of r e t = None"
proof -
  have "ent_index e \<in> rg_indices r" using v by (simp add: rg_valid_iff [OF wf])
  then have "unat (ent_index e) < length (rg_generations r)" using rg_wfD(7) [OF wf] by blast
  then have max: "ent_index e \<noteq> - 1" by (rule rg_index_max [OF wf])
  note ins = cp_insert_or_assign_ok [OF find_storage_ok(1) [OF wf p] max, of c]
  show "fst (cp_insert_or_assign (ent_index e) c p) \<longleftrightarrow> component_of r e t = None"
    using v p by (simp add: ins component_of_def)
  show "component_of (set_storage t (snd (cp_insert_or_assign (ent_index e) c p)) r) =
      (component_of r)(e := (component_of r e)(t \<mapsto> c))"
  proof (intro ext)
    fix e' t'
    show "component_of (set_storage t (snd (cp_insert_or_assign (ent_index e) c p)) r) e' t' =
        ((component_of r)(e := (component_of r e)(t \<mapsto> c))) e' t'"
      using v p valid_index_eq [OF wf v, of e'] unfolding component_of_set_storage [OF p]
      by (auto simp: ins component_of_def)
  qed
qed

text \<open>What an addition leaves to the listeners, whatever they do.\<close>

lemma rg_add_fires:
  assumes wf: "rg_wf P r" and v: "rg_valid r e"
  obtains r1 where "rg_add lis t e c r =
      (component_of r e t = None, lis (if component_of r e t = None then On_construct else On_update) t e r1)"
    and "rg_wf P r1" and "rg_valid r1 = rg_valid r" and "component_of r1 = (component_of r)(e := (component_of r e)(t \<mapsto> c))"
proof -
  let ?r = "ensure_storage t r"
  obtain p where p: "find_storage t ?r = Some p" and add: "rg_add lis t e c r = (fst (cp_insert_or_assign (ent_index e) c p),
      lis (if fst (cp_insert_or_assign (ent_index e) c p) then On_construct else On_update) t e
        (set_storage t (snd (cp_insert_or_assign (ent_index e) c p)) ?r))"
    by (rule rg_add_unfold [OF wf v])
  have wf1: "rg_wf P ?r" by (rule rg_stepD(1) [OF ensure_storage_step [OF wf]])
  have v1: "rg_valid ?r e" using v by simp
  note st = component_of_store [OF wf1 v1 p, of c] and step = store_step [OF wf1 v1 p, of c]
  show ?thesis
    by (rule that [of "set_storage t (snd (cp_insert_or_assign (ent_index e) c p)) ?r"])
      (use st rg_stepD(1) [OF step] in \<open>simp_all add: add\<close>)
qed

lemma erase_component_ok:
  assumes wf: "rg_wf P r" and v: "rg_valid r e"
  shows "fst (erase_component t (ent_index e) r) \<longleftrightarrow> component_of r e t \<noteq> None"
    and "rg_valid (snd (erase_component t (ent_index e) r)) = rg_valid r"
    and "component_of (snd (erase_component t (ent_index e) r)) = (component_of r)(e := (component_of r e)(t := None))"
proof -
  have "(fst (erase_component t (ent_index e) r) \<longleftrightarrow> component_of r e t \<noteq> None) \<and>
    rg_valid (snd (erase_component t (ent_index e) r)) = rg_valid r \<and>
    component_of (snd (erase_component t (ent_index e) r)) = (component_of r)(e := (component_of r e)(t := None))"
  proof (cases "find_storage t r")
    case None
    then show ?thesis using v by (auto simp: erase_component_def component_of_def fun_eq_iff)
  next
    case (Some p)
    note er = pool.del_law [OF find_storage_ok(1) [OF wf Some], of "ent_index e"] pool.has_law [OF find_storage_ok(1) [OF wf Some], of "ent_index e"]
    have eq: "erase_component t (ent_index e) r = (fst (cp_erase (ent_index e) p), set_storage t (snd (cp_erase (ent_index e) p)) r)"
      using Some by (simp add: erase_component_def case_prod_beta)
    have "component_of (snd (erase_component t (ent_index e) r)) e' t' =
        ((component_of r)(e := (component_of r e)(t := None))) e' t'" for e' t'
      using v Some valid_index_eq [OF wf v, of e'] unfolding eq snd_conv component_of_set_storage [OF Some]
      by (auto simp: er component_of_def)
    with er v Some show ?thesis by (auto simp: eq component_of_def fun_eq_iff)
  qed
  then show "fst (erase_component t (ent_index e) r) \<longleftrightarrow> component_of r e t \<noteq> None"
    and "rg_valid (snd (erase_component t (ent_index e) r)) = rg_valid r"
    and "component_of (snd (erase_component t (ent_index e) r)) = (component_of r)(e := (component_of r e)(t := None))" by auto
qed

lemma component_of_patch:
  assumes wf: "rg_wf P r" and v: "rg_valid r e" and p: "find_storage t r = Some p" and c: "cp_try_get p (ent_index e) \<noteq> None"
  shows "component_of (set_storage t (cp_write (cp_slot_of p (ent_index e)) f p) r) =
    (component_of r)(e := (component_of r e)(t := map_option f (component_of r e t)))"
proof (intro ext)
  fix e' t'
  have "cp_contains p (ent_index e)" using c pool.has_law [OF find_storage_ok(1) [OF wf p]] by blast
  note w = cp_write_ok(2) [OF find_storage_ok(1) [OF wf p] this, of f]
  show "component_of (set_storage t (cp_write (cp_slot_of p (ent_index e)) f p) r) e' t' =
      ((component_of r)(e := (component_of r e)(t := map_option f (component_of r e t)))) e' t'"
    using v p valid_index_eq [OF wf v, of e'] unfolding component_of_set_storage [OF p]
    by (auto simp: w component_of_def)
qed

subsection \<open>Runs of operations\<close>

text \<open>The registries a program can reach, with its listeners answering every signal. A creation
  respects the assertion of the code. \<open>on_construct\<close> and its like and \<open>storage\<close> register a type.\<close>

inductive rg_reachable :: "('c, 's) listeners \<Rightarrow> ('c, 's) registry_scheme \<Rightarrow> bool" for lis where
  start: "registry.truncate r = rg_default \<Longrightarrow> rg_reachable lis r"
| create: "rg_reachable lis r \<Longrightarrow> rg_free r \<noteq> [] \<or> Suc (length (rg_generations r)) < 2 ^ 32 \<Longrightarrow>
    rg_reachable lis (snd (rg_create r))"
| destroy: "rg_reachable lis r \<Longrightarrow> rg_reachable lis (snd (rg_destroy lis e r))"
| add: "rg_reachable lis r \<Longrightarrow> rg_reachable lis (snd (rg_add lis t e c r))"
| remove: "rg_reachable lis r \<Longrightarrow> rg_reachable lis (snd (rg_remove lis t e r))"
| patch: "rg_reachable lis r \<Longrightarrow> rg_reachable lis (snd (rg_patch lis t e f r))"
| clear: "rg_reachable lis r \<Longrightarrow> rg_reachable lis (rg_clear lis r)"
| register: "rg_reachable lis r \<Longrightarrow> rg_reachable lis (ensure_storage t r)"

lemma rg_truncate: "registry.truncate r = registry.truncate r' \<longleftrightarrow> rg_generations r = rg_generations r' \<and>
    rg_free r = rg_free r' \<and> rg_alive r = rg_alive r' \<and> rg_storages r = rg_storages r'"
  by (simp add: registry.truncate_def)

lemma rg_wf_truncate: "registry.truncate r = registry.truncate r' \<Longrightarrow> rg_wf P r \<longleftrightarrow> rg_wf P r'"
  by (simp add: rg_truncate rg_wf_def)

lemma rg_reachable_wf:
  assumes "listeners_ok lis"
  shows "rg_reachable lis r \<Longrightarrow> rg_wf {} r"
proof (induction rule: rg_reachable.induct)
  case (start r)
  then have "rg_generations r = []" "rg_free r = []" "rg_alive r = ss_default" "rg_storages r = []"
    by (simp_all add: registry.truncate_def rg_default_def)
  then show ?case by (simp add: rg_wf_def storages_ok_def)
next
  case (create r)
  from rg_create_ok [OF create.IH create.hyps(2)] show ?case by (metis rg_stepD(1) snd_conv)
qed (meson assms rg_destroy_step rg_add_step rg_remove_step rg_patch_step rg_clear_ok(1) ensure_storage_step rg_stepD(1))+

text \<open>Listeners that leave the registry itself alone and keep to a state of their own.\<close>

definition watching :: "('c, 's) listeners \<Rightarrow> bool" where
  "watching lis \<longleftrightarrow> (\<forall>ev t e r. registry.truncate (lis ev t e r) = registry.truncate r)"

lemma watching_same:
  assumes "watching lis"
  shows "rg_generations (lis ev t e r) = rg_generations r" "rg_free (lis ev t e r) = rg_free r"
    "rg_alive (lis ev t e r) = rg_alive r" "rg_storages (lis ev t e r) = rg_storages r"
  using assms by (simp_all add: watching_def rg_truncate)

lemma same_registry:
  assumes "registry.truncate r = registry.truncate r'"
  shows "find_storage t r = find_storage t r'" and "rg_valid r = rg_valid r'" and "component_of r = component_of r'"
  using assms by (auto simp: rg_truncate find_storage_def rg_valid_def component_of_def fun_eq_iff)

lemma watching_spec:
  assumes "watching lis"
  shows "find_storage i (lis ev t e r) = find_storage i r" and "rg_valid (lis ev t e r) = rg_valid r"
    and "component_of (lis ev t e r) = component_of r"
  using same_registry [of "lis ev t e r" r] assms by (auto simp: watching_def)

lemma watching_ok: "watching lis \<Longrightarrow> listeners_ok lis"
proof -
  assume lis: "watching lis"
  then have "rg_wf P (lis ev t e r) \<longleftrightarrow> rg_wf P r" for P ev t e r by (intro rg_wf_truncate) (simp add: watching_def)
  with lis show ?thesis by (simp add: listeners_ok_def rg_step_def watching_same watching_spec)
qed

text \<open>With such listeners the loop of a destruction erases the entity's components and nothing else.\<close>

lemma erase_component_finds:
  "find_storage i (snd (erase_component t k r)) = (if i = t then map_option (\<lambda>p. snd (cp_erase k p)) (find_storage t r) else find_storage i r)"
  using set_storage_finds [of t r i] by (auto simp: erase_component_def case_prod_beta split: option.splits)

lemma erase_component_same [simp]:
  "rg_generations (snd (erase_component t k r)) = rg_generations r" "rg_alive (snd (erase_component t k r)) = rg_alive r"
  by (simp_all add: erase_component_def case_prod_beta split: option.splits)

lemma fire_on_destroy_watching: "watching lis \<Longrightarrow> find_storage i (fire_on_destroy lis t e r) = find_storage i r"
  "watching lis \<Longrightarrow> rg_generations (fire_on_destroy lis t e r) = rg_generations r"
  "watching lis \<Longrightarrow> rg_alive (fire_on_destroy lis t e r) = rg_alive r"
  by (auto simp: fire_on_destroy_def watching_spec watching_same split: option.splits)

definition pool_map :: "nat \<Rightarrow> ('c, 's) registry_scheme \<Rightarrow> u32 \<Rightarrow> 'c option" where
  "pool_map t r k = (case find_storage t r of None \<Rightarrow> None | Some p \<Rightarrow> cp_try_get p k)"

lemma detach_loop_watching:
  assumes lis: "watching lis"
  shows "rg_wf P r \<Longrightarrow> rg_generations (detach_loop lis e is r) = rg_generations r \<and> rg_alive (detach_loop lis e is r) = rg_alive r \<and>
    (k \<noteq> ent_index e \<longrightarrow> pool_map t (detach_loop lis e is r) k = pool_map t r k)"
proof (induction "is" arbitrary: r)
  case (Cons i js)
  let ?r = "snd (erase_component i (ent_index e) (fire_on_destroy lis i e r))"
  have "rg_wf P ?r"
    using fire_on_destroy_step [OF watching_ok [OF lis] Cons.prems] by (meson erase_component_step rg_stepD(1))
  note IH = Cons.IH [OF this]
  have "pool_map t ?r k = pool_map t r k" if "k \<noteq> ent_index e"
    using that cp_erase_ok(3) [OF find_storage_ok(1) [OF Cons.prems]]
    by (cases "find_storage t r"; cases "t = i")
      (simp_all add: pool_map_def erase_component_finds fire_on_destroy_watching [OF lis])
  with IH Cons.IH [OF Cons.prems] show ?case by (auto simp: fire_on_destroy_watching [OF lis] split: option.splits)
qed simp

lemma rg_destroy_watching:
  assumes lis: "watching lis" and wf: "rg_wf {} r" and v: "rg_valid r e"
  shows "rg_valid (snd (rg_destroy lis e r)) = (rg_valid r)(e := False)"
    and "component_of (snd (rg_destroy lis e r)) = (component_of r)(e := Map.empty)"
proof -
  let ?k = "ent_index e" and ?r = "snd (rg_destroy lis e r)"
  define r1 where "r1 = r\<lparr>rg_alive := snd (ss_erase ?k (rg_alive r))\<rparr>"
  define r2 where "r2 = detach_loop lis e [0..<length (rg_storages r1)] r1"
  have wf1: "rg_wf {?k} r1" unfolding r1_def by (rule rg_pending [OF wf v])
  note loop = detach_loop_watching [OF lis wf1, of e "[0..<length (rg_storages r1)]", folded r2_def]
  have wf2: "rg_wf {?k} r2"
    unfolding r2_def by (rule rg_stepD(1) [OF detach_loop_step [OF watching_ok [OF lis] wf1]])
  have r: "rg_storages ?r = detach_sweep ?k (rg_storages r2)" "rg_alive ?r = rg_alive r2"
    "rg_generations ?r = (rg_generations r2)[unat ?k := (let g = rg_generations r2 ! unat ?k + 1 in if g = 0 then 1 else g)]"
    using v by (simp_all add: rg_destroy_def Let_def r1_def [symmetric] r2_def [symmetric])
  have wf': "rg_wf {} ?r" by (rule rg_stepD(1) [OF rg_destroy_step [OF watching_ok [OF lis] wf]])
  have ind: "rg_indices ?r = rg_indices r - {?k}"
    using loop ss_erase_ok(3) [OF rg_wfD(3) [OF wf]] by (simp add: r r1_def)
  have gen: "rg_generations ?r ! unat j = rg_generations r ! unat j" if "j \<noteq> ?k" for j
  proof -
    have "unat ?k \<noteq> unat j" using that by (auto dest: unsigned_word_eqI)
    with loop show ?thesis by (simp add: r r1_def)
  qed
  show valid: "rg_valid ?r = (rg_valid r)(e := False)"
  proof
    fix e'
    show "rg_valid ?r e' = ((rg_valid r)(e := False)) e'"
    proof (cases "ent_index e' = ?k")
      case True
      with ind valid_index_eq [OF wf v, of e'] show ?thesis by (auto simp: rg_valid_iff [OF wf'])
    next
      case False
      then have "e' \<noteq> e" by auto
      with False ind gen [OF False] show ?thesis by (simp add: rg_valid_iff [OF wf] rg_valid_iff [OF wf'])
    qed
  qed
  have pools: "pool_map t ?r j = pool_map t r j" if "j \<noteq> ?k" for t j
  proof -
    have "find_storage t ?r = map_option (\<lambda>p. if cp_contains p ?k then snd (cp_erase ?k p) else p) (find_storage t r2)"
      by (simp add: find_storage_def r detach_sweep_def)
    then have "pool_map t ?r j = pool_map t r2 j"
      using swept(2) [OF find_storage_ok(1) [OF wf2], of t _ ?k] that
      by (cases "find_storage t r2") (simp_all add: pool_map_def)
    also have "\<dots> = pool_map t r1 j" using loop that by blast
    finally show ?thesis by (simp add: pool_map_def r1_def find_storage_def)
  qed
  show "component_of ?r = (component_of r)(e := Map.empty)"
  proof (intro ext)
    fix e' t
    show "component_of ?r e' t = ((component_of r)(e := Map.empty)) e' t"
    proof (cases "ent_index e' = ?k")
      case True
      with valid_index_eq [OF wf v, of e'] show ?thesis by (auto simp: component_of_def valid)
    next
      case False
      then have "e' \<noteq> e" by auto
      with pools [OF False, of t] show ?thesis by (simp add: component_of_def valid pool_map_def)
    qed
  qed
qed

subsection \<open>Theorems\<close>

text \<open>What the registry promises: a set of valid entities and, for each, a map from component types
  to values.\<close>

definition component_spec :: "('c, 's) listeners \<Rightarrow> ('c, 's) registry_scheme \<Rightarrow> bool" where
  "component_spec lis r \<longleftrightarrow>
     (\<forall>e t. rg_get t e r = (case component_of r e t of Some c \<Rightarrow> Inr c | None \<Rightarrow> Inl Not_found) \<and>
        rg_has t e r = (component_of r e t \<noteq> None)) \<and>
     (rg_free r \<noteq> [] \<or> Suc (length (rg_generations r)) < 2 ^ 32 \<longrightarrow>
        (let (e, r') = rg_create r
         in \<not> rg_valid r e \<and> rg_valid r' = (rg_valid r)(e := True) \<and> component_of r' = component_of r)) \<and>
     (\<forall>e. let (b, r') = rg_destroy lis e r
        in b = rg_valid r e \<and> rg_valid r' = (rg_valid r)(e := False) \<and>
           component_of r' = (component_of r)(e := Map.empty)) \<and>
     (\<forall>t e c. let (b, r') = rg_add lis t e c r
        in b = (rg_valid r e \<and> component_of r e t = None) \<and> rg_valid r' = rg_valid r \<and>
           component_of r' = (if rg_valid r e then (component_of r)(e := (component_of r e)(t \<mapsto> c)) else component_of r)) \<and>
     (\<forall>t e. let (b, r') = rg_remove lis t e r
        in b = (component_of r e t \<noteq> None) \<and> rg_valid r' = rg_valid r \<and>
           component_of r' = (component_of r)(e := (component_of r e)(t := None))) \<and>
     (\<forall>t e f. let (b, r') = rg_patch lis t e f r
        in b = (component_of r e t \<noteq> None) \<and> rg_valid r' = rg_valid r \<and>
           component_of r' = (component_of r)(e := (component_of r e)(t := map_option f (component_of r e t)))) \<and>
     (let r' = rg_clear lis r in rg_valid r' = (\<lambda>_. False) \<and> component_of r' = (\<lambda>_ _. None))"

lemma component_of_invalid: "\<not> rg_valid r e \<Longrightarrow> component_of r e = Map.empty"
  by (rule ext) (simp add: component_of_def)

lemma spec_get_has:
  "rg_wf {} r \<Longrightarrow> rg_get t e r = (case component_of r e t of Some c \<Rightarrow> Inr c | None \<Rightarrow> Inl Not_found) \<and>
     rg_has t e r = (component_of r e t \<noteq> None)"
  by (simp only: rg_get_component rg_has_component simp_thms)

lemma spec_create:
  assumes "rg_wf {} r" and "rg_free r \<noteq> [] \<or> Suc (length (rg_generations r)) < 2 ^ 32"
  shows "let (e, r') = rg_create r
    in \<not> rg_valid r e \<and> rg_valid r' = (rg_valid r)(e := True) \<and> component_of r' = component_of r"
proof -
  obtain e r' where "rg_create r = (e, r')" "rg_valid r' = (rg_valid r)(e := True)" "\<not> rg_valid r e"
    by (rule rg_create_ok [OF assms])
  with component_of_create [OF assms] show ?thesis by simp
qed

lemma spec_destroy:
  assumes lis: "watching lis" and wf: "rg_wf {} r"
  shows "let (b, r') = rg_destroy lis e r
    in b = rg_valid r e \<and> rg_valid r' = (rg_valid r)(e := False) \<and> component_of r' = (component_of r)(e := Map.empty)"
proof (cases "rg_valid r e")
  case True
  have "fst (rg_destroy lis e r)" by (rule rg_destroy_ok [OF watching_ok [OF lis] wf True]) simp
  with rg_destroy_watching [OF lis wf True] True show ?thesis by (simp add: case_prod_beta)
next
  case False
  with component_of_invalid [OF False] show ?thesis by (auto simp: rg_destroy_def fun_eq_iff)
qed

lemma spec_add:
  assumes lis: "watching lis" and wf: "rg_wf {} r"
  shows "let (b, r') = rg_add lis t e c r
    in b = (rg_valid r e \<and> component_of r e t = None) \<and> rg_valid r' = rg_valid r \<and>
       component_of r' = (if rg_valid r e then (component_of r)(e := (component_of r e)(t \<mapsto> c)) else component_of r)"
proof (cases "rg_valid r e")
  case True
  show ?thesis
    by (rule rg_add_fires [OF wf True, of lis t c]) (use True in \<open>simp add: watching_spec [OF lis]\<close>)
qed (simp add: rg_add_def)

lemma spec_remove:
  assumes lis: "watching lis" and wf: "rg_wf {} r"
  shows "let (b, r') = rg_remove lis t e r
    in b = (component_of r e t \<noteq> None) \<and> rg_valid r' = rg_valid r \<and>
       component_of r' = (component_of r)(e := (component_of r e)(t := None))"
proof (cases "component_of r e t = None")
  case True
  then have "rg_remove lis t e r = (False, r)" by (auto simp: rg_remove_def component_of_def split: option.splits if_splits)
  with True show ?thesis by (simp add: fun_upd_idem)
next
  case False
  then have v: "rg_valid r e" by (auto simp: component_of_def split: if_splits)
  have eq: "rg_remove lis t e r = erase_component t (ent_index e) (lis On_destroy t e r)"
    using False by (auto simp: rg_remove_def component_of_def split: option.splits if_splits)
  have "rg_wf {} (lis On_destroy t e r)" by (rule rg_stepD(1) [OF listeners_okD [OF watching_ok [OF lis] wf]])
  from erase_component_ok [OF this, of e t] v False show ?thesis by (simp add: eq case_prod_beta watching_spec [OF lis])
qed

lemma spec_patch:
  assumes lis: "watching lis" and wf: "rg_wf {} r"
  shows "let (b, r') = rg_patch lis t e f r
    in b = (component_of r e t \<noteq> None) \<and> rg_valid r' = rg_valid r \<and>
       component_of r' = (component_of r)(e := (component_of r e)(t := map_option f (component_of r e t)))"
proof (cases "component_of r e t = None")
  case True
  then have "rg_patch lis t e f r = (False, r)" by (auto simp: rg_patch_def component_of_def split: option.splits if_splits)
  with True show ?thesis by (simp add: fun_upd_idem)
next
  case False
  then obtain p where p: "rg_valid r e" "find_storage t r = Some p" "cp_try_get p (ent_index e) \<noteq> None"
    by (auto simp: component_of_def split: if_splits option.splits)
  then have "rg_patch lis t e f r = (True, lis On_update t e (set_storage t (cp_write (cp_slot_of p (ent_index e)) f p) r))"
    by (simp add: rg_patch_def)
  with False component_of_patch [OF wf p] show ?thesis by (simp add: watching_spec [OF lis])
qed

text \<open>C36: The registry refines a set of valid entities, each with a map from component types to values:
  with listeners that only watch, in every state a program can reach, \<open>create\<close> adds an entity that was not
  valid and has no component, \<open>destroy\<close> removes exactly one with all its components, \<open>add\<close>, \<open>remove\<close> and
  \<open>patch\<close> change one component of one valid entity and report whether it was there, \<open>get\<close> and \<open>has\<close> read
  the map, and \<open>clear\<close> empties everything.\<close>

theorem registry_refines_components:
  assumes "watching lis" and "rg_reachable lis r"
  shows "component_spec lis r"
proof -
  have wf: "rg_wf {} r" by (rule rg_reachable_wf [OF watching_ok [OF assms(1)] assms(2)])
  have clear: "rg_valid (rg_clear lis r) = (\<lambda>_. False)"
    by (rule ext) (simp add: rg_clear_ok(2) [OF watching_ok [OF assms(1)] wf])
  then have "component_of (rg_clear lis r) = (\<lambda>_ _. None)" by (simp add: component_of_def fun_eq_iff)
  with clear show ?thesis
    unfolding component_spec_def Let_def [of "rg_clear lis r"]
    by (intro conjI allI impI spec_create spec_destroy spec_add spec_remove spec_patch wf assms)
      (auto simp: spec_get_has [OF wf, THEN conjunct1] spec_get_has [OF wf, THEN conjunct2])
qed

lemmas registry_defs = rg_create_def rg_add_def rg_valid_def ensure_storage_def set_storage_def find_storage_def
  cp_insert_or_assign_def cp_slot_of_def cp_default_def cp_try_get_def cp_contains_def resize_list_def
  ss_insert_def ss_contains_def ensure_sparse_capacity_def ss_default_def rg_default_def component_of_def Let_def
  registry.defs

lemmas destroy_defs = rg_destroy_def fire_on_destroy_def erase_component_def cp_erase_def detach_sweep_def
  ss_erase_def invalid_index_def

text \<open>A program for the witnesses: two entities, the first with components of two types. The listeners
  \<open>counting\<close> count the signals in a state of their own.\<close>

definition sample :: "(nat, 's) listeners \<Rightarrow> 's \<Rightarrow> (nat, 's) registry_scheme" where
  "sample lis s =
     (let (a, r1) = rg_create (registry.extend rg_default s);
          (b, r2) = rg_create r1;
          r3 = snd (rg_add lis 0 a 7 r2);
          r4 = snd (rg_add lis 1 a 8 r3)
      in snd (rg_add lis 1 b 9 r4))"

lemma sample_reachable: "rg_reachable lis (sample lis s)"
proof -
  let ?r0 = "registry.extend rg_default s"
  have "rg_reachable lis ?r0"
    by (intro rg_reachable.start) (simp add: registry.defs rg_default_def)
  moreover have "Suc (length (rg_generations ?r0)) < 2 ^ 32" "Suc (length (rg_generations (snd (rg_create ?r0)))) < 2 ^ 32"
    by (simp_all add: registry.defs rg_default_def rg_create_def)
  ultimately show ?thesis
    unfolding sample_def Let_def case_prod_beta
    by (intro rg_reachable.add rg_reachable.create) auto
qed

definition counting :: "(nat, nat) listeners" where
  "counting ev t e r = registry.more_update Suc r"

lemma counting_watches: "watching counting"
  by (simp add: watching_def counting_def rg_truncate)

theorem registry_refines_components_witness:
  "component_spec counting (sample counting 0) \<and> registry.more (sample counting 0) = 3 \<and>
   component_of (sample counting 0) (Entity 0 1) 1 = Some 8 \<and> component_of (sample counting 0) (Entity 1 1) 1 = Some 9"
proof -
  have "registry.more (sample counting 0) = 3 \<and> component_of (sample counting 0) (Entity 0 1) 1 = Some 8 \<and>
    component_of (sample counting 0) (Entity 1 1) 1 = Some 9"
    by (simp add: sample_def counting_def registry_defs)
  with registry_refines_components [OF counting_watches sample_reachable] show ?thesis by blast
qed

text \<open>C37: Destruction is safe when the listeners call back into the registry, as long as they leave it
  well-formed: the entity ends up invalid and no storage has a component at its index, whatever the
  listeners attached in between; every component in any storage belongs to a valid entity; and the free
  list names no index twice and none that is in use, so no two entities will share an index.\<close>

theorem registry_destroy_reentrant:
  assumes "listeners_ok lis" and "rg_reachable lis r" and "rg_valid r e"
  shows "\<exists>r'. rg_destroy lis e r = (True, r') \<and> \<not> rg_valid r' e \<and>
    (\<forall>t p. find_storage t r' = Some p \<longrightarrow> \<not> cp_contains p (ent_index e)) \<and>
    (\<forall>t p k. find_storage t r' = Some p \<and> cp_contains p k \<longrightarrow> (\<exists>e'. rg_valid r' e' \<and> ent_index e' = k)) \<and>
    distinct (rg_free r') \<and> (\<forall>e'. rg_valid r' e' \<longrightarrow> ent_index e' \<notin> set (rg_free r'))"
proof -
  have wf: "rg_wf {} r" by (rule rg_reachable_wf [OF assms(1,2)])
  obtain r' where r': "rg_destroy lis e r = (True, r')" "rg_step {} r r'" "\<not> rg_valid r' e"
    "\<And>t p. find_storage t r' = Some p \<Longrightarrow> \<not> cp_contains p (ent_index e)"
    using rg_destroy_ok [OF assms(1) wf assms(3)] by blast
  note wf' = rg_stepD(1) [OF r'(2)]
  have "\<exists>e'. rg_valid r' e' \<and> ent_index e' = k" if "find_storage t r' = Some p" "cp_contains p k" for t p k
    using find_storage_ok(2) [OF wf' that]
    by (intro exI [of _ "Entity k (rg_generations r' ! unat k)"]) (simp add: rg_valid_iff [OF wf'])
  moreover have "rg_valid r' e' \<Longrightarrow> ent_index e' \<notin> set (rg_free r')" for e'
    using rg_wfD(5) [OF wf'] by (auto simp: rg_valid_iff [OF wf'])
  ultimately show ?thesis using r'(1,3,4) rg_wfD(4) [OF wf'] by blast
qed

text \<open>Listeners that destroy another entity and register a new component type from inside the signal.\<close>

definition quiet :: "('c, 's) listeners" where
  "quiet ev t e r = r"

definition cascade :: "entity_id \<Rightarrow> ('c, 's) listeners" where
  "cascade other ev t e r = (if ev = On_destroy then snd (rg_destroy quiet other (ensure_storage 5 r)) else r)"

lemma quiet_ok: "listeners_ok quiet"
  by (simp add: listeners_ok_def quiet_def rg_step_refl)

lemma cascade_ok: "listeners_ok (cascade other)"
  unfolding listeners_ok_def cascade_def
  by (auto intro: rg_step_refl) (meson ensure_storage_step rg_destroy_step quiet_ok rg_stepD(1) rg_step_trans)

theorem registry_destroy_reentrant_witness:
  "let lis = cascade (Entity 1 1)
   in \<exists>r'. rg_destroy lis (Entity 0 1) (sample lis ()) = (True, r') \<and> \<not> rg_valid r' (Entity 0 1) \<and>
     (\<forall>t p. find_storage t r' = Some p \<longrightarrow> \<not> cp_contains p 0) \<and> distinct (rg_free r')"
proof -
  let ?lis = "cascade (Entity 1 1)"
  have "rg_valid (sample ?lis ()) (Entity 0 1)" by (simp add: sample_def cascade_def registry_defs)
  from registry_destroy_reentrant [OF cascade_ok sample_reachable this] show ?thesis
    by (auto simp: Let_def)
qed

text \<open>A listener that clears the registry does not leave it well-formed while an entity is being
  destroyed: the index goes to the free list twice, and the next two entities are the same.\<close>

definition clearing :: "('c, 's) listeners" where
  "clearing ev t e r = (if ev = On_destroy then rg_clear quiet r else r)"

lemma clear_during_destroy:
  "let (a, r1) = rg_create rg_default; r2 = snd (rg_add quiet 0 a (7 :: nat) r1); r3 = snd (rg_destroy clearing a r2);
       (b, r4) = rg_create r3; (c, r5) = rg_create r4
   in rg_free r3 = [0, 0] \<and> b = c"
  by (simp add: quiet_def clearing_def registry_defs destroy_defs rg_clear_def ss_keys_def ss_clear_def cp_clear_def)

subsection \<open>Views\<close>

lemma min_element_range: "best < pos \<Longrightarrow> min_element ns pos best least < pos + length ns"
proof (induction ns arbitrary: pos best least)
  case (Cons n ns)
  from Cons.IH [of pos "Suc pos" n] Cons.IH [of best "Suc pos" least] Cons.prems show ?case by simp
qed simp

lemma select_driver_range: "ns \<noteq> [] \<Longrightarrow> select_driver ns < length ns"
  using min_element_range [of 0 1 "tl ns" "hd ns"] by (cases ns) (auto simp: select_driver_def)

text \<open>The driver is an included type whose storage is no larger than the others.\<close>

lemma min_element_least:
  "(\<forall>i < pos. least \<le> xs ! i) \<Longrightarrow> best < pos \<Longrightarrow> least = xs ! best \<Longrightarrow> drop pos xs = ns \<Longrightarrow> i < length xs \<Longrightarrow>
    xs ! min_element ns pos best least \<le> xs ! i"
proof (induction ns arbitrary: pos best least)
  case Nil
  then show ?case by simp
next
  case (Cons n ns)
  from Cons.prems(4) have n: "n = xs ! pos" "drop (Suc pos) xs = ns" "pos < length xs"
    by (metis nth_via_drop, metis drop_Suc list.sel(3) tl_drop, metis drop_all leI list.distinct(1))
  show ?case
  proof (cases "n < least")
    case True
    with Cons.prems n have "\<forall>j < Suc pos. n \<le> xs ! j" by (auto simp: less_Suc_eq)
    with Cons.IH [of "Suc pos" n pos] Cons.prems n True show ?thesis by simp
  next
    case False
    with Cons.prems n have "\<forall>j < Suc pos. least \<le> xs ! j" by (auto simp: less_Suc_eq)
    with Cons.IH [of "Suc pos" least best] Cons.prems n False show ?thesis by simp
  qed
qed

lemma ensure_all:
  "rg_wf P r \<Longrightarrow> rg_wf P (fold ensure_storage ts r) \<and> rg_valid (fold ensure_storage ts r) = rg_valid r \<and>
     component_of (fold ensure_storage ts r) = component_of r \<and>
     (\<forall>t. t \<in> set ts \<or> find_storage t r \<noteq> None \<longrightarrow> find_storage t (fold ensure_storage ts r) \<noteq> None)"
proof (induction ts arbitrary: r)
  case (Cons t ts)
  from Cons.IH [OF rg_stepD(1) [OF ensure_storage_step [OF Cons.prems, of t]]]
  show ?case by (auto simp: ensure_storage_finds simp del: not_None_eq)
qed simp

lemma the_storage_finds: "find_storage t r \<noteq> None \<Longrightarrow> find_storage t r = Some (the_storage t r)"
  by (auto simp: find_storage_Some the_storage_def)

text \<open>The rows of a view on a registry in which its types are registered.\<close>

definition view_rows :: "view \<Rightarrow> ('c, 's) registry_scheme \<Rightarrow> (entity_id \<times> 'c list) list" where
  "view_rows v r = map (\<lambda>s. view_row v r (cp_key_at (the_storage (vw_driver v) r) s)) (filter (view_valid_slot v r) [0..<view_end v r])"

lemma view_iterates:
  "map_option (map (view_deref v r)) (walk_to (view_valid_slot v r) (view_end v r) (view_begin v r)) = Some (view_rows v r)"
  using walk_to_filter [of 0 "view_end v r" "view_valid_slot v r"] by (simp add: view_begin_def view_rows_def view_deref_def)

lemma view_each_rows:
  assumes "\<And>row a. snd (f row (a, r)) = r"
  shows "view_each f v (a, r) = (fold (\<lambda>row a. fst (f row (a, r))) (view_rows v r) a, r)"
proof -
  have row: "f row (a, r) = (fst (f row (a, r)), r)" for row a using assms [of row a] by (metis prod.collapse)
  have "view_each_from f v ss (a, r) =
      (fold (\<lambda>row a. fst (f row (a, r))) (map (\<lambda>s. view_row v r (cp_key_at (the_storage (vw_driver v) r) s)) (filter (view_valid_slot v r) ss)) a, r)" for ss
  proof (induction ss arbitrary: a)
    case (Cons s ss)
    show ?case
      using Cons.IH [of a] Cons.IH [of "fst (f (view_row v r (cp_key_at (the_storage (vw_driver v) r) s)) (a, r))"]
      by (simp add: view_valid_slot_def Let_def row [symmetric])
  qed simp
  then show ?thesis by (simp add: view_each_def view_rows_def view_end_def)
qed

lemma view_rows_exact:
  assumes wf: "rg_wf {} r" and driver: "vw_driver v \<in> set (vw_includes v)"
    and reg: "\<And>t. t \<in> set (vw_includes v) \<union> set (vw_excludes v) \<Longrightarrow> find_storage t r \<noteq> None"
  shows "distinct (map fst (view_rows v r))"
    and "(e, cs) \<in> set (view_rows v r) \<longleftrightarrow> rg_valid r e \<and> map (component_of r e) (vw_includes v) = map Some cs \<and>
      (\<forall>t \<in> set (vw_excludes v). component_of r e t = None)"
proof -
  let ?d = "the_storage (vw_driver v) r" and ?types = "set (vw_includes v) \<union> set (vw_excludes v)"
  have pool: "find_storage t r = Some (the_storage t r)" "cp_wf (the_storage t r)" if "t \<in> ?types" for t
    using the_storage_finds [OF reg [OF that]] find_storage_ok(1) [OF wf] by auto
  have comp: "component_of r e t = (if rg_valid r e then cp_try_get (the_storage t r) (ent_index e) else None)"
    if "t \<in> ?types" for e t
    by (simp add: component_of_def pool(1) [OF that])
  have has: "cp_contains (the_storage t r) k \<longleftrightarrow> cp_try_get (the_storage t r) k \<noteq> None" if "t \<in> ?types" for t k
    by (rule pool.has_law [OF pool(2) [OF that]])
  have d: "vw_driver v \<in> ?types" using driver by simp
  have keys: "distinct (map (cp_key_at ?d) (filter (cp_is_live ?d) [0..<cp_slot_count ?d]))"
    "set (map (cp_key_at ?d) (filter (cp_is_live ?d) [0..<cp_slot_count ?d])) = {k. cp_contains ?d k}"
    using pool.slot_keys [OF pool(2) [OF d]] has [OF d] by (auto simp: dom_def)
  let ?ks = "filter (passes_filter v r) (map (cp_key_at ?d) (filter (cp_is_live ?d) [0..<cp_slot_count ?d]))"
  have rows: "view_rows v r = map (view_row v r) ?ks"
    by (simp add: view_rows_def view_valid_slot_def [abs_def] view_end_def filter_map comp_def conj_commute)
  have "inj (\<lambda>k. fst (view_row v r k))" by (rule injI) (simp add: view_row_def)
  then show "distinct (map fst (view_rows v r))" using keys(1) by (simp add: rows distinct_map inj_on_def comp_def distinct_filter)
  have ks: "k \<in> set ?ks \<longleftrightarrow> passes_filter v r k" for k
    using keys(2) driver by (auto simp: passes_filter_def list_all_iff)
  have valid: "rg_valid r e \<longleftrightarrow> e = Entity k (rg_generation_at r k)" if "passes_filter v r k" "ent_index e = k" for e k
  proof -
    have "cp_contains ?d k" using that(1) driver by (simp add: passes_filter_def list_all_iff)
    then have k: "k \<in> rg_indices r" using find_storage_ok(2) [OF wf pool(1) [OF d]] by simp
    then have "unat k < length (rg_generations r)" using rg_wfD(7) [OF wf] by blast
    with k that(2) show ?thesis by (cases e) (auto simp: rg_valid_iff [OF wf] rg_generation_at_def)
  qed
  show "(e, cs) \<in> set (view_rows v r) \<longleftrightarrow> rg_valid r e \<and> map (component_of r e) (vw_includes v) = map Some cs \<and>
      (\<forall>t \<in> set (vw_excludes v). component_of r e t = None)" (is "_ \<longleftrightarrow> ?match")
  proof
    assume "(e, cs) \<in> set (view_rows v r)"
    then obtain k where k: "passes_filter v r k" "(e, cs) = view_row v r k" unfolding rows using ks by auto
    then have e: "ent_index e = k" "rg_valid r e" using valid [OF k(1), of e] by (auto simp: view_row_def)
    from k(1) have "cp_try_get (the_storage t r) k = Some (the (cp_try_get (the_storage t r) k))" if "t \<in> set (vw_includes v)" for t
      using that has [of t k] by (auto simp: passes_filter_def list_all_iff)
    with k e show ?match
      using has by (auto simp: view_row_def comp passes_filter_def list_all_iff)
  next
    assume m: ?match
    let ?k = "ent_index e"
    have get: "map (\<lambda>t. cp_try_get (the_storage t r) ?k) (vw_includes v) = map Some cs"
      using m comp by (metis (no_types, lifting) UnI1 map_cong)
    then have "cp_try_get (the_storage t r) ?k \<noteq> None" if "t \<in> set (vw_includes v)" for t
      using that by (metis (no_types, lifting) in_set_conv_nth length_map nth_map option.distinct(1))
    then have k: "passes_filter v r ?k" using m comp has by (auto simp: passes_filter_def list_all_iff)
    then have "e = Entity ?k (rg_generation_at r ?k)" using valid [OF k refl] m by blast
    moreover have "map (\<lambda>t. the (cp_try_get (the_storage t r) ?k)) (vw_includes v) = map the (map Some cs)"
      unfolding get [symmetric] by simp
    ultimately have "(e, cs) = view_row v r ?k" by (simp add: view_row_def)
    with k ks show "(e, cs) \<in> set (view_rows v r)" unfolding rows by auto
  qed
qed

lemma view_make_ok:
  assumes wf: "rg_wf {} r" and ne: "incs \<noteq> []"
  obtains v r' where "view_make incs excs r = (v, r')" and "rg_wf {} r'" and "rg_valid r' = rg_valid r"
    and "component_of r' = component_of r" and "vw_includes v = incs" and "vw_excludes v = excs"
    and "vw_driver v \<in> set incs" and "\<And>t. t \<in> set incs \<union> set excs \<Longrightarrow> find_storage t r' \<noteq> None"
    and "\<And>t. t \<in> set incs \<Longrightarrow> cp_size (the_storage (vw_driver v) r') \<le> cp_size (the_storage t r')"
proof -
  define r1 r' where "r1 = fold ensure_storage incs r" and "r' = fold ensure_storage excs r1"
  note e1 = ensure_all [OF wf, of incs, folded r1_def]
  then have "rg_wf {} r1" by simp
  note e2 = ensure_all [OF this, of excs, folded r'_def]
  let ?sizes = "map (\<lambda>t. cp_size (the_storage t r')) incs"
  have d: "select_driver ?sizes < length incs" using select_driver_range [of ?sizes] ne by simp
  have least: "?sizes ! select_driver ?sizes \<le> ?sizes ! i" if "i < length incs" for i
  proof (cases "length incs = 1")
    case True
    with that show ?thesis by (simp add: select_driver_def)
  next
    case False
    with that ne min_element_least [of 1 "hd ?sizes" ?sizes 0 "tl ?sizes" i] show ?thesis
      by (simp add: select_driver_def hd_conv_nth drop_Suc)
  qed
  show ?thesis
  proof (rule that)
    show "view_make incs excs r =
        (\<lparr>vw_includes = incs, vw_excludes = excs, vw_driver = incs ! select_driver ?sizes\<rparr>, r')"
      by (simp add: view_make_def Let_def r1_def r'_def)
    fix t assume t: "t \<in> set incs"
    then obtain i where "i < length incs" "t = incs ! i" by (auto simp: in_set_conv_nth)
    with least [of i] d show "cp_size (the_storage (vw_driver \<lparr>vw_includes = incs, vw_excludes = excs,
        vw_driver = incs ! select_driver ?sizes\<rparr>) r') \<le> cp_size (the_storage t r')" by simp
  qed (use e1 e2 d in auto)
qed

text \<open>C38: A view visits what it says: taking it changes neither the valid entities nor their components;
  iterating it, by the iterator or by \<open>each\<close> with a callback that leaves the registry alone, yields every
  valid entity that has all the included and none of the excluded components, once, with the included
  components in order; and the storage that drives it is a smallest one of the included.\<close>

theorem view_visits_matches:
  assumes "listeners_ok lis" and "rg_reachable lis r" and "incs \<noteq> []" and "view_make incs excs r = (v, r')"
  shows "rg_valid r' = rg_valid r \<and> component_of r' = component_of r \<and>
    (\<forall>t \<in> set incs. cp_size (the_storage (vw_driver v) r') \<le> cp_size (the_storage t r')) \<and>
    (\<exists>rows. distinct (map fst rows) \<and>
      (\<forall>e cs. (e, cs) \<in> set rows \<longleftrightarrow> rg_valid r e \<and> map (component_of r e) incs = map Some cs \<and>
         (\<forall>t \<in> set excs. component_of r e t = None)) \<and>
      map_option (map (view_deref v r')) (walk_to (view_valid_slot v r') (view_end v r') (view_begin v r')) = Some rows \<and>
      (\<forall>f a. (\<forall>row a. snd (f row (a, r')) = r') \<longrightarrow>
         view_each f v (a, r') = (fold (\<lambda>row a. fst (f row (a, r'))) rows a, r')))"
proof -
  have wf: "rg_wf {} r" by (rule rg_reachable_wf [OF assms(1,2)])
  have v: "rg_wf {} r'" "rg_valid r' = rg_valid r" "component_of r' = component_of r" "vw_includes v = incs"
    "vw_excludes v = excs" "vw_driver v \<in> set incs"
    and reg: "\<And>t. t \<in> set incs \<union> set excs \<Longrightarrow> find_storage t r' \<noteq> None"
    and least: "\<And>t. t \<in> set incs \<Longrightarrow> cp_size (the_storage (vw_driver v) r') \<le> cp_size (the_storage t r')"
    by (rule view_make_ok [OF wf assms(3), of excs]; simp add: assms(4))+
  have "vw_driver v \<in> set (vw_includes v)" using v by simp
  note rows = view_rows_exact [OF v(1) this, unfolded v(4,5), OF reg]
  show ?thesis
  proof (intro conjI exI [of _ "view_rows v r'"])
    show "\<forall>t \<in> set incs. cp_size (the_storage (vw_driver v) r') \<le> cp_size (the_storage t r')" using least by blast
    show "\<forall>e cs. (e, cs) \<in> set (view_rows v r') \<longleftrightarrow> rg_valid r e \<and> map (component_of r e) incs = map Some cs \<and>
         (\<forall>t \<in> set excs. component_of r e t = None)" using rows(2) v(2,3) by simp
    show "\<forall>f a. (\<forall>row a. snd (f row (a, r')) = r') \<longrightarrow>
         view_each f v (a, r') = (fold (\<lambda>row a. fst (f row (a, r'))) (view_rows v r') a, r')"
      by (intro allI impI view_each_rows) blast
  qed (use v rows(1) view_iterates in auto)
qed

text \<open>The entities with component 1 and without component 0: the second one only.\<close>

theorem view_visits_matches_witness:
  "let (v, r') = view_make [1] [0] (sample quiet ())
   in \<exists>rows. map_option (map (view_deref v r')) (walk_to (view_valid_slot v r') (view_end v r') (view_begin v r')) = Some rows \<and>
     (Entity 1 1, [9]) \<in> set rows \<and> (\<forall>cs. (Entity 0 1, cs) \<notin> set rows)"
proof -
  let ?r = "sample quiet ()"
  obtain v r' where v: "view_make [1] [0] ?r = (v, r')" by (cases "view_make [1] [0] ?r")
  have "rg_valid ?r (Entity 1 1) \<and> component_of ?r (Entity 1 1) 1 = Some 9 \<and> component_of ?r (Entity 1 1) 0 = None \<and>
      component_of ?r (Entity 0 1) 0 \<noteq> None"
    by (simp add: sample_def quiet_def registry_defs)
  with view_visits_matches [OF quiet_ok sample_reachable _ v] show ?thesis
    unfolding v case_prod_conv Let_def by (auto 0 3)
qed

end
