(* ===== verification/Signal.thy ===== *)
theory Signal
  imports Prelude
begin

text \<open>
  The signal of \<open>signal/signal.hpp\<close>: a list of slots in priority order, which its own callbacks may
  change while it is being emitted. A callable is a value of a parameter type, and what calling it does
  is the \<open>visit\<close> argument of an emission: a function on a state of the program and the core of the
  signal, so a callback can connect, disconnect and emit again. The core outlives the signal while it
  is pinned; \<open>co_owner\<close> says whether the signal still exists. The abstract view is \<open>connected\<close>, the slots
  in the order they fire once every pending change has been applied.
\<close>

subsection \<open>The code\<close>

record 'f slot_entry =
  se_id :: u64
  se_priority :: int
  se_fn :: 'f
  se_alive :: bool
  se_once :: bool

record 'f core =
  co_slots :: "'f slot_entry list"
  co_pending :: "'f slot_entry list"
  co_next_id :: u64
  co_emit_depth :: nat
  co_blocked :: bool
  co_owner :: bool

definition core_init :: "'f core" where
  "core_init = \<lparr>co_slots = [], co_pending = [], co_next_id = 1, co_emit_depth = 0, co_blocked = False, co_owner = True\<rparr>"

text \<open>Swapping the last entry to the left while its priority is smaller.\<close>

fun bubble :: "'f slot_entry list \<Rightarrow> nat \<Rightarrow> 'f slot_entry list" where
  "bubble s i =
     (if i > 1 \<and> se_priority (s ! (i - 1)) < se_priority (s ! (i - 2)) then
        bubble (s[i - 1 := s ! (i - 2), i - 2 := s ! (i - 1)]) (i - 1)
      else s)"

declare bubble.simps [simp del]

definition bubble_last :: "'f slot_entry list \<Rightarrow> 'f slot_entry list" where
  "bubble_last s = bubble s (length s)"

definition connect_into :: "'f \<Rightarrow> int \<Rightarrow> bool \<Rightarrow> 'f core \<Rightarrow> u64 \<times> 'f core" where
  "connect_into fn priority once c =
     (let i = co_next_id c;
          entry = \<lparr>se_id = i, se_priority = priority, se_fn = fn, se_alive = True, se_once = once\<rparr>;
          c1 = c\<lparr>co_next_id := i + 1\<rparr>
      in (i, if co_emit_depth c1 > 0 then c1\<lparr>co_pending := co_pending c1 @ [entry]\<rparr>
             else c1\<lparr>co_slots := bubble_last (co_slots c1 @ [entry])\<rparr>))"

definition sig_connect :: "'f \<Rightarrow> int \<Rightarrow> 'f core \<Rightarrow> u64 \<times> 'f core" where
  "sig_connect fn priority c = connect_into fn priority False c"

definition sig_connect_once :: "'f \<Rightarrow> int \<Rightarrow> 'f core \<Rightarrow> u64 \<times> 'f core" where
  "sig_connect_once fn priority c = connect_into fn priority True c"

definition sig_disconnect_all :: "'f core \<Rightarrow> 'f core" where
  "sig_disconnect_all c =
     (if co_emit_depth c > 0 then c\<lparr>co_slots := map (\<lambda>s. s\<lparr>se_alive := False\<rparr>) (co_slots c), co_pending := []\<rparr>
      else c\<lparr>co_slots := []\<rparr>)"

definition sig_block :: "'f core \<Rightarrow> 'f core" where
  "sig_block c = c\<lparr>co_blocked := True\<rparr>"

definition sig_unblock :: "'f core \<Rightarrow> 'f core" where
  "sig_unblock c = c\<lparr>co_blocked := False\<rparr>"

definition sig_is_blocked :: "'f core \<Rightarrow> bool" where
  "sig_is_blocked c = co_blocked c"

definition sig_destroy :: "'f core \<Rightarrow> 'f core" where
  "sig_destroy c = c\<lparr>co_owner := False\<rparr>"

definition sig_size :: "'f core \<Rightarrow> nat" where
  "sig_size c = length (filter se_alive (co_slots c))"

text \<open>The position of the first slot with the identifier that is alive, or the number of slots.\<close>

fun find_slot_id :: "u64 \<Rightarrow> 'f slot_entry list \<Rightarrow> nat" where
  "find_slot_id i [] = 0"
| "find_slot_id i (s # ss) = (if se_id s = i \<and> se_alive s then 0 else find_slot_id i ss + 1)"

fun kill_pending :: "u64 \<Rightarrow> 'f slot_entry list \<Rightarrow> 'f slot_entry list option" where
  "kill_pending i [] = None"
| "kill_pending i (p # ps) =
     (if se_id p = i \<and> se_alive p then Some (p\<lparr>se_alive := False\<rparr> # ps) else map_option ((#) p) (kill_pending i ps))"

fun shift_left :: "nat list \<Rightarrow> 'f slot_entry list \<Rightarrow> 'f slot_entry list" where
  "shift_left [] s = s"
| "shift_left (i # is) s = shift_left is (s[i := s ! (i + 1)])"

definition stable_erase_at :: "nat \<Rightarrow> 'f slot_entry list \<Rightarrow> 'f slot_entry list" where
  "stable_erase_at pos s = butlast (shift_left [pos..<length s - 1] s)"

definition disconnect_by_id :: "u64 \<Rightarrow> 'f core \<Rightarrow> bool \<times> 'f core" where
  "disconnect_by_id i c =
     (let slots = co_slots c; found_at = find_slot_id i slots
      in if found_at = length slots then
           if co_emit_depth c > 0 then
             (case kill_pending i (co_pending c) of
                Some ps \<Rightarrow> (True, c\<lparr>co_pending := ps\<rparr>)
              | None \<Rightarrow> (False, c))
           else (False, c)
         else if co_emit_depth c > 0 then
           (True, c\<lparr>co_slots := slots[found_at := (slots ! found_at)\<lparr>se_alive := False\<rparr>]\<rparr>)
         else (True, c\<lparr>co_slots := stable_erase_at found_at slots\<rparr>))"

text \<open>\<open>connection::disconnect\<close>, through the core the connection points to.\<close>

definition disconnect_thunk :: "u64 \<Rightarrow> 'f core \<Rightarrow> bool \<times> 'f core" where
  "disconnect_thunk i c = (if \<not> co_owner c then (False, c) else disconnect_by_id i c)"

fun apply_entries :: "'f slot_entry list \<Rightarrow> 'f slot_entry list \<Rightarrow> 'f slot_entry list" where
  "apply_entries [] slots = slots"
| "apply_entries (entry # ps) slots =
     (if \<not> se_alive entry then apply_entries ps slots else apply_entries ps (bubble_last (slots @ [entry])))"

definition apply_pending :: "'f core \<Rightarrow> 'f core" where
  "apply_pending c = c\<lparr>co_slots := apply_entries (co_pending c) (co_slots c), co_pending := []\<rparr>"

text \<open>The compaction loop and the pops behind it.\<close>

fun sweep_loop :: "nat list \<Rightarrow> nat \<Rightarrow> 'f slot_entry list \<Rightarrow> 'f slot_entry list" where
  "sweep_loop [] write_at s = take write_at s"
| "sweep_loop (read_at # rs) write_at s =
     (if se_alive (s ! read_at) then
        sweep_loop rs (write_at + 1) (if write_at \<noteq> read_at then s[write_at := s ! read_at] else s)
      else sweep_loop rs write_at s)"

definition sweep_dead :: "'f core \<Rightarrow> 'f core" where
  "sweep_dead c = c\<lparr>co_slots := sweep_loop [0..<length (co_slots c)] 0 (co_slots c)\<rparr>"

definition leave_emit :: "'f core \<Rightarrow> 'f core" where
  "leave_emit c =
     (let c1 = c\<lparr>co_emit_depth := co_emit_depth c - 1\<rparr>
      in if co_emit_depth c1 = 0 \<and> co_owner c1 then sweep_dead (apply_pending c1) else c1)"

fun emit_loop :: "('f \<Rightarrow> 'w \<times> 'f core \<Rightarrow> 'w \<times> 'f core) \<Rightarrow> nat list \<Rightarrow> 'w \<times> 'f core \<Rightarrow> 'w \<times> 'f core" where
  "emit_loop visit [] wc = wc"
| "emit_loop visit (i # is) (w, c) =
     (let slot = co_slots c ! i
      in if se_alive slot then
           emit_loop visit is
             (visit (se_fn slot)
                (w, if se_once slot then c\<lparr>co_slots := (co_slots c)[i := slot\<lparr>se_alive := False\<rparr>]\<rparr> else c))
         else emit_loop visit is (w, c))"

definition run_emit :: "('f \<Rightarrow> 'w \<times> 'f core \<Rightarrow> 'w \<times> 'f core) \<Rightarrow> 'w \<times> 'f core \<Rightarrow> 'w \<times> 'f core" where
  "run_emit visit wc =
     (let (w, c) = wc
      in if co_blocked c then (w, c)
         else
           let (w', c') = emit_loop visit [0..<length (co_slots c)] (w, c\<lparr>co_emit_depth := co_emit_depth c + 1\<rparr>)
           in (w', leave_emit c'))"

text \<open>Calling a slot: its result, the program's state and the core.\<close>

definition sig_emit ::
    "('f \<Rightarrow> 'a \<Rightarrow> 'w \<times> 'f core \<Rightarrow> 'r \<times> 'w \<times> 'f core) \<Rightarrow> 'a \<Rightarrow> 'w \<times> 'f core \<Rightarrow> 'w \<times> 'f core" where
  "sig_emit call args wc = run_emit (\<lambda>fn wc. snd (call fn args wc)) wc"

definition emit_and_collect ::
    "('f \<Rightarrow> 'a \<Rightarrow> 'w \<times> 'f core \<Rightarrow> 'r \<times> 'w \<times> 'f core) \<Rightarrow> 'a \<Rightarrow> 'w \<times> 'f core \<Rightarrow> 'r list \<times> 'w \<times> 'f core" where
  "emit_and_collect call args wc =
     (let ((out, w), c) = run_emit
        (\<lambda>fn ((out, w), c). let (r, w', c') = call fn args (w, c) in ((out @ [r], w'), c')) (([], fst wc), snd wc)
      in (out, w, c))"

text \<open>The core is made on first use.\<close>

definition ensure_core :: "'f core option \<Rightarrow> 'f core" where
  "ensure_core m = (case m of None \<Rightarrow> core_init | Some c \<Rightarrow> c)"

subsection \<open>The loops\<close>

definition insert_entry :: "'f slot_entry \<Rightarrow> 'f slot_entry list \<Rightarrow> 'f slot_entry list" where
  "insert_entry e xs =
     takeWhile (\<lambda>x. se_priority x \<le> se_priority e) xs @ e # dropWhile (\<lambda>x. se_priority x \<le> se_priority e) xs"

abbreviation by_priority :: "'f slot_entry list \<Rightarrow> bool" where
  "by_priority xs \<equiv> sorted (map se_priority xs)"

lemma set_insert_entry [simp]: "set (insert_entry e xs) = insert e (set xs)"
  by (auto simp: insert_entry_def) (metis Un_iff set_append takeWhile_dropWhile_id)+

lemma length_insert_entry [simp]: "length (insert_entry e xs) = Suc (length xs)"
  by (simp add: insert_entry_def) (metis length_append takeWhile_dropWhile_id)

lemma bubble_step:
  "se_priority e < se_priority x \<Longrightarrow> bubble (ys @ x # e # zs) (length ys + 2) = bubble (ys @ e # x # zs) (length ys + 1)"
  by (subst bubble.simps) (simp add: nth_append list_update_append)

lemma bubble_stop: "ys = [] \<or> se_priority (last ys) \<le> se_priority e \<Longrightarrow> bubble (ys @ e # zs) (length ys + 1) = ys @ e # zs"
  by (subst bubble.simps) (auto simp: nth_append last_conv_nth)

lemma bubble_insert:
  "by_priority ys \<Longrightarrow> bubble (ys @ e # zs) (length ys + 1) = insert_entry e ys @ zs"
proof (induction ys arbitrary: zs rule: rev_induct)
  case Nil
  then show ?case using bubble_stop [of "[]" e zs] by (simp add: insert_entry_def)
next
  case (snoc x ys)
  then have ys: "by_priority ys" "\<forall>y \<in> set ys. se_priority y \<le> se_priority x" by (auto simp: sorted_append)
  show ?case
  proof (cases "se_priority e < se_priority x")
    case True
    have "bubble ((ys @ [x]) @ e # zs) (length (ys @ [x]) + 1) = bubble (ys @ e # x # zs) (length ys + 1)"
      using bubble_step [OF True, of ys zs] by simp
    also have "\<dots> = insert_entry e ys @ x # zs" by (rule snoc.IH [OF ys(1)])
    also have "\<dots> = insert_entry e (ys @ [x]) @ zs"
      using True by (auto simp: insert_entry_def takeWhile_append dropWhile_append not_le)
    finally show ?thesis .
  next
    case False
    then have "\<forall>y \<in> set (ys @ [x]). se_priority y \<le> se_priority e" using ys(2) by fastforce
    then have "insert_entry e (ys @ [x]) = (ys @ [x]) @ [e]"
      by (simp add: insert_entry_def takeWhile_eq_all_conv [THEN iffD2] dropWhile_eq_Nil_conv [THEN iffD2])
    with bubble_stop [of "ys @ [x]" e zs] False show ?thesis by simp
  qed
qed

lemma bubble_last_insert: "by_priority ys \<Longrightarrow> bubble_last (ys @ [e]) = insert_entry e ys"
  using bubble_insert [of ys e "[]"] by (simp add: bubble_last_def)

lemma insert_entry_Cons:
  "insert_entry e (x # xs) = (if se_priority x \<le> se_priority e then x # insert_entry e xs else e # x # xs)"
  by (simp add: insert_entry_def)

lemma insert_entry_Nil [simp]: "insert_entry e [] = [e]"
  by (simp add: insert_entry_def)

lemma insert_entry_first: "\<forall>x \<in> set xs. se_priority e < se_priority x \<Longrightarrow> insert_entry e xs = e # xs"
  by (cases xs) (auto simp: insert_entry_Cons)

lemma by_priority_insert: "by_priority xs \<Longrightarrow> by_priority (insert_entry e xs)"
  by (induction xs) (auto simp: insert_entry_Cons)

lemma filter_insert_entry:
  "by_priority xs \<Longrightarrow> filter P (insert_entry e xs) = (if P e then insert_entry e (filter P xs) else filter P xs)"
proof (induction xs)
  case (Cons x xs)
  show ?case
  proof (cases "se_priority x \<le> se_priority e")
    case False
    then have "\<forall>y \<in> set (filter P (x # xs)). se_priority e < se_priority y" using Cons.prems by auto
    with False show ?thesis using insert_entry_first [of "filter P (x # xs)" e] by (simp add: insert_entry_Cons)
  qed (use Cons in \<open>auto simp: insert_entry_Cons\<close>)
qed (simp add: insert_entry_def)

lemma by_priority_filter: "by_priority xs \<Longrightarrow> by_priority (filter P xs)"
  by (induction xs) auto

lemma by_priority_fold: "by_priority xs \<Longrightarrow> by_priority (fold insert_entry es xs)"
  by (induction es arbitrary: xs) (simp_all add: by_priority_insert)

lemma filter_fold_insert:
  "by_priority xs \<Longrightarrow> filter P (fold insert_entry es xs) = fold insert_entry (filter P es) (filter P xs)"
  by (induction es arbitrary: xs) (simp_all add: by_priority_insert filter_insert_entry)

lemma set_fold_insert [simp]: "set (fold insert_entry es xs) = set es \<union> set xs"
  by (induction es arbitrary: xs) auto

lemma shift_left_eq:
  "pos + length ms < length s \<Longrightarrow> ms = [pos..<pos + length ms] \<Longrightarrow>
     shift_left ms s = take pos s @ take (length ms) (drop (pos + 1) s) @ drop (pos + length ms) s"
proof (induction ms arbitrary: pos s)
  case (Cons m ms)
  have m: "m = pos" "ms = [Suc pos..<Suc pos + length ms]"
    using Cons.prems(2) upt_conv_Cons [of pos "pos + length (m # ms)"] by (simp_all del: upt_Suc)
  let ?s = "s[pos := s ! (pos + 1)]"
  have "shift_left ms ?s = take (Suc pos) ?s @ take (length ms) (drop (Suc pos + 1) ?s) @ drop (Suc pos + length ms) ?s"
    using Cons.IH [of "Suc pos" ?s] Cons.prems(1) m(2) by simp
  moreover have "drop (Suc pos) s = s ! Suc pos # drop (Suc (Suc pos)) s"
    using Cons.prems(1) by (intro nth_drop_Cons) simp
  ultimately show ?case using Cons.prems(1) m(1) by simp
qed simp

lemma stable_erase_at_eq:
  assumes "pos < length s"
  shows "stable_erase_at pos s = take pos s @ drop (pos + 1) s"
proof -
  let ?k = "length s - 1 - pos"
  have "shift_left [pos..<length s - 1] s = take pos s @ take ?k (drop (pos + 1) s) @ drop (length s - 1) s"
    using shift_left_eq [of pos "[pos..<length s - 1]" s] assms by simp
  moreover have "take ?k (drop (pos + 1) s) = drop (pos + 1) s" using assms by simp
  moreover have "drop (length s - 1) s = [last s]" using assms by (cases s rule: rev_cases) auto
  ultimately show ?thesis by (simp add: stable_erase_at_def butlast_append)
qed

lemma sweep_loop_filter:
  "write_at \<le> read_at \<Longrightarrow> read_at \<le> length s \<Longrightarrow>
     sweep_loop [read_at..<length s] write_at s = take write_at s @ filter se_alive (drop read_at s)"
proof (induction "length s - read_at" arbitrary: read_at write_at s)
  case (Suc d)
  then have r: "read_at < length s" by simp
  have up: "[read_at..<length s] = read_at # [Suc read_at..<length s]" using r by (rule upt_conv_Cons)
  have drop: "drop read_at s = s ! read_at # drop (Suc read_at) s" using r by (rule nth_drop_Cons)
  show ?case
  proof (cases "se_alive (s ! read_at)")
    case True
    let ?s = "if write_at \<noteq> read_at then s[write_at := s ! read_at] else s"
    have s: "?s = s[write_at := s ! read_at]" "length ?s = length s" by auto
    have "sweep_loop [Suc read_at..<length ?s] (Suc write_at) ?s = take (Suc write_at) ?s @ filter se_alive (drop (Suc read_at) ?s)"
      using Suc.hyps(2) Suc.prems r s(2) by (intro Suc.hyps(1)) auto
    moreover have "take (Suc write_at) ?s = take write_at s @ [s ! read_at]" unfolding s(1) using Suc.prems r by simp
    moreover have "drop (Suc read_at) ?s = drop (Suc read_at) s" unfolding s(1) using Suc.prems by simp
    ultimately show ?thesis using True up drop s(2) by simp
  next
    case False
    with Suc.hyps(1) [of s "Suc read_at" write_at] Suc.hyps(2) Suc.prems up drop show ?thesis by simp
  qed
qed simp

lemma sweep_dead_filter: "sweep_dead c = c\<lparr>co_slots := filter se_alive (co_slots c)\<rparr>"
  using sweep_loop_filter [of 0 0 "co_slots c"] by (simp add: sweep_dead_def)

lemma apply_entries_fold:
  "by_priority slots \<Longrightarrow> apply_entries ps slots = fold insert_entry (filter se_alive ps) slots"
  by (induction ps arbitrary: slots) (simp_all add: bubble_last_insert by_priority_insert)

lemma find_slot_id_eq:
  "find_slot_id i ss = (if \<exists>s \<in> set ss. se_id s = i \<and> se_alive s then length (takeWhile (\<lambda>s. \<not> (se_id s = i \<and> se_alive s)) ss) else length ss)"
  by (induction ss) auto

subsection \<open>The connected slots\<close>

definition connected :: "'f core \<Rightarrow> 'f slot_entry list" where
  "connected c = fold insert_entry (filter se_alive (co_pending c)) (filter se_alive (co_slots c))"

definition fires_before :: "'f slot_entry \<Rightarrow> 'f slot_entry \<Rightarrow> bool" where
  "fires_before x y \<longleftrightarrow> se_priority x < se_priority y \<or> se_priority x = se_priority y \<and> se_id x < se_id y"

definition co_wf :: "'f core \<Rightarrow> bool" where
  "co_wf c \<longleftrightarrow> sorted_wrt fires_before (co_slots c) \<and> distinct (map se_id (co_slots c)) \<and>
     sorted_wrt (<) (map se_id (co_pending c)) \<and>
     (\<forall>x \<in> set (co_slots c). \<forall>y \<in> set (co_pending c). se_id x < se_id y) \<and>
     (\<forall>x \<in> set (co_slots c) \<union> set (co_pending c). se_id x < co_next_id c) \<and>
     (co_emit_depth c = 0 \<and> co_owner c \<longrightarrow> co_pending c = [] \<and> (\<forall>x \<in> set (co_slots c). se_alive x))"

lemma co_wfD:
  assumes "co_wf c"
  shows "sorted_wrt fires_before (co_slots c)" and "distinct (map se_id (co_slots c))"
    and "sorted_wrt (<) (map se_id (co_pending c))"
    and "x \<in> set (co_slots c) \<Longrightarrow> y \<in> set (co_pending c) \<Longrightarrow> se_id x < se_id y"
    and "x \<in> set (co_slots c) \<union> set (co_pending c) \<Longrightarrow> se_id x < co_next_id c"
    and "co_emit_depth c = 0 \<Longrightarrow> co_owner c \<Longrightarrow> co_pending c = []"
    and "co_emit_depth c = 0 \<Longrightarrow> co_owner c \<Longrightarrow> x \<in> set (co_slots c) \<Longrightarrow> se_alive x"
  using assms by (auto simp: co_wf_def)

lemma core_init_wf [simp]: "co_wf core_init" "connected core_init = []"
  by (simp_all add: co_wf_def core_init_def connected_def)

lemma fires_by_priority: "sorted_wrt fires_before xs \<Longrightarrow> by_priority xs"
  unfolding sorted_map by (rule sorted_wrt_mono_rel) (auto simp: fires_before_def)

lemma wf_by_priority: "co_wf c \<Longrightarrow> by_priority (co_slots c)"
  by (rule fires_by_priority) (rule co_wfD)

lemma fires_insert:
  "sorted_wrt fires_before xs \<Longrightarrow> \<forall>x \<in> set xs. se_id x < se_id e \<Longrightarrow> sorted_wrt fires_before (insert_entry e xs)"
  by (induction xs) (auto simp: insert_entry_Cons fires_before_def)

lemma fires_fold:
  "sorted_wrt fires_before xs \<Longrightarrow> sorted_wrt (<) (map se_id es) \<Longrightarrow> \<forall>x \<in> set xs. \<forall>e \<in> set es. se_id x < se_id e \<Longrightarrow>
     sorted_wrt fires_before (fold insert_entry es xs)"
  by (induction es arbitrary: xs) (auto simp: fires_insert)

lemma distinct_insert_entry: "distinct (map se_id (insert_entry e xs)) \<longleftrightarrow> se_id e \<notin> se_id ` set xs \<and> distinct (map se_id xs)"
  by (induction xs) (auto simp: insert_entry_Cons)

lemma distinct_fold_insert:
  "distinct (map se_id (fold insert_entry es xs)) \<longleftrightarrow> distinct (map se_id es) \<and> distinct (map se_id xs) \<and>
     se_id ` set es \<inter> se_id ` set xs = {}"
  by (induction es arbitrary: xs) (auto simp: distinct_insert_entry)

lemma connected_order:
  assumes "co_wf c"
  shows "sorted_wrt fires_before (connected c)" and "distinct (map se_id (connected c))"
    and "x \<in> set (connected c) \<Longrightarrow> se_alive x \<and> se_id x < co_next_id c"
proof -
  have ps: "sorted_wrt (<) (map se_id (filter se_alive (co_pending c)))"
    using co_wfD(3) [OF assms] unfolding sorted_wrt_map by (rule sorted_wrt_filter)
  show "sorted_wrt fires_before (connected c)"
    unfolding connected_def using co_wfD(1,4) [OF assms] ps by (intro fires_fold sorted_wrt_filter) auto
  have "distinct (map se_id (filter se_alive (co_pending c)))" using ps by (simp add: strict_sorted_iff)
  moreover have "distinct (map se_id (filter se_alive (co_slots c)))"
    using co_wfD(2) [OF assms] by (simp add: distinct_map_filter)
  moreover have "se_id ` set (filter se_alive (co_pending c)) \<inter> se_id ` set (filter se_alive (co_slots c)) = {}"
    using co_wfD(4) [OF assms] by fastforce
  ultimately show "distinct (map se_id (connected c))" unfolding connected_def distinct_fold_insert by blast
  show "x \<in> set (connected c) \<Longrightarrow> se_alive x \<and> se_id x < co_next_id c"
    using co_wfD(5) [OF assms, of x] by (auto simp: connected_def)
qed

subsection \<open>The operations\<close>

lemma next_id_less:
  fixes x :: u64
  assumes "x \<noteq> - 1"
  shows "i < x + 1 \<longleftrightarrow> i \<le> x"
proof -
  have "unat x \<noteq> unat (- 1 :: u64)" using assms by (metis unsigned_word_eqI)
  then have "unat x + 1 < 2 ^ 64"
    using unsigned_less [of x, where ?'a = nat] by (simp add: unsigned_minus_1_eq_mask mask_eq_exp_minus_1)
  then have "unat (x + 1) = unat x + 1" by (simp add: unat_word_ariths)
  then show ?thesis by (auto simp: word_less_nat_alt word_le_nat_alt)
qed

lemma connect_ok:
  assumes wf: "co_wf c" and owner: "co_owner c" and room: "co_next_id c \<noteq> - 1"
  shows "co_wf (snd (connect_into fn p once c))"
    and "connected (snd (connect_into fn p once c)) =
      insert_entry \<lparr>se_id = co_next_id c, se_priority = p, se_fn = fn, se_alive = True, se_once = once\<rparr> (connected c)"
proof -
  let ?e = "\<lparr>se_id = co_next_id c, se_priority = p, se_fn = fn, se_alive = True, se_once = once\<rparr>"
  have less: "i < co_next_id c \<Longrightarrow> i < co_next_id c + 1" "co_next_id c < co_next_id c + 1" for i
    using next_id_less [OF room] by auto
  note b = bubble_last_insert [OF wf_by_priority [OF wf], of ?e]
  have "co_wf (snd (connect_into fn p once c)) \<and> connected (snd (connect_into fn p once c)) = insert_entry ?e (connected c)"
  proof (cases "co_emit_depth c > 0")
    case True
    have "sorted_wrt (<) (map se_id (co_pending c @ [?e]))"
      using co_wfD(3,5) [OF wf] by (auto simp: sorted_wrt_append)
    with True show ?thesis
      using co_wfD [OF wf] less by (auto simp: connect_into_def Let_def co_wf_def connected_def)
  next
    case False
    then have d: "co_pending c = []" "\<forall>x \<in> set (co_slots c). se_alive x" using co_wfD(6,7) [OF wf _ owner] by auto
    have c: "snd (connect_into fn p once c) = c\<lparr>co_next_id := co_next_id c + 1, co_slots := insert_entry ?e (co_slots c)\<rparr>"
      using False b by (simp add: connect_into_def Let_def)
    have "sorted_wrt fires_before (insert_entry ?e (co_slots c))"
      using co_wfD(1,5) [OF wf] by (intro fires_insert) auto
    moreover have "distinct (map se_id (insert_entry ?e (co_slots c)))"
      using co_wfD(2,5) [OF wf] by (force simp: distinct_insert_entry)
    ultimately have "co_wf (snd (connect_into fn p once c))"
      unfolding co_wf_def c using d co_wfD(5) [OF wf] less by auto
    moreover have "filter se_alive (co_slots c) = co_slots c" using d(2) by (simp add: filter_id_conv)
    moreover have "filter se_alive (insert_entry ?e (co_slots c)) = insert_entry ?e (co_slots c)"
      using d(2) by (simp add: filter_id_conv)
    ultimately show ?thesis unfolding connected_def c by (simp add: d(1))
  qed
  then show "co_wf (snd (connect_into fn p once c))"
    and "connected (snd (connect_into fn p once c)) = insert_entry ?e (connected c)" by auto
qed

lemma find_slot_id_cases:
  obtains (found) "find_slot_id i ss < length ss" and "se_id (ss ! find_slot_id i ss) = i" and "se_alive (ss ! find_slot_id i ss)"
  | (absent) "find_slot_id i ss = length ss" and "\<forall>s \<in> set ss. se_id s = i \<longrightarrow> \<not> se_alive s"
proof -
  have "find_slot_id i ss < length ss \<and> se_id (ss ! find_slot_id i ss) = i \<and> se_alive (ss ! find_slot_id i ss) \<or>
      find_slot_id i ss = length ss \<and> (\<forall>s \<in> set ss. se_id s = i \<longrightarrow> \<not> se_alive s)"
    by (induction ss) auto
  with that show ?thesis by blast
qed

lemma filter_absent: "i \<notin> se_id ` set xs \<Longrightarrow> filter (\<lambda>s. se_id s \<noteq> i) xs = xs"
  by (induction xs) auto

lemma filter_kill:
  "distinct (map se_id xs) \<Longrightarrow> k < length xs \<Longrightarrow>
     filter se_alive (xs[k := (xs ! k)\<lparr>se_alive := False\<rparr>]) = filter (\<lambda>s. se_id s \<noteq> se_id (xs ! k)) (filter se_alive xs)"
proof (induction xs arbitrary: k)
  case (Cons x xs)
  have keep: "filter (\<lambda>s. se_id s \<noteq> se_id x) (filter se_alive xs) = filter se_alive xs"
    using Cons.prems(1) by (intro filter_absent) auto
  show ?case
  proof (cases k)
    case 0
    with keep show ?thesis by simp
  next
    case (Suc j)
    then have "xs ! j \<in> set xs" using Cons.prems by simp
    then have "se_id x \<noteq> se_id (xs ! j)" using Cons.prems(1) by auto
    with Suc Cons show ?thesis by simp
  qed
qed simp

lemma filter_erase:
  "distinct (map se_id xs) \<Longrightarrow> k < length xs \<Longrightarrow> take k xs @ drop (k + 1) xs = filter (\<lambda>s. se_id s \<noteq> se_id (xs ! k)) xs"
proof (induction xs arbitrary: k)
  case (Cons x xs)
  show ?case
  proof (cases k)
    case 0
    then show ?thesis using Cons.prems(1) filter_absent [of "se_id x" xs] by simp
  next
    case (Suc j)
    then have "xs ! j \<in> set xs" using Cons.prems by simp
    then have "se_id x \<noteq> se_id (xs ! j)" using Cons.prems(1) by auto
    with Suc Cons show ?thesis by simp
  qed
qed simp

lemma kill_pending_None: "kill_pending i ps = None \<longleftrightarrow> (\<forall>p \<in> set ps. se_id p = i \<longrightarrow> \<not> se_alive p)"
  by (induction ps) auto

lemma kill_pending_Some:
  "kill_pending i ps = Some ps' \<Longrightarrow> distinct (map se_id ps) \<Longrightarrow>
     filter se_alive ps' = filter (\<lambda>s. se_id s \<noteq> i) (filter se_alive ps) \<and> map se_id ps' = map se_id ps"
proof (induction ps arbitrary: ps')
  case (Cons p ps)
  show ?case
  proof (cases "se_id p = i \<and> se_alive p")
    case True
    have "filter (\<lambda>s. se_id s \<noteq> i) (filter se_alive ps) = filter se_alive ps"
      using True Cons.prems(2) by (intro filter_absent) auto
    with True Cons.prems(1) show ?thesis by auto
  next
    case False
    with Cons.prems(1) obtain qs where "kill_pending i ps = Some qs" "ps' = p # qs" by (auto split: if_splits)
    with Cons.IH [of qs] Cons.prems(2) False show ?thesis by auto
  qed
qed simp

lemma same_ids_wf:
  assumes wf: "co_wf c" and "map se_id ss = map se_id (co_slots c)" and "map se_priority ss = map se_priority (co_slots c)"
    and "map se_id ps = map se_id (co_pending c)" and "co_emit_depth c > 0"
  shows "co_wf (c\<lparr>co_slots := ss, co_pending := ps\<rparr>)"
proof -
  have len: "length ss = length (co_slots c)" using assms(2) by (metis length_map)
  have at: "se_id (ss ! k) = se_id (co_slots c ! k) \<and> se_priority (ss ! k) = se_priority (co_slots c ! k)" if "k < length ss" for k
    using that len assms(2,3) by (metis nth_map)
  have "sorted_wrt fires_before ss"
    using co_wfD(1) [OF wf] at len unfolding sorted_wrt_iff_nth_less fires_before_def by auto
  moreover have ids: "se_id ` set ss = se_id ` set (co_slots c)" "se_id ` set ps = se_id ` set (co_pending c)"
    using assms(2,4) by (metis set_map)+
  have "\<forall>x \<in> se_id ` set ss. \<forall>y \<in> se_id ` set ps. x < y"
    unfolding ids using co_wfD(4) [OF wf] by blast
  moreover have "\<forall>x \<in> se_id ` set ss \<union> se_id ` set ps. x < co_next_id c"
    unfolding ids using co_wfD(5) [OF wf] by blast
  ultimately show ?thesis using wf assms(2,4,5) by (auto simp: co_wf_def)
qed

lemma connected_without:
  assumes wf: "co_wf c" and "filter se_alive ss = filter (\<lambda>s. se_id s \<noteq> i) (filter se_alive (co_slots c))"
    and "filter se_alive ps = filter (\<lambda>s. se_id s \<noteq> i) (filter se_alive (co_pending c))"
  shows "connected (c\<lparr>co_slots := ss, co_pending := ps\<rparr>) = filter (\<lambda>s. se_id s \<noteq> i) (connected c)"
  using assms(2,3) filter_fold_insert [OF by_priority_filter [OF wf_by_priority [OF wf]]]
  by (simp add: connected_def)

lemma set_connected: "set (connected c) = {s \<in> set (co_slots c) \<union> set (co_pending c). se_alive s}"
  by (auto simp: connected_def)

lemma disconnect_ok:
  assumes wf: "co_wf c" and owner: "co_emit_depth c > 0 \<or> co_owner c"
  shows "fst (disconnect_by_id i c) \<longleftrightarrow> i \<in> se_id ` set (connected c)" and "co_wf (snd (disconnect_by_id i c))"
    and "connected (snd (disconnect_by_id i c)) = filter (\<lambda>s. se_id s \<noteq> i) (connected c)"
proof -
  let ?k = "find_slot_id i (co_slots c)"
  have pd: "distinct (map se_id (co_pending c))" using co_wfD(3) [OF wf] by (simp add: strict_sorted_iff)
  have "(fst (disconnect_by_id i c) \<longleftrightarrow> i \<in> se_id ` set (connected c)) \<and> co_wf (snd (disconnect_by_id i c)) \<and>
    connected (snd (disconnect_by_id i c)) = filter (\<lambda>s. se_id s \<noteq> i) (connected c)"
  proof (rule find_slot_id_cases [of i "co_slots c"])
    assume k: "?k < length (co_slots c)" "se_id (co_slots c ! ?k) = i" "se_alive (co_slots c ! ?k)"
    then have mem: "co_slots c ! ?k \<in> set (co_slots c)" by simp
    then have "\<forall>p \<in> set (co_pending c). se_id p \<noteq> i" using co_wfD(4) [OF wf] k(2) by fastforce
    then have pend: "filter (\<lambda>s. se_id s \<noteq> i) (filter se_alive (co_pending c)) = filter se_alive (co_pending c)"
      by (intro filter_absent) auto
    have hit: "i \<in> se_id ` set (connected c)"
      using mem k(2,3) by (intro image_eqI [of _ _ "co_slots c ! ?k"]) (auto simp: set_connected)
    show ?thesis
    proof (cases "co_emit_depth c > 0")
      case True
      let ?ss = "(co_slots c)[?k := (co_slots c ! ?k)\<lparr>se_alive := False\<rparr>]"
      have c: "disconnect_by_id i c = (True, c\<lparr>co_slots := ?ss, co_pending := co_pending c\<rparr>)"
        using True k by (simp add: disconnect_by_id_def Let_def)
      have "co_wf (c\<lparr>co_slots := ?ss, co_pending := co_pending c\<rparr>)"
        using True k by (intro same_ids_wf [OF wf]) (auto simp: map_update intro!: list_update_same_conv [THEN iffD2])
      with c hit connected_without [OF wf, of ?ss i "co_pending c"] filter_kill [OF co_wfD(2) [OF wf] k(1)] k(2) pend
      show ?thesis by simp
    next
      case False
      let ?ss = "stable_erase_at ?k (co_slots c)"
      have ss: "?ss = filter (\<lambda>s. se_id s \<noteq> i) (co_slots c)"
        using stable_erase_at_eq [OF k(1)] filter_erase [OF co_wfD(2) [OF wf] k(1)] k(2) by simp
      have c: "disconnect_by_id i c = (True, c\<lparr>co_slots := ?ss, co_pending := co_pending c\<rparr>)"
        using False k by (simp add: disconnect_by_id_def Let_def)
      have "co_wf (c\<lparr>co_slots := ?ss, co_pending := co_pending c\<rparr>)"
        using wf unfolding ss by (auto simp: co_wf_def sorted_wrt_filter distinct_map_filter)
      with c hit connected_without [OF wf, of ?ss i "co_pending c"] pend show ?thesis by (simp add: ss conj_commute)
    qed
  next
    assume k: "?k = length (co_slots c)" "\<forall>s \<in> set (co_slots c). se_id s = i \<longrightarrow> \<not> se_alive s"
    then have slots: "filter (\<lambda>s. se_id s \<noteq> i) (filter se_alive (co_slots c)) = filter se_alive (co_slots c)"
      by (intro filter_absent) auto
    show ?thesis
    proof (cases "co_emit_depth c > 0 \<and> kill_pending i (co_pending c) \<noteq> None")
      case True
      then obtain ps where ps: "kill_pending i (co_pending c) = Some ps" by blast
      note kp = kill_pending_Some [OF ps pd]
      have c: "disconnect_by_id i c = (True, c\<lparr>co_slots := co_slots c, co_pending := ps\<rparr>)"
        using True k ps by (simp add: disconnect_by_id_def Let_def)
      have "\<exists>p \<in> set (co_pending c). se_id p = i \<and> se_alive p" using True unfolding kill_pending_None by blast
      then have "i \<in> se_id ` set (connected c)" by (auto simp: set_connected)
      moreover have "co_wf (c\<lparr>co_slots := co_slots c, co_pending := ps\<rparr>)"
        using True kp by (intro same_ids_wf [OF wf]) auto
      ultimately show ?thesis using c connected_without [OF wf, of "co_slots c" i ps] kp slots by simp
    next
      case False
      have none: "\<forall>p \<in> set (co_pending c). se_id p = i \<longrightarrow> \<not> se_alive p"
        using False co_wfD(6) [OF wf] owner kill_pending_None [of i "co_pending c"] by (cases "co_emit_depth c > 0") auto
      have "disconnect_by_id i c = (False, c)" using False k by (auto simp: disconnect_by_id_def Let_def)
      moreover have "i \<notin> se_id ` set (connected c)" using none k(2) by (auto simp: set_connected)
      moreover from this have "filter (\<lambda>s. se_id s \<noteq> i) (connected c) = connected c" by (rule filter_absent)
      ultimately show ?thesis using wf by simp
    qed
  qed
  then show "fst (disconnect_by_id i c) \<longleftrightarrow> i \<in> se_id ` set (connected c)" and "co_wf (snd (disconnect_by_id i c))"
    and "connected (snd (disconnect_by_id i c)) = filter (\<lambda>s. se_id s \<noteq> i) (connected c)" by auto
qed

lemma disconnect_all_ok:
  assumes wf: "co_wf c" and owner: "co_owner c"
  shows "co_wf (sig_disconnect_all c)" and "connected (sig_disconnect_all c) = []"
proof -
  have none: "filter se_alive (map (\<lambda>s. s\<lparr>se_alive := False\<rparr>) xs) = []" for xs by (induction xs) auto
  show "connected (sig_disconnect_all c) = []"
    using co_wfD(6) [OF wf _ owner] by (simp add: sig_disconnect_all_def connected_def none)
  have "sorted_wrt fires_before (map (\<lambda>s. s\<lparr>se_alive := False\<rparr>) (co_slots c))"
    using co_wfD(1) [OF wf] by (simp add: sorted_wrt_map fires_before_def [abs_def])
  then show "co_wf (sig_disconnect_all c)"
    using wf by (auto simp: sig_disconnect_all_def co_wf_def comp_def)
qed

lemma leave_ok:
  assumes wf: "co_wf c" and owner: "co_owner c"
  shows "co_wf (leave_emit c)" and "connected (leave_emit c) = connected c"
proof -
  have "co_wf (leave_emit c) \<and> connected (leave_emit c) = connected c"
  proof (cases "co_emit_depth c - 1 = 0")
    case True
    have slots: "filter se_alive (apply_entries (co_pending c) (co_slots c)) = connected c"
      using apply_entries_fold [OF wf_by_priority [OF wf]] filter_fold_insert [OF wf_by_priority [OF wf]]
      by (simp add: connected_def)
    have c: "leave_emit c = c\<lparr>co_emit_depth := co_emit_depth c - 1, co_slots := connected c, co_pending := []\<rparr>"
      using True owner slots by (simp add: leave_emit_def Let_def sweep_dead_filter apply_pending_def)
    have "filter se_alive (connected c) = connected c" using connected_order(3) [OF wf] by (simp add: filter_id_conv)
    then have "connected (leave_emit c) = connected c" unfolding c by (simp add: connected_def)
    moreover have "co_wf (leave_emit c)" unfolding c co_wf_def using connected_order [OF wf] by auto
    ultimately show ?thesis by simp
  next
    case False
    then show ?thesis using wf by (auto simp: leave_emit_def Let_def connected_def co_wf_def)
  qed
  then show "co_wf (leave_emit c)" and "connected (leave_emit c) = connected c" by auto
qed

lemma leave_fields [simp]:
  "co_emit_depth (leave_emit c) = co_emit_depth c - 1" "co_owner (leave_emit c) = co_owner c"
  by (simp_all add: leave_emit_def Let_def sweep_dead_def apply_pending_def)

subsection \<open>Reachable cores\<close>

text \<open>The states a core passes through, between and inside emissions: an emission enters, marks a once-only
  slot before it calls it, and leaves, and any operation may happen in between. The signal's own members
  are called only while it exists.\<close>

inductive sig_reachable :: "'f core \<Rightarrow> bool" where
  init: "sig_reachable core_init"
| connect: "sig_reachable c \<Longrightarrow> co_owner c \<Longrightarrow> co_next_id c \<noteq> - 1 \<Longrightarrow> sig_reachable (snd (connect_into fn p once c))"
| disconnect: "sig_reachable c \<Longrightarrow> sig_reachable (snd (disconnect_thunk i c))"
| disconnect_all: "sig_reachable c \<Longrightarrow> co_owner c \<Longrightarrow> sig_reachable (sig_disconnect_all c)"
| block: "sig_reachable c \<Longrightarrow> co_owner c \<Longrightarrow> sig_reachable (sig_block c)"
| unblock: "sig_reachable c \<Longrightarrow> co_owner c \<Longrightarrow> sig_reachable (sig_unblock c)"
| destroy: "sig_reachable c \<Longrightarrow> sig_reachable (sig_destroy c)"
| enter: "sig_reachable c \<Longrightarrow> co_owner c \<Longrightarrow> sig_reachable (c\<lparr>co_emit_depth := co_emit_depth c + 1\<rparr>)"
| mark: "sig_reachable c \<Longrightarrow> co_emit_depth c > 0 \<Longrightarrow> k < length (co_slots c) \<Longrightarrow>
    sig_reachable (c\<lparr>co_slots := (co_slots c)[k := (co_slots c ! k)\<lparr>se_alive := False\<rparr>]\<rparr>)"
| leave: "sig_reachable c \<Longrightarrow> co_emit_depth c > 0 \<Longrightarrow> sig_reachable (leave_emit c)"

lemma mark_wf:
  assumes "co_wf c" and "co_emit_depth c > 0" and "k < length (co_slots c)"
  shows "co_wf (c\<lparr>co_slots := (co_slots c)[k := (co_slots c ! k)\<lparr>se_alive := False\<rparr>]\<rparr>)"
proof -
  let ?ss = "(co_slots c)[k := (co_slots c ! k)\<lparr>se_alive := False\<rparr>]"
  have "co_wf (c\<lparr>co_slots := ?ss, co_pending := co_pending c\<rparr>)"
    using assms by (intro same_ids_wf) (auto simp: map_update intro!: list_update_same_conv [THEN iffD2])
  then show ?thesis by simp
qed

lemma orphan_leave: "\<not> co_owner c \<Longrightarrow> co_wf c \<Longrightarrow> co_wf (leave_emit c)"
  by (auto simp: leave_emit_def Let_def co_wf_def)

lemma orphan_wf: "co_wf c \<Longrightarrow> co_wf (sig_destroy c)"
  by (auto simp: sig_destroy_def co_wf_def)

lemma sig_reachable_wf: "sig_reachable c \<Longrightarrow> co_wf c"
proof (induction rule: sig_reachable.induct)
  case (disconnect c i)
  then show ?case using disconnect_ok(2) [of c i] by (auto simp: disconnect_thunk_def)
next
  case (leave c)
  then show ?case using leave_ok(1) orphan_leave by (cases "co_owner c") auto
next
  case (enter c)
  then show ?case by (auto simp: co_wf_def)
qed (auto simp: connect_ok disconnect_all_ok orphan_wf mark_wf, auto simp: sig_block_def sig_unblock_def co_wf_def)

subsection \<open>Emission\<close>

text \<open>What a callback may do to the core while it runs: never move, revive or renumber a slot. Every
  operation of the signal obeys this inside an emission, because connections are parked.\<close>

definition co_step :: "'f core \<Rightarrow> 'f core \<Rightarrow> bool" where
  "co_step c c' \<longleftrightarrow> co_wf c' \<and> co_emit_depth c' = co_emit_depth c \<and> (co_owner c' \<longrightarrow> co_owner c) \<and>
     length (co_slots c') = length (co_slots c) \<and>
     (\<forall>i < length (co_slots c). co_slots c' ! i = co_slots c ! i \<or> co_slots c' ! i = (co_slots c ! i)\<lparr>se_alive := False\<rparr>)"

lemma co_stepD:
  assumes "co_step c c'"
  shows "co_wf c'" and "co_emit_depth c' = co_emit_depth c" and "co_owner c' \<Longrightarrow> co_owner c"
    and "length (co_slots c') = length (co_slots c)"
    and "i < length (co_slots c) \<Longrightarrow> co_slots c' ! i = co_slots c ! i \<or> co_slots c' ! i = (co_slots c ! i)\<lparr>se_alive := False\<rparr>"
  using assms by (auto simp: co_step_def)

lemma co_step_refl: "co_wf c \<Longrightarrow> co_step c c"
  by (simp add: co_step_def)

lemma co_step_trans:
  assumes "co_step c c1" and "co_step c1 c2"
  shows "co_step c c2"
proof -
  have "co_slots c2 ! i = co_slots c ! i \<or> co_slots c2 ! i = (co_slots c ! i)\<lparr>se_alive := False\<rparr>"
    if "i < length (co_slots c)" for i
    using co_stepD(5) [OF assms(1) that] co_stepD(5) [OF assms(2), of i] co_stepD(4) [OF assms(1)] that by auto
  with assms show ?thesis by (simp add: co_step_def)
qed

text \<open>The reference: visit a list of slots, each if it is still connected when its turn comes, after
  disconnecting it when it is to fire once.\<close>

fun visit_connected :: "('f \<Rightarrow> 'w \<times> 'f core \<Rightarrow> 'w \<times> 'f core) \<Rightarrow> 'f slot_entry list \<Rightarrow> 'w \<times> 'f core \<Rightarrow> 'w \<times> 'f core" where
  "visit_connected visit [] wc = wc"
| "visit_connected visit (e # es) (w, c) =
     (if se_id e \<in> se_id ` set (connected c) then
        visit_connected visit es (visit (se_fn e) (w, if se_once e then snd (disconnect_by_id (se_id e) c) else c))
      else visit_connected visit es (w, c))"

lemma still_connected:
  assumes wf: "co_wf c" and i: "i < length (co_slots c)"
  shows "se_id (co_slots c ! i) \<in> se_id ` set (connected c) \<longleftrightarrow> se_alive (co_slots c ! i)"
proof
  assume "se_id (co_slots c ! i) \<in> se_id ` set (connected c)"
  then obtain x where x: "x \<in> set (co_slots c) \<union> set (co_pending c)" "se_alive x" "se_id x = se_id (co_slots c ! i)"
    unfolding set_connected by (metis (mono_tags, lifting) imageE mem_Collect_eq)
  have mem: "co_slots c ! i \<in> set (co_slots c)" using i by simp
  then have "x \<in> set (co_slots c)" using x(1,3) co_wfD(4) [OF wf mem, of x] by auto
  with mem x(3) co_wfD(2) [OF wf] have "x = co_slots c ! i" by (auto simp: distinct_map inj_on_def)
  with x(2) show "se_alive (co_slots c ! i)" by simp
next
  assume "se_alive (co_slots c ! i)"
  with i show "se_id (co_slots c ! i) \<in> se_id ` set (connected c)" by (auto simp: set_connected)
qed

lemma mark_disconnects:
  assumes wf: "co_wf c" and i: "i < length (co_slots c)" and alive: "se_alive (co_slots c ! i)" and d: "co_emit_depth c > 0"
  shows "snd (disconnect_by_id (se_id (co_slots c ! i)) c) = c\<lparr>co_slots := (co_slots c)[i := (co_slots c ! i)\<lparr>se_alive := False\<rparr>]\<rparr>"
proof -
  let ?id = "se_id (co_slots c ! i)"
  have "find_slot_id ?id (co_slots c) = i"
  proof (rule find_slot_id_cases [of ?id "co_slots c"])
    assume "find_slot_id ?id (co_slots c) < length (co_slots c)" "se_id (co_slots c ! find_slot_id ?id (co_slots c)) = ?id"
    then show ?thesis using i co_wfD(2) [OF wf] nth_eq_iff_index_eq [of "map se_id (co_slots c)"] by simp
  next
    assume "\<forall>s \<in> set (co_slots c). se_id s = ?id \<longrightarrow> \<not> se_alive s"
    then show ?thesis using alive i by auto
  qed
  with i d show ?thesis by (simp add: disconnect_by_id_def Let_def)
qed

lemma mark_step:
  assumes "co_wf c" and "i < length (co_slots c)" and "co_emit_depth c > 0"
  shows "co_step c (c\<lparr>co_slots := (co_slots c)[i := (co_slots c ! i)\<lparr>se_alive := False\<rparr>]\<rparr>)"
  using mark_wf [OF assms(1,3,2)] assms(2) by (simp add: co_step_def nth_list_update)

text \<open>What a callback can do: any sequence of the signal's operations, nested emissions included.\<close>

inductive co_calls :: "'f core \<Rightarrow> 'f core \<Rightarrow> bool" where
  refl: "co_calls c c"
| connect: "co_calls c c1 \<Longrightarrow> co_owner c1 \<Longrightarrow> co_next_id c1 \<noteq> - 1 \<Longrightarrow> co_calls c (snd (connect_into fn p once c1))"
| disconnect: "co_calls c c1 \<Longrightarrow> co_calls c (snd (disconnect_thunk i c1))"
| disconnect_all: "co_calls c c1 \<Longrightarrow> co_owner c1 \<Longrightarrow> co_calls c (sig_disconnect_all c1)"
| block: "co_calls c c1 \<Longrightarrow> co_owner c1 \<Longrightarrow> co_calls c (sig_block c1)"
| unblock: "co_calls c c1 \<Longrightarrow> co_owner c1 \<Longrightarrow> co_calls c (sig_unblock c1)"
| destroy: "co_calls c c1 \<Longrightarrow> co_calls c (sig_destroy c1)"
| mark: "co_calls c c1 \<Longrightarrow> co_emit_depth c1 > 0 \<Longrightarrow> k < length (co_slots c1) \<Longrightarrow>
    co_calls c (c1\<lparr>co_slots := (co_slots c1)[k := (co_slots c1 ! k)\<lparr>se_alive := False\<rparr>]\<rparr>)"
| emit: "co_calls c c1 \<Longrightarrow> co_owner c1 \<Longrightarrow> co_calls (c1\<lparr>co_emit_depth := co_emit_depth c1 + 1\<rparr>) c2 \<Longrightarrow>
    co_emit_depth c2 = co_emit_depth c1 + 1 \<Longrightarrow> co_calls c (leave_emit c2)"

definition visit_ok :: "('f \<Rightarrow> 'w \<times> 'f core \<Rightarrow> 'w \<times> 'f core) \<Rightarrow> bool" where
  "visit_ok visit \<longleftrightarrow> (\<forall>f w c. co_wf c \<and> co_emit_depth c > 0 \<longrightarrow> co_calls c (snd (visit f (w, c))))"

lemma co_calls_trans: "co_calls c1 c2 \<Longrightarrow> co_calls c c1 \<Longrightarrow> co_calls c c2"
proof (induction arbitrary: c rule: co_calls.induct)
  case (emit c1 c2 c3)
  then show ?case by (intro co_calls.emit [of c c2]) simp_all
qed (auto intro: co_calls.intros)

lemma connect_step:
  assumes "co_wf c" and "co_owner c" and "co_next_id c \<noteq> - 1" and "co_emit_depth c > 0"
  shows "co_step c (snd (connect_into fn p once c))"
  using connect_ok(1) [OF assms(1-3), of fn p once] assms(4) by (simp add: co_step_def connect_into_def Let_def)

lemma disconnect_step:
  assumes "co_wf c" and "co_emit_depth c > 0"
  shows "co_step c (snd (disconnect_by_id i c))"
proof -
  have "co_slots (snd (disconnect_by_id i c)) = co_slots c \<or>
      (\<exists>k < length (co_slots c). co_slots (snd (disconnect_by_id i c)) = (co_slots c)[k := (co_slots c ! k)\<lparr>se_alive := False\<rparr>])"
    using assms(2) by (cases rule: find_slot_id_cases [of i "co_slots c"])
      (auto simp: disconnect_by_id_def Let_def split: option.splits)
  moreover have "co_emit_depth (snd (disconnect_by_id i c)) = co_emit_depth c" "co_owner (snd (disconnect_by_id i c)) = co_owner c"
    by (simp_all add: disconnect_by_id_def Let_def split: option.splits)
  ultimately show ?thesis
    using disconnect_ok(2) [OF assms(1), of i] assms(2) by (auto simp: co_step_def nth_list_update)
qed

lemma disconnect_all_step: "co_wf c \<Longrightarrow> co_owner c \<Longrightarrow> co_emit_depth c > 0 \<Longrightarrow> co_step c (sig_disconnect_all c)"
  using disconnect_all_ok(1) [of c] by (simp add: co_step_def sig_disconnect_all_def)

lemma flag_steps:
  assumes "co_wf c"
  shows "co_step c (sig_block c)" and "co_step c (sig_unblock c)" and "co_step c (sig_destroy c)"
  using assms orphan_wf [OF assms] by (auto simp: co_step_def sig_block_def sig_unblock_def sig_destroy_def co_wf_def)

lemma nested_step:
  assumes wf: "co_wf c" and d: "co_emit_depth c > 0" and step: "co_step (c\<lparr>co_emit_depth := co_emit_depth c + 1\<rparr>) c'"
  shows "co_step c (leave_emit c')"
proof -
  note s = co_stepD [OF step]
  have "leave_emit c' = c'\<lparr>co_emit_depth := co_emit_depth c\<rparr>" using s(2) d by (simp add: leave_emit_def Let_def)
  moreover have "co_wf (c'\<lparr>co_emit_depth := co_emit_depth c\<rparr>)" using s(1) d by (simp add: co_wf_def)
  ultimately show ?thesis using s d step by (simp add: co_step_def)
qed

lemma enter_wf: "co_wf c \<Longrightarrow> co_wf (c\<lparr>co_emit_depth := co_emit_depth c + 1\<rparr>)"
  by (auto simp: co_wf_def)

lemma co_calls_step: "co_calls c c' \<Longrightarrow> co_wf c \<Longrightarrow> co_emit_depth c > 0 \<Longrightarrow> co_step c c'"
proof (induction rule: co_calls.induct)
  case (refl c)
  then show ?case by (simp add: co_step_refl)
next
  case (emit c c1 c2)
  then have step: "co_step c c1" by blast
  note s = co_stepD(1,2) [OF step]
  have "co_step (c1\<lparr>co_emit_depth := co_emit_depth c1 + 1\<rparr>) c2" using emit enter_wf [OF s(1)] by simp
  from nested_step [OF s(1) _ this] emit.prems s(2) co_step_trans [OF step] show ?case by simp
next
  case (disconnect c c1 i)
  then have step: "co_step c c1" by blast
  with disconnect.prems co_stepD(1,2) [OF step] co_step_refl disconnect_step [of c1 i] co_step_trans [OF step]
  show ?case by (simp add: disconnect_thunk_def)
next
  case (connect c c1 fn p once)
  then have step: "co_step c c1" by blast
  with connect connect_step [of c1 fn p once] co_stepD(1,2) [OF step] co_step_trans [OF step] show ?case by simp
next
  case (disconnect_all c c1)
  then have step: "co_step c c1" by blast
  with disconnect_all disconnect_all_step [of c1] co_stepD(1,2) [OF step] co_step_trans [OF step] show ?case by simp
next
  case (mark c c1 k)
  then have step: "co_step c c1" by blast
  with mark mark_step [of c1 k] co_stepD(1,2) [OF step] co_step_trans [OF step] show ?case by simp
qed (meson co_step_trans co_stepD(1) flag_steps)+

lemma co_calls_reachable: "co_calls c c' \<Longrightarrow> sig_reachable c \<Longrightarrow> sig_reachable c'"
proof (induction rule: co_calls.induct)
  case (emit c c1 c2)
  then have "sig_reachable c2" using sig_reachable.enter [of c1] by blast
  then show ?case using emit.hyps(4) by (intro sig_reachable.leave) simp_all
qed (auto intro: sig_reachable.intros)

lemma visit_okD:
  assumes "visit_ok visit" and "co_wf c" and "co_emit_depth c > 0"
  shows "co_calls c (snd (visit f (w, c)))" and "co_step c (snd (visit f (w, c)))"
proof -
  show "co_calls c (snd (visit f (w, c)))" using assms unfolding visit_ok_def by blast
  then show "co_step c (snd (visit f (w, c)))" using assms(2,3) by (rule co_calls_step)
qed

lemma emit_loop_visits:
  assumes visit: "visit_ok visit"
  shows "co_wf c \<Longrightarrow> co_emit_depth c > 0 \<Longrightarrow> co_step c0 c \<Longrightarrow> i \<le> length (co_slots c0) \<Longrightarrow>
    emit_loop visit [i..<length (co_slots c0)] (w, c) = visit_connected visit (filter se_alive (drop i (co_slots c0))) (w, c) \<and>
    co_step c (snd (visit_connected visit (filter se_alive (drop i (co_slots c0))) (w, c)))"
proof (induction "length (co_slots c0) - i" arbitrary: i w c)
  case 0
  then show ?case by (simp add: co_step_refl)
next
  case (Suc k)
  then have i: "i < length (co_slots c0)" by simp
  have up: "[i..<length (co_slots c0)] = i # [Suc i..<length (co_slots c0)]" using i by (rule upt_conv_Cons)
  have drop: "drop i (co_slots c0) = co_slots c0 ! i # drop (Suc i) (co_slots c0)" using i by (rule nth_drop_Cons)
  note st = co_stepD [OF Suc.prems(3)]
  have ic: "i < length (co_slots c)" using i st(4) by simp
  let ?e = "co_slots c0 ! i" and ?s = "co_slots c ! i"
  have s: "?s = ?e \<or> ?s = ?e\<lparr>se_alive := False\<rparr>" by (rule st(5) [OF i])
  then have eq: "se_id ?s = se_id ?e" "se_fn ?s = se_fn ?e" "se_once ?s = se_once ?e" by auto
  have IH: "emit_loop visit [Suc i..<length (co_slots c0)] (w', c') = visit_connected visit (filter se_alive (drop (Suc i) (co_slots c0))) (w', c') \<and>
      co_step c (snd (visit_connected visit (filter se_alive (drop (Suc i) (co_slots c0))) (w', c')))" if "co_step c c'" for w' c'
  proof -
    have h: "emit_loop visit [Suc i..<length (co_slots c0)] (w', c') = visit_connected visit (filter se_alive (drop (Suc i) (co_slots c0))) (w', c') \<and>
        co_step c' (snd (visit_connected visit (filter se_alive (drop (Suc i) (co_slots c0))) (w', c')))"
      using Suc.hyps(2) Suc.prems(2) i co_stepD(1,2) [OF that] co_step_trans [OF Suc.prems(3) that]
      by (intro Suc.hyps(1)) simp_all
    from h show ?thesis by (intro conjI co_step_trans [OF that]) blast+
  qed
  show ?case
  proof (cases "se_alive ?s")
    case False
    show ?thesis
    proof (cases "se_alive ?e")
      case True
      with False still_connected [OF Suc.prems(1) ic] eq IH [OF co_step_refl [OF Suc.prems(1)]] up drop show ?thesis
        by (simp add: Let_def)
    qed (use False IH [OF co_step_refl [OF Suc.prems(1)]] up drop in \<open>simp add: Let_def\<close>)
  next
    case True
    then have e: "?s = ?e" "se_alive ?e" using s by auto
    let ?c = "if se_once ?s then c\<lparr>co_slots := (co_slots c)[i := ?s\<lparr>se_alive := False\<rparr>]\<rparr> else c"
    have c: "(if se_once ?e then snd (disconnect_by_id (se_id ?e) c) else c) = ?c"
      using mark_disconnects [OF Suc.prems(1) ic True Suc.prems(2)] e(1) by simp
    have step: "co_step c ?c"
      using mark_step [OF Suc.prems(1) ic Suc.prems(2)] co_step_refl [OF Suc.prems(1)] by simp
    have "co_step ?c (snd (visit (se_fn ?s) (w, ?c)))"
      using visit_okD(2) [OF visit] co_stepD(1,2) [OF step] Suc.prems(2) by simp
    with step have "co_step c (snd (visit (se_fn ?s) (w, ?c)))" by (rule co_step_trans)
    note IH = IH [OF this, of "fst (visit (se_fn ?s) (w, ?c))", unfolded prod.collapse]
    have "se_id ?e \<in> se_id ` set (connected c)" using still_connected [OF Suc.prems(1) ic] True eq(1) by simp
    then have "visit_connected visit (filter se_alive (drop i (co_slots c0))) (w, c) =
        visit_connected visit (filter se_alive (drop (Suc i) (co_slots c0))) (visit (se_fn ?e) (w, ?c))"
      using e(2) c by (simp add: drop)
    moreover have "emit_loop visit [i..<length (co_slots c0)] (w, c) =
        emit_loop visit [Suc i..<length (co_slots c0)] (visit (se_fn ?s) (w, ?c))"
      using True by (simp add: up Let_def)
    ultimately show ?thesis using IH e(1) by simp
  qed
qed

lemma emit_loop_calls:
  assumes "visit_ok visit"
  shows "co_wf c \<Longrightarrow> co_emit_depth c > 0 \<Longrightarrow> \<forall>i \<in> set is. i < length (co_slots c) \<Longrightarrow>
    co_calls c (snd (emit_loop visit is (w, c)))"
proof (induction "is" arbitrary: w c)
  case Nil
  then show ?case by (simp add: co_calls.refl)
next
  case (Cons i "is")
  then have i: "i < length (co_slots c)" by simp
  let ?s = "co_slots c ! i"
  show ?case
  proof (cases "se_alive ?s")
    case True
    let ?c = "if se_once ?s then c\<lparr>co_slots := (co_slots c)[i := ?s\<lparr>se_alive := False\<rparr>]\<rparr> else c"
    have c: "co_calls c ?c" using co_calls.mark [OF co_calls.refl Cons.prems(2) i] by (simp add: co_calls.refl)
    note st = co_stepD [OF co_calls_step [OF c Cons.prems(1,2)]]
    have v: "co_calls ?c (snd (visit (se_fn ?s) (w, ?c)))" using visit_okD(1) [OF assms] st(1,2) Cons.prems(2) by simp
    then have cv: "co_calls c (snd (visit (se_fn ?s) (w, ?c)))" using c by (rule co_calls_trans)
    note sv = co_stepD [OF co_calls_step [OF cv Cons.prems(1,2)]]
    have "co_calls (snd (visit (se_fn ?s) (w, ?c))) (snd (emit_loop visit is (visit (se_fn ?s) (w, ?c))))"
      using Cons.IH [of "snd (visit (se_fn ?s) (w, ?c))" "fst (visit (se_fn ?s) (w, ?c))"] sv(1,2,4) Cons.prems by simp
    from co_calls_trans [OF this cv] True show ?thesis by (simp add: Let_def)
  next
    case False
    with Cons show ?thesis by (simp add: Let_def)
  qed
qed

text \<open>An emission, from the core that enters it to the core that leaves it.\<close>

lemma run_emit_visits:
  assumes visit: "visit_ok visit" and wf: "co_wf c" and "\<not> co_blocked c"
  defines "c1 \<equiv> c\<lparr>co_emit_depth := co_emit_depth c + 1\<rparr>"
  obtains w' c' where "visit_connected visit (filter se_alive (co_slots c)) (w, c1) = (w', c')"
    and "run_emit visit (w, c) = (w', leave_emit c')" and "co_step c1 c'" and "co_calls c1 c'"
proof -
  have c1: "co_wf c1" "co_emit_depth c1 > 0" "co_slots c1 = co_slots c" using enter_wf [OF wf] by (simp_all add: c1_def)
  obtain w' c' where r: "visit_connected visit (filter se_alive (co_slots c)) (w, c1) = (w', c')" by fastforce
  have loop: "emit_loop visit [0..<length (co_slots c)] (w, c1) = (w', c')" and step: "co_step c1 c'"
    using emit_loop_visits [OF visit c1(1,2) co_step_refl [OF c1(1)], of 0 w] r c1(3) by simp_all
  have "co_calls c1 c'" using emit_loop_calls [OF visit c1(1,2), of "[0..<length (co_slots c)]" w] c1(3) loop by simp
  moreover have "run_emit visit (w, c) = (w', leave_emit c')" using assms(3) loop by (simp add: run_emit_def c1_def)
  ultimately show thesis using that r step by blast
qed

text \<open>A callback may emit the same signal again.\<close>

lemma nested_emit_calls:
  assumes visit: "visit_ok visit" and wf: "co_wf c" and owner: "co_owner c"
  shows "co_calls c (snd (run_emit visit (w, c)))"
proof (cases "co_blocked c")
  case True
  then show ?thesis by (simp add: run_emit_def co_calls.refl)
next
  case False
  obtain w' c' where r: "run_emit visit (w, c) = (w', leave_emit c')"
    "co_step (c\<lparr>co_emit_depth := co_emit_depth c + 1\<rparr>) c'" "co_calls (c\<lparr>co_emit_depth := co_emit_depth c + 1\<rparr>) c'"
    using run_emit_visits [OF visit wf False, of w] by metis
  from co_calls.emit [OF co_calls.refl owner r(3)] co_stepD(2) [OF r(2)] r(1) show ?thesis by simp
qed

text \<open>C39: The slots of a signal form a list in the order of priority, ties in the order of connection,
  whatever happened before, inside an emission or not: the identifiers are distinct, a connection gets an
  identifier no slot has and goes behind the slots of the same priority, disconnecting says whether the
  slot was connected and removes it and no other, disconnecting all leaves none, and leaving an emission
  changes nothing, but puts the slots where the next emission finds them.\<close>

theorem signal_is_ordered_list:
  assumes "sig_reachable c" and "co_owner c"
  shows "sorted_wrt fires_before (connected c) \<and> distinct (map se_id (connected c)) \<and>
    (co_emit_depth c = 0 \<longrightarrow> co_slots c = connected c \<and> sig_size c = length (connected c)) \<and>
    (co_next_id c \<noteq> - 1 \<longrightarrow> (let (i, c') = connect_into fn p once c
      in i \<notin> se_id ` set (connected c) \<and>
         connected c' = insert_entry \<lparr>se_id = i, se_priority = p, se_fn = fn, se_alive = True, se_once = once\<rparr> (connected c))) \<and>
    (let (found, c') = disconnect_thunk k c
      in (found \<longleftrightarrow> k \<in> se_id ` set (connected c)) \<and> connected c' = filter (\<lambda>s. se_id s \<noteq> k) (connected c)) \<and>
    connected (sig_disconnect_all c) = [] \<and>
    (co_emit_depth c > 0 \<longrightarrow> connected (leave_emit c) = connected c) \<and>
    (co_emit_depth c = 1 \<longrightarrow> co_slots (leave_emit c) = connected c)"
proof -
  note wf = sig_reachable_wf [OF assms(1)]
  note order = connected_order [OF wf]
  have at_rest: "co_slots d = connected d \<and> sig_size d = length (connected d)" if "co_wf d" "co_owner d" "co_emit_depth d = 0" for d :: "'a core"
    using co_wfD(6,7) [OF that(1) that(3,2)] by (simp add: connected_def sig_size_def filter_id_conv)
  have "co_next_id c \<notin> se_id ` set (connected c)" using order(3) by fastforce
  moreover have "fst (connect_into fn p once c) = co_next_id c" by (simp add: connect_into_def Let_def)
  ultimately have "co_next_id c \<noteq> - 1 \<longrightarrow> (let (i, c') = connect_into fn p once c
      in i \<notin> se_id ` set (connected c) \<and>
         connected c' = insert_entry \<lparr>se_id = i, se_priority = p, se_fn = fn, se_alive = True, se_once = once\<rparr> (connected c))"
    using connect_ok(2) [OF wf assms(2), of fn p once] by (simp add: case_prod_beta Let_def)
  moreover have "co_emit_depth c = 1 \<longrightarrow> co_slots (leave_emit c) = connected c"
    using at_rest [OF leave_ok(1) [OF wf assms(2)]] leave_ok(2) [OF wf assms(2)] assms(2) by simp
  ultimately show ?thesis
    using order(1,2) at_rest [OF wf assms(2)] disconnect_ok(1,3) [OF wf disjI2 [OF assms(2)], of k] disconnect_all_ok(2) [OF wf assms(2)]
      leave_ok(2) [OF wf assms(2)] assms(2)
    by (simp add: case_prod_beta Let_def disconnect_thunk_def)
qed

text \<open>Three slots, the last of which fires once and before the second.\<close>

definition demo_core :: "nat core" where
  "demo_core = snd (sig_connect_once 1 1 (snd (sig_connect 5 3 (snd (sig_connect 0 0 core_init)))))"

lemma demo_core_eq:
  "demo_core = \<lparr>co_slots = [\<lparr>se_id = 1, se_priority = 0, se_fn = 0, se_alive = True, se_once = False\<rparr>,
      \<lparr>se_id = 3, se_priority = 1, se_fn = 1, se_alive = True, se_once = True\<rparr>,
      \<lparr>se_id = 2, se_priority = 3, se_fn = 5, se_alive = True, se_once = False\<rparr>],
    co_pending = [], co_next_id = 4, co_emit_depth = 0, co_blocked = False, co_owner = True\<rparr>"
  by (simp add: demo_core_def sig_connect_def sig_connect_once_def connect_into_def core_init_def bubble_last_def bubble.simps)

lemma demo_core_reachable: "sig_reachable demo_core" "co_owner demo_core" "\<not> co_blocked demo_core"
proof -
  have "sig_reachable (snd (sig_connect 0 0 core_init) :: nat core)"
    unfolding sig_connect_def by (rule sig_reachable.connect [OF sig_reachable.init]) (simp_all add: core_init_def)
  then have "sig_reachable (snd (sig_connect 5 3 (snd (sig_connect 0 0 core_init))) :: nat core)"
    unfolding sig_connect_def by (rule sig_reachable.connect) (simp_all add: connect_into_def core_init_def)
  then show "sig_reachable demo_core"
    unfolding demo_core_def sig_connect_def sig_connect_once_def
    by (rule sig_reachable.connect) (simp_all add: connect_into_def core_init_def)
  show "co_owner demo_core" "\<not> co_blocked demo_core" by (simp_all add: demo_core_eq)
qed

theorem signal_is_ordered_list_witness:
  "map se_id (connected demo_core) = [1, 3, 2] \<and>
   map se_id (connected (snd (connect_into 7 1 False demo_core))) = [1, 3, 4, 2] \<and>
   fst (disconnect_thunk 3 demo_core) \<and> map se_id (connected (snd (disconnect_thunk 3 demo_core))) = [1, 2]"
proof -
  have slots: "connected demo_core = co_slots demo_core" by (simp add: connected_def demo_core_eq)
  have "fst (connect_into 7 1 False demo_core) = 4" by (simp add: connect_into_def demo_core_eq Let_def)
  then show ?thesis
    using signal_is_ordered_list [OF demo_core_reachable(1,2), of 7 1 False 3]
    unfolding slots by (simp add: demo_core_eq case_prod_beta Let_def insert_entry_Cons)
qed

text \<open>C40: Emission is safe when the callbacks call back into the signal, whatever sequence of connections,
  disconnections, emissions and even destruction they run: each slot connected when the emission starts is called in
  order if it is still connected when its turn comes, a slot that fires once after being disconnected, and
  no slot connected meanwhile is called. The core ends up as the callbacks left it, at the emission depth it had
  before, and it is again a core the operations can reach, so the signal keeps its order.\<close>

theorem signal_emit_reentrant:
  assumes "visit_ok visit" and "sig_reachable c" and "co_owner c" and "\<not> co_blocked c"
  shows "\<exists>w' c'. visit_connected visit (filter se_alive (co_slots c)) (w, c\<lparr>co_emit_depth := co_emit_depth c + 1\<rparr>) = (w', c') \<and>
    run_emit visit (w, c) = (w', leave_emit c') \<and> sig_reachable (leave_emit c') \<and>
    co_emit_depth (leave_emit c') = co_emit_depth c \<and>
    (co_owner c' \<longrightarrow> connected (leave_emit c') = connected c')"
proof -
  let ?c = "c\<lparr>co_emit_depth := co_emit_depth c + 1\<rparr>"
  obtain w' c' where r: "visit_connected visit (filter se_alive (co_slots c)) (w, ?c) = (w', c')"
    "run_emit visit (w, c) = (w', leave_emit c')" "co_step ?c c'" "co_calls ?c c'"
    using run_emit_visits [OF assms(1) sig_reachable_wf [OF assms(2)] assms(4)] by metis
  note s = co_stepD(1,2) [OF r(3)]
  have "sig_reachable c'" using co_calls_reachable [OF r(4)] sig_reachable.enter [OF assms(2,3)] by blast
  then have "sig_reachable (leave_emit c')" using s(2) by (intro sig_reachable.leave) simp_all
  moreover have "co_emit_depth (leave_emit c') = co_emit_depth c"
    using s(2) by simp
  ultimately show ?thesis using r(1,2) leave_ok(2) [OF s(1)] by blast
qed


text \<open>Callbacks that leave the signal alone run once each in the order of the list, and the slots that
  fire once are gone afterwards.\<close>

lemma visit_quiet:
  assumes quiet: "\<And>f w c. visit f (w, c) = (g f w, c)"
  shows "co_wf c \<Longrightarrow> co_emit_depth c > 0 \<Longrightarrow> distinct (map se_id es) \<Longrightarrow> set es \<subseteq> set (connected c) \<Longrightarrow>
    fst (visit_connected visit es (w, c)) = fold (\<lambda>e. g (se_fn e)) es w \<and> co_wf (snd (visit_connected visit es (w, c))) \<and>
    co_owner (snd (visit_connected visit es (w, c))) = co_owner c \<and>
    connected (snd (visit_connected visit es (w, c))) = filter (\<lambda>s. se_id s \<notin> se_id ` set (filter se_once es)) (connected c)"
proof (induction es arbitrary: w c)
  case (Cons e es)
  let ?c = "if se_once e then snd (disconnect_by_id (se_id e) c) else c"
  note dis = disconnect_ok [OF Cons.prems(1) disjI1 [OF Cons.prems(2)], of "se_id e"]
  have conn: "connected ?c = filter (\<lambda>s. se_once e \<longrightarrow> se_id s \<noteq> se_id e) (connected c)" using dis(3) by simp
  have other: "x \<in> set es \<Longrightarrow> se_id x \<noteq> se_id e" for x using Cons.prems(3) by (auto simp: image_iff)
  have "set es \<subseteq> set (connected ?c)" unfolding conn using other Cons.prems(4) by auto
  moreover have wf: "co_wf ?c" using dis(2) Cons.prems(1) by simp
  moreover have d: "co_emit_depth ?c > 0" "co_owner ?c = co_owner c"
    using Cons.prems(2) by (simp_all add: disconnect_by_id_def Let_def split: option.splits)
  ultimately have IH: "fst (visit_connected visit es (g (se_fn e) w, ?c)) = fold (\<lambda>e. g (se_fn e)) es (g (se_fn e) w) \<and>
      co_wf (snd (visit_connected visit es (g (se_fn e) w, ?c))) \<and>
      co_owner (snd (visit_connected visit es (g (se_fn e) w, ?c))) = co_owner ?c \<and>
      connected (snd (visit_connected visit es (g (se_fn e) w, ?c))) = filter (\<lambda>s. se_id s \<notin> se_id ` set (filter se_once es)) (connected ?c)"
    using Cons.prems(3) by (intro Cons.IH) simp_all
  have step: "visit_connected visit (e # es) (w, c) = visit_connected visit es (g (se_fn e) w, ?c)" using Cons.prems(4) quiet by simp
  have "filter (\<lambda>s. se_id s \<notin> se_id ` set (filter se_once es)) (connected ?c) =
      filter (\<lambda>s. se_id s \<notin> se_id ` set (filter se_once (e # es))) (connected c)"
    unfolding conn filter_filter using other by (intro filter_cong) auto
  with IH d(2) show ?case unfolding step by simp
qed simp

lemma emit_quiet:
  assumes quiet: "\<And>f w c. visit f (w, c) = (g f w, c)"
    and "sig_reachable c" and "co_owner c" and "\<not> co_blocked c" and "co_emit_depth c = 0"
  shows "fst (run_emit visit (w, c)) = fold (\<lambda>e. g (se_fn e)) (connected c) w"
    and "connected (snd (run_emit visit (w, c))) = filter (\<lambda>s. \<not> se_once s) (connected c)"
proof -
  let ?c = "c\<lparr>co_emit_depth := co_emit_depth c + 1\<rparr>"
  note wf = sig_reachable_wf [OF assms(2)]
  have at_rest: "co_slots c = connected c" "filter se_alive (connected c) = connected c" "connected ?c = connected c"
    using co_wfD(6,7) [OF wf assms(5,3)] by (simp_all add: connected_def filter_id_conv)
  have "visit_ok visit" by (simp add: visit_ok_def quiet co_calls.refl)
  from run_emit_visits [OF this wf assms(4), of w] obtain w' c' where
    r: "visit_connected visit (connected c) (w, ?c) = (w', c')" "run_emit visit (w, c) = (w', leave_emit c')"
    using at_rest(1,2) by metis
  note q = visit_quiet [where visit = visit and g = g and w = w, OF quiet enter_wf [OF wf] _ connected_order(2) [OF wf], unfolded at_rest(3) r(1), simplified]
  from q r(2) show "fst (run_emit visit (w, c)) = fold (\<lambda>e. g (se_fn e)) (connected c) w" by simp
  have "filter (\<lambda>s. se_id s \<notin> se_id ` set (filter se_once (connected c))) (connected c) = filter (\<lambda>s. \<not> se_once s) (connected c)"
    using connected_order(2) [OF wf] by (intro filter_cong) (auto simp: distinct_map inj_on_def)
  with q r(2) leave_ok(2) [of c'] assms(3) show "connected (snd (run_emit visit (w, c))) = filter (\<lambda>s. \<not> se_once s) (connected c)"
    by simp
qed

text \<open>Collecting the results of such callbacks gives them in the same order.\<close>

lemma fold_collect: "fold (\<lambda>e (out, w). (out @ [h e], w)) es (out, w) = (out @ map h es, w)"
  by (induction es arbitrary: out) simp_all

lemma collect_quiet:
  assumes "\<And>f w c. call f args (w, c) = (res f, w, c)"
    and "sig_reachable c" and "co_owner c" and "\<not> co_blocked c" and "co_emit_depth c = 0"
  shows "fst (emit_and_collect call args (w, c)) = map (\<lambda>e. res (se_fn e)) (connected c)"
proof -
  let ?visit = "\<lambda>fn ((out, w), c). let (r, w', c') = call fn args (w, c) in ((out @ [r], w'), c')"
  have "fst (run_emit ?visit (([], w), c)) = (map (\<lambda>e. res (se_fn e)) (connected c), w)"
    by (subst emit_quiet(1) [OF _ assms(2-5), where g = "\<lambda>f (out, w). (out @ [res f], w)"])
      (simp_all add: assms(1) fold_collect split: prod.split)
  then show ?thesis by (simp add: emit_and_collect_def case_prod_beta)
qed

text \<open>Callbacks that log their call: one disconnects the second slot, one connects another.\<close>

definition demo_visit :: "nat \<Rightarrow> nat list \<times> nat core \<Rightarrow> nat list \<times> nat core" where
  "demo_visit f wc =
     (let (w, c) = wc
      in (w @ [f], if f = 0 then snd (disconnect_thunk 2 c)
                   else if f = 1 \<and> co_owner c \<and> co_next_id c \<noteq> - 1 then snd (sig_connect 7 0 c) else c))"

lemma demo_visit_ok: "visit_ok demo_visit"
  unfolding visit_ok_def demo_visit_def sig_connect_def by (auto simp: Let_def intro: co_calls.intros)

theorem signal_emit_reentrant_witness:
  "\<exists>c'. run_emit demo_visit ([], demo_core) = ([0, 1], c') \<and> sig_reachable c' \<and> map se_id (connected c') = [1, 4]"
proof -
  define c' where "c' = snd (visit_connected demo_visit (filter se_alive (co_slots demo_core))
      ([], demo_core\<lparr>co_emit_depth := co_emit_depth demo_core + 1\<rparr>))"
  have v: "visit_connected demo_visit (filter se_alive (co_slots demo_core)) ([], demo_core\<lparr>co_emit_depth := co_emit_depth demo_core + 1\<rparr>) = ([0, 1], c')"
    and c': "co_owner c'" "map se_id (connected c') = [1, 4]"
    by (simp_all add: c'_def demo_core_eq demo_visit_def disconnect_thunk_def disconnect_by_id_def sig_connect_def connect_into_def
      connected_def Let_def insert_entry_Cons)
  from signal_emit_reentrant [OF demo_visit_ok demo_core_reachable, of "[]", unfolded v] c' show ?thesis by auto
qed

end
