(* ===== verification/Bimap.thy ===== *)
theory Bimap
  imports Flat_Hash_Map
begin

text \<open>
  The two-way map of \<open>container/bimap.hpp\<close>: two hash maps, one from left to right and one from right to
  left, which every operation changes together. The abstract view is the set of pairs \<open>bm_rel\<close>, a
  relation that is functional in both directions. The keys are compared by \<open>std::equal_to\<close>, which is
  equality; the two hashes are parameters.
\<close>

subsection \<open>The code\<close>

record ('l, 'r) bimap =
  bm_l_to_r :: "('l, 'r) hmap"
  bm_r_to_l :: "('r, 'l) hmap"

text \<open>What the pointer returned by \<open>flat_hash_map::find\<close> points to.\<close>

definition find_value :: "('k \<Rightarrow> u64) \<Rightarrow> 'k \<Rightarrow> ('k, 'v) hmap \<Rightarrow> 'v option option" where
  "find_value hash key m = map_option (map_option (\<lambda>i. hm_load i m)) (hm_find hash (=) key m)"

definition bm_default :: "('l, 'r) bimap" where
  "bm_default = \<lparr>bm_l_to_r = hm_default, bm_r_to_l = hm_default\<rparr>"

definition bm_make :: "nat \<Rightarrow> ('l, 'r) bimap option" where
  "bm_make expected_entries =
     (case hm_make (=) expected_entries of None \<Rightarrow> None
      | Some m \<Rightarrow> map_option (\<lambda>n. \<lparr>bm_l_to_r = m, bm_r_to_l = n\<rparr>) (hm_make (=) expected_entries))"

definition bm_size :: "('l, 'r) bimap \<Rightarrow> nat" where
  "bm_size b = hm_size (bm_l_to_r b)"

definition bm_empty :: "('l, 'r) bimap \<Rightarrow> bool" where
  "bm_empty b \<longleftrightarrow> hm_size (bm_l_to_r b) = 0"

definition bm_capacity :: "('l, 'r) bimap \<Rightarrow> nat" where
  "bm_capacity b = length (hm_slots (bm_l_to_r b))"

definition bm_reserve :: "nat \<Rightarrow> ('l, 'r) bimap \<Rightarrow> ('l, 'r) bimap option" where
  "bm_reserve n b =
     (case hm_reserve (=) n (bm_l_to_r b) of None \<Rightarrow> None
      | Some lr \<Rightarrow> map_option (\<lambda>rl. \<lparr>bm_l_to_r = lr, bm_r_to_l = rl\<rparr>) (hm_reserve (=) n (bm_r_to_l b)))"

definition bm_clear :: "('l, 'r) bimap \<Rightarrow> ('l, 'r) bimap" where
  "bm_clear b = \<lparr>bm_l_to_r = hm_clear (bm_l_to_r b), bm_r_to_l = hm_clear (bm_r_to_l b)\<rparr>"

definition bm_shrink_to_fit :: "('l, 'r) bimap \<Rightarrow> ('l, 'r) bimap option" where
  "bm_shrink_to_fit b =
     (case hm_shrink_to_fit (=) (bm_l_to_r b) of None \<Rightarrow> None
      | Some lr \<Rightarrow> map_option (\<lambda>rl. \<lparr>bm_l_to_r = lr, bm_r_to_l = rl\<rparr>) (hm_shrink_to_fit (=) (bm_r_to_l b)))"

definition bm_swap :: "('l, 'r) bimap \<Rightarrow> ('l, 'r) bimap \<Rightarrow> ('l, 'r) bimap \<times> ('l, 'r) bimap" where
  "bm_swap a b =
     (let (al, bl) = hm_swap (bm_l_to_r a) (bm_l_to_r b); (ar, br) = hm_swap (bm_r_to_l a) (bm_r_to_l b)
      in (\<lparr>bm_l_to_r = al, bm_r_to_l = ar\<rparr>, \<lparr>bm_l_to_r = bl, bm_r_to_l = br\<rparr>))"

definition bm_insert ::
    "('l \<Rightarrow> u64) \<Rightarrow> ('r \<Rightarrow> u64) \<Rightarrow> 'l \<Rightarrow> 'r \<Rightarrow> ('l, 'r) bimap \<Rightarrow> (bool \<times> ('l, 'r) bimap) option" where
  "bm_insert hl hr left right b =
     (case hm_contains hl (=) left (bm_l_to_r b) of None \<Rightarrow> None
      | Some True \<Rightarrow> Some (False, b)
      | Some False \<Rightarrow>
          (case hm_contains hr (=) right (bm_r_to_l b) of None \<Rightarrow> None
           | Some True \<Rightarrow> Some (False, b)
           | Some False \<Rightarrow>
               (case hm_insert hl (=) left right (bm_l_to_r b) of None \<Rightarrow> None
                | Some (_, lr) \<Rightarrow>
                    map_option (\<lambda>(_, rl). (True, \<lparr>bm_l_to_r = lr, bm_r_to_l = rl\<rparr>))
                      (hm_insert hr (=) right left (bm_r_to_l b)))))"

text \<open>Erasing the entry of a found key and counting it.\<close>

definition displace ::
    "('k \<Rightarrow> u64) \<Rightarrow> 'k option \<Rightarrow> nat \<Rightarrow> ('k, 'v) hmap \<Rightarrow> (nat \<times> ('k, 'v) hmap) option" where
  "displace hash found displaced m =
     (case found of None \<Rightarrow> Some (displaced, m)
      | Some key \<Rightarrow> map_option (\<lambda>(_, m). (displaced + 1, m)) (hm_erase hash (=) key m))"

definition bm_replace ::
    "('l \<Rightarrow> u64) \<Rightarrow> ('r \<Rightarrow> u64) \<Rightarrow> 'l \<Rightarrow> 'r \<Rightarrow> ('l, 'r) bimap \<Rightarrow> (nat \<times> ('l, 'r) bimap) option" where
  "bm_replace hl hr left right b =
     (case find_value hl left (bm_l_to_r b) of None \<Rightarrow> None | Some old_right \<Rightarrow>
      case displace hr old_right 0 (bm_r_to_l b) of None \<Rightarrow> None | Some (displaced, rl) \<Rightarrow>
      case find_value hr right rl of None \<Rightarrow> None | Some old_left \<Rightarrow>
      case displace hl old_left displaced (bm_l_to_r b) of None \<Rightarrow> None | Some (displaced, lr) \<Rightarrow>
      case hm_insert_or_assign hl (=) left right lr of None \<Rightarrow> None | Some (_, lr) \<Rightarrow>
        map_option (\<lambda>(_, rl). (displaced, \<lparr>bm_l_to_r = lr, bm_r_to_l = rl\<rparr>)) (hm_insert_or_assign hr (=) right left rl))"

definition bm_erase_left ::
    "('l \<Rightarrow> u64) \<Rightarrow> ('r \<Rightarrow> u64) \<Rightarrow> 'l \<Rightarrow> ('l, 'r) bimap \<Rightarrow> (bool \<times> ('l, 'r) bimap) option" where
  "bm_erase_left hl hr left b =
     (case find_value hl left (bm_l_to_r b) of None \<Rightarrow> None
      | Some None \<Rightarrow> Some (False, b)
      | Some (Some right) \<Rightarrow>
          (case hm_erase hr (=) right (bm_r_to_l b) of None \<Rightarrow> None
           | Some (_, rl) \<Rightarrow>
               map_option (\<lambda>(_, lr). (True, \<lparr>bm_l_to_r = lr, bm_r_to_l = rl\<rparr>)) (hm_erase hl (=) left (bm_l_to_r b))))"

definition bm_erase_right ::
    "('l \<Rightarrow> u64) \<Rightarrow> ('r \<Rightarrow> u64) \<Rightarrow> 'r \<Rightarrow> ('l, 'r) bimap \<Rightarrow> (bool \<times> ('l, 'r) bimap) option" where
  "bm_erase_right hl hr right b =
     (case find_value hr right (bm_r_to_l b) of None \<Rightarrow> None
      | Some None \<Rightarrow> Some (False, b)
      | Some (Some left) \<Rightarrow>
          (case hm_erase hl (=) left (bm_l_to_r b) of None \<Rightarrow> None
           | Some (_, lr) \<Rightarrow>
               map_option (\<lambda>(_, rl). (True, \<lparr>bm_l_to_r = lr, bm_r_to_l = rl\<rparr>)) (hm_erase hr (=) right (bm_r_to_l b))))"

definition bm_find_by_left :: "('l \<Rightarrow> u64) \<Rightarrow> 'l \<Rightarrow> ('l, 'r) bimap \<Rightarrow> 'r option option" where
  "bm_find_by_left hl left b = find_value hl left (bm_l_to_r b)"

definition bm_find_by_right :: "('r \<Rightarrow> u64) \<Rightarrow> 'r \<Rightarrow> ('l, 'r) bimap \<Rightarrow> 'l option option" where
  "bm_find_by_right hr right b = find_value hr right (bm_r_to_l b)"

definition bm_contains_left :: "('l \<Rightarrow> u64) \<Rightarrow> 'l \<Rightarrow> ('l, 'r) bimap \<Rightarrow> bool option" where
  "bm_contains_left hl left b = hm_contains hl (=) left (bm_l_to_r b)"

definition bm_contains_right :: "('r \<Rightarrow> u64) \<Rightarrow> 'r \<Rightarrow> ('l, 'r) bimap \<Rightarrow> bool option" where
  "bm_contains_right hr right b = hm_contains hr (=) right (bm_r_to_l b)"

definition bm_equal :: "('l \<Rightarrow> u64) \<Rightarrow> ('l, 'r) bimap \<Rightarrow> ('l, 'r) bimap \<Rightarrow> bool option" where
  "bm_equal hl a b = hm_equal hl (=) (bm_l_to_r a) (bm_l_to_r b)"

subsection \<open>A map that also overwrites\<close>

text \<open>What the class relies on beyond \<open>keyed_map\<close>: looking a value up and storing one whatever was there.\<close>

locale keyed_store = keyed_map ok get ins del
  for ok :: "'m \<Rightarrow> bool" and get :: "'m \<Rightarrow> 'k \<Rightarrow> 'v option"
    and ins :: "'k \<Rightarrow> 'v \<Rightarrow> 'm \<Rightarrow> (bool \<times> 'm) option" and del :: "'k \<Rightarrow> 'm \<Rightarrow> (bool \<times> 'm) option" +
  fixes put :: "'k \<Rightarrow> 'v \<Rightarrow> 'm \<Rightarrow> (bool \<times> 'm) option"
    and look :: "'k \<Rightarrow> 'm \<Rightarrow> 'v option option"
    and mem :: "'k \<Rightarrow> 'm \<Rightarrow> bool option"
  assumes put_law: "ok m \<Longrightarrow> \<exists>m'. put k v m = Some (get m k = None, m') \<and> ok m' \<and> get m' = (get m)(k \<mapsto> v)"
    and look_law: "ok m \<Longrightarrow> look k m = Some (get m k)"
    and mem_law: "ok m \<Longrightarrow> mem k m = Some (get m k \<noteq> None)"
begin

lemma insert_fresh:
  assumes "ok m" and "get m k = None"
  obtains m' where "ins k v m = Some (True, m')" and "ok m'" and "get m' = (get m)(k \<mapsto> v)"
  using ins_law [OF assms(1), of k v] assms(2) by auto

lemma erase:
  assumes "ok m"
  obtains m' where "del k m = Some (get m k \<noteq> None, m')" and "ok m'" and "get m' = (get m)(k := None)"
  using del_law [OF assms, of k] by auto

lemma store:
  assumes "ok m"
  obtains m' where "put k v m = Some (get m k = None, m')" and "ok m'" and "get m' = (get m)(k \<mapsto> v)"
  using put_law [OF assms, of k v] by auto

end

interpretation store: keyed_store "hm_wf hash (=)" "hm_lookup (=)" "hm_insert hash (=)" "hm_erase hash (=)"
  "hm_insert_or_assign hash (=)" "find_value hash" "hm_contains hash (=)"
  for hash :: "'k \<Rightarrow> u64"
proof unfold_locales
  fix m :: "('k, 'v) hmap" and k v
  assume m: "hm_wf hash (=) m"
  have upd: "(\<lambda>k'. if k = k' then Some v else hm_lookup (=) m k') = (hm_lookup (=) m)(k \<mapsto> v)" by auto
  show "\<exists>m'. hm_insert_or_assign hash (=) k v m = Some (hm_lookup (=) m k = None, m') \<and> hm_wf hash (=) m' \<and>
      hm_lookup (=) m' = (hm_lookup (=) m)(k \<mapsto> v)"
    by (rule hm_insert_or_assign_ok [OF hash_ok_equality m, of k v, unfolded upd])
next
  fix m :: "('k, 'v) hmap" and k
  assume m: "hm_wf hash (=) m"
  from hm_find_ok [OF hash_ok_equality m, of k] obtain r where
    r: "hm_find hash (=) k m = Some r" "map_option (\<lambda>i. hm_load i m) r = hm_lookup (=) m k" by blast
  then show "find_value hash k m = Some (hm_lookup (=) m k)" by (simp add: find_value_def)
  from r show "hm_contains hash (=) k m = Some (hm_lookup (=) m k \<noteq> None)"
    by (cases r; cases "hm_lookup (=) m k") (simp_all add: hm_contains_def hm_find_def)
qed

subsection \<open>The relation\<close>

definition bm_rel :: "('l, 'r) bimap \<Rightarrow> ('l \<times> 'r) set" where
  "bm_rel b = {(l, r). hm_lookup (=) (bm_l_to_r b) l = Some r}"

definition bm_wf :: "('l \<Rightarrow> u64) \<Rightarrow> ('r \<Rightarrow> u64) \<Rightarrow> ('l, 'r) bimap \<Rightarrow> bool" where
  "bm_wf hl hr b \<longleftrightarrow> hm_wf hl (=) (bm_l_to_r b) \<and> hm_wf hr (=) (bm_r_to_l b) \<and>
     (\<forall>l r. hm_lookup (=) (bm_l_to_r b) l = Some r \<longleftrightarrow> hm_lookup (=) (bm_r_to_l b) r = Some l)"

lemma bm_wfD:
  assumes "bm_wf hl hr b"
  shows "hm_wf hl (=) (bm_l_to_r b)" and "hm_wf hr (=) (bm_r_to_l b)"
    and "hm_lookup (=) (bm_r_to_l b) r = Some l \<longleftrightarrow> hm_lookup (=) (bm_l_to_r b) l = Some r"
  using assms by (auto simp: bm_wf_def)

lemma bm_left: "hm_lookup (=) (bm_l_to_r b) l = Some r \<longleftrightarrow> (l, r) \<in> bm_rel b"
  by (simp add: bm_rel_def)

lemma bm_right: "bm_wf hl hr b \<Longrightarrow> hm_lookup (=) (bm_r_to_l b) r = Some l \<longleftrightarrow> (l, r) \<in> bm_rel b"
  by (simp add: bm_wfD(3) bm_rel_def)

lemma bm_functional:
  assumes "bm_wf hl hr b" and "(l, r) \<in> bm_rel b" and "(l', r') \<in> bm_rel b"
  shows "l = l' \<longleftrightarrow> r = r'"
  using assms(2,3) by (metis bm_left bm_right [OF assms(1)] option.inject)

lemma bm_build:
  assumes "hm_wf hl (=) m" and "hm_wf hr (=) n"
    and "\<And>l r. hm_lookup (=) m l = Some r \<longleftrightarrow> (l, r) \<in> R" and "\<And>l r. hm_lookup (=) n r = Some l \<longleftrightarrow> (l, r) \<in> R"
  shows "bm_wf hl hr \<lparr>bm_l_to_r = m, bm_r_to_l = n\<rparr>" and "bm_rel \<lparr>bm_l_to_r = m, bm_r_to_l = n\<rparr> = R"
  using assms by (auto simp: bm_wf_def bm_rel_def)

lemma bm_insert_ok:
  assumes wf: "bm_wf hl hr b"
  shows "\<exists>b'. bm_insert hl hr l r b = Some (l \<notin> Domain (bm_rel b) \<and> r \<notin> Range (bm_rel b), b') \<and> bm_wf hl hr b' \<and>
    bm_rel b' = (if l \<in> Domain (bm_rel b) \<or> r \<in> Range (bm_rel b) then bm_rel b else insert (l, r) (bm_rel b))"
proof -
  note m = bm_wfD(1) [OF wf] and n = bm_wfD(2) [OF wf]
  have dom: "l \<in> Domain (bm_rel b) \<longleftrightarrow> hm_lookup (=) (bm_l_to_r b) l \<noteq> None"
    "r \<in> Range (bm_rel b) \<longleftrightarrow> hm_lookup (=) (bm_r_to_l b) r \<noteq> None"
    by (auto simp: Domain_iff Range_iff bm_left [symmetric] bm_wfD(3) [OF wf, symmetric])
  note ms = store.mem_law [OF m, of l] store.mem_law [OF n, of r]
  show ?thesis
  proof (cases "l \<in> Domain (bm_rel b) \<or> r \<in> Range (bm_rel b)")
    case True
    then have "bm_insert hl hr l r b = Some (False, b)"
      using ms dom by (cases "l \<in> Domain (bm_rel b)") (simp_all add: bm_insert_def)
    with True wf show ?thesis by auto
  next
    case False
    then have none: "hm_lookup (=) (bm_l_to_r b) l = None" "hm_lookup (=) (bm_r_to_l b) r = None" using dom by auto
    obtain lr where lr: "hm_insert hl (=) l r (bm_l_to_r b) = Some (True, lr)" "hm_wf hl (=) lr"
      "hm_lookup (=) lr = (hm_lookup (=) (bm_l_to_r b))(l \<mapsto> r)" by (rule store.insert_fresh [OF m none(1)])
    obtain rl where rl: "hm_insert hr (=) r l (bm_r_to_l b) = Some (True, rl)" "hm_wf hr (=) rl"
      "hm_lookup (=) rl = (hm_lookup (=) (bm_r_to_l b))(r \<mapsto> l)" by (rule store.insert_fresh [OF n none(2)])
    have "bm_insert hl hr l r b = Some (True, \<lparr>bm_l_to_r = lr, bm_r_to_l = rl\<rparr>)"
      using ms none lr(1) rl(1) by (simp add: bm_insert_def)
    moreover have "hm_lookup (=) lr l' = Some r' \<longleftrightarrow> (l', r') \<in> insert (l, r) (bm_rel b)"
      "hm_lookup (=) rl r' = Some l' \<longleftrightarrow> (l', r') \<in> insert (l, r) (bm_rel b)" for l' r'
      using False by (auto simp: lr(3) rl(3) bm_left bm_right [OF wf])
    from bm_build [OF lr(2) rl(2) this] have "bm_wf hl hr \<lparr>bm_l_to_r = lr, bm_r_to_l = rl\<rparr>"
      "bm_rel \<lparr>bm_l_to_r = lr, bm_r_to_l = rl\<rparr> = insert (l, r) (bm_rel b)" .
    ultimately show ?thesis using False by auto
  qed
qed

lemma displace_ok:
  assumes "hm_wf hash (=) m"
  obtains m' where "displace hash found d m = Some (if found = None then d else d + 1, m')" and "hm_wf hash (=) m'"
    and "hm_lookup (=) m' = (case found of None \<Rightarrow> hm_lookup (=) m | Some k \<Rightarrow> (hm_lookup (=) m)(k := None))"
proof (cases found)
  case None
  with assms show ?thesis by (intro that) (simp_all add: displace_def)
next
  case (Some k)
  obtain m' where "hm_erase hash (=) k m = Some (hm_lookup (=) m k \<noteq> None, m')" "hm_wf hash (=) m'"
    "hm_lookup (=) m' = (hm_lookup (=) m)(k := None)" by (rule store.erase [OF assms])
  with Some show ?thesis by (intro that [of m']) (simp_all add: displace_def)
qed

text \<open>The pairs that a new pair displaces are those with its left or its right key, at most two.\<close>

definition clashes :: "'l \<Rightarrow> 'r \<Rightarrow> ('l \<times> 'r) set \<Rightarrow> ('l \<times> 'r) set" where
  "clashes l r R = {(a, b) \<in> R. a = l \<or> b = r}"

lemma bm_replace_ok:
  assumes wf: "bm_wf hl hr b"
  shows "\<exists>b'. bm_replace hl hr l r b = Some (card (clashes l r (bm_rel b)), b') \<and> bm_wf hl hr b' \<and>
    bm_rel b' = insert (l, r) (bm_rel b - clashes l r (bm_rel b))"
proof -
  note m = bm_wfD(1) [OF wf] and n = bm_wfD(2) [OF wf]
  let ?L = "hm_lookup (=) (bm_l_to_r b)" and ?R = "hm_lookup (=) (bm_r_to_l b)"
  have inv: "?R y = Some x \<longleftrightarrow> ?L x = Some y" for x y by (rule bm_wfD(3) [OF wf])
  define d where "d = (if ?L l = None then 0 else 0 + 1 :: nat)"
  obtain n1 where n1: "displace hr (?L l) 0 (bm_r_to_l b) = Some (d, n1)" "hm_wf hr (=) n1"
    "hm_lookup (=) n1 = (case ?L l of None \<Rightarrow> ?R | Some k \<Rightarrow> ?R(k := None))"
    unfolding d_def by (rule displace_ok [OF n])
  define o' where "o' = hm_lookup (=) n1 r"
  obtain m1 where m1: "displace hl o' d (bm_l_to_r b) = Some (if o' = None then d else d + 1, m1)" "hm_wf hl (=) m1"
    "hm_lookup (=) m1 = (case o' of None \<Rightarrow> ?L | Some k \<Rightarrow> ?L(k := None))"
    by (rule displace_ok [OF m])
  obtain m2 where m2: "hm_insert_or_assign hl (=) l r m1 = Some (hm_lookup (=) m1 l = None, m2)" "hm_wf hl (=) m2"
    "hm_lookup (=) m2 = (hm_lookup (=) m1)(l \<mapsto> r)" by (rule store.store [OF m1(2)])
  obtain n2 where n2: "hm_insert_or_assign hr (=) r l n1 = Some (hm_lookup (=) n1 r = None, n2)" "hm_wf hr (=) n2"
    "hm_lookup (=) n2 = (hm_lookup (=) n1)(r \<mapsto> l)" by (rule store.store [OF n1(2)])
  have run: "bm_replace hl hr l r b = Some (if o' = None then d else d + 1, \<lparr>bm_l_to_r = m2, bm_r_to_l = n2\<rparr>)"
    using n1(1) m1(1) m2(1) n2(1) store.look_law [OF m, of l] store.look_law [OF n1(2), of r]
    by (simp add: bm_replace_def o'_def [symmetric])
  let ?C = "clashes l r (bm_rel b)"
  have n1': "hm_lookup (=) n1 y = Some x \<longleftrightarrow> ?L x = Some y \<and> ?L l \<noteq> Some y" for x y
    using inv [of y x] by (cases "?L l") (auto simp: n1(3))
  then have o': "o' = Some x \<longleftrightarrow> ?L x = Some r \<and> x \<noteq> l" for x
    unfolding o'_def using inv by (metis option.inject)
  have m1': "hm_lookup (=) m1 x = Some y \<longleftrightarrow> ?L x = Some y \<and> o' \<noteq> Some x" for x y
    unfolding m1(3) by (cases o') auto
  have C: "(x, y) \<in> ?C \<longleftrightarrow> ?L x = Some y \<and> (x = l \<or> y = r)" for x y
    by (auto simp: clashes_def bm_rel_def)
  have left: "hm_lookup (=) m2 x = Some y \<longleftrightarrow> (x, y) \<in> insert (l, r) (bm_rel b - ?C)" for x y
    using m1' [of x y] o' [of x] by (cases "x = l") (auto simp: m2(3) clashes_def bm_rel_def)
  have right: "hm_lookup (=) n2 y = Some x \<longleftrightarrow> (x, y) \<in> insert (l, r) (bm_rel b - ?C)" for x y
    using n1' [of y x] inv [of y x] inv [of y l] by (cases "y = r") (auto simp: n2(3) clashes_def bm_rel_def)
  have R: "bm_wf hl hr \<lparr>bm_l_to_r = m2, bm_r_to_l = n2\<rparr>"
    "bm_rel \<lparr>bm_l_to_r = m2, bm_r_to_l = n2\<rparr> = insert (l, r) (bm_rel b - ?C)"
    by (rule bm_build [OF m2(2) n2(2) left right])+
  have "card ?C = (if o' = None then d else d + 1)"
  proof -
    define A where "A = (case ?L l of None \<Rightarrow> {} | Some y \<Rightarrow> {(l, y)})"
    define B where "B = (case o' of None \<Rightarrow> {} | Some x \<Rightarrow> {(x, r)})"
    have A: "(x, y) \<in> A \<longleftrightarrow> x = l \<and> ?L l = Some y" and B: "(x, y) \<in> B \<longleftrightarrow> y = r \<and> o' = Some x" for x y
      by (auto simp: A_def B_def split: option.splits)
    have "x \<in> ?C \<longleftrightarrow> x \<in> A \<union> B" for x
      by (cases x) (auto simp: C A B o')
    then have "?C = A \<union> B" by blast
    moreover have "A \<inter> B = {}" by (auto simp: A B o')
    moreover have "finite A" "finite B" by (auto simp: A_def B_def split: option.splits)
    ultimately have "card ?C = card A + card B" by (simp add: card_Un_disjoint)
    then show ?thesis by (auto simp: A_def B_def d_def split: option.splits)
  qed
  with run R show ?thesis by auto
qed

lemma bm_erase_left_ok:
  assumes wf: "bm_wf hl hr b"
  shows "\<exists>b'. bm_erase_left hl hr l b = Some (l \<in> Domain (bm_rel b), b') \<and> bm_wf hl hr b' \<and>
    bm_rel b' = {(x, y) \<in> bm_rel b. x \<noteq> l}"
proof (cases "hm_lookup (=) (bm_l_to_r b) l")
  case None
  then have "l \<notin> Domain (bm_rel b)" by (auto simp: bm_rel_def)
  moreover have "bm_erase_left hl hr l b = Some (False, b)"
    using None store.look_law [OF bm_wfD(1) [OF wf], of l] by (simp add: bm_erase_left_def)
  ultimately show ?thesis using wf by auto
next
  case (Some r)
  obtain n where n: "hm_erase hr (=) r (bm_r_to_l b) = Some (hm_lookup (=) (bm_r_to_l b) r \<noteq> None, n)" "hm_wf hr (=) n"
    "hm_lookup (=) n = (hm_lookup (=) (bm_r_to_l b))(r := None)" by (rule store.erase [OF bm_wfD(2) [OF wf]])
  obtain m where m: "hm_erase hl (=) l (bm_l_to_r b) = Some (hm_lookup (=) (bm_l_to_r b) l \<noteq> None, m)" "hm_wf hl (=) m"
    "hm_lookup (=) m = (hm_lookup (=) (bm_l_to_r b))(l := None)" by (rule store.erase [OF bm_wfD(1) [OF wf]])
  have run: "bm_erase_left hl hr l b = Some (True, \<lparr>bm_l_to_r = m, bm_r_to_l = n\<rparr>)"
    using Some m(1) n(1) store.look_law [OF bm_wfD(1) [OF wf], of l] by (simp add: bm_erase_left_def)
  have lr: "(l, r) \<in> bm_rel b" using Some by (simp add: bm_rel_def)
  have "hm_lookup (=) m x = Some y \<longleftrightarrow> (x, y) \<in> {(x, y) \<in> bm_rel b. x \<noteq> l}"
    "hm_lookup (=) n y = Some x \<longleftrightarrow> (x, y) \<in> {(x, y) \<in> bm_rel b. x \<noteq> l}" for x y
    using bm_functional [OF wf lr, of x y] by (auto simp: m(3) n(3) bm_left bm_right [OF wf])
  from bm_build [OF m(2) n(2) this] run lr show ?thesis by auto
qed

lemma bm_erase_right_ok:
  assumes wf: "bm_wf hl hr b"
  shows "\<exists>b'. bm_erase_right hl hr r b = Some (r \<in> Range (bm_rel b), b') \<and> bm_wf hl hr b' \<and>
    bm_rel b' = {(x, y) \<in> bm_rel b. y \<noteq> r}"
proof (cases "hm_lookup (=) (bm_r_to_l b) r")
  case None
  then have "r \<notin> Range (bm_rel b)" by (auto simp: Range_iff bm_right [OF wf, symmetric])
  moreover have "bm_erase_right hl hr r b = Some (False, b)"
    using None store.look_law [OF bm_wfD(2) [OF wf], of r] by (simp add: bm_erase_right_def)
  moreover from calculation have "{(x, y) \<in> bm_rel b. y \<noteq> r} = bm_rel b" by (auto simp: Range_iff)
  ultimately show ?thesis using wf by auto
next
  case (Some l)
  obtain n where n: "hm_erase hr (=) r (bm_r_to_l b) = Some (hm_lookup (=) (bm_r_to_l b) r \<noteq> None, n)" "hm_wf hr (=) n"
    "hm_lookup (=) n = (hm_lookup (=) (bm_r_to_l b))(r := None)" by (rule store.erase [OF bm_wfD(2) [OF wf]])
  obtain m where m: "hm_erase hl (=) l (bm_l_to_r b) = Some (hm_lookup (=) (bm_l_to_r b) l \<noteq> None, m)" "hm_wf hl (=) m"
    "hm_lookup (=) m = (hm_lookup (=) (bm_l_to_r b))(l := None)" by (rule store.erase [OF bm_wfD(1) [OF wf]])
  have run: "bm_erase_right hl hr r b = Some (True, \<lparr>bm_l_to_r = m, bm_r_to_l = n\<rparr>)"
    using Some m(1) n(1) store.look_law [OF bm_wfD(2) [OF wf], of r] by (simp add: bm_erase_right_def)
  have lr: "(l, r) \<in> bm_rel b" using Some by (simp add: bm_right [OF wf])
  have "hm_lookup (=) m x = Some y \<longleftrightarrow> (x, y) \<in> {(x, y) \<in> bm_rel b. y \<noteq> r}"
    "hm_lookup (=) n y = Some x \<longleftrightarrow> (x, y) \<in> {(x, y) \<in> bm_rel b. y \<noteq> r}" for x y
    using bm_functional [OF wf lr, of x y] by (auto simp: m(3) n(3) bm_left bm_right [OF wf])
  from bm_build [OF m(2) n(2) this] run lr show ?thesis by auto
qed

lemma bm_lookups:
  assumes wf: "bm_wf hl hr b"
  shows "\<exists>x. bm_find_by_left hl l b = Some x \<and> (\<forall>r. x = Some r \<longleftrightarrow> (l, r) \<in> bm_rel b)"
    and "\<exists>y. bm_find_by_right hr r b = Some y \<and> (\<forall>l. y = Some l \<longleftrightarrow> (l, r) \<in> bm_rel b)"
    and "bm_contains_left hl l b = Some (l \<in> Domain (bm_rel b))"
    and "bm_contains_right hr r b = Some (r \<in> Range (bm_rel b))"
proof -
  note m = bm_wfD(1) [OF wf] and n = bm_wfD(2) [OF wf]
  show "\<exists>x. bm_find_by_left hl l b = Some x \<and> (\<forall>r. x = Some r \<longleftrightarrow> (l, r) \<in> bm_rel b)"
    using store.look_law [OF m, of l] by (simp add: bm_find_by_left_def bm_left)
  show "\<exists>y. bm_find_by_right hr r b = Some y \<and> (\<forall>l. y = Some l \<longleftrightarrow> (l, r) \<in> bm_rel b)"
    using store.look_law [OF n, of r] by (simp add: bm_find_by_right_def bm_right [OF wf])
  show "bm_contains_left hl l b = Some (l \<in> Domain (bm_rel b))"
    using store.mem_law [OF m, of l] by (auto simp: bm_contains_left_def bm_rel_def)
  have "hm_lookup (=) (bm_r_to_l b) r \<noteq> None \<longleftrightarrow> r \<in> Range (bm_rel b)"
    by (auto simp: Range_iff bm_right [OF wf, symmetric])
  then show "bm_contains_right hr r b = Some (r \<in> Range (bm_rel b))"
    using store.mem_law [OF n, of r] by (simp add: bm_contains_right_def)
qed

subsection \<open>Reachable maps\<close>

inductive bm_reachable :: "('l \<Rightarrow> u64) \<Rightarrow> ('r \<Rightarrow> u64) \<Rightarrow> ('l, 'r) bimap \<Rightarrow> bool" for hl hr where
  default: "bm_reachable hl hr bm_default"
| construct: "bm_make n = Some b \<Longrightarrow> bm_reachable hl hr b"
| insert: "bm_reachable hl hr b \<Longrightarrow> bm_insert hl hr l r b = Some (x, b') \<Longrightarrow> bm_reachable hl hr b'"
| replace: "bm_reachable hl hr b \<Longrightarrow> bm_replace hl hr l r b = Some (d, b') \<Longrightarrow> bm_reachable hl hr b'"
| erase_left: "bm_reachable hl hr b \<Longrightarrow> bm_erase_left hl hr l b = Some (x, b') \<Longrightarrow> bm_reachable hl hr b'"
| erase_right: "bm_reachable hl hr b \<Longrightarrow> bm_erase_right hl hr r b = Some (x, b') \<Longrightarrow> bm_reachable hl hr b'"
| reserve: "bm_reachable hl hr b \<Longrightarrow> bm_reserve n b = Some b' \<Longrightarrow> bm_reachable hl hr b'"
| shrink: "bm_reachable hl hr b \<Longrightarrow> bm_shrink_to_fit b = Some b' \<Longrightarrow> bm_reachable hl hr b'"
| clear: "bm_reachable hl hr b \<Longrightarrow> bm_reachable hl hr (bm_clear b)"

lemma bm_same_lookups:
  assumes "bm_wf hl hr b" and "hm_wf hl (=) m" and "hm_wf hr (=) n"
    and "hm_lookup (=) m = hm_lookup (=) (bm_l_to_r b)" and "hm_lookup (=) n = hm_lookup (=) (bm_r_to_l b)"
  shows "bm_wf hl hr \<lparr>bm_l_to_r = m, bm_r_to_l = n\<rparr>"
  using assms by (simp add: bm_wf_def)

lemma bm_empty_wf:
  assumes "hm_wf hl (=) m" and "hm_wf hr (=) n" and "hm_lookup (=) m = (\<lambda>_. None)" and "hm_lookup (=) n = (\<lambda>_. None)"
  shows "bm_wf hl hr \<lparr>bm_l_to_r = m, bm_r_to_l = n\<rparr>"
  using assms by (simp add: bm_wf_def)

lemma bm_reachable_wf:
  fixes b :: "('l, 'r) bimap"
  shows "bm_reachable hl hr b \<Longrightarrow> bm_wf hl hr b"
proof (induction rule: bm_reachable.induct)
  case default
  show ?case unfolding bm_default_def by (rule bm_empty_wf) (simp_all add: hm_default_wf hm_default_lookup)
next
  case (construct n b)
  obtain l :: "('l, 'r) hmap" where l: "hm_make (=) n = Some l" "hm_wf hl (=) l" "hm_lookup (=) l = (\<lambda>k. None)"
    using hm_make_ok [OF hash_ok_equality [of hl], of n] by blast
  obtain r :: "('r, 'l) hmap" where r: "hm_make (=) n = Some r" "hm_wf hr (=) r" "hm_lookup (=) r = (\<lambda>k. None)"
    using hm_make_ok [OF hash_ok_equality [of hr], of n] by blast
  from construct l(1) r(1) have "b = \<lparr>bm_l_to_r = l, bm_r_to_l = r\<rparr>" by (simp add: bm_make_def)
  with bm_empty_wf [OF l(2) r(2) l(3) r(3)] show ?case by simp
next
  case (insert b l r x b')
  from bm_insert_ok [OF insert.IH, of l r] insert.hyps(2) show ?case by auto
next
  case (replace b l r d b')
  from bm_replace_ok [OF replace.IH, of l r] replace.hyps(2) show ?case by auto
next
  case (erase_left b l x b')
  from bm_erase_left_ok [OF erase_left.IH, of l] erase_left.hyps(2) show ?case by auto
next
  case (erase_right b r x b')
  from bm_erase_right_ok [OF erase_right.IH, of r] erase_right.hyps(2) show ?case by auto
next
  case (reserve b n b')
  from hm_reserve_ok [OF hash_ok_equality bm_wfD(1) [OF reserve.IH], of n]
    hm_reserve_ok [OF hash_ok_equality bm_wfD(2) [OF reserve.IH], of n] reserve.hyps(2) bm_same_lookups [OF reserve.IH]
  show ?case by (auto simp: bm_reserve_def)
next
  case (shrink b b')
  from hm_shrink_ok [OF hash_ok_equality bm_wfD(1) [OF shrink.IH]]
    hm_shrink_ok [OF hash_ok_equality bm_wfD(2) [OF shrink.IH]] shrink.hyps(2) bm_same_lookups [OF shrink.IH]
  show ?case by (auto simp: bm_shrink_to_fit_def)
next
  case (clear b)
  note m = hm_clear_ok [OF bm_wfD(1) [OF clear.IH]] and n = hm_clear_ok [OF bm_wfD(2) [OF clear.IH]]
  show ?case unfolding bm_clear_def by (rule bm_empty_wf [OF m(1) n(1) m(2) n(2)])
qed

text \<open>The two-way map is a one-to-one relation, whatever the two hashes: in every state a program can
  reach, no left and no right key occurs twice; \<open>insert\<close> adds a pair exactly when both keys are new,
  \<open>replace\<close> always adds it, removes the pairs it clashes with and returns their number, \<open>erase_left\<close> and
  \<open>erase_right\<close> remove the pair of a key and say whether there was one, and both lookups read the relation.
  None of the calls fails to return.\<close>

lemma bimap_is_one_to_one:
  assumes "bm_reachable hl hr b"
  shows "(\<forall>(l, r) \<in> bm_rel b. \<forall>(l', r') \<in> bm_rel b. l = l' \<longleftrightarrow> r = r') \<and>
    (\<exists>b'. bm_insert hl hr l r b = Some (l \<notin> Domain (bm_rel b) \<and> r \<notin> Range (bm_rel b), b') \<and>
       bm_rel b' = (if l \<in> Domain (bm_rel b) \<or> r \<in> Range (bm_rel b) then bm_rel b else insert (l, r) (bm_rel b))) \<and>
    (\<exists>b'. bm_replace hl hr l r b = Some (card (clashes l r (bm_rel b)), b') \<and>
       bm_rel b' = insert (l, r) (bm_rel b - clashes l r (bm_rel b))) \<and>
    (\<exists>b'. bm_erase_left hl hr l b = Some (l \<in> Domain (bm_rel b), b') \<and> bm_rel b' = {(x, y) \<in> bm_rel b. x \<noteq> l}) \<and>
    (\<exists>b'. bm_erase_right hl hr r b = Some (r \<in> Range (bm_rel b), b') \<and> bm_rel b' = {(x, y) \<in> bm_rel b. y \<noteq> r}) \<and>
    (\<exists>x. bm_find_by_left hl l b = Some x \<and> (\<forall>r. x = Some r \<longleftrightarrow> (l, r) \<in> bm_rel b)) \<and>
    (\<exists>y. bm_find_by_right hr r b = Some y \<and> (\<forall>l. y = Some l \<longleftrightarrow> (l, r) \<in> bm_rel b))"
proof -
  note wf = bm_reachable_wf [OF assms]
  show ?thesis
  proof (intro conjI bm_lookups(1,2) [OF wf])
    show "\<forall>(l, r) \<in> bm_rel b. \<forall>(l', r') \<in> bm_rel b. l = l' \<longleftrightarrow> r = r'" using bm_functional [OF wf] by blast
  qed (use bm_insert_ok [OF wf, of l r] bm_replace_ok [OF wf, of l r] bm_erase_left_ok [OF wf, of l]
      bm_erase_right_ok [OF wf, of r] in \<open>blast+\<close>)
qed

end
