(* ===== verification/Buffer_Cursor.thy ===== *)
theory Buffer_Cursor
  imports Serialization_Error
begin

text \<open>
  The bounded byte cursor every binary reader and writer moves over its buffer
  (\<open>utility/buffer_cursor.hpp\<close>) and the byte order helpers (\<open>utility/endian.hpp\<close>). A
  \<open>std::span\<close> is the list of its elements, \<open>data()\<close> the rest of the buffer from the position
  on, and \<open>memcpy\<close> to it \<open>cu_store\<close>. The asserts of the code are preconditions: each caller
  tests \<open>has\<close> first, and \<open>cursor_ok\<close> is the invariant this keeps.
\<close>

subsection \<open>The code\<close>

record cursor =
  cu_buf :: "byte list"
  cu_pos :: nat

definition cu_make :: "byte list \<Rightarrow> cursor" where
  "cu_make buf = \<lparr>cu_buf = buf, cu_pos = 0\<rparr>"

definition cu_size :: "cursor \<Rightarrow> nat" where "cu_size c = length (cu_buf c)"

definition cu_position :: "cursor \<Rightarrow> nat" where "cu_position c = cu_pos c"

definition cu_remaining :: "cursor \<Rightarrow> nat" where
  "cu_remaining c = length (cu_buf c) - cu_pos c"

definition cu_exhausted :: "cursor \<Rightarrow> bool" where
  "cu_exhausted c \<longleftrightarrow> length (cu_buf c) \<le> cu_pos c"

definition cu_has :: "nat \<Rightarrow> cursor \<Rightarrow> bool" where
  "cu_has n c \<longleftrightarrow> n \<le> cu_remaining c"

definition cu_data :: "cursor \<Rightarrow> byte list" where
  "cu_data c = drop (cu_pos c) (cu_buf c)"

definition cu_peek :: "nat \<Rightarrow> cursor \<Rightarrow> byte list" where
  "cu_peek n c = take n (drop (cu_pos c) (cu_buf c))"

definition cu_advance :: "nat \<Rightarrow> cursor \<Rightarrow> cursor" where
  "cu_advance n c = c\<lparr>cu_pos := cu_pos c + n\<rparr>"

definition cu_seek :: "nat \<Rightarrow> cursor \<Rightarrow> cursor" where
  "cu_seek pos c = c\<lparr>cu_pos := pos\<rparr>"

definition cu_retreat :: "nat \<Rightarrow> cursor \<Rightarrow> cursor" where
  "cu_retreat n c = c\<lparr>cu_pos := cu_pos c - n\<rparr>"

definition cu_take :: "nat \<Rightarrow> cursor \<Rightarrow> byte list \<times> cursor" where
  "cu_take n c = (take n (drop (cu_pos c) (cu_buf c)), c\<lparr>cu_pos := cu_pos c + n\<rparr>)"

definition cu_next :: "cursor \<Rightarrow> byte \<times> cursor" where
  "cu_next c = (cu_buf c ! cu_pos c, c\<lparr>cu_pos := cu_pos c + 1\<rparr>)"

definition cu_put :: "byte \<Rightarrow> cursor \<Rightarrow> cursor" where
  "cu_put b c = c\<lparr>cu_buf := (cu_buf c)[cu_pos c := b], cu_pos := cu_pos c + 1\<rparr>"

definition cu_rewind :: "cursor \<Rightarrow> cursor" where
  "cu_rewind c = c\<lparr>cu_pos := 0\<rparr>"

definition cu_consumed :: "cursor \<Rightarrow> byte list" where
  "cu_consumed c = take (cu_pos c) (cu_buf c)"

definition cu_store :: "byte list \<Rightarrow> cursor \<Rightarrow> cursor" where
  "cu_store xs c = c\<lparr>cu_buf := take (cu_pos c) (cu_buf c) @ xs @ drop (cu_pos c + length xs) (cu_buf c)\<rparr>"

text \<open>Byte order: \<open>sizeof(U)\<close> of a word type.\<close>

definition size_of :: "'a::len word itself \<Rightarrow> nat" where
  "size_of _ = LENGTH('a) div 8"

definition write_be :: "byte list \<Rightarrow> 'a::len word \<Rightarrow> byte list" where
  "write_be out v = fold (\<lambda>i out. out[size_of TYPE('a word) - 1 - i := ucast (drop_bit (8 * i) v)])
     [0..<size_of TYPE('a word)] out"

definition read_be :: "byte list \<Rightarrow> 'a::len word" where
  "read_be xs = fold (\<lambda>i v. push_bit 8 v OR ucast (xs ! i)) [0..<size_of TYPE('a word)] 0"

definition write_le :: "byte list \<Rightarrow> 'a::len word \<Rightarrow> byte list" where
  "write_le out v = fold (\<lambda>i out. out[i := ucast (drop_bit (8 * i) v)]) [0..<size_of TYPE('a word)] out"

definition read_le :: "byte list \<Rightarrow> 'a::len word" where
  "read_le xs = fold (\<lambda>i v. v OR push_bit (8 * i) (ucast (xs ! i))) [0..<size_of TYPE('a word)] 0"

subsection \<open>The bytes of a word\<close>

definition be_bytes :: "'a::len word \<Rightarrow> byte list" where
  "be_bytes v = map (\<lambda>k. ucast (drop_bit (8 * (size_of TYPE('a word) - 1 - k)) v)) [0..<size_of TYPE('a word)]"

definition le_bytes :: "'a::len word \<Rightarrow> byte list" where
  "le_bytes v = map (\<lambda>k. ucast (drop_bit (8 * k) v)) [0..<size_of TYPE('a word)]"

lemma size_of_simps [simp]:
  "size_of TYPE(u8) = 1" "size_of TYPE(u16) = 2" "size_of TYPE(u32) = 4" "size_of TYPE(u64) = 8"
  by (simp_all add: size_of_def)

lemma length_be_bytes [simp]: "length (be_bytes (v :: 'a::len word)) = size_of TYPE('a word)"
  by (simp add: be_bytes_def)

lemma length_le_bytes [simp]: "length (le_bytes (v :: 'a::len word)) = size_of TYPE('a word)"
  by (simp add: le_bytes_def)

lemma fold_updates_down:
  "n \<le> m \<Longrightarrow> m \<le> length out \<Longrightarrow> k < length out \<Longrightarrow>
   length (fold (\<lambda>i out. out[m - 1 - i := g i]) [0..<n] out) = length out \<and>
   fold (\<lambda>i out. out[m - 1 - i := g i]) [0..<n] out ! k = (if m - n \<le> k \<and> k < m then g (m - 1 - k) else out ! k)"
  by (induction n) (auto simp: nth_list_update)

lemma fold_updates_up:
  "n \<le> length out \<Longrightarrow> k < length out \<Longrightarrow>
   length (fold (\<lambda>i out. out[i := g i]) [0..<n] out) = length out \<and>
   fold (\<lambda>i out. out[i := g i]) [0..<n] out ! k = (if k < n then g k else out ! k)"
  by (induction n) (auto simp: nth_list_update)

lemma length_fold_update [simp]: "length (fold (\<lambda>i out. out[f i := g i]) is out) = length out"
  by (induction "is" arbitrary: out) auto

lemma write_be_eq: "length out = size_of TYPE('a word) \<Longrightarrow> write_be out (v :: 'a::len word) = be_bytes v"
  using fold_updates_down [of "size_of TYPE('a word)" "size_of TYPE('a word)" out]
  by (intro nth_equalityI) (auto simp: write_be_def be_bytes_def)

lemma write_le_eq: "length out = size_of TYPE('a word) \<Longrightarrow> write_le out (v :: 'a::len word) = le_bytes v"
  using fold_updates_up [of "size_of TYPE('a word)" out]
  by (intro nth_equalityI) (auto simp: write_le_def le_bytes_def)

lemma fold_be_bits:
  "bit (fold (\<lambda>i v. push_bit 8 v OR ucast (xs ! i)) [0..<n] 0 :: 'a::len word) b \<longleftrightarrow>
   b < LENGTH('a) \<and> b < 8 * n \<and> bit (xs ! (n - 1 - b div 8) :: byte) (b mod 8)"
proof (induction n arbitrary: b)
  case (Suc n)
  have "b < 8 \<Longrightarrow> b div 8 = 0 \<and> b mod 8 = b" by simp
  moreover have "8 \<le> b \<Longrightarrow> n - 1 - (b - 8) div 8 = n - b div 8 \<and> (b - 8) mod 8 = b mod 8"
    by (simp add: le_mod_geq le_div_geq)
  moreover have "8 \<le> b \<Longrightarrow> b < 8 * Suc n \<longleftrightarrow> b - 8 < 8 * n" by auto
  moreover have "b < LENGTH('a) \<Longrightarrow> b - 8 < LENGTH('a)" by (rule le_less_trans [OF diff_le_self])
  ultimately show ?case
    by (cases "b < 8") (auto simp: bit_or_iff bit_push_bit_iff bit_ucast_iff Suc dest: bit_imp_le_length)
qed simp

lemma fold_le_bits:
  "bit (fold (\<lambda>i v. v OR push_bit (8 * i) (ucast (xs ! i))) [0..<n] 0 :: 'a::len word) b \<longleftrightarrow>
   b < LENGTH('a) \<and> b < 8 * n \<and> bit (xs ! (b div 8) :: byte) (b mod 8)"
proof (induction n arbitrary: b)
  case (Suc n)
  have "8 * n \<le> b \<Longrightarrow> b < 8 * Suc n \<Longrightarrow> b div 8 = n \<and> b mod 8 = b - 8 * n"
    by (metis add_diff_cancel_left' div_nat_eqI minus_mult_div_eq_mod mult.commute mult_Suc_right add.commute)
  then show ?case
    by (cases "8 * n \<le> b"; cases "b < 8 * Suc n")
      (auto simp: bit_or_iff bit_push_bit_iff bit_ucast_iff Suc dest: bit_imp_le_length)
qed simp

text \<open>A word type of whole bytes.\<close>

lemma read_be_bytes [simp]:
  "8 * size_of TYPE('a word) = LENGTH('a) \<Longrightarrow> read_be (be_bytes v) = (v :: 'a::len word)"
proof (rule bit_word_eqI)
  fix b assume sz: "8 * size_of TYPE('a word) = LENGTH('a)" and b: "b < LENGTH('a)"
  let ?n = "size_of TYPE('a word)"
  have k: "b div 8 < ?n" using sz b by auto
  then have "be_bytes v ! (?n - 1 - b div 8) = ucast (drop_bit (8 * (b div 8)) v)"
    by (simp add: be_bytes_def)
  then show "bit (read_be (be_bytes v) :: 'a word) b = bit v b"
    unfolding read_be_def fold_be_bits using sz b by (simp add: bit_ucast_iff bit_drop_bit_eq)
qed

lemma read_le_bytes [simp]:
  "8 * size_of TYPE('a word) = LENGTH('a) \<Longrightarrow> read_le (le_bytes v) = (v :: 'a::len word)"
proof (rule bit_word_eqI)
  fix b assume sz: "8 * size_of TYPE('a word) = LENGTH('a)" and b: "b < LENGTH('a)"
  then have "b div 8 < size_of TYPE('a word)" by auto
  then have "le_bytes v ! (b div 8) = ucast (drop_bit (8 * (b div 8)) v)"
    by (simp add: le_bytes_def)
  then show "bit (read_le (le_bytes v) :: 'a word) b = bit v b"
    unfolding read_le_def fold_le_bits using sz b by (simp add: bit_ucast_iff bit_drop_bit_eq)
qed

lemma read_be_append [simp]:
  "8 * size_of TYPE('a word) = LENGTH('a) \<Longrightarrow> read_be (be_bytes v @ ys) = (v :: 'a::len word)"
proof -
  assume "8 * size_of TYPE('a word) = LENGTH('a)"
  moreover have "read_be (be_bytes v @ ys) = (read_be (be_bytes v) :: 'a word)"
    unfolding read_be_def by (rule fold_cong) (auto simp: nth_append)
  ultimately show ?thesis by simp
qed

lemma read_le_append [simp]:
  "8 * size_of TYPE('a word) = LENGTH('a) \<Longrightarrow> read_le (le_bytes v @ ys) = (v :: 'a::len word)"
proof -
  assume "8 * size_of TYPE('a word) = LENGTH('a)"
  moreover have "read_le (le_bytes v @ ys) = (read_le (le_bytes v) :: 'a word)"
    unfolding read_le_def by (rule fold_cong) (auto simp: nth_append)
  ultimately show ?thesis by simp
qed

subsection \<open>Writing a run of bytes\<close>

definition cursor_ok :: "cursor \<Rightarrow> bool" where
  "cursor_ok c \<longleftrightarrow> cu_pos c \<le> length (cu_buf c)"

definition put_bytes :: "byte list \<Rightarrow> cursor \<Rightarrow> cursor" where
  "put_bytes xs c =
     c\<lparr>cu_buf := take (cu_pos c) (cu_buf c) @ xs @ drop (cu_pos c + length xs) (cu_buf c),
       cu_pos := cu_pos c + length xs\<rparr>"

lemma cu_advance_store: "length xs = n \<Longrightarrow> cu_advance n (cu_store xs c) = put_bytes xs c"
  by (simp add: cu_advance_def cu_store_def put_bytes_def)

lemma cu_put_bytes: "cu_has 1 c \<Longrightarrow> cu_put b c = put_bytes [b] c"
  by (simp add: cu_put_def put_bytes_def cu_has_def cu_remaining_def upd_conv_take_nth_drop)

lemma cu_has_le: "cu_has n c \<Longrightarrow> m \<le> n \<Longrightarrow> cu_has m c"
  by (simp add: cu_has_def)

lemma put_bytes_append:
  "cursor_ok c \<Longrightarrow> put_bytes ys (put_bytes xs c) = put_bytes (xs @ ys) c"
  by (auto simp: put_bytes_def cursor_ok_def min_def drop_append add.commute add.left_commute intro!: arg_cong2 [where f = drop])

lemma put_bytes_ok [simp]: "cursor_ok c \<Longrightarrow> cu_has (length xs) c \<Longrightarrow> cursor_ok (put_bytes xs c)"
  by (auto simp: put_bytes_def cursor_ok_def cu_has_def cu_remaining_def min_def)

lemma cu_remaining_put:
  "cursor_ok c \<Longrightarrow> cu_has (length xs) c \<Longrightarrow> cu_remaining (put_bytes xs c) = cu_remaining c - length xs"
  by (auto simp: put_bytes_def cursor_ok_def cu_has_def cu_remaining_def min_def)

lemma cu_has_put:
  "cursor_ok c \<Longrightarrow> cu_has (length xs) c \<Longrightarrow> cu_has n (put_bytes xs c) \<longleftrightarrow> cu_has (length xs + n) c"
  using cu_remaining_put [of c xs] by (auto simp: cu_has_def)

lemma cu_consumed_put: "cursor_ok c \<Longrightarrow> cu_consumed (put_bytes xs c) = cu_consumed c @ xs"
  by (simp add: put_bytes_def cu_consumed_def cursor_ok_def)

lemma length_buf_put [simp]:
  "cursor_ok c \<Longrightarrow> cu_has (length xs) c \<Longrightarrow> length (cu_buf (put_bytes xs c)) = length (cu_buf c)"
  by (auto simp: put_bytes_def cursor_ok_def cu_has_def cu_remaining_def min_def)

lemma put_bytes_nil [simp]: "cursor_ok c \<Longrightarrow> put_bytes [] c = c"
  by (simp add: put_bytes_def)

text \<open>A head byte, then a word in network order, then a body: how every item is written.\<close>

lemma put_word:
  assumes "cursor_ok c" and "cu_has (size_of TYPE('a word)) c"
  shows "cu_advance (size_of TYPE('a word)) (cu_store (write_be (take (size_of TYPE('a word)) (cu_data c)) v) c)
    = put_bytes (be_bytes (v :: 'a::len word)) c"
  using assms by (intro trans [OF cu_advance_store])
    (auto simp: write_be_eq cu_data_def cu_has_def cu_remaining_def)

subsection \<open>Reading at the position\<close>

lemma cu_data_has: "cu_data c = xs @ ys \<Longrightarrow> n \<le> length xs \<Longrightarrow> cu_has n c"
  by (metis cu_data_def cu_has_def cu_remaining_def le_add1 le_trans length_append length_drop)

lemma cu_data_advance: "cu_data c = xs @ ys \<Longrightarrow> cu_data (cu_advance (length xs) c) = ys"
proof -
  assume "cu_data c = xs @ ys"
  then have "drop (length xs) (drop (cu_pos c) (cu_buf c)) = ys" by (simp add: cu_data_def)
  then show ?thesis by (simp add: cu_data_def cu_advance_def add.commute)
qed

lemma cu_take_data: "cu_data c = xs @ ys \<Longrightarrow> cu_take (length xs) c = (xs, cu_advance (length xs) c)"
  by (simp add: cu_take_def cu_data_def cu_advance_def)

lemma cu_advance_add [simp]: "cu_advance m (cu_advance n c) = cu_advance (n + m) c"
  by (simp add: cu_advance_def add.assoc)

lemma cu_advance_ok: "cursor_ok c \<Longrightarrow> cu_has n c \<Longrightarrow> cursor_ok (cu_advance n c)"
  by (auto simp: cursor_ok_def cu_has_def cu_remaining_def cu_advance_def)

lemma cu_has_data: "cu_has n c \<longleftrightarrow> n \<le> length (cu_data c)"
  by (simp add: cu_has_def cu_remaining_def cu_data_def)

lemma cu_next_data: "cu_data c = b # ys \<Longrightarrow> cu_next c = (b, cu_advance 1 c)"
  by (metis cu_next_def cu_advance_def cu_data_def nth_via_drop)

lemma cu_retreat_advance [simp]: "cu_retreat 1 (cu_advance 1 c) = c"
  by (simp add: cu_retreat_def cu_advance_def)

lemma cu_buf_advance [simp]: "cu_buf (cu_advance n c) = cu_buf c"
  by (simp add: cu_advance_def)

lemma cu_pos_advance [simp]: "cu_pos (cu_advance n c) = cu_pos c + n"
  by (simp add: cu_advance_def)

subsection \<open>Reading only moves forward, inside the buffer\<close>

definition forward :: "cursor \<Rightarrow> cursor \<Rightarrow> bool" where
  "forward c c' \<longleftrightarrow> cu_buf c' = cu_buf c \<and> cu_pos c \<le> cu_pos c' \<and> (cursor_ok c \<longrightarrow> cursor_ok c')"

lemma forward_refl [simp, intro]: "forward c c"
  by (simp add: forward_def)

lemma forward_trans: "forward c c' \<Longrightarrow> forward c' c'' \<Longrightarrow> forward c c''"
  by (auto simp: forward_def)

lemma forward_advance [simp]: "cu_has n c \<Longrightarrow> forward c (cu_advance n c)"
  by (auto simp: forward_def cu_advance_ok)

lemma forward_remaining: "forward c c' \<Longrightarrow> cu_remaining c' \<le> cu_remaining c"
  by (auto simp: forward_def cu_remaining_def)

lemma cu_take_advance: "cu_take n c = (take n (cu_data c), cu_advance n c)"
  by (simp add: cu_take_def cu_data_def cu_advance_def)

lemma cu_next_advance: "cu_next c = (cu_buf c ! cu_pos c, cu_advance 1 c)"
  by (simp add: cu_next_def cu_advance_def)

lemma cu_remaining_advance [simp]: "cu_remaining (cu_advance n c) = cu_remaining c - n"
  by (simp add: cu_remaining_def)

end
