(* ===== verification/Item_Codec.thy ===== *)
theory Item_Codec
  imports Buffer_Cursor
begin

text \<open>
  What the three binary formats of the serialization module (MessagePack, CBOR, the plain
  binary stream) promise of one item: it is written as a fixed run of bytes or not at all,
  and reading it back at its first byte gives the value and moves past the last. From this
  contract alone a whole stream of items comes back.
\<close>

subsection \<open>Results threaded through a cursor\<close>

text \<open>\<open>auto x{step()}; if (!x) return std::unexpected{x.error()};\<close> followed by the rest.\<close>

definition and_then :: "('e + 'a) \<times> 's \<Rightarrow> ('a \<Rightarrow> 's \<Rightarrow> ('e + 'b) \<times> 's) \<Rightarrow> ('e + 'b) \<times> 's" where
  "and_then m f = (case m of (Inl e, s) \<Rightarrow> (Inl e, s) | (Inr x, s) \<Rightarrow> f x s)"

lemma and_then_simps [simp]:
  "and_then (Inl e, s) f = (Inl e, s)" "and_then (Inr x, s) f = f x s"
  by (simp_all add: and_then_def)

lemma and_then_Inr: "and_then m f = (Inr y, s') \<longleftrightarrow> (\<exists>x s. m = (Inr x, s) \<and> f x s = (Inr y, s'))"
  by (auto simp: and_then_def split: sum.splits prod.splits)

lemma and_then_cong [fundef_cong]:
  "m = m' \<Longrightarrow> (\<And>x s. m' = (Inr x, s) \<Longrightarrow> f x s = g x s) \<Longrightarrow> and_then m f = and_then m' g"
  by (auto simp: and_then_def split: sum.splits prod.splits)

lemma and_then_forward:
  "forward c (snd m) \<Longrightarrow> (\<And>x. fst m = Inr x \<Longrightarrow> forward (snd m) (snd (f x (snd m)))) \<Longrightarrow>
   forward c (snd (and_then m f))"
  by (auto simp: and_then_def split: sum.splits prod.splits intro: forward_trans)

fun write_seq :: "('v \<Rightarrow> cursor \<Rightarrow> ('e + unit) \<times> cursor) \<Rightarrow> 'v list \<Rightarrow> cursor \<Rightarrow> ('e + unit) \<times> cursor" where
  "write_seq w [] c = (Inr (), c)"
| "write_seq w (v # vs) c = and_then (w v c) (\<lambda>_. write_seq w vs)"

fun read_seq :: "('v \<Rightarrow> cursor \<Rightarrow> ('e + 'w) \<times> cursor) \<Rightarrow> 'v list \<Rightarrow> cursor \<Rightarrow> ('e + 'w list) \<times> cursor" where
  "read_seq r [] c = (Inr [], c)"
| "read_seq r (v # vs) c = and_then (r v c) (\<lambda>x c. and_then (read_seq r vs c) (\<lambda>xs c. (Inr (x # xs), c)))"

subsection \<open>The contract\<close>

locale item_codec =
  fixes put :: "'v \<Rightarrow> cursor \<Rightarrow> ('e + unit) \<times> cursor"
    and get :: "'v \<Rightarrow> cursor \<Rightarrow> ('e + 'w) \<times> cursor"
    and enc :: "'v \<Rightarrow> byte list"
    and fits :: "'v \<Rightarrow> bool"
    and seen :: "'v \<Rightarrow> 'w"
    and full :: 'e
  assumes put_enc: "cursor_ok c \<Longrightarrow> fits v \<Longrightarrow> put v c =
      (if cu_has (length (enc v)) c then (Inr (), put_bytes (enc v) c) else (Inl full, c))"
    and put_unfit: "\<not> fits v \<Longrightarrow> length (cu_buf c) < 2 ^ 64 \<Longrightarrow> \<exists>e. put v c = (Inl e, c)"
    and get_enc: "cu_data c = enc v @ ys \<Longrightarrow> fits v \<Longrightarrow>
      get v c = (Inr (seen v), cu_advance (length (enc v)) c)"
begin

lemma write_atomic: "cursor_ok c \<Longrightarrow> length (cu_buf c) < 2 ^ 64 \<Longrightarrow> fst (put v c) \<noteq> Inr () \<Longrightarrow> snd (put v c) = c"
  using put_enc [of c v] put_unfit [of v c] by (cases "fits v") (auto split: if_splits)

lemma write_seq_Inr:
  "cursor_ok c \<Longrightarrow> length (cu_buf c) < 2 ^ 64 \<Longrightarrow> write_seq put vs c = (Inr (), c') \<Longrightarrow>
   list_all fits vs \<and> c' = put_bytes (concat (map enc vs)) c \<and> cursor_ok c'
   \<and> cu_has (length (concat (map enc vs))) c"
proof (induction vs arbitrary: c)
  case Nil
  then show ?case by (simp add: cu_has_def)
next
  case (Cons v vs)
  have v: "fits v"
  proof (rule ccontr)
    assume "\<not> fits v"
    from put_unfit [OF this Cons.prems(2)] Cons.prems show False by auto
  qed
  let ?c = "put_bytes (enc v) c"
  from put_enc [OF Cons.prems(1) v] Cons.prems(3)
  have has: "cu_has (length (enc v)) c" and rest: "write_seq put vs ?c = (Inr (), c')"
    by (auto split: if_splits)
  note ok = put_bytes_ok [OF Cons.prems(1) has]
  have "length (cu_buf ?c) < 2 ^ 64" using Cons.prems(1,2) has by simp
  from Cons.IH [OF ok this rest] v show ?case
    by (auto simp: put_bytes_append [OF Cons.prems(1)] cu_has_put [OF Cons.prems(1) has])
qed

lemma read_seq_enc:
  "list_all fits vs \<Longrightarrow> cu_data c = concat (map enc vs) @ ys \<Longrightarrow>
   read_seq get vs c = (Inr (map seen vs), cu_advance (length (concat (map enc vs))) c)"
proof (induction vs arbitrary: c)
  case Nil
  then show ?case by (simp add: cu_advance_def)
next
  case (Cons v vs)
  let ?c = "cu_advance (length (enc v)) c"
  have d: "cu_data c = enc v @ concat (map enc vs) @ ys" using Cons.prems by simp
  with Cons.prems have "get v c = (Inr (seen v), ?c)" by (intro get_enc) auto
  moreover have "read_seq get vs ?c = (Inr (map seen vs), cu_advance (length (concat (map enc vs))) ?c)"
    using Cons cu_data_advance [OF d] by (intro Cons.IH) auto
  ultimately show ?case by simp
qed

text \<open>A stream that was written in full is read back in full.\<close>

lemma stream_round_trip:
  assumes "length buf < 2 ^ 64" and "write_seq put vs (cu_make buf) = (Inr (), c)"
  shows "\<exists>c'. read_seq get vs (cu_make (cu_consumed c)) = (Inr (map seen vs), c') \<and> cu_exhausted c'"
proof -
  have ok: "cursor_ok (cu_make buf)" by (simp add: cursor_ok_def cu_make_def)
  have "length (cu_buf (cu_make buf)) < 2 ^ 64" using assms(1) by (simp add: cu_make_def)
  note w = write_seq_Inr [OF ok this assms(2)]
  with assms(1) have out: "cu_consumed c = concat (map enc vs)"
    using cu_consumed_put [OF ok] by (simp add: cu_consumed_def cu_make_def)
  have "cu_data (cu_make (cu_consumed c)) = concat (map enc vs) @ []"
    by (simp add: out cu_data_def cu_make_def)
  with w have "read_seq get vs (cu_make (cu_consumed c)) =
      (Inr (map seen vs), cu_advance (length (concat (map enc vs))) (cu_make (cu_consumed c)))"
    by (intro read_seq_enc) auto
  then show ?thesis by (simp add: out cu_exhausted_def cu_advance_def cu_make_def)
qed

end

subsection \<open>Skipping a whole item\<close>

text \<open>
  Some items announce further items: an array its elements, a map its keys and values.
  \<open>closes arity n vs\<close>: the items \<open>vs\<close> are exactly \<open>n\<close> complete values, one after the other.
\<close>

fun closes :: "('v \<Rightarrow> nat) \<Rightarrow> nat \<Rightarrow> 'v list \<Rightarrow> bool" where
  "closes arity n [] = (n = 0)"
| "closes arity n (v # vs) = (0 < n \<and> closes arity (n - 1 + arity v) vs)"

lemma closes_le: "closes arity n vs \<Longrightarrow> n \<le> length vs"
  by (induction vs arbitrary: n) (auto, fastforce)

lemma unat_add_less: "unat a + n < 2 ^ LENGTH('a) \<Longrightarrow> unat (a + of_nat n) = unat a + n" for a :: "'a::len word"
  by (simp add: unat_word_ariths unat_of_nat_less)

locale skippable_codec = item_codec put get enc fits seen full
  for put :: "'v \<Rightarrow> cursor \<Rightarrow> ('e + unit) \<times> cursor"
    and get :: "'v \<Rightarrow> cursor \<Rightarrow> ('e + 'w) \<times> cursor"
    and enc fits seen full +
  fixes loop :: "u64 \<Rightarrow> cursor \<Rightarrow> ('e + unit) \<times> cursor"
    and arity :: "'v \<Rightarrow> nat"
  assumes enc_not_nil: "enc v \<noteq> []"
    and loop_done: "loop 0 c = (Inr (), c)"
    and loop_item: "p \<noteq> 0 \<Longrightarrow> cu_data c = enc v @ ys \<Longrightarrow> fits v \<Longrightarrow> unat (p - 1) + arity v < 2 ^ 64 \<Longrightarrow>
      loop p c = loop (p - 1 + of_nat (arity v)) (cu_advance (length (enc v)) c)"
begin

lemma length_enc: "length vs \<le> length (concat (map enc vs))"
proof (induction vs)
  case (Cons v vs)
  with enc_not_nil [of v] show ?case by (cases "enc v") simp_all
qed simp

lemma skip_closed:
  "closes arity (unat p) vs \<Longrightarrow> list_all fits vs \<Longrightarrow> cu_data c = concat (map enc vs) @ ys \<Longrightarrow>
   length (concat (map enc vs)) < 2 ^ 64 \<Longrightarrow>
   loop p c = (Inr (), cu_advance (length (concat (map enc vs))) c)"
proof (induction vs arbitrary: p c)
  case Nil
  then have "p = 0" by (simp add: unat_eq_0)
  then show ?case by (simp add: loop_done cu_advance_def)
next
  case (Cons v vs)
  let ?p = "p - 1 + of_nat (arity v)" and ?c = "cu_advance (length (enc v)) c"
  have p: "p \<noteq> 0" using Cons.prems(1) by auto
  then have pred: "unat (p - 1) = unat p - 1" using unat_pred [of p] by simp
  have d: "cu_data c = enc v @ concat (map enc vs) @ ys" using Cons.prems(3) by simp
  have cl: "closes arity (unat (p - 1) + arity v) vs" using Cons.prems(1) by (simp add: pred)
  have "unat (p - 1) + arity v \<le> length (concat (map enc vs))"
    using closes_le [OF cl] length_enc [of vs] by (rule order_trans)
  then have small: "unat (p - 1) + arity v < 2 ^ 64" using Cons.prems(4) by simp
  have "loop p c = loop ?p ?c"
    by (rule loop_item [OF p d _ small]) (use Cons.prems(2) in simp)
  moreover have "loop ?p ?c = (Inr (), cu_advance (length (concat (map enc vs))) ?c)"
  proof (rule Cons.IH)
    show "closes arity (unat ?p) vs" using cl small unat_add_less [of "p - 1" "arity v"] by simp
    show "cu_data ?c = concat (map enc vs) @ ys" using d by (rule cu_data_advance)
  qed (use Cons.prems in auto)
  ultimately show ?case by simp
qed

end

end
