(* ===== verification/Network_Items.thy ===== *)
theory Network_Items
  imports Item_Codec
begin

text \<open>
  What the MessagePack and CBOR codecs share: words stored and loaded in network order at the
  cursor, a body behind its length prefix, and the lemmas on them. The two headers repeat these
  helpers word for word; \<open>Cbor\<close> names its own copies.
\<close>

subsection \<open>The code\<close>

type_synonym 'a io = "(serialization_error + 'a) \<times> cursor"

definition store_be16 :: "u16 \<Rightarrow> cursor \<Rightarrow> cursor" where
  "store_be16 v c = cu_store (write_be (take 2 (cu_data c)) v) c"

definition store_be32 :: "u32 \<Rightarrow> cursor \<Rightarrow> cursor" where
  "store_be32 v c = cu_store (write_be (take 4 (cu_data c)) v) c"

definition store_be64 :: "u64 \<Rightarrow> cursor \<Rightarrow> cursor" where
  "store_be64 v c = cu_store (write_be (take 8 (cu_data c)) v) c"

definition load_be16 :: "byte list \<Rightarrow> u16" where "load_be16 src = read_be src"
definition load_be32 :: "byte list \<Rightarrow> u32" where "load_be32 src = read_be src"
definition load_be64 :: "byte list \<Rightarrow> u64" where "load_be64 src = read_be src"

definition fits_prefixed :: "nat \<Rightarrow> nat \<Rightarrow> cursor \<Rightarrow> bool" where
  "fits_prefixed head body c =
     (let remaining = cu_remaining c in head \<le> remaining \<and> body \<le> remaining - head)"

text \<open>The body behind a length prefix: \<open>memcpy\<close>, then \<open>advance\<close>.\<close>

definition put_body :: "byte list \<Rightarrow> cursor \<Rightarrow> cursor" where
  "put_body s c = cu_advance (length s) (if s \<noteq> [] then cu_store s c else c)"

definition map_io :: "('a \<Rightarrow> 'b) \<Rightarrow> 'a io \<Rightarrow> 'b io" where
  "map_io f m = and_then m (\<lambda>x c. (Inr (f x), c))"

lemma map_io_forward: "forward c (snd m) \<Longrightarrow> forward c (snd (map_io f m))"
  unfolding map_io_def by (rule and_then_forward) simp_all

subsection \<open>Writing\<close>

lemmas nat_numerals = numeral_2_eq_2 [symmetric] numeral_3_eq_3 [symmetric]

lemma put_two: "cursor_ok c \<Longrightarrow> cu_has 2 c \<Longrightarrow> cu_put b (cu_put a c) = put_bytes [a, b] c"
  by (simp add: cu_put_bytes cu_has_le cu_has_put put_bytes_append nat_numerals)

lemma put_word16: "cursor_ok c \<Longrightarrow> cu_has 3 c \<Longrightarrow>
  cu_advance 2 (store_be16 v (cu_put a c)) = put_bytes (a # be_bytes v) c"
  using put_word [of "put_bytes [a] c" v] cu_has_le [of 3 c 1]
  by (simp add: store_be16_def cu_put_bytes cu_has_put put_bytes_append nat_numerals)

lemma put_word32: "cursor_ok c \<Longrightarrow> cu_has 5 c \<Longrightarrow>
  cu_advance 4 (store_be32 v (cu_put a c)) = put_bytes (a # be_bytes v) c"
  using put_word [of "put_bytes [a] c" v] cu_has_le [of 5 c 1]
  by (simp add: store_be32_def cu_put_bytes cu_has_put put_bytes_append nat_numerals)

lemma put_word64: "cursor_ok c \<Longrightarrow> cu_has 9 c \<Longrightarrow>
  cu_advance 8 (store_be64 v (cu_put a c)) = put_bytes (a # be_bytes v) c"
  using put_word [of "put_bytes [a] c" v] cu_has_le [of 9 c 1]
  by (simp add: store_be64_def cu_put_bytes cu_has_put put_bytes_append nat_numerals)

lemma put_body_bytes: "cursor_ok c \<Longrightarrow> put_body s (put_bytes xs c) = put_bytes (xs @ s) c"
  using put_bytes_append [of c s xs]
  by (cases "s = []") (simp add: put_body_def cu_advance_def, simp add: put_body_def cu_advance_store)

lemma fits_prefixed_has: "fits_prefixed h n c \<longleftrightarrow> cu_has (h + n) c"
  by (auto simp: fits_prefixed_def cu_has_def Let_def)

lemma cu_has_prefix [elim]: "cu_has (h + n) c \<Longrightarrow> cu_has h c" "cu_has (Suc n) c \<Longrightarrow> cu_has 1 c"
  by (auto simp: cu_has_def)

lemmas put_items = put_two put_word16 put_word32 put_word64 put_body_bytes cu_put_bytes

lemma body_items:
  assumes "cursor_ok c"
  shows "cu_has (1 + n) c \<Longrightarrow> put_body s (cu_put a c) = put_bytes (a # s) c"
    and "cu_has (2 + n) c \<Longrightarrow> put_body s (cu_put b (cu_put a c)) = put_bytes (a # b # s) c"
    and "cu_has (3 + n) c \<Longrightarrow> put_body s (cu_advance 2 (store_be16 u (cu_put a c))) = put_bytes (a # be_bytes u @ s) c"
    and "cu_has (5 + n) c \<Longrightarrow> put_body s (cu_advance 4 (store_be32 v (cu_put a c))) = put_bytes (a # be_bytes v @ s) c"
  using assms by (simp_all only: cu_put_bytes put_body_bytes put_two put_word16 put_word32
      cu_has_prefix append_Cons append_Nil)

subsection \<open>Reading\<close>

lemma cu_data_tail: "cu_data c = b # ys \<Longrightarrow> cu_data (cu_advance 1 c) = ys"
  using cu_data_advance [of c "[b]" ys] by simp

lemma load_be_bytes [simp]:
  "load_be16 (be_bytes u) = u" "load_be32 (be_bytes v) = v" "load_be64 (be_bytes w) = w"
  by (simp_all add: load_be16_def load_be32_def load_be64_def)

lemma ucast_ucast_small:
  fixes v :: "'a::len word"
  assumes "unat v < 2 ^ LENGTH('b)"
  shows "(ucast (ucast v :: 'b::len word) :: 'a word) = v"
  using assms by (intro word_unat_eq_iff [THEN iffD2])
    (simp add: unsigned_ucast_eq unsigned_take_bit_eq take_bit_nat_eq_self)

lemma scast_ucast_small:
  fixes v :: "'a::len word"
  assumes "- (2 ^ (LENGTH('b) - 1)) \<le> sint v" and "sint v < 2 ^ (LENGTH('b) - 1)"
    and "LENGTH('b) \<le> LENGTH('a)"
  shows "(scast (ucast v :: 'b::len word) :: 'a word) = v"
proof -
  have "sint (ucast v :: 'b word) = signed_take_bit (LENGTH('b) - 1) (sint v)"
    unfolding signed_ucast_eq sint_uint [of v] using assms(3) by (simp add: min_def diff_le_mono)
  also have "\<dots> = sint v" using assms(1,2) by (intro signed_take_bit_int_eq_self) 
  finally show ?thesis by (simp add: scast_eq)
qed

lemma has_one: "cu_data c = a # ys \<Longrightarrow> cu_has 1 c" "cu_data c = a # ys \<Longrightarrow> cu_has (Suc 0) c"
  by (simp_all add: cu_has_data)

lemma cu_next_cons: "cu_data c = b # ys \<Longrightarrow> cu_next c = (b, cu_advance 1 c)"
  by (rule cu_next_data)

lemma cu_has_advance: "cu_has n (cu_advance m c) \<longleftrightarrow> n \<le> cu_remaining c - m"
  by (simp add: cu_has_def)

lemma cu_remaining_data: "cu_remaining c = length (cu_data c)"
  by (simp add: cu_remaining_def cu_data_def)

subsection \<open>Casts\<close>

lemma sint_nonneg: "0 \<le> sint v \<Longrightarrow> uint v = sint v" for v :: "'a::len word"
proof -
  assume "0 \<le> sint v"
  moreover have "sint v < 2 ^ LENGTH('a)"
    using sint_lt [of v] power_increasing [of "LENGTH('a) - 1" "LENGTH('a)" "2 :: int"] by linarith
  ultimately show ?thesis by (simp add: uint_sint take_bit_int_eq_self)
qed

lemma half_max: "(- 1 div 2 :: u64) = 0x7FFFFFFFFFFFFFFF"
  by (simp add: word_div_def unsigned_minus_1_eq_mask mask_eq_exp_minus_1)

end
