(* ===== verification/Float_Bits.thy ===== *)
theory Float_Bits
  imports Prelude
begin

text \<open>
  Floating-point values as bit patterns: \<open>std::bit_cast\<close> is the identity, and widening a
  \<open>float\<close> to \<open>double\<close> (IEEE 754 binary32 to binary64, exact) is written out. A signalling NaN
  comes out quiet, as the conversion instructions do.
\<close>

definition f32_to_f64 :: "u32 \<Rightarrow> u64" where
  "f32_to_f64 u =
     (let s = push_bit 63 (ucast (drop_bit 31 u));
          e = drop_bit 23 u AND 0xFF;
          m = u AND 0x7FFFFF
      in if e = 0xFF then
           if m = 0 then s OR push_bit 52 0x7FF
           else s OR push_bit 52 0x7FF OR push_bit 51 1 OR push_bit 29 (ucast m)
         else if e \<noteq> 0 then s OR push_bit 52 (ucast e + 896) OR push_bit 29 (ucast m)
         else if m = 0 then s
         else
           let k = last (filter (bit m) [0..<23])
           in s OR push_bit 52 (of_nat k + 874) OR push_bit (52 - k) (ucast m - push_bit k 1))"

end
