(* ===== verification/Msgpack.thy ===== *)
theory Msgpack
  imports Network_Items Float_Bits
begin

text \<open>
  MessagePack: \<open>serialization/msgpack.hpp\<close>. A writer or reader is its cursor; every call
  returns its result and the cursor it leaves. An \<open>std::int64_t\<close> is the 64-bit word of its
  two's complement, read with \<open>sint\<close>; a \<open>float\<close> or \<open>double\<close> is its bit pattern.
\<close>

subsection \<open>Writer\<close>

definition put1 :: "u8 \<Rightarrow> cursor \<Rightarrow> unit io" where
  "put1 b c = (if \<not> cu_has 1 c then (Inl Ser_buffer_full, c) else (Inr (), cu_put b c))"

definition mp_write_nil :: "cursor \<Rightarrow> unit io" where
  "mp_write_nil c = put1 0xC0 c"

definition mp_write_bool :: "bool \<Rightarrow> cursor \<Rightarrow> unit io" where
  "mp_write_bool v c = put1 (if v then 0xC3 else 0xC2) c"

definition mp_write_uint :: "u64 \<Rightarrow> cursor \<Rightarrow> unit io" where
  "mp_write_uint v c =
     (if v \<le> 0x7F then put1 (ucast v) c
      else if v \<le> 0xFF then
        if \<not> cu_has 2 c then (Inl Ser_buffer_full, c)
        else (Inr (), cu_put (ucast v) (cu_put 0xCC c))
      else if v \<le> 0xFFFF then
        if \<not> cu_has 3 c then (Inl Ser_buffer_full, c)
        else (Inr (), cu_advance 2 (store_be16 (ucast v) (cu_put 0xCD c)))
      else if v \<le> 0xFFFFFFFF then
        if \<not> cu_has 5 c then (Inl Ser_buffer_full, c)
        else (Inr (), cu_advance 4 (store_be32 (ucast v) (cu_put 0xCE c)))
      else
        if \<not> cu_has 9 c then (Inl Ser_buffer_full, c)
        else (Inr (), cu_advance 8 (store_be64 v (cu_put 0xCF c))))"

definition mp_write_int :: "u64 \<Rightarrow> cursor \<Rightarrow> unit io" where
  "mp_write_int v c =
     (if 0 \<le> sint v then mp_write_uint v c
      else if - 32 \<le> sint v then put1 (ucast v) c
      else if - 128 \<le> sint v then
        if \<not> cu_has 2 c then (Inl Ser_buffer_full, c)
        else (Inr (), cu_put (ucast v) (cu_put 0xD0 c))
      else if - 32768 \<le> sint v then
        if \<not> cu_has 3 c then (Inl Ser_buffer_full, c)
        else (Inr (), cu_advance 2 (store_be16 (ucast v) (cu_put 0xD1 c)))
      else if - 2147483648 \<le> sint v then
        if \<not> cu_has 5 c then (Inl Ser_buffer_full, c)
        else (Inr (), cu_advance 4 (store_be32 (ucast v) (cu_put 0xD2 c)))
      else
        if \<not> cu_has 9 c then (Inl Ser_buffer_full, c)
        else (Inr (), cu_advance 8 (store_be64 v (cu_put 0xD3 c))))"

definition mp_write_float32 :: "u32 \<Rightarrow> cursor \<Rightarrow> unit io" where
  "mp_write_float32 v c =
     (if \<not> cu_has 5 c then (Inl Ser_buffer_full, c)
      else (Inr (), cu_advance 4 (store_be32 v (cu_put 0xCA c))))"

definition mp_write_float64 :: "u64 \<Rightarrow> cursor \<Rightarrow> unit io" where
  "mp_write_float64 v c =
     (if \<not> cu_has 9 c then (Inl Ser_buffer_full, c)
      else (Inr (), cu_advance 8 (store_be64 v (cu_put 0xCB c))))"

definition mp_write_string :: "byte list \<Rightarrow> cursor \<Rightarrow> unit io" where
  "mp_write_string s c =
     (let n = length s
      in if 0xFFFFFFFF < n then (Inl Ser_string_too_long, c)
         else if n \<le> 31 then
           if \<not> fits_prefixed 1 n c then (Inl Ser_buffer_full, c)
           else (Inr (), put_body s (cu_put (0xA0 OR of_nat n) c))
         else if n \<le> 0xFF then
           if \<not> fits_prefixed 2 n c then (Inl Ser_buffer_full, c)
           else (Inr (), put_body s (cu_put (of_nat n) (cu_put 0xD9 c)))
         else if n \<le> 0xFFFF then
           if \<not> fits_prefixed 3 n c then (Inl Ser_buffer_full, c)
           else (Inr (), put_body s (cu_advance 2 (store_be16 (of_nat n) (cu_put 0xDA c))))
         else
           if \<not> fits_prefixed 5 n c then (Inl Ser_buffer_full, c)
           else (Inr (), put_body s (cu_advance 4 (store_be32 (of_nat n) (cu_put 0xDB c)))))"

definition mp_write_binary :: "byte list \<Rightarrow> cursor \<Rightarrow> unit io" where
  "mp_write_binary s c =
     (let n = length s
      in if 0xFFFFFFFF < n then (Inl Ser_string_too_long, c)
         else if n \<le> 0xFF then
           if \<not> fits_prefixed 2 n c then (Inl Ser_buffer_full, c)
           else (Inr (), put_body s (cu_put (of_nat n) (cu_put 0xC4 c)))
         else if n \<le> 0xFFFF then
           if \<not> fits_prefixed 3 n c then (Inl Ser_buffer_full, c)
           else (Inr (), put_body s (cu_advance 2 (store_be16 (of_nat n) (cu_put 0xC5 c))))
         else
           if \<not> fits_prefixed 5 n c then (Inl Ser_buffer_full, c)
           else (Inr (), put_body s (cu_advance 4 (store_be32 (of_nat n) (cu_put 0xC6 c)))))"

definition mp_write_array_header :: "u32 \<Rightarrow> cursor \<Rightarrow> unit io" where
  "mp_write_array_header n c =
     (if n \<le> 15 then put1 (ucast (0x90 OR n)) c
      else if n \<le> 0xFFFF then
        if \<not> cu_has 3 c then (Inl Ser_buffer_full, c)
        else (Inr (), cu_advance 2 (store_be16 (ucast n) (cu_put 0xDC c)))
      else
        if \<not> cu_has 5 c then (Inl Ser_buffer_full, c)
        else (Inr (), cu_advance 4 (store_be32 n (cu_put 0xDD c))))"

definition mp_write_map_header :: "u32 \<Rightarrow> cursor \<Rightarrow> unit io" where
  "mp_write_map_header n c =
     (if n \<le> 15 then put1 (ucast (0x80 OR n)) c
      else if n \<le> 0xFFFF then
        if \<not> cu_has 3 c then (Inl Ser_buffer_full, c)
        else (Inr (), cu_advance 2 (store_be16 (ucast n) (cu_put 0xDE c)))
      else
        if \<not> cu_has 5 c then (Inl Ser_buffer_full, c)
        else (Inr (), cu_advance 4 (store_be32 n (cu_put 0xDF c))))"

subsection \<open>Reader\<close>

datatype mp_type = Mp_t_nil | Mp_t_boolean | Mp_t_integer | Mp_t_floating | Mp_t_string
  | Mp_t_binary | Mp_t_array_header | Mp_t_map_header

definition mp_take :: "nat \<Rightarrow> cursor \<Rightarrow> byte list io" where
  "mp_take n c =
     (if \<not> cu_has n c then (Inl Ser_buffer_underrun, c)
      else case cu_take n c of (p, c') \<Rightarrow> (Inr p, c'))"

definition mp_head :: "cursor \<Rightarrow> u8" where "mp_head c = cu_data c ! 0"

definition mp_peek_type :: "cursor \<Rightarrow> serialization_error + mp_type" where
  "mp_peek_type c =
     (if \<not> cu_has 1 c then Inl Ser_buffer_underrun
      else
        let b = mp_head c
        in if b = 0xC0 then Inr Mp_t_nil
           else if b = 0xC2 \<or> b = 0xC3 then Inr Mp_t_boolean
           else if b \<le> 0x7F \<or> 0xE0 \<le> b then Inr Mp_t_integer
           else if b AND 0xE0 = 0xA0 then Inr Mp_t_string
           else if b AND 0xF0 = 0x90 then Inr Mp_t_array_header
           else if b AND 0xF0 = 0x80 then Inr Mp_t_map_header
           else if b \<in> {0xCA, 0xCB} then Inr Mp_t_floating
           else if b \<in> {0xCC, 0xCD, 0xCE, 0xCF, 0xD0, 0xD1, 0xD2, 0xD3} then Inr Mp_t_integer
           else if b \<in> {0xD9, 0xDA, 0xDB} then Inr Mp_t_string
           else if b \<in> {0xC4, 0xC5, 0xC6} then Inr Mp_t_binary
           else if b \<in> {0xDC, 0xDD} then Inr Mp_t_array_header
           else if b \<in> {0xDE, 0xDF} then Inr Mp_t_map_header
           else Inl Ser_invalid_input)"

definition mp_read_nil :: "cursor \<Rightarrow> unit io" where
  "mp_read_nil c =
     (if \<not> cu_has 1 c \<or> mp_head c \<noteq> 0xC0 then (Inl Ser_type_mismatch, c)
      else (Inr (), cu_advance 1 c))"

definition mp_read_bool :: "cursor \<Rightarrow> bool io" where
  "mp_read_bool c =
     (if \<not> cu_has 1 c then (Inl Ser_buffer_underrun, c)
      else
        let b = mp_head c
        in if b = 0xC2 then (Inr False, cu_advance 1 c)
           else if b = 0xC3 then (Inr True, cu_advance 1 c)
           else (Inl Ser_type_mismatch, c))"

definition mp_read_int :: "cursor \<Rightarrow> u64 io" where
  "mp_read_int c =
     (if \<not> cu_has 1 c then (Inl Ser_buffer_underrun, c)
      else
        let b = mp_head c
        in if b \<le> 0x7F then (Inr (ucast b), cu_advance 1 c)
           else if 0xE0 \<le> b then (Inr (scast b), cu_advance 1 c)
           else
             let c' = cu_advance 1 c
             in if b = 0xCC then and_then (mp_take 1 c') (\<lambda>p c. (Inr (ucast (p ! 0)), c))
                else if b = 0xCD then and_then (mp_take 2 c') (\<lambda>p c. (Inr (ucast (load_be16 p)), c))
                else if b = 0xCE then and_then (mp_take 4 c') (\<lambda>p c. (Inr (ucast (load_be32 p)), c))
                else if b = 0xCF then
                  and_then (mp_take 8 c') (\<lambda>p c.
                    let v = load_be64 p
                    in if 0x7FFFFFFFFFFFFFFF < v then (Inl Ser_type_mismatch, c) else (Inr v, c))
                else if b = 0xD0 then and_then (mp_take 1 c') (\<lambda>p c. (Inr (scast (p ! 0)), c))
                else if b = 0xD1 then and_then (mp_take 2 c') (\<lambda>p c. (Inr (scast (load_be16 p)), c))
                else if b = 0xD2 then and_then (mp_take 4 c') (\<lambda>p c. (Inr (scast (load_be32 p)), c))
                else if b = 0xD3 then and_then (mp_take 8 c') (\<lambda>p c. (Inr (load_be64 p), c))
                else (Inl Ser_type_mismatch, cu_retreat 1 c'))"

definition mp_read_uint :: "cursor \<Rightarrow> u64 io" where
  "mp_read_uint c =
     (if \<not> cu_has 1 c then (Inl Ser_buffer_underrun, c)
      else
        let b = mp_head c
        in if b \<le> 0x7F then (Inr (ucast b), cu_advance 1 c)
           else
             let c' = cu_advance 1 c
             in if b = 0xCC then and_then (mp_take 1 c') (\<lambda>p c. (Inr (ucast (p ! 0)), c))
                else if b = 0xCD then and_then (mp_take 2 c') (\<lambda>p c. (Inr (ucast (load_be16 p)), c))
                else if b = 0xCE then and_then (mp_take 4 c') (\<lambda>p c. (Inr (ucast (load_be32 p)), c))
                else if b = 0xCF then and_then (mp_take 8 c') (\<lambda>p c. (Inr (load_be64 p), c))
                else (Inl Ser_type_mismatch, cu_retreat 1 c'))"

definition mp_read_float :: "cursor \<Rightarrow> u64 io" where
  "mp_read_float c =
     (if \<not> cu_has 1 c then (Inl Ser_buffer_underrun, c)
      else
        let b = mp_head c
        in if b = 0xCA then
             and_then (mp_take 4 (cu_advance 1 c)) (\<lambda>p c. (Inr (f32_to_f64 (load_be32 p)), c))
           else if b = 0xCB then
             and_then (mp_take 8 (cu_advance 1 c)) (\<lambda>p c. (Inr (load_be64 p), c))
           else (Inl Ser_type_mismatch, c))"

definition mp_read_string :: "cursor \<Rightarrow> byte list io" where
  "mp_read_string c =
     (if \<not> cu_has 1 c then (Inl Ser_buffer_underrun, c)
      else
        let (b, c') = cu_next c;
            n = (if b AND 0xE0 = 0xA0 then (Inr (unat (b AND 0x1F)), c')
                 else if b = 0xD9 then and_then (mp_take 1 c') (\<lambda>p c. (Inr (unat (p ! 0)), c))
                 else if b = 0xDA then and_then (mp_take 2 c') (\<lambda>p c. (Inr (unat (load_be16 p)), c))
                 else if b = 0xDB then and_then (mp_take 4 c') (\<lambda>p c. (Inr (unat (load_be32 p)), c))
                 else (Inl Ser_type_mismatch, cu_retreat 1 c'))
        in and_then n mp_take)"

definition mp_read_binary :: "cursor \<Rightarrow> byte list io" where
  "mp_read_binary c =
     (if \<not> cu_has 1 c then (Inl Ser_buffer_underrun, c)
      else
        let (b, c') = cu_next c;
            n = (if b = 0xC4 then and_then (mp_take 1 c') (\<lambda>p c. (Inr (unat (p ! 0)), c))
                 else if b = 0xC5 then and_then (mp_take 2 c') (\<lambda>p c. (Inr (unat (load_be16 p)), c))
                 else if b = 0xC6 then and_then (mp_take 4 c') (\<lambda>p c. (Inr (unat (load_be32 p)), c))
                 else (Inl Ser_type_mismatch, cu_retreat 1 c'))
        in and_then n mp_take)"

definition mp_read_array_header :: "cursor \<Rightarrow> u32 io" where
  "mp_read_array_header c =
     (if \<not> cu_has 1 c then (Inl Ser_buffer_underrun, c)
      else
        let (b, c') = cu_next c
        in if b AND 0xF0 = 0x90 then (Inr (ucast (b AND 0x0F)), c')
           else if b = 0xDC then and_then (mp_take 2 c') (\<lambda>p c. (Inr (ucast (load_be16 p)), c))
           else if b = 0xDD then and_then (mp_take 4 c') (\<lambda>p c. (Inr (load_be32 p), c))
           else (Inl Ser_type_mismatch, cu_retreat 1 c'))"

definition mp_read_map_header :: "cursor \<Rightarrow> u32 io" where
  "mp_read_map_header c =
     (if \<not> cu_has 1 c then (Inl Ser_buffer_underrun, c)
      else
        let (b, c') = cu_next c
        in if b AND 0xF0 = 0x80 then (Inr (ucast (b AND 0x0F)), c')
           else if b = 0xDE then and_then (mp_take 2 c') (\<lambda>p c. (Inr (ucast (load_be16 p)), c))
           else if b = 0xDF then and_then (mp_take 4 c') (\<lambda>p c. (Inr (load_be32 p), c))
           else (Inl Ser_type_mismatch, cu_retreat 1 c'))"

text \<open>Skipping: \<open>pending\<close> counts the items still to pass.\<close>

definition add_pending :: "u64 \<Rightarrow> u64 \<Rightarrow> u64 option" where
  "add_pending pending add = (if - 1 - pending < add then None else Some (pending + add))"

definition mp_skip_fixed :: "nat \<Rightarrow> cursor \<Rightarrow> bool \<times> cursor" where
  "mp_skip_fixed n c = (if \<not> cu_has n c then (False, c) else (True, cu_advance n c))"

definition mp_read_len :: "nat \<Rightarrow> cursor \<Rightarrow> u64 io" where
  "mp_read_len n c =
     and_then (mp_take n c) (\<lambda>p c.
       if n = 1 then (Inr (ucast (p ! 0)), c)
       else if n = 2 then (Inr (ucast (load_be16 p)), c)
       else (Inr (ucast (load_be32 p)), c))"

definition mp_skip_body :: "u64 \<Rightarrow> nat \<Rightarrow> cursor \<Rightarrow> u64 io" where
  "mp_skip_body pending n c =
     (case mp_skip_fixed n c of
        (False, c') \<Rightarrow> (Inl Ser_buffer_underrun, c')
      | (True, c') \<Rightarrow> (Inr pending, c'))"

definition mp_more :: "u64 \<Rightarrow> u64 \<Rightarrow> cursor \<Rightarrow> u64 io" where
  "mp_more pending add c =
     (case add_pending pending add of
        None \<Rightarrow> (Inl Ser_buffer_underrun, c)
      | Some p \<Rightarrow> (Inr p, c))"

definition mp_skip_item :: "u8 \<Rightarrow> u64 \<Rightarrow> cursor \<Rightarrow> u64 io" where
  "mp_skip_item b pending c =
     (if b \<le> 0x7F \<or> 0xE0 \<le> b then (Inr pending, c)
      else if b AND 0xE0 = 0xA0 then mp_skip_body pending (unat (b AND 0x1F)) c
      else if b AND 0xF0 = 0x90 then mp_more pending (ucast (b AND 0x0F)) c
      else if b AND 0xF0 = 0x80 then mp_more pending (ucast (b AND 0x0F) * 2) c
      else if b \<in> {0xC0, 0xC2, 0xC3} then (Inr pending, c)
      else if b \<in> {0xCC, 0xD0} then mp_skip_body pending 1 c
      else if b \<in> {0xCD, 0xD1} then mp_skip_body pending 2 c
      else if b \<in> {0xCA, 0xCE, 0xD2} then mp_skip_body pending 4 c
      else if b \<in> {0xCB, 0xCF, 0xD3} then mp_skip_body pending 8 c
      else if b \<in> {0xD9, 0xC4} then and_then (mp_read_len 1 c) (\<lambda>n. mp_skip_body pending (unat n))
      else if b \<in> {0xDA, 0xC5} then and_then (mp_read_len 2 c) (\<lambda>n. mp_skip_body pending (unat n))
      else if b \<in> {0xDB, 0xC6} then and_then (mp_read_len 4 c) (\<lambda>n. mp_skip_body pending (unat n))
      else if b = 0xDC then and_then (mp_read_len 2 c) (mp_more pending)
      else if b = 0xDD then and_then (mp_read_len 4 c) (mp_more pending)
      else if b = 0xDE then
        and_then (mp_read_len 2 c) (\<lambda>n c.
          if - 1 div 2 < n then (Inl Ser_buffer_underrun, c) else mp_more pending (n * 2) c)
      else if b = 0xDF then
        and_then (mp_read_len 4 c) (\<lambda>n c.
          if - 1 div 2 < n then (Inl Ser_buffer_underrun, c) else mp_more pending (n * 2) c)
      else (Inl Ser_invalid_input, c))"

lemma mp_take_forward [simp]: "forward c (snd (mp_take n c))"
  by (simp add: mp_take_def cu_take_advance)

lemma mp_skip_body_forward [simp]: "forward c (snd (mp_skip_body p n c))"
  by (simp add: mp_skip_body_def mp_skip_fixed_def)

lemma mp_more_forward [simp]: "forward c (snd (mp_more p n c))"
  by (simp add: mp_more_def split: option.splits)

lemma mp_read_len_forward [simp]: "forward c (snd (mp_read_len n c))"
  unfolding mp_read_len_def by (rule and_then_forward) simp_all

lemma mp_skip_item_forward [simp]: "forward c (snd (mp_skip_item b p c))"
  unfolding mp_skip_item_def by (auto intro!: and_then_forward)

lemma mp_skip_item_remaining: "mp_skip_item b p (cu_advance 1 c) = (Inr q, c') \<Longrightarrow> cu_has 1 c \<Longrightarrow>
  cu_remaining c' < cu_remaining c"
  using mp_skip_item_forward [of "cu_advance 1 c" b p] forward_remaining [of "cu_advance 1 c" c']
  by (auto simp: cu_has_def)

function mp_skip_loop :: "u64 \<Rightarrow> cursor \<Rightarrow> unit io" where
  "mp_skip_loop pending c =
     (if pending = 0 then (Inr (), c)
      else if \<not> cu_has 1 c then (Inl Ser_buffer_underrun, c)
      else
        let (b, c') = cu_next c
        in and_then (mp_skip_item b (pending - 1) c') mp_skip_loop)"
  by pat_completeness auto
termination
  by (relation "measure (\<lambda>(p, c). cu_remaining c)") (auto simp: cu_next_advance mp_skip_item_remaining)

declare mp_skip_loop.simps [simp del]

definition mp_skip_value :: "cursor \<Rightarrow> unit io" where
  "mp_skip_value c = mp_skip_loop 1 c"

subsection \<open>The encoding of an item\<close>

datatype mp_value =
    Mp_nil | Mp_bool bool | Mp_int u64 | Mp_uint u64 | Mp_float32 u32 | Mp_float64 u64
  | Mp_string "byte list" | Mp_binary "byte list" | Mp_array u32 | Mp_map u32

definition mp_uint_enc :: "u64 \<Rightarrow> byte list" where
  "mp_uint_enc v =
     (if v \<le> 0x7F then [ucast v]
      else if v \<le> 0xFF then [0xCC, ucast v]
      else if v \<le> 0xFFFF then 0xCD # be_bytes (ucast v :: u16)
      else if v \<le> 0xFFFFFFFF then 0xCE # be_bytes (ucast v :: u32)
      else 0xCF # be_bytes v)"

definition mp_int_enc :: "u64 \<Rightarrow> byte list" where
  "mp_int_enc v =
     (if 0 \<le> sint v then mp_uint_enc v
      else if - 32 \<le> sint v then [ucast v]
      else if - 128 \<le> sint v then [0xD0, ucast v]
      else if - 32768 \<le> sint v then 0xD1 # be_bytes (ucast v :: u16)
      else if - 2147483648 \<le> sint v then 0xD2 # be_bytes (ucast v :: u32)
      else 0xD3 # be_bytes v)"

definition mp_len_enc :: "u8 \<Rightarrow> u8 \<Rightarrow> u8 \<Rightarrow> nat \<Rightarrow> byte list" where
  "mp_len_enc h8 h16 h32 n =
     (if n \<le> 0xFF then [h8, of_nat n]
      else if n \<le> 0xFFFF then h16 # be_bytes (of_nat n :: u16)
      else h32 # be_bytes (of_nat n :: u32))"

definition mp_count_enc :: "u8 \<Rightarrow> u8 \<Rightarrow> u8 \<Rightarrow> u32 \<Rightarrow> byte list" where
  "mp_count_enc fix h16 h32 n =
     (if n \<le> 15 then [fix OR ucast n]
      else if n \<le> 0xFFFF then h16 # be_bytes (ucast n :: u16)
      else h32 # be_bytes n)"

fun mp_enc :: "mp_value \<Rightarrow> byte list" where
  "mp_enc Mp_nil = [0xC0]"
| "mp_enc (Mp_bool v) = [if v then 0xC3 else 0xC2]"
| "mp_enc (Mp_int v) = mp_int_enc v"
| "mp_enc (Mp_uint v) = mp_uint_enc v"
| "mp_enc (Mp_float32 v) = 0xCA # be_bytes v"
| "mp_enc (Mp_float64 v) = 0xCB # be_bytes v"
| "mp_enc (Mp_string s) =
     (if length s \<le> 31 then [0xA0 OR of_nat (length s)] else mp_len_enc 0xD9 0xDA 0xDB (length s)) @ s"
| "mp_enc (Mp_binary s) = mp_len_enc 0xC4 0xC5 0xC6 (length s) @ s"
| "mp_enc (Mp_array n) = mp_count_enc 0x90 0xDC 0xDD n"
| "mp_enc (Mp_map n) = mp_count_enc 0x80 0xDE 0xDF n"

fun mp_fits :: "mp_value \<Rightarrow> bool" where
  "mp_fits (Mp_string s) = (length s < 2 ^ 32)"
| "mp_fits (Mp_binary s) = (length s < 2 ^ 32)"
| "mp_fits v = True"

text \<open>The writer of a value, and the reader that asks for a value of its kind.\<close>

fun mp_write :: "mp_value \<Rightarrow> cursor \<Rightarrow> unit io" where
  "mp_write Mp_nil = mp_write_nil"
| "mp_write (Mp_bool v) = mp_write_bool v"
| "mp_write (Mp_int v) = mp_write_int v"
| "mp_write (Mp_uint v) = mp_write_uint v"
| "mp_write (Mp_float32 v) = mp_write_float32 v"
| "mp_write (Mp_float64 v) = mp_write_float64 v"
| "mp_write (Mp_string s) = mp_write_string s"
| "mp_write (Mp_binary s) = mp_write_binary s"
| "mp_write (Mp_array n) = mp_write_array_header n"
| "mp_write (Mp_map n) = mp_write_map_header n"

fun mp_read :: "mp_value \<Rightarrow> cursor \<Rightarrow> mp_value io" where
  "mp_read Mp_nil c = map_io (\<lambda>_. Mp_nil) (mp_read_nil c)"
| "mp_read (Mp_bool _) c = map_io Mp_bool (mp_read_bool c)"
| "mp_read (Mp_int _) c = map_io Mp_int (mp_read_int c)"
| "mp_read (Mp_uint _) c = map_io Mp_uint (mp_read_uint c)"
| "mp_read (Mp_float32 _) c = map_io Mp_float64 (mp_read_float c)"
| "mp_read (Mp_float64 _) c = map_io Mp_float64 (mp_read_float c)"
| "mp_read (Mp_string _) c = map_io Mp_string (mp_read_string c)"
| "mp_read (Mp_binary _) c = map_io Mp_binary (mp_read_binary c)"
| "mp_read (Mp_array _) c = map_io Mp_array (mp_read_array_header c)"
| "mp_read (Mp_map _) c = map_io Mp_map (mp_read_map_header c)"

text \<open>What the reader returns: a \<open>float\<close> comes back as the \<open>double\<close> of the same value.\<close>

fun mp_seen :: "mp_value \<Rightarrow> mp_value" where
  "mp_seen (Mp_float32 v) = Mp_float64 (f32_to_f64 v)"
| "mp_seen v = v"

subsection \<open>Writers write the encoding, or nothing\<close>

lemma put1_enc: "put1 b c = (if cu_has 1 c then (Inr (), put_bytes [b] c) else (Inl Ser_buffer_full, c))"
  by (simp add: put1_def cu_put_bytes)

lemma mp_write_uint_enc: "cursor_ok c \<Longrightarrow> mp_write_uint v c =
  (if cu_has (length (mp_uint_enc v)) c then (Inr (), put_bytes (mp_uint_enc v) c) else (Inl Ser_buffer_full, c))"
  by (simp add: mp_write_uint_def mp_uint_enc_def put1_enc put_items nat_numerals)

lemma mp_write_int_enc: "cursor_ok c \<Longrightarrow> mp_write_int v c =
  (if cu_has (length (mp_int_enc v)) c then (Inr (), put_bytes (mp_int_enc v) c) else (Inl Ser_buffer_full, c))"
  by (simp add: mp_write_int_def mp_int_enc_def mp_write_uint_enc put1_enc put_items nat_numerals)

lemma mp_write_string_enc: "cursor_ok c \<Longrightarrow> length s < 2 ^ 32 \<Longrightarrow> mp_write_string s c =
  (if cu_has (length (mp_enc (Mp_string s))) c then (Inr (), put_bytes (mp_enc (Mp_string s)) c)
   else (Inl Ser_buffer_full, c))"
  by (simp add: mp_write_string_def mp_len_enc_def fits_prefixed_has Let_def body_items)

lemma mp_write_binary_enc: "cursor_ok c \<Longrightarrow> length s < 2 ^ 32 \<Longrightarrow> mp_write_binary s c =
  (if cu_has (length (mp_enc (Mp_binary s))) c then (Inr (), put_bytes (mp_enc (Mp_binary s)) c)
   else (Inl Ser_buffer_full, c))"
  by (simp add: mp_write_binary_def mp_len_enc_def fits_prefixed_has Let_def body_items)

lemma mp_write_count_enc:
  assumes "cursor_ok c"
  shows "mp_write_array_header n c = (if cu_has (length (mp_enc (Mp_array n))) c
      then (Inr (), put_bytes (mp_enc (Mp_array n)) c) else (Inl Ser_buffer_full, c))"
    and "mp_write_map_header n c = (if cu_has (length (mp_enc (Mp_map n))) c
      then (Inr (), put_bytes (mp_enc (Mp_map n)) c) else (Inl Ser_buffer_full, c))"
  using assms
  by (simp_all add: mp_write_array_header_def mp_write_map_header_def mp_count_enc_def put1_enc
      put_items unsigned_or_eq nat_numerals)

lemma mp_write_enc: "cursor_ok c \<Longrightarrow> mp_fits v \<Longrightarrow> mp_write v c =
  (if cu_has (length (mp_enc v)) c then (Inr (), put_bytes (mp_enc v) c) else (Inl Ser_buffer_full, c))"
proof (cases v)
  case (Mp_string s)
  assume "cursor_ok c" "mp_fits v"
  then show ?thesis unfolding Mp_string mp_write.simps by (intro mp_write_string_enc) simp_all
next
  case (Mp_binary s)
  assume "cursor_ok c" "mp_fits v"
  then show ?thesis unfolding Mp_binary mp_write.simps by (intro mp_write_binary_enc) simp_all
qed (simp_all add: mp_write_nil_def mp_write_bool_def mp_write_float32_def mp_write_float64_def
    mp_write_uint_enc mp_write_int_enc mp_write_count_enc put1_enc put_items)

lemma mp_write_unfit: "\<not> mp_fits v \<Longrightarrow> mp_write v c = (Inl Ser_string_too_long, c)"
  by (cases v) (simp_all add: mp_write_string_def mp_write_binary_def)

subsection \<open>Readers read it back\<close>

lemma mp_take_data: "cu_data c = xs @ ys \<Longrightarrow> n = length xs \<Longrightarrow> mp_take n c = (Inr xs, cu_advance n c)"
  by (simp add: mp_take_def cu_has_data cu_take_advance)

lemma mp_head_data: "cu_data c = b # ys \<Longrightarrow> mp_head c = b"
  by (simp add: mp_head_def)

text \<open>The word behind a head byte.\<close>

lemma take_word:
  "cu_data c = a # be_bytes u @ ys \<Longrightarrow> mp_take 2 (cu_advance 1 c) = (Inr (be_bytes (u :: u16)), cu_advance 3 c)"
  "cu_data c = a # be_bytes v @ ys \<Longrightarrow> mp_take 4 (cu_advance 1 c) = (Inr (be_bytes (v :: u32)), cu_advance 5 c)"
  "cu_data c = a # be_bytes w @ ys \<Longrightarrow> mp_take 8 (cu_advance 1 c) = (Inr (be_bytes (w :: u64)), cu_advance 9 c)"
  "cu_data c = a # b # ys \<Longrightarrow> mp_take 1 (cu_advance 1 c) = (Inr [b], cu_advance 2 c)"
  using mp_take_data [OF cu_data_tail, of c a "be_bytes u" ys 2]
    mp_take_data [OF cu_data_tail, of c a "be_bytes v" ys 4]
    mp_take_data [OF cu_data_tail, of c a "be_bytes w" ys 8]
    mp_take_data [OF cu_data_tail, of c a "[b]" ys 1]
  by (simp_all add: nat_numerals)

lemmas take_item = take_word take_word [simplified One_nat_def]

lemma mp_read_uint_enc:
  assumes "cu_data c = mp_uint_enc v @ ys"
  shows "mp_read_uint c = (Inr v, cu_advance (length (mp_uint_enc v)) c) \<and>
    (v \<le> 0x7FFFFFFFFFFFFFFF \<longrightarrow> mp_read_int c = (Inr v, cu_advance (length (mp_uint_enc v)) c))"
proof -
  consider (fixint) "v \<le> 0x7F" | (u8) "\<not> v \<le> 0x7F" "v \<le> 0xFF" | (u16) "\<not> v \<le> 0xFF" "v \<le> 0xFFFF"
    | (u32) "\<not> v \<le> 0xFFFF" "v \<le> 0xFFFFFFFF" | (u64) "\<not> v \<le> 0xFFFFFFFF" by blast
  then show ?thesis
  proof cases
    case fixint
    then have small: "unat v < 2 ^ LENGTH(8)" by (simp add: word_le_nat_alt)
    then have "unat (ucast v :: u8) = unat v" by (simp add: unsigned_ucast_eq take_bit_nat_eq_self)
    with fixint have "(ucast v :: u8) \<le> 0x7F" by (simp add: word_le_nat_alt)
    note this ucast_ucast_small [OF small]
    with fixint assms show ?thesis
      by (simp add: mp_read_uint_def mp_read_int_def mp_uint_enc_def has_one mp_head_data)
  next
    case u8
    then have "ucast (ucast v :: u8) = v" by (auto simp: word_le_nat_alt intro!: ucast_ucast_small)
    with u8 assms show ?thesis
      by (simp add: mp_read_uint_def mp_read_int_def mp_uint_enc_def has_one mp_head_data take_item nat_numerals)
  next
    case u16
    then have "ucast (ucast v :: u16) = v" by (auto simp: word_le_nat_alt intro!: ucast_ucast_small)
    moreover from u16 have "\<not> v \<le> 0x7F" by (auto simp: word_le_nat_alt)
    ultimately show ?thesis using u16 assms
      by (simp add: mp_read_uint_def mp_read_int_def mp_uint_enc_def has_one mp_head_data take_item nat_numerals)
  next
    case u32
    then have "ucast (ucast v :: u32) = v" by (auto simp: word_le_nat_alt intro!: ucast_ucast_small)
    moreover from u32 have "\<not> v \<le> 0x7F" "\<not> v \<le> 0xFF" by (auto simp: word_le_nat_alt)
    ultimately show ?thesis using u32 assms
      by (simp add: mp_read_uint_def mp_read_int_def mp_uint_enc_def has_one mp_head_data take_item)
  next
    case u64
    then have "\<not> v \<le> 0x7F" "\<not> v \<le> 0xFF" "\<not> v \<le> 0xFFFF" by (auto simp: word_le_nat_alt)
    with u64 assms show ?thesis
      by (simp add: mp_read_uint_def mp_read_int_def mp_uint_enc_def has_one mp_head_data take_item,
          simp add: not_le)
  qed
qed

lemma neg_fixint_head:
  fixes v :: u64
  assumes "- 32 \<le> sint v" and "\<not> 0 \<le> sint v"
  shows "0xE0 \<le> (ucast v :: u8)"
proof -
  have "uint (ucast v :: u8) = take_bit 8 (sint v)"
    unfolding unsigned_ucast_eq uint_sint [of v] take_bit_take_bit by simp
  also have "\<dots> = (sint v + 256) mod 256" by (simp add: take_bit_eq_mod)
  also have "\<dots> = sint v + 256" using assms by (intro mod_pos_pos_trivial) auto
  finally show ?thesis using assms by (simp add: word_le_def)
qed

lemma mp_read_int_enc:
  assumes "cu_data c = mp_int_enc v @ ys"
  shows "mp_read_int c = (Inr v, cu_advance (length (mp_int_enc v)) c)"
proof (cases "0 \<le> sint v")
  case True
  then have "uint v < 2 ^ 63" using sint_lt [of v] by (simp add: sint_nonneg)
  then have "v \<le> 0x7FFFFFFFFFFFFFFF" by (simp add: word_le_def)
  with True assms mp_read_uint_enc [of c v ys] show ?thesis by (simp add: mp_int_enc_def)
next
  case False
  consider (fixint) "- 32 \<le> sint v" | (i8) "\<not> - 32 \<le> sint v" "- 128 \<le> sint v"
    | (i16) "\<not> - 128 \<le> sint v" "- 32768 \<le> sint v"
    | (i32) "\<not> - 32768 \<le> sint v" "- 2147483648 \<le> sint v" | (i64) "\<not> - 2147483648 \<le> sint v" by blast
  then show ?thesis
  proof cases
    case fixint
    have "scast (ucast v :: u8) = v" by (rule scast_ucast_small) (use False fixint in simp_all)
    moreover have "0xE0 \<le> (ucast v :: u8)" by (rule neg_fixint_head) (use False fixint in simp_all)
    moreover from this have "\<not> (ucast v :: u8) \<le> 0x7F" by (simp add: word_le_nat_alt)
    ultimately show ?thesis using False fixint assms
      by (simp add: mp_read_int_def mp_int_enc_def has_one mp_head_data)
  next
    case i8
    have "scast (ucast v :: u8) = v" by (rule scast_ucast_small) (use False i8 in simp_all)
    with False i8 assms show ?thesis
      by (simp add: mp_read_int_def mp_int_enc_def has_one mp_head_data take_item nat_numerals)
  next
    case i16
    have "scast (ucast v :: u16) = v" by (rule scast_ucast_small) (use False i16 in simp_all)
    with False i16 assms show ?thesis
      by (simp add: mp_read_int_def mp_int_enc_def has_one mp_head_data take_item nat_numerals)
  next
    case i32
    have "scast (ucast v :: u32) = v" by (rule scast_ucast_small) (use False i32 in simp_all)
    with False i32 assms show ?thesis
      by (simp add: mp_read_int_def mp_int_enc_def has_one mp_head_data take_item)
  next
    case i64
    with False assms show ?thesis
      by (simp add: mp_read_int_def mp_int_enc_def has_one mp_head_data take_item)
  qed
qed

lemma fixstr_head:
  assumes "n \<le> 31"
  shows "(0xA0 OR of_nat n :: u8) AND 0xE0 = 0xA0" and "unat ((0xA0 OR of_nat n :: u8) AND 0x1F) = n"
    and "\<not> (0xA0 OR of_nat n :: u8) \<le> 0x7F" and "\<not> 0xE0 \<le> (0xA0 OR of_nat n :: u8)"
proof -
  let ?P = "\<lambda>n. let b = (0xA0 OR of_nat n :: u8) in b AND 0xE0 = 0xA0 \<and> unat (b AND 0x1F) = n
    \<and> \<not> b \<le> 0x7F \<and> \<not> 0xE0 \<le> b"
  have "list_all ?P [0..<32]" by code_simp
  with assms have "?P n" by (simp add: list_all_iff)
  then show "(0xA0 OR of_nat n :: u8) AND 0xE0 = 0xA0" "unat ((0xA0 OR of_nat n :: u8) AND 0x1F) = n"
    "\<not> (0xA0 OR of_nat n :: u8) \<le> 0x7F" "\<not> 0xE0 \<le> (0xA0 OR of_nat n :: u8)"
    unfolding Let_def by blast+
qed

lemma fix_count_head:
  fixes n :: u32
  assumes "n \<le> 15" and "h \<in> {0x90, 0x80 :: u8}"
  shows "(h OR ucast n :: u8) AND 0xF0 = h" and "(ucast ((h OR ucast n :: u8) AND 0x0F) :: u32) = n"
    and "(ucast ((h OR ucast n :: u8) AND 0x0F) :: u64) = of_nat (unat n)"
    and "\<not> (h OR ucast n :: u8) \<le> 0x7F" and "\<not> 0xE0 \<le> (h OR ucast n :: u8)"
    and "(h OR ucast n :: u8) AND 0xE0 \<noteq> 0xA0"
proof -
  let ?P = "\<lambda>f (n :: u32). let b = f OR ucast n :: u8 in
    b AND 0xF0 = f \<and> ucast (b AND 0x0F) = n \<and> (ucast (b AND 0x0F) :: u64) = of_nat (unat n)
    \<and> \<not> b \<le> 0x7F \<and> \<not> 0xE0 \<le> b \<and> b AND 0xE0 \<noteq> 0xA0"
  have "list_all (\<lambda>k. ?P 0x90 (of_nat k) \<and> ?P 0x80 (of_nat k)) [0..<16]" by code_simp
  then have all: "k < 16 \<Longrightarrow> ?P 0x90 (of_nat k) \<and> ?P 0x80 (of_nat k)" for k
    unfolding list_all_iff by (metis atLeastLessThan_iff set_upt le0)
  have "unat n < 16" using assms(1) by (simp add: word_le_nat_alt)
  from all [OF this] have "?P 0x90 n" "?P 0x80 n" by (simp_all only: of_nat_unat ucast_id)
  with assms(2) have "?P h n" by blast
  then show "(h OR ucast n :: u8) AND 0xF0 = h" "(ucast ((h OR ucast n :: u8) AND 0x0F) :: u32) = n"
    "(ucast ((h OR ucast n :: u8) AND 0x0F) :: u64) = of_nat (unat n)"
    "\<not> (h OR ucast n :: u8) \<le> 0x7F" "\<not> 0xE0 \<le> (h OR ucast n :: u8)"
    "(h OR ucast n :: u8) AND 0xE0 \<noteq> 0xA0"
    unfolding Let_def by blast+
qed

text \<open>A length prefix read behind the head byte.\<close>

lemma read_len_prefix:
  assumes "cu_data c = mp_len_enc h8 h16 h32 n @ s @ ys" and "n < 2 ^ 32" and "n = length s"
    and "distinct [h8, h16, h32]"
  shows "\<exists>b c'. cu_next c = (b, c') \<and> cu_has 1 c \<and> b \<in> {h8, h16, h32} \<and>
    (if b = h8 then and_then (mp_take 1 c') (\<lambda>p c. (Inr (unat (p ! 0)), c))
     else if b = h16 then and_then (mp_take 2 c') (\<lambda>p c. (Inr (unat (load_be16 p)), c))
     else and_then (mp_take 4 c') (\<lambda>p c. (Inr (unat (load_be32 p)), c))) =
    (Inr n, cu_advance (length (mp_len_enc h8 h16 h32 n)) c) \<and>
    mp_take n (cu_advance (length (mp_len_enc h8 h16 h32 n)) c) =
      (Inr s, cu_advance (length (mp_len_enc h8 h16 h32 n) + length s) c)"
proof -
  have body: "mp_take n (cu_advance (length (mp_len_enc h8 h16 h32 n)) c) =
      (Inr s, cu_advance (length (mp_len_enc h8 h16 h32 n) + length s) c)"
    using mp_take_data [OF cu_data_advance [OF assms(1)] assms(3)] assms(3) by simp
  consider (l8) "n \<le> 0xFF" | (l16) "\<not> n \<le> 0xFF" "n \<le> 0xFFFF" | (l32) "\<not> n \<le> 0xFFFF" by blast
  then show ?thesis
  proof cases
    case l8
    then show ?thesis using assms body
      by (simp add: mp_len_enc_def cu_next_cons has_one take_item unat_of_nat_byte nat_numerals)
  next
    case l16
    then have "unat (of_nat n :: u16) = n" by (simp add: unat_of_nat_less)
    with l16 show ?thesis using assms body
      by (auto simp: mp_len_enc_def cu_next_cons has_one take_item nat_numerals)
  next
    case l32
    then have "unat (of_nat n :: u32) = n" using assms(2) by (simp add: unat_of_nat_less)
    with l32 show ?thesis using assms body
      by (auto simp: mp_len_enc_def cu_next_cons has_one take_item)
  qed
qed

lemma mp_read_string_enc:
  assumes "cu_data c = mp_enc (Mp_string s) @ ys" and "length s < 2 ^ 32"
  shows "mp_read_string c = (Inr s, cu_advance (length (mp_enc (Mp_string s))) c)"
proof (cases "length s \<le> 31")
  case True
  then have d: "cu_data c = (0xA0 OR of_nat (length s)) # s @ ys" using assms(1) by simp
  from mp_take_data [OF cu_data_tail [OF d], of "length s"] fixstr_head [OF True] True
  show ?thesis by (simp add: mp_read_string_def has_one [OF d] cu_next_cons [OF d])
next
  case False
  then have d: "cu_data c = mp_len_enc 0xD9 0xDA 0xDB (length s) @ s @ ys" using assms(1) by simp
  from read_len_prefix [OF d assms(2) refl]
  obtain b c' where n: "cu_next c = (b, c')" "cu_has 1 c" "b \<in> {0xD9, 0xDA, 0xDB}"
    and len: "(if b = 0xD9 then and_then (mp_take 1 c') (\<lambda>p c. (Inr (unat (p ! 0)), c))
     else if b = 0xDA then and_then (mp_take 2 c') (\<lambda>p c. (Inr (unat (load_be16 p)), c))
     else and_then (mp_take 4 c') (\<lambda>p c. (Inr (unat (load_be32 p)), c))) =
      (Inr (length s), cu_advance (length (mp_len_enc 0xD9 0xDA 0xDB (length s))) c)"
    and body: "mp_take (length s) (cu_advance (length (mp_len_enc 0xD9 0xDA 0xDB (length s))) c) =
      (Inr s, cu_advance (length (mp_len_enc 0xD9 0xDA 0xDB (length s)) + length s) c)"
    by auto
  have "b AND 0xE0 \<noteq> 0xA0" using n(3) by auto
  with n len body False show ?thesis by (auto simp: mp_read_string_def split: if_splits)
qed

lemma mp_read_binary_enc:
  assumes "cu_data c = mp_enc (Mp_binary s) @ ys" and "length s < 2 ^ 32"
  shows "mp_read_binary c = (Inr s, cu_advance (length (mp_enc (Mp_binary s))) c)"
proof -
  have d: "cu_data c = mp_len_enc 0xC4 0xC5 0xC6 (length s) @ s @ ys" using assms(1) by simp
  from read_len_prefix [OF d assms(2) refl]
  obtain b c' where n: "cu_next c = (b, c')" "cu_has 1 c" "b \<in> {0xC4, 0xC5, 0xC6}"
    and len: "(if b = 0xC4 then and_then (mp_take 1 c') (\<lambda>p c. (Inr (unat (p ! 0)), c))
     else if b = 0xC5 then and_then (mp_take 2 c') (\<lambda>p c. (Inr (unat (load_be16 p)), c))
     else and_then (mp_take 4 c') (\<lambda>p c. (Inr (unat (load_be32 p)), c))) =
      (Inr (length s), cu_advance (length (mp_len_enc 0xC4 0xC5 0xC6 (length s))) c)"
    and body: "mp_take (length s) (cu_advance (length (mp_len_enc 0xC4 0xC5 0xC6 (length s))) c) =
      (Inr s, cu_advance (length (mp_len_enc 0xC4 0xC5 0xC6 (length s)) + length s) c)"
    by auto
  from n len body show ?thesis by (auto simp: mp_read_binary_def split: if_splits)
qed

lemma mp_read_count_enc:
  "cu_data c = mp_enc (Mp_array n) @ ys \<Longrightarrow>
     mp_read_array_header c = (Inr n, cu_advance (length (mp_enc (Mp_array n))) c)"
  "cu_data c = mp_enc (Mp_map n) @ ys \<Longrightarrow>
     mp_read_map_header c = (Inr n, cu_advance (length (mp_enc (Mp_map n))) c)"
proof -
  consider (few) "n \<le> 15" | (h16) "\<not> n \<le> 15" "n \<le> 0xFFFF" | (h32) "\<not> n \<le> 0xFFFF" "\<not> n \<le> 15"
    by (auto simp: word_le_nat_alt)
  then have "(cu_data c = mp_enc (Mp_array n) @ ys \<longrightarrow>
     mp_read_array_header c = (Inr n, cu_advance (length (mp_enc (Mp_array n))) c)) \<and>
    (cu_data c = mp_enc (Mp_map n) @ ys \<longrightarrow>
     mp_read_map_header c = (Inr n, cu_advance (length (mp_enc (Mp_map n))) c))"
  proof cases
    case few
    then show ?thesis using fix_count_head [where h = "0x90", OF few] fix_count_head [where h = "0x80", OF few]
      by (auto simp: mp_read_array_header_def mp_read_map_header_def mp_count_enc_def cu_next_cons has_one)
  next
    case h16
    then have "ucast (ucast n :: u16) = n" by (intro ucast_ucast_small) (simp add: word_le_nat_alt)
    with h16 show ?thesis
      by (auto simp: mp_read_array_header_def mp_read_map_header_def mp_count_enc_def cu_next_cons has_one
          take_item nat_numerals)
  next
    case h32
    then show ?thesis
      by (auto simp: mp_read_array_header_def mp_read_map_header_def mp_count_enc_def cu_next_cons has_one
          take_item)
  qed
  then show "cu_data c = mp_enc (Mp_array n) @ ys \<Longrightarrow>
     mp_read_array_header c = (Inr n, cu_advance (length (mp_enc (Mp_array n))) c)"
    "cu_data c = mp_enc (Mp_map n) @ ys \<Longrightarrow>
     mp_read_map_header c = (Inr n, cu_advance (length (mp_enc (Mp_map n))) c)" by blast+
qed

lemma mp_read_enc:
  assumes "cu_data c = mp_enc v @ ys" and "mp_fits v"
  shows "mp_read v c = (Inr (mp_seen v), cu_advance (length (mp_enc v)) c)"
proof (cases v)
  case (Mp_string s)
  with assms mp_read_string_enc [of c s ys] show ?thesis by (simp add: map_io_def del: mp_enc.simps)
next
  case (Mp_binary s)
  with assms mp_read_binary_enc [of c s ys] show ?thesis by (simp add: map_io_def del: mp_enc.simps)
next
  case (Mp_int w)
  with assms mp_read_int_enc [of c w ys] show ?thesis by (simp add: map_io_def)
next
  case (Mp_uint w)
  with assms mp_read_uint_enc [of c w ys] show ?thesis by (simp add: map_io_def)
next
  case (Mp_array n)
  with assms mp_read_count_enc(1) [of c n ys] show ?thesis by (simp add: map_io_def del: mp_enc.simps)
next
  case (Mp_map n)
  with assms mp_read_count_enc(2) [of c n ys] show ?thesis by (simp add: map_io_def del: mp_enc.simps)
qed (use assms in \<open>auto simp: map_io_def mp_read_nil_def mp_read_bool_def mp_read_float_def has_one
      mp_head_data take_item\<close>)

interpretation msgpack: item_codec mp_write mp_read mp_enc mp_fits mp_seen Ser_buffer_full
proof unfold_locales
  show "cursor_ok c \<Longrightarrow> mp_fits v \<Longrightarrow> mp_write v c =
      (if cu_has (length (mp_enc v)) c then (Inr (), put_bytes (mp_enc v) c) else (Inl Ser_buffer_full, c))" for c v
    by (rule mp_write_enc)
  show "\<not> mp_fits v \<Longrightarrow> length (cu_buf c) < 2 ^ 64 \<Longrightarrow> \<exists>e. mp_write v c = (Inl e, c)" for v c
    using mp_write_unfit by blast
  show "cu_data c = mp_enc v @ ys \<Longrightarrow> mp_fits v \<Longrightarrow>
      mp_read v c = (Inr (mp_seen v), cu_advance (length (mp_enc v)) c)" for c v ys
    by (rule mp_read_enc)
qed

subsection \<open>Skipping a value\<close>

fun mp_arity :: "mp_value \<Rightarrow> nat" where
  "mp_arity (Mp_array n) = unat n"
| "mp_arity (Mp_map n) = 2 * unat n"
| "mp_arity v = 0"

lemma add_pending_ok:
  assumes "unat q + unat a < 2 ^ 64"
  shows "add_pending q a = Some (q + a)"
proof -
  have "unat (- 1 - q) = 2 ^ 64 - 1 - unat q"
    using unat_sub [of q "- 1"] by (simp add: unat_max)
  with assms have "\<not> - 1 - q < a" by (simp add: word_less_nat_alt)
  then show ?thesis by (simp add: add_pending_def)
qed

lemma mp_more_ok: "unat q + unat a < 2 ^ 64 \<Longrightarrow> mp_more q a c = (Inr (q + a), c)"
  by (simp add: mp_more_def add_pending_ok)

lemma mp_skip_body_ok: "cu_has n c \<Longrightarrow> mp_skip_body q n c = (Inr q, cu_advance n c)"
  by (simp add: mp_skip_body_def mp_skip_fixed_def)

text \<open>The length or count behind the head.\<close>

lemma mp_read_len_ok:
  "cu_data c = a # b # ys \<Longrightarrow> mp_read_len 1 (cu_advance 1 c) = (Inr (ucast b), cu_advance 2 c)"
  "cu_data c = a # be_bytes u @ ys \<Longrightarrow> mp_read_len 2 (cu_advance 1 c) = (Inr (ucast (u :: u16)), cu_advance 3 c)"
  "cu_data c = a # be_bytes v @ ys \<Longrightarrow> mp_read_len 4 (cu_advance 1 c) = (Inr (ucast (v :: u32)), cu_advance 5 c)"
  by (simp_all add: mp_read_len_def take_item)

lemmas mp_read_len_item = mp_read_len_ok mp_read_len_ok [simplified One_nat_def]

text \<open>The branch each head byte takes.\<close>

lemma mp_skip_item_small: "b \<le> 0x7F \<or> 0xE0 \<le> b \<Longrightarrow> mp_skip_item b q c = (Inr q, c)"
  by (simp add: mp_skip_item_def)

lemma mp_skip_item_heads:
  "mp_skip_item 0xC0 q c = (Inr q, c)" "mp_skip_item 0xC2 q c = (Inr q, c)" "mp_skip_item 0xC3 q c = (Inr q, c)"
  "mp_skip_item 0xCC q c = mp_skip_body q 1 c" "mp_skip_item 0xD0 q c = mp_skip_body q 1 c"
  "mp_skip_item 0xCD q c = mp_skip_body q 2 c" "mp_skip_item 0xD1 q c = mp_skip_body q 2 c"
  "mp_skip_item 0xCA q c = mp_skip_body q 4 c" "mp_skip_item 0xCE q c = mp_skip_body q 4 c"
  "mp_skip_item 0xD2 q c = mp_skip_body q 4 c"
  "mp_skip_item 0xCB q c = mp_skip_body q 8 c" "mp_skip_item 0xCF q c = mp_skip_body q 8 c"
  "mp_skip_item 0xD3 q c = mp_skip_body q 8 c"
  by (simp_all add: mp_skip_item_def)

lemma mp_skip_item_lengths:
  "mp_skip_item 0xD9 q c = and_then (mp_read_len 1 c) (\<lambda>n. mp_skip_body q (unat n))"
  "mp_skip_item 0xC4 q c = and_then (mp_read_len 1 c) (\<lambda>n. mp_skip_body q (unat n))"
  "mp_skip_item 0xDA q c = and_then (mp_read_len 2 c) (\<lambda>n. mp_skip_body q (unat n))"
  "mp_skip_item 0xC5 q c = and_then (mp_read_len 2 c) (\<lambda>n. mp_skip_body q (unat n))"
  "mp_skip_item 0xDB q c = and_then (mp_read_len 4 c) (\<lambda>n. mp_skip_body q (unat n))"
  "mp_skip_item 0xC6 q c = and_then (mp_read_len 4 c) (\<lambda>n. mp_skip_body q (unat n))"
  "mp_skip_item 0xDC q c = and_then (mp_read_len 2 c) (mp_more q)"
  "mp_skip_item 0xDD q c = and_then (mp_read_len 4 c) (mp_more q)"
  by (simp_all add: mp_skip_item_def)

lemma mp_skip_item_maps:
  "mp_skip_item 0xDE q c = and_then (mp_read_len 2 c) (\<lambda>n c.
     if - 1 div 2 < n then (Inl Ser_buffer_underrun, c) else mp_more q (n * 2) c)"
  "mp_skip_item 0xDF q c = and_then (mp_read_len 4 c) (\<lambda>n c.
     if - 1 div 2 < n then (Inl Ser_buffer_underrun, c) else mp_more q (n * 2) c)"
  by (simp_all add: mp_skip_item_def)

lemmas mp_skip_at = mp_skip_item_small mp_skip_item_heads mp_skip_item_lengths mp_skip_item_maps

text \<open>What \<open>mp_skip_item\<close> does behind the head of each item.\<close>

lemmas skip_body_at = mp_skip_body_ok cu_has_advance cu_remaining_data

lemma skips_uint:
  assumes "cu_data c = mp_uint_enc v @ ys"
  shows "\<exists>b t. mp_uint_enc v = b # t \<and>
    mp_skip_item b q (cu_advance 1 c) = (Inr q, cu_advance (length (mp_uint_enc v)) c)"
proof -
  have "v \<le> 0x7F \<Longrightarrow> (ucast v :: u8) \<le> 0x7F"
  proof -
    assume "v \<le> 0x7F"
    moreover from this have "unat (ucast v :: u8) = unat v"
      by (simp add: word_le_nat_alt unsigned_ucast_eq take_bit_nat_eq_self)
    ultimately show ?thesis by (simp add: word_le_nat_alt)
  qed
  with assms show ?thesis
    by (auto simp: mp_uint_enc_def mp_skip_at skip_body_at split: if_splits)
qed

lemma skips_int:
  assumes "cu_data c = mp_int_enc v @ ys"
  shows "\<exists>b t. mp_int_enc v = b # t \<and>
    mp_skip_item b q (cu_advance 1 c) = (Inr q, cu_advance (length (mp_int_enc v)) c)"
proof (cases "0 \<le> sint v")
  case True
  with assms skips_uint show ?thesis by (simp add: mp_int_enc_def)
next
  case False
  have "- 32 \<le> sint v \<Longrightarrow> 0xE0 \<le> (ucast v :: u8)"
    by (rule neg_fixint_head) (use False in simp_all)
  with False assms show ?thesis
    by (auto simp: mp_int_enc_def mp_skip_at skip_body_at split: if_splits)
qed

lemma skips_len:
  assumes "cu_data c = mp_len_enc h8 h16 h32 (length s) @ s @ ys" and "length s < 2 ^ 32"
    and "(h8, h16, h32) \<in> {(0xD9, 0xDA, 0xDB), (0xC4, 0xC5, 0xC6)}"
  shows "\<exists>b t. mp_len_enc h8 h16 h32 (length s) = b # t \<and>
    mp_skip_item b q (cu_advance 1 c) = (Inr q, cu_advance (length (mp_len_enc h8 h16 h32 (length s)) + length s) c)"
proof -
  let ?n = "length s"
  consider (l8) "?n \<le> 0xFF" | (l16) "\<not> ?n \<le> 0xFF" "?n \<le> 0xFFFF" | (l32) "\<not> ?n \<le> 0xFFFF" by linarith
  then show ?thesis
  proof cases
    case l8
    then have "unat (ucast (of_nat ?n :: u8) :: u64) = ?n"
      by (simp add: unsigned_ucast_eq unat_of_nat_byte take_bit_nat_eq_self)
    with l8 assms show ?thesis
      by (auto simp: mp_len_enc_def mp_skip_at mp_read_len_item skip_body_at)
  next
    case l16
    then have "unat (ucast (of_nat ?n :: u16) :: u64) = ?n"
      by (simp add: unsigned_ucast_eq unat_of_nat_less take_bit_nat_eq_self)
    with l16 assms show ?thesis
      by (auto simp: mp_len_enc_def mp_skip_at mp_read_len_item skip_body_at)
  next
    case l32
    then have "unat (ucast (of_nat ?n :: u32) :: u64) = ?n"
      using assms(2) by (simp add: unsigned_ucast_eq unat_of_nat_less take_bit_nat_eq_self)
    with l32 assms show ?thesis
      by (auto simp: mp_len_enc_def mp_skip_at mp_read_len_item skip_body_at)
  qed
qed

lemma ucast_count:
  "unat n < 2 ^ 16 \<Longrightarrow> (ucast (ucast n :: u16) :: u64) = of_nat (unat n)"
  "(ucast n :: u64) = of_nat (unat n)" for n :: u32
  using unsigned_less [of n, where ?'a = nat]
  by (simp_all add: word_unat_eq_iff unsigned_ucast_eq unsigned_take_bit_eq unsigned_of_nat take_bit_nat_eq_self)

lemma skips_count:
  assumes "cu_data c = mp_count_enc h h16 h32 n @ ys"
    and "unat q + k * unat n < 2 ^ 64" and "(h, h16, h32, k) \<in> {(0x90, 0xDC, 0xDD, 1), (0x80, 0xDE, 0xDF, 2)}"
  shows "\<exists>b t. mp_count_enc h h16 h32 n = b # t \<and>
    mp_skip_item b q (cu_advance 1 c) = (Inr (q + of_nat (k * unat n)), cu_advance (length (mp_count_enc h h16 h32 n)) c)"
proof -
  have "unat n < 2 ^ 32" using unsigned_less [of n, where ?'a = nat] by simp
  then have add: "unat (of_nat (k * unat n) :: u64) = k * unat n"
    using assms(3) by (intro unat_of_nat_less) auto
  then have more: "mp_more q (of_nat (k * unat n)) c' = (Inr (q + of_nat (k * unat n)), c')" for c'
    using assms(2) by (intro mp_more_ok) simp
  have half: "\<not> 0x7FFFFFFFFFFFFFFF < (of_nat (unat n) :: u64)"
  proof -
    have "unat (of_nat (unat n) :: u64) = unat n"
      using \<open>unat n < 2 ^ 32\<close> by (intro unat_of_nat_less) simp
    with \<open>unat n < 2 ^ 32\<close> show ?thesis unfolding word_less_nat_alt by simp
  qed
  consider (few) "n \<le> 15" | (c16) "\<not> n \<le> 15" "n \<le> 0xFFFF" | (c32) "\<not> n \<le> 15" "\<not> n \<le> 0xFFFF" by blast
  then show ?thesis
  proof cases
    case few
    have hh: "h \<in> {0x90, 0x80}" using assms(3) by auto
    note f = fix_count_head [OF few hh]
    have "mp_skip_item (h OR ucast n) q c' = mp_more q (of_nat (k * unat n)) c'" for c'
    proof -
      have "mp_skip_item (h OR ucast n) q c' =
          (if h = 0x90 then mp_more q (of_nat (unat n)) c' else mp_more q (of_nat (unat n) * 2) c')"
        unfolding mp_skip_item_def f using f(4-6) hh by (simp split del: if_split) auto
      with assms(3) show ?thesis by (auto simp: mult.commute)
    qed
    with few more show ?thesis by (simp add: mp_count_enc_def)
  next
    case c16
    then have "unat n < 2 ^ 16" by (simp add: word_le_nat_alt)
    with c16 assms(1,3) more half show ?thesis
      by (auto simp: mp_count_enc_def mp_skip_at mp_read_len_item ucast_count(1) half_max mult.commute)
  next
    case c32
    with assms(1,3) more half show ?thesis
      by (auto simp: mp_count_enc_def mp_skip_at mp_read_len_item ucast_count(1) half_max mult.commute)
  qed
qed

lemma mp_skip_enc:
  assumes "cu_data c = mp_enc v @ ys" and "mp_fits v" and "unat q + mp_arity v < 2 ^ 64"
  shows "\<exists>b t. mp_enc v = b # t \<and>
    mp_skip_item b q (cu_advance 1 c) = (Inr (q + of_nat (mp_arity v)), cu_advance (length (mp_enc v)) c)"
proof (cases v)
  case (Mp_string s)
  show ?thesis
  proof (cases "length s \<le> 31")
    case True
    note f = fixstr_head [OF True]
    have "mp_skip_item (0xA0 OR of_nat (length s)) q c' = mp_skip_body q (length s) c'" for c'
      unfolding mp_skip_item_def f using f(3,4) by simp
    with True assms Mp_string show ?thesis by (simp add: skip_body_at)
  next
    case False
    with assms skips_len [of c "0xD9" "0xDA" "0xDB" s ys q] Mp_string show ?thesis by auto
  qed
next
  case (Mp_binary s)
  with assms skips_len [of c "0xC4" "0xC5" "0xC6" s ys q] show ?thesis by auto
next
  case (Mp_int w)
  with assms skips_int [of c w ys q] show ?thesis by simp
next
  case (Mp_uint w)
  with assms skips_uint [of c w ys q] show ?thesis by simp
next
  case (Mp_array n)
  with assms skips_count [of c "0x90" "0xDC" "0xDD" n ys q 1] show ?thesis by simp
next
  case (Mp_map n)
  with assms skips_count [of c "0x80" "0xDE" "0xDF" n ys q 2] show ?thesis by simp
qed (use assms in \<open>auto simp: mp_skip_at skip_body_at\<close>)

interpretation msgpack_skip: skippable_codec mp_write mp_read mp_enc mp_fits mp_seen Ser_buffer_full
  mp_skip_loop mp_arity
proof unfold_locales
  show "mp_enc v \<noteq> []" for v
    by (cases v) (simp_all add: mp_int_enc_def mp_uint_enc_def mp_len_enc_def mp_count_enc_def)
  show "mp_skip_loop 0 c = (Inr (), c)" for c by (simp add: mp_skip_loop.simps [of 0])
  fix p :: u64 and c v ys
  assume p: "p \<noteq> 0" and d: "cu_data c = mp_enc v @ ys" and v: "mp_fits v"
    and small: "unat (p - 1) + mp_arity v < 2 ^ 64"
  from mp_skip_enc [OF d v small] obtain b t where e: "mp_enc v = b # t"
    and s: "mp_skip_item b (p - 1) (cu_advance 1 c) =
      (Inr (p - 1 + of_nat (mp_arity v)), cu_advance (length (mp_enc v)) c)" by blast
  have "cu_data c = b # t @ ys" using d e by simp
  with p s show "mp_skip_loop p c = mp_skip_loop (p - 1 + of_nat (mp_arity v)) (cu_advance (length (mp_enc v)) c)"
    by (simp add: mp_skip_loop.simps [of p] has_one cu_next_cons)
qed

subsection \<open>Properties\<close>

text \<open>C16: MessagePack round trip: a stream of items that the writer accepted in full is read back,
  each item by the reader of its kind, with the values that were written and nothing left over.\<close>

theorem msgpack_stream_round_trip:
  assumes "length buf < 2 ^ 64" and "write_seq mp_write vs (cu_make buf) = (Inr (), c)"
  shows "\<exists>c'. read_seq mp_read vs (cu_make (cu_consumed c)) = (Inr (map mp_seen vs), c') \<and> cu_exhausted c'"
  using assms by (rule msgpack.stream_round_trip)

lemma msgpack_stream_round_trip_witness:
  "\<exists>c'. read_seq mp_read [Mp_int (- 5), Mp_bool True]
     (cu_make (cu_consumed (put_bytes [0xFB, 0xC3] (cu_make [0, 0, 0])))) =
     (Inr (map mp_seen [Mp_int (- 5), Mp_bool True]), c') \<and> cu_exhausted c'"
  by (rule msgpack_stream_round_trip [where buf = "[0, 0, 0]"]) (simp, code_simp)

text \<open>C17: A MessagePack write that fails, for want of room or because the text is too long, leaves the
  buffer and the position as they were.\<close>

theorem msgpack_write_atomic:
  assumes "cursor_ok c" and "fst (mp_write v c) \<noteq> Inr ()"
  shows "snd (mp_write v c) = c"
  using assms mp_write_enc [of c v] mp_write_unfit [of v c] by (cases "mp_fits v") (auto split: if_splits)

lemma msgpack_write_atomic_witness:
  "snd (mp_write (Mp_uint 300) (cu_make [7, 8])) = cu_make [7, 8]"
  by (rule msgpack_write_atomic) (simp add: cursor_ok_def cu_make_def, code_simp)

text \<open>C18: Skipping terminates and passes exactly one value: when the items at the cursor form one
  complete value, however deeply arrays and maps nest, \<open>skip_value\<close> succeeds and stops right behind
  its last byte.\<close>

theorem msgpack_skip_value_exact:
  assumes "closes mp_arity 1 vs" and "list_all mp_fits vs"
    and "cu_data c = concat (map mp_enc vs) @ ys" and "length (concat (map mp_enc vs)) < 2 ^ 64"
  shows "mp_skip_value c = (Inr (), cu_advance (length (concat (map mp_enc vs))) c)"
  unfolding mp_skip_value_def using assms by (intro msgpack_skip.skip_closed) simp_all

lemma msgpack_skip_value_exact_witness:
  "mp_skip_value (cu_make [0x92, 0xC3, 0x90, 0x05]) = (Inr (), cu_advance 3 (cu_make [0x92, 0xC3, 0x90, 0x05]))"
  using msgpack_skip_value_exact [of "[Mp_array 2, Mp_bool True, Mp_array 0]" "cu_make [0x92, 0xC3, 0x90, 0x05]" "[0x05]"]
  by (simp add: mp_count_enc_def cu_make_def cu_data_def)

lemma mp_skip_loop_forward: "forward c (snd (mp_skip_loop p c))"
proof (induction p c rule: mp_skip_loop.induct)
  case (1 p c)
  show ?case
  proof (cases "p = 0 \<or> \<not> cu_has 1 c")
    case True
    then show ?thesis by (subst mp_skip_loop.simps) auto
  next
    case False
    let ?m = "mp_skip_item (fst (cu_next c)) (p - 1) (cu_advance 1 c)"
    have "mp_skip_loop p c = and_then ?m mp_skip_loop"
      using False by (subst mp_skip_loop.simps) (auto simp: cu_next_advance)
    moreover have "forward c (snd (and_then ?m mp_skip_loop))"
    proof (rule and_then_forward)
      show "forward c (snd ?m)"
        using False by (intro forward_trans [OF forward_advance mp_skip_item_forward]) simp
      fix x assume "fst ?m = Inr x"
      then have "?m = (Inr x, snd ?m)" by (metis prod.collapse)
      then show "forward (snd ?m) (snd (mp_skip_loop x (snd ?m)))"
        using False by (intro 1) (auto simp: cu_next_advance)
    qed
    ultimately show ?thesis by simp
  qed
qed

lemma forward_step: "cu_has 1 c \<Longrightarrow> forward c (snd (mp_take n (cu_advance 1 c)))"
  by (rule forward_trans [OF forward_advance mp_take_forward])

lemmas forward_steps = forward_step forward_step [simplified One_nat_def]
  cu_retreat_advance [simplified One_nat_def]

lemma mp_read_int_forward: "forward c (snd (mp_read_int c))"
  by (auto simp: mp_read_int_def Let_def forward_steps intro!: and_then_forward)

lemma mp_read_uint_forward: "forward c (snd (mp_read_uint c))"
  by (auto simp: mp_read_uint_def Let_def forward_steps intro!: and_then_forward)

lemma mp_read_other_forward:
  "forward c (snd (mp_read_nil c))" "forward c (snd (mp_read_bool c))" "forward c (snd (mp_read_float c))"
  "forward c (snd (mp_read_string c))" "forward c (snd (mp_read_binary c))"
  "forward c (snd (mp_read_array_header c))" "forward c (snd (mp_read_map_header c))"
  by (auto simp: mp_read_nil_def mp_read_bool_def mp_read_float_def mp_read_string_def mp_read_binary_def
      mp_read_array_header_def mp_read_map_header_def cu_next_advance Let_def
      forward_steps intro!: and_then_forward)

text \<open>No MessagePack reader moves out of its buffer, backwards, or changes a byte of it, whatever
  the bytes are and whether it succeeds or fails.\<close>

lemma msgpack_read_inside:
  "forward c (snd (mp_read v c)) \<and> forward c (snd (mp_skip_value c))"
  unfolding mp_skip_value_def
  by (cases v) (auto intro: map_io_forward mp_read_int_forward mp_read_uint_forward
      mp_read_other_forward mp_skip_loop_forward)

end
