(* ===== verification/Cbor.thy ===== *)
theory Cbor
  imports Network_Items Float_Bits "HOL-Library.While_Combinator"
begin

text \<open>
  CBOR (the definite-length core of RFC 8949): \<open>serialization/cbor.hpp\<close>. The major type sits in
  the top three bits of the head byte, a length or value of up to 64 bits behind it.
\<close>

subsection \<open>Helpers\<close>

definition cb_store_be16 :: "u16 \<Rightarrow> cursor \<Rightarrow> cursor" where
  "cb_store_be16 v c = cu_store (write_be (take 2 (cu_data c)) v) c"

definition cb_store_be32 :: "u32 \<Rightarrow> cursor \<Rightarrow> cursor" where
  "cb_store_be32 v c = cu_store (write_be (take 4 (cu_data c)) v) c"

definition cb_store_be64 :: "u64 \<Rightarrow> cursor \<Rightarrow> cursor" where
  "cb_store_be64 v c = cu_store (write_be (take 8 (cu_data c)) v) c"

definition cb_load_be16 :: "byte list \<Rightarrow> u16" where "cb_load_be16 src = read_be src"
definition cb_load_be32 :: "byte list \<Rightarrow> u32" where "cb_load_be32 src = read_be src"
definition cb_load_be64 :: "byte list \<Rightarrow> u64" where "cb_load_be64 src = read_be src"

definition cb_fits_prefixed :: "nat \<Rightarrow> nat \<Rightarrow> cursor \<Rightarrow> bool" where
  "cb_fits_prefixed head body c =
     (let remaining = cu_remaining c in head \<le> remaining \<and> body \<le> remaining - head)"

text \<open>Normalising a subnormal half: shift until the implicit bit shows, counting the shifts.\<close>

definition half_shift :: "u32 \<times> int \<Rightarrow> u32 \<times> int" where
  "half_shift = (\<lambda>(m, e). (push_bit 1 m, e + 1))"

definition half_normalize :: "u32 \<Rightarrow> u32 \<times> int" where
  "half_normalize mant = while (\<lambda>(m, e). m AND 0x400 = 0) half_shift (mant, - 1)"

definition half_to_double :: "u16 \<Rightarrow> u64" where
  "half_to_double h =
     (let ex = (ucast (drop_bit 10 h AND 0x1F) :: u32);
          mant = (ucast (h AND 0x3FF) :: u32);
          sign = (ucast (drop_bit 15 h AND 1) :: u32);
          f = push_bit 31 sign
      in f32_to_f64
          (if ex = 0 then
             if mant = 0 then f
             else
               let (m, e) = half_normalize mant; m' = m AND 0x3FF
               in f OR (push_bit 23 (word_of_int (127 - 15 - e)) OR push_bit 13 m')
           else if ex = 31 then f OR (push_bit 23 255 OR push_bit 13 mant)
           else f OR (push_bit 23 (ex + 127 - 15) OR push_bit 13 mant)))"

definition length_to_size :: "u64 \<Rightarrow> serialization_error + nat" where
  "length_to_size len = (if 2 ^ 64 - 1 < unat len then Inl Ser_string_too_long else Inr (unat len))"

subsection \<open>Writer\<close>

definition cb_head_size :: "u64 \<Rightarrow> nat" where
  "cb_head_size v =
     (if v \<le> 23 then 1 else if v \<le> 0xFF then 2 else if v \<le> 0xFFFF then 3
      else if v \<le> 0xFFFFFFFF then 5 else 9)"

definition cb_write_head :: "u8 \<Rightarrow> u64 \<Rightarrow> cursor \<Rightarrow> unit io" where
  "cb_write_head major v c =
     (let m = push_bit 5 major
      in if v \<le> 23 then
           if \<not> cu_has 1 c then (Inl Ser_buffer_full, c)
           else (Inr (), cu_put (m OR ucast v) c)
         else if v \<le> 0xFF then
           if \<not> cu_has 2 c then (Inl Ser_buffer_full, c)
           else (Inr (), cu_put (ucast v) (cu_put (m OR 24) c))
         else if v \<le> 0xFFFF then
           if \<not> cu_has 3 c then (Inl Ser_buffer_full, c)
           else (Inr (), cu_advance 2 (cb_store_be16 (ucast v) (cu_put (m OR 25) c)))
         else if v \<le> 0xFFFFFFFF then
           if \<not> cu_has 5 c then (Inl Ser_buffer_full, c)
           else (Inr (), cu_advance 4 (cb_store_be32 (ucast v) (cu_put (m OR 26) c)))
         else
           if \<not> cu_has 9 c then (Inl Ser_buffer_full, c)
           else (Inr (), cu_advance 8 (cb_store_be64 v (cu_put (m OR 27) c))))"

definition cb_write_uint :: "u64 \<Rightarrow> cursor \<Rightarrow> unit io" where
  "cb_write_uint v c = cb_write_head 0 v c"

definition cb_write_int :: "u64 \<Rightarrow> cursor \<Rightarrow> unit io" where
  "cb_write_int v c =
     (if 0 \<le> sint v then cb_write_head 0 v c else cb_write_head 1 (- (v + 1)) c)"

definition cb_write_bytes :: "byte list \<Rightarrow> cursor \<Rightarrow> unit io" where
  "cb_write_bytes s c =
     (if \<not> cb_fits_prefixed (cb_head_size (of_nat (length s))) (length s) c then (Inl Ser_buffer_full, c)
      else and_then (cb_write_head 2 (of_nat (length s)) c) (\<lambda>_ c. (Inr (), put_body s c)))"

definition cb_write_string :: "byte list \<Rightarrow> cursor \<Rightarrow> unit io" where
  "cb_write_string s c =
     (if \<not> cb_fits_prefixed (cb_head_size (of_nat (length s))) (length s) c then (Inl Ser_buffer_full, c)
      else and_then (cb_write_head 3 (of_nat (length s)) c) (\<lambda>_ c. (Inr (), put_body s c)))"

definition cb_write_array_header :: "u64 \<Rightarrow> cursor \<Rightarrow> unit io" where
  "cb_write_array_header n c = cb_write_head 4 n c"

definition cb_write_map_header :: "u64 \<Rightarrow> cursor \<Rightarrow> unit io" where
  "cb_write_map_header n c = cb_write_head 5 n c"

definition cb_write_bool :: "bool \<Rightarrow> cursor \<Rightarrow> unit io" where
  "cb_write_bool v c =
     (if \<not> cu_has 1 c then (Inl Ser_buffer_full, c)
      else (Inr (), cu_put (if v then 0xF5 else 0xF4) c))"

definition cb_write_null :: "cursor \<Rightarrow> unit io" where
  "cb_write_null c = (if \<not> cu_has 1 c then (Inl Ser_buffer_full, c) else (Inr (), cu_put 0xF6 c))"

definition cb_write_undefined :: "cursor \<Rightarrow> unit io" where
  "cb_write_undefined c = (if \<not> cu_has 1 c then (Inl Ser_buffer_full, c) else (Inr (), cu_put 0xF7 c))"

definition cb_write_float32 :: "u32 \<Rightarrow> cursor \<Rightarrow> unit io" where
  "cb_write_float32 v c =
     (if \<not> cu_has 5 c then (Inl Ser_buffer_full, c)
      else (Inr (), cu_advance 4 (cb_store_be32 v (cu_put 0xFA c))))"

definition cb_write_float64 :: "u64 \<Rightarrow> cursor \<Rightarrow> unit io" where
  "cb_write_float64 v c =
     (if \<not> cu_has 9 c then (Inl Ser_buffer_full, c)
      else (Inr (), cu_advance 8 (cb_store_be64 v (cu_put 0xFB c))))"

subsection \<open>Reader\<close>

datatype cb_type = Cb_t_unsigned_int | Cb_t_negative_int | Cb_t_byte_string | Cb_t_text_string
  | Cb_t_array_header | Cb_t_map_header | Cb_t_boolean | Cb_t_null | Cb_t_undefined | Cb_t_floating

definition cb_head :: "cursor \<Rightarrow> u8" where "cb_head c = cu_data c ! 0"

definition cb_read_argument :: "u8 \<Rightarrow> cursor \<Rightarrow> u64 io" where
  "cb_read_argument ai c =
     (if ai < 24 then (Inr (ucast ai), c)
      else if ai = 24 then
        if \<not> cu_has 1 c then (Inl Ser_buffer_underrun, c)
        else (case cu_next c of (b, c') \<Rightarrow> (Inr (ucast b), c'))
      else if ai = 25 then
        if \<not> cu_has 2 c then (Inl Ser_buffer_underrun, c)
        else (let v = cb_load_be16 (cu_data c) in (Inr (ucast v), cu_advance 2 c))
      else if ai = 26 then
        if \<not> cu_has 4 c then (Inl Ser_buffer_underrun, c)
        else (let v = cb_load_be32 (cu_data c) in (Inr (ucast v), cu_advance 4 c))
      else if ai = 27 then
        if \<not> cu_has 8 c then (Inl Ser_buffer_underrun, c)
        else (let v = cb_load_be64 (cu_data c) in (Inr v, cu_advance 8 c))
      else (Inl Ser_invalid_input, c))"

definition cb_peek_type :: "cursor \<Rightarrow> serialization_error + cb_type" where
  "cb_peek_type c =
     (if \<not> cu_has 1 c then Inl Ser_buffer_underrun
      else
        let b = cb_head c; mt = drop_bit 5 b; ai = b AND 0x1F
        in if mt = 0 then Inr Cb_t_unsigned_int
           else if mt = 1 then Inr Cb_t_negative_int
           else if mt = 2 then Inr Cb_t_byte_string
           else if mt = 3 then Inr Cb_t_text_string
           else if mt = 4 then Inr Cb_t_array_header
           else if mt = 5 then Inr Cb_t_map_header
           else if mt = 6 then Inl Ser_invalid_input
           else if mt = 7 then
             if ai = 20 \<or> ai = 21 then Inr Cb_t_boolean
             else if ai = 22 then Inr Cb_t_null
             else if ai = 23 then Inr Cb_t_undefined
             else if ai = 25 \<or> ai = 26 \<or> ai = 27 then Inr Cb_t_floating
             else Inl Ser_invalid_input
           else Inl Ser_invalid_input)"

definition cb_read_uint :: "cursor \<Rightarrow> u64 io" where
  "cb_read_uint c =
     (if \<not> cu_has 1 c then (Inl Ser_buffer_underrun, c)
      else
        let b = cb_head c
        in if drop_bit 5 b \<noteq> 0 then (Inl Ser_type_mismatch, c)
           else cb_read_argument (b AND 0x1F) (cu_advance 1 c))"

definition cb_read_int :: "cursor \<Rightarrow> u64 io" where
  "cb_read_int c =
     (if \<not> cu_has 1 c then (Inl Ser_buffer_underrun, c)
      else
        let b = cb_head c; mt = drop_bit 5 b
        in if mt \<noteq> 0 \<and> mt \<noteq> 1 then (Inl Ser_type_mismatch, c)
           else
             and_then (cb_read_argument (b AND 0x1F) (cu_advance 1 c)) (\<lambda>arg c.
               if mt = 0 then
                 if 0x7FFFFFFFFFFFFFFF < arg then (Inl Ser_type_mismatch, c) else (Inr arg, c)
               else if 0x7FFFFFFFFFFFFFFF < arg then (Inl Ser_type_mismatch, c)
               else (Inr (- arg - 1), c)))"

definition cb_read_string :: "cursor \<Rightarrow> byte list io" where
  "cb_read_string c =
     (if \<not> cu_has 1 c then (Inl Ser_buffer_underrun, c)
      else
        let b = cb_head c
        in if drop_bit 5 b \<noteq> 3 then (Inl Ser_type_mismatch, c)
           else
             and_then (cb_read_argument (b AND 0x1F) (cu_advance 1 c)) (\<lambda>n c.
               case length_to_size n of
                 Inl e \<Rightarrow> (Inl e, c)
               | Inr len \<Rightarrow>
                   if \<not> cu_has len c then (Inl Ser_buffer_underrun, c)
                   else (let sv = take len (cu_data c) in (Inr sv, cu_advance len c))))"

definition cb_read_bytes :: "cursor \<Rightarrow> byte list io" where
  "cb_read_bytes c =
     (if \<not> cu_has 1 c then (Inl Ser_buffer_underrun, c)
      else
        let b = cb_head c
        in if drop_bit 5 b \<noteq> 2 then (Inl Ser_type_mismatch, c)
           else
             and_then (cb_read_argument (b AND 0x1F) (cu_advance 1 c)) (\<lambda>n c.
               case length_to_size n of
                 Inl e \<Rightarrow> (Inl e, c)
               | Inr len \<Rightarrow>
                   if \<not> cu_has len c then (Inl Ser_buffer_underrun, c)
                   else (case cu_take len c of (out, c') \<Rightarrow> (Inr out, c'))))"

definition cb_read_array_header :: "cursor \<Rightarrow> u64 io" where
  "cb_read_array_header c =
     (if \<not> cu_has 1 c then (Inl Ser_buffer_underrun, c)
      else
        let b = cb_head c
        in if drop_bit 5 b \<noteq> 4 then (Inl Ser_type_mismatch, c)
           else cb_read_argument (b AND 0x1F) (cu_advance 1 c))"

definition cb_read_map_header :: "cursor \<Rightarrow> u64 io" where
  "cb_read_map_header c =
     (if \<not> cu_has 1 c then (Inl Ser_buffer_underrun, c)
      else
        let b = cb_head c
        in if drop_bit 5 b \<noteq> 5 then (Inl Ser_type_mismatch, c)
           else cb_read_argument (b AND 0x1F) (cu_advance 1 c))"

definition cb_read_bool :: "cursor \<Rightarrow> bool io" where
  "cb_read_bool c =
     (if \<not> cu_has 1 c then (Inl Ser_buffer_underrun, c)
      else
        let b = cb_head c
        in if b = 0xF4 then (Inr False, cu_advance 1 c)
           else if b = 0xF5 then (Inr True, cu_advance 1 c)
           else (Inl Ser_type_mismatch, c))"

definition cb_read_null :: "cursor \<Rightarrow> unit io" where
  "cb_read_null c =
     (if \<not> cu_has 1 c \<or> cb_head c \<noteq> 0xF6 then (Inl Ser_type_mismatch, c)
      else (Inr (), cu_advance 1 c))"

definition cb_read_undefined :: "cursor \<Rightarrow> unit io" where
  "cb_read_undefined c =
     (if \<not> cu_has 1 c \<or> cb_head c \<noteq> 0xF7 then (Inl Ser_type_mismatch, c)
      else (Inr (), cu_advance 1 c))"

definition cb_read_float :: "cursor \<Rightarrow> u64 io" where
  "cb_read_float c =
     (if \<not> cu_has 1 c then (Inl Ser_buffer_underrun, c)
      else
        let b = cb_head c
        in if b = 0xF9 then
             if \<not> cu_has 3 c then (Inl Ser_buffer_underrun, c)
             else (let c' = cu_advance 1 c; h = cb_load_be16 (cu_data c')
                   in (Inr (half_to_double h), cu_advance 2 c'))
           else if b = 0xFA then
             if \<not> cu_has 5 c then (Inl Ser_buffer_underrun, c)
             else (let c' = cu_advance 1 c; u = cb_load_be32 (cu_data c')
                   in (Inr (f32_to_f64 u), cu_advance 4 c'))
           else if b = 0xFB then
             if \<not> cu_has 9 c then (Inl Ser_buffer_underrun, c)
             else (let c' = cu_advance 1 c; u = cb_load_be64 (cu_data c')
                   in (Inr u, cu_advance 8 c'))
           else (Inl Ser_type_mismatch, c))"

text \<open>Skipping: what follows the head byte of one item.\<close>

definition cb_skip_n :: "u64 \<Rightarrow> nat \<Rightarrow> cursor \<Rightarrow> u64 io" where
  "cb_skip_n pending n c =
     (if \<not> cu_has n c then (Inl Ser_buffer_underrun, c) else (Inr pending, cu_advance n c))"

definition cb_skip_item :: "u8 \<Rightarrow> u64 \<Rightarrow> cursor \<Rightarrow> u64 io" where
  "cb_skip_item b pending c =
     (let mt = drop_bit 5 b; ai = b AND 0x1F
      in if mt = 0 \<or> mt = 1 then and_then (cb_read_argument ai c) (\<lambda>_ c. (Inr pending, c))
         else if mt = 2 \<or> mt = 3 then
           and_then (cb_read_argument ai c) (\<lambda>arg c.
             case length_to_size arg of
               Inl e \<Rightarrow> (Inl e, c)
             | Inr len \<Rightarrow> cb_skip_n pending len c)
         else if mt = 4 then
           and_then (cb_read_argument ai c) (\<lambda>arg c.
             if - 1 - pending < arg then (Inl Ser_buffer_underrun, c) else (Inr (pending + arg), c))
         else if mt = 5 then
           and_then (cb_read_argument ai c) (\<lambda>arg c.
             if - 1 div 2 < arg then (Inl Ser_buffer_underrun, c)
             else
               let items = arg * 2
               in if - 1 - pending < items then (Inl Ser_buffer_underrun, c) else (Inr (pending + items), c))
         else if mt = 7 then
           if ai = 20 \<or> ai = 21 \<or> ai = 22 \<or> ai = 23 then (Inr pending, c)
           else if ai = 24 then cb_skip_n pending 1 c
           else if ai = 25 then cb_skip_n pending 2 c
           else if ai = 26 then cb_skip_n pending 4 c
           else if ai = 27 then cb_skip_n pending 8 c
           else (Inl Ser_invalid_input, c)
         else (Inl Ser_invalid_input, c))"

lemma cb_read_argument_forward [simp]: "forward c (snd (cb_read_argument ai c))"
  by (simp add: cb_read_argument_def cu_next_advance Let_def)

lemma cb_skip_n_forward [simp]: "forward c (snd (cb_skip_n p n c))"
  by (simp add: cb_skip_n_def)

lemma cb_skip_item_forward [simp]: "forward c (snd (cb_skip_item b p c))"
  by (auto simp: cb_skip_item_def Let_def intro!: and_then_forward split: sum.split)

lemma cb_skip_item_remaining: "cb_skip_item b p (cu_advance 1 c) = (Inr q, c') \<Longrightarrow> cu_has 1 c \<Longrightarrow>
  cu_remaining c' < cu_remaining c"
  using cb_skip_item_forward [of "cu_advance 1 c" b p] forward_remaining [of "cu_advance 1 c" c']
  by (auto simp: cu_has_def)

function cb_skip_loop :: "u64 \<Rightarrow> cursor \<Rightarrow> unit io" where
  "cb_skip_loop pending c =
     (if pending = 0 then (Inr (), c)
      else if \<not> cu_has 1 c then (Inl Ser_buffer_underrun, c)
      else
        let b = cb_head c
        in and_then (cb_skip_item b (pending - 1) (cu_advance 1 c)) cb_skip_loop)"
  by pat_completeness auto
termination
  by (relation "measure (\<lambda>(p, c). cu_remaining c)") (auto simp: cb_skip_item_remaining)

declare cb_skip_loop.simps [simp del]

definition cb_skip_value :: "cursor \<Rightarrow> unit io" where
  "cb_skip_value c = cb_skip_loop 1 c"

subsection \<open>The encoding of an item\<close>

datatype cb_value =
    Cb_uint u64 | Cb_int u64 | Cb_bytes "byte list" | Cb_string "byte list" | Cb_array u64 | Cb_map u64
  | Cb_bool bool | Cb_null | Cb_undefined | Cb_float32 u32 | Cb_float64 u64

definition cb_head_enc :: "u8 \<Rightarrow> u64 \<Rightarrow> byte list" where
  "cb_head_enc major v =
     (let m = push_bit 5 major
      in if v \<le> 23 then [m OR ucast v]
         else if v \<le> 0xFF then [m OR 24, ucast v]
         else if v \<le> 0xFFFF then (m OR 25) # be_bytes (ucast v :: u16)
         else if v \<le> 0xFFFFFFFF then (m OR 26) # be_bytes (ucast v :: u32)
         else (m OR 27) # be_bytes v)"

fun cb_enc :: "cb_value \<Rightarrow> byte list" where
  "cb_enc (Cb_uint v) = cb_head_enc 0 v"
| "cb_enc (Cb_int v) = (if 0 \<le> sint v then cb_head_enc 0 v else cb_head_enc 1 (- (v + 1)))"
| "cb_enc (Cb_bytes s) = cb_head_enc 2 (of_nat (length s)) @ s"
| "cb_enc (Cb_string s) = cb_head_enc 3 (of_nat (length s)) @ s"
| "cb_enc (Cb_array n) = cb_head_enc 4 n"
| "cb_enc (Cb_map n) = cb_head_enc 5 n"
| "cb_enc (Cb_bool v) = [if v then 0xF5 else 0xF4]"
| "cb_enc Cb_null = [0xF6]"
| "cb_enc Cb_undefined = [0xF7]"
| "cb_enc (Cb_float32 v) = 0xFA # be_bytes v"
| "cb_enc (Cb_float64 v) = 0xFB # be_bytes v"

text \<open>The lengths a \<open>std::size_t\<close> can hold.\<close>

fun cb_fits :: "cb_value \<Rightarrow> bool" where
  "cb_fits (Cb_bytes s) = (length s < 2 ^ 64)"
| "cb_fits (Cb_string s) = (length s < 2 ^ 64)"
| "cb_fits v = True"

fun cb_write :: "cb_value \<Rightarrow> cursor \<Rightarrow> unit io" where
  "cb_write (Cb_uint v) = cb_write_uint v"
| "cb_write (Cb_int v) = cb_write_int v"
| "cb_write (Cb_bytes s) = cb_write_bytes s"
| "cb_write (Cb_string s) = cb_write_string s"
| "cb_write (Cb_array n) = cb_write_array_header n"
| "cb_write (Cb_map n) = cb_write_map_header n"
| "cb_write (Cb_bool v) = cb_write_bool v"
| "cb_write Cb_null = cb_write_null"
| "cb_write Cb_undefined = cb_write_undefined"
| "cb_write (Cb_float32 v) = cb_write_float32 v"
| "cb_write (Cb_float64 v) = cb_write_float64 v"

fun cb_read :: "cb_value \<Rightarrow> cursor \<Rightarrow> cb_value io" where
  "cb_read (Cb_uint _) c = map_io Cb_uint (cb_read_uint c)"
| "cb_read (Cb_int _) c = map_io Cb_int (cb_read_int c)"
| "cb_read (Cb_bytes _) c = map_io Cb_bytes (cb_read_bytes c)"
| "cb_read (Cb_string _) c = map_io Cb_string (cb_read_string c)"
| "cb_read (Cb_array _) c = map_io Cb_array (cb_read_array_header c)"
| "cb_read (Cb_map _) c = map_io Cb_map (cb_read_map_header c)"
| "cb_read (Cb_bool _) c = map_io Cb_bool (cb_read_bool c)"
| "cb_read Cb_null c = map_io (\<lambda>_. Cb_null) (cb_read_null c)"
| "cb_read Cb_undefined c = map_io (\<lambda>_. Cb_undefined) (cb_read_undefined c)"
| "cb_read (Cb_float32 _) c = map_io Cb_float64 (cb_read_float c)"
| "cb_read (Cb_float64 _) c = map_io Cb_float64 (cb_read_float c)"

fun cb_seen :: "cb_value \<Rightarrow> cb_value" where
  "cb_seen (Cb_float32 v) = Cb_float64 (f32_to_f64 v)"
| "cb_seen v = v"

fun cb_arity :: "cb_value \<Rightarrow> nat" where
  "cb_arity (Cb_array n) = unat n"
| "cb_arity (Cb_map n) = 2 * unat n"
| "cb_arity v = 0"

subsection \<open>Writers write the encoding, or nothing\<close>

lemma cb_store_load [simp]:
  "cb_store_be16 = store_be16" "cb_store_be32 = store_be32" "cb_store_be64 = store_be64"
  "cb_load_be16 = load_be16" "cb_load_be32 = load_be32" "cb_load_be64 = load_be64"
  "cb_fits_prefixed = fits_prefixed"
  by (simp_all add: fun_eq_iff cb_store_be16_def cb_store_be32_def cb_store_be64_def store_be16_def
      store_be32_def store_be64_def cb_load_be16_def cb_load_be32_def cb_load_be64_def load_be16_def
      load_be32_def load_be64_def cb_fits_prefixed_def fits_prefixed_def)

lemma cb_head_size_enc: "cb_head_size v = length (cb_head_enc m v)"
  by (simp add: cb_head_size_def cb_head_enc_def Let_def)

lemma cb_write_head_enc: "cursor_ok c \<Longrightarrow> cb_write_head m v c =
  (if cu_has (length (cb_head_enc m v)) c then (Inr (), put_bytes (cb_head_enc m v) c) else (Inl Ser_buffer_full, c))"
  by (simp add: cb_write_head_def cb_head_enc_def Let_def put_items nat_numerals)

lemma cb_write_body:
  assumes "cursor_ok c"
  shows "(if \<not> fits_prefixed (cb_head_size v) (length s) c then (Inl Ser_buffer_full, c)
      else and_then (cb_write_head m v c) (\<lambda>_ c. (Inr (), put_body s c))) =
    (if cu_has (length (cb_head_enc m v @ s)) c then (Inr (), put_bytes (cb_head_enc m v @ s) c)
      else (Inl Ser_buffer_full, c))"
  using assms cu_has_prefix(1) [of "length (cb_head_enc m v)" "length s" c]
  by (simp add: fits_prefixed_has cb_head_size_enc [of v m] cb_write_head_enc put_body_bytes)

lemma cb_write_enc: "cursor_ok c \<Longrightarrow> cb_write v c =
  (if cu_has (length (cb_enc v)) c then (Inr (), put_bytes (cb_enc v) c) else (Inl Ser_buffer_full, c))"
  using cb_write_body [of c]
  by (cases v) (simp_all add: cb_write_uint_def cb_write_int_def cb_write_bytes_def cb_write_string_def
      cb_write_array_header_def cb_write_map_header_def cb_write_bool_def cb_write_null_def
      cb_write_undefined_def cb_write_float32_def cb_write_float64_def cb_write_head_enc put_items)

subsection \<open>Readers read it back\<close>

lemma head_byte:
  assumes "major < 8" and "ai < 32"
  shows "drop_bit 5 (push_bit 5 major OR ai :: u8) = major" and "(push_bit 5 major OR ai :: u8) AND 0x1F = ai"
proof -
  let ?P = "\<lambda>m a. drop_bit 5 (push_bit 5 m OR a :: u8) = m \<and> (push_bit 5 m OR a :: u8) AND 0x1F = a"
  have "list_all (\<lambda>m. list_all (\<lambda>a. ?P (of_nat m) (of_nat a)) [0..<32]) [0..<8]" by code_simp
  then have all: "m < 8 \<Longrightarrow> a < 32 \<Longrightarrow> ?P (of_nat m) (of_nat a)" for m a
    unfolding list_all_iff by (metis atLeastLessThan_iff set_upt le0)
  have "unat major < 8" "unat ai < 32" using assms by (simp_all add: word_less_nat_alt)
  from all [OF this] show "drop_bit 5 (push_bit 5 major OR ai :: u8) = major"
    "(push_bit 5 major OR ai :: u8) AND 0x1F = ai" by (simp_all only: of_nat_unat ucast_id)
qed

lemma argument_word:
  "cu_data c = a # be_bytes u @ ys \<Longrightarrow> cu_has 2 (cu_advance 1 c) \<and> load_be16 (cu_data (cu_advance 1 c)) = (u :: u16)"
  "cu_data c = a # be_bytes v @ ys \<Longrightarrow> cu_has 4 (cu_advance 1 c) \<and> load_be32 (cu_data (cu_advance 1 c)) = (v :: u32)"
  "cu_data c = a # be_bytes w @ ys \<Longrightarrow> cu_has 8 (cu_advance 1 c) \<and> load_be64 (cu_data (cu_advance 1 c)) = (w :: u64)"
  by (simp_all add: cu_data_tail cu_data_tail [simplified One_nat_def] cu_has_data load_be16_def load_be32_def load_be64_def)

lemma cb_read_argument_enc:
  assumes "cu_data c = cb_head_enc m v @ ys" and m: "m < 8"
  shows "\<exists>b t. cb_head_enc m v = b # t \<and> drop_bit 5 b = m \<and>
    cb_read_argument (b AND 0x1F) (cu_advance 1 c) = (Inr v, cu_advance (length (cb_head_enc m v)) c)"
proof -
  consider (small) "v \<le> 23" | (a8) "\<not> v \<le> 23" "v \<le> 0xFF" | (a16) "\<not> v \<le> 23" "\<not> v \<le> 0xFF" "v \<le> 0xFFFF"
    | (a32) "\<not> v \<le> 23" "\<not> v \<le> 0xFF" "\<not> v \<le> 0xFFFF" "v \<le> 0xFFFFFFFF"
    | (a64) "\<not> v \<le> 23" "\<not> v \<le> 0xFF" "\<not> v \<le> 0xFFFF" "\<not> v \<le> 0xFFFFFFFF" by blast
  then show ?thesis
  proof cases
    case small
    then have less: "unat v < 2 ^ LENGTH(8)" by (simp add: word_le_nat_alt)
    then have u: "unat (ucast v :: u8) = unat v" by (simp add: unsigned_ucast_eq take_bit_nat_eq_self)
    with small have "(ucast v :: u8) < 24" "(ucast v :: u8) < 32" by (simp_all add: word_le_nat_alt word_less_nat_alt)
    with small head_byte [OF m, of "ucast v"] ucast_ucast_small [OF less] show ?thesis
      by (simp add: cb_head_enc_def Let_def cb_read_argument_def)
  next
    case a8
    then have "ucast (ucast v :: u8) = v" by (intro ucast_ucast_small) (simp add: word_le_nat_alt)
    moreover have "cu_data c = (push_bit 5 m OR 24) # ucast v # ys"
      using assms(1) a8 by (simp add: cb_head_enc_def Let_def)
    then have "cu_data (cu_advance 1 c) = ucast v # ys" by (rule cu_data_tail)
    ultimately show ?thesis using a8 head_byte [OF m, of 24]
      by (simp add: cb_head_enc_def Let_def cb_read_argument_def has_one cu_next_cons nat_numerals)
  next
    case a16
    then have "ucast (ucast v :: u16) = v" by (intro ucast_ucast_small) (simp add: word_le_nat_alt)
    moreover have "cu_data c = (push_bit 5 m OR 25) # be_bytes (ucast v :: u16) @ ys"
      using assms(1) a16 by (simp add: cb_head_enc_def Let_def)
    note argument_word(1) [OF this]
    ultimately show ?thesis using a16 head_byte [OF m, of 25]
      by (simp add: cb_head_enc_def Let_def cb_read_argument_def)
  next
    case a32
    then have "ucast (ucast v :: u32) = v" by (intro ucast_ucast_small) (simp add: word_le_nat_alt)
    moreover have "cu_data c = (push_bit 5 m OR 26) # be_bytes (ucast v :: u32) @ ys"
      using assms(1) a32 by (simp add: cb_head_enc_def Let_def)
    note argument_word(2) [OF this]
    ultimately show ?thesis using a32 head_byte [OF m, of 26]
      by (simp add: cb_head_enc_def Let_def cb_read_argument_def)
  next
    case a64
    then have "cu_data c = (push_bit 5 m OR 27) # be_bytes v @ ys"
      using assms(1) by (simp add: cb_head_enc_def Let_def)
    note argument_word(3) [OF this]
    with a64 show ?thesis using head_byte [OF m, of 27]
      by (simp add: cb_head_enc_def Let_def cb_read_argument_def)
  qed
qed

lemma cb_head_data: "cu_data c = b # ys \<Longrightarrow> cb_head c = b"
  by (simp add: cb_head_def)

text \<open>Every reader of a head: the test of the major type, then the argument.\<close>

lemma cb_head_ok:
  assumes "cu_data c = cb_head_enc m v @ ys" and m: "m < 8"
  shows "cu_has 1 c \<and> drop_bit 5 (cb_head c) = m \<and>
    cb_read_argument (cb_head c AND 0x1F) (cu_advance 1 c) = (Inr v, cu_advance (length (cb_head_enc m v)) c)"
  using cb_read_argument_enc [OF assms] assms(1) by (auto simp: cb_head_data has_one)

lemma cb_read_int_enc:
  assumes "cu_data c = cb_enc (Cb_int v) @ ys"
  shows "cb_read_int c = (Inr v, cu_advance (length (cb_enc (Cb_int v))) c)"
proof (cases "0 \<le> sint v")
  case True
  then have "uint v < 2 ^ 63" using sint_lt [of v] by (simp add: sint_nonneg)
  then have "\<not> 0x7FFFFFFFFFFFFFFF < v" by (simp add: word_less_def)
  with True cb_head_ok [of c 0 v ys] assms show ?thesis by (simp add: cb_read_int_def)
next
  case False
  let ?n = "- (v + 1)"
  have range: "0 \<le> - sint v - 1" "- sint v - 1 < 2 ^ 63" using False sint_ge [of v] by auto
  have "?n = word_of_int (- sint v - 1)" by simp
  moreover have "uint (word_of_int (- sint v - 1) :: u64) = take_bit 64 (- sint v - 1)"
    by (subst uint_word_of_int_eq) simp
  ultimately have "uint ?n = take_bit 64 (- sint v - 1)" by (simp only:)
  also have "\<dots> = - sint v - 1" using range by (intro take_bit_int_eq_self) auto
  finally have "\<not> 0x7FFFFFFFFFFFFFFF < ?n" using range by (simp add: word_less_def)
  moreover have "- ?n - 1 = v" by simp
  moreover have "cu_data c = cb_head_enc 1 ?n @ ys" using False assms by simp
  note cb_head_ok [OF this]
  ultimately show ?thesis using False unfolding cb_read_int_def by (simp add: Let_def del: minus_add_distrib)
qed

lemma cb_read_body:
  assumes "cu_data c = cb_head_enc m (of_nat (length s)) @ s @ ys" and "length s < 2 ^ 64" and "m < 8"
  shows "cb_read_argument (cb_head c AND 0x1F) (cu_advance 1 c) =
      (Inr (of_nat (length s)), cu_advance (length (cb_head_enc m (of_nat (length s)))) c)"
    and "length_to_size (of_nat (length s)) = Inr (length s)"
    and "cu_has 1 c" and "drop_bit 5 (cb_head c) = m"
    and "cu_has (length s) (cu_advance (length (cb_head_enc m (of_nat (length s)))) c)"
    and "take (length s) (cu_data (cu_advance (length (cb_head_enc m (of_nat (length s)))) c)) = s"
  using cb_head_ok [OF assms(1,3)] cu_data_advance [OF assms(1)] assms(2)
  by (simp_all add: length_to_size_def unat_of_nat_less cu_has_data)

lemma cb_read_enc:
  assumes "cu_data c = cb_enc v @ ys" and "cb_fits v"
  shows "cb_read v c = (Inr (cb_seen v), cu_advance (length (cb_enc v)) c)"
proof (cases v)
  case (Cb_int w)
  with assms cb_read_int_enc [of c w ys] show ?thesis by (simp add: map_io_def del: cb_enc.simps)
next
  case (Cb_bytes s)
  with assms have d: "cu_data c = cb_head_enc 2 (of_nat (length s)) @ s @ ys" and n: "length s < 2 ^ 64" by simp_all
  have m: "(2 :: u8) < 8" by simp
  from cb_read_body [OF d n m] Cb_bytes show ?thesis
    by (simp add: map_io_def cb_read_bytes_def cu_take_advance)
next
  case (Cb_string s)
  with assms have d: "cu_data c = cb_head_enc 3 (of_nat (length s)) @ s @ ys" and n: "length s < 2 ^ 64" by simp_all
  have m: "(3 :: u8) < 8" by simp
  from cb_read_body [OF d n m] Cb_string show ?thesis
    by (simp add: map_io_def cb_read_string_def)
next
  case (Cb_uint w)
  with assms cb_head_ok [of c 0 w ys] show ?thesis by (simp add: map_io_def cb_read_uint_def)
next
  case (Cb_array n)
  with assms cb_head_ok [of c 4 n ys] show ?thesis by (simp add: map_io_def cb_read_array_header_def)
next
  case (Cb_map n)
  with assms cb_head_ok [of c 5 n ys] show ?thesis by (simp add: map_io_def cb_read_map_header_def)
next
  case (Cb_float32 w)
  with assms argument_word(2) [of c "0xFA" w ys] show ?thesis
    by (simp add: map_io_def cb_read_float_def cb_head_data has_one cu_has_data Let_def)
next
  case (Cb_float64 w)
  with assms argument_word(3) [of c "0xFB" w ys] show ?thesis
    by (simp add: map_io_def cb_read_float_def cb_head_data has_one cu_has_data Let_def)
qed (use assms in \<open>auto simp: map_io_def cb_read_bool_def cb_read_null_def cb_read_undefined_def
      cb_head_data has_one\<close>)

lemma cb_write_unfit: "\<not> cb_fits v \<Longrightarrow> length (cu_buf c) < 2 ^ 64 \<Longrightarrow> cb_write v c = (Inl Ser_buffer_full, c)"
proof -
  assume n: "length (cu_buf c) < 2 ^ 64"
  have "2 ^ 64 \<le> m \<Longrightarrow> \<not> cu_has (k + m) c" for k m
    using n by (simp add: cu_has_def cu_remaining_def)
  then show "\<not> cb_fits v \<Longrightarrow> cb_write v c = (Inl Ser_buffer_full, c)"
    by (cases v) (simp_all add: cb_write_bytes_def cb_write_string_def fits_prefixed_has)
qed

interpretation cbor: item_codec cb_write cb_read cb_enc cb_fits cb_seen Ser_buffer_full
proof unfold_locales
  show "cursor_ok c \<Longrightarrow> cb_fits v \<Longrightarrow> cb_write v c =
      (if cu_has (length (cb_enc v)) c then (Inr (), put_bytes (cb_enc v) c) else (Inl Ser_buffer_full, c))" for c v
    by (rule cb_write_enc)
  show "\<not> cb_fits v \<Longrightarrow> length (cu_buf c) < 2 ^ 64 \<Longrightarrow> \<exists>e. cb_write v c = (Inl e, c)" for v c
    using cb_write_unfit by blast
  show "cu_data c = cb_enc v @ ys \<Longrightarrow> cb_fits v \<Longrightarrow>
      cb_read v c = (Inr (cb_seen v), cu_advance (length (cb_enc v)) c)" for c v ys
    by (rule cb_read_enc)
qed

subsection \<open>Skipping a value\<close>

lemma not_wrapping: "unat q + unat a < 2 ^ 64 \<Longrightarrow> \<not> - 1 - q < (a :: u64)"
proof -
  assume "unat q + unat a < 2 ^ 64"
  moreover have "unat (- 1 - q) = 2 ^ 64 - 1 - unat q"
    using unat_sub [of q "- 1"] by (simp add: unat_max)
  ultimately show ?thesis by (simp add: word_less_nat_alt)
qed

lemma of_nat_twice: "of_nat (2 * unat a) = a * (2 :: u64)"
  by simp

lemma cb_skip_enc:
  assumes "cu_data c = cb_enc v @ ys" and "cb_fits v" and "unat q + cb_arity v < 2 ^ 64"
  shows "cu_has 1 c \<and> cb_skip_item (cb_head c) q (cu_advance 1 c) =
    (Inr (q + of_nat (cb_arity v)), cu_advance (length (cb_enc v)) c)"
proof (cases v)
  case (Cb_bytes s)
  with assms have d: "cu_data c = cb_head_enc 2 (of_nat (length s)) @ s @ ys" and n: "length s < 2 ^ 64" by simp_all
  have m: "(2 :: u8) < 8" by simp
  from cb_read_body [OF d n m] Cb_bytes show ?thesis
    by (simp add: cb_skip_item_def cb_skip_n_def Let_def)
next
  case (Cb_string s)
  with assms have d: "cu_data c = cb_head_enc 3 (of_nat (length s)) @ s @ ys" and n: "length s < 2 ^ 64" by simp_all
  have m: "(3 :: u8) < 8" by simp
  from cb_read_body [OF d n m] Cb_string show ?thesis
    by (simp add: cb_skip_item_def cb_skip_n_def Let_def)
next
  case (Cb_uint w)
  with assms cb_head_ok [of c 0 w ys] show ?thesis by (simp add: cb_skip_item_def Let_def)
next
  case (Cb_int w)
  with assms cb_head_ok [of c 0 w ys] cb_head_ok [of c 1 "- (w + 1)" ys] show ?thesis
    by (simp add: cb_skip_item_def Let_def del: minus_add_distrib)
next
  case (Cb_array n)
  with assms cb_head_ok [of c 4 n ys] not_wrapping [of q n] show ?thesis
    by (simp add: cb_skip_item_def Let_def)
next
  case (Cb_map n)
  have "unat n < 2 ^ 63" using assms(3) Cb_map by simp
  then have half: "\<not> 0x7FFFFFFFFFFFFFFF < n" by (simp add: word_less_nat_alt)
  have "unat (n * 2) = 2 * unat n"
    using \<open>unat n < 2 ^ 63\<close> by (simp add: unat_word_ariths)
  with assms(3) Cb_map have "\<not> - 1 - q < n * 2" by (intro not_wrapping) simp
  with half Cb_map assms cb_head_ok [of c 5 n ys] show ?thesis
    by (simp add: cb_skip_item_def Let_def half_max mult.commute)
qed (use assms in \<open>auto simp: cb_skip_item_def cb_skip_n_def cb_head_data has_one cu_has_advance
      cu_remaining_data Let_def\<close>)

interpretation cbor_skip: skippable_codec cb_write cb_read cb_enc cb_fits cb_seen Ser_buffer_full
  cb_skip_loop cb_arity
proof unfold_locales
  show "cb_enc v \<noteq> []" for v by (cases v) (simp_all add: cb_head_enc_def Let_def)
  show "cb_skip_loop 0 c = (Inr (), c)" for c by (simp add: cb_skip_loop.simps [of 0])
  fix p :: u64 and c v ys
  assume p: "p \<noteq> 0" and d: "cu_data c = cb_enc v @ ys" and v: "cb_fits v"
    and small: "unat (p - 1) + cb_arity v < 2 ^ 64"
  from cb_skip_enc [OF d v small] p
  show "cb_skip_loop p c = cb_skip_loop (p - 1 + of_nat (cb_arity v)) (cu_advance (length (cb_enc v)) c)"
    by (simp add: cb_skip_loop.simps [of p] Let_def)
qed

subsection \<open>Properties\<close>

text \<open>C19: CBOR round trip: a stream of items the writer accepted in full is read back, each item by
  the reader of its kind, with the values that were written and nothing left over.\<close>

theorem cbor_stream_round_trip:
  assumes "length buf < 2 ^ 64" and "write_seq cb_write vs (cu_make buf) = (Inr (), c)"
  shows "\<exists>c'. read_seq cb_read vs (cu_make (cu_consumed c)) = (Inr (map cb_seen vs), c') \<and> cu_exhausted c'"
  using assms by (rule cbor.stream_round_trip)

lemma cbor_stream_round_trip_witness:
  "\<exists>c'. read_seq cb_read [Cb_int (- 500), Cb_bool True]
     (cu_make (cu_consumed (put_bytes [0x39, 0x01, 0xF3, 0xF5] (cu_make [0, 0, 0, 0, 0])))) =
     (Inr (map cb_seen [Cb_int (- 500), Cb_bool True]), c') \<and> cu_exhausted c'"
  by (rule cbor_stream_round_trip [where buf = "[0, 0, 0, 0, 0]"]) (simp, code_simp)

text \<open>Skipping a CBOR value terminates and passes exactly one value: when the items at the cursor
  form one complete value, however deeply arrays and maps nest, \<open>skip_value\<close> succeeds and stops right
  behind its last byte.\<close>

lemma cbor_skip_value_exact:
  assumes "closes cb_arity 1 vs" and "list_all cb_fits vs"
    and "cu_data c = concat (map cb_enc vs) @ ys" and "length (concat (map cb_enc vs)) < 2 ^ 64"
  shows "cb_skip_value c = (Inr (), cu_advance (length (concat (map cb_enc vs))) c)"
  unfolding cb_skip_value_def using assms by (intro cbor_skip.skip_closed) simp_all

subsection \<open>Subnormal halves\<close>

lemma half_bit10: "unat m < 2048 \<Longrightarrow> m AND 0x400 = 0 \<longleftrightarrow> unat m < 1024" for m :: u32
proof -
  assume m: "unat m < 2048"
  have "m AND 0x400 = 0 \<longleftrightarrow> \<not> bit m 10"
    using and_exp_eq_0_iff_not_bit [of m 10] by simp
  also have "bit m 10 \<longleftrightarrow> bit (unat m) 10" by (simp add: bit_unsigned_iff)
  also have "bit (unat m) 10 \<longleftrightarrow> odd (unat m div 2 ^ 10)" by (rule bit_iff_odd)
  also have "odd (unat m div 2 ^ 10) \<longleftrightarrow> 1024 \<le> unat m"
  proof (cases "1024 \<le> unat m")
    case True
    then have "unat m div 2 ^ 10 = 1" using m by (intro div_nat_eqI) simp_all
    with True show ?thesis by simp
  qed simp
  finally show ?thesis by (simp add: not_le)
qed

lemma unat_double: "unat m < 1024 \<Longrightarrow> unat (push_bit 1 m) = 2 * unat m" for m :: u32
  by (simp add: push_bit_eq_mult unat_word_ariths)

text \<open>The loop that normalises a subnormal half ends for every mantissa it is started with, and
  leaves the mantissa shifted so that the implicit bit is its top bit, with the number of shifts
  counted in the exponent.\<close>

lemma half_normalize_terminates:
  assumes "mant \<noteq> 0" and "mant < 0x400"
  shows "\<exists>m e. while_option (\<lambda>(m, e). m AND 0x400 = 0) half_shift (mant, - 1) = Some (m, e) \<and>
    half_normalize mant = (m, e) \<and> 0x400 \<le> m \<and> m < 0x800 \<and> - 1 \<le> e \<and>
    unat m = unat mant * 2 ^ nat (e + 1)"
proof -
  let ?b = "\<lambda>(m :: u32, e :: int). m AND 0x400 = 0"
  let ?P = "\<lambda>(m :: u32, e :: int). 0 < unat m \<and> unat m < 2048 \<and> - 1 \<le> e \<and> unat m = unat mant * 2 ^ nat (e + 1)"
  let ?f = "\<lambda>(m :: u32, e :: int). 2048 - unat m"
  have step: "?P (half_shift s) \<and> ?f (half_shift s) < ?f s" if "?P s" "?b s" for s
  proof -
    obtain m e where s: "s = (m, e)" by (cases s)
    have m: "unat m < 1024" using that half_bit10 [of m] by (simp add: s)
    then have d: "unat (push_bit 1 m) = 2 * unat m" by (rule unat_double)
    have P: "0 < unat m \<and> unat m < 2048 \<and> - 1 \<le> e \<and> unat m = unat mant * 2 ^ nat (e + 1)"
      using that(1) unfolding s prod.case .
    then have e: "- 1 \<le> e" and pos: "0 < unat m" and eq: "unat m = unat mant * 2 ^ nat (e + 1)"
      by blast+
    have "nat (e + 1 + 1) = Suc (nat (e + 1))" using e by arith
    then have "unat (push_bit 1 m) = unat mant * 2 ^ nat (e + 1 + 1)" using d eq by simp
    moreover have "2048 - 2 * unat m < 2048 - unat m" using m pos by linarith
    ultimately show ?thesis unfolding s half_shift_def prod.case using e pos m d by linarith
  qed
  have start: "?P (mant, - 1)"
    using assms by (simp add: word_less_nat_alt unat_eq_0)
  obtain t where t: "while_option ?b half_shift (mant, - 1) = Some t"
    using measure_while_option_Some [where P = ?P and b = ?b and c = half_shift and f = ?f, OF step start] by auto
  obtain m e where me: "t = (m, e)" by (cases t)
  have "?P t" by (rule while_option_rule [where P = ?P, OF conjunct1 [OF step] t start])
  moreover have "\<not> ?b t" using while_option_stop [OF t] .
  moreover have "half_normalize mant = t" using t by (simp add: half_normalize_def while_def)
  ultimately have P: "0 < unat m \<and> unat m < 2048 \<and> - 1 \<le> e \<and> unat m = unat mant * 2 ^ nat (e + 1)"
    and b: "m AND 0x400 \<noteq> 0" and n: "half_normalize mant = (m, e)"
    unfolding me prod.case by blast+
  have "0x400 \<le> m" "m < 0x800"
    using P b half_bit10 [of m] by (simp_all add: word_le_nat_alt word_less_nat_alt)
  with t n P show ?thesis unfolding me by blast
qed

end
