(* ===== verification/Binary_Stream.thy ===== *)
theory Binary_Stream
  imports Network_Items
begin

text \<open>
  The plain binary stream: \<open>serialization/binary/writer.hpp\<close> and \<open>reader.hpp\<close>. Values are stored
  little endian whatever the host: on a little-endian host the object representation that
  \<open>memcpy\<close> copies is \<open>le_bytes\<close>, on another the code reverses it to the same bytes. Signed
  integers and floats are their bit patterns.
\<close>

subsection \<open>Writer\<close>

definition bw_fits_prefixed :: "nat \<Rightarrow> nat \<Rightarrow> cursor \<Rightarrow> bool" where
  "bw_fits_prefixed prefix body c =
     (let remaining = cu_remaining c in prefix \<le> remaining \<and> body \<le> remaining - prefix)"

lemma shift_less: "0x80 \<le> v \<Longrightarrow> unat (drop_bit 7 v) < unat v" for v :: u64
  by (simp add: word_le_nat_alt drop_bit_eq_div unat_div)

function varint_size :: "u64 \<Rightarrow> nat" where
  "varint_size value = (if 0x80 \<le> value then varint_size (drop_bit 7 value) + 1 else 1)"
  by pat_completeness auto
termination by (relation "measure unat") (auto simp: shift_less)

declare varint_size.simps [simp del]

definition bw_skip :: "nat \<Rightarrow> cursor \<Rightarrow> unit io" where
  "bw_skip n c = (if \<not> cu_has n c then (Inl Ser_buffer_full, c) else (Inr (), cu_advance n c))"

definition bw_write :: "'a::len word \<Rightarrow> cursor \<Rightarrow> unit io" where
  "bw_write value c =
     (if \<not> cu_has (size_of TYPE('a word)) c then (Inl Ser_buffer_full, c)
      else (Inr (), cu_advance (size_of TYPE('a word)) (cu_store (le_bytes value) c)))"

definition bw_write_bool :: "bool \<Rightarrow> cursor \<Rightarrow> unit io" where
  "bw_write_bool b = bw_write (if b then 1 else 0 :: u8)"

definition bw_write_bytes :: "byte list \<Rightarrow> cursor \<Rightarrow> unit io" where
  "bw_write_bytes bs c =
     (if \<not> cu_has (length bs) c then (Inl Ser_buffer_full, c)
      else (Inr (), cu_advance (length bs) (if bs \<noteq> [] then cu_store bs c else c)))"

definition bw_write_array :: "'a::len word list \<Rightarrow> cursor \<Rightarrow> unit io" where
  "bw_write_array xs c =
     (if cu_remaining c div size_of TYPE('a word) < length xs then (Inl Ser_buffer_full, c)
      else
        let n = length xs * size_of TYPE('a word)
        in (Inr (), cu_advance n (if n \<noteq> 0 then cu_store (concat (map le_bytes xs)) c else c)))"

text \<open>The loop that puts a varint, shared by \<open>write_varint\<close> and the string length.\<close>

function put_varint :: "u64 \<Rightarrow> cursor \<Rightarrow> cursor" where
  "put_varint value c =
     (if 0x80 \<le> value then put_varint (drop_bit 7 value) (cu_put (ucast (value AND 0x7F OR 0x80)) c)
      else cu_put (ucast value) c)"
  by pat_completeness auto
termination by (relation "measure (\<lambda>(v, c). unat v)") (auto simp: shift_less)

declare put_varint.simps [simp del]

definition bw_write_varint :: "u64 \<Rightarrow> cursor \<Rightarrow> unit io" where
  "bw_write_varint value c =
     (let n = varint_size value
      in if \<not> cu_has n c then (Inl Ser_buffer_full, c) else (Inr (), put_varint value c))"

definition bw_write_zigzag :: "u64 \<Rightarrow> cursor \<Rightarrow> unit io" where
  "bw_write_zigzag value c = (let u = push_bit 1 value XOR signed_drop_bit 63 value in bw_write_varint u c)"

definition bw_write_string :: "byte list \<Rightarrow> cursor \<Rightarrow> unit io" where
  "bw_write_string s c =
     (if 0xFFFFFFFF < length s then (Inl Ser_string_too_long, c)
      else
        let len_n = varint_size (of_nat (length s))
        in if \<not> bw_fits_prefixed len_n (length s) c then (Inl Ser_buffer_full, c)
           else
             let c' = put_varint (of_nat (length s)) c
             in (Inr (), cu_advance (length s) (if s \<noteq> [] then cu_store s c' else c')))"

subsection \<open>Reader\<close>

definition default_max_string_size :: nat where "default_max_string_size = 64 * 1024 * 1024"

definition br_seek :: "nat \<Rightarrow> cursor \<Rightarrow> unit io" where
  "br_seek pos c = (if cu_size c < pos then (Inl Ser_buffer_underrun, c) else (Inr (), cu_seek pos c))"

definition br_skip :: "nat \<Rightarrow> cursor \<Rightarrow> unit io" where
  "br_skip n c = (if \<not> cu_has n c then (Inl Ser_buffer_underrun, c) else (Inr (), cu_advance n c))"

definition br_read :: "cursor \<Rightarrow> ('a::len word) io" where
  "br_read c =
     (if \<not> cu_has (size_of TYPE('a word)) c then (Inl Ser_buffer_underrun, c)
      else (Inr (read_le (cu_data c)), cu_advance (size_of TYPE('a word)) c))"

definition br_read_bool :: "cursor \<Rightarrow> bool io" where
  "br_read_bool c =
     (if \<not> cu_has 1 c then (Inl Ser_buffer_underrun, c)
      else
        let raw = cu_data c ! 0
        in if 1 < raw then (Inl Ser_invalid_input, c) else (Inr (raw \<noteq> 0), cu_advance 1 c))"

definition br_peek :: "cursor \<Rightarrow> serialization_error + 'a::len word" where
  "br_peek c =
     (if \<not> cu_has (size_of TYPE('a word)) c then Inl Ser_buffer_underrun
      else Inr (read_le (cu_data c)))"

definition br_read_bytes :: "nat \<Rightarrow> cursor \<Rightarrow> byte list io" where
  "br_read_bytes n c =
     (if \<not> cu_has n c then (Inl Ser_buffer_underrun, c)
      else case cu_take n c of (p, c') \<Rightarrow> (Inr p, c'))"

text \<open>\<open>read_array\<close> fills an output of \<open>k\<close> elements; the elements are read where they lie.\<close>

definition br_read_array :: "nat \<Rightarrow> cursor \<Rightarrow> ('a::len word list) io" where
  "br_read_array k c =
     (if cu_remaining c div size_of TYPE('a word) < k then (Inl Ser_buffer_underrun, c)
      else
        let n = k * size_of TYPE('a word)
        in (Inr (map (\<lambda>i. read_le (drop (i * size_of TYPE('a word)) (cu_data c))) [0..<k]), cu_advance n c))"

function read_varint_loop :: "nat \<Rightarrow> u64 \<Rightarrow> cursor \<Rightarrow> u64 io" where
  "read_varint_loop i value c =
     (if 10 \<le> i then (Inl Ser_invalid_input, c)
      else if \<not> cu_has 1 c then (Inl Ser_buffer_underrun, c)
      else
        let (b, c') = cu_next c
        in if i = 9 \<and> 1 < b AND 0x7F then (Inl Ser_invalid_input, c')
           else
             let value' = value OR push_bit (7 * i) (ucast (b AND 0x7F))
             in if b AND 0x80 = 0 then (Inr value', c') else read_varint_loop (Suc i) value' c')"
  by pat_completeness auto
termination by (relation "measure (\<lambda>(i, v, c). 10 - i)") auto

declare read_varint_loop.simps [simp del]

definition br_read_varint :: "cursor \<Rightarrow> u64 io" where
  "br_read_varint c = read_varint_loop 0 0 c"

definition br_read_zigzag :: "cursor \<Rightarrow> u64 io" where
  "br_read_zigzag c =
     and_then (br_read_varint c) (\<lambda>u c. (Inr (drop_bit 1 u XOR (0 - (u AND 1))), c))"

definition br_read_string :: "nat \<Rightarrow> cursor \<Rightarrow> byte list io" where
  "br_read_string max_str c =
     and_then (br_read_varint c) (\<lambda>len c.
       if max_str < unat len then (Inl Ser_string_too_long, c)
       else
         let n = unat len
         in if \<not> cu_has n c then (Inl Ser_buffer_underrun, c)
            else (Inr (take n (cu_data c)), cu_advance n c))"

subsection \<open>Variable-length integers\<close>

function varint_bytes :: "u64 \<Rightarrow> byte list" where
  "varint_bytes v =
     (if 0x80 \<le> v then ucast (v AND 0x7F OR 0x80) # varint_bytes (drop_bit 7 v) else [ucast v])"
  by pat_completeness auto
termination by (relation "measure unat") (auto simp: shift_less)

declare varint_bytes.simps [simp del]

lemma length_varint_bytes [simp]: "length (varint_bytes v) = varint_size v"
  by (induction v rule: varint_bytes.induct) (simp add: varint_bytes.simps varint_size.simps)

lemma put_varint_bytes: "cursor_ok c \<Longrightarrow> cu_has (varint_size v) c \<Longrightarrow> put_varint v c = put_bytes (varint_bytes v) c"
proof (induction v c rule: put_varint.induct)
  case (1 v c)
  show ?case
  proof (cases "0x80 \<le> v")
    case True
    let ?b = "ucast (v AND 0x7F OR 0x80) :: byte"
    have sz: "varint_size v = Suc (varint_size (drop_bit 7 v))"
      using True by (simp add: varint_size.simps [of v])
    with 1 have has: "cu_has (Suc (varint_size (drop_bit 7 v))) c" by simp
    then have one: "cu_has 1 c" by (rule cu_has_prefix)
    have put: "cu_put ?b c = put_bytes [?b] c" using one by (rule cu_put_bytes)
    have "put_varint v c = put_varint (drop_bit 7 v) (cu_put ?b c)"
      using True by (subst put_varint.simps) simp
    also have "\<dots> = put_bytes (varint_bytes (drop_bit 7 v)) (cu_put ?b c)"
      using True 1 one has by (intro 1(1)) (simp_all add: put cu_has_put)
    finally show ?thesis using True 1 by (simp add: put put_bytes_append varint_bytes.simps [of v])
  next
    case False
    with 1 show ?thesis
      by (simp add: put_varint.simps [of v] varint_bytes.simps [of v] varint_size.simps [of v] cu_put_bytes)
  qed
qed

text \<open>The seven payload bits and the continuation bit of a byte.\<close>

lemma mask7: "(0x7F :: 'a::len word) = mask 7" "(0x7F :: byte) = mask 7"
  by (simp_all add: mask_numeral)

lemma bit_0x80: "bit (0x80 :: u64) n \<longleftrightarrow> n = 7" "bit (0x80 :: byte) n \<longleftrightarrow> n = 7"
proof -
  have e: "(0x80 :: u64) = push_bit 7 1" "(0x80 :: byte) = push_bit 7 1" by simp_all
  show "bit (0x80 :: u64) n \<longleftrightarrow> n = 7" "bit (0x80 :: byte) n \<longleftrightarrow> n = 7"
    unfolding e bit_push_bit_iff by (auto simp: bit_1_iff)
qed

lemma payload_last:
  fixes v :: u64
  assumes "\<not> 0x80 \<le> v"
  shows "(ucast ((ucast v :: byte) AND 0x7F) :: u64) = v" and "(ucast v :: byte) AND 0x80 = 0"
    and "unat ((ucast v :: byte) AND 0x7F) = unat v"
proof -
  have "unat v < 2 ^ 7" using assms by (simp add: word_le_nat_alt)
  then have t: "take_bit 7 v = v" by (simp add: word_unat_eq_iff unsigned_take_bit_eq take_bit_nat_eq_self)
  have bits: "bit v n \<Longrightarrow> n < 7" for n using t by (metis bit_take_bit_iff)
  show "(ucast ((ucast v :: byte) AND 0x7F) :: u64) = v"
    unfolding mask7(2) by (rule bit_word_eqI) (auto simp: bit_ucast_iff bit_and_iff bit_mask_iff dest: bits)
  moreover have "unat (ucast x :: u64) = unat x" for x :: byte
    by (simp add: unsigned_ucast_eq take_bit_nat_eq_self order_less_le_trans [OF unat_byte_less])
  ultimately show "unat ((ucast v :: byte) AND 0x7F) = unat v" by metis
  show "(ucast v :: byte) AND 0x80 = 0"
    by (rule bit_word_eqI) (simp only: bit_ucast_iff bit_and_iff bit_0x80, auto dest: bits)
qed

lemma payload_more:
  fixes v :: u64
  shows "(ucast ((ucast (v AND 0x7F OR 0x80) :: byte) AND 0x7F) :: u64) = v AND mask 7"
    and "(ucast (v AND 0x7F OR 0x80) :: byte) AND 0x80 \<noteq> 0"
proof -
  show "(ucast ((ucast (v AND 0x7F OR 0x80) :: byte) AND 0x7F) :: u64) = v AND mask 7"
    unfolding mask7
    by (rule bit_word_eqI) (simp only: bit_ucast_iff bit_and_iff bit_or_iff bit_mask_iff bit_0x80, auto)
  have "bit ((ucast (v AND 0x7F OR 0x80) :: byte) AND 0x80) 7"
    by (simp add: bit_ucast_iff bit_and_iff bit_or_iff bit_0x80 del: bit_numeral_iff)
  then show "(ucast (v AND 0x7F OR 0x80) :: byte) AND 0x80 \<noteq> 0" by (metis bit_0_eq bot_apply bot_bool_def)
qed

lemma varint_rejoin:
  "push_bit k (v AND mask 7) OR push_bit (k + 7) (drop_bit 7 v) = push_bit k v" for v :: u64
proof (rule bit_word_eqI)
  fix n assume "n < LENGTH(64)"
  moreover have "k + 7 \<le> n \<Longrightarrow> 7 + (n - (k + 7)) = n - k" by simp
  ultimately show "bit (push_bit k (v AND mask 7) OR push_bit (k + 7) (drop_bit 7 v)) n = bit (push_bit k v) n"
    by (cases "k + 7 \<le> n") (auto simp: bit_or_iff bit_push_bit_iff bit_and_iff bit_mask_iff bit_drop_bit_eq)
qed

lemma read_varint_loop_bytes:
  assumes "cu_data c = varint_bytes v @ ys" and "i \<le> 9" and "unat v < 2 ^ (64 - 7 * i)"
  shows "read_varint_loop i acc c = (Inr (acc OR push_bit (7 * i) v), cu_advance (varint_size v) c)"
  using assms
proof (induction v arbitrary: i acc c rule: varint_bytes.induct)
  case (1 v)
  show ?case
  proof (cases "0x80 \<le> v")
    case False
    then have d: "cu_data c = ucast v # ys" using 1 by (simp add: varint_bytes.simps [of v])
    have "i = 9 \<Longrightarrow> \<not> 1 < (ucast v :: byte) AND 0x7F"
      using 1(4) payload_last(3) [OF False] by (simp add: word_less_nat_alt)
    then show ?thesis using payload_last [OF False] 1(3) has_one [OF d] cu_next_cons [OF d] False
      by (subst read_varint_loop.simps) (auto simp: varint_size.simps [of v])
  next
    case True
    let ?b = "ucast (v AND 0x7F OR 0x80) :: byte"
    have d: "cu_data c = ?b # varint_bytes (drop_bit 7 v) @ ys"
      using True 1 by (simp add: varint_bytes.simps [of v])
    have ge: "128 \<le> unat v" using True by (simp add: word_le_nat_alt)
    have i: "i \<le> 8"
    proof (rule ccontr)
      assume "\<not> i \<le> 8"
      with 1(3) have "i = 9" by simp
      with 1(4) ge show False by simp
    qed
    have "64 - 7 * i = (64 - 7 * Suc i) + 7" using i by simp
    then have "(2 :: nat) ^ (64 - 7 * i) = 2 ^ (64 - 7 * Suc i) * 128" by (simp only: power_add) simp
    with 1(4) have "unat (drop_bit 7 v) < 2 ^ (64 - 7 * Suc i)"
      by (simp add: drop_bit_eq_div unat_div less_mult_imp_div_less)
    then have ih: "read_varint_loop (Suc i) acc' (cu_advance 1 c) =
        (Inr (acc' OR push_bit (7 * Suc i) (drop_bit 7 v)), cu_advance (varint_size (drop_bit 7 v)) (cu_advance 1 c))" for acc'
      using True i cu_data_tail [OF d] by (intro 1(1)) auto
    have "read_varint_loop i acc c =
        read_varint_loop (Suc i) (acc OR push_bit (7 * i) (v AND mask 7)) (cu_advance 1 c)"
      using i has_one [OF d] cu_next_cons [OF d] payload_more [of v]
      by (subst read_varint_loop.simps) (simp add: Let_def)
    also have "\<dots> = (Inr (acc OR push_bit (7 * i) v), cu_advance (varint_size v) c)"
      unfolding ih using True varint_rejoin [of "7 * i" v]
      by (simp add: varint_size.simps [of v] or.assoc add.commute)
    finally show ?thesis .
  qed
qed

lemma zigzag_round_trip:
  fixes v :: u64
  defines "u \<equiv> push_bit 1 v XOR signed_drop_bit 63 v"
  shows "drop_bit 1 u XOR (0 - (u AND 1)) = v"
proof -
  have u: "bit u n \<longleftrightarrow> n < 64 \<and> ((0 < n \<and> bit v (n - 1)) \<noteq> bit v 63)" for n
    unfolding u_def bit_xor_iff bit_push_bit_iff bit_signed_drop_bit_iff by (cases n) (auto dest: bit_imp_le_length)
  have sign: "0 - (u AND 1) = (if bit v 63 then - 1 else 0)"
    using u [of 0] by (simp add: and_one_eq mod_2_eq_odd bit_0)
  show ?thesis
  proof (rule bit_word_eqI)
    fix n assume "n < LENGTH(64)"
    then show "bit (drop_bit 1 u XOR (0 - (u AND 1))) n = bit v n"
      unfolding sign by (cases "n = 63") (auto simp: bit_xor_iff bit_drop_bit_eq u)
  qed
qed

subsection \<open>The encoding of a value\<close>

datatype bin_value =
    Bin_u8 u8 | Bin_u16 u16 | Bin_u32 u32 | Bin_u64 u64 | Bin_bool bool
  | Bin_varint u64 | Bin_zigzag u64 | Bin_string "byte list" | Bin_bytes "byte list" | Bin_u32s "u32 list"

fun bin_enc :: "bin_value \<Rightarrow> byte list" where
  "bin_enc (Bin_u8 v) = le_bytes v"
| "bin_enc (Bin_u16 v) = le_bytes v"
| "bin_enc (Bin_u32 v) = le_bytes v"
| "bin_enc (Bin_u64 v) = le_bytes v"
| "bin_enc (Bin_bool v) = le_bytes (if v then 1 else 0 :: u8)"
| "bin_enc (Bin_varint v) = varint_bytes v"
| "bin_enc (Bin_zigzag v) = varint_bytes (push_bit 1 v XOR signed_drop_bit 63 v)"
| "bin_enc (Bin_string s) = varint_bytes (of_nat (length s)) @ s"
| "bin_enc (Bin_bytes s) = s"
| "bin_enc (Bin_u32s xs) = concat (map le_bytes xs)"

text \<open>A string must also pass the reader's limit.\<close>

fun bin_fits :: "nat \<Rightarrow> bin_value \<Rightarrow> bool" where
  "bin_fits max_str (Bin_string s) = (length s < 2 ^ 32 \<and> length s \<le> max_str)"
| "bin_fits max_str v = True"

fun bin_write :: "bin_value \<Rightarrow> cursor \<Rightarrow> unit io" where
  "bin_write (Bin_u8 v) = bw_write v"
| "bin_write (Bin_u16 v) = bw_write v"
| "bin_write (Bin_u32 v) = bw_write v"
| "bin_write (Bin_u64 v) = bw_write v"
| "bin_write (Bin_bool v) = bw_write_bool v"
| "bin_write (Bin_varint v) = bw_write_varint v"
| "bin_write (Bin_zigzag v) = bw_write_zigzag v"
| "bin_write (Bin_string s) = bw_write_string s"
| "bin_write (Bin_bytes s) = bw_write_bytes s"
| "bin_write (Bin_u32s xs) = bw_write_array xs"

fun bin_read :: "nat \<Rightarrow> bin_value \<Rightarrow> cursor \<Rightarrow> bin_value io" where
  "bin_read m (Bin_u8 _) c = map_io Bin_u8 (br_read c)"
| "bin_read m (Bin_u16 _) c = map_io Bin_u16 (br_read c)"
| "bin_read m (Bin_u32 _) c = map_io Bin_u32 (br_read c)"
| "bin_read m (Bin_u64 _) c = map_io Bin_u64 (br_read c)"
| "bin_read m (Bin_bool _) c = map_io Bin_bool (br_read_bool c)"
| "bin_read m (Bin_varint _) c = map_io Bin_varint (br_read_varint c)"
| "bin_read m (Bin_zigzag _) c = map_io Bin_zigzag (br_read_zigzag c)"
| "bin_read m (Bin_string _) c = map_io Bin_string (br_read_string m c)"
| "bin_read m (Bin_bytes s) c = map_io Bin_bytes (br_read_bytes (length s) c)"
| "bin_read m (Bin_u32s xs) c = map_io Bin_u32s (br_read_array (length xs) c)"

subsection \<open>Writers write the encoding, or nothing\<close>

lemma length_concat_words [simp]:
  "length (concat (map le_bytes xs)) = length xs * size_of TYPE('a word)" for xs :: "'a::len word list"
  by (induction xs) simp_all

lemma bw_write_enc: "cursor_ok c \<Longrightarrow> bw_write (v :: 'a::len word) c =
  (if cu_has (length (le_bytes v)) c then (Inr (), put_bytes (le_bytes v) c) else (Inl Ser_buffer_full, c))"
  by (simp add: bw_write_def cu_advance_store)

lemma cu_has_div:
  "0 < k \<Longrightarrow> cu_remaining c div k < n \<longleftrightarrow> \<not> cu_has (n * k) c"
  by (simp add: cu_has_def div_less_iff_less_mult not_le)

lemma bw_write_array_enc: "cursor_ok c \<Longrightarrow> 0 < size_of TYPE('a word) \<Longrightarrow> bw_write_array (xs :: 'a::len word list) c =
  (if cu_has (length (concat (map le_bytes xs))) c then (Inr (), put_bytes (concat (map le_bytes xs)) c)
   else (Inl Ser_buffer_full, c))"
  by (cases "xs = []") (simp add: bw_write_array_def cu_advance_def cu_has_def,
      simp add: bw_write_array_def cu_has_div cu_advance_store Let_def)

lemma bin_write_enc:
  assumes ok: "cursor_ok c" and fit: "bin_fits m v"
  shows "bin_write v c = (if cu_has (length (bin_enc v)) c then (Inr (), put_bytes (bin_enc v) c)
    else (Inl Ser_buffer_full, c))"
proof (cases v)
  case (Bin_string s)
  have p: "bw_fits_prefixed p b c \<longleftrightarrow> cu_has (p + b) c" for p b
    by (auto simp: bw_fits_prefixed_def cu_has_def Let_def)
  let ?n = "of_nat (length s) :: u64"
  show ?thesis
  proof (cases "cu_has (varint_size ?n + length s) c")
    case True
    then have "cu_has (varint_size ?n) c" by (rule cu_has_prefix)
    then have "put_varint ?n c = put_bytes (varint_bytes ?n) c" using ok by (rule put_varint_bytes [rotated])
    moreover have "cu_advance (length s) (if s \<noteq> [] then cu_store s c' else c') = put_body s c'" for c'
      by (simp add: put_body_def)
    ultimately show ?thesis using Bin_string fit True ok
      by (simp add: bw_write_string_def p put_body_bytes Let_def)
  next
    case False
    then show ?thesis using Bin_string fit by (simp add: bw_write_string_def p Let_def)
  qed
next
  case (Bin_bytes s)
  have "cu_advance (length s) (if s \<noteq> [] then cu_store s c else c) = put_body s c"
    by (simp add: put_body_def)
  with put_body_bytes [OF ok, of s "[]"] ok Bin_bytes show ?thesis
    by (simp add: bw_write_bytes_def)
next
  case (Bin_u32s xs)
  then show ?thesis using ok bw_write_array_enc [of c xs] by simp
qed (use ok in \<open>simp_all add: bw_write_enc bw_write_bool_def bw_write_varint_def bw_write_zigzag_def
      put_varint_bytes Let_def\<close>)

subsection \<open>Readers read it back\<close>

lemma br_read_enc:
  assumes "cu_data c = le_bytes v @ ys" and "8 * size_of TYPE('a word) = LENGTH('a)"
  shows "br_read c = (Inr (v :: 'a::len word), cu_advance (size_of TYPE('a word)) c)"
  using assms by (simp add: br_read_def cu_has_data)

lemma drop_words:
  "k < length ws \<Longrightarrow> \<exists>zs. drop (k * size_of TYPE('a word)) (concat (map le_bytes ws) @ ys) = le_bytes (ws ! k) @ zs"
  for ws :: "'a::len word list"
proof (induction ws arbitrary: k)
  case (Cons w ws)
  then show ?case
  proof (cases "k = 0")
    case False
    then obtain j where k: "k = Suc j" by (cases k) auto
    have "drop (k * size_of TYPE('a word)) (concat (map le_bytes (w # ws)) @ ys) =
        drop (j * size_of TYPE('a word)) (concat (map le_bytes ws) @ ys)"
      by (simp add: k)
    with Cons k show ?thesis by simp
  qed simp
qed simp

lemma read_words:
  assumes "8 * size_of TYPE('a word) = LENGTH('a)"
  shows "map (\<lambda>i. read_le (drop (i * size_of TYPE('a word)) (concat (map le_bytes xs) @ ys))) [0..<length xs] =
    (xs :: 'a::len word list)"
proof (rule nth_equalityI)
  fix i assume "i < length (map (\<lambda>i. read_le (drop (i * size_of TYPE('a word)) (concat (map le_bytes xs) @ ys)) :: 'a word) [0..<length xs])"
  then have i: "i < length xs" by simp
  from drop_words [OF i, of ys] obtain zs
    where "drop (i * size_of TYPE('a word)) (concat (map le_bytes xs) @ ys) = le_bytes (xs ! i) @ zs" by blast
  with i assms show "map (\<lambda>i. read_le (drop (i * size_of TYPE('a word)) (concat (map le_bytes xs) @ ys))) [0..<length xs] ! i = xs ! i"
    by (simp del: drop_append)
qed simp

lemma br_read_varint_enc:
  "cu_data c = varint_bytes v @ ys \<Longrightarrow> br_read_varint c = (Inr v, cu_advance (varint_size v) c)"
  using read_varint_loop_bytes [of c v ys 0 0] unsigned_less [of v, where ?'a = nat]
  by (simp add: br_read_varint_def)

lemma bin_read_enc:
  assumes "cu_data c = bin_enc v @ ys" and "bin_fits m v"
  shows "bin_read m v c = (Inr v, cu_advance (length (bin_enc v)) c)"
proof (cases v)
  case (Bin_string s)
  let ?n = "of_nat (length s) :: u64"
  have d: "cu_data c = varint_bytes ?n @ s @ ys" and len: "unat ?n = length s"
    using assms Bin_string by (simp_all add: unat_of_nat_less)
  have "cu_data (cu_advance (varint_size ?n) c) = s @ ys" using cu_data_advance [OF d] by simp
  with br_read_varint_enc [OF d] len assms(2) Bin_string show ?thesis
    by (simp add: map_io_def br_read_string_def cu_has_data Let_def)
next
  case (Bin_bytes s)
  with assms show ?thesis by (simp add: map_io_def br_read_bytes_def cu_has_data cu_take_advance)
next
  case (Bin_u32s xs)
  with assms have d: "cu_data c = concat (map le_bytes xs) @ ys" by simp
  then have "cu_has (length xs * 4) c" by (simp add: cu_has_data)
  with read_words [of xs ys] Bin_u32s show ?thesis
    using cu_has_div [of 4 c "length xs"] by (simp add: map_io_def br_read_array_def d Let_def)
next
  case (Bin_bool b)
  with assms have "cu_data c = (if b then 1 else 0) # ys" by (simp add: le_bytes_def)
  with Bin_bool show ?thesis
    by (auto simp: map_io_def br_read_bool_def has_one split: if_splits)
next
  case (Bin_varint w)
  with assms show ?thesis by (simp add: map_io_def br_read_varint_enc)
next
  case (Bin_zigzag w)
  with assms show ?thesis
    using zigzag_round_trip [of w] by (simp add: map_io_def br_read_zigzag_def br_read_varint_enc)
qed (use assms in \<open>simp_all add: map_io_def br_read_enc\<close>)

lemma bin_write_unfit:
  "\<not> bin_fits (2 ^ 32 - 1) v \<Longrightarrow> bin_write v c = (Inl Ser_string_too_long, c)"
  by (cases v) (auto simp: bw_write_string_def)

text \<open>The reader with its string limit raised to what the writer can write.\<close>

interpretation binary: item_codec bin_write "bin_read (2 ^ 32 - 1)" bin_enc "bin_fits (2 ^ 32 - 1)"
  "\<lambda>v. v" Ser_buffer_full
proof unfold_locales
  show "cursor_ok c \<Longrightarrow> bin_fits (2 ^ 32 - 1) v \<Longrightarrow> bin_write v c =
      (if cu_has (length (bin_enc v)) c then (Inr (), put_bytes (bin_enc v) c) else (Inl Ser_buffer_full, c))" for c v
    by (rule bin_write_enc)
  show "\<not> bin_fits (2 ^ 32 - 1) v \<Longrightarrow> length (cu_buf c) < 2 ^ 64 \<Longrightarrow> \<exists>e. bin_write v c = (Inl e, c)" for v c
    using bin_write_unfit by blast
  show "cu_data c = bin_enc v @ ys \<Longrightarrow> bin_fits (2 ^ 32 - 1) v \<Longrightarrow>
      bin_read (2 ^ 32 - 1) v c = (Inr v, cu_advance (length (bin_enc v)) c)" for c v ys
    by (rule bin_read_enc)
qed

subsection \<open>Properties\<close>

text \<open>Round trip of the plain binary stream: what the writer accepted in full (fixed-width values,
  varints, zigzag integers, strings, raw bytes and arrays, in any order) is read back unchanged, with
  nothing left over, by a reader whose string limit is the writer's.\<close>

lemma binary_stream_round_trip:
  assumes "length buf < 2 ^ 64" and "write_seq bin_write vs (cu_make buf) = (Inr (), c)"
  shows "\<exists>c'. read_seq (bin_read (2 ^ 32 - 1)) vs (cu_make (cu_consumed c)) = (Inr vs, c') \<and> cu_exhausted c'"
  using binary.stream_round_trip [OF assms] by simp

text \<open>Reading a varint ends after at most ten bytes, whatever the input, and does not touch the
  buffer.\<close>

lemma varint_read_bounded:
  "cu_pos (snd (br_read_varint c)) \<le> cu_pos c + 10 \<and> cu_buf (snd (br_read_varint c)) = cu_buf c"
proof -
  have "cu_pos (snd (read_varint_loop i v c)) \<le> cu_pos c + (10 - i) \<and>
      cu_buf (snd (read_varint_loop i v c)) = cu_buf c" for i v c
  proof (induction i v c rule: read_varint_loop.induct)
    case (1 i v c)
    let ?b = "cu_buf c ! cu_pos c"
    let ?v = "v OR push_bit (7 * i) (ucast (?b AND 0x7F))"
    show ?case
    proof (cases "10 \<le> i \<or> \<not> cu_has 1 c \<or> i = 9 \<and> 1 < ?b AND 0x7F \<or> ?b AND 0x80 = 0")
      case True
      then show ?thesis by (subst (1 2) read_varint_loop.simps) (auto simp: cu_next_advance Let_def)
    next
      case False
      then have "read_varint_loop i v c = read_varint_loop (Suc i) ?v (cu_advance 1 c)"
        by (subst read_varint_loop.simps) (auto simp: cu_next_advance Let_def)
      moreover have "cu_pos (snd (read_varint_loop (Suc i) ?v (cu_advance 1 c))) \<le>
          cu_pos (cu_advance 1 c) + (10 - Suc i) \<and>
          cu_buf (snd (read_varint_loop (Suc i) ?v (cu_advance 1 c))) = cu_buf (cu_advance 1 c)"
        using False by (intro 1) (auto simp: cu_next_advance)
      ultimately show ?thesis using False by auto
    qed
  qed
  from this [of 0 0 c] show ?thesis by (simp add: br_read_varint_def)
qed

end
