(* ===== verification/Spec2Isabelle.thy ===== *)
theory Spec2Isabelle
  imports Frame_Codec J1939_Transport Components Dijkstra Topological_Sort Slot_Map Spsc_Queue
    Loopback_Bus Packing_Plan Base_N Crc Modular_Sum Flat_Hash_Set Lru_Cache String_Search Edit_Distance Integer_Sort Gap_Buffer Dense_Map Entity_Registry Signal Bimap Bitset Msgpack Cbor Binary_Stream
begin

text \<open>
  A verification library for the nexenne C++ modules. The repository is a set of header-only modules
  under \<open>src/modules\<close>; each is used on its own, and the ones modelled here call each other as follows.

  \<^item> \<open>utility\<close> holds what the others share: the COBS codec, the buffer cursor, byte order, flag sets.
  \<^item> \<open>serialization\<close> writes and reads MessagePack, CBOR and plain binary streams through the buffer
    cursor, and wraps the COBS codec with its own error type.
  \<^item> \<open>ecs\<close> keeps entities and their components in pools and in a sparse set of \<open>container\<close>.
  \<^item> \<open>container\<close> holds the data structures. \<open>algorithm\<close> runs on its graph, its union-find and its indexed
    priority queue, and has the text encodings, checksums, string searches
    and integer sorts.
  \<^item> \<open>can\<close> holds identifiers, filters, frames, the bit layout of signals and the J1939 transport
    protocol; its loopback bus queues frames in the ring buffer of \<open>container\<close>.
  \<^item> \<open>signal\<close> calls back the functions connected to it; the registry of \<open>ecs\<close> emits one per event.

  \<^bold>\<open>Conventions.\<close> A class is a record of its members and a member function is a function on the record
  that returns the updated record beside its result. \<open>std::expected<T, E>\<close> is the sum \<open>'e + 'a\<close> with the
  error on the left; a function that writes through a span returns the span as well, so what an error
  leaves behind is stated too. Integers keep their width (\<open>8 word\<close> to \<open>64 word\<close>) except
  \<open>std::size_t\<close>, which is \<open>nat\<close>: no object of the program has \<open>2 ^ 64\<close> elements. Where a container
  stores handles or indices in a template type, its width is a type parameter. Loops are recursive
  functions. Where the code ends only because of an invariant the function is a
  \<open>partial_function (option)\<close>, and where it would call \<open>std::terminate\<close> it returns \<open>None\<close>; so \<open>None\<close>
  always means that the code does not return, and the theorems show \<open>Some\<close>. No fuel is used anywhere.
  Asserts are compiled out of release builds and appear as hypotheses. Allocation does not fail.

  \<^bold>\<open>Theories and sources\<close> (paths under \<open>src/modules/<module>/include/nexenne/<module>\<close>).

  \<^item> \<open>Prelude\<close>: machine types, lemmas on lists, words, and removal by moving the last element;
    \<open>Container_Error\<close> and \<open>Serialization_Error\<close>: the error enumerations (\<open>container/error.hpp\<close>,
    \<open>serialization/error.hpp\<close>).
  \<^item> \<open>Cobs\<close> (\<open>utility/cobs.hpp\<close>): encoder and decoder as byte loops over the buffers; a frame function is
    the abstract view. Round trip, absence of zero bytes, the size bound, and a decoder that stays in
    its buffers on every input. \<open>Frame_Codec\<close> states the contract of a zero-free codec as a locale,
    interpreted on that codec and on the two adapters (\<open>serialization/cobs.hpp\<close>,
    \<open>algorithm/encoding/cobs.hpp\<close>).
  \<^item> \<open>Base_N\<close> (\<open>algorithm/encoding/alphabet.hpp\<close>, \<open>base_n.hpp\<close>): one engine for hexadecimal, Base32
    and Base64. The bits of the bytes, most significant first, are the abstract view: both loops
    keep an accumulator whose low bits are what is pending. Round trips for all codecs with the sizes
    the code computes, and that accepted text is canonical up to blanks, padding and case.
  \<^item> \<open>Buffer_Cursor\<close> (\<open>utility/buffer_cursor.hpp\<close>, \<open>endian.hpp\<close>), \<open>Item_Codec\<close> and \<open>Network_Items\<close> (the
    locales a reader and a writer of one item share, and of big-endian items), \<open>Float_Bits\<close>;
    \<open>Msgpack\<close>, \<open>Cbor\<close> (\<open>serialization/msgpack.hpp\<close>, \<open>cbor.hpp\<close>) and \<open>Binary_Stream\<close>
    (\<open>binary/writer.hpp\<close>, \<open>reader.hpp\<close>): every stream of written items is read back item by item; a
    write that does not fit changes nothing; skipping a value passes exactly the bytes of one value,
    whatever its nesting, with the counter the code keeps instead of a stack.
  \<^item> \<open>Flags\<close> (\<open>utility/flags.hpp\<close>): flag sets are sets.
  \<^item> \<open>Can_Id\<close>, \<open>Can_Frame\<close> (\<open>can/id.hpp\<close>, \<open>filter.hpp\<close>, \<open>j1939_id.hpp\<close>, \<open>frame.hpp\<close>, \<open>dlc.hpp\<close>,
    \<open>byte_field.hpp\<close>): the bit layouts and the frame's invariant. \<open>Packing_Plan\<close>
    (\<open>packing_plan.hpp\<close>, the integer half of \<open>codec.hpp\<close>): the plan built byte by byte against the
    position of every bit of the signal in Intel and Motorola order.
  \<^item> \<open>J1939_Transport\<close> (\<open>can/j1939_transport.hpp\<close>): the reassembler as a state machine over the frames it
    is given; the invariant of its session table, the isolation of a sender from all others (a
    projection of the state commutes with every step), the reassembly of a segmented broadcast, and
    eviction from a full table.
  \<^item> \<open>Bounded_Fifo\<close> states the interface of a bounded queue; \<open>Ring_Buffer\<close> (\<open>container/ring_buffer.hpp\<close>)
    and \<open>Spsc_Queue\<close> (\<open>spsc_queue.hpp\<close>) provide it, and \<open>Loopback_Bus\<close> (\<open>can/io/loopback_bus.hpp\<close>) is its
    client. The single-producer single-consumer queue is also a step relation over the separate loads
    and stores of the two threads, sequentially consistent.
  \<^item> \<open>Bitset\<close> (\<open>container/bitset_dynamic.hpp\<close>), \<open>Slot_Map\<close> (\<open>slot_map.hpp\<close>): the unused bits of the last
    word stay zero; generations keep a stale key from ever matching again until a slot's counter wraps.
  \<^item> \<open>Keyed_Map\<close> is the interface of a map; \<open>Flat_Hash_Map\<close> (\<open>container/flat_hash_map.hpp\<close>) provides it: open
    addressing with tombstones, whose invariant places every entry on its probe path and keeps an empty
    slot, so that every probe ends; the abstract view is a finite map. \<open>Flat_Hash_Set\<close>
    (\<open>flat_hash_set.hpp\<close>) is its client, and so is \<open>Bimap\<close> (\<open>bimap.hpp\<close>), two maps kept as a one-to-one
    relation.
  \<^item> \<open>Sparse_Set\<close> (\<open>container/sparse_set.hpp\<close>) and \<open>Dense_Map\<close> (\<open>dense_map.hpp\<close>), which keeps values parallel to
    the set's dense array and is a map by the same interface.
  \<^item> \<open>Component_Pool\<close> (\<open>ecs/component_pool.hpp\<close>): pinned slots with a free stack, against a map from entity
    indices to components, and the interface of such a storage. \<open>Entity_Registry\<close> (\<open>ecs/registry.hpp\<close>,
    \<open>view.hpp\<close>) is its client and that of the sparse set: entities with generations, a table of storages
    by component type, views. Listeners may call the registry again from inside a signal; they are
    functions on the registry, and what they must keep is a well-formedness that names the indices
    whose destruction is under way.
  \<^item> \<open>Signal\<close> (\<open>signal/signal.hpp\<close>): the slots in priority order and what an emission does to them. Callbacks
    may connect, disconnect, emit and destroy; the abstract view is the list of connected slots, an emission
    is a walk over those connected at its start, and a callback is any sequence of the operations.
  \<^item> \<open>Intrusive_List\<close> (\<open>container/intrusive_list.hpp\<close>): the links as a store from addresses to pointers, the
    sequence of elements as the abstract view. \<open>Lru_Cache\<close> (\<open>lru_cache.hpp\<close>) composes it with the hash map,
    whose keys are pointers into a pool that the cache writes; sessions of calls against a list of
    entries in order of use.
  \<^item> \<open>Gap_Buffer\<close> (\<open>container/gap_buffer.hpp\<close>): every editing session against a plain text with a cursor.
  \<^item> \<open>Graph\<close> (\<open>container/graph.hpp\<close>), \<open>Partition\<close> and \<open>Union_Find\<close> (\<open>union_find.hpp\<close>), \<open>Handle_Queue\<close>
    and \<open>Indexed_Priority_Queue\<close> (\<open>indexed_priority_queue.hpp\<close>): each with an abstract state (edges, a
    partition, a map from live handles to values) and a locale for it.
  \<^item> \<open>Crc\<close> and \<open>Modular_Sum\<close> (\<open>algorithm/checksum/crc.hpp\<close>, \<open>modular_sum.hpp\<close>): the table-driven CRC is the bitwise
    shift register and detects every short burst; the deferred reductions of Adler-32 and the Fletcher
    sums stay inside their 64-bit accumulators.
  \<^item> \<open>String_Search\<close> (\<open>algorithm/string/kmp.hpp\<close>, \<open>boyer_moore.hpp\<close>, \<open>z_function.hpp\<close>): every searcher against the
    positions where the pattern occurs; \<open>Edit_Distance\<close> (\<open>levenshtein.hpp\<close>): the table against sequences of
    edits; \<open>Integer_Sort\<close> (\<open>algorithm/sort/counting_sort.hpp\<close>, \<open>radix_sort.hpp\<close>): both are the sorted list.
  \<^item> \<open>Graph_Search\<close>, \<open>Topological_Sort\<close>, \<open>Components\<close>, \<open>Dijkstra\<close> (\<open>algorithm/graph/bfs.hpp\<close>, \<open>dfs.hpp\<close>,
    \<open>topological_sort.hpp\<close>, \<open>connected_components.hpp\<close>, \<open>kruskal_mst.hpp\<close>, \<open>dijkstra.hpp\<close>), proved through
    the interfaces of the data structures they call.

  \<^bold>\<open>Parameters.\<close> The comparison of the priority queue, the visitor of the searches and the sort used by
  Kruskal's algorithm are arguments, as are the hash and the key comparison of the hash map and what a
  moved-from element of the gap buffer holds, the listeners of the registry, the callables of a signal and the callback of a view; what is assumed of them (a strict weak order, nothing, a sorted
  permutation, that equal keys have equal hashes) is a hypothesis of the theorems that need it, and each has a witness with a concrete one.

  \<^bold>\<open>Not modelled.\<close> Code whose meaning is floating-point arithmetic (mathematics, geometry, filters,
  numerical algorithms, distributions, physical values of CAN signals), system calls and devices
  (SocketCAN, GPIO, clocks, log sinks), the handles that own connections, and what
  lives in the type system (strong typedefs, metaprogramming, formatting). Weak memory is not
  modelled. Of the discrete code the remaining containers, non-cryptographic hashes, string and
  graph algorithms and JSON are future extensions.
\<close>

end
